(* ===== verification/Prelude.thy ===== *)
theory Prelude
  imports Complex_Main "HOL-Library.AList" "HOL-Library.Multiset" "HOL-Library.Sublist"
begin

text \<open>
  Shared vocabulary of the development: the Python exceptions the modelled code raises or
  propagates, results that keep the mutated state next to the outcome (an exception does not
  undo the assignments made before it), Python dictionaries as association lists where their
  iteration order is observable, decimal printing of the integers that occur inside generated
  keys, and the list lemmas the components share.
\<close>

named_theorems sched_inv_intros \<open>preservation lemmas of the diffusion scheduler invariant\<close>
named_theorems py_simps \<open>defining equations of the small Python helpers\<close>

section \<open>Exceptions and results\<close>

text \<open>Only the class of an exception is modelled, not its message.\<close>

datatype py_error =
    ValueError | KeyError | TypeError | RuntimeError | AssertionError | IndexError
  | MemoryError | ZeroDivisionError | EngineDeadError | OSError | AttributeError | NameError

type_synonym 'a res = "py_error + 'a"

text \<open>A text is the list of its Unicode code points; identifiers and keys are strings.\<close>

type_synonym text_t = "nat list"

definition ok :: "'a res \<Rightarrow> bool" where
  "ok r = (case r of Inl _ \<Rightarrow> False | Inr _ \<Rightarrow> True)"

lemma ok_simps [simp]: "ok (Inr x)" "\<not> ok (Inl e)"
  by (simp_all add: ok_def)

definition bind_res :: "'a res \<Rightarrow> ('a \<Rightarrow> 'b res) \<Rightarrow> 'b res" where
  "bind_res r f = (case r of Inl e \<Rightarrow> Inl e | Inr x \<Rightarrow> f x)"

lemma bind_res_simps [simp]: "bind_res (Inl e) f = Inl e" "bind_res (Inr x) f = f x"
  by (simp_all add: bind_res_def)

lemma bind_res_Inr: "bind_res r f = Inr y \<longleftrightarrow> (\<exists>x. r = Inr x \<and> f x = Inr y)"
  by (cases r) auto

text \<open>A loop that collects results and stops at the first exception.\<close>

fun traverse :: "('a \<Rightarrow> 'b res) \<Rightarrow> 'a list \<Rightarrow> 'b list res" where
  "traverse f [] = Inr []"
| "traverse f (x # xs) = bind_res (f x) (\<lambda>y. bind_res (traverse f xs) (\<lambda>ys. Inr (y # ys)))"

lemma traverse_map: "(\<And>x. x \<in> set xs \<Longrightarrow> f x = Inr (g x)) \<Longrightarrow> traverse f xs = Inr (map g xs)"
  by (induction xs) simp_all

lemma traverse_mapped: "(\<And>x. x \<in> set xs \<Longrightarrow> f (g x) = Inr (h x)) \<Longrightarrow> traverse f (map g xs) = Inr (map h xs)"
  by (induction xs) simp_all

lemma traverse_append: "traverse f (xs @ ys) = bind_res (traverse f xs) (\<lambda>a. bind_res (traverse f ys) (\<lambda>b. Inr (a @ b)))"
proof (induction xs)
  case Nil
  show ?case by (cases "traverse f ys") simp_all
next
  case (Cons x xs)
  show ?case by (cases "f x"; cases "traverse f xs"; cases "traverse f ys") (simp_all add: Cons)
qed

section \<open>Python dictionaries and lists\<close>

text \<open>
  \<open>dict_set\<close> is \<open>d[k] = v\<close>: an existing key keeps its position, a new key goes to the end.
  \<open>dict_pop\<close> is \<open>d.pop(k, None)\<close>; lookup is \<open>map_of\<close>.
\<close>

abbreviation dict_set :: "'k \<Rightarrow> 'v \<Rightarrow> ('k \<times> 'v) list \<Rightarrow> ('k \<times> 'v) list" where
  "dict_set \<equiv> AList.update"

abbreviation dict_pop :: "'k \<Rightarrow> ('k \<times> 'v) list \<Rightarrow> ('k \<times> 'v) list" where
  "dict_pop \<equiv> AList.delete"

lemma map_of_dict_set: "map_of (dict_set k v d) = (map_of d)(k \<mapsto> v)"
  by (rule update_conv')

lemma map_of_dict_pop: "map_of (dict_pop k d) = (map_of d)(k := None)"
  by (rule delete_conv')

lemma map_of_fold_pop: "map_of (fold dict_pop ks d) r = (if r \<in> set ks then None else map_of d r)"
  by (induction ks arbitrary: d) (auto simp: map_of_dict_pop)

lemma keys_fold_pop: "distinct (map fst d) \<Longrightarrow> distinct (map fst (fold dict_pop ks d))"
  by (induction ks arbitrary: d) (simp_all add: distinct_delete)

lemma dict_set_new: "k \<notin> fst ` set d \<Longrightarrow> dict_set k v d = d @ [(k, v)]"
  by (induction d) auto

lemma dict_set_last: "k \<notin> fst ` set d \<Longrightarrow> dict_set k v (d @ [(k, w)]) = d @ [(k, v)]"
  by (induction d) auto

lemma foldl_dict_set:
  "distinct (map fst (acc @ l)) \<Longrightarrow> foldl (\<lambda>d (k, v). dict_set k v d) acc l = acc @ l"
proof (induction l arbitrary: acc)
  case (Cons x l)
  obtain k v where x: "x = (k, v)" by (cases x)
  have "k \<notin> fst ` set acc" using Cons.prems x by auto
  then have "dict_set k v acc = acc @ [x]" by (simp add: dict_set_new x)
  with Cons x show ?case by simp
qed simp

text \<open>\<open>d[k]\<close>\<close>

definition dict_get :: "('k \<times> 'v) list \<Rightarrow> 'k \<Rightarrow> 'v res" where
  "dict_get d k = (case map_of d k of None \<Rightarrow> Inl KeyError | Some v \<Rightarrow> Inr v)"

text \<open>\<open>dict.fromkeys(xs)\<close>: the elements in order of their first occurrence.\<close>

fun fromkeys_acc :: "'a list \<Rightarrow> 'a list \<Rightarrow> 'a list" where
  "fromkeys_acc seen [] = []"
| "fromkeys_acc seen (x # xs) =
     (if x \<in> set seen then fromkeys_acc seen xs else x # fromkeys_acc (x # seen) xs)"

definition fromkeys :: "'a list \<Rightarrow> 'a list" where
  "fromkeys xs = fromkeys_acc [] xs"

lemma set_fromkeys_acc: "set (fromkeys_acc seen xs) = set xs - set seen"
  by (induction seen xs rule: fromkeys_acc.induct) auto

lemma distinct_fromkeys_acc: "distinct (fromkeys_acc seen xs)"
  by (induction seen xs rule: fromkeys_acc.induct) (auto simp: set_fromkeys_acc)

lemma set_fromkeys [simp]: "set (fromkeys xs) = set xs"
  by (simp add: fromkeys_def set_fromkeys_acc)

lemma distinct_fromkeys [simp]: "distinct (fromkeys xs)"
  by (simp add: fromkeys_def distinct_fromkeys_acc)

text \<open>Python's \<open>xs[i]\<close> for a non-negative index, and \<open>xs[a:b]\<close> for \<open>0 \<le> a\<close>, \<open>0 \<le> b\<close>.\<close>

definition py_get :: "'a list \<Rightarrow> nat \<Rightarrow> 'a res" where
  "py_get xs i = (if i < length xs then Inr (xs ! i) else Inl IndexError)"

definition py_slice :: "nat \<Rightarrow> nat \<Rightarrow> 'a list \<Rightarrow> 'a list" where
  "py_slice a b xs = take (b - a) (drop a xs)"

lemma length_py_slice: "length (py_slice a b xs) = min (b - a) (length xs - a)"
  by (simp add: py_slice_def)

section \<open>Strings\<close>

text \<open>
  \<open>strip\<close> removes the elements satisfying \<open>p\<close> from both ends. On ASCII strings
  Python's \<open>str.strip()\<close> removes the characters \<open>is_space_code\<close> and \<open>str.lower()\<close> maps
  the upper-case letters.
\<close>

definition strip :: "('a \<Rightarrow> bool) \<Rightarrow> 'a list \<Rightarrow> 'a list" where
  "strip p xs = rev (dropWhile p (rev (dropWhile p xs)))"

definition is_space_code :: "nat \<Rightarrow> bool" where
  "is_space_code n \<longleftrightarrow> n \<in> {9, 10, 11, 12, 13, 28, 29, 30, 31, 32}"

definition py_strip :: "string \<Rightarrow> string" where
  "py_strip = strip (\<lambda>c. is_space_code (of_char c))"

definition py_lower :: "char \<Rightarrow> char" where
  "py_lower c = (let n = (of_char c :: nat)
                 in if 65 \<le> n \<and> n \<le> 90 then char_of (n + 32) else c)"

section \<open>Decimal printing\<close>

definition digit_char :: "nat \<Rightarrow> char" where
  "digit_char d = (char_of (48 + d) :: char)"

fun show_nat :: "nat \<Rightarrow> string" where
  "show_nat n = (if n < 10 then [digit_char n] else show_nat (n div 10) @ [digit_char (n mod 10)])"

declare show_nat.simps [simp del]

definition read_nat :: "string \<Rightarrow> nat" where
  "read_nat s = foldl (\<lambda>a c. 10 * a + (of_char c - 48)) 0 s"

lemma of_digit_char: "d < 10 \<Longrightarrow> of_char (digit_char d) = 48 + d"
  by (simp add: digit_char_def of_char_of)

lemma read_show_nat [simp]: "read_nat (show_nat n) = n"
proof (induction n rule: show_nat.induct)
  case (1 n)
  show ?case
  proof (cases "n < 10")
    case True
    then show ?thesis by (simp add: show_nat.simps [of n] read_nat_def of_digit_char)
  next
    case False
    with 1 have "read_nat (show_nat (n div 10)) = n div 10" by simp
    with False show ?thesis
      by (simp add: show_nat.simps [of n] read_nat_def of_digit_char)
  qed
qed

lemma show_nat_inject [simp]: "show_nat m = show_nat n \<longleftrightarrow> m = n"
  by (metis read_show_nat)

lemma show_nat_not_Nil [simp]: "show_nat n \<noteq> []"
  by (subst show_nat.simps) simp

lemma set_show_nat: "c \<in> set (show_nat n) \<Longrightarrow> \<exists>d < 10. c = digit_char d"
proof (induction n rule: show_nat.induct)
  case (1 n)
  show ?case
  proof (cases "n < 10")
    case True
    with "1.prems" show ?thesis by (auto simp: show_nat.simps [of n])
  next
    case False
    with "1.prems" have "c \<in> set (show_nat (n div 10)) \<or> c = digit_char (n mod 10)"
      by (auto simp: show_nat.simps [of n])
    with False "1.IH" show ?thesis by (metis mod_less_divisor zero_less_numeral)
  qed
qed

section \<open>List lemmas\<close>

lemma distinct_remove1_notin: "distinct xs \<Longrightarrow> x \<notin> set (remove1 x xs)"
  by simp

lemma filter_notin_subseq: "subseq (filter P xs) xs"
  by (rule subseq_filter_left)

lemma subseq_remove1: "subseq (remove1 x xs) xs"
  by (induction xs) auto

text \<open>
  \<open>zs \<in> shuffles xs ys\<close>: \<open>zs\<close> interleaves \<open>xs\<close> and \<open>ys\<close>, keeping the order of each.
\<close>

lemma shuffles_subseq:
  "zs \<in> shuffles xs ys \<Longrightarrow> subseq xs zs" "zs \<in> shuffles xs ys \<Longrightarrow> subseq ys zs"
proof -
  show left: "zs \<in> shuffles xs ys \<Longrightarrow> subseq xs zs" for xs ys zs :: "'a list"
  proof (induction zs arbitrary: xs ys)
    case Nil
    then show ?case by simp
  next
    case (Cons z zs)
    from Cons.prems consider
        (left) xs' where "xs = z # xs'" "zs \<in> shuffles xs' ys"
      | (right) ys' where "ys = z # ys'" "zs \<in> shuffles xs ys'"
      by (cases xs; cases ys) (auto simp: Cons_in_shuffles_iff)
    then show ?case
      by cases (auto intro: Cons.IH list_emb_Cons)
  qed
  show "zs \<in> shuffles xs ys \<Longrightarrow> subseq ys zs"
    using left by (metis shuffles_commutes)
qed

lemma mset_le_distinct: "mset ys \<subseteq># mset xs \<Longrightarrow> distinct xs \<Longrightarrow> distinct ys"
proof (induction ys arbitrary: xs)
  case Nil
  then show ?case by simp
next
  case (Cons y ys)
  then have y: "y \<in> set xs"
    by (metis insert_subset_eq_iff mset.simps(2) set_mset_mset)
  have "mset ys \<subseteq># mset (remove1 y xs)"
    using Cons.prems(1) by (simp add: insert_subset_eq_iff)
  with Cons.IH Cons.prems(2) have "distinct ys" by (meson distinct_remove1)
  moreover have "y \<notin> set ys"
    using \<open>mset ys \<subseteq># mset (remove1 y xs)\<close> Cons.prems(2)
    by (metis distinct_remove1_notin mset_subset_eqD set_mset_mset)
  ultimately show ?case by simp
qed

end
