(* ===== verification/Sched_Base.thy ===== *)
theory Sched_Base
  imports Prelude
begin

text \<open>
  The diffusion request scheduler: the data of \<open>diffusion/sched/interface.py\<close> and the
  queue and state bookkeeping of \<open>_BaseScheduler\<close> (\<open>diffusion/sched/base_scheduler.py\<close>),
  one definition per method. The methods a subclass overrides
  (\<open>_can_schedule_waiting\<close>, \<open>_prefer_waiting_requests\<close>) are the fields of \<open>hooks\<close>; the fields a
  subclass adds are record extensions. A method that can raise returns the state it leaves
  behind together with the outcome. The duration estimator and the random part of a generated
  id are arguments; \<open>pad_tolerance\<close> is an exact rational, so the float rounding of the one
  division the code does is not modelled.
\<close>

section \<open>Data (interface.py, request.py, worker/utils.py)\<close>

datatype req_status =
    WAITING | RUNNING | PREEMPTED
  | FINISHED_COMPLETED | FINISHED_ABORTED | FINISHED_ERROR

fun status_value :: "req_status \<Rightarrow> nat" where
  "status_value WAITING = 1"
| "status_value RUNNING = 2"
| "status_value PREEMPTED = 3"
| "status_value FINISHED_COMPLETED = 4"
| "status_value FINISHED_ABORTED = 5"
| "status_value FINISHED_ERROR = 6"

definition is_finished :: "req_status \<Rightarrow> bool" where
  "is_finished st \<longleftrightarrow> status_value FINISHED_COMPLETED \<le> status_value st"

lemma is_finished_simps [simp]:
  "\<not> is_finished WAITING" "\<not> is_finished RUNNING" "\<not> is_finished PREEMPTED"
  "is_finished FINISHED_COMPLETED" "is_finished FINISHED_ABORTED" "is_finished FINISHED_ERROR"
  by (simp_all add: is_finished_def)

lemma not_finished_cases: "\<not> is_finished st \<longleftrightarrow> st = WAITING \<or> st = RUNNING \<or> st = PREEMPTED"
  by (cases st) simp_all

text \<open>
  A prompt is a string, a dictionary (an absent key is \<open>None\<close>, a key holding Python's
  \<open>None\<close> is \<open>Some None\<close>), \<open>None\<close>, or another object, given by its \<open>str()\<close>.
  \<open>seq_val\<close> is what \<open>_sequence_length\<close> distinguishes: something with a shape, or a list.
\<close>

datatype prompt = PStr text_t | PDict "string \<Rightarrow> text_t option option" | PNone | PObject text_t

datatype seq_val = Shaped "nat list" | Plain nat

record sampling =
  timesteps :: "seq_val option"
  sigmas :: "rat list option"
  num_inference_steps :: "int option"
  step_index :: "int option"

record request =
  prompts :: "prompt list"
  sampling_params :: sampling
  request_ids :: "string list"

record req_state =
  sched_req_id :: string
  req :: request
  status :: req_status
  error :: "string option"

record new_request_data =
  new_sched_req_id :: string
  new_req :: request

definition from_state :: "req_state \<Rightarrow> new_request_data" where
  "from_state st = \<lparr>new_sched_req_id = sched_req_id st, new_req = req st\<rparr>"

record sched_output =
  out_step_id :: int
  scheduled_new_reqs :: "new_request_data list"
  scheduled_cached_reqs :: "string list"
  out_finished_req_ids :: "string set"
  num_running_reqs :: nat
  num_waiting_reqs :: nat

definition scheduled_req_ids :: "sched_output \<Rightarrow> string list" where
  "scheduled_req_ids out = map new_sched_req_id (scheduled_new_reqs out) @ scheduled_cached_reqs out"

definition is_empty :: "sched_output \<Rightarrow> bool" where
  "is_empty out \<longleftrightarrow> length (scheduled_req_ids out) = 0"

text \<open>The output of the pipeline and of one runner step; a tensor is an opaque number.\<close>

record diffusion_output =
  out_payload :: "nat option"
  out_error :: "string option"
  aborted :: bool
  abort_message :: "string option"

record runner_output =
  ro_req_id :: string
  ro_step_index :: "int option"
  ro_finished :: bool
  ro_result :: "diffusion_output option"
  per_request_results :: "(string \<times> diffusion_output) list option"
  per_request_finished :: "(string \<times> bool) list option"
  per_request_step_indices :: "(string \<times> int) list option"

text \<open>\<open>x or {}\<close> for an optional dictionary.\<close>

definition or_empty :: "('k \<times> 'v) list option \<Rightarrow> ('k \<times> 'v) list" where
  "or_empty d = (case d of None \<Rightarrow> [] | Some xs \<Rightarrow> xs)"

lemma or_empty_simps [simp]: "or_empty None = []" "or_empty (Some d) = d"
  by (simp_all add: or_empty_def)

section \<open>The scheduler state\<close>

datatype strategy = Fifo | Duration_Bucket

type_synonym states = "string \<rightharpoonup> req_state"

record sched =
  request_states :: states
  request_id_to_sched_req_id :: "string \<rightharpoonup> string"
  step_id :: int
  waiting :: "string list"
  running :: "string list"
  finished_req_ids :: "string set"
  max_num_running_reqs :: int
  batch_strategy :: strategy
  duration_bucket_tokens :: int
  duration_estimator :: "(text_t \<Rightarrow> int option) option"
  pad_tolerance :: rat

record hooks =
  can_schedule_waiting :: "req_state \<Rightarrow> bool"
  prefer_waiting_requests :: bool

definition base_hooks :: hooks where
  "base_hooks = \<lparr>can_schedule_waiting = (\<lambda>_. True), prefer_waiting_requests = False\<rparr>"

lemma base_hooks_simps [simp]:
  "can_schedule_waiting base_hooks st" "\<not> prefer_waiting_requests base_hooks"
  by (simp_all add: base_hooks_def)

section \<open>initialize, close\<close>

text \<open>
  The environment is a map from variable names to their values; \<open>int_of\<close> and \<open>float_of\<close> are
  Python's \<open>int()\<close> and \<open>float()\<close> on strings, \<open>None\<close> when they raise \<open>ValueError\<close>;
  \<open>load\<close> is the imported estimator, \<open>None\<close> when the import fails.
\<close>

definition env_int :: "(string \<Rightarrow> int option) \<Rightarrow> string option \<Rightarrow> int \<Rightarrow> int" where
  "env_int int_of v dflt = (case v of None \<Rightarrow> dflt
     | Some s \<Rightarrow> (case int_of s of None \<Rightarrow> dflt | Some n \<Rightarrow> max 1 n))"

definition env_tolerance :: "(string \<Rightarrow> rat option) \<Rightarrow> string option \<Rightarrow> rat" where
  "env_tolerance float_of v = (case v of None \<Rightarrow> 1
     | Some s \<Rightarrow> (case float_of s of None \<Rightarrow> 1 | Some x \<Rightarrow> max 1 x))"

definition env_strategy :: "string option \<Rightarrow> strategy" where
  "env_strategy v =
     (let s = (case v of None \<Rightarrow> ''fifo'' | Some t \<Rightarrow> map py_lower (py_strip t))
      in if s = ''duration_bucket'' then Duration_Bucket else Fifo)"

definition initialize ::
  "(string \<rightharpoonup> string) \<Rightarrow> (string \<Rightarrow> int option) \<Rightarrow> (string \<Rightarrow> rat option)
     \<Rightarrow> (text_t \<Rightarrow> int option) option \<Rightarrow> 'a sched_scheme \<Rightarrow> 'a sched_scheme" where
  "initialize env int_of float_of load s =
     (let strat = env_strategy (env ''VLLM_OMNI_DIFFUSION_BATCH_STRATEGY'')
      in s\<lparr>request_states := Map.empty,
           request_id_to_sched_req_id := Map.empty,
           step_id := 0,
           waiting := [],
           running := [],
           finished_req_ids := {},
           max_num_running_reqs := env_int int_of (env ''VLLM_OMNI_DIFFUSION_BATCH_SIZE'') 1,
           batch_strategy := strat,
           duration_bucket_tokens :=
             env_int int_of (env ''VLLM_OMNI_DIFFUSION_DURATION_BUCKET_TOKENS'') 128,
           pad_tolerance := env_tolerance float_of (env ''VLLM_OMNI_DIFFUSION_PAD_TOLERANCE''),
           duration_estimator := (if strat = Duration_Bucket then load else None)\<rparr>)"

definition close :: "'a sched_scheme \<Rightarrow> 'a sched_scheme" where
  "close s = s\<lparr>request_states := Map.empty, request_id_to_sched_req_id := Map.empty,
     waiting := [], running := [], finished_req_ids := {}\<rparr>"

section \<open>Request ids\<close>

partial_function (option) fresh_suffix ::
  "(string \<rightharpoonup> 'v) \<Rightarrow> string \<Rightarrow> string \<Rightarrow> nat \<Rightarrow> string option" where
  "fresh_suffix m base cand n =
     (if m cand = None then Some cand
      else fresh_suffix m base (base @ ''#'' @ show_nat n) (n + 1))"

text \<open>\<open>rnd\<close> is \<open>uuid.uuid4().hex[:8]\<close>. \<open>None\<close> is a search that does not end.\<close>

definition make_sched_req_id :: "string \<Rightarrow> request \<Rightarrow> 'a sched_scheme \<Rightarrow> string option" where
  "make_sched_req_id rnd r s =
     (let base = (case request_ids r of [] \<Rightarrow> ''req_'' @ rnd | x # _ \<Rightarrow> x)
      in fresh_suffix (request_states s) base base 1)"

fun register_request_ids ::
  "string list \<Rightarrow> string \<Rightarrow> (string \<rightharpoonup> string) \<Rightarrow> (string \<rightharpoonup> string) \<times> unit res" where
  "register_request_ids [] i m = (m, Inr ())"
| "register_request_ids (r # rs) i m =
     (case m r of
        Some existing \<Rightarrow>
          if existing \<noteq> i then (m, Inl ValueError)
          else register_request_ids rs i (m(r \<mapsto> i))
      | None \<Rightarrow> register_request_ids rs i (m(r \<mapsto> i)))"

fun unregister_request_ids ::
  "string list \<Rightarrow> string \<Rightarrow> (string \<rightharpoonup> string) \<Rightarrow> (string \<rightharpoonup> string)" where
  "unregister_request_ids [] i m = m"
| "unregister_request_ids (r # rs) i m =
     unregister_request_ids rs i (if m r = Some i then m(r := None) else m)"

section \<open>Adding requests\<close>

definition add_request_with_sched_req_id ::
  "string \<Rightarrow> request \<Rightarrow> 'a sched_scheme \<Rightarrow> 'a sched_scheme \<times> string res" where
  "add_request_with_sched_req_id i r s =
     (let st = \<lparr>sched_req_id = i, req = r, status = WAITING, error = None\<rparr>;
          s1 = s\<lparr>request_states := (request_states s)(i \<mapsto> st)\<rparr>;
          (m, e) = register_request_ids (request_ids r) i (request_id_to_sched_req_id s1);
          s2 = s1\<lparr>request_id_to_sched_req_id := m\<rparr>
      in case e of
           Inl x \<Rightarrow> (s2, Inl x)
         | Inr _ \<Rightarrow> (s2\<lparr>waiting := waiting s2 @ [i]\<rparr>, Inr i))"

definition add_request ::
  "string \<Rightarrow> request \<Rightarrow> 'a sched_scheme \<Rightarrow> ('a sched_scheme \<times> string res) option" where
  "add_request rnd r s =
     (case make_sched_req_id rnd r s of
        None \<Rightarrow> None
      | Some i \<Rightarrow> Some (add_request_with_sched_req_id i r s))"

section \<open>Length estimates\<close>

definition request_text :: "prompt \<Rightarrow> text_t list" where
  "request_text p = (case p of
       PStr t \<Rightarrow> [t]
     | PDict d \<Rightarrow>
         (let v = (case d ''input'' of
                     Some x \<Rightarrow> x
                   | None \<Rightarrow> (case d ''text'' of Some x \<Rightarrow> x | None \<Rightarrow> Some []))
          in (case v of None \<Rightarrow> [] | Some t \<Rightarrow> if t = [] then [] else [t]))
     | PNone \<Rightarrow> []
     | PObject t \<Rightarrow> [t])"

definition request_texts :: "prompt list \<Rightarrow> text_t list" where
  "request_texts ps = concat (map request_text ps)"

definition join_space :: "text_t list \<Rightarrow> text_t" where
  "join_space ts = (case ts of [] \<Rightarrow> [] | t # us \<Rightarrow> t @ concat (map (\<lambda>u. 32 # u) us))"

definition estimate_target_tokens :: "'a sched_scheme \<Rightarrow> req_state \<Rightarrow> int" where
  "estimate_target_tokens s st =
     (let texts = request_texts (prompts (req st)) in
      if texts = [] then 0
      else
        let text = join_space texts in
        case duration_estimator s of
          None \<Rightarrow> max 1 (int (length text))
        | Some est \<Rightarrow>
            (case est text of
               None \<Rightarrow> max 1 (int (length text))
             | Some n \<Rightarrow> max 1 n))"

definition duration_bucket :: "'a sched_scheme \<Rightarrow> req_state \<Rightarrow> int" where
  "duration_bucket s st = max 0 (estimate_target_tokens s st div duration_bucket_tokens s)"

section \<open>Choosing waiting requests\<close>

definition is_waiting_id :: "states \<Rightarrow> string \<Rightarrow> bool" where
  "is_waiting_id sts i = (case sts i of None \<Rightarrow> False | Some st \<Rightarrow> status st = WAITING)"

definition has_preferred_waiting_request :: "hooks \<Rightarrow> 'a sched_scheme \<Rightarrow> bool" where
  "has_preferred_waiting_request h s \<longleftrightarrow>
     prefer_waiting_requests h \<and> list_ex (is_waiting_id (request_states s)) (waiting s)"

text \<open>
  The loops pop from the left of the queue; they return the selected and the deferred ids and
  what is left of the queue. \<open>extendleft(reversed(deferred))\<close> puts the deferred ids back in
  front in their old order.
\<close>

fun fifo_loop ::
  "hooks \<Rightarrow> states \<Rightarrow> bool \<Rightarrow> int \<Rightarrow> string list \<Rightarrow> string list \<Rightarrow> string list
     \<Rightarrow> string list \<times> string list \<times> string list" where
  "fifo_loop h sts pref cap [] sel dfr = (sel, dfr, [])"
| "fifo_loop h sts pref cap (i # w) sel dfr =
     (if int (length sel) < cap then
        (case sts i of
           None \<Rightarrow> fifo_loop h sts pref cap w sel dfr
         | Some st \<Rightarrow>
             if \<not> can_schedule_waiting h st then (sel, dfr, i # w)
             else if pref \<and> status st \<noteq> WAITING then fifo_loop h sts pref cap w sel (dfr @ [i])
             else fifo_loop h sts pref cap w (sel @ [i]) dfr)
      else (sel, dfr, i # w))"

definition select_fifo_waiting ::
  "hooks \<Rightarrow> 'a sched_scheme \<Rightarrow> int \<Rightarrow> string list \<times> string list" where
  "select_fifo_waiting h s cap =
     (let (sel, dfr, w) = fifo_loop h (request_states s) (has_preferred_waiting_request h s) cap
                            (waiting s) [] []
      in (sel, dfr @ w))"

definition within_tolerance :: "rat \<Rightarrow> int \<Rightarrow> int \<Rightarrow> bool" where
  "within_tolerance tol mx mn \<longleftrightarrow> of_int mx / of_int mn \<le> tol"

text \<open>The anchor of a batch: the bounds of its lengths, or its bucket.\<close>

datatype anchor = Tolerance int int | Bucket int

definition clamped_tokens :: "'a sched_scheme \<Rightarrow> req_state \<Rightarrow> int" where
  "clamped_tokens s st = max 1 (estimate_target_tokens s st)"

fun accepts :: "'a sched_scheme \<Rightarrow> anchor \<Rightarrow> req_state \<Rightarrow> anchor option" where
  "accepts s (Tolerance mx mn) st =
     (let t = clamped_tokens s st;
          new_max = (if t \<le> mx then mx else t);
          new_min = (if t \<ge> mn then mn else t)
      in if within_tolerance (pad_tolerance s) new_max new_min
         then Some (Tolerance new_max new_min) else None)"
| "accepts s (Bucket b) st = (if duration_bucket s st = b then Some (Bucket b) else None)"

fun bucket_loop ::
  "'a sched_scheme \<Rightarrow> bool \<Rightarrow> int \<Rightarrow> anchor \<Rightarrow> string list \<Rightarrow> string list \<Rightarrow> string list
     \<Rightarrow> string list \<times> string list \<times> string list" where
  "bucket_loop s pref cap a [] sel dfr = (sel, dfr, [])"
| "bucket_loop s pref cap a (i # w) sel dfr =
     (if int (length sel) < cap then
        (case request_states s i of
           None \<Rightarrow> bucket_loop s pref cap a w sel dfr
         | Some st \<Rightarrow>
             if pref \<and> status st \<noteq> WAITING then bucket_loop s pref cap a w sel (dfr @ [i])
             else (case accepts s a st of
                     Some a' \<Rightarrow> bucket_loop s pref cap a' w (sel @ [i]) dfr
                   | None \<Rightarrow> bucket_loop s pref cap a w sel (dfr @ [i])))
      else (sel, dfr, i # w))"

definition running_anchor :: "'a sched_scheme \<Rightarrow> req_state list \<Rightarrow> anchor option" where
  "running_anchor s anchors =
     (if pad_tolerance s > 1 then
        (let toks = map (clamped_tokens s) anchors;
             mx = Max (set toks); mn = Min (set toks)
         in if \<not> within_tolerance (pad_tolerance s) mx mn then None
            else Some (Tolerance mx mn))
      else
        (let buckets = remdups (map (duration_bucket s) anchors)
         in if length buckets \<noteq> 1 then None else Some (Bucket (hd buckets))))"

definition waiting_anchor :: "hooks \<Rightarrow> 'a sched_scheme \<Rightarrow> string list \<Rightarrow> anchor option" where
  "waiting_anchor h s w =
     (let head = hd w;
          anchor_id = (if prefer_waiting_requests h
                       then (case find (is_waiting_id (request_states s)) w of
                               Some i \<Rightarrow> i | None \<Rightarrow> head)
                       else head)
      in case request_states s anchor_id of
           None \<Rightarrow> None
         | Some st \<Rightarrow>
             if \<not> can_schedule_waiting h st then None
             else if pad_tolerance s > 1
             then Some (Tolerance (clamped_tokens s st) (clamped_tokens s st))
             else Some (Bucket (duration_bucket s st)))"

definition bucket_select ::
  "'a sched_scheme \<Rightarrow> bool \<Rightarrow> int \<Rightarrow> anchor option \<Rightarrow> string list \<Rightarrow> string list \<times> string list" where
  "bucket_select s pref cap ao w =
     (case ao of
        None \<Rightarrow> ([], w)
      | Some a \<Rightarrow> (let (sel, dfr, rest) = bucket_loop s pref cap a w [] [] in (sel, dfr @ rest)))"

definition select_duration_bucket_waiting ::
  "hooks \<Rightarrow> 'a sched_scheme \<Rightarrow> int \<Rightarrow> string list \<Rightarrow> string list \<times> string list" where
  "select_duration_bucket_waiting h s cap anchor_req_ids =
     (if cap \<le> 0 then ([], waiting s)
      else
        let pref = has_preferred_waiting_request h s;
            anchors = List.map_filter (request_states s) anchor_req_ids
        in if anchors \<noteq> [] then bucket_select s pref cap (running_anchor s anchors) (waiting s)
           else
             let w = dropWhile (\<lambda>i. request_states s i = None) (waiting s)
             in if w = [] then ([], [])
                else bucket_select s pref cap (waiting_anchor h s w) w)"

section \<open>schedule\<close>

fun start_selected ::
  "string list \<Rightarrow> 'a sched_scheme \<Rightarrow> new_request_data list \<Rightarrow> string list
     \<Rightarrow> 'a sched_scheme \<times> new_request_data list \<times> string list" where
  "start_selected [] s new cached = (s, new, cached)"
| "start_selected (i # is) s new cached =
     (case request_states s i of
        None \<Rightarrow> start_selected is s new cached
      | Some st \<Rightarrow>
          (let st' = st\<lparr>status := RUNNING\<rparr>;
               s' = s\<lparr>request_states := (request_states s)(i \<mapsto> st'), running := running s @ [i]\<rparr>
           in if status st = WAITING
              then start_selected is s' (new @ [from_state st']) cached
              else start_selected is s' new (cached @ [i])))"

text \<open>\<open>schedule_selected\<close> is \<open>schedule\<close> after the selection, given its result.\<close>

definition schedule_selected ::
  "string list \<times> string list \<Rightarrow> 'a sched_scheme \<Rightarrow> 'a sched_scheme \<times> sched_output" where
  "schedule_selected sel s =
     (let cached0 = filter (\<lambda>i. request_states s i \<noteq> None) (running s);
          (s1, new, cached) = start_selected (fst sel) (s\<lparr>waiting := snd sel\<rparr>) [] cached0;
          out = \<lparr>out_step_id = step_id s1,
                 scheduled_new_reqs = new,
                 scheduled_cached_reqs = cached,
                 out_finished_req_ids = finished_req_ids s1,
                 num_running_reqs = length (running s1),
                 num_waiting_reqs = length (waiting s1)\<rparr>
      in (s1\<lparr>step_id := step_id s1 + 1, finished_req_ids := {}\<rparr>, out))"

definition select_waiting :: "hooks \<Rightarrow> 'a sched_scheme \<Rightarrow> string list \<times> string list" where
  "select_waiting h s =
     (let cap = max_num_running_reqs s - int (length (running s))
      in if batch_strategy s = Duration_Bucket
         then select_duration_bucket_waiting h s cap (running s)
         else select_fifo_waiting h s cap)"

definition schedule :: "hooks \<Rightarrow> 'a sched_scheme \<Rightarrow> 'a sched_scheme \<times> sched_output" where
  "schedule h s = schedule_selected (select_waiting h s) s"

section \<open>Lookup, removal, preemption\<close>

definition has_requests :: "'a sched_scheme \<Rightarrow> bool" where
  "has_requests s \<longleftrightarrow> waiting s \<noteq> [] \<or> running s \<noteq> []"

definition get_request_state :: "'a sched_scheme \<Rightarrow> string \<Rightarrow> req_state option" where
  "get_request_state s i = request_states s i"

definition get_sched_req_id :: "'a sched_scheme \<Rightarrow> string \<Rightarrow> string option" where
  "get_sched_req_id s rid = request_id_to_sched_req_id s rid"

definition pop_request_state ::
  "string \<Rightarrow> 'a sched_scheme \<Rightarrow> 'a sched_scheme \<times> req_state option" where
  "pop_request_state i s =
     (let st = request_states s i;
          s1 = s\<lparr>request_states := (request_states s)(i := None)\<rparr>
      in case st of
           None \<Rightarrow> (s1, None)
         | Some x \<Rightarrow>
             (s1\<lparr>request_id_to_sched_req_id :=
                   unregister_request_ids (request_ids (req x)) i (request_id_to_sched_req_id s1)\<rparr>,
              Some x))"

definition preempt_request :: "string \<Rightarrow> 'a sched_scheme \<Rightarrow> 'a sched_scheme \<times> bool" where
  "preempt_request i s =
     (case request_states s i of
        None \<Rightarrow> (s, False)
      | Some st \<Rightarrow>
          if i \<in> set (running s)
          then (s\<lparr>running := remove1 i (running s),
                  waiting := i # waiting s,
                  request_states := (request_states s)(i \<mapsto> st\<lparr>status := PREEMPTED\<rparr>)\<rparr>, True)
          else (s, False))"

section \<open>Finishing requests\<close>

definition is_live :: "states \<Rightarrow> string \<Rightarrow> bool" where
  "is_live sts i = (case sts i of None \<Rightarrow> False | Some st \<Rightarrow> \<not> is_finished (status st))"

definition finish_state ::
  "req_status \<Rightarrow> string option \<Rightarrow> req_state \<Rightarrow> req_state" where
  "finish_state stat err st =
     st\<lparr>status := stat, error := (if stat = FINISHED_ERROR then err else None)\<rparr>"

definition finish_requests_dict ::
  "(string \<times> req_status) list \<Rightarrow> (string \<Rightarrow> string option) \<Rightarrow> 'a sched_scheme
     \<Rightarrow> 'a sched_scheme \<times> string set res" where
  "finish_requests_dict statuses errors s =
     (if statuses = [] then (s, Inr {})
      else if \<not> list_all (is_finished \<circ> snd) statuses then (s, Inl AssertionError)
      else
        let fin = set (filter (is_live (request_states s)) (map fst statuses))
        in (s\<lparr>running := filter (\<lambda>i. i \<notin> fin) (running s),
              waiting := filter (\<lambda>i. i \<notin> fin) (waiting s),
              request_states := (\<lambda>i. if i \<in> fin
                 then map_option (finish_state (the (map_of statuses i)) (errors i))
                        (request_states s i)
                 else request_states s i),
              finished_req_ids := finished_req_ids s \<union> fin\<rparr>, Inr fin))"

definition finish_requests ::
  "string list \<Rightarrow> req_status \<Rightarrow> 'a sched_scheme \<Rightarrow> 'a sched_scheme \<times> unit res" where
  "finish_requests ids stat s =
     (if \<not> is_finished stat then (s, Inl AssertionError)
      else (case finish_requests_dict (map (\<lambda>i. (i, stat)) (fromkeys ids)) (\<lambda>_. None) s of
              (s', Inl e) \<Rightarrow> (s', Inl e)
            | (s', Inr _) \<Rightarrow> (s', Inr ())))"

definition finalize_update_from_output ::
  "sched_output \<Rightarrow> (string \<times> req_status) list \<Rightarrow> (string \<Rightarrow> string option) \<Rightarrow> 'a sched_scheme
     \<Rightarrow> 'a sched_scheme \<times> string set res" where
  "finalize_update_from_output out statuses errors s =
     (let already = {i \<in> set (scheduled_req_ids out). i \<in> finished_req_ids s}
      in case finish_requests_dict statuses errors s of
           (s', Inl e) \<Rightarrow> (s', Inl e)
         | (s', Inr fin) \<Rightarrow> (s', Inr (already \<union> fin)))"

end
