(* ===== verification/Sched_Invariant.thy ===== *)
theory Sched_Invariant
  imports Sched_Base
begin

text \<open>
  The invariant of \<open>_BaseScheduler\<close> and its preservation by every operation. The choice of
  the waiting requests is an interface: the locale \<open>waiting_selector\<close> states what
  \<open>schedule\<close> relies on (the selected and the remaining ids interleave to the old queue, and
  the capacity is respected), \<open>progressive_selector\<close> adds that an idle scheduler selects
  something. Both strategies of the code interpret them.
\<close>

section \<open>The invariant\<close>

definition queues_ok :: "'a sched_scheme \<Rightarrow> bool" where
  "queues_ok s \<longleftrightarrow>
     distinct (running s @ waiting s) \<and>
     (\<forall>i \<in> set (running s). \<exists>st. request_states s i = Some st \<and> status st = RUNNING) \<and>
     (\<forall>i \<in> set (waiting s). \<exists>st. request_states s i = Some st
        \<and> (status st = WAITING \<or> status st = PREEMPTED))"

definition states_ok :: "'a sched_scheme \<Rightarrow> bool" where
  "states_ok s \<longleftrightarrow>
     finite (dom (request_states s)) \<and>
     (\<forall>i st. request_states s i = Some st \<longrightarrow> sched_req_id st = i)"

definition rid_map_ok :: "'a sched_scheme \<Rightarrow> bool" where
  "rid_map_ok s \<longleftrightarrow>
     (\<forall>r i. request_id_to_sched_req_id s r = Some i \<longrightarrow>
        (\<exists>st. request_states s i = Some st \<and> r \<in> set (request_ids (req st))))"

definition capacity_ok :: "'a sched_scheme \<Rightarrow> bool" where
  "capacity_ok s \<longleftrightarrow> 1 \<le> max_num_running_reqs s \<and> int (length (running s)) \<le> max_num_running_reqs s"

definition sched_wf :: "'a sched_scheme \<Rightarrow> bool" where
  "sched_wf s \<longleftrightarrow> queues_ok s \<and> states_ok s \<and> rid_map_ok s \<and> capacity_ok s"

text \<open>No request is lost: an unfinished request is in one of the queues.\<close>

definition no_lost :: "'a sched_scheme \<Rightarrow> bool" where
  "no_lost s \<longleftrightarrow> (\<forall>i. is_live (request_states s) i \<longrightarrow> i \<in> set (running s) \<union> set (waiting s))"

definition sched_inv :: "'a sched_scheme \<Rightarrow> bool" where
  "sched_inv s \<longleftrightarrow> sched_wf s \<and> no_lost s"

text \<open>The same, but for the requests of a set \<open>L\<close>, which may be lost.\<close>

definition no_lost_but :: "string set \<Rightarrow> 'a sched_scheme \<Rightarrow> bool" where
  "no_lost_but L s \<longleftrightarrow> (\<forall>i. is_live (request_states s) i \<longrightarrow> i \<in> set (running s) \<union> set (waiting s) \<union> L)"

definition sched_inv_but :: "string set \<Rightarrow> 'a sched_scheme \<Rightarrow> bool" where
  "sched_inv_but L s \<longleftrightarrow> sched_wf s \<and> no_lost_but L s"

lemma sched_inv_but_empty: "sched_inv s \<longleftrightarrow> sched_inv_but {} s"
  by (simp add: sched_inv_def sched_inv_but_def no_lost_def no_lost_but_def)

lemmas sched_inv_but_defs =
  sched_inv_but_def sched_wf_def queues_ok_def states_ok_def rid_map_ok_def capacity_ok_def no_lost_but_def

lemmas sched_inv_defs =
  sched_inv_def sched_wf_def queues_ok_def states_ok_def rid_map_ok_def capacity_ok_def no_lost_def

lemma is_live_iff: "is_live sts i \<longleftrightarrow> (\<exists>st. sts i = Some st \<and> \<not> is_finished (status st))"
  by (simp add: is_live_def split: option.split)

lemma is_waiting_id_iff: "is_waiting_id sts i \<longleftrightarrow> (\<exists>st. sts i = Some st \<and> status st = WAITING)"
  by (simp add: is_waiting_id_def split: option.split)

lemma waiting_has_state: "queues_ok s \<Longrightarrow> i \<in> set (waiting s) \<Longrightarrow> request_states s i \<noteq> None"
  by (auto simp: queues_ok_def)

lemma running_has_state: "queues_ok s \<Longrightarrow> i \<in> set (running s) \<Longrightarrow> request_states s i \<noteq> None"
  by (auto simp: queues_ok_def)

lemma finished_not_queued:
  "queues_ok s \<Longrightarrow> request_states s i = Some st \<Longrightarrow> is_finished (status st)
     \<Longrightarrow> i \<notin> set (running s) \<union> set (waiting s)"
  by (force simp: queues_ok_def)

section \<open>Selection as an interface\<close>

definition spare_capacity :: "'a sched_scheme \<Rightarrow> int" where
  "spare_capacity s = max_num_running_reqs s - int (length (running s))"

locale waiting_selector =
  fixes sel :: "'a sched_scheme \<Rightarrow> string list \<times> string list"
  assumes sel_shuffle: "queues_ok s \<Longrightarrow> waiting s \<in> shuffles (fst (sel s)) (snd (sel s))"
    and sel_capacity: "int (length (fst (sel s))) \<le> max 0 (spare_capacity s)"

locale progressive_selector = waiting_selector +
  assumes sel_progress:
    "queues_ok s \<Longrightarrow> running s = [] \<Longrightarrow> waiting s \<noteq> [] \<Longrightarrow> 0 < spare_capacity s
       \<Longrightarrow> fst (sel s) \<noteq> []"

text \<open>What \<open>start_selected\<close> does when every selected id has a state.\<close>

definition set_running :: "string set \<Rightarrow> states \<Rightarrow> states" where
  "set_running A sts = (\<lambda>i. if i \<in> A then map_option (\<lambda>st. st\<lparr>status := RUNNING\<rparr>) (sts i) else sts i)"

lemma start_selected_eq:
  assumes "distinct is" and "\<forall>i \<in> set is. request_states s i \<noteq> None"
  shows "start_selected is s new cached =
    (s\<lparr>request_states := set_running (set is) (request_states s), running := running s @ is\<rparr>,
     new @ map (\<lambda>i. from_state (the (request_states s i)))
             (filter (is_waiting_id (request_states s)) is),
     cached @ filter (\<lambda>i. \<not> is_waiting_id (request_states s) i) is)"
  using assms
proof (induction "is" s new cached rule: start_selected.induct)
  case (1 s new cached)
  then show ?case by (simp add: set_running_def)
next
  case (2 i "is" s new cached)
  then obtain st where st: "request_states s i = Some st" by auto
  let ?st' = "st\<lparr>status := RUNNING\<rparr>"
  let ?s' = "s\<lparr>request_states := (request_states s)(i \<mapsto> ?st'), running := running s @ [i]\<rparr>"
  have i: "i \<notin> set is" and d: "distinct is" using 2 by auto
  have live: "\<forall>j \<in> set is. request_states ?s' j \<noteq> None" using 2 by auto
  have run: "set_running (set is) ((request_states s)(i \<mapsto> ?st')) = set_running (insert i (set is)) (request_states s)"
    using i st by (auto simp: set_running_def fun_eq_iff)
  have iw: "is_waiting_id ((request_states s)(i \<mapsto> ?st')) j = is_waiting_id (request_states s) j"
    if "j \<in> set is" for j
    using i that by (cases "j = i") (auto simp: is_waiting_id_def)
  have w: "filter (is_waiting_id ((request_states s)(i \<mapsto> ?st'))) is = filter (is_waiting_id (request_states s)) is"
    "filter (\<lambda>j. \<not> is_waiting_id ((request_states s)(i \<mapsto> ?st')) j) is
       = filter (\<lambda>j. \<not> is_waiting_id (request_states s) j) is"
    using iw by (auto intro!: filter_cong)
  have f: "map (\<lambda>j. from_state (the (((request_states s)(i \<mapsto> ?st')) j))) (filter P is)
      = map (\<lambda>j. from_state (the (request_states s j))) (filter P is)" for P
    using i by (auto simp: intro!: map_cong)
  have iwi: "is_waiting_id (request_states s) i = (status st = WAITING)"
    using st by (simp add: is_waiting_id_def)
  have fs: "from_state ?st' = from_state st" by (simp add: from_state_def)
  show ?case
    using 2(2)[OF st refl refl _ d live] 2(3)[OF st refl refl _ d live]
    by (cases "status st = WAITING")
      (simp_all add: st run w f fs iwi del: fun_upd_apply)
qed

lemma map_new_ids:
  assumes "states_ok s" and "\<forall>i \<in> set is. request_states s i \<noteq> None"
  shows "map (new_sched_req_id \<circ> (\<lambda>i. from_state (the (request_states s i)))) is = is"
  using assms by (induction "is") (auto simp: states_ok_def from_state_def)

lemma set_running_Some:
  "set_running A sts i = Some st \<longleftrightarrow>
     (\<exists>st0. sts i = Some st0 \<and> st = (if i \<in> A then st0\<lparr>status := RUNNING\<rparr> else st0))"
  by (auto simp: set_running_def)

lemma dom_set_running [simp]: "dom (set_running A sts) = dom sts"
  by (auto simp: set_running_def dom_def)

lemma set_running_req: "set_running A sts i = Some st \<Longrightarrow> \<exists>st0. sts i = Some st0 \<and> req st = req st0"
  by (auto simp: set_running_def split: if_splits)

text \<open>The state and the output of one scheduling cycle, given a selection of live ids.\<close>

definition after_selection ::
  "string list \<times> string list \<Rightarrow> 'a sched_scheme \<Rightarrow> 'a sched_scheme" where
  "after_selection sel s =
     s\<lparr>waiting := snd sel,
       request_states := set_running (set (fst sel)) (request_states s),
       running := running s @ fst sel,
       step_id := step_id s + 1, finished_req_ids := {}\<rparr>"

lemma schedule_selected_eq:
  assumes "distinct (fst sel)" and "\<forall>i \<in> set (fst sel). request_states s i \<noteq> None"
    and "\<forall>i \<in> set (running s). request_states s i \<noteq> None"
  shows "schedule_selected sel s =
    (after_selection sel s,
     \<lparr>out_step_id = step_id s,
      scheduled_new_reqs = map (\<lambda>i. from_state (the (request_states s i)))
             (filter (is_waiting_id (request_states s)) (fst sel)),
      scheduled_cached_reqs = running s @ filter (\<lambda>i. \<not> is_waiting_id (request_states s) i) (fst sel),
      out_finished_req_ids = finished_req_ids s,
      num_running_reqs = length (running s @ fst sel),
      num_waiting_reqs = length (snd sel)\<rparr>)"
proof -
  have "filter (\<lambda>i. \<exists>y. request_states s i = Some y) (running s) = running s"
    using assms(3) by (simp add: filter_id_conv)
  then show ?thesis
    using assms start_selected_eq [of "fst sel" "s\<lparr>waiting := snd sel\<rparr>" "[]" "running s"]
    by (simp add: schedule_selected_def after_selection_def Let_def)
qed

context waiting_selector
begin

lemma sel_subsets:
  assumes "queues_ok s"
  shows "set (fst (sel s)) \<union> set (snd (sel s)) = set (waiting s)"
    and "distinct (fst (sel s) @ snd (sel s))"
    and "mset (fst (sel s)) + mset (snd (sel s)) = mset (waiting s)"
    and "subseq (fst (sel s)) (waiting s)" and "subseq (snd (sel s)) (waiting s)"
proof -
  note sh = sel_shuffle [OF assms]
  show "set (fst (sel s)) \<union> set (snd (sel s)) = set (waiting s)"
    using sh by (simp add: set_shuffles)
  show m: "mset (fst (sel s)) + mset (snd (sel s)) = mset (waiting s)"
    using sh by (simp add: mset_shuffles)
  have "distinct (waiting s)" using assms by (simp add: queues_ok_def)
  then show "distinct (fst (sel s) @ snd (sel s))"
    using m by (metis mset_append mset_eq_imp_distinct_iff)
  show "subseq (fst (sel s)) (waiting s)" "subseq (snd (sel s)) (waiting s)"
    using sh by (auto simp: shuffles_subseq)
qed

lemma sel_live:
  assumes "queues_ok s"
  shows "distinct (fst (sel s))" and "\<forall>i \<in> set (fst (sel s)). request_states s i \<noteq> None"
    and "\<forall>i \<in> set (running s). request_states s i \<noteq> None"
  using sel_subsets(1,2) [OF assms] waiting_has_state [OF assms] running_has_state [OF assms]
  by auto

lemma schedule_eq:
  assumes "queues_ok s"
  shows "schedule_selected (sel s) s =
    (after_selection (sel s) s,
     \<lparr>out_step_id = step_id s,
      scheduled_new_reqs = map (\<lambda>i. from_state (the (request_states s i)))
             (filter (is_waiting_id (request_states s)) (fst (sel s))),
      scheduled_cached_reqs =
        running s @ filter (\<lambda>i. \<not> is_waiting_id (request_states s) i) (fst (sel s)),
      out_finished_req_ids = finished_req_ids s,
      num_running_reqs = length (running s @ fst (sel s)),
      num_waiting_reqs = length (snd (sel s))\<rparr>)"
  by (rule schedule_selected_eq) (use sel_live [OF assms] in blast)+

end

section \<open>schedule keeps the invariant\<close>

lemma after_selection_wf:
  assumes wf: "sched_wf s"
    and sh: "waiting s \<in> shuffles (fst sel) (snd sel)"
    and cap: "int (length (fst sel)) \<le> max 0 (spare_capacity s)"
  shows "sched_wf (after_selection sel s)"
proof -
  have q: "queues_ok s" and st: "states_ok s" and r: "rid_map_ok s" and c: "capacity_ok s"
    using wf by (simp_all add: sched_wf_def)
  have m: "mset (fst sel) + mset (snd sel) = mset (waiting s)"
    using sh by (simp add: mset_shuffles)
  have sets: "set (waiting s) = set (fst sel) \<union> set (snd sel)" using sh by (rule set_shuffles)
  have dist: "distinct (running s @ fst sel @ snd sel)"
  proof -
    have "mset (running s @ fst sel @ snd sel) = mset (running s @ waiting s)" using m by simp
    from mset_eq_imp_distinct_iff [OF this] show ?thesis using q by (simp add: queues_ok_def)
  qed
  have "\<exists>st. set_running (set (fst sel)) (request_states s) i = Some st \<and> status st = RUNNING"
    if "i \<in> set (running s) \<union> set (fst sel)" for i
  proof -
    have "\<exists>st0. request_states s i = Some st0 \<and> (i \<in> set (fst sel) \<or> status st0 = RUNNING)"
      using that waiting_has_state [OF q, of i] q sets by (auto simp: queues_ok_def)
    then show ?thesis by (auto simp: set_running_def)
  qed
  moreover have "\<exists>st. set_running (set (fst sel)) (request_states s) i = Some st
      \<and> (status st = WAITING \<or> status st = PREEMPTED)" if "i \<in> set (snd sel)" for i
  proof -
    have "i \<notin> set (fst sel)" using that dist by auto
    then show ?thesis using that q sets by (simp add: queues_ok_def set_running_def)
  qed
  ultimately have "queues_ok (after_selection sel s)"
    using dist by (simp add: queues_ok_def after_selection_def)
  moreover have "states_ok (after_selection sel s)"
    using st by (auto simp: states_ok_def after_selection_def set_running_Some)
  moreover have "rid_map_ok (after_selection sel s)"
    using r by (fastforce simp: rid_map_ok_def after_selection_def set_running_def)
  moreover have "capacity_ok (after_selection sel s)"
    using c cap by (auto simp: capacity_ok_def after_selection_def spare_capacity_def)
  ultimately show ?thesis by (simp add: sched_wf_def)
qed

lemma after_selection_no_lost:
  assumes "no_lost_but L s" and sh: "waiting s \<in> shuffles (fst sel) (snd sel)"
  shows "no_lost_but L (after_selection sel s)"
  using assms(1) set_shuffles [OF sh]
  by (auto simp: no_lost_but_def after_selection_def is_live_iff set_running_Some split: if_splits)

lemma mset_filter_split: "mset (filter P xs) + mset (filter (\<lambda>x. \<not> P x) xs) = mset xs"
  by (induction xs) auto

context waiting_selector
begin

lemma schedule_wf:
  assumes "sched_wf s"
  shows "sched_wf (fst (schedule_selected (sel s) s))"
proof -
  have q: "queues_ok s" using assms by (simp add: sched_wf_def)
  show ?thesis
    using after_selection_wf [OF assms sel_shuffle [OF q] sel_capacity] schedule_eq [OF q] by simp
qed

lemma schedule_but:
  assumes "sched_inv_but L s"
  shows "sched_inv_but L (fst (schedule_selected (sel s) s))"
proof -
  have q: "queues_ok s" and n: "no_lost_but L s" using assms by (simp_all add: sched_inv_but_def sched_wf_def)
  show ?thesis
    using schedule_wf [of s] assms after_selection_no_lost [OF n sel_shuffle [OF q]]
      schedule_eq [OF q]
    by (simp add: sched_inv_but_def)
qed

lemmas schedule_inv = schedule_but [where L = "{}", folded sched_inv_but_empty]

text \<open>The output lists every running request of the new state exactly once.\<close>

lemma schedule_output_running:
  assumes "sched_wf s"
  shows "mset (scheduled_req_ids (snd (schedule_selected (sel s) s)))
       = mset (running (fst (schedule_selected (sel s) s)))"
proof -
  have q: "queues_ok s" and st: "states_ok s" using assms by (simp_all add: sched_wf_def)
  have "map (new_sched_req_id \<circ> (\<lambda>i. from_state (the (request_states s i))))
          (filter (is_waiting_id (request_states s)) (fst (sel s)))
       = filter (is_waiting_id (request_states s)) (fst (sel s))"
    using sel_live [OF q] st by (intro map_new_ids) auto
  then show ?thesis
    using mset_filter_split [of "is_waiting_id (request_states s)" "fst (sel s)"]
    by (simp add: schedule_eq [OF q] scheduled_req_ids_def after_selection_def)
qed

lemma schedule_new_were_waiting:
  assumes "sched_wf s" and "d \<in> set (scheduled_new_reqs (snd (schedule_selected (sel s) s)))"
  shows "\<exists>st. request_states s (new_sched_req_id d) = Some st \<and> status st = WAITING \<and> new_req d = req st"
proof -
  have q: "queues_ok s" and st: "states_ok s" using assms by (simp_all add: sched_wf_def)
  from assms(2) obtain i where "is_waiting_id (request_states s) i" "d = from_state (the (request_states s i))"
    by (auto simp: schedule_eq [OF q])
  with st show ?thesis by (auto simp: is_waiting_id_iff from_state_def states_ok_def)
qed

end

context progressive_selector
begin

lemma schedule_progress:
  assumes "sched_wf s" and "has_requests s"
  shows "\<not> is_empty (snd (schedule_selected (sel s) s))"
proof -
  have q: "queues_ok s" and c: "capacity_ok s" using assms by (simp_all add: sched_wf_def)
  have "running s @ fst (sel s) \<noteq> []"
    using sel_progress [OF q] assms(2) c by (auto simp: has_requests_def capacity_ok_def spare_capacity_def)
  then have "running (fst (schedule_selected (sel s) s)) \<noteq> []"
    by (simp add: schedule_eq [OF q] after_selection_def)
  then show ?thesis
    using schedule_output_running [OF assms(1)] by (auto simp: is_empty_def)
qed

end

section \<open>Both strategies are selectors\<close>

lemma fifo_loop_shuffle:
  assumes "fifo_loop h sts pref cap w sel dfr = (sel', dfr', rest)"
    and "\<forall>i \<in> set w. sts i \<noteq> None"
  shows "\<exists>xs ys. sel' = sel @ xs \<and> dfr' = dfr @ ys \<and> w \<in> shuffles xs (ys @ rest)"
  using assms
proof (induction h sts pref cap w sel dfr rule: fifo_loop.induct)
  case (1 h sts pref cap sel dfr)
  then show ?case by auto
next
  case (2 h sts pref cap i w sel dfr)
  from "2.prems"(2) obtain st where st: "sts i = Some st" by auto
  have live: "\<forall>j \<in> set w. sts j \<noteq> None" using "2.prems"(2) by simp
  show ?case
  proof (cases "int (length sel) < cap \<and> can_schedule_waiting h st")
    case False
    with "2.prems"(1) st show ?thesis by (auto split: if_splits)
  next
    case go: True
    show ?thesis
    proof (cases "pref \<and> status st \<noteq> WAITING")
      case True
      with "2.IH"(2) [OF _ st _ _ _ live] go st "2.prems"(1)
      show ?thesis by (force intro: Cons_in_shuffles_rightI)
    next
      case False
      with "2.IH"(3) [OF _ st _ _ _ live] go st "2.prems"(1)
      show ?thesis by (force intro: Cons_in_shuffles_leftI)
    qed
  qed
qed

lemma fifo_loop_length:
  "fifo_loop h sts pref cap w sel dfr = (sel', dfr', rest)
     \<Longrightarrow> int (length sel') \<le> max (int (length sel)) cap"
proof (induction h sts pref cap w sel dfr rule: fifo_loop.induct)
  case (1 h sts pref cap sel dfr)
  then show ?case by simp
next
  case (2 h sts pref cap i w sel dfr)
  then show ?case by (fastforce split: if_splits option.splits)
qed

lemma bucket_loop_shuffle:
  assumes "bucket_loop s pref cap a w sel dfr = (sel', dfr', rest)"
    and "\<forall>i \<in> set w. request_states s i \<noteq> None"
  shows "\<exists>xs ys. sel' = sel @ xs \<and> dfr' = dfr @ ys \<and> w \<in> shuffles xs (ys @ rest)"
  using assms
proof (induction s pref cap a w sel dfr rule: bucket_loop.induct)
  case (1 s pref cap a sel dfr)
  then show ?case by auto
next
  case (2 s pref cap a i w sel dfr)
  from "2.prems"(2) obtain st where st: "request_states s i = Some st" by auto
  have live: "\<forall>j \<in> set w. request_states s j \<noteq> None" using "2.prems"(2) by simp
  show ?case
  proof (cases "int (length sel) < cap")
    case False
    with "2.prems"(1) show ?thesis by auto
  next
    case go: True
    consider (skip) "pref \<and> status st \<noteq> WAITING"
      | (take) a' where "\<not> (pref \<and> status st \<noteq> WAITING)" "accepts s a st = Some a'"
      | (put_off) "\<not> (pref \<and> status st \<noteq> WAITING)" "accepts s a st = None"
      by fastforce
    then show ?thesis
    proof cases
      case skip
      with "2.IH"(2) [OF go st _ _ live] go st "2.prems"(1)
      show ?thesis by (force intro: Cons_in_shuffles_rightI)
    next
      case take
      with "2.IH"(4) [OF go st _ take(2) _ live] go st "2.prems"(1)
      show ?thesis by (force intro: Cons_in_shuffles_leftI)
    next
      case put_off
      with "2.IH"(3) [OF go st _ put_off(2) _ live] go st "2.prems"(1)
      show ?thesis by (force intro: Cons_in_shuffles_rightI)
    qed
  qed
qed

lemma bucket_loop_length:
  "bucket_loop s pref cap a w sel dfr = (sel', dfr', rest)
     \<Longrightarrow> int (length sel') \<le> max (int (length sel)) cap"
proof (induction s pref cap a w sel dfr rule: bucket_loop.induct)
  case (1 s pref cap a sel dfr)
  then show ?case by simp
next
  case (2 s pref cap a i w sel dfr)
  then show ?case by (fastforce split: if_splits option.splits)
qed

lemma bucket_select_shuffle:
  assumes "\<forall>i \<in> set w. request_states s i \<noteq> None"
  shows "w \<in> shuffles (fst (bucket_select s pref cap ao w)) (snd (bucket_select s pref cap ao w))"
  using bucket_loop_shuffle [OF _ assms, of pref cap _ "[]" "[]"]
  by (fastforce simp: bucket_select_def split: option.split prod.split)

lemma bucket_select_length:
  "int (length (fst (bucket_select s pref cap ao w))) \<le> max 0 cap"
  using bucket_loop_length [of s pref cap _ w "[]" "[]"]
  by (fastforce simp: bucket_select_def split: option.split prod.split)

lemma dropWhile_live:
  "\<forall>i \<in> set w. request_states s i \<noteq> None \<Longrightarrow> dropWhile (\<lambda>i. request_states s i = None) w = w"
  by (cases w) auto

interpretation fifo: waiting_selector "\<lambda>s. select_fifo_waiting h s (spare_capacity s)" for h
proof unfold_locales
  fix s :: "'b sched_scheme"
  assume "queues_ok s"
  then have live: "\<forall>i \<in> set (waiting s). request_states s i \<noteq> None"
    using waiting_has_state by blast
  then show "waiting s \<in> shuffles (fst (select_fifo_waiting h s (spare_capacity s)))
        (snd (select_fifo_waiting h s (spare_capacity s)))"
    using fifo_loop_shuffle [OF _ live, of h _ "spare_capacity s" "[]" "[]"]
    by (fastforce simp: select_fifo_waiting_def split: prod.split)
next
  fix s :: "'b sched_scheme"
  show "int (length (fst (select_fifo_waiting h s (spare_capacity s)))) \<le> max 0 (spare_capacity s)"
    using fifo_loop_length [of h "request_states s" _ "spare_capacity s" "waiting s" "[]" "[]"]
    by (fastforce simp: select_fifo_waiting_def split: prod.split)
qed

interpretation bucket: waiting_selector
  "\<lambda>s. select_duration_bucket_waiting h s (spare_capacity s) (running s)" for h
proof unfold_locales
  fix s :: "'b sched_scheme"
  assume "queues_ok s"
  then have live: "\<forall>i \<in> set (waiting s). request_states s i \<noteq> None"
    using waiting_has_state by blast
  show "waiting s \<in> shuffles (fst (select_duration_bucket_waiting h s (spare_capacity s) (running s)))
        (snd (select_duration_bucket_waiting h s (spare_capacity s) (running s)))"
    using bucket_select_shuffle [OF live]
    by (auto simp: select_duration_bucket_waiting_def Let_def dropWhile_live [OF live])
next
  fix s :: "'b sched_scheme"
  show "int (length (fst (select_duration_bucket_waiting h s (spare_capacity s) (running s))))
      \<le> max 0 (spare_capacity s)"
    by (auto simp: select_duration_bucket_waiting_def Let_def
        intro: bucket_select_length [THEN order_trans])
qed

lemma select_waiting_cases:
  "select_waiting h s =
     (if batch_strategy s = Duration_Bucket
      then select_duration_bucket_waiting h s (spare_capacity s) (running s)
      else select_fifo_waiting h s (spare_capacity s))"
  by (simp add: select_waiting_def spare_capacity_def Let_def)

interpretation selector: waiting_selector "select_waiting h" for h
  by unfold_locales
    (auto simp: select_waiting_cases
      intro: fifo.sel_shuffle bucket.sel_shuffle fifo.sel_capacity bucket.sel_capacity)

section \<open>An idle scheduler selects something\<close>

definition eligible :: "bool \<Rightarrow> states \<Rightarrow> string \<Rightarrow> bool" where
  "eligible pref sts i \<longleftrightarrow> (pref \<longrightarrow> is_waiting_id sts i)"

lemma fifo_loop_nonempty:
  assumes "fifo_loop h sts pref cap w [] dfr = (sel', dfr', rest)"
    and "\<forall>i \<in> set w. sts i \<noteq> None" and "\<forall>st. can_schedule_waiting h st" and "0 < cap"
    and "\<exists>i \<in> set w. eligible pref sts i"
  shows "sel' \<noteq> []"
  using assms
proof (induction w arbitrary: dfr)
  case Nil
  then show ?case by simp
next
  case (Cons i w)
  then obtain st where st: "sts i = Some st" by auto
  show ?case
  proof (cases "pref \<and> status st \<noteq> WAITING")
    case True
    with Cons st show ?thesis by (auto simp: eligible_def is_waiting_id_def)
  next
    case False
    with Cons.prems st have "fifo_loop h sts pref cap w [i] dfr = (sel', dfr', rest)" by auto
    from fifo_loop_shuffle [OF this] Cons.prems(2) show ?thesis by auto
  qed
qed

lemma bucket_loop_nonempty:
  assumes "bucket_loop s pref cap a w [] dfr = (sel', dfr', rest)"
    and "\<forall>i \<in> set w. request_states s i \<noteq> None" and "0 < cap"
    and "\<exists>i \<in> set w. eligible pref (request_states s) i \<and> accepts s a (the (request_states s i)) \<noteq> None"
  shows "sel' \<noteq> []"
  using assms
proof (induction w arbitrary: dfr)
  case Nil
  then show ?case by simp
next
  case (Cons i w)
  then obtain st where st: "request_states s i = Some st" by auto
  show ?case
  proof (cases "(pref \<and> status st \<noteq> WAITING) \<or> accepts s a st = None")
    case True
    with Cons.prems st have "bucket_loop s pref cap a w [] (dfr @ [i]) = (sel', dfr', rest)"
      by (auto split: option.splits)
    moreover have "\<not> (eligible pref (request_states s) i \<and> accepts s a (the (request_states s i)) \<noteq> None)"
      using True st by (auto simp: eligible_def is_waiting_id_def)
    ultimately show ?thesis using Cons.IH Cons.prems(2-4) by auto
  next
    case False
    then obtain a' where "accepts s a st = Some a'" "\<not> (pref \<and> status st \<noteq> WAITING)" by auto
    with Cons.prems st have "bucket_loop s pref cap a' w [i] dfr = (sel', dfr', rest)" by auto
    from bucket_loop_shuffle [OF this] Cons.prems(2) show ?thesis by auto
  qed
qed

lemma within_tolerance_refl: "1 < tol \<Longrightarrow> 1 \<le> t \<Longrightarrow> within_tolerance tol t t"
  by (simp add: within_tolerance_def)

lemma clamped_tokens_pos: "1 \<le> clamped_tokens s st"
  by (simp add: clamped_tokens_def)

lemma waiting_anchor_accepts:
  assumes w: "w \<noteq> []" and live: "\<forall>i \<in> set w. request_states s i \<noteq> None"
    and can: "\<forall>st. can_schedule_waiting h st" and ww: "waiting s = w"
  shows "\<exists>a. waiting_anchor h s w = Some a \<and>
     (\<exists>i \<in> set w. eligible (has_preferred_waiting_request h s) (request_states s) i
        \<and> accepts s a (the (request_states s i)) \<noteq> None)"
proof -
  let ?pref = "has_preferred_waiting_request h s"
  let ?i = "if prefer_waiting_requests h
            then (case find (is_waiting_id (request_states s)) w of Some i \<Rightarrow> i | None \<Rightarrow> hd w) else hd w"
  have mem: "?i \<in> set w" and el: "eligible ?pref (request_states s) ?i"
    using w ww
    by (auto simp: eligible_def has_preferred_waiting_request_def list_ex_iff find_Some_iff find_None_iff
        split: option.split)
  from live mem obtain st where st: "request_states s ?i = Some st" by blast
  let ?a = "if pad_tolerance s > 1 then Tolerance (clamped_tokens s st) (clamped_tokens s st)
            else Bucket (duration_bucket s st)"
  have "waiting_anchor h s w = Some ?a"
    using st can by (simp add: waiting_anchor_def Let_def)
  moreover have "accepts s ?a st \<noteq> None"
    by (auto simp: within_tolerance_refl clamped_tokens_pos Let_def)
  ultimately show ?thesis using mem el st by (intro exI [of _ ?a] conjI bexI [of _ ?i]) simp_all
qed

lemma fifo_progress:
  assumes q: "queues_ok s" and can: "\<forall>st. can_schedule_waiting h st"
    and w: "waiting s \<noteq> []" and cap: "0 < cap"
  shows "fst (select_fifo_waiting h s cap) \<noteq> []"
proof -
  let ?pref = "has_preferred_waiting_request h s"
  have live: "\<forall>i \<in> set (waiting s). request_states s i \<noteq> None"
    using waiting_has_state [OF q] by blast
  have ex: "\<exists>i \<in> set (waiting s). eligible ?pref (request_states s) i"
    using w by (cases "waiting s") (auto simp: eligible_def has_preferred_waiting_request_def list_ex_iff)
  obtain sel dfr rest where
    l: "fifo_loop h (request_states s) ?pref cap (waiting s) [] [] = (sel, dfr, rest)"
    by (rule prod_cases3)
  show ?thesis
    using fifo_loop_nonempty [OF l live can cap ex] l by (simp add: select_fifo_waiting_def)
qed

lemma bucket_progress:
  assumes q: "queues_ok s" and can: "\<forall>st. can_schedule_waiting h st"
    and w: "waiting s \<noteq> []" and cap: "0 < cap"
  shows "fst (select_duration_bucket_waiting h s cap []) \<noteq> []"
proof -
  have live: "\<forall>i \<in> set (waiting s). request_states s i \<noteq> None"
    using waiting_has_state [OF q] by blast
  from waiting_anchor_accepts [OF w live can refl] obtain a where
    a: "waiting_anchor h s (waiting s) = Some a"
    and ex: "\<exists>i \<in> set (waiting s). eligible (has_preferred_waiting_request h s) (request_states s) i
        \<and> accepts s a (the (request_states s i)) \<noteq> None" by blast
  obtain sel dfr rest where
    l: "bucket_loop s (has_preferred_waiting_request h s) cap a (waiting s) [] [] = (sel, dfr, rest)"
    by (rule prod_cases3)
  show ?thesis
    using bucket_loop_nonempty [OF l live cap ex] l w cap a
    by (simp add: select_duration_bucket_waiting_def Let_def dropWhile_live [OF live]
        bucket_select_def List.map_filter_def)
qed

lemma select_progress:
  assumes "queues_ok s" "\<forall>st. can_schedule_waiting h st" "running s = []" "waiting s \<noteq> []"
    "0 < spare_capacity s"
  shows "fst (select_waiting h s) \<noteq> []"
  using assms fifo_progress [of s h "spare_capacity s"] bucket_progress [of s h "spare_capacity s"]
  by (simp add: select_waiting_cases)

interpretation base_selector: progressive_selector "select_waiting base_hooks"
  by unfold_locales (simp add: select_progress)

section \<open>Fresh request ids\<close>

lemma fresh_suffix_None: "fresh_suffix m base cand n = Some i \<Longrightarrow> m i = None"
proof -
  assume ret: "fresh_suffix m base cand n = Some i"
  show "m i = None"
  proof (rule fresh_suffix.raw_induct [where P = "\<lambda>m base cand n i. m i = None", OF _ ret])
    fix f :: "(string \<rightharpoonup> 'a) \<Rightarrow> string \<Rightarrow> string \<Rightarrow> nat \<Rightarrow> string option" and m base cand n i
    assume IH: "\<And>m base cand n i. f m base cand n = Some i \<Longrightarrow> m i = None"
      and eq: "(if m cand = None then Some cand
                else f m base (base @ ''#'' @ show_nat n) (n + 1)) = Some i"
    show "m i = None"
      using eq IH by (cases "m cand = None") auto
  qed
qed

lemma fresh_suffix_returns_aux:
  "m (base @ ''#'' @ show_nat (n + d)) = None \<Longrightarrow> \<exists>i. fresh_suffix m base cand n = Some i"
proof (induction d arbitrary: n cand)
  case 0
  then show ?case
    by (subst fresh_suffix.simps) (subst fresh_suffix.simps, simp)
next
  case (Suc d)
  then have "\<exists>i. fresh_suffix m base (base @ ''#'' @ show_nat n) (n + 1) = Some i"
    by (metis add_Suc_right add_Suc_shift Suc_eq_plus1)
  then show ?case by (subst fresh_suffix.simps) simp
qed

lemma fresh_suffix_returns:
  assumes "finite (dom m)"
  shows "\<exists>i. fresh_suffix m base cand n = Some i"
proof -
  let ?f = "\<lambda>d. base @ ''#'' @ show_nat (n + d)"
  have "inj ?f" by (auto simp: inj_def)
  then have "infinite (range ?f)" by (simp add: finite_image_iff)
  with assms have "\<not> range ?f \<subseteq> dom m" by (meson finite_subset)
  then obtain d where "m (?f d) = None" by auto
  then show ?thesis by (rule fresh_suffix_returns_aux)
qed

lemma make_sched_req_id_fresh:
  "make_sched_req_id rnd r s = Some i \<Longrightarrow> request_states s i = None"
  by (auto simp: make_sched_req_id_def Let_def dest: fresh_suffix_None)

lemma make_sched_req_id_returns:
  "states_ok s \<Longrightarrow> \<exists>i. make_sched_req_id rnd r s = Some i"
  by (auto simp: make_sched_req_id_def Let_def states_ok_def intro: fresh_suffix_returns)

section \<open>The other operations keep the invariant\<close>

lemma register_request_ids_Some:
  "register_request_ids rs i m = (m', e) \<Longrightarrow> m' r = Some j \<Longrightarrow> m r = Some j \<or> (j = i \<and> r \<in> set rs)"
  by (induction rs i m arbitrary: m' e rule: register_request_ids.induct)
    (force split: option.splits if_splits)+

lemma register_request_ids_keeps:
  "m x = Some i \<Longrightarrow> register_request_ids rs i m = (m', e) \<Longrightarrow> m' x = Some i"
proof (induction rs i m rule: register_request_ids.induct)
  case (1 i m)
  then show ?case by simp
next
  case (2 r rs i m)
  have up: "(m(r \<mapsto> i)) x = Some i" using "2.prems"(1) by simp
  show ?case
    using "2.IH" "2.prems" up
    by (auto simp del: fun_upd_apply split: option.splits if_splits)
qed

lemma register_request_ids_ok:
  "register_request_ids rs i m = (m', Inr u) \<Longrightarrow> r \<in> set rs \<Longrightarrow> m' r = Some i"
proof (induction rs i m rule: register_request_ids.induct)
  case (1 i m)
  then show ?case by simp
next
  case (2 r' rs i m)
  then have reg: "register_request_ids rs i (m(r' \<mapsto> i)) = (m', Inr u)"
    by (auto simp del: fun_upd_apply split: option.splits if_splits)
  show ?case
  proof (cases "r \<in> set rs")
    case True
    with 2 reg show ?thesis by (auto simp del: fun_upd_apply split: option.splits if_splits)
  next
    case False
    with "2.prems"(2) have "(m(r' \<mapsto> i)) r = Some i" by simp
    then show ?thesis using reg by (rule register_request_ids_keeps)
  qed
qed

lemma unregister_request_ids_eq:
  "unregister_request_ids rs i m r = (if r \<in> set rs \<and> m r = Some i then None else m r)"
  by (induction rs i m rule: unregister_request_ids.induct) auto

lemma add_request_wf:
  assumes "sched_wf s" and "request_states s i = None"
  shows "sched_wf (fst (add_request_with_sched_req_id i r s))"
proof -
  obtain m e where reg: "register_request_ids (request_ids r) i (request_id_to_sched_req_id s) = (m, e)"
    by (rule prod.exhaust)
  have notin: "i \<notin> set (running s)" "i \<notin> set (waiting s)"
    using assms by (auto simp: sched_wf_def queues_ok_def)
  show ?thesis
    using assms notin register_request_ids_Some [OF reg]
    by (cases e; simp add: add_request_with_sched_req_id_def Let_def reg sched_wf_def queues_ok_def
        states_ok_def rid_map_ok_def capacity_ok_def; fastforce)
qed

lemma add_request_but:
  assumes "sched_inv_but L s" and "request_states s i = None"
    and "add_request_with_sched_req_id i r s = (s', Inr j)"
  shows "sched_inv_but L s'" and "j = i" and "waiting s' = waiting s @ [i]"
    and "request_states s' = (request_states s)(i \<mapsto> \<lparr>sched_req_id = i, req = r, status = WAITING, error = None\<rparr>)"
proof -
  obtain m e where reg: "register_request_ids (request_ids r) i (request_id_to_sched_req_id s) = (m, e)"
    by (rule prod.exhaust)
  from assms(3) reg show "j = i" "waiting s' = waiting s @ [i]" and
    st: "request_states s' = (request_states s)(i \<mapsto> \<lparr>sched_req_id = i, req = r, status = WAITING, error = None\<rparr>)"
    by (auto simp: add_request_with_sched_req_id_def Let_def split: sum.splits)
  have "sched_wf s'"
    using add_request_wf [of s i r] assms by (simp add: sched_inv_but_def)
  moreover have "no_lost_but L s'"
  proof -
    have "running s' = running s" "waiting s' = waiting s @ [i]"
      using assms(3) reg by (auto simp: add_request_with_sched_req_id_def Let_def split: sum.splits)
    then show ?thesis using assms(1) st by (simp add: sched_inv_but_def no_lost_but_def is_live_def)
  qed
  ultimately show "sched_inv_but L s'" by (simp add: sched_inv_but_def)
qed

lemmas add_request_inv = add_request_but [where L = "{}", folded sched_inv_but_empty]

lemma finish_requests_dict_eq:
  fixes s :: "'a sched_scheme"
  assumes "list_all (is_finished \<circ> snd) statuses"
  defines "fin \<equiv> set (filter (is_live (request_states s)) (map fst statuses))"
  shows "finish_requests_dict statuses errors s =
    (s\<lparr>running := filter (\<lambda>i. i \<notin> fin) (running s),
       waiting := filter (\<lambda>i. i \<notin> fin) (waiting s),
       request_states := (\<lambda>i. if i \<in> fin
          then map_option (finish_state (the (map_of statuses i)) (errors i)) (request_states s i)
          else request_states s i),
       finished_req_ids := finished_req_ids s \<union> fin\<rparr>, Inr fin)"
  using assms(1) by (cases "statuses = []") (auto simp: finish_requests_dict_def fin_def Let_def)

lemma finish_state_simps [simp]:
  "status (finish_state stat err st) = stat" "sched_req_id (finish_state stat err st) = sched_req_id st"
  "req (finish_state stat err st) = req st"
  "error (finish_state stat err st) = (if stat = FINISHED_ERROR then err else None)"
  by (simp_all add: finish_state_def)

lemma statuses_finished:
  "list_all (is_finished \<circ> snd) statuses \<Longrightarrow> i \<in> fst ` set statuses
     \<Longrightarrow> is_finished (the (map_of statuses i))"
  by (induction statuses) auto

lemma finish_requests_dict_but:
  assumes inv: "sched_inv_but L s" and fin: "list_all (is_finished \<circ> snd) statuses"
  shows "sched_inv_but L (fst (finish_requests_dict statuses errors s))"
proof -
  define fin where "fin = set (filter (is_live (request_states s)) (map fst statuses))"
  define f where "f i = finish_state (the (map_of statuses i)) (errors i)" for i
  let ?s' = "fst (finish_requests_dict statuses errors s)"
  have s': "running ?s' = filter (\<lambda>i. i \<notin> fin) (running s)"
    "waiting ?s' = filter (\<lambda>i. i \<notin> fin) (waiting s)"
    "request_states ?s' = (\<lambda>i. if i \<in> fin then map_option (f i) (request_states s i)
                                else request_states s i)"
    "request_id_to_sched_req_id ?s' = request_id_to_sched_req_id s"
    "max_num_running_reqs ?s' = max_num_running_reqs s"
    by (simp_all add: finish_requests_dict_eq [OF fin] fin_def f_def fun_eq_iff)
  have f: "sched_req_id (f i st) = sched_req_id st" "req (f i st) = req st" for i st
    by (simp_all add: f_def)
  have dead: "is_finished (status (f i st))" if "i \<in> fin" for i st
    using that statuses_finished [OF fin, of i] by (simp add: f_def fin_def)
  have "queues_ok ?s'" "capacity_ok ?s'"
    using inv
    by (auto simp: s' sched_inv_but_def sched_wf_def queues_ok_def capacity_ok_def
        intro: order_trans [OF of_nat_mono [OF length_filter_le]])
  moreover have "states_ok ?s'"
    using inv by (auto simp: s' f sched_inv_but_def sched_wf_def states_ok_def dom_def
        elim!: rev_finite_subset split: if_splits)
  moreover have "rid_map_ok ?s'"
    using inv by (fastforce simp: s' f sched_inv_but_def sched_wf_def rid_map_ok_def)
  moreover have "no_lost_but L ?s'"
  proof -
    have "is_live (request_states s) i \<and> i \<notin> fin" if "is_live (request_states ?s') i" for i
      using that dead [of i] by (cases "i \<in> fin") (auto simp: s' is_live_iff)
    then show ?thesis using inv by (auto simp: s' sched_inv_but_def no_lost_but_def)
  qed
  ultimately show ?thesis by (simp add: sched_inv_but_def sched_wf_def)
qed

lemmas finish_requests_dict_inv = finish_requests_dict_but [where L = "{}", folded sched_inv_but_empty]

lemma finish_requests_but:
  assumes "sched_inv_but L s"
  shows "sched_inv_but L (fst (finish_requests ids stat s))"
proof (cases "is_finished stat")
  case True
  then have "list_all (is_finished \<circ> snd) (map (\<lambda>i. (i, stat)) (fromkeys ids))"
    by (simp add: list_all_iff)
  from finish_requests_dict_but [OF assms this, of "\<lambda>_. None"] True show ?thesis
    by (auto simp: finish_requests_def split: prod.split sum.split)
next
  case False
  then show ?thesis using assms by (simp add: finish_requests_def)
qed

lemmas finish_requests_inv = finish_requests_but [where L = "{}", folded sched_inv_but_empty]

lemma preempt_request_but:
  assumes "sched_inv_but L s"
  shows "sched_inv_but L (fst (preempt_request i s))"
proof (cases "\<exists>st. request_states s i = Some st \<and> i \<in> set (running s)")
  case False
  then have "preempt_request i s = (s, False)"
    by (auto simp: preempt_request_def split: option.split)
  with assms show ?thesis by simp
next
  case True
  then obtain st where st: "request_states s i = Some st" "i \<in> set (running s)" by blast
  let ?s' = "s\<lparr>running := remove1 i (running s), waiting := i # waiting s,
               request_states := (request_states s)(i \<mapsto> st\<lparr>status := PREEMPTED\<rparr>)\<rparr>"
  have "queues_ok ?s'"
    using assms st by (auto simp: sched_inv_but_def sched_wf_def queues_ok_def)
  moreover have "states_ok ?s'" "rid_map_ok ?s'"
    using assms st by (auto simp: sched_inv_but_def sched_wf_def states_ok_def rid_map_ok_def) fastforce
  moreover have "capacity_ok ?s'"
    using assms by (auto simp: sched_inv_but_def sched_wf_def capacity_ok_def length_remove1)
  moreover have "no_lost_but L ?s'"
    using assms st
    by (auto simp: sched_inv_but_def sched_wf_def queues_ok_def no_lost_but_def is_live_def)
  ultimately show ?thesis using st by (simp add: preempt_request_def sched_inv_but_def sched_wf_def)
qed

lemmas preempt_request_inv = preempt_request_but [where L = "{}", folded sched_inv_but_empty]

text \<open>Popping a state is safe once the request is finished.\<close>

lemma pop_request_state_but:
  assumes inv: "sched_inv_but L s" and dead: "\<not> is_live (request_states s) i"
  shows "sched_inv_but L (fst (pop_request_state i s))"
proof -
  have notq: "i \<notin> set (running s) \<union> set (waiting s)"
    using inv dead by (force simp: sched_inv_but_def sched_wf_def queues_ok_def is_live_iff)
  let ?s' = "fst (pop_request_state i s)"
  have rs: "request_states ?s' = (request_states s)(i := None)" "running ?s' = running s"
    "waiting ?s' = waiting s" "max_num_running_reqs ?s' = max_num_running_reqs s"
    by (auto simp: pop_request_state_def Let_def split: option.split)
  have "queues_ok ?s'" "capacity_ok ?s'" "no_lost_but L ?s'"
    using inv notq by (auto simp: sched_inv_but_defs rs is_live_def)
  moreover have "states_ok ?s'"
    using inv by (auto simp: sched_inv_but_def sched_wf_def states_ok_def rs)
  moreover have "rid_map_ok ?s'"
    unfolding rid_map_ok_def
  proof (intro allI impI)
    fix r j assume "request_id_to_sched_req_id ?s' r = Some j"
    then have r: "request_id_to_sched_req_id s r = Some j"
      and keep: "\<And>st. request_states s i = Some st \<Longrightarrow> r \<in> set (request_ids (req st)) \<Longrightarrow> j \<noteq> i"
      by (auto simp: pop_request_state_def Let_def unregister_request_ids_eq split: option.splits if_splits)
    from r inv obtain st where st: "request_states s j = Some st" "r \<in> set (request_ids (req st))"
      unfolding sched_inv_but_def sched_wf_def rid_map_ok_def by blast
    moreover have "j \<noteq> i" using keep st by blast
    ultimately show "\<exists>st. request_states ?s' j = Some st \<and> r \<in> set (request_ids (req st))"
      by (simp add: rs)
  qed
  ultimately show ?thesis by (simp add: sched_inv_but_def sched_wf_def)
qed

lemmas pop_request_state_inv = pop_request_state_but [where L = "{}", folded sched_inv_but_empty]

lemma sched_inv_schedule [sched_inv_intros]:
  "sched_inv s \<Longrightarrow> sched_inv (fst (schedule h s))"
  unfolding schedule_def by (rule selector.schedule_inv)

lemma sched_but_schedule: "sched_inv_but L s \<Longrightarrow> sched_inv_but L (fst (schedule h s))"
  unfolding schedule_def by (rule selector.schedule_but)

lemmas [sched_inv_intros] =
  finish_requests_dict_inv finish_requests_inv preempt_request_inv pop_request_state_inv

lemma initialize_inv:
  "sched_inv (initialize env int_of float_of load s)"
  by (auto simp: initialize_def Let_def sched_inv_defs is_live_def env_int_def
      split: option.split)

end
