(* ===== verification/Sched_Request.thy ===== *)
theory Sched_Request
  imports Sched_Invariant
begin

text \<open>
  \<open>RequestScheduler\<close> (\<open>diffusion/sched/request_scheduler.py\<close>): one runner output finishes every
  scheduled request. The terminal statuses and errors that \<open>update_from_output\<close> collects in two
  dictionaries with the same keys are one dictionary of pairs.
\<close>

type_synonym outcome = "req_status \<times> string option"

text \<open>Truthiness of an optional string: \<open>None\<close> and the empty string are false.\<close>

definition truthy :: "string option \<Rightarrow> bool" where
  "truthy e = (case e of None \<Rightarrow> False | Some s \<Rightarrow> s \<noteq> [])"

definition result_for :: "runner_output \<Rightarrow> string \<Rightarrow> diffusion_output option" where
  "result_for ro i = (case map_of (or_empty (per_request_results ro)) i of
      Some r \<Rightarrow> Some r | None \<Rightarrow> ro_result ro)"

fun collect_outcomes ::
  "(string \<Rightarrow> outcome option) \<Rightarrow> string list \<Rightarrow> (string \<times> outcome) list \<Rightarrow> (string \<times> outcome) list" where
  "collect_outcomes f [] d = d"
| "collect_outcomes f (i # is) d =
     collect_outcomes f is (case f i of None \<Rightarrow> d | Some oc \<Rightarrow> dict_set i oc d)"

definition outcome_statuses :: "(string \<times> outcome) list \<Rightarrow> (string \<times> req_status) list" where
  "outcome_statuses d = map (\<lambda>(i, oc). (i, fst oc)) d"

definition outcome_errors :: "(string \<times> outcome) list \<Rightarrow> string \<Rightarrow> string option" where
  "outcome_errors d i = (case map_of d i of None \<Rightarrow> None | Some oc \<Rightarrow> snd oc)"

definition request_outcome :: "states \<Rightarrow> runner_output \<Rightarrow> string \<Rightarrow> outcome option" where
  "request_outcome sts ro i =
     (case sts i of
        None \<Rightarrow> None
      | Some st \<Rightarrow>
          if is_finished (status st) then None
          else (case result_for ro i of
                  None \<Rightarrow> Some (FINISHED_ERROR, Some ''No output result'')
                | Some r \<Rightarrow>
                    if truthy (out_error r) then Some (FINISHED_ERROR, out_error r)
                    else Some (FINISHED_COMPLETED, None)))"

definition request_update_from_output ::
  "sched_output \<Rightarrow> runner_output \<Rightarrow> 'a sched_scheme \<Rightarrow> 'a sched_scheme \<times> string set res" where
  "request_update_from_output out ro s =
     (let ids = scheduled_req_ids out in
      if ids = [] then (s, Inr {})
      else
        let d = collect_outcomes (request_outcome (request_states s) ro) ids []
        in finalize_update_from_output out (outcome_statuses d) (outcome_errors d) s)"

section \<open>Lemmas\<close>

lemma collect_outcomes_map_of:
  "map_of (collect_outcomes f is d) i =
     (if i \<in> set is \<and> f i \<noteq> None then f i else map_of d i)"
  by (induction f "is" d rule: collect_outcomes.induct)
    (auto simp: map_of_dict_set split: option.split)

lemma outcome_statuses_map_of:
  "map_of (outcome_statuses d) i = map_option fst (map_of d i)"
  by (induction d) (auto simp: outcome_statuses_def)

lemma outcome_statuses_keys: "fst ` set (outcome_statuses d) = dom (map_of d)"
  by (induction d) (auto simp: outcome_statuses_def)

lemma distinct_collect_outcomes:
  "distinct (map fst d) \<Longrightarrow> distinct (map fst (collect_outcomes f is d))"
  by (induction f "is" d rule: collect_outcomes.induct)
    (auto split: option.split simp: distinct_update)

lemma outcome_statuses_all:
  assumes "distinct (map fst d)"
    and "\<And>i oc. map_of d i = Some oc \<Longrightarrow> is_finished (fst oc)"
  shows "list_all (is_finished \<circ> snd) (outcome_statuses d)"
  using assms by (auto simp: list_all_iff outcome_statuses_def)

text \<open>
  What finishing with a dictionary of terminal outcomes does, stated on single requests:
  exactly the live requests with an outcome get it.
\<close>

definition apply_outcomes :: "(string \<Rightarrow> outcome option) \<Rightarrow> states \<Rightarrow> states" where
  "apply_outcomes f sts = (\<lambda>i. if is_live sts i
     then (case f i of None \<Rightarrow> sts i
           | Some oc \<Rightarrow> map_option (finish_state (fst oc) (snd oc)) (sts i))
     else sts i)"

lemma finish_collected:
  fixes s :: "'a sched_scheme" and ids :: "string list"
  assumes f: "\<forall>i oc. f i = Some oc \<longrightarrow> is_finished (fst oc)"
  defines "d \<equiv> collect_outcomes f ids []"
  defines "fin \<equiv> {i \<in> set ids. f i \<noteq> None \<and> is_live (request_states s) i}"
  shows "list_all (is_finished \<circ> snd) (outcome_statuses d)"
    and "finish_requests_dict (outcome_statuses d) (outcome_errors d) s =
     (s\<lparr>running := filter (\<lambda>i. i \<notin> fin) (running s),
        waiting := filter (\<lambda>i. i \<notin> fin) (waiting s),
        request_states := apply_outcomes (\<lambda>i. if i \<in> set ids then f i else None) (request_states s),
        finished_req_ids := finished_req_ids s \<union> fin\<rparr>, Inr fin)"
proof -
  have m: "map_of d i = (if i \<in> set ids then f i else None)" for i
    by (cases "f i") (simp_all add: d_def collect_outcomes_map_of)
  have dist: "distinct (map fst d)" unfolding d_def by (rule distinct_collect_outcomes) simp
  show all: "list_all (is_finished \<circ> snd) (outcome_statuses d)"
  proof (rule outcome_statuses_all [OF dist])
    fix i oc assume "map_of d i = Some oc"
    then have "f i = Some oc" using m by (auto split: if_splits)
    then show "is_finished (fst oc)" using f by blast
  qed
  have keys: "set (filter (is_live (request_states s)) (map fst (outcome_statuses d))) = fin"
    by (auto simp: fin_def outcome_statuses_keys m dom_def split: if_splits)
  have st: "(if i \<in> fin then map_option (finish_state (the (map_of (outcome_statuses d) i))
        (outcome_errors d i)) (request_states s i) else request_states s i)
     = apply_outcomes (\<lambda>i. if i \<in> set ids then f i else None) (request_states s) i" for i
    by (auto simp: fin_def apply_outcomes_def outcome_statuses_map_of outcome_errors_def m
        split: option.split)
  show "finish_requests_dict (outcome_statuses d) (outcome_errors d) s =
     (s\<lparr>running := filter (\<lambda>i. i \<notin> fin) (running s),
        waiting := filter (\<lambda>i. i \<notin> fin) (waiting s),
        request_states := apply_outcomes (\<lambda>i. if i \<in> set ids then f i else None) (request_states s),
        finished_req_ids := finished_req_ids s \<union> fin\<rparr>, Inr fin)"
    unfolding finish_requests_dict_eq [OF all] keys st by simp
qed

lemma request_outcome_finished:
  "request_outcome sts ro i = Some oc \<Longrightarrow> is_finished (fst oc)"
  by (auto simp: request_outcome_def split: option.splits if_splits)

lemma request_outcome_live: "request_outcome sts ro i \<noteq> None \<longleftrightarrow> is_live sts i"
  by (auto simp: request_outcome_def is_live_def split: option.splits)

lemma request_update_eq:
  fixes s :: "'a sched_scheme" and out :: sched_output
  assumes "scheduled_req_ids out \<noteq> []"
  defines "fin \<equiv> {i \<in> set (scheduled_req_ids out). is_live (request_states s) i}"
  shows "request_update_from_output out ro s =
    (s\<lparr>running := filter (\<lambda>i. i \<notin> fin) (running s),
       waiting := filter (\<lambda>i. i \<notin> fin) (waiting s),
       request_states := apply_outcomes
         (\<lambda>i. if i \<in> set (scheduled_req_ids out) then request_outcome (request_states s) ro i else None)
         (request_states s),
       finished_req_ids := finished_req_ids s \<union> fin\<rparr>,
     Inr ({i \<in> set (scheduled_req_ids out). i \<in> finished_req_ids s} \<union> fin))"
proof -
  have f: "\<forall>i oc. request_outcome (request_states s) ro i = Some oc \<longrightarrow> is_finished (fst oc)"
    by (blast dest: request_outcome_finished)
  show ?thesis
    using assms(1) finish_collected(2) [OF f, of "scheduled_req_ids out" s]
    by (simp only: request_update_from_output_def finalize_update_from_output_def Let_def fin_def
        request_outcome_live prod.case sum.case if_False simp_thms)
qed

lemma request_update_inv [sched_inv_intros]:
  assumes "sched_inv s"
  shows "sched_inv (fst (request_update_from_output out ro s))"
proof (cases "scheduled_req_ids out = []")
  case True
  with assms show ?thesis by (simp add: request_update_from_output_def)
next
  case False
  have f: "\<forall>i oc. request_outcome (request_states s) ro i = Some oc \<longrightarrow> is_finished (fst oc)"
    by (blast dest: request_outcome_finished)
  note fc = finish_collected [OF f, of "scheduled_req_ids out"]
  show ?thesis
    using finish_requests_dict_inv [OF assms fc(1), of "outcome_errors (collect_outcomes
        (request_outcome (request_states s) ro) (scheduled_req_ids out) [])"] False
    unfolding fc(2) [of s] request_update_eq [OF False] request_outcome_live by simp
qed

end
