(* ===== verification/Sched_Step.thy ===== *)
theory Sched_Step
  imports Sched_Request
begin

text \<open>
  \<open>StepScheduler\<close> (\<open>diffusion/sched/step_scheduler.py\<close>): a request advances one denoise step
  per runner output. The subclass adds the progress of every request (a record extension) and
  prefers requests that never ran. Requests that emitted a block of audio can yield their
  place to waiting requests.
\<close>

record step_progress =
  current_step :: int
  total_steps :: int

record step_sched = sched +
  request_progress :: "string \<rightharpoonup> step_progress"

definition step_hooks :: hooks where
  "step_hooks = \<lparr>can_schedule_waiting = (\<lambda>_. True), prefer_waiting_requests = True\<rparr>"

lemma step_hooks_simps [simp]:
  "can_schedule_waiting step_hooks st" "prefer_waiting_requests step_hooks"
  by (simp_all add: step_hooks_def)

definition reset_scheduler_state :: "step_sched \<Rightarrow> step_sched" where
  "reset_scheduler_state s = s\<lparr>request_progress := Map.empty\<rparr>"

definition step_initialize ::
  "(string \<rightharpoonup> string) \<Rightarrow> (string \<Rightarrow> int option) \<Rightarrow> (string \<Rightarrow> rat option)
     \<Rightarrow> (text_t \<Rightarrow> int option) option \<Rightarrow> step_sched \<Rightarrow> step_sched" where
  "step_initialize env int_of float_of load s =
     reset_scheduler_state (initialize env int_of float_of load s)"

definition step_close :: "step_sched \<Rightarrow> step_sched" where
  "step_close s = reset_scheduler_state (close s)"

section \<open>Adding requests\<close>

fun sequence_length :: "seq_val \<Rightarrow> int res" where
  "sequence_length (Shaped []) = Inr 1"
| "sequence_length (Shaped (n # _)) = Inr (int n)"
| "sequence_length (Plain n) = Inr (int n)"

definition get_total_steps :: "request \<Rightarrow> int res" where
  "get_total_steps r =
     (case timesteps (sampling_params r) of
        Some v \<Rightarrow> sequence_length v
      | None \<Rightarrow>
          (case sigmas (sampling_params r) of
             Some xs \<Rightarrow> Inr (int (length xs))
           | None \<Rightarrow>
               (case num_inference_steps (sampling_params r) of
                  None \<Rightarrow> Inl TypeError
                | Some n \<Rightarrow> Inr n)))"

definition initial_step :: "request \<Rightarrow> int" where
  "initial_step r = (case step_index (sampling_params r) of None \<Rightarrow> 0 | Some n \<Rightarrow> n)"

definition with_step_index :: "int \<Rightarrow> request \<Rightarrow> request" where
  "with_step_index n r = r\<lparr>sampling_params := (sampling_params r)\<lparr>step_index := Some n\<rparr>\<rparr>"

definition step_add_request ::
  "string \<Rightarrow> request \<Rightarrow> step_sched \<Rightarrow> (step_sched \<times> string res) option" where
  "step_add_request rnd r s =
     (case make_sched_req_id rnd r s of
        None \<Rightarrow> None
      | Some i \<Rightarrow> Some
          (case get_total_steps r of
             Inl e \<Rightarrow> (s, Inl e)
           | Inr n \<Rightarrow>
               if n \<le> 0 then (s, Inl ValueError)
               else
                 let cur = initial_step r in
                 if cur < 0 \<or> cur \<ge> n then (s, Inl ValueError)
                 else
                   (case add_request_with_sched_req_id i (with_step_index cur r) s of
                      (s1, Inl e) \<Rightarrow> (s1, Inl e)
                    | (s1, Inr j) \<Rightarrow>
                        (s1\<lparr>request_progress := (request_progress s1)
                              (j \<mapsto> \<lparr>current_step = cur, total_steps = n\<rparr>)\<rparr>, Inr j))))"

definition step_schedule :: "step_sched \<Rightarrow> step_sched \<times> sched_output" where
  "step_schedule s = schedule step_hooks s"

definition step_pop_request_state :: "string \<Rightarrow> step_sched \<Rightarrow> step_sched \<times> req_state option" where
  "step_pop_request_state i s =
     pop_request_state i (s\<lparr>request_progress := (request_progress s)(i := None)\<rparr>)"

section \<open>update_from_output\<close>

text \<open>What one scheduled request gets: nothing, an error, or a new step index.\<close>

datatype step_result = Skip | Failed string | Advance int bool

definition step_result_of :: "step_sched \<Rightarrow> runner_output \<Rightarrow> string \<Rightarrow> step_result" where
  "step_result_of s ro i =
     (case request_states s i of
        None \<Rightarrow> Skip
      | Some st \<Rightarrow>
          (case request_progress s i of
             None \<Rightarrow> Skip
           | Some _ \<Rightarrow>
               if is_finished (status st) then Skip
               else
                 let result_error = (case result_for ro i of
                        Some r \<Rightarrow> out_error r
                      | None \<Rightarrow> (case ro_result ro of Some r \<Rightarrow> out_error r | None \<Rightarrow> None))
                 in case result_error of
                      Some e \<Rightarrow> Failed e
                    | None \<Rightarrow>
                        (case (case map_of (or_empty (per_request_step_indices ro)) i of
                                 Some n \<Rightarrow> Some n | None \<Rightarrow> ro_step_index ro) of
                           None \<Rightarrow> Failed ''Missing step_index in RunnerOutput''
                         | Some n \<Rightarrow>
                             Advance n (case map_of (or_empty (per_request_finished ro)) i of
                                          Some b \<Rightarrow> b | None \<Rightarrow> ro_finished ro))))"

definition set_step :: "string \<Rightarrow> int \<Rightarrow> bool \<Rightarrow> step_sched \<Rightarrow> step_sched" where
  "set_step i n clear_error s =
     s\<lparr>request_progress := (request_progress s)
         (i := map_option (\<lambda>p. p\<lparr>current_step := n\<rparr>) (request_progress s i)),
       request_states := (request_states s)
         (i := map_option (\<lambda>st. st\<lparr>req := with_step_index n (req st),
                                     error := (if clear_error then None else error st)\<rparr>)
                 (request_states s i))\<rparr>"

fun step_update_loop ::
  "runner_output \<Rightarrow> string list \<Rightarrow> step_sched \<Rightarrow> (string \<times> outcome) list \<Rightarrow> string list
     \<Rightarrow> step_sched \<times> (string \<times> outcome) list \<times> string list" where
  "step_update_loop ro [] s d yielded = (s, d, yielded)"
| "step_update_loop ro (i # is) s d yielded =
     (case step_result_of s ro i of
        Skip \<Rightarrow> step_update_loop ro is s d yielded
      | Failed e \<Rightarrow> step_update_loop ro is s (dict_set i (FINISHED_ERROR, Some e) d) yielded
      | Advance n True \<Rightarrow>
          step_update_loop ro is (set_step i n False s)
            (dict_set i (FINISHED_COMPLETED, None) d) yielded
      | Advance n False \<Rightarrow>
          step_update_loop ro is (set_step i n True s) d
            (if map_of (or_empty (per_request_results ro)) i \<noteq> None
             then yielded @ [i] else yielded))"

definition should_yield_to_shorter_waiting_continuation :: "step_sched \<Rightarrow> req_state \<Rightarrow> bool" where
  "should_yield_to_shorter_waiting_continuation s st \<longleftrightarrow>
     batch_strategy s = Duration_Bucket \<and> waiting s \<noteq> [] \<and>
     list_ex (\<lambda>w. case request_states s w of
                     None \<Rightarrow> False
                   | Some wst \<Rightarrow> can_schedule_waiting step_hooks wst
                        \<and> duration_bucket s wst < duration_bucket s st) (waiting s)"

fun yield_loop :: "bool \<Rightarrow> string list \<Rightarrow> step_sched \<Rightarrow> step_sched" where
  "yield_loop prefer_first_audio [] s = s"
| "yield_loop prefer_first_audio (i # is) s =
     (case request_states s i of
        None \<Rightarrow> yield_loop prefer_first_audio is s
      | Some st \<Rightarrow>
          if is_finished (status st) then yield_loop prefer_first_audio is s
          else if i \<notin> set (running s) then yield_loop prefer_first_audio is s
          else if \<not> prefer_first_audio \<and> \<not> should_yield_to_shorter_waiting_continuation s st
          then yield_loop prefer_first_audio is s
          else yield_loop prefer_first_audio is
            (s\<lparr>running := remove1 i (running s),
               request_states := (request_states s)(i \<mapsto> st\<lparr>status := PREEMPTED\<rparr>),
               waiting := waiting s @ [i]\<rparr>))"

definition yield_intermediate_results :: "string list \<Rightarrow> step_sched \<Rightarrow> step_sched" where
  "yield_intermediate_results ids s = yield_loop (has_preferred_waiting_request step_hooks s) ids s"

definition step_update_from_output ::
  "sched_output \<Rightarrow> runner_output \<Rightarrow> step_sched \<Rightarrow> step_sched \<times> string set res" where
  "step_update_from_output out ro s =
     (let ids = scheduled_req_ids out in
      if ids = [] then (s, Inr {})
      else
        let (s1, d, yielded) = step_update_loop ro ids s [] []
        in case finalize_update_from_output out (outcome_statuses d) (outcome_errors d) s1 of
             (s2, Inl e) \<Rightarrow> (s2, Inl e)
           | (s2, Inr fin) \<Rightarrow> (yield_intermediate_results yielded s2, Inr fin))"

section \<open>Invariants\<close>

interpretation step_selector: progressive_selector "select_waiting step_hooks"
  by unfold_locales (simp add: select_progress)

text \<open>Every request of the scheduler has its progress record, with a positive length.\<close>

definition progress_ok :: "step_sched \<Rightarrow> bool" where
  "progress_ok s \<longleftrightarrow> dom (request_progress s) = dom (request_states s)
     \<and> (\<forall>i p. request_progress s i = Some p \<longrightarrow> 0 < total_steps p)"

definition step_inv :: "step_sched \<Rightarrow> bool" where
  "step_inv s \<longleftrightarrow> sched_inv s \<and> progress_ok s"

text \<open>The same with the requests of \<open>L\<close> apart.\<close>

definition progress_but :: "string set \<Rightarrow> step_sched \<Rightarrow> bool" where
  "progress_but L s \<longleftrightarrow> dom (request_progress s) \<subseteq> dom (request_states s)
     \<and> dom (request_states s) \<subseteq> dom (request_progress s) \<union> L
     \<and> (\<forall>i p. request_progress s i = Some p \<longrightarrow> 0 < total_steps p)"

definition step_inv_but :: "string set \<Rightarrow> step_sched \<Rightarrow> bool" where
  "step_inv_but L s \<longleftrightarrow> sched_inv_but L s \<and> progress_but L s"

lemma step_inv_but_empty: "step_inv s \<longleftrightarrow> step_inv_but {} s"
  by (auto simp: step_inv_def step_inv_but_def sched_inv_but_empty progress_ok_def progress_but_def)

lemma set_step_fields [simp]:
  "running (set_step i n c s) = running s" "waiting (set_step i n c s) = waiting s"
  "max_num_running_reqs (set_step i n c s) = max_num_running_reqs s"
  "request_id_to_sched_req_id (set_step i n c s) = request_id_to_sched_req_id s"
  "finished_req_ids (set_step i n c s) = finished_req_ids s"
  "dom (request_states (set_step i n c s)) = dom (request_states s)"
  "dom (request_progress (set_step i n c s)) = dom (request_progress s)"
  by (auto simp: set_step_def dom_def)

lemma set_step_state:
  "request_states (set_step i n c s) j = Some st \<Longrightarrow>
     \<exists>st0. request_states s j = Some st0 \<and> status st = status st0 \<and> sched_req_id st = sched_req_id st0
        \<and> request_ids (req st) = request_ids (req st0)"
  by (auto simp: set_step_def with_step_index_def split: if_splits)

lemma set_step_state_fwd:
  "request_states s j = Some st0 \<Longrightarrow>
     \<exists>st. request_states (set_step i n c s) j = Some st \<and> status st = status st0
        \<and> sched_req_id st = sched_req_id st0 \<and> request_ids (req st) = request_ids (req st0)"
  by (cases "j = i") (simp_all add: set_step_def with_step_index_def)

lemma set_step_live [simp]: "is_live (request_states (set_step i n c s)) j = is_live (request_states s) j"
  by (auto simp: is_live_def set_step_def with_step_index_def split: option.split)

lemma set_step_but:
  assumes "step_inv_but L s"
  shows "step_inv_but L (set_step i n c s)"
proof -
  let ?s' = "set_step i n c s"
  have q: "queues_ok s" using assms by (simp add: step_inv_but_def sched_inv_but_def sched_wf_def)
  have "queues_ok ?s'"
    using q set_step_state_fwd [of s _ _ i n c] unfolding queues_ok_def by simp metis
  moreover have "states_ok ?s'"
    using assms by (auto simp: step_inv_but_def sched_inv_but_def sched_wf_def states_ok_def dest!: set_step_state)
  moreover have "rid_map_ok ?s'"
    using assms set_step_state_fwd [of s _ _ i n c]
    unfolding step_inv_but_def sched_inv_but_def sched_wf_def rid_map_ok_def by simp metis
  moreover have "capacity_ok ?s'" "no_lost_but L ?s'"
    using assms by (simp_all add: step_inv_but_def sched_inv_but_def sched_wf_def capacity_ok_def no_lost_but_def)
  moreover have "progress_but L ?s'"
    using assms unfolding step_inv_but_def progress_but_def
    by (auto simp: set_step_def split: if_splits)
  ultimately show ?thesis by (simp add: step_inv_but_def sched_inv_but_def sched_wf_def)
qed

lemmas set_step_inv = set_step_but [where L = "{}", folded step_inv_but_empty]

definition step_outcome :: "step_sched \<Rightarrow> runner_output \<Rightarrow> string \<Rightarrow> outcome option" where
  "step_outcome s ro i = (case step_result_of s ro i of
      Skip \<Rightarrow> None
    | Failed e \<Rightarrow> Some (FINISHED_ERROR, Some e)
    | Advance n b \<Rightarrow> if b then Some (FINISHED_COMPLETED, None) else None)"

lemma step_outcome_finished: "step_outcome s ro i = Some oc \<Longrightarrow> is_finished (fst oc)"
  by (auto simp: step_outcome_def split: step_result.splits if_splits)

lemma step_result_of_set_step [simp]: "step_result_of (set_step j n c s) ro i = step_result_of s ro i"
  by (auto simp: step_result_of_def set_step_def split: option.split)

lemma step_outcome_set_step [simp]: "step_outcome (set_step j n c s) ro i = step_outcome s ro i"
  by (simp add: step_outcome_def)

lemma step_update_loop_dict:
  "step_update_loop ro is s d yielded = (s1, d1, y1) \<Longrightarrow> d1 = collect_outcomes (step_outcome s ro) is d"
proof (induction ro "is" s d yielded rule: step_update_loop.induct)
  case (1 ro s d yielded)
  then show ?case by simp
next
  case (2 ro i "is" s d yielded)
  have eq: "step_outcome (set_step i n c s) ro = step_outcome s ro" for n c by (rule ext) simp
  from 2 show ?case
    by (cases "step_result_of s ro i")
      (auto simp: eq step_outcome_def [of s ro i] split: bool.splits)
qed

lemma step_update_loop_but:
  "step_update_loop ro is s d yielded = (s1, d1, y1) \<Longrightarrow> step_inv_but L s \<Longrightarrow> step_inv_but L s1"
  by (induction ro "is" s d yielded rule: step_update_loop.induct)
    (auto simp: set_step_but split: step_result.splits bool.splits)

lemmas step_update_loop_inv = step_update_loop_but [where L = "{}", folded step_inv_but_empty]

lemma step_update_loop_fields:
  "step_update_loop ro is s d yielded = (s1, d1, y1) \<Longrightarrow>
     running s1 = running s \<and> waiting s1 = waiting s \<and> finished_req_ids s1 = finished_req_ids s
     \<and> is_live (request_states s1) = is_live (request_states s)"
proof (induction ro "is" s d yielded rule: step_update_loop.induct)
  case (1 ro s d yielded)
  then show ?case by simp
next
  case (2 ro i "is" s d yielded)
  have eq: "is_live (request_states (set_step i n c s)) = is_live (request_states s)" for n c
    by (rule ext) simp
  from 2 show ?case
    by (cases "step_result_of s ro i") (auto simp: eq split: bool.splits)
qed

text \<open>The requests that emitted an intermediate block: unfinished, with a result of their own.\<close>

definition emits_block :: "step_sched \<Rightarrow> runner_output \<Rightarrow> string \<Rightarrow> bool" where
  "emits_block s ro i = (case step_result_of s ro i of
      Advance n b \<Rightarrow> \<not> b \<and> map_of (or_empty (per_request_results ro)) i \<noteq> None
    | _ \<Rightarrow> False)"

lemma emits_block_set_step [simp]: "emits_block (set_step j n c s) ro i = emits_block s ro i"
  by (simp add: emits_block_def)

lemma step_update_loop_yielded:
  "step_update_loop ro is s d yielded = (s1, d1, y1) \<Longrightarrow>
     y1 = yielded @ filter (emits_block s ro) is"
proof (induction ro "is" s d yielded rule: step_update_loop.induct)
  case (1 ro s d yielded)
  then show ?case by simp
next
  case (2 ro i "is" s d yielded)
  have eq: "emits_block (set_step i n c s) ro = emits_block s ro" for n c by (rule ext) simp
  from 2 show ?case
    by (cases "step_result_of s ro i")
      (auto simp: eq emits_block_def [of s ro i] split: bool.splits if_splits)
qed

text \<open>A yielded request only moves from the running list to the end of the waiting queue.\<close>

lemma yield_one_but:
  assumes inv: "step_inv_but L s" and st: "request_states s i = Some st" and run: "i \<in> set (running s)"
  shows "step_inv_but L (s\<lparr>running := remove1 i (running s),
       request_states := (request_states s)(i \<mapsto> st\<lparr>status := PREEMPTED\<rparr>),
       waiting := waiting s @ [i]\<rparr>)"
proof -
  let ?s' = "s\<lparr>running := remove1 i (running s),
       request_states := (request_states s)(i \<mapsto> st\<lparr>status := PREEMPTED\<rparr>),
       waiting := waiting s @ [i]\<rparr>"
  have s: "queues_ok s" "states_ok s" "rid_map_ok s" "capacity_ok s" "no_lost_but L s" "progress_but L s"
    using inv by (simp_all add: step_inv_but_def sched_inv_but_def sched_wf_def)
  have "queues_ok ?s'" using s(1) st run by (auto simp: queues_ok_def)
  moreover have "states_ok ?s'" using s(2) st by (auto simp: states_ok_def)
  moreover have "rid_map_ok ?s'" using s(3) st by (fastforce simp: rid_map_ok_def)
  moreover have "capacity_ok ?s'" using s(4) by (auto simp: capacity_ok_def length_remove1)
  moreover have "no_lost_but L ?s'" using s(1,5) st run by (auto simp: no_lost_but_def is_live_def queues_ok_def)
  moreover have "progress_but L ?s'" using s(6) st by (auto simp: progress_but_def dom_def)
  ultimately show ?thesis by (simp add: step_inv_but_def sched_inv_but_def sched_wf_def)
qed

lemmas yield_one_inv = yield_one_but [where L = "{}", folded step_inv_but_empty]

lemma yield_loop_but: "step_inv_but L s \<Longrightarrow> step_inv_but L (yield_loop p is s)"
  by (induction p "is" s rule: yield_loop.induct) (auto simp: yield_one_but split: option.split)

lemmas yield_loop_inv = yield_loop_but [where L = "{}", folded step_inv_but_empty]

lemma yield_loop_queues:
  "mset (running (yield_loop p is s)) + mset (waiting (yield_loop p is s))
     = mset (running s) + mset (waiting s)"
  by (induction p "is" s rule: yield_loop.induct) (auto split: option.split)

lemma yield_loop_running: "subseq (running (yield_loop p is s)) (running s)"
  by (induction p "is" s rule: yield_loop.induct)
    (auto split: option.split intro: subseq_order.trans [OF _ subseq_remove1])

lemma yield_loop_waiting:
  "\<exists>ys. waiting (yield_loop p is s) = waiting s @ ys \<and> set ys \<subseteq> set is \<inter> set (running s)"
proof (induction p "is" s rule: yield_loop.induct)
  case (1 p s)
  then show ?case by simp
next
  case (2 p i "is" s)
  show ?case
  proof (cases "\<exists>st. request_states s i = Some st \<and> \<not> is_finished (status st) \<and> i \<in> set (running s)
        \<and> (p \<or> should_yield_to_shorter_waiting_continuation s st)")
    case True
    then obtain st where st: "request_states s i = Some st" "\<not> is_finished (status st)"
      "i \<in> set (running s)" "p \<or> should_yield_to_shorter_waiting_continuation s st" by blast
    then obtain ys where "waiting (yield_loop p (i # is) s) = waiting s @ i # ys"
      "set ys \<subseteq> set is \<inter> set (remove1 i (running s))"
      using "2.IH"(5) [OF st(1,2)] by auto
    then show ?thesis using st(3) by (auto dest: notin_set_remove1)
  next
    case False
    then have "yield_loop p (i # is) s = yield_loop p is s"
      by (auto split: option.split)
    moreover have "\<exists>ys. waiting (yield_loop p is s) = waiting s @ ys \<and> set ys \<subseteq> set is \<inter> set (running s)"
      using "2.IH"(1-4) False by (cases "request_states s i") blast+
    ultimately show ?thesis by auto
  qed
qed

section \<open>Every operation keeps the step invariant\<close>

lemma progress_ok_cong:
  "progress_ok s \<Longrightarrow> dom (request_states s') = dom (request_states s)
     \<Longrightarrow> request_progress s' = request_progress s \<Longrightarrow> progress_ok s'"
  by (simp add: progress_ok_def)

lemma progress_but_cong:
  "progress_but L s \<Longrightarrow> dom (request_states s') = dom (request_states s)
     \<Longrightarrow> request_progress s' = request_progress s \<Longrightarrow> progress_but L s'"
  by (simp add: progress_but_def)

lemma dom_apply_outcomes [simp]: "dom (apply_outcomes f sts) = dom sts"
  by (auto simp: apply_outcomes_def dom_def split: option.split)

lemma step_update_eq:
  fixes s :: step_sched and out :: sched_output
  assumes ne: "scheduled_req_ids out \<noteq> []"
    and loop: "step_update_loop ro (scheduled_req_ids out) s [] [] = (s1, d, yielded)"
  defines "fin \<equiv> {i \<in> set (scheduled_req_ids out). step_outcome s ro i \<noteq> None \<and> is_live (request_states s) i}"
  shows "step_update_from_output out ro s =
    (yield_intermediate_results yielded
       (s1\<lparr>running := filter (\<lambda>i. i \<notin> fin) (running s),
           waiting := filter (\<lambda>i. i \<notin> fin) (waiting s),
           request_states := apply_outcomes
             (\<lambda>i. if i \<in> set (scheduled_req_ids out) then step_outcome s ro i else None)
             (request_states s1),
           finished_req_ids := finished_req_ids s \<union> fin\<rparr>),
     Inr ({i \<in> set (scheduled_req_ids out). i \<in> finished_req_ids s} \<union> fin))"
    and "list_all (is_finished \<circ> snd) (outcome_statuses d)"
proof -
  have f: "\<forall>i oc. step_outcome s ro i = Some oc \<longrightarrow> is_finished (fst oc)"
    by (blast dest: step_outcome_finished)
  have d: "d = collect_outcomes (step_outcome s ro) (scheduled_req_ids out) []"
    using loop by (rule step_update_loop_dict)
  note fields = step_update_loop_fields [OF loop]
  show "list_all (is_finished \<circ> snd) (outcome_statuses d)"
    unfolding d by (rule finish_collected(1) [OF f])
  show "step_update_from_output out ro s =
    (yield_intermediate_results yielded
       (s1\<lparr>running := filter (\<lambda>i. i \<notin> fin) (running s),
           waiting := filter (\<lambda>i. i \<notin> fin) (waiting s),
           request_states := apply_outcomes
             (\<lambda>i. if i \<in> set (scheduled_req_ids out) then step_outcome s ro i else None)
             (request_states s1),
           finished_req_ids := finished_req_ids s \<union> fin\<rparr>),
     Inr ({i \<in> set (scheduled_req_ids out). i \<in> finished_req_ids s} \<union> fin))"
    using ne loop fields finish_collected(2) [OF f, of "scheduled_req_ids out" s1]
    by (simp add: step_update_from_output_def finalize_update_from_output_def Let_def d fin_def)
qed

lemma step_update_but:
  assumes "step_inv_but L s"
  shows "step_inv_but L (fst (step_update_from_output out ro s))"
proof (cases "scheduled_req_ids out = []")
  case True
  with assms show ?thesis by (simp add: step_update_from_output_def)
next
  case False
  obtain s1 d yielded where loop: "step_update_loop ro (scheduled_req_ids out) s [] [] = (s1, d, yielded)"
    by (rule prod_cases3)
  have s1: "step_inv_but L s1" using step_update_loop_but [OF loop assms] .
  note all = step_update_eq(2) [OF False loop]
  let ?s2 = "fst (finish_requests_dict (outcome_statuses d) (outcome_errors d) s1)"
  have "sched_inv_but L ?s2"
    using finish_requests_dict_but [where s = s1, OF _ all] s1 by (simp add: step_inv_but_def)
  moreover have "progress_but L ?s2"
    using s1 by (rule_tac progress_but_cong [where s = s1])
      (auto simp: step_inv_but_def finish_requests_dict_eq [OF all] dom_def)
  ultimately have "step_inv_but L ?s2" by (simp add: step_inv_but_def)
  then show ?thesis
    using False loop
    by (auto simp: step_update_from_output_def finalize_update_from_output_def Let_def
        yield_intermediate_results_def finish_requests_dict_eq [OF all] yield_loop_but)
qed

lemmas step_update_inv = step_update_but [where L = "{}", folded step_inv_but_empty]

lemma step_schedule_but:
  assumes "step_inv_but L s"
  shows "step_inv_but L (fst (step_schedule s))"
proof -
  have q: "queues_ok s" using assms by (simp add: step_inv_but_def sched_inv_but_def sched_wf_def)
  have "progress_but L (fst (step_schedule s))"
    using assms selector.schedule_eq [OF q]
    by (rule_tac progress_but_cong [where s = s])
      (auto simp: step_inv_but_def step_schedule_def schedule_def after_selection_def)
  then show ?thesis
    using assms sched_but_schedule [where s = s and h = step_hooks] by (simp add: step_inv_but_def step_schedule_def)
qed

lemmas step_schedule_inv = step_schedule_but [where L = "{}", folded step_inv_but_empty]

lemma step_finish_requests_but:
  fixes s :: step_sched
  assumes "step_inv_but L s"
  shows "step_inv_but L (fst (finish_requests ids stat s))"
proof -
  have "progress_but L (fst (finish_requests ids stat s))"
  proof (cases "is_finished stat")
    case True
    then have all: "list_all (is_finished \<circ> snd) (map (\<lambda>i. (i, stat)) (fromkeys ids))"
      by (simp add: list_all_iff)
    show ?thesis
      using assms True
      by (rule_tac progress_but_cong [where s = s])
        (auto simp: step_inv_but_def finish_requests_def finish_requests_dict_eq [OF all] dom_def)
  next
    case False
    then show ?thesis using assms by (simp add: finish_requests_def step_inv_but_def)
  qed
  then show ?thesis using assms finish_requests_but [where s = s] by (simp add: step_inv_but_def)
qed

lemmas step_finish_requests_inv = step_finish_requests_but [where L = "{}", folded step_inv_but_empty]

lemma step_preempt_request_but:
  fixes s :: step_sched
  assumes "step_inv_but L s"
  shows "step_inv_but L (fst (preempt_request i s))"
proof -
  have "progress_but L (fst (preempt_request i s))"
    using assms by (rule_tac progress_but_cong [where s = s])
      (auto simp: step_inv_but_def preempt_request_def split: option.split)
  then show ?thesis using assms preempt_request_but [where s = s] by (simp add: step_inv_but_def)
qed

lemmas step_preempt_request_inv = step_preempt_request_but [where L = "{}", folded step_inv_but_empty]

lemma step_pop_request_state_but:
  assumes "step_inv_but L s" and "\<not> is_live (request_states s) i"
  shows "step_inv_but L (fst (step_pop_request_state i s))"
proof -
  let ?s0 = "s\<lparr>request_progress := (request_progress s)(i := None)\<rparr>"
  have "sched_inv_but L ?s0" "\<not> is_live (request_states ?s0) i"
    using assms by (auto simp: step_inv_but_def sched_inv_but_defs)
  then have "sched_inv_but L (fst (pop_request_state i ?s0))" by (rule pop_request_state_but)
  moreover have "progress_but L (fst (pop_request_state i ?s0))"
    using assms(1) by (auto simp: step_inv_but_def progress_but_def pop_request_state_def Let_def split: option.split)
  ultimately show ?thesis by (simp add: step_inv_but_def step_pop_request_state_def)
qed

lemmas step_pop_request_state_inv = step_pop_request_state_but [where L = "{}", folded step_inv_but_empty]

lemma step_add_request_but:
  assumes inv: "step_inv_but L s" and add: "step_add_request rnd r s = Some (s', Inr i)"
  shows "step_inv_but L s'" and "request_states s i = None" and "waiting s' = waiting s @ [i]"
    and "running s' = running s" and "finished_req_ids s' = finished_req_ids s"
    and "request_states s' = (request_states s)(i \<mapsto>
       \<lparr>sched_req_id = i, req = with_step_index (initial_step r) r, status = WAITING, error = None\<rparr>)"
proof -
  from add obtain j n s1 where id: "make_sched_req_id rnd r s = Some j"
    and n0: "\<not> initial_step r < 0" "\<not> n \<le> initial_step r"
    and a: "add_request_with_sched_req_id j (with_step_index (initial_step r) r) s = (s1, Inr i)"
    and s': "s' = s1\<lparr>request_progress := (request_progress s1)
                      (i \<mapsto> \<lparr>current_step = initial_step r, total_steps = n\<rparr>)\<rparr>"
    by (auto simp: step_add_request_def Let_def split: option.splits sum.splits if_splits prod.splits)
  from n0 have n: "0 < n" by linarith
  note fresh = make_sched_req_id_fresh [OF id]
  have inv0: "sched_inv_but L s" using inv by (simp add: step_inv_but_def)
  note ok = add_request_but [OF inv0 fresh a]
  have ij: "i = j" using ok(2) .
  show "request_states s i = None" using fresh ij by simp
  show w: "waiting s' = waiting s @ [i]" using ok(3) s' ij by simp
  show st: "request_states s' = (request_states s)(i \<mapsto>
       \<lparr>sched_req_id = i, req = with_step_index (initial_step r) r, status = WAITING, error = None\<rparr>)"
    using ok(4) s' ij by simp
  have pr: "request_progress s1 = request_progress s" and run: "running s1 = running s"
    and fin: "finished_req_ids s1 = finished_req_ids s"
    using a by (auto simp: add_request_with_sched_req_id_def Let_def split: prod.splits sum.splits)
  show "running s' = running s" "finished_req_ids s' = finished_req_ids s" using run fin s' by simp_all
  have "sched_inv_but L s'" using ok(1) unfolding s' by (simp add: sched_inv_but_defs)
  moreover have "progress_but L s'"
    using inv n st pr s' by (auto simp: step_inv_but_def progress_but_def)
  ultimately show "step_inv_but L s'" by (simp add: step_inv_but_def)
qed

lemmas step_add_request_ok = step_add_request_but [where L = "{}", folded step_inv_but_empty]

lemma step_initialize_inv: "step_inv (step_initialize env int_of float_of load s)"
proof -
  have "sched_inv (initialize env int_of float_of load s)" by (rule initialize_inv)
  then show ?thesis
    by (auto simp: step_inv_def step_initialize_def reset_scheduler_state_def sched_inv_defs
        progress_ok_def initialize_def Let_def)
qed

end
