(* ===== verification/Sched_Interface.thy ===== *)
theory Sched_Interface
  imports Sched_Step
begin

text \<open>
  \<open>SchedulerInterface\<close> as a record of operations, so that the engine can be written once for
  both schedulers, and the contract the engine relies on as the locale \<open>scheduler\<close>: what each
  operation does to the queues, to the set of live requests and to the pending finished ids.
  \<open>RequestScheduler\<close> and \<open>StepScheduler\<close> interpret it.
\<close>

record 's sched_ops =
  op_add_request :: "string \<Rightarrow> request \<Rightarrow> 's \<Rightarrow> ('s \<times> string res) option"
  op_schedule :: "'s \<Rightarrow> 's \<times> sched_output"
  op_update_from_output :: "sched_output \<Rightarrow> runner_output \<Rightarrow> 's \<Rightarrow> 's \<times> string set res"
  op_get_request_state :: "'s \<Rightarrow> string \<Rightarrow> req_state option"
  op_has_requests :: "'s \<Rightarrow> bool"
  op_get_sched_req_id :: "'s \<Rightarrow> string \<Rightarrow> string option"
  op_pop_request_state :: "string \<Rightarrow> 's \<Rightarrow> 's \<times> req_state option"
  op_preempt_request :: "string \<Rightarrow> 's \<Rightarrow> 's \<times> bool"
  op_finish_requests :: "string list \<Rightarrow> req_status \<Rightarrow> 's \<Rightarrow> 's \<times> unit res"
  op_close :: "'s \<Rightarrow> 's"

definition request_ops :: "sched sched_ops" where
  "request_ops = \<lparr>
     op_add_request = add_request,
     op_schedule = schedule base_hooks,
     op_update_from_output = request_update_from_output,
     op_get_request_state = get_request_state,
     op_has_requests = has_requests,
     op_get_sched_req_id = get_sched_req_id,
     op_pop_request_state = pop_request_state,
     op_preempt_request = preempt_request,
     op_finish_requests = finish_requests,
     op_close = close\<rparr>"

definition step_ops :: "step_sched sched_ops" where
  "step_ops = \<lparr>
     op_add_request = step_add_request,
     op_schedule = step_schedule,
     op_update_from_output = step_update_from_output,
     op_get_request_state = get_request_state,
     op_has_requests = has_requests,
     op_get_sched_req_id = get_sched_req_id,
     op_pop_request_state = step_pop_request_state,
     op_preempt_request = preempt_request,
     op_finish_requests = finish_requests,
     op_close = step_close\<rparr>"

section \<open>Runs of a scheduler\<close>

text \<open>
  The calls its clients make, in any order and with any runner output. The two side conditions
  are what the engine observes: \<open>finish_requests\<close> asserts a terminal status, and a state is
  popped only once its request is no longer live.
\<close>

inductive sched_step :: "'s sched_ops \<Rightarrow> 's \<Rightarrow> 's \<Rightarrow> bool" for ops where
  add: "op_add_request ops rnd r s = Some (s', Inr i) \<Longrightarrow> sched_step ops s s'"
| schedule: "sched_step ops s (fst (op_schedule ops s))"
| update: "sched_step ops s (fst (op_update_from_output ops out ro s))"
| preempt: "sched_step ops s (fst (op_preempt_request ops i s))"
| finish: "is_finished stat \<Longrightarrow> sched_step ops s (fst (op_finish_requests ops ids stat s))"
| pop: "\<not> is_live (op_get_request_state ops s) i \<Longrightarrow> sched_step ops s (fst (op_pop_request_state ops i s))"

inductive sched_reachable :: "'s sched_ops \<Rightarrow> 's \<Rightarrow> 's \<Rightarrow> bool" for ops s0 where
  init: "sched_reachable ops s0 s0"
| step: "sched_reachable ops s0 s \<Longrightarrow> sched_step ops s s' \<Longrightarrow> sched_reachable ops s0 s'"

section \<open>The contract\<close>

locale scheduler =
  fixes ops :: "'s sched_ops"
    and inv :: "'s \<Rightarrow> bool"
    and run :: "'s \<Rightarrow> string list"
    and wait :: "'s \<Rightarrow> string list"
    and fins :: "'s \<Rightarrow> string set"
  assumes queues: "inv s \<Longrightarrow> distinct (run s @ wait s)"
    and live_queued: "inv s \<Longrightarrow>
      is_live (op_get_request_state ops s) i \<longleftrightarrow> i \<in> set (run s) \<union> set (wait s)"
    and has_requests: "inv s \<Longrightarrow> op_has_requests ops s \<longleftrightarrow> run s \<noteq> [] \<or> wait s \<noteq> []"
    and get_rid: "inv s \<Longrightarrow> op_get_sched_req_id ops s rid = Some i \<Longrightarrow>
      \<exists>st. op_get_request_state ops s i = Some st \<and> rid \<in> set (request_ids (req st))"
    and add_ok: "inv s \<Longrightarrow> op_add_request ops rnd rq s = Some (s', Inr i) \<Longrightarrow>
      inv s' \<and> op_get_request_state ops s i = None \<and> wait s' = wait s @ [i] \<and> run s' = run s
      \<and> fins s' = fins s
      \<and> (\<exists>st. op_get_request_state ops s' = (op_get_request_state ops s)(i \<mapsto> st)
              \<and> status st = WAITING \<and> request_ids (req st) = request_ids rq)"
    and schedule_ok: "inv s \<Longrightarrow> op_schedule ops s = (s', out) \<Longrightarrow>
      inv s' \<and> fins s' = {} \<and> out_finished_req_ids out = fins s
      \<and> mset (scheduled_req_ids out) = mset (run s')
      \<and> set (run s') \<union> set (wait s') = set (run s) \<union> set (wait s)
      \<and> (run s \<noteq> [] \<or> wait s \<noteq> [] \<longrightarrow> \<not> is_empty out)
      \<and> dom (op_get_request_state ops s') = dom (op_get_request_state ops s)
      \<and> (\<forall>i. \<not> is_live (op_get_request_state ops s) i \<longrightarrow>
            op_get_request_state ops s' i = op_get_request_state ops s i)"
    and update_ok: "inv s \<Longrightarrow> op_update_from_output ops out ro s = (s', res) \<Longrightarrow>
      inv s'
      \<and> res = Inr ({i \<in> set (scheduled_req_ids out). i \<in> fins s}
                 \<union> {i \<in> set (scheduled_req_ids out). is_live (op_get_request_state ops s) i
                       \<and> \<not> is_live (op_get_request_state ops s') i})
      \<and> (\<forall>i. is_live (op_get_request_state ops s') i \<longrightarrow> is_live (op_get_request_state ops s) i)
      \<and> fins s' = fins s \<union> {i. is_live (op_get_request_state ops s) i
                                 \<and> \<not> is_live (op_get_request_state ops s') i}
      \<and> (\<forall>i. is_live (op_get_request_state ops s) i
             \<and> \<not> is_live (op_get_request_state ops s') i \<longrightarrow> i \<in> set (scheduled_req_ids out))
      \<and> dom (op_get_request_state ops s') = dom (op_get_request_state ops s)
      \<and> (\<forall>i. \<not> is_live (op_get_request_state ops s) i \<longrightarrow>
            op_get_request_state ops s' i = op_get_request_state ops s i)"
    and finish_ok: "inv s \<Longrightarrow> is_finished stat \<Longrightarrow> op_finish_requests ops ids stat s = (s', fr) \<Longrightarrow>
      inv s' \<and> fr = Inr ()
      \<and> fins s' = fins s \<union> {i \<in> set ids. is_live (op_get_request_state ops s) i}
      \<and> run s' = filter (\<lambda>i. i \<notin> set ids) (run s)
      \<and> wait s' = filter (\<lambda>i. i \<notin> set ids) (wait s)
      \<and> dom (op_get_request_state ops s') = dom (op_get_request_state ops s)
      \<and> (\<forall>i. i \<notin> set ids \<or> \<not> is_live (op_get_request_state ops s) i \<longrightarrow>
            op_get_request_state ops s' i = op_get_request_state ops s i)
      \<and> (\<forall>i. i \<in> set ids \<and> is_live (op_get_request_state ops s) i \<longrightarrow>
            map_option status (op_get_request_state ops s' i) = Some stat)"
    and preempt_ok: "inv s \<Longrightarrow> op_preempt_request ops i s = (s', moved) \<Longrightarrow>
      inv s' \<and> (\<forall>j. \<not> is_live (op_get_request_state ops s) j \<longrightarrow>
            op_get_request_state ops s' j = op_get_request_state ops s j)"
    and pop_ok: "inv s \<Longrightarrow> \<not> is_live (op_get_request_state ops s) i \<Longrightarrow>
      op_pop_request_state ops i s = (s', st) \<Longrightarrow>
      inv s' \<and> st = op_get_request_state ops s i
      \<and> op_get_request_state ops s' = (op_get_request_state ops s)(i := None)
      \<and> run s' = run s \<and> wait s' = wait s \<and> fins s' = fins s"
begin

abbreviation sts :: "'s \<Rightarrow> states" where
  "sts \<equiv> op_get_request_state ops"

lemma live_dom: "is_live (sts s) i \<Longrightarrow> i \<in> dom (sts s)"
  by (auto simp: is_live_iff)

text \<open>A finished request keeps its state until it is popped.\<close>

lemma finished_stable_schedule:
  assumes "inv s" "sts s i = Some st" "is_finished (status st)" "op_schedule ops s = (s', out)"
  shows "sts s' i = Some st"
  using schedule_ok [OF assms(1,4)] assms(2,3) by (auto simp: is_live_iff)

lemma finished_stable_update:
  assumes "inv s" "sts s i = Some st" "is_finished (status st)"
    "op_update_from_output ops out ro s = (s', r)"
  shows "sts s' i = Some st"
  using update_ok [OF assms(1,4)] assms(2,3) by (auto simp: is_live_iff)

lemma finished_stable_finish:
  assumes "inv s" "sts s i = Some st" "is_finished (status st)" "is_finished stat"
    "op_finish_requests ops ids stat s = (s', r)"
  shows "sts s' i = Some st"
  using finish_ok [OF assms(1,4,5)] assms(2,3) by (auto simp: is_live_iff)

lemma finished_stable_preempt:
  assumes "inv s" "sts s i = Some st" "is_finished (status st)" "op_preempt_request ops j s = (s', b)"
  shows "sts s' i = Some st"
  using preempt_ok [OF assms(1,4)] assms(2,3) by (auto simp: is_live_iff)

text \<open>Every step keeps the invariant, and a finished request's state until it is popped.\<close>

lemma step_inv:
  assumes "sched_step ops s s'" "inv s"
  shows "inv s'"
  using assms
proof cases
  case (add rnd r i)
  then show ?thesis using add_ok assms(2) by blast
next
  case schedule
  then show ?thesis using schedule_ok [OF assms(2) prod.collapse [symmetric]] by blast
next
  case (update out ro)
  then show ?thesis using update_ok [OF assms(2) prod.collapse [symmetric]] by blast
next
  case (preempt i)
  then show ?thesis using preempt_ok [OF assms(2) prod.collapse [symmetric]] by blast
next
  case (finish stat ids)
  then show ?thesis using finish_ok [OF assms(2) _ prod.collapse [symmetric]] by blast
next
  case (pop i)
  then show ?thesis using pop_ok [OF assms(2) _ prod.collapse [symmetric]] by blast
qed

lemma reachable_inv: "sched_reachable ops s0 s \<Longrightarrow> inv s0 \<Longrightarrow> inv s"
  by (induction rule: sched_reachable.induct) (auto intro: step_inv)

lemma step_finished:
  assumes "sched_step ops s s'" "inv s" "sts s i = Some st" "is_finished (status st)"
  shows "sts s' i = Some st \<or> sts s' i = None"
  using assms(1)
proof cases
  case (add rnd r j)
  then show ?thesis using add_ok [OF assms(2), of rnd r s' j] assms(3) by (cases "i = j") auto
next
  case schedule
  then show ?thesis using finished_stable_schedule [OF assms(2-4) prod.collapse [symmetric]] by blast
next
  case (update out ro)
  then show ?thesis using finished_stable_update [OF assms(2-4) prod.collapse [symmetric]] by blast
next
  case (preempt j)
  then show ?thesis using finished_stable_preempt [OF assms(2-4) prod.collapse [symmetric]] by blast
next
  case (finish stat ids)
  then show ?thesis using finished_stable_finish [OF assms(2-4) _ prod.collapse [symmetric]] by blast
next
  case (pop j)
  then show ?thesis using pop_ok [OF assms(2) _ prod.collapse [symmetric], of j] assms(3) by auto
qed

end

section \<open>Facts about the base operations\<close>

lemma live_iff_queued:
  "sched_inv s \<Longrightarrow> is_live (request_states s) i \<longleftrightarrow> i \<in> set (running s) \<union> set (waiting s)"
  by (force simp: sched_inv_def sched_wf_def queues_ok_def no_lost_def is_live_iff)

lemma get_request_state_eq [simp]: "get_request_state s = request_states s"
  by (rule ext) (simp add: get_request_state_def)

lemma is_live_set_running [simp]:
  "is_live (set_running A sts) i = (\<exists>st. sts i = Some st \<and> (i \<in> A \<or> \<not> is_finished (status st)))"
  by (auto simp: is_live_iff set_running_def)

lemma schedule_facts:
  assumes inv: "sched_inv s" and can: "\<forall>st. can_schedule_waiting h st"
    and eq: "schedule h s = (s', out)"
  shows "finished_req_ids s' = {}" and "out_finished_req_ids out = finished_req_ids s"
    and "mset (scheduled_req_ids out) = mset (running s')"
    and "set (running s') \<union> set (waiting s') = set (running s) \<union> set (waiting s)"
    and "running s \<noteq> [] \<or> waiting s \<noteq> [] \<longrightarrow> \<not> is_empty out"
    and "dom (request_states s') = dom (request_states s)"
    and "\<forall>i. \<not> is_live (request_states s) i \<longrightarrow> request_states s' i = request_states s i"
proof -
  have wf: "sched_wf s" and q: "queues_ok s" using inv by (simp_all add: sched_inv_def sched_wf_def)
  have "s' = fst (schedule h s)" "out = snd (schedule h s)" using eq by simp_all
  then have s': "s' = after_selection (select_waiting h s) s"
    and out: "out_finished_req_ids out = finished_req_ids s"
    unfolding schedule_def selector.schedule_eq [OF q, of h] by simp_all
  show "finished_req_ids s' = {}" "out_finished_req_ids out = finished_req_ids s"
    "dom (request_states s') = dom (request_states s)"
    using s' out by (simp_all add: after_selection_def)
  show m: "mset (scheduled_req_ids out) = mset (running s')"
    using selector.schedule_output_running [OF wf, of h] eq by (simp add: schedule_def)
  have sets: "set (fst (select_waiting h s)) \<union> set (snd (select_waiting h s)) = set (waiting s)"
    by (rule selector.sel_subsets(1) [OF q])
  show "set (running s') \<union> set (waiting s') = set (running s) \<union> set (waiting s)"
    using sets s' by (auto simp: after_selection_def)
  show "running s \<noteq> [] \<or> waiting s \<noteq> [] \<longrightarrow> \<not> is_empty out"
  proof
    assume "running s \<noteq> [] \<or> waiting s \<noteq> []"
    then have "running s @ fst (select_waiting h s) \<noteq> []"
      using select_progress [OF q can] wf
      by (auto simp: sched_wf_def capacity_ok_def spare_capacity_def)
    then show "\<not> is_empty out"
      using m s' by (auto simp: is_empty_def after_selection_def)
  qed
  show "\<forall>i. \<not> is_live (request_states s) i \<longrightarrow> request_states s' i = request_states s i"
  proof (intro allI impI)
    fix i assume "\<not> is_live (request_states s) i"
    then have "i \<notin> set (waiting s)" using live_iff_queued [OF inv] by blast
    then have "i \<notin> set (fst (select_waiting h s))" using sets by blast
    then show "request_states s' i = request_states s i"
      using s' by (simp add: after_selection_def set_running_def)
  qed
qed

lemma finish_facts:
  assumes inv: "sched_inv s" and stat: "is_finished stat"
    and eq: "finish_requests ids stat s = (s', r)"
  shows "r = Inr ()"
    and "finished_req_ids s' = finished_req_ids s \<union> {i \<in> set ids. is_live (request_states s) i}"
    and "running s' = filter (\<lambda>i. i \<notin> set ids) (running s)"
    and "waiting s' = filter (\<lambda>i. i \<notin> set ids) (waiting s)"
    and "request_states s' = (\<lambda>i. if i \<in> set ids \<and> is_live (request_states s) i
           then map_option (finish_state stat None) (request_states s i) else request_states s i)"
proof -
  have all: "list_all (is_finished \<circ> snd) (map (\<lambda>i. (i, stat)) (fromkeys ids))"
    using stat by (simp add: list_all_iff)
  have m: "map_of (map (\<lambda>i. (i, stat)) (fromkeys ids)) i = (if i \<in> set ids then Some stat else None)" for i
    by (auto simp: map_of_map_restrict restrict_map_def)
  have "running s' = filter (\<lambda>i. \<not> (i \<in> set ids \<and> is_live (request_states s) i)) (running s)"
    "waiting s' = filter (\<lambda>i. \<not> (i \<in> set ids \<and> is_live (request_states s) i)) (waiting s)"
    using eq stat by (auto simp: finish_requests_def finish_requests_dict_eq [OF all] comp_def)
  then show "running s' = filter (\<lambda>i. i \<notin> set ids) (running s)"
    "waiting s' = filter (\<lambda>i. i \<notin> set ids) (waiting s)"
    using live_iff_queued [OF inv] by (auto intro!: filter_cong)
  show "r = Inr ()"
    "finished_req_ids s' = finished_req_ids s \<union> {i \<in> set ids. is_live (request_states s) i}"
    "request_states s' = (\<lambda>i. if i \<in> set ids \<and> is_live (request_states s) i
           then map_option (finish_state stat None) (request_states s i) else request_states s i)"
    using eq stat
    by (auto simp: finish_requests_def finish_requests_dict_eq [OF all] comp_def m fun_eq_iff)
qed

lemma pop_facts:
  assumes "pop_request_state i s = (s', st)"
  shows "st = request_states s i" and "request_states s' = (request_states s)(i := None)"
    and "running s' = running s" and "waiting s' = waiting s"
    and "finished_req_ids s' = finished_req_ids s"
  using assms by (auto simp: pop_request_state_def Let_def split: option.splits)

lemma add_facts:
  assumes inv: "sched_inv s" and eq: "add_request rnd rq s = Some (s', Inr i)"
  shows "sched_inv s'" and "request_states s i = None" and "waiting s' = waiting s @ [i]"
    and "running s' = running s" and "finished_req_ids s' = finished_req_ids s"
    and "request_states s' = (request_states s)(i \<mapsto>
           \<lparr>sched_req_id = i, req = rq, status = WAITING, error = None\<rparr>)"
proof -
  obtain j where id: "make_sched_req_id rnd rq s = Some j"
    and a: "add_request_with_sched_req_id j rq s = (s', Inr i)"
    using eq by (auto simp: add_request_def split: option.splits)
  note fresh = make_sched_req_id_fresh [OF id]
  note ok = add_request_inv [OF inv fresh a]
  show "sched_inv s'" "request_states s i = None" "waiting s' = waiting s @ [i]"
    "request_states s' = (request_states s)(i \<mapsto>
       \<lparr>sched_req_id = i, req = rq, status = WAITING, error = None\<rparr>)"
    using ok fresh by simp_all
  show "running s' = running s" "finished_req_ids s' = finished_req_ids s"
    using a by (auto simp: add_request_with_sched_req_id_def Let_def split: prod.splits sum.splits)
qed

text \<open>The part of the contract that \<open>finish_requests\<close> provides, on the base state.\<close>

lemma finish_contract:
  assumes inv: "sched_inv s" and stat: "is_finished stat" and eq: "finish_requests ids stat s = (s', fr)"
  shows "sched_inv s'" and "dom (request_states s') = dom (request_states s)"
    and "i \<notin> set ids \<or> \<not> is_live (request_states s) i \<Longrightarrow> request_states s' i = request_states s i"
    and "i \<in> set ids \<Longrightarrow> is_live (request_states s) i
       \<Longrightarrow> map_option status (request_states s' i) = Some stat"
proof -
  note st = finish_facts(5) [OF assms]
  show "sched_inv s'" using finish_requests_inv [OF inv, of ids stat] eq by simp
  show "dom (request_states s') = dom (request_states s)" unfolding st by (auto simp: dom_def)
  show "i \<notin> set ids \<or> \<not> is_live (request_states s) i \<Longrightarrow> request_states s' i = request_states s i"
    unfolding st by auto
  show "i \<in> set ids \<Longrightarrow> is_live (request_states s) i
       \<Longrightarrow> map_option status (request_states s' i) = Some stat"
    unfolding st by (auto simp: is_live_iff finish_state_def)
qed

lemma preempt_dead:
  assumes "sched_inv s" "preempt_request i s = (s', moved)" "\<not> is_live (request_states s) j"
  shows "request_states s' j = request_states s j"
proof (cases "i = j")
  case True
  then have "i \<notin> set (running s)" using assms(1,3) live_iff_queued by blast
  then show ?thesis using assms(2) by (auto simp: preempt_request_def split: option.splits)
next
  case False
  then show ?thesis using assms(2) by (auto simp: preempt_request_def split: option.splits if_splits)
qed

section \<open>RequestScheduler meets the contract\<close>

lemma is_live_apply_outcomes:
  assumes "\<forall>i oc. f i = Some oc \<longrightarrow> is_finished (fst oc)"
  shows "is_live (apply_outcomes f sts) i \<longleftrightarrow> is_live sts i \<and> f i = None"
proof (cases "sts i")
  case None
  then show ?thesis by (simp add: is_live_def apply_outcomes_def)
next
  case (Some st)
  show ?thesis
  proof (cases "f i")
    case None
    with Some show ?thesis by (simp add: is_live_def apply_outcomes_def)
  next
    case oc: (Some oc)
    then have "is_finished (fst oc)" using assms by blast
    with Some oc show ?thesis by (simp add: is_live_def apply_outcomes_def finish_state_def)
  qed
qed

lemma apply_outcomes_dead: "\<not> is_live sts i \<Longrightarrow> apply_outcomes f sts i = sts i"
  by (simp add: apply_outcomes_def)

lemma request_update_facts:
  assumes inv: "sched_inv s" and eq: "request_update_from_output out ro s = (s', res)"
  shows "sched_inv s'"
    and "is_live (request_states s') i \<longleftrightarrow>
      is_live (request_states s) i \<and> i \<notin> set (scheduled_req_ids out)"
    and "res = Inr ({i \<in> set (scheduled_req_ids out). i \<in> finished_req_ids s}
        \<union> {i \<in> set (scheduled_req_ids out). is_live (request_states s) i})"
    and "finished_req_ids s' = finished_req_ids s
        \<union> {i \<in> set (scheduled_req_ids out). is_live (request_states s) i}"
    and "dom (request_states s') = dom (request_states s)"
    and "\<not> is_live (request_states s) i \<Longrightarrow> request_states s' i = request_states s i"
proof -
  show "sched_inv s'" using request_update_inv [OF inv, of out ro] eq by simp
  have f: "\<forall>i oc. (if i \<in> set (scheduled_req_ids out) then request_outcome (request_states s) ro i else None)
       = Some oc \<longrightarrow> is_finished (fst oc)"
    by (auto dest: request_outcome_finished)
  note rl = request_outcome_live [of "request_states s" ro i]
  show "is_live (request_states s') i \<longleftrightarrow>
      is_live (request_states s) i \<and> i \<notin> set (scheduled_req_ids out)"
  proof (cases "scheduled_req_ids out = []")
    case True
    then show ?thesis using eq by (simp add: request_update_from_output_def)
  next
    case False
    have "s' = fst (request_update_from_output out ro s)" using eq by simp
    then show ?thesis
      unfolding request_update_eq [OF False] using rl
      by (auto simp: is_live_apply_outcomes [OF f] split: if_splits)
  qed
  have "s' = fst (request_update_from_output out ro s)" "res = snd (request_update_from_output out ro s)"
    using eq by simp_all
  then show "res = Inr ({i \<in> set (scheduled_req_ids out). i \<in> finished_req_ids s}
        \<union> {i \<in> set (scheduled_req_ids out). is_live (request_states s) i})"
    "finished_req_ids s' = finished_req_ids s
        \<union> {i \<in> set (scheduled_req_ids out). is_live (request_states s) i}"
    "dom (request_states s') = dom (request_states s)"
    "\<not> is_live (request_states s) i \<Longrightarrow> request_states s' i = request_states s i"
    by (cases "scheduled_req_ids out = []";
        simp add: request_update_eq apply_outcomes_dead;
        simp add: request_update_from_output_def)+
qed

interpretation req_sched: scheduler request_ops sched_inv running waiting finished_req_ids
proof
  fix s :: sched
  assume inv: "sched_inv s"
  then show "distinct (running s @ waiting s)" by (simp add: sched_inv_defs)
  show "is_live (op_get_request_state request_ops s) i \<longleftrightarrow> i \<in> set (running s) \<union> set (waiting s)" for i
    using live_iff_queued [OF inv] by (simp add: request_ops_def)
  show "op_has_requests request_ops s \<longleftrightarrow> running s \<noteq> [] \<or> waiting s \<noteq> []"
    by (auto simp: request_ops_def has_requests_def)
  show "op_get_sched_req_id request_ops s rid = Some i \<Longrightarrow>
      \<exists>st. op_get_request_state request_ops s i = Some st \<and> rid \<in> set (request_ids (req st))" for rid i
    using inv by (auto simp: request_ops_def get_sched_req_id_def sched_inv_defs)
  show "op_add_request request_ops rnd rq s = Some (s', Inr i) \<Longrightarrow>
      sched_inv s' \<and> op_get_request_state request_ops s i = None \<and> waiting s' = waiting s @ [i]
      \<and> running s' = running s \<and> finished_req_ids s' = finished_req_ids s
      \<and> (\<exists>st. op_get_request_state request_ops s' = (op_get_request_state request_ops s)(i \<mapsto> st)
              \<and> status st = WAITING \<and> request_ids (req st) = request_ids rq)" for rnd rq s' i
    using add_facts [OF inv, of rnd rq s' i]
    by (simp add: request_ops_def)
      (rule exI [of _ "\<lparr>sched_req_id = i, req = rq, status = WAITING, error = None\<rparr>"], simp)
  show "op_schedule request_ops s = (s', out) \<Longrightarrow>
      sched_inv s' \<and> finished_req_ids s' = {} \<and> out_finished_req_ids out = finished_req_ids s
      \<and> mset (scheduled_req_ids out) = mset (running s')
      \<and> set (running s') \<union> set (waiting s') = set (running s) \<union> set (waiting s)
      \<and> (running s \<noteq> [] \<or> waiting s \<noteq> [] \<longrightarrow> \<not> is_empty out)
      \<and> dom (op_get_request_state request_ops s') = dom (op_get_request_state request_ops s)
      \<and> (\<forall>i. \<not> is_live (op_get_request_state request_ops s) i \<longrightarrow>
            op_get_request_state request_ops s' i = op_get_request_state request_ops s i)" for s' out
    using schedule_facts [OF inv, of base_hooks s' out] sched_inv_schedule [OF inv, of base_hooks]
    by (simp add: request_ops_def)
  show "op_update_from_output request_ops out ro s = (s', res) \<Longrightarrow>
      sched_inv s'
      \<and> res = Inr ({i \<in> set (scheduled_req_ids out). i \<in> finished_req_ids s}
                 \<union> {i \<in> set (scheduled_req_ids out). is_live (op_get_request_state request_ops s) i
                       \<and> \<not> is_live (op_get_request_state request_ops s') i})
      \<and> (\<forall>i. is_live (op_get_request_state request_ops s') i \<longrightarrow> is_live (op_get_request_state request_ops s) i)
      \<and> finished_req_ids s' = finished_req_ids s \<union> {i. is_live (op_get_request_state request_ops s) i
                                 \<and> \<not> is_live (op_get_request_state request_ops s') i}
      \<and> (\<forall>i. is_live (op_get_request_state request_ops s) i
             \<and> \<not> is_live (op_get_request_state request_ops s') i \<longrightarrow> i \<in> set (scheduled_req_ids out))
      \<and> dom (op_get_request_state request_ops s') = dom (op_get_request_state request_ops s)
      \<and> (\<forall>i. \<not> is_live (op_get_request_state request_ops s) i \<longrightarrow>
            op_get_request_state request_ops s' i = op_get_request_state request_ops s i)" for out ro s' res
  proof -
    assume "op_update_from_output request_ops out ro s = (s', res)"
    then have eq: "request_update_from_output out ro s = (s', res)" by (simp add: request_ops_def)
    note f = request_update_facts [OF inv eq]
    show ?thesis
      using f(1) f(3-5) f(2) f(6) by (auto simp: request_ops_def)
  qed
  show "is_finished stat \<Longrightarrow> op_finish_requests request_ops ids stat s = (s', fr) \<Longrightarrow>
      sched_inv s' \<and> fr = Inr ()
      \<and> finished_req_ids s' = finished_req_ids s \<union> {i \<in> set ids. is_live (op_get_request_state request_ops s) i}
      \<and> running s' = filter (\<lambda>i. i \<notin> set ids) (running s)
      \<and> waiting s' = filter (\<lambda>i. i \<notin> set ids) (waiting s)
      \<and> dom (op_get_request_state request_ops s') = dom (op_get_request_state request_ops s)
      \<and> (\<forall>i. i \<notin> set ids \<or> \<not> is_live (op_get_request_state request_ops s) i \<longrightarrow>
            op_get_request_state request_ops s' i = op_get_request_state request_ops s i)
      \<and> (\<forall>i. i \<in> set ids \<and> is_live (op_get_request_state request_ops s) i \<longrightarrow>
            map_option status (op_get_request_state request_ops s' i) = Some stat)" for stat ids s' fr
    using finish_facts(1-4) [OF inv, of stat ids s' fr] finish_contract [OF inv, of stat ids s' fr]
    by (simp add: request_ops_def)
  show "op_preempt_request request_ops i s = (s', moved) \<Longrightarrow>
      sched_inv s' \<and> (\<forall>j. \<not> is_live (op_get_request_state request_ops s) j \<longrightarrow>
            op_get_request_state request_ops s' j = op_get_request_state request_ops s j)" for i s' moved
    using preempt_request_inv [OF inv, of i] preempt_dead [OF inv, of i s' moved]
    by (simp add: request_ops_def)
  show "\<not> is_live (op_get_request_state request_ops s) i \<Longrightarrow>
      op_pop_request_state request_ops i s = (s', st) \<Longrightarrow>
      sched_inv s' \<and> st = op_get_request_state request_ops s i
      \<and> op_get_request_state request_ops s' = (op_get_request_state request_ops s)(i := None)
      \<and> running s' = running s \<and> waiting s' = waiting s \<and> finished_req_ids s' = finished_req_ids s" for i s' st
    using pop_facts [of i s s' st] pop_request_state_inv [OF inv, of i] by (simp add: request_ops_def)
qed

section \<open>StepScheduler meets the contract\<close>

lemma yield_loop_states:
  "is_live (request_states (yield_loop p is s)) i = is_live (request_states s) i
   \<and> dom (request_states (yield_loop p is s)) = dom (request_states s)
   \<and> finished_req_ids (yield_loop p is s) = finished_req_ids s
   \<and> (\<not> is_live (request_states s) i \<longrightarrow>
        request_states (yield_loop p is s) i = request_states s i)"
proof (induction p "is" s rule: yield_loop.induct)
  case (1 p s)
  then show ?case by simp
next
  case (2 p j "is" s)
  show ?case
  proof (cases "\<exists>st. request_states s j = Some st \<and> \<not> is_finished (status st) \<and> j \<in> set (running s)
        \<and> (p \<or> should_yield_to_shorter_waiting_continuation s st)")
    case True
    then obtain st where st: "request_states s j = Some st" "\<not> is_finished (status st)"
      "j \<in> set (running s)" "p \<or> should_yield_to_shorter_waiting_continuation s st" by blast
    define s2 where "s2 = s\<lparr>running := remove1 j (running s),
       request_states := (request_states s)(j \<mapsto> st\<lparr>status := PREEMPTED\<rparr>),
       waiting := waiting s @ [j]\<rparr>"
    have eq: "yield_loop p (j # is) s = yield_loop p is s2"
      using st by (auto simp: s2_def)
    have "is_live (request_states s2) i = is_live (request_states s) i"
      "\<not> is_live (request_states s) i \<Longrightarrow> request_states s2 i = request_states s i"
      "dom (request_states s2) = dom (request_states s)" "finished_req_ids s2 = finished_req_ids s"
      using st(1,2) by (auto simp: s2_def is_live_def)
    moreover have "is_live (request_states (yield_loop p is s2)) i = is_live (request_states s2) i
       \<and> dom (request_states (yield_loop p is s2)) = dom (request_states s2)
       \<and> finished_req_ids (yield_loop p is s2) = finished_req_ids s2
       \<and> (\<not> is_live (request_states s2) i \<longrightarrow>
            request_states (yield_loop p is s2) i = request_states s2 i)"
      unfolding s2_def using "2.IH"(5) [OF st(1,2)] st(3,4) by blast
    ultimately show ?thesis unfolding eq by simp
  next
    case False
    then have "yield_loop p (j # is) s = yield_loop p is s"
      by (auto split: option.split)
    moreover have "is_live (request_states (yield_loop p is s)) i = is_live (request_states s) i
       \<and> dom (request_states (yield_loop p is s)) = dom (request_states s)
       \<and> finished_req_ids (yield_loop p is s) = finished_req_ids s
       \<and> (\<not> is_live (request_states s) i \<longrightarrow>
            request_states (yield_loop p is s) i = request_states s i)"
      using "2.IH"(1-4) False by (cases "request_states s j") blast+
    ultimately show ?thesis by simp
  qed
qed

lemma step_result_dead: "\<not> is_live (request_states s) i \<Longrightarrow> step_result_of s ro i = Skip"
  by (auto simp: step_result_of_def is_live_def split: option.splits if_splits)

lemma step_update_loop_dead:
  "step_update_loop ro is s d yielded = (s1, d1, y1) \<Longrightarrow>
     dom (request_states s1) = dom (request_states s)
     \<and> (\<not> is_live (request_states s) i \<longrightarrow> request_states s1 i = request_states s i)"
proof (induction ro "is" s d yielded rule: step_update_loop.induct)
  case (1 ro s d yielded)
  then show ?case by simp
next
  case (2 ro j "is" s d yielded)
  have st: "\<not> is_live (request_states s) i \<longrightarrow> step_result_of s ro j = Skip
     \<or> request_states (set_step j n c s) i = request_states s i" for n c
    using step_result_dead [of s i ro] by (cases "i = j") (auto simp: set_step_def)
  from 2 st show ?case
    by (cases "step_result_of s ro j") (auto split: bool.splits)
qed

lemma step_update_facts:
  assumes inv: "step_inv s" and eq: "step_update_from_output out ro s = (s', res)"
  shows "step_inv s'"
    and "is_live (request_states s') i \<longleftrightarrow> is_live (request_states s) i
      \<and> (i \<in> set (scheduled_req_ids out) \<longrightarrow> step_outcome s ro i = None)"
    and "res = Inr ({i \<in> set (scheduled_req_ids out). i \<in> finished_req_ids s}
        \<union> {i \<in> set (scheduled_req_ids out). step_outcome s ro i \<noteq> None \<and> is_live (request_states s) i})"
    and "finished_req_ids s' = finished_req_ids s
        \<union> {i \<in> set (scheduled_req_ids out). step_outcome s ro i \<noteq> None \<and> is_live (request_states s) i}"
    and "dom (request_states s') = dom (request_states s)"
    and "\<not> is_live (request_states s) i \<Longrightarrow> request_states s' i = request_states s i"
proof -
  show "step_inv s'" using step_update_inv [OF inv, of out ro] eq by simp
  define f where "f = (\<lambda>i. if i \<in> set (scheduled_req_ids out) then step_outcome s ro i else None)"
  have f: "\<forall>i oc. f i = Some oc \<longrightarrow> is_finished (fst oc)"
    unfolding f_def by (auto dest: step_outcome_finished)
  let ?fin = "{i \<in> set (scheduled_req_ids out). step_outcome s ro i \<noteq> None \<and> is_live (request_states s) i}"
  have all: "(is_live (request_states s') i \<longleftrightarrow> is_live (request_states s) i \<and> f i = None)
    \<and> res = Inr ({i \<in> set (scheduled_req_ids out). i \<in> finished_req_ids s} \<union> ?fin)
    \<and> finished_req_ids s' = finished_req_ids s \<union> ?fin
    \<and> dom (request_states s') = dom (request_states s)
    \<and> (\<not> is_live (request_states s) i \<longrightarrow> request_states s' i = request_states s i)"
  proof (cases "scheduled_req_ids out = []")
    case True
    then show ?thesis using eq by (simp add: step_update_from_output_def f_def)
  next
    case False
    obtain s1 d yielded where loop: "step_update_loop ro (scheduled_req_ids out) s [] [] = (s1, d, yielded)"
      by (rule prod_cases3)
    define s2 where "s2 = s1\<lparr>running := filter (\<lambda>i. i \<notin> ?fin) (running s),
           waiting := filter (\<lambda>i. i \<notin> ?fin) (waiting s),
           request_states := apply_outcomes f (request_states s1),
           finished_req_ids := finished_req_ids s \<union> ?fin\<rparr>"
    have e: "step_update_from_output out ro s =
        (yield_intermediate_results yielded s2,
         Inr ({i \<in> set (scheduled_req_ids out). i \<in> finished_req_ids s} \<union> ?fin))"
      unfolding s2_def f_def by (rule step_update_eq(1) [OF False loop])
    have s': "s' = yield_loop (has_preferred_waiting_request step_hooks s2) yielded s2"
      and res: "res = Inr ({i \<in> set (scheduled_req_ids out). i \<in> finished_req_ids s} \<union> ?fin)"
      using eq unfolding e yield_intermediate_results_def by simp_all
    note yl = yield_loop_states [of "has_preferred_waiting_request step_hooks s2" yielded s2 i, folded s']
    have live: "is_live (request_states s1) = is_live (request_states s)"
      using step_update_loop_fields [OF loop] by blast
    note dead = step_update_loop_dead [OF loop, of i]
    have st2: "request_states s2 = apply_outcomes f (request_states s1)"
      and fin2: "finished_req_ids s2 = finished_req_ids s \<union> ?fin" unfolding s2_def by simp_all
    have "is_live (request_states s2) i \<longleftrightarrow> is_live (request_states s) i \<and> f i = None"
      unfolding st2 is_live_apply_outcomes [OF f] live ..
    moreover have "\<not> is_live (request_states s) i \<longrightarrow> request_states s2 i = request_states s i"
      using dead unfolding st2 by (simp add: apply_outcomes_dead live)
    moreover have "dom (request_states s2) = dom (request_states s)"
      using dead unfolding st2 by simp
    ultimately show ?thesis using yl res fin2 by simp
  qed
  then show "is_live (request_states s') i \<longleftrightarrow> is_live (request_states s) i
      \<and> (i \<in> set (scheduled_req_ids out) \<longrightarrow> step_outcome s ro i = None)"
    unfolding f_def by (simp split: if_splits)
  show "\<not> is_live (request_states s) i \<Longrightarrow> request_states s' i = request_states s i"
    using all by blast
  show "res = Inr ({i \<in> set (scheduled_req_ids out). i \<in> finished_req_ids s} \<union> ?fin)"
    "finished_req_ids s' = finished_req_ids s \<union> ?fin"
    "dom (request_states s') = dom (request_states s)" using all by blast+
qed

lemma step_pop_facts:
  assumes "step_pop_request_state i s = (s', st)"
  shows "st = request_states s i" and "request_states s' = (request_states s)(i := None)"
    and "running s' = running s" and "waiting s' = waiting s"
    and "finished_req_ids s' = finished_req_ids s"
  using pop_facts [OF assms [unfolded step_pop_request_state_def]] by simp_all

interpretation step_sched: scheduler step_ops step_inv running waiting finished_req_ids
proof
  fix s :: step_sched
  assume inv: "step_inv s"
  then have sinv: "sched_inv s" by (simp add: step_inv_def)
  then show "distinct (running s @ waiting s)" by (simp add: sched_inv_defs)
  show "is_live (op_get_request_state step_ops s) i \<longleftrightarrow> i \<in> set (running s) \<union> set (waiting s)" for i
    using live_iff_queued [OF sinv] by (simp add: step_ops_def)
  show "op_has_requests step_ops s \<longleftrightarrow> running s \<noteq> [] \<or> waiting s \<noteq> []"
    by (auto simp: step_ops_def has_requests_def)
  show "op_get_sched_req_id step_ops s rid = Some i \<Longrightarrow>
      \<exists>st. op_get_request_state step_ops s i = Some st \<and> rid \<in> set (request_ids (req st))" for rid i
    using sinv by (auto simp: step_ops_def get_sched_req_id_def sched_inv_defs)
  show "op_add_request step_ops rnd rq s = Some (s', Inr i) \<Longrightarrow>
      step_inv s' \<and> op_get_request_state step_ops s i = None \<and> waiting s' = waiting s @ [i]
      \<and> running s' = running s \<and> finished_req_ids s' = finished_req_ids s
      \<and> (\<exists>st. op_get_request_state step_ops s' = (op_get_request_state step_ops s)(i \<mapsto> st)
              \<and> status st = WAITING \<and> request_ids (req st) = request_ids rq)" for rnd rq s' i
    using step_add_request_ok [OF inv, of rnd rq s' i]
    by (simp add: step_ops_def) (rule exI [of _ "\<lparr>sched_req_id = i,
       req = with_step_index (initial_step rq) rq, status = WAITING, error = None\<rparr>"],
       simp add: with_step_index_def)
  show "op_schedule step_ops s = (s', out) \<Longrightarrow>
      step_inv s' \<and> finished_req_ids s' = {} \<and> out_finished_req_ids out = finished_req_ids s
      \<and> mset (scheduled_req_ids out) = mset (running s')
      \<and> set (running s') \<union> set (waiting s') = set (running s) \<union> set (waiting s)
      \<and> (running s \<noteq> [] \<or> waiting s \<noteq> [] \<longrightarrow> \<not> is_empty out)
      \<and> dom (op_get_request_state step_ops s') = dom (op_get_request_state step_ops s)
      \<and> (\<forall>i. \<not> is_live (op_get_request_state step_ops s) i \<longrightarrow>
            op_get_request_state step_ops s' i = op_get_request_state step_ops s i)" for s' out
    using schedule_facts [OF sinv, of step_hooks s' out] step_schedule_inv [OF inv]
    by (simp add: step_ops_def step_schedule_def)
  show "op_update_from_output step_ops out ro s = (s', res) \<Longrightarrow>
      step_inv s'
      \<and> res = Inr ({i \<in> set (scheduled_req_ids out). i \<in> finished_req_ids s}
                 \<union> {i \<in> set (scheduled_req_ids out). is_live (op_get_request_state step_ops s) i
                       \<and> \<not> is_live (op_get_request_state step_ops s') i})
      \<and> (\<forall>i. is_live (op_get_request_state step_ops s') i \<longrightarrow> is_live (op_get_request_state step_ops s) i)
      \<and> finished_req_ids s' = finished_req_ids s \<union> {i. is_live (op_get_request_state step_ops s) i
                                 \<and> \<not> is_live (op_get_request_state step_ops s') i}
      \<and> (\<forall>i. is_live (op_get_request_state step_ops s) i
             \<and> \<not> is_live (op_get_request_state step_ops s') i \<longrightarrow> i \<in> set (scheduled_req_ids out))
      \<and> dom (op_get_request_state step_ops s') = dom (op_get_request_state step_ops s)
      \<and> (\<forall>i. \<not> is_live (op_get_request_state step_ops s) i \<longrightarrow>
            op_get_request_state step_ops s' i = op_get_request_state step_ops s i)" for out ro s' res
  proof -
    assume "op_update_from_output step_ops out ro s = (s', res)"
    then have eq: "step_update_from_output out ro s = (s', res)" by (simp add: step_ops_def)
    note f = step_update_facts [OF inv eq]
    show ?thesis
      using f(1) f(3-5) f(2) f(6) by (auto simp: step_ops_def)
  qed
  show "is_finished stat \<Longrightarrow> op_finish_requests step_ops ids stat s = (s', fr) \<Longrightarrow>
      step_inv s' \<and> fr = Inr ()
      \<and> finished_req_ids s' = finished_req_ids s \<union> {i \<in> set ids. is_live (op_get_request_state step_ops s) i}
      \<and> running s' = filter (\<lambda>i. i \<notin> set ids) (running s)
      \<and> waiting s' = filter (\<lambda>i. i \<notin> set ids) (waiting s)
      \<and> dom (op_get_request_state step_ops s') = dom (op_get_request_state step_ops s)
      \<and> (\<forall>i. i \<notin> set ids \<or> \<not> is_live (op_get_request_state step_ops s) i \<longrightarrow>
            op_get_request_state step_ops s' i = op_get_request_state step_ops s i)
      \<and> (\<forall>i. i \<in> set ids \<and> is_live (op_get_request_state step_ops s) i \<longrightarrow>
            map_option status (op_get_request_state step_ops s' i) = Some stat)" for stat ids s' fr
    using finish_facts(1-4) [OF sinv, of stat ids s' fr] finish_contract [OF sinv, of stat ids s' fr]
      step_finish_requests_inv [OF inv, of ids stat]
    by (simp add: step_ops_def)
  show "op_preempt_request step_ops i s = (s', moved) \<Longrightarrow>
      step_inv s' \<and> (\<forall>j. \<not> is_live (op_get_request_state step_ops s) j \<longrightarrow>
            op_get_request_state step_ops s' j = op_get_request_state step_ops s j)" for i s' moved
    using step_preempt_request_inv [OF inv, of i] preempt_dead [OF sinv, of i s' moved]
    by (simp add: step_ops_def)
  show "\<not> is_live (op_get_request_state step_ops s) i \<Longrightarrow>
      op_pop_request_state step_ops i s = (s', st) \<Longrightarrow>
      step_inv s' \<and> st = op_get_request_state step_ops s i
      \<and> op_get_request_state step_ops s' = (op_get_request_state step_ops s)(i := None)
      \<and> running s' = running s \<and> waiting s' = waiting s \<and> finished_req_ids s' = finished_req_ids s" for i s' st
    using step_pop_facts [of i s s' st] step_pop_request_state_inv [OF inv, of i] by (simp add: step_ops_def)
qed

end
