(* ===== verification/Sched_Batching.thy ===== *)
theory Sched_Batching
  imports Sched_Interface
begin

text \<open>
  What a scheduling cycle guarantees about the batch it forms: which requests the loops take,
  that a duration-bucketed batch is homogeneous, that requests which never ran go first, and
  which states the operations of a scheduler can reach.
\<close>

section \<open>The selection loops\<close>

lemma schedule_state:
  assumes "queues_ok s" and "schedule h s = (s', out)"
  shows "s' = after_selection (select_waiting h s) s"
proof -
  have "s' = fst (schedule h s)" using assms(2) by simp
  then show ?thesis unfolding schedule_def selector.schedule_eq [OF assms(1), of h] by simp
qed

lemma schedule_running:
  assumes "queues_ok s" and "schedule h s = (s', out)"
  shows "running s' = running s @ fst (select_waiting h s)" "waiting s' = snd (select_waiting h s)"
  using schedule_state [OF assms] by (simp_all add: after_selection_def)

text \<open>\<open>fits s a st\<close>: the request's length lies within the anchor; \<open>sound s a\<close>: the anchor itself
  is a legal batch.\<close>

fun fits :: "'a sched_scheme \<Rightarrow> anchor \<Rightarrow> req_state \<Rightarrow> bool" where
  "fits s (Tolerance mx mn) st \<longleftrightarrow> mn \<le> clamped_tokens s st \<and> clamped_tokens s st \<le> mx"
| "fits s (Bucket b) st \<longleftrightarrow> duration_bucket s st = b"

fun sound :: "'a sched_scheme \<Rightarrow> anchor \<Rightarrow> bool" where
  "sound s (Tolerance mx mn) \<longleftrightarrow>
     pad_tolerance s > 1 \<and> 1 \<le> mn \<and> within_tolerance (pad_tolerance s) mx mn"
| "sound s (Bucket b) \<longleftrightarrow> \<not> pad_tolerance s > 1"

lemma accepts_sound:
  "accepts s a st = Some a' \<Longrightarrow> sound s a \<Longrightarrow>
     sound s a' \<and> fits s a' st \<and> (\<forall>st'. fits s a st' \<longrightarrow> fits s a' st')"
  using clamped_tokens_pos [of s st]
  by (cases a) (auto simp: Let_def split: if_splits)

lemma bucket_loop_fits:
  assumes "bucket_loop s pref cap a w sel dfr = (sel', dfr', rest)" and "sound s a"
    and "\<forall>i \<in> set sel. \<forall>st. request_states s i = Some st \<longrightarrow> fits s a st"
  shows "\<exists>a'. sound s a' \<and> (\<forall>st. fits s a st \<longrightarrow> fits s a' st)
     \<and> (\<forall>i \<in> set sel'. \<forall>st. request_states s i = Some st \<longrightarrow> fits s a' st)"
  using assms
proof (induction w arbitrary: a sel dfr)
  case Nil
  then show ?case by auto
next
  case (Cons i w)
  consider (full) "\<not> int (length sel) < cap"
    | (drop) dfr' where "bucket_loop s pref cap a (i # w) sel dfr = bucket_loop s pref cap a w sel dfr'"
    | (take) st a' where "request_states s i = Some st" "accepts s a st = Some a'"
        "bucket_loop s pref cap a (i # w) sel dfr = bucket_loop s pref cap a' w (sel @ [i]) dfr"
    by (cases "request_states s i"; cases "int (length sel) < cap")
      (force split: option.splits if_splits)+
  then show ?case
  proof cases
    case full
    with Cons.prems show ?thesis by auto
  next
    case drop
    with Cons show ?thesis by metis
  next
    case (take st a')
    note acc = accepts_sound [OF take(2) Cons.prems(2)]
    have "\<forall>j \<in> set (sel @ [i]). \<forall>st. request_states s j = Some st \<longrightarrow> fits s a' st"
      using acc take(1) Cons.prems(3) by auto
    from Cons.IH [OF _ _ this] take(3) Cons.prems(1) acc
    obtain a'' where "sound s a''" "\<forall>st. fits s a' st \<longrightarrow> fits s a'' st"
      "\<forall>i \<in> set sel'. \<forall>st. request_states s i = Some st \<longrightarrow> fits s a'' st" by metis
    with acc show ?thesis by blast
  qed
qed

text \<open>Two lengths that can share a batch.\<close>

definition compatible :: "'a sched_scheme \<Rightarrow> req_state \<Rightarrow> req_state \<Rightarrow> bool" where
  "compatible s x y \<longleftrightarrow>
     (if pad_tolerance s > 1
      then of_int (clamped_tokens s x) \<le> pad_tolerance s * of_int (clamped_tokens s y)
      else duration_bucket s x = duration_bucket s y)"

lemma fits_compatible:
  assumes "sound s a" "fits s a x" "fits s a y"
  shows "compatible s x y"
proof (cases a)
  case (Tolerance mx mn)
  have "of_int (clamped_tokens s x) \<le> (of_int mx :: rat)" using assms Tolerance by simp
  also have "\<dots> \<le> pad_tolerance s * of_int mn"
    using assms(1) Tolerance by (simp add: within_tolerance_def divide_le_eq)
  also have "\<dots> \<le> pad_tolerance s * of_int (clamped_tokens s y)"
    using assms Tolerance by (intro mult_left_mono) auto
  finally show ?thesis using assms(1) Tolerance by (simp add: compatible_def)
qed (use assms in \<open>simp add: compatible_def\<close>)

lemma running_anchor_sound:
  assumes "running_anchor s anchors = Some a" and "anchors \<noteq> []"
  shows "sound s a \<and> (\<forall>st \<in> set anchors. fits s a st)"
proof (cases "pad_tolerance s > 1")
  case True
  let ?T = "set (map (clamped_tokens s) anchors)"
  have "?T \<noteq> {}" using assms(2) by simp
  then have "1 \<le> Min ?T" using clamped_tokens_pos [of s] by (subst Min_ge_iff) auto
  with True assms show ?thesis
    by (auto simp: running_anchor_def Let_def split: if_splits)
next
  case False
  have "length (remdups xs) = 1 \<Longrightarrow> x \<in> set xs \<Longrightarrow> x = hd (remdups xs)" for xs :: "int list" and x
    by (metis One_nat_def Suc_length_conv empty_iff length_0_conv list.sel(1) list.set(1) set_ConsD set_remdups)
  with False assms show ?thesis
    by (auto simp: running_anchor_def Let_def split: if_splits)
qed

lemma waiting_anchor_sound: "waiting_anchor h s w = Some a \<Longrightarrow> sound s a"
  by (auto simp: waiting_anchor_def Let_def clamped_tokens_pos within_tolerance_refl
      split: option.splits if_splits)

lemma bucket_select_fits:
  assumes "bucket_select s pref cap (Some a) w = (sel, rest)" and "sound s a"
  shows "\<exists>a'. sound s a' \<and> (\<forall>st. fits s a st \<longrightarrow> fits s a' st)
     \<and> (\<forall>i \<in> set sel. \<forall>st. request_states s i = Some st \<longrightarrow> fits s a' st)"
proof -
  obtain dfr r where "bucket_loop s pref cap a w [] [] = (sel, dfr, r)"
    using assms(1) by (auto simp: bucket_select_def split: prod.splits)
  then show ?thesis using bucket_loop_fits [OF _ assms(2)] by fastforce
qed

text \<open>Whatever the running requests are, a non-empty selection extends them to one sound batch.\<close>

lemma select_bucket_fits:
  assumes q: "queues_ok s" and sel: "select_duration_bucket_waiting h s cap (running s) = (sel, rest)"
    and ne: "sel \<noteq> []"
  shows "\<exists>a. sound s a \<and> (\<forall>i \<in> set (running s @ sel). \<forall>st. request_states s i = Some st \<longrightarrow> fits s a st)"
proof -
  let ?an = "List.map_filter (request_states s) (running s)"
  let ?pref = "has_preferred_waiting_request h s"
  have mem: "st \<in> set ?an" if "i \<in> set (running s)" "request_states s i = Some st" for i st
    using that by (force simp: map_filter_def)
  have run0: "running s = []" if "?an = []"
  proof (rule ccontr)
    assume "running s \<noteq> []"
    then obtain i where i: "i \<in> set (running s)" by (cases "running s") auto
    then obtain st where "request_states s i = Some st" using running_has_state [OF q] by blast
    with i mem that show False by force
  qed
  show ?thesis
  proof (cases "?an = []")
    case True
    then obtain w a where "bucket_select s ?pref cap (Some a) w = (sel, rest)" "waiting_anchor h s w = Some a"
      using sel ne by (auto simp: select_duration_bucket_waiting_def Let_def bucket_select_def
          split: if_splits option.splits)
    with bucket_select_fits [OF _ waiting_anchor_sound] run0 [OF True] show ?thesis by fastforce
  next
    case False
    then obtain a where b: "bucket_select s ?pref cap (Some a) (waiting s) = (sel, rest)"
      and a: "running_anchor s ?an = Some a"
      using sel ne by (auto simp: select_duration_bucket_waiting_def Let_def bucket_select_def
          split: if_splits option.splits)
    note ras = running_anchor_sound [OF a False]
    from bucket_select_fits [OF b] ras obtain a' where "sound s a'" "\<forall>st. fits s a st \<longrightarrow> fits s a' st"
      "\<forall>i \<in> set sel. \<forall>st. request_states s i = Some st \<longrightarrow> fits s a' st" by blast
    with ras mem show ?thesis by (metis Un_iff set_append)
  qed
qed

section \<open>Requests that never ran go first\<close>

lemma fifo_loop_pref:
  assumes "fifo_loop h sts True cap w sel dfr = (sel', dfr', rest)" and "\<forall>i \<in> set sel. is_waiting_id sts i"
  shows "\<forall>i \<in> set sel'. is_waiting_id sts i"
  using assms
proof (induction w arbitrary: sel dfr)
  case Nil
  then show ?case by simp
next
  case (Cons i w)
  show ?case
  proof (cases "fifo_loop h sts True cap (i # w) sel dfr = (sel, dfr, i # w)")
    case True
    with Cons.prems show ?thesis by simp
  next
    case False
    then consider (drop) dfr' where "fifo_loop h sts True cap (i # w) sel dfr = fifo_loop h sts True cap w sel dfr'"
      | (take) "fifo_loop h sts True cap (i # w) sel dfr = fifo_loop h sts True cap w (sel @ [i]) dfr"
          "is_waiting_id sts i"
      by (cases "sts i") (auto simp: is_waiting_id_def split: if_splits)
    then show ?thesis
    proof cases
      case drop
      with Cons show ?thesis by metis
    next
      case take
      then have "\<forall>j \<in> set (sel @ [i]). is_waiting_id sts j" using Cons.prems(2) by auto
      from Cons.IH [OF _ this] take(1) Cons.prems(1) show ?thesis by metis
    qed
  qed
qed

lemma bucket_loop_pref:
  assumes "bucket_loop s True cap a w sel dfr = (sel', dfr', rest)"
    and "\<forall>i \<in> set sel. is_waiting_id (request_states s) i"
  shows "\<forall>i \<in> set sel'. is_waiting_id (request_states s) i"
  using assms
proof (induction w arbitrary: a sel dfr)
  case Nil
  then show ?case by simp
next
  case (Cons i w)
  show ?case
  proof (cases "bucket_loop s True cap a (i # w) sel dfr = (sel, dfr, i # w)")
    case True
    with Cons.prems show ?thesis by simp
  next
    case False
    then consider (drop) dfr' where
        "bucket_loop s True cap a (i # w) sel dfr = bucket_loop s True cap a w sel dfr'"
      | (take) a' where
          "bucket_loop s True cap a (i # w) sel dfr = bucket_loop s True cap a' w (sel @ [i]) dfr"
          "is_waiting_id (request_states s) i"
      by (cases "request_states s i") (auto simp: is_waiting_id_def split: if_splits option.splits)
    then show ?thesis
    proof cases
      case drop
      with Cons show ?thesis by metis
    next
      case take
      then have "\<forall>j \<in> set (sel @ [i]). is_waiting_id (request_states s) j" using Cons.prems(2) by auto
      from Cons.IH [OF _ this] take(1) Cons.prems(1) show ?thesis by metis
    qed
  qed
qed

lemma select_waiting_pref:
  assumes "has_preferred_waiting_request h s"
  shows "\<forall>i \<in> set (fst (select_waiting h s)). is_waiting_id (request_states s) i"
proof -
  have b: "\<forall>i \<in> set (fst (bucket_select s True cap ao w)). is_waiting_id (request_states s) i" for cap ao w
  proof (cases ao)
    case None
    then show ?thesis by (simp add: bucket_select_def)
  next
    case (Some a)
    obtain sel dfr r where loop: "bucket_loop s True cap a w [] [] = (sel, dfr, r)" by (rule prod_cases3)
    then show ?thesis using bucket_loop_pref [OF loop] Some by (simp add: bucket_select_def)
  qed
  have f: "\<forall>i \<in> set (fst (select_fifo_waiting h s cap)). is_waiting_id (request_states s) i" for cap
  proof -
    obtain sel dfr r where loop: "fifo_loop h (request_states s) True cap (waiting s) [] [] = (sel, dfr, r)"
      by (rule prod_cases3)
    then show ?thesis using fifo_loop_pref [OF loop] assms by (simp add: select_fifo_waiting_def)
  qed
  show ?thesis
    using assms b f by (simp add: select_waiting_cases select_duration_bucket_waiting_def Let_def)
qed

section \<open>First in, first out\<close>

lemma fifo_loop_take:
  assumes "\<forall>i \<in> set w. sts i \<noteq> None" and "\<forall>st. can_schedule_waiting h st"
  shows "fifo_loop h sts False cap w sel dfr =
    (sel @ take (nat (cap - int (length sel))) w, dfr, drop (nat (cap - int (length sel))) w)"
  using assms
proof (induction w arbitrary: sel)
  case Nil
  then show ?case by simp
next
  case (Cons i w)
  then obtain st where st: "sts i = Some st" by auto
  show ?case
  proof (cases "int (length sel) < cap")
    case True
    then have "nat (cap - int (length sel)) = Suc (nat (cap - int (length (sel @ [i]))))" by simp
    with True Cons st show ?thesis by simp
  qed simp
qed

end
