(* ===== verification/Sched_Properties.thy ===== *)
theory Sched_Properties
  imports Sched_Batching
begin

text \<open>
  The properties of the diffusion schedulers, with a concrete scheduler (two requests, one
  place) on which each is instantiated.
\<close>

section \<open>A concrete scheduler\<close>

definition ex_request :: "string \<Rightarrow> request" where
  "ex_request rid = \<lparr>prompts = [PStr [104, 105]],
     sampling_params = \<lparr>timesteps = None, sigmas = None, num_inference_steps = Some 4, step_index = None\<rparr>,
     request_ids = [rid]\<rparr>"

definition ex_blank :: step_sched where
  "ex_blank = \<lparr>request_states = Map.empty, request_id_to_sched_req_id = Map.empty, step_id = 0,
     waiting = [], running = [], finished_req_ids = {}, max_num_running_reqs = 1,
     batch_strategy = Fifo, duration_bucket_tokens = 128, duration_estimator = None,
     pad_tolerance = 1, request_progress = Map.empty\<rparr>"

definition ex_env :: "strategy \<Rightarrow> string \<rightharpoonup> string" where
  "ex_env strat = (\<lambda>k. if k = ''VLLM_OMNI_DIFFUSION_BATCH_STRATEGY'' \<and> strat = Duration_Bucket
     then Some ''duration_bucket''
     else if k = ''VLLM_OMNI_DIFFUSION_BATCH_SIZE'' then Some ''2'' else None)"

definition ex_init :: "strategy \<Rightarrow> step_sched" where
  "ex_init strat = step_initialize (ex_env strat) (\<lambda>v. if v = ''2'' then Some 2 else None) (\<lambda>_. None)
     None ex_blank"

definition ex_two :: "strategy \<Rightarrow> step_sched" where
  "ex_two strat = fst (the (step_add_request ''r'' (ex_request ''b'')
     (fst (the (step_add_request ''r'' (ex_request ''a'') (ex_init strat))))))"

lemmas ex_defs = ex_two_def ex_init_def ex_env_def ex_blank_def ex_request_def

lemma ex_init_eval:
  "ex_init strat = ex_blank\<lparr>max_num_running_reqs := 2, batch_strategy := strat\<rparr>"
  by (cases strat) (simp_all add: ex_defs step_initialize_def reset_scheduler_state_def initialize_def
      env_int_def env_tolerance_def env_strategy_def Let_def py_strip_def strip_def py_lower_def
      is_space_code_def)

definition ex_state :: "string \<Rightarrow> req_status \<Rightarrow> req_state" where
  "ex_state i stat = \<lparr>sched_req_id = i, req = with_step_index 0 (ex_request i), status = stat, error = None\<rparr>"

lemma ex_add_eval:
  assumes "request_states s i = None" "request_id_to_sched_req_id s i = None"
  shows "step_add_request rnd (ex_request i) s = Some
    (s\<lparr>request_states := (request_states s)(i \<mapsto> ex_state i WAITING),
       request_id_to_sched_req_id := (request_id_to_sched_req_id s)(i \<mapsto> i),
       waiting := waiting s @ [i],
       request_progress := (request_progress s)(i \<mapsto> \<lparr>current_step = 0, total_steps = 4\<rparr>)\<rparr>, Inr i)"
proof -
  have "fresh_suffix (request_states s) i i 1 = Some i"
    using assms by (subst fresh_suffix.simps) simp
  then have "make_sched_req_id rnd (ex_request i) s = Some i"
    by (simp add: make_sched_req_id_def ex_request_def)
  then show ?thesis
    using assms by (simp add: step_add_request_def ex_state_def ex_request_def get_total_steps_def
      initial_step_def with_step_index_def add_request_with_sched_req_id_def)
qed

lemma ex_two_eval:
  "ex_two strat = (ex_init strat)
     \<lparr>request_states := [''a'' \<mapsto> ex_state ''a'' WAITING, ''b'' \<mapsto> ex_state ''b'' WAITING],
      request_id_to_sched_req_id := [''a'' \<mapsto> ''a'', ''b'' \<mapsto> ''b''],
      waiting := [''a'', ''b''],
      request_progress := [''a'' \<mapsto> \<lparr>current_step = 0, total_steps = 4\<rparr>,
                           ''b'' \<mapsto> \<lparr>current_step = 0, total_steps = 4\<rparr>]\<rparr>"
  by (simp add: ex_two_def ex_add_eval ex_init_eval ex_blank_def)

lemma ex_two_reachable: "sched_reachable step_ops (ex_init strat) (ex_two strat)"
proof -
  have 1: "sched_step step_ops s (fst (the (step_add_request ''r'' (ex_request i) s)))"
    if "request_states s i = None" "request_id_to_sched_req_id s i = None" for s i
    using ex_add_eval [OF that] by (intro sched_step.add) (simp add: step_ops_def)
  define s1 where "s1 = fst (the (step_add_request ''r'' (ex_request ''a'') (ex_init strat)))"
  have "sched_reachable step_ops (ex_init strat) s1"
    unfolding s1_def by (rule sched_reachable.step [OF sched_reachable.init 1])
      (simp_all add: ex_init_eval ex_blank_def)
  moreover have "request_states s1 ''b'' = None" "request_id_to_sched_req_id s1 ''b'' = None"
    by (simp_all add: s1_def ex_add_eval ex_init_eval ex_blank_def)
  ultimately show ?thesis
    unfolding ex_two_def s1_def [symmetric] by (blast intro: sched_reachable.step 1)
qed

lemma ex_two_inv: "step_inv (ex_two strat)"
  using step_sched.reachable_inv [OF ex_two_reachable] step_initialize_inv by (simp add: ex_init_def)

lemma ex_two_schedule_fifo:
  "step_schedule (ex_two Fifo) =
    ((ex_two Fifo)\<lparr>request_states := [''a'' \<mapsto> ex_state ''a'' RUNNING, ''b'' \<mapsto> ex_state ''b'' RUNNING],
        waiting := [], running := [''a'', ''b''], step_id := 1\<rparr>,
     \<lparr>out_step_id = 0, scheduled_new_reqs = [from_state (ex_state ''a'' RUNNING), from_state (ex_state ''b'' RUNNING)],
      scheduled_cached_reqs = [], out_finished_req_ids = {}, num_running_reqs = 2, num_waiting_reqs = 0\<rparr>)"
  by (simp add: step_schedule_def schedule_def select_waiting_def select_fifo_waiting_def
      has_preferred_waiting_request_def ex_two_eval ex_init_eval ex_blank_def is_waiting_id_def
      schedule_selected_def ex_state_def from_state_def)

section \<open>Reachable states\<close>

text \<open>
  A run of a StepScheduler: any calls in any order, an \<open>add_request\<close> that raises among them. \<open>L\<close> has the
  ids under which such a call left a state behind.
\<close>

inductive step_run :: "step_sched \<Rightarrow> step_sched \<Rightarrow> string set \<Rightarrow> bool" for s0 where
  run_start: "step_run s0 s0 {}"
| run_call: "step_run s0 s L \<Longrightarrow> sched_step step_ops s s' \<Longrightarrow> step_run s0 s' L"
| run_failed_add: "step_run s0 s L \<Longrightarrow> step_add_request rnd r s = Some (s', Inl e)
    \<Longrightarrow> step_run s0 s' (L \<union> (dom (request_states s') - dom (request_states s)))"

lemma failed_add_but:
  assumes "step_inv_but L s" and "step_add_request rnd r s = Some (s', Inl e)"
  shows "step_inv_but (L \<union> (dom (request_states s') - dom (request_states s))) s'"
proof (cases "s' = s")
  case True
  with assms(1) show ?thesis by simp
next
  case False
  with assms(2) obtain i where id: "make_sched_req_id rnd r s = Some i"
    and a: "add_request_with_sched_req_id i (with_step_index (initial_step r) r) s = (s', Inl e)"
    by (auto simp: step_add_request_def Let_def split: option.splits sum.splits if_splits prod.splits)
  have fresh: "request_states s i = None" by (rule make_sched_req_id_fresh [OF id])
  have wf: "sched_wf s" and nl: "no_lost_but L s" and pr: "progress_but L s"
    using assms(1) by (simp_all add: step_inv_but_def sched_inv_but_def)
  have s': "running s' = running s" "waiting s' = waiting s" "request_progress s' = request_progress s"
    "request_states s' = (request_states s)(i \<mapsto> \<lparr>sched_req_id = i, req = with_step_index (initial_step r) r, status = WAITING, error = None\<rparr>)"
    using a by (auto simp: add_request_with_sched_req_id_def Let_def split: prod.splits sum.splits)
  have d: "dom (request_states s') - dom (request_states s) = {i}" using fresh by (auto simp: s')
  have "sched_wf s'" using add_request_wf [OF wf fresh] a by (metis fst_conv)
  moreover have "no_lost_but (L \<union> {i}) s'" using nl by (auto simp: no_lost_but_def s' is_live_def)
  moreover have "progress_but (L \<union> {i}) s'" using pr by (auto simp: progress_but_def s')
  ultimately show ?thesis unfolding d by (simp add: step_inv_but_def sched_inv_but_def)
qed

lemma step_run_but: "step_run s0 s L \<Longrightarrow> step_inv s0 \<Longrightarrow> step_inv_but L s"
proof (induction rule: step_run.induct)
  case run_start
  then show ?case by (simp add: step_inv_but_empty)
next
  case (run_call s L s')
  then have inv: "step_inv_but L s" by blast
  from run_call.hyps(2) show ?case
  proof cases
    case (add rnd r i)
    then show ?thesis using step_add_request_but(1) [OF inv] by (simp add: step_ops_def)
  next
    case schedule
    then show ?thesis using step_schedule_but [OF inv] by (simp add: step_ops_def)
  next
    case (update out ro)
    then show ?thesis using step_update_but [OF inv] by (simp add: step_ops_def)
  next
    case (preempt i)
    then show ?thesis using step_preempt_request_but [OF inv] by (simp add: step_ops_def)
  next
    case (finish stat ids)
    then show ?thesis using step_finish_requests_but [OF inv] by (simp add: step_ops_def)
  next
    case (pop i)
    then show ?thesis using step_pop_request_state_but [OF inv] by (simp add: step_ops_def)
  qed
next
  case (run_failed_add s L rnd r s' e)
  then show ?case using failed_add_but by blast
qed

text \<open>C8: In every state a StepScheduler can reach, whatever the runner outputs and the order of the calls,
  with additions that raise among them (the engine pops a state only when the request is finished): no request
  is queued twice, the running ones are exactly those with status RUNNING and waiting ones are WAITING or
  PREEMPTED, the batch size is respected, and every registered client id leads to a request that carries it.
  The queued requests are the unfinished ones, and every request has its progress record, but for those whose
  addition raised after their state was inserted: only these may be unfinished and in no queue.\<close>

theorem step_scheduler_reachable:
  assumes "step_run (step_initialize env int_of float_of load s0) s L"
  shows "distinct (running s @ waiting s)
    \<and> (\<forall>i. i \<notin> L \<longrightarrow> (i \<in> set (running s) \<longleftrightarrow> (\<exists>st. request_states s i = Some st \<and> status st = RUNNING)))
    \<and> (\<forall>i \<in> set (running s). \<exists>st. request_states s i = Some st \<and> status st = RUNNING)
    \<and> (\<forall>i \<in> set (waiting s). \<exists>st. request_states s i = Some st \<and> (status st = WAITING \<or> status st = PREEMPTED))
    \<and> (\<forall>i st. request_states s i = Some st \<and> \<not> is_finished (status st) \<longrightarrow> i \<in> set (running s) \<union> set (waiting s) \<union> L)
    \<and> int (length (running s)) \<le> max_num_running_reqs s
    \<and> (\<forall>r i. get_sched_req_id s r = Some i
          \<longrightarrow> (\<exists>st. request_states s i = Some st \<and> sched_req_id st = i \<and> r \<in> set (request_ids (req st))))
    \<and> dom (request_progress s) \<subseteq> dom (request_states s) \<and> dom (request_states s) \<subseteq> dom (request_progress s) \<union> L"
proof -
  have inv: "step_inv_but L s" by (rule step_run_but [OF assms step_initialize_inv])
  then have wf: "sched_wf s" and nl: "no_lost_but L s" and pr: "progress_but L s"
    by (simp_all add: step_inv_but_def sched_inv_but_def)
  have q: "queues_ok s" using wf by (simp add: sched_wf_def)
  have lost: "i \<in> set (running s) \<union> set (waiting s) \<union> L" if "request_states s i = Some st" "\<not> is_finished (status st)" for i st
    using nl that by (auto simp: no_lost_but_def is_live_iff)
  have run: "i \<in> set (running s)" if st: "request_states s i = Some st" "status st = RUNNING" and "i \<notin> L" for i st
  proof -
    have "i \<notin> set (waiting s)" using q st by (auto simp: queues_ok_def)
    with lost [OF st(1)] that(2,3) show ?thesis by simp
  qed
  have "\<exists>st. request_states s i = Some st \<and> sched_req_id st = i \<and> r \<in> set (request_ids (req st))"
    if "get_sched_req_id s r = Some i" for r i
    using wf that unfolding sched_wf_def states_ok_def rid_map_ok_def get_sched_req_id_def by blast
  moreover have "int (length (running s)) \<le> max_num_running_reqs s" using wf by (simp add: sched_wf_def capacity_ok_def)
  ultimately show ?thesis using q run lost pr unfolding queues_ok_def progress_but_def by blast
qed

lemma step_run_reachable: "sched_reachable step_ops s0 s \<Longrightarrow> step_run s0 s {}"
  by (induction rule: sched_reachable.induct) (auto intro: run_start run_call)

text \<open>A second request of a client whose first is still registered: its state is left behind.\<close>

definition ex_again :: step_sched where
  "ex_again = fst (the (step_add_request ''r'' (ex_request ''a'') (ex_two Fifo)))"

lemma ex_again_eval:
  "step_add_request ''r'' (ex_request ''a'') (ex_two Fifo) = Some (ex_again, Inl ValueError)"
  "dom (request_states ex_again) - dom (request_states (ex_two Fifo)) = {''a#1''}"
proof -
  let ?s = "ex_two Fifo"
  have one: "show_nat (Suc 0) = ''1''" by code_simp
  have "fresh_suffix (request_states ?s) ''a'' ''a'' 1 = Some ''a#1''"
    by (subst fresh_suffix.simps, subst fresh_suffix.simps) (simp add: ex_two_eval one)
  then have id: "make_sched_req_id ''r'' (ex_request ''a'') ?s = Some ''a#1''"
    by (simp add: make_sched_req_id_def ex_request_def)
  have add: "step_add_request ''r'' (ex_request ''a'') ?s = Some
      (?s\<lparr>request_states := (request_states ?s)(''a#1'' \<mapsto> \<lparr>sched_req_id = ''a#1'', req = with_step_index 0 (ex_request ''a''),
            status = WAITING, error = None\<rparr>)\<rparr>, Inl ValueError)"
    using id by (simp add: step_add_request_def ex_request_def get_total_steps_def initial_step_def with_step_index_def
        add_request_with_sched_req_id_def ex_two_eval)
  then show "step_add_request ''r'' (ex_request ''a'') ?s = Some (ex_again, Inl ValueError)"
    by (simp add: ex_again_def)
  show "dom (request_states ex_again) - dom (request_states ?s) = {''a#1''}"
    by (simp add: ex_again_def add) (simp add: ex_two_eval, auto)
qed

theorem step_scheduler_reachable_witness:
  "distinct (running ex_again @ waiting ex_again) \<and> int (length (running ex_again)) \<le> max_num_running_reqs ex_again"
proof -
  have "step_run (ex_init Fifo) ex_again {''a#1''}"
    using run_failed_add [OF step_run_reachable [OF ex_two_reachable] ex_again_eval(1)] by (simp add: ex_again_eval(2))
  from step_scheduler_reachable [OF this [unfolded ex_init_def]] show ?thesis by blast
qed

text \<open>Once a request has a terminal status, no call other than popping it changes its state:
  for both schedulers and from every reachable state, the state stays as it is or is removed.\<close>

theorem finished_is_final:
  assumes "sched_reachable step_ops (step_initialize env int_of float_of load s0) s"
    and "sched_step step_ops s s'"
    and "get_request_state s i = Some st" and "is_finished (status st)"
  shows "get_request_state s' i = Some st \<or> get_request_state s' i = None"
proof -
  have "step_inv s" using step_sched.reachable_inv [OF assms(1)] step_initialize_inv by blast
  from step_sched.step_finished [OF assms(2) this, of i st] assms(3,4)
  show ?thesis by (simp add: step_ops_def)
qed

definition ex_aborted :: step_sched where
  "ex_aborted = fst (finish_requests [''a''] FINISHED_ABORTED (ex_two Fifo))"

lemma ex_aborted_eval:
  "ex_aborted = (ex_two Fifo)
     \<lparr>request_states := [''a'' \<mapsto> ex_state ''a'' FINISHED_ABORTED, ''b'' \<mapsto> ex_state ''b'' WAITING],
      waiting := [''b''], finished_req_ids := {''a''}\<rparr>"
  by (simp add: ex_aborted_def finish_requests_def finish_requests_dict_def fromkeys_def ex_two_eval
      is_live_def ex_init_eval ex_blank_def ex_state_def finish_state_def Let_def fun_eq_iff)

lemma ex_aborted_reachable: "sched_reachable step_ops (ex_init Fifo) ex_aborted"
proof -
  have "sched_step step_ops (ex_two Fifo) (fst (op_finish_requests step_ops [''a''] FINISHED_ABORTED (ex_two Fifo)))"
    by (rule sched_step.finish) simp
  then show ?thesis
    using sched_reachable.step [OF ex_two_reachable, of Fifo] by (simp add: step_ops_def ex_aborted_def)
qed

theorem finished_is_final_witness:
  "get_request_state (fst (step_schedule ex_aborted)) ''a'' = Some (ex_state ''a'' FINISHED_ABORTED)
   \<or> get_request_state (fst (step_schedule ex_aborted)) ''a'' = None"
  using finished_is_final [OF ex_aborted_reachable [unfolded ex_init_def]
      sched_step.schedule [of step_ops ex_aborted], of "''a''" "ex_state ''a'' FINISHED_ABORTED"]
  by (simp add: step_ops_def ex_aborted_eval ex_state_def)

section \<open>Scheduling\<close>

text \<open>A scheduling cycle of a scheduler in a consistent state leaves a consistent state, never
  exceeds the batch size, schedules exactly the requests that now run, keeps everyone else in the
  queue in its old order (the old queue interleaves the selected and the remaining ids), and a
  request sent with its full data is one that was WAITING.\<close>

theorem schedule_batch:
  assumes "sched_inv s" and "schedule h s = (s', out)"
  shows "sched_inv s'
    \<and> int (length (running s')) \<le> max_num_running_reqs s
    \<and> mset (scheduled_req_ids out) = mset (running s')
    \<and> (\<exists>sel. running s' = running s @ sel \<and> waiting s \<in> shuffles sel (waiting s'))
    \<and> (\<forall>nr \<in> set (scheduled_new_reqs out). is_waiting_id (request_states s) (new_sched_req_id nr))"
proof -
  have wf: "sched_wf s" and q: "queues_ok s" using assms(1) by (simp_all add: sched_inv_def sched_wf_def)
  have s': "s' = after_selection (select_waiting h s) s"
    using schedule_state [OF q assms(2)] .
  have o: "out = snd (schedule_selected (select_waiting h s) s)"
    "s' = fst (schedule_selected (select_waiting h s) s)"
    using assms(2) by (simp_all add: schedule_def)
  have inv: "sched_inv s'" using sched_inv_schedule [OF assms(1), of h] assms(2) by simp
  moreover have "int (length (running s')) \<le> max_num_running_reqs s"
    using inv s' by (auto simp: sched_inv_defs after_selection_def)
  moreover have "mset (scheduled_req_ids out) = mset (running s')"
    using selector.schedule_output_running [OF wf, of h] o by simp
  moreover have "running s' = running s @ fst (select_waiting h s)"
    "waiting s \<in> shuffles (fst (select_waiting h s)) (waiting s')"
    using s' selector.sel_shuffle [OF q, of h] by (simp_all add: after_selection_def)
  moreover have "\<forall>nr \<in> set (scheduled_new_reqs out). is_waiting_id (request_states s) (new_sched_req_id nr)"
    using selector.schedule_new_were_waiting [OF wf, of _ h] o by (force simp: is_waiting_id_iff)
  ultimately show ?thesis by blast
qed

theorem schedule_batch_witness:
  "mset (scheduled_req_ids (snd (schedule step_hooks (ex_two Fifo)))) = {#''a'', ''b''#}"
proof -
  have "sched_inv (ex_two Fifo)" using ex_two_inv [of Fifo] by (simp add: step_inv_def)
  from schedule_batch [OF this prod.collapse [symmetric], of step_hooks]
  show ?thesis using ex_two_schedule_fifo by (simp add: step_schedule_def ex_two_eval)
qed

text \<open>A scheduler that has requests never returns an empty batch: with unfinished requests, a
  scheduling cycle of either scheduler schedules at least one of them (for both strategies and
  every tolerance).\<close>

theorem schedule_work_conserving:
  assumes "sched_inv s" and "has_requests s" and "h = base_hooks \<or> h = step_hooks"
  shows "\<not> is_empty (snd (schedule h s))"
proof -
  have "\<forall>st. can_schedule_waiting h st" using assms(3) by auto
  from schedule_facts(5) [OF assms(1) this prod.collapse [symmetric]] assms(2)
  show ?thesis by (auto simp: has_requests_def)
qed

theorem schedule_work_conserving_witness:
  "\<not> is_empty (snd (schedule step_hooks (ex_two Duration_Bucket)))"
proof -
  have "sched_inv (ex_two Duration_Bucket)" using ex_two_inv by (simp add: step_inv_def)
  moreover have "has_requests (ex_two Duration_Bucket)" by (simp add: has_requests_def ex_two_eval)
  ultimately show ?thesis by (rule schedule_work_conserving) simp
qed

text \<open>A request that never ran is never passed over for one that did: when a StepScheduler's
  queue holds a WAITING request, the cycle selects only WAITING requests (preempted ones keep
  their place in the queue).\<close>

theorem step_schedule_first_audio:
  assumes "sched_inv s" and "step_schedule s = (s', out)"
    and "w \<in> set (waiting s)" and "is_waiting_id (request_states s) w"
    and "i \<in> set (running s')" and "i \<notin> set (running s)"
  shows "is_waiting_id (request_states s) i"
proof -
  have q: "queues_ok s" using assms(1) by (simp add: sched_inv_def sched_wf_def)
  have "running s' = running s @ fst (select_waiting step_hooks s)"
    using schedule_running(1) [OF q, of step_hooks] assms(2) by (simp add: step_schedule_def)
  moreover have "has_preferred_waiting_request step_hooks s"
    using assms(3,4) by (auto simp: has_preferred_waiting_request_def list_ex_iff)
  ultimately show ?thesis
    using select_waiting_pref [of step_hooks s] assms(5,6) by auto
qed

theorem step_schedule_first_audio_witness:
  "is_waiting_id (request_states (ex_two Fifo)) ''b''"
proof -
  have "sched_inv (ex_two Fifo)" using ex_two_inv [of Fifo] by (simp add: step_inv_def)
  from step_schedule_first_audio [OF this ex_two_schedule_fifo, of "''a''" "''b''"]
  show ?thesis by (simp add: ex_two_eval is_waiting_id_def ex_state_def ex_init_eval ex_blank_def)
qed

text \<open>The FIFO strategy without preference takes the longest prefix of the queue that fits the
  free places and leaves the rest, in order, with nobody overtaken.\<close>

theorem fifo_takes_a_prefix:
  assumes "sched_inv s" and "batch_strategy s = Fifo" and "schedule base_hooks s = (s', out)"
  shows "running s' = running s
           @ take (nat (max_num_running_reqs s) - length (running s)) (waiting s)
    \<and> waiting s' = drop (nat (max_num_running_reqs s) - length (running s)) (waiting s)"
proof -
  have q: "queues_ok s" using assms(1) by (simp add: sched_inv_def sched_wf_def)
  have live: "\<forall>i \<in> set (waiting s). request_states s i \<noteq> None" using waiting_has_state [OF q] by blast
  have n: "nat (spare_capacity s) = nat (max_num_running_reqs s) - length (running s)"
    by (simp add: spare_capacity_def nat_diff_distrib')
  have "select_waiting base_hooks s =
      (take (nat (spare_capacity s)) (waiting s), drop (nat (spare_capacity s)) (waiting s))"
    using fifo_loop_take [OF live, of base_hooks "spare_capacity s" "[]" "[]"] assms(2)
    by (simp add: select_waiting_cases select_fifo_waiting_def has_preferred_waiting_request_def)
  then show ?thesis using schedule_running [OF q assms(3)] n by simp
qed

theorem fifo_takes_a_prefix_witness:
  "running (fst (schedule base_hooks (ex_two Fifo))) = [''a'', ''b'']"
proof -
  have "sched_inv (ex_two Fifo)" using ex_two_inv [of Fifo] by (simp add: step_inv_def)
  from fifo_takes_a_prefix [OF this _ prod.collapse [symmetric]]
  show ?thesis by (simp add: ex_two_eval ex_init_eval ex_blank_def)
qed

text \<open>Under the duration-bucket strategy, a cycle that adds anything to the batch leaves a
  homogeneous batch: any two running requests have the same duration bucket or, with a padding
  tolerance, token estimates within that factor of each other.\<close>

theorem duration_batch_homogeneous:
  assumes "sched_inv s" and "batch_strategy s = Duration_Bucket" and "schedule h s = (s', out)"
    and "running s' \<noteq> running s"
    and "i \<in> set (running s')" "request_states s i = Some a"
    and "j \<in> set (running s')" "request_states s j = Some b"
  shows "if pad_tolerance s > 1
    then of_int (clamped_tokens s a) \<le> pad_tolerance s * of_int (clamped_tokens s b)
    else duration_bucket s a = duration_bucket s b"
proof -
  have q: "queues_ok s" using assms(1) by (simp add: sched_inv_def sched_wf_def)
  obtain sel rest where sel: "select_waiting h s = (sel, rest)" by fastforce
  have run: "running s' = running s @ sel"
    using schedule_running(1) [OF q assms(3)] sel by simp
  then have ne: "sel \<noteq> []" using assms(4) by simp
  have "select_duration_bucket_waiting h s (spare_capacity s) (running s) = (sel, rest)"
    using sel assms(2) by (simp add: select_waiting_cases)
  from select_bucket_fits [OF q this ne] obtain an where "sound s an"
    "\<forall>i \<in> set (running s @ sel). \<forall>st. request_states s i = Some st \<longrightarrow> fits s an st" by blast
  then have "compatible s a b" using assms(5-8) run by (metis fits_compatible)
  then show ?thesis by (simp add: compatible_def)
qed

lemma ex_two_schedule_bucket:
  "running (fst (schedule step_hooks (ex_two Duration_Bucket))) = [''a'', ''b'']"
  by (simp add: schedule_def select_waiting_def select_duration_bucket_waiting_def
      has_preferred_waiting_request_def ex_two_eval ex_init_eval ex_blank_def is_waiting_id_def
      schedule_selected_def ex_state_def from_state_def map_filter_def bucket_select_def waiting_anchor_def
      duration_bucket_def estimate_target_tokens_def with_step_index_def ex_request_def
      request_texts_def request_text_def join_space_def Let_def)

theorem duration_batch_homogeneous_witness:
  "duration_bucket (ex_two Duration_Bucket) (ex_state ''a'' WAITING)
     = duration_bucket (ex_two Duration_Bucket) (ex_state ''b'' WAITING)"
proof -
  have "sched_inv (ex_two Duration_Bucket)" using ex_two_inv by (simp add: step_inv_def)
  from duration_batch_homogeneous [OF this _ prod.collapse [symmetric], of step_hooks "''a''" _ "''b''"]
  show ?thesis
    unfolding ex_two_schedule_bucket by (simp add: ex_two_eval ex_init_eval ex_blank_def)
qed

section \<open>Updating from a runner output\<close>

lemma apply_outcomes_some:
  "sts i = Some st \<Longrightarrow> \<not> is_finished (status st) \<Longrightarrow> f i = Some oc \<Longrightarrow>
     apply_outcomes f sts i = Some (finish_state (fst oc) (snd oc) st)"
  by (simp add: apply_outcomes_def is_live_def)

lemma scheduled_set:
  assumes "sched_inv s" "schedule h s = (s1, out)"
  shows "set (scheduled_req_ids out) = set (running s1)"
proof -
  have "mset (scheduled_req_ids out) = mset (running s1)"
    using selector.schedule_output_running [of s h] assms by (simp add: schedule_def sched_inv_def)
  then show ?thesis by (metis set_mset_mset)
qed

text \<open>With the RequestScheduler one runner output ends the whole batch: after schedule and
  update_from_output nothing runs, the queue is untouched, exactly the scheduled requests are
  reported as finished, and each got the status of its own result (its error, FINISHED_ERROR
  without any result, FINISHED_COMPLETED otherwise).\<close>

theorem request_update_ends_batch:
  assumes "sched_inv s" and "schedule base_hooks s = (s1, out)"
    and "request_update_from_output out ro s1 = (s2, res)"
  shows "running s2 = [] \<and> waiting s2 = waiting s1 \<and> res = Inr (set (scheduled_req_ids out))
    \<and> finished_req_ids s2 = set (scheduled_req_ids out)
    \<and> (\<forall>i \<in> set (scheduled_req_ids out). \<exists>st1 oc.
         request_states s1 i = Some st1 \<and> request_outcome (request_states s1) ro i = Some oc
         \<and> request_states s2 i = Some (finish_state (fst oc) (snd oc) st1))"
proof -
  have inv1: "sched_inv s1" using sched_inv_schedule [OF assms(1), of base_hooks] assms(2) by simp
  have q1: "queues_ok s1" using inv1 by (simp add: sched_inv_def sched_wf_def)
  have ids: "set (scheduled_req_ids out) = set (running s1)" by (rule scheduled_set [OF assms(1,2)])
  have fin1: "finished_req_ids s1 = {}" using schedule_facts(1) [OF assms(1) _ assms(2)] by simp
  have live: "is_live (request_states s1) i" if "i \<in> set (running s1)" for i
    using that live_iff_queued [OF inv1] by blast
  show ?thesis
  proof (cases "scheduled_req_ids out = []")
    case True
    then show ?thesis using assms(3) ids fin1 by (simp add: request_update_from_output_def)
  next
    case False
    have all: "{i \<in> set (scheduled_req_ids out). is_live (request_states s1) i} = set (running s1)"
      using ids live by blast
    have s2: "s2 = s1\<lparr>running := filter (\<lambda>i. i \<notin> set (running s1)) (running s1),
       waiting := filter (\<lambda>i. i \<notin> set (running s1)) (waiting s1),
       request_states := apply_outcomes (\<lambda>i. if i \<in> set (running s1)
           then request_outcome (request_states s1) ro i else None) (request_states s1),
       finished_req_ids := set (running s1)\<rparr>" and res: "res = Inr (set (running s1))"
      using assms(3) fin1 unfolding request_update_eq [OF False] all by (simp_all add: ids)
    have "filter (\<lambda>i. i \<notin> set (running s1)) (waiting s1) = waiting s1"
      using q1 by (auto simp: queues_ok_def filter_id_conv)
    moreover have "\<exists>st1 oc. request_states s1 i = Some st1 \<and> request_outcome (request_states s1) ro i = Some oc
         \<and> request_states s2 i = Some (finish_state (fst oc) (snd oc) st1)" if i: "i \<in> set (running s1)" for i
    proof -
      obtain st1 where st1: "request_states s1 i = Some st1" "\<not> is_finished (status st1)"
        using live [OF i] by (auto simp: is_live_iff)
      obtain oc where oc: "request_outcome (request_states s1) ro i = Some oc"
        using request_outcome_live [of "request_states s1" ro i] live [OF i] by blast
      then show ?thesis using st1 i s2 by (simp add: apply_outcomes_some [of "request_states s1" i st1])
    qed
    ultimately show ?thesis using s2 res ids by simp
  qed
qed

definition ex_ok :: runner_output where
  "ex_ok = \<lparr>ro_req_id = ''a'', ro_step_index = Some 1, ro_finished = False,
     ro_result = Some \<lparr>out_payload = Some 7, out_error = None, aborted = False, abort_message = None\<rparr>,
     per_request_results = Some [(''a'', \<lparr>out_payload = Some 7, out_error = None, aborted = False, abort_message = None\<rparr>)],
     per_request_finished = Some [(''b'', True)], per_request_step_indices = None\<rparr>"

theorem request_update_ends_batch_witness:
  "running (fst (request_update_from_output (snd (schedule base_hooks (ex_two Fifo))) ex_ok
      (fst (schedule base_hooks (ex_two Fifo))))) = []"
proof -
  have "sched_inv (ex_two Fifo)" using ex_two_inv [of Fifo] by (simp add: step_inv_def)
  from request_update_ends_batch [OF this prod.collapse [symmetric] prod.collapse [symmetric], of ex_ok]
  show ?thesis by simp
qed

lemma set_step_progress:
  "request_progress (set_step j n c s) i =
     (if i = j then map_option (\<lambda>p. p\<lparr>current_step := n\<rparr>) (request_progress s i) else request_progress s i)"
  by (simp add: set_step_def)

lemma step_update_loop_progress:
  assumes "step_update_loop ro is s d yielded = (s1, d1, y1)" and "distinct is"
  shows "request_progress s1 i =
      (case step_result_of s ro i of
         Advance n b \<Rightarrow> if i \<in> set is then map_option (\<lambda>p. p\<lparr>current_step := n\<rparr>) (request_progress s i)
                       else request_progress s i
       | _ \<Rightarrow> request_progress s i)"
  using assms
proof (induction ro "is" s d yielded rule: step_update_loop.induct)
  case (1 ro s d yielded)
  then show ?case by (auto split: step_result.split)
next
  case (2 ro j "is" s d yielded)
  show ?case
  proof (cases "step_result_of s ro j")
    case Skip
    then show ?thesis using 2 by (auto split: step_result.split)
  next
    case (Failed e)
    then show ?thesis using 2 by (auto split: step_result.split)
  next
    case (Advance n b)
    have "\<exists>c. request_progress s1 i =
        (case step_result_of s ro i of
           Advance n' b \<Rightarrow> if i \<in> set is then map_option (\<lambda>p. p\<lparr>current_step := n'\<rparr>) (request_progress (set_step j n c s) i)
                         else request_progress (set_step j n c s) i
         | _ \<Rightarrow> request_progress (set_step j n c s) i)"
    proof (cases b)
      case True
      with "2.IH"(3) [OF Advance] "2.prems" Advance show ?thesis
        by (intro exI [of _ False]) simp
    next
      case False
      with "2.IH"(4) [OF Advance] "2.prems" Advance show ?thesis
        by (intro exI [of _ True]) simp
    qed
    then obtain c where IH: "request_progress s1 i =
        (case step_result_of s ro i of
           Advance n' b \<Rightarrow> if i \<in> set is then map_option (\<lambda>p. p\<lparr>current_step := n'\<rparr>) (request_progress (set_step j n c s) i)
                         else request_progress (set_step j n c s) i
         | _ \<Rightarrow> request_progress (set_step j n c s) i)" by blast
    show ?thesis
      using IH Advance "2.prems"(2)
      by (cases "i = j") (auto simp: set_step_progress split: step_result.split)
  qed
qed

lemma yield_loop_progress [simp]: "request_progress (yield_loop p is s) = request_progress s"
  by (induction p "is" s rule: yield_loop.induct) (auto split: option.split)

lemma scheduled_not_skipped:
  assumes "step_inv s" "i \<in> set (running s)"
  shows "step_result_of s ro i \<noteq> Skip"
proof -
  obtain st where "request_states s i = Some st" "status st = RUNNING"
    using assms by (auto simp: step_inv_def sched_inv_defs)
  moreover obtain p where "request_progress s i = Some p"
    using assms(1) calculation(1) unfolding step_inv_def progress_ok_def by blast
  ultimately show ?thesis by (auto simp: step_result_of_def Let_def split: option.split)
qed

lemma step_update_cases:
  assumes "step_update_from_output out ro s = (s', res)" and "i \<in> set (scheduled_req_ids out)"
  obtains s1 d yielded s2 p where
    "step_update_loop ro (scheduled_req_ids out) s [] [] = (s1, d, yielded)"
    and "s' = yield_loop p yielded s2"
    and "request_progress s2 = request_progress s1"
    and "request_states s2 = apply_outcomes
           (\<lambda>i. if i \<in> set (scheduled_req_ids out) then step_outcome s ro i else None) (request_states s1)"
    and "set (waiting s2) \<subseteq> set (waiting s)"
proof -
  have ne: "scheduled_req_ids out \<noteq> []" using assms(2) by auto
  obtain s1 d yielded where loop: "step_update_loop ro (scheduled_req_ids out) s [] [] = (s1, d, yielded)"
    by (rule prod_cases3)
  have "s' = fst (step_update_from_output out ro s)" using assms(1) by simp
  then show thesis
    using that [OF loop] unfolding step_update_eq(1) [OF ne loop] yield_intermediate_results_def
    by (auto simp del: set_filter)
qed

lemma step_update_progress:
  assumes "step_update_from_output out ro s = (s', res)" and "distinct (scheduled_req_ids out)"
    and "i \<in> set (scheduled_req_ids out)"
  shows "request_progress s' i = (case step_result_of s ro i of
       Advance n b \<Rightarrow> map_option (\<lambda>p. p\<lparr>current_step := n\<rparr>) (request_progress s i)
     | _ \<Rightarrow> request_progress s i)"
  by (rule step_update_cases [OF assms(1,3)])
    (use step_update_loop_progress [OF _ assms(2)] assms(3) in \<open>simp split: step_result.split\<close>)

lemma step_update_waiting:
  assumes "step_inv s" and "step_update_from_output out ro s = (s', res)" and "i \<in> set (running s)"
    and "i \<in> set (scheduled_req_ids out)" and "i \<in> set (waiting s')"
  shows "emits_block s ro i"
proof (rule step_update_cases [OF assms(2,4)])
  fix s1 d yielded s2 p
  assume loop: "step_update_loop ro (scheduled_req_ids out) s [] [] = (s1, d, yielded)"
    and s': "s' = yield_loop p yielded s2" and w: "set (waiting s2) \<subseteq> set (waiting s)"
  have "i \<notin> set (waiting s2)" using w assms(1,3) by (auto simp: step_inv_def sched_inv_defs)
  moreover have "yielded = filter (emits_block s ro) (scheduled_req_ids out)"
    using step_update_loop_yielded [OF loop] by simp
  ultimately show ?thesis
    using yield_loop_waiting [of p yielded s2] assms(5) unfolding s' by auto
qed

lemma step_update_state:
  assumes "step_update_from_output out ro s = (s', res)" and "i \<in> set (scheduled_req_ids out)"
    and "is_live (request_states s) i" and "step_outcome s ro i = Some oc"
  shows "\<exists>st. request_states s' i = Some st \<and> status st = fst oc
     \<and> error st = (if fst oc = FINISHED_ERROR then snd oc else None)"
proof (rule step_update_cases [OF assms(1,2)])
  fix s1 d yielded s2 p
  assume loop: "step_update_loop ro (scheduled_req_ids out) s [] [] = (s1, d, yielded)"
    and s': "s' = yield_loop p yielded s2"
    and st2: "request_states s2 = apply_outcomes
           (\<lambda>i. if i \<in> set (scheduled_req_ids out) then step_outcome s ro i else None) (request_states s1)"
  have "is_live (request_states s1) i" using step_update_loop_fields [OF loop] assms(3) by simp
  then obtain st where st: "request_states s1 i = Some st" "\<not> is_finished (status st)"
    by (auto simp: is_live_iff)
  have i2: "request_states s2 i = Some (finish_state (fst oc) (snd oc) st)"
    unfolding st2 using assms(2,4) by (simp add: apply_outcomes_some [of "request_states s1" i st] st)
  then have "\<not> is_live (request_states s2) i"
    using step_outcome_finished [OF assms(4)] by (simp add: is_live_iff finish_state_def)
  then have "request_states s' i = request_states s2 i" using yield_loop_states s' by blast
  then show ?thesis using i2 by (simp add: finish_state_def)
qed

text \<open>With the StepScheduler, every request of the batch either ends or advances. It ends, with
  the status and error of its own result, exactly when it has an outcome (an error, a missing
  step index, or the runner's finished flag), and is then reported and out of both queues.
  Otherwise its progress is the runner's step index, it is still queued, and it leaves the
  running list for the back of the queue only if it emitted a block of its own.\<close>

theorem step_update_advances_batch:
  assumes "step_inv s" and "step_schedule s = (s1, out)"
    and "step_update_from_output out ro s1 = (s2, res)" and "i \<in> set (scheduled_req_ids out)"
  shows "case step_result_of s1 ro i of
      Skip \<Rightarrow> False
    | Failed e \<Rightarrow> i \<notin> set (running s2) \<union> set (waiting s2) \<and> (\<exists>fin. res = Inr fin \<and> i \<in> fin)
        \<and> (\<exists>st. request_states s2 i = Some st \<and> status st = FINISHED_ERROR \<and> error st = Some e)
    | Advance n True \<Rightarrow> i \<notin> set (running s2) \<union> set (waiting s2) \<and> (\<exists>fin. res = Inr fin \<and> i \<in> fin)
        \<and> (\<exists>st. request_states s2 i = Some st \<and> status st = FINISHED_COMPLETED \<and> error st = None)
        \<and> map_option current_step (request_progress s2 i) = Some n
    | Advance n False \<Rightarrow> (\<exists>fin. res = Inr fin \<and> i \<notin> fin)
        \<and> (i \<in> set (running s2) \<or> i \<in> set (waiting s2) \<and> emits_block s1 ro i)
        \<and> map_option current_step (request_progress s2 i) = Some n"
proof -
  have inv1: "step_inv s1" using step_schedule_inv [OF assms(1)] assms(2) by simp
  have sinv: "sched_inv s" and eqs: "schedule step_hooks s = (s1, out)"
    using assms(1,2) by (simp_all add: step_inv_def step_schedule_def)
  have run: "i \<in> set (running s1)" using scheduled_set [OF sinv eqs] assms(4) by simp
  have fin1: "finished_req_ids s1 = {}" using schedule_facts(1) [OF sinv _ eqs] by simp
  have dist: "distinct (scheduled_req_ids out)"
  proof -
    have "mset (scheduled_req_ids out) = mset (running s1)"
      using schedule_facts(3) [OF sinv _ eqs] by simp
    moreover have "distinct (running s1)" using inv1 by (simp add: step_inv_def sched_inv_defs)
    ultimately show ?thesis by (metis mset_eq_imp_distinct_iff)
  qed
  have live: "is_live (request_states s1) i"
    using live_iff_queued [of s1 i] inv1 run by (simp add: step_inv_def)
  have inv2: "step_inv s2" and live2: "is_live (request_states s2) i \<longleftrightarrow> step_outcome s1 ro i = None"
    and res: "\<exists>fin. res = Inr fin \<and> (i \<in> fin \<longleftrightarrow> step_outcome s1 ro i \<noteq> None)"
    using step_update_facts(1-3) [OF inv1 assms(3)] assms(4) live fin1 by auto
  have queued: "i \<in> set (running s2) \<union> set (waiting s2) \<longleftrightarrow> step_outcome s1 ro i = None"
    using live_iff_queued [of s2 i] inv2 live2 by (simp add: step_inv_def)
  note prog = step_update_progress [OF assms(3) dist assms(4)]
  note wait = step_update_waiting [OF inv1 assms(3) run assms(4)]
  note st = step_update_state [OF assms(3,4) live]
  show ?thesis
  proof (cases "step_result_of s1 ro i")
    case Skip
    then show ?thesis using scheduled_not_skipped [OF inv1 run] by simp
  next
    case (Failed e)
    then have "step_outcome s1 ro i = Some (FINISHED_ERROR, Some e)" by (simp add: step_outcome_def)
    then show ?thesis using Failed queued res st by auto
  next
    case (Advance n b)
    obtain pr where pr: "request_progress s1 i = Some pr"
      using Advance by (auto simp: step_result_of_def split: option.splits if_splits)
    show ?thesis
    proof (cases b)
      case True
      then have "step_outcome s1 ro i = Some (FINISHED_COMPLETED, None)" using Advance by (simp add: step_outcome_def)
      then show ?thesis using Advance True queued res st prog pr by auto
    next
      case False
      then have "step_outcome s1 ro i = None" using Advance by (simp add: step_outcome_def)
      then show ?thesis using Advance False queued res wait prog pr by auto
    qed
  qed
qed

theorem step_update_advances_batch_witness:
  "\<exists>st. request_states (fst (step_update_from_output (snd (step_schedule (ex_two Fifo))) ex_ok
        (fst (step_schedule (ex_two Fifo))))) ''b'' = Some st \<and> status st = FINISHED_COMPLETED"
proof -
  have r: "step_result_of (fst (step_schedule (ex_two Fifo))) ex_ok ''b'' = Advance 1 True"
    unfolding ex_two_schedule_fifo
    by (simp add: step_result_of_def ex_two_eval ex_state_def ex_ok_def result_for_def)
  have "''b'' \<in> set (scheduled_req_ids (snd (step_schedule (ex_two Fifo))))"
    unfolding ex_two_schedule_fifo by (simp add: scheduled_req_ids_def from_state_def ex_state_def)
  from step_update_advances_batch [OF ex_two_inv prod.collapse [symmetric] prod.collapse [symmetric] this, of ex_ok]
  show ?thesis unfolding r by auto
qed

section \<open>Adding requests\<close>

text \<open>add_request of a scheduler in a consistent state always ends: the search for a free id
  \<open>base#1\<close>, \<open>base#2\<close>, ... finds one. When it succeeds the id was not in use, the request waits at
  the back of the queue, all its client ids lead to it, and the state is consistent again.\<close>

theorem add_request_total:
  assumes "sched_inv s"
  shows "\<exists>s' r. add_request rnd rq s = Some (s', r) \<and>
    (\<forall>i. r = Inr i \<longrightarrow> sched_inv s' \<and> get_request_state s i = None \<and> waiting s' = waiting s @ [i]
       \<and> running s' = running s
       \<and> get_request_state s' i = Some \<lparr>sched_req_id = i, req = rq, status = WAITING, error = None\<rparr>
       \<and> (\<forall>rid \<in> set (request_ids rq). get_sched_req_id s' rid = Some i))"
proof -
  have "states_ok s" using assms by (simp add: sched_inv_def sched_wf_def)
  then obtain j where j: "make_sched_req_id rnd rq s = Some j" using make_sched_req_id_returns by blast
  obtain s' r where a: "add_request_with_sched_req_id j rq s = (s', r)" by (rule prod.exhaust)
  have eq: "add_request rnd rq s = Some (s', r)" using j a by (simp add: add_request_def)
  have "sched_inv s' \<and> get_request_state s i = None \<and> waiting s' = waiting s @ [i]
       \<and> running s' = running s
       \<and> get_request_state s' i = Some \<lparr>sched_req_id = i, req = rq, status = WAITING, error = None\<rparr>
       \<and> (\<forall>rid \<in> set (request_ids rq). get_sched_req_id s' rid = Some i)" if r: "r = Inr i" for i
  proof -
    have "get_sched_req_id s' rid = Some i" if "rid \<in> set (request_ids rq)" for rid
      using a register_request_ids_ok [OF _ that] unfolding r
      by (force simp: add_request_with_sched_req_id_def Let_def get_sched_req_id_def
          split: prod.splits sum.splits)
    then show ?thesis using add_facts [OF assms eq [unfolded r]] by simp
  qed
  then show ?thesis using eq by blast
qed

theorem add_request_total_witness:
  "\<exists>s' r. add_request ''r'' (ex_request ''a'') (ex_two Fifo) = Some (s', r)"
proof -
  have "sched_inv (ex_two Fifo)" using ex_two_inv [of Fifo] by (simp add: step_inv_def)
  from add_request_total [OF this] show ?thesis by blast
qed

lemma register_conflict:
  assumes "rid \<in> set rs" "m rid = Some j" "j \<noteq> i"
  shows "snd (register_request_ids rs i m) = Inl ValueError"
  using assms
proof (induction rs i m rule: register_request_ids.induct)
  case (1 i m)
  then show ?case by simp
next
  case (2 r rs i m)
  show ?case
  proof (cases "r = rid")
    case True
    with "2.prems" show ?thesis by simp
  next
    case False
    then have "rid \<in> set rs" "(m(r \<mapsto> i)) rid = Some j" using "2.prems" by simp_all
    with "2.IH" "2.prems"(3) show ?thesis by (auto split: option.split simp del: fun_upd_apply)
  qed
qed

text \<open>C22: Adding a request one of whose client ids is still registered raises ValueError, but only
  after the new state was inserted: the scheduler is left with a WAITING request that is in no
  queue, so it is never scheduled and never finishes.\<close>

theorem add_request_conflict_orphans:
  assumes "sched_inv s" and "rid \<in> set (request_ids rq)" and "get_sched_req_id s rid = Some j"
  shows "\<exists>s' i. add_request rnd rq s = Some (s', Inl ValueError)
    \<and> get_request_state s i = None
    \<and> get_request_state s' i = Some \<lparr>sched_req_id = i, req = rq, status = WAITING, error = None\<rparr>
    \<and> i \<notin> set (waiting s') \<union> set (running s') \<and> \<not> sched_inv s'"
proof -
  have "states_ok s" using assms(1) by (simp add: sched_inv_def sched_wf_def)
  then obtain i where i: "make_sched_req_id rnd rq s = Some i" using make_sched_req_id_returns by blast
  have none: "request_states s i = None" using make_sched_req_id_fresh [OF i] .
  have "\<exists>st. request_states s j = Some st"
    using assms(1,3) unfolding sched_inv_defs get_sched_req_id_def by blast
  then have "j \<noteq> i" using none by auto
  then obtain m where reg: "register_request_ids (request_ids rq) i (request_id_to_sched_req_id s) = (m, Inl ValueError)"
    using register_conflict [OF assms(2), of "request_id_to_sched_req_id s" j i] assms(3)
    by (cases "register_request_ids (request_ids rq) i (request_id_to_sched_req_id s)")
      (simp add: get_sched_req_id_def)
  define s' where "s' = s\<lparr>request_states := (request_states s)(i \<mapsto>
     \<lparr>sched_req_id = i, req = rq, status = WAITING, error = None\<rparr>), request_id_to_sched_req_id := m\<rparr>"
  have eq: "add_request rnd rq s = Some (s', Inl ValueError)"
    using i reg by (simp add: add_request_def add_request_with_sched_req_id_def s'_def)
  have nq: "i \<notin> set (waiting s') \<union> set (running s')"
    using live_iff_queued [OF assms(1), of i] none by (simp add: s'_def is_live_def)
  then have "\<not> sched_inv s'"
    using live_iff_queued [of s' i] by (auto simp: s'_def is_live_def)
  then show ?thesis using eq none nq by (auto simp: s'_def)
qed

theorem add_request_conflict_orphans_witness:
  "\<exists>s' i. add_request ''r'' (ex_request ''a'') (ex_two Fifo) = Some (s', Inl ValueError)
    \<and> i \<notin> set (waiting s') \<union> set (running s')"
proof -
  have "sched_inv (ex_two Fifo)" using ex_two_inv [of Fifo] by (simp add: step_inv_def)
  moreover have "get_sched_req_id (ex_two Fifo) ''a'' = Some ''a''"
    by (simp add: get_sched_req_id_def ex_two_eval)
  ultimately show ?thesis
    using add_request_conflict_orphans [of "ex_two Fifo" "''a''" "ex_request ''a''" "''a''" "''r''"]
    by (auto simp: ex_request_def)
qed

end
