(* ===== verification/Diffusion_Driver.thy ===== *)
theory Diffusion_Driver
  imports Sched_Interface
begin

text \<open>
  The request side of \<open>DiffusionEngine\<close> (\<open>diffusion/diffusion_engine.py\<close>) over any scheduler:
  adding and waiting for requests, streaming, aborting, and the driver thread.

  Events and stream queues are objects shared between the threads, so they live in a store:
  \<open>req_events\<close> and \<open>stream_queues\<close> map scheduler ids to references, \<open>event_set\<close> and \<open>messages\<close>
  are the objects, and \<open>blocked\<close> lists the callers inside \<open>event.wait()\<close>. Every section under \<open>_engine_lock\<close> is one atomic step; \<open>pc\<close> says where the
  driver thread is between two of them. The model function runs between the steps and is
  represented by its outcome (\<open>exec_result\<close>). The coalescing wait of the driver, which only
  reads, is not modelled.
\<close>

datatype exec_result = Ran runner_output | Raised string | Engine_Dead

datatype phase = Looping | Prepared bool | Executing sched_output | Stopped

record 's engine =
  scheduler_state :: 's
  abort_queue :: "string list"
  pending_results :: "string \<rightharpoonup> diffusion_output"
  pending_runner_outputs :: "string \<rightharpoonup> runner_output"
  req_events :: "(string \<times> nat) list"
  stream_queues :: "(string \<times> nat) list"
  event_set :: "nat \<Rightarrow> bool"
  messages :: "nat \<Rightarrow> (diffusion_output \<times> bool) list"
  next_ref :: nat
  blocked :: "(string \<times> nat) list"
  driver_running :: bool
  pc :: phase

definition engine_init :: "'s \<Rightarrow> 's engine" where
  "engine_init s = \<lparr>scheduler_state = s, abort_queue = [], pending_results = Map.empty,
     pending_runner_outputs = Map.empty, req_events = [], stream_queues = [],
     event_set = (\<lambda>_. False), messages = (\<lambda>_. []), next_ref = 0, blocked = [], driver_running = True,
     pc = Looping\<rparr>"

section \<open>Outputs the engine makes itself\<close>

definition error_output :: "string \<Rightarrow> diffusion_output" where
  "error_output msg = \<lparr>out_payload = None, out_error = Some msg, aborted = False, abort_message = None\<rparr>"

definition aborted_output :: "string \<Rightarrow> req_state \<Rightarrow> diffusion_output" where
  "aborted_output i st =
     (let rid = (case request_ids (req st) of [] \<Rightarrow> i | r # _ \<Rightarrow> r)
      in \<lparr>out_payload = None, out_error = None, aborted = True,
          abort_message = Some (''Request '' @ rid @ '' aborted.'')\<rparr>)"

text \<open>The runner output the driver makes up when the model function raises.\<close>

definition failed_output :: "sched_output \<Rightarrow> string \<Rightarrow> runner_output" where
  "failed_output out msg = \<lparr>
     ro_req_id = (case scheduled_req_ids out of [] \<Rightarrow> [] | i # _ \<Rightarrow> i),
     ro_step_index = None, ro_finished = True, ro_result = Some (error_output msg),
     per_request_results = None, per_request_finished = None, per_request_step_indices = None\<rparr>"

section \<open>Adding and collecting\<close>

definition add_waiter ::
  "'s sched_ops \<Rightarrow> string \<Rightarrow> request \<Rightarrow> 's engine \<Rightarrow> ('s engine \<times> (string \<times> nat) res) option" where
  "add_waiter ops rnd rq e =
     (case op_add_request ops rnd rq (scheduler_state e) of
        None \<Rightarrow> None
      | Some (s, Inl x) \<Rightarrow> Some (e\<lparr>scheduler_state := s\<rparr>, Inl x)
      | Some (s, Inr i) \<Rightarrow>
          Some (e\<lparr>scheduler_state := s, req_events := dict_set i (next_ref e) (req_events e),
                  event_set := (event_set e)(next_ref e := False), next_ref := next_ref e + 1,
                  blocked := (i, next_ref e) # blocked e\<rparr>,
                Inr (i, next_ref e)))"

text \<open>After \<open>event.wait()\<close> in \<open>_add_req_and_wait_concurrent\<close>.\<close>

definition collect :: "string \<Rightarrow> nat \<Rightarrow> 's engine \<Rightarrow> 's engine \<times> diffusion_output" where
  "collect i n e =
     (e\<lparr>pending_results := (pending_results e)(i := None),
        pending_runner_outputs := (pending_runner_outputs e)(i := None),
        req_events := dict_pop i (req_events e),
        blocked := remove1 (i, n) (blocked e)\<rparr>,
      case pending_results e i of None \<Rightarrow> error_output ''Driver returned no result'' | Some r \<Rightarrow> r)"

definition add_stream ::
  "'s sched_ops \<Rightarrow> string \<Rightarrow> request \<Rightarrow> 's engine \<Rightarrow> ('s engine \<times> (string \<times> nat) res) option" where
  "add_stream ops rnd rq e =
     (case op_add_request ops rnd rq (scheduler_state e) of
        None \<Rightarrow> None
      | Some (s, Inl x) \<Rightarrow> Some (e\<lparr>scheduler_state := s\<rparr>, Inl x)
      | Some (s, Inr i) \<Rightarrow>
          Some (e\<lparr>scheduler_state := s, stream_queues := dict_set i (next_ref e) (stream_queues e),
                  messages := (messages e)(next_ref e := []), next_ref := next_ref e + 1\<rparr>,
                Inr (i, next_ref e)))"

text \<open>The \<open>finally\<close> block of \<open>add_req_and_stream_response\<close>.\<close>

definition close_stream :: "string \<Rightarrow> 's engine \<Rightarrow> 's engine" where
  "close_stream i e = e\<lparr>stream_queues := dict_pop i (stream_queues e)\<rparr>"

text \<open>What the consumer of a stream yields: everything up to the first final message.\<close>

fun consumed :: "(diffusion_output \<times> bool) list \<Rightarrow> (diffusion_output \<times> bool) list" where
  "consumed [] = []"
| "consumed ((o', fin) # ms) = (if fin then [(o', fin)] else (o', fin) # consumed ms)"

section \<open>Aborts\<close>

definition abort :: "string list \<Rightarrow> 's engine \<Rightarrow> 's engine" where
  "abort ids e = e\<lparr>abort_queue := abort_queue e @ ids\<rparr>"

definition abort_one :: "'s sched_ops \<Rightarrow> string \<Rightarrow> 's \<Rightarrow> 's" where
  "abort_one ops i s =
     (if op_get_request_state ops s i \<noteq> None
      then fst (op_finish_requests ops [i] FINISHED_ABORTED s) else s)"

definition abort_requests :: "'s sched_ops \<Rightarrow> string list \<Rightarrow> 's \<Rightarrow> 's" where
  "abort_requests ops rids s =
     foldl (\<lambda>s i. abort_one ops i s) s
       (fromkeys (List.map_filter (op_get_sched_req_id ops s) (fromkeys rids)))"

definition process_aborts_queue :: "'s sched_ops \<Rightarrow> 's engine \<Rightarrow> 's engine" where
  "process_aborts_queue ops e =
     (if abort_queue e = [] then e
      else e\<lparr>abort_queue := [],
             scheduler_state := abort_requests ops (abort_queue e) (scheduler_state e)\<rparr>)"

section \<open>Dispatching outputs\<close>

definition put :: "nat \<Rightarrow> diffusion_output \<Rightarrow> bool \<Rightarrow> 's engine \<Rightarrow> 's engine" where
  "put q r fin e = e\<lparr>messages := (messages e)(q := messages e q @ [(r, fin)])\<rparr>"

definition set_event :: "string \<Rightarrow> 's engine \<Rightarrow> 's engine" where
  "set_event i e = (case map_of (req_events e) i of
      None \<Rightarrow> e | Some n \<Rightarrow> e\<lparr>event_set := (event_set e)(n := True)\<rparr>)"

fun dispatch_items ::
  "(string \<Rightarrow> bool) \<Rightarrow> string set \<Rightarrow> (string \<times> diffusion_output) list \<Rightarrow> 's engine \<Rightarrow> string set
     \<Rightarrow> 's engine \<times> string set" where
  "dispatch_items fin skip [] e finals = (e, finals)"
| "dispatch_items fin skip ((i, r) # xs) e finals =
     (if i \<in> skip then dispatch_items fin skip xs e finals
      else (case map_of (stream_queues e) i of
              None \<Rightarrow> dispatch_items fin skip xs e finals
            | Some q \<Rightarrow> dispatch_items fin skip xs (put q r (fin i) e)
                          (if fin i then insert i finals else finals)))"

definition finished_flag :: "runner_output \<Rightarrow> string \<Rightarrow> bool" where
  "finished_flag ro i = (case map_of (or_empty (per_request_finished ro)) i of
      Some b \<Rightarrow> b | None \<Rightarrow> ro_finished ro)"

definition driver_dispatch_step_outputs ::
  "runner_output \<Rightarrow> string set \<Rightarrow> 's engine \<Rightarrow> 's engine \<times> string set" where
  "driver_dispatch_step_outputs ro skip e =
     (case per_request_results ro of
        None \<Rightarrow> (case ro_result ro of
            None \<Rightarrow> (e, {})
          | Some r \<Rightarrow> dispatch_items (finished_flag ro) skip [(ro_req_id ro, r)] e {})
      | Some xs \<Rightarrow> dispatch_items (finished_flag ro) skip xs e {})"

definition final_result :: "string \<Rightarrow> req_state option \<Rightarrow> runner_output \<Rightarrow> diffusion_output" where
  "final_result i st ro =
     (case st of
        Some x \<Rightarrow> if status x = FINISHED_ABORTED then aborted_output i x
                   else (case result_for ro i of Some r \<Rightarrow> r
                     | None \<Rightarrow> error_output ''Diffusion execution finished without a final output.'')
      | None \<Rightarrow> (case result_for ro i of Some r \<Rightarrow> r
                     | None \<Rightarrow> error_output ''Diffusion execution finished without a final output.''))"

definition dispatch_finished_one ::
  "'s sched_ops \<Rightarrow> runner_output \<Rightarrow> string set \<Rightarrow> string \<Rightarrow> 's engine \<Rightarrow> 's engine" where
  "dispatch_finished_one ops ro finals i e =
     (let (s, st) = op_pop_request_state ops i (scheduler_state e);
          r = final_result i st ro;
          e1 = e\<lparr>scheduler_state := s\<rparr>
      in case map_of (stream_queues e1) i of
           Some q \<Rightarrow>
             (let e2 = e1\<lparr>stream_queues := dict_pop i (stream_queues e1)\<rparr>
              in if i \<in> finals then e2 else put q r True e2)
         | None \<Rightarrow>
             set_event i (e1\<lparr>pending_results := (pending_results e1)(i \<mapsto> r),
                             pending_runner_outputs := (pending_runner_outputs e1)(i \<mapsto> ro)\<rparr>))"

text \<open>The finished ids are a Python set; \<open>ids\<close> is the order in which it is iterated.\<close>

definition driver_dispatch_finished ::
  "'s sched_ops \<Rightarrow> runner_output \<Rightarrow> string set \<Rightarrow> string list \<Rightarrow> 's engine \<Rightarrow> 's engine" where
  "driver_dispatch_finished ops ro finals ids e =
     foldl (\<lambda>e i. dispatch_finished_one ops ro finals i e) e ids"

definition dispatch_abort_one :: "'s sched_ops \<Rightarrow> string \<Rightarrow> 's engine \<Rightarrow> 's engine" where
  "dispatch_abort_one ops i e =
     (if pending_results e i \<noteq> None then e
      else
        let (s, st) = op_pop_request_state ops i (scheduler_state e);
            e1 = e\<lparr>scheduler_state := s\<rparr>
        in case st of
             None \<Rightarrow> e1
           | Some x \<Rightarrow>
               (let r = aborted_output i x in
                case map_of (stream_queues e1) i of
                  Some q \<Rightarrow> put q r True (e1\<lparr>stream_queues := dict_pop i (stream_queues e1)\<rparr>)
                | None \<Rightarrow> set_event i (e1\<lparr>pending_results := (pending_results e1)(i \<mapsto> r)\<rparr>)))"

definition driver_dispatch_aborts :: "'s sched_ops \<Rightarrow> string list \<Rightarrow> 's engine \<Rightarrow> 's engine" where
  "driver_dispatch_aborts ops ids e = foldl (\<lambda>e i. dispatch_abort_one ops i e) e ids"

definition engine_died :: diffusion_output where
  "engine_died = error_output ''Diffusion engine died.''"

definition driver_signal_engine_dead :: "'s engine \<Rightarrow> 's engine" where
  "driver_signal_engine_dead e =
     (let e1 = foldl (\<lambda>e (i, n).
                 (if pending_results e i = None
                  then e\<lparr>pending_results := (pending_results e)(i \<mapsto> engine_died)\<rparr> else e)
                 \<lparr>event_set := (event_set e)(n := True)\<rparr>) e (req_events e)
      in (foldl (\<lambda>e (i, q). put q engine_died True e) e1 (stream_queues e1))\<lparr>stream_queues := []\<rparr>)"

section \<open>The driver loop\<close>

text \<open>One iteration of \<open>_driver_loop\<close> is \<open>driver_prepare\<close>, \<open>driver_schedule\<close> and, when a batch was
  scheduled, \<open>driver_update\<close> with \<open>driver_deliver\<close> or \<open>driver_dead\<close>.\<close>

definition driver_prepare :: "'s sched_ops \<Rightarrow> 's engine \<Rightarrow> 's engine" where
  "driver_prepare ops e =
     (let e1 = process_aborts_queue ops e
      in e1\<lparr>pc := Prepared (op_has_requests ops (scheduler_state e1))\<rparr>)"

definition driver_schedule :: "'s sched_ops \<Rightarrow> bool \<Rightarrow> (string set \<Rightarrow> string list) \<Rightarrow> 's engine \<Rightarrow> 's engine" where
  "driver_schedule ops had order e =
     (if \<not> had \<and> \<not> op_has_requests ops (scheduler_state e) then e\<lparr>pc := Looping\<rparr>
      else
        let (s, out) = op_schedule ops (scheduler_state e);
            e1 = e\<lparr>scheduler_state := s\<rparr>
        in if is_empty out
           then (driver_dispatch_aborts ops (order (out_finished_req_ids out)) e1)\<lparr>pc := Looping\<rparr>
           else e1\<lparr>pc := Executing out\<rparr>)"

definition run_result :: "sched_output \<Rightarrow> exec_result \<Rightarrow> runner_output option" where
  "run_result out r = (case r of Ran ro \<Rightarrow> Some ro | Raised msg \<Rightarrow> Some (failed_output out msg)
     | Engine_Dead \<Rightarrow> None)"

definition driver_update ::
  "'s sched_ops \<Rightarrow> sched_output \<Rightarrow> runner_output \<Rightarrow> 's engine \<Rightarrow> 's engine \<times> string set res" where
  "driver_update ops out ro e =
     (let e1 = process_aborts_queue ops e;
          (s, res) = op_update_from_output ops out ro (scheduler_state e1)
      in (e1\<lparr>scheduler_state := s\<rparr>, res))"

definition skip_stream_ids :: "'s sched_ops \<Rightarrow> 's \<Rightarrow> string list \<Rightarrow> string set" where
  "skip_stream_ids ops s ids = {i \<in> set ids. case op_get_request_state ops s i of
      None \<Rightarrow> False | Some st \<Rightarrow> status st \<noteq> FINISHED_COMPLETED}"

definition driver_deliver :: "'s sched_ops \<Rightarrow> runner_output \<Rightarrow> string list \<Rightarrow> 's engine \<Rightarrow> 's engine" where
  "driver_deliver ops ro ids e =
     (let (e1, finals) = driver_dispatch_step_outputs ro
                           (skip_stream_ids ops (scheduler_state e) ids) e
      in (driver_dispatch_finished ops ro finals ids e1)\<lparr>pc := Looping\<rparr>)"

definition driver_dead :: "'s engine \<Rightarrow> 's engine" where
  "driver_dead e = (driver_signal_engine_dead (e\<lparr>driver_running := False\<rparr>))\<lparr>pc := Stopped\<rparr>"

text \<open>The threads of the engine: callers, streams, aborts from any thread, and the driver.\<close>

inductive engine_step :: "'s sched_ops \<Rightarrow> 's engine \<Rightarrow> 's engine \<Rightarrow> bool" for ops where
  wait_add: "add_waiter ops rnd rq e = Some (e', Inr (i, n)) \<Longrightarrow> engine_step ops e e'"
| wait_end: "(i, n) \<in> set (blocked e) \<Longrightarrow> event_set e n \<Longrightarrow> engine_step ops e (fst (collect i n e))"
| stream_add: "add_stream ops rnd rq e = Some (e', Inr (i, n)) \<Longrightarrow> engine_step ops e e'"
| stream_end: "engine_step ops e (close_stream i e)"
| abort: "engine_step ops e (abort rids e)"
| prepare: "pc e = Looping \<Longrightarrow> driver_running e \<Longrightarrow> engine_step ops e (driver_prepare ops e)"
| schedule: "pc e = Prepared had \<Longrightarrow> (\<And>A. finite A \<Longrightarrow> set (order A) = A \<and> distinct (order A)) \<Longrightarrow>
    engine_step ops e (driver_schedule ops had order e)"
| finish: "pc e = Executing out \<Longrightarrow> run_result out r = Some ro \<Longrightarrow>
    driver_update ops out ro e = (e1, Inr fin) \<Longrightarrow> distinct ids \<Longrightarrow> set ids = fin \<Longrightarrow>
    engine_step ops e (driver_deliver ops ro ids e1)"
| dead: "pc e = Executing out \<Longrightarrow> engine_step ops e (driver_dead e)"

section \<open>Lemmas\<close>

lemma put_simps [simp]:
  "scheduler_state (put q r fin e) = scheduler_state e" "abort_queue (put q r fin e) = abort_queue e"
  "pending_results (put q r fin e) = pending_results e" "req_events (put q r fin e) = req_events e"
  "pending_runner_outputs (put q r fin e) = pending_runner_outputs e"
  "stream_queues (put q r fin e) = stream_queues e" "event_set (put q r fin e) = event_set e"
  "next_ref (put q r fin e) = next_ref e" "blocked (put q r fin e) = blocked e" "pc (put q r fin e) = pc e"
  "messages (put q r fin e) q' = messages e q' @ (if q' = q then [(r, fin)] else [])"
  by (simp_all add: put_def)

lemma set_event_simps [simp]:
  "scheduler_state (set_event i e) = scheduler_state e" "abort_queue (set_event i e) = abort_queue e"
  "pending_results (set_event i e) = pending_results e" "req_events (set_event i e) = req_events e"
  "pending_runner_outputs (set_event i e) = pending_runner_outputs e"
  "stream_queues (set_event i e) = stream_queues e" "messages (set_event i e) = messages e"
  "next_ref (set_event i e) = next_ref e" "blocked (set_event i e) = blocked e" "pc (set_event i e) = pc e"
  "event_set (set_event i e) n = (event_set e n \<or> map_of (req_events e) i = Some n)"
  by (simp_all add: set_event_def split: option.split)

text \<open>Dispatching step outputs only appends messages.\<close>

lemma dispatch_items_frame:
  "\<exists>m. fst (dispatch_items fin skip xs e finals) = e\<lparr>messages := m\<rparr>"
proof (induction xs arbitrary: e finals)
  case Nil
  have "e = e\<lparr>messages := messages e\<rparr>" by simp
  then show ?case by (metis dispatch_items.simps(1) fst_conv)
next
  case (Cons x xs)
  obtain i r where x: "x = (i, r)" by (rule prod.exhaust)
  have "\<exists>m. fst (dispatch_items fin skip xs (put q r b e) f) = e\<lparr>messages := m\<rparr>" for q b f
    using Cons.IH [of "put q r b e" f] by (auto simp: put_def)
  with Cons.IH x show ?case by (auto split: option.split)
qed

lemma dispatch_step_fields:
  assumes "driver_dispatch_step_outputs ro skip e = (e', finals)"
  shows "scheduler_state e' = scheduler_state e" "abort_queue e' = abort_queue e"
    "pending_results e' = pending_results e" "req_events e' = req_events e"
    "stream_queues e' = stream_queues e" "event_set e' = event_set e" "next_ref e' = next_ref e"
    "blocked e' = blocked e" "pc e' = pc e"
proof -
  have same: "\<exists>m. e = e\<lparr>messages := m\<rparr>" by (rule exI [of _ "messages e"]) simp
  have "\<exists>m. fst (driver_dispatch_step_outputs ro skip e) = e\<lparr>messages := m\<rparr>"
  proof (cases "per_request_results ro")
    case None
    show ?thesis
      by (cases "ro_result ro")
        (simp_all only: driver_dispatch_step_outputs_def None option.case fst_conv same dispatch_items_frame)
  next
    case (Some xs)
    then show ?thesis
      by (simp only: driver_dispatch_step_outputs_def option.case dispatch_items_frame)
  qed
  with assms obtain m where "e' = e\<lparr>messages := m\<rparr>" by auto
  then show "scheduler_state e' = scheduler_state e" "abort_queue e' = abort_queue e"
    "pending_results e' = pending_results e" "req_events e' = req_events e"
    "stream_queues e' = stream_queues e" "event_set e' = event_set e" "next_ref e' = next_ref e"
    "blocked e' = blocked e" "pc e' = pc e" by simp_all
qed

section \<open>Aborts, over any scheduler that meets the contract\<close>

context scheduler
begin

lemma abort_one_ok:
  assumes "inv s"
  shows "inv (abort_one ops i s)"
    and "dom (sts (abort_one ops i s)) = dom (sts s)"
    and "is_live (sts (abort_one ops i s)) j \<longleftrightarrow> is_live (sts s) j \<and> j \<noteq> i"
    and "fins (abort_one ops i s) = fins s \<union> {j. j = i \<and> is_live (sts s) j}"
    and "\<not> is_live (sts s) j \<or> j \<noteq> i \<Longrightarrow> sts (abort_one ops i s) j = sts s j"
    and "is_live (sts s) i \<Longrightarrow> map_option status (sts (abort_one ops i s) i) = Some FINISHED_ABORTED"
proof -
  obtain s' r where eq: "op_finish_requests ops [i] FINISHED_ABORTED s = (s', r)" by (rule prod.exhaust)
  note f = finish_ok [OF assms _ eq]
  have "inv (abort_one ops i s)
    \<and> dom (sts (abort_one ops i s)) = dom (sts s)
    \<and> (is_live (sts (abort_one ops i s)) j \<longleftrightarrow> is_live (sts s) j \<and> j \<noteq> i)
    \<and> fins (abort_one ops i s) = fins s \<union> {j. j = i \<and> is_live (sts s) j}
    \<and> (\<not> is_live (sts s) j \<or> j \<noteq> i \<longrightarrow> sts (abort_one ops i s) j = sts s j)
    \<and> (is_live (sts s) i \<longrightarrow> map_option status (sts (abort_one ops i s) i) = Some FINISHED_ABORTED)"
  proof (cases "sts s i")
    case None
    then show ?thesis using assms by (auto simp: abort_one_def is_live_iff)
  next
    case (Some st)
    then have ab: "abort_one ops i s = s'" using eq by (simp add: abort_one_def)
    have same: "\<not> is_live (sts s) j \<or> j \<noteq> i \<Longrightarrow> sts s' j = sts s j" for j
      by (cases "j = i") (use f in auto)
    have fin: "is_live (sts s) i \<Longrightarrow> map_option status (sts s' i) = Some FINISHED_ABORTED" using f by simp
    have "is_live (sts s') j \<longleftrightarrow> is_live (sts s) j \<and> j \<noteq> i"
    proof (cases "j = i")
      case True
      have "\<not> is_live (sts s') i"
      proof (cases "is_live (sts s) i")
        case True
        then show ?thesis using fin by (auto simp: is_live_iff)
      next
        case False
        then show ?thesis using same [of i] by (simp add: is_live_iff)
      qed
      with True show ?thesis by simp
    next
      case False
      then show ?thesis using same [of j] by (simp add: is_live_iff)
    qed
    moreover have "inv s'" "dom (sts s') = dom (sts s)" using f by simp_all
    moreover have "fins s' = fins s \<union> {j. j = i \<and> is_live (sts s) j}" using f by auto
    ultimately show ?thesis using same [of j] fin unfolding ab by blast
  qed
  then show "inv (abort_one ops i s)" "dom (sts (abort_one ops i s)) = dom (sts s)"
    "is_live (sts (abort_one ops i s)) j \<longleftrightarrow> is_live (sts s) j \<and> j \<noteq> i"
    "fins (abort_one ops i s) = fins s \<union> {j. j = i \<and> is_live (sts s) j}"
    "\<not> is_live (sts s) j \<or> j \<noteq> i \<Longrightarrow> sts (abort_one ops i s) j = sts s j"
    "is_live (sts s) i \<Longrightarrow> map_option status (sts (abort_one ops i s) i) = Some FINISHED_ABORTED"
    by blast+
qed

lemma abort_all_ok:
  assumes "inv s"
  shows "inv (foldl (\<lambda>s i. abort_one ops i s) s is)
    \<and> dom (sts (foldl (\<lambda>s i. abort_one ops i s) s is)) = dom (sts s)
    \<and> (is_live (sts (foldl (\<lambda>s i. abort_one ops i s) s is)) j \<longleftrightarrow> is_live (sts s) j \<and> j \<notin> set is)
    \<and> fins (foldl (\<lambda>s i. abort_one ops i s) s is) = fins s \<union> {i \<in> set is. is_live (sts s) i}
    \<and> (\<not> is_live (sts s) j \<or> j \<notin> set is \<longrightarrow> sts (foldl (\<lambda>s i. abort_one ops i s) s is) j = sts s j)
    \<and> (is_live (sts s) j \<and> j \<in> set is \<longrightarrow>
        map_option status (sts (foldl (\<lambda>s i. abort_one ops i s) s is) j) = Some FINISHED_ABORTED)"
  using assms
proof (induction "is" arbitrary: s)
  case Nil
  then show ?case by simp
next
  case (Cons i "is")
  define s1 where "s1 = abort_one ops i s"
  note one = abort_one_ok [OF Cons.prems, where i = i, folded s1_def]
  note IH = Cons.IH [OF one(1)]
  have f: "foldl (\<lambda>s i. abort_one ops i s) s (i # is) = foldl (\<lambda>s i. abort_one ops i s) s1 is"
    by (simp add: s1_def)
  have "j = i \<Longrightarrow> sts (foldl (\<lambda>s i. abort_one ops i s) s1 is) j = sts s1 j"
    using IH one(3) [where j = j] by simp
  moreover have "fins s1 \<union> {k \<in> set is. is_live (sts s1) k} = fins s \<union> {k \<in> set (i # is). is_live (sts s) k}"
    using one(3,4) by auto
  ultimately show ?case
    unfolding f using IH one(2) one(3) [where j = j] one(5) [where j = j] one(6)
    by (cases "j = i"; cases "is_live (sts s) j") simp_all
qed

end

end
