(* ===== verification/Diffusion_Delivery.thy ===== *)
theory Diffusion_Delivery
  imports Diffusion_Driver
begin

text \<open>
  Who gets an answer: what one driver iteration delivers to the callers and streams of the
  batch, over any scheduler that meets the contract, and the waiters no iteration reaches.
\<close>

definition aborted_ids :: "'s sched_ops \<Rightarrow> 's engine \<Rightarrow> string set" where
  "aborted_ids ops e =
     {i. \<exists>rid \<in> set (abort_queue e). op_get_sched_req_id ops (scheduler_state e) rid = Some i}"

text \<open>
  The facts about the engine between two atomic sections: a batch in execution consists of live
  requests and nothing was finished since it was scheduled; \<open>Prepared True\<close> is still true.
\<close>

definition engine_ok ::
  "'s sched_ops \<Rightarrow> ('s \<Rightarrow> bool) \<Rightarrow> ('s \<Rightarrow> string set) \<Rightarrow> 's engine \<Rightarrow> bool" where
  "engine_ok ops good fresh_fins e \<longleftrightarrow> good (scheduler_state e) \<and>
     (case pc e of
        Executing out \<Rightarrow> fresh_fins (scheduler_state e) = {} \<and> distinct (scheduled_req_ids out)
          \<and> (\<forall>i \<in> set (scheduled_req_ids out). is_live (op_get_request_state ops (scheduler_state e)) i)
      | Prepared had \<Rightarrow> had \<longrightarrow> op_has_requests ops (scheduler_state e)
      | _ \<Rightarrow> True)"

context scheduler
begin

lemma process_aborts_fields [simp]:
  "pending_results (process_aborts_queue ops e) = pending_results e"
  "req_events (process_aborts_queue ops e) = req_events e"
  "stream_queues (process_aborts_queue ops e) = stream_queues e"
  "event_set (process_aborts_queue ops e) = event_set e"
  "messages (process_aborts_queue ops e) = messages e"
  "next_ref (process_aborts_queue ops e) = next_ref e"
  "blocked (process_aborts_queue ops e) = blocked e"
  "pc (process_aborts_queue ops e) = pc e"
  by (simp_all add: process_aborts_queue_def)

lemma process_aborts_ok:
  fixes e :: "'s engine"
  assumes "inv (scheduler_state e)"
  defines "s1 \<equiv> scheduler_state (process_aborts_queue ops e)"
  shows "inv s1" and "dom (sts s1) = dom (sts (scheduler_state e))"
    and "is_live (sts s1) j \<longleftrightarrow> is_live (sts (scheduler_state e)) j \<and> j \<notin> aborted_ids ops e"
    and "fins s1 = fins (scheduler_state e) \<union> {i \<in> aborted_ids ops e. is_live (sts (scheduler_state e)) i}"
    and "\<not> is_live (sts (scheduler_state e)) k \<or> k \<notin> aborted_ids ops e \<Longrightarrow>
           sts s1 k = sts (scheduler_state e) k"
    and "is_live (sts (scheduler_state e)) l \<Longrightarrow> l \<in> aborted_ids ops e \<Longrightarrow>
           map_option status (sts s1 l) = Some FINISHED_ABORTED"
proof -
  define xs where "xs = fromkeys (List.map_filter (op_get_sched_req_id ops (scheduler_state e)) (fromkeys (abort_queue e)))"
  have set_xs: "set xs = aborted_ids ops e"
    by (auto simp: xs_def aborted_ids_def map_filter_def; force)
  have s1: "s1 = foldl (\<lambda>s i. abort_one ops i s) (scheduler_state e) xs"
  proof (cases "abort_queue e = []")
    case True
    then have "xs = []" by (simp add: xs_def fromkeys_def map_filter_def)
    with True show ?thesis by (simp add: s1_def process_aborts_queue_def)
  qed (simp add: s1_def process_aborts_queue_def abort_requests_def xs_def)
  note all = abort_all_ok [OF assms(1), of xs, folded s1, unfolded set_xs]
  show "inv s1" "dom (sts s1) = dom (sts (scheduler_state e))"
    "is_live (sts s1) j \<longleftrightarrow> is_live (sts (scheduler_state e)) j \<and> j \<notin> aborted_ids ops e"
    "fins s1 = fins (scheduler_state e) \<union> {i \<in> aborted_ids ops e. is_live (sts (scheduler_state e)) i}"
    "\<not> is_live (sts (scheduler_state e)) k \<or> k \<notin> aborted_ids ops e \<Longrightarrow>
       sts s1 k = sts (scheduler_state e) k"
    "is_live (sts (scheduler_state e)) l \<Longrightarrow> l \<in> aborted_ids ops e \<Longrightarrow>
       map_option status (sts s1 l) = Some FINISHED_ABORTED"
    using all by blast+
qed

text \<open>After the update a request of the batch is finished exactly when it is reported.\<close>

lemma driver_update_ok:
  fixes e :: "'s engine"
  assumes ok: "engine_ok ops inv fins e" and pc: "pc e = Executing out"
    and up: "driver_update ops out ro e = (e', Inr fin)"
  shows "inv (scheduler_state e')"
    and "fin = {i \<in> set (scheduled_req_ids out). \<not> is_live (sts (scheduler_state e')) i}"
    and "is_live (sts (scheduler_state e')) j \<Longrightarrow> is_live (sts (scheduler_state e)) j"
    and "\<not> is_live (sts (scheduler_state e)) k \<Longrightarrow>
           sts (scheduler_state e') k = sts (scheduler_state e) k"
    and "dom (sts (scheduler_state e')) = dom (sts (scheduler_state e))"
    and "l \<in> set (scheduled_req_ids out) \<Longrightarrow> l \<in> aborted_ids ops e \<Longrightarrow>
           l \<in> fin \<and> map_option status (sts (scheduler_state e') l) = Some FINISHED_ABORTED"
proof -
  define s1 where "s1 = scheduler_state (process_aborts_queue ops e)"
  have inv: "inv (scheduler_state e)" and f0: "fins (scheduler_state e) = {}"
    and live: "\<forall>i \<in> set (scheduled_req_ids out). is_live (sts (scheduler_state e)) i"
    using ok pc by (simp_all add: engine_ok_def)
  note ab = process_aborts_ok [OF inv, folded s1_def]
  obtain s2 res where eq: "op_update_from_output ops out ro s1 = (s2, res)" by (rule prod.exhaust)
  have s2: "scheduler_state e' = s2" and res: "res = Inr fin"
    using up eq by (auto simp: driver_update_def Let_def s1_def [symmetric])
  note u = update_ok [OF ab(1) eq]
  show "inv (scheduler_state e')" using u s2 by blast
  have dead_f: "i \<in> fins s1 \<Longrightarrow> \<not> is_live (sts s1) i" for i using ab(3,4) f0 by simp
  have l21: "is_live (sts s2) i \<Longrightarrow> is_live (sts s1) i" for i using u by blast
  have fin: "fin = {i \<in> set (scheduled_req_ids out). i \<in> fins s1}
      \<union> {i \<in> set (scheduled_req_ids out). is_live (sts s1) i \<and> \<not> is_live (sts s2) i}"
    using u res by simp
  have "i \<in> fins s1" if "i \<in> set (scheduled_req_ids out)" "\<not> is_live (sts s1) i" for i
    using that live ab(3,4) by auto
  then show "fin = {i \<in> set (scheduled_req_ids out). \<not> is_live (sts (scheduler_state e')) i}"
    unfolding fin s2 using dead_f l21 by blast
  show "is_live (sts (scheduler_state e')) j \<Longrightarrow> is_live (sts (scheduler_state e)) j"
    using l21 ab(3) s2 by blast
  show "\<not> is_live (sts (scheduler_state e)) k \<Longrightarrow> sts (scheduler_state e') k = sts (scheduler_state e) k"
    using u ab(3,5) [of k] s2 by metis
  show "dom (sts (scheduler_state e')) = dom (sts (scheduler_state e))" using u ab(2) s2 by simp
  show "l \<in> set (scheduled_req_ids out) \<Longrightarrow> l \<in> aborted_ids ops e \<Longrightarrow>
      l \<in> fin \<and> map_option status (sts (scheduler_state e') l) = Some FINISHED_ABORTED"
  proof -
    assume l: "l \<in> set (scheduled_req_ids out)" "l \<in> aborted_ids ops e"
    then have lv: "is_live (sts (scheduler_state e)) l" using live by blast
    then have d1: "\<not> is_live (sts s1) l" and st1: "map_option status (sts s1 l) = Some FINISHED_ABORTED"
      using ab(3) [of l] ab(6) [of l] l(2) by blast+
    have "l \<in> fins s1" using ab(4) lv l(2) by blast
    moreover have "sts s2 l = sts s1 l" using u d1 by blast
    ultimately show ?thesis using fin l(1) st1 s2 by auto
  qed
qed

lemma driver_update_fields:
  assumes "driver_update ops out ro e = (e', res)"
  shows "pending_results e' = pending_results e" "req_events e' = req_events e"
    "stream_queues e' = stream_queues e" "event_set e' = event_set e" "messages e' = messages e"
    "next_ref e' = next_ref e" "blocked e' = blocked e" "pc e' = pc e"
  using assms by (auto simp: driver_update_def Let_def split: prod.splits)

end

section \<open>Delivering the finished requests\<close>

text \<open>What \<open>driver_dispatch_finished\<close> adds to a stream for the finished ids.\<close>

definition closing_messages ::
  "'s sched_ops \<Rightarrow> runner_output \<Rightarrow> string set \<Rightarrow> 's engine \<Rightarrow> nat \<Rightarrow> string list
     \<Rightarrow> (diffusion_output \<times> bool) list" where
  "closing_messages ops ro finals e q ids =
     concat (map (\<lambda>i. if map_of (stream_queues e) i = Some q \<and> i \<notin> finals
        then [(final_result i (op_get_request_state ops (scheduler_state e) i) ro, True)] else []) ids)"

context scheduler
begin

lemma dispatch_finished_one_eq:
  fixes e :: "'s engine" and ro :: runner_output and finals :: "string set" and i :: string
  assumes "inv (scheduler_state e)" and "\<not> is_live (sts (scheduler_state e)) i"
  defines "e' \<equiv> dispatch_finished_one ops ro finals i e"
    and "r \<equiv> final_result i (sts (scheduler_state e) i) ro"
  shows "inv (scheduler_state e')"
    and "sts (scheduler_state e') = (sts (scheduler_state e))(i := None)"
    and "pending_results e' = (if map_of (stream_queues e) i = None
           then (pending_results e)(i \<mapsto> r) else pending_results e)"
    and "event_set e' n = (event_set e n \<or>
           map_of (stream_queues e) i = None \<and> map_of (req_events e) i = Some n)"
    and "map_of (stream_queues e') = (map_of (stream_queues e))(i := None)"
    and "messages e' q = messages e q @
           (if map_of (stream_queues e) i = Some q \<and> i \<notin> finals then [(r, True)] else [])"
    and "req_events e' = req_events e" and "blocked e' = blocked e" and "next_ref e' = next_ref e"
    and "run (scheduler_state e') = run (scheduler_state e)"
    and "wait (scheduler_state e') = wait (scheduler_state e)"
    and "fins (scheduler_state e') = fins (scheduler_state e)"
    and "abort_queue e' = abort_queue e"
proof -
  obtain s st where eq: "op_pop_request_state ops i (scheduler_state e) = (s, st)" by (rule prod.exhaust)
  note p = pop_ok [OF assms(1,2) eq]
  have all: "scheduler_state e' = s \<and> pending_results e' = (if map_of (stream_queues e) i = None
           then (pending_results e)(i \<mapsto> r) else pending_results e)
    \<and> event_set e' n = (event_set e n \<or>
           map_of (stream_queues e) i = None \<and> map_of (req_events e) i = Some n)
    \<and> map_of (stream_queues e') = (map_of (stream_queues e))(i := None)
    \<and> messages e' q = messages e q @
           (if map_of (stream_queues e) i = Some q \<and> i \<notin> finals then [(r, True)] else [])
    \<and> req_events e' = req_events e \<and> blocked e' = blocked e \<and> next_ref e' = next_ref e
    \<and> abort_queue e' = abort_queue e"
    using p eq unfolding e'_def r_def dispatch_finished_one_def
    by (cases "map_of (stream_queues e) i"; cases "i \<in> finals")
      (auto simp: map_of_dict_pop fun_upd_idem)
  then show "inv (scheduler_state e')"
    "sts (scheduler_state e') = (sts (scheduler_state e))(i := None)"
    "pending_results e' = (if map_of (stream_queues e) i = None
           then (pending_results e)(i \<mapsto> r) else pending_results e)"
    "event_set e' n = (event_set e n \<or>
           map_of (stream_queues e) i = None \<and> map_of (req_events e) i = Some n)"
    "map_of (stream_queues e') = (map_of (stream_queues e))(i := None)"
    "messages e' q = messages e q @
           (if map_of (stream_queues e) i = Some q \<and> i \<notin> finals then [(r, True)] else [])"
    "req_events e' = req_events e" "blocked e' = blocked e" "next_ref e' = next_ref e"
    "run (scheduler_state e') = run (scheduler_state e)"
    "wait (scheduler_state e') = wait (scheduler_state e)"
    "fins (scheduler_state e') = fins (scheduler_state e)" "abort_queue e' = abort_queue e"
    using p by simp_all
qed

lemma dispatch_finished_eq:
  fixes e :: "'s engine" and ro :: runner_output and finals :: "string set" and ids :: "string list"
  assumes "inv (scheduler_state e)" and "\<forall>i \<in> set ids. \<not> is_live (sts (scheduler_state e)) i"
    and "distinct ids"
  defines "e' \<equiv> driver_dispatch_finished ops ro finals ids e"
  shows "inv (scheduler_state e')
    \<and> sts (scheduler_state e') j = (if j \<in> set ids then None else sts (scheduler_state e) j)
    \<and> pending_results e' j = (if j \<in> set ids \<and> map_of (stream_queues e) j = None
           then Some (final_result j (sts (scheduler_state e) j) ro) else pending_results e j)
    \<and> (event_set e' n \<longleftrightarrow> event_set e n \<or>
        (\<exists>i \<in> set ids. map_of (stream_queues e) i = None \<and> map_of (req_events e) i = Some n))
    \<and> map_of (stream_queues e') j = (if j \<in> set ids then None else map_of (stream_queues e) j)
    \<and> messages e' q = messages e q @ closing_messages ops ro finals e q ids
    \<and> req_events e' = req_events e \<and> blocked e' = blocked e \<and> next_ref e' = next_ref e
    \<and> run (scheduler_state e') = run (scheduler_state e)
    \<and> wait (scheduler_state e') = wait (scheduler_state e)
    \<and> fins (scheduler_state e') = fins (scheduler_state e) \<and> abort_queue e' = abort_queue e"
  unfolding e'_def using assms(1-3)
proof (induction ids arbitrary: e)
  case Nil
  then show ?case by (simp add: driver_dispatch_finished_def closing_messages_def)
next
  case (Cons i ids)
  define e1 where "e1 = dispatch_finished_one ops ro finals i e"
  have i: "\<not> is_live (sts (scheduler_state e)) i" "i \<notin> set ids" using Cons.prems by simp_all
  note one = dispatch_finished_one_eq [OF Cons.prems(1) i(1), of ro finals, folded e1_def]
  have dead: "\<forall>j \<in> set ids. \<not> is_live (sts (scheduler_state e1)) j"
    using Cons.prems(2) i(2) by (auto simp: one(2) is_live_iff)
  have f: "driver_dispatch_finished ops ro finals (i # ids) e = driver_dispatch_finished ops ro finals ids e1"
    by (simp add: driver_dispatch_finished_def e1_def)
  have IH: "inv (scheduler_state (driver_dispatch_finished ops ro finals ids e1))
    \<and> sts (scheduler_state (driver_dispatch_finished ops ro finals ids e1)) j =
        (if j \<in> set ids then None else sts (scheduler_state e1) j)
    \<and> pending_results (driver_dispatch_finished ops ro finals ids e1) j =
        (if j \<in> set ids \<and> map_of (stream_queues e1) j = None
           then Some (final_result j (sts (scheduler_state e1) j) ro) else pending_results e1 j)
    \<and> (event_set (driver_dispatch_finished ops ro finals ids e1) n \<longleftrightarrow> event_set e1 n \<or>
        (\<exists>i \<in> set ids. map_of (stream_queues e1) i = None \<and> map_of (req_events e1) i = Some n))
    \<and> map_of (stream_queues (driver_dispatch_finished ops ro finals ids e1)) j =
        (if j \<in> set ids then None else map_of (stream_queues e1) j)
    \<and> messages (driver_dispatch_finished ops ro finals ids e1) q =
        messages e1 q @ closing_messages ops ro finals e1 q ids
    \<and> req_events (driver_dispatch_finished ops ro finals ids e1) = req_events e1
    \<and> blocked (driver_dispatch_finished ops ro finals ids e1) = blocked e1
    \<and> next_ref (driver_dispatch_finished ops ro finals ids e1) = next_ref e1
    \<and> run (scheduler_state (driver_dispatch_finished ops ro finals ids e1)) = run (scheduler_state e1)
    \<and> wait (scheduler_state (driver_dispatch_finished ops ro finals ids e1)) = wait (scheduler_state e1)
    \<and> fins (scheduler_state (driver_dispatch_finished ops ro finals ids e1)) = fins (scheduler_state e1)
    \<and> abort_queue (driver_dispatch_finished ops ro finals ids e1) = abort_queue e1"
    using Cons.IH [OF one(1) dead] Cons.prems(3) by simp
  have cl: "closing_messages ops ro finals e1 q ids = closing_messages ops ro finals e q ids"
    unfolding closing_messages_def using i(2)
    by (intro arg_cong [of _ _ concat] map_cong refl) (auto simp: one(2,5))
  have cl2: "closing_messages ops ro finals e q (i # ids) =
     (if map_of (stream_queues e) i = Some q \<and> i \<notin> finals
      then [(final_result i (sts (scheduler_state e) i) ro, True)] else [])
     @ closing_messages ops ro finals e q ids"
    by (simp add: closing_messages_def)
  have ev: "(\<exists>k \<in> set ids. map_of (stream_queues e1) k = None \<and> map_of (req_events e1) k = Some n)
     = (\<exists>k \<in> set ids. map_of (stream_queues e) k = None \<and> map_of (req_events e) k = Some n)"
    unfolding one(5,7) using i(2) by (intro bex_cong refl) auto
  show ?case
    unfolding f using IH [unfolded ev cl] i(2)
    by (cases "j = i"; cases "map_of (stream_queues e) i") (simp_all add: one(2-13) cl2)
qed

end

section \<open>One iteration and the invariant of the engine\<close>

lemma signal_dead_scheduler [simp]: "scheduler_state (driver_dead e) = scheduler_state e"
proof -
  have a: "scheduler_state (foldl (\<lambda>e (i, n).
      (if pending_results e i = None
       then e\<lparr>pending_results := (pending_results e)(i \<mapsto> engine_died)\<rparr> else e)
      \<lparr>event_set := (event_set e)(n := True)\<rparr>) e xs) = scheduler_state e" for e :: "'a engine" and xs
    by (induction xs arbitrary: e) auto
  have b: "scheduler_state (foldl (\<lambda>e (i, q). put q engine_died True e) e xs) = scheduler_state e"
    for e :: "'a engine" and xs
    by (induction xs arbitrary: e) auto
  show ?thesis by (simp add: driver_dead_def driver_signal_engine_dead_def Let_def a b)
qed

lemma driver_dead_pc [simp]: "pc (driver_dead e) = Stopped"
  by (simp add: driver_dead_def)

context scheduler
begin

lemma driver_deliver_ok:
  fixes e :: "'s engine"
  assumes ok: "engine_ok ops inv fins e" and pc: "pc e = Executing out"
    and up: "driver_update ops out ro e = (e1, Inr fin)" and ids: "distinct ids" "set ids = fin"
    and step: "driver_dispatch_step_outputs ro (skip_stream_ids ops (scheduler_state e1) ids) e1 = (e2, finals)"
  defines "e' \<equiv> driver_deliver ops ro ids e1"
  shows "inv (scheduler_state e') \<and> pc e' = Looping
    \<and> sts (scheduler_state e') j = (if j \<in> fin then None else sts (scheduler_state e1) j)
    \<and> pending_results e' j = (if j \<in> fin \<and> map_of (stream_queues e) j = None
           then Some (final_result j (sts (scheduler_state e1) j) ro) else pending_results e j)
    \<and> (event_set e' n \<longleftrightarrow> event_set e n \<or>
        (\<exists>i \<in> fin. map_of (stream_queues e) i = None \<and> map_of (req_events e) i = Some n))
    \<and> map_of (stream_queues e') j = (if j \<in> fin then None else map_of (stream_queues e) j)
    \<and> messages e' q = messages e2 q @ closing_messages ops ro finals e1 q ids
    \<and> req_events e' = req_events e \<and> blocked e' = blocked e \<and> next_ref e' = next_ref e"
proof -
  note u = driver_update_ok [OF ok pc up]
  note uf = driver_update_fields [OF up]
  note s = dispatch_step_fields [OF step]
  have inv2: "inv (scheduler_state e2)" using u(1) s(1) by simp
  have dead: "\<forall>i \<in> set ids. \<not> is_live (sts (scheduler_state e2)) i" using u(2) ids s(1) by simp
  note d = dispatch_finished_eq [OF inv2 dead ids(1), of ro finals j n q]
  have e': "e' = (driver_dispatch_finished ops ro finals ids e2)\<lparr>pc := Looping\<rparr>"
    using step by (simp add: e'_def driver_deliver_def)
  have cl: "closing_messages ops ro finals e2 q ids = closing_messages ops ro finals e1 q ids"
    unfolding closing_messages_def s ..
  show ?thesis
    using d unfolding e' ids(2) cl by (simp add: s uf)
qed

lemma engine_ok_cong:
  assumes "engine_ok ops inv fins e" "scheduler_state e' = scheduler_state e" "pc e' = pc e"
  shows "engine_ok ops inv fins e'"
  using assms(1) unfolding engine_ok_def assms(2,3) .

lemma engine_ok_add:
  assumes "engine_ok ops inv fins e" and a: "op_add_request ops rnd rq (scheduler_state e) = Some (s, Inr i)"
    and "scheduler_state e' = s" "pc e' = pc e"
  shows "engine_ok ops inv fins e'"
proof -
  have good: "inv (scheduler_state e)" using assms(1) by (simp add: engine_ok_def)
  note add = add_ok [OF good a]
  obtain st where st: "sts s = (sts (scheduler_state e))(i \<mapsto> st)" "status st = WAITING" using add by blast
  have live: "is_live (sts (scheduler_state e)) j \<Longrightarrow> is_live (sts s) j" for j
    using st by (auto simp: is_live_iff)
  have "inv s" "fins s = fins (scheduler_state e)" "wait s \<noteq> []" using add by simp_all
  then show ?thesis
    using assms(1,3,4) live has_requests [of s] unfolding engine_ok_def by (cases "pc e") auto
qed

text \<open>Once the driver calls \<open>schedule\<close> there is a batch: the empty-output branch is never taken.\<close>

lemma driver_schedule_eq:
  fixes e :: "'s engine"
  assumes "engine_ok ops inv fins e" and "pc e = Prepared had"
  shows "(\<not> op_has_requests ops (scheduler_state e) \<and> driver_schedule ops had order e = e\<lparr>pc := Looping\<rparr>)
    \<or> (\<exists>s out. op_schedule ops (scheduler_state e) = (s, out) \<and> \<not> is_empty out
         \<and> driver_schedule ops had order e = e\<lparr>scheduler_state := s, pc := Executing out\<rparr>)"
proof (cases "op_has_requests ops (scheduler_state e)")
  case False
  then show ?thesis using assms by (auto simp: driver_schedule_def engine_ok_def)
next
  case True
  obtain s out where eq: "op_schedule ops (scheduler_state e) = (s, out)" by (rule prod.exhaust)
  have good: "inv (scheduler_state e)" using assms(1) by (simp add: engine_ok_def)
  have "\<not> is_empty out" using schedule_ok [OF good eq] True has_requests [OF good] by blast
  then show ?thesis using True eq by (simp add: driver_schedule_def)
qed

lemma engine_ok_schedule:
  fixes e :: "'s engine"
  assumes "engine_ok ops inv fins e" and "pc e = Prepared had"
  shows "engine_ok ops inv fins (driver_schedule ops had order e)"
proof -
  have good: "inv (scheduler_state e)" using assms(1) by (simp add: engine_ok_def)
  from driver_schedule_eq [OF assms, of order] show ?thesis
  proof (elim disjE exE conjE)
    assume "driver_schedule ops had order e = e\<lparr>pc := Looping\<rparr>"
    then show ?thesis using good by (simp add: engine_ok_def)
  next
    fix s out assume eq: "op_schedule ops (scheduler_state e) = (s, out)"
      and d: "driver_schedule ops had order e = e\<lparr>scheduler_state := s, pc := Executing out\<rparr>"
    note sch = schedule_ok [OF good eq]
    have run: "mset (scheduled_req_ids out) = mset (run s)" and gs: "inv s" using sch by simp_all
    have "distinct (run s)" using queues [OF gs] by simp
    then have "distinct (scheduled_req_ids out)" using run by (metis mset_eq_imp_distinct_iff)
    moreover have "set (scheduled_req_ids out) = set (run s)" using run by (metis set_mset_mset)
    moreover have "\<forall>i \<in> set (run s). is_live (sts s) i" using live_queued [OF gs] by blast
    ultimately show ?thesis using gs sch d by (simp add: engine_ok_def)
  qed
qed

lemma engine_step_ok:
  assumes "engine_step ops e e'" and "engine_ok ops inv fins e"
  shows "engine_ok ops inv fins e'"
  using assms(1)
proof cases
  case (wait_add rnd rq i n)
  then obtain s where a: "op_add_request ops rnd rq (scheduler_state e) = Some (s, Inr i)"
    and e': "scheduler_state e' = s" "pc e' = pc e"
    by (auto simp: add_waiter_def split: option.splits sum.splits)
  show ?thesis using engine_ok_add [OF assms(2) a e'] .
next
  case (wait_end i n)
  then show ?thesis by (intro engine_ok_cong [OF assms(2)]) (simp_all add: collect_def)
next
  case (stream_add rnd rq i n)
  then obtain s where a: "op_add_request ops rnd rq (scheduler_state e) = Some (s, Inr i)"
    and e': "scheduler_state e' = s" "pc e' = pc e"
    by (auto simp: add_stream_def split: option.splits sum.splits)
  show ?thesis using engine_ok_add [OF assms(2) a e'] .
next
  case (stream_end i)
  then show ?thesis by (intro engine_ok_cong [OF assms(2)]) (simp_all add: close_stream_def)
next
  case (abort rids)
  then show ?thesis by (intro engine_ok_cong [OF assms(2)]) (simp_all add: Diffusion_Driver.abort_def)
next
  case prepare
  then show ?thesis
    using assms(2) process_aborts_ok(1) by (simp add: engine_ok_def driver_prepare_def Let_def)
next
  case (schedule had order)
  show ?thesis using engine_ok_schedule [OF assms(2) schedule(2)] schedule(1) by simp
next
  case (finish out r ro e1 fin ids)
  obtain e2 finals where
    "driver_dispatch_step_outputs ro (skip_stream_ids ops (scheduler_state e1) ids) e1 = (e2, finals)"
    by (rule prod.exhaust)
  from driver_deliver_ok [OF assms(2) finish(2) finish(4-6) this] finish(1)
  show ?thesis by (simp add: engine_ok_def)
next
  case (dead out)
  then show ?thesis using assms(2) by (simp add: engine_ok_def)
qed

end

section \<open>Callers nobody will wake\<close>

text \<open>
  The caller waiting on reference \<open>n\<close> for request \<open>i\<close>: its event is unset and is no one
  else's, the request is finished, and it is not part of the batch in execution.
\<close>

definition stuck :: "'s sched_ops \<Rightarrow> string \<Rightarrow> nat \<Rightarrow> 's engine \<Rightarrow> bool" where
  "stuck ops i n e \<longleftrightarrow>
     (i, n) \<in> set (blocked e) \<and> \<not> event_set e n \<and> n < next_ref e
     \<and> (\<forall>j. map_of (req_events e) j = Some n \<longrightarrow> j = i)
     \<and> (\<exists>st. op_get_request_state ops (scheduler_state e) i = Some st \<and> is_finished (status st))
     \<and> (\<forall>out. pc e = Executing out \<longrightarrow> i \<notin> set (scheduled_req_ids out))"

context scheduler
begin

lemma stuck_add:
  assumes "stuck ops i n e" and good: "inv (scheduler_state e)"
    and a: "op_add_request ops rnd rq (scheduler_state e) = Some (s, Inr j)"
    and "scheduler_state e' = s" "pc e' = pc e" "next_ref e' = next_ref e + 1"
    and "set (blocked e) \<subseteq> set (blocked e')" "\<And>m. m < next_ref e \<Longrightarrow> event_set e' m = event_set e m"
    and "req_events e' = req_events e \<or> req_events e' = dict_set j (next_ref e) (req_events e)"
  shows "stuck ops i n e'"
proof -
  note add = add_ok [OF good a]
  have n: "n < next_ref e" and i: "\<exists>st. sts (scheduler_state e) i = Some st \<and> is_finished (status st)"
    using assms(1) by (simp_all add: stuck_def)
  then have "j \<noteq> i" using add by auto
  then have "sts s i = sts (scheduler_state e) i" using add by auto
  moreover have "k = i" if "map_of (req_events e') k = Some n" for k
    using that assms(9) n assms(1) by (auto simp: stuck_def map_of_dict_set split: if_splits)
  ultimately show ?thesis
    using assms(1,4-8) n i unfolding stuck_def by auto
qed

lemma stuck_step:
  assumes "engine_step ops e e'" and ok: "engine_ok ops inv fins e" and st: "stuck ops i n e"
    and "pc e' \<noteq> Stopped"
  shows "stuck ops i n e'"
  using assms(1)
proof cases
  case (wait_add rnd rq j m)
  then obtain s where a: "op_add_request ops rnd rq (scheduler_state e) = Some (s, Inr j)"
    and e': "e' = e\<lparr>scheduler_state := s, req_events := dict_set j (next_ref e) (req_events e),
                  event_set := (event_set e)(next_ref e := False), next_ref := next_ref e + 1,
                  blocked := (j, next_ref e) # blocked e\<rparr>"
    by (auto simp: add_waiter_def split: option.splits sum.splits)
  have "inv (scheduler_state e)" using ok by (simp add: engine_ok_def)
  then show ?thesis by (rule stuck_add [OF st _ a]) (auto simp: e')
next
  case (wait_end j m)
  then have "m \<noteq> n" using st by (auto simp: stuck_def)
  then show ?thesis
    using st wait_end(1) by (auto simp: stuck_def collect_def map_of_dict_pop in_set_remove1)
next
  case (stream_add rnd rq j m)
  then obtain s where a: "op_add_request ops rnd rq (scheduler_state e) = Some (s, Inr j)"
    and e': "e' = e\<lparr>scheduler_state := s, stream_queues := dict_set j (next_ref e) (stream_queues e),
                  messages := (messages e)(next_ref e := []), next_ref := next_ref e + 1\<rparr>"
    by (auto simp: add_stream_def split: option.splits sum.splits)
  have "inv (scheduler_state e)" using ok by (simp add: engine_ok_def)
  then show ?thesis by (rule stuck_add [OF st _ a]) (auto simp: e')
next
  case (stream_end j)
  then show ?thesis using st by (simp add: stuck_def close_stream_def)
next
  case (abort rids)
  then show ?thesis using st by (simp add: stuck_def Diffusion_Driver.abort_def)
next
  case prepare
  have good: "inv (scheduler_state e)" using ok by (simp add: engine_ok_def)
  from st have "\<not> is_live (sts (scheduler_state e)) i" by (auto simp: stuck_def is_live_iff)
  then have "sts (scheduler_state (process_aborts_queue ops e)) i = sts (scheduler_state e) i"
    using process_aborts_ok(5) [OF good] by blast
  then show ?thesis using st prepare(1) by (simp add: stuck_def driver_prepare_def Let_def)
next
  case (schedule had order)
  have good: "inv (scheduler_state e)" using ok by (simp add: engine_ok_def)
  have dead: "\<not> is_live (sts (scheduler_state e)) i" using st by (auto simp: stuck_def is_live_iff)
  from driver_schedule_eq [OF ok schedule(2), of order] show ?thesis
  proof (elim disjE exE conjE)
    assume "driver_schedule ops had order e = e\<lparr>pc := Looping\<rparr>"
    then show ?thesis using st schedule(1) by (simp add: stuck_def)
  next
    fix s out assume eq: "op_schedule ops (scheduler_state e) = (s, out)"
      and d: "driver_schedule ops had order e = e\<lparr>scheduler_state := s, pc := Executing out\<rparr>"
    note sch = schedule_ok [OF good eq]
    have same: "sts s i = sts (scheduler_state e) i" using sch dead by blast
    have gs: "inv s" using sch by blast
    have "i \<notin> set (run s)" using live_queued [OF gs, of i] dead same by (auto simp: is_live_iff)
    moreover have "set (scheduled_req_ids out) = set (run s)" using sch by (metis set_mset_mset)
    ultimately show ?thesis using st same schedule(1) d by (simp add: stuck_def)
  qed
next
  case (finish out r ro e1 fin ids)
  obtain e2 finals where step:
    "driver_dispatch_step_outputs ro (skip_stream_ids ops (scheduler_state e1) ids) e1 = (e2, finals)"
    by (rule prod.exhaust)
  note u = driver_update_ok [OF ok finish(2) finish(4)]
  note d = driver_deliver_ok [OF ok finish(2) finish(4-6) step, of i n]
  have out: "i \<notin> set (scheduled_req_ids out)" using st finish(2) by (simp add: stuck_def)
  have "\<not> is_live (sts (scheduler_state e)) i" using st by (auto simp: stuck_def is_live_iff)
  then have s1: "sts (scheduler_state e1) i = sts (scheduler_state e) i" using u(4) by blast
  have i: "i \<notin> fin" using u(2) out by blast
  have "\<not> event_set e' n"
  proof
    assume "event_set e' n"
    then have "\<exists>j \<in> fin. map_of (req_events e) j = Some n"
      using d st finish(1) by (auto simp: stuck_def)
    then show False using st i by (auto simp: stuck_def)
  qed
  moreover have "sts (scheduler_state e') i = sts (scheduler_state e) i" "pc e' = Looping"
    "req_events e' = req_events e" "blocked e' = blocked e" "next_ref e' = next_ref e"
    using d i s1 finish(1) by simp_all
  ultimately show ?thesis using st by (simp add: stuck_def)
next
  case (dead out)
  then show ?thesis using assms(4) by simp
qed

text \<open>An abort processed at the top of the loop leaves its caller stuck.\<close>

lemma abort_at_loop_top_sticks:
  fixes e :: "'s engine"
  assumes ok: "engine_ok ops inv fins e" and pc: "pc e = Looping"
    and caller: "(i, n) \<in> set (blocked e)" "\<not> event_set e n" "n < next_ref e"
      "\<forall>j. map_of (req_events e) j = Some n \<longrightarrow> j = i"
    and live: "is_live (sts (scheduler_state e)) i" and ab: "i \<in> aborted_ids ops e"
  shows "stuck ops i n (driver_prepare ops e)"
proof -
  have good: "inv (scheduler_state e)" using ok by (simp add: engine_ok_def)
  note pa = process_aborts_ok [OF good]
  from pa(6) [OF live ab] obtain st where
    "sts (scheduler_state (process_aborts_queue ops e)) i = Some st" "status st = FINISHED_ABORTED"
    by auto
  then show ?thesis using caller by (simp add: stuck_def driver_prepare_def Let_def)
qed

text \<open>The driver goes on for ever, short of the engine dying.\<close>

lemma stuck_forever:
  assumes "(\<lambda>a b. engine_step ops a b \<and> pc b \<noteq> Stopped)\<^sup>*\<^sup>* e e'"
    and "engine_ok ops inv fins e" "stuck ops i n e"
  shows "stuck ops i n e' \<and> engine_ok ops inv fins e'"
  using assms by (induction rule: rtranclp_induct) (auto intro: stuck_step engine_step_ok)

end

section \<open>References\<close>

text \<open>Every caller and every stream has an event or a queue of its own.\<close>

definition refs_ok :: "'s engine \<Rightarrow> bool" where
  "refs_ok e \<longleftrightarrow>
     (\<forall>j m. map_of (req_events e) j = Some m \<longrightarrow> m < next_ref e)
     \<and> (\<forall>j m. map_of (stream_queues e) j = Some m \<longrightarrow> m < next_ref e)
     \<and> (\<forall>j k m. map_of (stream_queues e) j = Some m \<longrightarrow> map_of (stream_queues e) k = Some m \<longrightarrow> j = k)
     \<and> (\<forall>i n. (i, n) \<in> set (blocked e) \<longrightarrow> n < next_ref e
          \<and> (\<forall>j. map_of (req_events e) j = Some n \<longrightarrow> j = i))"

lemma refs_ok_mono:
  assumes r: "refs_ok e" and nr: "next_ref e' = next_ref e"
    and bl: "\<And>i n. (i, n) \<in> set (blocked e') \<Longrightarrow> (i, n) \<in> set (blocked e)"
    and ev: "\<And>j m. map_of (req_events e') j = Some m \<Longrightarrow> map_of (req_events e) j = Some m"
    and sq: "\<And>j m. map_of (stream_queues e') j = Some m \<Longrightarrow> map_of (stream_queues e) j = Some m"
  shows "refs_ok e'"
proof -
  have 1: "\<forall>j m. map_of (req_events e') j = Some m \<longrightarrow> m < next_ref e'"
    using r ev unfolding refs_ok_def nr by blast
  have 2: "\<forall>j m. map_of (stream_queues e') j = Some m \<longrightarrow> m < next_ref e'"
    using r sq unfolding refs_ok_def nr by blast
  have 3: "\<forall>j k m. map_of (stream_queues e') j = Some m \<longrightarrow> map_of (stream_queues e') k = Some m \<longrightarrow> j = k"
    using r sq unfolding refs_ok_def by blast
  have 4: "\<forall>i n. (i, n) \<in> set (blocked e') \<longrightarrow> n < next_ref e'
          \<and> (\<forall>j. map_of (req_events e') j = Some n \<longrightarrow> j = i)"
    using r bl ev unfolding refs_ok_def nr by blast
  show ?thesis unfolding refs_ok_def using 1 2 3 4 by blast
qed

lemma refs_ok_cong:
  assumes "refs_ok e" "req_events e' = req_events e" "next_ref e' = next_ref e" "blocked e' = blocked e"
    "\<And>j m. map_of (stream_queues e') j = Some m \<Longrightarrow> map_of (stream_queues e) j = Some m"
  shows "refs_ok e'"
  by (rule refs_ok_mono [OF assms(1)]) (use assms(2-5) in auto)

lemma refs_ok_init [simp]: "refs_ok (engine_init s)"
  by (simp add: refs_ok_def engine_init_def)

lemma refs_ok_dead: "refs_ok e \<Longrightarrow> refs_ok (driver_dead e)"
proof -
  have a: "req_events (foldl (\<lambda>e (i, n).
      (if pending_results e i = None
       then e\<lparr>pending_results := (pending_results e)(i \<mapsto> engine_died)\<rparr> else e)
      \<lparr>event_set := (event_set e)(n := True)\<rparr>) e xs) = req_events e
    \<and> next_ref (foldl (\<lambda>e (i, n).
      (if pending_results e i = None
       then e\<lparr>pending_results := (pending_results e)(i \<mapsto> engine_died)\<rparr> else e)
      \<lparr>event_set := (event_set e)(n := True)\<rparr>) e xs) = next_ref e
    \<and> blocked (foldl (\<lambda>e (i, n).
      (if pending_results e i = None
       then e\<lparr>pending_results := (pending_results e)(i \<mapsto> engine_died)\<rparr> else e)
      \<lparr>event_set := (event_set e)(n := True)\<rparr>) e xs) = blocked e" for e :: "'a engine" and xs
    by (induction xs arbitrary: e) auto
  have b: "req_events (foldl (\<lambda>e (i, q). put q engine_died True e) e xs) = req_events e
    \<and> next_ref (foldl (\<lambda>e (i, q). put q engine_died True e) e xs) = next_ref e
    \<and> blocked (foldl (\<lambda>e (i, q). put q engine_died True e) e xs) = blocked e"
    for e :: "'a engine" and xs
    by (induction xs arbitrary: e) auto
  assume "refs_ok e"
  then show ?thesis
    by (rule refs_ok_cong) (simp_all add: driver_dead_def driver_signal_engine_dead_def Let_def a b)
qed

context scheduler
begin

lemma refs_ok_step:
  assumes "engine_step ops e e'" and ok: "engine_ok ops inv fins e" and r: "refs_ok e"
  shows "refs_ok e'"
  using assms(1)
proof cases
  case (wait_add rnd rq j m)
  then obtain s where e': "e' = e\<lparr>scheduler_state := s, req_events := dict_set j (next_ref e) (req_events e),
                  event_set := (event_set e)(next_ref e := False), next_ref := next_ref e + 1,
                  blocked := (j, next_ref e) # blocked e\<rparr>"
    by (auto simp: add_waiter_def split: option.splits sum.splits)
  show ?thesis using r unfolding refs_ok_def e'
    by (auto simp: map_of_dict_set less_Suc_eq split: if_splits)
next
  case (wait_end j m)
  have e': "e' = fst (collect j m e)" using wait_end(1) .
  show ?thesis
    by (rule refs_ok_mono [OF r])
      (auto simp: e' collect_def map_of_dict_pop split: if_splits dest: subsetD [OF set_remove1_subset])
next
  case (stream_add rnd rq j m)
  then obtain s where e': "e' = e\<lparr>scheduler_state := s, stream_queues := dict_set j (next_ref e) (stream_queues e),
                  messages := (messages e)(next_ref e := []), next_ref := next_ref e + 1\<rparr>"
    by (auto simp: add_stream_def split: option.splits sum.splits)
  show ?thesis using r unfolding refs_ok_def e'
    by (auto simp: map_of_dict_set less_Suc_eq split: if_splits)
next
  case (stream_end j)
  then show ?thesis by (intro refs_ok_cong [OF r]) (auto simp: close_stream_def map_of_dict_pop split: if_splits)
next
  case (abort rids)
  then show ?thesis by (intro refs_ok_cong [OF r]) (auto simp: Diffusion_Driver.abort_def)
next
  case prepare
  then show ?thesis by (intro refs_ok_cong [OF r]) (auto simp: driver_prepare_def Let_def)
next
  case (schedule had order)
  from driver_schedule_eq [OF ok schedule(2), of order] schedule(1)
  show ?thesis by (intro refs_ok_cong [OF r]) auto
next
  case (finish out rr ro e1 fin ids)
  obtain e2 finals where step:
    "driver_dispatch_step_outputs ro (skip_stream_ids ops (scheduler_state e1) ids) e1 = (e2, finals)"
    by (rule prod.exhaust)
  note d = driver_deliver_ok [OF ok finish(2) finish(4-6) step]
  show ?thesis
    using d finish(1) by (intro refs_ok_cong [OF r]) (auto split: if_splits)
next
  case (dead out)
  then show ?thesis using refs_ok_dead r by blast
qed

lemma engine_run_ok:
  assumes "(engine_step ops)\<^sup>*\<^sup>* (engine_init s) e" and "inv s"
  shows "engine_ok ops inv fins e \<and> refs_ok e"
  using assms(1)
proof (induction rule: rtranclp_induct)
  case base
  then show ?case using assms(2) by (simp add: engine_ok_def) (simp add: engine_init_def)
next
  case (step e e')
  then show ?case using engine_step_ok refs_ok_step by blast
qed

end

section \<open>Stream messages of a step\<close>

lemma dispatch_items_messages:
  assumes "distinct (map fst xs)"
    and "\<forall>j. map_of (stream_queues e) j = Some q \<longrightarrow> j = i" and "map_of (stream_queues e) i = Some q"
  shows "messages (fst (dispatch_items fin skip xs e finals)) q =
       messages e q @ (case map_of xs i of
          Some r \<Rightarrow> if i \<in> skip then [] else [(r, fin i)] | None \<Rightarrow> [])
    \<and> (i \<in> snd (dispatch_items fin skip xs e finals) \<longleftrightarrow>
         i \<in> finals \<or> (map_of xs i \<noteq> None \<and> i \<notin> skip \<and> fin i))"
  using assms
proof (induction xs arbitrary: e finals)
  case Nil
  show ?case by simp
next
  case (Cons x xs)
  obtain j r where x: "x = (j, r)" by (rule prod.exhaust)
  have d: "distinct (map fst xs)" using Cons.prems(1) by simp
  note IH = Cons.IH [OF d]
  have prem: "\<forall>j. map_of (stream_queues (put p t b e)) j = Some q \<longrightarrow> j = i"
    "map_of (stream_queues (put p t b e)) i = Some q" for p t b
    unfolding put_simps by (fact Cons.prems(2,3))+
  show ?case
  proof (cases "j = i \<and> i \<notin> skip")
    case True
    then have none: "map_of xs i = None" using Cons.prems(1) x by (simp add: map_of_eq_None_iff)
    have eq: "dispatch_items fin skip (x # xs) e finals =
        dispatch_items fin skip xs (put q r (fin i) e) (if fin i then insert i finals else finals)"
      using True x Cons.prems(3) by simp
    show ?thesis
      unfolding eq using IH [OF prem(1,2) [of q r "fin i"], of "if fin i then insert i finals else finals"]
        none True x by simp
  next
    case False
    then have i: "j = i \<Longrightarrow> i \<in> skip" by blast
    show ?thesis
    proof (cases "j \<in> skip \<or> map_of (stream_queues e) j = None")
      case True
      then have eq: "dispatch_items fin skip (x # xs) e finals = dispatch_items fin skip xs e finals"
        using x by auto
      show ?thesis unfolding eq using IH [OF Cons.prems(2,3), of finals] i x True Cons.prems(3)
        by (cases "j = i") (auto split: option.split)
    next
      case no: False
      then obtain q' where q': "map_of (stream_queues e) j = Some q'" "j \<notin> skip" by auto
      then have "j \<noteq> i" using i by blast
      then have "q' \<noteq> q" using q'(1) Cons.prems(2) by blast
      have eq: "dispatch_items fin skip (x # xs) e finals =
          dispatch_items fin skip xs (put q' r (fin j) e) (if fin j then insert j finals else finals)"
        using q' x by simp
      show ?thesis
        unfolding eq using IH [OF prem(1,2) [of q' r "fin j"], of "if fin j then insert j finals else finals"]
          \<open>j \<noteq> i\<close> \<open>q' \<noteq> q\<close> x by simp
    qed
  qed
qed

lemma dispatch_items_messages_ex:
  assumes "dispatch_items (finished_flag ro) skip xs e {} = (e', finals)" and "distinct (map fst xs)"
    and "\<forall>j. map_of (stream_queues e) j = Some q \<longrightarrow> j = i" and "map_of (stream_queues e) i = Some q"
  shows "\<exists>ms. messages e' q = messages e q @ ms
    \<and> (ms = [] \<and> i \<notin> finals
       \<or> (\<exists>r. ms = [(r, finished_flag ro i)]) \<and> i \<notin> skip \<and> (i \<in> finals \<longleftrightarrow> finished_flag ro i))"
proof -
  note m = dispatch_items_messages [OF assms(2-4), of "finished_flag ro" skip "{}", unfolded assms(1) fst_conv snd_conv]
  show ?thesis
  proof (cases "map_of xs i")
    case None
    with m show ?thesis by simp
  next
    case (Some r)
    with m show ?thesis by (cases "i \<in> skip") simp_all
  qed
qed

lemma dispatch_step_messages:
  assumes "driver_dispatch_step_outputs ro skip e = (e', finals)"
    and "distinct (map fst (or_empty (per_request_results ro)))"
    and "\<forall>j. map_of (stream_queues e) j = Some q \<longrightarrow> j = i" and "map_of (stream_queues e) i = Some q"
  shows "\<exists>ms. messages e' q = messages e q @ ms
    \<and> (ms = [] \<and> i \<notin> finals
       \<or> (\<exists>r. ms = [(r, finished_flag ro i)]) \<and> i \<notin> skip \<and> (i \<in> finals \<longleftrightarrow> finished_flag ro i))"
proof (cases "per_request_results ro = None \<and> ro_result ro = None")
  case True
  with assms(1) show ?thesis by (auto simp: driver_dispatch_step_outputs_def)
next
  case False
  have "\<exists>xs. dispatch_items (finished_flag ro) skip xs e {} = (e', finals) \<and> distinct (map fst xs)"
  proof (cases "per_request_results ro")
    case None
    with False obtain r where "ro_result ro = Some r" by auto
    with None assms(1) show ?thesis
      by (intro exI [of _ "[(ro_req_id ro, r)]"]) (simp add: driver_dispatch_step_outputs_def)
  next
    case (Some xs)
    with assms(1,2) show ?thesis by (auto simp: driver_dispatch_step_outputs_def)
  qed
  then obtain xs where "dispatch_items (finished_flag ro) skip xs e {} = (e', finals)"
    "distinct (map fst xs)" by blast
  then show ?thesis by (rule dispatch_items_messages_ex [OF _ _ assms(3,4)])
qed

end
