(* ===== verification/Diffusion_Lifetimes.thy ===== *)
theory Diffusion_Lifetimes
  imports Diffusion_Delivery Sched_Properties
begin

text \<open>
  The life of a caller and of a stream of the engine, from its registration to its answer: invariants
  over the runs of the engine's threads. A caller is followed as long as nobody else uses its id, a
  stream as long as the executor answers for the batch it was given.
\<close>

section \<open>Callers\<close>

text \<open>No one else uses the id of a caller that has not returned yet.\<close>

definition lone_ids :: "'s engine \<Rightarrow> bool" where
  "lone_ids e \<longleftrightarrow> distinct (map fst (blocked e)) \<and> (\<forall>i \<in> fst ` set (blocked e). map_of (stream_queues e) i = None)"

text \<open>Every caller is woken by its own event, and has its answer or a request in the scheduler.\<close>

definition callers_ok :: "'s sched_ops \<Rightarrow> 's engine \<Rightarrow> bool" where
  "callers_ok ops e \<longleftrightarrow> (\<forall>i n. (i, n) \<in> set (blocked e) \<longrightarrow> map_of (req_events e) i = Some n
     \<and> (if event_set e n then pending_results e i \<noteq> None else op_get_request_state ops (scheduler_state e) i \<noteq> None))"

lemma callers_okD:
  assumes "callers_ok ops e" and "(i, n) \<in> set (blocked e)"
  shows "map_of (req_events e) i = Some n" and "event_set e n \<Longrightarrow> pending_results e i \<noteq> None"
    and "\<not> event_set e n \<Longrightarrow> op_get_request_state ops (scheduler_state e) i \<noteq> None"
  using assms unfolding callers_ok_def by (simp_all split: if_splits)

lemma callers_ok_cong:
  assumes "callers_ok ops e" and "blocked e' = blocked e" "req_events e' = req_events e" "event_set e' = event_set e"
    and "pending_results e' = pending_results e"
    and "dom (op_get_request_state ops (scheduler_state e)) \<subseteq> dom (op_get_request_state ops (scheduler_state e'))"
  shows "callers_ok ops e'"
proof -
  have d: "op_get_request_state ops (scheduler_state e) i \<noteq> None \<Longrightarrow> op_get_request_state ops (scheduler_state e') i \<noteq> None" for i
    using assms(6) by blast
  show ?thesis
    unfolding callers_ok_def assms(2-5) using assms(1) d unfolding callers_ok_def by (simp split: if_splits) blast
qed

lemma dead_events:
  "event_set (driver_dead e) m \<longleftrightarrow> event_set e m \<or> m \<in> snd ` set (req_events e)"
  "pending_results (driver_dead e) i \<noteq> None \<longleftrightarrow> pending_results e i \<noteq> None \<or> i \<in> fst ` set (req_events e)"
  "req_events (driver_dead e) = req_events e" "blocked (driver_dead e) = blocked e"
proof -
  define f where "f = (\<lambda>(e :: 'a engine) (i, n). (if pending_results e i = None
       then e\<lparr>pending_results := (pending_results e)(i \<mapsto> engine_died)\<rparr> else e)\<lparr>event_set := (event_set e)(n := True)\<rparr>)"
  have f: "event_set (f e x) = (event_set e)(snd x := True)" "req_events (f e x) = req_events e" "blocked (f e x) = blocked e"
    "pending_results (f e x) i \<noteq> None \<longleftrightarrow> pending_results e i \<noteq> None \<or> i = fst x" for e x
    by (cases x; auto simp: f_def)+
  have a: "(event_set (foldl f e xs) m \<longleftrightarrow> event_set e m \<or> m \<in> snd ` set xs)
    \<and> (pending_results (foldl f e xs) i \<noteq> None \<longleftrightarrow> pending_results e i \<noteq> None \<or> i \<in> fst ` set xs)
    \<and> req_events (foldl f e xs) = req_events e \<and> blocked (foldl f e xs) = blocked e" for e xs
  proof (induction xs arbitrary: e)
    case (Cons x xs)
    have "foldl f e (x # xs) = foldl f (f e x) xs" by simp
    with Cons.IH [of "f e x"] show ?case by (simp only: f) auto
  qed simp
  have b: "event_set (foldl (\<lambda>e (i, q). put q engine_died True e) e xs) = event_set e
    \<and> pending_results (foldl (\<lambda>e (i, q). put q engine_died True e) e xs) = pending_results e
    \<and> req_events (foldl (\<lambda>e (i, q). put q engine_died True e) e xs) = req_events e
    \<and> blocked (foldl (\<lambda>e (i, q). put q engine_died True e) e xs) = blocked e"
    for e :: "'a engine" and xs
    by (induction xs arbitrary: e) (auto simp: put_def)
  define e1 where "e1 = foldl f (e\<lparr>driver_running := False\<rparr>) (req_events e)"
  have dd: "driver_dead e = (foldl (\<lambda>e (i, q). put q engine_died True e) e1 (stream_queues e1))\<lparr>stream_queues := [], pc := Stopped\<rparr>"
    by (simp add: driver_dead_def driver_signal_engine_dead_def Let_def e1_def f_def)
  show "event_set (driver_dead e) m \<longleftrightarrow> event_set e m \<or> m \<in> snd ` set (req_events e)"
    "pending_results (driver_dead e) i \<noteq> None \<longleftrightarrow> pending_results e i \<noteq> None \<or> i \<in> fst ` set (req_events e)"
    "req_events (driver_dead e) = req_events e" "blocked (driver_dead e) = blocked e"
    using a [of "e\<lparr>driver_running := False\<rparr>" "req_events e"] by (simp_all add: dd b e1_def)
qed

context scheduler
begin

lemma process_aborts_dom:
  fixes e :: "'s engine"
  shows "engine_ok ops inv fins e \<Longrightarrow> dom (sts (scheduler_state (process_aborts_queue ops e))) = dom (sts (scheduler_state e))"
  using process_aborts_ok(2) by (simp add: engine_ok_def)

lemma driver_schedule_dom:
  fixes e :: "'s engine"
  assumes ok: "engine_ok ops inv fins e" and "pc e = Prepared had"
  shows "dom (sts (scheduler_state (driver_schedule ops had order e))) = dom (sts (scheduler_state e))"
proof -
  have good: "inv (scheduler_state e)" using ok by (simp add: engine_ok_def)
  from driver_schedule_eq [OF assms, of order] show ?thesis
  proof (elim disjE exE conjE)
    fix s out assume "op_schedule ops (scheduler_state e) = (s, out)"
      and "driver_schedule ops had order e = e\<lparr>scheduler_state := s, pc := Executing out\<rparr>"
    with schedule_ok [OF good] show ?thesis by simp
  qed simp
qed

lemma callers_step:
  fixes e :: "'s engine"
  assumes "engine_step ops e e'" and ok: "engine_ok ops inv fins e" and r: "refs_ok e"
    and c: "callers_ok ops e" and "lone_ids e" and "lone_ids e'"
  shows "callers_ok ops e'"
  using assms(1)
proof cases
  case (wait_add rnd rq j m)
  then obtain s where a: "op_add_request ops rnd rq (scheduler_state e) = Some (s, Inr j)"
    and e': "e' = e\<lparr>scheduler_state := s, req_events := dict_set j (next_ref e) (req_events e),
                  event_set := (event_set e)(next_ref e := False), next_ref := next_ref e + 1,
                  blocked := (j, next_ref e) # blocked e\<rparr>"
    by (auto simp: add_waiter_def split: option.splits sum.splits)
  have "inv (scheduler_state e)" using ok by (simp add: engine_ok_def)
  from add_ok [OF this a] obtain st where st: "sts s = (sts (scheduler_state e))(j \<mapsto> st)" by blast
  have old: "i \<noteq> j \<and> n \<noteq> next_ref e" if "(i, n) \<in> set (blocked e)" for i n
  proof
    have "j \<notin> fst ` set (blocked e)" using assms(6) by (simp add: lone_ids_def e')
    with that show "i \<noteq> j" by force
    have "n < next_ref e" using r that by (simp add: refs_ok_def)
    then show "n \<noteq> next_ref e" by simp
  qed
  show ?thesis
    unfolding callers_ok_def
  proof (intro allI impI)
    fix i n assume "(i, n) \<in> set (blocked e')"
    then consider "i = j" "n = next_ref e" | "(i, n) \<in> set (blocked e)" by (auto simp: e')
    then show "map_of (req_events e') i = Some n
        \<and> (if event_set e' n then pending_results e' i \<noteq> None else sts (scheduler_state e') i \<noteq> None)"
    proof cases
      case 1
      then show ?thesis by (simp add: e' st map_of_dict_set)
    next
      case 2
      with old callers_okD [OF c 2] show ?thesis by (simp add: e' st map_of_dict_set)
    qed
  qed
next
  case (wait_end j m)
  have d: "distinct (map fst (blocked e))" using assms(5) by (simp add: lone_ids_def)
  have other: "i \<noteq> j \<and> (i, n) \<in> set (blocked e)" if "(i, n) \<in> set (remove1 (j, m) (blocked e))" for i n
  proof -
    have "distinct (blocked e)" using d by (simp add: distinct_map)
    with that have "(i, n) \<in> set (blocked e)" "(i, n) \<noteq> (j, m)" by (simp_all add: set_remove1_eq)
    with wait_end(2) d show ?thesis by (metis eq_key_imp_eq_value)
  qed
  show ?thesis
    unfolding callers_ok_def
  proof (intro allI impI)
    fix i n assume "(i, n) \<in> set (blocked e')"
    then have "(i, n) \<in> set (remove1 (j, m) (blocked e))" by (simp add: wait_end(1) collect_def)
    from other [OF this] have "i \<noteq> j" and b: "(i, n) \<in> set (blocked e)" by blast+
    with callers_okD [OF c b] show "map_of (req_events e') i = Some n
        \<and> (if event_set e' n then pending_results e' i \<noteq> None else sts (scheduler_state e') i \<noteq> None)"
      by (simp add: wait_end(1) collect_def map_of_dict_pop)
  qed
next
  case (stream_add rnd rq j m)
  then obtain s where a: "op_add_request ops rnd rq (scheduler_state e) = Some (s, Inr j)"
    and e': "e' = e\<lparr>scheduler_state := s, stream_queues := dict_set j (next_ref e) (stream_queues e),
                  messages := (messages e)(next_ref e := []), next_ref := next_ref e + 1\<rparr>"
    by (auto simp: add_stream_def split: option.splits sum.splits)
  have "inv (scheduler_state e)" using ok by (simp add: engine_ok_def)
  from add_ok [OF this a] have "dom (sts (scheduler_state e)) \<subseteq> dom (sts s)" by auto
  then show ?thesis by (intro callers_ok_cong [OF c]) (simp_all add: e')
next
  case (stream_end j)
  then show ?thesis by (intro callers_ok_cong [OF c]) (simp_all add: close_stream_def)
next
  case (abort rids)
  then show ?thesis by (intro callers_ok_cong [OF c]) (simp_all add: Diffusion_Driver.abort_def)
next
  case prepare
  then show ?thesis
    using process_aborts_dom [OF ok] by (intro callers_ok_cong [OF c]) (simp_all add: driver_prepare_def Let_def)
next
  case (schedule had order)
  have f: "blocked e' = blocked e \<and> req_events e' = req_events e \<and> event_set e' = event_set e \<and> pending_results e' = pending_results e"
    using driver_schedule_eq [OF ok schedule(2), of order] schedule(1) by auto
  show ?thesis
    using f driver_schedule_dom [OF ok schedule(2), of order] schedule(1) by (intro callers_ok_cong [OF c]) simp_all
next
  case (finish out rr ro e1 fin ids)
  obtain e2 finals where step:
    "driver_dispatch_step_outputs ro (skip_stream_ids ops (scheduler_state e1) ids) e1 = (e2, finals)"
    by (rule prod.exhaust)
  note d = driver_deliver_ok [OF ok finish(2) finish(4-6) step, folded finish(1)]
  have dom: "dom (sts (scheduler_state e1)) = dom (sts (scheduler_state e))" by (rule driver_update_ok(5) [OF ok finish(2) finish(4)])
  show ?thesis
    unfolding callers_ok_def
  proof (intro allI impI)
    fix i n assume "(i, n) \<in> set (blocked e')"
    then have b: "(i, n) \<in> set (blocked e)" using d by simp
    note ci = callers_okD [OF c b]
    have q: "map_of (stream_queues e) i = None" using assms(5) b by (force simp: lone_ids_def)
    have only: "k = i" if "map_of (req_events e) k = Some n" for k using r b that by (simp add: refs_ok_def)
    have ev: "event_set e' n \<longleftrightarrow> event_set e n \<or> i \<in> fin" using d [of i n] only q ci(1) by metis
    have pr: "pending_results e' i \<noteq> None" if "i \<in> fin \<or> pending_results e i \<noteq> None" using d [of i n] q that by auto
    have st: "sts (scheduler_state e') i \<noteq> None" if "i \<notin> fin" "sts (scheduler_state e) i \<noteq> None"
    proof -
      have "sts (scheduler_state e') i = sts (scheduler_state e1) i" using d [of i n] that(1) by simp
      moreover have "i \<in> dom (sts (scheduler_state e1))" unfolding dom using that(2) by blast
      ultimately show ?thesis by auto
    qed
    have "map_of (req_events e') i = Some n" using d ci(1) by simp
    then show "map_of (req_events e') i = Some n
        \<and> (if event_set e' n then pending_results e' i \<noteq> None else sts (scheduler_state e') i \<noteq> None)"
      using ev pr st ci(2,3) by auto
  qed
next
  case (dead out)
  show ?thesis
    unfolding callers_ok_def
  proof (intro allI impI)
    fix i n assume "(i, n) \<in> set (blocked e')"
    then have "map_of (req_events e) i = Some n" using callers_okD(1) [OF c] by (simp add: dead(1) dead_events)
    then show "map_of (req_events e') i = Some n
        \<and> (if event_set e' n then pending_results e' i \<noteq> None else sts (scheduler_state e') i \<noteq> None)"
      using dead_events(1) [of e n] dead_events(2) [of e i] map_of_SomeD [of "req_events e" i n]
      by (auto simp: dead(1) dead_events(3) image_iff intro: bexI [of _ "(i, n)"])
  qed
qed

lemma callers_run:
  assumes "(\<lambda>a b. engine_step ops a b \<and> lone_ids b)\<^sup>*\<^sup>* (engine_init s) e" and "inv s"
  shows "engine_ok ops inv fins e \<and> refs_ok e \<and> callers_ok ops e \<and> lone_ids e"
  using assms(1)
proof (induction rule: rtranclp_induct)
  case base
  have "engine_ok ops inv fins (engine_init s)" using assms(2) by (simp add: engine_ok_def) (simp add: engine_init_def)
  then show ?case by (simp add: callers_ok_def lone_ids_def) (simp add: engine_init_def)
next
  case (step e e')
  then show ?case using engine_step_ok refs_ok_step callers_step by blast
qed

text \<open>
  An id in use twice: when a caller returns it takes the event of the next caller with its id out of the
  table, and that caller is never woken, whatever happens to its request.
\<close>

lemma unregistered_step:
  fixes e :: "'s engine"
  assumes "engine_step ops e e'" and ok: "engine_ok ops inv fins e"
    and "pc e' \<noteq> Stopped"
    and m: "m < next_ref e" "\<forall>j. map_of (req_events e) j \<noteq> Some m" "\<not> event_set e m"
  shows "m < next_ref e' \<and> (\<forall>j. map_of (req_events e') j \<noteq> Some m) \<and> \<not> event_set e' m"
  using assms(1)
proof cases
  case (wait_add rnd rq j n)
  then obtain s where e': "e' = e\<lparr>scheduler_state := s, req_events := dict_set j (next_ref e) (req_events e),
                  event_set := (event_set e)(next_ref e := False), next_ref := next_ref e + 1,
                  blocked := (j, next_ref e) # blocked e\<rparr>"
    by (auto simp: add_waiter_def split: option.splits sum.splits)
  show ?thesis using m by (simp add: e' map_of_dict_set)
next
  case (wait_end j n)
  with m show ?thesis by (simp add: collect_def map_of_dict_pop)
next
  case (stream_add rnd rq j n)
  then obtain s where e': "e' = e\<lparr>scheduler_state := s, stream_queues := dict_set j (next_ref e) (stream_queues e),
                  messages := (messages e)(next_ref e := []), next_ref := next_ref e + 1\<rparr>"
    by (auto simp: add_stream_def split: option.splits sum.splits)
  show ?thesis using m by (simp add: e')
next
  case (stream_end j)
  with m show ?thesis by (simp add: close_stream_def)
next
  case (abort rids)
  with m show ?thesis by (simp add: Diffusion_Driver.abort_def)
next
  case prepare
  with m show ?thesis by (simp add: driver_prepare_def Let_def)
next
  case (schedule had order)
  have "next_ref e' = next_ref e \<and> req_events e' = req_events e \<and> event_set e' = event_set e"
    using driver_schedule_eq [OF ok schedule(2), of order] schedule(1) by auto
  with m show ?thesis by simp
next
  case (finish out rr ro e1 fin ids)
  obtain e2 finals where step:
    "driver_dispatch_step_outputs ro (skip_stream_ids ops (scheduler_state e1) ids) e1 = (e2, finals)"
    by (rule prod.exhaust)
  from driver_deliver_ok [OF ok finish(2) finish(4-6) step, folded finish(1), of _ m] m show ?thesis by auto
next
  case (dead out)
  with \<open>pc e' \<noteq> Stopped\<close> show ?thesis by simp
qed

lemma reused_id_is_never_woken:
  fixes e :: "'s engine"
  assumes "engine_ok ops inv fins e" and "refs_ok e" and "(i, n) \<in> set (blocked e)" and "event_set e n"
    and add: "add_waiter ops rnd rq e = Some (e1, Inr (i, m))"
    and "(\<lambda>a b. engine_step ops a b \<and> pc b \<noteq> Stopped)\<^sup>*\<^sup>* (fst (collect i n e1)) e2"
  shows "\<not> event_set e2 m"
proof -
  have 1: "engine_step ops e e1" using add by (rule engine_step.wait_add)
  obtain s where e1: "m = next_ref e" "e1 = e\<lparr>scheduler_state := s, req_events := dict_set i (next_ref e) (req_events e),
                  event_set := (event_set e)(next_ref e := False), next_ref := next_ref e + 1,
                  blocked := (i, next_ref e) # blocked e\<rparr>"
    using add by (auto simp: add_waiter_def split: option.splits sum.splits)
  have "n < next_ref e" and fresh: "\<And>j. map_of (req_events e) j \<noteq> Some (next_ref e)"
    using assms(2,3) unfolding refs_ok_def by blast+
  then have "(i, n) \<in> set (blocked e1) \<and> event_set e1 n" using assms(3,4) by (simp add: e1)
  then have "engine_step ops e1 (fst (collect i n e1))" by (intro engine_step.wait_end) blast+
  with 1 engine_step_ok [OF _ assms(1)] engine_step_ok have ok: "engine_ok ops inv fins (fst (collect i n e1))" by blast
  have "m < next_ref (fst (collect i n e1)) \<and> (\<forall>j. map_of (req_events (fst (collect i n e1))) j \<noteq> Some m)
      \<and> \<not> event_set (fst (collect i n e1)) m"
    using fresh by (simp add: e1 collect_def map_of_dict_pop map_of_dict_set)
  with assms(6) ok have "m < next_ref e2 \<and> (\<forall>j. map_of (req_events e2) j \<noteq> Some m) \<and> \<not> event_set e2 m \<and> engine_ok ops inv fins e2"
  proof (induction rule: rtranclp_induct)
    case (step a b)
    then show ?case using unregistered_step [of a b m] engine_step_ok [of a b] by blast
  qed blast
  then show ?thesis by blast
qed

end

section \<open>Streams\<close>

text \<open>What the executor promises: a dictionary with results for requests of the batch it was given.\<close>

definition results_of_batch :: "sched_output \<Rightarrow> runner_output \<Rightarrow> bool" where
  "results_of_batch out ro \<longleftrightarrow> distinct (map fst (or_empty (per_request_results ro)))
     \<and> fst ` set (or_empty (per_request_results ro)) \<subseteq> set (scheduled_req_ids out)
     \<and> (per_request_results ro = None \<and> ro_result ro \<noteq> None \<longrightarrow> ro_req_id ro \<in> set (scheduled_req_ids out))"

text \<open>The end of a batch, and the runs of the engine whose batches all end like that.\<close>

definition batch_end :: "'s sched_ops \<Rightarrow> sched_output \<Rightarrow> runner_output \<Rightarrow> string list \<Rightarrow> 's engine \<Rightarrow> 's engine \<Rightarrow> 's engine \<Rightarrow> bool" where
  "batch_end ops out ro ids e e1 e' \<longleftrightarrow> pc e = Executing out \<and> results_of_batch out ro
     \<and> driver_update ops out ro e = (e1, Inr (set ids)) \<and> distinct ids \<and> e' = driver_deliver ops ro ids e1"

inductive served_step :: "'s sched_ops \<Rightarrow> 's engine \<Rightarrow> 's engine \<Rightarrow> bool" for ops where
  batch: "batch_end ops out ro ids e e1 e' \<Longrightarrow> run_result out r = Some ro \<Longrightarrow> served_step ops e e'"
| other: "engine_step ops e e' \<Longrightarrow> (\<forall>out. pc e \<noteq> Executing out) \<or> pc e' = pc e \<or> pc e' = Stopped \<Longrightarrow> served_step ops e e'"

lemma served_step_engine: "served_step ops e e' \<Longrightarrow> engine_step ops e e'"
proof (induction rule: served_step.induct)
  case (batch out ro ids e e1 e' r)
  then have b: "pc e = Executing out" "driver_update ops out ro e = (e1, Inr (set ids))" "distinct ids" "e' = driver_deliver ops ro ids e1"
    by (simp_all add: batch_end_def)
  show ?case unfolding b(4) by (rule engine_step.finish [OF b(1) batch(2) b(2,3) refl])
qed

text \<open>
  Nothing follows a final message; a stream that is still registered has got none, and its request is in
  the scheduler.
\<close>

definition streams_ok :: "'s sched_ops \<Rightarrow> 's engine \<Rightarrow> bool" where
  "streams_ok ops e \<longleftrightarrow> distinct (map fst (stream_queues e)) \<and> (\<forall>q. \<forall>m \<in> set (butlast (messages e q)). \<not> snd m)
     \<and> (\<forall>i q. map_of (stream_queues e) i = Some q \<longrightarrow>
          (\<forall>m \<in> set (messages e q). \<not> snd m) \<and> op_get_request_state ops (scheduler_state e) i \<noteq> None)"

lemma streams_ok_cong:
  assumes "streams_ok ops e" and "messages e' = messages e" and "distinct (map fst (stream_queues e'))"
    and "\<And>i q. map_of (stream_queues e') i = Some q \<Longrightarrow> map_of (stream_queues e) i = Some q"
    and "dom (op_get_request_state ops (scheduler_state e)) \<subseteq> dom (op_get_request_state ops (scheduler_state e'))"
  shows "streams_ok ops e'"
proof -
  have d: "op_get_request_state ops (scheduler_state e) i \<noteq> None \<Longrightarrow> op_get_request_state ops (scheduler_state e') i \<noteq> None" for i
    using assms(5) by blast
  show ?thesis
    using assms(1,3) d assms(4) unfolding streams_ok_def assms(2) by blast
qed

lemma distinct_dict: "distinct (map fst d) \<Longrightarrow> distinct (map fst (dict_set k v d))"
  "distinct (map fst d) \<Longrightarrow> distinct (map fst (dict_pop k d))"
proof -
  have s: "fst ` set (dict_set k v d) = insert k (fst ` set d)" for d :: "('a \<times> 'b) list"
    by (induction d) auto
  have p: "fst ` set (dict_pop k d) \<subseteq> fst ` set d" for d :: "('a \<times> 'b) list"
    by (induction d) auto
  show "distinct (map fst d) \<Longrightarrow> distinct (map fst (dict_set k v d))"
    by (induction d) (auto simp: s)
  show "distinct (map fst d) \<Longrightarrow> distinct (map fst (dict_pop k d))"
    using p by (induction d) (auto dest: subsetD)
qed

lemma deliver_distinct:
  assumes "distinct (map fst (stream_queues e))"
  shows "distinct (map fst (stream_queues (driver_deliver ops ro ids e)))"
proof -
  have one: "distinct (map fst (stream_queues (dispatch_finished_one ops ro finals i e)))"
    if "distinct (map fst (stream_queues e))" for finals i and e :: "'a engine"
    using that by (auto simp: dispatch_finished_one_def distinct_dict Let_def split: prod.split option.split)
  have all: "distinct (map fst (stream_queues (driver_dispatch_finished ops ro finals ids e)))"
    if "distinct (map fst (stream_queues e))" for finals and e :: "'a engine"
    using that by (induction ids arbitrary: e) (simp_all add: driver_dispatch_finished_def one)
  obtain e2 finals where step:
    "driver_dispatch_step_outputs ro (skip_stream_ids ops (scheduler_state e) ids) e = (e2, finals)" by (rule prod.exhaust)
  show ?thesis using all [of e2] assms by (simp add: driver_deliver_def step dispatch_step_fields(5) [OF step])
qed

text \<open>Messages go to the streams of the requests they are for.\<close>

lemma dispatch_items_others:
  assumes "\<forall>j. map_of (stream_queues e) j = Some q \<longrightarrow> j \<notin> fst ` set xs"
  shows "messages (fst (dispatch_items fin skip xs e finals)) q = messages e q"
  using assms
proof (induction xs arbitrary: e finals)
  case (Cons x xs)
  obtain j r where x: "x = (j, r)" by (rule prod.exhaust)
  have IH: "messages (fst (dispatch_items fin skip xs (put p t b e) f)) q = messages (put p t b e) q" for p t b f
    using Cons.IH [of "put p t b e"] Cons.prems by simp
  have "p \<noteq> q" if "map_of (stream_queues e) j = Some p" for p using Cons.prems that x by auto
  with IH Cons.IH [of e] Cons.prems show ?case by (auto simp: x split: option.split)
qed simp

lemma dispatch_step_others:
  assumes "driver_dispatch_step_outputs ro skip e = (e', finals)" and "results_of_batch out ro"
    and "\<forall>j. map_of (stream_queues e) j = Some q \<longrightarrow> j \<notin> set (scheduled_req_ids out)"
  shows "messages e' q = messages e q"
proof (cases "per_request_results ro")
  case None
  show ?thesis
  proof (cases "ro_result ro")
    case (Some r)
    with assms(2) None have "ro_req_id ro \<in> set (scheduled_req_ids out)" by (simp add: results_of_batch_def)
    with assms(3) dispatch_items_others [of e q "[(ro_req_id ro, r)]" "finished_flag ro" skip "{}"] assms(1) None Some
    show ?thesis by (auto simp: driver_dispatch_step_outputs_def split: if_splits)
  qed (use assms(1) None in \<open>simp add: driver_dispatch_step_outputs_def\<close>)
next
  case (Some xs)
  with assms(2) have "fst ` set xs \<subseteq> set (scheduled_req_ids out)" by (simp add: results_of_batch_def)
  with assms(3) have "\<forall>j. map_of (stream_queues e) j = Some q \<longrightarrow> j \<notin> fst ` set xs" by blast
  from dispatch_items_others [OF this, of "finished_flag ro" skip "{}"] assms(1) Some show ?thesis
    by (simp add: driver_dispatch_step_outputs_def)
qed

lemma closing_none:
  "\<forall>j. map_of (stream_queues e) j = Some q \<longrightarrow> j \<notin> set ids \<Longrightarrow> closing_messages ops ro finals e q ids = []"
  by (auto simp: closing_messages_def)

lemma closing_messages_one:
  assumes "distinct ids" and "\<forall>j. map_of (stream_queues e) j = Some q \<longrightarrow> j = i"
    and "map_of (stream_queues e) i = Some q"
  shows "closing_messages ops ro finals e q ids =
    (if i \<in> set ids \<and> i \<notin> finals
     then [(final_result i (op_get_request_state ops (scheduler_state e) i) ro, True)] else [])"
  using assms(1)
proof (induction ids)
  case Nil
  then show ?case by (simp add: closing_messages_def)
next
  case (Cons j ids)
  have c: "closing_messages ops ro finals e q (j # ids) =
    (if map_of (stream_queues e) j = Some q \<and> j \<notin> finals
     then [(final_result j (op_get_request_state ops (scheduler_state e) j) ro, True)] else [])
    @ closing_messages ops ro finals e q ids"
    by (simp add: closing_messages_def)
  show ?case
  proof (cases "j = i")
    case True
    with Cons assms(3) show ?thesis unfolding c by simp
  next
    case False
    then have "map_of (stream_queues e) j \<noteq> Some q" using assms(2) by blast
    with Cons False show ?thesis unfolding c by simp
  qed
qed

lemma engine_reachable_ok:
  assumes "(engine_step step_ops)\<^sup>*\<^sup>* (engine_init (step_initialize env int_of float_of load s0)) e"
  shows "engine_ok step_ops step_inv finished_req_ids e" "refs_ok e"
  using step_sched.engine_run_ok [OF assms step_initialize_inv] by blast+

text \<open>A request of the batch that is not reported did not get the runner's finished flag.\<close>

lemma live_not_skipped:
  assumes "step_inv s" "is_live (request_states s) i"
  shows "step_result_of s ro i \<noteq> Skip"
proof -
  obtain st where st: "request_states s i = Some st" "\<not> is_finished (status st)"
    using assms(2) by (auto simp: is_live_iff)
  moreover obtain p where "request_progress s i = Some p"
    using assms(1) st(1) unfolding step_inv_def progress_ok_def by blast
  ultimately show ?thesis by (auto simp: step_result_of_def Let_def split: option.split)
qed

lemma unreported_not_finished:
  fixes e :: "step_sched engine"
  assumes ok: "engine_ok step_ops step_inv finished_req_ids e" and pc: "pc e = Executing out"
    and up: "driver_update step_ops out ro e = (e1, Inr fin)"
    and i: "i \<in> set (scheduled_req_ids out)" "i \<notin> fin"
  shows "\<not> finished_flag ro i"
proof
  assume flag: "finished_flag ro i"
  define s where "s = scheduler_state (process_aborts_queue step_ops e)"
  have good: "step_inv (scheduler_state e)" using ok by (simp add: engine_ok_def)
  have inv: "step_inv s" unfolding s_def by (rule step_sched.process_aborts_ok(1) [OF good])
  obtain s' where eq: "step_update_from_output out ro s = (s', Inr fin)"
    using up by (auto simp: driver_update_def Let_def s_def step_ops_def split: prod.splits)
  have live: "is_live (request_states (scheduler_state e1)) i"
    using step_sched.driver_update_ok(2) [OF ok pc up] i by (simp add: step_ops_def)
  have "scheduler_state e1 = s'"
    using up eq by (auto simp: driver_update_def Let_def s_def step_ops_def)
  then have "is_live (request_states s) i" "step_outcome s ro i = None"
    using step_update_facts(2) [OF inv eq, of i] live i(1) by simp_all
  then show False
    using live_not_skipped [OF inv, of i ro] flag
    by (auto simp: step_outcome_def step_result_of_def finished_flag_def Let_def
        split: option.splits if_splits step_result.splits)
qed

text \<open>What the end of a batch brings to a stream.\<close>

definition served :: "(diffusion_output \<times> bool) list \<Rightarrow> bool" where
  "served ms \<longleftrightarrow> ms \<noteq> [] \<and> snd (last ms) \<and> (\<forall>m \<in> set (butlast ms). \<not> snd m)"

lemma batch_serves:
  fixes e :: "step_sched engine"
  assumes ok: "engine_ok step_ops step_inv finished_req_ids e" "refs_ok e" and b: "batch_end step_ops out ro ids e e1 e'"
    and i: "i \<in> set (scheduled_req_ids out)" and q: "map_of (stream_queues e) i = Some q"
  shows "\<exists>ms. messages e' q = messages e q @ ms
    \<and> (if i \<in> set ids then served ms \<and> map_of (stream_queues e') i = None
       else (\<forall>m \<in> set ms. \<not> snd m) \<and> map_of (stream_queues e') i = Some q)"
proof -
  have pc: "pc e = Executing out" and up: "driver_update step_ops out ro e = (e1, Inr (set ids))" and ids: "distinct ids"
    and e': "e' = driver_deliver step_ops ro ids e1" and res: "distinct (map fst (or_empty (per_request_results ro)))"
    using b by (simp_all add: batch_end_def results_of_batch_def)
  note f = step_sched.driver_update_fields [OF up]
  have only: "\<forall>j. map_of (stream_queues e1) j = Some q \<longrightarrow> j = i" "map_of (stream_queues e1) i = Some q"
    using ok(2) q unfolding refs_ok_def f by blast+
  obtain e2 finals where step: "driver_dispatch_step_outputs ro
      (skip_stream_ids step_ops (scheduler_state e1) ids) e1 = (e2, finals)" by (rule prod.exhaust)
  note d = step_sched.driver_deliver_ok [OF ok(1) pc up ids refl step, folded e', of i _ q]
  note cl = closing_messages_one [OF ids only, of step_ops ro finals]
  from dispatch_step_messages [OF step res only] obtain ms0 where
    ms0: "messages e2 q = messages e q @ ms0"
    and cases: "ms0 = [] \<and> i \<notin> finals \<or>
       (\<exists>r. ms0 = [(r, finished_flag ro i)]) \<and> (i \<in> finals \<longleftrightarrow> finished_flag ro i)"
    unfolding f by blast
  let ?c = "closing_messages step_ops ro finals e1 q ids"
  have msgs: "messages e' q = messages e q @ (ms0 @ ?c)" using d ms0 by simp
  show ?thesis
  proof (cases "i \<in> set ids")
    case True
    have "served (ms0 @ ?c)" using cases True unfolding cl served_def by (cases "i \<in> finals") auto
    then show ?thesis using True d msgs by auto
  next
    case False
    then have "\<not> finished_flag ro i" using unreported_not_finished [OF ok(1) pc up i] by blast
    then have "\<forall>x \<in> set (ms0 @ ?c). \<not> snd x" using cases False unfolding cl by auto
    then show ?thesis using False d msgs q by auto
  qed
qed

lemma batch_spares_others:
  fixes e :: "step_sched engine"
  assumes ok: "engine_ok step_ops step_inv finished_req_ids e" and b: "batch_end step_ops out ro ids e e1 e'"
    and q: "\<forall>j. map_of (stream_queues e) j = Some q \<longrightarrow> j \<notin> set (scheduled_req_ids out)"
  shows "messages e' q = messages e q"
proof -
  have pc: "pc e = Executing out" and up: "driver_update step_ops out ro e = (e1, Inr (set ids))" and ids: "distinct ids"
    and e': "e' = driver_deliver step_ops ro ids e1" and res: "results_of_batch out ro"
    using b by (simp_all add: batch_end_def)
  note f = step_sched.driver_update_fields [OF up]
  obtain e2 finals where step: "driver_dispatch_step_outputs ro
      (skip_stream_ids step_ops (scheduler_state e1) ids) e1 = (e2, finals)" by (rule prod.exhaust)
  have "set ids \<subseteq> set (scheduled_req_ids out)" using step_sched.driver_update_ok(2) [OF ok pc up] by blast
  with q have "closing_messages step_ops ro finals e1 q ids = []" by (intro closing_none) (auto simp: f)
  moreover have "messages e2 q = messages e q"
    using dispatch_step_others [OF step res, of q] q by (simp add: f)
  ultimately show ?thesis
    using step_sched.driver_deliver_ok [OF ok pc up ids refl step, folded e', of _ _ q] by simp
qed

lemma dead_messages:
  "messages (driver_dead e) q = messages e q @ map (\<lambda>x. (engine_died, True)) (filter (\<lambda>x. snd x = q) (stream_queues e))"
  "stream_queues (driver_dead e) = []"
proof -
  define f where "f = (\<lambda>(e :: 'a engine) (i, n). (if pending_results e i = None
       then e\<lparr>pending_results := (pending_results e)(i \<mapsto> engine_died)\<rparr> else e)\<lparr>event_set := (event_set e)(n := True)\<rparr>)"
  have f: "messages (f e x) = messages e" "stream_queues (f e x) = stream_queues e" for e x
    by (simp_all add: f_def split: prod.split)
  have a: "messages (foldl f e xs) = messages e \<and> stream_queues (foldl f e xs) = stream_queues e" for e xs
  proof (induction xs arbitrary: e)
    case (Cons x xs)
    have "foldl f e (x # xs) = foldl f (f e x) xs" by simp
    with Cons.IH [of "f e x"] show ?case by (simp only: f)
  qed simp
  have b: "messages (foldl (\<lambda>e (i, q). put q engine_died True e) e xs) q
    = messages e q @ map (\<lambda>x. (engine_died, True)) (filter (\<lambda>x. snd x = q) xs)" for e :: "'a engine" and xs
    by (induction xs arbitrary: e) auto
  define e1 where "e1 = foldl f (e\<lparr>driver_running := False\<rparr>) (req_events e)"
  have dd: "driver_dead e = (foldl (\<lambda>e (i, q). put q engine_died True e) e1 (stream_queues e1))\<lparr>stream_queues := [], pc := Stopped\<rparr>"
    by (simp add: driver_dead_def driver_signal_engine_dead_def Let_def e1_def f_def)
  show "messages (driver_dead e) q = messages e q @ map (\<lambda>x. (engine_died, True)) (filter (\<lambda>x. snd x = q) (stream_queues e))"
    "stream_queues (driver_dead e) = []"
    using a [of "e\<lparr>driver_running := False\<rparr>" "req_events e"] by (simp_all add: dd b e1_def)
qed

lemma one_queue:
  assumes "distinct (map fst d)" and "\<And>j k. map_of d j = Some q \<Longrightarrow> map_of d k = Some q \<Longrightarrow> j = k"
  shows "filter (\<lambda>x. snd x = q) d = [] \<or> (\<exists>i. filter (\<lambda>x. snd x = q) d = [(i, q)] \<and> map_of d i = Some q)"
proof (cases "filter (\<lambda>x. snd x = q) d")
  case (Cons x xs)
  define zs where "zs = filter (\<lambda>x. snd x = q) d"
  have mem: "map_of d (fst y) = Some q" if "y \<in> set zs" for y
    using that assms(1) by (auto simp: zs_def)
  have "distinct (map fst zs)" using assms(1) by (simp add: zs_def distinct_map_filter)
  moreover have "fst y = fst x" if "y \<in> set xs" for y using mem assms(2) that Cons by (metis list.set_intros zs_def)
  ultimately have "xs = []" using Cons by (cases xs) (auto simp: zs_def)
  moreover have "snd x = q"
  proof -
    have "x \<in> set (filter (\<lambda>x. snd x = q) d)" unfolding Cons by simp
    then show ?thesis by simp
  qed
  moreover have "map_of d (fst x) = Some q" using mem Cons by (simp add: zs_def)
  ultimately show ?thesis using Cons by (metis prod.collapse)
qed simp

lemma streams_step:
  fixes e :: "step_sched engine"
  assumes "served_step step_ops e e'" and ok: "engine_ok step_ops step_inv finished_req_ids e" and r: "refs_ok e"
    and s: "streams_ok step_ops e"
  shows "streams_ok step_ops e'"
  using assms(1)
proof cases
  case (batch out ro ids e1 rr)
  have pc: "pc e = Executing out" and up: "driver_update step_ops out ro e = (e1, Inr (set ids))" and ids: "distinct ids"
    and e': "e' = driver_deliver step_ops ro ids e1"
    using batch(1) by (simp_all add: batch_end_def)
  obtain e2 finals where step: "driver_dispatch_step_outputs ro
      (skip_stream_ids step_ops (scheduler_state e1) ids) e1 = (e2, finals)" by (rule prod.exhaust)
  note d = step_sched.driver_deliver_ok [OF ok pc up ids refl step, folded e']
  have sub: "set ids \<subseteq> set (scheduled_req_ids out)" using step_sched.driver_update_ok(2) [OF ok pc up] by blast
  have dist: "distinct (map fst (stream_queues e'))"
  proof -
    have "distinct (map fst (stream_queues e1))"
      using s step_sched.driver_update_fields(3) [OF up] by (simp add: streams_ok_def)
    then show ?thesis unfolding e' by (rule deliver_distinct)
  qed
  have reg: "map_of (stream_queues e) i = Some q \<and> i \<notin> set ids" if "map_of (stream_queues e') i = Some q" for i q
    using d [of i] that by (simp split: if_splits)
  have old: "\<forall>m \<in> set (butlast (messages e q)). \<not> snd m" for q using s by (simp add: streams_ok_def)
  have open_q: "(\<forall>m \<in> set (messages e q). \<not> snd m) \<and> op_get_request_state step_ops (scheduler_state e) i \<noteq> None"
    if "map_of (stream_queues e) i = Some q" for i q using s that by (simp add: streams_ok_def)
  have "\<forall>m \<in> set (butlast (messages e' q)). \<not> snd m" for q
  proof (cases "\<exists>i. map_of (stream_queues e) i = Some q \<and> i \<in> set (scheduled_req_ids out)")
    case True
    then obtain i where i: "map_of (stream_queues e) i = Some q" "i \<in> set (scheduled_req_ids out)" by blast
    from batch_serves [OF ok r batch(1) i(2,1)] obtain ms where ms: "messages e' q = messages e q @ ms"
      and "served ms \<or> (\<forall>m \<in> set ms. \<not> snd m)" by metis
    then have "\<forall>m \<in> set (butlast ms). \<not> snd m" using in_set_butlastD by (fastforce simp: served_def)
    moreover have "\<forall>m \<in> set (messages e q). \<not> snd m" using open_q [OF i(1)] by blast
    ultimately show ?thesis
      unfolding ms using in_set_butlastD by (cases "ms = []") (fastforce simp: butlast_append)+
  next
    case False
    then have "messages e' q = messages e q" by (intro batch_spares_others [OF ok batch(1)]) blast
    with old show ?thesis by simp
  qed
  moreover have "(\<forall>m \<in> set (messages e' q). \<not> snd m) \<and> op_get_request_state step_ops (scheduler_state e') i \<noteq> None"
    if "map_of (stream_queues e') i = Some q" for i q
  proof
    from reg [OF that] have i: "map_of (stream_queues e) i = Some q" "i \<notin> set ids" by blast+
    have only: "j = i" if "map_of (stream_queues e) j = Some q" for j using r i(1) that unfolding refs_ok_def by blast
    show "\<forall>m \<in> set (messages e' q). \<not> snd m"
    proof (cases "i \<in> set (scheduled_req_ids out)")
      case True
      from batch_serves [OF ok r batch(1) True i(1)] i(2) obtain ms where "messages e' q = messages e q @ ms" "\<forall>m \<in> set ms. \<not> snd m"
        by (simp only: if_False) blast
      with open_q [OF i(1)] show ?thesis by (metis UnE set_append)
    next
      case False
      then have "messages e' q = messages e q" using only by (intro batch_spares_others [OF ok batch(1)]) blast
      with open_q [OF i(1)] show ?thesis by simp
    qed
    have "op_get_request_state step_ops (scheduler_state e') i = op_get_request_state step_ops (scheduler_state e1) i"
      using d [of i] i(2) by simp
    moreover have "i \<in> dom (op_get_request_state step_ops (scheduler_state e1))"
      unfolding step_sched.driver_update_ok(5) [OF ok pc up] using open_q [OF i(1)] by blast
    ultimately show "op_get_request_state step_ops (scheduler_state e') i \<noteq> None" by auto
  qed
  ultimately show ?thesis using dist by (simp add: streams_ok_def)
next
  case other
  have dist: "distinct (map fst (stream_queues e))" using s by (simp add: streams_ok_def)
  from other(1) show ?thesis
  proof cases
    case (wait_add rnd rq j m)
    then obtain t where a: "op_add_request step_ops rnd rq (scheduler_state e) = Some (t, Inr j)"
      and e': "e' = e\<lparr>scheduler_state := t, req_events := dict_set j (next_ref e) (req_events e),
                    event_set := (event_set e)(next_ref e := False), next_ref := next_ref e + 1,
                    blocked := (j, next_ref e) # blocked e\<rparr>"
      by (auto simp: add_waiter_def split: option.splits sum.splits)
    have "step_inv (scheduler_state e)" using ok by (simp add: engine_ok_def)
    from step_sched.add_ok [OF this a] have "dom (op_get_request_state step_ops (scheduler_state e)) \<subseteq> dom (op_get_request_state step_ops t)"
      by auto
    with dist show ?thesis by (intro streams_ok_cong [OF s]) (simp_all add: e')
  next
    case (wait_end j m)
    with dist show ?thesis by (intro streams_ok_cong [OF s]) (simp_all add: collect_def)
  next
    case (stream_add rnd rq j m)
    then obtain t where a: "op_add_request step_ops rnd rq (scheduler_state e) = Some (t, Inr j)"
      and e': "e' = e\<lparr>scheduler_state := t, stream_queues := dict_set j (next_ref e) (stream_queues e),
                    messages := (messages e)(next_ref e := []), next_ref := next_ref e + 1\<rparr>"
      by (auto simp: add_stream_def split: option.splits sum.splits)
    have "step_inv (scheduler_state e)" using ok by (simp add: engine_ok_def)
    from step_sched.add_ok [OF this a] obtain st
      where st: "op_get_request_state step_ops t = (op_get_request_state step_ops (scheduler_state e))(j \<mapsto> st)" by blast
    have lt: "q \<noteq> next_ref e" if "map_of (stream_queues e) i = Some q" for i q
      using r that unfolding refs_ok_def by blast
    show ?thesis
      unfolding streams_ok_def
    proof (intro conjI allI impI)
      show "distinct (map fst (stream_queues e'))" using dist by (simp add: e' distinct_dict)
      show "\<forall>m \<in> set (butlast (messages e' q)). \<not> snd m" for q using s by (simp add: e' streams_ok_def)
      fix i q assume "map_of (stream_queues e') i = Some q"
      then consider "i = j" "q = next_ref e" | "i \<noteq> j" "map_of (stream_queues e) i = Some q"
        by (auto simp: e' map_of_dict_set split: if_splits)
      then have "(\<forall>m \<in> set (messages e' q). \<not> snd m) \<and> op_get_request_state step_ops (scheduler_state e') i \<noteq> None"
      proof cases
        case 2
        with s lt [OF 2(2)] show ?thesis by (simp add: e' st streams_ok_def)
      qed (simp add: e' st)
      then show "\<forall>m \<in> set (messages e' q). \<not> snd m" "op_get_request_state step_ops (scheduler_state e') i \<noteq> None" by blast+
    qed
  next
    case (stream_end j)
    with dist show ?thesis
      by (intro streams_ok_cong [OF s]) (auto simp: close_stream_def distinct_dict map_of_dict_pop split: if_splits)
  next
    case (abort rids)
    with dist show ?thesis by (intro streams_ok_cong [OF s]) (simp_all add: Diffusion_Driver.abort_def)
  next
    case prepare
    with dist step_sched.process_aborts_dom [OF ok] show ?thesis
      by (intro streams_ok_cong [OF s]) (simp_all add: driver_prepare_def Let_def)
  next
    case (schedule had order)
    have f: "messages e' = messages e \<and> stream_queues e' = stream_queues e"
      using step_sched.driver_schedule_eq [OF ok schedule(2), of order] schedule(1) by auto
    show ?thesis
      using f dist step_sched.driver_schedule_dom [OF ok schedule(2), of order] schedule(1)
      by (intro streams_ok_cong [OF s]) simp_all
  next
    case (finish out rr ro e1 fin ids)
    have "pc e' = Looping" by (simp add: finish(1) driver_deliver_def case_prod_beta)
    with other(2) finish(2) have False by auto
    then show ?thesis ..
  next
    case (dead out)
    have "\<forall>m \<in> set (butlast (messages e' q)). \<not> snd m" for q
    proof -
      have "filter (\<lambda>x. snd x = q) (stream_queues e) = []
          \<or> (\<exists>i. filter (\<lambda>x. snd x = q) (stream_queues e) = [(i, q)] \<and> map_of (stream_queues e) i = Some q)"
        by (rule one_queue [OF dist]) (use r in \<open>unfold refs_ok_def, blast\<close>)
      then show ?thesis
      proof
        assume "filter (\<lambda>x. snd x = q) (stream_queues e) = []"
        with s show ?thesis by (simp add: dead(1) dead_messages streams_ok_def)
      next
        assume "\<exists>i. filter (\<lambda>x. snd x = q) (stream_queues e) = [(i, q)] \<and> map_of (stream_queues e) i = Some q"
        then obtain i where i: "filter (\<lambda>x. snd x = q) (stream_queues e) = [(i, q)]" "map_of (stream_queues e) i = Some q" by blast
        with s have "\<forall>m \<in> set (messages e q). \<not> snd m" by (simp add: streams_ok_def)
        with i(1) show ?thesis by (simp add: dead(1) dead_messages butlast_append)
      qed
    qed
    then show ?thesis by (simp add: streams_ok_def dead(1) dead_messages)
  qed
qed

lemma streams_run:
  assumes "(served_step step_ops)\<^sup>*\<^sup>* (engine_init s) e" and "step_inv s"
  shows "engine_ok step_ops step_inv finished_req_ids e \<and> refs_ok e \<and> streams_ok step_ops e"
  using assms(1)
proof (induction rule: rtranclp_induct)
  case base
  have "engine_ok step_ops step_inv finished_req_ids (engine_init s)" using assms(2) by (simp add: engine_ok_def) (simp add: engine_init_def)
  then show ?case by (simp add: streams_ok_def) (simp add: engine_init_def)
next
  case (step e e')
  then show ?case using served_step_engine step_sched.engine_step_ok step_sched.refs_ok_step streams_step by blast
qed

end
