(* ===== verification/Diffusion_Properties.thy ===== *)
theory Diffusion_Properties
  imports Diffusion_Lifetimes "HOL-Library.Char_ord" "HOL-Library.List_Lexorder"
begin

text \<open>
  The properties of the engine's driver over a StepScheduler, for every interleaving of callers,
  streams, aborts and driver sections that starts from an initialised engine, and the engine
  (one caller, one stream, one batch) on which they are instantiated.
\<close>


text \<open>C24: Over its whole life a stream gets at most one final message, and nothing after it. A stream that is still registered has got no final message and its request is in the scheduler. When a batch ends in which its request finished, the last of its messages is final and the stream is no longer registered; the streams of the other requests of the batch stay open. This is for runs whose executor returns one result per request, of requests of the batch only. It does not say that every stream is ended: a request aborted between two batches never is.\<close>

theorem streams_end_once:
  assumes "(served_step step_ops)\<^sup>*\<^sup>* (engine_init (step_initialize env int_of float_of load s0)) e"
  shows "(\<forall>q. \<forall>m \<in> set (butlast (messages e q)). \<not> snd m)
    \<and> (\<forall>i q. map_of (stream_queues e) i = Some q \<longrightarrow>
         (\<forall>m \<in> set (messages e q). \<not> snd m) \<and> get_request_state (scheduler_state e) i \<noteq> None
         \<and> (\<forall>out ro ids e1 e'. batch_end step_ops out ro ids e e1 e' \<and> i \<in> set (scheduled_req_ids out) \<longrightarrow>
              (if i \<in> set ids
               then messages e' q \<noteq> [] \<and> snd (last (messages e' q)) \<and> map_of (stream_queues e') i = None
               else (\<forall>m \<in> set (messages e' q). \<not> snd m) \<and> map_of (stream_queues e') i = Some q)))"
proof -
  note run = streams_run [OF assms step_initialize_inv]
  then have ok: "engine_ok step_ops step_inv finished_req_ids e" "refs_ok e" and s: "streams_ok step_ops e" by blast+
  have "if i \<in> set ids then messages e' q \<noteq> [] \<and> snd (last (messages e' q)) \<and> map_of (stream_queues e') i = None
      else (\<forall>m \<in> set (messages e' q). \<not> snd m) \<and> map_of (stream_queues e') i = Some q"
    if q: "map_of (stream_queues e) i = Some q" and b: "batch_end step_ops out ro ids e e1 e'" and i: "i \<in> set (scheduled_req_ids out)"
    for i q out ro ids e1 e'
  proof -
    have none: "\<forall>m \<in> set (messages e q). \<not> snd m" using s q by (simp add: streams_ok_def)
    from batch_serves [OF ok b i q] obtain ms where ms: "messages e' q = messages e q @ ms"
      and c: "if i \<in> set ids then served ms \<and> map_of (stream_queues e') i = None
        else (\<forall>m \<in> set ms. \<not> snd m) \<and> map_of (stream_queues e') i = Some q" by blast
    show ?thesis
    proof (cases "i \<in> set ids")
      case True
      with c ms show ?thesis by (simp add: served_def)
    next
      case False
      with c ms none show ?thesis by (simp only: if_False) (metis UnE set_append)
    qed
  qed
  note main = this
  have g: "op_get_request_state step_ops = get_request_state" by (simp add: step_ops_def)
  have old: "\<forall>m \<in> set (butlast (messages e q)). \<not> snd m" for q using s by (simp only: streams_ok_def) blast
  have reg: "(\<forall>m \<in> set (messages e q). \<not> snd m) \<and> get_request_state (scheduler_state e) i \<noteq> None"
    if "map_of (stream_queues e) i = Some q" for i q
    using s that unfolding streams_ok_def g by blast
  show ?thesis
  proof (rule conjI, intro allI, rule old, intro allI impI conjI)
    fix i q assume q: "map_of (stream_queues e) i = Some q"
    show "\<forall>m \<in> set (messages e q). \<not> snd m" "get_request_state (scheduler_state e) i \<noteq> None" using reg [OF q] by blast+
    fix out ro ids e1 e'
    assume "batch_end step_ops out ro ids e e1 e' \<and> i \<in> set (scheduled_req_ids out)"
    then show "if i \<in> set ids then messages e' q \<noteq> [] \<and> snd (last (messages e' q)) \<and> map_of (stream_queues e') i = None
        else (\<forall>m \<in> set (messages e' q). \<not> snd m) \<and> map_of (stream_queues e') i = Some q"
      by (elim conjE) (rule main [OF q])
  qed
qed

text \<open>The branch of the driver for a cycle that schedules nothing is never taken: schedule is
  called only when there are requests, and then returns a batch. So the dispatch of
  aborted-only finishes in that branch never runs.\<close>

theorem driver_never_dispatches_aborts:
  assumes "(engine_step step_ops)\<^sup>*\<^sup>* (engine_init (step_initialize env int_of float_of load s0)) e"
    and "pc e = Prepared had"
  shows "if has_requests (scheduler_state e)
    then \<not> is_empty (snd (step_schedule (scheduler_state e)))
       \<and> driver_schedule step_ops had order e =
           e\<lparr>scheduler_state := fst (step_schedule (scheduler_state e)),
             pc := Executing (snd (step_schedule (scheduler_state e)))\<rparr>
    else driver_schedule step_ops had order e = e\<lparr>pc := Looping\<rparr>"
proof -
  note ok = engine_reachable_ok(1) [OF assms(1)]
  have good: "step_inv (scheduler_state e)" using ok by (simp add: engine_ok_def)
  have hr: "op_has_requests step_ops (scheduler_state e) = has_requests (scheduler_state e)"
    and sch: "op_schedule step_ops = step_schedule" by (simp_all add: step_ops_def)
  show ?thesis
  proof (cases "has_requests (scheduler_state e)")
    case False
    then show ?thesis using step_sched.driver_schedule_eq [OF ok assms(2), of order]
      step_sched.schedule_ok [OF good] hr
      by (cases had) (use ok assms(2) in \<open>auto simp: driver_schedule_def engine_ok_def\<close>)
  next
    case True
    obtain s out where eq: "step_schedule (scheduler_state e) = (s, out)" by (rule prod.exhaust)
    have "\<not> is_empty out"
      using step_sched.schedule_ok [OF good, of s out] eq True
      by (auto simp: sch has_requests_def)
    then show ?thesis using True eq hr by (simp add: driver_schedule_def sch)
  qed
qed

text \<open>An abort that the driver picks up at the top of its loop is never answered: the caller of
  an unfinished request whose abort is in the queue then stays blocked, with its event unset, in
  every later state, whatever the engine does short of dying.\<close>

theorem abort_before_batch_hangs:
  assumes "(engine_step step_ops)\<^sup>*\<^sup>* (engine_init (step_initialize env int_of float_of load s0)) e"
    and "pc e = Looping" and "(i, n) \<in> set (blocked e)" and "\<not> event_set e n"
    and "get_request_state (scheduler_state e) i = Some st" and "\<not> is_finished (status st)"
    and "rid \<in> set (abort_queue e)" and "get_sched_req_id (scheduler_state e) rid = Some i"
    and "(\<lambda>a b. engine_step step_ops a b \<and> pc b \<noteq> Stopped)\<^sup>*\<^sup>* (driver_prepare step_ops e) e'"
  shows "(i, n) \<in> set (blocked e') \<and> \<not> event_set e' n"
proof -
  note ok = engine_reachable_ok [OF assms(1)]
  have caller: "n < next_ref e" "\<forall>j. map_of (req_events e) j = Some n \<longrightarrow> j = i"
    using ok(2) assms(3) unfolding refs_ok_def by blast+
  have live: "is_live (op_get_request_state step_ops (scheduler_state e)) i"
    using assms(5,6) by (simp add: step_ops_def is_live_iff)
  have ab: "i \<in> aborted_ids step_ops e" using assms(7,8) by (auto simp: aborted_ids_def step_ops_def)
  have st: "stuck step_ops i n (driver_prepare step_ops e)"
    by (rule step_sched.abort_at_loop_top_sticks [OF ok(1) assms(2-4) caller live ab])
  have good: "step_inv (scheduler_state e)" using ok(1) by (simp add: engine_ok_def)
  have "engine_ok step_ops step_inv finished_req_ids (driver_prepare step_ops e)"
    using step_sched.process_aborts_ok(1) [OF good] by (simp add: engine_ok_def driver_prepare_def Let_def)
  from step_sched.stuck_forever [OF assms(9) this st] show ?thesis by (simp add: stuck_def)
qed

section \<open>A concrete engine\<close>

text \<open>A caller waits for \<open>a\<close>, a stream for \<open>b\<close>; both are in the batch and finish in one step.\<close>

definition ex_engine :: "step_sched engine" where
  "ex_engine = fst (the (add_stream step_ops ''r'' (ex_request ''b'')
     (fst (the (add_waiter step_ops ''r'' (ex_request ''a'') (engine_init (ex_init Fifo)))))))"

definition ex_executing :: "step_sched engine" where
  "ex_executing = driver_schedule step_ops True sorted_list_of_set (driver_prepare step_ops ex_engine)"

definition ex_done :: runner_output where
  "ex_done = ex_ok\<lparr>ro_finished := True, per_request_finished := None\<rparr>"

lemma ex_engine_eval:
  "ex_engine = (engine_init (ex_two Fifo))
     \<lparr>req_events := [(''a'', 0)], stream_queues := [(''b'', 1)], next_ref := 2, blocked := [(''a'', 0)]\<rparr>"
proof -
  have u: "(\<lambda>x. False)(0 := False) = (\<lambda>x::nat. False)" "(\<lambda>x. [])(1 := []) = (\<lambda>x::nat. [])"
    by (simp_all add: fun_eq_iff)
  have a: "step_add_request ''r'' (ex_request ''a'') (ex_init Fifo) \<noteq> None"
    "snd (the (step_add_request ''r'' (ex_request ''a'') (ex_init Fifo))) = Inr ''a''"
    by (simp_all add: ex_add_eval ex_init_eval ex_blank_def)
  have b: "snd (the (step_add_request ''r'' (ex_request ''b'')
        (fst (the (step_add_request ''r'' (ex_request ''a'') (ex_init Fifo)))))) = Inr ''b''"
    "step_add_request ''r'' (ex_request ''b'')
        (fst (the (step_add_request ''r'' (ex_request ''a'') (ex_init Fifo)))) \<noteq> None"
    by (simp_all add: ex_add_eval ex_init_eval ex_blank_def)
  obtain s1 where s1: "step_add_request ''r'' (ex_request ''a'') (ex_init Fifo) = Some (s1, Inr ''a'')"
    using a by (cases "step_add_request ''r'' (ex_request ''a'') (ex_init Fifo)") auto
  obtain s2 where s2: "step_add_request ''r'' (ex_request ''b'') s1 = Some (s2, Inr ''b'')"
    using b s1 by (cases "step_add_request ''r'' (ex_request ''b'') s1") auto
  have "ex_two Fifo = s2" using s1 s2 by (simp add: ex_two_def)
  then show ?thesis
    using s1 s2 u by (simp add: ex_engine_def add_waiter_def add_stream_def engine_init_def step_ops_def)
qed

lemma ex_engine_reachable: "(engine_step step_ops)\<^sup>*\<^sup>* (engine_init (ex_init Fifo)) ex_engine"
proof -
  define e1 where "e1 = fst (the (add_waiter step_ops ''r'' (ex_request ''a'') (engine_init (ex_init Fifo))))"
  have "add_waiter step_ops ''r'' (ex_request ''a'') (engine_init (ex_init Fifo)) = Some (e1, Inr (''a'', 0))"
    by (simp add: e1_def add_waiter_def engine_init_def step_ops_def ex_add_eval ex_init_eval ex_blank_def)
  then have 1: "engine_step step_ops (engine_init (ex_init Fifo)) e1" by (rule engine_step.wait_add)
  have "add_stream step_ops ''r'' (ex_request ''b'') e1 = Some (ex_engine, Inr (''b'', 1))"
    by (simp add: ex_engine_def e1_def add_stream_def add_waiter_def engine_init_def step_ops_def
        ex_add_eval ex_init_eval ex_blank_def)
  then have "engine_step step_ops e1 ex_engine" by (rule engine_step.stream_add)
  with 1 show ?thesis by (meson converse_rtranclp_into_rtranclp rtranclp.rtrancl_refl)
qed

lemma ex_executing_eval:
  "ex_executing = ex_engine\<lparr>scheduler_state := fst (step_schedule (ex_two Fifo)),
     pc := Executing (snd (step_schedule (ex_two Fifo)))\<rparr>"
  by (simp add: ex_executing_def driver_schedule_def driver_prepare_def process_aborts_queue_def
      ex_engine_eval engine_init_def step_ops_def has_requests_def ex_two_eval
      ex_two_schedule_fifo [unfolded ex_two_eval] is_empty_def scheduled_req_ids_def)

lemma ex_executing_reachable: "(engine_step step_ops)\<^sup>*\<^sup>* (engine_init (ex_init Fifo)) ex_executing"
proof -
  have "engine_step step_ops ex_engine (driver_prepare step_ops ex_engine)"
    by (rule engine_step.prepare) (simp_all add: ex_engine_eval engine_init_def)
  moreover have "engine_step step_ops (driver_prepare step_ops ex_engine) ex_executing"
    unfolding ex_executing_def
    by (rule engine_step.schedule [where had = True])
      (simp_all add: driver_prepare_def ex_engine_eval engine_init_def step_ops_def has_requests_def
        process_aborts_queue_def ex_two_eval)
  ultimately show ?thesis using ex_engine_reachable by (meson rtranclp.rtrancl_into_rtrancl)
qed

lemma ex_update: "\<exists>e1. driver_update step_ops (snd (step_schedule (ex_two Fifo))) ex_done ex_executing
    = (e1, Inr {''a'', ''b''})"
proof -
  let ?s = "fst (step_schedule (ex_two Fifo))" and ?out = "snd (step_schedule (ex_two Fifo))"
  obtain s' res where eq: "step_update_from_output ?out ex_done ?s = (s', res)" by (rule prod.exhaust)
  have "step_outcome ?s ex_done i \<noteq> None" "is_live (request_states ?s) i" if "i \<in> {''a'', ''b''}" for i
    using that unfolding ex_two_schedule_fifo
    by (auto simp: step_outcome_def step_result_of_def ex_two_eval ex_state_def ex_done_def ex_ok_def
        result_for_def is_live_def)
  moreover have "set (scheduled_req_ids ?out) = {''a'', ''b''}" "finished_req_ids ?s = {}"
    unfolding ex_two_schedule_fifo
    by (simp_all add: scheduled_req_ids_def from_state_def ex_state_def ex_two_eval ex_init_eval ex_blank_def)
  ultimately have "res = Inr {''a'', ''b''}"
    using step_update_facts(3) [OF step_schedule_inv [OF ex_two_inv] eq] by auto
  moreover have "process_aborts_queue step_ops ex_executing = ex_executing"
    by (simp add: process_aborts_queue_def ex_executing_eval ex_engine_eval engine_init_def)
  ultimately show ?thesis
    using eq by (simp add: driver_update_def ex_executing_eval step_ops_def)
qed

lemma ex_executing_pc: "pc ex_executing = Executing (snd (step_schedule (ex_two Fifo)))"
  by (simp add: ex_executing_eval)

lemma four_steps: "R a b \<Longrightarrow> R b c \<Longrightarrow> R c d \<Longrightarrow> R d e \<Longrightarrow> R\<^sup>*\<^sup>* a e"
  by (meson converse_rtranclp_into_rtranclp r_into_rtranclp)


lemma ex_executing_served: "(served_step step_ops)\<^sup>*\<^sup>* (engine_init (ex_init Fifo)) ex_executing"
proof -
  define e1 where "e1 = fst (the (add_waiter step_ops ''r'' (ex_request ''a'') (engine_init (ex_init Fifo))))"
  define e2 where "e2 = driver_prepare step_ops ex_engine"
  have "add_waiter step_ops ''r'' (ex_request ''a'') (engine_init (ex_init Fifo)) = Some (e1, Inr (''a'', 0))"
    by (simp add: e1_def add_waiter_def engine_init_def step_ops_def ex_add_eval ex_init_eval ex_blank_def)
  then have "engine_step step_ops (engine_init (ex_init Fifo)) e1" by (rule engine_step.wait_add)
  then have 1: "served_step step_ops (engine_init (ex_init Fifo)) e1" by (rule served_step.other) (simp add: engine_init_def)
  have "add_stream step_ops ''r'' (ex_request ''b'') e1 = Some (ex_engine, Inr (''b'', 1))"
    by (simp add: ex_engine_def e1_def add_stream_def add_waiter_def engine_init_def step_ops_def
        ex_add_eval ex_init_eval ex_blank_def)
  then have "engine_step step_ops e1 ex_engine" by (rule engine_step.stream_add)
  then have 2: "served_step step_ops e1 ex_engine"
    by (rule served_step.other)
       (simp add: e1_def add_waiter_def engine_init_def step_ops_def ex_add_eval ex_init_eval ex_blank_def)
  have "engine_step step_ops ex_engine e2"
    unfolding e2_def by (rule engine_step.prepare) (simp_all add: ex_engine_eval engine_init_def)
  then have 3: "served_step step_ops ex_engine e2"
    by (rule served_step.other) (simp add: ex_engine_eval engine_init_def)
  have "engine_step step_ops e2 ex_executing"
    unfolding ex_executing_def e2_def
    by (rule engine_step.schedule [where had = True])
      (simp_all add: driver_prepare_def ex_engine_eval engine_init_def step_ops_def has_requests_def
        process_aborts_queue_def ex_two_eval)
  then have 4: "served_step step_ops e2 ex_executing"
    by (rule served_step.other) (simp add: e2_def driver_prepare_def Let_def)
  with 1 2 3 show ?thesis by (rule four_steps)
qed


theorem streams_end_once_witness:
  "\<exists>e1. messages (driver_deliver step_ops ex_done [''a'', ''b''] e1) 1 \<noteq> []
    \<and> snd (last (messages (driver_deliver step_ops ex_done [''a'', ''b''] e1) 1))"
proof -
  obtain e1 where up: "driver_update step_ops (snd (step_schedule (ex_two Fifo))) ex_done ex_executing
    = (e1, Inr (set [''a'', ''b'']))" using ex_update by auto
  have i: "''b'' \<in> set (scheduled_req_ids (snd (step_schedule (ex_two Fifo))))"
    unfolding ex_two_schedule_fifo by (simp add: scheduled_req_ids_def from_state_def ex_state_def)
  have "ro_req_id ex_done \<in> set (scheduled_req_ids (snd (step_schedule (ex_two Fifo))))"
    unfolding ex_two_schedule_fifo by (simp add: scheduled_req_ids_def from_state_def ex_state_def ex_done_def ex_ok_def)
  then have "results_of_batch (snd (step_schedule (ex_two Fifo))) ex_done"
    by (simp add: results_of_batch_def ex_done_def ex_ok_def)
  then have b: "batch_end step_ops (snd (step_schedule (ex_two Fifo))) ex_done [''a'', ''b''] ex_executing e1
      (driver_deliver step_ops ex_done [''a'', ''b''] e1)"
    using up ex_executing_pc by (simp add: batch_end_def)
  have q: "map_of (stream_queues ex_executing) ''b'' = Some 1" by (simp add: ex_executing_eval ex_engine_eval engine_init_def)
  from streams_end_once [OF ex_executing_served [unfolded ex_init_def]] q b i
  have "if ''b'' \<in> set [''a'', ''b'']
      then messages (driver_deliver step_ops ex_done [''a'', ''b''] e1) 1 \<noteq> []
        \<and> snd (last (messages (driver_deliver step_ops ex_done [''a'', ''b''] e1) 1))
        \<and> map_of (stream_queues (driver_deliver step_ops ex_done [''a'', ''b''] e1)) ''b'' = None
      else (\<forall>m \<in> set (messages (driver_deliver step_ops ex_done [''a'', ''b''] e1) 1). \<not> snd m)
        \<and> map_of (stream_queues (driver_deliver step_ops ex_done [''a'', ''b''] e1)) ''b'' = Some 1" by blast
  then show ?thesis by (intro exI [of _ e1]) simp
qed

theorem driver_never_dispatches_aborts_witness:
  "\<not> is_empty (snd (step_schedule (scheduler_state (driver_prepare step_ops ex_engine))))"
proof -
  have p: "engine_step step_ops ex_engine (driver_prepare step_ops ex_engine)"
    by (rule engine_step.prepare) (simp_all add: ex_engine_eval engine_init_def)
  have r: "(engine_step step_ops)\<^sup>*\<^sup>* (engine_init (ex_init Fifo)) (driver_prepare step_ops ex_engine)"
    using ex_engine_reachable p by (rule rtranclp.rtrancl_into_rtrancl)
  have h: "has_requests (scheduler_state (driver_prepare step_ops ex_engine))"
    by (simp add: driver_prepare_def ex_engine_eval engine_init_def has_requests_def
        process_aborts_queue_def ex_two_eval)
  have "pc (driver_prepare step_ops ex_engine) = Prepared True"
    using h by (simp add: driver_prepare_def Let_def step_ops_def)
  from driver_never_dispatches_aborts [OF r [unfolded ex_init_def] this] h show ?thesis by simp
qed

theorem abort_before_batch_hangs_witness:
  "\<not> event_set (driver_prepare step_ops (abort [''a''] ex_engine)) 0"
proof -
  let ?e = "abort [''a''] ex_engine"
  have "engine_step step_ops ex_engine ?e" by (rule engine_step.abort)
  with ex_engine_reachable have r: "(engine_step step_ops)\<^sup>*\<^sup>* (engine_init (ex_init Fifo)) ?e"
    by (rule rtranclp.rtrancl_into_rtrancl)
  show ?thesis
    using abort_before_batch_hangs [OF r [unfolded ex_init_def], of "''a''" 0 "ex_state ''a'' WAITING" "''a''"
        "driver_prepare step_ops ?e"]
    by (simp add: Diffusion_Driver.abort_def ex_engine_eval engine_init_def ex_two_eval ex_state_def
        get_sched_req_id_def)
qed

end
