(* ===== verification/Diffusion_Legacy.thy ===== *)
theory Diffusion_Legacy
  imports Diffusion_Delivery Sched_Properties
begin

text \<open>
  The synchronous path of \<open>DiffusionEngine\<close> (\<open>_add_req_and_wait_legacy\<close>): the caller runs the
  scheduler itself until its request is finished. \<open>arrive\<close> gives the aborts other threads queue
  before each poll, \<open>exec\<close> the outcome of each execution; the loop takes fuel and returns
  \<open>None\<close> when it runs out.
\<close>

definition finalize_finished_request ::
  "'s sched_ops \<Rightarrow> string \<Rightarrow> runner_output option \<Rightarrow> string \<Rightarrow> 's engine
     \<Rightarrow> 's engine \<times> diffusion_output res" where
  "finalize_finished_request ops i ro missing e =
     (let st0 = op_get_request_state ops (scheduler_state e) i;
          (s, popped) = op_pop_request_state ops i (scheduler_state e);
          e1 = e\<lparr>scheduler_state := s\<rparr>
      in case (case st0 of Some x \<Rightarrow> Some x | None \<Rightarrow> popped) of
           None \<Rightarrow> (e1, Inl RuntimeError)
         | Some st \<Rightarrow>
             if status st = FINISHED_ABORTED then (e1, Inr (aborted_output i st))
             else (case ro of
                     None \<Rightarrow> (e1, Inr (error_output missing))
                   | Some r \<Rightarrow> (case result_for r i of
                         Some res \<Rightarrow> (e1, Inr res)
                       | None \<Rightarrow> (e1, Inr (error_output missing)))))"

fun legacy_loop ::
  "'s sched_ops \<Rightarrow> (nat \<Rightarrow> string list) \<Rightarrow> (nat \<Rightarrow> sched_output \<Rightarrow> exec_result) \<Rightarrow> string \<Rightarrow> nat \<Rightarrow> nat
     \<Rightarrow> 's engine \<Rightarrow> ('s engine \<times> diffusion_output res) option" where
  "legacy_loop ops arrive exec target 0 clock e = None"
| "legacy_loop ops arrive exec target (Suc fuel) clock e =
     (let e1 = process_aborts_queue ops (abort (arrive (2 * clock)) e);
          (s, out) = op_schedule ops (scheduler_state e1);
          e2 = e1\<lparr>scheduler_state := s\<rparr>
      in if is_empty out then
           (if target \<in> out_finished_req_ids out
            then Some (finalize_finished_request ops target None
              ''Diffusion scheduler finished target request without execution output.'' e2)
            else if \<not> op_has_requests ops (scheduler_state e2) then Some (e2, Inl RuntimeError)
            else legacy_loop ops arrive exec target fuel (clock + 1) e2)
         else
           (case run_result out (exec clock out) of
              None \<Rightarrow> Some (e2, Inl EngineDeadError)
            | Some ro \<Rightarrow>
                (case driver_update ops out ro (abort (arrive (2 * clock + 1)) e2) of
                   (e3, Inl x) \<Rightarrow> Some (e3, Inl x)
                 | (e3, Inr fin) \<Rightarrow>
                     if target \<in> fin
                     then Some (finalize_finished_request ops target (Some ro)
                       ''Diffusion execution finished without a final output.'' e3)
                     else legacy_loop ops arrive exec target fuel (clock + 1) e3)))"

definition add_req_and_wait_legacy ::
  "'s sched_ops \<Rightarrow> (nat \<Rightarrow> string list) \<Rightarrow> (nat \<Rightarrow> sched_output \<Rightarrow> exec_result) \<Rightarrow> nat \<Rightarrow> string \<Rightarrow> request
     \<Rightarrow> 's engine \<Rightarrow> ('s engine \<times> diffusion_output res) option" where
  "add_req_and_wait_legacy ops arrive exec fuel rnd rq e =
     (case op_add_request ops rnd rq (scheduler_state e) of
        None \<Rightarrow> None
      | Some (s, Inl x) \<Rightarrow> Some (e\<lparr>scheduler_state := s\<rparr>, Inl x)
      | Some (s, Inr i) \<Rightarrow> legacy_loop ops arrive exec i fuel 0 (e\<lparr>scheduler_state := s\<rparr>))"

section \<open>The queue shrinks\<close>

abbreviation queued :: "sched \<Rightarrow> string set" where
  "queued s \<equiv> set (running s) \<union> set (waiting s)"

lemma abort_state [simp]: "scheduler_state (abort ids e) = scheduler_state e"
  by (simp add: Diffusion_Driver.abort_def)

lemma aborts_shrink:
  assumes "sched_inv (scheduler_state e)"
  shows "sched_inv (scheduler_state (process_aborts_queue request_ops e))"
    and "queued (scheduler_state (process_aborts_queue request_ops e)) \<subseteq> queued (scheduler_state e)"
proof -
  note pa = req_sched.process_aborts_ok [OF assms]
  show inv: "sched_inv (scheduler_state (process_aborts_queue request_ops e))" by (rule pa(1))
  show "queued (scheduler_state (process_aborts_queue request_ops e)) \<subseteq> queued (scheduler_state e)"
    using pa(3) live_iff_queued [OF assms] live_iff_queued [OF inv] by (auto simp: request_ops_def)
qed

lemma update_shrinks:
  assumes inv: "sched_inv (scheduler_state e)" and up: "driver_update request_ops out ro e = (e', res)"
    and ne: "\<exists>i \<in> set (scheduled_req_ids out). i \<in> queued (scheduler_state e)"
  shows "sched_inv (scheduler_state e')" and "\<exists>fin. res = Inr fin"
    and "queued (scheduler_state e') \<subset> queued (scheduler_state e)"
    and "i \<in> set (scheduled_req_ids out) \<Longrightarrow> i \<notin> queued (scheduler_state e')"
proof -
  define s1 where "s1 = scheduler_state (process_aborts_queue request_ops e)"
  note sh = aborts_shrink [OF inv, folded s1_def]
  obtain s2 r where eq: "request_update_from_output out ro s1 = (s2, r)" by (rule prod.exhaust)
  then have e': "scheduler_state e' = s2" "res = r"
    using up by (auto simp: driver_update_def Let_def s1_def request_ops_def)
  note f = request_update_facts [OF sh(1) eq]
  have q2: "queued s2 = queued s1 - set (scheduled_req_ids out)"
    using f(2) live_iff_queued [OF sh(1)] live_iff_queued [OF f(1)] by auto
  show "sched_inv (scheduler_state e')" "\<exists>fin. res = Inr fin" using f(1,3) e' by auto
  show "queued (scheduler_state e') \<subset> queued (scheduler_state e)" using sh(2) q2 ne e'(1) by blast
  show "i \<in> set (scheduled_req_ids out) \<Longrightarrow> i \<notin> queued (scheduler_state e')" using q2 e'(1) by blast
qed

lemma some_pair: "\<exists>a b. Some p = Some (a, b)"
  by (cases p) simp

lemma legacy_loop_returns:
  assumes "sched_inv (scheduler_state e)" and "card (queued (scheduler_state e)) < fuel"
  shows "\<exists>e' r. legacy_loop request_ops arrive exec target fuel clock e = Some (e', r)"
  using assms
proof (induction fuel arbitrary: clock e)
  case 0
  then show ?case by simp
next
  case (Suc fuel)
  define e1 where "e1 = process_aborts_queue request_ops (abort (arrive (2 * clock)) e)"
  have s1: "sched_inv (scheduler_state e1)" "queued (scheduler_state e1) \<subseteq> queued (scheduler_state e)"
    using aborts_shrink [of "abort (arrive (2 * clock)) e"] Suc.prems(1) by (simp_all add: e1_def)
  obtain s out where sch: "op_schedule request_ops (scheduler_state e1) = (s, out)" by (rule prod.exhaust)
  note so = req_sched.schedule_ok [OF s1(1) sch]
  have q: "queued s = queued (scheduler_state e1)" and inv: "sched_inv s" using so by simp_all
  show ?case
  proof (cases "is_empty out")
    case True
    then have "queued (scheduler_state e1) = {}" using so by auto
    then have "\<not> op_has_requests request_ops s" using q by (simp add: request_ops_def has_requests_def)
    then show ?thesis using sch True
      by (auto simp: e1_def [symmetric] Let_def some_pair)
  next
    case False
    show ?thesis
    proof (cases "run_result out (exec clock out)")
      case None
      then show ?thesis using sch False by (simp add: e1_def [symmetric])
    next
      case (Some ro)
      let ?e2 = "abort (arrive (2 * clock + 1)) (e1\<lparr>scheduler_state := s\<rparr>)"
      obtain e3 res where up: "driver_update request_ops out ro ?e2 = (e3, res)" by (rule prod.exhaust)
      have inv2: "sched_inv (scheduler_state ?e2)" using inv by simp
      have "scheduled_req_ids out \<noteq> []" using False by (simp add: is_empty_def)
      moreover have "set (scheduled_req_ids out) = set (running s)" using so by (metis set_mset_mset)
      ultimately have ne: "\<exists>i \<in> set (scheduled_req_ids out). i \<in> queued (scheduler_state ?e2)"
        by (cases "scheduled_req_ids out") auto
      note u = update_shrinks [OF inv2 up ne]
      obtain fin where fin: "res = Inr fin" using u(2) by blast
      have "queued (scheduler_state e3) \<subset> queued (scheduler_state e)" using u(3) q s1(2) by auto
      then have "card (queued (scheduler_state e3)) < card (queued (scheduler_state e))"
        by (intro psubset_card_mono) auto
      then have "card (queued (scheduler_state e3)) < fuel" using Suc.prems(2) by simp
      note IH = Suc.IH [OF u(1) this, of "clock + 1"]
      then show ?thesis
        using sch False Some up fin
        by (cases "target \<in> fin") (auto simp: e1_def [symmetric] Let_def some_pair)
    qed
  qed
qed

text \<open>The synchronous path always returns with a RequestScheduler: whatever the executions
  yield and whichever aborts arrive, as many iterations as there are queued requests, the new one
  included, plus one are enough.\<close>

theorem legacy_wait_returns:
  assumes "sched_inv (scheduler_state e)"
    and "length (running (scheduler_state e)) + length (waiting (scheduler_state e)) + 1 < fuel"
  shows "\<exists>e' r. add_req_and_wait_legacy request_ops arrive exec fuel rnd rq e = Some (e', r)"
proof -
  let ?s = "scheduler_state e"
  have "\<exists>s r. add_request rnd rq ?s = Some (s, r)"
  proof -
    have "states_ok ?s" using assms(1) by (simp add: sched_inv_def sched_wf_def)
    then obtain i where i: "make_sched_req_id rnd rq ?s = Some i" using make_sched_req_id_returns by blast
    then show ?thesis by (simp add: add_request_def some_pair)
  qed
  then obtain s r where a: "add_request rnd rq ?s = Some (s, r)" by blast
  show ?thesis
  proof (cases r)
    case (Inl x)
    then show ?thesis using a by (simp add: add_req_and_wait_legacy_def request_ops_def)
  next
    case (Inr i)
    note f = add_facts [OF assms(1) a [unfolded Inr]]
    have "card (queued s) \<le> length (running s @ waiting s)" by (metis card_length set_append)
    then have "card (queued s) < fuel" using f(3,4) assms(2) by simp
    then have "\<exists>e' r. legacy_loop request_ops arrive exec i fuel 0 (e\<lparr>scheduler_state := s\<rparr>) = Some (e', r)"
      using f(1) by (intro legacy_loop_returns) simp_all
    then show ?thesis using a Inr by (simp add: add_req_and_wait_legacy_def request_ops_def)
  qed
qed

definition ex_base :: sched where
  "ex_base = \<lparr>request_states = Map.empty, request_id_to_sched_req_id = Map.empty, step_id = 0,
     waiting = [], running = [], finished_req_ids = {}, max_num_running_reqs = 1,
     batch_strategy = Fifo, duration_bucket_tokens = 128, duration_estimator = None, pad_tolerance = 1\<rparr>"

theorem legacy_wait_returns_witness:
  "\<exists>e' r. add_req_and_wait_legacy request_ops (\<lambda>_. []) (\<lambda>_ _. Raised ''boom'') 2 ''r'' (ex_request ''a'')
      (engine_init ex_base) = Some (e', r)"
  by (rule legacy_wait_returns) (simp_all add: ex_base_def engine_init_def sched_inv_defs is_live_def)

end
