(* ===== verification/Worker_Cache.thy ===== *)
theory Worker_Cache
  imports Diffusion_Driver Sched_Properties
begin

text \<open>
  The step-wise execution of \<open>DiffusionModelRunner\<close> (\<open>diffusion/worker/diffusion_model_runner.py\<close>)
  and its request states (\<open>diffusion/worker/utils.py\<close>), together with the StepScheduler that
  drives it. The pipeline's operations are arguments: they may raise, and they change the request
  state (they cannot change its id, which the code never assigns). What matters is the protocol
  between the two sides: which requests the worker has cached when an output arrives.
\<close>

section \<open>Request states of the worker\<close>

text \<open>\<open>timesteps\<close>: \<open>None\<close>, a zero-dimensional tensor, or a list or tensor of a given length.\<close>

datatype schedule_steps = Scalar | Steps nat

record worker_state =
  w_req_id :: string
  w_sampling :: sampling
  w_prompts :: "prompt list"
  w_timesteps :: "schedule_steps option"
  w_step_index :: int

definition ws_total_steps :: "worker_state \<Rightarrow> int" where
  "ws_total_steps w = (case w_timesteps w of None \<Rightarrow> 0 | Some Scalar \<Rightarrow> 1 | Some (Steps n) \<Rightarrow> int n)"

definition denoise_completed :: "worker_state \<Rightarrow> bool" where
  "denoise_completed w =
     (let n = ws_total_steps w in if n = 0 then False else w_step_index w \<ge> n)"

definition is_new_request :: "worker_state \<Rightarrow> bool" where
  "is_new_request w \<longleftrightarrow> w_step_index w = 0 \<or> w_timesteps w = None"

text \<open>\<open>current_timestep\<close>: the position it reads, \<open>None\<close> without one; Python accepts an index from
  the end.\<close>

definition current_timestep :: "worker_state \<Rightarrow> nat option res" where
  "current_timestep w =
     (case w_timesteps w of
        None \<Rightarrow> Inr None
      | Some Scalar \<Rightarrow> if w_step_index w \<ge> 1 then Inr None else Inr (Some 0)
      | Some (Steps n) \<Rightarrow>
          if w_step_index w \<ge> int n then Inr None
          else if w_step_index w \<ge> 0 then Inr (Some (nat (w_step_index w)))
          else if - w_step_index w \<le> int n then Inr (Some (nat (int n + w_step_index w)))
          else Inl IndexError)"

type_synonym cache = "string \<rightharpoonup> worker_state"

datatype worker_error =
    Missing_Cached_State string
  | Duplicate_New_Request string
  | Prompt_Count_Mismatch
  | Batch_Not_Supported
  | Pipeline_Error string

section \<open>Before and after a step\<close>

definition fresh_state :: "string \<Rightarrow> request \<Rightarrow> worker_state" where
  "fresh_state i r = \<lparr>w_req_id = i, w_sampling = sampling_params r, w_prompts = prompts r,
     w_timesteps = None, w_step_index = 0\<rparr>"

fun collect_states ::
  "(string \<Rightarrow> new_request_data option) \<Rightarrow> string list \<Rightarrow> cache \<Rightarrow> (worker_state \<times> bool) list
     \<Rightarrow> cache \<times> (worker_error + (worker_state \<times> bool) list)" where
  "collect_states new [] c items = (c, Inr items)"
| "collect_states new (i # is) c items =
     (case new i of
        None \<Rightarrow>
          (case c i of
             None \<Rightarrow> (c, Inl (Missing_Cached_State i))
           | Some w \<Rightarrow> collect_states new is c (items @ [(w, False)]))
      | Some nr \<Rightarrow>
          if c i \<noteq> None then (c, Inl (Duplicate_New_Request i))
          else
            let r = new_req nr;
                rids = (if request_ids r = [] then [i] else request_ids r)
            in if length rids \<noteq> length (prompts r) then (c, Inl Prompt_Count_Mismatch)
               else collect_states new is (c(i \<mapsto> fresh_state i r)) (items @ [(fresh_state i r, True)]))"

definition new_req_by_id :: "new_request_data list \<Rightarrow> string \<Rightarrow> new_request_data option" where
  "new_req_by_id nrs = map_of (rev (map (\<lambda>nr. (new_sched_req_id nr, nr)) nrs))"

definition update_states_batch ::
  "sched_output \<Rightarrow> cache \<Rightarrow> cache \<times> (worker_error + (worker_state \<times> bool) list)" where
  "update_states_batch out c =
     collect_states (new_req_by_id (scheduled_new_reqs out)) (scheduled_req_ids out)
       (\<lambda>i. if i \<in> out_finished_req_ids out then None else c i) []"

definition update_states_after :: "string \<Rightarrow> bool \<Rightarrow> cache \<Rightarrow> cache" where
  "update_states_after i fin c = (if fin then c(i := None) else c)"

section \<open>execute_stepwise\<close>

text \<open>
  The pipeline: \<open>execute_step_batch\<close> when it has one, else the four single-request operations and
  the interrupt flag. A state_op returns the state it leaves, also when it raises (\<open>Inl\<close>).
\<close>

type_synonym 'a state_op = "worker_state \<Rightarrow> worker_state \<times> (string + 'a)"

datatype pipeline =
    Batched "(worker_state \<times> bool) list \<Rightarrow> (string \<Rightarrow> worker_state \<Rightarrow> worker_state) \<times> (string + runner_output)"
  | Single "unit state_op" "nat option state_op" bool "nat option \<Rightarrow> unit state_op" "diffusion_output state_op"

definition keep_id :: "worker_state \<Rightarrow> worker_state \<Rightarrow> worker_state" where
  "keep_id w w' = w'\<lparr>w_req_id := w_req_id w\<rparr>"

definition apply_to_cache ::
  "(string \<Rightarrow> worker_state \<Rightarrow> worker_state) \<Rightarrow> (worker_state \<times> bool) list \<Rightarrow> cache \<Rightarrow> cache" where
  "apply_to_cache f items c =
     (\<lambda>i. if list_ex (\<lambda>p. w_req_id (fst p) = i) items
          then map_option (\<lambda>w. keep_id w (f i w)) (c i) else c i)"

definition run_single ::
  "unit state_op \<Rightarrow> nat option state_op \<Rightarrow> bool \<Rightarrow> (nat option \<Rightarrow> unit state_op) \<Rightarrow> diffusion_output state_op
     \<Rightarrow> worker_state \<Rightarrow> bool \<Rightarrow> worker_state \<times> (string + bool \<times> diffusion_output option)" where
  "run_single prepare_encode denoise_step interrupt step_scheduler post_decode w new =
     (case (if new then prepare_encode w else (w, Inr ())) of
        (w1, Inl x) \<Rightarrow> (w1, Inl x)
      | (w1, Inr _) \<Rightarrow>
          (case denoise_step w1 of
             (w2, Inl x) \<Rightarrow> (w2, Inl x)
           | (w2, Inr noise) \<Rightarrow>
               if noise = None \<and> interrupt
               then (w2, Inr (True, Some (error_output ''stepwise denoise interrupted'')))
               else
                 (case step_scheduler noise w2 of
                    (w3, Inl x) \<Rightarrow> (w3, Inl x)
                  | (w3, Inr _) \<Rightarrow>
                      if denoise_completed w3
                      then (case post_decode w3 of
                              (w4, Inl x) \<Rightarrow> (w4, Inl x)
                            | (w4, Inr r) \<Rightarrow> (w4, Inr (True, Some r)))
                      else (w3, Inr (False, None)))))"

definition single_output :: "string \<Rightarrow> worker_state \<Rightarrow> bool \<Rightarrow> diffusion_output option \<Rightarrow> runner_output" where
  "single_output i w fin r = \<lparr>ro_req_id = i, ro_step_index = Some (w_step_index w),
     ro_finished = fin, ro_result = r, per_request_results = None,
     per_request_finished = None, per_request_step_indices = None\<rparr>"

definition execute_stepwise ::
  "pipeline \<Rightarrow> sched_output \<Rightarrow> cache \<Rightarrow> cache \<times> (worker_error + runner_output)" where
  "execute_stepwise pl out c =
     (case update_states_batch out c of
        (c1, Inl x) \<Rightarrow> (c1, Inl x)
      | (c1, Inr items) \<Rightarrow>
          (case pl of
             Batched run \<Rightarrow>
               (case run items of
                  (f, Inl msg) \<Rightarrow> (apply_to_cache f items c1, Inl (Pipeline_Error msg))
                | (f, Inr ro) \<Rightarrow>
                    (foldl (\<lambda>c p. update_states_after (w_req_id (fst p)) (finished_flag ro (w_req_id (fst p))) c)
                       (apply_to_cache f items c1) items, Inr ro))
           | Single pe dn itr ss pd \<Rightarrow>
               (case items of
                  [(w, new)] \<Rightarrow>
                    (case run_single pe dn itr ss pd w new of
                       (w', Inl msg) \<Rightarrow> (c1(w_req_id w \<mapsto> keep_id w w'), Inl (Pipeline_Error msg))
                     | (w', Inr (fin, r)) \<Rightarrow>
                         (update_states_after (w_req_id w) fin (c1(w_req_id w \<mapsto> keep_id w w')),
                          Inr (single_output (w_req_id w) w' fin r)))
                | _ \<Rightarrow> (c1, Inl Batch_Not_Supported))))"

section \<open>The scheduler and the worker together\<close>

text \<open>\<open>in_flight\<close> is the batch whose execution is over but whose output the scheduler has not
  processed; requests can be added or aborted meanwhile.\<close>

record stepwise_system =
  sys_sched :: step_sched
  sys_cache :: cache
  in_flight :: "(sched_output \<times> runner_output) option"

definition engine_output :: "sched_output \<Rightarrow> worker_error + runner_output \<Rightarrow> string \<Rightarrow> runner_output" where
  "engine_output out r msg = (case r of Inl _ \<Rightarrow> failed_output out msg | Inr ro \<Rightarrow> ro)"

inductive stepwise :: "stepwise_system \<Rightarrow> stepwise_system \<Rightarrow> bool" where
  add: "step_add_request rnd rq (sys_sched x) = Some (s', Inr i) \<Longrightarrow> stepwise x (x\<lparr>sys_sched := s'\<rparr>)"
| abort: "stepwise x (x\<lparr>sys_sched := fst (finish_requests ids FINISHED_ABORTED (sys_sched x))\<rparr>)"
| pop: "in_flight x = None \<Longrightarrow> \<not> is_live (request_states (sys_sched x)) i \<Longrightarrow>
    stepwise x (x\<lparr>sys_sched := fst (step_pop_request_state i (sys_sched x))\<rparr>)"
| execute: "in_flight x = None \<Longrightarrow> has_requests (sys_sched x) \<Longrightarrow>
    step_schedule (sys_sched x) = (s', out) \<Longrightarrow> execute_stepwise pl out (sys_cache x) = (c', r) \<Longrightarrow>
    stepwise x \<lparr>sys_sched = s', sys_cache = c', in_flight = Some (out, engine_output out r msg)\<rparr>"
| update: "in_flight x = Some (out, ro) \<Longrightarrow>
    stepwise x (x\<lparr>sys_sched := fst (step_update_from_output out ro (sys_sched x)), in_flight := None\<rparr>)"

section \<open>The worker's side of the protocol\<close>

definition keys_ok :: "cache \<Rightarrow> bool" where
  "keys_ok c \<longleftrightarrow> (\<forall>i w. c i = Some w \<longrightarrow> w_req_id w = i)"

lemma collect_states_ok:
  assumes "collect_states new is c items = (c', r)" and "distinct is" and "keys_ok c"
    and "\<forall>i \<in> set is. (new i = None) \<noteq> (c i = None)"
  shows "keys_ok c' \<and> dom c \<subseteq> dom c' \<and> dom c' \<subseteq> dom c \<union> set is
    \<and> (case r of
         Inl x \<Rightarrow> (\<forall>i. x \<noteq> Missing_Cached_State i \<and> x \<noteq> Duplicate_New_Request i)
       | Inr items' \<Rightarrow> set is \<subseteq> dom c'
           \<and> map (w_req_id \<circ> fst) items' = map (w_req_id \<circ> fst) items @ is)"
  using assms
proof (induction "is" arbitrary: c items)
  case Nil
  then show ?case by auto
next
  case (Cons i "is")
  show ?case
  proof (cases "new i")
    case None
    then obtain w where w: "c i = Some w" using Cons.prems(4) by auto
    have "w_req_id w = i" using Cons.prems(3) w by (simp add: keys_ok_def)
    moreover have "i \<in> dom c" using w by auto
    ultimately show ?thesis
      using Cons.IH [of c "items @ [(w, False)]"] Cons.prems None w
      by (auto split: sum.splits)
  next
    case (Some nr)
    then have ci: "c i = None" using Cons.prems(4) by auto
    show ?thesis
    proof (cases "length (if request_ids (new_req nr) = [] then [i] else request_ids (new_req nr))
        \<noteq> length (prompts (new_req nr))")
      case True
      then have "(c', r) = (c, Inl Prompt_Count_Mismatch)"
        using Cons.prems(1) Some ci by (auto simp: Let_def split: if_splits)
      then show ?thesis using Cons.prems(3) by auto
    next
      case False
      let ?w = "fresh_state i (new_req nr)"
      have eq: "collect_states new is (c(i \<mapsto> ?w)) (items @ [(?w, True)]) = (c', r)"
        using Cons.prems(1) Some ci False by (auto simp: Let_def split: if_splits)
      have k: "keys_ok (c(i \<mapsto> ?w))" "w_req_id ?w = i"
        using Cons.prems(3) by (auto simp: keys_ok_def fresh_state_def)
      have p: "\<forall>j \<in> set is. (new j = None) \<noteq> ((c(i \<mapsto> ?w)) j = None)"
        using Cons.prems(2,4) by auto
      have d: "distinct is" using Cons.prems(2) by simp
      show ?thesis
        using Cons.IH [OF eq d k(1) p] k(2) unfolding dom_fun_upd
        by (auto split: sum.splits)
    qed
  qed
qed

lemma update_after_fold:
  "foldl (\<lambda>c p. update_states_after (w_req_id (fst p)) (finished_flag ro (w_req_id (fst p))) c) c items i
     = (if i \<in> (w_req_id \<circ> fst) ` set items \<and> finished_flag ro i then None else c i)"
  by (induction items arbitrary: c) (auto simp: update_states_after_def)

lemma keys_ok_delete: "keys_ok c \<Longrightarrow> keys_ok (c(i := None))"
  by (simp add: keys_ok_def)

lemma apply_to_cache_ok:
  "keys_ok c \<Longrightarrow> keys_ok (apply_to_cache f items c)" "dom (apply_to_cache f items c) = dom c"
  by (auto simp: keys_ok_def apply_to_cache_def keep_id_def dom_def split: if_splits)

lemma new_req_by_id_None: "new_req_by_id nrs i = None \<longleftrightarrow> i \<notin> new_sched_req_id ` set nrs"
  by (force simp: new_req_by_id_def map_of_eq_None_iff)

lemma execute_stepwise_ok:
  assumes ex: "execute_stepwise pl out c = (c', r)" and d: "distinct (scheduled_req_ids out)"
    and keys: "keys_ok c"
    and proto: "\<forall>i \<in> set (scheduled_req_ids out).
      i \<in> new_sched_req_id ` set (scheduled_new_reqs out) \<longleftrightarrow>
      \<not> (i \<in> dom c \<and> i \<notin> out_finished_req_ids out)"
  shows "keys_ok c'"
    and "r \<noteq> Inl (Missing_Cached_State i)" and "r \<noteq> Inl (Duplicate_New_Request i)"
    and "dom c' \<subseteq> (dom c - out_finished_req_ids out) \<union> set (scheduled_req_ids out)"
    and "i \<in> dom c \<Longrightarrow> i \<notin> out_finished_req_ids out \<Longrightarrow> i \<notin> set (scheduled_req_ids out) \<Longrightarrow> i \<in> dom c'"
    and "i \<in> set (scheduled_req_ids out) \<Longrightarrow> i \<notin> dom c' \<Longrightarrow> r = Inr ro \<Longrightarrow> finished_flag ro i"
proof -
  define c0 where "c0 = (\<lambda>i. if i \<in> out_finished_req_ids out then None else c i)"
  obtain c1 r1 where up: "update_states_batch out c = (c1, r1)" by (rule prod.exhaust)
  have k0: "keys_ok c0" using keys by (auto simp: keys_ok_def c0_def split: if_splits)
  have dom0: "dom c0 = dom c - out_finished_req_ids out" by (auto simp: c0_def split: if_splits)
  have pr: "\<forall>i \<in> set (scheduled_req_ids out).
      (new_req_by_id (scheduled_new_reqs out) i = None) \<noteq> (c0 i = None)"
  proof
    fix j assume "j \<in> set (scheduled_req_ids out)"
    then have "j \<in> new_sched_req_id ` set (scheduled_new_reqs out) \<longleftrightarrow> j \<notin> dom c0"
      using proto dom0 by blast
    then show "(new_req_by_id (scheduled_new_reqs out) j = None) \<noteq> (c0 j = None)"
      unfolding new_req_by_id_None by (auto simp: domIff)
  qed
  have cs: "collect_states (new_req_by_id (scheduled_new_reqs out)) (scheduled_req_ids out) c0 [] = (c1, r1)"
    using up by (simp add: update_states_batch_def c0_def)
  note co = collect_states_ok [OF cs d k0 pr]
  have c01: "dom c0 \<subseteq> dom c1" "dom c1 \<subseteq> dom c0 \<union> set (scheduled_req_ids out)" using co by simp_all
  have all: "keys_ok c' \<and> (\<forall>i. r \<noteq> Inl (Missing_Cached_State i) \<and> r \<noteq> Inl (Duplicate_New_Request i))
    \<and> dom c' \<subseteq> dom c1 \<and> (\<forall>i \<in> dom c1 - dom c'. i \<in> set (scheduled_req_ids out)
        \<and> (\<forall>ro. r = Inr ro \<longrightarrow> finished_flag ro i)) \<and> (\<forall>ro. r = Inr ro \<longrightarrow> set (scheduled_req_ids out) \<subseteq> dom c1)"
  proof (cases r1)
    case (Inl x)
    then have "c' = c1" "r = Inl x" using ex up by (simp_all add: execute_stepwise_def)
    then show ?thesis using co Inl by auto
  next
    case (Inr items)
    then have it: "(w_req_id \<circ> fst) ` set items = set (scheduled_req_ids out)"
      "set (scheduled_req_ids out) \<subseteq> dom c1" "keys_ok c1"
    proof -
      have "map (w_req_id \<circ> fst) items = scheduled_req_ids out" using co Inr by simp
      then show "(w_req_id \<circ> fst) ` set items = set (scheduled_req_ids out)" by (metis set_map)
    qed (use co Inr in auto)
    show ?thesis
    proof (cases pl)
      case (Batched run)
      obtain f res where run: "run items = (f, res)" by (rule prod.exhaust)
      note ac = apply_to_cache_ok(1) [OF it(3), of f items] apply_to_cache_ok(2) [of f items c1]
      show ?thesis
      proof (cases res)
        case (Inl msg)
        then have "c' = apply_to_cache f items c1" "r = Inl (Pipeline_Error msg)"
          using ex up Inr Batched run by (simp_all add: execute_stepwise_def)
        then show ?thesis using ac it by simp
      next
        case ro: (Inr ro)
        have r: "r = Inr ro" and cf: "c' = foldl (\<lambda>c p. update_states_after (w_req_id (fst p))
            (finished_flag ro (w_req_id (fst p))) c) (apply_to_cache f items c1) items"
          using ex up Inr Batched run ro by (simp_all add: execute_stepwise_def)
        have c': "c' = (\<lambda>i. if i \<in> set (scheduled_req_ids out) \<and> finished_flag ro i then None
             else apply_to_cache f items c1 i)"
          unfolding cf update_after_fold it(1) ..
        have "keys_ok c'" using ac(1) by (auto simp: keys_ok_def c' split: if_splits)
        moreover have "i \<in> dom c' \<longleftrightarrow> i \<in> dom c1 \<and> \<not> (i \<in> set (scheduled_req_ids out) \<and> finished_flag ro i)" for i
          using ac(2) by (auto simp: c' domIff)
        ultimately show ?thesis using r it by auto
      qed
    next
      case (Single pe dn itr ss pd)
      show ?thesis
      proof (cases "\<exists>w new. items = [(w, new)]")
        case False
        then have "c' = c1 \<and> r = Inl Batch_Not_Supported"
          using ex up Inr Single by (auto simp: execute_stepwise_def split: list.splits)
        then show ?thesis using it by simp
      next
        case True
        then obtain w new where items: "items = [(w, new)]" by blast
        then have sched: "set (scheduled_req_ids out) = {w_req_id w}" using it(1) by simp
        obtain w' res where run: "run_single pe dn itr ss pd w new = (w', res)" by (rule prod.exhaust)
        have k2: "keys_ok (c1(w_req_id w \<mapsto> keep_id w w'))" "insert (w_req_id w) (dom c1) = dom c1"
          using it(2,3) sched by (auto simp: keys_ok_def keep_id_def)
        show ?thesis
        proof (cases res)
          case (Inl msg)
          then have "c' = c1(w_req_id w \<mapsto> keep_id w w')" "r = Inl (Pipeline_Error msg)"
            using ex up Inr Single items run by (simp_all add: execute_stepwise_def)
          then show ?thesis using k2 by auto
        next
          case rr: (Inr p)
          obtain fin o' where p: "p = (fin, o')" by (rule prod.exhaust)
          have c': "c' = update_states_after (w_req_id w) fin (c1(w_req_id w \<mapsto> keep_id w w'))"
            and r: "r = Inr (single_output (w_req_id w) w' fin o')"
            using ex up Inr Single items run rr p by (simp_all add: execute_stepwise_def)
          have "finished_flag (single_output (w_req_id w) w' fin o') (w_req_id w) = fin"
            by (simp add: finished_flag_def single_output_def)
          moreover have "keys_ok c'"
            using k2(1) keys_ok_delete [OF it(3)] by (simp add: c' update_states_after_def del: fun_upd_apply)
          moreover have "i \<in> dom c' \<longleftrightarrow> i \<in> dom c1 \<and> \<not> (fin \<and> i = w_req_id w)" for i
          proof -
            have "w_req_id w \<in> dom c1" using k2(2) by blast
            then show ?thesis by (cases fin; cases "i = w_req_id w") (auto simp: c' update_states_after_def)
          qed
          ultimately show ?thesis using sched it(2) unfolding r by (cases fin) blast+
        qed
      qed
    qed
  qed
  show "keys_ok c'" "r \<noteq> Inl (Missing_Cached_State i)" "r \<noteq> Inl (Duplicate_New_Request i)"
    using all by blast+
  show "dom c' \<subseteq> (dom c - out_finished_req_ids out) \<union> set (scheduled_req_ids out)"
    using all c01 dom0 by blast
  have gone: "j \<in> set (scheduled_req_ids out)" "r = Inr ro \<Longrightarrow> finished_flag ro j"
    if "j \<in> dom c1" "j \<notin> dom c'" for j ro
  proof -
    from all have "\<forall>i \<in> dom c1 - dom c'. i \<in> set (scheduled_req_ids out)
        \<and> (\<forall>ro. r = Inr ro \<longrightarrow> finished_flag ro i)" by (elim conjE)
    with that show "j \<in> set (scheduled_req_ids out)" "r = Inr ro \<Longrightarrow> finished_flag ro j" by blast+
  qed
  show "i \<in> dom c'" if "i \<in> dom c" "i \<notin> out_finished_req_ids out" "i \<notin> set (scheduled_req_ids out)"
  proof -
    have "i \<in> dom c1" using that(1,2) dom0 c01(1) by blast
    then show ?thesis using gone(1) that(3) by blast
  qed
  show "finished_flag ro i" if "i \<in> set (scheduled_req_ids out)" "i \<notin> dom c'" "r = Inr ro"
  proof -
    have "i \<in> dom c1" using all that(1,3) by (elim conjE) blast
    then show ?thesis using gone(2) that(2,3) by blast
  qed
qed

section \<open>The scheduler's side of the protocol\<close>

definition started :: "step_sched \<Rightarrow> string \<Rightarrow> bool" where
  "started s i \<longleftrightarrow> is_live (request_states s) i \<and> \<not> is_waiting_id (request_states s) i"

lemma running_status:
  "queues_ok s \<Longrightarrow> i \<in> set (running s) \<Longrightarrow> \<exists>st. request_states s i = Some st \<and> status st = RUNNING"
  by (simp add: queues_ok_def)

lemma started_schedule:
  assumes inv: "step_inv s" and eq: "step_schedule s = (s', out)"
  shows "set (scheduled_req_ids out) = set (running s')" and "distinct (scheduled_req_ids out)"
    and "new_sched_req_id ` set (scheduled_new_reqs out)
       = {i \<in> set (scheduled_req_ids out). is_waiting_id (request_states s) i}"
    and "i \<in> set (scheduled_req_ids out) \<Longrightarrow> is_live (request_states s) i"
    and "started s' i \<longleftrightarrow> started s i \<or> i \<in> set (scheduled_req_ids out)"
proof -
  have sinv: "sched_inv s" and eqs: "schedule step_hooks s = (s', out)"
    using inv eq by (simp_all add: step_inv_def step_schedule_def)
  have q: "queues_ok s" and st: "states_ok s" using sinv by (simp_all add: sched_inv_def sched_wf_def)
  have inv': "step_inv s'" using step_schedule_inv [OF inv] eq by simp
  have sinv': "sched_inv s'" and q': "queues_ok s'"
    using inv' by (simp_all add: step_inv_def sched_inv_def sched_wf_def)
  note f = schedule_facts [OF sinv _ eqs]
  have m: "mset (scheduled_req_ids out) = mset (running s')" using f(3) by simp
  then show ids: "set (scheduled_req_ids out) = set (running s')" by (metis set_mset_mset)
  have "distinct (running s')" using q' by (simp add: queues_ok_def)
  then show "distinct (scheduled_req_ids out)" using m by (metis mset_eq_imp_distinct_iff)
  define sel where "sel = fst (select_waiting step_hooks s)"
  have run: "running s' = running s @ sel" and s': "s' = after_selection (select_waiting step_hooks s) s"
    using schedule_running(1) [OF q eqs] schedule_state [OF q eqs] by (simp_all add: sel_def)
  have live_sel: "request_states s i \<noteq> None" if "i \<in> set sel" for i
    using selector.sel_live(2) [OF q, of step_hooks] that unfolding sel_def by blast
  have "scheduled_new_reqs out = map (\<lambda>i. from_state (the (request_states s i)))
           (filter (is_waiting_id (request_states s)) sel)"
  proof -
    have "out = snd (schedule step_hooks s)" using eqs by simp
    then show ?thesis unfolding schedule_def selector.schedule_eq [OF q, of step_hooks] by (simp add: sel_def)
  qed
  then have "map new_sched_req_id (scheduled_new_reqs out) = filter (is_waiting_id (request_states s)) sel"
    using map_new_ids [OF st, of "filter (is_waiting_id (request_states s)) sel"] live_sel
    by (simp add: comp_def)
  then have "new_sched_req_id ` set (scheduled_new_reqs out) = set (filter (is_waiting_id (request_states s)) sel)"
    by (metis list.set_map)
  moreover have "\<not> is_waiting_id (request_states s) i" if "i \<in> set (running s)" for i
  proof -
    have "\<exists>st. request_states s i = Some st \<and> status st = RUNNING"
      by (rule running_status [OF q that])
    then show ?thesis by (auto simp: is_waiting_id_def)
  qed
  ultimately show "new_sched_req_id ` set (scheduled_new_reqs out)
       = {i \<in> set (scheduled_req_ids out). is_waiting_id (request_states s) i}"
    unfolding ids run by auto
  show "is_live (request_states s) i" if "i \<in> set (scheduled_req_ids out)"
  proof -
    have "i \<in> set (running s) \<union> set (waiting s)" using that f(4) unfolding ids by auto
    then show ?thesis using live_iff_queued [OF sinv, of i] by simp
  qed
  show "started s' i \<longleftrightarrow> started s i \<or> i \<in> set (scheduled_req_ids out)"
  proof (cases "i \<in> set (running s')")
    case True
    then obtain st where "request_states s' i = Some st" "status st = RUNNING"
      using running_status [OF q' True] by blast
    then have "started s' i" by (simp add: started_def is_live_def is_waiting_id_def)
    then show ?thesis using True ids by blast
  next
    case False
    then have "request_states s' i = request_states s i"
      using s' run by (auto simp: after_selection_def set_running_def sel_def)
    then show ?thesis using False ids by (simp add: started_def is_live_def is_waiting_id_def)
  qed
qed

lemma set_step_waiting [simp]: "is_waiting_id (request_states (set_step j n c s)) i = is_waiting_id (request_states s) i"
  by (auto simp: is_waiting_id_def set_step_def with_step_index_def split: option.split)

lemma step_update_loop_waiting:
  "step_update_loop ro is s d yielded = (s1, d1, y1) \<Longrightarrow>
     is_waiting_id (request_states s1) i = is_waiting_id (request_states s) i"
  by (induction ro "is" s d yielded rule: step_update_loop.induct)
    (auto split: step_result.splits bool.splits)

lemma yield_loop_waiting_id:
  "step_inv s \<Longrightarrow> is_waiting_id (request_states (yield_loop p is s)) i = is_waiting_id (request_states s) i"
proof (induction p "is" s rule: yield_loop.induct)
  case (1 p s)
  then show ?case by simp
next
  case (2 p j "is" s)
  show ?case
  proof (cases "\<exists>st. request_states s j = Some st \<and> \<not> is_finished (status st) \<and> j \<in> set (running s)
        \<and> (p \<or> should_yield_to_shorter_waiting_continuation s st)")
    case True
    then obtain st where st: "request_states s j = Some st" "\<not> is_finished (status st)"
      "j \<in> set (running s)" "p \<or> should_yield_to_shorter_waiting_continuation s st" by blast
    define s2 where "s2 = s\<lparr>running := remove1 j (running s),
       request_states := (request_states s)(j \<mapsto> st\<lparr>status := PREEMPTED\<rparr>),
       waiting := waiting s @ [j]\<rparr>"
    have eq: "yield_loop p (j # is) s = yield_loop p is s2" using st by (auto simp: s2_def)
    have inv2: "step_inv s2" unfolding s2_def by (rule yield_one_inv [OF "2.prems" st(1,3)])
    have "status st = RUNNING" using "2.prems" st(1,3) by (auto simp: step_inv_def sched_inv_defs)
    then have "is_waiting_id (request_states s2) i = is_waiting_id (request_states s) i"
      using st(1) by (simp add: s2_def is_waiting_id_def)
    moreover have "is_waiting_id (request_states (yield_loop p is s2)) i = is_waiting_id (request_states s2) i"
      using "2.IH"(5) [OF st(1,2)] st(3,4) inv2 unfolding s2_def by blast
    ultimately show ?thesis unfolding eq by simp
  next
    case False
    then have "yield_loop p (j # is) s = yield_loop p is s" by (auto split: option.split)
    moreover have "is_waiting_id (request_states (yield_loop p is s)) i = is_waiting_id (request_states s) i"
      using "2.IH"(1-4) "2.prems" False by (cases "request_states s j") blast+
    ultimately show ?thesis by simp
  qed
qed

lemma started_update:
  assumes inv: "step_inv s" and eq: "step_update_from_output out ro s = (s', res)"
  shows "started s' i \<longleftrightarrow> started s i \<and> (i \<in> set (scheduled_req_ids out) \<longrightarrow> step_outcome s ro i = None)"
proof -
  note facts = step_update_facts [OF inv eq]
  have "is_waiting_id (request_states s') i = is_waiting_id (request_states s) i"
    if live: "is_live (request_states s') i"
  proof (cases "scheduled_req_ids out = []")
    case True
    then show ?thesis using eq by (simp add: step_update_from_output_def)
  next
    case False
    obtain s1 d yielded where loop: "step_update_loop ro (scheduled_req_ids out) s [] [] = (s1, d, yielded)"
      by (rule prod_cases3)
    define s2 where "s2 = s1\<lparr>running := filter (\<lambda>i. i \<notin> {i \<in> set (scheduled_req_ids out). step_outcome s ro i \<noteq> None \<and> is_live (request_states s) i}) (running s),
           waiting := filter (\<lambda>i. i \<notin> {i \<in> set (scheduled_req_ids out). step_outcome s ro i \<noteq> None \<and> is_live (request_states s) i}) (waiting s),
           request_states := apply_outcomes
             (\<lambda>i. if i \<in> set (scheduled_req_ids out) then step_outcome s ro i else None) (request_states s1),
           finished_req_ids := finished_req_ids s \<union> {i \<in> set (scheduled_req_ids out). step_outcome s ro i \<noteq> None \<and> is_live (request_states s) i}\<rparr>"
    note e = step_update_eq(1) [OF False loop, folded s2_def]
    have s': "s' = yield_loop (has_preferred_waiting_request step_hooks s2) yielded s2"
      using eq unfolding e yield_intermediate_results_def by simp
    have inv1: "step_inv s1" using step_update_loop_inv [OF loop inv] .
    have s2f: "s2 = fst (finish_requests_dict (outcome_statuses d) (outcome_errors d) s1)"
    proof -
      have f: "\<forall>i oc. step_outcome s ro i = Some oc \<longrightarrow> is_finished (fst oc)"
        by (blast dest: step_outcome_finished)
      have d: "d = collect_outcomes (step_outcome s ro) (scheduled_req_ids out) []"
        using loop by (rule step_update_loop_dict)
      show ?thesis
        using finish_collected(2) [OF f, of "scheduled_req_ids out" s1] step_update_loop_fields [OF loop]
        by (simp add: d s2_def)
    qed
    have "sched_inv s2"
      unfolding s2f using finish_requests_dict_inv [of s1, OF _ step_update_eq(2) [OF False loop]] inv1
      by (simp add: step_inv_def)
    moreover have "progress_ok s2"
      using inv1 by (rule_tac progress_ok_cong [of s1]) (auto simp: step_inv_def s2_def)
    ultimately have inv2: "step_inv s2" by (simp add: step_inv_def)
    have "step_outcome s ro i = None \<or> i \<notin> set (scheduled_req_ids out)" using live facts(2) by blast
    then have "request_states s2 i = request_states s1 i"
      by (auto simp: s2_def apply_outcomes_def split: option.split)
    then have "is_waiting_id (request_states s2) i = is_waiting_id (request_states s1) i"
      by (simp add: is_waiting_id_def)
    then show ?thesis
      using yield_loop_waiting_id [OF inv2] step_update_loop_waiting [OF loop] s' by simp
  qed
  then show ?thesis using facts(2) by (auto simp: started_def)
qed

section \<open>The joint invariant\<close>

text \<open>\<open>ends ro i\<close>: with this runner output the scheduler ends request \<open>i\<close> if it looks at it.\<close>

definition ends :: "runner_output \<Rightarrow> string \<Rightarrow> bool" where
  "ends ro i \<longleftrightarrow> (\<forall>s n. step_result_of s ro i \<noteq> Advance n False)"

lemma ends_flag: "finished_flag ro i \<Longrightarrow> ends ro i"
  by (auto simp: ends_def step_result_of_def finished_flag_def Let_def split: option.splits if_splits)

lemma ends_failed: "ends (failed_output out msg) i"
  by (auto simp: ends_def step_result_of_def failed_output_def result_for_def error_output_def Let_def
      split: option.splits if_splits)

lemma ends_outcome:
  assumes "ends ro i" "step_inv s" "is_live (request_states s) i"
  shows "step_outcome s ro i \<noteq> None"
proof -
  obtain st where st: "request_states s i = Some st" "\<not> is_finished (status st)"
    using assms(3) by (auto simp: is_live_iff)
  moreover obtain p where "request_progress s i = Some p"
    using assms(2) st(1) unfolding step_inv_def progress_ok_def by blast
  ultimately have "step_result_of s ro i \<noteq> Skip" by (auto simp: step_result_of_def Let_def split: option.split)
  then show ?thesis using assms(1) by (auto simp: step_outcome_def ends_def split: step_result.split)
qed

definition system_ok :: "stepwise_system \<Rightarrow> bool" where
  "system_ok x \<longleftrightarrow> step_inv (sys_sched x) \<and> keys_ok (sys_cache x)
     \<and> (\<forall>i. started (sys_sched x) i \<longrightarrow> i \<notin> finished_req_ids (sys_sched x))
     \<and> (\<forall>i \<in> dom (sys_cache x). started (sys_sched x) i \<or> i \<in> finished_req_ids (sys_sched x))
     \<and> (\<forall>i. started (sys_sched x) i \<longrightarrow> i \<in> dom (sys_cache x)
          \<or> (\<exists>out ro. in_flight x = Some (out, ro) \<and> i \<in> set (scheduled_req_ids out) \<and> ends ro i))"

text \<open>In a consistent system with no batch in flight, the next batch finds what it needs.\<close>

lemma next_batch_protocol:
  assumes ok: "system_ok x" and fl: "in_flight x = None" and eq: "step_schedule (sys_sched x) = (s', out)"
  shows "\<forall>i \<in> set (scheduled_req_ids out). i \<in> new_sched_req_id ` set (scheduled_new_reqs out) \<longleftrightarrow>
      \<not> (i \<in> dom (sys_cache x) \<and> i \<notin> out_finished_req_ids out)"
proof
  fix i assume i: "i \<in> set (scheduled_req_ids out)"
  have inv: "step_inv (sys_sched x)" and sinv: "sched_inv (sys_sched x)"
    using ok by (simp_all add: system_ok_def step_inv_def)
  note st = started_schedule [OF inv eq]
  have fins: "out_finished_req_ids out = finished_req_ids (sys_sched x)"
    using schedule_facts(2) [OF sinv, of step_hooks s' out] eq by (simp add: step_schedule_def)
  have live: "is_live (request_states (sys_sched x)) i" using st(4) [OF i] .
  show "i \<in> new_sched_req_id ` set (scheduled_new_reqs out) \<longleftrightarrow>
      \<not> (i \<in> dom (sys_cache x) \<and> i \<notin> out_finished_req_ids out)"
  proof (cases "is_waiting_id (request_states (sys_sched x)) i")
    case True
    then have "\<not> started (sys_sched x) i" by (simp add: started_def)
    then have "\<not> (i \<in> dom (sys_cache x) \<and> i \<notin> finished_req_ids (sys_sched x))"
      using ok unfolding system_ok_def by blast
    then show ?thesis using True i st(3) fins by simp
  next
    case False
    then have s: "started (sys_sched x) i" using live by (simp add: started_def)
    then have "i \<in> dom (sys_cache x)" "i \<notin> finished_req_ids (sys_sched x)"
      using ok fl unfolding system_ok_def by auto
    then show ?thesis using False st(3) fins by simp
  qed
qed

lemma started_unchanged:
  "request_states s' i = request_states s i \<Longrightarrow> started s' i = started s i"
  by (simp add: started_def is_live_def is_waiting_id_def)

lemma system_ok_step:
  assumes "stepwise x y" and ok: "system_ok x"
  shows "system_ok y"
  using assms(1)
proof cases
  case (add rnd rq s' i)
  have inv: "step_inv (sys_sched x)" using ok by (simp add: system_ok_def)
  note a = step_add_request_ok [OF inv add(2)]
  have "started s' j \<longleftrightarrow> started (sys_sched x) j" for j
    using a(2,6) by (cases "j = i") (auto simp: started_def is_live_def is_waiting_id_def)
  then show ?thesis using ok a(1,5) add(1) by (simp add: system_ok_def)
next
  case (abort ids)
  define s' where "s' = fst (finish_requests ids FINISHED_ABORTED (sys_sched x))"
  obtain r where eq: "finish_requests ids FINISHED_ABORTED (sys_sched x) = (s', r)"
    by (metis s'_def prod.collapse)
  have inv: "step_inv (sys_sched x)" and sinv: "sched_inv (sys_sched x)"
    using ok by (simp_all add: system_ok_def step_inv_def)
  have inv': "step_inv s'" unfolding s'_def by (rule step_finish_requests_inv [OF inv])
  note f = finish_facts [OF sinv _ eq]
  have st: "started s' i \<longleftrightarrow> started (sys_sched x) i \<and> i \<notin> set ids" for i
    using f(5) by (auto simp: started_def is_live_def is_waiting_id_def finish_state_def split: option.splits)
  have fin: "finished_req_ids s' = finished_req_ids (sys_sched x)
      \<union> {i \<in> set ids. is_live (request_states (sys_sched x)) i}" using f(2) by simp
  have live: "started (sys_sched x) i \<Longrightarrow> is_live (request_states (sys_sched x)) i" for i by (simp add: started_def)
  show ?thesis
    using ok inv' live unfolding abort(1) s'_def [symmetric] system_ok_def
    by (simp add: st fin) blast
next
  case (pop i)
  define s' where "s' = fst (step_pop_request_state i (sys_sched x))"
  have inv: "step_inv (sys_sched x)" using ok by (simp add: system_ok_def)
  have inv': "step_inv s'" unfolding s'_def by (rule step_pop_request_state_inv [OF inv pop(3)])
  note f = step_pop_facts [of i "sys_sched x", OF prod.collapse [symmetric], folded s'_def]
  have "started s' j \<longleftrightarrow> started (sys_sched x) j" for j
    using f(2) pop(3) by (cases "j = i") (auto simp: started_def is_live_def is_waiting_id_def)
  then show ?thesis using ok inv' f(5) unfolding pop(1) s'_def [symmetric] by (simp add: system_ok_def)
next
  case (execute s' out pl c' r msg)
  have inv: "step_inv (sys_sched x)" and sinv: "sched_inv (sys_sched x)"
    using ok by (simp_all add: system_ok_def step_inv_def)
  note st = started_schedule [OF inv execute(4)]
  note f = schedule_facts [OF sinv, of step_hooks s' out]
  have fins: "out_finished_req_ids out = finished_req_ids (sys_sched x)" "finished_req_ids s' = {}"
    using f(1,2) execute(4) by (simp_all add: step_schedule_def)
  have keys: "keys_ok (sys_cache x)" using ok by (simp add: system_ok_def)
  note ex = execute_stepwise_ok [OF execute(5) st(2) keys next_batch_protocol [OF ok execute(2,4)]]
  have inv': "step_inv s'" using step_schedule_inv [OF inv] execute(4) by simp
  have cached: "started s' i" if "i \<in> dom c'" for i
  proof -
    have "i \<in> dom (sys_cache x) \<and> i \<notin> finished_req_ids (sys_sched x) \<or> i \<in> set (scheduled_req_ids out)"
      using ex(4) that fins(1) by blast
    then show ?thesis using st(5) ok unfolding system_ok_def by blast
  qed
  have covered: "i \<in> dom c' \<or> i \<in> set (scheduled_req_ids out) \<and> ends (engine_output out r msg) i"
    if "started s' i" for i
  proof (cases "i \<in> set (scheduled_req_ids out)")
    case True
    show ?thesis
    proof (cases r)
      case (Inl e)
      then show ?thesis using True ends_failed by (simp add: engine_output_def)
    next
      case (Inr ro)
      then show ?thesis using True ex(6) [of i ro] ends_flag by (auto simp: engine_output_def)
    qed
  next
    case False
    then have "started (sys_sched x) i" using st(5) that by blast
    then have "i \<in> dom (sys_cache x)" "i \<notin> out_finished_req_ids out"
      using ok execute(2) fins(1) unfolding system_ok_def by auto
    then show ?thesis using ex(5) False by blast
  qed
  show ?thesis using inv' ex(1) cached covered fins(2) unfolding execute(1) system_ok_def by simp
next
  case (update out ro)
  define s' where "s' = fst (step_update_from_output out ro (sys_sched x))"
  obtain res where eq: "step_update_from_output out ro (sys_sched x) = (s', res)"
    by (metis s'_def prod.collapse)
  have inv: "step_inv (sys_sched x)" using ok by (simp add: system_ok_def)
  note u = step_update_facts [OF inv eq]
  note st = started_update [OF inv eq]
  have cov: "i \<in> dom (sys_cache x)" if "started s' i" for i
  proof -
    have s: "started (sys_sched x) i" and none: "i \<in> set (scheduled_req_ids out) \<Longrightarrow> step_outcome (sys_sched x) ro i = None"
      using st that by blast+
    have live: "is_live (request_states (sys_sched x)) i" using s by (simp add: started_def)
    from ok s have "i \<in> dom (sys_cache x) \<or> i \<in> set (scheduled_req_ids out) \<and> ends ro i"
      unfolding system_ok_def update(2) by auto
    then show ?thesis using none ends_outcome [OF _ inv live] by blast
  qed
  have nf: "i \<notin> finished_req_ids s'" if "started s' i" for i
    using ok that st [of i] u(4) unfolding system_ok_def by blast
  have sub: "started s' i \<or> i \<in> finished_req_ids s'" if "i \<in> dom (sys_cache x)" for i
  proof (cases "started (sys_sched x) i")
    case True
    then show ?thesis using st [of i] u(4) by (auto simp: started_def)
  next
    case False
    then show ?thesis using ok that u(4) unfolding system_ok_def by blast
  qed
  show ?thesis
    using ok u(1) cov nf sub unfolding update(1) s'_def [symmetric] system_ok_def by simp
qed

lemma system_reachable_ok:
  assumes "stepwise\<^sup>*\<^sup>* \<lparr>sys_sched = step_initialize env int_of float_of load s0,
      sys_cache = Map.empty, in_flight = None\<rparr> x"
  shows "system_ok x"
  using assms
proof (induction rule: rtranclp_induct)
  case base
  have "request_states (step_initialize env int_of float_of load s0) = Map.empty"
    by (simp add: step_initialize_def reset_scheduler_state_def initialize_def Let_def)
  then show ?case
    using step_initialize_inv by (simp add: system_ok_def keys_ok_def started_def is_live_def)
next
  case (step x y)
  then show ?case using system_ok_step by blast
qed

text \<open>C25: The worker never finds its cache out of step with the StepScheduler: in every reachable
  state of the two together (requests added, aborted and popped at any time, any pipeline
  behaviour including exceptions) the next batch neither misses the cached state of a request it
  continues nor finds a stale one for a request it starts.\<close>

theorem worker_cache_in_step:
  assumes "stepwise\<^sup>*\<^sup>* \<lparr>sys_sched = step_initialize env int_of float_of load s0,
      sys_cache = Map.empty, in_flight = None\<rparr> x"
    and "in_flight x = None" and "step_schedule (sys_sched x) = (s', out)"
    and "execute_stepwise pl out (sys_cache x) = (c', r)"
  shows "r \<noteq> Inl (Missing_Cached_State i) \<and> r \<noteq> Inl (Duplicate_New_Request i)"
proof -
  note ok = system_reachable_ok [OF assms(1)]
  have inv: "step_inv (sys_sched x)" and keys: "keys_ok (sys_cache x)" using ok by (simp_all add: system_ok_def)
  note ex = execute_stepwise_ok [OF assms(4) started_schedule(2) [OF inv assms(3)] keys
      next_batch_protocol [OF ok assms(2,3)]]
  show ?thesis using ex(2,3) by blast
qed

lemma ex_two_system_reachable:
  "stepwise\<^sup>*\<^sup>* \<lparr>sys_sched = ex_init Fifo, sys_cache = Map.empty, in_flight = None\<rparr>
     \<lparr>sys_sched = ex_two Fifo, sys_cache = Map.empty, in_flight = None\<rparr>"
proof -
  define s1 where "s1 = fst (the (step_add_request ''r'' (ex_request ''a'') (ex_init Fifo)))"
  have 1: "step_add_request ''r'' (ex_request ''a'') (ex_init Fifo) = Some (s1, Inr ''a'')"
    and 2: "step_add_request ''r'' (ex_request ''b'') s1 = Some (ex_two Fifo, Inr ''b'')"
    by (simp_all add: s1_def ex_two_def ex_add_eval ex_init_eval ex_blank_def)
  let ?x = "\<lambda>s. \<lparr>sys_sched = s, sys_cache = Map.empty, in_flight = None\<rparr>"
  have "stepwise (?x (ex_init Fifo)) (?x s1)" "stepwise (?x s1) (?x (ex_two Fifo))"
    using stepwise.add [of _ _ "?x (ex_init Fifo)"] stepwise.add [of _ _ "?x s1"] 1 2 by force+
  then show ?thesis by (meson converse_rtranclp_into_rtranclp rtranclp.rtrancl_refl)
qed

theorem worker_cache_in_step_witness:
  "snd (execute_stepwise (Batched (\<lambda>_. (\<lambda>_ w. w, Inl ''boom''))) (snd (step_schedule (ex_two Fifo))) Map.empty)
     \<noteq> Inl (Missing_Cached_State ''a'')"
  using worker_cache_in_step [OF ex_two_system_reachable [unfolded ex_init_def] _
      prod.collapse [symmetric] prod.collapse [symmetric]]
  by simp

end
