(* ===== verification/Scheduling_Coordinator.thy ===== *)
theory Scheduling_Coordinator
  imports Prelude
begin

text \<open>
  \<open>OmniSchedulingCoordinator\<close> (\<open>core/sched/omni_scheduling_coordinator.py\<close>): requests of a later
  pipeline stage are parked while the chunk or the input they need has not arrived, and returned
  to the scheduler's queues at the end of the cycle.

  The request objects are shared by the queues, so they live in a store indexed by request id and
  the queues hold ids. The waiting queue is a class of the vLLM package: its operations are an
  argument (\<open>wq_ops\<close>) and what the code relies on is the locale \<open>request_queue\<close>; a
  first-come-first-served list interprets it. The monotonic clock is an argument.
\<close>

section \<open>Requests and the coordinator's state\<close>

datatype vstatus =
    Waiting | Waiting_For_Chunk | Waiting_For_Input | Running | Preempted | Finished_Error_Status

record creq =
  cstatus :: vstatus
  prompt_token_ids :: "int list"
  num_prompt_tokens :: int
  all_token_ids :: "int list"
  output_token_ids :: "int list option"
  num_computed_tokens :: int
  initial_model_buffer :: "int option"

type_synonym store = "string \<Rightarrow> creq"

record coordinator =
  stage_id :: int
  scheduler_max_num_seqs :: nat
  async_chunk :: bool
  finished_requests :: "string set"
  requests_with_ready_chunks :: "string set"
  full_payload_input_received :: "string set"
  waiting_for_chunk_waiting :: "string list"
  waiting_for_chunk_running :: "string list"
  pending_chunk_registrations :: "string list"
  waiting_for_input :: "string list"
  pending_input_registrations :: "string list"
  waiting_since :: "(string \<times> rat) list"

definition coordinator_init :: "nat \<Rightarrow> int \<Rightarrow> bool \<Rightarrow> coordinator" where
  "coordinator_init mx sid ac = \<lparr>stage_id = sid, scheduler_max_num_seqs = mx, async_chunk = ac,
     finished_requests = {}, requests_with_ready_chunks = {}, full_payload_input_received = {},
     waiting_for_chunk_waiting = [], waiting_for_chunk_running = [], pending_chunk_registrations = [],
     waiting_for_input = [], pending_input_registrations = [], waiting_since = []\<rparr>"

text \<open>The scheduler's waiting queue.\<close>

record 'q wq_ops =
  wq_list :: "'q \<Rightarrow> string list"
  wq_add :: "'q \<Rightarrow> string \<Rightarrow> 'q"
  wq_prepend :: "'q \<Rightarrow> string \<Rightarrow> 'q"
  wq_remove :: "'q \<Rightarrow> string \<Rightarrow> 'q"

locale request_queue =
  fixes wq :: "'q wq_ops"
  assumes list_add: "mset (wq_list wq (wq_add wq q i)) = add_mset i (mset (wq_list wq q))"
    and list_prepend: "mset (wq_list wq (wq_prepend wq q i)) = add_mset i (mset (wq_list wq q))"
    and list_remove: "i \<in> set (wq_list wq q) \<Longrightarrow>
      mset (wq_list wq (wq_remove wq q i)) = mset (wq_list wq q) - {#i#}"

definition fcfs :: "string list wq_ops" where
  "fcfs = \<lparr>wq_list = (\<lambda>q. q), wq_add = (\<lambda>q i. q @ [i]), wq_prepend = (\<lambda>q i. i # q),
     wq_remove = (\<lambda>q i. remove1 i q)\<rparr>"

interpretation fcfs: request_queue fcfs
  by unfold_locales (simp_all add: fcfs_def)

text \<open>Everything a method can see or change.\<close>

record 'q view =
  coord :: coordinator
  objects :: store
  waiting_queue :: 'q
  running_queue :: "string list"

definition set_status :: "string \<Rightarrow> vstatus \<Rightarrow> store \<Rightarrow> store" where
  "set_status i st s = s(i := (s i)\<lparr>cstatus := st\<rparr>)"

text \<open>\<open>dict.setdefault\<close>.\<close>

definition setdefault :: "string \<Rightarrow> rat \<Rightarrow> (string \<times> rat) list \<Rightarrow> (string \<times> rat) list" where
  "setdefault k v d = (if map_of d k = None then dict_set k v d else d)"

section \<open>Chunks\<close>

text \<open>
  \<open>_process_chunk_queue\<close> walks over a snapshot of the queue. One iteration returns the
  coordinator, the store and whether the request is parked; the loop collects the parked ids, which
  are the ones removed from the queue.
\<close>

definition chunk_step ::
  "vstatus \<Rightarrow> string set \<Rightarrow> rat \<Rightarrow> string \<Rightarrow> coordinator \<Rightarrow> store \<Rightarrow> coordinator \<times> store \<times> bool" where
  "chunk_step target ready now i c s =
     (if cstatus (s i) \<noteq> Waiting_For_Chunk then
        if i \<in> requests_with_ready_chunks c then (c, s, False)
        else if i \<in> finished_requests c then (c, s, False)
        else if cstatus (s i) = Waiting_For_Input then (c, s, False)
        else if i \<in> ready
        then (c\<lparr>requests_with_ready_chunks := insert i (requests_with_ready_chunks c)\<rparr>, s, False)
        else (c\<lparr>pending_chunk_registrations := pending_chunk_registrations c @ [i],
                waiting_since := setdefault i now (waiting_since c)\<rparr>,
              set_status i Waiting_For_Chunk s, True)
      else if i \<in> ready
      then (c\<lparr>requests_with_ready_chunks := insert i (requests_with_ready_chunks c),
              waiting_since := dict_pop i (waiting_since c)\<rparr>,
            set_status i target s, False)
      else (c, s, True))"

fun process_chunk_queue ::
  "vstatus \<Rightarrow> string set \<Rightarrow> rat \<Rightarrow> string list \<Rightarrow> coordinator \<Rightarrow> store \<Rightarrow> string list
     \<Rightarrow> coordinator \<times> store \<times> string list" where
  "process_chunk_queue target ready now [] c s parked = (c, s, parked)"
| "process_chunk_queue target ready now (i # is) c s parked =
     (case chunk_step target ready now i c s of
        (c1, s1, park) \<Rightarrow>
          process_chunk_queue target ready now is c1 s1 (if park then parked @ [i] else parked))"

fun trim_running :: "'q wq_ops \<Rightarrow> nat \<Rightarrow> string list \<Rightarrow> 'q \<Rightarrow> store \<Rightarrow> string list \<times> 'q \<times> store" where
  "trim_running wq mx rev_run q s =
     (case rev_run of
        [] \<Rightarrow> ([], q, s)
      | i # rest \<Rightarrow>
          if length rev_run > mx then trim_running wq mx rest (wq_prepend wq q i) (set_status i Waiting s)
          else (rev_run, q, s))"

declare trim_running.simps [simp del]

definition process_pending_chunks ::
  "'q wq_ops \<Rightarrow> string set \<Rightarrow> string set \<Rightarrow> rat \<Rightarrow> 'q view \<Rightarrow> 'q view" where
  "process_pending_chunks wq ready fin now v =
     (let c = coord v in
      if stage_id c = 0 \<or> \<not> async_chunk c then v
      else
        let terminal = ready \<inter> fin;
            c1 = c\<lparr>finished_requests := finished_requests c \<union> (fin - terminal),
                   pending_chunk_registrations := []\<rparr>;
            (c2, s2, parked_w) = process_chunk_queue Waiting ready now (wq_list wq (waiting_queue v))
                                   c1 (objects v) [];
            q2 = foldl (wq_remove wq) (waiting_queue v) parked_w;
            (c3, s3, parked_r) = process_chunk_queue Running ready now (running_queue v) c2 s2 [];
            r3 = foldl (\<lambda>r i. remove1 i r) (running_queue v) parked_r;
            (rr, q4, s4) = trim_running wq (scheduler_max_num_seqs c3) (rev r3) q2 s3
        in \<lparr>coord = c3\<lparr>finished_requests := finished_requests c3 \<union> terminal,
              waiting_for_chunk_waiting := waiting_for_chunk_waiting c3 @ parked_w,
              waiting_for_chunk_running := waiting_for_chunk_running c3 @ parked_r\<rparr>,
            objects = s4, waiting_queue = q4, running_queue = rev rr\<rparr>)"

section \<open>Full-payload inputs\<close>

fun input_arrivals ::
  "string set \<Rightarrow> string list \<Rightarrow> coordinator \<Rightarrow> store \<Rightarrow> string list \<Rightarrow> string list
     \<Rightarrow> coordinator \<times> store \<times> string list \<times> string list" where
  "input_arrivals recv [] c s arrived remaining = (c, s, arrived, remaining)"
| "input_arrivals recv (i # is) c s arrived remaining =
     (if i \<in> recv
      then input_arrivals recv is (c\<lparr>waiting_since := dict_pop i (waiting_since c)\<rparr>)
             (set_status i Waiting s) (arrived @ [i]) remaining
      else input_arrivals recv is c s arrived (remaining @ [i]))"

definition input_step ::
  "string set \<Rightarrow> rat \<Rightarrow> string \<Rightarrow> coordinator \<Rightarrow> store \<Rightarrow> coordinator \<times> store \<times> bool" where
  "input_step recv now i c s =
     (if cstatus (s i) = Waiting then
        if i \<in> full_payload_input_received c then (c, s, False)
        else if i \<in> requests_with_ready_chunks c then (c, s, False)
        else if i \<in> finished_requests c then (c, s, False)
        else (c\<lparr>waiting_since := setdefault i now (waiting_since c),
                waiting_for_input := waiting_for_input c @ [i],
                pending_input_registrations := pending_input_registrations c @ [i]\<rparr>,
              set_status i Waiting_For_Input s, True)
      else if cstatus (s i) = Waiting_For_Input then
        if i \<in> recv
        then (c\<lparr>waiting_since := dict_pop i (waiting_since c)\<rparr>, set_status i Waiting s, False)
        else (c\<lparr>waiting_for_input := waiting_for_input c @ [i],
                pending_input_registrations := pending_input_registrations c @ [i]\<rparr>, s, True)
      else (c, s, False))"

fun park_inputs ::
  "string set \<Rightarrow> rat \<Rightarrow> string list \<Rightarrow> coordinator \<Rightarrow> store \<Rightarrow> string list
     \<Rightarrow> coordinator \<times> store \<times> string list" where
  "park_inputs recv now [] c s parked = (c, s, parked)"
| "park_inputs recv now (i # is) c s parked =
     (case input_step recv now i c s of
        (c1, s1, park) \<Rightarrow> park_inputs recv now is c1 s1 (if park then parked @ [i] else parked))"

definition process_pending_full_payload_inputs ::
  "'q wq_ops \<Rightarrow> string set \<Rightarrow> rat \<Rightarrow> 'q view \<Rightarrow> 'q view" where
  "process_pending_full_payload_inputs wq recv now v =
     (let c = coord v in
      if stage_id c = 0 then v
      else
        let c1 = c\<lparr>full_payload_input_received := full_payload_input_received c \<union> recv,
                   finished_requests := (if \<not> async_chunk c \<and> recv \<noteq> {}
                      then finished_requests c \<union> recv else finished_requests c),
                   pending_input_registrations := []\<rparr>;
            (c2, s2, arrived, remaining) = input_arrivals recv (waiting_for_input c1) c1 (objects v) [] [];
            q2 = foldl (wq_add wq) (waiting_queue v) arrived;
            c3 = c2\<lparr>waiting_for_input := remaining\<rparr>
        in if async_chunk c then v\<lparr>coord := c3, objects := s2, waiting_queue := q2\<rparr>
           else
             let (c4, s4, parked) = park_inputs recv now (wq_list wq q2) c3 s2 []
             in v\<lparr>coord := c4, objects := s4, waiting_queue := foldl (wq_remove wq) q2 parked\<rparr>)"

section \<open>Freeing, timeouts, end of the cycle\<close>

definition free_finished_request :: "string \<Rightarrow> coordinator \<Rightarrow> coordinator" where
  "free_finished_request i c = c\<lparr>
     full_payload_input_received := full_payload_input_received c - {i},
     finished_requests := finished_requests c - {i},
     requests_with_ready_chunks := requests_with_ready_chunks c - {i},
     waiting_since := dict_pop i (waiting_since c)\<rparr>"

definition collect_timed_out_request_ids :: "rat \<Rightarrow> rat \<Rightarrow> coordinator \<Rightarrow> coordinator \<times> string set" where
  "collect_timed_out_request_ids timeout_s now c =
     (if timeout_s \<le> 0 then (c, {})
      else
        let ids = fst ` set (filter (\<lambda>(_, t). now - t > timeout_s) (waiting_since c)) in
        if ids = {} then (c, {})
        else
          (c\<lparr>waiting_for_chunk_waiting := filter (\<lambda>i. i \<notin> ids) (waiting_for_chunk_waiting c),
             waiting_for_chunk_running := filter (\<lambda>i. i \<notin> ids) (waiting_for_chunk_running c),
             waiting_for_input := filter (\<lambda>i. i \<notin> ids) (waiting_for_input c),
             waiting_since := filter (\<lambda>(i, _). i \<notin> ids) (waiting_since c)\<rparr>, ids))"

definition restore_queues :: "'q wq_ops \<Rightarrow> 'q view \<Rightarrow> 'q view" where
  "restore_queues wq v =
     (let c = coord v
      in v\<lparr>waiting_queue := foldl (wq_add wq)
             (foldl (wq_add wq) (waiting_queue v) (waiting_for_chunk_waiting c)) (waiting_for_input c),
           running_queue := running_queue v @ waiting_for_chunk_running c,
           coord := c\<lparr>waiting_for_chunk_waiting := [], waiting_for_chunk_running := [],
                      waiting_for_input := []\<rparr>\<rparr>)"

definition clear_chunk_ready :: "string list \<Rightarrow> string list \<Rightarrow> coordinator \<Rightarrow> coordinator" where
  "clear_chunk_ready new_ids cached_ids c =
     c\<lparr>requests_with_ready_chunks := requests_with_ready_chunks c - set new_ids - set cached_ids\<rparr>"

section \<open>Request metadata\<close>

text \<open>A metadata entry: \<open>next_stage_prompt_len\<close> is an int or something else.\<close>

datatype meta_len = Len int | Not_An_Int

record metadata =
  next_stage_prompt_len :: "meta_len option"
  code_predictor_codes :: "int list"
  left_context_size :: "int option"

text \<open>A request without \<open>_output_token_ids\<close> fails at \<open>clear()\<close>, after the earlier assignments.\<close>

definition resize_prompt :: "int \<Rightarrow> creq \<Rightarrow> creq \<times> unit res" where
  "resize_prompt n r =
     (let has_decode = (case output_token_ids r of None \<Rightarrow> False | Some xs \<Rightarrow> length xs > 0) in
      if has_decode then (r, Inr ())
      else if int (length (prompt_token_ids r)) \<noteq> n \<or> num_prompt_tokens r \<noteq> n
      then
        let r1 = r\<lparr>prompt_token_ids := replicate (nat n) 0, num_prompt_tokens := n,
                   all_token_ids := replicate (nat n) 0\<rparr>
        in if output_token_ids r = None then (r1, Inl AttributeError)
           else (r1\<lparr>output_token_ids := Some [], num_computed_tokens := 0\<rparr>, Inr ())
      else (r, Inr ()))"

definition apply_metadata :: "string \<Rightarrow> metadata \<Rightarrow> creq \<Rightarrow> creq \<times> unit res" where
  "apply_metadata mode m r =
     (case (case next_stage_prompt_len m of
              Some (Len n) \<Rightarrow> if n > 0 then resize_prompt n r else (r, Inr ())
            | _ \<Rightarrow> (r, Inr ())) of
        (r1, Inl x) \<Rightarrow> (r1, Inl x)
      | (r1, Inr _) \<Rightarrow>
          if mode = ''ar'' then (r1, Inr ())
          else
            let r2 = r1\<lparr>initial_model_buffer := left_context_size m\<rparr>
            in if code_predictor_codes m \<noteq> []
               then (r2\<lparr>prompt_token_ids := code_predictor_codes m, num_computed_tokens := 0\<rparr>, Inr ())
               else (r2, Inr ()))"

fun update_request_metadata ::
  "string \<Rightarrow> (string \<times> metadata) list \<Rightarrow> (string \<rightharpoonup> creq) \<Rightarrow> (string \<rightharpoonup> creq) \<times> unit res" where
  "update_request_metadata mode [] rs = (rs, Inr ())"
| "update_request_metadata mode ((i, m) # ms) rs =
     (case rs i of
        None \<Rightarrow> update_request_metadata mode ms rs
      | Some r \<Rightarrow>
          (case apply_metadata mode m r of
             (r', Inl x) \<Rightarrow> (rs(i \<mapsto> r'), Inl x)
           | (r', Inr _) \<Rightarrow> update_request_metadata mode ms (rs(i \<mapsto> r'))))"

section \<open>What the loops do\<close>

lemma setdefault_simps [simp]:
  "map_of (setdefault k v d) i = (if i = k \<and> map_of d k = None then Some v else map_of d i)"
  by (auto simp: setdefault_def map_of_dict_set)

lemma cstatus_set_status [simp]:
  "cstatus (set_status i st s j) = (if i = j then st else cstatus (s j))"
  by (simp add: set_status_def)

text \<open>A request stays in its queue when its data is there or is not needed.\<close>

definition keeps :: "string set \<Rightarrow> coordinator \<Rightarrow> store \<Rightarrow> string \<Rightarrow> bool" where
  "keeps ready c s i \<longleftrightarrow> i \<in> ready \<or>
     cstatus (s i) \<noteq> Waiting_For_Chunk \<and>
       (i \<in> requests_with_ready_chunks c \<or> i \<in> finished_requests c \<or> cstatus (s i) = Waiting_For_Input)"

lemma chunk_step_spec:
  assumes "chunk_step target ready now i c s = (c', s', park)"
  shows "park = (\<not> keeps ready c s i)"
    and "cstatus (s' j) = (if j = i \<and> \<not> keeps ready c s i then Waiting_For_Chunk
         else if j = i \<and> cstatus (s i) = Waiting_For_Chunk then target else cstatus (s j))"
    and "map_of (waiting_since c') k \<noteq> None \<longleftrightarrow>
         (if k = i \<and> cstatus (s i) = Waiting_For_Chunk \<and> keeps ready c s i then False
          else map_of (waiting_since c) k \<noteq> None \<or>
            (k = i \<and> \<not> keeps ready c s i \<and> cstatus (s i) \<noteq> Waiting_For_Chunk))"
    and "waiting_for_chunk_waiting c' = waiting_for_chunk_waiting c"
    and "waiting_for_chunk_running c' = waiting_for_chunk_running c"
    and "waiting_for_input c' = waiting_for_input c"
    and "finished_requests c' = finished_requests c"
    and "l \<noteq> i \<Longrightarrow> l \<in> requests_with_ready_chunks c' \<longleftrightarrow> l \<in> requests_with_ready_chunks c"
    and "scheduler_max_num_seqs c' = scheduler_max_num_seqs c"
  using assms unfolding chunk_step_def keeps_def
  by (auto simp: map_of_dict_pop split: if_splits)

lemma process_chunk_queue_eq:
  assumes "process_chunk_queue target ready now is c s parked = (c', s', parked')" and "distinct is"
  shows "parked' = parked @ filter (\<lambda>i. \<not> keeps ready c s i) is"
    and "cstatus (s' j) = (if j \<in> set is \<and> \<not> keeps ready c s j then Waiting_For_Chunk
         else if j \<in> set is \<and> cstatus (s j) = Waiting_For_Chunk then target else cstatus (s j))"
    and "map_of (waiting_since c') k \<noteq> None \<longleftrightarrow>
         (if k \<in> set is \<and> cstatus (s k) = Waiting_For_Chunk \<and> keeps ready c s k then False
          else map_of (waiting_since c) k \<noteq> None \<or>
            (k \<in> set is \<and> \<not> keeps ready c s k \<and> cstatus (s k) \<noteq> Waiting_For_Chunk))"
    and "waiting_for_chunk_waiting c' = waiting_for_chunk_waiting c"
    and "waiting_for_chunk_running c' = waiting_for_chunk_running c"
    and "waiting_for_input c' = waiting_for_input c"
    and "finished_requests c' = finished_requests c"
    and "l \<notin> set is \<Longrightarrow> l \<in> requests_with_ready_chunks c' \<longleftrightarrow> l \<in> requests_with_ready_chunks c"
    and "scheduler_max_num_seqs c' = scheduler_max_num_seqs c"
proof -
  have "parked' = parked @ filter (\<lambda>i. \<not> keeps ready c s i) is
    \<and> cstatus (s' j) = (if j \<in> set is \<and> \<not> keeps ready c s j then Waiting_For_Chunk
         else if j \<in> set is \<and> cstatus (s j) = Waiting_For_Chunk then target else cstatus (s j))
    \<and> (map_of (waiting_since c') k \<noteq> None \<longleftrightarrow>
         (if k \<in> set is \<and> cstatus (s k) = Waiting_For_Chunk \<and> keeps ready c s k then False
          else map_of (waiting_since c) k \<noteq> None \<or>
            (k \<in> set is \<and> \<not> keeps ready c s k \<and> cstatus (s k) \<noteq> Waiting_For_Chunk)))
    \<and> waiting_for_chunk_waiting c' = waiting_for_chunk_waiting c
    \<and> waiting_for_chunk_running c' = waiting_for_chunk_running c
    \<and> waiting_for_input c' = waiting_for_input c
    \<and> finished_requests c' = finished_requests c
    \<and> (l \<notin> set is \<longrightarrow> l \<in> requests_with_ready_chunks c' \<longleftrightarrow> l \<in> requests_with_ready_chunks c)
    \<and> scheduler_max_num_seqs c' = scheduler_max_num_seqs c"
    using assms
  proof (induction "is" arbitrary: c s parked)
    case Nil
    then show ?case by simp
  next
    case (Cons i "is")
    have d: "distinct is" "i \<notin> set is" using Cons.prems(2) by simp_all
    obtain c1 s1 park where step: "chunk_step target ready now i c s = (c1, s1, park)" by (rule prod_cases3)
    note sp = chunk_step_spec [OF step]
    have eq: "process_chunk_queue target ready now is c1 s1 (if park then parked @ [i] else parked) = (c', s', parked')"
      using Cons.prems(1) step by simp
    have other: "keeps ready c1 s1 m = keeps ready c s m" if "m \<noteq> i" for m
      using sp(2) [of m] sp(7,8) that by (simp add: keeps_def)
    have f: "filter (\<lambda>m. \<not> keeps ready c1 s1 m) is = filter (\<lambda>m. \<not> keeps ready c s m) is"
      by (intro filter_cong refl) (metis d(2) other)
    have st: "m \<noteq> i \<Longrightarrow> cstatus (s1 m) = cstatus (s m)" for m using sp(2) by simp
    note IH = Cons.IH [OF eq d(1), unfolded f]
    have IHs: "cstatus (s' j) = (if j \<in> set is \<and> \<not> keeps ready c1 s1 j then Waiting_For_Chunk
         else if j \<in> set is \<and> cstatus (s1 j) = Waiting_For_Chunk then target else cstatus (s1 j))"
      and IHw: "map_of (waiting_since c') k \<noteq> None \<longleftrightarrow>
         (if k \<in> set is \<and> cstatus (s1 k) = Waiting_For_Chunk \<and> keeps ready c1 s1 k then False
          else map_of (waiting_since c1) k \<noteq> None \<or>
            (k \<in> set is \<and> \<not> keeps ready c1 s1 k \<and> cstatus (s1 k) \<noteq> Waiting_For_Chunk))"
      using IH by blast+
    have "cstatus (s' j) = (if j \<in> set (i # is) \<and> \<not> keeps ready c s j then Waiting_For_Chunk
         else if j \<in> set (i # is) \<and> cstatus (s j) = Waiting_For_Chunk then target else cstatus (s j))"
      unfolding IHs using d(2) sp(2) [of j] other [of j] by (cases "j = i") simp_all
    moreover have "map_of (waiting_since c') k \<noteq> None \<longleftrightarrow>
         (if k \<in> set (i # is) \<and> cstatus (s k) = Waiting_For_Chunk \<and> keeps ready c s k then False
          else map_of (waiting_since c) k \<noteq> None \<or>
            (k \<in> set (i # is) \<and> \<not> keeps ready c s k \<and> cstatus (s k) \<noteq> Waiting_For_Chunk))"
      unfolding IHw using d(2) sp(3) [of k] other [of k] st [of k]
      by (cases "k = i") (simp_all del: not_None_eq)
    moreover have "parked' = parked @ filter (\<lambda>i. \<not> keeps ready c s i) (i # is)"
      using IH sp(1) by simp
    ultimately show ?case using IH sp(4-7,9) sp(8) [of l] by simp
  qed
  then show "parked' = parked @ filter (\<lambda>i. \<not> keeps ready c s i) is"
    "cstatus (s' j) = (if j \<in> set is \<and> \<not> keeps ready c s j then Waiting_For_Chunk
         else if j \<in> set is \<and> cstatus (s j) = Waiting_For_Chunk then target else cstatus (s j))"
    "map_of (waiting_since c') k \<noteq> None \<longleftrightarrow>
         (if k \<in> set is \<and> cstatus (s k) = Waiting_For_Chunk \<and> keeps ready c s k then False
          else map_of (waiting_since c) k \<noteq> None \<or>
            (k \<in> set is \<and> \<not> keeps ready c s k \<and> cstatus (s k) \<noteq> Waiting_For_Chunk))"
    "waiting_for_chunk_waiting c' = waiting_for_chunk_waiting c"
    "waiting_for_chunk_running c' = waiting_for_chunk_running c"
    "waiting_for_input c' = waiting_for_input c" "finished_requests c' = finished_requests c"
    "l \<notin> set is \<Longrightarrow> l \<in> requests_with_ready_chunks c' \<longleftrightarrow> l \<in> requests_with_ready_chunks c"
    "scheduler_max_num_seqs c' = scheduler_max_num_seqs c"
    by blast+
qed

section \<open>No request is lost\<close>

text \<open>All requests the scheduler and the coordinator hold.\<close>

definition held :: "'q wq_ops \<Rightarrow> 'q view \<Rightarrow> string multiset" where
  "held wq v = mset (wq_list wq (waiting_queue v)) + mset (running_queue v)
     + mset (waiting_for_chunk_waiting (coord v)) + mset (waiting_for_chunk_running (coord v))
     + mset (waiting_for_input (coord v))"

lemma foldl_remove1: "mset xs \<subseteq># mset r \<Longrightarrow> mset (foldl (\<lambda>r i. remove1 i r) r xs) = mset r - mset xs"
proof (induction xs arbitrary: r)
  case Nil
  then show ?case by simp
next
  case (Cons x xs)
  then have "mset xs \<subseteq># mset (remove1 x r)" by (simp add: insert_subset_eq_iff)
  with Cons.IH show ?case by simp
qed

lemma mset_filter_sub: "mset (filter P xs) \<subseteq># mset xs"
  by (simp add: mset_filter multiset_filter_subset)

context request_queue
begin

lemma foldl_remove:
  "mset xs \<subseteq># mset (wq_list wq q) \<Longrightarrow>
     mset (wq_list wq (foldl (wq_remove wq) q xs)) = mset (wq_list wq q) - mset xs"
proof (induction xs arbitrary: q)
  case Nil
  then show ?case by simp
next
  case (Cons x xs)
  then have x: "x \<in> set (wq_list wq q)" by (metis insert_subset_eq_iff mset.simps(2) set_mset_mset)
  then have "mset xs \<subseteq># mset (wq_list wq (wq_remove wq q x))"
    using Cons.prems list_remove [OF x] by (simp add: insert_subset_eq_iff)
  with Cons.IH list_remove [OF x] show ?case by simp
qed

lemma foldl_add: "mset (wq_list wq (foldl (wq_add wq) q xs)) = mset (wq_list wq q) + mset xs"
  by (induction xs arbitrary: q) (simp_all add: list_add)

lemma trim_running_eq:
  assumes "trim_running wq mx rv q s = (rv', q', s')"
  shows "mset rv' + mset (wq_list wq q') = mset rv + mset (wq_list wq q)" and "length rv' \<le> mx"
    and "\<exists>moved. rv = moved @ rv' \<and> (\<forall>i. cstatus (s' i) = (if i \<in> set moved then Waiting else cstatus (s i)))"
proof -
  have "mset rv' + mset (wq_list wq q') = mset rv + mset (wq_list wq q) \<and> length rv' \<le> mx
    \<and> (\<exists>moved. rv = moved @ rv' \<and> (\<forall>i. cstatus (s' i) = (if i \<in> set moved then Waiting else cstatus (s i))))"
    using assms
  proof (induction rv arbitrary: q s)
    case Nil
    then show ?case by (simp add: trim_running.simps)
  next
    case (Cons i rv)
    show ?case
    proof (cases "length (i # rv) > mx")
      case True
      then have eq: "trim_running wq mx rv (wq_prepend wq q i) (set_status i Waiting s) = (rv', q', s')"
        using Cons.prems by (simp add: trim_running.simps [of wq mx "i # rv"])
      from Cons.IH [OF eq] obtain moved where m: "rv = moved @ rv'"
        "\<forall>j. cstatus (s' j) = (if j \<in> set moved then Waiting else cstatus (set_status i Waiting s j))" by blast
      then have "i # rv = (i # moved) @ rv'
        \<and> (\<forall>j. cstatus (s' j) = (if j \<in> set (i # moved) then Waiting else cstatus (s j)))" by simp
      then show ?thesis using Cons.IH [OF eq] list_prepend by auto
    next
      case False
      then have "(rv', q', s') = (i # rv, q, s)"
        using Cons.prems by (simp add: trim_running.simps [of wq mx "i # rv"])
      with False show ?thesis by simp
    qed
  qed
  then show "mset rv' + mset (wq_list wq q') = mset rv + mset (wq_list wq q)" "length rv' \<le> mx"
    "\<exists>moved. rv = moved @ rv' \<and> (\<forall>i. cstatus (s' i) = (if i \<in> set moved then Waiting else cstatus (s i)))"
    by blast+
qed

end

text \<open>The ids a chunk cycle parks: no new chunk, and no earlier reason to run on.\<close>

definition lacks_chunk :: "string set \<Rightarrow> string set \<Rightarrow> coordinator \<Rightarrow> store \<Rightarrow> string \<Rightarrow> bool" where
  "lacks_chunk ready fin c s i \<longleftrightarrow>
     i \<notin> ready \<and> (cstatus (s i) = Waiting_For_Chunk \<or>
       i \<notin> requests_with_ready_chunks c \<and> i \<notin> finished_requests c \<union> (fin - ready)
       \<and> cstatus (s i) \<noteq> Waiting_For_Input)"

lemma mset_partition: "mset xs = mset (filter P xs) + mset (filter (\<lambda>x. \<not> P x) xs)"
  by (simp add: mset_filter)

lemma distinct_mset_diff:
  assumes "mset xs = mset ys - mset zs" "distinct ys"
  shows "set xs = set ys - set zs"
proof -
  have "i \<in> set xs \<longleftrightarrow> i \<in> set ys - set zs" for i
  proof -
    have "i \<in> set xs \<longleftrightarrow> i \<in># mset ys - mset zs" using assms(1) by (metis set_mset_mset)
    also have "\<dots> \<longleftrightarrow> count (mset zs) i < count (mset ys) i" by (simp add: in_diff_count)
    also have "\<dots> \<longleftrightarrow> i \<in> set ys - set zs"
      using assms(2) by (auto simp: distinct_count_atmost_1 not_less count_eq_zero_iff intro: gr0I)
    finally show ?thesis .
  qed
  then show ?thesis by blast
qed

lemma chunk_queue_tracked:
  assumes "process_chunk_queue target ready now is c s parked = (c', s', parked')" and "distinct is"
    and "cstatus (s l) \<in> {Waiting_For_Chunk, Waiting_For_Input} \<Longrightarrow> map_of (waiting_since c) l \<noteq> None"
    and "target \<in> {Waiting, Running}" "cstatus (s' l) \<in> {Waiting_For_Chunk, Waiting_For_Input}"
  shows "map_of (waiting_since c') l \<noteq> None"
proof -
  note st = process_chunk_queue_eq(2) [OF assms(1,2), of l]
  have tr: "cstatus (s l) = Waiting_For_Chunk \<or> cstatus (s l) = Waiting_For_Input
      \<Longrightarrow> map_of (waiting_since c) l \<noteq> None" using assms(3) by blast
  show ?thesis
  proof (cases "l \<in> set is")
    case True
    show ?thesis
    proof (cases "keeps ready c s l")
      case k: True
      with st assms(4,5) \<open>l \<in> set is\<close> have "cstatus (s l) \<noteq> Waiting_For_Chunk" by (auto split: if_splits)
      with st k assms(5) tr have "map_of (waiting_since c) l \<noteq> None" by (simp split: if_splits)
      with \<open>cstatus (s l) \<noteq> Waiting_For_Chunk\<close> show ?thesis
        unfolding process_chunk_queue_eq(3) [OF assms(1,2), of l] by simp
    next
      case False
      with True tr show ?thesis
        unfolding process_chunk_queue_eq(3) [OF assms(1,2), of l] by (simp del: not_None_eq) blast
    qed
  next
    case False
    with st assms(5) tr have "map_of (waiting_since c) l \<noteq> None" by simp
    with False show ?thesis unfolding process_chunk_queue_eq(3) [OF assms(1,2), of l] by simp
  qed
qed

context request_queue
begin

lemma process_pending_chunks_ok:
  assumes act: "stage_id (coord v) \<noteq> 0" "async_chunk (coord v)"
    and d: "distinct (wq_list wq (waiting_queue v) @ running_queue v)"
    and v': "v' = process_pending_chunks wq ready fin now v"
  shows "held wq v' = held wq v" and "length (running_queue v') \<le> scheduler_max_num_seqs (coord v)"
    and "waiting_for_chunk_waiting (coord v') = waiting_for_chunk_waiting (coord v)
           @ filter (lacks_chunk ready fin (coord v) (objects v)) (wq_list wq (waiting_queue v))"
    and "waiting_for_chunk_running (coord v') = waiting_for_chunk_running (coord v)
           @ filter (lacks_chunk ready fin (coord v) (objects v)) (running_queue v)"
    and "waiting_for_input (coord v') = waiting_for_input (coord v)"
    and "i \<in> set (wq_list wq (waiting_queue v')) \<union> set (running_queue v') \<Longrightarrow>
           cstatus (objects v' i) \<noteq> Waiting_For_Chunk"
    and "i \<in> set (wq_list wq (waiting_queue v)) \<union> set (running_queue v) \<Longrightarrow>
           lacks_chunk ready fin (coord v) (objects v) i \<Longrightarrow> cstatus (objects v' i) = Waiting_For_Chunk"
    and "j \<notin> set (wq_list wq (waiting_queue v)) \<union> set (running_queue v) \<Longrightarrow>
           cstatus (objects v' j) = cstatus (objects v j)
           \<and> (map_of (waiting_since (coord v')) j \<noteq> None \<longleftrightarrow> map_of (waiting_since (coord v)) j \<noteq> None)"
    and "(\<forall>k. cstatus (objects v k) \<in> {Waiting_For_Chunk, Waiting_For_Input} \<longrightarrow>
            map_of (waiting_since (coord v)) k \<noteq> None) \<Longrightarrow>
         cstatus (objects v' l) \<in> {Waiting_For_Chunk, Waiting_For_Input} \<Longrightarrow>
            map_of (waiting_since (coord v')) l \<noteq> None"
proof -
  let ?L = "lacks_chunk ready fin (coord v) (objects v)"
  let ?wl = "wq_list wq (waiting_queue v)"
  define c1 where "c1 = (coord v)\<lparr>finished_requests := finished_requests (coord v) \<union> (fin - ready \<inter> fin),
      pending_chunk_registrations := []\<rparr>"
  have dw: "distinct ?wl" and dr: "distinct (running_queue v)" and disj: "set ?wl \<inter> set (running_queue v) = {}"
    using d by auto
  obtain c2 s2 pw where p1: "process_chunk_queue Waiting ready now ?wl c1 (objects v) [] = (c2, s2, pw)"
    by (rule prod_cases3)
  obtain c3 s3 pr where p2: "process_chunk_queue Running ready now (running_queue v) c2 s2 [] = (c3, s3, pr)"
    by (rule prod_cases3)
  note e1 = process_chunk_queue_eq [OF p1 dw] and e2 = process_chunk_queue_eq [OF p2 dr]
  have K1: "\<not> keeps ready c1 (objects v) i \<longleftrightarrow> ?L i" for i
    by (auto simp: keeps_def lacks_chunk_def c1_def)
  have st2: "cstatus (s2 i) = cstatus (objects v i)" if "i \<notin> set ?wl" for i using e1(2) that by simp
  have K2: "\<not> keeps ready c2 s2 i \<longleftrightarrow> ?L i" if "i \<notin> set ?wl" for i
    unfolding K1 [symmetric] using e1(7,8) st2 that by (simp add: keeps_def)
  have pw: "pw = filter ?L ?wl" using e1(1) K1 by (simp cong: filter_cong)
  have pr: "pr = filter ?L (running_queue v)"
  proof -
    have "pr = filter (\<lambda>i. \<not> keeps ready c2 s2 i) (running_queue v)" using e2(1) by simp
    also have "\<dots> = filter ?L (running_queue v)" using K2 disj by (intro filter_cong) blast+
    finally show ?thesis .
  qed
  define q2 where "q2 = foldl (wq_remove wq) (waiting_queue v) pw"
  define r3 where "r3 = foldl (\<lambda>r i. remove1 i r) (running_queue v) pr"
  obtain rr q4 s4 where tr: "trim_running wq (scheduler_max_num_seqs c3) (rev r3) q2 s3 = (rr, q4, s4)"
    by (rule prod_cases3)
  note t = trim_running_eq [OF tr]
  obtain moved where mv: "rev r3 = moved @ rr"
    "\<And>i. cstatus (s4 i) = (if i \<in> set moved then Waiting else cstatus (s3 i))" using t(3) by blast
  have v'eq: "v' = \<lparr>coord = c3\<lparr>finished_requests := finished_requests c3 \<union> (ready \<inter> fin),
              waiting_for_chunk_waiting := waiting_for_chunk_waiting c3 @ pw,
              waiting_for_chunk_running := waiting_for_chunk_running c3 @ pr\<rparr>,
            objects = s4, waiting_queue = q4, running_queue = rev rr\<rparr>"
    using act p1 p2 tr unfolding v' process_pending_chunks_def Let_def c1_def q2_def r3_def by simp
  have mq2: "mset (wq_list wq q2) = mset ?wl - mset pw"
    unfolding q2_def by (rule foldl_remove) (simp add: pw mset_filter_sub)
  have mr3: "mset r3 = mset (running_queue v) - mset pr"
    unfolding r3_def by (rule foldl_remove1) (simp add: pr mset_filter_sub)
  have sub: "mset pw \<subseteq># mset ?wl" "mset pr \<subseteq># mset (running_queue v)" by (simp_all add: pw pr mset_filter_sub)
  have mx: "scheduler_max_num_seqs c3 = scheduler_max_num_seqs (coord v)" using e1(9) e2(9) by (simp add: c1_def)
  have wf: "waiting_for_chunk_waiting c3 = waiting_for_chunk_waiting (coord v)"
    "waiting_for_chunk_running c3 = waiting_for_chunk_running (coord v)"
    "waiting_for_input c3 = waiting_for_input (coord v)"
    using e1(4-6) e2(4-6) by (simp_all add: c1_def)
  have q4: "mset rr + mset (wq_list wq q4) = mset r3 + mset (wq_list wq q2)" using t(1) by simp
  have "held wq v' = (mset rr + mset (wq_list wq q4)) + mset pw + mset pr
     + mset (waiting_for_chunk_waiting (coord v)) + mset (waiting_for_chunk_running (coord v))
     + mset (waiting_for_input (coord v))"
    unfolding held_def v'eq by (simp add: wf)
  also have "\<dots> = (mset r3 + mset pr) + (mset (wq_list wq q2) + mset pw)
     + mset (waiting_for_chunk_waiting (coord v)) + mset (waiting_for_chunk_running (coord v))
     + mset (waiting_for_input (coord v))"
    unfolding q4 by (simp add: union_ac)
  also have "\<dots> = held wq v"
    using sub by (simp add: mq2 mr3 held_def union_ac)
  finally show "held wq v' = held wq v" .
  show "length (running_queue v') \<le> scheduler_max_num_seqs (coord v)" using t(2) v'eq mx by simp
  show "waiting_for_chunk_waiting (coord v') = waiting_for_chunk_waiting (coord v) @ filter ?L ?wl"
    "waiting_for_chunk_running (coord v') = waiting_for_chunk_running (coord v) @ filter ?L (running_queue v)"
    "waiting_for_input (coord v') = waiting_for_input (coord v)"
    using v'eq wf pw pr by simp_all
  have sq2: "set (wq_list wq q2) = set ?wl - set pw" by (rule distinct_mset_diff [OF mq2 dw])
  have sr3: "set r3 = set (running_queue v) - set pr" by (rule distinct_mset_diff [OF mr3 dr])
  have moved: "set moved \<subseteq> set r3" "set rr \<subseteq> set r3" using mv(1) by (metis set_rev set_append Un_upper1 Un_upper2)+
  have sq4: "set (wq_list wq q4) \<subseteq> set moved \<union> set (wq_list wq q2)"
  proof -
    have "mset r3 = mset moved + mset rr" using mv(1) by (metis mset_append mset_rev)
    then have "mset (wq_list wq q4) = mset moved + mset (wq_list wq q2)" using q4 by (simp add: union_ac)
    then show ?thesis by (metis set_mset_mset set_mset_union subset_refl)
  qed
  show "cstatus (objects v' i) \<noteq> Waiting_For_Chunk"
    if "i \<in> set (wq_list wq (waiting_queue v')) \<union> set (running_queue v')"
  proof (cases "i \<in> set moved")
    case True
    then show ?thesis using mv(2) v'eq by simp
  next
    case False
    have "i \<in> set (wq_list wq q2) \<or> i \<in> set r3" using that False sq4 moved v'eq by auto
    then show ?thesis
    proof
      assume "i \<in> set (wq_list wq q2)"
      then have i: "i \<in> set ?wl" "\<not> ?L i" "i \<notin> set (running_queue v)" using sq2 pw disj by auto
      then have "cstatus (s3 i) \<noteq> Waiting_For_Chunk" using e1(2) [of i] e2(2) [of i] K1 by auto
      then show ?thesis using False mv(2) v'eq by simp
    next
      assume "i \<in> set r3"
      then have i: "i \<in> set (running_queue v)" "\<not> ?L i" "i \<notin> set ?wl" using sr3 pr disj by auto
      then have "cstatus (s3 i) \<noteq> Waiting_For_Chunk" using e2(2) [of i] K2 by auto
      then show ?thesis using False mv(2) v'eq by simp
    qed
  qed
  show "cstatus (objects v' i) = Waiting_For_Chunk"
    if i: "i \<in> set ?wl \<union> set (running_queue v)" and L: "?L i"
  proof -
    have "i \<notin> set moved" using moved(1) sr3 disj i L pr by auto
    moreover have "cstatus (s3 i) = Waiting_For_Chunk"
    proof (cases "i \<in> set ?wl")
      case True
      then have "i \<notin> set (running_queue v)" using disj by blast
      then show ?thesis using e1(2) [of i] e2(2) [of i] K1 True L by simp
    next
      case False
      then show ?thesis using e2(2) [of i] K2 i L by simp
    qed
    ultimately show ?thesis using mv(2) v'eq by simp
  qed
  show "cstatus (objects v' j) = cstatus (objects v j)
      \<and> (map_of (waiting_since (coord v')) j \<noteq> None \<longleftrightarrow> map_of (waiting_since (coord v)) j \<noteq> None)"
    if j: "j \<notin> set ?wl \<union> set (running_queue v)"
  proof -
    have "j \<notin> set moved" using moved(1) sr3 j by auto
    then have "cstatus (objects v' j) = cstatus (objects v j)"
      using mv(2) [of j] e2(2) [of j] st2 [of j] j v'eq by simp
    moreover have "map_of (waiting_since c3) j \<noteq> None \<longleftrightarrow> map_of (waiting_since (coord v)) j \<noteq> None"
      using e2(3) [of j] e1(3) [of j] j by (simp add: c1_def del: not_None_eq)
    ultimately show ?thesis using v'eq by simp
  qed
  show "map_of (waiting_since (coord v')) l \<noteq> None"
    if tracked: "\<forall>k. cstatus (objects v k) \<in> {Waiting_For_Chunk, Waiting_For_Input} \<longrightarrow>
            map_of (waiting_since (coord v)) k \<noteq> None"
      and st: "cstatus (objects v' l) \<in> {Waiting_For_Chunk, Waiting_For_Input}"
  proof -
    have "l \<notin> set moved" using st mv(2) [of l] v'eq by auto
    then have st3: "cstatus (s3 l) \<in> {Waiting_For_Chunk, Waiting_For_Input}" using st mv(2) [of l] v'eq by simp
    have "cstatus (s2 l) \<in> {Waiting_For_Chunk, Waiting_For_Input} \<Longrightarrow> map_of (waiting_since c2) l \<noteq> None"
      by (rule chunk_queue_tracked [OF p1 dw]) (use tracked in \<open>auto simp: c1_def simp del: not_None_eq\<close>)
    then have "map_of (waiting_since c3) l \<noteq> None"
      by (rule chunk_queue_tracked [OF p2 dr _ _ st3]) simp_all
    then show ?thesis using v'eq by simp
  qed
qed

end

section \<open>Full-payload inputs: what the loops do\<close>

lemma input_arrivals_eq:
  assumes "input_arrivals recv is c s arrived remaining = (c', s', arrived', remaining')"
  shows "arrived' = arrived @ filter (\<lambda>i. i \<in> recv) is"
    and "remaining' = remaining @ filter (\<lambda>i. i \<notin> recv) is"
    and "cstatus (s' j) = (if j \<in> set is \<and> j \<in> recv then Waiting else cstatus (s j))"
    and "map_of (waiting_since c') j = (if j \<in> set is \<and> j \<in> recv then None else map_of (waiting_since c) j)"
    and "c' = c\<lparr>waiting_since := waiting_since c'\<rparr>"
proof -
  have "arrived' = arrived @ filter (\<lambda>i. i \<in> recv) is
    \<and> remaining' = remaining @ filter (\<lambda>i. i \<notin> recv) is
    \<and> cstatus (s' j) = (if j \<in> set is \<and> j \<in> recv then Waiting else cstatus (s j))
    \<and> map_of (waiting_since c') j = (if j \<in> set is \<and> j \<in> recv then None else map_of (waiting_since c) j)
    \<and> c' = c\<lparr>waiting_since := waiting_since c'\<rparr>"
    using assms
  proof (induction "is" arbitrary: c s arrived remaining)
    case Nil
    then show ?case by simp
  next
    case (Cons i "is")
    show ?case
    proof (cases "i \<in> recv")
      case True
      let ?c = "c\<lparr>waiting_since := dict_pop i (waiting_since c)\<rparr>"
      have "input_arrivals recv is ?c (set_status i Waiting s) (arrived @ [i]) remaining
          = (c', s', arrived', remaining')" using Cons.prems True by simp
      note IH = Cons.IH [OF this]
      then have "c' = c\<lparr>waiting_since := waiting_since c'\<rparr>" by simp
      with IH True show ?thesis by (auto simp: map_of_dict_pop)
    next
      case False
      then have "input_arrivals recv is c s arrived (remaining @ [i]) = (c', s', arrived', remaining')"
        using Cons.prems by simp
      with Cons.IH [OF this] False show ?thesis by (cases "j = i") simp_all
    qed
  qed
  then show "arrived' = arrived @ filter (\<lambda>i. i \<in> recv) is"
    "remaining' = remaining @ filter (\<lambda>i. i \<notin> recv) is"
    "cstatus (s' j) = (if j \<in> set is \<and> j \<in> recv then Waiting else cstatus (s j))"
    "map_of (waiting_since c') j = (if j \<in> set is \<and> j \<in> recv then None else map_of (waiting_since c) j)"
    "c' = c\<lparr>waiting_since := waiting_since c'\<rparr>" by blast+
qed

text \<open>The ids the second loop parks.\<close>

definition lacks_input :: "string set \<Rightarrow> coordinator \<Rightarrow> store \<Rightarrow> string \<Rightarrow> bool" where
  "lacks_input recv c s i \<longleftrightarrow>
     cstatus (s i) = Waiting \<and> i \<notin> full_payload_input_received c
       \<and> i \<notin> requests_with_ready_chunks c \<and> i \<notin> finished_requests c
     \<or> cstatus (s i) = Waiting_For_Input \<and> i \<notin> recv"

lemma input_step_spec:
  assumes "input_step recv now i c s = (c1, s1, park)"
  shows "park = lacks_input recv c s i"
    and "waiting_for_input c1 = waiting_for_input c @ (if lacks_input recv c s i then [i] else [])"
    and "cstatus (s1 j) = (if j = i \<and> lacks_input recv c s i then Waiting_For_Input
           else if j = i \<and> cstatus (s i) = Waiting_For_Input then Waiting else cstatus (s j))"
    and "(cstatus (s k) \<in> {Waiting_For_Chunk, Waiting_For_Input} \<longrightarrow> map_of (waiting_since c) k \<noteq> None)
          \<Longrightarrow> cstatus (s1 k) \<in> {Waiting_For_Chunk, Waiting_For_Input} \<Longrightarrow> map_of (waiting_since c1) k \<noteq> None"
    and "full_payload_input_received c1 = full_payload_input_received c"
    and "requests_with_ready_chunks c1 = requests_with_ready_chunks c"
    and "finished_requests c1 = finished_requests c"
    and "waiting_for_chunk_waiting c1 = waiting_for_chunk_waiting c"
    and "waiting_for_chunk_running c1 = waiting_for_chunk_running c"
  using assms unfolding input_step_def lacks_input_def
  by (auto simp: map_of_dict_pop split: if_splits)

lemma park_inputs_eq:
  assumes "park_inputs recv now is c s parked = (c', s', parked')" and "distinct is"
  shows "parked' = parked @ filter (lacks_input recv c s) is"
    and "waiting_for_input c' = waiting_for_input c @ filter (lacks_input recv c s) is"
    and "cstatus (s' j) = (if j \<in> set is \<and> lacks_input recv c s j then Waiting_For_Input
         else if j \<in> set is \<and> cstatus (s j) = Waiting_For_Input then Waiting else cstatus (s j))"
    and "(cstatus (s j) \<in> {Waiting_For_Chunk, Waiting_For_Input} \<longrightarrow> map_of (waiting_since c) j \<noteq> None) \<Longrightarrow>
         cstatus (s' j) \<in> {Waiting_For_Chunk, Waiting_For_Input} \<Longrightarrow> map_of (waiting_since c') j \<noteq> None"
    and "waiting_for_chunk_waiting c' = waiting_for_chunk_waiting c"
    and "waiting_for_chunk_running c' = waiting_for_chunk_running c"
proof -
  have "parked' = parked @ filter (lacks_input recv c s) is
    \<and> waiting_for_input c' = waiting_for_input c @ filter (lacks_input recv c s) is
    \<and> cstatus (s' j) = (if j \<in> set is \<and> lacks_input recv c s j then Waiting_For_Input
         else if j \<in> set is \<and> cstatus (s j) = Waiting_For_Input then Waiting else cstatus (s j))
    \<and> ((cstatus (s j) \<in> {Waiting_For_Chunk, Waiting_For_Input} \<longrightarrow> map_of (waiting_since c) j \<noteq> None) \<longrightarrow>
         cstatus (s' j) \<in> {Waiting_For_Chunk, Waiting_For_Input} \<longrightarrow> map_of (waiting_since c') j \<noteq> None)
    \<and> waiting_for_chunk_waiting c' = waiting_for_chunk_waiting c
    \<and> waiting_for_chunk_running c' = waiting_for_chunk_running c"
    using assms
  proof (induction "is" arbitrary: c s parked)
    case Nil
    then show ?case by simp
  next
    case (Cons i "is")
    have d: "distinct is" "i \<notin> set is" using Cons.prems(2) by simp_all
    obtain c1 s1 park where step: "input_step recv now i c s = (c1, s1, park)" by (rule prod_cases3)
    define parked1 where "parked1 = (if park then parked @ [i] else parked)"
    note sp = input_step_spec [OF step]
    have eq: "park_inputs recv now is c1 s1 parked1 = (c', s', parked')"
      using Cons.prems(1) step by (simp add: parked1_def)
    have p1: "parked1 = parked @ (if lacks_input recv c s i then [i] else [])"
      using sp(1) by (simp add: parked1_def)
    note p1 = p1 sp(2) and st1 = sp(3) and ws1 = sp(4) and same = sp(5-9)
    have other: "lacks_input recv c1 s1 m = lacks_input recv c s m" if "m \<noteq> i" for m
      using st1 [of m] same that by (simp add: lacks_input_def)
    have f: "filter (lacks_input recv c1 s1) is = filter (lacks_input recv c s) is"
      by (intro filter_cong refl) (metis d(2) other)
    note IH = Cons.IH [OF eq d(1), unfolded f]
    have "cstatus (s' j) = (if j \<in> set (i # is) \<and> lacks_input recv c s j then Waiting_For_Input
         else if j \<in> set (i # is) \<and> cstatus (s j) = Waiting_For_Input then Waiting else cstatus (s j))"
    proof -
      have "cstatus (s' j) = (if j \<in> set is \<and> lacks_input recv c1 s1 j then Waiting_For_Input
         else if j \<in> set is \<and> cstatus (s1 j) = Waiting_For_Input then Waiting else cstatus (s1 j))"
        using IH by blast
      then show ?thesis using d(2) st1 [of j] other [of j] by (cases "j = i") simp_all
    qed
    moreover have "(cstatus (s j) \<in> {Waiting_For_Chunk, Waiting_For_Input} \<longrightarrow> map_of (waiting_since c) j \<noteq> None) \<longrightarrow>
         cstatus (s' j) \<in> {Waiting_For_Chunk, Waiting_For_Input} \<longrightarrow> map_of (waiting_since c') j \<noteq> None"
      using IH ws1 [of j] by blast
    moreover have "parked' = parked @ filter (lacks_input recv c s) (i # is)"
      "waiting_for_input c' = waiting_for_input c @ filter (lacks_input recv c s) (i # is)"
      using IH p1 by simp_all
    moreover have "waiting_for_chunk_waiting c' = waiting_for_chunk_waiting c"
      "waiting_for_chunk_running c' = waiting_for_chunk_running c" using IH same(4,5) by simp_all
    ultimately show ?case by blast
  qed
  then show "parked' = parked @ filter (lacks_input recv c s) is"
    "waiting_for_input c' = waiting_for_input c @ filter (lacks_input recv c s) is"
    "cstatus (s' j) = (if j \<in> set is \<and> lacks_input recv c s j then Waiting_For_Input
         else if j \<in> set is \<and> cstatus (s j) = Waiting_For_Input then Waiting else cstatus (s j))"
    "(cstatus (s j) \<in> {Waiting_For_Chunk, Waiting_For_Input} \<longrightarrow> map_of (waiting_since c) j \<noteq> None) \<Longrightarrow>
         cstatus (s' j) \<in> {Waiting_For_Chunk, Waiting_For_Input} \<Longrightarrow> map_of (waiting_since c') j \<noteq> None"
    "waiting_for_chunk_waiting c' = waiting_for_chunk_waiting c"
    "waiting_for_chunk_running c' = waiting_for_chunk_running c" by blast+
qed

context request_queue
begin

lemma process_inputs_ok:
  assumes d: "distinct (wq_list wq (waiting_queue v) @ waiting_for_input (coord v))"
    and v': "v' = process_pending_full_payload_inputs wq recv now v"
  shows "held wq v' = held wq v"
    and "(\<forall>k. cstatus (objects v k) \<in> {Waiting_For_Chunk, Waiting_For_Input} \<longrightarrow>
            map_of (waiting_since (coord v)) k \<noteq> None) \<Longrightarrow>
         cstatus (objects v' l) \<in> {Waiting_For_Chunk, Waiting_For_Input} \<Longrightarrow>
            map_of (waiting_since (coord v')) l \<noteq> None"
    and "stage_id (coord v) \<noteq> 0 \<Longrightarrow> i \<in> set (waiting_for_input (coord v)) \<Longrightarrow> i \<in> recv \<Longrightarrow>
         i \<in> set (wq_list wq (waiting_queue v')) \<and> cstatus (objects v' i) = Waiting"
proof -
  let ?c = "coord v"
  have all: "held wq v' = held wq v \<and>
    ((\<forall>k. cstatus (objects v k) \<in> {Waiting_For_Chunk, Waiting_For_Input} \<longrightarrow>
            map_of (waiting_since (coord v)) k \<noteq> None) \<longrightarrow>
         cstatus (objects v' l) \<in> {Waiting_For_Chunk, Waiting_For_Input} \<longrightarrow>
            map_of (waiting_since (coord v')) l \<noteq> None) \<and>
    (stage_id (coord v) \<noteq> 0 \<longrightarrow> i \<in> set (waiting_for_input (coord v)) \<longrightarrow> i \<in> recv \<longrightarrow>
         i \<in> set (wq_list wq (waiting_queue v')) \<and> cstatus (objects v' i) = Waiting)"
  proof (cases "stage_id ?c = 0")
    case True
    then show ?thesis by (simp add: v' process_pending_full_payload_inputs_def)
  next
    case st: False
    define c1 where "c1 = ?c\<lparr>full_payload_input_received := full_payload_input_received ?c \<union> recv,
                   finished_requests := (if \<not> async_chunk ?c \<and> recv \<noteq> {}
                      then finished_requests ?c \<union> recv else finished_requests ?c),
                   pending_input_registrations := []\<rparr>"
    obtain c2 s2 arrived remaining where ia:
      "input_arrivals recv (waiting_for_input c1) c1 (objects v) [] [] = (c2, s2, arrived, remaining)"
      by (metis prod_cases4)
    note e = input_arrivals_eq [OF ia]
    have wfi: "waiting_for_input c1 = waiting_for_input ?c" by (simp add: c1_def)
    define q2 where "q2 = foldl (wq_add wq) (waiting_queue v) arrived"
    define c3 where "c3 = c2\<lparr>waiting_for_input := remaining\<rparr>"
    have mq2: "mset (wq_list wq q2) = mset (wq_list wq (waiting_queue v)) + mset arrived"
      unfolding q2_def by (rule foldl_add)
    have part: "mset arrived + mset remaining = mset (waiting_for_input ?c)"
      using e(1,2) wfi by (simp add: mset_filter)
    have c2f: "waiting_for_chunk_waiting c2 = waiting_for_chunk_waiting ?c"
      "waiting_for_chunk_running c2 = waiting_for_chunk_running ?c"
      "full_payload_input_received c2 = full_payload_input_received ?c \<union> recv"
      using arg_cong [OF e(5), of waiting_for_chunk_waiting] arg_cong [OF e(5), of waiting_for_chunk_running]
        arg_cong [OF e(5), of full_payload_input_received] by (simp_all add: c1_def)
    have tr2: "cstatus (s2 l) \<in> {Waiting_For_Chunk, Waiting_For_Input} \<Longrightarrow> map_of (waiting_since c3) l \<noteq> None"
      if "\<forall>k. cstatus (objects v k) \<in> {Waiting_For_Chunk, Waiting_For_Input} \<longrightarrow>
            map_of (waiting_since (coord v)) k \<noteq> None"
      using that e(3) [of l] e(4) [of l] by (auto simp: c3_def c1_def split: if_splits)
    have arr: "i \<in> set arrived" "cstatus (s2 i) = Waiting"
      if "i \<in> set (waiting_for_input ?c)" "i \<in> recv" using e(1,3) wfi that by auto
    show ?thesis
    proof (cases "async_chunk ?c")
      case True
      then have v'eq: "v' = v\<lparr>coord := c3, objects := s2, waiting_queue := q2\<rparr>"
        using st ia unfolding v' process_pending_full_payload_inputs_def Let_def c1_def c3_def q2_def by simp
      have "held wq v' = held wq v"
        unfolding held_def v'eq using part by (simp add: mq2 c3_def c2f union_ac)
      moreover have "i \<in> set (waiting_for_input ?c) \<Longrightarrow> i \<in> recv \<Longrightarrow> i \<in> set (wq_list wq q2)"
        using mq2 arr(1) by (metis UnI2 set_mset_mset set_mset_union)
      ultimately show ?thesis using v'eq tr2 arr(2) by simp
    next
      case na: False
      obtain c4 s4 parked where pk: "park_inputs recv now (wq_list wq q2) c3 s2 [] = (c4, s4, parked)"
        by (rule prod_cases3)
      have v'eq: "v' = v\<lparr>coord := c4, objects := s4, waiting_queue := foldl (wq_remove wq) q2 parked\<rparr>"
        using st na ia pk unfolding v' process_pending_full_payload_inputs_def Let_def c1_def c3_def q2_def by simp
      have dq2: "distinct (wq_list wq q2)"
      proof -
        have "distinct (wq_list wq (waiting_queue v) @ arrived)" using d e(1) wfi by auto
        then show ?thesis using mq2 by (metis mset_append mset_eq_imp_distinct_iff)
      qed
      note p = park_inputs_eq [OF pk dq2]
      have psub: "mset parked \<subseteq># mset (wq_list wq q2)" using p(1) by (simp add: mset_filter_sub)
      have mq4: "mset (wq_list wq (foldl (wq_remove wq) q2 parked)) = mset (wq_list wq q2) - mset parked"
        by (rule foldl_remove [OF psub])
      have w4: "waiting_for_input c4 = remaining @ parked" using p(1,2) by (simp add: c3_def)
      have wf: "waiting_for_chunk_waiting c4 = waiting_for_chunk_waiting ?c"
        "waiting_for_chunk_running c4 = waiting_for_chunk_running ?c" using p(5,6) by (simp_all add: c3_def c2f)
      have "held wq v' = (mset (wq_list wq q2) - mset parked + mset parked) + mset (running_queue v)
        + mset (waiting_for_chunk_waiting ?c) + mset (waiting_for_chunk_running ?c) + mset remaining"
        unfolding held_def v'eq by (simp add: w4 mq4 wf union_ac)
      also have "\<dots> = held wq v"
        using psub part by (simp add: held_def mq2 union_ac)
      finally have h: "held wq v' = held wq v" .
      have "i \<in> set (wq_list wq (foldl (wq_remove wq) q2 parked)) \<and> cstatus (s4 i) = Waiting"
        if i: "i \<in> set (waiting_for_input ?c)" "i \<in> recv"
      proof -
        have "i \<in> set (wq_list wq q2)" using mq2 arr(1) [OF i] by (metis UnI2 set_mset_mset set_mset_union)
        moreover have nl: "\<not> lacks_input recv c3 s2 i"
          using arr(2) [OF i] i(2) by (simp add: lacks_input_def c3_def c2f)
        then have "i \<notin> set parked" using p(1) by simp
        moreover have "set (wq_list wq (foldl (wq_remove wq) q2 parked)) = set (wq_list wq q2) - set parked"
          by (rule distinct_mset_diff [OF mq4 dq2])
        ultimately show ?thesis using p(3) [of i] nl arr(2) [OF i] by simp
      qed
      then show ?thesis using h v'eq p(4) [of l] tr2 by simp
    qed
  qed
  then show "held wq v' = held wq v"
    "(\<forall>k. cstatus (objects v k) \<in> {Waiting_For_Chunk, Waiting_For_Input} \<longrightarrow>
            map_of (waiting_since (coord v)) k \<noteq> None) \<Longrightarrow>
         cstatus (objects v' l) \<in> {Waiting_For_Chunk, Waiting_For_Input} \<Longrightarrow>
            map_of (waiting_since (coord v')) l \<noteq> None"
    "stage_id (coord v) \<noteq> 0 \<Longrightarrow> i \<in> set (waiting_for_input (coord v)) \<Longrightarrow> i \<in> recv \<Longrightarrow>
         i \<in> set (wq_list wq (waiting_queue v')) \<and> cstatus (objects v' i) = Waiting"
    by blast+
qed

lemma restore_queues_ok:
  "held wq (restore_queues wq v) = held wq v"
  "mset (wq_list wq (waiting_queue (restore_queues wq v))) + mset (running_queue (restore_queues wq v)) = held wq v"
  "waiting_since (coord (restore_queues wq v)) = waiting_since (coord v)"
  "objects (restore_queues wq v) = objects v"
  by (simp_all add: restore_queues_def held_def foldl_add Let_def union_ac)

end

section \<open>Properties\<close>

text \<open>C26: The coordinator never loses or duplicates a request: parking for chunks or inputs, waking
  and trimming the running queue only move requests between the scheduler's queues and the
  coordinator's, and after the queues are restored every request is back with the scheduler.\<close>

theorem coordinator_conserves_requests:
  assumes "distinct (waiting_queue v @ running_queue v @ waiting_for_input (coord v))"
  shows "held fcfs (process_pending_chunks fcfs ready fin now v) = held fcfs v
    \<and> held fcfs (process_pending_full_payload_inputs fcfs recv now v) = held fcfs v
    \<and> mset (waiting_queue (restore_queues fcfs v)) + mset (running_queue (restore_queues fcfs v)) = held fcfs v"
proof -
  have l: "wq_list fcfs q = q" for q by (simp add: fcfs_def)
  have "held fcfs (process_pending_chunks fcfs ready fin now v) = held fcfs v"
  proof (cases "stage_id (coord v) = 0 \<or> \<not> async_chunk (coord v)")
    case True
    then show ?thesis by (simp add: process_pending_chunks_def)
  next
    case False
    then show ?thesis
      using assms by (intro fcfs.process_pending_chunks_ok(1)) (auto simp: l)
  qed
  moreover have "held fcfs (process_pending_full_payload_inputs fcfs recv now v) = held fcfs v"
    using assms by (intro fcfs.process_inputs_ok(1)) (auto simp: l)
  ultimately show ?thesis using fcfs.restore_queues_ok(2) [of v] by (simp add: l)
qed

definition ex_creq :: "vstatus \<Rightarrow> creq" where
  "ex_creq st = \<lparr>cstatus = st, prompt_token_ids = [1, 2], num_prompt_tokens = 2, all_token_ids = [1, 2],
     output_token_ids = Some [], num_computed_tokens = 0, initial_model_buffer = None\<rparr>"

definition ex_view :: "string list view" where
  "ex_view = \<lparr>coord = coordinator_init 1 1 True,
     objects = (\<lambda>i. ex_creq (if i = ''c'' then Running else Waiting)),
     waiting_queue = [''a'', ''b''], running_queue = [''c'']\<rparr>"

theorem coordinator_conserves_requests_witness:
  "held fcfs (process_pending_chunks fcfs {''a''} {} 0 ex_view) = {#''a'', ''b'', ''c''#}"
  using coordinator_conserves_requests [of ex_view "{''a''}" "{}" 0 "{}"]
  by (simp add: ex_view_def coordinator_init_def held_def fcfs_def)

text \<open>A chunk cycle of an async-chunk stage parks exactly the queued requests whose chunk is
  missing and gives them status WAITING_FOR_CHUNK; none of the requests left to the scheduler has
  that status, and no more than the configured number are running.\<close>

theorem chunk_cycle_parks:
  assumes "stage_id (coord v) \<noteq> 0" and "async_chunk (coord v)"
    and "distinct (waiting_queue v @ running_queue v)"
    and "v' = process_pending_chunks fcfs ready fin now v"
  shows "waiting_for_chunk_waiting (coord v') = waiting_for_chunk_waiting (coord v)
        @ filter (lacks_chunk ready fin (coord v) (objects v)) (waiting_queue v)
    \<and> waiting_for_chunk_running (coord v') = waiting_for_chunk_running (coord v)
        @ filter (lacks_chunk ready fin (coord v) (objects v)) (running_queue v)
    \<and> (\<forall>i \<in> set (waiting_queue v) \<union> set (running_queue v).
         lacks_chunk ready fin (coord v) (objects v) i \<longrightarrow> cstatus (objects v' i) = Waiting_For_Chunk)
    \<and> (\<forall>i \<in> set (waiting_queue v') \<union> set (running_queue v'). cstatus (objects v' i) \<noteq> Waiting_For_Chunk)
    \<and> length (running_queue v') \<le> scheduler_max_num_seqs (coord v)"
proof -
  have l: "wq_list fcfs q = q" for q by (simp add: fcfs_def)
  note p = fcfs.process_pending_chunks_ok [OF assms(1,2) _ assms(4), unfolded l, OF assms(3)]
  show ?thesis using p(2-4,6,7) by blast
qed

theorem chunk_cycle_parks_witness:
  "waiting_for_chunk_waiting (coord (process_pending_chunks fcfs {''a''} {} 0 ex_view)) = [''b'']"
  using chunk_cycle_parks [of ex_view _ "{''a''}" "{}" 0]
  by (simp add: ex_view_def coordinator_init_def lacks_chunk_def ex_creq_def)

text \<open>The waiting timestamps are always up to date: if every request with a waiting status has
  one, the same holds after each of the coordinator's cycles, so a later timeout check, which looks
  only at the timestamps, sees every waiting request.\<close>

theorem waiting_since_tracks:
  assumes "distinct (waiting_queue v @ running_queue v @ waiting_for_input (coord v))"
    and "\<forall>k. cstatus (objects v k) \<in> {Waiting_For_Chunk, Waiting_For_Input} \<longrightarrow>
           map_of (waiting_since (coord v)) k \<noteq> None"
    and "v' \<in> {process_pending_chunks fcfs ready fin now v,
               process_pending_full_payload_inputs fcfs recv now v, restore_queues fcfs v}"
    and "cstatus (objects v' i) \<in> {Waiting_For_Chunk, Waiting_For_Input}"
    and "now' - the (map_of (waiting_since (coord v')) i) > timeout" and "timeout > 0"
  shows "i \<in> snd (collect_timed_out_request_ids timeout now' (coord v'))"
proof -
  have l: "wq_list fcfs q = q" for q by (simp add: fcfs_def)
  have d: "distinct (waiting_queue v @ running_queue v)" "distinct (waiting_queue v @ waiting_for_input (coord v))"
    using assms(1) by auto
  consider (chunks) "v' = process_pending_chunks fcfs ready fin now v"
    | (inputs) "v' = process_pending_full_payload_inputs fcfs recv now v" | (restore) "v' = restore_queues fcfs v"
    using assms(3) by blast
  then have "map_of (waiting_since (coord v')) i \<noteq> None"
  proof cases
    case chunks
    show ?thesis
    proof (cases "stage_id (coord v) = 0 \<or> \<not> async_chunk (coord v)")
      case True
      then have "v' = v" using chunks by (simp add: process_pending_chunks_def)
      then show ?thesis using assms(2,4) by blast
    next
      case False
      then show ?thesis
        using fcfs.process_pending_chunks_ok(9) [OF _ _ _ chunks assms(2,4), unfolded l] d(1) by blast
    qed
  next
    case inputs
    then show ?thesis
      using fcfs.process_inputs_ok(2) [OF _ inputs assms(2,4), unfolded l] d(2) by blast
  next
    case restore
    then show ?thesis using assms(2,4) fcfs.restore_queues_ok(3,4) [of v] by metis
  qed
  then obtain t where t: "map_of (waiting_since (coord v')) i = Some t" by blast
  then have "(i, t) \<in> set (waiting_since (coord v'))" by (rule map_of_SomeD)
  then have "i \<in> fst ` set (filter (\<lambda>(_, t). now' - t > timeout) (waiting_since (coord v')))"
    using assms(5) t by force
  then show ?thesis using assms(6) by (auto simp: collect_timed_out_request_ids_def Let_def)
qed

theorem waiting_since_tracks_witness:
  "''b'' \<in> snd (collect_timed_out_request_ids 5 10 (coord (process_pending_chunks fcfs {''a''} {} 0 ex_view)))"
  by (rule waiting_since_tracks [of ex_view _ "{''a''}" "{}" 0 "{}"])
    (simp_all add: ex_view_def coordinator_init_def ex_creq_def process_pending_chunks_def fcfs_def
      chunk_step_def setdefault_def trim_running.simps [of _ _ "[]"] set_status_def)

end
