(* ===== verification/Shm_Connector.thy ===== *)
theory Shm_Connector
  imports Prelude
begin

text \<open>
  \<open>SharedMemoryConnector\<close> (\<open>distributed/omni_connectors/connectors/shm_connector.py\<close>) with the
  segment helpers of \<open>entrypoints/stage_utils.py\<close>.

  \<open>/dev/shm\<close> is a map from names to segments, with the set of lock files beside it. The two
  processes of a link share it; each has its own connector object. A segment holds a serialized
  object: it is represented by the object itself, and \<open>enc\<close> gives the length of its bytes
  (\<open>None\<close> when serializing raises). Deserializing what was serialized gives the object back.
  \<open>truthy\<close> is Python's truth value of the object. What a client relies on is the locale
  \<open>connector\<close>, an interface over the abstract content of the link.
\<close>

section \<open>Segments\<close>

record 'p shm_fs =
  segments :: "string \<rightharpoonup> 'p"
  lock_files :: "string set"

text \<open>Creating a segment of size 0 raises \<open>ValueError\<close>; an existing segment is replaced.\<close>

definition shm_write_bytes :: "nat \<Rightarrow> 'p \<Rightarrow> string \<Rightarrow> 'p shm_fs \<Rightarrow> 'p shm_fs \<times> (string \<times> nat) res" where
  "shm_write_bytes sz p name fs =
     (if sz = 0 then (fs, Inl ValueError)
      else (fs\<lparr>segments := (segments fs)(name \<mapsto> p)\<rparr>, Inr (name, sz)))"

definition shm_read_bytes :: "string \<Rightarrow> 'p shm_fs \<Rightarrow> 'p shm_fs \<times> 'p res" where
  "shm_read_bytes name fs =
     (case segments fs name of
        None \<Rightarrow> (fs, Inl OSError)
      | Some p \<Rightarrow> (fs\<lparr>segments := (segments fs)(name := None)\<rparr>, Inr p))"

section \<open>The connector\<close>

record conn =
  conn_stage :: int
  pending_keys :: "string set"
  puts :: nat
  bytes_transferred :: nat
  shm_writes :: nat

definition conn_init :: "int \<Rightarrow> conn" where
  "conn_init sid = \<lparr>conn_stage = sid, pending_keys = {}, puts = 0, bytes_transferred = 0, shm_writes = 0\<rparr>"

text \<open>
  \<open>put\<close> opens (creates) the lock file before it writes, and an exception anywhere in it is turned
  into \<open>(False, 0, None)\<close>.
\<close>

definition shm_put ::
  "('p \<Rightarrow> nat option) \<Rightarrow> string \<Rightarrow> 'p \<Rightarrow> conn \<Rightarrow> 'p shm_fs
     \<Rightarrow> conn \<times> 'p shm_fs \<times> bool \<times> nat \<times> (string \<times> nat) option" where
  "shm_put enc key p c fs =
     (case enc p of
        None \<Rightarrow> (c, fs, False, 0, None)
      | Some sz \<Rightarrow>
          (case shm_write_bytes sz p key (fs\<lparr>lock_files := insert key (lock_files fs)\<rparr>) of
             (fs', Inl _) \<Rightarrow> (c, fs', False, 0, None)
           | (fs', Inr meta) \<Rightarrow>
               (c\<lparr>pending_keys := insert key (pending_keys c), shm_writes := shm_writes c + 1,
                  puts := puts c + 1, bytes_transferred := bytes_transferred c + sz\<rparr>,
                fs', True, sz, Some meta)))"

text \<open>The lock file is removed only after an object that is not falsy was read.\<close>

definition get_data_with_lock ::
  "('p \<Rightarrow> bool) \<Rightarrow> string \<Rightarrow> string \<times> nat \<Rightarrow> 'p shm_fs \<Rightarrow> 'p shm_fs \<times> ('p \<times> nat) option" where
  "get_data_with_lock truthy lock handle fs =
     (if lock \<notin> lock_files fs then (fs, None)
      else case shm_read_bytes (fst handle) fs of
             (fs', Inl _) \<Rightarrow> (fs', None)
           | (fs', Inr p) \<Rightarrow>
               (if truthy p then fs'\<lparr>lock_files := lock_files fs' - {lock}\<rparr> else fs', Some (p, snd handle)))"

definition get_by_key ::
  "('p \<Rightarrow> nat option) \<Rightarrow> ('p \<Rightarrow> bool) \<Rightarrow> string \<Rightarrow> conn \<Rightarrow> 'p shm_fs
     \<Rightarrow> conn \<times> 'p shm_fs \<times> ('p \<times> nat) option" where
  "get_by_key enc truthy key c fs =
     (case segments fs key of
        None \<Rightarrow> (c, fs, None)
      | Some p \<Rightarrow>
          (let sz = (case enc p of None \<Rightarrow> 0 | Some n \<Rightarrow> n) in
           if sz = 0 then (c, fs, None)
           else case get_data_with_lock truthy key (key, sz) fs of
                  (fs', None) \<Rightarrow> (c, fs', None)
                | (fs', Some r) \<Rightarrow> (c\<lparr>pending_keys := pending_keys c - {key}\<rparr>, fs', Some r)))"

text \<open>The metadata a caller may pass: nothing usable, an inline object, or a segment handle.\<close>

datatype 'p get_meta = No_Meta | Other_Meta | Inline "'p option" nat | Handle "string \<times> nat"

definition shm_get ::
  "('p \<Rightarrow> nat option) \<Rightarrow> ('p \<Rightarrow> bool) \<Rightarrow> string \<Rightarrow> 'p get_meta \<Rightarrow> conn \<Rightarrow> 'p shm_fs
     \<Rightarrow> conn \<times> 'p shm_fs \<times> ('p \<times> nat) option" where
  "shm_get enc truthy key meta c fs =
     (case meta of
        Inline p sz \<Rightarrow>
          (case p of
             None \<Rightarrow> (c, fs, None)
           | Some x \<Rightarrow> (c\<lparr>pending_keys := pending_keys c - {key}\<rparr>, fs, Some (x, sz)))
      | Handle h \<Rightarrow>
          (case get_data_with_lock truthy (fst h) h fs of
             (fs', None) \<Rightarrow> (c, fs', None)
           | (fs', Some r) \<Rightarrow> (c\<lparr>pending_keys := pending_keys c - {key}\<rparr>, fs', Some r))
      | _ \<Rightarrow> get_by_key enc truthy key c fs)"

text \<open>Unlinking the segments of some keys, with their lock files.\<close>

definition unlink_keys :: "string set \<Rightarrow> 'p shm_fs \<Rightarrow> 'p shm_fs" where
  "unlink_keys ks fs = fs\<lparr>segments := (\<lambda>k. if k \<in> ks then None else segments fs k),
                         lock_files := lock_files fs - ks\<rparr>"

definition belongs_to :: "string \<Rightarrow> string \<Rightarrow> bool" where
  "belongs_to rid k \<longleftrightarrow> k = rid \<or> prefix (rid @ ''_'') k \<or> suffix (''_'' @ rid) k"

definition shm_cleanup :: "string \<Rightarrow> conn \<Rightarrow> 'p shm_fs \<Rightarrow> conn \<times> 'p shm_fs" where
  "shm_cleanup rid c fs =
     (let stale = {k \<in> pending_keys c. belongs_to rid k}
      in (c\<lparr>pending_keys := pending_keys c - stale\<rparr>, unlink_keys stale fs))"

definition shm_close :: "conn \<Rightarrow> 'p shm_fs \<Rightarrow> conn \<times> 'p shm_fs" where
  "shm_close c fs = (c\<lparr>pending_keys := {}\<rparr>, unlink_keys (pending_keys c) fs)"

section \<open>The interface of a link\<close>

text \<open>A link joins the connector of the sending stage to that of the receiving one.\<close>

record 'p shm_link =
  tx :: conn
  rx :: conn
  fs :: "'p shm_fs"

definition link_put :: "('p \<Rightarrow> nat option) \<Rightarrow> string \<Rightarrow> 'p \<Rightarrow> 'p shm_link \<Rightarrow> 'p shm_link \<times> bool" where
  "link_put enc key p l =
     (case shm_put enc key p (tx l) (fs l) of (c, f, success, _) \<Rightarrow> (l\<lparr>tx := c, fs := f\<rparr>, success))"

definition link_get ::
  "('p \<Rightarrow> nat option) \<Rightarrow> ('p \<Rightarrow> bool) \<Rightarrow> string \<Rightarrow> 'p shm_link \<Rightarrow> 'p shm_link \<times> 'p option" where
  "link_get enc truthy key l =
     (case shm_get enc truthy key No_Meta (rx l) (fs l) of
        (c, f, r) \<Rightarrow> (l\<lparr>rx := c, fs := f\<rparr>, map_option fst r))"

text \<open>Every segment was written with its lock file in place and is not empty.\<close>

definition link_ok :: "('p \<Rightarrow> nat option) \<Rightarrow> 'p shm_link \<Rightarrow> bool" where
  "link_ok enc l \<longleftrightarrow> (\<forall>k p. segments (fs l) k = Some p \<longrightarrow>
     k \<in> lock_files (fs l) \<and> (\<exists>n. enc p = Some n \<and> 0 < n))"

definition link_content :: "'p shm_link \<Rightarrow> string \<Rightarrow> 'p option" where
  "link_content l = segments (fs l)"

locale connector =
  fixes put :: "string \<Rightarrow> 'p \<Rightarrow> 's \<Rightarrow> 's \<times> bool"
    and get :: "string \<Rightarrow> 's \<Rightarrow> 's \<times> 'p option"
    and content :: "'s \<Rightarrow> string \<Rightarrow> 'p option"
    and inv :: "'s \<Rightarrow> bool"
  assumes put_ok: "inv s \<Longrightarrow> put k p s = (s', b) \<Longrightarrow>
      inv s' \<and> content s' = (if b then (content s)(k \<mapsto> p) else content s)"
    and get_ok: "inv s \<Longrightarrow> get k s = (s', r) \<Longrightarrow>
      inv s' \<and> r = content s k \<and> content s' = (content s)(k := None)"
begin

text \<open>What was put is what the next get of that key returns, once.\<close>

lemma get_after_put:
  assumes "inv s" and "put k p s = (s', True)"
  shows "snd (get k s') = Some p" and "snd (get k (fst (get k s'))) = None"
proof -
  obtain s'' r where g: "get k s' = (s'', r)" by (rule prod.exhaust)
  from put_ok [OF assms] get_ok [of s' k s'' r] g
  have "inv s''" "r = Some p" "content s'' k = None" by auto
  with g get_ok [of s'' k "fst (get k s'')" "snd (get k s'')"]
  show "snd (get k s') = Some p" "snd (get k (fst (get k s'))) = None" by simp_all
qed

lemma put_other:
  assumes "inv s" and "put k p s = (s', b)" and "j \<noteq> k"
  shows "content s' j = content s j"
  using put_ok [OF assms(1,2)] assms(3) by auto

end

lemma link_put_ok:
  assumes "link_ok enc l" and "link_put enc k p l = (l', b)"
  shows "link_ok enc l' \<and> link_content l' = (if b then (link_content l)(k \<mapsto> p) else link_content l)"
  using assms
  by (auto simp: link_ok_def link_put_def link_content_def shm_put_def shm_write_bytes_def
      split: option.splits if_splits)

lemma link_get_ok:
  assumes "link_ok enc l" and "link_get enc truthy k l = (l', r)"
  shows "link_ok enc l' \<and> r = link_content l k \<and> link_content l' = (link_content l)(k := None)"
proof (cases "segments (fs l) k")
  case None
  then show ?thesis
    using assms by (auto simp: link_get_def shm_get_def get_by_key_def link_content_def)
next
  case (Some p)
  then obtain n where n: "enc p = Some n" "0 < n" "k \<in> lock_files (fs l)"
    using assms(1) by (auto simp: link_ok_def)
  have g: "link_get enc truthy k l = (l\<lparr>rx := rx l\<lparr>pending_keys := pending_keys (rx l) - {k}\<rparr>,
      fs := (fs l)\<lparr>segments := (segments (fs l))(k := None),
        lock_files := lock_files (fs l) - (if truthy p then {k} else {})\<rparr>\<rparr>, Some p)"
    using n Some by (simp add: link_get_def shm_get_def get_by_key_def get_data_with_lock_def shm_read_bytes_def)
  show ?thesis
    using assms Some unfolding g by (auto simp: link_ok_def link_content_def split: if_splits)
qed

interpretation shm: connector "link_put enc" "link_get enc truthy" link_content "link_ok enc"
  by unfold_locales (rule link_put_ok, assumption+, rule link_get_ok, assumption+)

text \<open>A failed put may leave its lock file behind, and nothing else.\<close>

lemma link_put_failed:
  assumes "link_put enc k p l = (l', False)"
  shows "tx l' = tx l \<and> link_content l' = link_content l"
  using assms by (auto simp: link_put_def link_content_def shm_put_def shm_write_bytes_def
      split: option.splits if_splits)

end
