(* ===== verification/Chunk_Adapter.thy ===== *)
theory Chunk_Adapter
  imports Shm_Connector Scheduling_Coordinator
begin

text \<open>
  \<open>OmniChunkTransferAdapter\<close> with its base class
  (\<open>distributed/omni_connectors/transfer_adapter\<close>): chunks of a request are sent from one stage
  to the next under numbered keys and polled in the same order.

  A payload is a dictionary of dictionaries whose values are lists, tensors (their rows),
  booleans or something else. The connector's \<open>put\<close> and \<open>get\<close> and the function that builds a
  chunk (\<open>custom_process_next_stage_input_func\<close>) are arguments. The condition variables of the two
  background threads only decide when an iteration runs.
\<close>

section \<open>Payloads\<close>

datatype item = Num int | Pair string string
datatype pval = PList "item list" | PTensor "int list" | PBool bool | POther string
datatype pentry = Sub "(string \<times> pval) list" | Flat pval
type_synonym payload = "(string \<times> pentry) list"

text \<open>Truth values: of a tensor only with at most one element.\<close>

definition truth :: "pval \<Rightarrow> bool res" where
  "truth v = (case v of
      PList xs \<Rightarrow> Inr (xs \<noteq> [])
    | PTensor [] \<Rightarrow> Inr False
    | PTensor [x] \<Rightarrow> Inr (x \<noteq> 0)
    | PTensor (x # y # zs) \<Rightarrow> Inl RuntimeError
    | PBool b \<Rightarrow> Inr b
    | POther s \<Rightarrow> Inr (s \<noteq> []))"

text \<open>\<open>payload.get(k, {})\<close>, then used as a dictionary.\<close>

definition sub :: "payload \<Rightarrow> string \<Rightarrow> (string \<times> pval) list res" where
  "sub p k = (case map_of p k of None \<Rightarrow> Inr [] | Some (Sub d) \<Rightarrow> Inr d | Some (Flat _) \<Rightarrow> Inl AttributeError)"

text \<open>\<open>meta.get("finished")\<close> as a condition.\<close>

definition meta_finished :: "payload \<Rightarrow> bool res" where
  "meta_finished p = (case sub p ''meta'' of Inl e \<Rightarrow> Inl e
     | Inr d \<Rightarrow> (case map_of d ''finished'' of None \<Rightarrow> Inr False | Some v \<Rightarrow> truth v))"

text \<open>The sender's reading of the same flag, with a fallback to the top level.\<close>

definition flag_set :: "pval \<Rightarrow> bool" where
  "flag_set v = (case v of PTensor xs \<Rightarrow> length xs = 1 \<and> xs \<noteq> [0] | PList xs \<Rightarrow> xs \<noteq> []
     | PBool b \<Rightarrow> b | POther s \<Rightarrow> s \<noteq> [])"

definition sent_finished :: "payload \<Rightarrow> bool res" where
  "sent_finished p = (case sub p ''meta'' of Inl e \<Rightarrow> Inl e
     | Inr d \<Rightarrow> Inr (case map_of d ''finished'' of
           Some v \<Rightarrow> flag_set v
         | None \<Rightarrow> (case map_of p ''finished'' of None \<Rightarrow> False | Some (Flat v) \<Rightarrow> flag_set v
             | Some (Sub d') \<Rightarrow> d' \<noteq> [])))"

section \<open>State\<close>

record chunk_req =
  rstatus :: vstatus
  external_req_id :: string
  additional_information :: "payload option"
  prompt_ids :: pval
  computed_tokens :: int

type_synonym chunk_store = "string \<Rightarrow> chunk_req"

record 'o save_task =
  pooling_output :: 'o
  task_request :: string
  task_is_finished :: bool

record 'o adapter =
  adapter_stage :: nat
  max_num_seqs :: nat
  model_mode :: string
  pending_load_reqs :: "string list"
  finished_load_reqs :: "string set"
  cancelled_load_reqs :: "string set"
  pending_save_reqs :: "'o save_task list"
  put_req_chunk :: "string \<rightharpoonup> nat"
  get_req_chunk :: "string \<rightharpoonup> nat"
  chunks_finished :: "string set"
  request_payload :: "string \<rightharpoonup> payload"
  code_prompt_token_ids :: "string set"
  request_ids_mapping :: "string \<rightharpoonup> string"
  chunk_waiting_requests :: "string list"
  chunk_running_requests :: "string list"
  ready_chunks :: "string set"
  requests_origin_status :: "string \<rightharpoonup> vstatus"

definition adapter_init :: "nat \<Rightarrow> nat \<Rightarrow> string \<Rightarrow> 'o adapter" where
  "adapter_init sid mx mode = \<lparr>adapter_stage = sid, max_num_seqs = mx, model_mode = mode,
     pending_load_reqs = [], finished_load_reqs = {}, cancelled_load_reqs = {}, pending_save_reqs = [],
     put_req_chunk = Map.empty, get_req_chunk = Map.empty, chunks_finished = {},
     request_payload = Map.empty, code_prompt_token_ids = {}, request_ids_mapping = Map.empty,
     chunk_waiting_requests = [], chunk_running_requests = [], ready_chunks = {},
     requests_origin_status = Map.empty\<rparr>"

text \<open>Reading a \<open>defaultdict(int)\<close> inserts 0.\<close>

definition chunk_no :: "(string \<rightharpoonup> nat) \<Rightarrow> string \<Rightarrow> nat" where
  "chunk_no d k = (case d k of None \<Rightarrow> 0 | Some n \<Rightarrow> n)"

definition touch :: "string \<Rightarrow> (string \<rightharpoonup> nat) \<Rightarrow> (string \<rightharpoonup> nat)" where
  "touch k d = d(k \<mapsto> chunk_no d k)"

definition chunk_key :: "string \<Rightarrow> nat \<Rightarrow> nat \<Rightarrow> string" where
  "chunk_key ext stage n = ext @ ''_'' @ show_nat stage @ ''_'' @ show_nat n"

section \<open>Receiving\<close>

definition load_async :: "string \<Rightarrow> 'o adapter \<Rightarrow> 'o adapter" where
  "load_async i a =
     (if adapter_stage a = 0 then a
      else a\<lparr>cancelled_load_reqs := cancelled_load_reqs a - {i},
             pending_load_reqs := pending_load_reqs a @ [i]\<rparr>)"

text \<open>
  \<open>_update_request_payload\<close>: lists and tensors of the new chunk are appended to those stored,
  except under the keys the chunk overrides; the new chunk then replaces the stored one.
\<close>

definition append_value :: "pval \<Rightarrow> pval option \<Rightarrow> pval res" where
  "append_value v old = (case (v, old) of
      (PTensor xs, Some (PTensor ys)) \<Rightarrow> Inr (PTensor (ys @ xs))
    | (PTensor xs, Some _) \<Rightarrow> Inl TypeError
    | (PList xs, Some (PList ys)) \<Rightarrow> Inr (PList (ys @ xs))
    | (PList xs, Some _) \<Rightarrow> Inl TypeError
    | _ \<Rightarrow> Inr v)"

fun merge_sub ::
  "(string \<times> string) set \<Rightarrow> string \<Rightarrow> (string \<times> pval) list \<Rightarrow> (string \<times> pval) list
     \<Rightarrow> (string \<times> pval) list res" where
  "merge_sub overrides t old [] = Inr []"
| "merge_sub overrides t old ((q, v) # xs) =
     (case (if t = ''meta'' \<and> q = ''finished'' \<or> (t, q) \<in> overrides then Inr v
            else append_value v (map_of old q)) of
        Inl e \<Rightarrow> Inl e
      | Inr v' \<Rightarrow> bind_res (merge_sub overrides t old xs) (\<lambda>ys. Inr ((q, v') # ys)))"

fun merge_payload :: "(string \<times> string) set \<Rightarrow> payload \<Rightarrow> payload \<Rightarrow> payload res" where
  "merge_payload overrides origin [] = Inr []"
| "merge_payload overrides origin ((t, e) # xs) =
     (case (case (e, map_of origin t) of
              (Sub new, Some (Sub old)) \<Rightarrow>
                bind_res (merge_sub overrides t old new) (\<lambda>d. Inr (Sub d))
            | _ \<Rightarrow> Inr e) of
        Inl x \<Rightarrow> Inl x
      | Inr e' \<Rightarrow> bind_res (merge_payload overrides origin xs) (\<lambda>ys. Inr ((t, e') # ys)))"

text \<open>\<open>payload_data.get("meta", {}).pop("override_keys", [])\<close>, with the dictionary it leaves.\<close>

definition pairs_of :: "pval \<Rightarrow> (string \<times> string) set res" where
  "pairs_of v = (case v of PList xs \<Rightarrow> Inr {(t, q). Pair t q \<in> set xs} | PBool _ \<Rightarrow> Inl TypeError | _ \<Rightarrow> Inr {})"

definition pop_overrides :: "payload \<Rightarrow> (payload \<times> (string \<times> string) set) res" where
  "pop_overrides p =
     (case map_of p ''meta'' of
        None \<Rightarrow> Inr (p, {})
      | Some (Flat _) \<Rightarrow> Inl AttributeError
      | Some (Sub d) \<Rightarrow>
          (case map_of d ''override_keys'' of
             None \<Rightarrow> Inr (p, {})
           | Some v \<Rightarrow> bind_res (pairs_of v) (\<lambda>ks. Inr (dict_set ''meta'' (Sub (dict_pop ''override_keys'' d)) p, ks))))"

definition update_request_payload :: "string \<Rightarrow> payload \<Rightarrow> 'o adapter \<Rightarrow> ('o adapter \<times> payload) res" where
  "update_request_payload x p a =
     (case request_payload a x of
        None \<Rightarrow> Inr (a\<lparr>request_payload := (request_payload a)(x \<mapsto> p)\<rparr>, p)
      | Some origin \<Rightarrow>
          bind_res (pop_overrides p) (\<lambda>(p', ks).
            bind_res (merge_payload ks origin p') (\<lambda>m.
              Inr (a\<lparr>request_payload := (request_payload a)(x \<mapsto> m)\<rparr>, m))))"

text \<open>Generation mode: the chunk's codes become the prompt, the rest is merged into the request.\<close>

fun merge_info_sub :: "string \<Rightarrow> (string \<times> pval) list \<Rightarrow> (string \<times> pval) list \<Rightarrow> (string \<times> pval) list" where
  "merge_info_sub k [] acc = acc"
| "merge_info_sub k ((sk, sv) # xs) acc =
     merge_info_sub k xs (if k = ''meta'' \<and> sk = ''finished'' then acc else dict_set sk sv acc)"

fun merge_info :: "payload \<Rightarrow> payload \<Rightarrow> payload" where
  "merge_info [] info = info"
| "merge_info ((k, e) # xs) info =
     merge_info xs (if k = ''codes'' then info
       else case e of
              Sub d \<Rightarrow> dict_set k (Sub (merge_info_sub k d
                        (case map_of info k of Some (Sub old) \<Rightarrow> old | _ \<Rightarrow> []))) info
            | Flat v \<Rightarrow> dict_set k e info)"

definition new_codes :: "payload \<Rightarrow> pval res" where
  "new_codes p = (case sub p ''codes'' of Inl e \<Rightarrow> Inl e
     | Inr d \<Rightarrow> Inr (case map_of d ''audio'' of None \<Rightarrow> PList [] | Some v \<Rightarrow> v))"

definition mark_finished :: "string \<Rightarrow> bool \<Rightarrow> 'o adapter \<Rightarrow> 'o adapter" where
  "mark_finished i b a = (if b then a\<lparr>chunks_finished := insert i (chunks_finished a)\<rparr> else a)"

text \<open>
  What one received payload does, after the chunk counter moved. The result is whether the chunk is
  marked as ready to be consumed.
\<close>

definition accept_ar :: "string \<Rightarrow> string \<Rightarrow> payload \<Rightarrow> 'o adapter \<times> chunk_store \<Rightarrow> ('o adapter \<times> chunk_store) \<times> bool res" where
  "accept_ar i x p s =
     (case s of (a, st) \<Rightarrow>
       (case update_request_payload x p a of
          Inl e \<Rightarrow> (s, Inl e)
        | Inr (a1, m) \<Rightarrow>
            (let st1 = st(i := (st i)\<lparr>additional_information := Some m\<rparr>)
             in case meta_finished p of
                  Inl e \<Rightarrow> ((a1, st1), Inl e)
                | Inr b \<Rightarrow> ((mark_finished i b a1, st1), Inr True))))"

definition accept_generation :: "string \<Rightarrow> payload \<Rightarrow> 'o adapter \<times> chunk_store \<Rightarrow> ('o adapter \<times> chunk_store) \<times> bool res" where
  "accept_generation i p s =
     (case s of (a, st) \<Rightarrow>
       (case meta_finished p of
          Inl e \<Rightarrow> (s, Inl e)
        | Inr b \<Rightarrow>
            (let a1 = mark_finished i b a
             in case new_codes p of
                  Inl e \<Rightarrow> ((a1, st), Inl e)
                | Inr ids \<Rightarrow>
                    (let st1 = st(i := (st i)\<lparr>prompt_ids := ids,
                           additional_information := Some (merge_info p
                             (case additional_information (st i) of None \<Rightarrow> [] | Some d \<Rightarrow> d)),
                           computed_tokens := 0\<rparr>)
                     in case truth ids of
                          Inl e \<Rightarrow> ((a1, st1), Inl e)
                        | Inr nonempty \<Rightarrow> ((a1, st1), Inr (nonempty \<or> b))))))"

text \<open>\<open>_poll_single_request\<close>: the outcome is whether a chunk was read, or the exception.\<close>

definition poll_single_request ::
  "(string \<Rightarrow> 's \<Rightarrow> 's \<times> payload option) \<Rightarrow> string \<Rightarrow> 'o adapter \<times> chunk_store \<times> 's
     \<Rightarrow> ('o adapter \<times> chunk_store \<times> 's) \<times> bool res" where
  "poll_single_request get i s =
     (case s of (a, st, w) \<Rightarrow>
       (let n = chunk_no (get_req_chunk a) i;
            a1 = a\<lparr>get_req_chunk := touch i (get_req_chunk a)\<rparr>;
            x = (case request_ids_mapping a i of None \<Rightarrow> i | Some x \<Rightarrow> x);
            (w', r) = get (chunk_key x (adapter_stage a - 1) n) w
        in case r of
             None \<Rightarrow> ((a1, st, w'), Inr False)
           | Some p \<Rightarrow>
               if p = [] then ((a1, st, w'), Inr False)
               else
                 let a2 = a1\<lparr>get_req_chunk := (get_req_chunk a)(i \<mapsto> n + 1)\<rparr>
                 in case (if model_mode a = ''ar'' then accept_ar i x p (a2, st)
                          else accept_generation i p (a2, st)) of
                      ((a3, st3), Inl e) \<Rightarrow> ((a3, st3, w'), Inl e)
                    | ((a3, st3), Inr ready) \<Rightarrow>
                        ((if ready then a3\<lparr>finished_load_reqs := insert i (finished_load_reqs a3)\<rparr> else a3,
                          st3, w'), Inr True)))"

text \<open>One iteration of the inner loop of \<open>recv_loop\<close>, and a pass.\<close>

definition recv_one ::
  "(string \<Rightarrow> 's \<Rightarrow> 's \<times> payload option) \<Rightarrow> 'o adapter \<times> chunk_store \<times> 's \<Rightarrow> 'o adapter \<times> chunk_store \<times> 's" where
  "recv_one get s =
     (case s of (a, st, w) \<Rightarrow>
       (case pending_load_reqs a of
          [] \<Rightarrow> s
        | i # rest \<Rightarrow>
            (let a1 = a\<lparr>pending_load_reqs := rest\<rparr> in
             if i \<in> cancelled_load_reqs a
             then (a1\<lparr>cancelled_load_reqs := cancelled_load_reqs a - {i}\<rparr>, st, w)
             else
               case poll_single_request get i
                      (a1\<lparr>request_ids_mapping := (request_ids_mapping a)(i \<mapsto> external_req_id (st i))\<rparr>, st, w) of
                 ((a2, st2, w2), r) \<Rightarrow>
                   (if r = Inr True then a2 else a2\<lparr>pending_load_reqs := pending_load_reqs a2 @ [i]\<rparr>,
                    st2, w2))))"

definition recv_pass ::
  "(string \<Rightarrow> 's \<Rightarrow> 's \<times> payload option) \<Rightarrow> 'o adapter \<times> chunk_store \<times> 's \<Rightarrow> 'o adapter \<times> chunk_store \<times> 's" where
  "recv_pass get s = (recv_one get ^^ length (pending_load_reqs (fst s))) s"

section \<open>Sending\<close>

definition save_async :: "'o \<Rightarrow> string \<Rightarrow> bool \<Rightarrow> 'o adapter \<Rightarrow> 'o adapter" where
  "save_async po i fin a =
     a\<lparr>pending_save_reqs := pending_save_reqs a @ [\<lparr>pooling_output = po, task_request = i, task_is_finished = fin\<rparr>]\<rparr>"

definition cleanup_receiver :: "string \<Rightarrow> 'o adapter \<Rightarrow> 'o adapter" where
  "cleanup_receiver i a = a\<lparr>
     chunks_finished := chunks_finished a - {i},
     get_req_chunk := (get_req_chunk a)(i := None),
     ready_chunks := ready_chunks a - {i},
     request_ids_mapping := (request_ids_mapping a)(i := None),
     requests_origin_status := (requests_origin_status a)(i := None),
     cancelled_load_reqs := insert i (cancelled_load_reqs a),
     finished_load_reqs := finished_load_reqs a - {i}\<rparr>"

definition cleanup_sender :: "string \<Rightarrow> 'o adapter \<Rightarrow> 'o adapter" where
  "cleanup_sender x a = a\<lparr>
     put_req_chunk := (put_req_chunk a)(x := None),
     request_payload := (request_payload a)(x := None),
     code_prompt_token_ids := code_prompt_token_ids a - {x}\<rparr>"

definition cleanup :: "string \<Rightarrow> string option \<Rightarrow> 'o adapter \<Rightarrow> 'o adapter" where
  "cleanup i x a =
     (let x' = (case x of Some y \<Rightarrow> y
                | None \<Rightarrow> (case request_ids_mapping a i of Some y \<Rightarrow> y | None \<Rightarrow> i))
      in cleanup_sender x' (cleanup_receiver i a))"

text \<open>
  \<open>_send_single_request\<close>: \<open>process po i fin\<close> is the chunk the stage's function builds, \<open>None\<close>
  when it raises (which is logged) or returns none.
\<close>

definition send_single_request ::
  "(string \<Rightarrow> payload \<Rightarrow> 's \<Rightarrow> 's \<times> bool) \<Rightarrow> ('o \<Rightarrow> string \<Rightarrow> bool \<Rightarrow> payload option) \<Rightarrow> 'o save_task
     \<Rightarrow> chunk_store \<Rightarrow> 'o adapter \<times> 's \<Rightarrow> ('o adapter \<times> 's) \<times> unit res" where
  "send_single_request put process t st s =
     (case s of (a, w) \<Rightarrow>
       (let i = task_request t;
            x = external_req_id (st i);
            n = chunk_no (put_req_chunk a) x;
            a1 = a\<lparr>put_req_chunk := touch x (put_req_chunk a)\<rparr>
        in case process (pooling_output t) i (task_is_finished t) of
             None \<Rightarrow> ((a1, w), Inr ())
           | Some p \<Rightarrow>
               if p = [] then ((a1, w), Inr ())
               else
                 let (w', success) = put (chunk_key x (adapter_stage a) n) p w;
                     a2 = (if success then a1\<lparr>put_req_chunk := (put_req_chunk a)(x \<mapsto> n + 1)\<rparr> else a1)
                 in case (if success then sent_finished p else Inr False) of
                      Inl e \<Rightarrow> ((a2, w'), Inl e)
                    | Inr fin \<Rightarrow>
                        let a3 = (if fin then cleanup i (Some x) a2 else a2)
                        in ((if task_is_finished t
                             then a3\<lparr>code_prompt_token_ids := code_prompt_token_ids a3 - {x}\<rparr> else a3, w'),
                            Inr ())))"

text \<open>One iteration of \<open>save_loop\<close>; an exception is logged.\<close>

definition save_one ::
  "(string \<Rightarrow> payload \<Rightarrow> 's \<Rightarrow> 's \<times> bool) \<Rightarrow> ('o \<Rightarrow> string \<Rightarrow> bool \<Rightarrow> payload option)
     \<Rightarrow> chunk_store \<Rightarrow> 'o adapter \<times> 's \<Rightarrow> 'o adapter \<times> 's" where
  "save_one put process st s =
     (case pending_save_reqs (fst s) of
        [] \<Rightarrow> s
      | t # ts \<Rightarrow> fst (send_single_request put process t st ((fst s)\<lparr>pending_save_reqs := ts\<rparr>, snd s)))"

section \<open>Scheduler helpers\<close>

definition adapter_chunk_step ::
  "vstatus \<Rightarrow> string \<Rightarrow> 'o adapter \<times> chunk_store \<Rightarrow> ('o adapter \<times> chunk_store) \<times> bool" where
  "adapter_chunk_step target i s =
     (case s of (a, st) \<Rightarrow>
       (let park = (\<lambda>a. a\<lparr>requests_origin_status := (requests_origin_status a)(i \<mapsto> target)\<rparr>) in
        if rstatus (st i) \<noteq> Waiting_For_Chunk then
          if i \<in> ready_chunks a then (s, False)
          else if i \<in> chunks_finished a then (s, False)
          else ((park (load_async i a), st(i := (st i)\<lparr>rstatus := Waiting_For_Chunk\<rparr>)), True)
        else if i \<in> finished_load_reqs a
        then ((a\<lparr>finished_load_reqs := finished_load_reqs a - {i},
                 ready_chunks := insert i (ready_chunks a)\<rparr>, st(i := (st i)\<lparr>rstatus := target\<rparr>)), False)
        else ((park a, st), True)))"

fun adapter_chunk_queue ::
  "vstatus \<Rightarrow> string list \<Rightarrow> 'o adapter \<times> chunk_store \<Rightarrow> string list \<Rightarrow> ('o adapter \<times> chunk_store) \<times> string list" where
  "adapter_chunk_queue target [] s parked = (s, parked)"
| "adapter_chunk_queue target (i # is) s parked =
     (case adapter_chunk_step target i s of
        (s1, park) \<Rightarrow> adapter_chunk_queue target is s1 (if park then parked @ [i] else parked))"

fun adapter_trim :: "'q wq_ops \<Rightarrow> nat \<Rightarrow> string list \<Rightarrow> 'q \<Rightarrow> chunk_store \<Rightarrow> string list \<times> 'q \<times> chunk_store" where
  "adapter_trim wq mx rev_run q st =
     (case rev_run of
        [] \<Rightarrow> ([], q, st)
      | i # rest \<Rightarrow>
          if length rev_run > mx
          then adapter_trim wq mx rest (wq_prepend wq q i) (st(i := (st i)\<lparr>rstatus := Preempted\<rparr>))
          else (rev_run, q, st))"

declare adapter_trim.simps [simp del]

text \<open>The queues of the scheduler next to the adapter and the request objects.\<close>

record ('q, 'o) chunk_view =
  chunk_adapter :: "'o adapter"
  chunk_objects :: chunk_store
  chunk_waiting :: 'q
  chunk_running :: "string list"

definition adapter_pending_chunks :: "'q wq_ops \<Rightarrow> ('q, 'o) chunk_view \<Rightarrow> ('q, 'o) chunk_view" where
  "adapter_pending_chunks wq v =
     (if adapter_stage (chunk_adapter v) = 0 then v
      else
        let (s1, pw) = adapter_chunk_queue Waiting (wq_list wq (chunk_waiting v))
                         (chunk_adapter v, chunk_objects v) [];
            q1 = foldl (wq_remove wq) (chunk_waiting v) pw;
            (s2, pr) = adapter_chunk_queue Running (chunk_running v)
                         ((fst s1)\<lparr>chunk_waiting_requests := chunk_waiting_requests (fst s1) @ pw\<rparr>, snd s1) [];
            r2 = foldl (\<lambda>r i. remove1 i r) (chunk_running v) pr;
            (rr, q3, st3) = adapter_trim wq (max_num_seqs (fst s2)) (rev r2) q1 (snd s2)
        in \<lparr>chunk_adapter = (fst s2)\<lparr>chunk_running_requests := chunk_running_requests (fst s2) @ pr\<rparr>,
            chunk_objects = st3, chunk_waiting = q3, chunk_running = rev rr\<rparr>)"

definition adapter_restore_queues :: "'q wq_ops \<Rightarrow> ('q, 'o) chunk_view \<Rightarrow> ('q, 'o) chunk_view" where
  "adapter_restore_queues wq v =
     (let a = chunk_adapter v
      in v\<lparr>chunk_waiting := foldl (wq_add wq) (chunk_waiting v) (chunk_waiting_requests a),
           chunk_running := chunk_running v @ chunk_running_requests a,
           chunk_adapter := a\<lparr>chunk_waiting_requests := [], chunk_running_requests := []\<rparr>\<rparr>)"

definition adapter_clear_chunk_ready :: "string list \<Rightarrow> string list \<Rightarrow> 'o adapter \<Rightarrow> 'o adapter" where
  "adapter_clear_chunk_ready new_ids cached_ids a =
     a\<lparr>ready_chunks := ready_chunks a - set new_ids - set cached_ids\<rparr>"

text \<open>\<open>finish_requests\<close>: the parked requests get back the status they were parked with.\<close>

definition finish_one :: "string \<Rightarrow> ('o adapter \<times> chunk_store) \<Rightarrow> ('o adapter \<times> chunk_store)" where
  "finish_one i s =
     (case s of (a, st) \<Rightarrow>
       if rstatus (st i) = Finished_Error_Status then s
       else case requests_origin_status a i of
              None \<Rightarrow> s
            | Some o' \<Rightarrow> (a\<lparr>requests_origin_status := (requests_origin_status a)(i := None)\<rparr>,
                         st(i := (st i)\<lparr>rstatus := o'\<rparr>)))"

definition adapter_finish_requests ::
  "string list option \<Rightarrow> vstatus \<Rightarrow> string list \<Rightarrow> ('o adapter \<times> chunk_store)
     \<Rightarrow> ('o adapter \<times> chunk_store) \<times> unit res" where
  "adapter_finish_requests ids status known s =
     (if status \<noteq> Finished_Error_Status then (s, Inl AssertionError)
      else (foldl (\<lambda>s i. if i \<in> set known then finish_one i s else s) s
             (case ids of None \<Rightarrow> known | Some xs \<Rightarrow> xs), Inr ()))"

text \<open>\<open>attach_cached_additional_information\<close>.\<close>

definition attach_cached_information ::
  "string list \<Rightarrow> string list \<Rightarrow> chunk_store \<Rightarrow> (string \<rightharpoonup> payload option) \<Rightarrow> (string \<rightharpoonup> payload option)" where
  "attach_cached_information req_ids known st d =
     foldl (\<lambda>d i. d(i \<mapsto> (if i \<in> set known \<and> i \<noteq> [] then additional_information (st i) else None))) d req_ids"

end
