(* ===== verification/Chunk_Transfer.thy ===== *)
theory Chunk_Transfer
  imports Chunk_Adapter
begin

text \<open>
  A sending and a receiving \<open>OmniChunkTransferAdapter\<close> joined by a connector: the chunks of each
  request arrive in the order they were sent, none twice, for any interleaving of the two sides and
  of the requests. The development is over the interface \<open>connector\<close>; the shared-memory link
  provides it.
\<close>

section \<open>Keys\<close>

lemma split_at_last:
  assumes "u @ c # d = v @ c # e" and "c \<notin> set d" and "c \<notin> set e"
  shows "u = v \<and> d = e"
proof -
  have tw: "takeWhile (\<lambda>x. x \<noteq> c) (rev (w @ c # f)) = rev f" if "c \<notin> set f" for w f
    using that by (simp add: takeWhile_append)
  from tw [OF assms(2), of u] tw [OF assms(3), of v] have "rev d = rev e"
    by (simp add: assms(1))
  with assms(1) show ?thesis by simp
qed

lemma underscore_not_digit: "CHR ''_'' \<notin> set (show_nat n)"
proof
  assume "CHR ''_'' \<in> set (show_nat n)"
  then obtain d where d: "d < 10" "CHR ''_'' = digit_char d" using set_show_nat by blast
  have "of_char CHR ''_'' = (48 + d :: nat)" unfolding d(2) by (rule of_digit_char [OF d(1)])
  moreover have "of_char CHR ''_'' = (95 :: nat)" by simp
  ultimately show False using d(1) by simp
qed

lemma chunk_key_inject [simp]: "chunk_key x s n = chunk_key y s m \<longleftrightarrow> x = y \<and> n = m"
proof
  assume eq: "chunk_key x s n = chunk_key y s m"
  have "(x @ ''_'' @ show_nat s) @ CHR ''_'' # show_nat n = (y @ ''_'' @ show_nat s) @ CHR ''_'' # show_nat m"
    using eq by (simp add: chunk_key_def)
  from split_at_last [OF this underscore_not_digit underscore_not_digit]
  show "x = y \<and> n = m" by simp
qed simp

section \<open>What an iteration changes\<close>

lemma chunk_no_simps [simp]:
  "chunk_no (touch i d) j = chunk_no d j" "chunk_no (d(i \<mapsto> n)) j = (if j = i then n else chunk_no d j)"
  "chunk_no (d(i := None)) j = (if j = i then 0 else chunk_no d j)" "chunk_no Map.empty j = 0"
  by (simp_all add: chunk_no_def touch_def)

text \<open>The fields of an adapter that accepting a payload leaves alone.\<close>

definition same_transport :: "'o adapter \<Rightarrow> 'o adapter \<Rightarrow> bool" where
  "same_transport a b \<longleftrightarrow> adapter_stage b = adapter_stage a \<and> pending_load_reqs b = pending_load_reqs a
     \<and> cancelled_load_reqs b = cancelled_load_reqs a \<and> get_req_chunk b = get_req_chunk a
     \<and> put_req_chunk b = put_req_chunk a \<and> pending_save_reqs b = pending_save_reqs a
     \<and> finished_load_reqs b = finished_load_reqs a \<and> model_mode b = model_mode a"

definition same_ext :: "chunk_store \<Rightarrow> chunk_store \<Rightarrow> bool" where
  "same_ext st st' \<longleftrightarrow> (\<forall>j. external_req_id (st' j) = external_req_id (st j) \<and> rstatus (st' j) = rstatus (st j))"

lemma same_refl [simp]: "same_transport a a" "same_ext st st"
  by (simp_all add: same_transport_def same_ext_def)

lemma mark_finished_transport [simp]: "same_transport a (mark_finished i b a')= same_transport a a'"
  by (simp add: same_transport_def mark_finished_def)

lemma update_payload_transport:
  "update_request_payload x p a = Inr (a', m) \<Longrightarrow> same_transport a a'"
  by (auto simp: update_request_payload_def same_transport_def bind_res_Inr split: option.splits)

lemma accept_frame:
  assumes "f \<in> {accept_ar i x p, accept_generation i p}" and "f (a, st) = ((a', st'), r)"
  shows "same_transport a a' \<and> same_ext st st'"
proof -
  consider "f = accept_ar i x p" | "f = accept_generation i p" using assms(1) by blast
  then show ?thesis
  proof cases
    case 1
    then show ?thesis
      using assms(2) update_payload_transport [of x p a]
      by (auto simp: accept_ar_def same_ext_def Let_def split: sum.splits)
  next
    case 2
    then show ?thesis
      using assms(2)
      by (auto simp: accept_generation_def same_ext_def Let_def split: sum.splits)
  qed
qed

text \<open>The payload the next poll of \<open>i\<close> finds, if any.\<close>

definition next_payload ::
  "(string \<Rightarrow> payload option) \<Rightarrow> 'o adapter \<Rightarrow> chunk_store \<Rightarrow> string \<Rightarrow> payload option" where
  "next_payload content a st i =
     content (chunk_key (external_req_id (st i)) (adapter_stage a - 1) (chunk_no (get_req_chunk a) i))"

section \<open>The two sides together\<close>

text \<open>
  \<open>sent\<close>, \<open>received\<close>, \<open>closed\<close> and \<open>stopped\<close> record what happened: the payloads put per external
  id, those read per request, the external ids whose terminal payload was sent, and the requests the
  receiving stage has released. The stage builds no chunk for a closed id, and loads a request
  neither while its load is pending nor after its release.
\<close>

record ('o, 's) chunk_link =
  sender :: "'o adapter"
  receiver :: "'o adapter"
  tx_objects :: chunk_store
  rx_objects :: chunk_store
  wire :: 's
  sent :: "string \<Rightarrow> payload list"
  received :: "string \<Rightarrow> payload list"
  closed :: "string set"
  stopped :: "string set"

definition link_init :: "nat \<Rightarrow> nat \<Rightarrow> string \<Rightarrow> chunk_store \<Rightarrow> chunk_store \<Rightarrow> 's \<Rightarrow> ('o, 's) chunk_link" where
  "link_init sid mx mode st_tx st_rx w = \<lparr>sender = adapter_init sid mx mode, receiver = adapter_init (sid + 1) mx mode,
     tx_objects = st_tx, rx_objects = st_rx, wire = w, sent = (\<lambda>x. []), received = (\<lambda>i. []),
     closed = {}, stopped = {}\<rparr>"

definition put_now ::
  "(string \<Rightarrow> payload \<Rightarrow> 's \<Rightarrow> 's \<times> bool) \<Rightarrow> string \<Rightarrow> payload option \<Rightarrow> ('o, 's) chunk_link \<Rightarrow> payload list" where
  "put_now put x made l = (case made of None \<Rightarrow> [] | Some p \<Rightarrow>
     if p \<noteq> [] \<and> snd (put (chunk_key x (adapter_stage (sender l)) (chunk_no (put_req_chunk (sender l)) x)) p (wire l))
     then [p] else [])"

definition read_now ::
  "(string \<Rightarrow> 's \<Rightarrow> 's \<times> payload option) \<Rightarrow> string \<Rightarrow> ('o, 's) chunk_link \<Rightarrow> payload list" where
  "read_now get i l = (if i \<in> cancelled_load_reqs (receiver l) then []
     else case next_payload (\<lambda>k. snd (get k (wire l))) (receiver l) (rx_objects l) i of
            None \<Rightarrow> [] | Some p \<Rightarrow> if p = [] then [] else [p])"

inductive link_step ::
  "(string \<Rightarrow> payload \<Rightarrow> 's \<Rightarrow> 's \<times> bool) \<Rightarrow> (string \<Rightarrow> 's \<Rightarrow> 's \<times> payload option)
     \<Rightarrow> ('o \<Rightarrow> string \<Rightarrow> bool \<Rightarrow> payload option) \<Rightarrow> ('o, 's) chunk_link \<Rightarrow> ('o, 's) chunk_link \<Rightarrow> bool"
  for put get process where
  save: "link_step put get process l (l\<lparr>sender := save_async po i fin (sender l)\<rparr>)"
| send: "pending_save_reqs (sender l) = t # ts \<Longrightarrow>
    made = process (pooling_output t) (task_request t) (task_is_finished t) \<Longrightarrow>
    x = external_req_id (tx_objects l (task_request t)) \<Longrightarrow>
    (x \<in> closed l \<Longrightarrow> made \<in> {None, Some []}) \<Longrightarrow>
    save_one put process (tx_objects l) (sender l, wire l) = (a', w') \<Longrightarrow>
    link_step put get process l (l\<lparr>sender := a', wire := w', sent := (sent l)(x := sent l x @ put_now put x made l),
      closed := closed l \<union> {y. y = x \<and> (\<exists>p \<in> set (put_now put x made l). sent_finished p = Inr True)}\<rparr>)"
| load: "i \<notin> set (pending_load_reqs (receiver l)) \<Longrightarrow> i \<notin> stopped l \<Longrightarrow>
    link_step put get process l (l\<lparr>receiver := load_async i (receiver l)\<rparr>)"
| receive: "pending_load_reqs (receiver l) = i # rest \<Longrightarrow>
    recv_one get (receiver l, rx_objects l, wire l) = (a', st', w') \<Longrightarrow>
    link_step put get process l (l\<lparr>receiver := a', rx_objects := st', wire := w',
      received := (received l)(i := received l i @ read_now get i l)\<rparr>)"
| release: "link_step put get process l (l\<lparr>receiver := cleanup i x (receiver l), stopped := insert i (stopped l)\<rparr>)"

text \<open>What is under way to a request, and the abstract channel: one queue per request.\<close>

definition in_transit :: "('o, 's) chunk_link \<Rightarrow> string \<Rightarrow> payload list" where
  "in_transit l i = drop (length (received l i)) (sent l (external_req_id (rx_objects l i)))"

definition transport_ok :: "(string \<Rightarrow> payload option) \<Rightarrow> ('o, 's) chunk_link \<Rightarrow> bool" where
  "transport_ok content l \<longleftrightarrow>
     adapter_stage (receiver l) = adapter_stage (sender l) + 1
   \<and> distinct (pending_load_reqs (receiver l))
   \<and> inj (\<lambda>i. external_req_id (rx_objects l i))
   \<and> (\<forall>x. [] \<notin> set (sent l x))
   \<and> (\<forall>x. x \<notin> closed l \<longrightarrow> chunk_no (put_req_chunk (sender l)) x = length (sent l x))
   \<and> (\<forall>i \<in> stopped l. i \<in> set (pending_load_reqs (receiver l)) \<longrightarrow> i \<in> cancelled_load_reqs (receiver l))
   \<and> (\<forall>i. i \<notin> stopped l \<longrightarrow>
        chunk_no (get_req_chunk (receiver l)) i = length (received l i)
      \<and> prefix (received l i) (sent l (external_req_id (rx_objects l i)))
      \<and> (\<forall>n. content (chunk_key (external_req_id (rx_objects l i)) (adapter_stage (sender l)) n) =
             (if length (received l i) \<le> n \<and> n < length (sent l (external_req_id (rx_objects l i)))
              then Some (sent l (external_req_id (rx_objects l i)) ! n) else None)))"

text \<open>A connector that carries payloads.\<close>

locale payload_connector = connector put get content inv
  for put :: "string \<Rightarrow> payload \<Rightarrow> 's \<Rightarrow> 's \<times> bool"
    and get :: "string \<Rightarrow> 's \<Rightarrow> 's \<times> payload option"
    and content :: "'s \<Rightarrow> string \<Rightarrow> payload option"
    and inv :: "'s \<Rightarrow> bool"
begin

lemma poll_effect:
  fixes a :: "'o adapter"
  assumes "inv w" and "request_ids_mapping a i = Some (external_req_id (st i))"
    and "poll_single_request get i (a, st, w) = ((a', st', w'), r)"
  shows "inv w'"
    and "content w' = (content w)(chunk_key (external_req_id (st i)) (adapter_stage a - 1)
           (chunk_no (get_req_chunk a) i) := None)"
    and "same_ext st st'"
    and "adapter_stage a' = adapter_stage a \<and> pending_load_reqs a' = pending_load_reqs a
      \<and> cancelled_load_reqs a' = cancelled_load_reqs a \<and> put_req_chunk a' = put_req_chunk a
      \<and> finished_load_reqs a \<subseteq> finished_load_reqs a' \<and> finished_load_reqs a' \<subseteq> insert i (finished_load_reqs a)
      \<and> model_mode a' = model_mode a \<and> pending_save_reqs a' = pending_save_reqs a"
    and "chunk_no (get_req_chunk a') j = chunk_no (get_req_chunk a) j
      + (if j = i \<and> next_payload (content w) a st i \<notin> {None, Some []} then 1 else 0)"
    and "r = Inr True \<Longrightarrow> next_payload (content w) a st i \<notin> {None, Some []}"
proof -
  define k where "k = chunk_key (external_req_id (st i)) (adapter_stage a - 1) (chunk_no (get_req_chunk a) i)"
  obtain w1 r1 where g: "get k w = (w1, r1)" by (rule prod.exhaust)
  note gk = get_ok [OF assms(1) g]
  have np: "next_payload (content w) a st i = r1" using gk by (simp add: next_payload_def k_def)
  define a1 where "a1 = a\<lparr>get_req_chunk := touch i (get_req_chunk a)\<rparr>"
  have all: "inv w' \<and> content w' = (content w)(k := None) \<and> same_ext st st'
    \<and> (adapter_stage a' = adapter_stage a \<and> pending_load_reqs a' = pending_load_reqs a
      \<and> cancelled_load_reqs a' = cancelled_load_reqs a \<and> put_req_chunk a' = put_req_chunk a
      \<and> finished_load_reqs a \<subseteq> finished_load_reqs a' \<and> finished_load_reqs a' \<subseteq> insert i (finished_load_reqs a)
      \<and> model_mode a' = model_mode a \<and> pending_save_reqs a' = pending_save_reqs a)
    \<and> chunk_no (get_req_chunk a') j = chunk_no (get_req_chunk a) j
        + (if j = i \<and> r1 \<notin> {None, Some []} then 1 else 0)
    \<and> (r = Inr True \<longrightarrow> r1 \<notin> {None, Some []})"
  proof (cases "r1 \<in> {None, Some []}")
    case True
    have "((a', st', w'), r) = ((a1, st, w1), Inr False)"
    proof -
      from True have "r1 = None \<or> r1 = Some []" by blast
      then have "poll_single_request get i (a, st, w) = ((a1, st, w1), Inr False)"
        using g assms(2) by (auto simp: poll_single_request_def k_def a1_def Let_def)
      with assms(3) show ?thesis by simp
    qed
    then have "a' = a1" "st' = st" "w' = w1" "r = Inr False" by simp_all
    with gk True show ?thesis by (simp add: a1_def subset_insertI)
  next
    case False
    then obtain p where p: "r1 = Some p" "p \<noteq> []" by auto
    define a2 where "a2 = a1\<lparr>get_req_chunk := (get_req_chunk a)(i \<mapsto> chunk_no (get_req_chunk a) i + 1)\<rparr>"
    define f :: "'o adapter \<times> chunk_store \<Rightarrow> ('o adapter \<times> chunk_store) \<times> bool res"
      where "f = (if model_mode a = ''ar'' then accept_ar i (external_req_id (st i)) p else accept_generation i p)"
    obtain a3 st3 rr where f: "f (a2, st) = ((a3, st3), rr)" by (metis prod.exhaust)
    have fr: "same_transport a2 a3 \<and> same_ext st st3"
      by (rule accept_frame [where f = f and x = "external_req_id (st i)" and p = p and i = i and r = rr])
        (simp_all add: f, simp add: f_def)
    have poll: "poll_single_request get i (a, st, w) =
      (case rr of Inl e \<Rightarrow> ((a3, st3, w1), Inl e)
       | Inr ready \<Rightarrow> ((if ready then a3\<lparr>finished_load_reqs := insert i (finished_load_reqs a3)\<rparr> else a3, st3, w1), Inr True))"
    proof -
      have "poll_single_request get i (a, st, w) =
        (case f (a2, st) of
            ((a3, st3), Inl e) \<Rightarrow> ((a3, st3, w1), Inl e)
          | ((a3, st3), Inr ready) \<Rightarrow>
             ((if ready then a3\<lparr>finished_load_reqs := insert i (finished_load_reqs a3)\<rparr> else a3, st3, w1), Inr True))"
        using g [unfolded k_def] assms(2) p
        by (cases "model_mode a = ''ar''")
          (simp_all add: poll_single_request_def a1_def a2_def f_def Let_def)
      then show ?thesis by (simp add: f)
    qed
    have st: "st' = st3" "w' = w1" using poll assms(3) by (auto split: sum.splits if_splits)
    have a': "a' = a3 \<or> a' = a3\<lparr>finished_load_reqs := insert i (finished_load_reqs a3)\<rparr>"
      using poll assms(3) by (auto split: sum.splits if_splits)
    from fr have eqs: "adapter_stage a3 = adapter_stage a" "pending_load_reqs a3 = pending_load_reqs a"
      "cancelled_load_reqs a3 = cancelled_load_reqs a" "put_req_chunk a3 = put_req_chunk a"
      "finished_load_reqs a3 = finished_load_reqs a" "model_mode a3 = model_mode a"
      "pending_save_reqs a3 = pending_save_reqs a"
      "get_req_chunk a3 = (get_req_chunk a)(i \<mapsto> chunk_no (get_req_chunk a) i + 1)"
      by (simp_all add: same_transport_def a2_def a1_def)
    from a' show ?thesis
      using gk st fr eqs False by (elim disjE) (simp_all add: subset_insertI)
  qed
  then show "inv w'" "same_ext st st'"
    "content w' = (content w)(chunk_key (external_req_id (st i)) (adapter_stage a - 1)
           (chunk_no (get_req_chunk a) i) := None)"
    "adapter_stage a' = adapter_stage a \<and> pending_load_reqs a' = pending_load_reqs a
      \<and> cancelled_load_reqs a' = cancelled_load_reqs a \<and> put_req_chunk a' = put_req_chunk a
      \<and> finished_load_reqs a \<subseteq> finished_load_reqs a' \<and> finished_load_reqs a' \<subseteq> insert i (finished_load_reqs a)
      \<and> model_mode a' = model_mode a \<and> pending_save_reqs a' = pending_save_reqs a"
    "chunk_no (get_req_chunk a') j = chunk_no (get_req_chunk a) j
      + (if j = i \<and> next_payload (content w) a st i \<notin> {None, Some []} then 1 else 0)"
    "r = Inr True \<Longrightarrow> next_payload (content w) a st i \<notin> {None, Some []}"
    by (simp_all add: np k_def)
qed

lemma recv_one_effect:
  fixes a :: "'o adapter"
  assumes "inv w" and "recv_one get (a, st, w) = (a', st', w')"
    and "pending_load_reqs a = i # rest" and "i \<notin> cancelled_load_reqs a"
  shows "inv w'"
    and "content w' = (content w)(chunk_key (external_req_id (st i)) (adapter_stage a - 1)
           (chunk_no (get_req_chunk a) i) := None)"
    and "same_ext st st'"
    and "adapter_stage a' = adapter_stage a" and "cancelled_load_reqs a' = cancelled_load_reqs a"
    and "pending_load_reqs a' = rest \<and> next_payload (content w) a st i \<notin> {None, Some []}
      \<or> pending_load_reqs a' = rest @ [i]"
    and "chunk_no (get_req_chunk a') j = chunk_no (get_req_chunk a) j
      + (if j = i \<and> next_payload (content w) a st i \<notin> {None, Some []} then 1 else 0)"
    and "finished_load_reqs a' \<subseteq> insert i (finished_load_reqs a)"
proof -
  define a1 where "a1 = a\<lparr>pending_load_reqs := rest,
    request_ids_mapping := (request_ids_mapping a)(i \<mapsto> external_req_id (st i))\<rparr>"
  obtain a2 st2 w2 r where poll: "poll_single_request get i (a1, st, w) = ((a2, st2, w2), r)"
    by (metis prod_cases3 prod.exhaust)
  have np: "next_payload (content w) a1 st i = next_payload (content w) a st i"
    by (simp add: next_payload_def a1_def)
  note pe = poll_effect [OF assms(1) _ poll, unfolded np]
  have m: "request_ids_mapping a1 i = Some (external_req_id (st i))" by (simp add: a1_def)
  have eq: "a' = (if r = Inr True then a2 else a2\<lparr>pending_load_reqs := pending_load_reqs a2 @ [i]\<rparr>)"
    "st' = st2" "w' = w2"
    using assms(2-4) poll by (auto simp: recv_one_def Let_def a1_def)
  note f = pe(4) [OF m]
  show "inv w'" "same_ext st st'" "adapter_stage a' = adapter_stage a"
    "cancelled_load_reqs a' = cancelled_load_reqs a" "finished_load_reqs a' \<subseteq> insert i (finished_load_reqs a)"
    using pe(1,3) [OF m] f by (simp_all add: eq a1_def)
  show "content w' = (content w)(chunk_key (external_req_id (st i)) (adapter_stage a - 1)
      (chunk_no (get_req_chunk a) i) := None)"
    using pe(2) [OF m] by (simp add: eq a1_def)
  show "chunk_no (get_req_chunk a') j = chunk_no (get_req_chunk a) j
      + (if j = i \<and> next_payload (content w) a st i \<notin> {None, Some []} then 1 else 0)"
    using pe(5) [OF m, of j] unfolding eq
    by (cases "r = Inr True") (simp_all add: a1_def split del: if_split)
  show "pending_load_reqs a' = rest \<and> next_payload (content w) a st i \<notin> {None, Some []}
      \<or> pending_load_reqs a' = rest @ [i]"
    using f pe(6) [OF m] by (cases "r = Inr True") (simp_all add: eq a1_def)
qed

lemma save_one_effect:
  fixes a :: "'o adapter"
  assumes "inv w" and "save_one put process st (a, w) = (a', w')" and "pending_save_reqs a = t # ts"
  defines "x \<equiv> external_req_id (st (task_request t))"
    and "made \<equiv> process (pooling_output t) (task_request t) (task_is_finished t)"
  shows "inv w'" and "adapter_stage a' = adapter_stage a" and "pending_save_reqs a' = ts"
    and "made \<in> {None, Some []} \<Longrightarrow> content w' = content w \<and> put_req_chunk a' = touch x (put_req_chunk a)"
    and "made = Some p \<Longrightarrow> p \<noteq> [] \<Longrightarrow>
      (let k = chunk_key x (adapter_stage a) (chunk_no (put_req_chunk a) x); success = snd (put k p w)
       in content w' = (if success then (content w)(k \<mapsto> p) else content w)
        \<and> chunk_no (put_req_chunk a') y = (if y = x \<and> success
            then (if sent_finished p = Inr True then 0 else chunk_no (put_req_chunk a) x + 1)
            else chunk_no (put_req_chunk a) y))"
proof -
  define a0 where "a0 = a\<lparr>pending_save_reqs := ts\<rparr>"
  have s: "fst (send_single_request put process t st (a0, w)) = (a', w')"
    using assms(2,3) by (simp add: save_one_def a0_def)
  have none: "inv w' \<and> adapter_stage a' = adapter_stage a \<and> pending_save_reqs a' = ts
      \<and> content w' = content w \<and> put_req_chunk a' = touch x (put_req_chunk a)" if "made \<in> {None, Some []}"
  proof -
    from that have "made = None \<or> made = Some []" by blast
    with s assms(1) show ?thesis
      by (auto simp: send_single_request_def made_def x_def a0_def Let_def)
  qed
  have some: "inv w' \<and> adapter_stage a' = adapter_stage a \<and> pending_save_reqs a' = ts \<and>
      (let k = chunk_key x (adapter_stage a) (chunk_no (put_req_chunk a) x); success = snd (put k p w)
       in content w' = (if success then (content w)(k \<mapsto> p) else content w)
        \<and> chunk_no (put_req_chunk a') y = (if y = x \<and> success
            then (if sent_finished p = Inr True then 0 else chunk_no (put_req_chunk a) x + 1)
            else chunk_no (put_req_chunk a) y))" if m: "made = Some p" "p \<noteq> []" for p y
  proof -
    define k where "k = chunk_key x (adapter_stage a) (chunk_no (put_req_chunk a) x)"
    obtain w1 success where pu: "put k p w = (w1, success)" by (rule prod.exhaust)
    note pk = put_ok [OF assms(1) pu]
    define a1 where "a1 = a0\<lparr>put_req_chunk := touch x (put_req_chunk a0)\<rparr>"
    define a2 where "a2 = (if success then a1\<lparr>put_req_chunk := (put_req_chunk a0)(x \<mapsto> chunk_no (put_req_chunk a0) x + 1)\<rparr> else a1)"
    have s2: "fst (case (if success then sent_finished p else Inr False) of
         Inl e \<Rightarrow> ((a2, w1), Inl e)
       | Inr fin \<Rightarrow>
           let a3 = (if fin then cleanup (task_request t) (Some x) a2 else a2)
           in ((if task_is_finished t
                then a3\<lparr>code_prompt_token_ids := code_prompt_token_ids a3 - {x}\<rparr> else a3, w1), Inr ()))
      = (a', w')"
    proof -
      have k: "k = chunk_key x (adapter_stage a0) (chunk_no (put_req_chunk a0) x)" by (simp add: k_def a0_def)
      show ?thesis
        using s m pu [unfolded k x_def]
        unfolding send_single_request_def made_def x_def a2_def a1_def Let_def
        by (simp only: prod.case option.case if_False)
    qed
    have w': "w' = w1" using s2 by (auto simp: Let_def split: sum.splits if_splits)
    have fields: "adapter_stage a' = adapter_stage a \<and> pending_save_reqs a' = ts
      \<and> put_req_chunk a' = (if success \<and> sent_finished p = Inr True then (put_req_chunk a2)(x := None)
                            else put_req_chunk a2)"
      using s2
      by (auto simp: Let_def a2_def a1_def a0_def cleanup_def cleanup_sender_def cleanup_receiver_def
          split: sum.splits if_splits)
    show ?thesis
      using pk fields by (simp add: w' Let_def pu k_def [symmetric] a2_def a1_def a0_def)
  qed
  show "inv w'" "adapter_stage a' = adapter_stage a" "pending_save_reqs a' = ts"
    using none some by (cases made; cases "the made = []"; fastforce)+
  show "made \<in> {None, Some []} \<Longrightarrow> content w' = content w \<and> put_req_chunk a' = touch x (put_req_chunk a)"
    using none by blast
  show "made = Some p \<Longrightarrow> p \<noteq> [] \<Longrightarrow>
      (let k = chunk_key x (adapter_stage a) (chunk_no (put_req_chunk a) x); success = snd (put k p w)
       in content w' = (if success then (content w)(k \<mapsto> p) else content w)
        \<and> chunk_no (put_req_chunk a') y = (if y = x \<and> success
            then (if sent_finished p = Inr True then 0 else chunk_no (put_req_chunk a) x + 1)
            else chunk_no (put_req_chunk a) y))"
    using some by blast
qed

lemma put_now_snd:
  assumes "inv (wire l)"
  shows "made \<in> {None, Some []} \<Longrightarrow> put_now put x made l = []"
    and "set (put_now put x made l) \<subseteq> (case made of None \<Rightarrow> {} | Some p \<Rightarrow> {p} - {[]})"
  by (auto simp: put_now_def split: option.splits if_splits)

lemma read_now_eq:
  assumes "inv (wire l)" and "i \<notin> cancelled_load_reqs (receiver l)"
  shows "read_now get i l = (case next_payload (content (wire l)) (receiver l) (rx_objects l) i of
    None \<Rightarrow> [] | Some p \<Rightarrow> if p = [] then [] else [p])"
proof -
  have "snd (get k (wire l)) = content (wire l) k" for k
    using get_ok [OF assms(1), of k "fst (get k (wire l))" "snd (get k (wire l))"] by simp
  with assms(2) show ?thesis by (simp add: read_now_def)
qed

lemma send_ok:
  assumes ok: "transport_ok (content (wire l)) l" and iw: "inv (wire l)"
    and pend: "pending_save_reqs (sender l) = t # ts"
    and made: "made = process (pooling_output t) (task_request t) (task_is_finished t)"
    and x: "x = external_req_id (tx_objects l (task_request t))"
    and closed: "x \<in> closed l \<Longrightarrow> made \<in> {None, Some []}"
    and step: "save_one put process (tx_objects l) (sender l, wire l) = (a', w')"
  defines "out \<equiv> put_now put x made l"
  defines "l' \<equiv> l\<lparr>sender := a', wire := w', sent := (sent l)(x := sent l x @ out),
      closed := closed l \<union> {y. y = x \<and> (\<exists>p \<in> set out. sent_finished p = Inr True)}\<rparr>"
  shows "inv w' \<and> transport_ok (content w') l'"
proof -
  note se = save_one_effect [OF iw step pend, folded x made]
  have st: "adapter_stage a' = adapter_stage (sender l)" using se by blast
  show ?thesis
  proof (cases "out = []")
    case True
    have same: "content w' = content (wire l) \<and> (\<forall>y. chunk_no (put_req_chunk a') y = chunk_no (put_req_chunk (sender l)) y)"
    proof (cases "made \<in> {None, Some []}")
      case True
      with se(4) show ?thesis by simp
    next
      case False
      then obtain p where p: "made = Some p" "p \<noteq> []" by auto
      with True have "\<not> snd (put (chunk_key x (adapter_stage (sender l)) (chunk_no (put_req_chunk (sender l)) x)) p (wire l))"
        by (simp add: out_def put_now_def split: if_splits)
      with se(5) [OF p] show ?thesis by (simp add: Let_def)
    qed
    with ok True st se(1) show ?thesis by (simp add: transport_ok_def l'_def)
  next
    case False
    then obtain p where p: "made = Some p" "p \<noteq> []" "out = [p]"
      and success: "snd (put (chunk_key x (adapter_stage (sender l)) (chunk_no (put_req_chunk (sender l)) x)) p (wire l))"
      by (auto simp: out_def put_now_def split: option.splits if_splits)
    with closed have nc: "x \<notin> closed l" by auto
    then have len: "chunk_no (put_req_chunk (sender l)) x = length (sent l x)"
      using ok by (simp add: transport_ok_def)
    have c: "content w' = (content (wire l))(chunk_key x (adapter_stage (sender l)) (length (sent l x)) \<mapsto> p)"
      using se(5) [OF p(1,2)] success by (simp add: Let_def len)
    have cn: "chunk_no (put_req_chunk a') y = (if y = x then (if sent_finished p = Inr True then 0 else length (sent l x) + 1)
        else chunk_no (put_req_chunk (sender l)) y)" for y
      using se(5) [OF p(1,2), of y] success by (simp add: Let_def len)
    have chan: "chunk_no (get_req_chunk (receiver l)) i = length (received l i)
      \<and> prefix (received l i) (sent l' (external_req_id (rx_objects l i)))
      \<and> (\<forall>n. content w' (chunk_key (external_req_id (rx_objects l i)) (adapter_stage (sender l)) n) =
             (if length (received l i) \<le> n \<and> n < length (sent l' (external_req_id (rx_objects l i)))
              then Some (sent l' (external_req_id (rx_objects l i)) ! n) else None))" if "i \<notin> stopped l" for i
    proof -
      let ?x = "external_req_id (rx_objects l i)"
      from ok that have o: "chunk_no (get_req_chunk (receiver l)) i = length (received l i)"
        "prefix (received l i) (sent l ?x)"
        "content (wire l) (chunk_key ?x (adapter_stage (sender l)) n) =
             (if length (received l i) \<le> n \<and> n < length (sent l ?x) then Some (sent l ?x ! n) else None)" for n
        by (simp_all add: transport_ok_def)
      show ?thesis
      proof (cases "?x = x")
        case True
        with o p show ?thesis
          using prefix_length_le [OF o(2)]
          by (auto simp: l'_def c nth_append prefix_def not_less_less_Suc_eq)
      next
        case False
        with o show ?thesis by (simp add: l'_def c)
      qed
    qed
    have cl: "closed l' = closed l \<union> (if sent_finished p = Inr True then {x} else {})"
      using p by (auto simp: l'_def)
    show ?thesis
      using ok chan se(1) st p cn unfolding transport_ok_def cl by (simp add: l'_def)
  qed
qed

lemma receive_ok:
  assumes ok: "transport_ok (content (wire l)) l" and iw: "inv (wire l)"
    and pend: "pending_load_reqs (receiver l) = i # rest"
    and step: "recv_one get (receiver l, rx_objects l, wire l) = (a', st', w')"
  defines "l' \<equiv> l\<lparr>receiver := a', rx_objects := st', wire := w',
      received := (received l)(i := received l i @ read_now get i l)\<rparr>"
  shows "inv w' \<and> transport_ok (content w') l' \<and> same_ext (rx_objects l) st'"
proof (cases "i \<in> cancelled_load_reqs (receiver l)")
  case True
  then have eq: "a' = (receiver l)\<lparr>pending_load_reqs := rest, cancelled_load_reqs := cancelled_load_reqs (receiver l) - {i}\<rparr>"
    "st' = rx_objects l" "w' = wire l"
    using step pend by (simp_all add: recv_one_def Let_def)
  have "read_now get i l = []" using True by (simp add: read_now_def)
  with ok iw pend show ?thesis by (auto simp: transport_ok_def l'_def eq)
next
  case nc: False
  note re = recv_one_effect [OF iw step pend nc]
  let ?x = "external_req_id (rx_objects l i)" and ?n = "length (received l i)"
  have ns: "i \<notin> stopped l" using ok pend nc by (auto simp: transport_ok_def)
  have o: "chunk_no (get_req_chunk (receiver l)) i = ?n" "prefix (received l i) (sent l ?x)"
    "content (wire l) (chunk_key ?x (adapter_stage (sender l)) m) =
             (if ?n \<le> m \<and> m < length (sent l ?x) then Some (sent l ?x ! m) else None)" for m
    using ok ns by (simp_all add: transport_ok_def)
  have stage: "adapter_stage (receiver l) - 1 = adapter_stage (sender l)"
    "adapter_stage (receiver l) = adapter_stage (sender l) + 1"
    using ok by (simp_all add: transport_ok_def)
  have ext: "external_req_id (st' j) = external_req_id (rx_objects l j)" for j
    using re(3) by (simp add: same_ext_def)
  have np: "next_payload (content (wire l)) (receiver l) (rx_objects l) i
      = (if ?n < length (sent l ?x) then Some (sent l ?x ! ?n) else None)"
    unfolding next_payload_def stage(1) o(1) o(3) by simp
  have ne: "?n < length (sent l ?x) \<Longrightarrow> sent l ?x ! ?n \<noteq> []"
    using ok by (metis (no_types, lifting) nth_mem transport_ok_def)
  have rn: "read_now get i l = (if ?n < length (sent l ?x) then [sent l ?x ! ?n] else [])"
    unfolding read_now_eq [OF iw nc] np using ne by simp
  have taken: "next_payload (content (wire l)) (receiver l) (rx_objects l) i \<notin> {None, Some []} \<longleftrightarrow> ?n < length (sent l ?x)"
    unfolding np using ne by simp
  have cw: "content w' = (content (wire l))(chunk_key ?x (adapter_stage (sender l)) ?n := None)"
    using re(2) unfolding stage(1) o(1) .
  have cno: "chunk_no (get_req_chunk a') j = chunk_no (get_req_chunk (receiver l)) j
      + (if j = i \<and> ?n < length (sent l ?x) then 1 else 0)" for j
    using re(7) [of j] unfolding taken .
  have chan: "chunk_no (get_req_chunk a') j = length (received l' j)
      \<and> prefix (received l' j) (sent l (external_req_id (rx_objects l j)))
      \<and> (\<forall>m. content w' (chunk_key (external_req_id (rx_objects l j)) (adapter_stage (sender l)) m) =
             (if length (received l' j) \<le> m \<and> m < length (sent l (external_req_id (rx_objects l j)))
              then Some (sent l (external_req_id (rx_objects l j)) ! m) else None))" if js: "j \<notin> stopped l" for j
  proof (cases "j = i")
    case True
    have pre: "?n < length (sent l ?x) \<Longrightarrow> prefix (received l i @ [sent l ?x ! ?n]) (sent l ?x)"
      using o(2) by (metis append_one_prefix)
    show ?thesis
    proof (cases "?n < length (sent l ?x)")
      case True': True
      then show ?thesis
        unfolding True cw cno o(1) using pre o(3)
        by (auto simp: l'_def rn not_less_eq_eq less_Suc_eq_le order_le_less)
    next
      case False
      then show ?thesis
        unfolding True cw cno o(1) using o(2,3) by (simp add: l'_def rn)
    qed
  next
    case False
    have "external_req_id (rx_objects l j) \<noteq> ?x"
      using ok False unfolding transport_ok_def by (metis (no_types, lifting) injD)
    with ok js False show ?thesis
      unfolding cno cw transport_ok_def by (simp add: l'_def)
  qed
  have pending: "distinct (pending_load_reqs a') \<and> set (pending_load_reqs a') \<subseteq> set (pending_load_reqs (receiver l))"
    using re(6) ok pend by (auto simp: transport_ok_def)
  have fields: "adapter_stage a' = adapter_stage (receiver l)" "cancelled_load_reqs a' = cancelled_load_reqs (receiver l)"
    using re(4,5) by simp_all
  show ?thesis
    using ok chan pending re(1,3) unfolding transport_ok_def
    by (simp add: l'_def ext fields stage(2)) blast
qed

lemma link_step_ok:
  assumes "link_step put get process l l'" and "transport_ok (content (wire l)) l" and "inv (wire l)"
  shows "inv (wire l') \<and> transport_ok (content (wire l')) l' \<and> same_ext (rx_objects l) (rx_objects l')"
  using assms
proof (cases rule: link_step.cases)
  case (save po i fin)
  with assms(2,3) show ?thesis by (simp add: transport_ok_def save_async_def)
next
  case (send t ts made x a' w')
  then show ?thesis using send_ok [OF assms(2,3) send(2-6)] by simp
next
  case (load i)
  with assms(2,3) show ?thesis by (auto simp: transport_ok_def load_async_def)
next
  case (receive i rest a' st' w')
  then show ?thesis using receive_ok [OF assms(2,3) receive(2,3)] by simp
next
  case (release i x)
  with assms(2,3) show ?thesis
    by (auto simp: transport_ok_def cleanup_def cleanup_receiver_def cleanup_sender_def Let_def)
qed

lemma link_run_ok:
  assumes "(link_step put get process)\<^sup>*\<^sup>* l l'" and "transport_ok (content (wire l)) l" and "inv (wire l)"
  shows "inv (wire l') \<and> transport_ok (content (wire l')) l' \<and> same_ext (rx_objects l) (rx_objects l')"
  using assms
proof (induction rule: rtranclp_induct)
  case base
  then show ?case by simp
next
  case (step y z)
  then show ?case using link_step_ok [OF step.hyps(2)] by (auto simp: same_ext_def)
qed

end

interpretation chunk_shm: payload_connector "link_put enc" "link_get enc truthy" link_content "link_ok enc"
  by unfold_locales

end
