(* ===== verification/Chunk_Properties.thy ===== *)
theory Chunk_Properties
  imports Chunk_Transfer
begin

text \<open>
  What the chunk transfer guarantees over shared memory: order and exactly-once delivery, the
  abstract channel it implements, progress of a polling pass, accumulation of payloads in AR mode,
  and a stall in generation mode.
\<close>

section \<open>Order\<close>

lemma link_init_ok:
  assumes "inj (\<lambda>i. external_req_id (st_rx i))" and "content w = Map.empty"
  shows "transport_ok (content w) (link_init sid mx mode st_tx st_rx w)"
  using assms by (simp add: transport_ok_def link_init_def adapter_init_def)

text \<open>An empty \<open>/dev/shm\<close> and two fresh connectors.\<close>

definition shm_init :: "nat \<Rightarrow> 'p shm_link" where
  "shm_init sid = \<lparr>tx = conn_init (int sid), rx = conn_init (int sid + 1),
     fs = \<lparr>segments = Map.empty, lock_files = {}\<rparr>\<rparr>"

lemma shm_init_ok: "link_ok enc (shm_init sid)" "link_content (shm_init sid) = Map.empty"
  by (simp_all add: shm_init_def link_ok_def link_content_def)

definition not_empty :: "payload \<Rightarrow> bool" where
  "not_empty p \<longleftrightarrow> p \<noteq> []"

definition shm_step ::
  "(payload \<Rightarrow> nat option) \<Rightarrow> ('o \<Rightarrow> string \<Rightarrow> bool \<Rightarrow> payload option)
     \<Rightarrow> ('o, payload shm_link) chunk_link \<Rightarrow> ('o, payload shm_link) chunk_link \<Rightarrow> bool" where
  "shm_step enc process = link_step (link_put enc) (link_get enc not_empty) process"

lemma shm_reachable_ok:
  assumes "(shm_step enc process)\<^sup>*\<^sup>* (link_init sid mx mode st_tx st_rx (shm_init sid)) l"
    and "inj (\<lambda>i. external_req_id (st_rx i))"
  shows "link_ok enc (wire l) \<and> transport_ok (link_content (wire l)) l"
proof -
  let ?l0 = "link_init sid mx mode st_tx st_rx (shm_init sid) :: ('a, payload shm_link) chunk_link"
  have w: "wire ?l0 = shm_init sid" by (simp add: link_init_def)
  have "transport_ok (link_content (wire ?l0)) ?l0"
    unfolding w by (rule link_init_ok [where content = link_content]) (fact assms(2), rule shm_init_ok(2))
  moreover have "link_ok enc (wire ?l0)" unfolding w by (rule shm_init_ok(1))
  ultimately show ?thesis
    using chunk_shm.link_run_ok [OF assms(1) [unfolded shm_step_def]] by blast
qed

text \<open>C27: Over shared memory the chunks of a request arrive in the order they were sent, and none
  is read twice: what a request has received is a prefix of what was sent to it, its chunk counter
  is the length of that prefix, and the segments named after it are exactly the rest, each under
  its number.\<close>

theorem chunks_arrive_in_order:
  assumes "(shm_step enc process)\<^sup>*\<^sup>* (link_init sid mx mode st_tx st_rx (shm_init sid)) l"
    and "inj (\<lambda>i. external_req_id (st_rx i))" and "i \<notin> stopped l"
  shows "sent l (external_req_id (rx_objects l i)) = received l i @ in_transit l i
    \<and> chunk_no (get_req_chunk (receiver l)) i = length (received l i)
    \<and> (\<forall>n. segments (fs (wire l)) (chunk_key (external_req_id (rx_objects l i)) (adapter_stage (sender l)) n)
          = (if length (received l i) \<le> n \<and> n < length (received l i) + length (in_transit l i)
             then Some (in_transit l i ! (n - length (received l i))) else None))"
proof -
  have "transport_ok (link_content (wire l)) l" using shm_reachable_ok [OF assms(1,2)] by blast
  with assms(3) show ?thesis
    by (auto simp: transport_ok_def in_transit_def link_content_def prefix_def nth_append)
qed

text \<open>C28: The link implements one queue per request: each step either leaves the queue of a request
  alone, appends one payload to it, or hands its head to the request.\<close>

theorem link_refines_queues:
  assumes "(shm_step enc process)\<^sup>*\<^sup>* (link_init sid mx mode st_tx st_rx (shm_init sid)) l"
    and "inj (\<lambda>i. external_req_id (st_rx i))" and "shm_step enc process l l'" and "i \<notin> stopped l'"
  shows "in_transit l' i = in_transit l i \<and> received l' i = received l i
    \<or> (\<exists>p. in_transit l' i = in_transit l i @ [p] \<and> received l' i = received l i)
    \<or> (\<exists>p. in_transit l i = p # in_transit l' i \<and> received l' i = received l i @ [p])"
proof -
  have ok: "transport_ok (link_content (wire l)) l" "link_ok enc (wire l)"
    using shm_reachable_ok [OF assms(1,2)] by blast+
  have ext: "external_req_id (rx_objects l' i) = external_req_id (rx_objects l i)"
    using chunk_shm.link_step_ok [OF assms(3) [unfolded shm_step_def] ok] by (simp add: same_ext_def)
  have le: "i \<notin> stopped l \<Longrightarrow> length (received l i) \<le> length (sent l (external_req_id (rx_objects l i)))"
    and le': "length (received l' i) \<le> length (sent l' (external_req_id (rx_objects l' i)))"
    using chunk_shm.link_step_ok [OF assms(3) [unfolded shm_step_def] ok] ok(1) assms(4)
    by (simp_all add: transport_ok_def prefix_length_le)
  from assms(3) [unfolded shm_step_def] show ?thesis
  proof (cases rule: link_step.cases)
    case (send t ts made x a' w')
    then show ?thesis
      using assms(4) le by (auto simp: in_transit_def put_now_def split: option.splits)
  next
    case (receive j rest a' st' w')
    show ?thesis
    proof (cases "j = i \<and> read_now (link_get enc not_empty) j l \<noteq> []")
      case False
      with receive ext show ?thesis by (auto simp: in_transit_def)
    next
      case True
      then obtain p where r: "read_now (link_get enc not_empty) j l = [p]"
        by (auto simp: read_now_def split: option.splits if_splits)
      have pre: "received l' i = received l i @ [p]" "sent l' = sent l" using receive True r by simp_all
      have "in_transit l i = p # in_transit l' i"
      proof -
        have "prefix (received l' i) (sent l' (external_req_id (rx_objects l' i)))"
          using chunk_shm.link_step_ok [OF assms(3) [unfolded shm_step_def] ok] assms(4)
          by (simp add: transport_ok_def)
        then obtain zs where "sent l (external_req_id (rx_objects l i)) = (received l i @ [p]) @ zs"
          by (auto simp: prefix_def pre ext)
        then show ?thesis by (simp add: in_transit_def pre ext)
      qed
      with pre show ?thesis by blast
    qed
  qed (auto simp: in_transit_def)
qed

section \<open>Progress\<close>

context payload_connector
begin

lemma recv_others:
  fixes a :: "'o adapter"
  assumes "inv w" and "pending_load_reqs a = us @ vs" and "i \<notin> set us"
    and "inj (\<lambda>j. external_req_id (st j))"
    and "(recv_one get ^^ length us) (a, st, w) = (a', st', w')"
  shows "inv w' \<and> (\<exists>zs. pending_load_reqs a' = vs @ zs) \<and> same_ext st st'
    \<and> adapter_stage a' = adapter_stage a
    \<and> (i \<notin> cancelled_load_reqs a \<longrightarrow> i \<notin> cancelled_load_reqs a')
    \<and> chunk_no (get_req_chunk a') i = chunk_no (get_req_chunk a) i
    \<and> next_payload (content w') a' st' i = next_payload (content w) a st i"
  using assms
proof (induction us arbitrary: a st w vs)
  case Nil
  then show ?case by simp
next
  case (Cons u us)
  obtain a1 st1 w1 where one: "recv_one get (a, st, w) = (a1, st1, w1)" by (rule prod_cases3)
  have rest: "(recv_one get ^^ length us) (a1, st1, w1) = (a', st', w')"
    using Cons.prems(5) one by (simp add: funpow_swap1)
  have ui: "u \<noteq> i" "external_req_id (st u) \<noteq> external_req_id (st i)"
    using Cons.prems(3,4) by (auto dest: injD)
  have pend: "pending_load_reqs a = u # (us @ vs)" using Cons.prems(2) by simp
  have one': "inv w1 \<and> (\<exists>z. pending_load_reqs a1 = us @ vs @ z) \<and> same_ext st st1
    \<and> adapter_stage a1 = adapter_stage a
    \<and> (i \<notin> cancelled_load_reqs a \<longrightarrow> i \<notin> cancelled_load_reqs a1)
    \<and> chunk_no (get_req_chunk a1) i = chunk_no (get_req_chunk a) i
    \<and> next_payload (content w1) a1 st1 i = next_payload (content w) a st i"
  proof (cases "u \<in> cancelled_load_reqs a")
    case True
    then show ?thesis
      using one pend Cons.prems(1) by (auto simp: recv_one_def Let_def next_payload_def)
  next
    case False
    note re = recv_one_effect [OF Cons.prems(1) one pend False]
    have ext: "external_req_id (st1 i) = external_req_id (st i)" using re(3) by (simp add: same_ext_def)
    have c: "chunk_no (get_req_chunk a1) i = chunk_no (get_req_chunk a) i" using re(7) [of i] ui by simp
    have "next_payload (content w1) a1 st1 i = next_payload (content w) a st i"
      unfolding next_payload_def ext c re(2,4) using ui by simp
    with re c show ?thesis by auto
  qed
  then obtain z where z: "pending_load_reqs a1 = us @ vs @ z" by blast
  have inj: "inj (\<lambda>j. external_req_id (st1 j))"
    using one' Cons.prems(4) by (simp add: same_ext_def)
  from Cons.IH [OF _ z _ inj rest] one' Cons.prems(3) show ?case
    by (auto simp: same_ext_def)
qed

lemma recv_pass_reads:
  fixes a :: "'o adapter"
  assumes "inv w" and "inj (\<lambda>j. external_req_id (st j))" and "distinct (pending_load_reqs a)"
    and "i \<in> set (pending_load_reqs a)" and "i \<notin> cancelled_load_reqs a"
    and "next_payload (content w) a st i = Some p" and "p \<noteq> []"
    and "recv_pass get (a, st, w) = (a', st', w')"
  shows "chunk_no (get_req_chunk a') i = chunk_no (get_req_chunk a) i + 1"
proof -
  obtain us vs where uv: "pending_load_reqs a = us @ i # vs" "i \<notin> set us"
    using assms(4) by (meson split_list_first)
  then have iv: "i \<notin> set vs" using assms(3) by simp
  obtain a1 st1 w1 where s1: "(recv_one get ^^ length us) (a, st, w) = (a1, st1, w1)" by (rule prod_cases3)
  note f1 = recv_others [OF assms(1) uv assms(2) s1]
  then obtain zs where p1: "pending_load_reqs a1 = i # vs @ zs" by auto
  obtain a2 st2 w2 where s2: "recv_one get (a1, st1, w1) = (a2, st2, w2)" by (rule prod_cases3)
  have nc: "i \<notin> cancelled_load_reqs a1" using f1 assms(5) by blast
  have inv1: "inv w1" and np1: "next_payload (content w1) a1 st1 i = Some p"
    and inj1: "inj (\<lambda>j. external_req_id (st1 j))"
    using f1 assms(2,6) by (simp_all add: same_ext_def)
  note f2 = recv_one_effect [OF inv1 s2 p1 nc]
  from f2(6) obtain ys where p2: "pending_load_reqs a2 = vs @ ys" by auto
  have inj2: "inj (\<lambda>j. external_req_id (st2 j))" using inj1 f2(3) by (simp add: same_ext_def)
  have "length (pending_load_reqs a) = length vs + Suc (length us)" by (simp add: uv)
  moreover have "recv_one get ((recv_one get ^^ length us) (a, st, w)) = (a2, st2, w2)" by (simp add: s1 s2)
  ultimately have "recv_pass get (a, st, w) = (recv_one get ^^ length vs) (a2, st2, w2)"
    by (simp only: recv_pass_def fst_conv funpow_add funpow.simps(2) o_apply)
  with assms(8) have s3: "(recv_one get ^^ length vs) (a2, st2, w2) = (a', st', w')" by simp
  from recv_others [OF f2(1) p2 iv inj2 s3] f2(7) [of i] f1 np1 assms(6,7) show ?thesis by simp
qed

end

text \<open>A pass of the receive loop reads the next chunk of every request that waits for one: if a
  polled request has a chunk under way, its counter moves by one in the next pass, however many
  other requests are polled before it.\<close>

theorem pass_delivers:
  assumes "(shm_step enc process)\<^sup>*\<^sup>* (link_init sid mx mode st_tx st_rx (shm_init sid)) l"
    and "inj (\<lambda>i. external_req_id (st_rx i))"
    and "i \<in> set (pending_load_reqs (receiver l))" and "i \<notin> cancelled_load_reqs (receiver l)"
    and "in_transit l i \<noteq> []"
    and "recv_pass (link_get enc not_empty) (receiver l, rx_objects l, wire l) = (a', st', w')"
  shows "chunk_no (get_req_chunk a') i = length (received l i) + 1"
proof -
  have ok: "transport_ok (link_content (wire l)) l" "link_ok enc (wire l)"
    using shm_reachable_ok [OF assms(1,2)] by blast+
  have ns: "i \<notin> stopped l" using ok(1) assms(3,4) by (auto simp: transport_ok_def)
  obtain p ps where t: "in_transit l i = p # ps" using assms(5) by (cases "in_transit l i") auto
  have pos: "length (received l i) < length (sent l (external_req_id (rx_objects l i)))"
    and pe: "p = sent l (external_req_id (rx_objects l i)) ! length (received l i)"
    using t by (simp_all add: in_transit_def) (metis drop_all linorder_not_le list.distinct(1), metis hd_drop_conv_nth list.sel(1) drop_all linorder_not_le list.distinct(1))
  have cn: "chunk_no (get_req_chunk (receiver l)) i = length (received l i)"
    using ok(1) ns by (simp add: transport_ok_def)
  have np: "next_payload (link_content (wire l)) (receiver l) (rx_objects l) i = Some p"
    using ok(1) ns pos pe by (simp add: transport_ok_def next_payload_def)
  have "p \<noteq> []" using ok(1) nth_mem [OF pos] unfolding pe transport_ok_def by metis
  from chunk_shm.recv_pass_reads [OF ok(2) _ _ assms(3,4) np this assms(6)] ok(1) cn
  show ?thesis by (simp add: transport_ok_def)
qed

section \<open>A stall in generation mode\<close>

text \<open>
  The receiving stage over time: passes of the receive loop, scheduling cycles, other requests
  entering and leaving the queues, and anything the sending side does to the link.
\<close>

inductive receiver_step ::
  "(string \<Rightarrow> 's \<Rightarrow> 's \<times> payload option) \<Rightarrow> ('s \<Rightarrow> bool) \<Rightarrow> (string list, 'o) chunk_view \<times> 's
     \<Rightarrow> (string list, 'o) chunk_view \<times> 's \<Rightarrow> bool"
  for get usable where
  poll: "recv_one get (chunk_adapter v, chunk_objects v, w) = (a', st', w') \<Longrightarrow>
    receiver_step get usable (v, w) (v\<lparr>chunk_adapter := a', chunk_objects := st'\<rparr>, w')"
| cycle: "receiver_step get usable (v, w) (adapter_pending_chunks fcfs v, w)"
| restore: "receiver_step get usable (v, w) (adapter_restore_queues fcfs v, w)"
| clear: "receiver_step get usable (v, w) (v\<lparr>chunk_adapter := adapter_clear_chunk_ready ns cs (chunk_adapter v)\<rparr>, w)"
| queues: "receiver_step get usable (v, w) (v\<lparr>chunk_waiting := q, chunk_running := r\<rparr>, w)"
| sending: "usable w' \<Longrightarrow> receiver_step get usable (v, w) (v, w')"

definition stalled :: "string \<Rightarrow> 'o adapter \<Rightarrow> chunk_store \<Rightarrow> bool" where
  "stalled i a st \<longleftrightarrow> rstatus (st i) = Waiting_For_Chunk \<and> i \<notin> set (pending_load_reqs a) \<and> i \<notin> finished_load_reqs a"

lemma chunk_step_stalled:
  assumes "stalled i (fst s) (snd s)" and "adapter_chunk_step target j s = (s', b)"
  shows "stalled i (fst s') (snd s') \<and> get_req_chunk (fst s') = get_req_chunk (fst s) \<and> (j = i \<longrightarrow> b)"
  using assms
  by (cases s; cases s') (auto simp: adapter_chunk_step_def stalled_def load_async_def Let_def split: if_splits)

lemma chunk_queue_stalled:
  assumes "stalled i (fst s) (snd s)" and "adapter_chunk_queue target js s parked = (s', parked')"
  shows "stalled i (fst s') (snd s') \<and> get_req_chunk (fst s') = get_req_chunk (fst s)
    \<and> count (mset parked') i = count (mset parked) i + count (mset js) i"
  using assms
proof (induction js arbitrary: s parked)
  case Nil
  then show ?case by simp
next
  case (Cons j js)
  obtain s1 b where st: "adapter_chunk_step target j s = (s1, b)" by (rule prod.exhaust)
  have rest: "adapter_chunk_queue target js s1 (if b then parked @ [j] else parked) = (s', parked')"
    using Cons.prems(2) st by simp
  have one: "stalled i (fst s1) (snd s1)" "get_req_chunk (fst s1) = get_req_chunk (fst s)" "j = i \<longrightarrow> b"
    using chunk_step_stalled [OF Cons.prems(1) st] by blast+
  from Cons.IH [OF one(1) rest] one(2,3) show ?case by (cases b; cases "j = i") simp_all
qed

lemma count_foldl_remove1: "count (mset (foldl (\<lambda>r j. remove1 j r) r js)) i = count (mset r) i - count (mset js) i"
  by (induction js arbitrary: r) auto

lemma trim_other:
  assumes "i \<notin> set r" and "adapter_trim wq mx r q st = (r', q', st')"
  shows "rstatus (st' i) = rstatus (st i)"
  using assms
proof (induction r arbitrary: q st)
  case Nil
  then show ?case by (simp add: adapter_trim.simps)
next
  case (Cons j r)
  then show ?case
    by (fastforce simp: adapter_trim.simps [of wq mx "j # r" q st] split: if_splits)
qed

lemma pending_chunks_stalled:
  assumes "stalled i (chunk_adapter v) (chunk_objects v)" and "v' = adapter_pending_chunks fcfs v"
  shows "stalled i (chunk_adapter v') (chunk_objects v')
    \<and> get_req_chunk (chunk_adapter v') = get_req_chunk (chunk_adapter v)"
proof (cases "adapter_stage (chunk_adapter v) = 0")
  case True
  with assms show ?thesis by (simp add: adapter_pending_chunks_def)
next
  case False
  obtain s1 pw where q1: "adapter_chunk_queue Waiting (chunk_waiting v) (chunk_adapter v, chunk_objects v) [] = (s1, pw)"
    by (rule prod.exhaust)
  define s1' where "s1' = ((fst s1)\<lparr>chunk_waiting_requests := chunk_waiting_requests (fst s1) @ pw\<rparr>, snd s1)"
  obtain s2 pr where q2: "adapter_chunk_queue Running (chunk_running v) s1' [] = (s2, pr)" by (rule prod.exhaust)
  define r2 where "r2 = foldl (\<lambda>r i. remove1 i r) (chunk_running v) pr"
  obtain rr q3 st3 where tr: "adapter_trim fcfs (max_num_seqs (fst s2)) (rev r2)
      (foldl (wq_remove fcfs) (chunk_waiting v) pw) (snd s2) = (rr, q3, st3)" by (rule prod_cases3)
  have eq: "chunk_adapter v' = (fst s2)\<lparr>chunk_running_requests := chunk_running_requests (fst s2) @ pr\<rparr>"
    "chunk_objects v' = st3"
    using assms(2) False q1 q2 [unfolded s1'_def] tr [unfolded r2_def]
    by (simp_all add: adapter_pending_chunks_def fcfs_def)
  have st1: "stalled i (fst s1) (snd s1)" "get_req_chunk (fst s1) = get_req_chunk (chunk_adapter v)"
    using chunk_queue_stalled [OF _ q1, of i] assms(1) by simp_all
  have st2: "stalled i (fst s2) (snd s2)" "get_req_chunk (fst s2) = get_req_chunk (fst s1)"
    and c: "count (mset pr) i = count (mset (chunk_running v)) i"
    using chunk_queue_stalled [OF _ q2, of i] st1(1) by (simp_all add: s1'_def stalled_def)
  have "count (mset r2) i = 0" unfolding r2_def count_foldl_remove1 c by simp
  then have "i \<notin> set (rev r2)" by (metis count_eq_zero_iff set_mset_mset set_rev)
  from trim_other [OF this tr] st1 st2 show ?thesis by (simp add: eq stalled_def)
qed

context payload_connector
begin

lemma receiver_step_stalled:
  fixes v :: "(string list, 'o) chunk_view"
  assumes "receiver_step get inv (v, w) (v', w')" and "inv w"
    and "stalled i (chunk_adapter v) (chunk_objects v)"
  shows "inv w' \<and> stalled i (chunk_adapter v') (chunk_objects v')
    \<and> chunk_no (get_req_chunk (chunk_adapter v')) i = chunk_no (get_req_chunk (chunk_adapter v)) i"
  using assms(1)
proof (cases rule: receiver_step.cases)
  case (poll a' st')
  show ?thesis
  proof (cases "pending_load_reqs (chunk_adapter v)")
    case Nil
    with poll assms(2,3) show ?thesis by (simp add: recv_one_def)
  next
    case (Cons j rest)
    then have ji: "j \<noteq> i" using assms(3) by (auto simp: stalled_def)
    show ?thesis
    proof (cases "j \<in> cancelled_load_reqs (chunk_adapter v)")
      case True
      with poll Cons assms(2,3) show ?thesis by (auto simp: recv_one_def Let_def stalled_def)
    next
      case False
      note re = recv_one_effect [OF assms(2) poll(2) Cons False]
      have "stalled i a' st'"
        using re(3,6,8) ji Cons assms(3) by (auto simp: stalled_def same_ext_def)
      with re(1) re(7) [of i] ji poll show ?thesis by simp
    qed
  qed
next
  case cycle
  with pending_chunks_stalled [OF assms(3)] assms(2) show ?thesis by simp
qed (use assms(2,3) in \<open>simp_all add: stalled_def adapter_restore_queues_def adapter_clear_chunk_ready_def Let_def\<close>)

lemma receiver_run_stalled:
  fixes v :: "(string list, 'o) chunk_view"
  assumes "(receiver_step get inv)\<^sup>*\<^sup>* (v, w) (v', w')" and "inv w"
    and "stalled i (chunk_adapter v) (chunk_objects v)"
  shows "inv w' \<and> stalled i (chunk_adapter v') (chunk_objects v')
    \<and> chunk_no (get_req_chunk (chunk_adapter v')) i = chunk_no (get_req_chunk (chunk_adapter v)) i"
  using assms
proof (induction rule: rtranclp_induct2)
  case refl
  then show ?case by simp
next
  case (step v1 w1 v2 w2)
  then show ?case using receiver_step_stalled [OF step.hyps(2), of i] by simp
qed

end

text \<open>In generation mode a chunk without codes that is not the last one stalls its request: the
  poll counts as a success, so the request is neither polled again nor marked ready, and whatever
  is sent or scheduled afterwards it stays in WAITING_FOR_CHUNK and no further chunk of it is read.\<close>

theorem empty_chunk_stalls:
  assumes "link_ok enc w" and "pending_load_reqs (chunk_adapter v) = i # rest" and "i \<notin> set rest"
    and "i \<notin> cancelled_load_reqs (chunk_adapter v)" and "i \<notin> finished_load_reqs (chunk_adapter v)"
    and "rstatus (chunk_objects v i) = Waiting_For_Chunk" and "model_mode (chunk_adapter v) \<noteq> ''ar''"
    and "next_payload (link_content w) (chunk_adapter v) (chunk_objects v) i = Some p" and "p \<noteq> []"
    and "new_codes p = Inr (PList [])" and "meta_finished p = Inr False"
    and "recv_one (link_get enc not_empty) (chunk_adapter v, chunk_objects v, w) = (a', st', w')"
    and "(receiver_step (link_get enc not_empty) (link_ok enc))\<^sup>*\<^sup>*
      (v\<lparr>chunk_adapter := a', chunk_objects := st'\<rparr>, w') (v'', w'')"
  shows "rstatus (chunk_objects v'' i) = Waiting_For_Chunk
    \<and> chunk_no (get_req_chunk (chunk_adapter v'')) i = chunk_no (get_req_chunk (chunk_adapter v)) i + 1"
proof -
  define k where "k = chunk_key (external_req_id (chunk_objects v i)) (adapter_stage (chunk_adapter v) - 1)
    (chunk_no (get_req_chunk (chunk_adapter v)) i)"
  obtain w1 r where g: "link_get enc not_empty k w = (w1, r)" by (rule prod.exhaust)
  have r: "r = Some p" using link_get_ok [OF assms(1) g] assms(8) by (simp add: next_payload_def k_def)
  note re = chunk_shm.recv_one_effect [OF assms(1,12,2,4)]
  have "stalled i a' st'"
    using assms(12) g [unfolded r k_def] assms(2,3,4,5,6,7,9,10,11)
    by (auto simp: recv_one_def poll_single_request_def accept_generation_def mark_finished_def truth_def
        stalled_def Let_def)
  with chunk_shm.receiver_run_stalled [OF assms(13) re(1), of i] re(7) [of i] assms(8,9)
  show ?thesis by (simp add: stalled_def)
qed

section \<open>Accumulation in AR mode\<close>

text \<open>The list a payload holds under \<open>t\<close>, \<open>q\<close>, and the keys it overrides.\<close>

definition list_at :: "payload \<Rightarrow> string \<Rightarrow> string \<Rightarrow> item list option" where
  "list_at p t q = (case map_of p t of
      Some (Sub d) \<Rightarrow> (case map_of d q of Some (PList xs) \<Rightarrow> Some xs | _ \<Rightarrow> None)
    | _ \<Rightarrow> None)"

definition overridden :: "payload \<Rightarrow> (string \<times> string) set" where
  "overridden p = (case pop_overrides p of Inl _ \<Rightarrow> {} | Inr (_, ks) \<Rightarrow> ks)"

text \<open>The reference: what the list under one key is after some chunks.\<close>

fun accumulated :: "string \<Rightarrow> string \<Rightarrow> item list option \<Rightarrow> payload list \<Rightarrow> item list option" where
  "accumulated t q acc [] = acc"
| "accumulated t q acc (p # ps) =
     accumulated t q (case list_at p t q of None \<Rightarrow> None
       | Some xs \<Rightarrow> Some (if (t, q) \<in> overridden p then xs
                          else case acc of None \<Rightarrow> xs | Some ys \<Rightarrow> ys @ xs)) ps"

fun accept_all ::
  "string \<Rightarrow> string \<Rightarrow> payload list \<Rightarrow> 'o adapter \<times> chunk_store \<Rightarrow> ('o adapter \<times> chunk_store) res" where
  "accept_all i x [] s = Inr s"
| "accept_all i x (p # ps) s =
     (case accept_ar i x p s of (_, Inl e) \<Rightarrow> Inl e | (s', Inr _) \<Rightarrow> accept_all i x ps s')"

lemma merge_sub_at:
  assumes "merge_sub ks t old new = Inr d" and "(t, q) \<noteq> (''meta'', ''finished'')"
  shows "(case map_of d q of Some (PList xs) \<Rightarrow> Some xs | _ \<Rightarrow> None) =
    (case map_of new q of
       Some (PList xs) \<Rightarrow> Some (if (t, q) \<in> ks then xs
         else case map_of old q of Some (PList ys) \<Rightarrow> ys @ xs | _ \<Rightarrow> xs)
     | _ \<Rightarrow> None)"
  using assms
proof (induction new arbitrary: d)
  case Nil
  then show ?case by simp
next
  case (Cons z new)
  obtain q' v where z: "z = (q', v)" by (rule prod.exhaust)
  from Cons.prems(1) obtain v' ys
    where v': "(if t = ''meta'' \<and> q' = ''finished'' \<or> (t, q') \<in> ks then Inr v else append_value v (map_of old q')) = Inr v'"
      and ys: "merge_sub ks t old new = Inr ys" and d: "d = (q', v') # ys"
    by (auto simp: z bind_res_Inr split: sum.splits)
  show ?case
  proof (cases "q' = q")
    case True
    then have "(case v' of PList xs \<Rightarrow> Some xs | _ \<Rightarrow> None) =
      (case v of PList xs \<Rightarrow> Some (if (t, q) \<in> ks then xs
         else case map_of old q of Some (PList ys) \<Rightarrow> ys @ xs | _ \<Rightarrow> xs) | _ \<Rightarrow> None)"
      using v' Cons.prems(2)
      by (auto simp: append_value_def split: if_splits pval.splits option.splits)
    with True show ?thesis by (simp add: z d)
  next
    case False
    with Cons.IH [OF ys Cons.prems(2)] show ?thesis by (simp add: z d)
  qed
qed

lemma merge_payload_at:
  assumes "merge_payload ks origin new = Inr m" and "(t, q) \<noteq> (''meta'', ''finished'')"
  shows "list_at m t q = (case list_at new t q of None \<Rightarrow> None
    | Some xs \<Rightarrow> Some (if (t, q) \<in> ks then xs
        else case list_at origin t q of None \<Rightarrow> xs | Some ys \<Rightarrow> ys @ xs))"
  using assms
proof (induction new arbitrary: m)
  case Nil
  then show ?case by (simp add: list_at_def)
next
  case (Cons z new)
  obtain t' e where z: "z = (t', e)" by (rule prod.exhaust)
  from Cons.prems(1) obtain e' ys
    where e': "(case (e, map_of origin t') of (Sub new, Some (Sub old)) \<Rightarrow>
        bind_res (merge_sub ks t' old new) (\<lambda>d. Inr (Sub d)) | _ \<Rightarrow> Inr e) = Inr e'"
      and ys: "merge_payload ks origin new = Inr ys" and m: "m = (t', e') # ys"
    by (auto simp: z bind_res_Inr split: sum.splits)
  show ?case
  proof (cases "t' = t")
    case False
    with Cons.IH [OF ys Cons.prems(2)] show ?thesis by (simp add: z m list_at_def)
  next
    case True
    show ?thesis
    proof (cases "\<exists>n old. e = Sub n \<and> map_of origin t' = Some (Sub old)")
      case False
      then have e: "e' = e" using e' by (auto split: pentry.splits option.splits)
      from False have "e = Sub n \<Longrightarrow> list_at origin t q = None" for n
        using True by (auto simp: list_at_def split: option.splits pentry.splits)
      then show ?thesis
        using True by (cases e) (auto simp: z m e list_at_def split: option.splits pval.splits)
    next
      case both: True
      then obtain n old d where s: "e = Sub n" "map_of origin t = Some (Sub old)"
        "merge_sub ks t old n = Inr d" "e' = Sub d"
        using e' True by (auto simp: bind_res_Inr)
      from merge_sub_at [OF s(3) Cons.prems(2)] True show ?thesis
        by (auto simp: z m s list_at_def split: option.splits pval.splits)
    qed
  qed
qed

lemma accept_all_at:
  assumes "accept_all i x ps (a, st) = Inr (a', st')" and "request_payload a x = Some m"
    and "additional_information (st i) = Some m" and "t \<noteq> ''meta''"
  shows "\<exists>m'. additional_information (st' i) = Some m' \<and> list_at m' t q = accumulated t q (list_at m t q) ps"
  using assms
proof (induction ps arbitrary: a st m)
  case Nil
  then show ?case by auto
next
  case (Cons p ps)
  obtain a1 st1 r where one: "accept_ar i x p (a, st) = ((a1, st1), r)" by (metis prod.exhaust)
  with Cons.prems(1) obtain b where r: "r = Inr b" and rest: "accept_all i x ps (a1, st1) = Inr (a', st')"
    by (auto split: sum.splits)
  from one r Cons.prems(2) obtain p' ks m1
    where pop: "pop_overrides p = Inr (p', ks)" and mg: "merge_payload ks m p' = Inr m1"
      and a1: "request_payload a1 x = Some m1" "additional_information (st1 i) = Some m1"
    by (auto simp: accept_ar_def update_request_payload_def bind_res_Inr mark_finished_def Let_def
        split: sum.splits)
  have "list_at p' t q = list_at p t q"
    using pop Cons.prems(4)
    by (auto simp: pop_overrides_def list_at_def bind_res_Inr map_of_dict_set
        split: option.splits pentry.splits)
  moreover have ov: "overridden p = ks" using pop by (simp add: overridden_def)
  ultimately have "list_at m1 t q = (case list_at p t q of None \<Rightarrow> None
       | Some xs \<Rightarrow> Some (if (t, q) \<in> overridden p then xs
                          else case list_at m t q of None \<Rightarrow> xs | Some ys \<Rightarrow> ys @ xs))"
    unfolding ov using merge_payload_at [OF mg, of t q] Cons.prems(4) by simp
  with Cons.IH [OF rest a1 Cons.prems(4)] show ?case by simp
qed

text \<open>In AR mode the payload of a request accumulates: after a first chunk and any number of
  further ones, the list under a key is the concatenation of the lists the chunks carried since the
  last chunk that overrode the key. A chunk that lacks the key drops what was accumulated.\<close>

theorem ar_chunks_accumulate:
  assumes "accept_all i x (p # ps) (a, st) = Inr (a', st')" and "request_payload a x = None"
    and "t \<noteq> ''meta''"
  shows "\<exists>m. additional_information (st' i) = Some m
    \<and> list_at m t q = accumulated t q None (p # ps)"
proof -
  obtain a1 st1 b where one: "accept_ar i x p (a, st) = ((a1, st1), Inr b)"
    and rest: "accept_all i x ps (a1, st1) = Inr (a', st')"
    using assms(1) by (auto split: sum.splits prod.splits)
  have "request_payload a1 x = Some p" "additional_information (st1 i) = Some p"
    using one assms(2)
    by (auto simp: accept_ar_def update_request_payload_def mark_finished_def Let_def split: sum.splits)
  from accept_all_at [OF rest this assms(3), of q] show ?thesis
    by (cases "list_at p t q") simp_all
qed

section \<open>Examples\<close>

text \<open>A link from stage 0 to stage 1, in generation mode, that sends what it is given.\<close>

definition ex_objects :: chunk_store where
  "ex_objects = (\<lambda>i. \<lparr>rstatus = Waiting_For_Chunk, external_req_id = i, additional_information = None,
     prompt_ids = PList [], computed_tokens = 0\<rparr>)"

definition ex_chunk :: payload where
  "ex_chunk = [(''codes'', Sub [(''audio'', PList [Num 7])])]"

definition ex_empty_chunk :: payload where
  "ex_empty_chunk = [(''codes'', Sub [(''audio'', PList [])])]"

definition ex_enc :: "payload \<Rightarrow> nat option" where
  "ex_enc p = Some 10"

definition ex_process :: "payload \<Rightarrow> string \<Rightarrow> bool \<Rightarrow> payload option" where
  "ex_process po i fin = Some po"

definition ex_link :: "payload \<Rightarrow> (payload, payload shm_link) chunk_link" where
  "ex_link p = (let l = link_init 0 8 ''generation'' ex_objects ex_objects (shm_init 0)
     in l\<lparr>sender := save_async p ''r'' False (sender l), receiver := load_async ''r'' (receiver l)\<rparr>)"

definition ex_sent :: "payload \<Rightarrow> (payload, payload shm_link) chunk_link" where
  "ex_sent p = (let l = ex_link p; s = save_one (link_put ex_enc) ex_process ex_objects (sender l, wire l)
     in l\<lparr>sender := fst s, wire := snd s, sent := (sent l)(''r'' := [p])\<rparr>)"

lemma ex_inj: "inj (\<lambda>i. external_req_id (ex_objects i))"
  by (simp add: ex_objects_def inj_def)

lemma ex_objects_simps [simp]: "external_req_id (ex_objects i) = i" "rstatus (ex_objects i) = Waiting_For_Chunk"
  by (simp_all add: ex_objects_def)

lemmas ex_link_defs = ex_link_def link_init_def save_async_def load_async_def adapter_init_def shm_init_def

lemma ex_sent_reachable:
  assumes "p \<noteq> []" and "sent_finished p = Inr False"
  shows "(shm_step ex_enc ex_process)\<^sup>*\<^sup>* (link_init 0 8 ''generation'' ex_objects ex_objects (shm_init 0)) (ex_sent p)"
proof -
  let ?l0 = "link_init 0 8 ''generation'' ex_objects ex_objects (shm_init 0) :: (payload, payload shm_link) chunk_link"
  have "shm_step ex_enc ex_process ?l0 (?l0\<lparr>sender := save_async p ''r'' False (sender ?l0)\<rparr>)"
    unfolding shm_step_def by (rule link_step.save)
  moreover have "shm_step ex_enc ex_process (?l0\<lparr>sender := save_async p ''r'' False (sender ?l0)\<rparr>) (ex_link p)"
    unfolding shm_step_def
    using link_step.load [of "''r''" "?l0\<lparr>sender := save_async p ''r'' False (sender ?l0)\<rparr>"]
    by (simp add: ex_link_defs)
  moreover have "shm_step ex_enc ex_process (ex_link p) (ex_sent p)"
  proof -
    let ?s = "save_one (link_put ex_enc) ex_process ex_objects (sender (ex_link p), wire (ex_link p))"
    have now: "put_now (link_put ex_enc) ''r'' (Some p) (ex_link p) = [p]"
      using assms(1)
      by (simp add: put_now_def ex_link_defs link_put_def shm_put_def ex_enc_def shm_write_bytes_def)
    have "link_step (link_put ex_enc) (link_get ex_enc not_empty) ex_process (ex_link p)
      ((ex_link p)\<lparr>sender := fst ?s, wire := snd ?s,
        sent := (sent (ex_link p))(''r'' := sent (ex_link p) ''r'' @ put_now (link_put ex_enc) ''r'' (Some p) (ex_link p)),
        closed := closed (ex_link p) \<union> {y. y = ''r'' \<and> (\<exists>p \<in> set (put_now (link_put ex_enc) ''r'' (Some p) (ex_link p)). sent_finished p = Inr True)}\<rparr>)"
      by (rule link_step.send [where t = "\<lparr>pooling_output = p, task_request = ''r'', task_is_finished = False\<rparr>"
            and ts = "[]"])
        (simp_all add: ex_link_defs ex_objects_def ex_process_def)
    then show ?thesis
      unfolding shm_step_def now using assms(2) by (simp add: ex_sent_def Let_def ex_link_defs)
  qed
  ultimately show ?thesis by (meson converse_rtranclp_into_rtranclp rtranclp.rtrancl_refl)
qed

lemma ex_sent_facts:
  assumes "p \<noteq> []"
  shows "stopped (ex_sent p) = {}" "pending_load_reqs (receiver (ex_sent p)) = [''r'']"
    "cancelled_load_reqs (receiver (ex_sent p)) = {}" "received (ex_sent p) = (\<lambda>i. [])"
    "rx_objects (ex_sent p) = ex_objects" "sent (ex_sent p) ''r'' = [p]"
    "in_transit (ex_sent p) ''r'' = [p]"
    "receiver (ex_sent p) = load_async ''r'' (adapter_init 1 8 ''generation'')"
  by (simp_all add: ex_sent_def ex_link_defs Let_def in_transit_def)

lemma ex_loaded [simp]:
  "pending_load_reqs (load_async ''r'' (adapter_init (Suc 0) 8 ''generation'')) = [''r'']"
  "cancelled_load_reqs (load_async ''r'' (adapter_init (Suc 0) 8 ''generation'')) = {}"
  by (simp_all add: load_async_def adapter_init_def)

lemma ex_chunk_facts: "ex_chunk \<noteq> []" "sent_finished ex_chunk = Inr False"
  "ex_empty_chunk \<noteq> []" "sent_finished ex_empty_chunk = Inr False"
  by (simp_all add: ex_chunk_def ex_empty_chunk_def sent_finished_def sub_def)

theorem chunks_arrive_in_order_witness:
  "sent (ex_sent ex_chunk) ''r'' = received (ex_sent ex_chunk) ''r'' @ in_transit (ex_sent ex_chunk) ''r''
    \<and> segments (fs (wire (ex_sent ex_chunk))) (chunk_key ''r'' (adapter_stage (sender (ex_sent ex_chunk))) 0) = Some ex_chunk"
  using chunks_arrive_in_order [OF ex_sent_reachable [OF ex_chunk_facts(1,2)] ex_inj, of "''r''"]
  by (simp add: ex_sent_facts ex_chunk_facts)

definition ex_read :: "(payload, payload shm_link) chunk_link" where
  "ex_read = (let l = ex_sent ex_chunk; s = recv_one (link_get ex_enc not_empty) (receiver l, rx_objects l, wire l)
     in l\<lparr>receiver := fst s, rx_objects := fst (snd s), wire := snd (snd s),
          received := (received l)(''r'' := received l ''r'' @ read_now (link_get ex_enc not_empty) ''r'' l)\<rparr>)"

lemma ex_read_step: "shm_step ex_enc ex_process (ex_sent ex_chunk) ex_read"
  unfolding shm_step_def ex_read_def Let_def
  by (rule link_step.receive [where rest = "[]"]) (simp_all add: ex_sent_facts ex_chunk_facts)

theorem link_refines_queues_witness:
  "in_transit ex_read ''r'' = in_transit (ex_sent ex_chunk) ''r'' \<and> received ex_read ''r'' = received (ex_sent ex_chunk) ''r''
    \<or> (\<exists>p. in_transit ex_read ''r'' = in_transit (ex_sent ex_chunk) ''r'' @ [p] \<and> received ex_read ''r'' = received (ex_sent ex_chunk) ''r'')
    \<or> (\<exists>p. in_transit (ex_sent ex_chunk) ''r'' = p # in_transit ex_read ''r'' \<and> received ex_read ''r'' = received (ex_sent ex_chunk) ''r'' @ [p])"
  by (rule link_refines_queues [OF ex_sent_reachable [OF ex_chunk_facts(1,2)] ex_inj ex_read_step])
    (simp add: ex_read_def Let_def ex_sent_facts ex_chunk_facts)

theorem pass_delivers_witness:
  "\<exists>a' st' w'. recv_pass (link_get ex_enc not_empty)
      (receiver (ex_sent ex_chunk), rx_objects (ex_sent ex_chunk), wire (ex_sent ex_chunk)) = (a', st', w')
    \<and> chunk_no (get_req_chunk a') ''r'' = 1"
proof -
  obtain a' st' w' where r: "recv_pass (link_get ex_enc not_empty)
      (receiver (ex_sent ex_chunk), rx_objects (ex_sent ex_chunk), wire (ex_sent ex_chunk)) = (a', st', w')"
    by (rule prod_cases3)
  from pass_delivers [OF ex_sent_reachable [OF ex_chunk_facts(1,2)] ex_inj _ _ _ r, of "''r''"] r
  show ?thesis by (simp add: ex_sent_facts ex_chunk_facts)
qed

text \<open>The receiver of \<open>ex_sent\<close> with empty scheduler queues.\<close>

definition ex_stall :: "(string list, payload) chunk_view" where
  "ex_stall = \<lparr>chunk_adapter = receiver (ex_sent ex_empty_chunk), chunk_objects = ex_objects,
     chunk_waiting = [], chunk_running = []\<rparr>"

theorem empty_chunk_stalls_witness:
  "\<exists>a' st' w'. recv_one (link_get ex_enc not_empty) (chunk_adapter ex_stall, chunk_objects ex_stall,
        wire (ex_sent ex_empty_chunk)) = (a', st', w')
    \<and> rstatus (st' ''r'') = Waiting_For_Chunk \<and> chunk_no (get_req_chunk a') ''r'' = 1"
proof -
  obtain a' st' w' where r: "recv_one (link_get ex_enc not_empty) (chunk_adapter ex_stall, chunk_objects ex_stall,
        wire (ex_sent ex_empty_chunk)) = (a', st', w')"
    by (rule prod_cases3)
  have ok: "link_ok ex_enc (wire (ex_sent ex_empty_chunk))"
    using shm_reachable_ok [OF ex_sent_reachable [OF ex_chunk_facts(3,4)] ex_inj] by blast
  have np: "next_payload (link_content (wire (ex_sent ex_empty_chunk))) (chunk_adapter ex_stall)
      (chunk_objects ex_stall) ''r'' = Some ex_empty_chunk"
    using chunks_arrive_in_order [OF ex_sent_reachable [OF ex_chunk_facts(3,4)] ex_inj, of "''r''"]
      shm_reachable_ok [OF ex_sent_reachable [OF ex_chunk_facts(3,4)] ex_inj]
    by (simp add: ex_stall_def next_payload_def link_content_def ex_sent_facts ex_chunk_facts transport_ok_def
        load_async_def adapter_init_def)
  have c0: "chunk_no (get_req_chunk (chunk_adapter ex_stall)) ''r'' = 0"
    by (simp add: ex_stall_def ex_sent_def ex_link_defs Let_def)
  have "rstatus (chunk_objects (ex_stall\<lparr>chunk_adapter := a', chunk_objects := st'\<rparr>) ''r'') = Waiting_For_Chunk
    \<and> chunk_no (get_req_chunk (chunk_adapter (ex_stall\<lparr>chunk_adapter := a', chunk_objects := st'\<rparr>))) ''r''
      = chunk_no (get_req_chunk (chunk_adapter ex_stall)) ''r'' + 1"
    by (rule empty_chunk_stalls [OF ok _ _ _ _ _ _ np ex_chunk_facts(3) _ _ r rtranclp.rtrancl_refl])
      (simp_all add: ex_stall_def ex_sent_def ex_link_defs Let_def, simp_all add: 
        ex_empty_chunk_def new_codes_def sub_def meta_finished_def)
  with r c0 show ?thesis by auto
qed

text \<open>Two chunks of two codes, in AR mode.\<close>

definition ex_ar_result :: "(unit adapter \<times> chunk_store) res" where
  "ex_ar_result = accept_all ''r'' ''r'' [ex_chunk, ex_chunk] (adapter_init 1 8 ''ar'', ex_objects)"

theorem ar_chunks_accumulate_witness:
  "\<exists>a st m. ex_ar_result = Inr (a, st) \<and> additional_information (st ''r'') = Some m
    \<and> list_at m ''codes'' ''audio'' = Some [Num 7, Num 7]"
proof -
  have "\<exists>s. ex_ar_result = Inr s"
    by (simp add: ex_ar_result_def accept_ar_def update_request_payload_def adapter_init_def ex_chunk_def
        meta_finished_def sub_def mark_finished_def pop_overrides_def append_value_def Let_def)
  then obtain a st where r: "ex_ar_result = Inr (a, st)" by auto
  have "\<exists>m. additional_information (st ''r'') = Some m
      \<and> list_at m ''codes'' ''audio'' = accumulated ''codes'' ''audio'' None [ex_chunk, ex_chunk]"
    by (rule ar_chunks_accumulate [OF r [unfolded ex_ar_result_def]]) (simp_all add: adapter_init_def)
  moreover have "accumulated ''codes'' ''audio'' None [ex_chunk, ex_chunk] = Some [Num 7, Num 7]"
    by (simp add: ex_chunk_def list_at_def overridden_def pop_overrides_def)
  ultimately show ?thesis using r by auto
qed

end
