(* ===== verification/Buffer_Allocator.thy ===== *)
theory Buffer_Allocator
  imports Prelude "HOL-Library.Product_Lexorder"
begin

text \<open>
  \<open>BufferAllocator\<close> and \<open>ManagedBuffer\<close> of
  \<open>distributed/omni_connectors/connectors/mooncake_transfer_engine_connector.py\<close>: a first-fit
  allocator over a sorted list of free blocks \<open>(start, size)\<close> that merges neighbours when a block is
  freed. Offsets and sizes are natural numbers. The lock makes every operation atomic.
\<close>

section \<open>The allocator\<close>

type_synonym block = "nat \<times> nat"

record pool =
  total_size :: nat
  alignment :: nat
  free_blocks :: "block list"

definition pool_init :: "nat \<Rightarrow> nat \<Rightarrow> pool" where
  "pool_init cap align = \<lparr>total_size = cap, alignment = align, free_blocks = [(0, cap)]\<rparr>"

definition aligned_size :: "nat \<Rightarrow> nat \<Rightarrow> nat" where
  "aligned_size align sz = (sz + align - 1) div align * align"

fun alloc_blocks :: "nat \<Rightarrow> block list \<Rightarrow> (nat \<times> block list) option" where
  "alloc_blocks n [] = None"
| "alloc_blocks n ((start, block_size) # bs) =
     (if block_size \<ge> n
      then Some (start, if block_size - n > 0 then (start + n, block_size - n) # bs else bs)
      else case alloc_blocks n bs of None \<Rightarrow> None
             | Some (o', bs') \<Rightarrow> Some (o', (start, block_size) # bs'))"

definition pool_alloc :: "nat \<Rightarrow> pool \<Rightarrow> pool \<times> nat res" where
  "pool_alloc sz p =
     (if alignment p = 0 then (p, Inl ZeroDivisionError)
      else case alloc_blocks (aligned_size (alignment p) sz) (free_blocks p) of
             None \<Rightarrow> (p, Inl MemoryError)
           | Some (start, bs) \<Rightarrow> (p\<lparr>free_blocks := bs\<rparr>, Inr start))"

text \<open>The loop that looks for double frees and corruption: \<open>Inr True\<close> means the block is free already.\<close>

fun free_check :: "nat \<Rightarrow> nat \<Rightarrow> block list \<Rightarrow> bool res" where
  "free_check off n [] = Inr False"
| "free_check off n ((start, len) # bs) =
     (if off = start \<and> n = len then Inr True
      else if off \<ge> start \<and> off + n \<le> start + len then Inr True
      else if \<not> (off + n \<le> start \<or> start + len \<le> off) then Inl RuntimeError
      else free_check off n bs)"

fun merge_blocks :: "block list \<Rightarrow> block list" where
  "merge_blocks ((s1, n1) # (s2, n2) # bs) =
     (if s1 + n1 = s2 then merge_blocks ((s1, n1 + n2) # bs)
      else (s1, n1) # merge_blocks ((s2, n2) # bs))"
| "merge_blocks bs = bs"

definition pool_free :: "nat \<Rightarrow> nat \<Rightarrow> pool \<Rightarrow> pool \<times> unit res" where
  "pool_free off sz p =
     (if alignment p = 0 then (p, Inl ZeroDivisionError)
      else let n = aligned_size (alignment p) sz in
           case free_check off n (free_blocks p) of
             Inl e \<Rightarrow> (p, Inl e)
           | Inr True \<Rightarrow> (p, Inr ())
           | Inr False \<Rightarrow> (p\<lparr>free_blocks := merge_blocks (sort (free_blocks p @ [(off, n)]))\<rparr>, Inr ()))"

section \<open>Managed buffers\<close>

record managed_buffer =
  offset :: nat
  buf_size :: nat
  released :: bool

definition release :: "managed_buffer \<Rightarrow> pool \<Rightarrow> managed_buffer \<times> pool \<times> unit res" where
  "release b p =
     (if released b then (b, p, Inr ())
      else case pool_free (offset b) (buf_size b) p of
             (p', Inl e) \<Rightarrow> (b, p', Inl e)
           | (p', Inr _) \<Rightarrow> (b\<lparr>released := True\<rparr>, p', Inr ()))"

text \<open>\<open>as_tensor\<close>: the checks before the view is made, for an element size and a shape.\<close>

fun expected_bytes :: "int \<Rightarrow> int list \<Rightarrow> int res" where
  "expected_bytes acc [] = Inr acc"
| "expected_bytes acc (d # ds) = (if d < 0 then Inl ValueError else expected_bytes (acc * d) ds)"

definition as_tensor :: "nat \<Rightarrow> int list \<Rightarrow> managed_buffer \<Rightarrow> block res" where
  "as_tensor itemsize shape b =
     (case expected_bytes (int itemsize) shape of
        Inl e \<Rightarrow> Inl e
      | Inr n \<Rightarrow>
          if n \<noteq> int (buf_size b) then Inl ValueError
          else if offset b mod itemsize \<noteq> 0 then Inl RuntimeError
          else Inr (offset b, buf_size b))"

section \<open>Free lists as sets of bytes\<close>

definition block_bytes :: "block \<Rightarrow> nat set" where
  "block_bytes b = {fst b ..< fst b + snd b}"

definition bytes :: "block list \<Rightarrow> nat set" where
  "bytes bs = (\<Union>b \<in> set bs. block_bytes b)"

text \<open>Blocks are non-empty, in order, and no two of them touch.\<close>

definition separated :: "block list \<Rightarrow> bool" where
  "separated bs \<longleftrightarrow> sorted_wrt (\<lambda>a b. fst a + snd a < fst b) bs \<and> (\<forall>b \<in> set bs. 0 < snd b)"

definition in_order :: "block list \<Rightarrow> bool" where
  "in_order bs \<longleftrightarrow> sorted_wrt (\<lambda>a b. fst a + snd a \<le> fst b) bs \<and> (\<forall>b \<in> set bs. 0 < snd b)"

lemma bytes_simps [simp]: "bytes [] = {}" "bytes (b # bs) = block_bytes b \<union> bytes bs"
  by (simp_all add: bytes_def)

lemma block_bytes_iff [simp]: "x \<in> block_bytes (s, n) \<longleftrightarrow> s \<le> x \<and> x < s + n"
  by (auto simp: block_bytes_def)

lemma separated_simps [simp]:
  "separated []"
  "separated ((s, n) # bs) \<longleftrightarrow> 0 < n \<and> (\<forall>b \<in> set bs. s + n < fst b) \<and> separated bs"
  by (auto simp: separated_def)

lemma in_order_simps [simp]:
  "in_order []"
  "in_order ((s, n) # bs) \<longleftrightarrow> 0 < n \<and> (\<forall>b \<in> set bs. s + n \<le> fst b) \<and> in_order bs"
  by (auto simp: in_order_def)

lemma separated_in_order: "separated bs \<Longrightarrow> in_order bs"
  unfolding separated_def in_order_def
  by (auto intro: sorted_wrt_mono_rel [of bs "\<lambda>a b. fst a + snd a < fst b"])

lemma bytes_above: "\<forall>b \<in> set bs. k < fst b \<Longrightarrow> x \<in> bytes bs \<Longrightarrow> k < x"
  by (fastforce simp: bytes_def block_bytes_def)

lemma bytes_at_least: "\<forall>b \<in> set bs. k \<le> fst b \<Longrightarrow> x \<in> bytes bs \<Longrightarrow> k \<le> x"
  by (fastforce simp: bytes_def block_bytes_def)

text \<open>A separated free list is determined by the bytes that are free.\<close>

lemma separated_unique:
  assumes "separated xs" and "separated ys" and "bytes xs = bytes ys"
  shows "xs = ys"
  using assms
proof (induction xs arbitrary: ys)
  case Nil
  then show ?case by (cases ys) (auto simp: block_bytes_def)
next
  case (Cons x xs)
  obtain s n where x: "x = (s, n)" by (rule prod.exhaust)
  from Cons.prems(1) have n: "0 < n" "\<forall>b \<in> set xs. s + n < fst b" "separated xs" by (simp_all add: x)
  have "ys \<noteq> []" using Cons.prems(3) n(1) by (auto simp: x block_bytes_def)
  then obtain t m zs where ys: "ys = (t, m) # zs" by (metis list.exhaust prod.exhaust)
  from Cons.prems(2) have m: "0 < m" "\<forall>b \<in> set zs. t + m < fst b" "separated zs" by (simp_all add: ys)
  have mem: "k \<in> bytes (x # xs) \<longleftrightarrow> (s \<le> k \<and> k < s + n) \<or> k \<in> bytes xs"
    "k \<in> bytes ys \<longleftrightarrow> (t \<le> k \<and> k < t + m) \<or> k \<in> bytes zs" for k
    by (simp_all add: x ys)
  have above: "k \<in> bytes xs \<Longrightarrow> s + n < k" "k \<in> bytes zs \<Longrightarrow> t + m < k" for k
    using bytes_above [OF n(2)] bytes_above [OF m(2)] by blast+
  have s: "s = t"
  proof -
    have "s \<in> bytes ys" "t \<in> bytes (x # xs)"
      using mem(1) [of s] mem(2) [of t] n(1) m(1) unfolding Cons.prems(3) [symmetric]
      by (simp_all add: Cons.prems(3))
    then have "t \<le> s" "s \<le> t"
      using mem(2) [of s] mem(1) [of t] above(2) [of s] above(1) [of t] by linarith+
    then show ?thesis by simp
  qed
  have nm: "n = m"
  proof (rule linorder_cases [of n m])
    assume "n < m"
    then have "s + n \<in> bytes ys" using mem(2) [of "s + n"] s by simp
    then have "s + n \<in> bytes (x # xs)" using Cons.prems(3) by simp
    then show "n = m" using mem(1) [of "s + n"] above(1) [of "s + n"] by simp
  next
    assume "m < n"
    then have "t + m \<in> bytes (x # xs)" using mem(1) [of "t + m"] s by simp
    then have "t + m \<in> bytes ys" unfolding Cons.prems(3) .
    then show "n = m" using mem(2) [of "t + m"] above(2) [of "t + m"] by simp
  qed
  have "bytes xs = bytes zs"
  proof (rule set_eqI)
    fix k
    show "k \<in> bytes xs \<longleftrightarrow> k \<in> bytes zs"
      using mem [of k] above [of k] Cons.prems(3) s nm by auto
  qed
  with Cons.IH [OF n(3) m(3)] show ?case by (simp add: x ys s nm)
qed

text \<open>A run of free bytes lies in one block.\<close>

lemma run_in_block:
  assumes "separated bs" and "{k ..< k + n} \<subseteq> bytes bs" and "0 < n"
  shows "\<exists>(s, m) \<in> set bs. s \<le> k \<and> k + n \<le> s + m"
  using assms
proof (induction bs)
  case Nil
  then show ?case by simp
next
  case (Cons b bs)
  obtain s m where b: "b = (s, m)" by (rule prod.exhaust)
  from Cons.prems(1) have m: "\<forall>c \<in> set bs. s + m < fst c" "separated bs" by (simp_all add: b)
  have gap: "s + m \<notin> bytes (b # bs)" "j \<in> bytes bs \<Longrightarrow> s + m < j" for j
    using bytes_above [OF m(1)] by (auto simp: b)
  show ?case
  proof (cases "k < s + m")
    case True
    have "\<not> (k \<le> s + m \<and> s + m < k + n)" using Cons.prems(2) gap(1) by auto
    moreover have "s \<le> k"
    proof -
      have "k \<in> {k ..< k + n}" using Cons.prems(3) by simp
      with Cons.prems(2) have "k \<in> bytes (b # bs)" by blast
      with True gap(2) [of k] show ?thesis by (auto simp: b)
    qed
    ultimately show ?thesis using True by (auto simp: b)
  next
    case False
    have "{k ..< k + n} \<subseteq> bytes bs"
    proof
      fix j assume "j \<in> {k ..< k + n}"
      with Cons.prems(2) False show "j \<in> bytes bs" by (auto simp: b)
    qed
    with Cons.IH [OF m(2) _ Cons.prems(3)] show ?thesis by auto
  qed
qed

section \<open>Allocation\<close>

lemma alloc_blocks_ok:
  assumes "separated bs" and "alloc_blocks n bs = Some (start, bs')" and "0 < n"
  shows "separated bs' \<and> bytes bs' = bytes bs - {start ..< start + n} \<and> {start ..< start + n} \<subseteq> bytes bs
    \<and> (\<forall>k. (\<forall>b \<in> set bs. k < fst b) \<longrightarrow> (\<forall>b \<in> set bs'. k < fst b))
    \<and> (\<exists>b \<in> set bs. fst b = start)"
  using assms(1,2)
proof (induction bs arbitrary: bs')
  case Nil
  then show ?case by simp
next
  case (Cons b bs)
  obtain s m where b: "b = (s, m)" by (rule prod.exhaust)
  from Cons.prems(1) have m: "0 < m" "\<forall>c \<in> set bs. s + m < fst c" "separated bs" by (simp_all add: b)
  have above: "j \<in> bytes bs \<Longrightarrow> s + m < j" for j using bytes_above [OF m(2)] .
  show ?case
  proof (cases "n \<le> m")
    case True
    then have st: "start = s" "bs' = (if m - n > 0 then (s + n, m - n) # bs else bs)"
      using Cons.prems(2) by (simp_all add: b)
    have sep: "separated bs'" using True m by (auto simp: st)
    have "bytes bs' = bytes (b # bs) - {start ..< start + n}"
      using True above assms(3) by (fastforce simp: st b split: if_splits)
    moreover have "{start ..< start + n} \<subseteq> bytes (b # bs)" using True by (auto simp: st b)
    moreover have "\<forall>k. (\<forall>c \<in> set (b # bs). k < fst c) \<longrightarrow> (\<forall>c \<in> set bs'. k < fst c)"
      by (auto simp: st b)
    ultimately show ?thesis using sep st(1) by (auto simp: b)
  next
    case False
    then obtain bs1 where r: "alloc_blocks n bs = Some (start, bs1)" "bs' = (s, m) # bs1"
      using Cons.prems(2) by (auto simp: b split: option.splits)
    note IH = Cons.IH [OF m(3) r(1)]
    then have sub: "{start ..< start + n} \<subseteq> bytes bs" by blast
    have "{start ..< start + n} \<inter> block_bytes b = {}"
      using sub above by (fastforce simp: b)
    then have "bytes bs' = bytes (b # bs) - {start ..< start + n}"
      using IH by (auto simp: r(2) b)
    moreover have "\<forall>c \<in> set bs1. s + m < fst c" using IH m(2) by blast
    ultimately show ?thesis using IH m(1) sub by (auto simp: r(2) b)
  qed
qed

lemma alloc_blocks_None: "alloc_blocks n bs = None \<longleftrightarrow> (\<forall>(s, m) \<in> set bs. m < n)"
  by (induction n bs rule: alloc_blocks.induct) (auto split: option.splits)

section \<open>Freeing\<close>

lemma free_check_ok:
  assumes "separated bs" and "0 < n"
  shows "free_check off n bs = Inr True \<longleftrightarrow> {off ..< off + n} \<subseteq> bytes bs"
    and "free_check off n bs = Inr False \<longleftrightarrow> {off ..< off + n} \<inter> bytes bs = {}"
proof -
  have "(free_check off n bs = Inr True \<longleftrightarrow> {off ..< off + n} \<subseteq> bytes bs)
    \<and> (free_check off n bs = Inr False \<longleftrightarrow> {off ..< off + n} \<inter> bytes bs = {})"
    using assms(1)
  proof (induction bs)
    case Nil
    then show ?case using assms(2) by simp
  next
    case (Cons b bs)
    obtain s m where b: "b = (s, m)" by (rule prod.exhaust)
    from Cons.prems have m: "0 < m" "\<forall>c \<in> set bs. s + m < fst c" "separated bs" by (simp_all add: b)
    have above: "j \<in> bytes bs \<Longrightarrow> s + m < j" for j using bytes_above [OF m(2)] .
    consider (inside) "s \<le> off" "off + n \<le> s + m"
      | (apart) "off + n \<le> s \<or> s + m \<le> off" "\<not> (s \<le> off \<and> off + n \<le> s + m)"
      | (overlap) "\<not> (s \<le> off \<and> off + n \<le> s + m)" "\<not> (off + n \<le> s \<or> s + m \<le> off)" by blast
    then show ?case
    proof cases
      case inside
      then have "off \<in> block_bytes b" "{off ..< off + n} \<subseteq> block_bytes b" using assms(2) by (auto simp: b)
      moreover have "off \<in> {off ..< off + n}" using assms(2) by simp
      ultimately have "{off ..< off + n} \<inter> bytes (b # bs) \<noteq> {}" "{off ..< off + n} \<subseteq> bytes (b # bs)"
        unfolding bytes_simps by blast+
      then show ?thesis using inside by (simp add: b del: bytes_simps)
    next
      case apart
      have dj: "{off ..< off + n} \<inter> block_bytes b = {}" using apart(1) by (auto simp: b)
      have "free_check off n (b # bs) = free_check off n bs"
        using apart assms(2) by (auto simp: b)
      moreover have "{off ..< off + n} \<subseteq> bytes (b # bs) \<longleftrightarrow> {off ..< off + n} \<subseteq> bytes bs"
        "{off ..< off + n} \<inter> bytes (b # bs) = {} \<longleftrightarrow> {off ..< off + n} \<inter> bytes bs = {}"
        using dj by auto
      ultimately show ?thesis using Cons.IH [OF m(3)] by simp
    next
      case overlap
      then have "free_check off n (b # bs) = Inl RuntimeError" by (auto simp: b)
      moreover have "\<not> {off ..< off + n} \<subseteq> bytes (b # bs)"
      proof
        assume sub: "{off ..< off + n} \<subseteq> bytes (b # bs)"
        show False
        proof (cases "off < s")
          case True
          have "off \<in> {off ..< off + n}" using assms(2) by simp
          with sub have "off \<in> bytes (b # bs)" by blast
          with True above [of off] m(1) show False by (auto simp: b)
        next
          case False
          then have "s + m \<in> {off ..< off + n}" using overlap by auto
          with sub above [of "s + m"] show False by (auto simp: b)
        qed
      qed
      moreover have "{off ..< off + n} \<inter> bytes (b # bs) \<noteq> {}"
      proof -
        have "max off s \<in> {off ..< off + n}" "max off s \<in> block_bytes b"
          using overlap m(1) assms(2) by (auto simp: b)
        then show ?thesis unfolding bytes_simps by blast
      qed
      ultimately show ?thesis by (simp del: bytes_simps free_check.simps)
    qed
  qed
  then show "free_check off n bs = Inr True \<longleftrightarrow> {off ..< off + n} \<subseteq> bytes bs"
    "free_check off n bs = Inr False \<longleftrightarrow> {off ..< off + n} \<inter> bytes bs = {}" by blast+
qed

lemma separated_sorted: "separated bs \<Longrightarrow> sorted bs"
  by (induction bs) (fastforce simp: less_eq_prod_def)+

lemma sort_snoc: "sorted bs \<Longrightarrow> sort (bs @ [x]) = insort x bs"
  by (rule properties_for_sort) (simp_all add: sorted_insort)

lemma bytes_insort: "bytes (insort x bs) = block_bytes x \<union> bytes bs"
  by (auto simp: bytes_def set_insort_key)

lemma insort_in_order:
  assumes "in_order bs" and "block_bytes (off, n) \<inter> bytes bs = {}" and "0 < n"
  shows "in_order (insort (off, n) bs)"
  using assms(1,2)
proof (induction bs)
  case Nil
  then show ?case using assms(3) by simp
next
  case (Cons b bs)
  obtain s m where b: "b = (s, m)" by (rule prod.exhaust)
  from Cons.prems(1) have m: "0 < m" "\<forall>c \<in> set bs. s + m \<le> fst c" "in_order bs" by (simp_all add: b)
  have dj: "block_bytes (off, n) \<inter> block_bytes (s, m) = {}" "block_bytes (off, n) \<inter> bytes bs = {}"
    using Cons.prems(2) by (auto simp: b)
  have apart: "off + n \<le> s \<or> s + m \<le> off"
  proof (rule ccontr)
    assume "\<not> (off + n \<le> s \<or> s + m \<le> off)"
    then have "max off s \<in> block_bytes (off, n) \<inter> block_bytes (s, m)" using m(1) assms(3) by auto
    with dj(1) show False by simp
  qed
  show ?case
  proof (cases "(off, n) \<le> b")
    case True
    then have "off + n \<le> s" using apart m(1) assms(3) by (auto simp: b less_eq_prod_def)
    then show ?thesis using True m assms(3) by (fastforce simp: b)
  next
    case False
    then have "s + m \<le> off" using apart assms(3) by (auto simp: b less_eq_prod_def)
    then show ?thesis
      using False m Cons.IH [OF m(3) dj(2)] by (auto simp: b set_insort_key)
  qed
qed

lemma merge_blocks_ok:
  assumes "in_order bs"
  shows "separated (merge_blocks bs) \<and> bytes (merge_blocks bs) = bytes bs
    \<and> (\<forall>k. (\<forall>b \<in> set bs. k < fst b) \<longrightarrow> (\<forall>b \<in> set (merge_blocks bs). k < fst b))
    \<and> fst ` set (merge_blocks bs) \<subseteq> fst ` set bs"
  using assms
proof (induction bs rule: merge_blocks.induct)
  case (1 s1 n1 s2 n2 bs)
  show ?case
  proof (cases "s1 + n1 = s2")
    case True
    have o: "in_order ((s1, n1 + n2) # bs)" using "1.prems" True by auto
    have "bytes ((s1, n1 + n2) # bs) = bytes ((s1, n1) # (s2, n2) # bs)" using True by auto
    with "1.IH"(1) [OF True o] True show ?thesis by auto
  next
    case False
    have o: "in_order ((s2, n2) # bs)" using "1.prems" by simp
    have lt: "\<forall>b \<in> set ((s2, n2) # bs). s1 + n1 < fst b" using "1.prems" False by fastforce
    note IH = "1.IH"(2) [OF False o]
    have "\<forall>b \<in> set (merge_blocks ((s2, n2) # bs)). s1 + n1 < fst b" using IH lt by blast
    moreover have "bytes (merge_blocks ((s1, n1) # (s2, n2) # bs)) = bytes ((s1, n1) # (s2, n2) # bs)"
      using IH False by simp
    ultimately show ?thesis using IH False "1.prems" by auto
  qed
qed auto

lemma free_blocks_ok:
  assumes "separated bs" and "{off ..< off + n} \<inter> bytes bs = {}" and "0 < n"
  shows "separated (merge_blocks (sort (bs @ [(off, n)])))
    \<and> bytes (merge_blocks (sort (bs @ [(off, n)]))) = bytes bs \<union> {off ..< off + n}
    \<and> fst ` set (merge_blocks (sort (bs @ [(off, n)]))) \<subseteq> insert off (fst ` set bs)"
proof -
  have s: "sort (bs @ [(off, n)]) = insort (off, n) bs"
    by (rule sort_snoc [OF separated_sorted [OF assms(1)]])
  have "in_order (insort (off, n) bs)"
    using insort_in_order [OF separated_in_order [OF assms(1)] _ assms(3)] assms(2)
    by (simp add: block_bytes_def)
  from merge_blocks_ok [OF this] show ?thesis
    unfolding s by (auto simp: bytes_insort block_bytes_def set_insort_key image_subset_iff)
qed

section \<open>The pool over time\<close>

lemma aligned_size_ok:
  assumes "0 < align"
  shows "align dvd aligned_size align sz" and "sz \<le> aligned_size align sz"
    and "aligned_size align sz < sz + align" and "0 < sz \<Longrightarrow> 0 < aligned_size align sz"
proof -
  have d: "(sz + align - 1) div align * align + (sz + align - 1) mod align = sz + align - 1" by simp
  have m: "(sz + align - 1) mod align < align" using assms by simp
  show "align dvd aligned_size align sz" by (simp add: aligned_size_def)
  show le: "sz \<le> aligned_size align sz" using d m assms unfolding aligned_size_def by linarith
  show "aligned_size align sz < sz + align" using d assms unfolding aligned_size_def by linarith
  show "0 < sz \<Longrightarrow> 0 < aligned_size align sz" using le by simp
qed

text \<open>
  A pool with the blocks that are handed out: \<open>(offset, size)\<close> as requested. Buffers are freed by
  their holders only.
\<close>

definition taken :: "pool \<Rightarrow> block \<Rightarrow> nat set" where
  "taken p b = block_bytes (fst b, aligned_size (alignment p) (snd b))"

inductive pool_step :: "pool \<times> block list \<Rightarrow> pool \<times> block list \<Rightarrow> bool" where
  allocate: "0 < sz \<Longrightarrow> pool_alloc sz p = (p', Inr off) \<Longrightarrow> pool_step (p, live) (p', (off, sz) # live)"
| give_back: "(off, sz) \<in> set live \<Longrightarrow> pool_free off sz p = (p', Inr ()) \<Longrightarrow>
    pool_step (p, live) (p', remove1 (off, sz) live)"

definition pool_ok :: "pool \<Rightarrow> block list \<Rightarrow> bool" where
  "pool_ok p live \<longleftrightarrow> 0 < alignment p \<and> separated (free_blocks p)
   \<and> (\<forall>b \<in> set (free_blocks p). alignment p dvd fst b)
   \<and> distinct live \<and> (\<forall>b \<in> set live. 0 < snd b \<and> alignment p dvd fst b)
   \<and> (\<forall>b \<in> set live. \<forall>c \<in> set live. b \<noteq> c \<longrightarrow> taken p b \<inter> taken p c = {})
   \<and> (\<forall>b \<in> set live. taken p b \<inter> bytes (free_blocks p) = {})
   \<and> bytes (free_blocks p) \<union> (\<Union>b \<in> set live. taken p b) = {0 ..< total_size p}"

lemma pool_init_ok: "0 < cap \<Longrightarrow> 0 < align \<Longrightarrow> pool_ok (pool_init cap align) []"
  by (auto simp: pool_ok_def pool_init_def)

lemma taken_nonempty: "pool_ok p live \<Longrightarrow> 0 < sz \<Longrightarrow> off \<in> taken p (off, sz)"
  using aligned_size_ok(4) by (simp add: taken_def pool_ok_def)

lemma pool_alloc_facts:
  assumes "0 < alignment p" and "separated (free_blocks p)" and "0 < sz" and "pool_alloc sz p = (p', Inr off)"
  shows "total_size p' = total_size p \<and> alignment p' = alignment p \<and> separated (free_blocks p')
    \<and> bytes (free_blocks p') = bytes (free_blocks p) - taken p (off, sz)
    \<and> taken p (off, sz) \<subseteq> bytes (free_blocks p)"
proof -
  let ?n = "aligned_size (alignment p) sz"
  have n: "0 < ?n" using aligned_size_ok(4) [OF assms(1,3)] .
  obtain bs where a: "alloc_blocks ?n (free_blocks p) = Some (off, bs)" and p': "p' = p\<lparr>free_blocks := bs\<rparr>"
    using assms(1,4) by (auto simp: pool_alloc_def split: option.splits)
  from alloc_blocks_ok [OF assms(2) a n] show ?thesis by (simp add: p' taken_def block_bytes_def)
qed

lemma alloc_blocks_aligned:
  assumes "alloc_blocks n bs = Some (start, bs')" and "\<forall>b \<in> set bs. a dvd fst b" and "a dvd n"
  shows "a dvd start \<and> (\<forall>b \<in> set bs'. a dvd fst b)"
  using assms
  by (induction n bs arbitrary: bs' rule: alloc_blocks.induct) (fastforce split: if_splits option.splits)+

lemma pool_free_facts:
  assumes "0 < alignment p" and "separated (free_blocks p)" and "0 < sz"
  shows "taken p (off, sz) \<inter> bytes (free_blocks p) = {} \<Longrightarrow>
      \<exists>p'. pool_free off sz p = (p', Inr ()) \<and> total_size p' = total_size p \<and> alignment p' = alignment p
        \<and> separated (free_blocks p') \<and> bytes (free_blocks p') = bytes (free_blocks p) \<union> taken p (off, sz)
        \<and> fst ` set (free_blocks p') \<subseteq> insert off (fst ` set (free_blocks p))"
    and "taken p (off, sz) \<subseteq> bytes (free_blocks p) \<Longrightarrow> pool_free off sz p = (p, Inr ())"
    and "taken p (off, sz) \<inter> bytes (free_blocks p) \<noteq> {} \<Longrightarrow> \<not> taken p (off, sz) \<subseteq> bytes (free_blocks p) \<Longrightarrow>
      pool_free off sz p = (p, Inl RuntimeError)"
proof -
  let ?n = "aligned_size (alignment p) sz"
  have n: "0 < ?n" using aligned_size_ok(4) [OF assms(1,3)] .
  have t: "taken p (off, sz) = {off ..< off + ?n}" by (simp add: taken_def block_bytes_def)
  note fc = free_check_ok [OF assms(2) n, of off]
  show "taken p (off, sz) \<inter> bytes (free_blocks p) = {} \<Longrightarrow>
      \<exists>p'. pool_free off sz p = (p', Inr ()) \<and> total_size p' = total_size p \<and> alignment p' = alignment p
        \<and> separated (free_blocks p') \<and> bytes (free_blocks p') = bytes (free_blocks p) \<union> taken p (off, sz)
        \<and> fst ` set (free_blocks p') \<subseteq> insert off (fst ` set (free_blocks p))"
    using fc(2) free_blocks_ok [OF assms(2) _ n] assms(1) by (simp add: t pool_free_def Let_def)
  show "taken p (off, sz) \<subseteq> bytes (free_blocks p) \<Longrightarrow> pool_free off sz p = (p, Inr ())"
    using fc(1) assms(1) by (simp add: t pool_free_def Let_def)
  show "taken p (off, sz) \<inter> bytes (free_blocks p) \<noteq> {} \<Longrightarrow> \<not> taken p (off, sz) \<subseteq> bytes (free_blocks p) \<Longrightarrow>
      pool_free off sz p = (p, Inl RuntimeError)"
  proof -
    assume "taken p (off, sz) \<inter> bytes (free_blocks p) \<noteq> {}" "\<not> taken p (off, sz) \<subseteq> bytes (free_blocks p)"
    then have c: "free_check off ?n (free_blocks p) \<noteq> Inr False" "free_check off ?n (free_blocks p) \<noteq> Inr True"
      using fc by (simp_all add: t)
    have "free_check off m bs \<in> {Inl RuntimeError, Inr True, Inr False}" for m bs
      by (induction off m bs rule: free_check.induct) auto
    with c have "free_check off ?n (free_blocks p) = Inl RuntimeError" by blast
    with assms(1) show ?thesis by (simp add: pool_free_def Let_def)
  qed
qed

lemma pool_step_ok:
  assumes "pool_step (p, live) (p', live')" and "pool_ok p live"
  shows "pool_ok p' live' \<and> total_size p' = total_size p \<and> alignment p' = alignment p"
  using assms(1)
proof (cases rule: pool_step.cases)
  case (allocate sz off)
  have pre: "0 < alignment p" "separated (free_blocks p)" using assms(2) by (simp_all add: pool_ok_def)
  note f = pool_alloc_facts [OF pre allocate(2,3)]
  have tk: "taken p' = taken p" using f by (simp add: taken_def fun_eq_iff)
  have al: "alignment p dvd off \<and> (\<forall>b \<in> set (free_blocks p'). alignment p dvd fst b)"
  proof -
    obtain bs where bs: "alloc_blocks (aligned_size (alignment p) sz) (free_blocks p) = Some (off, bs)"
      "p' = p\<lparr>free_blocks := bs\<rparr>"
      using allocate(3) pre(1) by (auto simp: pool_alloc_def split: option.splits)
    have "\<forall>b \<in> set (free_blocks p). alignment p dvd fst b" using assms(2) by (simp add: pool_ok_def)
    from alloc_blocks_aligned [OF bs(1) this aligned_size_ok(1) [OF pre(1)]] show ?thesis by (simp add: bs(2))
  qed
  have new: "taken p (off, sz) \<inter> taken p b = {}" if "b \<in> set live" for b
    using that f assms(2) by (fastforce simp: pool_ok_def)
  have "(off, sz) \<notin> set live"
    using new [of "(off, sz)"] taken_nonempty [OF assms(2) allocate(2), of off] by blast
  moreover have "taken p b \<inter> bytes (free_blocks p') = {}" if "b \<in> set live'" for b
    using that f assms(2) unfolding allocate(1) pool_ok_def by auto
  moreover have "bytes (free_blocks p') \<union> (\<Union>b \<in> set live'. taken p b) = {0 ..< total_size p}"
    using f assms(2) unfolding allocate(1) pool_ok_def by auto
  moreover have "\<forall>b \<in> set live'. \<forall>c \<in> set live'. b \<noteq> c \<longrightarrow> taken p b \<inter> taken p c = {}"
    using new assms(2) unfolding allocate(1) pool_ok_def by (auto simp: Int_commute)
  ultimately show ?thesis
    using f al allocate(1,2) assms(2) unfolding pool_ok_def tk by auto
next
  case (give_back off sz)
  have pre: "0 < alignment p" "separated (free_blocks p)" "0 < sz"
    and dj: "taken p (off, sz) \<inter> bytes (free_blocks p) = {}"
    using assms(2) give_back(2) by (force simp: pool_ok_def)+
  from pool_free_facts(1) [OF pre dj] give_back(3)
  have f: "total_size p' = total_size p" "alignment p' = alignment p" "separated (free_blocks p')"
    "bytes (free_blocks p') = bytes (free_blocks p) \<union> taken p (off, sz)"
    "fst ` set (free_blocks p') \<subseteq> insert off (fst ` set (free_blocks p))" by auto
  have tk: "taken p' = taken p" using f by (simp add: taken_def fun_eq_iff)
  have s: "set live' = set live - {(off, sz)}" "distinct live'"
    using assms(2) by (simp_all add: give_back(1) pool_ok_def)
  have al: "alignment p dvd off" using assms(2) give_back(2) by (force simp: pool_ok_def)
  have starts: "\<forall>b \<in> set (free_blocks p'). alignment p dvd fst b"
    using f(5) al assms(2) by (fastforce simp: pool_ok_def)
  have "taken p b \<inter> bytes (free_blocks p') = {}" if b: "b \<in> set live'" for b
  proof -
    have b': "b \<in> set live" "b \<noteq> (off, sz)" using b by (simp_all add: s)
    then have "taken p b \<inter> taken p (off, sz) = {}" "taken p b \<inter> bytes (free_blocks p) = {}"
      using give_back(2) assms(2) unfolding pool_ok_def by blast+
    then show ?thesis unfolding f(4) by blast
  qed
  moreover have "bytes (free_blocks p') \<union> (\<Union>b \<in> set live'. taken p b) = {0 ..< total_size p}"
  proof -
    have "(\<Union>b \<in> set live. taken p b) = taken p (off, sz) \<union> (\<Union>b \<in> set live'. taken p b)"
      using give_back(2) by (auto simp: s)
    then show ?thesis using assms(2) unfolding f(4) pool_ok_def by auto
  qed
  ultimately show ?thesis
    using f(1-3) s starts assms(2) unfolding pool_ok_def tk by auto
qed

lemma pool_run_ok:
  assumes "pool_step\<^sup>*\<^sup>* (pool_init cap align, []) (p, live)" and "0 < cap" and "0 < align"
  shows "pool_ok p live \<and> total_size p = cap \<and> alignment p = align"
  using assms(1)
proof (induction rule: rtranclp_induct2)
  case refl
  show ?case using pool_init_ok [OF assms(2,3)] by (simp add: pool_init_def)
next
  case (step p1 live1 p2 live2)
  then show ?case using pool_step_ok [OF step.hyps(2)] by simp
qed

section \<open>Properties\<close>

text \<open>C29: Buffers never overlap: whatever is allocated and freed, the buffers handed out are inside
  the pool, start at aligned offsets, are disjoint from each other, and together with the free
  blocks cover the pool exactly.\<close>

theorem buffers_disjoint:
  assumes "pool_step\<^sup>*\<^sup>* (pool_init cap align, []) (p, live)" and "0 < cap" and "0 < align"
  shows "distinct live
    \<and> (\<forall>(off, sz) \<in> set live. align dvd off \<and> off + sz \<le> cap)
    \<and> (\<forall>(o1, s1) \<in> set live. \<forall>(o2, s2) \<in> set live. (o1, s1) \<noteq> (o2, s2) \<longrightarrow> o1 + s1 \<le> o2 \<or> o2 + s2 \<le> o1)
    \<and> bytes (free_blocks p) = {0 ..< cap} - (\<Union>b \<in> set live. taken p b)"
proof -
  have ok: "pool_ok p live" "total_size p = cap" "alignment p = align"
    using pool_run_ok [OF assms] by blast+
  have le: "sz \<le> aligned_size align sz" for sz using aligned_size_ok(2) [OF assms(3)] .
  have t: "taken p (off, sz) = {off ..< off + aligned_size align sz}" for off sz
    by (simp add: taken_def block_bytes_def ok)
  have live: "distinct live" "\<forall>b \<in> set live. 0 < snd b \<and> align dvd fst b"
    "\<forall>b \<in> set live. \<forall>c \<in> set live. b \<noteq> c \<longrightarrow> taken p b \<inter> taken p c = {}"
    "\<forall>b \<in> set live. taken p b \<inter> bytes (free_blocks p) = {}"
    "bytes (free_blocks p) \<union> (\<Union>b \<in> set live. taken p b) = {0 ..< cap}"
    using ok(1) unfolding pool_ok_def ok(2,3) by blast+
  have range: "align dvd off \<and> off + sz \<le> cap" if b: "(off, sz) \<in> set live" for off sz
  proof -
    have sz: "0 < sz" "align dvd off" using live(2) b by auto
    have "off + sz - 1 \<in> taken p (off, sz)" using sz le [of sz] by (auto simp: t)
    then have "off + sz - 1 \<in> {0 ..< cap}" unfolding live(5) [symmetric] using b by blast
    with sz show ?thesis by auto
  qed
  have apart: "o1 + s1 \<le> o2 \<or> o2 + s2 \<le> o1"
    if b: "(o1, s1) \<in> set live" "(o2, s2) \<in> set live" "(o1, s1) \<noteq> (o2, s2)" for o1 s1 o2 s2
  proof (rule ccontr)
    assume n: "\<not> (o1 + s1 \<le> o2 \<or> o2 + s2 \<le> o1)"
    have "0 < s1" "0 < s2" using b live(2) by auto
    with n le [of s1] le [of s2] have "max o1 o2 \<in> taken p (o1, s1) \<inter> taken p (o2, s2)" by (auto simp: t)
    moreover have "taken p (o1, s1) \<inter> taken p (o2, s2) = {}" using live(3) b by blast
    ultimately show False by blast
  qed
  have "bytes (free_blocks p) = {0 ..< cap} - (\<Union>b \<in> set live. taken p b)"
    using live(4,5) by blast
  moreover have "\<forall>x \<in> set live. align dvd fst x \<and> fst x + snd x \<le> cap"
    using range by (metis prod.collapse)
  moreover have "\<forall>x \<in> set live. \<forall>y \<in> set live. x \<noteq> y \<longrightarrow> fst x + snd x \<le> fst y \<or> fst y + snd y \<le> fst x"
  proof (intro ballI impI)
    fix x y assume "x \<in> set live" "y \<in> set live" "x \<noteq> y"
    then show "fst x + snd x \<le> fst y \<or> fst y + snd y \<le> fst x"
      using apart [of "fst x" "snd x" "fst y" "snd y"] by simp
  qed
  ultimately show ?thesis using live(1) by (simp only: case_prod_beta' prod.collapse simp_thms)
qed

text \<open>Merging leaves no hidden fragmentation: an allocation raises MemoryError exactly when the
  free bytes contain no run of the aligned size, and otherwise returns the start of such a run.\<close>

theorem alloc_fails_only_without_a_run:
  assumes "pool_step\<^sup>*\<^sup>* (pool_init cap align, []) (p, live)" and "0 < cap" and "0 < align" and "0 < sz"
  shows "if \<exists>k. {k ..< k + aligned_size align sz} \<subseteq> bytes (free_blocks p)
    then \<exists>off. snd (pool_alloc sz p) = Inr off \<and> {off ..< off + aligned_size align sz} \<subseteq> bytes (free_blocks p)
    else pool_alloc sz p = (p, Inl MemoryError)"
proof -
  have ok: "pool_ok p live" "alignment p = align" using pool_run_ok [OF assms(1-3)] by blast+
  have sep: "separated (free_blocks p)" using ok by (simp add: pool_ok_def)
  let ?n = "aligned_size align sz"
  have n: "0 < ?n" using aligned_size_ok(4) [OF assms(3,4)] .
  show ?thesis
  proof (cases "alloc_blocks ?n (free_blocks p)")
    case None
    have "\<not> (\<exists>k. {k ..< k + ?n} \<subseteq> bytes (free_blocks p))"
    proof
      assume "\<exists>k. {k ..< k + ?n} \<subseteq> bytes (free_blocks p)"
      then obtain k where "{k ..< k + ?n} \<subseteq> bytes (free_blocks p)" by blast
      then obtain s m where b: "(s, m) \<in> set (free_blocks p)" "s \<le> k" "k + ?n \<le> s + m"
        using run_in_block [OF sep _ n] by blast
      have "m < ?n" using None b(1) by (auto simp: alloc_blocks_None)
      with b(2,3) show False by linarith
    qed
    with None assms(3) ok(2) show ?thesis by (simp add: pool_alloc_def)
  next
    case (Some r)
    obtain off bs where r: "r = (off, bs)" by (rule prod.exhaust)
    have "{off ..< off + ?n} \<subseteq> bytes (free_blocks p)"
      using alloc_blocks_ok [OF sep Some [unfolded r] n] by blast
    with Some r assms(3) ok(2) show ?thesis by (auto simp: pool_alloc_def)
  qed
qed

text \<open>C30: Freeing a buffer that was just allocated puts the free list back exactly as it was, and
  freeing it once more changes nothing.\<close>

theorem free_undoes_alloc:
  assumes "pool_step\<^sup>*\<^sup>* (pool_init cap align, []) (p, live)" and "0 < cap" and "0 < align" and "0 < sz"
    and "pool_alloc sz p = (p', Inr off)"
  shows "pool_free off sz p' = (p, Inr ()) \<and> pool_free off sz p = (p, Inr ())"
proof -
  have ok: "pool_ok p live" using pool_run_ok [OF assms(1-3)] by blast
  then have pre: "0 < alignment p" "separated (free_blocks p)" by (simp_all add: pool_ok_def)
  note f = pool_alloc_facts [OF pre assms(4,5)]
  have tk: "taken p' (off, sz) = taken p (off, sz)" using f by (simp add: taken_def)
  have pre': "0 < alignment p'" "separated (free_blocks p')" using f pre by simp_all
  have "taken p' (off, sz) \<inter> bytes (free_blocks p') = {}" using f tk by auto
  from pool_free_facts(1) [OF pre' assms(4) this] obtain p'' where
    p'': "pool_free off sz p' = (p'', Inr ())" "total_size p'' = total_size p'" "alignment p'' = alignment p'"
      "separated (free_blocks p'')" "bytes (free_blocks p'') = bytes (free_blocks p') \<union> taken p' (off, sz)"
    by blast
  have "bytes (free_blocks p'') = bytes (free_blocks p)" using p''(5) f tk by auto
  then have "free_blocks p'' = free_blocks p" using separated_unique [OF p''(4) pre(2)] by simp
  with p'' f have "p'' = p" by simp
  moreover have "pool_free off sz p = (p, Inr ())" using pool_free_facts(2) [OF pre assms(4)] f by simp
  ultimately show ?thesis using p''(1) by simp
qed

text \<open>A pool of 64 bytes aligned to 16, with two buffers of which the first was given back.\<close>

definition ex_pool :: pool where
  "ex_pool = fst (pool_alloc 20 (fst (pool_alloc 10 (pool_init 64 16))))"

lemma ex_pool_eval:
  "pool_alloc 10 (pool_init 64 16) = (\<lparr>total_size = 64, alignment = 16, free_blocks = [(16, 48)]\<rparr>, Inr 0)"
  "pool_alloc 20 \<lparr>total_size = 64, alignment = 16, free_blocks = [(16, 48)]\<rparr>
    = (\<lparr>total_size = 64, alignment = 16, free_blocks = [(48, 16)]\<rparr>, Inr 16)"
  "ex_pool = \<lparr>total_size = 64, alignment = 16, free_blocks = [(48, 16)]\<rparr>"
  by (simp_all add: ex_pool_def pool_alloc_def pool_init_def aligned_size_def)

lemma ex_pool_reachable: "pool_step\<^sup>*\<^sup>* (pool_init 64 16, []) (ex_pool, [(16, 20), (0, 10)])"
proof -
  have "pool_step (pool_init 64 16, []) (fst (pool_alloc 10 (pool_init 64 16)), [(0, 10)])"
    by (rule pool_step.allocate) (simp_all add: ex_pool_eval)
  moreover have "pool_step (fst (pool_alloc 10 (pool_init 64 16)), [(0, 10)]) (ex_pool, [(16, 20), (0, 10)])"
    by (rule pool_step.allocate) (simp_all add: ex_pool_eval)
  ultimately show ?thesis by (meson converse_rtranclp_into_rtranclp rtranclp.rtrancl_refl)
qed

theorem buffers_disjoint_witness:
  "distinct [(16::nat, 20::nat), (0, 10)] \<and> bytes (free_blocks ex_pool) = {0 ..< 64} - (\<Union>b \<in> {(16, 20), (0, 10)}. taken ex_pool b)"
  using buffers_disjoint [OF ex_pool_reachable] by simp

theorem alloc_fails_only_without_a_run_witness:
  "pool_alloc 30 ex_pool = (ex_pool, Inl MemoryError)"
proof -
  have "\<not> (\<exists>k. {k ..< k + aligned_size 16 30} \<subseteq> bytes (free_blocks ex_pool))"
  proof
    assume "\<exists>k. {k ..< k + aligned_size 16 30} \<subseteq> bytes (free_blocks ex_pool)"
    then obtain k :: nat where k: "{k ..< k + 32} \<subseteq> {48 ..< 64}"
      by (auto simp: ex_pool_eval block_bytes_def aligned_size_def)
    have "k \<in> {k ..< k + 32}" "k + 31 \<in> {k ..< k + 32}" by simp_all
    with k have "48 \<le> k" "k + 31 < 64" by auto
    then show False by simp
  qed
  with alloc_fails_only_without_a_run [OF ex_pool_reachable, of 30] show ?thesis by simp
qed

theorem free_undoes_alloc_witness:
  "pool_free 48 7 (fst (pool_alloc 7 ex_pool)) = (ex_pool, Inr ())"
  using free_undoes_alloc [OF ex_pool_reachable, of 7 "fst (pool_alloc 7 ex_pool)" 48]
  by (simp add: ex_pool_eval pool_alloc_def aligned_size_def)

end
