(* ===== verification/KV_Ranks.thy ===== *)
theory KV_Ranks
  imports Prelude
begin

text \<open>
  Rank routing and head slicing of KV caches between stages with different tensor-parallel sizes
  (\<open>distributed/omni_connectors/utils/kv_utils.py\<close>). Sizes and ranks are natural numbers, so the
  checks for negative values disappear. A KV tensor is the number of heads (its second dimension)
  and its rows, each a list of per-head data.
\<close>

section \<open>Topology and routing\<close>

record topology =
  source_tp_size :: nat
  target_tp_size :: nat
  local_rank :: nat

text \<open>\<open>__post_init__\<close>.\<close>

definition make_topology :: "nat \<Rightarrow> nat \<Rightarrow> nat \<Rightarrow> topology res" where
  "make_topology s t r =
     (if s = 0 \<or> t = 0 then Inl ValueError
      else Inr \<lparr>source_tp_size = s, target_tp_size = t, local_rank = r\<rparr>)"

definition is_heterogeneous :: "topology \<Rightarrow> bool" where
  "is_heterogeneous topo \<longleftrightarrow> source_tp_size topo \<noteq> target_tp_size topo"

definition tp_ratio :: "topology \<Rightarrow> nat" where
  "tp_ratio topo = max (source_tp_size topo) (target_tp_size topo) div min (source_tp_size topo) (target_tp_size topo)"

definition kv_zmq_port :: "nat \<Rightarrow> nat \<Rightarrow> nat \<Rightarrow> nat" where
  "kv_zmq_port base_port from_stage rank = base_port + 100 + rank * 16 + from_stage"

definition validate_kv_tp_topology :: "topology \<Rightarrow> unit res" where
  "validate_kv_tp_topology topo =
     (let larger = max (source_tp_size topo) (target_tp_size topo);
          smaller = min (source_tp_size topo) (target_tp_size topo)
      in if larger mod smaller \<noteq> 0 then Inl ValueError else Inr ())"

definition get_kv_target_ranks :: "topology \<Rightarrow> nat list res" where
  "get_kv_target_ranks topo =
     bind_res (validate_kv_tp_topology topo) (\<lambda>_. Inr (
       if source_tp_size topo = target_tp_size topo then [local_rank topo]
       else if source_tp_size topo > target_tp_size topo
       then [local_rank topo div (source_tp_size topo div target_tp_size topo)]
       else let ratio = target_tp_size topo div source_tp_size topo
            in map (\<lambda>i. local_rank topo * ratio + i) [0 ..< ratio]))"

definition get_kv_source_ranks :: "topology \<Rightarrow> nat list res" where
  "get_kv_source_ranks topo =
     bind_res (validate_kv_tp_topology topo) (\<lambda>_. Inr (
       if source_tp_size topo = target_tp_size topo then [local_rank topo]
       else if source_tp_size topo > target_tp_size topo
       then let ratio = source_tp_size topo div target_tp_size topo
            in map (\<lambda>i. local_rank topo * ratio + i) [0 ..< ratio]
       else [local_rank topo div (target_tp_size topo div source_tp_size topo)]))"

section \<open>Keys\<close>

definition get_kv_connector_key :: "string \<Rightarrow> string \<Rightarrow> nat \<Rightarrow> nat \<Rightarrow> nat \<Rightarrow> string" where
  "get_kv_connector_key req from_stage chunk from_rank to_rank =
     req @ ''_'' @ from_stage @ ''_'' @ show_nat chunk @ ''_'' @ show_nat from_rank @ ''_'' @ show_nat to_rank"

definition plain_kv_key :: "string \<Rightarrow> string \<Rightarrow> string \<Rightarrow> string" where
  "plain_kv_key req from_stage to_stage = ''omni_'' @ from_stage @ ''_to_'' @ to_stage @ ''_kv_cache_'' @ req"

text \<open>The hook is given as the list it returns (\<open>[]\<close> without a hook).\<close>

definition build_rank_aware_send_keys ::
  "string \<Rightarrow> string \<Rightarrow> string \<Rightarrow> topology \<Rightarrow> string list \<Rightarrow> string list res" where
  "build_rank_aware_send_keys req from_stage to_stage topo hooked =
     (if hooked \<noteq> [] then Inr hooked
      else if source_tp_size topo \<le> 1 \<and> target_tp_size topo \<le> 1
      then Inr [plain_kv_key req from_stage to_stage]
      else bind_res (get_kv_target_ranks topo) (\<lambda>rs.
             Inr (map (\<lambda>r. get_kv_connector_key req from_stage 0 (local_rank topo) r) rs)))"

datatype hook_result = Keys "string list" | Key_Ranks "(string \<times> nat option) list"

definition build_rank_aware_recv_keys ::
  "string \<Rightarrow> string \<Rightarrow> string \<Rightarrow> topology \<Rightarrow> hook_result \<Rightarrow> (string \<times> nat option) list res" where
  "build_rank_aware_recv_keys req from_stage to_stage topo hooked =
     (case hooked of
        Key_Ranks (x # xs) \<Rightarrow> Inr (x # xs)
      | Keys (k # ks) \<Rightarrow>
          bind_res (get_kv_source_ranks topo) (\<lambda>rs.
            Inr (if length (k # ks) = length rs then zip (k # ks) (map Some rs)
                 else map (\<lambda>k. (k, None)) (k # ks)))
      | _ \<Rightarrow>
          if source_tp_size topo \<le> 1 \<and> target_tp_size topo \<le> 1
          then Inr [(plain_kv_key req from_stage to_stage, None)]
          else bind_res (get_kv_source_ranks topo) (\<lambda>rs.
                 Inr (map (\<lambda>r. (get_kv_connector_key req from_stage 0 r (local_rank topo), Some r)) rs)))"

section \<open>Slicing and merging\<close>

text \<open>An entry of a layer list: \<open>None\<close>, something that is no tensor, a tensor without a head
  dimension, or a tensor.\<close>

datatype 'a kv = Kv_None | Kv_Other | Kv_Flat | Kv nat "'a list list"

definition slice_kv_tensor_heads :: "'a kv \<Rightarrow> nat \<Rightarrow> nat \<Rightarrow> 'a kv res" where
  "slice_kv_tensor_heads t offset_in_shard num_slices =
     (case t of
        Kv_None \<Rightarrow> Inr Kv_None
      | Kv_Other \<Rightarrow> Inr Kv_Other
      | Kv_Flat \<Rightarrow> Inl ValueError
      | Kv heads_in_shard rows \<Rightarrow>
          if num_slices = 0 then Inl ValueError
          else if \<not> offset_in_shard < num_slices then Inl ValueError
          else if heads_in_shard mod num_slices \<noteq> 0 then Inl ValueError
          else
            let heads_per_slice = heads_in_shard div num_slices;
                start = offset_in_shard * heads_per_slice;
                stop = start + heads_per_slice
            in Inr (Kv heads_per_slice (map (py_slice start stop) rows)))"

record 'a layer_blocks =
  key_cache :: "'a kv list"
  value_cache :: "'a kv list"

definition slice_layer_blocks :: "'a layer_blocks \<Rightarrow> nat \<Rightarrow> nat \<Rightarrow> 'a layer_blocks res" where
  "slice_layer_blocks b off n =
     bind_res (traverse (\<lambda>t. slice_kv_tensor_heads t off n) (key_cache b)) (\<lambda>ks.
     bind_res (traverse (\<lambda>t. slice_kv_tensor_heads t off n) (value_cache b)) (\<lambda>vs.
       Inr \<lparr>key_cache = ks, value_cache = vs\<rparr>))"

text \<open>\<open>torch.cat(..., dim=1)\<close>: all tensors need the same number of rows.\<close>

fun cat_heads :: "'a kv list \<Rightarrow> 'a kv res" where
  "cat_heads [Kv h rows] = Inr (Kv h rows)"
| "cat_heads (Kv h rows # ts) =
     bind_res (cat_heads ts) (\<lambda>t. case t of
       Kv h' rows' \<Rightarrow> if length rows = length rows' then Inr (Kv (h + h') (map2 (@) rows rows')) else Inl RuntimeError
     | _ \<Rightarrow> Inl TypeError)"
| "cat_heads (Kv_Flat # ts) = Inl IndexError"
| "cat_heads ts = Inl TypeError"

definition merge_layer :: "nat \<Rightarrow> 'a kv list list \<Rightarrow> 'a kv res" where
  "merge_layer idx cls =
     (let ts = filter (\<lambda>t. t \<noteq> Kv_None) (map (\<lambda>l. l ! idx) (filter (\<lambda>l. idx < length l) cls))
      in case ts of
           [] \<Rightarrow> Inr Kv_None
         | [t] \<Rightarrow> Inr t
         | t # _ \<Rightarrow> if t = Kv_Other then Inr t else cat_heads ts)"

definition merge_cache :: "'a kv list list \<Rightarrow> 'a kv list res" where
  "merge_cache cls = traverse (\<lambda>i. merge_layer i cls) [0 ..< foldr max (map length cls) 0]"

record head_slice =
  applied :: bool
  target_rank :: "nat option"
  from_tp :: nat
  to_tp :: nat
  slice_offset :: nat
  num_slices :: nat

record 'a kv_payload =
  kv_request_id :: "string option"
  kv_blocks :: "'a layer_blocks option"
  block_ids :: "int list"
  tp_head_slice :: "head_slice option"

text \<open>A merged payload has its layers; \<open>merger\<close> is the injected function.\<close>

definition merge_received_rank_shards ::
  "('a kv_payload list \<Rightarrow> 'a kv_payload option res) option \<Rightarrow> 'a kv_payload list \<Rightarrow> 'a kv_payload option res" where
  "merge_received_rank_shards merger payloads =
     (case merger of
        Some f \<Rightarrow> f payloads
      | None \<Rightarrow>
          (case payloads of
             [] \<Rightarrow> Inr None
           | [p] \<Rightarrow> Inr (Some p)
           | p # _ \<Rightarrow>
               if kv_blocks p = None then Inr (Some p)
               else
                 let blocks = map (\<lambda>p. case kv_blocks p of None \<Rightarrow> \<lparr>key_cache = [], value_cache = []\<rparr> | Some b \<Rightarrow> b) payloads
                 in bind_res (merge_cache (map key_cache blocks)) (\<lambda>ks.
                    bind_res (merge_cache (map value_cache blocks)) (\<lambda>vs.
                      Inr (Some (p\<lparr>kv_blocks := Some \<lparr>key_cache = ks, value_cache = vs\<rparr>\<rparr>))))))"

definition slice_received_rank_shard ::
  "('a kv_payload option \<Rightarrow> 'a kv_payload option res) option \<Rightarrow> topology \<Rightarrow> 'a kv_payload option
     \<Rightarrow> 'a kv_payload option res" where
  "slice_received_rank_shard slicer topo payload =
     (case slicer of
        Some f \<Rightarrow> f payload
      | None \<Rightarrow>
          (case payload of
             None \<Rightarrow> Inr None
           | Some p \<Rightarrow>
               if target_tp_size topo \<le> source_tp_size topo then Inr (Some p)
               else case kv_blocks p of
                 None \<Rightarrow> Inr (Some p)
               | Some b \<Rightarrow>
                   if (case tp_head_slice p of Some m \<Rightarrow> applied m | None \<Rightarrow> False) then Inr (Some p)
                   else
                     let ratio = target_tp_size topo div source_tp_size topo;
                         off = local_rank topo mod ratio
                     in bind_res (slice_layer_blocks b off ratio) (\<lambda>b'.
                          Inr (Some (p\<lparr>kv_blocks := Some b',
                            tp_head_slice := Some \<lparr>applied = True, target_rank = Some (local_rank topo),
                              from_tp = source_tp_size topo, to_tp = target_tp_size topo,
                              slice_offset = off, num_slices = ratio\<rparr>\<rparr>)))))"

text \<open>
  \<open>normalize_layer_kv\<close> on shapes: the key and the value block are selected along the first or the
  second axis of a stacked tensor, or are the two tensors of a pair.
\<close>

datatype layer_kv = Stacked "nat list" | Tuple "nat list option list" | Unsupported
datatype kv_view = First_Axis | Second_Axis | Pair_Entries

definition normalize_layer_kv :: "layer_kv \<Rightarrow> (kv_view \<times> nat list \<times> nat list) option" where
  "normalize_layer_kv l =
     (case (case l of
              Stacked shape \<Rightarrow>
                if length shape \<ge> 3 \<and> shape ! 0 = 2 then Some (First_Axis, tl shape, tl shape)
                else if length shape \<ge> 3 \<and> shape ! 1 = 2
                then Some (Second_Axis, hd shape # drop 2 shape, hd shape # drop 2 shape)
                else None
            | Tuple [Some k, Some v] \<Rightarrow> Some (Pair_Entries, k, v)
            | _ \<Rightarrow> None) of
        None \<Rightarrow> None
      | Some (w, k, v) \<Rightarrow> if length k < 2 \<or> length v < 2 then None else Some (w, k, v))"

section \<open>Routing is symmetric\<close>

lemma valid_cases:
  assumes "validate_kv_tp_topology topo = Inr ()" and "0 < source_tp_size topo" and "0 < target_tp_size topo"
  shows "\<exists>k > 0. source_tp_size topo = k * target_tp_size topo \<or> target_tp_size topo = k * source_tp_size topo"
proof -
  let ?s = "source_tp_size topo" and ?t = "target_tp_size topo"
  have "max ?s ?t mod min ?s ?t = 0"
    using assms(1) by (simp add: validate_kv_tp_topology_def Let_def split: if_splits)
  then have "min ?s ?t dvd max ?s ?t" by (simp add: dvd_eq_mod_eq_0)
  then obtain k where k: "max ?s ?t = k * min ?s ?t" by (metis dvdE mult.commute)
  have "0 < k" using k assms(2,3) by (cases "k = 0") auto
  with k show ?thesis by (metis max.commute max_def min.commute min_def)
qed

lemma div_range:
  fixes a b k :: nat
  assumes "0 < k"
  shows "a div k = b \<longleftrightarrow> a \<in> (\<lambda>i. b * k + i) ` {0 ..< k}"
proof
  assume b: "a div k = b"
  have "a = b * k + a mod k" unfolding b [symmetric] by simp
  moreover have "a mod k < k" using assms by simp
  ultimately show "a \<in> (\<lambda>i. b * k + i) ` {0 ..< k}" by (metis atLeastLessThan_iff image_eqI le0)
next
  assume "a \<in> (\<lambda>i. b * k + i) ` {0 ..< k}"
  then obtain i where i: "a = b * k + i" "i \<in> {0 ..< k}" by blast
  then have "i < k" by simp
  then show "a div k = b" using assms unfolding i(1) by simp
qed

text \<open>The heads of rank \<open>a\<close> out of \<open>s\<close> and of rank \<open>b\<close> out of \<open>t\<close> have a part in common: the intervals
  from \<open>a / s\<close> to \<open>(a + 1) / s\<close> and from \<open>b / t\<close> to \<open>(b + 1) / t\<close> overlap.\<close>

definition heads_overlap :: "nat \<Rightarrow> nat \<Rightarrow> nat \<Rightarrow> nat \<Rightarrow> bool" where
  "heads_overlap s a t b \<longleftrightarrow> a * t < (b + 1) * s \<and> b * s < (a + 1) * t"

lemma overlap_more:
  assumes "0 < k" and "0 < t"
  shows "heads_overlap (k * t) a t b \<longleftrightarrow> a div k = b" and "heads_overlap t b (k * t) a \<longleftrightarrow> a div k = b"
proof -
  have "heads_overlap (k * t) a t b \<longleftrightarrow> a * t < (b + 1) * k * t \<and> b * k * t < (a + 1) * t"
    by (simp only: heads_overlap_def mult.assoc)
  also have "\<dots> \<longleftrightarrow> a < (b + 1) * k \<and> b * k < a + 1" using assms(2) by (simp only: mult_less_cancel2 simp_thms)
  also have "\<dots> \<longleftrightarrow> a div k = b"
    using div_range [OF assms(1), of a b] by (auto simp: image_iff less_Suc_eq_le intro!: bexI [of _ "a - b * k"])
  finally show "heads_overlap (k * t) a t b \<longleftrightarrow> a div k = b" .
  then show "heads_overlap t b (k * t) a \<longleftrightarrow> a div k = b" by (auto simp: heads_overlap_def)
qed

lemma overlap_less: "0 < (t :: nat) \<Longrightarrow> heads_overlap t a t b \<longleftrightarrow> a = b"
  using overlap_more(1) [of 1 t a b] by simp

lemma routed_ranks:
  assumes "0 < s" and "0 < t" and v: "validate_kv_tp_topology \<lparr>source_tp_size = s, target_tp_size = t, local_rank = a\<rparr> = Inr ()"
  shows "a < s \<Longrightarrow> \<exists>ts. get_kv_target_ranks \<lparr>source_tp_size = s, target_tp_size = t, local_rank = a\<rparr> = Inr ts
      \<and> ts \<noteq> [] \<and> distinct ts \<and> set ts = {r. r < t \<and> heads_overlap s a t r}"
    and "a < t \<Longrightarrow> \<exists>ss. get_kv_source_ranks \<lparr>source_tp_size = s, target_tp_size = t, local_rank = a\<rparr> = Inr ss
      \<and> ss \<noteq> [] \<and> distinct ss \<and> set ss = {r. r < s \<and> heads_overlap s r t a}"
proof -
  obtain k where k: "0 < k" "s = k * t \<or> t = k * s" using valid_cases [OF v] assms(1,2) by auto
  have lower: "y div k < n" if "y < k * n" for y n :: nat
    using that by (simp add: less_mult_imp_div_less mult.commute)
  have block: "(\<lambda>i. b * k + i) ` {0 ..< k} = {r. r < k * n \<and> r div k = b}" if "b < n" for b n
  proof -
    have "r < k * n" if "r div k = b" for r
      using \<open>b < n\<close> that div_less_iff_less_mult [OF k(1), of r n] by (simp add: mult.commute)
    then show ?thesis using div_range [OF k(1), of _ b] by blast
  qed
  consider (eq) "s = t" | (more) "s > t" "s = k * t" | (less) "s < t" "t = k * s"
    using k assms(1,2) by (metis dvd_imp_le dvd_triv_right linorder_less_linear not_le)
  note cs = this
  show "\<exists>ts. get_kv_target_ranks \<lparr>source_tp_size = s, target_tp_size = t, local_rank = a\<rparr> = Inr ts
      \<and> ts \<noteq> [] \<and> distinct ts \<and> set ts = {r. r < t \<and> heads_overlap s a t r}" if a: "a < s"
    using cs
  proof cases
    case eq
    with v a assms(2) show ?thesis by (auto simp: get_kv_target_ranks_def overlap_less)
  next
    case more
    with v a assms(2) k(1) lower show ?thesis by (auto simp: get_kv_target_ranks_def overlap_more)
  next
    case less
    then have r: "t div s = k" using assms(1) by simp
    from less(1) v have e: "get_kv_target_ranks \<lparr>source_tp_size = s, target_tp_size = t, local_rank = a\<rparr> = Inr (map (\<lambda>i. a * k + i) [0 ..< k])"
      by (simp add: get_kv_target_ranks_def Let_def r)
    have "set (map (\<lambda>i. a * k + i) [0 ..< k]) = {r. r < t \<and> heads_overlap s a t r}"
      using block [OF a] assms(1) k(1) by (simp add: less(2) overlap_more)
    with e k(1) show ?thesis by (simp add: distinct_map inj_on_def)
  qed
  show "\<exists>ss. get_kv_source_ranks \<lparr>source_tp_size = s, target_tp_size = t, local_rank = a\<rparr> = Inr ss
      \<and> ss \<noteq> [] \<and> distinct ss \<and> set ss = {r. r < s \<and> heads_overlap s r t a}" if a: "a < t"
    using cs
  proof cases
    case eq
    with v a assms(2) show ?thesis by (auto simp: get_kv_source_ranks_def overlap_less)
  next
    case less
    with v a assms(1) k(1) lower show ?thesis by (auto simp: get_kv_source_ranks_def overlap_more)
  next
    case more
    then have r: "s div t = k" using assms(2) by simp
    from more(1) v have e: "get_kv_source_ranks \<lparr>source_tp_size = s, target_tp_size = t, local_rank = a\<rparr> = Inr (map (\<lambda>i. a * k + i) [0 ..< k])"
      by (simp add: get_kv_source_ranks_def Let_def r)
    have "set (map (\<lambda>i. a * k + i) [0 ..< k]) = {r. r < s \<and> heads_overlap s r t a}"
      using block [OF a] assms(2) k(1) by (simp add: more(2) overlap_more)
    with e k(1) show ?thesis by (simp add: distinct_map inj_on_def)
  qed
qed

text \<open>C31: In a valid topology every sending and every receiving rank has a partner, and the two sides
  agree: the targets of a sender are exactly the receivers whose heads overlap with its own, the sources of
  a receiver exactly the senders whose heads overlap with its own, so one names the other if and only if the
  other names it. Each side builds one key per partner, the same for both; two single ranks use the plain key.\<close>

theorem kv_routing_agrees:
  assumes "0 < s" and "0 < t" and v: "validate_kv_tp_topology \<lparr>source_tp_size = s, target_tp_size = t, local_rank = a\<rparr> = Inr ()"
    and "a < s" and "b < t"
  shows "\<exists>ts ss. get_kv_target_ranks \<lparr>source_tp_size = s, target_tp_size = t, local_rank = a\<rparr> = Inr ts
    \<and> get_kv_source_ranks \<lparr>source_tp_size = s, target_tp_size = t, local_rank = b\<rparr> = Inr ss
    \<and> ts \<noteq> [] \<and> ss \<noteq> [] \<and> distinct ts \<and> distinct ss
    \<and> set ts = {r. r < t \<and> heads_overlap s a t r} \<and> set ss = {r. r < s \<and> heads_overlap s r t b}
    \<and> (b \<in> set ts \<longleftrightarrow> a \<in> set ss)
    \<and> build_rank_aware_send_keys q f g \<lparr>source_tp_size = s, target_tp_size = t, local_rank = a\<rparr> []
        = Inr (if s = 1 \<and> t = 1 then [plain_kv_key q f g] else map (get_kv_connector_key q f 0 a) ts)
    \<and> build_rank_aware_recv_keys q f g \<lparr>source_tp_size = s, target_tp_size = t, local_rank = b\<rparr> (Keys [])
        = Inr (if s = 1 \<and> t = 1 then [(plain_kv_key q f g, None)] else map (\<lambda>r. (get_kv_connector_key q f 0 r b, Some r)) ss)"
proof -
  from v have vb: "validate_kv_tp_topology \<lparr>source_tp_size = s, target_tp_size = t, local_rank = b\<rparr> = Inr ()"
    by (simp add: validate_kv_tp_topology_def)
  obtain ts where ts: "get_kv_target_ranks \<lparr>source_tp_size = s, target_tp_size = t, local_rank = a\<rparr> = Inr ts"
    "ts \<noteq> []" "distinct ts" "set ts = {r. r < t \<and> heads_overlap s a t r}" using routed_ranks(1) [OF assms(1,2) v assms(4)] by blast
  obtain ss where ss: "get_kv_source_ranks \<lparr>source_tp_size = s, target_tp_size = t, local_rank = b\<rparr> = Inr ss"
    "ss \<noteq> []" "distinct ss" "set ss = {r. r < s \<and> heads_overlap s r t b}" using routed_ranks(2) [OF assms(1,2) vb assms(5)] by blast
  have single: "s \<le> 1 \<and> t \<le> 1 \<longleftrightarrow> s = 1 \<and> t = 1" using assms(1,2) by auto
  have "b \<in> set ts \<longleftrightarrow> a \<in> set ss" using ts(4) ss(4) assms(4,5) by simp
  then show ?thesis
    using ts ss single by (simp add: build_rank_aware_send_keys_def build_rank_aware_recv_keys_def)
qed

theorem kv_routing_agrees_witness:
  "\<exists>ts ss. get_kv_target_ranks \<lparr>source_tp_size = 4, target_tp_size = 2, local_rank = 3\<rparr> = Inr ts
    \<and> get_kv_source_ranks \<lparr>source_tp_size = 4, target_tp_size = 2, local_rank = 1\<rparr> = Inr ss
    \<and> set ts = {r. r < 2 \<and> heads_overlap 4 3 2 r} \<and> set ss = {r. r < 4 \<and> heads_overlap 4 r 2 1} \<and> ts \<noteq> [] \<and> ss \<noteq> []"
proof -
  have v: "validate_kv_tp_topology \<lparr>source_tp_size = 4, target_tp_size = 2, local_rank = 3\<rparr> = Inr ()" by code_simp
  from kv_routing_agrees [of 4 2 3 1 "''r''" "''0''" "''1''", OF _ _ v] show ?thesis by auto
qed

section \<open>Resharding\<close>

lemma py_slice_append: "a \<le> b \<Longrightarrow> b \<le> c \<Longrightarrow> py_slice a b xs @ py_slice b c xs = py_slice a c xs"
  using take_add [of "b - a" "c - b" "drop a xs"] by (simp add: py_slice_def)

lemma py_slice_py_slice: "c + b \<le> d \<Longrightarrow> py_slice a b (py_slice c d xs) = py_slice (c + a) (c + b) xs"
  by (simp add: py_slice_def drop_take add.commute min_def)

text \<open>The part of a tensor that rank \<open>a\<close> of \<open>n\<close> holds.\<close>

fun cut :: "nat \<Rightarrow> nat \<Rightarrow> 'a kv \<Rightarrow> 'a kv" where
  "cut n a (Kv h rows) = Kv (h div n) (map (py_slice (a * (h div n)) (a * (h div n) + h div n)) rows)"
| "cut n a t = t"

definition divided :: "nat \<Rightarrow> 'a kv \<Rightarrow> bool" where
  "divided n t \<longleftrightarrow> (\<exists>h rows. t = Kv h rows \<and> n dvd h)"

lemma slice_eq_cut: "divided n t \<Longrightarrow> a < n \<Longrightarrow> slice_kv_tensor_heads t a n = Inr (cut n a t)"
  by (auto simp: divided_def slice_kv_tensor_heads_def Let_def)

lemma cut_cut:
  assumes "divided (k * s) t" and "0 < k" and "0 < s"
  shows "cut k (r mod k) (cut s (r div k) t) = cut (k * s) r t" and "divided k (cut s a t)"
proof -
  obtain h rows where t: "t = Kv h rows" "k * s dvd h" using assms(1) by (auto simp: divided_def)
  then obtain m where h: "h = k * s * m" by (auto elim: dvdE)
  have d: "h div s = k * m" "h div (k * s) = m" "k * m div k = m" using assms(2,3) by (simp_all add: h)
  have pos: "r div k * (k * m) + (r mod k * m) = r * m"
    by (metis add_mult_distrib div_mult_mod_eq mult.assoc)
  have le: "r mod k * m + m \<le> k * m"
  proof -
    have "Suc (r mod k) * m \<le> k * m" using assms(2) by (intro mult_le_mono1) (simp add: Suc_leI)
    then show ?thesis by (simp add: add.commute)
  qed
  have "py_slice (r mod k * m) (r mod k * m + m) (py_slice (r div k * (k * m)) (r div k * (k * m) + k * m) row)
      = py_slice (r * m) (r * m + m) row" for row :: "'a list"
    using py_slice_py_slice [of "r div k * (k * m)" "r mod k * m + m" "r div k * (k * m) + k * m" "r mod k * m" row]
      le pos by (simp add: add.assoc [symmetric])
  then show "cut k (r mod k) (cut s (r div k) t) = cut (k * s) r t" by (simp add: t(1) d)
  show "divided k (cut s a t)" by (simp add: t(1) d divided_def)
qed

lemma map2_map: "map2 (@) (map f xs) (map g xs) = map (\<lambda>x. f x @ g x) xs"
  by (induction xs) simp_all

lemma cat_run:
  "cat_heads (map (\<lambda>i. Kv h (map (py_slice (i * h) (i * h + h)) rows)) [c ..< c + Suc m])
     = Inr (Kv (Suc m * h) (map (py_slice (c * h) (c * h + Suc m * h)) rows))"
proof (induction m arbitrary: c)
  case 0
  then show ?case by simp
next
  case (Suc m)
  define f where "f = (\<lambda>i. Kv h (map (py_slice (i * h) (i * h + h)) rows))"
  have l: "map f [c ..< c + Suc (Suc m)] = f c # map f [Suc c ..< Suc c + Suc m]"
    by (subst upt_conv_Cons) simp_all
  have ne: "map f [Suc c ..< Suc c + Suc m] \<noteq> []" by simp
  then obtain y ys where y: "map f [Suc c ..< Suc c + Suc m] = y # ys" by (meson list.exhaust)
  have ap: "py_slice (c * h) (c * h + h) row @ py_slice (Suc c * h) (Suc c * h + Suc m * h) row
      = py_slice (c * h) (c * h + Suc (Suc m) * h) row" for row
    using py_slice_append [of "c * h" "c * h + h" "c * h + h + Suc m * h" row] by (simp add: add_ac)
  have "cat_heads (f c # y # ys) = bind_res (cat_heads (y # ys)) (\<lambda>t. case t of
       Kv h' rows' \<Rightarrow> if length (map (py_slice (c * h) (c * h + h)) rows) = length rows'
         then Inr (Kv (h + h') (map2 (@) (map (py_slice (c * h) (c * h + h)) rows) rows')) else Inl RuntimeError
     | _ \<Rightarrow> Inl TypeError)"
    unfolding f_def by (simp only: cat_heads.simps)
  then show ?case
    unfolding f_def [symmetric] l y using Suc.IH [of "Suc c", folded f_def, unfolded y]
    by (simp add: map2_map ap del: mult_Suc) simp
qed

lemma cat_cuts:
  assumes "divided (k * t) x" and "0 < k" and "0 < t"
  shows "cat_heads (map (\<lambda>i. cut (k * t) i x) [r * k ..< r * k + k]) = Inr (cut t r x)"
proof -
  obtain h rows where x: "x = Kv h rows" "k * t dvd h" using assms(1) by (auto simp: divided_def)
  then obtain m where h: "h = k * t * m" by (auto elim: dvdE)
  have d: "h div (k * t) = m" "h div t = k * m" using assms(2,3) by (simp_all add: h)
  obtain j where j: "k = Suc j" using assms(2) by (cases k) simp_all
  have "map (\<lambda>i. cut (k * t) i x) [r * k ..< r * k + k]
      = map (\<lambda>i. Kv m (map (py_slice (i * m) (i * m + m)) rows)) [r * k ..< r * k + Suc j]"
    unfolding x(1) cut.simps d(1) by (simp only: j)
  then have "cat_heads (map (\<lambda>i. cut (k * t) i x) [r * k ..< r * k + k])
      = Inr (Kv (Suc j * m) (map (py_slice (r * k * m) (r * k * m + Suc j * m)) rows))"
    using cat_run [of m rows "r * k" j] by simp
  also have "Kv (Suc j * m) (map (py_slice (r * k * m) (r * k * m + Suc j * m)) rows) = cut t r x"
    unfolding x(1) cut.simps d(2) j [symmetric] by (simp add: mult.assoc)
  finally show ?thesis .
qed

definition cut_blocks :: "nat \<Rightarrow> nat \<Rightarrow> 'a layer_blocks \<Rightarrow> 'a layer_blocks" where
  "cut_blocks n a b = \<lparr>key_cache = map (cut n a) (key_cache b), value_cache = map (cut n a) (value_cache b)\<rparr>"

definition all_divided :: "nat \<Rightarrow> 'a layer_blocks \<Rightarrow> bool" where
  "all_divided n b \<longleftrightarrow> (\<forall>x \<in> set (key_cache b) \<union> set (value_cache b). divided n x)"

lemma slice_blocks_eq: "all_divided n b \<Longrightarrow> a < n \<Longrightarrow> slice_layer_blocks b a n = Inr (cut_blocks n a b)"
  using traverse_map [of "key_cache b" "\<lambda>t. slice_kv_tensor_heads t a n" "cut n a"]
    traverse_map [of "value_cache b" "\<lambda>t. slice_kv_tensor_heads t a n" "cut n a"]
  by (simp add: slice_layer_blocks_def cut_blocks_def all_divided_def slice_eq_cut)

lemma merge_cache_cuts:
  assumes "\<forall>x \<in> set xs. divided (k * t) x" and "1 < k" and "0 < t"
  shows "merge_cache (map (\<lambda>a. map (cut (k * t) a) xs) [r * k ..< r * k + k]) = Inr (map (cut t r) xs)"
proof -
  let ?as = "[r * k ..< r * k + k]"
  let ?cls = "map (\<lambda>a. map (cut (k * t) a) xs) ?as"
  have "foldr max (map length ?cls) 0 = (if ?as = [] then 0 else length xs)"
  proof -
    have "foldr max (map (\<lambda>a. length xs) as) 0 = (if as = [] then 0 else length xs)" for as :: "nat list"
      by (induction as) auto
    then show ?thesis by (simp add: comp_def)
  qed
  then have len: "foldr max (map length ?cls) 0 = length xs" using assms(2) by simp
  have layer: "merge_layer i ?cls = Inr (cut t r (xs ! i))" if i: "i < length xs" for i
  proof -
    have d: "divided (k * t) (xs ! i)" using assms(1) i by simp
    then obtain h rows where x: "xs ! i = Kv h rows" by (auto simp: divided_def)
    have f: "filter (\<lambda>l. i < length l) ?cls = ?cls" using i by (simp add: filter_id_conv)
    have m: "map (\<lambda>l. l ! i) ?cls = map (\<lambda>a. cut (k * t) a (xs ! i)) ?as" using i by (simp add: comp_def)
    have g: "filter (\<lambda>t. t \<noteq> Kv_None) (map (\<lambda>a. cut (k * t) a (xs ! i)) ?as) = map (\<lambda>a. cut (k * t) a (xs ! i)) ?as"
      by (simp add: filter_id_conv x)
    obtain j where j: "k = Suc (Suc j)" using assms(2) by (metis Suc_lessE One_nat_def less_imp_Suc_add plus_1_eq_Suc)
    have as: "?as = r * k # Suc (r * k) # [Suc (Suc (r * k)) ..< r * k + k]"
      by (simp add: upt_conv_Cons j)
    have c: "cat_heads (map (\<lambda>a. cut (k * t) a (xs ! i)) ?as) = Inr (cut t r (xs ! i))"
      by (rule cat_cuts [OF d]) (use assms(2,3) in simp_all)
    have "cut (k * t) (r * k) (xs ! i) \<noteq> Kv_Other" by (simp add: x)
    then show ?thesis
      unfolding merge_layer_def f m g Let_def using c unfolding as by simp
  qed
  have "map (\<lambda>i. cut t r (xs ! i)) [0 ..< length xs] = map (cut t r) xs"
    by (rule nth_equalityI) simp_all
  moreover have "traverse (\<lambda>i. merge_layer i ?cls) [0 ..< length xs] = Inr (map (\<lambda>i. cut t r (xs ! i)) [0 ..< length xs])"
    by (rule traverse_map) (use layer in simp)
  ultimately show ?thesis unfolding merge_cache_def len by simp
qed

text \<open>C32: A KV cache that is cut by heads over the sending group arrives resharded over the receiving
  group: whatever rank receives, merging the payloads of its source ranks and slicing the result
  gives exactly the heads that rank would get from the whole cache.\<close>

theorem resharding_exact:
  fixes b :: "'a layer_blocks"
  assumes "0 < s" and "0 < t" and "validate_kv_tp_topology \<lparr>source_tp_size = s, target_tp_size = t, local_rank = r\<rparr> = Inr ()"
    and "r < t" and "all_divided s b" and "all_divided t b"
    and "get_kv_source_ranks \<lparr>source_tp_size = s, target_tp_size = t, local_rank = r\<rparr> = Inr ss"
    and "\<forall>a < s. \<exists>ba. slice_layer_blocks b a s = Inr ba \<and> kv_blocks (payload a) = Some ba \<and> tp_head_slice (payload a) = None"
  shows "\<exists>m m' b'. merge_received_rank_shards None (map payload ss) = Inr (Some m)
    \<and> slice_received_rank_shard None \<lparr>source_tp_size = s, target_tp_size = t, local_rank = r\<rparr> (Some m) = Inr (Some m')
    \<and> slice_layer_blocks b r t = Inr b' \<and> kv_blocks m' = Some b'"
proof -
  obtain k where k: "0 < k" "s = k * t \<or> t = k * s" using valid_cases [OF assms(3)] assms(1,2) by auto
  have pb: "kv_blocks (payload a) = Some (cut_blocks s a b)" "tp_head_slice (payload a) = None" if "a < s" for a
    using assms(8) that slice_blocks_eq [OF assms(5) that] by force+
  have want: "slice_layer_blocks b r t = Inr (cut_blocks t r b)" by (rule slice_blocks_eq [OF assms(6,4)])
  have ss: "ss = (if s = t then [r] else if s > t then map (\<lambda>i. r * (s div t) + i) [0 ..< s div t] else [r div (t div s)])"
    using assms(3,7) by (simp add: get_kv_source_ranks_def Let_def split: if_splits)
  consider (eq) "s = t" | (more) "s > t" "s = k * t" | (less) "s < t" "t = k * s"
    using k assms(1,2) by (metis dvd_imp_le dvd_triv_right linorder_less_linear not_le)
  then show ?thesis
  proof cases
    case eq
    then show ?thesis
      using pb [of r] assms(4) want
      by (auto simp: ss merge_received_rank_shards_def slice_received_rank_shard_def)
  next
    case more
    have k1: "1 < k" using more assms(2) by (cases "k = 1") (use k(1) in auto)
    have r: "s div t = k" using more assms(2) by simp
    have ids: "ss = [r * k ..< r * k + k]"
      using more assms(1) map_add_upt [of "r * k" k] by (simp add: ss r add.commute [of _ "r * k"])
    have lt: "a < s" if "a \<in> set ss" for a
    proof -
      have "Suc r * k \<le> t * k" using assms(4) by (intro mult_le_mono1) simp
      with that show ?thesis by (simp add: ids more(2) mult.commute)
    qed
    obtain a1 a2 rest where two: "ss = a1 # a2 # rest"
    proof -
      have "length ss = k" by (simp add: ids)
      with k1 that show thesis by (cases ss; cases "tl ss") simp_all
    qed
    define bs where "bs = map (\<lambda>p. case kv_blocks p of None \<Rightarrow> \<lparr>key_cache = [], value_cache = []\<rparr> | Some b \<Rightarrow> b) (map payload ss)"
    have bs: "bs = map (\<lambda>a. cut_blocks s a b) ss" using lt pb(1) by (simp add: bs_def)
    have keys: "merge_cache (map key_cache bs) = Inr (map (cut t r) (key_cache b))"
      and vals: "merge_cache (map value_cache bs) = Inr (map (cut t r) (value_cache b))"
      using merge_cache_cuts [of "key_cache b" k t r] merge_cache_cuts [of "value_cache b" k t r] assms(2,5) k1
      by (simp_all add: bs ids comp_def cut_blocks_def all_divided_def more(2))
    have m: "merge_received_rank_shards None (map payload ss)
      = Inr (Some ((payload a1)\<lparr>kv_blocks := Some (cut_blocks t r b)\<rparr>))"
      using keys vals pb(1) [OF lt, of a1]
      by (simp add: merge_received_rank_shards_def bs_def two cut_blocks_def Let_def)
    show ?thesis
      unfolding m using more want by (auto simp: slice_received_rank_shard_def)
  next
    case less
    have r: "t div s = k" using less assms(1) by simp
    have lt: "r div k < s" using assms(4) less by (simp add: less_mult_imp_div_less mult.commute)
    have dv: "\<forall>x \<in> set (key_cache b) \<union> set (value_cache b). divided (k * s) x"
      using assms(6) by (simp add: all_divided_def less(2))
    have d: "all_divided k (cut_blocks s (r div k) b)"
      using dv cut_cut(2) [OF _ k(1) assms(1)] by (auto simp: all_divided_def cut_blocks_def)
    have cc: "cut_blocks k (r mod k) (cut_blocks s (r div k) b) = cut_blocks t r b"
      using dv cut_cut(1) [OF _ k(1) assms(1)] by (auto simp: cut_blocks_def less(2))
    have sl: "slice_layer_blocks (cut_blocks s (r div k) b) (r mod k) k = Inr (cut_blocks t r b)"
      using slice_blocks_eq [OF d, of "r mod k"] k(1) cc by simp
    show ?thesis
      using less pb [OF lt] want sl
      by (auto simp: ss r merge_received_rank_shards_def slice_received_rank_shard_def Let_def)
  qed
qed

text \<open>One layer with four heads, sent by two ranks to four.\<close>

definition ex_kv :: "nat layer_blocks" where
  "ex_kv = \<lparr>key_cache = [Kv 4 [[1, 2, 3, 4]]], value_cache = []\<rparr>"

definition ex_payload :: "nat \<Rightarrow> nat kv_payload" where
  "ex_payload a = \<lparr>kv_request_id = None, kv_blocks = Some (cut_blocks 2 a ex_kv), block_ids = [],
     tp_head_slice = None\<rparr>"

theorem resharding_exact_witness:
  "\<exists>m m'. merge_received_rank_shards None [ex_payload 1] = Inr (Some m)
    \<and> slice_received_rank_shard None \<lparr>source_tp_size = 2, target_tp_size = 4, local_rank = 3\<rparr> (Some m) = Inr (Some m')
    \<and> kv_blocks m' = Some \<lparr>key_cache = [Kv 1 [[4]]], value_cache = []\<rparr>"
proof -
  have src: "get_kv_source_ranks \<lparr>source_tp_size = 2, target_tp_size = 4, local_rank = 3\<rparr> = Inr [1]" by code_simp
  have v: "validate_kv_tp_topology \<lparr>source_tp_size = 2, target_tp_size = 4, local_rank = 3\<rparr> = Inr ()" by code_simp
  have d: "all_divided 2 ex_kv" "all_divided 4 ex_kv"
    by (simp_all add: all_divided_def divided_def ex_kv_def)
  have "\<forall>a < 2. \<exists>ba. slice_layer_blocks ex_kv a 2 = Inr ba \<and> kv_blocks (ex_payload a) = Some ba \<and> tp_head_slice (ex_payload a) = None"
    using slice_blocks_eq [OF d(1)] by (simp add: ex_payload_def)
  from resharding_exact [OF _ _ v _ d src this] slice_blocks_eq [OF d(2), of 3]
  show ?thesis by (simp add: cut_blocks_def ex_kv_def py_slice_def)
qed

end
