(* ===== verification/Omni_Coordinator.thy ===== *)
theory Omni_Coordinator
  imports Prelude
begin

text \<open>
  The registry of stage instances (\<open>distributed/omni_coordinator\<close>): \<open>OmniCoordinator\<close> handles
  events and heartbeats and publishes the active instances, \<open>OmniCoordClientForHub\<close> caches what was
  published, and the load balancers pick one of the instances. JSON text is left out: a message is the
  dictionary it decodes to. Of the sockets only what they deliver and lose is kept. The clock is an argument, times are rationals.
\<close>

section \<open>Messages\<close>

datatype stage_status = UP | DOWN | ERROR

record instance_event =
  ev_input_addr :: string
  ev_output_addr :: string
  ev_stage_id :: int
  ev_event_type :: string
  ev_status :: stage_status
  ev_queue_length :: "int option"

record instance_info =
  input_addr :: string
  output_addr :: string
  info_stage :: int
  istatus :: stage_status
  queue_length :: "int option"
  last_heartbeat :: rat
  registered_at :: rat

datatype json = JNull | JInt int | JStr string

text \<open>
  Python's \<open>str(x)\<close> of a number and \<open>int(s)\<close> of a string are \<open>str_of\<close> and \<open>int_of\<close> (\<open>None\<close> when it
  raises). A queue length that is no integer is not modelled.
\<close>

definition py_str :: "(int \<Rightarrow> string) \<Rightarrow> json \<Rightarrow> string" where
  "py_str str_of j = (case j of JStr s \<Rightarrow> s | JInt n \<Rightarrow> str_of n | JNull \<Rightarrow> ''None'')"

definition py_int :: "(string \<Rightarrow> int option) \<Rightarrow> json \<Rightarrow> int option" where
  "py_int int_of j = (case j of JInt n \<Rightarrow> Some n | JStr s \<Rightarrow> int_of s | JNull \<Rightarrow> None)"

definition parse_status :: "json option \<Rightarrow> stage_status option" where
  "parse_status j = (case j of Some (JStr s) \<Rightarrow>
      if s = ''up'' then Some UP else if s = ''down'' then Some DOWN
      else if s = ''error'' then Some ERROR else None
    | _ \<Rightarrow> None)"

definition status_value :: "stage_status \<Rightarrow> string" where
  "status_value s = (case s of UP \<Rightarrow> ''up'' | DOWN \<Rightarrow> ''down'' | ERROR \<Rightarrow> ''error'')"

definition parse_instance_event ::
  "(int \<Rightarrow> string) \<Rightarrow> (string \<Rightarrow> int option) \<Rightarrow> (string \<rightharpoonup> json) \<Rightarrow> instance_event option" where
  "parse_instance_event str_of int_of data =
     (case (data ''input_addr'', data ''output_addr'', data ''stage_id'', data ''event_type'') of
        (Some a, Some b, Some c, Some d) \<Rightarrow>
          (case (py_int int_of c, parse_status (data ''status'')) of
             (Some sid, Some st) \<Rightarrow>
               Some \<lparr>ev_input_addr = py_str str_of a, ev_output_addr = py_str str_of b, ev_stage_id = sid,
                 ev_event_type = py_str str_of d, ev_status = st,
                 ev_queue_length = (case data ''queue_length'' of Some (JInt n) \<Rightarrow> Some n | _ \<Rightarrow> None)\<rparr>
           | _ \<Rightarrow> None)
      | _ \<Rightarrow> None)"

section \<open>The coordinator\<close>

record coord =
  heartbeat_timeout :: rat
  instances :: "(string \<times> instance_info) list"
  pending_broadcast :: bool

definition coord_init :: "rat \<Rightarrow> coord" where
  "coord_init timeout = \<lparr>heartbeat_timeout = timeout, instances = [], pending_broadcast = False\<rparr>"

definition active :: "(string \<times> instance_info) list \<Rightarrow> instance_info list" where
  "active is = filter (\<lambda>i. istatus i = UP) (map snd is)"

definition get_active_instances :: "coord \<Rightarrow> instance_info list" where
  "get_active_instances c = active (instances c)"

definition schedule_broadcast :: "coord \<Rightarrow> coord" where
  "schedule_broadcast c = c\<lparr>pending_broadcast := True\<rparr>"

definition add_new_instance :: "rat \<Rightarrow> instance_event \<Rightarrow> coord \<Rightarrow> coord \<times> unit res" where
  "add_new_instance now ev c =
     (if ev_input_addr ev = [] then (c, Inl KeyError)
      else if ev_stage_id ev < 0 then (c, Inl KeyError)
      else (c\<lparr>instances := dict_set (ev_input_addr ev)
              \<lparr>input_addr = ev_input_addr ev, output_addr = ev_output_addr ev, info_stage = ev_stage_id ev,
               istatus = ev_status ev, queue_length = ev_queue_length ev, last_heartbeat = now,
               registered_at = now\<rparr> (instances c)\<rparr>, Inr ()))"

definition modify_instance :: "string \<Rightarrow> (instance_info \<Rightarrow> instance_info) \<Rightarrow> coord \<Rightarrow> coord" where
  "modify_instance a f c = c\<lparr>instances := map (\<lambda>(k, i). (k, if k = a then f i else i)) (instances c)\<rparr>"

definition update_instance_info :: "instance_event \<Rightarrow> coord \<Rightarrow> coord" where
  "update_instance_info ev c = modify_instance (ev_input_addr ev)
     (\<lambda>i. i\<lparr>istatus := ev_status ev,
           queue_length := (case ev_queue_length ev of None \<Rightarrow> queue_length i | Some q \<Rightarrow> Some q)\<rparr>) c"

definition remove_instance :: "instance_event \<Rightarrow> coord \<Rightarrow> coord" where
  "remove_instance ev c = modify_instance (ev_input_addr ev) (\<lambda>i. i\<lparr>istatus := DOWN\<rparr>) c"

definition handle_event :: "rat \<Rightarrow> instance_event \<Rightarrow> coord \<Rightarrow> coord" where
  "handle_event now ev c =
     (if ev_event_type ev = ''heartbeat'' then
        (case map_of (instances c) (ev_input_addr ev) of
           None \<Rightarrow> c
         | Some i \<Rightarrow>
             let c1 = modify_instance (ev_input_addr ev)
                        (\<lambda>i. i\<lparr>last_heartbeat := now, istatus := (if istatus i = ERROR then UP else istatus i)\<rparr>) c
             in if istatus i = ERROR then schedule_broadcast c1 else c1)
      else if map_of (instances c) (ev_input_addr ev) = None then
        (case add_new_instance now ev c of (c1, Inl _) \<Rightarrow> c1 | (c1, Inr _) \<Rightarrow> schedule_broadcast c1)
      else schedule_broadcast
             (if ev_status ev = DOWN then remove_instance ev c else update_instance_info ev c))"

text \<open>
  A message as it comes off the socket. The loop skips text that is no JSON and dictionaries that are no
  event, but bytes that are no UTF-8 raise an error it does not catch: the thread ends
  (the flag is then \<open>False\<close>).
\<close>

datatype wire = NotUtf8 | NotJson | NotDict | Dict "string \<rightharpoonup> json"

definition recv_message ::
  "(int \<Rightarrow> string) \<Rightarrow> (string \<Rightarrow> int option) \<Rightarrow> rat \<Rightarrow> wire \<Rightarrow> coord \<Rightarrow> coord \<times> bool" where
  "recv_message str_of int_of now msg c =
     (case msg of
        NotUtf8 \<Rightarrow> (c, False)
      | NotJson \<Rightarrow> (c, True)
      | NotDict \<Rightarrow> (c, True)
      | Dict data \<Rightarrow> (case parse_instance_event str_of int_of data of
          None \<Rightarrow> (c, True)
        | Some ev \<Rightarrow> (handle_event now ev c, True)))"

fun recv_loop ::
  "(int \<Rightarrow> string) \<Rightarrow> (string \<Rightarrow> int option) \<Rightarrow> (rat \<times> wire) list \<Rightarrow> coord \<Rightarrow> coord" where
  "recv_loop str_of int_of [] c = c"
| "recv_loop str_of int_of ((now, msg) # ms) c =
     (case recv_message str_of int_of now msg c of
        (c1, True) \<Rightarrow> recv_loop str_of int_of ms c1
      | (c1, False) \<Rightarrow> c1)"

lemma invalid_utf8_ends_loop: "recv_loop str_of int_of ((now, NotUtf8) # ms) c = c"
  by (simp add: recv_message_def)

text \<open>Timeouts: \<open>expired\<close> entries become ERROR, stale ones that are DOWN or ERROR are deleted.\<close>

definition expired :: "rat \<Rightarrow> rat \<Rightarrow> instance_info \<Rightarrow> bool" where
  "expired timeout now i \<longleftrightarrow> istatus i = UP \<and> now - last_heartbeat i > timeout"

definition stale :: "rat \<Rightarrow> instance_info \<Rightarrow> bool" where
  "stale now i \<longleftrightarrow> istatus i \<in> {DOWN, ERROR} \<and> now - last_heartbeat i > 600"

definition check_heartbeat_timeouts :: "rat \<Rightarrow> coord \<Rightarrow> coord" where
  "check_heartbeat_timeouts now c =
     (let timed_out = (\<exists>(k, i) \<in> set (instances c). expired (heartbeat_timeout c) now i);
          c1 = c\<lparr>instances :=
            map (\<lambda>(k, i). (k, if expired (heartbeat_timeout c) now i then i\<lparr>istatus := ERROR\<rparr> else i))
              (filter (\<lambda>(k, i). \<not> stale now i) (instances c))\<rparr>
      in if timed_out then schedule_broadcast c1 else c1)"

section \<open>Publishing\<close>

text \<open>
  The periodic loop publishes outside the registry's lock: it takes the list, hands it to the PUB socket
  and clears the pending flag afterwards if the socket took it. Events are handled by another thread in
  between. \<open>in_flight\<close> is the list taken. The hub has a SUB socket and a thread of its own:
  \<open>subscribed\<close> says whether its subscription has reached the publisher, \<open>on_wire\<close> are the
  lists sent to it that it has not read, \<open>hub\<close> is the last one it has stored.
\<close>

record coord_system =
  registry :: coord
  in_flight :: "instance_info list option"
  subscribed :: bool
  on_wire :: "instance_info list list"
  hub :: "instance_info list option"

definition system_init :: "rat \<Rightarrow> coord_system" where
  "system_init timeout = \<lparr>registry = coord_init timeout, in_flight = None, subscribed = False, on_wire = [], hub = None\<rparr>"

definition publish_take :: "coord_system \<Rightarrow> coord_system" where
  "publish_take s = (if pending_broadcast (registry s)
     then s\<lparr>in_flight := Some (get_active_instances (registry s))\<rparr> else s)"

text \<open>
  \<open>accepted\<close>: the send raises nothing; only then the flag is cleared. A PUB socket is best-effort:
  what it accepts goes to the subscribers it knows, and a subscriber that is too slow loses it
  (\<open>delivered\<close> is then \<open>False\<close>), which the publisher does not notice.
\<close>

definition publish_send :: "bool \<Rightarrow> bool \<Rightarrow> coord_system \<Rightarrow> coord_system" where
  "publish_send accepted delivered s = (case in_flight s of
      None \<Rightarrow> s
    | Some l \<Rightarrow>
        if accepted
        then s\<lparr>in_flight := None, registry := (registry s)\<lparr>pending_broadcast := False\<rparr>,
               on_wire := (if subscribed s \<and> delivered then on_wire s @ [l] else on_wire s)\<rparr>
        else s\<lparr>in_flight := None\<rparr>)"

text \<open>The hub reads every queue length as an integer; a list it cannot decode is skipped as a whole.\<close>

definition decode_instance_list :: "instance_info list \<Rightarrow> instance_info list option" where
  "decode_instance_list l = (if \<forall>i \<in> set l. queue_length i \<noteq> None then Some l else None)"

definition hub_receive :: "instance_info list \<Rightarrow> instance_info list option \<Rightarrow> instance_info list option" where
  "hub_receive l cached = (case decode_instance_list l of None \<Rightarrow> cached | Some l1 \<Rightarrow> Some l1)"

text \<open>One turn of the hub's loop: reading a message, or closing its socket after an error; connecting anew.\<close>

definition hub_poll :: "coord_system \<Rightarrow> coord_system" where
  "hub_poll s = (case on_wire s of [] \<Rightarrow> s | l # ls \<Rightarrow> s\<lparr>on_wire := ls, hub := hub_receive l (hub s)\<rparr>)"

definition hub_disconnect :: "coord_system \<Rightarrow> coord_system" where
  "hub_disconnect s = s\<lparr>subscribed := False, on_wire := []\<rparr>"

definition hub_connect :: "coord_system \<Rightarrow> coord_system" where
  "hub_connect s = s\<lparr>subscribed := True\<rparr>"

inductive coord_step :: "coord_system \<Rightarrow> coord_system \<Rightarrow> bool" where
  event: "coord_step s (s\<lparr>registry := handle_event now ev (registry s)\<rparr>)"
| check: "in_flight s = None \<Longrightarrow> coord_step s (s\<lparr>registry := check_heartbeat_timeouts now (registry s)\<rparr>)"
| take_list: "in_flight s = None \<Longrightarrow> coord_step s (publish_take s)"
| send_list: "coord_step s (publish_send accepted delivered s)"
| poll: "coord_step s (hub_poll s)"
| connect: "coord_step s (hub_connect s)"
| disconnect: "coord_step s (hub_disconnect s)"

section \<open>The hub client\<close>

definition get_instance_list :: "coord_system \<Rightarrow> instance_info list" where
  "get_instance_list s = (case hub s of None \<Rightarrow> [] | Some l \<Rightarrow> l)"

definition get_instances_for_stage :: "int \<Rightarrow> coord_system \<Rightarrow> instance_info list" where
  "get_instances_for_stage sid s = filter (\<lambda>i. info_stage i = sid) (get_instance_list s)"

section \<open>Load balancers\<close>

text \<open>\<open>random.randrange(n)\<close> is \<open>r mod n\<close> for an arbitrary \<open>r\<close>.\<close>

definition select_random :: "unit \<Rightarrow> nat \<Rightarrow> instance_info list \<Rightarrow> unit \<times> nat res" where
  "select_random st r is = (st, if is = [] then Inl ValueError else Inr (r mod length is))"

definition select_round_robin :: "nat \<Rightarrow> nat \<Rightarrow> instance_info list \<Rightarrow> nat \<times> nat res" where
  "select_round_robin next_index r is =
     (if is = [] then (next_index, Inl ValueError)
      else ((next_index + 1) mod length is, Inr (next_index mod length is)))"

text \<open>The check for negative lengths stops at the first bad one; comparing \<open>None\<close> raises.\<close>

fun checked_lengths :: "instance_info list \<Rightarrow> int list res" where
  "checked_lengths [] = Inr []"
| "checked_lengths (i # is) =
     (case queue_length i of
        None \<Rightarrow> Inl TypeError
      | Some q \<Rightarrow> if q < 0 then Inl ValueError
                  else bind_res (checked_lengths is) (\<lambda>qs. Inr (q # qs)))"

definition select_least_queue :: "unit \<Rightarrow> nat \<Rightarrow> instance_info list \<Rightarrow> unit \<times> nat res" where
  "select_least_queue st r is =
     (st, if is = [] then Inl ValueError
      else bind_res (checked_lengths is) (\<lambda>qs.
             let candidates = filter (\<lambda>i. qs ! i = Min (set qs)) [0 ..< length qs]
             in Inr (candidates ! (r mod length candidates))))"

lemma checked_lengths_ok:
  "checked_lengths is = Inr qs \<Longrightarrow> map queue_length is = map Some qs \<and> (\<forall>q \<in> set qs. 0 \<le> q)"
  by (induction "is" arbitrary: qs) (auto simp: bind_res_Inr split: option.splits if_splits)

locale balancer =
  fixes select :: "'st \<Rightarrow> nat \<Rightarrow> instance_info list \<Rightarrow> 'st \<times> nat res"
  assumes empty: "select st r [] = (st, Inl ValueError)"
    and in_range: "select st r is = (st', Inr n) \<Longrightarrow> n < length is"
begin

lemma selected_instance: "select st r is = (st', Inr n) \<Longrightarrow> is ! n \<in> set is"
  by (rule nth_mem, erule in_range)

end

lemma candidates_nonempty:
  assumes "qs \<noteq> []"
  shows "filter (\<lambda>i. qs ! i = Min (set qs)) [0 ..< length qs] \<noteq> []"
proof -
  have "Min (set qs) \<in> set qs" using assms by (intro Min_in) simp_all
  then obtain i where "i < length qs" "qs ! i = Min (set qs)" by (auto simp: in_set_conv_nth)
  then show ?thesis by (auto simp: filter_empty_conv)
qed

lemma select_least_queue_ok:
  assumes "select_least_queue st r is = (st', Inr n)"
  shows "n < length is \<and> (\<exists>qs. map queue_length is = map Some qs \<and> qs ! n = Min (set qs) \<and> (\<forall>q \<in> set qs. 0 \<le> q))"
proof -
  have ne: "is \<noteq> []" using assms by (auto simp: select_least_queue_def)
  obtain qs where qs: "checked_lengths is = Inr qs"
    and n: "n = (let candidates = filter (\<lambda>i. qs ! i = Min (set qs)) [0 ..< length qs]
                 in candidates ! (r mod length candidates))"
    using assms ne by (auto simp: select_least_queue_def bind_res_Inr Let_def)
  note q = checked_lengths_ok [OF qs]
  then have len: "length qs = length is" by (metis length_map)
  let ?c = "filter (\<lambda>i. qs ! i = Min (set qs)) [0 ..< length qs]"
  have "?c \<noteq> []" by (rule candidates_nonempty) (use len ne in auto)
  then have "n \<in> set ?c" unfolding n Let_def by (intro nth_mem) simp
  with q len show ?thesis by auto
qed

interpretation random_balancer: balancer select_random
  by unfold_locales (auto simp: select_random_def split: if_splits)

interpretation round_robin: balancer select_round_robin
  by unfold_locales (auto simp: select_round_robin_def split: if_splits)

interpretation least_queue: balancer select_least_queue
  by unfold_locales (simp add: select_least_queue_def, use select_least_queue_ok in blast)

section \<open>Properties\<close>

text \<open>The registry has one entry per address.\<close>

definition keyed :: "coord \<Rightarrow> bool" where
  "keyed c \<longleftrightarrow> distinct (map fst (instances c)) \<and> (\<forall>(k, i) \<in> set (instances c). input_addr i = k)"

lemma fst_modify [simp]: "map fst (instances (modify_instance a f c)) = map fst (instances c)"
  by (simp add: modify_instance_def case_prod_beta comp_def)

lemma modify_keyed: "keyed c \<Longrightarrow> (\<And>i. input_addr (f i) = input_addr i) \<Longrightarrow> keyed (modify_instance a f c)"
  unfolding keyed_def by (auto simp: modify_instance_def case_prod_beta comp_def)

lemma handle_event_cases:
  obtains (same) "handle_event now ev c = c"
  | (beat) i where "ev_event_type ev = ''heartbeat''" "map_of (instances c) (ev_input_addr ev) = Some i"
      "instances (handle_event now ev c) = instances (modify_instance (ev_input_addr ev)
         (\<lambda>i. i\<lparr>last_heartbeat := now, istatus := (if istatus i = ERROR then UP else istatus i)\<rparr>) c)"
      "pending_broadcast (handle_event now ev c) \<longleftrightarrow> istatus i = ERROR \<or> pending_broadcast c"
  | (new) i where "map_of (instances c) (ev_input_addr ev) = None" "input_addr i = ev_input_addr ev"
      "instances (handle_event now ev c) = instances c @ [(ev_input_addr ev, i)]"
      "pending_broadcast (handle_event now ev c)"
  | (known) f where "\<And>i. input_addr (f i) = input_addr i" "pending_broadcast (handle_event now ev c)"
      "instances (handle_event now ev c) = instances (modify_instance (ev_input_addr ev) f c)"
proof (cases "ev_event_type ev = ''heartbeat''")
  case True
  show thesis
  proof (cases "map_of (instances c) (ev_input_addr ev)")
    case None
    with True show thesis by (intro same) (simp add: handle_event_def)
  next
    case (Some i)
    with True show thesis
      by (intro beat [OF True Some]) (simp_all add: handle_event_def schedule_broadcast_def modify_instance_def Let_def)
  qed
next
  case False
  show thesis
  proof (cases "map_of (instances c) (ev_input_addr ev)")
    case None
    then have out: "ev_input_addr ev \<notin> fst ` set (instances c)" by (simp add: map_of_eq_None_iff)
    show thesis
    proof (cases "ev_input_addr ev = [] \<or> ev_stage_id ev < 0")
      case True
      with False None show thesis by (intro same) (auto simp: handle_event_def add_new_instance_def)
    next
      case ok: False
      show thesis
        by (rule new [OF None, of "\<lparr>input_addr = ev_input_addr ev, output_addr = ev_output_addr ev,
              info_stage = ev_stage_id ev, istatus = ev_status ev, queue_length = ev_queue_length ev,
              last_heartbeat = now, registered_at = now\<rparr>"])
          (use False None ok in \<open>simp_all add: handle_event_def add_new_instance_def schedule_broadcast_def
             dict_set_new [OF out]\<close>)
    qed
  next
    case (Some i)
    show thesis
    proof (cases "ev_status ev = DOWN")
      case True
      with False Some show thesis
        by (intro known [of "\<lambda>i. i\<lparr>istatus := DOWN\<rparr>"])
          (simp_all add: handle_event_def schedule_broadcast_def remove_instance_def)
    next
      case st: False
      with False Some show thesis
        by (intro known [of "\<lambda>i. i\<lparr>istatus := ev_status ev,
              queue_length := (case ev_queue_length ev of None \<Rightarrow> queue_length i | Some q \<Rightarrow> Some q)\<rparr>"])
          (simp_all add: handle_event_def schedule_broadcast_def update_instance_info_def)
    qed
  qed
qed

lemma handle_event_keyed: "keyed c \<Longrightarrow> keyed (handle_event now ev c)"
proof -
  assume k: "keyed c"
  have m: "keyed (modify_instance a f c)" if "\<And>i. input_addr (f i) = input_addr i" for a f
    using modify_keyed [OF k that] .
  have cong: "keyed c1 = keyed c2" if "instances c1 = instances c2" for c1 c2
    using that by (simp add: keyed_def)
  show ?thesis
  proof (cases rule: handle_event_cases [of now ev c])
    case same
    with k show ?thesis by simp
  next
    case (beat i)
    show ?thesis unfolding cong [OF beat(3)] by (rule m) simp
  next
    case (new i)
    then have "ev_input_addr ev \<notin> fst ` set (instances c)" by (simp add: map_of_eq_None_iff)
    with new k show ?thesis by (auto simp: keyed_def)
  next
    case (known f)
    show ?thesis unfolding cong [OF known(3)] by (rule m [OF known(1)])
  qed
qed

lemma check_instances:
  "instances (check_heartbeat_timeouts now c) =
     map (\<lambda>(k, i). (k, if expired (heartbeat_timeout c) now i then i\<lparr>istatus := ERROR\<rparr> else i))
       (filter (\<lambda>(k, i). \<not> stale now i) (instances c))"
  by (simp add: check_heartbeat_timeouts_def schedule_broadcast_def Let_def)

lemma check_keyed:
  assumes "keyed c"
  shows "keyed (check_heartbeat_timeouts now c)"
proof -
  have "map fst (instances (check_heartbeat_timeouts now c)) = map fst (filter (\<lambda>(k, i). \<not> stale now i) (instances c))"
    by (simp add: check_instances case_prod_beta comp_def)
  moreover have "distinct (map fst (filter (\<lambda>(k, i). \<not> stale now i) (instances c)))"
    using assms by (simp add: keyed_def distinct_map_filter)
  ultimately have "distinct (map fst (instances (check_heartbeat_timeouts now c)))" by simp
  moreover have "\<forall>(k, i) \<in> set (instances (check_heartbeat_timeouts now c)). input_addr i = k"
    using assms by (auto simp: keyed_def check_instances)
  ultimately show ?thesis by (simp add: keyed_def)
qed

lemma active_mono: "i \<in> set (active is) \<longleftrightarrow> (\<exists>k. (k, i) \<in> set is) \<and> istatus i = UP"
  by (force simp: active_def)

lemma check_active:
  "get_active_instances (check_heartbeat_timeouts now c)
      = filter (\<lambda>i. now - last_heartbeat i \<le> heartbeat_timeout c) (get_active_instances c)"
proof -
  have "active (map (\<lambda>(k, i). (k, if expired t now i then i\<lparr>istatus := ERROR\<rparr> else i))
        (filter (\<lambda>(k, i). \<not> stale now i) is)) = filter (\<lambda>i. now - last_heartbeat i \<le> t) (active is)" for t "is"
  proof (induction "is")
    case Nil
    then show ?case by (simp add: active_def)
  next
    case (Cons x "is")
    obtain k i where "x = (k, i)" by (rule prod.exhaust)
    with Cons show ?case
      by (cases "istatus i") (simp_all add: active_def expired_def stale_def not_less)
  qed
  then show ?thesis by (simp add: get_active_instances_def check_instances)
qed

lemma check_pending:
  "pending_broadcast (check_heartbeat_timeouts now c) \<longleftrightarrow> pending_broadcast c
     \<or> get_active_instances (check_heartbeat_timeouts now c) \<noteq> get_active_instances c"
proof -
  have "filter P xs = xs \<longleftrightarrow> (\<forall>x \<in> set xs. P x)" for P and xs :: "instance_info list"
    by (rule filter_id_conv)
  then have "get_active_instances (check_heartbeat_timeouts now c) \<noteq> get_active_instances c
      \<longleftrightarrow> (\<exists>i \<in> set (get_active_instances c). \<not> now - last_heartbeat i \<le> heartbeat_timeout c)"
    unfolding check_active by simp
  also have "\<dots> \<longleftrightarrow> (\<exists>(k, i) \<in> set (instances c). expired (heartbeat_timeout c) now i)"
  proof -
    have "(\<exists>i \<in> set (active xs). Q i) \<longleftrightarrow> (\<exists>(k, i) \<in> set xs. istatus i = UP \<and> Q i)" for xs Q
      by (induction xs) (auto simp: active_def)
    then show ?thesis by (simp add: get_active_instances_def expired_def not_le)
  qed
  finally show ?thesis by (auto simp: check_heartbeat_timeouts_def schedule_broadcast_def Let_def)
qed

text \<open>A timeout check leaves exactly the instances active that were active and have been heard of
  within the timeout, and requests a broadcast when it took one out; a heartbeat brings a timed-out
  instance back, but never one that was shut down.\<close>

theorem liveness_is_tracked:
  "get_active_instances (check_heartbeat_timeouts now c)
      = filter (\<lambda>i. now - last_heartbeat i \<le> heartbeat_timeout c) (get_active_instances c)
    \<and> pending_broadcast (check_heartbeat_timeouts now c)
        = (if get_active_instances (check_heartbeat_timeouts now c) = get_active_instances c
           then pending_broadcast c else True)
    \<and> map_of (instances (handle_event now \<lparr>ev_input_addr = a, ev_output_addr = x, ev_stage_id = sid,
             ev_event_type = ''heartbeat'', ev_status = st, ev_queue_length = q\<rparr> c)) a
        = map_option (\<lambda>i. i\<lparr>last_heartbeat := now, istatus := (if istatus i = DOWN then DOWN else UP)\<rparr>)
            (map_of (instances c) a)"
proof -
  have look: "map_of (map (\<lambda>(k, i). (k, if k = a then f i else i)) is) a = map_option f (map_of is a)" for f "is"
    by (induction "is") auto
  have "map_of (instances (handle_event now \<lparr>ev_input_addr = a, ev_output_addr = x, ev_stage_id = sid,
             ev_event_type = ''heartbeat'', ev_status = st, ev_queue_length = q\<rparr> c)) a
        = map_option (\<lambda>i. i\<lparr>last_heartbeat := now, istatus := (if istatus i = DOWN then DOWN else UP)\<rparr>)
            (map_of (instances c) a)"
  proof (cases "map_of (instances c) a")
    case None
    then show ?thesis by (simp add: handle_event_def)
  next
    case (Some i)
    then show ?thesis
      by (cases "istatus i") (simp_all add: handle_event_def schedule_broadcast_def modify_instance_def look Let_def)
  qed
  moreover have "pending_broadcast (check_heartbeat_timeouts now c)
        = (if get_active_instances (check_heartbeat_timeouts now c) = get_active_instances c
           then pending_broadcast c else True)"
    using check_pending [of now c] by simp
  ultimately show ?thesis using check_active by blast
qed

section \<open>Broadcasts\<close>

text \<open>What a hub needs of an instance: everything but the time of its last heartbeat.\<close>

definition seen :: "instance_info list \<Rightarrow> instance_info list" where
  "seen = map (\<lambda>i. i\<lparr>last_heartbeat := 0\<rparr>)"

definition hub_current :: "coord_system \<Rightarrow> bool" where
  "hub_current s \<longleftrightarrow> seen (get_instance_list s) = seen (get_active_instances (registry s))"

text \<open>
  Runs in which no event is handled while a list is being published, and those of them in which besides
  nothing gets lost between the publisher and the hub.
\<close>

inductive lossless_step :: "coord_system \<Rightarrow> coord_system \<Rightarrow> bool" where
  serial_event: "in_flight s = None \<Longrightarrow> lossless_step s (s\<lparr>registry := handle_event now ev (registry s)\<rparr>)"
| serial_check: "in_flight s = None \<Longrightarrow> lossless_step s (s\<lparr>registry := check_heartbeat_timeouts now (registry s)\<rparr>)"
| serial_take: "in_flight s = None \<Longrightarrow> lossless_step s (publish_take s)"
| serial_send: "lossless_step s (publish_send accepted True s)"
| serial_poll: "lossless_step s (hub_poll s)"

inductive serial_step :: "coord_system \<Rightarrow> coord_system \<Rightarrow> bool" where
  lossless: "lossless_step s s' \<Longrightarrow> serial_step s s'"
| lost_list: "serial_step s (publish_send True False s)"
| serial_connect: "serial_step s (hub_connect s)"
| serial_disconnect: "serial_step s (hub_disconnect s)"

lemma quiet_event:
  assumes "keyed c" and "\<not> pending_broadcast (handle_event now ev c)"
  shows "seen (get_active_instances (handle_event now ev c)) = seen (get_active_instances c) \<and> \<not> pending_broadcast c"
proof (cases rule: handle_event_cases [of now ev c])
  case same
  with assms(2) show ?thesis by simp
next
  case (beat i)
  have ne: "istatus i \<noteq> ERROR" "\<not> pending_broadcast c" using assms(2) beat(4) by simp_all
  have "seen (active (map (\<lambda>(k, i). (k, if k = a then i\<lparr>last_heartbeat := now,
        istatus := (if istatus i = ERROR then UP else istatus i)\<rparr> else i)) is)) = seen (active is)"
    if "distinct (map fst is)" "map_of is a = Some j" "istatus j \<noteq> ERROR" for "is" a j
    using that
  proof (induction "is")
    case Nil
    then show ?case by simp
  next
    case (Cons x "is")
    obtain k i' where x: "x = (k, i')" by (rule prod.exhaust)
    show ?case
    proof (cases "k = a")
      case True
      then have "\<forall>y \<in> set is. fst y \<noteq> a" using Cons.prems(1) by (force simp: x)
      then have "map (\<lambda>(k, i). (k, if k = a then i\<lparr>last_heartbeat := now,
        istatus := (if istatus i = ERROR then UP else istatus i)\<rparr> else i)) is = is"
        by (intro map_idI) auto
      with True Cons.prems(2,3) show ?thesis by (simp add: x active_def seen_def)
    next
      case False
      with Cons show ?thesis by (simp add: x active_def seen_def)
    qed
  qed
  with beat(2,3) ne assms(1) show ?thesis
    by (simp add: get_active_instances_def modify_instance_def keyed_def)
next
  case (new i)
  with assms(2) show ?thesis by simp
next
  case (known f)
  with assms(2) show ?thesis by simp
qed

text \<open>Lists the hub can decode.\<close>

definition reported :: "instance_info list \<Rightarrow> bool" where
  "reported l \<longleftrightarrow> (\<forall>i \<in> set l. queue_length i \<noteq> None)"

lemma decode_reported: "decode_instance_list l = (if reported l then Some l else None)"
  by (simp add: decode_instance_list_def reported_def)

lemma reported_seen: "seen l = seen l' \<Longrightarrow> reported l = reported l'"
proof -
  have "reported l = reported (seen l)" for l by (simp add: reported_def seen_def)
  then show "seen l = seen l' \<Longrightarrow> reported l = reported l'" by metis
qed

text \<open>The registry and the list being sent, in any serial run.\<close>

definition serial_ok :: "coord_system \<Rightarrow> bool" where
  "serial_ok s \<longleftrightarrow> keyed (registry s)
    \<and> (case in_flight s of None \<Rightarrow> True | Some l \<Rightarrow> l = get_active_instances (registry s) \<and> pending_broadcast (registry s))"

lemma publish_send_registry:
  "instances (registry (publish_send a d s)) = instances (registry s)"
  "get_active_instances (registry (publish_send a d s)) = get_active_instances (registry s)"
  by (simp_all add: publish_send_def get_active_instances_def split: option.split)

lemma hub_fields:
  "registry (hub_poll s) = registry s" "in_flight (hub_poll s) = in_flight s" "subscribed (hub_poll s) = subscribed s"
  by (simp_all add: hub_poll_def split: list.split)

lemma lossless_step_ok:
  assumes "lossless_step s s'" and "serial_ok s"
  shows "serial_ok s'"
  using assms(1)
proof cases
  case (serial_event now ev)
  with assms(2) handle_event_keyed [of "registry s" now ev] show ?thesis by (simp add: serial_ok_def)
next
  case (serial_check now)
  with assms(2) check_keyed [of "registry s" now] show ?thesis by (simp add: serial_ok_def)
next
  case serial_take
  with assms(2) show ?thesis by (auto simp: serial_ok_def publish_take_def)
next
  case (serial_send accepted)
  with assms(2) show ?thesis
    by (auto simp: serial_ok_def keyed_def publish_send_registry) (auto simp: publish_send_def split: option.splits)
next
  case serial_poll
  with assms(2) show ?thesis by (auto simp: serial_ok_def hub_fields split: option.splits)
qed

lemma serial_step_ok:
  assumes "serial_step s s'" and "serial_ok s"
  shows "serial_ok s'"
  using assms(1)
proof cases
  case lossless
  with assms(2) show ?thesis by (rule lossless_step_ok [rotated])
next
  case lost_list
  with assms(2) show ?thesis
    by (auto simp: serial_ok_def keyed_def publish_send_registry) (auto simp: publish_send_def split: option.splits)
qed (use assms(2) in \<open>auto simp: serial_ok_def hub_connect_def hub_disconnect_def split: option.splits\<close>)

lemma serial_run_ok: "serial_step\<^sup>*\<^sup>* (system_init t) s \<Longrightarrow> serial_ok s"
proof (induction rule: rtranclp_induct)
  case base
  show ?case by (simp add: serial_ok_def system_init_def coord_init_def keyed_def)
next
  case (step y z)
  show ?case by (rule serial_step_ok [OF step.hyps(2) step.IH])
qed

text \<open>What the hub has or is about to read shows the active instances.\<close>

definition told :: "coord_system \<Rightarrow> bool" where
  "told s \<longleftrightarrow> (if on_wire s = [] then reported (get_active_instances (registry s)) \<longrightarrow> hub_current s
     else seen (last (on_wire s)) = seen (get_active_instances (registry s)))"

definition catching_up :: "coord_system \<Rightarrow> bool" where
  "catching_up s \<longleftrightarrow> subscribed s \<and> serial_ok s \<and> (in_flight s = None \<and> \<not> pending_broadcast (registry s) \<longrightarrow> told s)"

lemma told_cong:
  assumes "told s" and "on_wire s' = on_wire s" and "hub s' = hub s"
    and "seen (get_active_instances (registry s')) = seen (get_active_instances (registry s))"
  shows "told s'"
  using assms(1) reported_seen [OF assms(4)] unfolding told_def hub_current_def get_instance_list_def assms(2-4) by simp

lemma told_poll:
  assumes "told s"
  shows "told (hub_poll s)"
proof (cases "on_wire s")
  case (Cons l ls)
  show ?thesis
  proof (cases ls)
    case Nil
    with assms Cons have l: "seen l = seen (get_active_instances (registry s))" by (simp add: told_def)
    with reported_seen [OF l] Cons Nil show ?thesis
      by (simp add: told_def hub_poll_def hub_current_def get_instance_list_def hub_receive_def decode_reported)
  next
    case (Cons l' ls')
    with assms \<open>on_wire s = l # ls\<close> show ?thesis by (simp add: told_def hub_poll_def)
  qed
qed (use assms in \<open>simp add: hub_poll_def\<close>)

lemma catching_up_step:
  assumes "lossless_step s s'" and "catching_up s"
  shows "catching_up s'"
proof -
  have ok: "serial_ok s" and sub: "subscribed s" and t: "in_flight s = None \<Longrightarrow> \<not> pending_broadcast (registry s) \<Longrightarrow> told s"
    using assms(2) by (simp_all add: catching_up_def)
  have ok': "serial_ok s'" by (rule lossless_step_ok [OF assms(1) ok])
  have k: "keyed (registry s)" using ok by (simp add: serial_ok_def)
  from assms(1) show ?thesis
  proof cases
    case (serial_event now ev)
    have "told s'" if p: "\<not> pending_broadcast (registry s')"
    proof -
      have "\<not> pending_broadcast (handle_event now ev (registry s))" using p serial_event by simp
      note quiet = quiet_event [OF k this]
      show ?thesis
        by (rule told_cong [OF t [OF serial_event(2) conjunct2 [OF quiet]]]) (use quiet in \<open>simp_all add: serial_event(1)\<close>)
    qed
    with sub ok' serial_event(1) show ?thesis by (simp add: catching_up_def)
  next
    case (serial_check now)
    have "told s'" if p: "\<not> pending_broadcast (registry s')"
    proof -
      have "get_active_instances (registry s') = get_active_instances (registry s) \<and> \<not> pending_broadcast (registry s)"
        using p check_pending [of now "registry s"] serial_check(1) by auto
      note quiet = this
      show ?thesis
        by (rule told_cong [OF t [OF serial_check(2) conjunct2 [OF quiet]]]) (use quiet in \<open>simp_all add: serial_check(1)\<close>)
    qed
    with sub ok' serial_check(1) show ?thesis by (simp add: catching_up_def)
  next
    case serial_take
    show ?thesis
    proof (cases "pending_broadcast (registry s)")
      case True
      with serial_take sub ok' show ?thesis by (simp add: catching_up_def publish_take_def)
    next
      case False
      with serial_take assms(2) show ?thesis by (simp add: publish_take_def)
    qed
  next
    case (serial_send accepted)
    show ?thesis
    proof (cases "in_flight s")
      case None
      with serial_send assms(2) show ?thesis by (simp add: publish_send_def)
    next
      case (Some l)
      then have l: "l = get_active_instances (registry s)" "pending_broadcast (registry s)" using ok by (simp_all add: serial_ok_def)
      have "told s'" if "accepted"
        using that Some sub l(1) serial_send by (simp add: told_def publish_send_def get_active_instances_def)
      moreover have "pending_broadcast (registry s')" if "\<not> accepted" using that Some l(2) serial_send by (simp add: publish_send_def)
      moreover have "subscribed s'" using sub serial_send by (simp add: publish_send_def split: option.split)
      ultimately show ?thesis using ok' by (auto simp: catching_up_def)
    qed
  next
    case serial_poll
    with sub ok' t told_poll [of s] show ?thesis by (simp add: catching_up_def hub_fields)
  qed
qed

text \<open>C33: A connected hub that gets a list and loses nothing afterwards stays up to date. Suppose a broadcast is pending while the hub is connected, the list is published and reaches it, and from then on no list is lost and no event is handled while a list is being published; before that anything may have been lost. Then whenever nothing is pending and no list is being sent, the last list on its way to the hub shows exactly the active instances, and once the hub has read everything its own list does, provided every active instance has reported a queue length.\<close>

theorem hub_catches_up:
  assumes "serial_step\<^sup>*\<^sup>* (system_init t) s" and "subscribed s" and "in_flight s = None" and "pending_broadcast (registry s)"
    and "lossless_step\<^sup>*\<^sup>* (publish_send True True (publish_take s)) s'"
    and "in_flight s' = None" and "\<not> pending_broadcast (registry s')"
  shows "if on_wire s' = []
    then (if \<forall>i \<in> set (get_active_instances (registry s')). queue_length i \<noteq> None then hub_current s' else True)
    else seen (last (on_wire s')) = seen (get_active_instances (registry s'))"
proof -
  have ok: "serial_ok s" by (rule serial_run_ok [OF assms(1)])
  have "lossless_step s (publish_take s)" by (rule lossless_step.serial_take [OF assms(3)])
  with ok have "serial_ok (publish_take s)" by (rule lossless_step_ok [rotated])
  with lossless_step.serial_send have "serial_ok (publish_send True True (publish_take s))" by (rule lossless_step_ok)
  then have "catching_up (publish_send True True (publish_take s))"
    using assms(2,4) by (simp add: catching_up_def told_def publish_take_def publish_send_def get_active_instances_def)
  with assms(5) have "catching_up s'" by (induction rule: rtranclp_induct) (auto intro: catching_up_step)
  then have "told s'" using assms(6,7) by (simp add: catching_up_def)
  then show ?thesis by (auto simp: told_def reported_def)
qed

definition ex_event :: "string \<Rightarrow> instance_event" where
  "ex_event a = \<lparr>ev_input_addr = a, ev_output_addr = ''out'', ev_stage_id = 1, ev_event_type = ''update'',
     ev_status = UP, ev_queue_length = Some 0\<rparr>"

definition ex_coord :: coord_system where
  "ex_coord = (let s = hub_connect (system_init 30) in s\<lparr>registry := handle_event 0 (ex_event ''a'') (registry s)\<rparr>)"

lemmas ex_coord_defs = ex_coord_def hub_connect_def system_init_def coord_init_def handle_event_def add_new_instance_def ex_event_def
  schedule_broadcast_def get_active_instances_def active_def publish_send_def publish_take_def hub_poll_def hub_receive_def
  decode_instance_list_def get_instance_list_def hub_disconnect_def

lemma ex_coord_serial: "serial_step\<^sup>*\<^sup>* (system_init 30) ex_coord"
proof -
  have "serial_step (system_init 30) (hub_connect (system_init 30))" by (rule serial_step.serial_connect)
  moreover have "serial_step (hub_connect (system_init 30)) ex_coord"
    unfolding ex_coord_def Let_def
    by (rule serial_step.lossless, rule lossless_step.serial_event) (simp add: hub_connect_def system_init_def)
  ultimately show ?thesis by (meson converse_rtranclp_into_rtranclp r_into_rtranclp)
qed

theorem hub_catches_up_witness:
  "hub_current (hub_poll (publish_send True True (publish_take ex_coord)))"
proof -
  have p: "subscribed ex_coord" "in_flight ex_coord = None" "pending_broadcast (registry ex_coord)"
    by (simp_all add: ex_coord_defs Let_def)
  have r: "lossless_step\<^sup>*\<^sup>* (publish_send True True (publish_take ex_coord)) (hub_poll (publish_send True True (publish_take ex_coord)))"
    by (rule r_into_rtranclp) (rule lossless_step.serial_poll)
  have q: "in_flight (hub_poll (publish_send True True (publish_take ex_coord))) = None"
    "\<not> pending_broadcast (registry (hub_poll (publish_send True True (publish_take ex_coord))))"
    by (simp_all add: ex_coord_defs Let_def)
  have e: "on_wire (hub_poll (publish_send True True (publish_take ex_coord))) = []"
    "\<forall>i \<in> set (get_active_instances (registry (hub_poll (publish_send True True (publish_take ex_coord))))). queue_length i \<noteq> None"
    by (simp_all add: ex_coord_defs Let_def)
  from hub_catches_up [OF ex_coord_serial p r q] show ?thesis unfolding if_P [OF e(1)] if_P [OF e(2)] .
qed

text \<open>A list with an instance that never reported a queue length is not taken over by the hub.\<close>

lemma unreported_length_keeps_the_old_list:
  assumes "i \<in> set l" and "queue_length i = None"
  shows "hub_receive l cached = cached"
  using assms by (auto simp: hub_receive_def decode_instance_list_def)

text \<open>
  A hub that connects after the last broadcast, or whose list got lost, knows nothing of the active
  instances, and nothing is left for the periodic loop to publish: only a later change would be.
\<close>

lemma late_hub_knows_nothing:
  "\<exists>s. serial_step\<^sup>*\<^sup>* (system_init 30) s \<and> subscribed s \<and> in_flight s = None \<and> on_wire s = []
    \<and> get_active_instances (registry s) \<noteq> [] \<and> get_instance_list s = [] \<and> publish_take s = s"
proof -
  define s1 where "s1 = publish_take ex_coord"
  define s2 where "s2 = publish_send True False s1"
  have "serial_step ex_coord s1"
    unfolding s1_def by (rule serial_step.lossless, rule lossless_step.serial_take) (simp add: ex_coord_defs Let_def)
  moreover have "serial_step s1 s2" unfolding s2_def by (rule serial_step.lost_list)
  ultimately have r: "serial_step\<^sup>*\<^sup>* (system_init 30) s2" using ex_coord_serial by (meson rtranclp.rtrancl_into_rtrancl)
  have "subscribed s2" "in_flight s2 = None" "on_wire s2 = []" "get_active_instances (registry s2) \<noteq> []" "get_instance_list s2 = []"
    "publish_take s2 = s2"
    by (simp_all add: s2_def s1_def ex_coord_defs Let_def)
  with r show ?thesis by blast
qed

text \<open>With the threads interleaved an update can be lost even if every list arrives: an event handled
  after the list was taken and before the flag is cleared leaves an instance that is active and that no
  hub knows, with nothing pending and nothing left for the periodic loop to publish.\<close>

theorem broadcast_can_be_lost:
  "\<exists>s i. coord_step\<^sup>*\<^sup>* (system_init 30) s \<and> subscribed s \<and> in_flight s = None \<and> on_wire s = [] \<and> \<not> pending_broadcast (registry s)
    \<and> i \<in> set (get_active_instances (registry s)) \<and> i \<notin> set (get_instance_list s) \<and> \<not> hub_current s
    \<and> publish_send accepted delivered (publish_take s) = s"
proof -
  define s0 where "s0 = hub_connect (system_init 30)"
  define s1 where "s1 = publish_take ex_coord"
  define s2 where "s2 = s1\<lparr>registry := handle_event 0 (ex_event ''b'') (registry s1)\<rparr>"
  define s3 where "s3 = publish_send True True s2"
  define s4 where "s4 = hub_poll s3"
  have "coord_step (system_init 30) s0" unfolding s0_def by (rule coord_step.connect)
  moreover have "coord_step s0 ex_coord"
    unfolding ex_coord_def Let_def s0_def by (rule coord_step.event)
  moreover have "coord_step ex_coord s1"
    unfolding s1_def by (rule coord_step.take_list) (simp add: ex_coord_defs Let_def)
  moreover have "coord_step s1 s2" unfolding s2_def by (rule coord_step.event)
  moreover have "coord_step s2 s3" unfolding s3_def by (rule coord_step.send_list)
  moreover have "coord_step s3 s4" unfolding s4_def by (rule coord_step.poll)
  ultimately have r: "coord_step\<^sup>*\<^sup>* (system_init 30) s4"
    by (meson converse_rtranclp_into_rtranclp rtranclp.rtrancl_refl)
  define i where "i = \<lparr>input_addr = ''b'', output_addr = ''out'', info_stage = 1, istatus = UP,
    queue_length = Some 0, last_heartbeat = 0, registered_at = (0 :: rat)\<rparr>"
  note defs = s4_def s3_def s2_def s1_def ex_coord_defs Let_def
  have "in_flight s4 = None" "\<not> pending_broadcast (registry s4)" "i \<in> set (get_active_instances (registry s4))"
    "i \<notin> set (get_instance_list s4)" "length (get_instance_list s4) \<noteq> length (get_active_instances (registry s4))"
    "subscribed s4" "on_wire s4 = []"
    by (simp_all add: defs i_def)
  moreover have "\<not> hub_current s4"
    using calculation(5) by (auto simp: hub_current_def seen_def dest!: arg_cong [where f = length])
  moreover have "publish_send accepted delivered (publish_take s4) = s4"
    using calculation(1,2) by (simp add: publish_take_def publish_send_def)
  ultimately show ?thesis using r by blast
qed

section \<open>Round robin\<close>

fun picks :: "('st \<Rightarrow> nat \<Rightarrow> instance_info list \<Rightarrow> 'st \<times> nat res) \<Rightarrow> nat \<Rightarrow> 'st \<Rightarrow> instance_info list \<Rightarrow> nat res list" where
  "picks select 0 st is = []"
| "picks select (Suc k) st is = (case select st 0 is of (st', r) \<Rightarrow> r # picks select k st' is)"

lemma round_robin_picks:
  "is \<noteq> [] \<Longrightarrow> picks select_round_robin k st is = map (\<lambda>j. Inr ((st + j) mod length is)) [0 ..< k]"
proof (induction k arbitrary: st)
  case 0
  then show ?case by simp
next
  case (Suc k)
  have "map (\<lambda>j. Inr ((st + j) mod length is) :: nat res) [0 ..< Suc k]
      = Inr (st mod length is) # map (\<lambda>j. Inr ((st + Suc j) mod length is)) [0 ..< k]"
    by (simp only: map_upt_Suc) simp
  with Suc show ?case by (simp add: select_round_robin_def mod_simps)
qed

lemma shifted_residues:
  assumes "0 < (n :: nat)"
  shows "mset (map (\<lambda>j. (st + j) mod n) [0 ..< n]) = mset [0 ..< n]"
proof -
  have inj: "inj_on (\<lambda>j. (st + j) mod n) {0 ..< n}"
  proof (rule inj_onI)
    fix x y assume xy: "x \<in> {0 ..< n}" "y \<in> {0 ..< n}" "(st + x) mod n = (st + y) mod n"
    have "int n dvd (int st + int x) - (int st + int y)"
      using xy(3) by (metis mod_eq_dvd_iff of_nat_add zmod_int)
    then have "int x mod int n = int y mod int n" by (simp add: mod_eq_dvd_iff)
    then show "x = y" using xy(1,2) by simp
  qed
  have "(\<lambda>j. (st + j) mod n) ` {0 ..< n} = {0 ..< n}"
    by (rule endo_inj_surj) (use inj assms in auto)
  then have "set (map (\<lambda>j. (st + j) mod n) [0 ..< n]) = set [0 ..< n]" by simp
  moreover have "distinct (map (\<lambda>j. (st + j) mod n) [0 ..< n])"
    using inj by (simp add: distinct_map)
  ultimately show ?thesis by (simp only: set_eq_iff_mset_eq_distinct [symmetric] distinct_upt)
qed

text \<open>Round robin is fair: over a fixed list of n instances any n consecutive selections pick every
  instance exactly once, whatever index they start from.\<close>

theorem round_robin_fair:
  assumes "is \<noteq> []"
  shows "mset (picks select_round_robin (length is) st is) = mset (map Inr [0 ..< length is])"
proof -
  let ?n = "length is"
  have "mset (picks select_round_robin ?n st is) = image_mset Inr (mset (map (\<lambda>j. (st + j) mod ?n) [0 ..< ?n]))"
    by (simp add: round_robin_picks [OF assms] image_mset.compositionality comp_def)
  also have "\<dots> = image_mset Inr (mset [0 ..< ?n])"
    by (rule arg_cong [OF shifted_residues]) (use assms in simp)
  finally show ?thesis by simp
qed

definition ex_two :: "instance_info list" where
  "ex_two = get_active_instances (handle_event 1 (ex_event ''b'') (registry ex_coord))"

lemma ex_two_length: "length ex_two = 2"
  by (simp add: ex_two_def ex_coord_defs Let_def)

theorem round_robin_fair_witness: "mset (picks select_round_robin 2 5 ex_two) = {#Inr 0, Inr 1#}"
proof -
  have "ex_two \<noteq> []" using ex_two_length by auto
  from round_robin_fair [OF this, of 5] show ?thesis by (simp only: ex_two_length) (simp add: upt_rec)
qed

end
