(* ===== verification/Omnivoice_Plan.thy ===== *)
theory Omnivoice_Plan
  imports Prelude
begin

text \<open>
  The unmasking schedule of \<open>OmniVoiceGenerator\<close> (\<open>omnivoice_generator.py\<close>): the audio frames of a
  request are cut into blocks, and every block gets a number of steps, each with the number of
  tokens it unmasks. Times are rationals. \<open>get_time_steps\<close> is the exact value of the source's
  formula; the plan itself takes the time steps as an argument \<open>ts\<close> (for \<open>n\<close> steps a list of
  \<open>n + 1\<close> times), so that what is proved of it holds for the rounded ones as well. The environment
  variables are arguments: \<open>None\<close> inside means the text is no integer.
\<close>

section \<open>Definitions\<close>

definition linspace :: "rat \<Rightarrow> rat \<Rightarrow> nat \<Rightarrow> rat list" where
  "linspace a b n = map (\<lambda>i. a + of_nat i * (b - a) / of_nat (n - 1)) [0 ..< n]"

definition get_time_steps :: "rat \<Rightarrow> rat \<Rightarrow> nat \<Rightarrow> rat \<Rightarrow> rat list" where
  "get_time_steps t_start t_end num_step t_shift =
     map (\<lambda>s. t_shift * s / (1 + (t_shift - 1) * s)) (linspace t_start t_end num_step)"

definition resolve_block_size :: "int option \<Rightarrow> nat \<Rightarrow> nat" where
  "resolve_block_size block_size_env max_target_len =
     (let block_size = (case block_size_env of None \<Rightarrow> 0 | Some n \<Rightarrow> n)
      in if block_size \<le> 0 then max_target_len else nat block_size)"

definition resolve_first_block_num_step :: "int option option \<Rightarrow> nat \<Rightarrow> nat" where
  "resolve_first_block_num_step first_env num_step =
     (case first_env of None \<Rightarrow> num_step
      | Some None \<Rightarrow> num_step
      | Some (Some n) \<Rightarrow> nat (max 1 n))"

text \<open>A step unmasks \<open>k\<close> tokens of the frames from \<open>f_start\<close> to \<open>f_end\<close>.\<close>

type_synonym plan = "(nat \<times> nat \<times> int) list"

text \<open>The loop over the steps of a block, \<open>n\<close> of them still to come: the last one takes what is left.\<close>

fun budgets :: "rat list \<Rightarrow> int \<Rightarrow> nat \<Rightarrow> nat \<Rightarrow> int \<Rightarrow> int list" where
  "budgets sub_ts b_total b_steps 0 rem = []"
| "budgets sub_ts b_total b_steps (Suc n) rem =
     (let sb = b_steps - Suc n;
          k_sb = (if sb = b_steps - 1 then rem
                  else min \<lceil>of_int b_total * (sub_ts ! (sb + 1) - sub_ts ! sb)\<rceil> rem)
      in k_sb # budgets sub_ts b_total b_steps n (rem - k_sb))"

definition block_plan :: "(nat \<Rightarrow> rat list) \<Rightarrow> nat \<Rightarrow> nat \<Rightarrow> nat \<Rightarrow> nat \<Rightarrow> nat \<Rightarrow> nat \<Rightarrow> plan" where
  "block_plan ts first_steps num_step num_codebooks t_len eff_block_size b =
     (let f_start = b * eff_block_size;
          f_end = min (f_start + eff_block_size) t_len;
          b_total = (int f_end - int f_start) * int num_codebooks;
          b_steps = (if b = 0 then first_steps else num_step)
      in map (\<lambda>k. (f_start, f_end, k)) (budgets (ts b_steps) b_total b_steps b_steps b_total))"

definition build_plan :: "(nat \<Rightarrow> rat list) \<Rightarrow> nat \<Rightarrow> nat \<Rightarrow> nat \<Rightarrow> nat \<Rightarrow> nat \<Rightarrow> plan res" where
  "build_plan ts block_size first_steps num_step num_codebooks t_len =
     (if block_size = 0 then Inl ZeroDivisionError
      else let num_blocks = max 1 ((t_len + block_size - 1) div block_size);
               eff_block_size = (t_len + num_blocks - 1) div num_blocks;
               plan = concat (map (block_plan ts first_steps num_step num_codebooks t_len eff_block_size)
                                [0 ..< num_blocks]);
               expected_steps = first_steps + (num_blocks - 1) * num_step
           in if length plan = expected_steps then Inr plan else Inl AssertionError)"

fun collect_plans :: "(nat \<Rightarrow> plan res) \<Rightarrow> nat list \<Rightarrow> plan list res" where
  "collect_plans f [] = Inr []"
| "collect_plans f (t # ts) = bind_res (f t) (\<lambda>p. bind_res (collect_plans f ts) (\<lambda>ps. Inr (p # ps)))"

definition build_step_plans ::
  "(nat \<Rightarrow> rat list) \<Rightarrow> int option \<Rightarrow> int option option \<Rightarrow> nat \<Rightarrow> nat list \<Rightarrow> nat \<Rightarrow> plan list res" where
  "build_step_plans ts block_size_env first_env num_codebooks target_lens num_step =
     (if target_lens = [] then Inl ValueError
      else let block_size = resolve_block_size block_size_env (Max (set target_lens));
               first_block_num_step = resolve_first_block_num_step first_env num_step
           in collect_plans (build_plan ts block_size first_block_num_step num_step num_codebooks) target_lens)"

definition is_block_complete :: "plan \<Rightarrow> nat \<Rightarrow> bool" where
  "is_block_complete step_plan step_index =
     (if int step_index \<ge> int (length step_plan) - 1 then True
      else case (step_plan ! step_index, step_plan ! (step_index + 1)) of
        ((cur_start, cur_end, _), (next_start, next_end, _)) \<Rightarrow> (cur_start, cur_end) \<noteq> (next_start, next_end))"

section \<open>Budgets\<close>

lemma length_budgets [simp]: "length (budgets ts b m n rem) = n"
  by (induction ts b m n rem rule: budgets.induct) (simp_all add: Let_def)

text \<open>The steps of a block unmask it completely, whatever the time steps are.\<close>

lemma sum_budgets: "n \<le> m \<Longrightarrow> 0 < n \<Longrightarrow> sum_list (budgets ts b m n rem) = rem"
proof (induction ts b m n rem rule: budgets.induct)
  case (2 ts b m n rem)
  show ?case
  proof (cases "n = 0")
    case True
    with 2(2) show ?thesis by (simp add: Let_def)
  next
    case False
    with 2 show ?thesis by (simp add: Let_def)
  qed
qed simp

definition ascending :: "rat list \<Rightarrow> bool" where
  "ascending ts \<longleftrightarrow> (\<forall>i. Suc i < length ts \<longrightarrow> ts ! i \<le> ts ! Suc i)"

lemma budgets_nonneg:
  assumes "ascending ts" and "length ts = Suc m" and "0 \<le> b"
  shows "n \<le> m \<Longrightarrow> 0 \<le> rem \<Longrightarrow> k \<in> set (budgets ts b m n rem) \<Longrightarrow> 0 \<le> k"
proof (induction n arbitrary: rem)
  case 0
  then show ?case by simp
next
  case (Suc n)
  let ?sb = "m - Suc n"
  let ?k = "if ?sb = m - 1 then rem else min \<lceil>of_int b * (ts ! (?sb + 1) - ts ! ?sb)\<rceil> rem"
  have "0 \<le> of_int b * (ts ! (?sb + 1) - ts ! ?sb)"
    using assms Suc.prems(1) by (intro mult_nonneg_nonneg) (simp_all add: ascending_def)
  then have k0: "0 \<le> ?k" using Suc.prems(2) by simp
  have k1: "?k \<le> rem" by simp
  from Suc.prems(3) consider "k = ?k" | "k \<in> set (budgets ts b m n (rem - ?k))" by (auto simp: Let_def)
  then show ?case
  proof cases
    case 1
    with k0 show ?thesis by simp
  next
    case 2
    have "0 \<le> rem - ?k" using k1 by simp
    from Suc.IH [OF _ this 2] Suc.prems(1) show ?thesis by simp
  qed
qed

lemma length_get_time_steps [simp]: "length (get_time_steps a b n s) = n"
  by (simp add: get_time_steps_def linspace_def)

lemma time_steps_ascending:
  assumes "0 < s"
  shows "ascending (get_time_steps 0 1 (Suc n) s)"
proof (unfold ascending_def, intro allI impI)
  fix i assume i: "Suc i < length (get_time_steps 0 1 (Suc n) s)"
  let ?f = "\<lambda>x :: rat. s * x / (1 + (s - 1) * x)"
  let ?x = "of_nat i / of_nat n :: rat" and ?y = "of_nat (Suc i) / of_nat n :: rat"
  have n: "0 < n" "Suc i \<le> n" using i by simp_all
  have xy: "0 \<le> ?x" "?x \<le> ?y" "?y \<le> 1" using n by (simp_all add: divide_simps)
  have pos: "0 < 1 + (s - 1) * x" if "0 \<le> x" "x \<le> 1" for x
  proof -
    have "0 < s * x + (1 - x)"
      using that assms by (cases "x = 0") (simp_all add: add_pos_nonneg)
    then show ?thesis by (simp add: algebra_simps)
  qed
  have mono: "?f x \<le> ?f y" if "0 \<le> x" "x \<le> y" "y \<le> 1" for x y
  proof -
    have "s * x \<le> s * y" using that(2) assms by (intro mult_left_mono) simp_all
    then have "s * x * (1 + (s - 1) * y) \<le> s * y * (1 + (s - 1) * x)" by (simp add: algebra_simps)
    then show ?thesis using pos [of x] pos [of y] that by (simp add: divide_simps)
  qed
  have "?f ?x \<le> ?f ?y" by (rule mono [OF xy])
  moreover have "get_time_steps 0 1 (Suc n) s ! i = ?f ?x" "get_time_steps 0 1 (Suc n) s ! Suc i = ?f ?y"
    using n by (simp_all add: get_time_steps_def linspace_def del: of_nat_Suc upt_Suc)
  ultimately show "get_time_steps 0 1 (Suc n) s ! i \<le> get_time_steps 0 1 (Suc n) s ! Suc i" by simp
qed

section \<open>Blocks\<close>

text \<open>What the steps for a range of frames unmask together.\<close>

definition budget :: "nat \<times> nat \<Rightarrow> plan \<Rightarrow> int" where
  "budget r plan = sum_list (map (\<lambda>(a, b, k). if (a, b) = r then k else 0) plan)"

lemma budget_simps [simp]:
  "budget r [] = 0" "budget r ((a, b, k) # plan) = (if (a, b) = r then k else 0) + budget r plan"
  by (simp_all add: budget_def)

lemma budget_append [simp]: "budget r (xs @ ys) = budget r xs + budget r ys"
  by (simp add: budget_def)

lemma budget_concat: "budget r (concat xs) = sum_list (map (budget r) xs)"
  by (induction xs) simp_all

lemma budget_absent: "(\<And>k. (fst r, snd r, k) \<notin> set plan) \<Longrightarrow> budget r plan = 0"
proof (induction plan)
  case (Cons x plan)
  obtain a b k where x: "x = (a, b, k)" by (rule prod_cases3)
  have "(fst r, snd r, k) \<noteq> x" using Cons.prems [of k] by auto
  then have "(a, b) \<noteq> r" unfolding x by auto
  moreover have "budget r plan = 0" by (rule Cons.IH) (use Cons.prems in auto)
  ultimately show ?case by (simp add: x)
qed simp

text \<open>
  A plan for \<open>t\<close> frames: its ranges are blocks that cover the frames without overlap, in order, and the
  budgets of a block add up to its tokens.
\<close>

definition plan_ok :: "nat \<Rightarrow> nat \<Rightarrow> plan \<Rightarrow> bool" where
  "plan_ok cb t plan \<longleftrightarrow>
     (\<forall>(a, b, k) \<in> set plan. a < b \<and> b \<le> t \<and> 0 \<le> k \<and> budget (a, b) plan = (int b - int a) * int cb)
     \<and> (\<forall>p < t. \<exists>(a, b, k) \<in> set plan. a \<le> p \<and> p < b)
     \<and> (\<forall>(a, b, k) \<in> set plan. \<forall>(a', b', k') \<in> set plan. (a, b) = (a', b') \<or> b \<le> a' \<or> b' \<le> a)
     \<and> sorted (map fst plan)"

lemma plan_ok_step:
  assumes "plan_ok cb t plan" and "(a, b, k) \<in> set plan"
  shows "a < b" and "b \<le> t" and "0 \<le> k" and "budget (a, b) plan = (int b - int a) * int cb"
proof -
  have "\<forall>(a, b, k) \<in> set plan. a < b \<and> b \<le> t \<and> 0 \<le> k \<and> budget (a, b) plan = (int b - int a) * int cb"
    using assms(1) unfolding plan_ok_def by blast
  from bspec [OF this assms(2)]
  show "a < b" "b \<le> t" "0 \<le> k" "budget (a, b) plan = (int b - int a) * int cb" by simp_all
qed

lemma plan_ok_cover:
  assumes "plan_ok cb t plan" and "p < t"
  obtains a b k where "(a, b, k) \<in> set plan" "a \<le> p" "p < b"
  using assms unfolding plan_ok_def by blast

lemma plan_ok_disjoint:
  assumes "plan_ok cb t plan" and "(a, b, k) \<in> set plan" and "(a', b', k') \<in> set plan"
  shows "(a, b) = (a', b') \<or> b \<le> a' \<or> b' \<le> a"
proof -
  have "\<forall>(a, b, k) \<in> set plan. \<forall>(a', b', k') \<in> set plan. (a, b) = (a', b') \<or> b \<le> a' \<or> b' \<le> a"
    using assms(1) by (simp add: plan_ok_def)
  from bspec [OF this assms(2)] have "\<forall>(a', b', k') \<in> set plan. (a, b) = (a', b') \<or> b \<le> a' \<or> b' \<le> a"
    by simp
  from bspec [OF this assms(3)] show ?thesis by simp
qed

lemma plan_ok_sorted: "plan_ok cb t plan \<Longrightarrow> sorted (map fst plan)"
  by (simp add: plan_ok_def)

lemma ceil_blocks:
  assumes "0 < bs" and "0 < (t :: nat)"
  defines "n \<equiv> max 1 ((t + bs - 1) div bs)"
  defines "e \<equiv> (t + n - 1) div n"
  shows "0 < e" and "t \<le> n * e" and "(n - 1) * e < t" and "e \<le> bs"
proof -
  have n: "0 < n" by (simp add: n_def)
  have up: "t \<le> m * ((t + m - 1) div m)" if "0 < m" for m
  proof -
    have "t + m - 1 < m * ((t + m - 1) div m) + m" using that by (rule dividend_less_times_div [THEN order_less_le_trans]) simp
    then show ?thesis using that by linarith
  qed
  have low: "(t + m - 1) div m * m \<le> t + m - 1" for m by (rule div_times_less_eq_dividend)
  show te: "t \<le> n * e" unfolding e_def by (rule up [OF n])
  then show "0 < e" using assms(2) by (cases e) auto
  have "t \<le> n * bs"
  proof -
    have "t \<le> bs * ((t + bs - 1) div bs)" by (rule up [OF assms(1)])
    also have "\<dots> \<le> bs * n" by (intro mult_left_mono) (simp_all add: n_def)
    finally show ?thesis by (simp add: mult.commute)
  qed
  then have "t + n - 1 < n * Suc bs" using n by simp
  then have "e < Suc bs" unfolding e_def using n by (simp add: div_less_iff_less_mult mult.commute)
  then show ebs: "e \<le> bs" by simp
  have "(n - 1) * bs < t"
  proof (cases "n = 1")
    case True
    then show ?thesis using assms(2) by simp
  next
    case False
    then have "n = (t + bs - 1) div bs" by (auto simp: n_def max_def split: if_splits)
    then have "n * bs \<le> t + bs - 1" using low [of bs] by simp
    then have "(n - 1) * bs + bs \<le> t + bs - 1" using n by (simp add: diff_mult_distrib)
    then show ?thesis using assms by linarith
  qed
  then show "(n - 1) * e < t" using ebs by (meson le_less_trans mult_le_mono2)
qed

lemma block_start: "x \<in> set (block_plan ts f s cb t e b) \<Longrightarrow> fst x = b * e \<and> fst (snd x) = min (b * e + e) t"
  by (auto simp: block_plan_def Let_def)

lemma length_block_plan [simp]: "length (block_plan ts f s cb t e b) = (if b = 0 then f else s)"
  by (simp add: block_plan_def Let_def)

lemma sorted_blocks: "sorted (map fst (concat (map (block_plan ts f s cb t e) [0 ..< n])))"
proof (induction n)
  case (Suc n)
  have "map fst (block_plan ts f s cb t e n) = replicate (length (block_plan ts f s cb t e n)) (n * e)"
    by (intro replicate_eqI) (auto dest: block_start)
  then have "sorted (map fst (block_plan ts f s cb t e n))"
    by (simp add: sorted_replicate)
  with Suc show ?case by (auto simp: sorted_append dest!: block_start intro!: mult_le_mono1)
qed simp

lemma block_plan_budget:
  assumes "0 < f" and "0 < s" and "0 < e" and "b * e < t"
  shows "budget (b * e, min (b * e + e) t) (block_plan ts f s cb t e b')
    = (if b' = b then (int (min (b * e + e) t) - int (b * e)) * int cb else 0)"
proof (cases "b' = b")
  case True
  let ?r = "(b * e, min (b * e + e) t)"
  have one: "budget ?r (map (\<lambda>k. (b * e, min (b * e + e) t, k)) ks) = sum_list ks" for ks
    by (induction ks) simp_all
  show ?thesis
    using True assms(1,2) by (simp add: block_plan_def Let_def one sum_budgets)
next
  case False
  then have "b * e \<noteq> b' * e" using assms(3) by simp
  then have "(b * e, y, k) \<notin> set (block_plan ts f s cb t e b')" for y k
    by (metis block_start fst_conv)
  with False show ?thesis by (simp add: budget_absent)
qed

text \<open>All blocks in a row; every one of the \<open>n\<close> blocks starts before the end of the request.\<close>

definition blocks :: "(nat \<Rightarrow> rat list) \<Rightarrow> nat \<Rightarrow> nat \<Rightarrow> nat \<Rightarrow> nat \<Rightarrow> nat \<Rightarrow> nat \<Rightarrow> plan" where
  "blocks ts f s cb t e n = concat (map (block_plan ts f s cb t e) [0 ..< n])"

lemma in_blocks: "x \<in> set (blocks ts f s cb t e n) \<Longrightarrow> \<exists>i < n. x \<in> set (block_plan ts f s cb t e i)"
  by (auto simp: blocks_def)

lemma length_blocks: "length (blocks ts f s cb t e (Suc n)) = f + n * s"
  by (induction n) (simp_all add: blocks_def)

lemma blocks_budget:
  assumes "0 < f" "0 < s" "0 < e" and start: "\<And>b. b < n \<Longrightarrow> b * e < t"
    and "(a, b, k) \<in> set (blocks ts f s cb t e n)"
  shows "a < b \<and> b \<le> t \<and> budget (a, b) (blocks ts f s cb t e n) = (int b - int a) * int cb"
proof -
  obtain i where i: "i < n" "(a, b, k) \<in> set (block_plan ts f s cb t e i)"
    using in_blocks [OF assms(5)] by blast
  note ab = block_start [OF i(2), simplified]
  have "budget (a, b) (block_plan ts f s cb t e j) = (if j = i then (int b - int a) * int cb else 0)" for j
    using block_plan_budget [OF assms(1-3) start [OF i(1)], of ts cb j]
    unfolding ab [THEN conjunct2, symmetric] unfolding ab [THEN conjunct1, symmetric] .
  then have "budget (a, b) (blocks ts f s cb t e n)
      = sum_list (map (\<lambda>j. if j = i then (int b - int a) * int cb else 0) [0 ..< n])"
    unfolding blocks_def budget_concat map_map comp_def by simp
  also have "\<dots> = (int b - int a) * int cb"
    using i(1) by (simp add: interv_sum_list_conv_sum_set_nat sum.delta)
  finally show ?thesis using ab start [OF i(1)] assms(3) by simp
qed

lemma blocks_nonneg:
  assumes "0 < f" "0 < s" "0 < e" and start: "\<And>b. b < n \<Longrightarrow> b * e < t"
    and "\<And>n. length (ts n) = Suc n" and "\<And>n. ascending (ts n)"
    and "(a, b, k) \<in> set (blocks ts f s cb t e n)"
  shows "0 \<le> k"
proof -
  obtain i where i: "i < n" "(a, b, k) \<in> set (block_plan ts f s cb t e i)"
    using in_blocks [OF assms(7)] by blast
  note ab = block_start [OF i(2), simplified]
  have ltab: "a < b" using ab start [OF i(1)] assms(3) by simp
  have mem: "k \<in> set (budgets (ts (if i = 0 then f else s)) ((int b - int a) * int cb)
      (if i = 0 then f else s) (if i = 0 then f else s) ((int b - int a) * int cb))"
    using i(2) ab by (auto simp: block_plan_def Let_def)
  show ?thesis by (rule budgets_nonneg [OF assms(6,5) _ le_refl _ mem]) (use ltab in simp_all)
qed

lemma blocks_cover:
  assumes "0 < f" "0 < s" "0 < e" "t \<le> n * e" "p < t"
  shows "\<exists>(a, b, k) \<in> set (blocks ts f s cb t e n). a \<le> p \<and> p < b"
proof -
  let ?b = "p div e"
  have b: "?b < n" using assms(3-5) by (simp add: div_less_iff_less_mult)
  have "?b * e \<le> p" "p < ?b * e + e"
    using dividend_less_times_div [OF assms(3), of p] by (simp_all add: ac_simps)
  moreover have "block_plan ts f s cb t e ?b \<noteq> []"
    using assms(1,2) by (subst length_greater_0_conv [symmetric]) (simp only: length_block_plan split: if_split, simp)
  then obtain x where x: "x \<in> set (block_plan ts f s cb t e ?b)" by (meson last_in_set)
  ultimately have "fst x \<le> p \<and> p < fst (snd x)" using block_start [OF x] assms(5) by simp
  moreover have "x \<in> set (blocks ts f s cb t e n)" using b x by (auto simp: blocks_def)
  ultimately show ?thesis by (cases x) auto
qed

lemma blocks_disjoint:
  assumes "(a, b, k) \<in> set (blocks ts f s cb t e n)" "(a', b', k') \<in> set (blocks ts f s cb t e n)"
  shows "(a, b) = (a', b') \<or> b \<le> a' \<or> b' \<le> a"
proof (rule ccontr)
  assume no: "\<not> ((a, b) = (a', b') \<or> b \<le> a' \<or> b' \<le> a)"
  obtain i j where "(a, b, k) \<in> set (block_plan ts f s cb t e i)" "(a', b', k') \<in> set (block_plan ts f s cb t e j)"
    using in_blocks [OF assms(1)] in_blocks [OF assms(2)] by blast
  note ab = block_start [OF this(1), simplified] block_start [OF this(2), simplified]
  have "i \<noteq> j" using no ab by auto
  then have "Suc i * e \<le> j * e \<or> Suc j * e \<le> i * e" by (metis Suc_leI linorder_neqE_nat mult_le_mono1)
  with ab no show False by auto
qed

lemma build_plan_total:
  assumes "0 < bs" and "0 < f" and "0 < s" and "0 < t" and "\<And>n. length (ts n) = Suc n" and "\<And>n. ascending (ts n)"
  shows "\<exists>plan. build_plan ts bs f s cb t = Inr plan \<and> plan_ok cb t plan
    \<and> length plan = f + (max 1 ((t + bs - 1) div bs) - 1) * s"
proof -
  define n where "n = max 1 ((t + bs - 1) div bs)"
  define e where "e = (t + n - 1) div n"
  define plan where "plan = blocks ts f s cb t e n"
  note ce = ceil_blocks [OF assms(1,4), folded n_def, folded e_def]
  have len: "length plan = f + (n - 1) * s"
    using length_blocks [of ts f s cb t e "n - 1"] by (simp add: plan_def n_def)
  have start: "b * e < t" if "b < n" for b
  proof -
    have "b * e \<le> (n - 1) * e" using that by (intro mult_le_mono1) simp
    from this ce(3) show ?thesis by (rule le_less_trans)
  qed
  have "build_plan ts bs f s cb t = Inr plan"
    unfolding build_plan_def Let_def n_def [symmetric] e_def [symmetric] blocks_def [symmetric] plan_def [symmetric]
    using assms(1) len by simp
  moreover have "plan_ok cb t plan"
    unfolding plan_ok_def
  proof (intro conjI)
    show "\<forall>(a, b, k) \<in> set plan. a < b \<and> b \<le> t \<and> 0 \<le> k \<and> budget (a, b) plan = (int b - int a) * int cb"
      using blocks_budget [OF assms(2,3) ce(1) start] blocks_nonneg [OF assms(2,3) ce(1) start assms(5,6)]
      unfolding plan_def by blast
    show "\<forall>p < t. \<exists>(a, b, k) \<in> set plan. a \<le> p \<and> p < b"
      using blocks_cover [OF assms(2,3) ce(1,2)] unfolding plan_def by blast
    show "\<forall>(a, b, k) \<in> set plan. \<forall>(a', b', k') \<in> set plan. (a, b) = (a', b') \<or> b \<le> a' \<or> b' \<le> a"
      using blocks_disjoint unfolding plan_def by blast
    show "sorted (map fst plan)" unfolding plan_def blocks_def by (rule sorted_blocks)
  qed
  ultimately show ?thesis using len by (auto simp: n_def)
qed

end
