(* ===== verification/Omnivoice_Unmask.thy ===== *)
theory Omnivoice_Unmask
  imports Omnivoice_Plan "HOL-Library.Option_ord"
begin

text \<open>
  The unmasking loop of \<open>OmniVoiceGenerator\<close>. A tensor is the function from its indices to its
  entries, its shape is kept beside it; token tensors have the mask id outside their shape, where no
  entry is read. Log-probabilities and scores are rationals, \<open>None\<close> is minus infinity.
  The transformer with its log-softmax is the argument \<open>net\<close>, the softmax of the guided
  combination is \<open>guide\<close>, the random numbers are \<open>noise\<close> and \<open>torch.topk\<close>, which leaves ties
  open, is \<open>topk\<close>.
\<close>

section \<open>Parameters of the generator\<close>

type_synonym score = "rat option"
type_synonym tokens = "nat \<Rightarrow> nat \<Rightarrow> nat"
type_synonym batch_ids = "nat \<Rightarrow> nat \<Rightarrow> nat \<Rightarrow> nat"
type_synonym audio_mask = "nat \<Rightarrow> nat \<Rightarrow> bool"
type_synonym attention_mask = "nat \<Rightarrow> nat \<Rightarrow> nat \<Rightarrow> bool"

text \<open>
  \<open>net\<close> gets the number of rows, their length, the ids and both masks, and answers with the
  log-probability of every class at every row, codebook and position.
\<close>

type_synonym net = "nat \<Rightarrow> nat \<Rightarrow> batch_ids \<Rightarrow> audio_mask \<Rightarrow> attention_mask \<Rightarrow> nat \<Rightarrow> nat \<Rightarrow> nat \<Rightarrow> nat \<Rightarrow> rat"

record gen_config =
  num_audio_codebook :: nat
  audio_vocab_size :: nat
  audio_mask_id :: nat
  guidance_scale :: rat
  layer_penalty_factor :: rat
  position_temperature :: rat
  class_temperature :: rat

record noise =
  class_noise :: "nat \<Rightarrow> nat \<Rightarrow> nat \<Rightarrow> rat"
  position_noise :: "nat \<Rightarrow> nat \<Rightarrow> rat"

definition gumbel_sample :: "rat \<Rightarrow> rat \<Rightarrow> score \<Rightarrow> score" where
  "gumbel_sample temperature noise logit = map_option (\<lambda>x. x / max temperature (1 / 100000000) + noise) logit"

text \<open>\<open>argmax\<close> takes the first of the largest entries.\<close>

definition argmax :: "nat \<Rightarrow> (nat \<Rightarrow> score) \<Rightarrow> nat" where
  "argmax n f = hd (filter (\<lambda>v. \<forall>w \<in> set [0 ..< n]. f w \<le> f v) [0 ..< n])"

definition max_entry :: "nat \<Rightarrow> (nat \<Rightarrow> score) \<Rightarrow> score" where
  "max_entry n f = Max (set (map f [0 ..< n]))"

text \<open>What is documented of \<open>torch.topk\<close>: \<open>k\<close> distinct positions, none beaten by one left out.\<close>

definition largest_k :: "(score list \<Rightarrow> nat \<Rightarrow> nat list) \<Rightarrow> bool" where
  "largest_k topk \<longleftrightarrow> (\<forall>xs k. k \<le> length xs \<longrightarrow>
     distinct (topk xs k) \<and> length (topk xs k) = k \<and> set (topk xs k) \<subseteq> {..< length xs}
     \<and> (\<forall>i \<in> set (topk xs k). \<forall>j < length xs. j \<notin> set (topk xs k) \<longrightarrow> xs ! j \<le> xs ! i))"

section \<open>One row\<close>

text \<open>The distribution at a codebook and frame of the target: guided, with the mask class ruled out.\<close>

definition class_scores ::
  "gen_config \<Rightarrow> (rat \<Rightarrow> (nat \<Rightarrow> rat) \<Rightarrow> (nat \<Rightarrow> rat) \<Rightarrow> nat \<Rightarrow> rat) \<Rightarrow> (nat \<Rightarrow> rat) \<Rightarrow> (nat \<Rightarrow> rat) \<Rightarrow> nat \<Rightarrow> score" where
  "class_scores cfg guide c_log_probs u_log_probs v =
     (if v = audio_mask_id cfg then None
      else Some ((if guidance_scale cfg \<noteq> 0 then guide (guidance_scale cfg) c_log_probs u_log_probs
                  else c_log_probs) v))"

definition pred_token :: "gen_config \<Rightarrow> (nat \<Rightarrow> rat) \<Rightarrow> (nat \<Rightarrow> score) \<Rightarrow> nat" where
  "pred_token cfg noise log_probs =
     (if class_temperature cfg > 0
      then argmax (audio_vocab_size cfg) (\<lambda>v. gumbel_sample (class_temperature cfg) (noise v) (log_probs v))
      else argmax (audio_vocab_size cfg) log_probs)"

definition position_score :: "gen_config \<Rightarrow> rat \<Rightarrow> nat \<Rightarrow> (nat \<Rightarrow> score) \<Rightarrow> score" where
  "position_score cfg noise layer log_probs =
     (let s = map_option (\<lambda>x. x - of_nat layer * layer_penalty_factor cfg)
                (max_entry (audio_vocab_size cfg) log_probs)
      in if position_temperature cfg > 0 then gumbel_sample (position_temperature cfg) noise s else s)"

definition flat_scores ::
  "gen_config \<Rightarrow> noise \<Rightarrow> nat \<Rightarrow> nat \<Rightarrow> nat \<Rightarrow> (nat \<Rightarrow> nat \<Rightarrow> nat \<Rightarrow> score) \<Rightarrow> tokens \<Rightarrow> score list" where
  "flat_scores cfg nz f_start f_end t_len log_probs sample_tokens =
     map (\<lambda>j. let c = j div t_len; p = j mod t_len
              in if sample_tokens c p \<noteq> audio_mask_id cfg \<or> p < f_start \<or> f_end \<le> p then None
                 else position_score cfg (position_noise nz c p) c (log_probs c p))
       [0 ..< num_audio_codebook cfg * t_len]"

text \<open>The step of one request: the tokens of the chosen places become the predicted ones.\<close>

definition unmask_row ::
  "gen_config \<Rightarrow> (score list \<Rightarrow> nat \<Rightarrow> nat list) \<Rightarrow> noise \<Rightarrow> nat \<times> nat \<times> int \<Rightarrow> nat
   \<Rightarrow> (nat \<Rightarrow> nat \<Rightarrow> nat \<Rightarrow> score) \<Rightarrow> tokens \<Rightarrow> tokens res" where
  "unmask_row cfg topk nz step t_len log_probs sample_tokens =
     (case step of (f_start, f_end, k) \<Rightarrow>
       let scores = flat_scores cfg nz f_start f_end t_len log_probs sample_tokens
       in if nat k > length scores then Inl RuntimeError
          else let topk_idx = topk scores (nat k)
               in Inr (\<lambda>c p. if p < t_len \<and> c * t_len + p \<in> set topk_idx
                              then pred_token cfg (class_noise nz c p) (log_probs c p)
                              else sample_tokens c p))"

section \<open>One step of a batch\<close>

record gen_batch =
  seq_len :: nat
  in_audio_mask :: audio_mask
  in_attention_mask :: attention_mask
  target_lens :: "nat list"
  step_indices :: "nat list"
  step_plans :: "plan list"
  c_lens :: "nat list"

text \<open>
  The loop body for one request, on its conditional ids, its unconditional ids and its tokens. Nothing is
  written when the step is past the plan or has no budget.
\<close>

type_synonym row = "tokens \<times> tokens \<times> tokens"

definition update_row ::
  "gen_config \<Rightarrow> (rat \<Rightarrow> (nat \<Rightarrow> rat) \<Rightarrow> (nat \<Rightarrow> rat) \<Rightarrow> nat \<Rightarrow> rat) \<Rightarrow> (score list \<Rightarrow> nat \<Rightarrow> nat list) \<Rightarrow> noise
   \<Rightarrow> plan \<Rightarrow> nat \<Rightarrow> nat \<Rightarrow> nat \<Rightarrow> (nat \<Rightarrow> nat \<Rightarrow> nat \<Rightarrow> rat) \<Rightarrow> (nat \<Rightarrow> nat \<Rightarrow> nat \<Rightarrow> rat) \<Rightarrow> row \<Rightarrow> row res" where
  "update_row cfg guide topk nz plan step_index c_len t_len cond_log_probs uncond_log_probs =
     (\<lambda>(cond, uncond, toks).
       if step_index \<ge> length plan then Inr (cond, uncond, toks)
       else if snd (snd (plan ! step_index)) \<le> 0 then Inr (cond, uncond, toks)
       else bind_res
         (unmask_row cfg topk nz (plan ! step_index) t_len
            (\<lambda>c p. class_scores cfg guide (cond_log_probs c (c_len - t_len + p)) (uncond_log_probs c p)) toks)
         (\<lambda>sample_tokens. Inr
            (\<lambda>c p. if c_len - t_len \<le> p \<and> p < c_len then sample_tokens c (p - (c_len - t_len)) else cond c p,
             \<lambda>c p. if p < t_len then sample_tokens c p else uncond c p,
             sample_tokens)))"

text \<open>The requests are treated one after the other; the predictions were made before the first.\<close>

fun unmask_rows ::
  "gen_config \<Rightarrow> (rat \<Rightarrow> (nat \<Rightarrow> rat) \<Rightarrow> (nat \<Rightarrow> rat) \<Rightarrow> nat \<Rightarrow> rat) \<Rightarrow> (score list \<Rightarrow> nat \<Rightarrow> nat list)
   \<Rightarrow> (nat \<Rightarrow> noise) \<Rightarrow> gen_batch \<Rightarrow> (nat \<Rightarrow> nat \<Rightarrow> nat \<Rightarrow> nat \<Rightarrow> rat) \<Rightarrow> nat list
   \<Rightarrow> batch_ids \<times> batch_ids \<Rightarrow> (batch_ids \<times> batch_ids) res" where
  "unmask_rows cfg guide topk nz b log_probs [] st = Inr st"
| "unmask_rows cfg guide topk nz b log_probs (i # is) st =
     (let B = length (target_lens b)
      in bind_res
           (update_row cfg guide topk (nz i) (step_plans b ! i) (step_indices b ! i) (c_lens b ! i)
              (target_lens b ! i) (log_probs i) (log_probs (B + i)) (fst st i, fst st (B + i), snd st i))
           (\<lambda>(cond, uncond, toks).
              unmask_rows cfg guide topk nz b log_probs is
                ((fst st)(i := cond, B + i := uncond), (snd st)(i := toks))))"

definition unmask_step ::
  "gen_config \<Rightarrow> net \<Rightarrow> (rat \<Rightarrow> (nat \<Rightarrow> rat) \<Rightarrow> (nat \<Rightarrow> rat) \<Rightarrow> nat \<Rightarrow> rat) \<Rightarrow> (score list \<Rightarrow> nat \<Rightarrow> nat list)
   \<Rightarrow> (nat \<Rightarrow> noise) \<Rightarrow> gen_batch \<Rightarrow> batch_ids \<times> batch_ids \<Rightarrow> (batch_ids \<times> batch_ids) res" where
  "unmask_step cfg net guide topk nz b st =
     (let B = length (target_lens b)
      in unmask_rows cfg guide topk nz b
           (net (2 * B) (seq_len b) (fst st) (in_audio_mask b) (in_attention_mask b)) [0 ..< B] st)"

section \<open>The whole generation\<close>

fun forward_loop ::
  "gen_config \<Rightarrow> net \<Rightarrow> (rat \<Rightarrow> (nat \<Rightarrow> rat) \<Rightarrow> (nat \<Rightarrow> rat) \<Rightarrow> nat \<Rightarrow> rat) \<Rightarrow> (score list \<Rightarrow> nat \<Rightarrow> nat list)
   \<Rightarrow> (nat \<Rightarrow> nat \<Rightarrow> noise) \<Rightarrow> gen_batch \<Rightarrow> nat list \<Rightarrow> batch_ids \<times> batch_ids \<Rightarrow> (batch_ids \<times> batch_ids) res" where
  "forward_loop cfg net guide topk nz b [] st = Inr st"
| "forward_loop cfg net guide topk nz b (s # ss) st =
     bind_res (unmask_step cfg net guide topk (nz s)
                (b\<lparr>step_indices := replicate (length (target_lens b)) s\<rparr>) st)
       (forward_loop cfg net guide topk nz b ss)"

text \<open>With \<open>block_debug\<close> the result is searched for masks that were left.\<close>

definition residual_mask :: "gen_config \<Rightarrow> nat \<Rightarrow> tokens \<Rightarrow> bool" where
  "residual_mask cfg t_len toks \<longleftrightarrow>
     (\<exists>c \<in> set [0 ..< num_audio_codebook cfg]. \<exists>p \<in> set [0 ..< t_len]. toks c p = audio_mask_id cfg)"

definition generator_forward ::
  "gen_config \<Rightarrow> net \<Rightarrow> (rat \<Rightarrow> (nat \<Rightarrow> rat) \<Rightarrow> (nat \<Rightarrow> rat) \<Rightarrow> nat \<Rightarrow> rat) \<Rightarrow> (score list \<Rightarrow> nat \<Rightarrow> nat list)
   \<Rightarrow> (nat \<Rightarrow> nat \<Rightarrow> noise) \<Rightarrow> (nat \<Rightarrow> rat list) \<Rightarrow> int option \<Rightarrow> int option option \<Rightarrow> bool
   \<Rightarrow> nat \<Rightarrow> batch_ids \<Rightarrow> audio_mask \<Rightarrow> attention_mask \<Rightarrow> nat list \<Rightarrow> nat \<Rightarrow> batch_ids res" where
  "generator_forward cfg net guide topk nz ts block_env first_env block_debug len ids am attn lens num_step =
     bind_res (build_step_plans ts block_env first_env (num_audio_codebook cfg) lens num_step) (\<lambda>plans.
       let b = \<lparr>seq_len = len, in_audio_mask = am, in_attention_mask = attn, target_lens = lens,
                step_indices = [], step_plans = plans,
                c_lens = map (\<lambda>i. length (filter (attn i 0) [0 ..< len])) [0 ..< length lens]\<rparr>;
           total_steps = Max (set (map length plans))
       in bind_res
            (forward_loop cfg net guide topk nz b [0 ..< total_steps] (ids, (\<lambda>i c p. audio_mask_id cfg)))
            (\<lambda>(ids1, toks).
               if block_debug \<and> (\<exists>i \<in> set [0 ..< length lens]. residual_mask cfg (lens ! i) (toks i))
               then Inl RuntimeError else Inr toks))"

section \<open>What a step does to a row\<close>

text \<open>A configuration with at least one class besides the mask.\<close>

definition has_class :: "gen_config \<Rightarrow> bool" where
  "has_class cfg \<longleftrightarrow> (\<exists>v < audio_vocab_size cfg. v \<noteq> audio_mask_id cfg)"

lemma argmax_max:
  assumes "0 < n"
  shows "argmax n f < n" and "v < n \<Longrightarrow> f v \<le> f (argmax n f)"
proof -
  let ?P = "\<lambda>v. \<forall>w \<in> set [0 ..< n]. f w \<le> f v"
  have "Max (f ` {0 ..< n}) \<in> f ` {0 ..< n}" using assms by (intro Max_in) simp_all
  then obtain m where m: "m < n" "f m = Max (f ` {0 ..< n})" by auto
  then have "?P m" by simp
  with m(1) have "filter ?P [0 ..< n] \<noteq> []" by (auto simp: filter_empty_conv)
  then have "argmax n f \<in> set (filter ?P [0 ..< n])" unfolding argmax_def by (rule hd_in_set)
  then show "argmax n f < n" and "v < n \<Longrightarrow> f v \<le> f (argmax n f)" by simp_all
qed

lemma argmax_not_None:
  assumes "v < n" and "f v \<noteq> None"
  shows "f (argmax n f) \<noteq> None"
proof -
  have "f v \<le> f (argmax n f)" using assms(1) by (intro argmax_max) simp_all
  with assms(2) show ?thesis by (cases "f (argmax n f)") auto
qed

lemma pred_not_mask:
  assumes "has_class cfg"
  shows "pred_token cfg nz (class_scores cfg guide c u) \<noteq> audio_mask_id cfg"
proof -
  obtain v where v: "v < audio_vocab_size cfg" "v \<noteq> audio_mask_id cfg" using assms by (auto simp: has_class_def)
  have some: "class_scores cfg guide c u w \<noteq> None \<longleftrightarrow> w \<noteq> audio_mask_id cfg" for w
    by (simp add: class_scores_def)
  show ?thesis
  proof (cases "class_temperature cfg > 0")
    case True
    let ?f = "\<lambda>v. gumbel_sample (class_temperature cfg) (nz v) (class_scores cfg guide c u v)"
    have "?f (argmax (audio_vocab_size cfg) ?f) \<noteq> None"
      by (rule argmax_not_None [OF v(1)]) (simp add: gumbel_sample_def class_scores_def v(2))
    then show ?thesis using True some by (auto simp: pred_token_def gumbel_sample_def)
  next
    case False
    have "class_scores cfg guide c u (argmax (audio_vocab_size cfg) (class_scores cfg guide c u)) \<noteq> None"
      by (rule argmax_not_None [OF v(1)]) (simp add: class_scores_def v(2))
    then show ?thesis using False some by (simp add: pred_token_def)
  qed
qed

lemma position_score_Some:
  assumes "has_class cfg"
  shows "position_score cfg nz layer (class_scores cfg guide c u) \<noteq> None"
proof -
  obtain v where v: "v < audio_vocab_size cfg" "v \<noteq> audio_mask_id cfg" using assms by (auto simp: has_class_def)
  let ?s = "class_scores cfg guide c u"
  have "?s v \<le> max_entry (audio_vocab_size cfg) ?s"
    unfolding max_entry_def using v(1) by (intro Max_ge) simp_all
  moreover have "?s v \<noteq> None" using v(2) by (simp add: class_scores_def)
  ultimately have "max_entry (audio_vocab_size cfg) ?s \<noteq> None"
    by (cases "max_entry (audio_vocab_size cfg) ?s") auto
  then show ?thesis by (auto simp: position_score_def gumbel_sample_def Let_def)
qed

text \<open>The places of a range of frames that are still masked.\<close>

definition masked :: "gen_config \<Rightarrow> nat \<Rightarrow> nat \<Rightarrow> tokens \<Rightarrow> (nat \<times> nat) set" where
  "masked cfg a b toks =
     {(c, p). c < num_audio_codebook cfg \<and> a \<le> p \<and> p < b \<and> toks c p = audio_mask_id cfg}"

lemma finite_masked [simp]: "finite (masked cfg a b toks)"
  by (rule finite_subset [of _ "{..< num_audio_codebook cfg} \<times> {..< b}"]) (auto simp: masked_def)

lemma masked_places:
  fixes cfg :: gen_config and toks :: tokens and a b t :: nat
  assumes "b \<le> t"
  defines "E \<equiv> {j. j < num_audio_codebook cfg * t \<and> a \<le> j mod t \<and> j mod t < b
    \<and> toks (j div t) (j mod t) = audio_mask_id cfg}"
  shows "bij_betw (\<lambda>j. (j div t, j mod t)) E (masked cfg a b toks)"
proof (rule bij_betw_byWitness [where f' = "\<lambda>(c, p). c * t + p"])
  show "\<forall>j \<in> E. (\<lambda>(c, p). c * t + p) (j div t, j mod t) = j" by simp
  show "\<forall>y \<in> masked cfg a b toks. (\<lambda>j. (j div t, j mod t)) ((\<lambda>(c, p). c * t + p) y) = y"
    using assms(1) by (auto simp: masked_def)
  show "(\<lambda>j. (j div t, j mod t)) ` E \<subseteq> masked cfg a b toks"
    by (auto simp: E_def masked_def less_mult_imp_div_less)
  show "(\<lambda>(c, p). c * t + p) ` masked cfg a b toks \<subseteq> E"
  proof clarify
    fix c p assume "(c, p) \<in> masked cfg a b toks"
    then have x: "c < num_audio_codebook cfg" "a \<le> p" "p < b" "toks c p = audio_mask_id cfg"
      by (simp_all add: masked_def)
    have "c * t + p < Suc c * t" using x(3) assms(1) by simp
    also have "\<dots> \<le> num_audio_codebook cfg * t" using x(1) by (intro mult_le_mono1) simp
    finally show "c * t + p \<in> E" using x assms(1) by (simp add: E_def)
  qed
qed

text \<open>\<open>topk\<close> never takes a minus infinity when there are \<open>k\<close> other entries.\<close>

lemma topk_avoids_None:
  assumes "largest_k topk" and "k \<le> card {j. j < length xs \<and> xs ! j \<noteq> None}"
  shows "distinct (topk xs k)" and "length (topk xs k) = k"
    and "set (topk xs k) \<subseteq> {j. j < length xs \<and> xs ! j \<noteq> None}"
proof -
  let ?E = "{j. j < length xs \<and> xs ! j \<noteq> None}"
  have "card ?E \<le> card {..< length xs}" by (intro card_mono) auto
  then have k: "k \<le> length xs" using assms(2) by simp
  then have T: "distinct (topk xs k)" "length (topk xs k) = k" "set (topk xs k) \<subseteq> {..< length xs}"
    "\<forall>i \<in> set (topk xs k). \<forall>j < length xs. j \<notin> set (topk xs k) \<longrightarrow> xs ! j \<le> xs ! i"
    using assms(1) by (auto simp: largest_k_def)
  show "distinct (topk xs k)" "length (topk xs k) = k" by (fact T)+
  show "set (topk xs k) \<subseteq> ?E"
  proof (rule ccontr)
    assume "\<not> set (topk xs k) \<subseteq> ?E"
    then obtain i where i: "i \<in> set (topk xs k)" "i \<notin> ?E" by blast
    then have none: "xs ! i = None" using T(3) by auto
    have "card (set (topk xs k)) = k" using T(1,2) by (simp add: distinct_card)
    moreover have "set (topk xs k) \<inter> ?E \<subset> set (topk xs k)" using i by blast
    ultimately have "card (set (topk xs k) \<inter> ?E) < k" by (metis finite_set psubset_card_mono)
    with assms(2) have "\<not> ?E \<subseteq> set (topk xs k)" by (metis inf.absorb2 linorder_not_le)
    then obtain j where "j < length xs" "xs ! j \<noteq> None" "j \<notin> set (topk xs k)" by blast
    then have "xs ! j \<le> None" using T(4) i(1) none by metis
    with \<open>xs ! j \<noteq> None\<close> show False by (cases "xs ! j") auto
  qed
qed

lemma unmask_row_ok:
  assumes "largest_k topk" and "has_class cfg" and "b \<le> t" and "0 \<le> k" and "k \<le> int (card (masked cfg a b toks))"
    and lp: "\<And>c p. \<exists>x y. lp c p = class_scores cfg guide x y"
  obtains toks' where "unmask_row cfg topk nz (a, b, k) t lp toks = Inr toks'"
    and "\<And>c p. toks' c p \<noteq> toks c p \<Longrightarrow> (c, p) \<in> masked cfg a b toks"
    and "\<And>c p. toks' c p = audio_mask_id cfg \<Longrightarrow> toks c p = audio_mask_id cfg"
    and "int (card (masked cfg a b toks')) = int (card (masked cfg a b toks)) - k"
proof -
  define xs where "xs = flat_scores cfg nz a b t lp toks"
  define E where "E = {j. j < num_audio_codebook cfg * t \<and> a \<le> j mod t \<and> j mod t < b
    \<and> toks (j div t) (j mod t) = audio_mask_id cfg}"
  define f where "f = (\<lambda>j. (j div t, j mod t))"
  have len: "length xs = num_audio_codebook cfg * t" by (simp add: xs_def flat_scores_def)
  have some: "position_score cfg z layer (lp c p) \<noteq> None" for z layer c p
    using lp [of c p] position_score_Some [OF assms(2)] by auto
  have "xs ! j \<noteq> None \<longleftrightarrow> a \<le> j mod t \<and> j mod t < b \<and> toks (j div t) (j mod t) = audio_mask_id cfg"
    if "j < num_audio_codebook cfg * t" for j
    using that some by (auto simp: xs_def flat_scores_def Let_def)
  then have E: "{j. j < length xs \<and> xs ! j \<noteq> None} = E" by (auto simp: E_def len)
  have bij: "bij_betw f E (masked cfg a b toks)" unfolding f_def E_def by (rule masked_places [OF assms(3)])
  then have cardE: "card E = card (masked cfg a b toks)" by (rule bij_betw_same_card)
  let ?T = "set (topk xs (nat k))"
  have kE: "nat k \<le> card {j. j < length xs \<and> xs ! j \<noteq> None}" using assms(4,5) unfolding E cardE by simp
  note T = topk_avoids_None [OF assms(1) kE, unfolded E]
  have "card E \<le> card {..< length xs}" by (intro card_mono) (auto simp: E_def len)
  then have "nat k \<le> length xs" using kE unfolding E by simp
  define toks' where "toks' = (\<lambda>c p. if p < t \<and> c * t + p \<in> ?T
    then pred_token cfg (class_noise nz c p) (lp c p) else toks c p)"
  have in_T: "(p < t \<and> c * t + p \<in> ?T) \<longleftrightarrow> (c, p) \<in> f ` ?T" for c p
  proof
    assume "p < t \<and> c * t + p \<in> ?T"
    moreover from this have "f (c * t + p) = (c, p)" by (simp add: f_def)
    ultimately show "(c, p) \<in> f ` ?T" by (metis imageI)
  next
    assume "(c, p) \<in> f ` ?T"
    then obtain j where "j \<in> ?T" "c = j div t" "p = j mod t" by (auto simp: f_def)
    moreover from this have "p < b" using T(3) by (auto simp: E_def)
    ultimately show "p < t \<and> c * t + p \<in> ?T" using assms(3) by simp
  qed
  have fT: "f ` ?T \<subseteq> masked cfg a b toks" using T(3) bij by (auto simp: bij_betw_def)
  have pred: "pred_token cfg z (lp c p) \<noteq> audio_mask_id cfg" for z c p
    using lp [of c p] pred_not_mask [OF assms(2)] by auto
  have toks': "toks' c p = (if (c, p) \<in> f ` ?T then pred_token cfg (class_noise nz c p) (lp c p) else toks c p)" for c p
    unfolding toks'_def in_T [symmetric] ..
  have "masked cfg a b toks' = masked cfg a b toks - f ` ?T"
    using pred by (auto simp: masked_def toks' split: if_splits)
  then have "card (masked cfg a b toks') = card (masked cfg a b toks) - card (f ` ?T)"
    using fT by (simp add: card_Diff_subset)
  moreover have "card (f ` ?T) = nat k"
    using bij T by (metis bij_betw_imp_inj_on card_image distinct_card inj_on_subset)
  moreover have "card (f ` ?T) \<le> card (masked cfg a b toks)" by (rule card_mono [OF finite_masked fT])
  ultimately have card: "int (card (masked cfg a b toks')) = int (card (masked cfg a b toks)) - k"
    using assms(4) by simp
  show thesis
  proof (rule that [of toks'])
    show "unmask_row cfg topk nz (a, b, k) t lp toks = Inr toks'"
      using \<open>nat k \<le> length xs\<close> by (simp add: unmask_row_def Let_def xs_def toks'_def not_less)
    show "(c, p) \<in> masked cfg a b toks" if "toks' c p \<noteq> toks c p" for c p
      using that fT by (auto simp: toks' split: if_splits)
    show "toks c p = audio_mask_id cfg" if "toks' c p = audio_mask_id cfg" for c p
      using that pred by (auto simp: toks' split: if_splits)
  qed (fact card)
qed

section \<open>A step of a row keeps the schedule\<close>

text \<open>
  Before step \<open>s\<close> each block has as many masks as its remaining steps will take away, nothing is
  unmasked before its block's turn, and the network's inputs show the tokens.
\<close>

definition on_schedule :: "gen_config \<Rightarrow> plan \<Rightarrow> nat \<Rightarrow> tokens \<Rightarrow> bool" where
  "on_schedule cfg plan s toks \<longleftrightarrow>
     (\<forall>(a, b, k) \<in> set plan. int (card (masked cfg a b toks)) = budget (a, b) (drop s plan))"

definition synced :: "nat \<Rightarrow> nat \<Rightarrow> row \<Rightarrow> bool" where
  "synced c_len t_len = (\<lambda>(cond, uncond, toks).
     \<forall>c. \<forall>p < t_len. cond c (c_len - t_len + p) = toks c p \<and> uncond c p = toks c p)"

lemma on_scheduleD:
  "on_schedule cfg plan s toks \<Longrightarrow> (a, b, k) \<in> set plan
    \<Longrightarrow> int (card (masked cfg a b toks)) = budget (a, b) (drop s plan)"
  unfolding on_schedule_def by blast

lemma budget_nonneg: "\<forall>(a, b, k) \<in> set plan. 0 \<le> k \<Longrightarrow> 0 \<le> budget r plan"
  by (induction plan) auto

lemma masked_disjoint_unchanged:
  assumes "\<And>c p. toks' c p \<noteq> toks c p \<Longrightarrow> (c, p) \<in> masked cfg a b toks" and "b \<le> a' \<or> b' \<le> a"
  shows "masked cfg a' b' toks' = masked cfg a' b' toks"
proof -
  have "toks' c p = toks c p" if "a' \<le> p" "p < b'" for c p
    using assms that by (force simp: masked_def)
  then show ?thesis by (auto simp: masked_def)
qed

lemma update_row_on_schedule:
  assumes plan: "plan_ok (num_audio_codebook cfg) t plan" and topk: "largest_k topk" and cls: "has_class cfg"
    and sched: "on_schedule cfg plan s toks" and sync: "synced c_len t (cond, uncond, toks)" and len: "t \<le> c_len"
  obtains cond' uncond' toks' where
    "update_row cfg guide topk nz plan s c_len t lc lu (cond, uncond, toks) = Inr (cond', uncond', toks')"
    and "on_schedule cfg plan (Suc s) toks'" and "synced c_len t (cond', uncond', toks')"
    and "\<And>c p. toks' c p \<noteq> toks c p \<Longrightarrow> s < length plan \<and> toks c p = audio_mask_id cfg
        \<and> fst (plan ! s) \<le> p \<and> p < fst (snd (plan ! s))"
    and "\<And>c p. toks' c p = audio_mask_id cfg \<Longrightarrow> toks c p = audio_mask_id cfg"
proof (cases "s < length plan")
  case False
  then show thesis
    using sched sync by (intro that [of cond uncond toks]) (simp_all add: update_row_def on_schedule_def)
next
  case True
  obtain a b k where step: "plan ! s = (a, b, k)" by (rule prod_cases3)
  have mem: "(a, b, k) \<in> set plan" using True step by (metis nth_mem)
  have drop: "drop s plan = (a, b, k) # drop (Suc s) plan" using True step by (simp add: Cons_nth_drop_Suc [symmetric])
  have b: "b \<le> t" "0 \<le> k" using plan mem by (auto simp: plan_ok_def)
  have rest: "0 \<le> budget (a, b) (drop (Suc s) plan)"
    using plan by (intro budget_nonneg) (fastforce simp: plan_ok_def dest: in_set_dropD)
  have card: "int (card (masked cfg a b toks)) = k + budget (a, b) (drop (Suc s) plan)"
    using sched mem drop by (fastforce simp: on_schedule_def)
  show thesis
  proof (cases "k = 0")
    case k0: True
    then have "on_schedule cfg plan (Suc s) toks" using sched drop by (auto simp: on_schedule_def)
    with True step sync k0 show thesis by (intro that [of cond uncond toks]) (simp_all add: update_row_def)
  next
    case k0: False
    let ?lp = "\<lambda>c p. class_scores cfg guide (lc c (c_len - t + p)) (lu c p)"
    obtain toks' where toks': "unmask_row cfg topk nz (a, b, k) t ?lp toks = Inr toks'"
      and ch: "\<And>c p. toks' c p \<noteq> toks c p \<Longrightarrow> (c, p) \<in> masked cfg a b toks"
      and mono: "\<And>c p. toks' c p = audio_mask_id cfg \<Longrightarrow> toks c p = audio_mask_id cfg"
      and card': "int (card (masked cfg a b toks')) = int (card (masked cfg a b toks)) - k"
      by (rule unmask_row_ok [OF topk cls b, of a toks ?lp guide nz]) (use card rest in auto)
    let ?cond = "\<lambda>c p. if c_len - t \<le> p \<and> p < c_len then toks' c (p - (c_len - t)) else cond c p"
    let ?uncond = "\<lambda>c p. if p < t then toks' c p else uncond c p"
    show thesis
    proof (rule that [of ?cond ?uncond toks'])
      show "update_row cfg guide topk nz plan s c_len t lc lu (cond, uncond, toks) = Inr (?cond, ?uncond, toks')"
        using True step b(2) k0 toks' by (simp add: update_row_def)
      have win: "(c_len - t \<le> c_len - t + p) = True" "(c_len - t + p < c_len) = True" "c_len - t + p - (c_len - t) = p"
        if "p < t" for p using that len by auto
      show "synced c_len t (?cond, ?uncond, toks')"
        unfolding synced_def prod.case by (intro allI impI conjI) (simp_all only: win simp_thms if_True)
      show "on_schedule cfg plan (Suc s) toks'"
        unfolding on_schedule_def
      proof safe
        fix a' b' k' assume mem': "(a', b', k') \<in> set plan"
        have old: "int (card (masked cfg a' b' toks)) = budget (a', b') (drop s plan)"
          using sched mem' by (fastforce simp: on_schedule_def)
        consider "(a', b') = (a, b)" | "(a', b') \<noteq> (a, b)" "b \<le> a' \<or> b' \<le> a"
          using plan mem mem' by (fastforce simp: plan_ok_def)
        then show "int (card (masked cfg a' b' toks')) = budget (a', b') (drop (Suc s) plan)"
        proof cases
          case 1
          with card card' show ?thesis by simp
        next
          case 2
          have "masked cfg a' b' toks' = masked cfg a' b' toks"
            by (rule masked_disjoint_unchanged [OF _ 2(2)]) (rule ch)
          moreover have "budget (a', b') (drop s plan) = budget (a', b') (drop (Suc s) plan)"
            unfolding drop budget_simps using 2(1) by (metis add_0)
          ultimately show ?thesis using old by simp
        qed
      qed
      show "s < length plan \<and> toks c p = audio_mask_id cfg \<and> fst (plan ! s) \<le> p \<and> p < fst (snd (plan ! s))"
        if "toks' c p \<noteq> toks c p" for c p using ch [OF that] step True by (simp add: masked_def)
    qed (rule mono)
  qed
qed

section \<open>A step of a batch, row by row\<close>

lemma unmask_rows_rowwise:
  assumes "distinct is" and "set is \<subseteq> {..< B}" and "B = length (target_lens b)"
    and "\<And>i. i \<in> set is \<Longrightarrow> update_row cfg guide topk (nz i) (step_plans b ! i) (step_indices b ! i) (c_lens b ! i)
      (target_lens b ! i) (lp i) (lp (B + i)) (fst st i, fst st (B + i), snd st i) = Inr (r i)"
  shows "\<exists>ids toks. unmask_rows cfg guide topk nz b lp is st = Inr (ids, toks)
    \<and> (\<forall>i \<in> set is. (ids i, ids (B + i), toks i) = r i)
    \<and> (\<forall>j < B. j \<notin> set is \<longrightarrow> ids j = fst st j \<and> ids (B + j) = fst st (B + j) \<and> toks j = snd st j)"
  using assms
proof (induction "is" arbitrary: st)
  case Nil
  then show ?case by (cases st) simp
next
  case (Cons i "is")
  obtain cond uncond toks0 where r: "r i = (cond, uncond, toks0)" by (rule prod_cases3)
  define st1 where "st1 = ((fst st)(i := cond, B + i := uncond), (snd st)(i := toks0))"
  have "i < B" using Cons.prems(2) by simp
  have other: "fst st1 j = fst st j \<and> fst st1 (B + j) = fst st (B + j) \<and> snd st1 j = snd st j" if "j \<noteq> i" "j < B" for j
    using that \<open>i < B\<close> by (simp add: st1_def)
  have IH: "\<exists>ids toks. unmask_rows cfg guide topk nz b lp is st1 = Inr (ids, toks)
    \<and> (\<forall>i \<in> set is. (ids i, ids (B + i), toks i) = r i)
    \<and> (\<forall>j < B. j \<notin> set is \<longrightarrow> ids j = fst st1 j \<and> ids (B + j) = fst st1 (B + j) \<and> toks j = snd st1 j)"
  proof (rule Cons.IH)
    fix j assume j: "j \<in> set is"
    then have "j \<noteq> i" "j < B" using Cons.prems(1,2) by auto
    then show "update_row cfg guide topk (nz j) (step_plans b ! j) (step_indices b ! j) (c_lens b ! j)
      (target_lens b ! j) (lp j) (lp (B + j)) (fst st1 j, fst st1 (B + j), snd st1 j) = Inr (r j)"
      using Cons.prems(4) [of j] other j by simp
  qed (use Cons.prems in auto)
  then obtain ids toks where IH1: "unmask_rows cfg guide topk nz b lp is st1 = Inr (ids, toks)"
    "\<And>j. j \<in> set is \<Longrightarrow> (ids j, ids (B + j), toks j) = r j"
    "\<And>j. j < B \<Longrightarrow> j \<notin> set is \<Longrightarrow> ids j = fst st1 j \<and> ids (B + j) = fst st1 (B + j) \<and> toks j = snd st1 j"
    by blast
  have "unmask_rows cfg guide topk nz b lp (i # is) st = Inr (ids, toks)"
    using Cons.prems(4) [of i] IH1(1) unfolding st1_def by (simp add: r Cons.prems(3) Let_def)
  moreover have "(ids i, ids (B + i), toks i) = r i"
    using IH1(3) [OF \<open>i < B\<close>] Cons.prems(1) \<open>i < B\<close> by (simp add: st1_def r)
  moreover have "ids j = fst st j \<and> ids (B + j) = fst st (B + j) \<and> toks j = snd st j" if "j < B" "j \<notin> set (i # is)" for j
    using IH1(3) [of j] other [of j] that by simp
  ultimately show ?case using IH1(2) by (metis set_ConsD)
qed

text \<open>What holds of every row of a batch before its step.\<close>

definition batch_ok :: "gen_config \<Rightarrow> gen_batch \<Rightarrow> (nat \<Rightarrow> nat) \<Rightarrow> batch_ids \<times> batch_ids \<Rightarrow> bool" where
  "batch_ok cfg b at_step st \<longleftrightarrow> (\<forall>i < length (target_lens b).
     plan_ok (num_audio_codebook cfg) (target_lens b ! i) (step_plans b ! i) \<and> target_lens b ! i \<le> c_lens b ! i
     \<and> on_schedule cfg (step_plans b ! i) (at_step i) (snd st i)
     \<and> synced (c_lens b ! i) (target_lens b ! i) (fst st i, fst st (length (target_lens b) + i), snd st i))"

lemma unmask_step_on_schedule:
  assumes "largest_k topk" and "has_class cfg" and "batch_ok cfg b (\<lambda>i. step_indices b ! i) st"
  obtains st' where "unmask_step cfg net guide topk nz b st = Inr st'"
    and "batch_ok cfg b (\<lambda>i. Suc (step_indices b ! i)) st'"
proof -
  let ?B = "length (target_lens b)"
  let ?lp = "net (2 * ?B) (seq_len b) (fst st) (in_audio_mask b) (in_attention_mask b)"
  let ?row = "\<lambda>i. (fst st i, fst st (?B + i), snd st i)"
  let ?up = "\<lambda>i. update_row cfg guide topk (nz i) (step_plans b ! i) (step_indices b ! i) (c_lens b ! i)
      (target_lens b ! i) (?lp i) (?lp (?B + i)) (?row i)"
  have ok: "\<exists>r. ?up i = Inr r \<and> on_schedule cfg (step_plans b ! i) (Suc (step_indices b ! i)) (snd (snd r))
      \<and> synced (c_lens b ! i) (target_lens b ! i) r" if i: "i < ?B" for i
  proof -
    have inv: "plan_ok (num_audio_codebook cfg) (target_lens b ! i) (step_plans b ! i)"
      "on_schedule cfg (step_plans b ! i) (step_indices b ! i) (snd st i)"
      "synced (c_lens b ! i) (target_lens b ! i) (?row i)" "target_lens b ! i \<le> c_lens b ! i"
      using assms(3) i by (simp_all add: batch_ok_def)
    show ?thesis
      by (rule update_row_on_schedule [OF inv(1) assms(1,2) inv(2-4), of guide "nz i" "?lp i" "?lp (?B + i)"])
        (metis snd_conv)
  qed
  define r where "r i = projr (?up i)" for i
  have r: "?up i = Inr (r i) \<and> on_schedule cfg (step_plans b ! i) (Suc (step_indices b ! i)) (snd (snd (r i)))
      \<and> synced (c_lens b ! i) (target_lens b ! i) (r i)" if "i < ?B" for i
    using ok [OF that] by (auto simp: r_def)
  obtain ids toks where res: "unmask_rows cfg guide topk nz b ?lp [0 ..< ?B] st = Inr (ids, toks)"
    and rows: "\<forall>i \<in> set [0 ..< ?B]. (ids i, ids (?B + i), toks i) = r i"
  proof -
    have sub: "set [0 ..< ?B] \<subseteq> {..< ?B}" by auto
    have "?up i = Inr (r i)" if "i \<in> set [0 ..< ?B]" for i using r [of i] that by simp
    from unmask_rows_rowwise [OF distinct_upt sub refl this] that show thesis by blast
  qed
  show thesis
  proof (rule that [of "(ids, toks)"])
    show "unmask_step cfg net guide topk nz b st = Inr (ids, toks)"
      using res by (simp add: unmask_step_def Let_def)
    show "batch_ok cfg b (\<lambda>i. Suc (step_indices b ! i)) (ids, toks)"
      unfolding batch_ok_def
    proof (intro allI impI)
      fix i assume i: "i < ?B"
      then have "r i = (ids i, ids (?B + i), toks i)" using rows by simp
      with r [OF i] i assms(3) show "plan_ok (num_audio_codebook cfg) (target_lens b ! i) (step_plans b ! i)
        \<and> target_lens b ! i \<le> c_lens b ! i
        \<and> on_schedule cfg (step_plans b ! i) (Suc (step_indices b ! i)) (snd (ids, toks) i)
        \<and> synced (c_lens b ! i) (target_lens b ! i) (fst (ids, toks) i, fst (ids, toks) (?B + i), snd (ids, toks) i)"
        by (simp add: batch_ok_def)
    qed
  qed
qed

section \<open>Where a schedule ends\<close>

lemma on_schedule_init:
  assumes "plan_ok (num_audio_codebook cfg) t plan"
  shows "on_schedule cfg plan 0 (\<lambda>c p. audio_mask_id cfg)"
proof -
  have "masked cfg a b (\<lambda>c p. audio_mask_id cfg) = {..< num_audio_codebook cfg} \<times> {a ..< b}" for a b
    by (auto simp: masked_def)
  then show ?thesis
    using plan_ok_step [OF assms] by (auto simp: on_schedule_def card_cartesian_product of_nat_diff less_imp_le)
qed

lemma no_mask_left:
  assumes "plan_ok (num_audio_codebook cfg) t plan" and "on_schedule cfg plan s toks"
    and "p < t" "c < num_audio_codebook cfg"
    and gone: "\<And>a b k. (a, b, k) \<in> set plan \<Longrightarrow> a \<le> p \<Longrightarrow> p < b \<Longrightarrow> budget (a, b) (drop s plan) = 0"
  shows "toks c p \<noteq> audio_mask_id cfg"
proof -
  obtain a b k where x: "(a, b, k) \<in> set plan" "a \<le> p" "p < b" by (rule plan_ok_cover [OF assms(1,3)])
  have "int (card (masked cfg a b toks)) = 0"
    unfolding on_scheduleD [OF assms(2) x(1)] by (rule gone [OF x])
  then have "masked cfg a b toks = {}" by simp
  with x assms(4) show ?thesis by (auto simp: masked_def)
qed

lemma schedule_done:
  assumes "plan_ok (num_audio_codebook cfg) t plan" and "on_schedule cfg plan s toks" and "length plan \<le> s"
  shows "\<not> residual_mask cfg t toks"
  using no_mask_left [OF assms(1,2)] assms(3) by (auto simp: residual_mask_def)

text \<open>When a block is complete, everything up to its end is unmasked.\<close>

lemma block_complete:
  assumes plan: "plan_ok (num_audio_codebook cfg) t plan" and "on_schedule cfg plan (Suc s) toks"
    and s: "s < length plan" and "is_block_complete plan s"
    and "p < fst (snd (plan ! s))" "c < num_audio_codebook cfg"
  shows "toks c p \<noteq> audio_mask_id cfg"
proof (rule no_mask_left [OF assms(1,2)])
  obtain a b k where cur: "plan ! s = (a, b, k)" by (rule prod_cases3)
  have mem: "(a, b, k) \<in> set plan" using s cur by (metis nth_mem)
  then show "p < t" using plan_ok_step(2) [OF plan mem] assms(5) cur by simp
  fix a' b' k' assume x: "(a', b', k') \<in> set plan" "a' \<le> p" "p < b'"
  show "budget (a', b') (drop (Suc s) plan) = 0"
  proof (cases "Suc s < length plan")
    case False
    then show ?thesis by simp
  next
    case True
    obtain a1 b1 k1 where nxt: "plan ! Suc s = (a1, b1, k1)" by (rule prod_cases3)
    have mem1: "(a1, b1, k1) \<in> set plan" using True nxt by (metis nth_mem)
    have "(a, b) \<noteq> (a1, b1)" using assms(4) True cur nxt by (auto simp: is_block_complete_def)
    moreover have sorted: "sorted (map fst plan)" using plan by (simp add: plan_ok_def)
    then have "a \<le> a1" using sorted_nth_mono [OF sorted, of s "Suc s"] True cur nxt by simp
    moreover note plan_ok_disjoint [OF plan mem mem1] plan_ok_step(1) [OF plan mem1]
    ultimately have ba: "b \<le> a1" by auto
    show ?thesis
    proof (rule budget_absent)
      fix k2 show "(fst (a', b'), snd (a', b'), k2) \<notin> set (drop (Suc s) plan)"
      proof
        assume "(fst (a', b'), snd (a', b'), k2) \<in> set (drop (Suc s) plan)"
        then obtain i where "i < length plan - Suc s" "plan ! (Suc s + i) = (a', b', k2)"
          by (auto simp: in_set_conv_nth)
        then obtain j where j: "j < length plan" "Suc s \<le> j" "plan ! j = (a', b', k2)"
          by (intro that [of "Suc s + i"]) auto
        then have "a1 \<le> a'" using sorted_nth_mono [OF sorted, of "Suc s" j] nxt by simp
        with ba x(2) assms(5) cur show False by simp
      qed
    qed
  qed
qed fact

end
