(* ===== verification/Omnivoice_Pipeline.thy ===== *)
theory Omnivoice_Pipeline
  imports Omnivoice_Unmask
begin

text \<open>
  \<open>OmniVoicePipeline\<close> (\<open>pipeline_omnivoice.py\<close>): the preparation of a request, the batched tensors,
  the generation of whole requests (\<open>forward\<close>) and the step-wise execution of a changing batch
  (\<open>execute_step_batch\<close>) with its streamed audio. The tokenizer \<open>encode\<close>, the duration estimate
  \<open>estimate\<close>, the audio tokenizer \<open>encode_audio\<close> (\<open>None\<close> when it is not installed) and the audio
  decoder \<open>decoder\<close>, which returns the samples for some first frames, are arguments. Voice names are
  ASCII.
\<close>

section \<open>Voice presets and prompts\<close>

text \<open>Reference audio is a number of frames with its tokens.\<close>

type_synonym ref_tokens = "nat \<times> tokens"

record preset =
  preset_tokens :: ref_tokens
  preset_ref_text :: text_t
  preset_lang :: "text_t option"
  preset_instruct :: "text_t option"

definition resolve_voice_preset ::
  "(string \<times> preset) list \<Rightarrow> string \<Rightarrow> string option \<Rightarrow> preset option res" where
  "resolve_voice_preset presets default_voice voice =
     (if presets = [] then Inr None
      else
        let voice_name0 = (case voice of None \<Rightarrow> [] | Some v \<Rightarrow> py_strip v);
            has_default = (''default'' \<in> set (map fst presets));
            voice_name =
              (if voice_name0 = []
               then (if default_voice \<noteq> [] then default_voice else if has_default then ''default'' else [])
               else if map py_lower voice_name0 = ''default'' \<and> \<not> has_default \<and> default_voice \<noteq> []
               then default_voice else voice_name0)
        in if voice_name = [] then Inr None
           else (case map_of presets (map py_lower voice_name) of
                   None \<Rightarrow> Inl ValueError
                 | Some preset \<Rightarrow> Inr (Some preset)))"

text \<open>
  A prompt is a dictionary or prints as a text. \<open>p_input\<close> and \<open>p_text\<close> are \<open>None\<close> when the key is
  absent and \<open>Some None\<close> when its value is null; for the other keys that makes no difference.
\<close>

record 'audio voice_prompt =
  p_input :: "text_t option option"
  p_text :: "text_t option option"
  p_str :: text_t
  p_ref_audio :: "'audio option"
  p_ref_text :: "text_t option"
  p_lang :: "text_t option"
  p_instruct :: "text_t option"
  p_voice :: "string option"
  p_stream_audio_blocks :: bool
  p_stream_output_enabled :: bool

datatype 'audio prompt_arg = Prompt_Dict "'audio voice_prompt" | Prompt_Other text_t

text \<open>\<open>x or d\<close> for an optional text.\<close>

definition or_text :: "text_t option \<Rightarrow> text_t \<Rightarrow> text_t" where
  "or_text x d = (case x of None \<Rightarrow> d | Some t \<Rightarrow> if t = [] then d else t)"

definition lit :: "string \<Rightarrow> text_t" where
  "lit s = map of_char s"

record prepared =
  cond_ids :: tokens
  uncond_ids :: tokens
  cond_len :: nat
  uncond_len :: nat
  text_len :: nat
  target_len :: nat

definition prompt_text :: "'audio prompt_arg \<Rightarrow> text_t option" where
  "prompt_text prompt = (case prompt of
      Prompt_Other t \<Rightarrow> Some t
    | Prompt_Dict d \<Rightarrow> (case p_input d of
        Some t \<Rightarrow> t
      | None \<Rightarrow> (case p_text d of Some t \<Rightarrow> t | None \<Rightarrow> Some (p_str d))))"

text \<open>The text before the prompt's own: language, instruction and the reference transcript.\<close>

definition prompt_fields ::
  "'audio prompt_arg \<Rightarrow> preset option \<Rightarrow> text_t option \<times> text_t \<times> text_t \<times> 'audio option" where
  "prompt_fields prompt voice_preset =
     (let (ref_audio, ref_text0, lang0, instruct0) = (case prompt of
            Prompt_Other t \<Rightarrow> (None, None, lit ''None'', lit ''None'')
          | Prompt_Dict d \<Rightarrow> (p_ref_audio d, p_ref_text d, or_text (p_lang d) (lit ''None''),
              or_text (p_instruct d) (lit ''None'')))
      in case (voice_preset, ref_audio) of
           (Some v, None) \<Rightarrow>
             (Some (or_text ref_text0 (preset_ref_text v)),
              if lang0 \<noteq> lit ''None'' then lang0 else or_text (preset_lang v) (lit ''None''),
              if instruct0 \<noteq> lit ''None'' then instruct0 else or_text (preset_instruct v) (lit ''None''),
              None)
         | _ \<Rightarrow> (ref_text0, lang0, instruct0, ref_audio))"

definition full_prompt :: "text_t option \<Rightarrow> text_t \<Rightarrow> text_t \<Rightarrow> text_t \<Rightarrow> text_t" where
  "full_prompt ref_text lang instruct txt =
     (let style = lit ''<|denoise|><|lang_start|>'' @ lang @ lit ''<|lang_end|><|instruct_start|>'' @ instruct
            @ lit ''<|instruct_end|>'';
          full_text = (if or_text ref_text [] = [] then txt else or_text ref_text [] @ lit '' '' @ txt)
      in style @ lit ''<|text_start|>'' @ full_text @ lit ''<|text_end|>'')"

text \<open>Prompt texts, reference frames and masks side by side, the same in every codebook but for the reference.\<close>

definition prepared_ids :: "nat \<Rightarrow> nat list \<Rightarrow> ref_tokens option \<Rightarrow> nat \<Rightarrow> prepared" where
  "prepared_ids mask_id text_tokens ref tlen =
     (let n = length text_tokens;
          (rlen, rtok) = (case ref of None \<Rightarrow> (0, \<lambda>c p. mask_id) | Some r \<Rightarrow> r)
      in \<lparr>cond_ids = (\<lambda>c p. if p < n then text_tokens ! p else if p < n + rlen then rtok c (p - n) else mask_id),
          uncond_ids = (\<lambda>c p. mask_id), cond_len = n + rlen + tlen, uncond_len = tlen,
          text_len = n, target_len = tlen\<rparr>)"

record 'audio voice_env =
  presets :: "(string \<times> preset) list"
  default_voice :: string
  estimate :: "text_t \<Rightarrow> rat"
  encode :: "text_t \<Rightarrow> nat list"
  encode_audio :: "('audio \<Rightarrow> ref_tokens) option"

definition prepare_one_request :: "nat \<Rightarrow> 'audio voice_env \<Rightarrow> 'audio prompt_arg \<Rightarrow> prepared option res" where
  "prepare_one_request mask_id env prompt =
     bind_res (case prompt of
         Prompt_Other t \<Rightarrow> resolve_voice_preset (presets env) (default_voice env) None
       | Prompt_Dict d \<Rightarrow> if p_ref_audio d = None
           then resolve_voice_preset (presets env) (default_voice env) (p_voice d) else Inr None)
       (\<lambda>voice_preset.
          case prompt_text prompt of
            None \<Rightarrow> Inr None
          | Some txt \<Rightarrow>
              if txt = [] then Inr None
              else let (ref_text, lang, instruct, ref_audio) = prompt_fields prompt voice_preset;
                       tlen = max 1 (nat \<lfloor>estimate env txt\<rfloor>);
                       text_tokens = encode env (full_prompt ref_text lang instruct txt)
                   in (case ref_audio of
                         Some a \<Rightarrow> (case encode_audio env of
                             None \<Rightarrow> Inl RuntimeError
                           | Some enc \<Rightarrow> Inr (Some (prepared_ids mask_id text_tokens (Some (enc a)) tlen)))
                       | None \<Rightarrow> Inr (Some (prepared_ids mask_id text_tokens
                           (map_option preset_tokens voice_preset) tlen))))"

section \<open>Batch tensors\<close>

record batch_tensors =
  bt_len :: nat
  bt_ids :: batch_ids
  bt_audio_mask :: audio_mask
  bt_attention :: attention_mask
  bt_target_lens :: "nat list"

definition build_batch_tensors :: "nat \<Rightarrow> prepared list \<Rightarrow> batch_tensors res" where
  "build_batch_tensors mask_id per_req =
     (if per_req = [] then Inl ValueError
      else let B = length per_req in Inr
        \<lparr>bt_len = Max (set (map (\<lambda>r. max (cond_len r) (uncond_len r)) per_req)),
         bt_ids = (\<lambda>i c p.
           if i < B then (if p < cond_len (per_req ! i) then cond_ids (per_req ! i) c p else mask_id)
           else if i < 2 * B then (if p < uncond_len (per_req ! (i - B)) then uncond_ids (per_req ! (i - B)) c p else mask_id)
           else mask_id),
         bt_audio_mask = (\<lambda>i p.
           if i < B then text_len (per_req ! i) \<le> p \<and> p < cond_len (per_req ! i)
           else i < 2 * B \<and> p < uncond_len (per_req ! (i - B))),
         bt_attention = (\<lambda>i q p.
           if i < B then q < cond_len (per_req ! i) \<and> p < cond_len (per_req ! i)
           else i < 2 * B \<and> q < uncond_len (per_req ! (i - B)) \<and> p < uncond_len (per_req ! (i - B))),
         bt_target_lens = map target_len per_req\<rparr>)"

section \<open>Whole requests\<close>

text \<open>What the generator is called with: the network and its random numbers, and the environment.\<close>

record generator =
  g_net :: net
  g_guide :: "rat \<Rightarrow> (nat \<Rightarrow> rat) \<Rightarrow> (nat \<Rightarrow> rat) \<Rightarrow> nat \<Rightarrow> rat"
  g_topk :: "score list \<Rightarrow> nat \<Rightarrow> nat list"
  g_times :: "nat \<Rightarrow> rat list"
  g_block_env :: "int option"
  g_first_env :: "int option option"
  g_block_debug :: bool
  g_num_step :: nat

fun prepare_all :: "nat \<Rightarrow> 'audio voice_env \<Rightarrow> 'audio prompt_arg list \<Rightarrow> prepared list option res" where
  "prepare_all mask_id env [] = Inr (Some [])"
| "prepare_all mask_id env (p # ps) =
     bind_res (prepare_one_request mask_id env p) (\<lambda>r.
       case r of None \<Rightarrow> Inr None
       | Some x \<Rightarrow> bind_res (prepare_all mask_id env ps) (\<lambda>xs. Inr (map_option ((#) x) xs)))"

text \<open>Shorter requests of a batch repeat their last frame before decoding; their audio is cut afterwards.\<close>

definition pad_last :: "nat \<Rightarrow> tokens \<Rightarrow> tokens" where
  "pad_last t_len toks = (\<lambda>c p. if p < t_len then toks c p else toks c (t_len - 1))"

definition first_frames :: "nat \<Rightarrow> tokens \<Rightarrow> tokens" where
  "first_frames n toks = (\<lambda>c p. if p < n then toks c p else 0)"

datatype 'a forward_result = Audio "'a list list" | Failed string

definition pipeline_forward ::
  "gen_config \<Rightarrow> generator \<Rightarrow> (nat \<Rightarrow> nat \<Rightarrow> noise) \<Rightarrow> 'audio voice_env \<Rightarrow> (nat \<Rightarrow> tokens \<Rightarrow> 'a list)
   \<Rightarrow> 'audio prompt_arg list \<Rightarrow> 'a forward_result res" where
  "pipeline_forward cfg g nz env decoder prompts =
     (if prompts = [] then Inr (Failed ''Empty prompt list'')
      else bind_res (prepare_all (audio_mask_id cfg) env prompts) (\<lambda>prep.
        case prep of
          None \<Rightarrow> Inr (Failed ''Empty text prompt'')
        | Some per_req \<Rightarrow> bind_res (build_batch_tensors (audio_mask_id cfg) per_req) (\<lambda>bt.
            bind_res
              (generator_forward cfg (g_net g) (g_guide g) (g_topk g) nz (g_times g) (g_block_env g) (g_first_env g)
                 (g_block_debug g) (bt_len bt) (bt_ids bt) (bt_audio_mask bt) (bt_attention bt) (bt_target_lens bt)
                 (g_num_step g))
              (\<lambda>toks.
                let lens = bt_target_lens bt; max_t = Max (set lens) in
                if length per_req = 1 then Inr (Audio [decoder max_t (first_frames max_t (toks 0))])
                else Inr (Audio (map (\<lambda>i.
                       let audio = decoder max_t (first_frames max_t (pad_last (lens ! i) (toks i)))
                       in take (lens ! i * (length audio div max_t)) audio) [0 ..< length lens]))))))"

section \<open>Step-wise execution\<close>

record voice_data =
  vd_cond :: tokens
  vd_uncond :: tokens
  vd_seq_len :: nat
  vd_audio_mask :: "bool \<Rightarrow> nat \<Rightarrow> bool"
  vd_attention :: "bool \<Rightarrow> nat \<Rightarrow> nat \<Rightarrow> bool"
  vd_tokens :: tokens
  vd_target_len :: nat
  vd_c_len :: nat
  vd_step_plan :: plan
  vd_emitted_samples :: nat
  vd_stream_audio_blocks :: bool
  vd_last_step_index :: nat

record 'audio voice_state =
  vs_req_id :: string
  vs_prompts :: "'audio prompt_arg list"
  vs_step_index :: nat
  vs_sampling_step_index :: "nat option"
  vs_timesteps :: "nat option"
  vs_data :: "voice_data option"

definition wants_stream :: "'audio prompt_arg \<Rightarrow> bool" where
  "wants_stream prompt = (case prompt of
     Prompt_Dict d \<Rightarrow> p_stream_audio_blocks d \<and> p_stream_output_enabled d | Prompt_Other _ \<Rightarrow> False)"

text \<open>
  The rows 0 and 1 of a single request's tensors are its conditional and its unconditional one; the
  masks are read with \<open>False\<close> for the first.
\<close>

definition prepare_encode ::
  "gen_config \<Rightarrow> generator \<Rightarrow> 'audio voice_env \<Rightarrow> 'audio voice_state \<Rightarrow> 'audio voice_state res" where
  "prepare_encode cfg g env state =
     (case vs_prompts state of
        [prompt] \<Rightarrow>
          bind_res (prepare_one_request (audio_mask_id cfg) env prompt) (\<lambda>prep.
            case prep of
              None \<Rightarrow> Inl ValueError
            | Some r \<Rightarrow> bind_res (build_batch_tensors (audio_mask_id cfg) [r]) (\<lambda>bt.
                bind_res
                  (build_step_plans (g_times g) (g_block_env g) (g_first_env g) (num_audio_codebook cfg)
                     (bt_target_lens bt) (g_num_step g))
                  (\<lambda>plans. Inr (state\<lparr>
                     vs_step_index := (case vs_sampling_step_index state of None \<Rightarrow> 0 | Some n \<Rightarrow> n),
                     vs_timesteps := Some (length (hd plans)),
                     vs_data := Some \<lparr>vd_cond = bt_ids bt 0, vd_uncond = bt_ids bt 1, vd_seq_len = bt_len bt,
                       vd_audio_mask = (\<lambda>u. bt_audio_mask bt (if u then 1 else 0)),
                       vd_attention = (\<lambda>u. bt_attention bt (if u then 1 else 0)),
                       vd_tokens = (\<lambda>c p. audio_mask_id cfg), vd_target_len = hd (bt_target_lens bt),
                       vd_c_len = cond_len r, vd_step_plan = hd plans, vd_emitted_samples = 0,
                       vd_stream_audio_blocks = wants_stream prompt, vd_last_step_index = 0\<rparr>\<rparr>))))
      | _ \<Rightarrow> Inl ValueError)"

text \<open>The environment variable: \<open>None\<close> when its text is no integer.\<close>

definition stream_holdback_frames :: "int option \<Rightarrow> nat" where
  "stream_holdback_frames env = (case env of None \<Rightarrow> 2 | Some n \<Rightarrow> nat (max 0 n))"

text \<open>
  The audio of the first frames is decoded again from the start, and what was not emitted yet is
  cut off; while the request runs the last samples are held back.
\<close>

definition decode_stream_delta ::
  "(nat \<Rightarrow> tokens \<Rightarrow> 'a list) \<Rightarrow> nat \<Rightarrow> bool \<Rightarrow> voice_data \<Rightarrow> (voice_data \<times> 'a list) res" where
  "decode_stream_delta decoder holdback_frames finished data =
     bind_res (if finished then Inr (vd_target_len data)
               else bind_res (py_get (vd_step_plan data) (vd_last_step_index data)) (\<lambda>(a, b, k). Inr b))
       (\<lambda>frames.
          let decode_frames = min frames (vd_target_len data) in
          if decode_frames = 0 then Inr (data, [])
          else let audio_prefix = decoder decode_frames (first_frames decode_frames (vd_tokens data));
                   samples_per_token = max 1 (length audio_prefix div decode_frames);
                   end0 = (if finished then length audio_prefix
                           else length audio_prefix - holdback_frames * samples_per_token);
                   emit_end = max (vd_emitted_samples data) end0
               in Inr (data\<lparr>vd_emitted_samples := emit_end\<rparr>,
                       py_slice (vd_emitted_samples data) emit_end audio_prefix))"

definition post_decode ::
  "(nat \<Rightarrow> tokens \<Rightarrow> 'a list) \<Rightarrow> nat \<Rightarrow> 'audio voice_state \<Rightarrow> ('audio voice_state \<times> 'a forward_result) res" where
  "post_decode decoder holdback_frames state =
     (case vs_data state of
        None \<Rightarrow> Inr (state, Failed ''OmniVoice step state is missing.'')
      | Some data \<Rightarrow> bind_res (decode_stream_delta decoder holdback_frames True data)
          (\<lambda>(data1, chunk). Inr (state\<lparr>vs_data := Some data1\<rparr>, Audio [chunk])))"

section \<open>One step of a changing batch\<close>

text \<open>
  The batch is put together from the requests' own tensors, padded to the longest, and the results are
  copied back. An exception leaves the states as they were at that point.
\<close>

fun prepare_items ::
  "gen_config \<Rightarrow> generator \<Rightarrow> 'audio voice_env \<Rightarrow> ('audio voice_state \<times> bool) list
   \<Rightarrow> 'audio voice_state list \<times> unit res" where
  "prepare_items cfg g env [] = ([], Inr ())"
| "prepare_items cfg g env ((state, is_new) # items) =
     (case (if is_new \<or> vs_data state = None then prepare_encode cfg g env state else Inr state) of
        Inl e \<Rightarrow> (state # map fst items, Inl e)
      | Inr state1 \<Rightarrow> (case prepare_items cfg g env items of (states, r) \<Rightarrow> (state1 # states, r)))"

definition stack_batch :: "nat \<Rightarrow> voice_data list \<Rightarrow> nat list \<Rightarrow> gen_batch \<times> batch_ids \<times> batch_ids" where
  "stack_batch mask_id ds steps =
     (let B = length ds; own = (\<lambda>i. ds ! (if i < B then i else i - B)) in
      (\<lparr>seq_len = Max (set (map vd_seq_len ds)),
        in_audio_mask = (\<lambda>i p. i < 2 * B \<and> p < vd_seq_len (own i) \<and> vd_audio_mask (own i) (B \<le> i) p),
        in_attention_mask = (\<lambda>i q p. i < 2 * B \<and> q < vd_seq_len (own i) \<and> p < vd_seq_len (own i)
          \<and> vd_attention (own i) (B \<le> i) q p),
        target_lens = map vd_target_len ds, step_indices = steps, step_plans = map vd_step_plan ds,
        c_lens = map vd_c_len ds\<rparr>,
       (\<lambda>i c p. if i < 2 * B \<and> p < vd_seq_len (own i)
          then (if i < B then vd_cond (own i) c p else vd_uncond (own i) c p) else mask_id),
       (\<lambda>i c p. if i < B \<and> p < vd_target_len (ds ! i) then vd_tokens (ds ! i) c p else mask_id)))"

definition copy_back :: "nat \<Rightarrow> row \<Rightarrow> nat \<Rightarrow> voice_data \<Rightarrow> voice_data" where
  "copy_back mask_id row step d = (case row of (cond, uncond, toks) \<Rightarrow>
     d\<lparr>vd_cond := (\<lambda>c p. if p < vd_seq_len d then cond c p else mask_id),
       vd_uncond := (\<lambda>c p. if p < vd_seq_len d then uncond c p else mask_id),
       vd_tokens := (\<lambda>c p. if p < vd_target_len d then toks c p else mask_id),
       vd_last_step_index := step\<rparr>)"

text \<open>What follows for one request: the step counters, and a chunk of audio when it has to be emitted.\<close>

definition finish_step ::
  "(nat \<Rightarrow> tokens \<Rightarrow> 'a list) \<Rightarrow> nat \<Rightarrow> 'audio voice_state \<Rightarrow> voice_data
   \<Rightarrow> 'audio voice_state \<times> (bool \<times> 'a list option) res" where
  "finish_step decoder holdback_frames state data =
     (let step_index = vs_step_index state; plan = vd_step_plan data;
          block_finished = (step_index \<ge> length plan \<or> is_block_complete plan step_index);
          state1 = state\<lparr>vs_step_index := step_index + 1, vs_sampling_step_index := Some (step_index + 1),
                        vs_data := Some data\<rparr>;
          finished = (step_index + 1 \<ge> length plan)
      in if (vd_stream_audio_blocks data \<and> block_finished) \<or> finished
         then (case decode_stream_delta decoder holdback_frames finished data of
                 Inl e \<Rightarrow> (state1, Inl e)
               | Inr (data1, chunk) \<Rightarrow>
                   (state1\<lparr>vs_data := Some data1\<rparr>,
                    Inr (finished, if chunk \<noteq> [] \<or> finished then Some chunk else None)))
         else (state1, Inr (finished, None)))"

record 'a step_output =
  so_results :: "(string \<times> 'a list) list"
  so_finished :: "(string \<times> bool) list"
  so_step_indices :: "(string \<times> nat) list"

fun finish_items ::
  "(nat \<Rightarrow> tokens \<Rightarrow> 'a list) \<Rightarrow> nat \<Rightarrow> ('audio voice_state \<times> voice_data) list \<Rightarrow> 'a step_output
   \<Rightarrow> 'audio voice_state list \<times> 'a step_output res" where
  "finish_items decoder holdback_frames [] out = ([], Inr out)"
| "finish_items decoder holdback_frames ((state, data) # items) out =
     (case finish_step decoder holdback_frames state data of
        (state1, Inl e) \<Rightarrow> (state1 # map (\<lambda>(s, d). s) items, Inl e)
      | (state1, Inr (finished, chunk)) \<Rightarrow>
          let out1 = out\<lparr>so_results := (case chunk of None \<Rightarrow> so_results out
                            | Some a \<Rightarrow> dict_set (vs_req_id state) a (so_results out)),
                         so_finished := dict_set (vs_req_id state) finished (so_finished out),
                         so_step_indices := dict_set (vs_req_id state) (vs_step_index state1) (so_step_indices out)\<rparr>
          in case finish_items decoder holdback_frames items out1 of (states, r) \<Rightarrow> (state1 # states, r))"

text \<open>The runner's output: the first request's id and step, whether all are finished, and the dictionaries.\<close>

type_synonym 'a runner_result = "string \<times> nat option \<times> bool \<times> 'a step_output"

definition execute_step_batch ::
  "gen_config \<Rightarrow> generator \<Rightarrow> (nat \<Rightarrow> noise) \<Rightarrow> 'audio voice_env \<Rightarrow> (nat \<Rightarrow> tokens \<Rightarrow> 'a list) \<Rightarrow> nat
   \<Rightarrow> ('audio voice_state \<times> bool) list \<Rightarrow> 'audio voice_state list \<times> 'a runner_result res" where
  "execute_step_batch cfg g nz env decoder holdback_frames items =
     (if items = []
      then ([], Inr ([], None, True, \<lparr>so_results = [], so_finished = [], so_step_indices = []\<rparr>))
      else case prepare_items cfg g env items of
        (states, Inl e) \<Rightarrow> (states, Inl e)
      | (states, Inr _) \<Rightarrow>
          let B = length states; ds = map (\<lambda>s. the (vs_data s)) states; steps = map vs_step_index states;
              (b, ids, toks) = stack_batch (audio_mask_id cfg) ds steps
          in case unmask_step cfg (g_net g) (g_guide g) (g_topk g) nz b (ids, toks) of
               Inl e \<Rightarrow> (states, Inl e)
             | Inr (ids1, toks1) \<Rightarrow>
                 let ds1 = map (\<lambda>i. copy_back (audio_mask_id cfg) (ids1 i, ids1 (B + i), toks1 i) (steps ! i) (ds ! i))
                             [0 ..< B]
                 in (case finish_items decoder holdback_frames (zip states ds1)
                            \<lparr>so_results = [], so_finished = [], so_step_indices = []\<rparr> of
                       (states1, Inl e) \<Rightarrow> (states1, Inl e)
                     | (states1, Inr out) \<Rightarrow>
                         (states1, Inr (vs_req_id (hd states), map_of (so_step_indices out) (vs_req_id (hd states)),
                            list_all snd (so_finished out), out))))"

end
