(* ===== verification/Omnivoice_Example.thy ===== *)
theory Omnivoice_Example
  imports Omnivoice_Pipeline
begin

text \<open>
  A small concrete generator, on which the properties of OmniVoice are instantiated: one codebook, the
  classes 0 and 1 besides the mask 2, one frame per request, and a network that predicts from the token it
  sees.
\<close>

definition top_k :: "score list \<Rightarrow> nat \<Rightarrow> nat list" where
  "top_k xs k = take k (rev (sort_key (\<lambda>j. xs ! j) [0 ..< length xs]))"

lemma top_k_largest: "largest_k top_k"
  unfolding largest_k_def
proof (intro allI impI conjI ballI)
  fix xs :: "score list" and k assume k: "k \<le> length xs"
  let ?s = "rev (sort_key (\<lambda>j. xs ! j) [0 ..< length xs])"
  have dist: "distinct ?s" and set: "set ?s = {..< length xs}" and len: "length ?s = length xs"
    by (auto simp: distinct_sort)
  show "distinct (top_k xs k)" using dist by (simp add: top_k_def)
  show "length (top_k xs k) = k" using k by (simp add: top_k_def)
  show "set (top_k xs k) \<subseteq> {..< length xs}" using set_take_subset [of k ?s] set by (simp add: top_k_def)
  fix i j assume i: "i \<in> set (top_k xs k)" and j: "j < length xs" "j \<notin> set (top_k xs k)"
  obtain a where a: "a < k" "a < length ?s" "?s ! a = i" using i by (auto simp: top_k_def in_set_conv_nth)
  obtain b where b: "b < length ?s" "?s ! b = j" using j(1) set by (metis in_set_conv_nth lessThan_iff)
  have "k \<le> b"
  proof (rule ccontr)
    assume "\<not> k \<le> b"
    then have "?s ! b \<in> set (take k ?s)" using b(1) by (auto simp: in_set_conv_nth)
    with j(2) b(2) show False by (simp add: top_k_def)
  qed
  have sorted: "sorted (map (\<lambda>j. xs ! j) (sort_key (\<lambda>j. xs ! j) [0 ..< length xs]))" by (rule sorted_sort_key)
  have "sorted (rev (map (\<lambda>j. xs ! j) ?s))" using sorted by (simp add: rev_map)
  then have "map (\<lambda>j. xs ! j) ?s ! b \<le> map (\<lambda>j. xs ! j) ?s ! a"
    by (rule sorted_rev_nth_mono) (use a b \<open>k \<le> b\<close> in simp_all)
  then show "xs ! j \<le> xs ! i" using a b by simp
qed

definition ex_cfg :: gen_config where
  "ex_cfg = \<lparr>num_audio_codebook = 1, audio_vocab_size = 3, audio_mask_id = 2, guidance_scale = 0,
     layer_penalty_factor = 5, position_temperature = 0, class_temperature = 0\<rparr>"

definition ex_net :: net where
  "ex_net R S ids am attn r c p v = (if v = ids r c p mod 2 then 1 else 0)"

definition ex_gen :: generator where
  "ex_gen = \<lparr>g_net = ex_net, g_guide = (\<lambda>s c u. c), g_topk = top_k, g_times = (\<lambda>n. get_time_steps 0 1 (Suc n) (1 / 10)),
     g_block_env = Some 2, g_first_env = None, g_block_debug = True, g_num_step = 1\<rparr>"

definition ex_env :: "unit voice_env" where
  "ex_env = \<lparr>presets = [], default_voice = [], estimate = (\<lambda>t. 1 / 2), encode = (\<lambda>t. [5]), encode_audio = None\<rparr>"

definition ex_prompt :: "unit prompt_arg" where
  "ex_prompt = Prompt_Dict \<lparr>p_input = Some (Some [72, 105]), p_text = None, p_str = [], p_ref_audio = None,
     p_ref_text = None, p_lang = None, p_instruct = None, p_voice = None, p_stream_audio_blocks = True,
     p_stream_output_enabled = True\<rparr>"

definition ex_prepared :: prepared where
  "ex_prepared = prepared_ids 2 [5] None 1"

definition ex_state :: "string \<Rightarrow> unit voice_state" where
  "ex_state i = \<lparr>vs_req_id = i, vs_prompts = [ex_prompt], vs_step_index = 0, vs_sampling_step_index = None,
     vs_timesteps = None, vs_data = None\<rparr>"

definition ex_noise :: noise where
  "ex_noise = \<lparr>class_noise = (\<lambda>c p v. 0), position_noise = (\<lambda>c p. 0)\<rparr>"

lemma ex_sel [simp]:
  "num_audio_codebook ex_cfg = 1" "audio_mask_id ex_cfg = 2" "g_topk ex_gen = top_k" "g_net ex_gen = ex_net"
  "g_num_step ex_gen = 1" "g_times ex_gen = (\<lambda>n. get_time_steps 0 1 (Suc n) (1 / 10))"
  "vs_req_id (ex_state i) = i" "vs_prompts (ex_state i) = [ex_prompt]" "vs_data (ex_state i) = None"
  "vs_sampling_step_index (ex_state i) = None"
  by (simp_all add: ex_cfg_def ex_gen_def ex_state_def)

lemma ex_has_class: "has_class ex_cfg"
  unfolding has_class_def by (rule exI [of _ 0]) (simp add: ex_cfg_def)

lemma ex_prepare: "prepare_one_request 2 ex_env ex_prompt = Inr (Some ex_prepared)"
  by (simp add: prepare_one_request_def ex_prompt_def ex_env_def resolve_voice_preset_def prompt_text_def
      prompt_fields_def ex_prepared_def split: option.splits)

lemma ex_prepared_sel [simp]: "target_len ex_prepared = 1" "cond_len ex_prepared = 2"
  by (simp_all add: ex_prepared_def prepared_ids_def)

text \<open>One audio sample per frame: the token of the first codebook.\<close>

definition ex_decoder :: "nat \<Rightarrow> tokens \<Rightarrow> nat list" where
  "ex_decoder n toks = map (toks 0) [0 ..< n]"

end
