(* ===== verification/Omnivoice_Properties.thy ===== *)
theory Omnivoice_Properties
  imports Omnivoice_Example
begin

text \<open>
  What holds of the plans and of whole-request generation: the schedule covers every token of a request
  exactly once, and generating prepared requests never fails and leaves no mask.
\<close>

section \<open>Plans of a batch\<close>

text \<open>Time steps as the plan needs them.\<close>

definition times_ok :: "(nat \<Rightarrow> rat list) \<Rightarrow> bool" where
  "times_ok ts \<longleftrightarrow> (\<forall>n. length (ts n) = Suc n \<and> ascending (ts n))"

lemma exact_times_ok: "0 < s \<Longrightarrow> times_ok (\<lambda>n. get_time_steps 0 1 (Suc n) s)"
  by (simp add: times_ok_def time_steps_ascending)

lemma collect_plans_iff: "collect_plans f ts = Inr ps \<longleftrightarrow> list_all2 (\<lambda>t p. f t = Inr p) ts ps"
proof (induction ts arbitrary: ps)
  case (Cons t ts)
  then show ?case by (cases ps) (auto simp: bind_res_Inr)
qed auto

lemma first_steps_pos: "0 < num_step \<Longrightarrow> 0 < resolve_first_block_num_step env num_step"
  by (auto simp: resolve_first_block_num_step_def max_def split: option.splits)

lemma block_size_pos: "0 < m \<Longrightarrow> 0 < resolve_block_size env m"
  by (simp add: resolve_block_size_def Let_def split: option.splits)

lemma build_step_plans_ok:
  assumes "times_ok ts" and "0 < num_step" and "lens \<noteq> []" and "\<forall>t \<in> set lens. 0 < t"
  obtains plans where "build_step_plans ts block_env first_env cb lens num_step = Inr plans"
    and "list_all2 (\<lambda>t plan. build_plan ts (resolve_block_size block_env (Max (set lens)))
        (resolve_first_block_num_step first_env num_step) num_step cb t = Inr plan \<and> plan_ok cb t plan) lens plans"
proof -
  let ?bs = "resolve_block_size block_env (Max (set lens))" and ?f = "resolve_first_block_num_step first_env num_step"
  have "0 < Max (set lens)" using assms(3,4) by (meson Max_in finite_set set_empty)
  then have bs: "0 < ?bs" by (rule block_size_pos)
  have one: "\<exists>plan. build_plan ts ?bs ?f num_step cb t = Inr plan \<and> plan_ok cb t plan" if "t \<in> set lens" for t
    using build_plan_total [where t = t and ts = ts and cb = cb, OF bs first_steps_pos [where env = first_env, OF assms(2)] assms(2)] that assms(1,4)
    by (auto simp: times_ok_def)
  have "\<exists>plans. list_all2 (\<lambda>t plan. build_plan ts ?bs ?f num_step cb t = Inr plan \<and> plan_ok cb t plan) ls plans"
    if "set ls \<subseteq> set lens" for ls
    using that
  proof (induction ls)
    case Nil
    show ?case by (rule exI [of _ "[]"]) simp
  next
    case (Cons t ls)
    then show ?case using one [of t] by (auto simp: list_all2_Cons1)
  qed
  then obtain plans where p: "list_all2 (\<lambda>t plan. build_plan ts ?bs ?f num_step cb t = Inr plan \<and> plan_ok cb t plan) lens plans"
    by blast
  then have "list_all2 (\<lambda>t plan. build_plan ts ?bs ?f num_step cb t = Inr plan) lens plans"
    by (rule list_all2_mono) simp
  then have "build_step_plans ts block_env first_env cb lens num_step = Inr plans"
    using assms(3) by (simp add: build_step_plans_def Let_def collect_plans_iff)
  with p show thesis by (rule that [rotated])
qed

text \<open>A block at least as long as the request is the request.\<close>

lemma one_block:
  assumes "t \<le> bs" and "0 < t"
  shows "build_plan ts bs f s cb t = build_plan ts t f s cb t"
proof -
  have "(t + b - 1) div b = 1" if "t \<le> b" for b
    using that assms(2) by (simp add: div_nat_eqI)
  from this [OF assms(1)] this [OF le_refl] show ?thesis
    using assms by (simp add: build_plan_def Let_def)
qed

text \<open>C11: For positive lengths the planning never fails (its assertion holds): every request gets a plan
  whose blocks cover its frames in order and without overlap and whose budgets add up to each block's
  tokens, with the announced number of steps; and the plan is the one the request would get alone, so
  batching does not change it.\<close>

theorem plans_cover_requests:
  assumes "times_ok ts" and "0 < num_step" and "lens \<noteq> []" and "\<forall>t \<in> set lens. 0 < t"
  shows "\<exists>plans. build_step_plans ts block_env first_env cb lens num_step = Inr plans
    \<and> length plans = length lens
    \<and> (\<forall>i < length lens. plan_ok cb (lens ! i) (plans ! i)
        \<and> build_step_plans ts block_env first_env cb [lens ! i] num_step = Inr [plans ! i])"
proof -
  let ?bs = "resolve_block_size block_env (Max (set lens))" and ?f = "resolve_first_block_num_step first_env num_step"
  obtain plans where p: "build_step_plans ts block_env first_env cb lens num_step = Inr plans"
    "list_all2 (\<lambda>t plan. build_plan ts ?bs ?f num_step cb t = Inr plan \<and> plan_ok cb t plan) lens plans"
    by (rule build_step_plans_ok [OF assms])
  have "build_step_plans ts block_env first_env cb [lens ! i] num_step = Inr [plans ! i]" if i: "i < length lens" for i
  proof -
    have t: "0 < lens ! i" "lens ! i \<le> Max (set lens)" using assms(4) i by simp_all
    have "build_plan ts (resolve_block_size block_env (lens ! i)) ?f num_step cb (lens ! i)
        = build_plan ts ?bs ?f num_step cb (lens ! i)"
      using one_block [OF t(2,1), of ts ?f num_step cb] by (simp add: resolve_block_size_def Let_def)
    also have "\<dots> = Inr (plans ! i)" using list_all2_nthD [OF p(2) i] by simp
    finally show ?thesis by (simp add: build_step_plans_def Let_def)
  qed
  with p show ?thesis by (metis (no_types, lifting) list_all2_lengthD list_all2_nthD)
qed

theorem plans_cover_requests_witness:
  "\<exists>plans. build_step_plans (\<lambda>n. get_time_steps 0 1 (Suc n) (1 / 10)) (Some 4) None 2 [6, 3] 4 = Inr plans
    \<and> plan_ok 2 6 (plans ! 0)"
  using plans_cover_requests [OF exact_times_ok, of "1 / 10" 4 "[6, 3]" "Some 4" None 2] by fastforce

section \<open>Whole requests\<close>

definition prepared_ok :: "nat \<Rightarrow> prepared \<Rightarrow> bool" where
  "prepared_ok mask_id r \<longleftrightarrow> 0 < target_len r \<and> target_len r \<le> cond_len r \<and> uncond_len r = target_len r
     \<and> (\<forall>c p. cond_len r - target_len r \<le> p \<longrightarrow> cond_ids r c p = mask_id) \<and> (\<forall>c p. uncond_ids r c p = mask_id)"

lemma prepared_ids_ok: "0 < tlen \<Longrightarrow> prepared_ok mask_id (prepared_ids mask_id toks ref tlen)"
  by (cases ref) (auto simp: prepared_ok_def prepared_ids_def Let_def)

lemma prepare_one_request_ok:
  assumes "prepare_one_request mask_id env prompt = Inr (Some r)"
  shows "prepared_ok mask_id r"
proof -
  have "\<exists>toks ref x. r = prepared_ids mask_id toks ref (max 1 x)"
    using assms unfolding prepare_one_request_def bind_res_Inr Let_def
    by (elim exE conjE) (auto split: option.split_asm if_split_asm prod.split_asm)
  then show ?thesis by (auto simp: prepared_ids_ok)
qed

lemma prepare_all_ok:
  "prepare_all mask_id env ps = Inr (Some rs) \<Longrightarrow> \<forall>r \<in> set rs. prepared_ok mask_id r"
proof (induction ps arbitrary: rs)
  case (Cons p ps)
  then obtain x xs where "prepare_one_request mask_id env p = Inr (Some x)"
    "prepare_all mask_id env ps = Inr (Some xs)" "rs = x # xs"
    by (auto simp: bind_res_Inr split: option.splits)
  then show ?case using Cons.IH [of xs] prepare_one_request_ok [of mask_id env p x] by simp
qed simp

lemma length_filter_less: "length (filter (\<lambda>p. p < n) [0 ..< m]) = min n m"
  by (induction m) auto

text \<open>The tensors of a batch as the generator reads them.\<close>

definition gen_init :: "gen_config \<Rightarrow> batch_tensors \<Rightarrow> plan list \<Rightarrow> gen_batch" where
  "gen_init cfg bt plans = \<lparr>seq_len = bt_len bt, in_audio_mask = bt_audio_mask bt, in_attention_mask = bt_attention bt,
     target_lens = bt_target_lens bt, step_indices = [], step_plans = plans,
     c_lens = map (\<lambda>i. length (filter (bt_attention bt i 0) [0 ..< bt_len bt])) [0 ..< length (bt_target_lens bt)]\<rparr>"

lemma batch_tensors_row:
  assumes "build_batch_tensors mask_id rs = Inr bt" and "i < length rs" and "\<forall>r \<in> set rs. prepared_ok mask_id r"
  shows "bt_target_lens bt = map target_len rs"
    and "length (filter (bt_attention bt i 0) [0 ..< bt_len bt]) = cond_len (rs ! i)"
    and "synced (cond_len (rs ! i)) (target_len (rs ! i)) (bt_ids bt i, bt_ids bt (length rs + i), \<lambda>c p. mask_id)"
    and "target_len (rs ! i) \<le> cond_len (rs ! i)" and "0 < target_len (rs ! i)" and "cond_len (rs ! i) \<le> bt_len bt"
proof -
  let ?r = "rs ! i"
  have r: "prepared_ok mask_id ?r" using assms(2,3) by simp
  then show "target_len ?r \<le> cond_len ?r" "0 < target_len ?r" by (simp_all add: prepared_ok_def)
  have bt: "bt_target_lens bt = map target_len rs"
    "bt_len bt = Max (set (map (\<lambda>r. max (cond_len r) (uncond_len r)) rs))"
    using assms(1) by (auto simp: build_batch_tensors_def Let_def split: if_splits)
  show "bt_target_lens bt = map target_len rs" by (fact bt)
  have "max (cond_len ?r) (uncond_len ?r) \<le> bt_len bt"
    unfolding bt(2) using assms(2) by (intro Max_ge) auto
  then show len: "cond_len ?r \<le> bt_len bt" by simp
  have "bt_attention bt i 0 = (\<lambda>p. p < cond_len ?r)"
    using assms(1,2) r by (auto simp: build_batch_tensors_def Let_def prepared_ok_def split: if_splits)
  then show "length (filter (bt_attention bt i 0) [0 ..< bt_len bt]) = cond_len ?r"
    using len by (simp add: length_filter_less)
  show "synced (cond_len ?r) (target_len ?r) (bt_ids bt i, bt_ids bt (length rs + i), \<lambda>c p. mask_id)"
    using assms(1,2) r
    by (auto simp: synced_def build_batch_tensors_def Let_def prepared_ok_def split: if_splits)
qed

lemma gen_init_ok:
  assumes "build_batch_tensors (audio_mask_id cfg) rs = Inr bt" and "\<forall>r \<in> set rs. prepared_ok (audio_mask_id cfg) r"
    and "list_all2 (plan_ok (num_audio_codebook cfg)) (bt_target_lens bt) plans"
  shows "batch_ok cfg (gen_init cfg bt plans) (\<lambda>i. 0) (bt_ids bt, \<lambda>i c p. audio_mask_id cfg)"
  unfolding batch_ok_def
proof (intro allI impI)
  fix i assume "i < length (target_lens (gen_init cfg bt plans))"
  then have i0: "i < length (bt_target_lens bt)" by (simp add: gen_init_def)
  have "bt_target_lens bt = map target_len rs"
    using assms(1) by (auto simp: build_batch_tensors_def Let_def split: if_splits)
  then have i: "i < length rs" and n: "length (bt_target_lens bt) = length rs" using i0 by simp_all
  note row = batch_tensors_row [OF assms(1) i assms(2)]
  have p: "plan_ok (num_audio_codebook cfg) (target_len (rs ! i)) (plans ! i)"
    using list_all2_nthD [OF assms(3) i0] i by (simp add: row(1))
  have "bt_target_lens bt ! i = target_len (rs ! i)" using i by (simp add: row(1))
  then show "plan_ok (num_audio_codebook cfg) (target_lens (gen_init cfg bt plans) ! i) (step_plans (gen_init cfg bt plans) ! i)
    \<and> target_lens (gen_init cfg bt plans) ! i \<le> c_lens (gen_init cfg bt plans) ! i
    \<and> on_schedule cfg (step_plans (gen_init cfg bt plans) ! i) 0 (snd (bt_ids bt, \<lambda>i c p. audio_mask_id cfg) i)
    \<and> synced (c_lens (gen_init cfg bt plans) ! i) (target_lens (gen_init cfg bt plans) ! i)
        (fst (bt_ids bt, \<lambda>i c p. audio_mask_id cfg) i,
         fst (bt_ids bt, \<lambda>i c p. audio_mask_id cfg) (length (target_lens (gen_init cfg bt plans)) + i),
         snd (bt_ids bt, \<lambda>i c p. audio_mask_id cfg) i)"
    using p row(2-4) i0 on_schedule_init [OF p] by (simp add: gen_init_def n)
qed

lemma forward_loop_ok:
  assumes "largest_k topk" and "has_class cfg"
  shows "batch_ok cfg b (\<lambda>i. s) st
    \<Longrightarrow> \<exists>st'. forward_loop cfg net guide topk nz b [s ..< s + n] st = Inr st' \<and> batch_ok cfg b (\<lambda>i. s + n) st'"
proof (induction n arbitrary: s st)
  case 0
  then show ?case by simp
next
  case (Suc n)
  let ?b = "b\<lparr>step_indices := replicate (length (target_lens b)) s\<rparr>"
  have "batch_ok cfg ?b (\<lambda>i. step_indices ?b ! i) st"
    using Suc.prems by (simp add: batch_ok_def)
  then obtain st1 where st1: "unmask_step cfg net guide topk (nz s) ?b st = Inr st1"
    "batch_ok cfg ?b (\<lambda>i. Suc (step_indices ?b ! i)) st1"
    by (rule unmask_step_on_schedule [OF assms])
  from st1(2) have "batch_ok cfg b (\<lambda>i. Suc s) st1" by (simp add: batch_ok_def)
  from Suc.IH [OF this] obtain st' where "forward_loop cfg net guide topk nz b [Suc s ..< Suc s + n] st1 = Inr st'"
    "batch_ok cfg b (\<lambda>i. Suc s + n) st'" by blast
  moreover have "[s ..< s + Suc n] = s # [Suc s ..< Suc s + n]" by (simp add: upt_rec)
  ultimately show ?case using st1(1) by simp
qed

text \<open>C1: Generating a batch of prepared requests never fails and leaves no mask: whatever the network,
  the random numbers and the ties of \<open>topk\<close> are, every codebook has a real token at every frame of every
  request, so the debug check for residual masks never fires.\<close>

theorem generation_leaves_no_mask:
  assumes "largest_k (g_topk g)" and "has_class cfg" and "times_ok (g_times g)" and "0 < g_num_step g"
    and "prepare_all (audio_mask_id cfg) env prompts = Inr (Some per_req)"
    and "build_batch_tensors (audio_mask_id cfg) per_req = Inr bt"
  shows "\<exists>toks. generator_forward cfg (g_net g) (g_guide g) (g_topk g) nz (g_times g) (g_block_env g) (g_first_env g)
        block_debug (bt_len bt) (bt_ids bt) (bt_audio_mask bt) (bt_attention bt) (bt_target_lens bt) (g_num_step g)
      = Inr toks
    \<and> (\<forall>i < length per_req. \<forall>c < num_audio_codebook cfg. \<forall>p < target_len (per_req ! i).
         toks i c p \<noteq> audio_mask_id cfg)"
proof -
  let ?lens = "bt_target_lens bt"
  have prep: "\<forall>r \<in> set per_req. prepared_ok (audio_mask_id cfg) r" by (rule prepare_all_ok [OF assms(5)])
  have lens: "?lens = map target_len per_req" "?lens \<noteq> []"
    using assms(6) by (auto simp: build_batch_tensors_def Let_def split: if_splits)
  have pos: "\<forall>t \<in> set ?lens. 0 < t" using prep by (auto simp: lens(1) prepared_ok_def)
  obtain plans where plans: "build_step_plans (g_times g) (g_block_env g) (g_first_env g) (num_audio_codebook cfg) ?lens
      (g_num_step g) = Inr plans" and pl: "list_all2 (plan_ok (num_audio_codebook cfg)) ?lens plans"
    by (rule build_step_plans_ok [OF assms(3,4) lens(2) pos]) (blast intro: list_all2_mono)
  let ?n = "Max (set (map length plans))"
  let ?b = "gen_init cfg bt plans"
  obtain ids toks where run: "forward_loop cfg (g_net g) (g_guide g) (g_topk g) nz ?b [0 ..< ?n]
      (bt_ids bt, \<lambda>i c p. audio_mask_id cfg) = Inr (ids, toks)" and fin: "batch_ok cfg ?b (\<lambda>i. ?n) (ids, toks)"
    using forward_loop_ok [OF assms(1,2) gen_init_ok [OF assms(6) prep pl], of "g_net g" "g_guide g" nz ?n] by auto
  have free: "\<not> residual_mask cfg (?lens ! i) (toks i)" if i: "i < length ?lens" for i
  proof (rule schedule_done)
    have "plan_ok (num_audio_codebook cfg) (?lens ! i) (plans ! i) \<and> on_schedule cfg (plans ! i) ?n (toks i)"
      using fin i by (simp add: batch_ok_def gen_init_def)
    then show "plan_ok (num_audio_codebook cfg) (?lens ! i) (plans ! i)" "on_schedule cfg (plans ! i) ?n (toks i)" by simp_all
    show "length (plans ! i) \<le> ?n" using i list_all2_lengthD [OF pl] by (intro Max_ge) auto
  qed
  have "generator_forward cfg (g_net g) (g_guide g) (g_topk g) nz (g_times g) (g_block_env g) (g_first_env g)
      block_debug (bt_len bt) (bt_ids bt) (bt_audio_mask bt) (bt_attention bt) ?lens (g_num_step g) = Inr toks"
    using free unfolding generator_forward_def plans bind_res_simps Let_def run [unfolded gen_init_def] by auto
  moreover have "toks i c p \<noteq> audio_mask_id cfg"
    if "i < length per_req" "c < num_audio_codebook cfg" "p < target_len (per_req ! i)" for i c p
    using free [of i] that by (auto simp: residual_mask_def lens(1))
  ultimately show ?thesis by blast
qed

lemma ex_times: "times_ok (\<lambda>n. get_time_steps 0 1 (Suc n) (1 / 10))"
  by (rule exact_times_ok) simp

theorem generation_leaves_no_mask_witness:
  "\<exists>bt toks. build_batch_tensors 2 [ex_prepared, ex_prepared] = Inr bt
    \<and> generator_forward ex_cfg ex_net (g_guide ex_gen) top_k (\<lambda>_ _. ex_noise) (g_times ex_gen) (Some 2) None True
        (bt_len bt) (bt_ids bt) (bt_audio_mask bt) (bt_attention bt) (bt_target_lens bt) 1 = Inr toks
    \<and> toks 1 0 0 \<noteq> 2"
proof -
  obtain bt where bt: "build_batch_tensors (audio_mask_id ex_cfg) [ex_prepared, ex_prepared] = Inr bt"
    by (simp add: build_batch_tensors_def Let_def)
  have prep: "prepare_all (audio_mask_id ex_cfg) ex_env [ex_prompt, ex_prompt] = Inr (Some [ex_prepared, ex_prepared])"
    by (simp add: ex_prepare)
  have "g_block_env ex_gen = Some 2" "g_first_env ex_gen = None" by (simp_all add: ex_gen_def)
  with generation_leaves_no_mask [of ex_gen ex_cfg, OF _ ex_has_class _ _ prep bt, of "\<lambda>_ _. ex_noise" True]
  show ?thesis using bt top_k_largest ex_times by fastforce
qed

end
