(* ===== verification/Omnivoice_Steps.thy ===== *)
theory Omnivoice_Steps
  imports Omnivoice_Properties
begin

text \<open>
  The step-wise execution: the invariant of a request between two steps, what a step of a batch does to
  each of its requests, and the comparison with whole-request generation.
\<close>

section \<open>Requests between two steps\<close>

definition data_ok :: "gen_config \<Rightarrow> nat \<Rightarrow> voice_data \<Rightarrow> bool" where
  "data_ok cfg s d \<longleftrightarrow> plan_ok (num_audio_codebook cfg) (vd_target_len d) (vd_step_plan d)
     \<and> vd_target_len d \<le> vd_c_len d \<and> vd_c_len d \<le> vd_seq_len d
     \<and> on_schedule cfg (vd_step_plan d) s (vd_tokens d)
     \<and> synced (vd_c_len d) (vd_target_len d) (vd_cond d, vd_uncond d, vd_tokens d)"

definition state_ok :: "gen_config \<Rightarrow> 'audio voice_state \<Rightarrow> bool" where
  "state_ok cfg s \<longleftrightarrow> (case vs_data s of None \<Rightarrow> False | Some d \<Rightarrow> data_ok cfg (vs_step_index s) d)"

text \<open>An item the runner may hand over: a prepared request, or one that starts from the beginning.\<close>

definition fresh_prompt :: "gen_config \<Rightarrow> 'audio voice_env \<Rightarrow> 'audio voice_state \<Rightarrow> prepared \<Rightarrow> bool" where
  "fresh_prompt cfg env s r \<longleftrightarrow> (\<exists>prompt. vs_prompts s = [prompt]
     \<and> prepare_one_request (audio_mask_id cfg) env prompt = Inr (Some r))
     \<and> (vs_sampling_step_index s = None \<or> vs_sampling_step_index s = Some 0)"

definition item_ok :: "gen_config \<Rightarrow> 'audio voice_env \<Rightarrow> 'audio voice_state \<times> bool \<Rightarrow> bool" where
  "item_ok cfg env item \<longleftrightarrow> (case item of (s, is_new) \<Rightarrow>
     if is_new \<or> vs_data s = None then \<exists>r. fresh_prompt cfg env s r else state_ok cfg s)"

lemma single_batch:
  "\<exists>bt. build_batch_tensors mask_id [r] = Inr bt"
  by (simp add: build_batch_tensors_def)

lemma prepare_encode_ok:
  assumes "times_ok (g_times g)" and "0 < g_num_step g" and "fresh_prompt cfg env s r"
  obtains s1 d bt plan where "prepare_encode cfg g env s = Inr s1" and "vs_data s1 = Some d" and "vs_step_index s1 = 0"
    and "data_ok cfg 0 d" and "build_batch_tensors (audio_mask_id cfg) [r] = Inr bt"
    and "build_step_plans (g_times g) (g_block_env g) (g_first_env g) (num_audio_codebook cfg) [target_len r]
      (g_num_step g) = Inr [plan]"
    and "vd_cond d = bt_ids bt 0" "vd_uncond d = bt_ids bt 1" "vd_seq_len d = bt_len bt" "vd_tokens d = (\<lambda>c p. audio_mask_id cfg)"
    and "vd_audio_mask d = (\<lambda>u. bt_audio_mask bt (if u then 1 else 0))"
    and "vd_attention d = (\<lambda>u. bt_attention bt (if u then 1 else 0))"
    and "vd_target_len d = target_len r" "vd_c_len d = cond_len r" "vd_step_plan d = plan" "vd_emitted_samples d = 0"
    and "prepared_ok (audio_mask_id cfg) r"
proof -
  obtain prompt where prompt: "vs_prompts s = [prompt]" "prepare_one_request (audio_mask_id cfg) env prompt = Inr (Some r)"
    and idx: "(case vs_sampling_step_index s of None \<Rightarrow> 0 | Some n \<Rightarrow> n) = 0"
    using assms(3) by (auto simp: fresh_prompt_def)
  have r: "prepared_ok (audio_mask_id cfg) r" by (rule prepare_one_request_ok [OF prompt(2)])
  then have pos: "0 < target_len r" by (simp add: prepared_ok_def)
  obtain bt where bt: "build_batch_tensors (audio_mask_id cfg) [r] = Inr bt" using single_batch by blast
  have row: "bt_target_lens bt = [target_len r]"
    "synced (cond_len r) (target_len r) (bt_ids bt 0, bt_ids bt 1, \<lambda>c p. audio_mask_id cfg)"
    "target_len r \<le> cond_len r" "cond_len r \<le> bt_len bt"
    using batch_tensors_row [OF bt, of 0] r by simp_all
  have one: "[target_len r] \<noteq> []" "\<forall>t \<in> set [target_len r]. 0 < t" using pos by simp_all
  obtain plans where plans: "build_step_plans (g_times g) (g_block_env g) (g_first_env g) (num_audio_codebook cfg)
      [target_len r] (g_num_step g) = Inr plans"
    "list_all2 (plan_ok (num_audio_codebook cfg)) [target_len r] plans"
    by (rule build_step_plans_ok [OF assms(1,2) one]) (blast intro: list_all2_mono)
  then obtain plan where plan: "plans = [plan]" "plan_ok (num_audio_codebook cfg) (target_len r) plan"
    by (auto simp: list_all2_Cons1)
  define d where "d = \<lparr>vd_cond = bt_ids bt 0, vd_uncond = bt_ids bt 1, vd_seq_len = bt_len bt,
    vd_audio_mask = (\<lambda>u. bt_audio_mask bt (if u then 1 else 0)), vd_attention = (\<lambda>u. bt_attention bt (if u then 1 else 0)),
    vd_tokens = (\<lambda>c p. audio_mask_id cfg), vd_target_len = target_len r, vd_c_len = cond_len r, vd_step_plan = plan,
    vd_emitted_samples = 0, vd_stream_audio_blocks = wants_stream prompt, vd_last_step_index = 0\<rparr>"
  define s1 where "s1 = s\<lparr>vs_step_index := 0, vs_timesteps := Some (length plan), vs_data := Some d\<rparr>"
  have "prepare_encode cfg g env s = Inr s1"
    using prompt idx bt row(1) plans(1) plan(1) by (simp add: prepare_encode_def s1_def d_def)
  moreover have "data_ok cfg 0 d" using row plan(2) on_schedule_init [OF plan(2)] by (simp add: data_ok_def d_def)
  ultimately show thesis
    by (intro that [of s1 d bt plan]) (use bt plans(1) plan(1) r in \<open>simp_all add: s1_def d_def\<close>)
qed

section \<open>A step of one request\<close>

text \<open>What the generator does to a request's data, given the predictions for its two rows.\<close>

definition data_step ::
  "gen_config \<Rightarrow> generator \<Rightarrow> noise \<Rightarrow> nat \<Rightarrow> (nat \<Rightarrow> nat \<Rightarrow> nat \<Rightarrow> rat) \<Rightarrow> (nat \<Rightarrow> nat \<Rightarrow> nat \<Rightarrow> rat) \<Rightarrow> voice_data
   \<Rightarrow> voice_data res" where
  "data_step cfg g nz s lc lu d =
     bind_res (update_row cfg (g_guide g) (g_topk g) nz (vd_step_plan d) s (vd_c_len d) (vd_target_len d) lc lu
        (\<lambda>c p. if p < vd_seq_len d then vd_cond d c p else audio_mask_id cfg,
         \<lambda>c p. if p < vd_seq_len d then vd_uncond d c p else audio_mask_id cfg,
         \<lambda>c p. if p < vd_target_len d then vd_tokens d c p else audio_mask_id cfg))
       (\<lambda>row. Inr (copy_back (audio_mask_id cfg) row s d))"

lemma masked_cong: "(\<And>c p. p < b \<Longrightarrow> toks c p = toks' c p) \<Longrightarrow> masked cfg a b toks = masked cfg a b toks'"
  by (auto simp: masked_def)

lemma on_schedule_cong:
  assumes "plan_ok cb t plan" and "\<And>c p. p < t \<Longrightarrow> toks c p = toks' c p"
  shows "on_schedule cfg plan s toks = on_schedule cfg plan s toks'"
proof -
  have "masked cfg a b toks = masked cfg a b toks'" if "(a, b, k) \<in> set plan" for a b k
    using plan_ok_step(2) [OF assms(1) that] assms(2) by (intro masked_cong) simp
  then show ?thesis unfolding on_schedule_def by (metis (no_types, lifting) case_prodI2 case_prodD)
qed

lemma synced_cong:
  assumes "synced cl t (c1, u1, k1)" and "\<And>c p. p < cl \<Longrightarrow> c1 c p = c2 c p" and "\<And>c p. p < t \<Longrightarrow> u1 c p = u2 c p"
    and "\<And>c p. p < t \<Longrightarrow> k1 c p = k2 c p" and "t \<le> cl"
  shows "synced cl t (c2, u2, k2)"
proof -
  have "c2 c (cl - t + p) = k2 c p \<and> u2 c p = k2 c p" if "p < t" for c p
  proof -
    have "cl - t + p < cl" using that assms(5) by linarith
    with assms(1) that show ?thesis by (simp add: synced_def assms(2-4) [symmetric])
  qed
  then show ?thesis by (simp add: synced_def)
qed

text \<open>The request keeps its invariant, its sizes and its plan, and no token is taken back.\<close>

lemma data_step_ok:
  assumes "largest_k (g_topk g)" and "has_class cfg" and "data_ok cfg s d"
  obtains d' where "data_step cfg g nz s lc lu d = Inr d'" and "data_ok cfg (Suc s) d'"
    and "vd_target_len d' = vd_target_len d" "vd_step_plan d' = vd_step_plan d" "vd_last_step_index d' = s"
    and "vd_stream_audio_blocks d' = vd_stream_audio_blocks d" "vd_emitted_samples d' = vd_emitted_samples d"
    and "\<And>c p. p < vd_target_len d \<Longrightarrow> vd_tokens d c p \<noteq> audio_mask_id cfg \<Longrightarrow> vd_tokens d' c p = vd_tokens d c p"
proof -
  let ?m = "audio_mask_id cfg" and ?t = "vd_target_len d" and ?n = "vd_seq_len d"
  let ?cond = "\<lambda>c p. if p < ?n then vd_cond d c p else ?m" and ?uncond = "\<lambda>c p. if p < ?n then vd_uncond d c p else ?m"
  let ?toks = "\<lambda>c p. if p < ?t then vd_tokens d c p else ?m"
  have d: "plan_ok (num_audio_codebook cfg) ?t (vd_step_plan d)" "?t \<le> vd_c_len d" "vd_c_len d \<le> ?n"
    "on_schedule cfg (vd_step_plan d) s (vd_tokens d)" "synced (vd_c_len d) ?t (vd_cond d, vd_uncond d, vd_tokens d)"
    using assms(3) by (simp_all add: data_ok_def)
  have sched: "on_schedule cfg (vd_step_plan d) s ?toks"
    using d(4) by (subst on_schedule_cong [OF d(1), where toks' = "vd_tokens d"]) simp_all
  have sync: "synced (vd_c_len d) ?t (?cond, ?uncond, ?toks)"
    by (rule synced_cong [OF d(5) _ _ _ d(2)]) (use d(2,3) in simp_all)
  obtain cond' uncond' toks' where up: "update_row cfg (g_guide g) (g_topk g) nz (vd_step_plan d) s (vd_c_len d) ?t lc lu
      (?cond, ?uncond, ?toks) = Inr (cond', uncond', toks')"
    and sched': "on_schedule cfg (vd_step_plan d) (Suc s) toks'" and sync': "synced (vd_c_len d) ?t (cond', uncond', toks')"
    and ch: "\<And>c p. toks' c p \<noteq> ?toks c p \<Longrightarrow> s < length (vd_step_plan d) \<and> ?toks c p = ?m
        \<and> fst (vd_step_plan d ! s) \<le> p \<and> p < fst (snd (vd_step_plan d ! s))"
    by (rule update_row_on_schedule [OF d(1) assms(1,2) sched sync d(2), of "g_guide g" nz lc lu]) (rule that)
  let ?d' = "copy_back ?m (cond', uncond', toks') s d"
  show thesis
  proof (rule that [of ?d'])
    show "data_step cfg g nz s lc lu d = Inr ?d'" unfolding data_step_def up by simp
    have tok: "vd_tokens ?d' = (\<lambda>c p. if p < ?t then toks' c p else ?m)" by (simp add: copy_back_def)
    have "on_schedule cfg (vd_step_plan d) (Suc s) (vd_tokens ?d')"
      using sched' unfolding tok by (subst on_schedule_cong [OF d(1), where toks' = toks']) simp_all
    moreover have "synced (vd_c_len d) ?t (vd_cond ?d', vd_uncond ?d', vd_tokens ?d')"
      by (rule synced_cong [OF sync' _ _ _ d(2)]) (use d(2,3) in \<open>simp_all add: copy_back_def\<close>)
    ultimately show "data_ok cfg (Suc s) ?d'" using d(1-3) by (simp add: data_ok_def copy_back_def)
    show "vd_tokens ?d' c p = vd_tokens d c p" if "p < ?t" "vd_tokens d c p \<noteq> ?m" for c p
      using ch [of c p] that by (auto simp: tok)
  qed (simp_all add: copy_back_def)
qed

lemma data_step_result:
  assumes "largest_k (g_topk g)" and "has_class cfg" and "data_ok cfg s d" and "data_step cfg g nz s lc lu d = Inr d'"
  shows "data_ok cfg (Suc s) d'" and "vd_last_step_index d' = s"
    and "vd_target_len d' = vd_target_len d" and "vd_step_plan d' = vd_step_plan d"
    and "vd_stream_audio_blocks d' = vd_stream_audio_blocks d" and "vd_emitted_samples d' = vd_emitted_samples d"
    and "\<forall>c p. p < vd_target_len d \<longrightarrow> vd_tokens d c p \<noteq> audio_mask_id cfg \<longrightarrow> vd_tokens d' c p = vd_tokens d c p"
proof -
  have "data_ok cfg (Suc s) d' \<and> vd_last_step_index d' = s \<and> vd_target_len d' = vd_target_len d
    \<and> vd_step_plan d' = vd_step_plan d \<and> vd_stream_audio_blocks d' = vd_stream_audio_blocks d
    \<and> vd_emitted_samples d' = vd_emitted_samples d
    \<and> (\<forall>c p. p < vd_target_len d \<longrightarrow> vd_tokens d c p \<noteq> audio_mask_id cfg \<longrightarrow> vd_tokens d' c p = vd_tokens d c p)"
  proof (rule data_step_ok [OF assms(1-3), of nz lc lu], goal_cases)
    case (1 d1)
    then have "d1 = d'" using assms(4) by simp
    with 1 show ?case by simp
  qed
  then show "data_ok cfg (Suc s) d'" "vd_last_step_index d' = s" "vd_target_len d' = vd_target_len d"
    "vd_step_plan d' = vd_step_plan d" "vd_stream_audio_blocks d' = vd_stream_audio_blocks d"
    "vd_emitted_samples d' = vd_emitted_samples d"
    "\<forall>c p. p < vd_target_len d \<longrightarrow> vd_tokens d c p \<noteq> audio_mask_id cfg \<longrightarrow> vd_tokens d' c p = vd_tokens d c p"
    by simp_all
qed

section \<open>A step of a batch\<close>

text \<open>The predictions for a stacked batch.\<close>

definition predictions :: "gen_config \<Rightarrow> generator \<Rightarrow> voice_data list \<Rightarrow> nat list \<Rightarrow> nat \<Rightarrow> nat \<Rightarrow> nat \<Rightarrow> nat \<Rightarrow> rat" where
  "predictions cfg g ds steps = (case stack_batch (audio_mask_id cfg) ds steps of (b, ids, toks) \<Rightarrow>
     g_net g (2 * length ds) (seq_len b) ids (in_audio_mask b) (in_attention_mask b))"

lemma stacked_row:
  assumes "stack_batch m ds steps = (b, ids, toks)" and "i < length ds"
  shows "ids i = (\<lambda>c p. if p < vd_seq_len (ds ! i) then vd_cond (ds ! i) c p else m)"
    and "ids (length ds + i) = (\<lambda>c p. if p < vd_seq_len (ds ! i) then vd_uncond (ds ! i) c p else m)"
    and "toks i = (\<lambda>c p. if p < vd_target_len (ds ! i) then vd_tokens (ds ! i) c p else m)"
    and "target_lens b = map vd_target_len ds" "step_indices b = steps" "step_plans b = map vd_step_plan ds"
    and "c_lens b = map vd_c_len ds"
proof -
  note e = assms(1) [unfolded stack_batch_def Let_def prod.inject]
  note b = e [THEN conjunct1, symmetric] and ids = e [THEN conjunct2, THEN conjunct1, symmetric]
    and toks = e [THEN conjunct2, THEN conjunct2, symmetric]
  show "ids i = (\<lambda>c p. if p < vd_seq_len (ds ! i) then vd_cond (ds ! i) c p else m)"
    "ids (length ds + i) = (\<lambda>c p. if p < vd_seq_len (ds ! i) then vd_uncond (ds ! i) c p else m)"
    "toks i = (\<lambda>c p. if p < vd_target_len (ds ! i) then vd_tokens (ds ! i) c p else m)"
    using assms(2) unfolding ids toks by (simp_all add: fun_eq_iff)
  show "target_lens b = map vd_target_len ds" "step_indices b = steps" "step_plans b = map vd_step_plan ds"
    "c_lens b = map vd_c_len ds"
    unfolding b by simp_all
qed

lemma stacked_step:
  assumes "largest_k (g_topk g)" and "has_class cfg" and "length steps = length ds"
    and "\<And>i. i < length ds \<Longrightarrow> data_ok cfg (steps ! i) (ds ! i)"
    and st: "stack_batch (audio_mask_id cfg) ds steps = (b, ids, toks)"
  obtains ids1 toks1 where "unmask_step cfg (g_net g) (g_guide g) (g_topk g) nz b (ids, toks) = Inr (ids1, toks1)"
    and "\<And>i. i < length ds \<Longrightarrow> data_step cfg g (nz i) (steps ! i) (predictions cfg g ds steps i)
        (predictions cfg g ds steps (length ds + i)) (ds ! i)
      = Inr (copy_back (audio_mask_id cfg) (ids1 i, ids1 (length ds + i), toks1 i) (steps ! i) (ds ! i))"
proof -
  let ?B = "length ds" and ?lp = "predictions cfg g ds steps"
  note row = stacked_row [OF st]
  have B: "length (target_lens b) = ?B"
    using st by (auto simp: stack_batch_def Let_def)
  let ?up = "\<lambda>i. update_row cfg (g_guide g) (g_topk g) (nz i) (step_plans b ! i) (step_indices b ! i) (c_lens b ! i)
      (target_lens b ! i) (?lp i) (?lp (?B + i)) (ids i, ids (?B + i), toks i)"
  have up: "\<exists>r. ?up i = Inr r \<and> data_step cfg g (nz i) (steps ! i) (?lp i) (?lp (?B + i)) (ds ! i)
      = Inr (copy_back (audio_mask_id cfg) r (steps ! i) (ds ! i))" if i: "i < ?B" for i
  proof -
    obtain d' where "data_step cfg g (nz i) (steps ! i) (?lp i) (?lp (?B + i)) (ds ! i) = Inr d'"
      by (rule data_step_ok [OF assms(1,2) assms(4) [OF i]]) (rule that)
    moreover have "?up i = update_row cfg (g_guide g) (g_topk g) (nz i) (vd_step_plan (ds ! i)) (steps ! i)
        (vd_c_len (ds ! i)) (vd_target_len (ds ! i)) (?lp i) (?lp (?B + i))
        (\<lambda>c p. if p < vd_seq_len (ds ! i) then vd_cond (ds ! i) c p else audio_mask_id cfg,
         \<lambda>c p. if p < vd_seq_len (ds ! i) then vd_uncond (ds ! i) c p else audio_mask_id cfg,
         \<lambda>c p. if p < vd_target_len (ds ! i) then vd_tokens (ds ! i) c p else audio_mask_id cfg)"
      using i by (simp add: row [OF i])
    ultimately show ?thesis unfolding data_step_def bind_res_Inr by metis
  qed
  define r where "r i = projr (?up i)" for i
  have r: "?up i = Inr (r i)" "data_step cfg g (nz i) (steps ! i) (?lp i) (?lp (?B + i)) (ds ! i)
      = Inr (copy_back (audio_mask_id cfg) (r i) (steps ! i) (ds ! i))" if "i < ?B" for i
    using up [OF that] by (auto simp: r_def)
  have sub: "set [0 ..< ?B] \<subseteq> {..< ?B}" by auto
  have lp: "g_net g (2 * ?B) (seq_len b) (fst (ids, toks)) (in_audio_mask b) (in_attention_mask b) = ?lp"
    by (simp add: predictions_def st)
  obtain ids1 toks1 where res: "unmask_rows cfg (g_guide g) (g_topk g) nz b ?lp [0 ..< ?B] (ids, toks) = Inr (ids1, toks1)"
    and rows: "\<forall>i \<in> set [0 ..< ?B]. (ids1 i, ids1 (?B + i), toks1 i) = r i"
  proof -
    have "update_row cfg (g_guide g) (g_topk g) (nz i) (step_plans b ! i) (step_indices b ! i) (c_lens b ! i)
      (target_lens b ! i) (?lp i) (?lp (?B + i)) (fst (ids, toks) i, fst (ids, toks) (?B + i), snd (ids, toks) i) = Inr (r i)"
      if "i \<in> set [0 ..< ?B]" for i using r(1) [of i] that by simp
    from unmask_rows_rowwise [OF distinct_upt sub B [symmetric] this] that show thesis by blast
  qed
  show thesis
  proof (rule that)
    show "unmask_step cfg (g_net g) (g_guide g) (g_topk g) nz b (ids, toks) = Inr (ids1, toks1)"
      unfolding unmask_step_def Let_def B lp by (rule res)
    show "data_step cfg g (nz i) (steps ! i) (?lp i) (?lp (?B + i)) (ds ! i)
      = Inr (copy_back (audio_mask_id cfg) (ids1 i, ids1 (?B + i), toks1 i) (steps ! i) (ds ! i))" if "i < ?B" for i
      using r(2) [OF that] rows that by simp
  qed
qed

text \<open>The part of a step that follows the network.\<close>

lemma decode_stream_delta_ok:
  assumes "finished \<or> vd_last_step_index d < length (vd_step_plan d)"
  obtains e chunk where "decode_stream_delta decoder h finished d = Inr (d\<lparr>vd_emitted_samples := e\<rparr>, chunk)"
proof -
  obtain n where n: "(if finished then Inr (vd_target_len d)
      else bind_res (py_get (vd_step_plan d) (vd_last_step_index d)) (\<lambda>(a, b, k). Inr b)) = (Inr n :: nat res)"
  proof (cases finished)
    case False
    obtain a b k where "vd_step_plan d ! vd_last_step_index d = (a, b, k)" by (rule prod_cases3)
    with False assms show thesis by (intro that [of b]) (simp add: py_get_def)
  qed (simp add: that)
  have same: "d = d\<lparr>vd_emitted_samples := vd_emitted_samples d\<rparr>" by simp
  show thesis
  proof (cases "min n (vd_target_len d) = 0")
    case True
    then have "decode_stream_delta decoder h finished d = Inr (d, [])"
      unfolding decode_stream_delta_def n by (simp add: Let_def)
    with same show thesis by (metis that)
  next
    case False
    then show thesis
      by (intro that) (unfold decode_stream_delta_def n, simp only: bind_res_simps Let_def if_False)
  qed
qed

text \<open>Whether audio is decoded after step \<open>s\<close>, and how many frames of it.\<close>

definition emits :: "nat \<Rightarrow> voice_data \<Rightarrow> bool" where
  "emits s d \<longleftrightarrow> (vd_stream_audio_blocks d \<and> (s \<ge> length (vd_step_plan d) \<or> is_block_complete (vd_step_plan d) s))
     \<or> s + 1 \<ge> length (vd_step_plan d)"

definition decoded_frames :: "nat \<Rightarrow> voice_data \<Rightarrow> nat" where
  "decoded_frames s d = (if s + 1 \<ge> length (vd_step_plan d) then vd_target_len d
     else min (fst (snd (vd_step_plan d ! s))) (vd_target_len d))"

lemma finish_step_ok:
  assumes "vd_last_step_index d = vs_step_index state"
  obtains e r where "finish_step decoder h state d
    = (state\<lparr>vs_step_index := Suc (vs_step_index state), vs_sampling_step_index := Some (Suc (vs_step_index state)),
        vs_data := Some (d\<lparr>vd_emitted_samples := e\<rparr>)\<rparr>, Inr (Suc (vs_step_index state) \<ge> length (vd_step_plan d), r))"
proof -
  have same: "d = d\<lparr>vd_emitted_samples := vd_emitted_samples d\<rparr>" by simp
  let ?fin = "vs_step_index state + 1 \<ge> length (vd_step_plan d)"
  show thesis
  proof (cases "(vd_stream_audio_blocks d \<and> (vs_step_index state \<ge> length (vd_step_plan d)
      \<or> is_block_complete (vd_step_plan d) (vs_step_index state))) \<or> ?fin")
    case True
    have "?fin \<or> vd_last_step_index d < length (vd_step_plan d)" unfolding assms by linarith
    then obtain e chunk where "decode_stream_delta decoder h ?fin d = Inr (d\<lparr>vd_emitted_samples := e\<rparr>, chunk)"
      by (rule decode_stream_delta_ok)
    with True show thesis by (intro that) (simp add: finish_step_def Let_def)
  next
    case False
    then have "finish_step decoder h state d
      = (state\<lparr>vs_step_index := vs_step_index state + 1, vs_sampling_step_index := Some (vs_step_index state + 1),
          vs_data := Some d\<rparr>, Inr (?fin, None))"
      unfolding finish_step_def Let_def by (simp only: if_False)
    with same show thesis by (intro that [of "vd_emitted_samples d" None]) simp
  qed
qed

lemma finish_items_states:
  "(\<forall>(s, d) \<in> set xs. vd_last_step_index d = vs_step_index s)
    \<Longrightarrow> \<exists>o'. finish_items decoder h xs out = (map (\<lambda>(s, d). fst (finish_step decoder h s d)) xs, Inr o')"
proof (induction xs arbitrary: out)
  case (Cons x items)
  obtain state data where x: "x = (state, data)" by (rule prod.exhaust)
  with Cons.prems have "vd_last_step_index data = vs_step_index state" by simp
  then obtain s1 fin r where fs: "finish_step decoder h state data = (s1, Inr (fin, r))"
    by (rule finish_step_ok [of _ _ decoder h])
  have rest: "\<forall>(s, d) \<in> set items. vd_last_step_index d = vs_step_index s" using Cons.prems by simp
  let ?out = "out\<lparr>so_results := (case r of None \<Rightarrow> so_results out | Some a \<Rightarrow> dict_set (vs_req_id state) a (so_results out)),
    so_finished := dict_set (vs_req_id state) fin (so_finished out),
    so_step_indices := dict_set (vs_req_id state) (vs_step_index s1) (so_step_indices out)\<rparr>"
  obtain o' where "finish_items decoder h items ?out = (map (\<lambda>(s, d). fst (finish_step decoder h s d)) items, Inr o')"
    using Cons.IH [OF rest, of ?out] by blast
  then show ?case by (simp add: x fs Let_def)
qed simp

section \<open>The whole step\<close>

text \<open>The state with which an item enters the batch.\<close>

definition ready :: "gen_config \<Rightarrow> generator \<Rightarrow> 'audio voice_env \<Rightarrow> 'audio voice_state \<times> bool \<Rightarrow> 'audio voice_state" where
  "ready cfg g env item = (case item of (s, is_new) \<Rightarrow>
     if is_new \<or> vs_data s = None then projr (prepare_encode cfg g env s) else s)"

lemma ready_ok:
  assumes "times_ok (g_times g)" and "0 < g_num_step g" and "item_ok cfg env item"
  shows "state_ok cfg (ready cfg g env item)"
    and "(if snd item \<or> vs_data (fst item) = None then prepare_encode cfg g env (fst item) else Inr (fst item))
      = Inr (ready cfg g env item)"
proof -
  obtain s is_new where item: "item = (s, is_new)" by (rule prod.exhaust)
  have "state_ok cfg (ready cfg g env item)
    \<and> (if is_new \<or> vs_data s = None then prepare_encode cfg g env s else Inr s) = Inr (ready cfg g env item)"
  proof (cases "is_new \<or> vs_data s = None")
    case True
    then obtain r where "fresh_prompt cfg env s r" using assms(3) by (auto simp: item_ok_def item)
    then obtain s1 d where "prepare_encode cfg g env s = Inr s1" "vs_data s1 = Some d" "vs_step_index s1 = 0" "data_ok cfg 0 d"
      by (rule prepare_encode_ok [OF assms(1,2)])
    with True show ?thesis by (simp add: ready_def item state_ok_def)
  next
    case False
    with assms(3) show ?thesis by (auto simp: item_ok_def item ready_def)
  qed
  then show "state_ok cfg (ready cfg g env item)"
    "(if snd item \<or> vs_data (fst item) = None then prepare_encode cfg g env (fst item) else Inr (fst item))
      = Inr (ready cfg g env item)" unfolding item fst_conv snd_conv by blast+
qed

lemma prepare_items_ok:
  assumes "times_ok (g_times g)" and "0 < g_num_step g"
  shows "\<forall>item \<in> set items. item_ok cfg env item
    \<Longrightarrow> prepare_items cfg g env items = (map (ready cfg g env) items, Inr ())"
proof (induction items)
  case (Cons item items)
  obtain s is_new where item: "item = (s, is_new)" by (rule prod.exhaust)
  have "(if is_new \<or> vs_data s = None then prepare_encode cfg g env s else Inr s) = Inr (ready cfg g env item)"
    using ready_ok(2) [OF assms, of cfg env item] Cons.prems unfolding item fst_conv snd_conv by simp
  moreover have "prepare_items cfg g env items = (map (ready cfg g env) items, Inr ())" using Cons by simp
  ultimately show ?case unfolding item prepare_items.simps by simp
qed simp

lemma execute_step_batch_ok:
  assumes "largest_k (g_topk g)" and "has_class cfg" and "times_ok (g_times g)" and "0 < g_num_step g"
    and "items \<noteq> []" and "\<forall>item \<in> set items. item_ok cfg env item"
  defines "states \<equiv> map (ready cfg g env) items"
  defines "ds \<equiv> map (\<lambda>s. the (vs_data s)) states" and "steps \<equiv> map vs_step_index states"
  obtains ds1 out where "length ds1 = length items"
    and "\<And>i. i < length items \<Longrightarrow> data_ok cfg (steps ! i) (ds ! i)"
    and "\<And>i. i < length items \<Longrightarrow> data_step cfg g (nz i) (steps ! i) (predictions cfg g ds steps i)
        (predictions cfg g ds steps (length items + i)) (ds ! i) = Inr (ds1 ! i)"
    and "execute_step_batch cfg g nz env decoder h items
      = (map (\<lambda>(s, d). fst (finish_step decoder h s d)) (zip states ds1), Inr out)"
    and "finish_items decoder h (zip states ds1) \<lparr>so_results = [], so_finished = [], so_step_indices = []\<rparr>
      = (map (\<lambda>(s, d). fst (finish_step decoder h s d)) (zip states ds1), Inr (snd (snd (snd out))))"
    and "out = (vs_req_id (hd states), map_of (so_step_indices (snd (snd (snd out)))) (vs_req_id (hd states)),
      list_all snd (so_finished (snd (snd (snd out)))), snd (snd (snd out)))"
proof -
  let ?B = "length items"
  have len: "length states = ?B" "length ds = ?B" "length steps = ?B" by (simp_all add: states_def ds_def steps_def)
  have ok: "data_ok cfg (steps ! i) (ds ! i)" if "i < ?B" for i
  proof -
    have "state_ok cfg (states ! i)" using ready_ok(1) [OF assms(3,4), of cfg env "items ! i"] assms(6) that
      by (simp add: states_def)
    then show ?thesis using that len by (auto simp: state_ok_def ds_def steps_def split: option.splits)
  qed
  obtain b ids toks where st: "stack_batch (audio_mask_id cfg) ds steps = (b, ids, toks)" by (rule prod_cases3)
  obtain ids1 toks1 where un: "unmask_step cfg (g_net g) (g_guide g) (g_topk g) nz b (ids, toks) = Inr (ids1, toks1)"
    and row: "\<And>i. i < length ds \<Longrightarrow> data_step cfg g (nz i) (steps ! i) (predictions cfg g ds steps i)
        (predictions cfg g ds steps (length ds + i)) (ds ! i)
      = Inr (copy_back (audio_mask_id cfg) (ids1 i, ids1 (length ds + i), toks1 i) (steps ! i) (ds ! i))"
    by (rule stacked_step [OF assms(1,2), of steps ds b ids toks nz]) (use len ok st in auto)
  define ds1 where "ds1 = map (\<lambda>i. copy_back (audio_mask_id cfg) (ids1 i, ids1 (?B + i), toks1 i) (steps ! i) (ds ! i)) [0 ..< ?B]"
  have "\<forall>(s, d) \<in> set (zip states ds1). vd_last_step_index d = vs_step_index s"
    by (auto simp: set_zip ds1_def copy_back_def len steps_def)
  then obtain out where fin: "finish_items decoder h (zip states ds1) \<lparr>so_results = [], so_finished = [], so_step_indices = []\<rparr>
      = (map (\<lambda>(s, d). fst (finish_step decoder h s d)) (zip states ds1), Inr out)"
    using finish_items_states by blast
  show thesis
  proof (rule that)
    show "length ds1 = ?B" by (simp add: ds1_def)
    show "data_step cfg g (nz i) (steps ! i) (predictions cfg g ds steps i) (predictions cfg g ds steps (?B + i)) (ds ! i)
      = Inr (ds1 ! i)" if "i < ?B" for i using row [of i] that by (simp add: ds1_def len)
    show "execute_step_batch cfg g nz env decoder h items = (map (\<lambda>(s, d). fst (finish_step decoder h s d)) (zip states ds1),
      Inr (vs_req_id (hd states), map_of (so_step_indices out) (vs_req_id (hd states)), list_all snd (so_finished out), out))"
      using assms(5) fin
      unfolding execute_step_batch_def prepare_items_ok [OF assms(3,4,6)] states_def [symmetric] ds1_def
      by (simp add: Let_def ds_def [symmetric] steps_def [symmetric] st un len)
    show "finish_items decoder h (zip states ds1) \<lparr>so_results = [], so_finished = [], so_step_indices = []\<rparr>
      = (map (\<lambda>(s, d). fst (finish_step decoder h s d)) (zip states ds1), Inr (snd (snd (snd
          (vs_req_id (hd states), map_of (so_step_indices out) (vs_req_id (hd states)), list_all snd (so_finished out), out)))))"
      using fin by simp
  qed (rule ok, assumption, simp)
qed

lemma finish_step_state:
  assumes "data_ok cfg (Suc s) d" and "vd_last_step_index d = s" and "vs_step_index state = s"
  shows "state_ok cfg (fst (finish_step decoder h state d))"
    and "vs_step_index (fst (finish_step decoder h state d)) = Suc s"
    and "\<exists>e. vs_data (fst (finish_step decoder h state d)) = Some (d\<lparr>vd_emitted_samples := e\<rparr>)"
    and "vs_prompts (fst (finish_step decoder h state d)) = vs_prompts state"
proof -
  have "vd_last_step_index d = vs_step_index state" using assms(2,3) by simp
  then obtain e r where fs: "finish_step decoder h state d
    = (state\<lparr>vs_step_index := Suc (vs_step_index state), vs_sampling_step_index := Some (Suc (vs_step_index state)),
        vs_data := Some (d\<lparr>vd_emitted_samples := e\<rparr>)\<rparr>, Inr (Suc (vs_step_index state) \<ge> length (vd_step_plan d), r))"
    by (rule finish_step_ok [of d state decoder h])
  show "state_ok cfg (fst (finish_step decoder h state d))"
    using assms(1,3) by (simp add: fs state_ok_def data_ok_def)
  show "vs_step_index (fst (finish_step decoder h state d)) = Suc s" using assms(3) by (simp add: fs)
  show "\<exists>e. vs_data (fst (finish_step decoder h state d)) = Some (d\<lparr>vd_emitted_samples := e\<rparr>)"
    by (rule exI [of _ e]) (simp add: fs)
  show "vs_prompts (fst (finish_step decoder h state d)) = vs_prompts state" by (simp add: fs)
qed

text \<open>What is decoded after a step holds no mask.\<close>

lemma decoded_unmasked:
  assumes "data_ok cfg (Suc s) d" and "emits s d" and "c < num_audio_codebook cfg" and "p < decoded_frames s d"
  shows "vd_tokens d c p \<noteq> audio_mask_id cfg"
proof -
  have d: "plan_ok (num_audio_codebook cfg) (vd_target_len d) (vd_step_plan d)"
    "on_schedule cfg (vd_step_plan d) (Suc s) (vd_tokens d)"
    using assms(1) by (simp_all add: data_ok_def)
  show ?thesis
  proof (cases "s + 1 \<ge> length (vd_step_plan d)")
    case True
    then have "\<not> residual_mask cfg (vd_target_len d) (vd_tokens d)" by (intro schedule_done [OF d]) simp
    with True assms(3,4) show ?thesis by (auto simp: residual_mask_def decoded_frames_def)
  next
    case False
    with assms(2) have "is_block_complete (vd_step_plan d) s" by (auto simp: emits_def)
    with False assms(3,4) show ?thesis
      by (intro block_complete [OF d]) (simp_all add: decoded_frames_def)
  qed
qed

text \<open>Two decoders that cannot be told apart on frames without a mask.\<close>

definition same_when_finished :: "gen_config \<Rightarrow> (nat \<Rightarrow> tokens \<Rightarrow> 'a list) \<Rightarrow> (nat \<Rightarrow> tokens \<Rightarrow> 'a list) \<Rightarrow> bool" where
  "same_when_finished cfg decoder decoder' \<longleftrightarrow>
     (\<forall>n x. (\<forall>c < num_audio_codebook cfg. \<forall>p < n. x c p \<noteq> audio_mask_id cfg) \<longrightarrow> decoder n x = decoder' n x)"

lemma decode_same:
  assumes "same_when_finished cfg decoder decoder'" and "data_ok cfg (Suc s) d" and "vd_last_step_index d = s" and "emits s d"
  shows "decode_stream_delta decoder h (s + 1 \<ge> length (vd_step_plan d)) d
    = decode_stream_delta decoder' h (s + 1 \<ge> length (vd_step_plan d)) d"
proof -
  have "\<forall>c < num_audio_codebook cfg. \<forall>p < n. first_frames n (vd_tokens d) c p \<noteq> audio_mask_id cfg" if "n = decoded_frames s d" for n
    using decoded_unmasked [OF assms(2,4)] that by (simp add: first_frames_def)
  with assms(1) have same: "decoder n (first_frames n (vd_tokens d)) = decoder' n (first_frames n (vd_tokens d))"
    if "n = decoded_frames s d" for n using that unfolding same_when_finished_def by blast
  show ?thesis
  proof (cases "s + 1 \<ge> length (vd_step_plan d)")
    case True
    with same show ?thesis by (simp add: decode_stream_delta_def decoded_frames_def Let_def)
  next
    case False
    obtain a b k where "vd_step_plan d ! s = (a, b, k)" by (rule prod_cases3)
    then have f: "(bind_res (py_get (vd_step_plan d) (vd_last_step_index d)) (\<lambda>(a, b, k). Inr b)) = (Inr b :: nat res)"
      and n: "min b (vd_target_len d) = decoded_frames s d"
      using False assms(3) by (simp_all add: py_get_def decoded_frames_def)
    show ?thesis
      using False unfolding decode_stream_delta_def by (simp only: f if_False bind_res_simps Let_def n same [OF refl])
  qed
qed

lemma finish_step_same:
  assumes "same_when_finished cfg decoder decoder'" and "data_ok cfg (Suc s) d" and "vd_last_step_index d = s"
    and "vs_step_index state = s"
  shows "finish_step decoder h state d = finish_step decoder' h state d"
proof (cases "emits s d")
  case True
  with decode_same [OF assms(1-3) True, of h] assms(4) show ?thesis by (simp add: finish_step_def Let_def)
next
  case False
  then show ?thesis using assms(4) unfolding finish_step_def Let_def emits_def by (simp only: if_False)
qed

lemma finish_items_same:
  "\<forall>(s, d) \<in> set xs. finish_step decoder h s d = finish_step decoder' h s d
    \<Longrightarrow> finish_items decoder h xs out = finish_items decoder' h xs out"
proof (induction xs arbitrary: out)
  case (Cons x xs)
  obtain s d where "x = (s, d)" by (rule prod.exhaust)
  with Cons show ?case by (simp split: sum.splits prod.splits)
qed simp

lemma execute_same:
  assumes g: "largest_k (g_topk g)" "has_class cfg" "times_ok (g_times g)" "0 < g_num_step g"
    and items: "items \<noteq> []" "\<forall>item \<in> set items. item_ok cfg env item" and same: "same_when_finished cfg decoder decoder'"
  shows "execute_step_batch cfg g nz env decoder h items = execute_step_batch cfg g nz env decoder' h items"
proof -
  let ?states = "map (ready cfg g env) items"
  let ?ds = "map (\<lambda>s. the (vs_data s)) ?states" and ?steps = "map vs_step_index ?states"
  let ?none = "\<lparr>so_results = [], so_finished = [], so_step_indices = []\<rparr>"
  obtain ds1 out where a: "length ds1 = length items"
    "\<And>i. i < length items \<Longrightarrow> data_ok cfg (?steps ! i) (?ds ! i)"
    "\<And>i. i < length items \<Longrightarrow> data_step cfg g (nz i) (?steps ! i) (predictions cfg g ?ds ?steps i)
        (predictions cfg g ?ds ?steps (length items + i)) (?ds ! i) = Inr (ds1 ! i)"
    "execute_step_batch cfg g nz env decoder h items
      = (map (\<lambda>(s, d). fst (finish_step decoder h s d)) (zip ?states ds1), Inr out)"
    "finish_items decoder h (zip ?states ds1) ?none
      = (map (\<lambda>(s, d). fst (finish_step decoder h s d)) (zip ?states ds1), Inr (snd (snd (snd out))))"
    "out = (vs_req_id (hd ?states), map_of (so_step_indices (snd (snd (snd out)))) (vs_req_id (hd ?states)),
      list_all snd (so_finished (snd (snd (snd out)))), snd (snd (snd out)))"
    by (rule execute_step_batch_ok [OF g items, where nz = nz and decoder = decoder and h = h]) (rule that)
  obtain ds2 out2 where b: "length ds2 = length items"
    "\<And>i. i < length items \<Longrightarrow> data_step cfg g (nz i) (?steps ! i) (predictions cfg g ?ds ?steps i)
        (predictions cfg g ?ds ?steps (length items + i)) (?ds ! i) = Inr (ds2 ! i)"
    "execute_step_batch cfg g nz env decoder' h items
      = (map (\<lambda>(s, d). fst (finish_step decoder' h s d)) (zip ?states ds2), Inr out2)"
    "finish_items decoder' h (zip ?states ds2) ?none
      = (map (\<lambda>(s, d). fst (finish_step decoder' h s d)) (zip ?states ds2), Inr (snd (snd (snd out2))))"
    "out2 = (vs_req_id (hd ?states), map_of (so_step_indices (snd (snd (snd out2)))) (vs_req_id (hd ?states)),
      list_all snd (so_finished (snd (snd (snd out2)))), snd (snd (snd out2)))"
    by (rule execute_step_batch_ok [OF g items, where nz = nz and decoder = decoder' and h = h]) (rule that)
  have ds: "ds2 = ds1" by (rule nth_equalityI) (use a(1,3) b(1,2) in simp_all)
  have steps: "\<forall>(s, d) \<in> set (zip ?states ds1). finish_step decoder h s d = finish_step decoder' h s d"
  proof (clarify)
    fix s d assume "(s, d) \<in> set (zip ?states ds1)"
    then obtain i where i: "i < length items" "s = ?states ! i" "d = ds1 ! i" by (auto simp: set_zip)
    note d1 = data_step_result(1,2) [OF g(1,2) a(2) [OF i(1)] a(3) [OF i(1)]]
    show "finish_step decoder h s d = finish_step decoder' h s d"
      unfolding i(3) by (rule finish_step_same [OF same d1]) (use i in simp)
  qed
  from finish_items_same [OF this, of ?none] have "finish_items decoder h (zip ?states ds1) ?none = finish_items decoder' h (zip ?states ds2) ?none"
    by (simp add: ds)
  with a(5) b(4) have "snd (snd (snd out)) = snd (snd (snd out2))"
    and st: "map (\<lambda>(s, d). fst (finish_step decoder h s d)) (zip ?states ds1) = map (\<lambda>(s, d). fst (finish_step decoder' h s d)) (zip ?states ds2)"
    by (metis Pair_inject sum.inject(2))+
  with a(6) b(5) have "out = out2" by metis
  then show ?thesis unfolding a(4) b(3) st by simp
qed

text \<open>C7: A step of any batch of new and running requests never fails: every request keeps its schedule and
  moves on by one step. And only finished frames count for the audio it streams: a decoder that differs on
  frames with a mask, and only there, gives the same states and the same chunks, so no masked frame is ever
  handed to the decoder with an effect.\<close>

theorem step_batch_streams_finished_frames:
  assumes "largest_k (g_topk g)" and "has_class cfg" and "times_ok (g_times g)" and "0 < g_num_step g"
    and "items \<noteq> []" and "\<forall>item \<in> set items. item_ok cfg env item" and "same_when_finished cfg decoder decoder'"
  shows "\<exists>states out. execute_step_batch cfg g nz env decoder h items = (states, Inr out)
    \<and> execute_step_batch cfg g nz env decoder' h items = (states, Inr out)
    \<and> length states = length items
    \<and> (\<forall>i < length items. state_ok cfg (states ! i)
        \<and> vs_step_index (states ! i) = Suc (vs_step_index (ready cfg g env (items ! i))))"
proof -
  let ?states = "map (ready cfg g env) items"
  let ?ds = "map (\<lambda>s. the (vs_data s)) ?states" and ?steps = "map vs_step_index ?states"
  obtain ds1 out where len: "length ds1 = length items"
    and ok: "\<And>i. i < length items \<Longrightarrow> data_ok cfg (?steps ! i) (?ds ! i)"
    and step: "\<And>i. i < length items \<Longrightarrow> data_step cfg g (nz i) (?steps ! i) (predictions cfg g ?ds ?steps i)
        (predictions cfg g ?ds ?steps (length items + i)) (?ds ! i) = Inr (ds1 ! i)"
    and exec: "execute_step_batch cfg g nz env decoder h items
      = (map (\<lambda>(s, d). fst (finish_step decoder h s d)) (zip ?states ds1), Inr out)"
    by (rule execute_step_batch_ok [OF assms(1-6), where nz = nz and decoder = decoder and h = h]) (rule that)
  let ?out = "map (\<lambda>(s, d). fst (finish_step decoder h s d)) (zip ?states ds1)"
  have "state_ok cfg (?out ! i) \<and> vs_step_index (?out ! i) = Suc (vs_step_index (ready cfg g env (items ! i)))"
    if i: "i < length items" for i
  proof -
    note d1 = data_step_result(1,2) [OF assms(1,2) ok [OF i] step [OF i]]
    show ?thesis using finish_step_state(1,2) [OF d1, of "?states ! i" decoder h] len i by simp
  qed
  moreover have "length ?out = length items" using len by simp
  ultimately show ?thesis
    using exec execute_same [OF assms, of nz h] by (intro exI [of _ ?out] exI [of _ out]) simp
qed

lemma ex_item: "item_ok ex_cfg ex_env (ex_state i, True)"
  by (auto simp: item_ok_def fresh_prompt_def ex_prepare)

text \<open>A decoder that gives no audio at all for frames with a mask, on two new requests.\<close>

definition strict_decoder :: "nat \<Rightarrow> tokens \<Rightarrow> nat list" where
  "strict_decoder n x = (if \<forall>c < num_audio_codebook ex_cfg. \<forall>p < n. x c p \<noteq> audio_mask_id ex_cfg then ex_decoder n x else [])"

theorem step_batch_streams_finished_frames_witness:
  "\<exists>states out. execute_step_batch ex_cfg ex_gen (\<lambda>_. ex_noise) ex_env ex_decoder 2
      [(ex_state ''a'', True), (ex_state ''b'', True)] = (states, Inr out)
    \<and> execute_step_batch ex_cfg ex_gen (\<lambda>_. ex_noise) ex_env strict_decoder 2
      [(ex_state ''a'', True), (ex_state ''b'', True)] = (states, Inr out)
    \<and> length states = 2
    \<and> vs_step_index (states ! 1) = Suc (vs_step_index (ready ex_cfg ex_gen ex_env (ex_state ''b'', True)))"
proof -
  let ?items = "[(ex_state ''a'', True), (ex_state ''b'', True)]"
  have items: "\<forall>item \<in> set ?items. item_ok ex_cfg ex_env item" by (simp add: ex_item)
  have same: "same_when_finished ex_cfg ex_decoder strict_decoder"
    unfolding same_when_finished_def strict_decoder_def by simp
  from step_batch_streams_finished_frames [of ex_gen ex_cfg ?items ex_env, OF _ ex_has_class _ _ _ items same,
      of "\<lambda>_. ex_noise" 2]
  show ?thesis using top_k_largest ex_times by fastforce
qed

end
