(* ===== verification/Omnivoice_Equivalence.thy ===== *)
theory Omnivoice_Equivalence
  imports Omnivoice_Steps
begin

text \<open>
  Continuous batching does not change a request's tokens: a step of a batch is the step of each of its
  requests alone, and a request that was served step by step, in whatever batches, ends with the tokens
  of whole-request generation. Both rest on the network treating its rows independently and ignoring
  what its attention mask hides, which is what masked attention computes.
\<close>

section \<open>Rows of the network\<close>

definition row_independent :: "net \<Rightarrow> bool" where
  "row_independent net \<longleftrightarrow> (\<forall>R S ids am attn r R' S' ids' am' attn' r' n.
     r < R \<longrightarrow> r' < R' \<longrightarrow> n \<le> S \<longrightarrow> n \<le> S'
     \<longrightarrow> (\<forall>q p. attn r q p \<longrightarrow> q < n \<and> p < n) \<longrightarrow> (\<forall>q p. attn' r' q p \<longrightarrow> q < n \<and> p < n)
     \<longrightarrow> (\<forall>c p. p < n \<longrightarrow> ids r c p = ids' r' c p) \<longrightarrow> (\<forall>p < n. am r p = am' r' p)
     \<longrightarrow> (\<forall>q < n. \<forall>p < n. attn r q p = attn' r' q p)
     \<longrightarrow> (\<forall>c p v. p < n \<longrightarrow> net R S ids am attn r c p v = net R' S' ids' am' attn' r' c p v))"

lemma row_independentD:
  assumes "row_independent net" and "r < R" "r' < R'" "n \<le> S" "n \<le> S'"
    and "\<And>q p. attn r q p \<Longrightarrow> q < n \<and> p < n" and "\<And>q p. attn' r' q p \<Longrightarrow> q < n \<and> p < n"
    and "\<And>c p. p < n \<Longrightarrow> ids r c p = ids' r' c p" and "\<And>p. p < n \<Longrightarrow> am r p = am' r' p"
    and "\<And>q p. q < n \<Longrightarrow> p < n \<Longrightarrow> attn r q p = attn' r' q p" and "p < n"
  shows "net R S ids am attn r c p v = net R' S' ids' am' attn' r' c p v"
  using assms(1) [unfolded row_independent_def, rule_format, of r R r' R' n S S' attn attn' ids ids' am am' p c v]
    assms(2-) by blast

lemma stacked_masks:
  assumes "stack_batch m ds steps = (b, ids, toks)" and "i < length ds"
  shows "in_audio_mask b i p = (p < vd_seq_len (ds ! i) \<and> vd_audio_mask (ds ! i) False p)"
    and "in_audio_mask b (length ds + i) p = (p < vd_seq_len (ds ! i) \<and> vd_audio_mask (ds ! i) True p)"
    and "in_attention_mask b i q p = (q < vd_seq_len (ds ! i) \<and> p < vd_seq_len (ds ! i) \<and> vd_attention (ds ! i) False q p)"
    and "in_attention_mask b (length ds + i) q p
      = (q < vd_seq_len (ds ! i) \<and> p < vd_seq_len (ds ! i) \<and> vd_attention (ds ! i) True q p)"
    and "vd_seq_len (ds ! i) \<le> seq_len b"
proof -
  note b = assms(1) [unfolded stack_batch_def Let_def prod.inject, THEN conjunct1, symmetric]
  show "in_audio_mask b i p = (p < vd_seq_len (ds ! i) \<and> vd_audio_mask (ds ! i) False p)"
    "in_audio_mask b (length ds + i) p = (p < vd_seq_len (ds ! i) \<and> vd_audio_mask (ds ! i) True p)"
    "in_attention_mask b i q p = (q < vd_seq_len (ds ! i) \<and> p < vd_seq_len (ds ! i) \<and> vd_attention (ds ! i) False q p)"
    "in_attention_mask b (length ds + i) q p
      = (q < vd_seq_len (ds ! i) \<and> p < vd_seq_len (ds ! i) \<and> vd_attention (ds ! i) True q p)"
    using assms(2) unfolding b by simp_all
  have "vd_seq_len (ds ! i) \<in> set (map vd_seq_len ds)" using assms(2) by simp
  then show "vd_seq_len (ds ! i) \<le> seq_len b" unfolding b by (simp add: Max_ge)
qed

lemma predictions_solo:
  assumes "row_independent (g_net g)" and "i < length ds" and "p < vd_seq_len (ds ! i)"
  shows "predictions cfg g ds steps i c p v = predictions cfg g [ds ! i] [s] 0 c p v"
    and "predictions cfg g ds steps (length ds + i) c p v = predictions cfg g [ds ! i] [s] 1 c p v"
proof -
  obtain b ids toks where st: "stack_batch (audio_mask_id cfg) ds steps = (b, ids, toks)" by (rule prod_cases3)
  obtain b1 ids1 toks1 where st1: "stack_batch (audio_mask_id cfg) [ds ! i] [s] = (b1, ids1, toks1)" by (rule prod_cases3)
  note row = stacked_row [OF st assms(2)] stacked_masks [OF st assms(2)]
  have one: "0 < length [ds ! i]" by simp
  note row1 = stacked_row [OF st1 one, simplified] stacked_masks [OF st1 one, simplified]
  show "predictions cfg g ds steps i c p v = predictions cfg g [ds ! i] [s] 0 c p v"
    unfolding predictions_def st st1 prod.case
    by (rule row_independentD [OF assms(1), where n = "vd_seq_len (ds ! i)"])
      (use assms(2,3) in \<open>simp_all add: row row1\<close>)
  show "predictions cfg g ds steps (length ds + i) c p v = predictions cfg g [ds ! i] [s] 1 c p v"
    unfolding predictions_def st st1 prod.case
    by (rule row_independentD [OF assms(1), where n = "vd_seq_len (ds ! i)"])
      (use assms(2,3) in \<open>simp_all add: row row1\<close>)
qed

section \<open>A step depends on the predictions for its target\<close>

lemma flat_scores_cong:
  assumes "\<And>c p. p < t \<Longrightarrow> lp c p = lp' c p"
  shows "flat_scores cfg nz a b t lp toks = flat_scores cfg nz a b t lp' toks"
  unfolding flat_scores_def
proof (rule map_cong [OF refl])
  fix j assume "j \<in> set [0 ..< num_audio_codebook cfg * t]"
  then have "j mod t < t" by (cases "t = 0") auto
  then show "(let c = j div t; p = j mod t
      in if toks c p \<noteq> audio_mask_id cfg \<or> p < a \<or> b \<le> p then None
         else position_score cfg (position_noise nz c p) c (lp c p))
    = (let c = j div t; p = j mod t
      in if toks c p \<noteq> audio_mask_id cfg \<or> p < a \<or> b \<le> p then None
         else position_score cfg (position_noise nz c p) c (lp' c p))"
    using assms by (simp add: Let_def)
qed

lemma unmask_row_cong:
  assumes "\<And>c p. p < t \<Longrightarrow> lp c p = lp' c p"
  shows "unmask_row cfg topk nz step t lp toks = unmask_row cfg topk nz step t lp' toks"
proof -
  obtain a b k where step: "step = (a, b, k)" by (rule prod_cases3)
  have f: "flat_scores cfg nz a b t lp toks = flat_scores cfg nz a b t lp' toks"
    using assms by (rule flat_scores_cong)
  have "(\<lambda>c p. if p < t \<and> c * t + p \<in> T then pred_token cfg (class_noise nz c p) (lp c p) else toks c p)
    = (\<lambda>c p. if p < t \<and> c * t + p \<in> T then pred_token cfg (class_noise nz c p) (lp' c p) else toks c p)" for T
    using assms by (intro ext) simp
  then show ?thesis unfolding unmask_row_def step prod.case Let_def f by simp
qed

lemma data_step_cong:
  assumes "vd_target_len d \<le> vd_c_len d" "vd_c_len d \<le> vd_seq_len d"
    and "\<And>c p v. p < vd_seq_len d \<Longrightarrow> lc c p v = lc' c p v" "\<And>c p v. p < vd_seq_len d \<Longrightarrow> lu c p v = lu' c p v"
  shows "data_step cfg g nz s lc lu d = data_step cfg g nz s lc' lu' d"
proof -
  have "class_scores cfg (g_guide g) (lc c (vd_c_len d - vd_target_len d + p)) (lu c p)
      = class_scores cfg (g_guide g) (lc' c (vd_c_len d - vd_target_len d + p)) (lu' c p)" if "p < vd_target_len d" for c p
  proof -
    have "vd_c_len d - vd_target_len d + p < vd_seq_len d" "p < vd_seq_len d" using that assms(1,2) by linarith+
    then have "lc c (vd_c_len d - vd_target_len d + p) = lc' c (vd_c_len d - vd_target_len d + p)" "lu c p = lu' c p"
      using assms(3,4) by (auto simp: fun_eq_iff)
    then show ?thesis by simp
  qed
  then have "unmask_row cfg (g_topk g) nz step (vd_target_len d)
      (\<lambda>c p. class_scores cfg (g_guide g) (lc c (vd_c_len d - vd_target_len d + p)) (lu c p)) toks
    = unmask_row cfg (g_topk g) nz step (vd_target_len d)
      (\<lambda>c p. class_scores cfg (g_guide g) (lc' c (vd_c_len d - vd_target_len d + p)) (lu' c p)) toks" for step toks
    by (rule unmask_row_cong)
  then show ?thesis unfolding data_step_def update_row_def by simp
qed

section \<open>A batch and its requests\<close>

lemma execute_solo:
  assumes "largest_k (g_topk g)" and "has_class cfg" and "times_ok (g_times g)" and "0 < g_num_step g"
    and "item_ok cfg env item"
  defines "s \<equiv> ready cfg g env item"
  defines "d \<equiv> the (vs_data s)"
  obtains d1 out where "data_ok cfg (vs_step_index s) d"
    and "data_step cfg g (nz 0) (vs_step_index s) (predictions cfg g [d] [vs_step_index s] 0)
        (predictions cfg g [d] [vs_step_index s] 1) d = Inr d1"
    and "execute_step_batch cfg g nz env decoder h [item] = ([fst (finish_step decoder h s d1)], Inr out)"
proof -
  have it: "[item] \<noteq> []" "\<forall>x \<in> set [item]. item_ok cfg env x" using assms(5) by simp_all
  show thesis
  proof (rule execute_step_batch_ok [OF assms(1-4) it, of nz decoder h], goal_cases)
    case (1 ds1 out)
    then obtain d1 where ds1: "ds1 = [d1]" by (auto simp: length_Suc_conv)
    show thesis
      by (rule that [of d1 out]) (use 1(2) [of 0] 1(3) [of 0] 1(4) in \<open>simp_all add: ds1 s_def d_def\<close>)
  qed
qed

text \<open>C10: A step of a batch does to each request what it would do to it alone: with a network that treats
  rows independently, and the same random numbers, the state of every request after the step does not
  depend on what else was in the batch.\<close>

theorem batch_step_is_rowwise:
  assumes "largest_k (g_topk g)" and "has_class cfg" and "times_ok (g_times g)" and "0 < g_num_step g"
    and "row_independent (g_net g)" and "\<forall>item \<in> set items. item_ok cfg env item" and "i < length items"
  shows "fst (execute_step_batch cfg g nz env decoder h items) ! i
    = hd (fst (execute_step_batch cfg g (\<lambda>_. nz i) env decoder h [items ! i]))"
proof -
  have ne: "items \<noteq> []" using assms(7) by auto
  let ?states = "map (ready cfg g env) items"
  let ?ds = "map (\<lambda>s. the (vs_data s)) ?states" and ?steps = "map vs_step_index ?states"
  let ?s = "ready cfg g env (items ! i)"
  let ?d = "the (vs_data ?s)"
  have i: "?states ! i = ?s" "?ds ! i = ?d" "?steps ! i = vs_step_index ?s" "i < length ?ds" "length ?ds = length items"
    using assms(7) by simp_all
  have it: "item_ok cfg env (items ! i)" using assms(6,7) by simp
  obtain ds1 out where len: "length ds1 = length items"
    and step: "\<And>i. i < length items \<Longrightarrow> data_step cfg g (nz i) (?steps ! i) (predictions cfg g ?ds ?steps i)
        (predictions cfg g ?ds ?steps (length items + i)) (?ds ! i) = Inr (ds1 ! i)"
    and exec: "execute_step_batch cfg g nz env decoder h items
      = (map (\<lambda>(s, d). fst (finish_step decoder h s d)) (zip ?states ds1), Inr out)"
    by (rule execute_step_batch_ok [OF assms(1-4) ne assms(6), where nz = nz and decoder = decoder and h = h]) (rule that)
  obtain d1 out1 where ok: "data_ok cfg (vs_step_index ?s) ?d"
    and step1: "data_step cfg g (nz i) (vs_step_index ?s) (predictions cfg g [?d] [vs_step_index ?s] 0)
        (predictions cfg g [?d] [vs_step_index ?s] 1) ?d = Inr d1"
    and exec1: "execute_step_batch cfg g (\<lambda>_. nz i) env decoder h [items ! i] = ([fst (finish_step decoder h ?s d1)], Inr out1)"
    by (rule execute_solo [OF assms(1-4) it, of "\<lambda>_. nz i" decoder h])
  have d: "vd_target_len ?d \<le> vd_c_len ?d" "vd_c_len ?d \<le> vd_seq_len ?d" using ok by (simp_all add: data_ok_def)
  have "Inr (ds1 ! i) = data_step cfg g (nz i) (vs_step_index ?s) (predictions cfg g ?ds ?steps i)
      (predictions cfg g ?ds ?steps (length ?ds + i)) ?d"
    using step [OF assms(7)] unfolding i by simp
  also have "\<dots> = data_step cfg g (nz i) (vs_step_index ?s) (predictions cfg g [?d] [vs_step_index ?s] 0)
      (predictions cfg g [?d] [vs_step_index ?s] 1) ?d"
    using predictions_solo [OF assms(5) i(4), unfolded i(2)] by (intro data_step_cong [OF d])
  finally have "ds1 ! i = d1" using step1 by simp
  then show ?thesis unfolding exec exec1 using len assms(7) by simp
qed

lemma ex_net_independent: "row_independent ex_net"
  unfolding row_independent_def
proof (intro allI impI)
  fix S S' r r' n p v c :: nat and ids ids' :: batch_ids and R R' :: nat
    and am am' :: audio_mask and attn attn' :: attention_mask
  assume "\<forall>c p. p < n \<longrightarrow> ids r c p = ids' r' c p" and "p < n"
  then show "ex_net R S ids am attn r c p v = ex_net R' S' ids' am' attn' r' c p v"
    by (simp only: ex_net_def)
qed

theorem batch_step_is_rowwise_witness:
  "fst (execute_step_batch ex_cfg ex_gen (\<lambda>_. ex_noise) ex_env ex_decoder 2
      [(ex_state ''a'', True), (ex_state ''b'', True)]) ! 1
    = hd (fst (execute_step_batch ex_cfg ex_gen (\<lambda>_. ex_noise) ex_env ex_decoder 2 [(ex_state ''b'', True)]))"
proof -
  let ?items = "[(ex_state ''a'', True), (ex_state ''b'', True)]"
  have "\<forall>item \<in> set ?items. item_ok ex_cfg ex_env item" by (simp add: ex_item)
  from batch_step_is_rowwise [of ex_gen ex_cfg ?items ex_env 1 "\<lambda>_. ex_noise" ex_decoder 2, OF _ ex_has_class _ _ _ this]
  show ?thesis using top_k_largest ex_times ex_net_independent by simp
qed

section \<open>Steps of one request and whole-request generation\<close>

text \<open>A request's data are the two rows of the generator's batch of one.\<close>

definition matches :: "gen_config \<Rightarrow> batch_tensors \<Rightarrow> nat \<Rightarrow> nat \<Rightarrow> plan \<Rightarrow> voice_data \<Rightarrow> batch_ids \<Rightarrow> batch_ids \<Rightarrow> bool" where
  "matches cfg bt tlen clen plan d ids toks \<longleftrightarrow>
     vd_seq_len d = bt_len bt \<and> vd_audio_mask d = (\<lambda>u. bt_audio_mask bt (if u then 1 else 0))
     \<and> vd_attention d = (\<lambda>u. bt_attention bt (if u then 1 else 0))
     \<and> vd_target_len d = tlen \<and> vd_c_len d = clen \<and> vd_step_plan d = plan
     \<and> vd_cond d = ids 0 \<and> vd_uncond d = ids 1 \<and> vd_tokens d = toks 0
     \<and> (\<forall>c p. bt_len bt \<le> p \<longrightarrow> ids 0 c p = audio_mask_id cfg \<and> ids 1 c p = audio_mask_id cfg)
     \<and> (\<forall>c p. tlen \<le> p \<longrightarrow> toks 0 c p = audio_mask_id cfg)
     \<and> (\<forall>i \<ge> 2. ids i = (\<lambda>c p. audio_mask_id cfg)) \<and> (\<forall>i \<ge> 1. toks i = (\<lambda>c p. audio_mask_id cfg))"

lemma batch_of_one:
  "build_batch_tensors m [r] = Inr
    \<lparr>bt_len = max (cond_len r) (uncond_len r),
     bt_ids = (\<lambda>i c p. if i = 0 then (if p < cond_len r then cond_ids r c p else m)
       else if i = 1 then (if p < uncond_len r then uncond_ids r c p else m) else m),
     bt_audio_mask = (\<lambda>i p. if i = 0 then text_len r \<le> p \<and> p < cond_len r else i = 1 \<and> p < uncond_len r),
     bt_attention = (\<lambda>i q p. if i = 0 then q < cond_len r \<and> p < cond_len r
       else i = 1 \<and> q < uncond_len r \<and> p < uncond_len r),
     bt_target_lens = [target_len r]\<rparr>"
proof -
  show ?thesis
    unfolding build_batch_tensors_def Let_def
    by (simp add: fun_eq_iff) (auto simp: less_2_cases_iff)
qed

lemma stack_of_one:
  "stack_batch m [d] [n] =
     (\<lparr>seq_len = vd_seq_len d,
       in_audio_mask = (\<lambda>i p. i < 2 \<and> p < vd_seq_len d \<and> vd_audio_mask d (1 \<le> i) p),
       in_attention_mask = (\<lambda>i q p. i < 2 \<and> q < vd_seq_len d \<and> p < vd_seq_len d \<and> vd_attention d (1 \<le> i) q p),
       target_lens = [vd_target_len d], step_indices = [n], step_plans = [vd_step_plan d], c_lens = [vd_c_len d]\<rparr>,
      (\<lambda>i c p. if i < 2 \<and> p < vd_seq_len d then (if i < 1 then vd_cond d c p else vd_uncond d c p) else m),
      (\<lambda>i c p. if i < 1 \<and> p < vd_target_len d then vd_tokens d c p else m))"
  unfolding stack_batch_def Let_def by (simp add: fun_eq_iff) (auto simp: less_2_cases_iff)

lemma batch_one:
  assumes "build_batch_tensors m [r] = Inr bt" and "prepared_ok m r"
  shows "bt_len bt = cond_len r" "bt_target_lens bt = [target_len r]" "\<And>i p. 2 \<le> i \<or> bt_len bt \<le> p \<Longrightarrow> \<not> bt_audio_mask bt i p"
    "\<And>i q p. 2 \<le> i \<or> bt_len bt \<le> q \<or> bt_len bt \<le> p \<Longrightarrow> \<not> bt_attention bt i q p"
    "\<And>i c p. 2 \<le> i \<or> bt_len bt \<le> p \<Longrightarrow> bt_ids bt i c p = m"
    "map (\<lambda>i. length (filter (bt_attention bt i 0) [0 ..< bt_len bt])) [0 ..< length (bt_target_lens bt)] = [cond_len r]"
proof -
  have r: "target_len r \<le> cond_len r" "uncond_len r = target_len r" using assms(2) by (simp_all add: prepared_ok_def)
  show "bt_len bt = cond_len r" "bt_target_lens bt = [target_len r]"
    "\<And>i p. 2 \<le> i \<or> bt_len bt \<le> p \<Longrightarrow> \<not> bt_audio_mask bt i p"
    "\<And>i q p. 2 \<le> i \<or> bt_len bt \<le> q \<or> bt_len bt \<le> p \<Longrightarrow> \<not> bt_attention bt i q p"
    "\<And>i c p. 2 \<le> i \<or> bt_len bt \<le> p \<Longrightarrow> bt_ids bt i c p = m"
    using assms(1) r unfolding batch_of_one by (auto split: if_splits)
  show "map (\<lambda>i. length (filter (bt_attention bt i 0) [0 ..< bt_len bt])) [0 ..< length (bt_target_lens bt)] = [cond_len r]"
    using batch_tensors_row(1,2) [OF assms(1), of 0] assms(2) by simp
qed

lemma matches_stack:
  assumes "build_batch_tensors (audio_mask_id cfg) [r] = Inr bt" and "prepared_ok (audio_mask_id cfg) r"
    and "matches cfg bt (target_len r) (cond_len r) plan d ids toks"
  shows "stack_batch (audio_mask_id cfg) [d] [n] = ((gen_init cfg bt [plan])\<lparr>step_indices := [n]\<rparr>, ids, toks)"
proof -
  note one = batch_one [OF assms(1,2)]
  have m: "vd_seq_len d = bt_len bt" "vd_audio_mask d = (\<lambda>u. bt_audio_mask bt (if u then 1 else 0))"
    "vd_attention d = (\<lambda>u. bt_attention bt (if u then 1 else 0))" "vd_target_len d = target_len r" "vd_c_len d = cond_len r"
    "vd_step_plan d = plan" "vd_cond d = ids 0" "vd_uncond d = ids 1" "vd_tokens d = toks 0"
    and out: "\<And>c p. bt_len bt \<le> p \<Longrightarrow> ids 0 c p = audio_mask_id cfg \<and> ids 1 c p = audio_mask_id cfg"
    "\<And>c p. target_len r \<le> p \<Longrightarrow> toks 0 c p = audio_mask_id cfg"
    "\<And>i. 2 \<le> i \<Longrightarrow> ids i = (\<lambda>c p. audio_mask_id cfg)" "\<And>i. 1 \<le> i \<Longrightarrow> toks i = (\<lambda>c p. audio_mask_id cfg)"
    using assms(3) unfolding matches_def by blast+
  have two: "i = 0 \<or> i = 1 \<or> 2 \<le> i" for i :: nat by linarith
  have "(\<lambda>i p. i < 2 \<and> p < bt_len bt \<and> bt_audio_mask bt (if 1 \<le> i then 1 else 0) p) = bt_audio_mask bt"
  proof (intro ext)
    fix i p show "(i < 2 \<and> p < bt_len bt \<and> bt_audio_mask bt (if 1 \<le> i then 1 else 0) p) = bt_audio_mask bt i p"
      using two [of i] one(3) [of i p] by (cases "bt_len bt \<le> p") (auto simp: not_le)
  qed
  moreover have "(\<lambda>i q p. i < 2 \<and> q < bt_len bt \<and> p < bt_len bt \<and> bt_attention bt (if 1 \<le> i then 1 else 0) q p) = bt_attention bt"
  proof (intro ext)
    fix i q p show "(i < 2 \<and> q < bt_len bt \<and> p < bt_len bt \<and> bt_attention bt (if 1 \<le> i then 1 else 0) q p)
        = bt_attention bt i q p"
      using two [of i] one(4) [of i q p]
      by (cases "bt_len bt \<le> p"; cases "bt_len bt \<le> q") (auto simp: not_le)
  qed
  moreover have "(\<lambda>i c p. if i < 2 \<and> p < bt_len bt then (if i < 1 then ids 0 c p else ids 1 c p) else audio_mask_id cfg) = ids"
  proof (intro ext)
    fix i c p show "(if i < 2 \<and> p < bt_len bt then (if i < 1 then ids 0 c p else ids 1 c p) else audio_mask_id cfg) = ids i c p"
      using two [of i] out(1) [of p c] out(3) [of i] by (auto simp: not_less)
  qed
  moreover have "(\<lambda>i c p. if i < 1 \<and> p < target_len r then toks 0 c p else audio_mask_id cfg) = toks"
  proof (intro ext)
    fix i c p show "(if i < 1 \<and> p < target_len r then toks 0 c p else audio_mask_id cfg) = toks i c p"
      using out(2) [of p c] out(4) [of i] by (cases i) (auto simp: not_less)
  qed
  ultimately show ?thesis
    unfolding stack_of_one m gen_init_def one(6) by (simp add: one(2))
qed

text \<open>What a step leaves alone.\<close>

lemma update_row_frame:
  assumes "update_row cfg guide topk nz plan s c_len t_len lc lu (cond, uncond, toks) = Inr (cond', uncond', toks')"
  shows "c_len \<le> p \<Longrightarrow> cond' c p = cond c p" and "t_len \<le> p \<Longrightarrow> uncond' c p = uncond c p"
    and "t_len \<le> p \<Longrightarrow> toks' c p = toks c p"
proof -
  consider "cond' = cond" "uncond' = uncond" "toks' = toks"
    | lp where "unmask_row cfg topk nz (plan ! s) t_len lp toks = Inr toks'"
      "cond' = (\<lambda>c p. if c_len - t_len \<le> p \<and> p < c_len then toks' c (p - (c_len - t_len)) else cond c p)"
      "uncond' = (\<lambda>c p. if p < t_len then toks' c p else uncond c p)"
    using assms by (auto simp: update_row_def bind_res_Inr split: if_splits)
  then have "(c_len \<le> p \<longrightarrow> cond' c p = cond c p) \<and> (t_len \<le> p \<longrightarrow> uncond' c p = uncond c p)
    \<and> (t_len \<le> p \<longrightarrow> toks' c p = toks c p)"
  proof cases
    case 2
    obtain a b k where "plan ! s = (a, b, k)" by (rule prod_cases3)
    with 2(1) have "t_len \<le> p \<longrightarrow> toks' c p = toks c p"
      by (auto simp: unmask_row_def Let_def split: if_splits)
    with 2(2,3) show ?thesis by simp
  qed simp
  then show "c_len \<le> p \<Longrightarrow> cond' c p = cond c p" "t_len \<le> p \<Longrightarrow> uncond' c p = uncond c p"
    "t_len \<le> p \<Longrightarrow> toks' c p = toks c p" by simp_all
qed

lemma unmask_step_one:
  assumes "unmask_step cfg net guide topk nz b (ids, toks) = Inr (ids1, toks1)" and "target_lens b = [t]"
  obtains cond uncond tk lc lu where "update_row cfg guide topk (nz 0) (step_plans b ! 0) (step_indices b ! 0) (c_lens b ! 0)
      t lc lu (ids 0, ids 1, toks 0) = Inr (cond, uncond, tk)"
    and "ids1 = ids(0 := cond, 1 := uncond)" and "toks1 = toks(0 := tk)"
  using assms by (auto simp: unmask_step_def Let_def bind_res_Inr intro: that)

lemma matches_step:
  assumes bt: "build_batch_tensors (audio_mask_id cfg) [r] = Inr bt" and r: "prepared_ok (audio_mask_id cfg) r"
    and m: "matches cfg bt (target_len r) (cond_len r) plan d ids toks"
    and step: "unmask_step cfg net guide topk nz ((gen_init cfg bt [plan])\<lparr>step_indices := [n]\<rparr>) (ids, toks) = Inr (ids1, toks1)"
  shows "matches cfg bt (target_len r) (cond_len r) plan (copy_back (audio_mask_id cfg) (ids1 0, ids1 1, toks1 0) n d) ids1 toks1"
proof -
  note one = batch_one [OF bt r]
  let ?b = "(gen_init cfg bt [plan])\<lparr>step_indices := [n]\<rparr>"
  have len: "target_lens ?b = [target_len r]" "step_plans ?b ! 0 = plan" "c_lens ?b ! 0 = cond_len r"
    unfolding gen_init_def one(6) by (simp_all add: one(2))
  obtain cond uncond tk lc lu where up: "update_row cfg guide topk (nz 0) plan (step_indices ?b ! 0) (cond_len r)
      (target_len r) lc lu (ids 0, ids 1, toks 0) = Inr (cond, uncond, tk)"
    and ids1: "ids1 = ids(0 := cond, 1 := uncond)" and toks1: "toks1 = toks(0 := tk)"
    by (rule unmask_step_one [OF step len(1), unfolded len])
  note fr = update_row_frame [OF up]
  have tl: "target_len r \<le> bt_len bt" using r by (simp add: one(1) prepared_ok_def)
  have out: "\<forall>c p. bt_len bt \<le> p \<longrightarrow> ids 0 c p = audio_mask_id cfg \<and> ids 1 c p = audio_mask_id cfg"
    "\<forall>c p. target_len r \<le> p \<longrightarrow> toks 0 c p = audio_mask_id cfg"
    and m': "vd_seq_len d = bt_len bt" "vd_audio_mask d = (\<lambda>u. bt_audio_mask bt (if u then 1 else 0))"
    "vd_attention d = (\<lambda>u. bt_attention bt (if u then 1 else 0))" "vd_target_len d = target_len r" "vd_c_len d = cond_len r"
    "vd_step_plan d = plan" "\<forall>i \<ge> 2. ids i = (\<lambda>c p. audio_mask_id cfg)" "\<forall>i \<ge> 1. toks i = (\<lambda>c p. audio_mask_id cfg)"
    using m unfolding matches_def by blast+
  have c: "cond c p = audio_mask_id cfg" "uncond c p = audio_mask_id cfg" if "bt_len bt \<le> p" for c p
    using fr(1,2) [of p c] out(1) that tl by (simp_all add: one(1))
  have k: "tk c p = audio_mask_id cfg" if "target_len r \<le> p" for c p
    using fr(3) [of p c] out(2) that by simp
  have "(\<lambda>c p. if p < bt_len bt then cond c p else audio_mask_id cfg) = cond"
    "(\<lambda>c p. if p < bt_len bt then uncond c p else audio_mask_id cfg) = uncond"
    "(\<lambda>c p. if p < target_len r then tk c p else audio_mask_id cfg) = tk"
    using c k by (auto simp: fun_eq_iff not_less)
  then show ?thesis
    unfolding matches_def copy_back_def ids1 toks1 using m' c k by simp
qed

section \<open>A request served step by step\<close>

text \<open>
  The history of a request: it enters some batch as new, and takes part in one batch after another. Its
  random numbers at its step \<open>n\<close> are \<open>nz n\<close>; the rest of the batches is arbitrary.
\<close>

inductive served ::
  "gen_config \<Rightarrow> generator \<Rightarrow> 'audio voice_env \<Rightarrow> (nat \<Rightarrow> tokens \<Rightarrow> 'a list) \<Rightarrow> nat \<Rightarrow> (nat \<Rightarrow> noise)
   \<Rightarrow> 'audio voice_state \<Rightarrow> nat \<Rightarrow> 'audio voice_state \<Rightarrow> bool"
  for cfg g env decoder h nz s0 where
  arrives: "served cfg g env decoder h nz s0 0 s0"
| steps: "served cfg g env decoder h nz s0 n s \<Longrightarrow> i < length items \<Longrightarrow> items ! i = (s, n = 0)
    \<Longrightarrow> \<forall>item \<in> set items. item_ok cfg env item \<Longrightarrow> nzs i = nz n
    \<Longrightarrow> served cfg g env decoder h nz s0 (Suc n) (fst (execute_step_batch cfg g nzs env decoder h items) ! i)"

inductive_simps served_0: "served cfg g env decoder h nz s0 0 s"

lemma forward_loop_append:
  "forward_loop cfg net guide topk nz b (xs @ ys) st
    = bind_res (forward_loop cfg net guide topk nz b xs st) (forward_loop cfg net guide topk nz b ys)"
proof (induction xs arbitrary: st)
  case (Cons x xs)
  then show ?case by (cases "unmask_step cfg net guide topk (nz x) (b\<lparr>step_indices := replicate (length (target_lens b)) x\<rparr>) st") simp_all
qed simp

text \<open>After each step the request's data are where the generator's loop is.\<close>

definition in_step_with ::
  "gen_config \<Rightarrow> generator \<Rightarrow> (nat \<Rightarrow> noise) \<Rightarrow> prepared \<Rightarrow> batch_tensors \<Rightarrow> plan \<Rightarrow> nat \<Rightarrow> 'audio voice_state \<Rightarrow> bool" where
  "in_step_with cfg g nz r bt plan n s \<longleftrightarrow> vs_step_index s = n \<and> (\<exists>d ids toks. vs_data s = Some d
     \<and> forward_loop cfg (g_net g) (g_guide g) (g_topk g) (\<lambda>k _. nz k) (gen_init cfg bt [plan]) [0 ..< n]
         (bt_ids bt, \<lambda>i c p. audio_mask_id cfg) = Inr (ids, toks)
     \<and> matches cfg bt (target_len r) (cond_len r) plan d ids toks)"

lemma solo_in_step:
  assumes g: "largest_k (g_topk g)" "has_class cfg" "times_ok (g_times g)" "0 < g_num_step g"
    and item: "item_ok cfg env item" and bt: "build_batch_tensors (audio_mask_id cfg) [r] = Inr bt"
    and r: "prepared_ok (audio_mask_id cfg) r"
    and before: "in_step_with cfg g nz r bt plan n (ready cfg g env item)"
  shows "in_step_with cfg g nz r bt plan (Suc n)
    (hd (fst (execute_step_batch cfg g (\<lambda>_. nz n) env decoder h [item])))"
proof -
  let ?s = "ready cfg g env item"
  let ?b = "gen_init cfg bt [plan]"
  obtain d ids toks where d: "vs_step_index ?s = n" "vs_data ?s = Some d"
    and loop: "forward_loop cfg (g_net g) (g_guide g) (g_topk g) (\<lambda>k _. nz k) ?b [0 ..< n]
      (bt_ids bt, \<lambda>i c p. audio_mask_id cfg) = Inr (ids, toks)"
    and m: "matches cfg bt (target_len r) (cond_len r) plan d ids toks"
    using before unfolding in_step_with_def by blast
  obtain d1 out where ok: "data_ok cfg n d"
    and step: "data_step cfg g (nz n) n (predictions cfg g [d] [n] 0) (predictions cfg g [d] [n] 1) d = Inr d1"
    and exec: "execute_step_batch cfg g (\<lambda>_. nz n) env decoder h [item] = ([fst (finish_step decoder h ?s d1)], Inr out)"
    by (rule execute_solo [OF g item, of "\<lambda>_. nz n" decoder h, unfolded d option.sel])
  have st: "stack_batch (audio_mask_id cfg) [d] [n] = (?b\<lparr>step_indices := [n]\<rparr>, ids, toks)"
    by (rule matches_stack [OF bt r m])
  obtain ids1 toks1 where un: "unmask_step cfg (g_net g) (g_guide g) (g_topk g) (\<lambda>_. nz n) (?b\<lparr>step_indices := [n]\<rparr>) (ids, toks)
      = Inr (ids1, toks1)"
    and row: "data_step cfg g (nz n) n (predictions cfg g [d] [n] 0) (predictions cfg g [d] [n] 1) d
      = Inr (copy_back (audio_mask_id cfg) (ids1 0, ids1 1, toks1 0) n d)"
  proof (rule stacked_step [OF g(1,2), of "[n]" "[d]" "?b\<lparr>step_indices := [n]\<rparr>" ids toks "\<lambda>_. nz n"], goal_cases)
    case (4 ids1 toks1)
    show ?case by (rule 4(1) [OF 4(2)]) (use 4(3) [of 0] in simp)
  qed (use ok st in simp_all)
  have d1: "d1 = copy_back (audio_mask_id cfg) (ids1 0, ids1 1, toks1 0) n d" using step row by simp
  note res = data_step_result [OF g(1,2) ok step]
  note fs = finish_step_state [OF res(1,2) d(1), of decoder h]
  obtain e where e: "vs_data (fst (finish_step decoder h ?s d1)) = Some (d1\<lparr>vd_emitted_samples := e\<rparr>)" using fs(3) by blast
  have m1: "matches cfg bt (target_len r) (cond_len r) plan (d1\<lparr>vd_emitted_samples := e\<rparr>) ids1 toks1"
    using matches_step [OF bt r m un] by (simp add: d1 matches_def)
  have one: "replicate (length (target_lens ?b)) n = [n]"
    using batch_one(2) [OF bt r] by (simp add: gen_init_def)
  have "forward_loop cfg (g_net g) (g_guide g) (g_topk g) (\<lambda>k _. nz k) ?b [0 ..< Suc n]
      (bt_ids bt, \<lambda>i c p. audio_mask_id cfg) = Inr (ids1, toks1)"
    using un unfolding upt_Suc_append [OF le0] forward_loop_append loop by (simp add: one)
  with e m1 fs(2) show ?thesis unfolding in_step_with_def exec by simp
qed

lemma fresh_in_step:
  assumes "times_ok (g_times g)" "0 < g_num_step g" and "fresh_prompt cfg env s r"
    and "build_batch_tensors (audio_mask_id cfg) [r] = Inr bt"
    and "build_step_plans (g_times g) (g_block_env g) (g_first_env g) (num_audio_codebook cfg) [target_len r]
      (g_num_step g) = Inr [plan]"
  shows "in_step_with cfg g nz r bt plan 0 (ready cfg g env (s, True))" and "prepared_ok (audio_mask_id cfg) r"
proof -
  have "in_step_with cfg g nz r bt plan 0 (ready cfg g env (s, True)) \<and> prepared_ok (audio_mask_id cfg) r"
  proof (rule prepare_encode_ok [OF assms(1-3)], goal_cases)
    case (1 s1 d bt1 plan1)
    have same: "bt1 = bt" "plan1 = plan" using 1(5,6) assms(4,5) by simp_all
    have "matches cfg bt (target_len r) (cond_len r) plan d (bt_ids bt) (\<lambda>i c p. audio_mask_id cfg)"
      using 1 batch_one(5) [OF assms(4) 1(17)] unfolding matches_def same by (simp add: fun_eq_iff)
    then show ?case using 1 by (simp add: in_step_with_def ready_def)
  qed
  then show "in_step_with cfg g nz r bt plan 0 (ready cfg g env (s, True))" "prepared_ok (audio_mask_id cfg) r" by simp_all
qed

lemma served_in_step:
  assumes g: "largest_k (g_topk g)" "has_class cfg" "times_ok (g_times g)" "0 < g_num_step g"
    and ind: "row_independent (g_net g)" and fresh: "fresh_prompt cfg env s0 r"
    and bt: "build_batch_tensors (audio_mask_id cfg) [r] = Inr bt"
    and plan: "build_step_plans (g_times g) (g_block_env g) (g_first_env g) (num_audio_codebook cfg) [target_len r]
      (g_num_step g) = Inr [plan]"
  shows "served cfg g env decoder h nz s0 n s \<Longrightarrow> 0 < n \<Longrightarrow> in_step_with cfg g nz r bt plan n s"
proof (induction rule: served.induct)
  case arrives
  then show ?case by simp
next
  case (steps n s i items nzs)
  note start = fresh_in_step [OF g(3,4) fresh bt plan]
  have it: "item_ok cfg env (items ! i)" using steps.hyps(2,4) by simp
  have "in_step_with cfg g nz r bt plan n (ready cfg g env (items ! i))"
  proof (cases "n = 0")
    case True
    then have "s = s0" using steps.hyps(1) by (simp add: served_0)
    with True start(1) show ?thesis by (simp add: steps.hyps(3))
  next
    case False
    then have s: "in_step_with cfg g nz r bt plan n s" by (intro steps.IH) simp
    then have "ready cfg g env (s, n = 0) = s" using False by (auto simp: in_step_with_def ready_def)
    with s show ?thesis by (simp add: steps.hyps(3))
  qed
  from solo_in_step [OF g it bt start(2) this, of decoder h]
  show ?case
    using batch_step_is_rowwise [OF g ind steps.hyps(4,2), of nzs decoder h] steps.hyps(5) by simp
qed

text \<open>C2: Continuous batching is exact: a new request that was served step by step, each time in whatever
  batch of other requests, has after the last step of its plan the very tokens that generating it alone
  in one go would give with the same random numbers.\<close>

theorem continuous_batching_is_exact:
  assumes "largest_k (g_topk g)" and "has_class cfg" and "times_ok (g_times g)" and "0 < g_num_step g"
    and "row_independent (g_net g)" and "fresh_prompt cfg env s0 r"
    and "build_batch_tensors (audio_mask_id cfg) [r] = Inr bt"
    and "served cfg g env decoder h nz s0 n s" and "vs_data s = Some d" and "0 < n" and "n = length (vd_step_plan d)"
  shows "\<exists>toks. generator_forward cfg (g_net g) (g_guide g) (g_topk g) (\<lambda>k _. nz k) (g_times g) (g_block_env g)
      (g_first_env g) block_debug (bt_len bt) (bt_ids bt) (bt_audio_mask bt) (bt_attention bt) (bt_target_lens bt)
      (g_num_step g) = Inr toks \<and> vd_tokens d = toks 0"
proof (rule prepare_encode_ok [OF assms(3,4,6)], goal_cases)
  case (1 s1 d1 bt1 plan)
  note r = 1(17)
  have lens: "bt_target_lens bt = [target_len r]" by (rule batch_one(2) [OF assms(7) r])
  have "in_step_with cfg g nz r bt plan n s"
    by (rule served_in_step [OF assms(1-7) 1(6) assms(8,10)])
  then obtain ids toks where loop: "forward_loop cfg (g_net g) (g_guide g) (g_topk g) (\<lambda>k _. nz k) (gen_init cfg bt [plan])
      [0 ..< n] (bt_ids bt, \<lambda>i c p. audio_mask_id cfg) = Inr (ids, toks)"
    and m: "matches cfg bt (target_len r) (cond_len r) plan d ids toks" and idx: "vs_step_index s = n"
    unfolding in_step_with_def using assms(9) by auto
  have plan: "vd_step_plan d = plan" "vd_tokens d = toks 0" "vd_target_len d = target_len r"
    using m by (simp_all add: matches_def)
  have p: "plan_ok (num_audio_codebook cfg) (target_len r) plan"
    using 1(4,13,15) by (simp add: data_ok_def)
  have "0 < target_len r" using r by (simp add: prepared_ok_def)
  have bok: "batch_ok cfg (gen_init cfg bt [plan]) (\<lambda>i. 0) (bt_ids bt, \<lambda>i c p. audio_mask_id cfg)"
    by (rule gen_init_ok [OF assms(7)]) (use r p lens in simp_all)
  obtain st' where "forward_loop cfg (g_net g) (g_guide g) (g_topk g) (\<lambda>k _. nz k) (gen_init cfg bt [plan])
      [0 ..< 0 + n] (bt_ids bt, \<lambda>i c p. audio_mask_id cfg) = Inr st'" and fin: "batch_ok cfg (gen_init cfg bt [plan]) (\<lambda>i. 0 + n) st'"
    using forward_loop_ok [OF assms(1,2) bok, of "g_net g" "g_guide g" "\<lambda>k _. nz k" n] by blast
  then have st': "st' = (ids, toks)" using loop by simp
  have "on_schedule cfg plan n (toks 0)"
    using fin by (simp add: batch_ok_def st' gen_init_def lens)
  then have "\<not> residual_mask cfg (target_len r) (toks 0)"
    by (rule schedule_done [OF p]) (use assms(11) plan in simp)
  moreover have "Max (set (map length [plan])) = n" using assms(11) plan by simp
  ultimately have "generator_forward cfg (g_net g) (g_guide g) (g_topk g) (\<lambda>k _. nz k) (g_times g) (g_block_env g)
      (g_first_env g) block_debug (bt_len bt) (bt_ids bt) (bt_audio_mask bt) (bt_attention bt) (bt_target_lens bt)
      (g_num_step g) = Inr toks"
    using loop unfolding generator_forward_def lens 1(6) bind_res_simps Let_def gen_init_def by simp
  then show ?case using plan by simp
qed

lemma ex_plan:
  "build_step_plans (g_times ex_gen) (g_block_env ex_gen) (g_first_env ex_gen) (num_audio_codebook ex_cfg) [1]
     (g_num_step ex_gen) = Inr [[(0, 1, 1)]]"
  by (simp add: ex_gen_def build_step_plans_def resolve_block_size_def resolve_first_block_num_step_def build_plan_def
      block_plan_def Let_def)

theorem continuous_batching_is_exact_witness:
  "\<exists>bt s d toks. build_batch_tensors 2 [ex_prepared] = Inr bt
    \<and> s = fst (execute_step_batch ex_cfg ex_gen (\<lambda>_. ex_noise) ex_env ex_decoder 2
        [(ex_state ''a'', True), (ex_state ''b'', True)]) ! 1
    \<and> vs_data s = Some d
    \<and> generator_forward ex_cfg ex_net (g_guide ex_gen) top_k (\<lambda>_ _. ex_noise) (g_times ex_gen) (g_block_env ex_gen)
        (g_first_env ex_gen) True (bt_len bt) (bt_ids bt) (bt_audio_mask bt) (bt_attention bt) (bt_target_lens bt) 1 = Inr toks
    \<and> vd_tokens d = toks 0"
proof -
  let ?items = "[(ex_state ''a'', True), (ex_state ''b'', True)]"
  let ?s = "fst (execute_step_batch ex_cfg ex_gen (\<lambda>_. ex_noise) ex_env ex_decoder 2 ?items) ! 1"
  obtain bt where bt: "build_batch_tensors (audio_mask_id ex_cfg) [ex_prepared] = Inr bt" using single_batch by blast
  have fresh: "fresh_prompt ex_cfg ex_env (ex_state ''b'') ex_prepared"
    by (simp add: fresh_prompt_def ex_prepare)
  have g: "largest_k (g_topk ex_gen)" "times_ok (g_times ex_gen)" "0 < g_num_step ex_gen" "row_independent (g_net ex_gen)"
    using top_k_largest ex_times ex_net_independent by simp_all
  have sv: "served ex_cfg ex_gen ex_env ex_decoder 2 (\<lambda>_. ex_noise) (ex_state ''b'') (Suc 0) ?s"
    by (rule served.steps [OF served.arrives]) (simp_all add: ex_item)
  have "in_step_with ex_cfg ex_gen (\<lambda>_. ex_noise) ex_prepared bt [(0, 1, 1)] (Suc 0) ?s"
    by (rule served_in_step [OF g(1) ex_has_class g(2-4) fresh bt _ sv]) (simp_all only: ex_prepared_sel ex_plan lessI)
  then obtain d where d: "vs_data ?s = Some d" "vd_step_plan d = [(0, 1, 1)]"
    by (auto simp: in_step_with_def matches_def)
  have "\<exists>toks. generator_forward ex_cfg (g_net ex_gen) (g_guide ex_gen) (g_topk ex_gen) (\<lambda>k _. ex_noise) (g_times ex_gen)
      (g_block_env ex_gen) (g_first_env ex_gen) True (bt_len bt) (bt_ids bt) (bt_audio_mask bt) (bt_attention bt)
      (bt_target_lens bt) (g_num_step ex_gen) = Inr toks \<and> vd_tokens d = toks 0"
    by (rule continuous_batching_is_exact [OF g(1) ex_has_class g(2-4) fresh bt sv d(1)]) (simp_all add: d(2))
  with bt d(1) show ?thesis by auto
qed

end
