(* ===== verification/Omnivoice_Streaming.thy ===== *)
theory Omnivoice_Streaming
  imports Omnivoice_Equivalence
begin

text \<open>
  Streaming: a request's audio is decoded anew, from its first frame on, for every chunk it streams. The
  chunks are consecutive cuts through these decodings: each starts where the ones before ended, comes
  from frames that are final, and after the last step they are as long as the audio of all frames. Of the
  decoder this takes one thing, that every frame gives the same number of samples (\<open>sample_rate\<close> over
  \<open>frame_rate\<close> in \<open>config.py\<close>). Whether neighbouring decodings sound alike at a cut is the codec's affair.
\<close>

section \<open>Chunks as cuts\<close>

definition framewise :: "nat \<Rightarrow> (nat \<Rightarrow> tokens \<Rightarrow> 'a list) \<Rightarrow> bool" where
  "framewise spt decoder \<longleftrightarrow> 0 < spt \<and> (\<forall>n x. length (decoder n x) = n * spt)"

text \<open>A chunk is empty, or a cut from the decoding of some frames that are final in \<open>toks\<close>.\<close>

definition final_cut :: "gen_config \<Rightarrow> (nat \<Rightarrow> tokens \<Rightarrow> 'a list) \<Rightarrow> nat \<Rightarrow> tokens \<Rightarrow> nat \<Rightarrow> 'a list \<Rightarrow> bool" where
  "final_cut cfg decoder t toks start chunk \<longleftrightarrow> chunk = [] \<or> (\<exists>m x. m \<le> t
     \<and> (\<forall>c < num_audio_codebook cfg. \<forall>p < m. toks c p \<noteq> audio_mask_id cfg \<and> x c p = toks c p)
     \<and> start + length chunk \<le> length (decoder m x) \<and> chunk = take (length chunk) (drop start (decoder m x)))"

definition all_cuts :: "gen_config \<Rightarrow> (nat \<Rightarrow> tokens \<Rightarrow> 'a list) \<Rightarrow> nat \<Rightarrow> tokens \<Rightarrow> 'a list list \<Rightarrow> bool" where
  "all_cuts cfg decoder t toks chunks \<longleftrightarrow>
     (\<forall>k < length chunks. final_cut cfg decoder t toks (length (concat (take k chunks))) (chunks ! k))"

lemma all_cuts_snoc:
  "all_cuts cfg decoder t toks (chunks @ [c]) \<longleftrightarrow>
     all_cuts cfg decoder t toks chunks \<and> final_cut cfg decoder t toks (length (concat chunks)) c"
  by (auto simp: all_cuts_def nth_append less_Suc_eq)

text \<open>A final frame stays as it is.\<close>

lemma final_cut_later:
  assumes "final_cut cfg decoder t toks start chunk"
    and "\<forall>c p. p < t \<longrightarrow> toks c p \<noteq> audio_mask_id cfg \<longrightarrow> toks' c p = toks c p"
  shows "final_cut cfg decoder t toks' start chunk"
proof (cases "chunk = []")
  case False
  with assms(1) obtain m x where m: "m \<le> t"
    "\<forall>c < num_audio_codebook cfg. \<forall>p < m. toks c p \<noteq> audio_mask_id cfg \<and> x c p = toks c p"
    "start + length chunk \<le> length (decoder m x)" "chunk = take (length chunk) (drop start (decoder m x))"
    unfolding final_cut_def by blast
  have "\<forall>c < num_audio_codebook cfg. \<forall>p < m. toks' c p \<noteq> audio_mask_id cfg \<and> x c p = toks' c p"
    using m(1,2) assms(2) by simp
  with m show ?thesis unfolding final_cut_def by blast
qed (simp add: final_cut_def)

lemma decode_chunk:
  assumes dec: "framewise spt decoder" and "0 < n" and "n \<le> vd_target_len d"
    and frames: "(if fin then Inr (vd_target_len d)
      else bind_res (py_get (vd_step_plan d) (vd_last_step_index d)) (\<lambda>(a, b, k). Inr b)) = (Inr n :: nat res)"
  shows "decode_stream_delta decoder h fin d =
    (let audio = decoder n (first_frames n (vd_tokens d));
         e = max (vd_emitted_samples d) (if fin then n * spt else (n - h) * spt)
     in Inr (d\<lparr>vd_emitted_samples := e\<rparr>, py_slice (vd_emitted_samples d) e audio))"
proof -
  have len: "length (decoder n x) = n * spt" "0 < spt" for x using dec by (simp_all add: framewise_def)
  have m: "min n (vd_target_len d) = n" using assms(3) by simp
  have "max 1 (n * spt div n) = spt" using assms(2) len(2) by simp
  then show ?thesis
    unfolding decode_stream_delta_def frames bind_res_simps m Let_def len(1)
    using assms(2) by (simp add: diff_mult_distrib)
qed

lemma slice_is_cut:
  assumes "a \<le> e" and "e \<le> length audio" and "audio = decoder m (first_frames m toks)" and "m \<le> t"
    and "\<And>c p. c < num_audio_codebook cfg \<Longrightarrow> p < m \<Longrightarrow> toks c p \<noteq> audio_mask_id cfg"
  shows "final_cut cfg decoder t toks a (py_slice a e audio)" and "length (py_slice a e audio) = e - a"
proof -
  show l: "length (py_slice a e audio) = e - a" using assms(1,2) by (simp add: py_slice_def)
  have "\<forall>c < num_audio_codebook cfg. \<forall>p < m. toks c p \<noteq> audio_mask_id cfg \<and> first_frames m toks c p = toks c p"
    using assms(5) by (simp add: first_frames_def)
  moreover have "a + length (py_slice a e audio) \<le> length audio" using assms(1,2) by (simp add: l)
  moreover have "py_slice a e audio = take (length (py_slice a e audio)) (drop a audio)" by (simp add: l) (simp add: py_slice_def)
  ultimately show "final_cut cfg decoder t toks a (py_slice a e audio)"
    unfolding final_cut_def using assms(3,4) by blast
qed

section \<open>What a step adds\<close>

definition chunk_of :: "'a list option \<Rightarrow> 'a list" where
  "chunk_of c = (case c of None \<Rightarrow> [] | Some a \<Rightarrow> a)"

text \<open>A step that decodes: the last one, and the last of a block.\<close>

lemma finish_last:
  assumes "s + 1 \<ge> length (vd_step_plan d1)" and "vs_step_index state = s"
    and "decode_stream_delta decoder h True d1 = Inr (d2, audio)"
  shows "finish_step decoder h state d1 = (state\<lparr>vs_step_index := s + 1, vs_sampling_step_index := Some (s + 1),
    vs_data := Some d2\<rparr>, Inr (True, Some audio))"
  using assms by (simp add: finish_step_def Let_def)

lemma finish_block:
  assumes "s + 1 < length (vd_step_plan d1)" and "vs_step_index state = s" and "vd_stream_audio_blocks d1"
    and "is_block_complete (vd_step_plan d1) s" and "decode_stream_delta decoder h False d1 = Inr (d2, audio)"
  shows "finish_step decoder h state d1 = (state\<lparr>vs_step_index := s + 1, vs_sampling_step_index := Some (s + 1),
    vs_data := Some d2\<rparr>, Inr (False, if audio \<noteq> [] then Some audio else None))"
  using assms by (simp add: finish_step_def Let_def)

text \<open>The samples sent are those of some whole frames, less the held-back ones.\<close>

definition held_back :: "nat \<Rightarrow> nat \<Rightarrow> nat \<Rightarrow> nat \<Rightarrow> bool" where
  "held_back spt h t e \<longleftrightarrow> (\<exists>n \<le> t. e = (n - h) * spt)"

text \<open>A stream keeps up: with a block completed, its frames have been sent but for the held-back ones.\<close>

definition block_sent :: "nat \<Rightarrow> nat \<Rightarrow> nat \<Rightarrow> voice_data \<Rightarrow> bool" where
  "block_sent spt h s d \<longleftrightarrow> (vd_stream_audio_blocks d \<and> s < length (vd_step_plan d) \<and> is_block_complete (vd_step_plan d) s
     \<longrightarrow> (fst (snd (vd_step_plan d ! s)) - h) * spt \<le> vd_emitted_samples d)"

lemma held_back_le: "held_back spt h t e \<Longrightarrow> e \<le> t * spt"
  by (auto simp: held_back_def intro!: mult_le_mono1)

lemma stream_step:
  assumes dec: "framewise spt decoder" and held: "held_back spt h (vd_target_len d1) (vd_emitted_samples d1)"
    and d1: "data_ok cfg (Suc s) d1" "vd_last_step_index d1 = s" "0 < vd_target_len d1"
    and s: "vs_step_index state = s" and fs: "finish_step decoder h state d1 = (state1, Inr (fin, chunk))"
  obtains e where "vs_data state1 = Some (d1\<lparr>vd_emitted_samples := e\<rparr>)"
    and "e = vd_emitted_samples d1 + length (chunk_of chunk)"
    and "final_cut cfg decoder (vd_target_len d1) (vd_tokens d1) (vd_emitted_samples d1) (chunk_of chunk)"
    and "if s + 1 < length (vd_step_plan d1) then held_back spt h (vd_target_len d1) e else e = vd_target_len d1 * spt"
    and "block_sent spt h s (d1\<lparr>vd_emitted_samples := e\<rparr>)"
proof -
  let ?plan = "vd_step_plan d1" and ?T = "vd_target_len d1" and ?a = "vd_emitted_samples d1"
  have len: "length (decoder n x) = n * spt" for n x using dec by (simp add: framewise_def)
  have p: "plan_ok (num_audio_codebook cfg) ?T ?plan" "on_schedule cfg ?plan (Suc s) (vd_tokens d1)"
    using d1(1) by (simp_all add: data_ok_def)
  consider (fin) "s + 1 \<ge> length ?plan" | (block) "s + 1 < length ?plan" "is_block_complete ?plan s" "vd_stream_audio_blocks d1"
    | (quiet) "s + 1 < length ?plan" "\<not> (vd_stream_audio_blocks d1 \<and> is_block_complete ?plan s)" by linarith
  then show thesis
  proof cases
    case fin
    let ?audio = "decoder ?T (first_frames ?T (vd_tokens d1))"
    have le: "?a \<le> ?T * spt" by (rule held_back_le [OF held])
    have dc: "decode_stream_delta decoder h True d1 = Inr (d1\<lparr>vd_emitted_samples := ?T * spt\<rparr>, py_slice ?a (?T * spt) ?audio)"
      using decode_chunk [OF dec d1(3), of d1 True] le by (simp add: Let_def max_absorb2)
    from finish_last [OF fin s dc] fs have st: "vs_data state1 = Some (d1\<lparr>vd_emitted_samples := ?T * spt\<rparr>)"
      "chunk = Some (py_slice ?a (?T * spt) ?audio)" by auto
    have "\<not> residual_mask cfg ?T (vd_tokens d1)" using fin by (intro schedule_done [OF p]) simp
    then have clean: "vd_tokens d1 c q \<noteq> audio_mask_id cfg" if "c < num_audio_codebook cfg" "q < ?T" for c q
      using that by (auto simp: residual_mask_def)
    have "?T * spt \<le> length ?audio" by (simp add: len)
    note cut = slice_is_cut [where decoder = decoder and cfg = cfg, OF le this refl order_refl clean]
    have "(fst (snd (?plan ! s)) - h) * spt \<le> ?T * spt" if "s < length ?plan"
    proof -
      obtain a b k where step: "?plan ! s = (a, b, k)" by (rule prod_cases3)
      with that have "(a, b, k) \<in> set ?plan" by (metis nth_mem)
      from plan_ok_step(2) [OF p(1) this] show ?thesis by (simp add: step) linarith
    qed
    then show thesis
      using cut le fin by (intro that [OF st(1)]) (simp_all add: chunk_of_def st(2) py_slice_def len block_sent_def)
  next
    case block
    then have slt: "s < length ?plan" by simp
    obtain a b k where step: "?plan ! s = (a, b, k)" by (rule prod_cases3)
    have mem: "(a, b, k) \<in> set ?plan" using slt step by (metis nth_mem)
    have b: "0 < b" "b \<le> ?T" using plan_ok_step(1,2) [OF p(1) mem] by simp_all
    have clean: "vd_tokens d1 c q \<noteq> audio_mask_id cfg" if "c < num_audio_codebook cfg" "q < b" for c q
      by (rule block_complete [OF p slt block(2)]) (use that step in simp_all)
    define e where "e = max ?a ((b - h) * spt)"
    let ?audio = "decoder b (first_frames b (vd_tokens d1))"
    have dc: "decode_stream_delta decoder h False d1 = Inr (d1\<lparr>vd_emitted_samples := e\<rparr>, py_slice ?a e ?audio)"
      using decode_chunk [OF dec b(1), of d1 False] b(2) slt step d1(2) by (simp add: Let_def e_def py_get_def)
    from finish_block [OF block(1) s block(3,2) dc] fs have st: "vs_data state1 = Some (d1\<lparr>vd_emitted_samples := e\<rparr>)"
      "chunk_of chunk = py_slice ?a e ?audio" by (auto simp: chunk_of_def)
    have hb: "held_back spt h ?T e" using held b(2) by (auto simp: e_def held_back_def max_def)
    have "e = ?a + length (py_slice ?a e ?audio) \<and> final_cut cfg decoder ?T (vd_tokens d1) ?a (py_slice ?a e ?audio)"
    proof (cases "(b - h) * spt \<le> ?a")
      case True
      then have "e = ?a" by (simp add: e_def)
      then show ?thesis by (simp add: py_slice_def final_cut_def)
    next
      case False
      have "(b - h) * spt \<le> b * spt" by (intro mult_le_mono1) simp
      with False have e: "?a \<le> e" "e \<le> length ?audio" by (simp_all add: e_def len)
      from slice_is_cut [where decoder = decoder and cfg = cfg, OF e refl b(2) clean] e(1) show ?thesis by simp
    qed
    moreover have "(b - h) * spt \<le> e" by (simp add: e_def)
    ultimately show thesis using hb block(1) step by (intro that [OF st(1)]) (simp_all add: st(2) block_sent_def)
  next
    case quiet
    have "finish_step decoder h state d1 = (state\<lparr>vs_step_index := s + 1, vs_sampling_step_index := Some (s + 1),
        vs_data := Some d1\<rparr>, Inr (False, None))"
      using quiet s unfolding finish_step_def Let_def by auto
    with fs have st: "vs_data state1 = Some d1" "chunk = None" by auto
    have "d1 = d1\<lparr>vd_emitted_samples := ?a\<rparr>" by simp
    with st(1) have st1: "vs_data state1 = Some (d1\<lparr>vd_emitted_samples := ?a\<rparr>)" by simp
    show thesis using held quiet by (intro that [OF st1]) (auto simp: st(2) chunk_of_def final_cut_def block_sent_def)
  qed
qed

section \<open>What the batch reports\<close>

lemma finish_items_results:
  assumes "finish_items decoder h xs out = (states, Inr o')" and "distinct (map (\<lambda>(s, d). vs_req_id s) xs)"
  shows "\<And>q. q \<notin> (\<lambda>(s, d). vs_req_id s) ` set xs \<Longrightarrow> map_of (so_results o') q = map_of (so_results out) q"
    and "\<And>s d. (s, d) \<in> set xs \<Longrightarrow> map_of (so_results out) (vs_req_id s) = None
      \<Longrightarrow> \<exists>s1 fin. finish_step decoder h s d = (s1, Inr (fin, map_of (so_results o') (vs_req_id s)))"
proof -
  have "(\<forall>q. q \<notin> (\<lambda>(s, d). vs_req_id s) ` set xs \<longrightarrow> map_of (so_results o') q = map_of (so_results out) q)
    \<and> (\<forall>(s, d) \<in> set xs. map_of (so_results out) (vs_req_id s) = None
      \<longrightarrow> (\<exists>s1 fin. finish_step decoder h s d = (s1, Inr (fin, map_of (so_results o') (vs_req_id s)))))"
    using assms
  proof (induction xs arbitrary: out states)
    case Nil
    then show ?case by simp
  next
    case (Cons x xs)
    obtain s d where x: "x = (s, d)" by (rule prod.exhaust)
    obtain s1 fin c where fs: "finish_step decoder h s d = (s1, Inr (fin, c))"
      using Cons.prems(1) by (cases "finish_step decoder h s d") (auto simp: x split: sum.splits prod.splits)
    define out1 where "out1 = out\<lparr>so_results := (case c of None \<Rightarrow> so_results out | Some a \<Rightarrow> dict_set (vs_req_id s) a (so_results out)),
      so_finished := dict_set (vs_req_id s) fin (so_finished out),
      so_step_indices := dict_set (vs_req_id s) (vs_step_index s1) (so_step_indices out)\<rparr>"
    obtain rest where "finish_items decoder h xs out1 = (rest, Inr o')"
      using Cons.prems(1) by (auto simp: x fs Let_def out1_def split: prod.splits)
    moreover have "distinct (map (\<lambda>(s, d). vs_req_id s) xs)" using Cons.prems(2) by (simp add: x)
    ultimately have IH: "\<forall>q. q \<notin> (\<lambda>(s, d). vs_req_id s) ` set xs \<longrightarrow> map_of (so_results o') q = map_of (so_results out1) q"
      "\<forall>(s, d) \<in> set xs. map_of (so_results out1) (vs_req_id s) = None
        \<longrightarrow> (\<exists>s1 fin. finish_step decoder h s d = (s1, Inr (fin, map_of (so_results o') (vs_req_id s))))"
      by (blast dest: Cons.IH)+
    have new: "map_of (so_results out1) q = (if q = vs_req_id s then (case c of None \<Rightarrow> map_of (so_results out) q | Some a \<Rightarrow> Some a)
        else map_of (so_results out) q)" for q
      by (simp add: out1_def map_of_dict_set split: option.splits)
    have fresh: "vs_req_id s \<notin> (\<lambda>(s, d). vs_req_id s) ` set xs" using Cons.prems(2) by (simp add: x)
    have 1: "map_of (so_results o') q = map_of (so_results out) q" if "q \<notin> (\<lambda>(s, d). vs_req_id s) ` set (x # xs)" for q
      using IH(1) new that by (simp add: x)
    have 2: "\<exists>s1 fin. finish_step decoder h s' d' = (s1, Inr (fin, map_of (so_results o') (vs_req_id s')))"
      if m: "(s', d') \<in> set (x # xs)" and none: "map_of (so_results out) (vs_req_id s') = None" for s' d'
    proof (cases "(s', d') = x")
      case True
      have "map_of (so_results o') (vs_req_id s) = c"
        using IH(1) fresh new [of "vs_req_id s"] none True by (simp add: x split: option.splits)
      with True fs show ?thesis by (simp add: x)
    next
      case False
      then have "(s', d') \<in> set xs" using m by simp
      moreover from this have "vs_req_id s' \<noteq> vs_req_id s" using fresh by force
      ultimately show ?thesis using IH(2) new none by fastforce
    qed
    show ?case using 1 2 by blast
  qed
  then show "\<And>q. q \<notin> (\<lambda>(s, d). vs_req_id s) ` set xs \<Longrightarrow> map_of (so_results o') q = map_of (so_results out) q"
    "\<And>s d. (s, d) \<in> set xs \<Longrightarrow> map_of (so_results out) (vs_req_id s) = None
      \<Longrightarrow> \<exists>s1 fin. finish_step decoder h s d = (s1, Inr (fin, map_of (so_results o') (vs_req_id s)))" by blast+
qed

lemma ready_req_id:
  assumes "times_ok (g_times g)" and "0 < g_num_step g" and "item_ok cfg env item"
  shows "vs_req_id (ready cfg g env item) = vs_req_id (fst item)"
proof -
  have enc: "prepare_encode cfg g env s = Inr s1 \<Longrightarrow> vs_req_id s1 = vs_req_id s" for s s1
    by (auto simp: prepare_encode_def bind_res_Inr split: list.splits option.splits)
  show ?thesis using ready_ok(2) [OF assms] enc by (auto split: if_splits)
qed

lemma batch_chunk:
  assumes g: "largest_k (g_topk g)" "has_class cfg" "times_ok (g_times g)" "0 < g_num_step g"
    and items: "\<forall>item \<in> set items. item_ok cfg env item" "distinct (map (\<lambda>(s, n). vs_req_id s) items)" "i < length items"
    and dec: "framewise spt decoder" and d: "vs_data (ready cfg g env (items ! i)) = Some d" "0 < vd_target_len d"
    and held: "held_back spt h (vd_target_len d) (vd_emitted_samples d)"
    and exec: "execute_step_batch cfg g nz env decoder h items = (states, Inr (rid, stp, fin, out))"
  obtains d2 where "vs_data (states ! i) = Some d2" and "vd_target_len d2 = vd_target_len d" and "vd_step_plan d2 = vd_step_plan d"
    and "\<forall>c p. p < vd_target_len d \<longrightarrow> vd_tokens d c p \<noteq> audio_mask_id cfg \<longrightarrow> vd_tokens d2 c p = vd_tokens d c p"
    and "vd_emitted_samples d2 = vd_emitted_samples d + length (chunk_of (map_of (so_results out) (vs_req_id (fst (items ! i)))))"
    and "final_cut cfg decoder (vd_target_len d) (vd_tokens d2) (vd_emitted_samples d)
      (chunk_of (map_of (so_results out) (vs_req_id (fst (items ! i)))))"
    and "if Suc (vs_step_index (ready cfg g env (items ! i))) < length (vd_step_plan d)
      then held_back spt h (vd_target_len d) (vd_emitted_samples d2) else vd_emitted_samples d2 = vd_target_len d * spt"
    and "state_ok cfg (states ! i)" and "vs_step_index (states ! i) = Suc (vs_step_index (ready cfg g env (items ! i)))"
    and "block_sent spt h (vs_step_index (ready cfg g env (items ! i))) d2"
proof -
  let ?states = "map (ready cfg g env) items"
  let ?ds = "map (\<lambda>s. the (vs_data s)) ?states" and ?steps = "map vs_step_index ?states"
  let ?s = "ready cfg g env (items ! i)"
  have ne: "items \<noteq> []" using items(3) by auto
  obtain ds1 out1 where len: "length ds1 = length items"
    and ok: "\<And>i. i < length items \<Longrightarrow> data_ok cfg (?steps ! i) (?ds ! i)"
    and step: "\<And>i. i < length items \<Longrightarrow> data_step cfg g (nz i) (?steps ! i) (predictions cfg g ?ds ?steps i)
        (predictions cfg g ?ds ?steps (length items + i)) (?ds ! i) = Inr (ds1 ! i)"
    and ex: "execute_step_batch cfg g nz env decoder h items
      = (map (\<lambda>(s, d). fst (finish_step decoder h s d)) (zip ?states ds1), Inr out1)"
    and fi: "finish_items decoder h (zip ?states ds1) \<lparr>so_results = [], so_finished = [], so_step_indices = []\<rparr>
      = (map (\<lambda>(s, d). fst (finish_step decoder h s d)) (zip ?states ds1), Inr (snd (snd (snd out1))))"
    by (rule execute_step_batch_ok [OF g ne items(1), where nz = nz and decoder = decoder and h = h]) (rule that)
  have out: "snd (snd (snd out1)) = out" and states: "states ! i = fst (finish_step decoder h ?s (ds1 ! i))"
    using exec len items(3) unfolding ex by auto
  have at_i: "?steps ! i = vs_step_index ?s" "?ds ! i = d" using items(3) d(1) by simp_all
  have keep_id: "vs_req_id (ready cfg g env item) = vs_req_id (fst item)" if "item \<in> set items" for item
    by (rule ready_req_id [OF g(3,4)]) (use items(1) that in blast)
  then have id: "vs_req_id ?s = vs_req_id (fst (items ! i))" using items(3) by simp
  have "map (\<lambda>(s, d). vs_req_id s) (zip ?states ds1) = map vs_req_id (map fst (zip ?states ds1))"
    by (simp add: case_prod_beta')
  also have "\<dots> = map (\<lambda>(s, n). vs_req_id s) items" using keep_id len by (auto simp: case_prod_beta)
  finally have dist: "distinct (map (\<lambda>(s, d). vs_req_id s) (zip ?states ds1))" using items(2) by simp
  have mem: "(?s, ds1 ! i) \<in> set (zip ?states ds1)"
    using len items(3) by (auto simp: set_zip intro!: exI [of _ i])
  obtain s1 fin1 where fs: "finish_step decoder h ?s (ds1 ! i) = (s1, Inr (fin1, map_of (so_results out) (vs_req_id ?s)))"
    using finish_items_results(2) [OF fi dist mem] by (auto simp: out)
  note res = data_step_result [OF g(1,2) ok [OF items(3)] step [OF items(3)], unfolded at_i]
  have held1: "held_back spt h (vd_target_len (ds1 ! i)) (vd_emitted_samples (ds1 ! i))" "0 < vd_target_len (ds1 ! i)"
    using held d(2) by (simp_all add: res(3,6))
  obtain e where e: "vs_data s1 = Some ((ds1 ! i)\<lparr>vd_emitted_samples := e\<rparr>)"
    "e = vd_emitted_samples d + length (chunk_of (map_of (so_results out) (vs_req_id (fst (items ! i)))))"
    "final_cut cfg decoder (vd_target_len d) (vd_tokens (ds1 ! i)) (vd_emitted_samples d)
      (chunk_of (map_of (so_results out) (vs_req_id (fst (items ! i)))))"
    "if vs_step_index ?s + 1 < length (vd_step_plan d) then held_back spt h (vd_target_len d) e else e = vd_target_len d * spt"
    "block_sent spt h (vs_step_index ?s) ((ds1 ! i)\<lparr>vd_emitted_samples := e\<rparr>)"
    by (rule stream_step [OF dec held1(1) res(1,2) held1(2) refl fs, unfolded id res(3,4,6)])
  note fst1 = finish_step_state [OF res(1,2) refl, of decoder h]
  have st: "states ! i = s1" by (simp add: states fs)
  show thesis
    by (rule that [of "(ds1 ! i)\<lparr>vd_emitted_samples := e\<rparr>"])
      (use e(1) res(3,4,7) e(2) [symmetric] e(3,4,5) fst1(1,2) in \<open>simp_all add: st fs\<close>)
qed

section \<open>The life of a stream\<close>

text \<open>A request takes part in one batch after another, while it has steps left; what each reports for it is kept.\<close>

inductive streamed ::
  "gen_config \<Rightarrow> generator \<Rightarrow> 'audio voice_env \<Rightarrow> (nat \<Rightarrow> tokens \<Rightarrow> 'a list) \<Rightarrow> nat \<Rightarrow> 'audio voice_state
   \<Rightarrow> nat \<Rightarrow> 'audio voice_state \<Rightarrow> 'a list list \<Rightarrow> bool"
  for cfg g env decoder h s0 where
  stream_starts: "streamed cfg g env decoder h s0 0 s0 []"
| stream_goes_on: "streamed cfg g env decoder h s0 n s chunks
    \<Longrightarrow> n = 0 \<or> (\<exists>d. vs_data s = Some d \<and> n < length (vd_step_plan d)) \<Longrightarrow> i < length items \<Longrightarrow> items ! i = (s, n = 0)
    \<Longrightarrow> \<forall>item \<in> set items. item_ok cfg env item \<Longrightarrow> distinct (map (\<lambda>(s, n). vs_req_id s) items)
    \<Longrightarrow> execute_step_batch cfg g nz env decoder h items = (states, Inr (rid, stp, fin, out))
    \<Longrightarrow> streamed cfg g env decoder h s0 (Suc n) (states ! i) (chunks @ [chunk_of (map_of (so_results out) (vs_req_id s))])"

inductive_simps streamed_0: "streamed cfg g env decoder h s0 0 s chunks"

definition stream_so_far :: "gen_config \<Rightarrow> (nat \<Rightarrow> tokens \<Rightarrow> 'a list) \<Rightarrow> nat \<Rightarrow> voice_data \<Rightarrow> 'a list list \<Rightarrow> bool" where
  "stream_so_far cfg decoder t d chunks \<longleftrightarrow> vd_target_len d = t \<and> vd_emitted_samples d = length (concat chunks)
     \<and> all_cuts cfg decoder t (vd_tokens d) chunks"

lemma stream_so_far_step:
  assumes "stream_so_far cfg decoder t d chunks" and "vd_target_len d2 = vd_target_len d"
    and "\<forall>c p. p < vd_target_len d \<longrightarrow> vd_tokens d c p \<noteq> audio_mask_id cfg \<longrightarrow> vd_tokens d2 c p = vd_tokens d c p"
    and "vd_emitted_samples d2 = vd_emitted_samples d + length c"
    and "final_cut cfg decoder (vd_target_len d) (vd_tokens d2) (vd_emitted_samples d) c"
  shows "stream_so_far cfg decoder t d2 (chunks @ [c])"
proof -
  have t: "vd_target_len d = t" "vd_emitted_samples d = length (concat chunks)" "all_cuts cfg decoder t (vd_tokens d) chunks"
    using assms(1) by (simp_all add: stream_so_far_def)
  have "all_cuts cfg decoder t (vd_tokens d2) chunks"
    using t(3) final_cut_later [OF _ assms(3) [unfolded t(1)]] unfolding all_cuts_def by blast
  with t assms(2,4,5) show ?thesis by (simp add: stream_so_far_def all_cuts_snoc)
qed

text \<open>C9: The chunks of a request, over all batches it takes part in, are cuts through the audio of its final
  frames, each starting at the sample where the ones before ended, whichever requests share the batches and
  whatever the network does. So no sample is sent twice and none is left out: before the last step all samples
  of some frames but the held-back ones have been sent, for a streaming request with a block completed at least
  those of the block, and after the last step as many as the decoding of all frames has. The decoder is taken
  to give the same number of samples for every frame.\<close>

theorem streamed_chunks_are_consecutive:
  assumes g: "largest_k (g_topk g)" "has_class cfg" "times_ok (g_times g)" "0 < g_num_step g"
    and dec: "framewise spt decoder" and new: "fresh_prompt cfg env s0 r"
    and run: "streamed cfg g env decoder h s0 n s chunks" and n: "0 < n"
  shows "length chunks = n \<and> (\<exists>d. vs_data s = Some d
    \<and> (\<forall>k < n. final_cut cfg decoder (target_len r) (vd_tokens d) (length (concat (take k chunks))) (chunks ! k))
    \<and> (if n < length (vd_step_plan d) then held_back spt h (target_len r) (length (concat chunks))
       else length (concat chunks) = target_len r * spt)
    \<and> (vd_stream_audio_blocks d \<and> n \<le> length (vd_step_plan d) \<and> is_block_complete (vd_step_plan d) (n - 1)
       \<longrightarrow> (fst (snd (vd_step_plan d ! (n - 1))) - h) * spt \<le> length (concat chunks)))"
proof -
  have pos: "0 < target_len r"
    using new by (auto simp: fresh_prompt_def prepared_ok_def dest!: prepare_one_request_ok)
  have "vs_step_index s = n \<and> length chunks = n \<and> (\<exists>d. vs_data s = Some d
    \<and> stream_so_far cfg decoder (target_len r) d chunks
    \<and> (if n < length (vd_step_plan d) then held_back spt h (target_len r) (length (concat chunks))
       else length (concat chunks) = target_len r * spt) \<and> block_sent spt h (n - 1) d)"
    using run n
  proof (induction rule: streamed.induct)
    case (stream_goes_on n s chunks i items nz states rid stp fin out)
    let ?item = "items ! i" and ?c = "chunk_of (map_of (so_results out) (vs_req_id s))"
    obtain d where d: "vs_data (ready cfg g env ?item) = Some d" "vs_step_index (ready cfg g env ?item) = n"
      "stream_so_far cfg decoder (target_len r) d chunks" "length chunks = n"
      "held_back spt h (target_len r) (length (concat chunks))"
    proof (cases "n = 0")
      case True
      with stream_goes_on.hyps(1) have s: "s = s0" "chunks = []" by (simp_all add: streamed_0)
      with True stream_goes_on.hyps(4) have it: "?item = (s0, True)" by simp
      obtain s1 d where d: "prepare_encode cfg g env s0 = Inr s1" "vs_data s1 = Some d" "vs_step_index s1 = 0"
        "vd_target_len d = target_len r" "vd_emitted_samples d = 0"
        by (rule prepare_encode_ok [OF g(3,4) new])
      have "ready cfg g env ?item = s1" by (simp add: ready_def it d(1))
      with d True show thesis
        by (intro that [of d]) (simp_all add: stream_so_far_def all_cuts_def s held_back_def exI [of _ 0])
    next
      case False
      with stream_goes_on.IH stream_goes_on.hyps(2) obtain d where d: "vs_step_index s = n" "length chunks = n" "vs_data s = Some d"
        "stream_so_far cfg decoder (target_len r) d chunks" "held_back spt h (target_len r) (length (concat chunks))" by auto
      have "ready cfg g env ?item = s" using False stream_goes_on.hyps(4) d(3) by (simp add: ready_def)
      with d show thesis by (intro that [of d]) simp_all
    qed
    have t: "vd_target_len d = target_len r" "vd_emitted_samples d = length (concat chunks)" using d(3) by (simp_all add: stream_so_far_def)
    have id: "vs_req_id (fst ?item) = vs_req_id s" by (simp add: stream_goes_on.hyps(4))
    have held: "0 < vd_target_len d" "held_back spt h (vd_target_len d) (vd_emitted_samples d)" using pos d(5) t by simp_all
    obtain d2 where d2: "vs_data (states ! i) = Some d2" "vd_target_len d2 = vd_target_len d" "vd_step_plan d2 = vd_step_plan d"
      "\<forall>c p. p < vd_target_len d \<longrightarrow> vd_tokens d c p \<noteq> audio_mask_id cfg \<longrightarrow> vd_tokens d2 c p = vd_tokens d c p"
      "vd_emitted_samples d2 = vd_emitted_samples d + length ?c"
      "final_cut cfg decoder (vd_target_len d) (vd_tokens d2) (vd_emitted_samples d) ?c"
      "if Suc n < length (vd_step_plan d) then held_back spt h (vd_target_len d) (vd_emitted_samples d2)
        else vd_emitted_samples d2 = vd_target_len d * spt"
      "vs_step_index (states ! i) = Suc n" "block_sent spt h n d2"
      by (rule batch_chunk [OF g stream_goes_on.hyps(5,6,3) dec d(1) held stream_goes_on.hyps(7), unfolded id d(2)]) (rule that)
    have so: "stream_so_far cfg decoder (target_len r) d2 (chunks @ [?c])"
      by (rule stream_so_far_step [OF d(3) d2(2,4,5,6)])
    moreover have "vd_emitted_samples d2 = length (concat (chunks @ [?c]))" using so by (simp add: stream_so_far_def)
    ultimately show ?case using d2(1,3,7,8,9) d(4) t(1) by auto
  qed simp
  then show ?thesis using n by (auto simp: stream_so_far_def all_cuts_def block_sent_def)
qed

lemma ex_framewise: "framewise 1 ex_decoder"
  by (simp add: framewise_def ex_decoder_def)

lemma ex_fresh: "fresh_prompt ex_cfg ex_env (ex_state i) ex_prepared"
  by (auto simp: fresh_prompt_def ex_prepare)

lemma ex_ready:
  "\<exists>d. vs_data (ready ex_cfg ex_gen ex_env (ex_state i, True)) = Some d \<and> vd_target_len d = 1
    \<and> vd_step_plan d = [(0, 1, 1)] \<and> vd_emitted_samples d = 0"
proof -
  obtain bt where bt: "build_batch_tensors 2 [ex_prepared] = Inr bt" using single_batch by blast
  have "prepared_ok 2 ex_prepared" unfolding ex_prepared_def by (rule prepared_ids_ok) simp
  then have lens: "bt_target_lens bt = [1]" using batch_one(2) [OF bt] by simp
  show ?thesis
    unfolding ready_def prepare_encode_def prod.case ex_sel list.case ex_prepare bind_res_simps option.case bt lens
      ex_plan [unfolded ex_sel]
    by simp
qed

theorem streamed_chunks_are_consecutive_witness:
  "\<exists>states rid stp fin out. execute_step_batch ex_cfg ex_gen (\<lambda>_. ex_noise) ex_env ex_decoder 2
      [(ex_state ''a'', True), (ex_state ''b'', True)] = (states, Inr (rid, stp, fin, out))
    \<and> length (chunk_of (map_of (so_results out) ''b'')) = 1"
proof -
  let ?items = "[(ex_state ''a'', True), (ex_state ''b'', True)]"
  have g: "largest_k (g_topk ex_gen)" "times_ok (g_times ex_gen)" "0 < g_num_step ex_gen"
    using top_k_largest ex_times by simp_all
  have it: "?items \<noteq> []" "\<forall>item \<in> set ?items. item_ok ex_cfg ex_env item"
    "distinct (map (\<lambda>(s, n). vs_req_id s) ?items)" "1 < length ?items" by (simp_all add: ex_item)
  obtain states rid stp fin out where ex: "execute_step_batch ex_cfg ex_gen (\<lambda>_. ex_noise) ex_env ex_decoder 2 ?items
      = (states, Inr (rid, stp, fin, out))"
    by (rule execute_step_batch_ok [OF g(1) ex_has_class g(2,3) it(1,2), of "\<lambda>_. ex_noise" ex_decoder 2]) (metis prod_cases4)
  have at1: "?items ! 1 = (ex_state ''b'', 0 = 0)" by simp
  have run: "streamed ex_cfg ex_gen ex_env ex_decoder 2 (ex_state ''b'') (Suc 0) (states ! 1)
      ([] @ [chunk_of (map_of (so_results out) (vs_req_id (ex_state ''b'')))])"
    by (rule stream_goes_on [OF stream_starts _ it(4) at1 it(2,3) ex]) simp
  obtain d where d: "vs_data (ready ex_cfg ex_gen ex_env (?items ! 1)) = Some d" and pl: "vd_step_plan d = [(0, 1, 1)]"
    using ex_ready [of "''b''"] by auto
  have t: "vd_target_len d = 1" "vd_emitted_samples d = 0" using ex_ready [of "''b''"] d by simp_all
  have held: "0 < vd_target_len d" "held_back 1 2 (vd_target_len d) (vd_emitted_samples d)"
    by (simp_all add: t held_back_def exI [of _ 0])
  obtain d2 where d2: "vs_data (states ! 1) = Some d2" "vd_step_plan d2 = vd_step_plan d"
    by (rule batch_chunk [OF g(1) ex_has_class g(2,3) it(2,3,4) ex_framewise d held ex]) (rule that)
  from streamed_chunks_are_consecutive [OF g(1) ex_has_class g(2,3) ex_framewise ex_fresh run] d2
  have "length (chunk_of (map_of (so_results out) ''b'')) = 1" by (auto simp: pl)
  with ex show ?thesis by blast
qed

end
