(* ===== verification/Text_Splitter.thy ===== *)
theory Text_Splitter
  imports Prelude
begin

text \<open>
  The incremental sentence splitter of streamed speech input
  (\<open>entrypoints/openai/text_splitter.py\<close>): \<open>re.split\<close> with the two boundary patterns of the source as
  a scan with a lookbehind, and \<open>SentenceSplitter\<close>. The main result is that the sentences do not depend
  on how the text was cut into chunks; it is shown through a machine that reads one character at a time.
\<close>

section \<open>Boundaries\<close>

text \<open>White space as \<open>str.strip\<close> and the class \<open>\s\<close> of a text pattern see it.\<close>

definition py_space :: "nat \<Rightarrow> bool" where
  "py_space c \<longleftrightarrow> is_space_code c
     \<or> c \<in> {0x85, 0xA0, 0x1680, 0x2028, 0x2029, 0x202F, 0x205F, 0x3000} \<or> (0x2000 \<le> c \<and> c \<le> 0x200A)"

datatype granularity = SENTENCE | CLAUSE

definition latin_end :: "nat \<Rightarrow> bool" where
  "latin_end c \<longleftrightarrow> c \<in> {46, 33, 63}"

definition cjk_end :: "granularity \<Rightarrow> nat \<Rightarrow> bool" where
  "cjk_end b c \<longleftrightarrow> c \<in> {0x3002, 0xFF01, 0xFF1F} \<or> (b = CLAUSE \<and> c \<in> {0xFF0C, 0xFF1B})"

text \<open>
  \<open>boundary_re.split\<close>: \<open>part\<close> is the text since the last match. After a match the lookbehind sees white
  space, or the match was empty and the next one cannot start at the same place, so an empty \<open>part\<close>
  has no boundary behind it.
\<close>

function re_split :: "granularity \<Rightarrow> text_t \<Rightarrow> text_t \<Rightarrow> text_t list" where
  "re_split b part [] = (if part \<noteq> [] \<and> cjk_end b (last part) then [part, []] else [part])"
| "re_split b part (c # cs) =
     (if part \<noteq> [] \<and> latin_end (last part) \<and> py_space c
      then part # re_split b [] (dropWhile py_space cs)
      else if part \<noteq> [] \<and> cjk_end b (last part) then part # re_split b [c] cs
      else re_split b (part @ [c]) cs)"
  by pat_completeness auto
termination
  by (relation "measure (\<lambda>(b, part, cs). length cs)") (auto simp: le_imp_less_Suc length_dropWhile_le)

section \<open>The splitter\<close>

record splitter =
  buffer :: text_t
  min_sentence_length :: int
  boundary_re :: granularity

definition splitter_init :: "int \<Rightarrow> granularity \<Rightarrow> splitter" where
  "splitter_init m b = \<lparr>buffer = [], min_sentence_length = m, boundary_re = b\<rparr>"

definition max_buffer_size :: nat where
  "max_buffer_size = 100000"

text \<open>The loop of \<open>_extract_sentences\<close> over all parts but the last.\<close>

fun take_sentences :: "int \<Rightarrow> text_t \<Rightarrow> text_t list \<Rightarrow> text_t list \<times> text_t" where
  "take_sentences m carry [] = ([], carry)"
| "take_sentences m carry (p # ps) =
     (let txt = carry @ p; stripped = strip py_space txt
      in if m \<le> int (length stripped)
         then (let (ss, k) = take_sentences m [] ps in (stripped # ss, k))
         else if stripped \<noteq> [] then take_sentences m txt ps
         else take_sentences m [] ps)"

definition extract_sentences :: "splitter \<Rightarrow> splitter \<times> text_t list" where
  "extract_sentences s =
     (let parts = re_split (boundary_re s) [] (buffer s)
      in if length parts \<le> 1 then (s, [])
         else (let (ss, carry) = take_sentences (min_sentence_length s) [] (butlast parts)
               in (s\<lparr>buffer := carry @ last parts\<rparr>, ss)))"

definition add_text :: "text_t \<Rightarrow> splitter \<Rightarrow> splitter \<times> text_t list res" where
  "add_text txt s =
     (if txt = [] then (s, Inr [])
      else (let s1 = s\<lparr>buffer := buffer s @ txt\<rparr>
            in if max_buffer_size < length (buffer s1) then (s1, Inl ValueError)
               else (let (s2, ss) = extract_sentences s1 in (s2, Inr ss))))"

definition flush :: "splitter \<Rightarrow> splitter \<times> text_t option" where
  "flush s = (let remaining = strip py_space (buffer s)
              in (s\<lparr>buffer := []\<rparr>, if remaining \<noteq> [] then Some remaining else None))"

text \<open>A client that adds chunk after chunk and then flushes: what it gets, in order.\<close>

fun add_chunks :: "text_t list \<Rightarrow> splitter \<Rightarrow> splitter \<times> text_t list res" where
  "add_chunks [] s = (s, Inr [])"
| "add_chunks (t # ts) s =
     (case add_text t s of (s1, Inl e) \<Rightarrow> (s1, Inl e)
      | (s1, Inr ss) \<Rightarrow> (case add_chunks ts s1 of (s2, Inl e) \<Rightarrow> (s2, Inl e)
                        | (s2, Inr rest) \<Rightarrow> (s2, Inr (ss @ rest))))"

definition split_stream :: "int \<Rightarrow> granularity \<Rightarrow> text_t list \<Rightarrow> text_t list res" where
  "split_stream m b ts =
     (case add_chunks ts (splitter_init m b) of (s, Inl e) \<Rightarrow> Inl e
      | (s, Inr ss) \<Rightarrow> Inr (ss @ (case snd (flush s) of None \<Rightarrow> [] | Some r \<Rightarrow> [r])))"

section \<open>Reading one character at a time\<close>

text \<open>
  The reference: a pending text without leading white space, and the sentence a character completes.
\<close>

definition eat :: "int \<Rightarrow> granularity \<Rightarrow> text_t \<Rightarrow> nat \<Rightarrow> text_t list \<times> text_t" where
  "eat m b cur c =
     (if py_space c \<and> cur = [] then ([], [])
      else if py_space c \<and> latin_end (last cur) then (if m \<le> int (length cur) then ([cur], []) else ([], cur))
      else if cjk_end b c \<and> m \<le> int (length (cur @ [c])) then ([cur @ [c]], [])
      else ([], cur @ [c]))"

fun feed :: "int \<Rightarrow> granularity \<Rightarrow> text_t \<Rightarrow> text_t \<Rightarrow> text_t list \<times> text_t" where
  "feed m b cur [] = ([], cur)"
| "feed m b cur (c # cs) =
     (let (e, cur1) = eat m b cur c; (ss, cur2) = feed m b cur1 cs in (e @ ss, cur2))"

lemma feed_append:
  "feed m b cur (xs @ ys) = (let (s1, c1) = feed m b cur xs; (s2, c2) = feed m b c1 ys in (s1 @ s2, c2))"
  by (induction xs arbitrary: cur) (simp_all split: prod.splits)

lemma end_no_space: "latin_end c \<Longrightarrow> \<not> py_space c" "cjk_end b c \<Longrightarrow> \<not> py_space c"
  and ends_disjoint: "latin_end c \<Longrightarrow> \<not> cjk_end b c"
  by (auto simp: latin_end_def cjk_end_def py_space_def is_space_code_def)

subsection \<open>The pattern, cut eagerly\<close>

text \<open>
  The same parts with the empty matches taken as soon as their character is read.
\<close>

function eager_split :: "granularity \<Rightarrow> text_t \<Rightarrow> text_t \<Rightarrow> text_t list" where
  "eager_split b part [] = [part]"
| "eager_split b part (c # cs) =
     (if part \<noteq> [] \<and> latin_end (last part) \<and> py_space c
      then part # eager_split b [] (dropWhile py_space cs)
      else if cjk_end b c then (part @ [c]) # eager_split b [] cs
      else eager_split b (part @ [c]) cs)"
  by pat_completeness auto
termination
  by (relation "measure (\<lambda>(b, part, cs). length cs)") (auto simp: le_imp_less_Suc length_dropWhile_le)

lemma eager_split_not_Nil [simp]: "eager_split b part cs \<noteq> []"
  by (induction b part cs rule: eager_split.induct) auto

lemma re_split_eager:
  "re_split b part cs = (if part \<noteq> [] \<and> cjk_end b (last part) then part # eager_split b [] cs
                         else eager_split b part cs)"
proof (induction b part cs rule: re_split.induct)
  case (1 b part)
  then show ?case by simp
next
  case (2 b part c cs)
  consider (latin) "part \<noteq> []" "latin_end (last part)" "py_space c"
    | (cjk) "part \<noteq> []" "cjk_end b (last part)"
    | (none) "\<not> (part \<noteq> [] \<and> latin_end (last part) \<and> py_space c)" "\<not> (part \<noteq> [] \<and> cjk_end b (last part))"
    by blast
  then show ?case
  proof cases
    case latin
    with 2(1) ends_disjoint [of "last part" b] show ?thesis by simp
  next
    case cjk
    then have l: "\<not> latin_end (last part)" using ends_disjoint by blast
    have "re_split b [c] cs = (if cjk_end b c then [c] # eager_split b [] cs else eager_split b [c] cs)"
      using 2(2) l cjk by simp
    with cjk l show ?thesis by simp
  next
    case none
    have "re_split b (part @ [c]) cs = (if cjk_end b c then (part @ [c]) # eager_split b [] cs
        else eager_split b (part @ [c]) cs)"
      using 2(3) none by simp
    moreover have "re_split b part (c # cs) = re_split b (part @ [c]) cs"
      and "eager_split b part (c # cs) = (if cjk_end b c then (part @ [c]) # eager_split b [] cs
        else eager_split b (part @ [c]) cs)"
      using none by auto
    ultimately show ?thesis using none(2) by auto
  qed
qed

lemma re_split_start: "re_split b [] cs = eager_split b [] cs"
  by (simp add: re_split_eager)

subsection \<open>White space at the ends\<close>

abbreviation lstrip :: "text_t \<Rightarrow> text_t" where
  "lstrip \<equiv> dropWhile py_space"

lemma lstrip_append: "lstrip (xs @ ys) = (if lstrip xs = [] then lstrip ys else lstrip xs @ ys)"
  by (auto simp: dropWhile_append)

lemma last_lstrip: "lstrip xs \<noteq> [] \<Longrightarrow> last (lstrip xs) = last xs"
  by (metis dropWhile_eq_drop drop_eq_Nil2 last_drop leI)

lemma lstrip_keep: "xs \<noteq> [] \<Longrightarrow> \<not> py_space (last xs) \<Longrightarrow> lstrip xs \<noteq> []"
  by (auto simp: dropWhile_eq_Nil_conv)

lemma strip_keep: "xs \<noteq> [] \<Longrightarrow> \<not> py_space (last xs) \<Longrightarrow> strip py_space xs = lstrip xs"
  using lstrip_keep [of xs] last_lstrip [of xs]
  by (cases "rev (lstrip xs)") (auto simp: strip_def last_rev hd_rev dest!: arg_cong [of _ _ rev])

lemma feed_spaces:
  assumes "cur = [] \<or> (latin_end (last cur) \<and> \<not> m \<le> int (length cur))" and "\<forall>c \<in> set ws. py_space c"
  shows "feed m b cur ws = ([], cur)"
  using assms(2) by (induction ws) (use assms(1) in \<open>auto simp: eat_def\<close>)

lemma feed_drop_spaces:
  assumes "cur = [] \<or> (latin_end (last cur) \<and> \<not> m \<le> int (length cur))"
  shows "feed m b cur cs = feed m b cur (dropWhile py_space cs)"
proof -
  have "feed m b cur (takeWhile py_space cs) = ([], cur)"
    by (rule feed_spaces [OF assms]) (auto dest: set_takeWhileD)
  then have "feed m b cur (takeWhile py_space cs @ dropWhile py_space cs) = feed m b cur (dropWhile py_space cs)"
    by (simp only: feed_append Let_def split_beta) simp
  then show ?thesis by simp
qed

lemma feed_lstrip: "feed m b [] cs = feed m b [] (lstrip cs)"
  by (induction cs) (auto simp: eat_def)


subsection \<open>The splitter against the reference\<close>

lemma take_sentences_Cons:
  assumes "1 \<le> m" and "t = k @ p" and "t \<noteq> []" and "\<not> py_space (last t)"
  shows "take_sentences m k (p # ps) =
     (if m \<le> int (length (lstrip t)) then (let (ss, k1) = take_sentences m [] ps in (lstrip t # ss, k1))
      else take_sentences m t ps)"
  using assms lstrip_keep [of t] strip_keep [of t] by (simp add: Let_def)

lemma eager_feed:
  assumes "1 \<le> m"
    and "part = [] \<Longrightarrow> k \<noteq> [] \<Longrightarrow> rest \<noteq> [] \<Longrightarrow> latin_end (last k) \<Longrightarrow> \<not> py_space (hd rest)"
    and "take_sentences m k (butlast (eager_split b part rest)) = (ss, k1)"
  shows "feed m b (lstrip (k @ part)) rest = (ss, lstrip (k1 @ last (eager_split b part rest)))"
  using assms(2,3)
proof (induction b part rest arbitrary: k ss k1 rule: eager_split.induct)
  case (1 b part)
  then show ?case by simp
next
  case (2 b part c cs)
  let ?txt = "k @ part"
  consider (latin) "part \<noteq> []" "latin_end (last part)" "py_space c"
    | (cjk) "\<not> (part \<noteq> [] \<and> latin_end (last part) \<and> py_space c)" "cjk_end b c"
    | (none) "\<not> (part \<noteq> [] \<and> latin_end (last part) \<and> py_space c)" "\<not> cjk_end b c"
    by blast
  then show ?case
  proof cases
    case latin
    let ?rest = "dropWhile py_space cs"
    have sp: "?txt \<noteq> []" "\<not> py_space (last ?txt)" and lt: "lstrip ?txt \<noteq> []"
      using latin end_no_space(1) lstrip_keep [of ?txt] by auto
    have e: "eager_split b part (c # cs) = part # eager_split b [] ?rest" using latin by simp
    have ll: "latin_end (last (lstrip ?txt))" using latin last_lstrip [OF lt] by simp
    have hd: "?rest \<noteq> [] \<Longrightarrow> \<not> py_space (hd ?rest)" by (rule hd_dropWhile)
    have drop_ws: "feed m b cur cs = feed m b cur ?rest"
      if "cur = [] \<or> latin_end (last cur) \<and> \<not> m \<le> int (length cur)" for cur
      by (rule feed_drop_spaces [OF that])
    have ea: "eat m b (lstrip ?txt) c = (if m \<le> int (length (lstrip ?txt)) then ([lstrip ?txt], []) else ([], lstrip ?txt))"
      using latin lt ll by (simp add: eat_def del: dropWhile_eq_Nil_conv)
    have tk: "take_sentences m k (part # ps) =
        (if m \<le> int (length (lstrip ?txt)) then (let (ss, k1) = take_sentences m [] ps in (lstrip ?txt # ss, k1))
         else take_sentences m ?txt ps)" for ps
      by (rule take_sentences_Cons [OF assms(1) refl sp])
    have tp: "take_sentences m k (part # butlast (eager_split b [] ?rest)) = (ss, k1)"
      using "2.prems"(2) by (simp only: e) simp
    show ?thesis
    proof (cases "m \<le> int (length (lstrip ?txt))")
      case True
      obtain ss1 k2 where t: "take_sentences m [] (butlast (eager_split b [] ?rest)) = (ss1, k2)" by fastforce
      have r: "ss = lstrip ?txt # ss1" "k1 = k2"
        using tp True t by (simp_all only: tk if_True Let_def split_beta) simp_all
      have "feed m b (lstrip ([] @ [])) ?rest = (ss1, lstrip (k2 @ last (eager_split b [] ?rest)))"
        by (rule "2.IH"(1)) (use latin t in simp_all)
      then have "feed m b [] cs = (ss1, lstrip (k2 @ last (eager_split b [] ?rest)))"
        by (simp add: drop_ws)
      then show ?thesis by (simp add: e r ea True del: eager_split.simps)
    next
      case False
      have t: "take_sentences m ?txt (butlast (eager_split b [] ?rest)) = (ss, k1)"
        using tp False by (simp only: tk if_False)
      have "feed m b (lstrip (?txt @ [])) ?rest = (ss, lstrip (k1 @ last (eager_split b [] ?rest)))"
        by (rule "2.IH"(1)) (use latin t hd in simp_all)
      then have "feed m b (lstrip ?txt) cs = (ss, lstrip (k1 @ last (eager_split b [] ?rest)))"
        using drop_ws [of "lstrip ?txt"] ll False by simp
      then show ?thesis by (simp add: e ea False del: eager_split.simps)
    qed
  next
    case cjk
    let ?txt1 = "?txt @ [c]"
    have nsp: "\<not> py_space c" and nl: "\<not> latin_end c" using cjk end_no_space(2) ends_disjoint by blast+
    have e: "eager_split b part (c # cs) = (part @ [c]) # eager_split b [] cs" using cjk by simp
    have ls: "lstrip ?txt1 = lstrip ?txt @ [c]" using nsp by (simp add: lstrip_append)
    have c: "take_sentences m k ((part @ [c]) # ps) =
        (if m \<le> int (length (lstrip ?txt1)) then (let (ss, k1) = take_sentences m [] ps in (lstrip ?txt1 # ss, k1))
         else take_sentences m ?txt1 ps)" for ps
      by (rule take_sentences_Cons) (use assms(1) nsp in simp_all)
    have tp: "take_sentences m k ((part @ [c]) # butlast (eager_split b [] cs)) = (ss, k1)"
      using "2.prems"(2) by (simp only: e) simp
    show ?thesis
    proof (cases "m \<le> int (length (lstrip ?txt1))")
      case True
      obtain ss1 k2 where t: "take_sentences m [] (butlast (eager_split b [] cs)) = (ss1, k2)" by fastforce
      have r: "ss = lstrip ?txt1 # ss1" "k1 = k2"
        using tp True t by (simp_all only: c if_True Let_def split_beta) simp_all
      have "feed m b (lstrip ([] @ [])) cs = (ss1, lstrip (k2 @ last (eager_split b [] cs)))"
        by (rule "2.IH"(2)) (use cjk t in simp_all)
      then show ?thesis using True cjk nsp ls by (simp add: e r eat_def del: eager_split.simps)
    next
      case False
      have t: "take_sentences m ?txt1 (butlast (eager_split b [] cs)) = (ss, k1)"
        using tp False by (simp only: c if_False)
      have "feed m b (lstrip (?txt1 @ [])) cs = (ss, lstrip (k1 @ last (eager_split b [] cs)))"
        by (rule "2.IH"(2)) (use cjk t nl in simp_all)
      then show ?thesis using False cjk nsp ls by (simp add: e eat_def del: eager_split.simps)
    qed
  next
    case none
    have e: "eager_split b part (c # cs) = eager_split b (part @ [c]) cs" using none by auto
    have IH: "feed m b (lstrip (k @ part @ [c])) cs = (ss, lstrip (k1 @ last (eager_split b (part @ [c]) cs)))"
      by (rule "2.IH"(3)) (use none "2.prems"(2) e in \<open>simp_all del: eager_split.simps\<close>)
    have "eat m b (lstrip ?txt) c = ([], lstrip (k @ part @ [c]))"
    proof (cases "py_space c")
      case False
      then show ?thesis using none lstrip_append [of ?txt "[c]"] by (simp add: eat_def)
    next
      case True
      have "\<not> latin_end (last (lstrip ?txt))" if lt: "lstrip ?txt \<noteq> []"
      proof (cases "part = []")
        case False
        with none True show ?thesis using last_lstrip [OF lt] by auto
      next
        case pn: True
        with lt have "k \<noteq> []" by auto
        with pn "2.prems"(1) True show ?thesis using last_lstrip [OF lt] by auto
      qed
      with True none show ?thesis
        using lstrip_append [of ?txt "[c]"] by (auto simp: eat_def)
    qed
    with IH show ?thesis by (simp add: e del: eager_split.simps)
  qed
qed


lemma eager_split_feed:
  assumes "1 \<le> m" and "take_sentences m [] (butlast (re_split b [] cs)) = (ss, k)"
  shows "feed m b [] cs = (ss, lstrip (k @ last (re_split b [] cs)))"
  using eager_feed [of m "[]" "[]" cs b ss k] assms by (simp add: re_split_start)

text \<open>A pending text is its own reading: the splitter reads its buffer again with every chunk.\<close>

lemma eat_stable:
  assumes "feed m b [] cur = ([], cur)" and "eat m b cur c = (e, cur1)"
  shows "feed m b [] cur1 = ([], cur1)"
proof -
  from assms(2) consider "cur1 = []" | "cur1 = cur" | "e = []" "cur1 = cur @ [c]"
    by (auto simp: eat_def split: if_splits)
  then show ?thesis
    by cases (use assms in \<open>auto simp: feed_append\<close>)
qed

lemma feed_stable:
  "feed m b [] cur = ([], cur) \<Longrightarrow> feed m b cur cs = (ss, cur1) \<Longrightarrow> feed m b [] cur1 = ([], cur1)"
proof (induction cs arbitrary: cur ss)
  case Nil
  then show ?case by simp
next
  case (Cons c cs)
  obtain e cur2 where e: "eat m b cur c = (e, cur2)" by fastforce
  obtain ss2 where f: "feed m b cur2 cs = (ss2, cur1)" using Cons.prems(2) e by (auto split: prod.splits)
  show ?case by (rule Cons.IH [OF eat_stable [OF Cons.prems(1) e] f])
qed

lemma eager_split_single: "length (eager_split b part cs) \<le> 1 \<Longrightarrow> eager_split b part cs = [part @ cs]"
  by (induction b part cs rule: eager_split.induct) (auto split: if_splits)

lemma eager_split_length: "sum_list (map length (eager_split b part cs)) \<le> length part + length cs"
proof (induction b part cs rule: eager_split.induct)
  case (2 b part c cs)
  then show ?case using length_dropWhile_le [of py_space cs] by (cases "cjk_end b c") auto
qed simp

lemma take_sentences_length:
  "take_sentences m k ps = (ss, k1) \<Longrightarrow> length k1 \<le> length k + sum_list (map length ps)"
  by (induction m k ps arbitrary: ss k1 rule: take_sentences.induct)
    (fastforce simp: Let_def split: if_splits prod.splits)+

lemma extract_sentences_feed:
  assumes "1 \<le> min_sentence_length s"
  shows "\<exists>s' ss. extract_sentences s = (s', ss) \<and> min_sentence_length s' = min_sentence_length s
     \<and> boundary_re s' = boundary_re s \<and> length (buffer s') \<le> length (buffer s)
     \<and> feed (min_sentence_length s) (boundary_re s) [] (buffer s) = (ss, lstrip (buffer s'))"
proof -
  let ?ps = "re_split (boundary_re s) [] (buffer s)" and ?m = "min_sentence_length s"
  obtain ss k where t: "take_sentences ?m [] (butlast ?ps) = (ss, k)" by fastforce
  have f: "feed ?m (boundary_re s) [] (buffer s) = (ss, lstrip (k @ last ?ps))"
    by (rule eager_split_feed [OF assms t])
  show ?thesis
  proof (cases "length ?ps \<le> 1")
    case True
    then have "?ps = [buffer s]" using eager_split_single [of "boundary_re s" "[]" "buffer s"] by (simp add: re_split_start)
    then show ?thesis using f t by (auto simp: extract_sentences_def)
  next
    case False
    have "sum_list (map length (butlast ?ps @ [last ?ps])) \<le> length (buffer s)"
      using eager_split_length [of "boundary_re s" "[]" "buffer s"] by (simp add: re_split_start)
    then have "length (k @ last ?ps) \<le> length (buffer s)"
      using take_sentences_length [OF t] by simp
    then show ?thesis using f t False by (auto simp: extract_sentences_def)
  qed
qed

text \<open>The state between two calls.\<close>

definition ready :: "splitter \<Rightarrow> bool" where
  "ready s \<longleftrightarrow> 1 \<le> min_sentence_length s
     \<and> feed (min_sentence_length s) (boundary_re s) [] (buffer s) = ([], lstrip (buffer s))"

lemma add_text_feed:
  assumes "ready s" and "length (buffer s) + length t \<le> max_buffer_size"
  shows "\<exists>s' ss. add_text t s = (s', Inr ss) \<and> min_sentence_length s' = min_sentence_length s
     \<and> boundary_re s' = boundary_re s \<and> length (buffer s') \<le> length (buffer s) + length t
     \<and> feed (min_sentence_length s) (boundary_re s) (lstrip (buffer s)) t = (ss, lstrip (buffer s'))
     \<and> ready s'"
proof (cases "t = []")
  case True
  with assms(1) show ?thesis by (simp add: add_text_def)
next
  case False
  let ?s1 = "s\<lparr>buffer := buffer s @ t\<rparr>" and ?m = "min_sentence_length s" and ?b = "boundary_re s"
  have r: "1 \<le> ?m" "feed ?m ?b [] (buffer s) = ([], lstrip (buffer s))"
    using assms(1) by (simp_all add: ready_def)
  obtain s' ss where e: "extract_sentences ?s1 = (s', ss)" "min_sentence_length s' = ?m" "boundary_re s' = ?b"
    "length (buffer s') \<le> length (buffer s @ t)" "feed ?m ?b [] (buffer s @ t) = (ss, lstrip (buffer s'))"
    using extract_sentences_feed [of ?s1] r(1) by auto
  have f: "feed ?m ?b (lstrip (buffer s)) t = (ss, lstrip (buffer s'))"
    using e(5) r(2) by (auto simp: feed_append split: prod.splits)
  have "feed ?m ?b [] (lstrip (buffer s')) = ([], lstrip (buffer s'))"
    by (rule feed_stable [OF _ f]) (use r(2) in \<open>simp flip: feed_lstrip\<close>)
  then have "ready s'" using e(2,3) r(1) by (simp add: ready_def flip: feed_lstrip)
  with e f False assms(2) show ?thesis by (simp add: add_text_def)
qed

lemma add_chunks_feed:
  assumes "ready s" and "length (buffer s) + length (concat ts) \<le> max_buffer_size"
  shows "\<exists>s' ss. add_chunks ts s = (s', Inr ss)
     \<and> feed (min_sentence_length s) (boundary_re s) (lstrip (buffer s)) (concat ts) = (ss, lstrip (buffer s'))"
  using assms
proof (induction ts arbitrary: s)
  case Nil
  then show ?case by simp
next
  case (Cons t ts)
  then obtain s1 ss1 where a: "add_text t s = (s1, Inr ss1)" "min_sentence_length s1 = min_sentence_length s"
    "boundary_re s1 = boundary_re s" "length (buffer s1) \<le> length (buffer s) + length t"
    "feed (min_sentence_length s) (boundary_re s) (lstrip (buffer s)) t = (ss1, lstrip (buffer s1))" "ready s1"
    using add_text_feed [of s t] by auto
  with Cons.prems(2) Cons.IH [of s1] obtain s2 ss2 where "add_chunks ts s1 = (s2, Inr ss2)"
    "feed (min_sentence_length s) (boundary_re s) (lstrip (buffer s1)) (concat ts) = (ss2, lstrip (buffer s2))"
    by auto
  with a show ?case by (simp add: feed_append)
qed

definition sentences_of :: "int \<Rightarrow> granularity \<Rightarrow> text_t \<Rightarrow> text_t list" where
  "sentences_of m b t = (let (ss, cur) = feed m b [] t
     in ss @ (if strip py_space cur \<noteq> [] then [strip py_space cur] else []))"

lemma strip_lstrip: "strip py_space (lstrip xs) = strip py_space xs"
  by (simp add: strip_def dropWhile_idem)

lemma split_stream_reference:
  assumes "1 \<le> m" and "length (concat ts) \<le> max_buffer_size"
  shows "split_stream m b ts = Inr (sentences_of m b (concat ts))"
proof -
  have "ready (splitter_init m b)" using assms(1) by (simp add: ready_def splitter_init_def)
  then obtain s ss where "add_chunks ts (splitter_init m b) = (s, Inr ss)"
    "feed m b [] (concat ts) = (ss, lstrip (buffer s))"
    using add_chunks_feed [of "splitter_init m b" ts] assms(2) by (auto simp: splitter_init_def)
  then show ?thesis
    by (simp add: split_stream_def sentences_of_def flush_def Let_def strip_lstrip)
qed

subsection \<open>What the sentences are\<close>

abbreviation letters :: "text_t \<Rightarrow> text_t" where
  "letters \<equiv> filter (\<lambda>c. \<not> py_space c)"

definition sentence_ok :: "text_t \<Rightarrow> bool" where
  "sentence_ok x \<longleftrightarrow> x \<noteq> [] \<and> \<not> py_space (hd x) \<and> \<not> py_space (last x)"

lemma eat_sentences:
  assumes "eat m b cur c = (e, cur1)" and "cur \<noteq> [] \<longrightarrow> \<not> py_space (hd cur)"
  shows "cur1 \<noteq> [] \<longrightarrow> \<not> py_space (hd cur1)" and "\<forall>x \<in> set e. sentence_ok x \<and> m \<le> int (length x)"
    and "letters (concat e @ cur1) = letters (cur @ [c])"
  using assms end_no_space by (auto simp: eat_def sentence_ok_def hd_append split: if_splits)

lemma feed_sentences:
  assumes "feed m b cur cs = (ss, cur1)" and "cur \<noteq> [] \<longrightarrow> \<not> py_space (hd cur)"
  shows "(cur1 \<noteq> [] \<longrightarrow> \<not> py_space (hd cur1)) \<and> (\<forall>x \<in> set ss. sentence_ok x \<and> m \<le> int (length x))
     \<and> letters (concat ss @ cur1) = letters (cur @ cs)"
  using assms
proof (induction cs arbitrary: cur ss)
  case Nil
  then show ?case by auto
next
  case (Cons c cs)
  obtain e cur2 where e: "eat m b cur c = (e, cur2)" by fastforce
  obtain ss2 where f: "feed m b cur2 cs = (ss2, cur1)" "ss = e @ ss2"
    using Cons.prems(1) e by (auto split: prod.splits)
  note s = eat_sentences [OF e Cons.prems(2)]
  from Cons.IH [OF f(1) s(1)] s(2,3) f(2) show ?case by auto
qed

lemma strip_head:
  assumes "cur \<noteq> []" and "\<not> py_space (hd cur)"
  shows "sentence_ok (strip py_space cur)" and "letters (strip py_space cur) = letters cur"
proof -
  let ?r = "dropWhile py_space (rev cur)"
  have l: "lstrip cur = cur" using assms by (cases cur) auto
  then have st: "strip py_space cur = rev ?r" by (simp add: strip_def)
  have "?r \<noteq> []" using assms by (auto simp: dropWhile_eq_Nil_conv)
  moreover have "last ?r = last (rev cur)" using \<open>?r \<noteq> []\<close> by (metis dropWhile_eq_drop drop_eq_Nil2 last_drop leI)
  ultimately show "sentence_ok (strip py_space cur)"
    using assms hd_dropWhile [of py_space "rev cur"] by (auto simp: st sentence_ok_def hd_rev last_rev)
  have "letters (rev cur) = letters (takeWhile py_space (rev cur) @ ?r)" by simp
  also have "\<dots> = letters ?r" by (simp only: filter_append) (auto simp: filter_empty_conv dest: set_takeWhileD)
  finally have "rev (letters cur) = letters ?r" by (simp add: rev_filter)
  then show "letters (strip py_space cur) = letters cur" by (metis rev_filter rev_rev_ident st)
qed

lemma sentences_of_ok:
  assumes "1 \<le> m"
  shows "letters (concat (sentences_of m b t)) = letters t" and "\<forall>x \<in> set (sentences_of m b t). sentence_ok x"
    and "\<forall>x \<in> set (butlast (sentences_of m b t)). m \<le> int (length x)"
proof -
  obtain ss cur where f: "feed m b [] t = (ss, cur)" by fastforce
  note s = feed_sentences [OF f, simplified]
  consider (nil) "cur = []" "sentences_of m b t = ss"
    | (more) "cur \<noteq> []" "sentences_of m b t = ss @ [strip py_space cur]"
    using strip_head(1) [of cur] s f
    by (cases "cur = []") (auto simp: sentences_of_def sentence_ok_def strip_def)
  then show "letters (concat (sentences_of m b t)) = letters t"
    and "\<forall>x \<in> set (sentences_of m b t). sentence_ok x"
    and "\<forall>x \<in> set (butlast (sentences_of m b t)). m \<le> int (length x)"
  proof (atomize (full), cases)
    case nil
    then show "letters (concat (sentences_of m b t)) = letters t \<and> (\<forall>x \<in> set (sentences_of m b t). sentence_ok x)
        \<and> (\<forall>x \<in> set (butlast (sentences_of m b t)). m \<le> int (length x))"
      using s by (auto dest: in_set_butlastD)
  next
    case more
    then show "letters (concat (sentences_of m b t)) = letters t \<and> (\<forall>x \<in> set (sentences_of m b t). sentence_ok x)
        \<and> (\<forall>x \<in> set (butlast (sentences_of m b t)). m \<le> int (length x))"
      using s strip_head [of cur] by (auto simp: butlast_append)
  qed
qed


section \<open>Properties\<close>

text \<open>C3: The sentences of a streamed text do not depend on its chunks; they hold all its letters in order, none is empty or has white space at its ends, and all but the last have the minimum length.\<close>

theorem splitting_ignores_chunks:
  assumes "1 \<le> m" and "length (concat ts) \<le> max_buffer_size" and "concat us = concat ts"
  shows "\<exists>ss. split_stream m b ts = Inr ss \<and> split_stream m b us = Inr ss
     \<and> filter (\<lambda>c. \<not> py_space c) (concat ss) = filter (\<lambda>c. \<not> py_space c) (concat ts)
     \<and> (\<forall>x \<in> set ss. sentence_ok x) \<and> (\<forall>x \<in> set (butlast ss). m \<le> int (length x))"
  using split_stream_reference [OF assms(1), of ts b] split_stream_reference [OF assms(1), of us b]
    sentences_of_ok [OF assms(1), of b "concat ts"] assms(2,3) by simp

theorem splitting_ignores_chunks_witness:
  "\<exists>ss. split_stream 2 CLAUSE [[72, 105], [46, 32, 89, 111]] = Inr ss \<and> split_stream 2 CLAUSE [[72, 105, 46, 32, 89, 111]] = Inr ss
     \<and> filter (\<lambda>c. \<not> py_space c) (concat ss) = filter (\<lambda>c. \<not> py_space c) (concat [[72, 105], [46, 32, 89, 111]])
     \<and> (\<forall>x \<in> set ss. sentence_ok x) \<and> (\<forall>x \<in> set (butlast ss). 2 \<le> int (length x))"
  by (rule splitting_ignores_chunks) (simp_all add: max_buffer_size_def)

text \<open>A buffer that overflowed refuses every further chunk until it is flushed, however short its sentences are.\<close>

lemma overflow_sticks:
  assumes "add_text t s = (s', Inl e)"
  shows "e = ValueError" and "buffer s' = buffer s @ t" and "u \<noteq> [] \<Longrightarrow> snd (add_text u s') = Inl ValueError"
    and "flush s' = (s'\<lparr>buffer := []\<rparr>, if strip py_space (buffer s @ t) \<noteq> [] then Some (strip py_space (buffer s @ t)) else None)"
  using assms by (auto simp: add_text_def flush_def Let_def split: if_splits prod.splits)

text \<open>
  Short sentences: with the default minimum of 2 an abbreviation such as \<open>Dr.\<close> is a sentence of its own,
  and with a larger one the white space behind it is lost.
\<close>

definition ascii :: "string \<Rightarrow> text_t" where
  "ascii = map of_char"

lemma abbreviation_is_split:
  "split_stream 2 SENTENCE [ascii ''Dr. Smith''] = Inr [ascii ''Dr.'', ascii ''Smith'']"
  "split_stream 4 SENTENCE [ascii ''Dr. Smith''] = Inr [ascii ''Dr.Smith'']"
  by (simp_all add: split_stream_reference ascii_def max_buffer_size_def) (simp_all add: sentences_of_def eat_def py_space_def is_space_code_def latin_end_def cjk_end_def strip_def)

end
