(* ===== verification/Speech_Session.thy ===== *)
theory Speech_Session
  imports Text_Splitter
begin

text \<open>
  The websocket session for speech from streamed text (\<open>entrypoints/openai/serving_speech_stream.py\<close>).
  The client's frames are a list, and silence after the last one ends in the timeout. A frame is the
  length of its text and what the text decodes to. The transcript of what was sent is part of the
  \<open>world\<close>; \<open>sends_left\<close> is the number of messages that still reach the client (\<open>None\<close> when the
  connection is never lost), after which sending raises \<open>lost_as\<close>. Speech synthesis and the check of a
  model's name are the argument \<open>svc\<close>.
\<close>

section \<open>Messages and the connection\<close>

datatype exn = Disconnect | Failure

datatype notice = Idle_timeout | Too_large | Invalid_json | Not_json_object | Text_not_string | Unknown_type
  | Internal_error | Generation_failed nat | Config_timeout | Config_too_large | Config_invalid_json
  | Config_not_object | Config_expected | Config_invalid | Model_error

datatype server_msg =
    Audio_start nat text_t string "nat option"
  | Audio_bytes nat
  | Audio_done nat nat bool
  | Session_done nat
  | Error_msg notice

record session_config =
  cfg_model :: "string option"
  response_format :: string
  speed :: "rat option"
  stream_audio :: bool
  split_granularity :: granularity

text \<open>
  \<open>Config_msg None\<close>: a field is not valid. \<open>Text_msg None\<close>: the text is not a string; a missing text is
  the empty one.
\<close>

datatype decoded = Not_json | Not_object | Config_msg "session_config option" | Text_msg "text_t option"
  | Done_msg | Other_msg

datatype frame = Text_frame nat decoded | Binary_frame | Close_frame

record world =
  transcript :: "server_msg list"
  sends_left :: "nat option"
  lost_as :: exn
  aborted :: "string list"

definition send :: "server_msg \<Rightarrow> world \<Rightarrow> (exn + unit) \<times> world" where
  "send msg w =
     (if sends_left w = Some 0 then (Inl (lost_as w), w)
      else (Inr (), w\<lparr>transcript := transcript w @ [msg], sends_left := map_option (\<lambda>n. n - 1) (sends_left w)\<rparr>))"

definition send_error :: "notice \<Rightarrow> world \<Rightarrow> world" where
  "send_error n w = snd (send (Error_msg n) w)"

text \<open>
  The speech service: whether it accepts a model, whether a request can be built for a text, and the
  audio. A stream is the request's id, the lengths of its chunks and whether it fails after them.
\<close>

record speech_service =
  check_model :: "(string \<Rightarrow> bool) option"
  request_ok :: "session_config \<Rightarrow> text_t \<Rightarrow> bool"
  prepare_speech :: "session_config \<Rightarrow> nat \<Rightarrow> text_t \<Rightarrow> (string \<times> nat list \<times> bool) option"
  audio_bytes :: "session_config \<Rightarrow> nat \<Rightarrow> text_t \<Rightarrow> nat option"

section \<open>Generating the audio of a sentence\<close>

fun send_chunks :: "nat list \<Rightarrow> nat \<Rightarrow> world \<Rightarrow> (exn option \<times> nat) \<times> world" where
  "send_chunks [] total_bytes w = ((None, total_bytes), w)"
| "send_chunks (n # ns) total_bytes w =
     (case send (Audio_bytes n) w of
        (Inl x, w1) \<Rightarrow> ((Some x, total_bytes + n), w1)
      | (Inr _, w1) \<Rightarrow> send_chunks ns (total_bytes + n) w1)"

text \<open>The body of the \<open>try\<close>: what it raised, the bytes and the request's id.\<close>

definition generate_audio ::
  "speech_service \<Rightarrow> session_config \<Rightarrow> text_t \<Rightarrow> nat \<Rightarrow> world \<Rightarrow> (exn option \<times> nat \<times> string option) \<times> world" where
  "generate_audio svc cfg t i w =
     (if stream_audio cfg
      then (case prepare_speech svc cfg i t of
              None \<Rightarrow> ((Some Failure, 0, None), w)
            | Some (rid, ns, fails) \<Rightarrow>
                (case send_chunks ns 0 w of
                   ((Some x, n), w1) \<Rightarrow> ((Some x, n, Some rid), w1)
                 | ((None, n), w1) \<Rightarrow> ((if fails then Some Failure else None, n, Some rid), w1)))
      else (case audio_bytes svc cfg i t of
              None \<Rightarrow> ((Some Failure, 0, None), w)
            | Some n \<Rightarrow>
                (case send (Audio_bytes n) w of
                   (Inl x, w1) \<Rightarrow> ((Some x, n, None), w1)
                 | (Inr _, w1) \<Rightarrow> ((None, n, None), w1))))"

text \<open>The handlers of the \<open>try\<close> and its \<open>finally\<close>.\<close>

definition close_sentence ::
  "nat \<Rightarrow> exn option \<times> nat \<times> string option \<Rightarrow> world \<Rightarrow> (exn + unit) \<times> world" where
  "close_sentence i r w =
     (case r of (out, total_bytes, request_id) \<Rightarrow>
        (let w1 = (case out of
               Some Disconnect \<Rightarrow> (case request_id of
                  Some rid \<Rightarrow> w\<lparr>aborted := aborted w @ [rid]\<rparr> | None \<Rightarrow> w)
             | Some Failure \<Rightarrow> send_error (Generation_failed i) w
             | None \<Rightarrow> w);
             w2 = snd (send (Audio_done i total_bytes (out = Some Failure)) w1)
         in (if out = Some Disconnect then Inl Disconnect else Inr (), w2)))"

definition start_msg :: "session_config \<Rightarrow> text_t \<Rightarrow> nat \<Rightarrow> server_msg" where
  "start_msg cfg t i = Audio_start i t (response_format cfg)
     (if stream_audio cfg \<and> response_format cfg = ''pcm'' then Some 24000 else None)"

definition generate_and_send ::
  "speech_service \<Rightarrow> session_config \<Rightarrow> text_t \<Rightarrow> nat \<Rightarrow> world \<Rightarrow> (exn + unit) \<times> world" where
  "generate_and_send svc cfg t i w =
     (if \<not> request_ok svc cfg t then (Inl Failure, w)
      else (case send (start_msg cfg t i) w of
              (Inl x, w1) \<Rightarrow> (Inl x, w1)
            | (Inr _, w1) \<Rightarrow> (case generate_audio svc cfg t i w1 of (r, w2) \<Rightarrow> close_sentence i r w2)))"

section \<open>The session\<close>

definition validate_streaming_constraints :: "session_config \<Rightarrow> session_config option" where
  "validate_streaming_constraints c =
     (if stream_audio c
      then (if response_format c \<noteq> ''pcm'' then None
            else (case speed c of None \<Rightarrow> Some (c\<lparr>speed := Some 1\<rparr>)
                  | Some x \<Rightarrow> (if x \<noteq> 1 then None else Some c)))
      else Some c)"

definition receive_config :: "frame list \<Rightarrow> world \<Rightarrow> (exn + session_config option) \<times> frame list \<times> world" where
  "receive_config fs w =
     (case fs of
        [] \<Rightarrow> (Inr None, [], send_error Config_timeout w)
      | Close_frame # fs1 \<Rightarrow> (Inl Disconnect, fs1, w)
      | Binary_frame # fs1 \<Rightarrow> (Inl Failure, fs1, w)
      | Text_frame n d # fs1 \<Rightarrow>
          (if 4 * 1024 * 1024 < n then (Inr None, fs1, send_error Config_too_large w)
           else (case d of
                   Not_json \<Rightarrow> (Inr None, fs1, send_error Config_invalid_json w)
                 | Not_object \<Rightarrow> (Inr None, fs1, send_error Config_not_object w)
                 | Config_msg c \<Rightarrow>
                     (case Option.bind c validate_streaming_constraints of
                        None \<Rightarrow> (Inr None, fs1, send_error Config_invalid w)
                      | Some cfg \<Rightarrow> (Inr (Some cfg), fs1, w))
                 | _ \<Rightarrow> (Inr None, fs1, send_error Config_expected w))))"

fun send_sentences ::
  "speech_service \<Rightarrow> session_config \<Rightarrow> nat \<Rightarrow> text_t list \<Rightarrow> world \<Rightarrow> (exn + unit) \<times> world" where
  "send_sentences svc cfg i [] w = (Inr (), w)"
| "send_sentences svc cfg i (t # ts) w =
     (case generate_and_send svc cfg t i w of
        (Inl x, w1) \<Rightarrow> (Inl x, w1)
      | (Inr _, w1) \<Rightarrow> send_sentences svc cfg (i + 1) ts w1)"

definition finish_session ::
  "speech_service \<Rightarrow> session_config \<Rightarrow> splitter \<Rightarrow> nat \<Rightarrow> world \<Rightarrow> (exn + unit) \<times> world" where
  "finish_session svc cfg s i w =
     (case snd (flush s) of
        None \<Rightarrow> send (Session_done i) w
      | Some remaining \<Rightarrow>
          (case generate_and_send svc cfg remaining i w of
             (Inl x, w1) \<Rightarrow> (Inl x, w1)
           | (Inr _, w1) \<Rightarrow> send (Session_done (i + 1)) w1))"

fun session_loop ::
  "speech_service \<Rightarrow> session_config \<Rightarrow> splitter \<Rightarrow> nat \<Rightarrow> frame list \<Rightarrow> world \<Rightarrow> (exn + unit) \<times> world" where
  "session_loop svc cfg s i [] w = (Inr (), send_error Idle_timeout w)"
| "session_loop svc cfg s i (Close_frame # fs) w = (Inl Disconnect, w)"
| "session_loop svc cfg s i (Binary_frame # fs) w = (Inl Failure, w)"
| "session_loop svc cfg s i (Text_frame n d # fs) w =
     (if 128 * 1024 < n then session_loop svc cfg s i fs (send_error Too_large w)
      else (case d of
              Not_json \<Rightarrow> session_loop svc cfg s i fs (send_error Invalid_json w)
            | Not_object \<Rightarrow> session_loop svc cfg s i fs (send_error Not_json_object w)
            | Text_msg None \<Rightarrow> session_loop svc cfg s i fs (send_error Text_not_string w)
            | Text_msg (Some t) \<Rightarrow>
                (case add_text t s of
                   (s1, Inl e) \<Rightarrow> (Inl Failure, w)
                 | (s1, Inr ss) \<Rightarrow>
                     (case send_sentences svc cfg i ss w of
                        (Inl x, w1) \<Rightarrow> (Inl x, w1)
                      | (Inr _, w1) \<Rightarrow> session_loop svc cfg s1 (i + length ss) fs w1))
            | Done_msg \<Rightarrow> finish_session svc cfg s i w
            | _ \<Rightarrow> session_loop svc cfg s i fs (send_error Unknown_type w)))"

definition handle_exception :: "(exn + unit) \<times> world \<Rightarrow> world" where
  "handle_exception r = (case r of (Inl Failure, w) \<Rightarrow> send_error Internal_error w | (_, w) \<Rightarrow> w)"

definition model_refused :: "speech_service \<Rightarrow> session_config \<Rightarrow> bool" where
  "model_refused svc cfg = (case (cfg_model cfg, check_model svc) of
     (Some m, Some check) \<Rightarrow> m \<noteq> [] \<and> check m | _ \<Rightarrow> False)"

definition handle_session :: "speech_service \<Rightarrow> frame list \<Rightarrow> world \<Rightarrow> world" where
  "handle_session svc fs w =
     (case receive_config fs w of
        (Inl x, _, w1) \<Rightarrow> handle_exception (Inl x, w1)
      | (Inr None, _, w1) \<Rightarrow> w1
      | (Inr (Some cfg), fs1, w1) \<Rightarrow>
          (if model_refused svc cfg then send_error Model_error w1
           else handle_exception (session_loop svc cfg (splitter_init 2 (split_granularity cfg)) 0 fs1 w1)))"

section \<open>A connection that is never lost\<close>

text \<open>The messages of one sentence, and of a list of them.\<close>

definition audio_part :: "speech_service \<Rightarrow> session_config \<Rightarrow> nat \<Rightarrow> text_t \<Rightarrow> nat list \<times> bool" where
  "audio_part svc cfg i t =
     (if stream_audio cfg
      then (case prepare_speech svc cfg i t of None \<Rightarrow> ([], True) | Some (rid, ns, fails) \<Rightarrow> (ns, fails))
      else (case audio_bytes svc cfg i t of None \<Rightarrow> ([], True) | Some n \<Rightarrow> ([n], False)))"

definition bracket :: "speech_service \<Rightarrow> session_config \<Rightarrow> nat \<Rightarrow> text_t \<Rightarrow> server_msg list" where
  "bracket svc cfg i t = (case audio_part svc cfg i t of (ns, failed) \<Rightarrow>
     start_msg cfg t i # map Audio_bytes ns @ (if failed then [Error_msg (Generation_failed i)] else [])
       @ [Audio_done i (sum_list ns) failed])"

fun brackets :: "speech_service \<Rightarrow> session_config \<Rightarrow> nat \<Rightarrow> text_t list \<Rightarrow> server_msg list" where
  "brackets svc cfg i [] = []"
| "brackets svc cfg i (t # ts) = bracket svc cfg i t @ brackets svc cfg (i + 1) ts"

lemma brackets_append: "brackets svc cfg i (xs @ ys) = brackets svc cfg i xs @ brackets svc cfg (i + length xs) ys"
  by (induction xs arbitrary: i) simp_all

abbreviation sent :: "world \<Rightarrow> server_msg list \<Rightarrow> world" where
  "sent w ms \<equiv> w\<lparr>transcript := transcript w @ ms\<rparr>"

lemma send_open: "sends_left w = None \<Longrightarrow> send msg w = (Inr (), sent w [msg])"
  by (cases w) (simp add: send_def)

lemma send_error_open: "sends_left w = None \<Longrightarrow> send_error n w = sent w [Error_msg n]"
  by (simp add: send_error_def send_open)

lemma send_chunks_open:
  "sends_left w = None \<Longrightarrow> send_chunks ns k w = ((None, k + sum_list ns), sent w (map Audio_bytes ns))"
  by (induction ns arbitrary: k w) (simp_all add: send_open)

lemma generate_and_send_open:
  assumes "sends_left w = None" and "request_ok svc cfg t"
  shows "generate_and_send svc cfg t i w = (Inr (), sent w (bracket svc cfg i t))"
  using assms
  by (auto simp: generate_and_send_def generate_audio_def close_sentence_def bracket_def audio_part_def send_open
      send_error_open send_chunks_open split: option.splits prod.splits)

lemma send_sentences_open:
  assumes "sends_left w = None" and "\<forall>t \<in> set ts. request_ok svc cfg t"
  shows "send_sentences svc cfg i ts w = (Inr (), sent w (brackets svc cfg i ts))"
  using assms by (induction ts arbitrary: i w) (simp_all add: generate_and_send_open)

lemma finish_session_open:
  assumes "sends_left w = None" and "\<forall>t. request_ok svc cfg t"
  shows "finish_session svc cfg s i w = (Inr (), sent w
     (let ss = (case snd (flush s) of None \<Rightarrow> [] | Some r \<Rightarrow> [r])
      in brackets svc cfg i ss @ [Session_done (i + length ss)]))"
  using assms by (simp add: finish_session_def generate_and_send_open send_open split: option.split)

text \<open>The text messages of a session that stays within the limits.\<close>

abbreviation text_frames :: "(nat \<times> text_t) list \<Rightarrow> frame list" where
  "text_frames ts \<equiv> map (\<lambda>(n, t). Text_frame n (Text_msg (Some t))) ts"

lemma session_loop_open:
  assumes "sends_left w = None" and "\<forall>t. request_ok svc cfg t" and "\<forall>(n, t) \<in> set ts. n \<le> 128 * 1024"
    and "add_chunks (map snd ts) s = (s1, Inr ss)" and "n \<le> 128 * 1024"
  shows "session_loop svc cfg s i (text_frames ts @ Text_frame n Done_msg # fs) w =
     (Inr (), sent w (let all = ss @ (case snd (flush s1) of None \<Rightarrow> [] | Some r \<Rightarrow> [r])
       in brackets svc cfg i all @ [Session_done (i + length all)]))"
  using assms
proof (induction ts arbitrary: s i w ss)
  case Nil
  then show ?case by (simp add: finish_session_open Let_def)
next
  case (Cons a ts)
  obtain k t where a: "a = (k, t)" by fastforce
  obtain s2 ss1 ss2 where c: "add_text t s = (s2, Inr ss1)" "add_chunks (map snd ts) s2 = (s1, Inr ss2)" "ss = ss1 @ ss2"
    using Cons.prems(4) a by (auto split: prod.splits sum.splits)
  have "session_loop svc cfg s2 (i + length ss1) (text_frames ts @ Text_frame n Done_msg # fs) (sent w (brackets svc cfg i ss1)) =
     (Inr (), sent (sent w (brackets svc cfg i ss1)) (let all = ss2 @ (case snd (flush s1) of None \<Rightarrow> [] | Some r \<Rightarrow> [r])
       in brackets svc cfg (i + length ss1) all @ [Session_done (i + length ss1 + length all)]))"
    by (rule Cons.IH) (use Cons.prems c in auto)
  then show ?case
    using Cons.prems(1,2,3) a c by (simp add: send_sentences_open brackets_append Let_def add.assoc)
qed

lemma split_stream_Inr:
  "split_stream m b ts = Inr ss \<Longrightarrow> \<exists>s1 ss1. add_chunks ts (splitter_init m b) = (s1, Inr ss1)
     \<and> ss = ss1 @ (case snd (flush s1) of None \<Rightarrow> [] | Some r \<Rightarrow> [r])"
  by (auto simp: split_stream_def split: prod.splits sum.splits)

text \<open>A whole session: configuration, texts, end of input.\<close>

definition session_frames :: "nat \<Rightarrow> session_config \<Rightarrow> (nat \<times> text_t) list \<Rightarrow> frame list" where
  "session_frames n c ts = Text_frame n (Config_msg (Some c)) # text_frames ts @ [Text_frame 0 Done_msg]"

lemma handle_session_open:
  assumes "sends_left w = None" and "\<forall>t. request_ok svc cfg t" and "\<forall>(n, t) \<in> set ts. n \<le> 128 * 1024"
    and "n \<le> 4 * 1024 * 1024" and "validate_streaming_constraints c = Some cfg" and "\<not> model_refused svc cfg"
    and "length (concat (map snd ts)) \<le> max_buffer_size"
  shows "handle_session svc (session_frames n c ts) w = sent w
     (let ss = sentences_of 2 (split_granularity cfg) (concat (map snd ts))
      in brackets svc cfg 0 ss @ [Session_done (length ss)])"
proof -
  let ?s = "splitter_init 2 (split_granularity cfg)"
  have "split_stream 2 (split_granularity cfg) (map snd ts) =
      Inr (sentences_of 2 (split_granularity cfg) (concat (map snd ts)))"
    using assms(7) by (rule split_stream_reference [rotated]) simp
  from split_stream_Inr [OF this] obtain s1 ss1 where
    c: "add_chunks (map snd ts) ?s = (s1, Inr ss1)"
      "sentences_of 2 (split_granularity cfg) (concat (map snd ts)) =
        ss1 @ (case snd (flush s1) of None \<Rightarrow> [] | Some r \<Rightarrow> [r])"
    by blast
  have "session_loop svc cfg ?s 0 (text_frames ts @ [Text_frame 0 Done_msg]) w =
     (Inr (), sent w (let all = sentences_of 2 (split_granularity cfg) (concat (map snd ts))
       in brackets svc cfg 0 all @ [Session_done (0 + length all)]))"
    unfolding c(2) by (rule session_loop_open) (use assms c in auto)
  with assms(4,5,6) show ?thesis
    by (simp add: handle_session_def session_frames_def receive_config_def handle_exception_def)
qed

section \<open>A connection that is lost\<close>

text \<open>
  An action over the world is \<open>truncating\<close> when a connection that is lost after \<open>k\<close> messages lets the
  first \<open>k\<close> of its messages through and no other.
\<close>

definition truncating :: "(world \<Rightarrow> 'a \<times> world) \<Rightarrow> bool" where
  "truncating f \<longleftrightarrow>
     (\<forall>w. sends_left w = Some 0 \<longrightarrow>
        sends_left (snd (f w)) = Some 0 \<and> transcript (snd (f w)) = transcript w)
     \<and> (\<forall>w k. sends_left w = None \<longrightarrow> (\<exists>d r w1. f w = (r, w1) \<and> sends_left w1 = None \<and> transcript w1 = transcript w @ d
        \<and> (if length d \<le> k then f (w\<lparr>sends_left := Some k\<rparr>) = (r, w1\<lparr>sends_left := Some (k - length d)\<rparr>)
           else sends_left (snd (f (w\<lparr>sends_left := Some k\<rparr>))) = Some 0
             \<and> transcript (snd (f (w\<lparr>sends_left := Some k\<rparr>))) = transcript w @ take k d)))"

lemma truncatingI:
  assumes "\<And>w. sends_left w = Some 0 \<Longrightarrow> sends_left (snd (f w)) = Some 0 \<and> transcript (snd (f w)) = transcript w"
    and "\<And>w k. sends_left w = None \<Longrightarrow> \<exists>d r w1. f w = (r, w1) \<and> sends_left w1 = None \<and> transcript w1 = transcript w @ d
        \<and> (if length d \<le> k then f (w\<lparr>sends_left := Some k\<rparr>) = (r, w1\<lparr>sends_left := Some (k - length d)\<rparr>)
           else sends_left (snd (f (w\<lparr>sends_left := Some k\<rparr>))) = Some 0
             \<and> transcript (snd (f (w\<lparr>sends_left := Some k\<rparr>))) = transcript w @ take k d)"
  shows "truncating f"
  using assms unfolding truncating_def by blast

lemma truncating_lost:
  assumes "truncating f" and "sends_left w = Some 0"
  shows "sends_left (snd (f w)) = Some 0" and "transcript (snd (f w)) = transcript w"
  using assms unfolding truncating_def by blast+

lemma truncating_open:
  assumes "truncating f" and "sends_left w = None"
  obtains d r w1 where "f w = (r, w1)" "sends_left w1 = None" "transcript w1 = transcript w @ d"
    "if length d \<le> k then f (w\<lparr>sends_left := Some k\<rparr>) = (r, w1\<lparr>sends_left := Some (k - length d)\<rparr>)
     else sends_left (snd (f (w\<lparr>sends_left := Some k\<rparr>))) = Some 0
       \<and> transcript (snd (f (w\<lparr>sends_left := Some k\<rparr>))) = transcript w @ take k d"
proof -
  have "\<exists>d r w1. f w = (r, w1) \<and> sends_left w1 = None \<and> transcript w1 = transcript w @ d
        \<and> (if length d \<le> k then f (w\<lparr>sends_left := Some k\<rparr>) = (r, w1\<lparr>sends_left := Some (k - length d)\<rparr>)
           else sends_left (snd (f (w\<lparr>sends_left := Some k\<rparr>))) = Some 0
             \<and> transcript (snd (f (w\<lparr>sends_left := Some k\<rparr>))) = transcript w @ take k d)"
    using assms unfolding truncating_def by blast
  then show ?thesis using that by blast
qed

lemma truncating_return [intro, simp]: "truncating (\<lambda>w. (r, w))"
  by (rule truncatingI) simp_all

lemma truncating_abort [intro, simp]: "truncating (\<lambda>w. (r, w\<lparr>aborted := aborted w @ rs\<rparr>))"
  by (rule truncatingI) simp_all

lemma truncating_send: "truncating (send msg)"
proof (rule truncatingI)
  fix w :: world and k
  assume o: "sends_left w = None"
  show "\<exists>d r w1. send msg w = (r, w1) \<and> sends_left w1 = None \<and> transcript w1 = transcript w @ d
        \<and> (if length d \<le> k then send msg (w\<lparr>sends_left := Some k\<rparr>) = (r, w1\<lparr>sends_left := Some (k - length d)\<rparr>)
           else sends_left (snd (send msg (w\<lparr>sends_left := Some k\<rparr>))) = Some 0
             \<and> transcript (snd (send msg (w\<lparr>sends_left := Some k\<rparr>))) = transcript w @ take k d)"
    by (rule exI [of _ "[msg]"]) (use o in \<open>cases k; simp add: send_def\<close>)
qed (simp add: send_def)

text \<open>What follows depends on the result and, through the world, on nothing that was cut off.\<close>

lemma truncating_bind:
  assumes f: "truncating f" and g: "\<And>r. truncating (g r)"
  shows "truncating (\<lambda>w. case f w of (r, w1) \<Rightarrow> g r w1)"
proof (rule truncatingI)
  fix w :: world assume w: "sends_left w = Some 0"
  obtain r w1 where r: "f w = (r, w1)" by fastforce
  with truncating_lost [OF f w] have w1: "sends_left w1 = Some 0" "transcript w1 = transcript w" by simp_all
  with truncating_lost [OF g w1(1), of r] show "sends_left (snd (case f w of (r, w1) \<Rightarrow> g r w1)) = Some 0
      \<and> transcript (snd (case f w of (r, w1) \<Rightarrow> g r w1)) = transcript w" by (simp add: r)
next
  fix w :: world and k
  assume o: "sends_left w = None"
  let ?h = "\<lambda>w. case f w of (r, w1) \<Rightarrow> g r w1" and ?w = "w\<lparr>sends_left := Some k\<rparr>"
  obtain d r w1 where f1: "f w = (r, w1)" "sends_left w1 = None" "transcript w1 = transcript w @ d"
    and fk: "if length d \<le> k then f ?w = (r, w1\<lparr>sends_left := Some (k - length d)\<rparr>)
     else sends_left (snd (f ?w)) = Some 0 \<and> transcript (snd (f ?w)) = transcript w @ take k d"
    by (rule truncating_open [OF f o])
  obtain d2 r2 w2 where g1: "g r w1 = (r2, w2)" "sends_left w2 = None" "transcript w2 = transcript w1 @ d2"
    and gk: "if length d2 \<le> k - length d
       then g r (w1\<lparr>sends_left := Some (k - length d)\<rparr>) = (r2, w2\<lparr>sends_left := Some (k - length d - length d2)\<rparr>)
       else sends_left (snd (g r (w1\<lparr>sends_left := Some (k - length d)\<rparr>))) = Some 0
         \<and> transcript (snd (g r (w1\<lparr>sends_left := Some (k - length d)\<rparr>))) = transcript w1 @ take (k - length d) d2"
    by (rule truncating_open [OF g f1(2)])
  show "\<exists>d r w1. ?h w = (r, w1) \<and> sends_left w1 = None \<and> transcript w1 = transcript w @ d
        \<and> (if length d \<le> k then ?h ?w = (r, w1\<lparr>sends_left := Some (k - length d)\<rparr>)
           else sends_left (snd (?h ?w)) = Some 0 \<and> transcript (snd (?h ?w)) = transcript w @ take k d)"
  proof (rule exI [of _ "d @ d2"], rule exI [of _ r2], rule exI [of _ w2], intro conjI)
    show "?h w = (r2, w2)" using f1 g1 by simp
    show "transcript w2 = transcript w @ d @ d2" using f1 g1 by simp
    show "if length (d @ d2) \<le> k then ?h ?w = (r2, w2\<lparr>sends_left := Some (k - length (d @ d2))\<rparr>)
       else sends_left (snd (?h ?w)) = Some 0 \<and> transcript (snd (?h ?w)) = transcript w @ take k (d @ d2)"
    proof (cases "length d \<le> k")
      case True
      with fk have fk: "f ?w = (r, w1\<lparr>sends_left := Some (k - length d)\<rparr>)" by simp
      show ?thesis
      proof (cases "length d2 \<le> k - length d")
        case t2: True
        have "length (d @ d2) \<le> k" using True t2 by simp
        with t2 gk fk show ?thesis by simp
      next
        case False
        have "\<not> length (d @ d2) \<le> k" using True False by simp
        with True False gk fk f1(3) show ?thesis by simp
      qed
    next
      case False
      obtain r3 w3 where r3: "f ?w = (r3, w3)" by fastforce
      with fk False have w3: "sends_left w3 = Some 0" "transcript w3 = transcript w @ take k d" by simp_all
      with truncating_lost [OF g w3(1), of r3] False r3 show ?thesis by simp
    qed
  qed (rule g1(2))
qed


text \<open>The shapes in which the session composes its actions.\<close>

lemma truncating_sum:
  assumes "truncating f" and "\<And>x. truncating (\<lambda>w. g x w)" and "\<And>y. truncating (\<lambda>w. h y w)"
  shows "truncating (\<lambda>w. case f w of (Inl x, w1) \<Rightarrow> g x w1 | (Inr y, w1) \<Rightarrow> h y w1)"
proof -
  have "truncating (\<lambda>w. case f w of (r, w1) \<Rightarrow> (case r of Inl x \<Rightarrow> g x | Inr y \<Rightarrow> h y) w1)"
    by (rule truncating_bind [OF assms(1)]) (use assms(2,3) in \<open>auto split: sum.split\<close>)
  then show ?thesis by (rule back_subst [where P = truncating]) (auto simp: fun_eq_iff split: prod.split sum.split)
qed

lemma truncating_after:
  assumes "truncating (\<lambda>w. ((), f w))" and "truncating g"
  shows "truncating (\<lambda>w. g (f w))"
  using truncating_bind [OF assms(1), of "\<lambda>_. g"] assms(2) by simp

lemma truncating_map: "truncating f \<Longrightarrow> truncating (\<lambda>w. (r, snd (f w)))"
  using truncating_bind [of f "\<lambda>_ w. (r, w)"] by (simp add: split_def)

lemma truncating_send_error: "truncating (\<lambda>w. ((), send_error n w))"
  unfolding send_error_def by (rule truncating_map [OF truncating_send])

lemma truncating_send_chunks: "truncating (send_chunks ns n)"
proof (induction ns arbitrary: n)
  case Nil
  then show ?case by simp
next
  case (Cons a ns)
  show ?case
    unfolding send_chunks.simps
    by (rule truncating_sum [OF truncating_send]) (use Cons.IH in auto)
qed

lemma truncating_generate_audio: "truncating (generate_audio svc cfg t i)"
proof (cases "stream_audio cfg")
  case True
  show ?thesis
  proof (cases "prepare_speech svc cfg i t")
    case None
    with True show ?thesis by (simp add: generate_audio_def [abs_def])
  next
    case (Some p)
    obtain rid ns fails where p: "p = (rid, ns, fails)" by (cases p) auto
    have "truncating (\<lambda>w. case send_chunks ns 0 w of (r, w1) \<Rightarrow>
        (case r of (Some x, n) \<Rightarrow> (Some x, n, Some rid) | (None, n) \<Rightarrow> (if fails then Some Failure else None, n, Some rid), w1))"
      by (rule truncating_bind [OF truncating_send_chunks]) simp
    moreover have "generate_audio svc cfg t i = (\<lambda>w. case send_chunks ns 0 w of (r, w1) \<Rightarrow>
        (case r of (Some x, n) \<Rightarrow> (Some x, n, Some rid) | (None, n) \<Rightarrow> (if fails then Some Failure else None, n, Some rid), w1))"
      by (rule ext) (simp add: generate_audio_def True Some p split: prod.split option.split)
    ultimately show ?thesis by simp
  qed
next
  case False
  show ?thesis
  proof (cases "audio_bytes svc cfg i t")
    case None
    with False show ?thesis by (simp add: generate_audio_def [abs_def])
  next
    case (Some n)
    have "truncating (\<lambda>w. case send (Audio_bytes n) w of
        (Inl x, w1) \<Rightarrow> ((Some x, n, None :: string option), w1) | (Inr _, w1) \<Rightarrow> ((None, n, None), w1))"
      by (rule truncating_sum [OF truncating_send]) simp_all
    with False Some show ?thesis by (simp add: generate_audio_def [abs_def])
  qed
qed

lemma truncating_close_sentence: "truncating (close_sentence i r)"
proof -
  obtain out n rid where r: "r = (out, n, rid)" by (cases r) auto
  have last: "truncating (\<lambda>w. (x, snd (send m w)))" for x :: "exn + unit" and m
    by (rule truncating_map [OF truncating_send])
  have ab: "truncating (\<lambda>w. ((), w\<lparr>aborted := aborted w @ rs\<rparr>))" for rs by simp
  consider "out = Some Disconnect" "rid = None" | s where "out = Some Disconnect" "rid = Some s"
    | "out = Some Failure" | "out = None"
    by (metis exn.exhaust not_Some_eq)
  then show ?thesis
    by cases (use last truncating_after [OF ab last] truncating_after [OF truncating_send_error last] in
      \<open>simp_all add: r close_sentence_def [abs_def] Let_def\<close>)
qed

lemma truncating_generate_and_send: "truncating (generate_and_send svc cfg t i)"
proof (cases "request_ok svc cfg t")
  case True
  have "truncating (\<lambda>w. case send (start_msg cfg t i) w of (Inl x, w1) \<Rightarrow> (Inl x, w1)
     | (Inr u, w1) \<Rightarrow> (\<lambda>w1. case generate_audio svc cfg t i w1 of (r, w2) \<Rightarrow> close_sentence i r w2) w1)"
    by (rule truncating_sum [OF truncating_send])
      (simp_all add: truncating_bind [OF truncating_generate_audio truncating_close_sentence])
  with True show ?thesis by (simp add: generate_and_send_def [abs_def])
qed (simp add: generate_and_send_def [abs_def])

lemma truncating_send_sentences: "truncating (send_sentences svc cfg i ts)"
proof (induction ts arbitrary: i)
  case Nil
  then show ?case by simp
next
  case (Cons t ts)
  show ?case
    unfolding send_sentences.simps
    by (rule truncating_sum [OF truncating_generate_and_send]) (use Cons.IH in auto)
qed

lemma truncating_finish_session: "truncating (finish_session svc cfg s i)"
proof (cases "snd (flush s)")
  case None
  then show ?thesis by (simp add: finish_session_def [abs_def] truncating_send)
next
  case (Some r)
  have "truncating (\<lambda>w. case generate_and_send svc cfg r i w of (Inl x, w1) \<Rightarrow> (Inl x, w1)
     | (Inr u, w1) \<Rightarrow> send (Session_done (i + 1)) w1)"
    by (rule truncating_sum [OF truncating_generate_and_send]) (simp_all add: truncating_send)
  with Some show ?thesis by (simp add: finish_session_def [abs_def])
qed

lemma truncating_session_loop: "truncating (session_loop svc cfg s i fs)"
proof (induction fs arbitrary: s i)
  case Nil
  show ?case
    unfolding session_loop.simps send_error_def by (rule truncating_map [OF truncating_send])
next
  case (Cons f fs)
  have err: "truncating (\<lambda>w. session_loop svc cfg s i fs (send_error n w))" for n
    by (rule truncating_after [OF truncating_send_error Cons.IH])
  show ?case
  proof (cases f)
    case (Text_frame n d)
    consider (large) "128 * 1024 < n" | (chunk) t where "n \<le> 128 * 1024" "d = Text_msg (Some t)"
      | (fin) "n \<le> 128 * 1024" "d = Done_msg"
      | (bad) e where "n \<le> 128 * 1024" "session_loop svc cfg s i (f # fs) = (\<lambda>w. session_loop svc cfg s i fs (send_error e w))"
      by (cases d) (force simp: Text_frame fun_eq_iff split: option.split | (cases "128 * 1024 < n"; force simp: Text_frame fun_eq_iff))+
    then show ?thesis
    proof cases
      case large
      with err show ?thesis by (simp add: Text_frame)
    next
      case chunk
      obtain s1 r where a: "add_text t s = (s1, r)" by fastforce
      show ?thesis
      proof (cases r)
        case (Inl e)
        with chunk a show ?thesis by (simp add: Text_frame)
      next
        case (Inr ss)
        have "truncating (\<lambda>w. case send_sentences svc cfg i ss w of (Inl x, w1) \<Rightarrow> (Inl x, w1)
           | (Inr u, w1) \<Rightarrow> session_loop svc cfg s1 (i + length ss) fs w1)"
          by (rule truncating_sum [OF truncating_send_sentences]) (simp_all add: Cons.IH)
        with chunk a Inr show ?thesis by (simp add: Text_frame)
      qed
    next
      case fin
      then show ?thesis by (simp add: Text_frame truncating_finish_session)
    next
      case bad
      with err show ?thesis by simp
    qed
  qed simp_all
qed


lemma truncating_receive_config:
  "truncating (\<lambda>w. case receive_config fs w of (r, fs1, w1) \<Rightarrow> ((r, fs1), w1))"
proof -
  have err: "truncating (\<lambda>w. ((Inr None :: exn + session_config option, fs1), send_error n w))" for fs1 :: "frame list" and n
    unfolding send_error_def by (rule truncating_map [OF truncating_send])
  show ?thesis
  proof (cases fs)
    case Nil
    with err show ?thesis by (simp add: receive_config_def)
  next
    case (Cons f fs1)
    show ?thesis
    proof (cases f)
      case (Text_frame n d)
      with Cons err show ?thesis
        by (cases d; cases "4 * 1024 * 1024 < n"; cases "Option.bind (case d of Config_msg c \<Rightarrow> c | _ \<Rightarrow> None) validate_streaming_constraints")
          (simp_all add: receive_config_def)
    qed (use Cons in \<open>simp_all add: receive_config_def\<close>)
  qed
qed

lemma truncating_handle_exception:
  assumes "truncating f"
  shows "truncating (\<lambda>w. ((), handle_exception (f w)))"
proof -
  have "truncating (\<lambda>w. case f w of (r, w1) \<Rightarrow> ((), handle_exception (r, w1)))"
  proof (rule truncating_bind [OF assms])
    fix r :: "exn + unit"
    consider "r = Inl Failure" | "r = Inl Disconnect" | u where "r = Inr u" by (metis exn.exhaust obj_sumE)
    then show "truncating (\<lambda>w. ((), handle_exception (r, w)))"
      by cases (simp_all add: handle_exception_def truncating_send_error)
  qed
  then show ?thesis by (simp add: split_def)
qed

lemma truncating_handle_session: "truncating (\<lambda>w. ((), handle_session svc fs w))"
proof -
  have "truncating (\<lambda>w. case (case receive_config fs w of (r, fs1, w1) \<Rightarrow> ((r, fs1), w1)) of (q, w1) \<Rightarrow>
     (case q of
        (Inl x, _) \<Rightarrow> ((), handle_exception (Inl x, w1))
      | (Inr None, _) \<Rightarrow> ((), w1)
      | (Inr (Some cfg), fs1) \<Rightarrow>
          (if model_refused svc cfg then ((), send_error Model_error w1)
           else ((), handle_exception (session_loop svc cfg (splitter_init 2 (split_granularity cfg)) 0 fs1 w1)))))"
  proof (rule truncating_bind [OF truncating_receive_config])
    fix q :: "(exn + session_config option) \<times> frame list"
    obtain r fs1 where q: "q = (r, fs1)" by fastforce
    consider x where "r = Inl x" | "r = Inr None" | cfg where "r = Inr (Some cfg)"
      by (metis not_None_eq obj_sumE)
    then show "truncating (\<lambda>w1. case q of
        (Inl x, _) \<Rightarrow> ((), handle_exception (Inl x, w1))
      | (Inr None, _) \<Rightarrow> ((), w1)
      | (Inr (Some cfg), fs1) \<Rightarrow>
          (if model_refused svc cfg then ((), send_error Model_error w1)
           else ((), handle_exception (session_loop svc cfg (splitter_init 2 (split_granularity cfg)) 0 fs1 w1))))"
    proof cases
      case (1 x)
      then show ?thesis using truncating_handle_exception [OF truncating_return, of "Inl x"] by (simp add: q)
    next
      case 2
      then show ?thesis by (simp add: q)
    next
      case (3 cfg)
      then show ?thesis
        using truncating_handle_exception [OF truncating_session_loop] truncating_send_error
        by (cases "model_refused svc cfg") (simp_all add: q)
    qed
  qed
  moreover have "((), handle_session svc fs w) = (case (case receive_config fs w of (r, fs1, w1) \<Rightarrow> ((r, fs1), w1)) of (q, w1) \<Rightarrow>
     (case q of
        (Inl x, _) \<Rightarrow> ((), handle_exception (Inl x, w1))
      | (Inr None, _) \<Rightarrow> ((), w1)
      | (Inr (Some cfg), fs1) \<Rightarrow>
          (if model_refused svc cfg then ((), send_error Model_error w1)
           else ((), handle_exception (session_loop svc cfg (splitter_init 2 (split_granularity cfg)) 0 fs1 w1)))))" for w
    by (simp add: handle_session_def split: prod.split sum.split option.split)
  ultimately show ?thesis by simp
qed

text \<open>What reaches the client of what would be sent.\<close>

definition delivered :: "nat option \<Rightarrow> 'a list \<Rightarrow> 'a list" where
  "delivered k ms = (case k of None \<Rightarrow> ms | Some n \<Rightarrow> take n ms)"

lemma handle_session_delivered:
  assumes "transcript (handle_session svc fs (w\<lparr>sends_left := None\<rparr>)) = transcript w @ ms"
  shows "transcript (handle_session svc fs w) = transcript w @ delivered (sends_left w) ms"
proof (cases "sends_left w")
  case None
  then have "w\<lparr>sends_left := None\<rparr> = w" by (cases w) simp
  with assms None show ?thesis by (simp add: delivered_def)
next
  case (Some k)
  have w: "w\<lparr>sends_left := Some k\<rparr> = w" using Some by (cases w) simp
  have o: "sends_left (w\<lparr>sends_left := None\<rparr>) = None" by simp
  show ?thesis
    by (rule truncating_open [OF truncating_handle_session [of svc fs] o, of k])
      (use assms Some in \<open>auto simp: delivered_def w split: if_splits\<close>)
qed

section \<open>Every session\<close>

text \<open>
  What a session may send, with the number of its sentences: errors, and the messages of one sentence
  after the other, numbered in order.
\<close>

inductive protocol :: "speech_service \<Rightarrow> session_config \<Rightarrow> nat \<Rightarrow> server_msg list \<Rightarrow> bool" for svc cfg where
  "protocol svc cfg 0 []"
| "protocol svc cfg i ms \<Longrightarrow> protocol svc cfg i (ms @ [Error_msg n])"
| "protocol svc cfg i ms \<Longrightarrow> protocol svc cfg (i + 1) (ms @ bracket svc cfg i t)"

definition ended :: "speech_service \<Rightarrow> session_config \<Rightarrow> server_msg list \<Rightarrow> bool" where
  "ended svc cfg ms \<longleftrightarrow> (\<exists>i ms0. protocol svc cfg i ms0 \<and> (ms = ms0 \<or> ms = ms0 @ [Session_done i]))"

lemma ended_protocol: "protocol svc cfg i ms \<Longrightarrow> ended svc cfg ms"
  by (auto simp: ended_def)

lemma generate_and_send_protocol:
  assumes "sends_left w = None" and "protocol svc cfg i (transcript w)"
    and "generate_and_send svc cfg t i w = (r, w1)"
  shows "sends_left w1 = None \<and> r \<noteq> Inl Disconnect
     \<and> (case r of Inl x \<Rightarrow> protocol svc cfg i (transcript w1) | Inr _ \<Rightarrow> protocol svc cfg (i + 1) (transcript w1))"
proof (cases "request_ok svc cfg t")
  case True
  with assms(3) generate_and_send_open [OF assms(1) True, of i]
  have "r = Inr ()" "w1 = sent w (bracket svc cfg i t)" by auto
  with assms(1,2) show ?thesis using protocol.intros(3) by auto
next
  case False
  with assms show ?thesis by (auto simp: generate_and_send_def)
qed

lemma send_sentences_protocol:
  assumes "sends_left w = None" and "protocol svc cfg i (transcript w)" and "send_sentences svc cfg i ts w = (r, w1)"
  shows "sends_left w1 = None \<and> r \<noteq> Inl Disconnect
     \<and> (case r of Inl x \<Rightarrow> \<exists>j. protocol svc cfg j (transcript w1) | Inr _ \<Rightarrow> protocol svc cfg (i + length ts) (transcript w1))"
  using assms
proof (induction ts arbitrary: i w)
  case Nil
  then show ?case by auto
next
  case (Cons t ts)
  obtain r1 w2 where g: "generate_and_send svc cfg t i w = (r1, w2)" by fastforce
  note p = generate_and_send_protocol [OF Cons.prems(1,2) g]
  show ?case
  proof (cases r1)
    case (Inl x)
    with p g Cons.prems(3) show ?thesis by auto
  next
    case (Inr u)
    with p g Cons.prems(3) Cons.IH [of w2 "i + 1"] show ?thesis by (auto split: sum.splits)
  qed
qed

lemma ended_done: "protocol svc cfg i ms \<Longrightarrow> ended svc cfg (ms @ [Session_done i])"
  by (auto simp: ended_def)

lemma finish_session_protocol:
  assumes "sends_left w = None" and "protocol svc cfg i (transcript w)" and "finish_session svc cfg s i w = (r, w1)"
  shows "sends_left w1 = None \<and> (case r of Inl x \<Rightarrow> \<exists>j. protocol svc cfg j (transcript w1) | Inr _ \<Rightarrow> ended svc cfg (transcript w1))"
proof (cases "snd (flush s)")
  case None
  with assms ended_done show ?thesis by (auto simp: finish_session_def send_open)
next
  case (Some t)
  obtain r1 w2 where g: "generate_and_send svc cfg t i w = (r1, w2)" by fastforce
  note p = generate_and_send_protocol [OF assms(1,2) g]
  show ?thesis
    by (cases r1) (use p g assms(3) Some in \<open>auto simp: finish_session_def send_open intro: ended_done\<close>)
qed

lemma session_loop_protocol:
  assumes "sends_left w = None" and "protocol svc cfg i (transcript w)" and "session_loop svc cfg s i fs w = (r, w1)"
  shows "sends_left w1 = None \<and> (case r of Inl x \<Rightarrow> \<exists>j. protocol svc cfg j (transcript w1) | Inr _ \<Rightarrow> ended svc cfg (transcript w1))"
  using assms
proof (induction fs arbitrary: s i w)
  case Nil
  then show ?case using protocol.intros(2) by (auto simp: send_error_open intro!: ended_protocol)
next
  case (Cons f fs)
  have err: ?case if "session_loop svc cfg s i fs (send_error n w) = (r, w1)" for n
    using Cons.IH [of "send_error n w" i s] that Cons.prems(1,2) protocol.intros(2) by (simp add: send_error_open)
  show ?case
  proof (cases f)
    case (Text_frame n d)
    show ?thesis
    proof (cases "128 * 1024 < n")
      case True
      with Cons.prems(3) Text_frame show ?thesis by (intro err) simp
    next
      case small: False
      show ?thesis
      proof (cases d)
        case (Text_msg t0)
        show ?thesis
        proof (cases t0)
          case None
          with Cons.prems(3) Text_frame Text_msg small show ?thesis by (intro err) simp
        next
          case (Some t)
          obtain s1 q where a: "add_text t s = (s1, q)" by fastforce
          show ?thesis
          proof (cases q)
            case (Inl e)
            with Cons.prems Text_frame Text_msg Some small a show ?thesis by auto
          next
            case (Inr ss)
            obtain r1 w2 where g: "send_sentences svc cfg i ss w = (r1, w2)" by fastforce
            note p = send_sentences_protocol [OF Cons.prems(1,2) g]
            show ?thesis
              by (cases r1) (use p g Cons.prems(3) Cons.IH [of w2 "i + length ss" s1] Text_frame Text_msg Some small a Inr in auto)
          qed
        qed
      next
        case Done_msg
        with Cons.prems(3) small have "finish_session svc cfg s i w = (r, w1)" by (simp add: Text_frame)
        then show ?thesis by (rule finish_session_protocol [OF Cons.prems(1,2)])
      qed (use Cons.prems(3) Text_frame small in \<open>intro err; simp\<close>)+
    qed
  qed (use Cons.prems in auto)
qed


lemma handle_exception_protocol:
  assumes "sends_left w = None" and "case r of Inl x \<Rightarrow> \<exists>j. protocol svc cfg j (transcript w) | Inr _ \<Rightarrow> ended svc cfg (transcript w)"
  shows "ended svc cfg (transcript (handle_exception (r, w)))"
proof -
  consider "r = Inl Failure" | "r = Inl Disconnect" | u where "r = Inr u" by (metis exn.exhaust obj_sumE)
  then show ?thesis
  proof cases
    case 1
    with assms obtain j where "protocol svc cfg j (transcript w)" by auto
    from ended_protocol [OF protocol.intros(2) [OF this]] 1 assms(1) show ?thesis
      by (simp add: handle_exception_def send_error_open)
  qed (use assms ended_protocol in \<open>auto simp: handle_exception_def\<close>)
qed

lemma handle_session_protocol:
  assumes "sends_left w = None" and "transcript w = []"
  shows "\<exists>cfg. ended svc cfg (transcript (handle_session svc fs w))"
proof -
  have err: "\<exists>cfg. ended svc cfg (transcript (send_error n w))" for n
    using ended_protocol [OF protocol.intros(2) [OF protocol.intros(1)], of svc] assms
    by (auto simp: send_error_open)
  have exc: "\<exists>cfg. ended svc cfg (transcript (handle_exception (Inl x, w)))" for x
  proof -
    have "protocol svc cfg 0 (transcript w)" for cfg using assms(2) protocol.intros(1) by simp
    with handle_exception_protocol [OF assms(1), where r = "Inl x" and svc = svc] show ?thesis by auto
  qed
  obtain r fs1 w1 where c: "receive_config fs w = (r, fs1, w1)" by (cases "receive_config fs w") auto
  have r: "(\<exists>x. r = Inl x \<and> w1 = w) \<or> (r = Inr None \<and> (\<exists>n. w1 = send_error n w)) \<or> (\<exists>cfg. r = Inr (Some cfg) \<and> w1 = w)"
    using c by (auto simp: receive_config_def split: list.splits frame.splits if_splits decoded.splits option.splits)
  show ?thesis
  proof (cases r)
    case (Inl x)
    with r c exc show ?thesis by (auto simp: handle_session_def)
  next
    case (Inr co)
    show ?thesis
    proof (cases co)
      case None
      with Inr r c err show ?thesis by (auto simp: handle_session_def)
    next
      case (Some cfg)
      with Inr r have w1: "w1 = w" by auto
      obtain q w2 where l: "session_loop svc cfg (splitter_init 2 (split_granularity cfg)) 0 fs1 w = (q, w2)" by fastforce
      have "protocol svc cfg 0 (transcript w)" using assms(2) protocol.intros(1) by simp
      from session_loop_protocol [OF assms(1) this l] handle_exception_protocol [where w = w2 and r = q and svc = svc and cfg = cfg]
      have "ended svc cfg (transcript (handle_exception (q, w2)))" by auto
      with err l c Inr Some w1 show ?thesis by (auto simp: handle_session_def)
    qed
  qed
qed

section \<open>Properties\<close>

text \<open>C4: A session that stays within the limits sends for every sentence of its whole text, in order, the start, the audio and the end of that sentence, and then the number of sentences; how the text was cut into messages makes no difference, and a connection lost after some messages only cuts this short.\<close>

theorem speech_session_transcript:
  assumes "\<forall>t. request_ok svc cfg t" and "\<forall>(n, t) \<in> set ts. n \<le> 128 * 1024" and "n \<le> 4 * 1024 * 1024"
    and "validate_streaming_constraints c = Some cfg" and "\<not> model_refused svc cfg"
    and "length (concat (map snd ts)) \<le> max_buffer_size"
  shows "transcript (handle_session svc (session_frames n c ts) w) = transcript w @ delivered (sends_left w)
     (let ss = sentences_of 2 (split_granularity cfg) (concat (map snd ts))
      in brackets svc cfg 0 ss @ [Session_done (length ss)])"
  by (rule handle_session_delivered, subst handle_session_open) (use assms in simp_all)

text \<open>Whatever the client sends and whatever the speech service does, the messages of a session are errors and the complete messages of sentences numbered from 0 without gaps, closed at most once by their number; a lost connection cuts this short.\<close>

theorem session_follows_protocol:
  assumes "transcript w = []"
  shows "\<exists>cfg ms. ended svc cfg ms \<and> transcript (handle_session svc fs w) = delivered (sends_left w) ms"
proof -
  obtain cfg where "ended svc cfg (transcript (handle_session svc fs (w\<lparr>sends_left := None\<rparr>)))"
    using handle_session_protocol [of "w\<lparr>sends_left := None\<rparr>" svc fs] assms by auto
  with handle_session_delivered [of svc fs w "transcript (handle_session svc fs (w\<lparr>sends_left := None\<rparr>))"] assms
  show ?thesis by (intro exI [of _ cfg] exI) simp
qed

text \<open>
  A client that goes away during a stream has its request aborted; it is not when the lost connection
  shows as another exception, or when the stream had already ended.
\<close>

lemma send_chunks_lost:
  assumes "sends_left w = Some k" and "k < length ns"
  shows "\<exists>n w1. send_chunks ns b w = ((Some (lost_as w), n), w1) \<and> aborted w1 = aborted w \<and> sends_left w1 = Some 0
     \<and> lost_as w1 = lost_as w"
  using assms
proof (induction ns arbitrary: b w k)
  case Nil
  then show ?case by simp
next
  case (Cons a ns)
  show ?case
  proof (cases k)
    case 0
    with Cons.prems show ?thesis by (simp add: send_def)
  next
    case (Suc j)
    with Cons.prems have s: "send (Audio_bytes a) w = (Inr (), w\<lparr>transcript := transcript w @ [Audio_bytes a], sends_left := Some j\<rparr>)"
      by (simp add: send_def)
    show ?thesis using Cons.IH [of "w\<lparr>transcript := transcript w @ [Audio_bytes a], sends_left := Some j\<rparr>" j "b + a"] Suc Cons.prems
      by (simp add: s)
  qed
qed

lemma lost_stream_is_aborted:
  assumes "stream_audio cfg" and "request_ok svc cfg t" and "prepare_speech svc cfg i t = Some (rid, ns, fails)"
    and "sends_left w = Some (Suc k)" and "k < length ns"
  shows "fst (generate_and_send svc cfg t i w) = (if lost_as w = Disconnect then Inl Disconnect else Inr ())"
    and "aborted (snd (generate_and_send svc cfg t i w)) = aborted w @ (if lost_as w = Disconnect then [rid] else [])"
proof -
  let ?w = "w\<lparr>transcript := transcript w @ [start_msg cfg t i], sends_left := Some k\<rparr>"
  have s: "send (start_msg cfg t i) w = (Inr (), ?w)" using assms(4) by (simp add: send_def)
  obtain n w1 where c: "send_chunks ns 0 ?w = ((Some (lost_as w), n), w1)" "aborted w1 = aborted w" "sends_left w1 = Some 0"
    using send_chunks_lost [of ?w k ns 0] assms(5) by auto
  show "fst (generate_and_send svc cfg t i w) = (if lost_as w = Disconnect then Inl Disconnect else Inr ())"
    and "aborted (snd (generate_and_send svc cfg t i w)) = aborted w @ (if lost_as w = Disconnect then [rid] else [])"
    using assms(1,2,3) s c
    by (cases "lost_as w"; simp add: generate_and_send_def generate_audio_def close_sentence_def Let_def send_def send_error_def)+
qed


subsection \<open>A concrete session\<close>

definition ex_service :: speech_service where
  "ex_service = \<lparr>check_model = None, request_ok = (\<lambda>_ _. True),
     prepare_speech = (\<lambda>_ i t. Some (show_nat i, [length t, 1], i = 1)), audio_bytes = (\<lambda>_ _ _. None)\<rparr>"

definition ex_session :: session_config where
  "ex_session = \<lparr>cfg_model = None, response_format = ''pcm'', speed = None, stream_audio = True, split_granularity = SENTENCE\<rparr>"

definition ex_world :: world where
  "ex_world = \<lparr>transcript = [], sends_left = Some 6, lost_as = Disconnect, aborted = []\<rparr>"

theorem speech_session_transcript_witness:
  "transcript (handle_session ex_service (session_frames 10 ex_session [(5, ascii ''Hi''), (9, ascii ''. You'')]) ex_world)
     = transcript ex_world @ delivered (sends_left ex_world)
     (let ss = sentences_of 2 (split_granularity (ex_session\<lparr>speed := Some 1\<rparr>)) (concat (map snd [(5 :: nat, ascii ''Hi''), (9, ascii ''. You'')]))
      in brackets ex_service (ex_session\<lparr>speed := Some 1\<rparr>) 0 ss @ [Session_done (length ss)])"
  by (rule speech_session_transcript)
    (simp_all add: ex_service_def ex_session_def validate_streaming_constraints_def model_refused_def ascii_def max_buffer_size_def)

theorem session_follows_protocol_witness:
  "\<exists>cfg ms. ended ex_service cfg ms
     \<and> transcript (handle_session ex_service [Text_frame 2 Not_json] ex_world) = delivered (sends_left ex_world) ms"
  by (rule session_follows_protocol) (simp add: ex_world_def)

end
