(* ===== verification/Diffusion_Stage.thy ===== *)
theory Diffusion_Stage
  imports Prelude
begin

text \<open>
  A diffusion stage as the orchestrator sees it: \<open>StageDiffusionClient\<close>
  (\<open>diffusion/stage_diffusion_client.py\<close>) talks over two first-in-first-out sockets to
  \<open>StageDiffusionProc\<close> (\<open>diffusion/stage_diffusion_proc.py\<close>), a process of its own that runs the
  engine. The engine, the encoder of messages and what a control call returns are arguments. Starting the
  process and its handshake, the thread pool, the arguments of control calls and the texts of logs are
  left out, and of an output the two fields that only stages of other kinds set.
\<close>

section \<open>Outputs\<close>

record 'x omni_output =
  d_request_id :: string
  d_finished :: bool
  d_error :: "string option"
  d_final_output_type :: string
  d_images :: "'x list"
  d_prompt :: "'x option"
  d_latents :: "'x option"
  d_trajectory_latents :: "'x option"
  d_trajectory_timesteps :: "'x option"
  d_trajectory_log_probs :: "'x option"
  d_trajectory_decoded :: "'x option"
  d_metrics :: "(string \<times> 'x) list"
  d_multimodal_output :: "(string \<times> 'x) list"
  d_custom_output :: "(string \<times> 'x) list"
  d_stage_durations :: "(string \<times> rat) list"
  d_peak_memory_mb :: rat

definition blank_output :: "string \<Rightarrow> string \<Rightarrow> 'x omni_output" where
  "blank_output r kind = \<lparr>d_request_id = r, d_finished = True, d_error = None, d_final_output_type = kind, d_images = [],
     d_prompt = None, d_latents = None, d_trajectory_latents = None, d_trajectory_timesteps = None,
     d_trajectory_log_probs = None, d_trajectory_decoded = None, d_metrics = [], d_multimodal_output = [],
     d_custom_output = [], d_stage_durations = [], d_peak_memory_mb = 0\<rparr>"

definition from_error :: "string \<Rightarrow> string \<Rightarrow> 'x omni_output" where
  "from_error r e = (blank_output r ''text'')\<lparr>d_error := Some e\<rparr>"

text \<open>\<open>dict.update\<close>, and the value to keep where only \<open>None\<close> is replaced.\<close>

definition dict_update :: "(string \<times> 'v) list \<Rightarrow> (string \<times> 'v) list \<Rightarrow> (string \<times> 'v) list" where
  "dict_update d new = foldl (\<lambda>d (k, v). dict_set k v d) d new"

definition or_new :: "'a option \<Rightarrow> 'a option \<Rightarrow> 'a option" where
  "or_new old new = (case old of None \<Rightarrow> new | Some x \<Rightarrow> Some x)"

definition merge_result :: "'x omni_output \<Rightarrow> 'x omni_output \<Rightarrow> 'x omni_output" where
  "merge_result acc r = acc\<lparr>
     d_images := d_images acc @ d_images r,
     d_multimodal_output := dict_update (d_multimodal_output acc) (d_multimodal_output r),
     d_metrics := dict_update (d_metrics acc) (d_metrics r),
     d_stage_durations := dict_update (d_stage_durations acc) (d_stage_durations r),
     d_custom_output := dict_update (d_custom_output acc) (d_custom_output r),
     d_peak_memory_mb := max (d_peak_memory_mb acc) (d_peak_memory_mb r),
     d_latents := or_new (d_latents acc) (d_latents r),
     d_trajectory_latents := or_new (d_trajectory_latents acc) (d_trajectory_latents r),
     d_trajectory_timesteps := or_new (d_trajectory_timesteps acc) (d_trajectory_timesteps r),
     d_trajectory_log_probs := or_new (d_trajectory_log_probs acc) (d_trajectory_log_probs r),
     d_trajectory_decoded := or_new (d_trajectory_decoded acc) (d_trajectory_decoded r),
     d_final_output_type := (if d_final_output_type r \<noteq> ''image'' then d_final_output_type r else d_final_output_type acc)\<rparr>"

text \<open>The results of \<open>engine.step\<close>, for one prompt and for a batch of prompts.\<close>

definition process_request :: "string \<Rightarrow> 'x omni_output list \<Rightarrow> 'x omni_output res" where
  "process_request r results =
     (case results of [] \<Rightarrow> Inl IndexError
      | out # _ \<Rightarrow> Inr (if d_request_id out = [] then out\<lparr>d_request_id := r\<rparr> else out))"

definition process_batch_request :: "string \<Rightarrow> 'x list \<Rightarrow> 'x omni_output list \<Rightarrow> 'x omni_output" where
  "process_batch_request r prompts results =
     foldl merge_result ((blank_output r ''image'')\<lparr>d_prompt := (if length prompts = 1 then Some (hd prompts) else None)\<rparr>) results"

section \<open>Messages\<close>

text \<open>A generator is known by its initial seed; \<open>None\<close> is one that has no such method.\<close>

datatype seed_generator = Generator "int option" | Generators "int option list"

record 'x diffusion_params =
  dp_seed :: "int option"
  dp_generator :: "seed_generator option"
  dp_fields :: "(string \<times> 'x) list"

definition initial_seed :: "seed_generator \<Rightarrow> int option" where
  "initial_seed g = (case g of Generator s \<Rightarrow> s | Generators [] \<Rightarrow> None | Generators (s # _) \<Rightarrow> s)"

definition sampling_params_to_dict :: "'x diffusion_params \<Rightarrow> 'x diffusion_params" where
  "sampling_params_to_dict p = p\<lparr>
     dp_fields := filter (\<lambda>(k, v). k \<noteq> ''generator'' \<and> k \<noteq> ''modules'') (dp_fields p), dp_generator := None,
     dp_seed := (case dp_seed p of Some s \<Rightarrow> Some s
                 | None \<Rightarrow> (case dp_generator p of None \<Rightarrow> None | Some g \<Rightarrow> initial_seed g))\<rparr>"

record 'x submission =
  sub_id :: string
  sub_batch :: bool
  sub_prompts :: "'x list"
  sub_params :: "'x diffusion_params"
  sub_senders :: "'x option"

datatype 'x stage_msg =
    Msg_submit "'x submission"
  | Msg_abort "string list"
  | Msg_rpc string string
  | Msg_shutdown
  | Msg_other

datatype 'x stage_resp =
    Resp_result "'x omni_output"
  | Resp_rpc string 'x
  | Resp_error "string option" "string option" string
  | Resp_dead
  | Resp_other

datatype 'x rpc_value = Rpc_ok 'x | Rpc_error string

section \<open>The client\<close>

record 'x dclient =
  output_queue :: "'x omni_output list"
  rpc_results :: "string \<rightharpoonup> 'x rpc_value"
  pending_rpcs :: "string set"
  batch_tasks :: "'x submission list"
  shutting_down :: bool
  engine_dead :: bool
  owns_process :: bool

definition dclient_init :: "bool \<Rightarrow> 'x dclient" where
  "dclient_init owns = \<lparr>output_queue = [], rpc_results = Map.empty, pending_rpcs = {}, batch_tasks = [],
     shutting_down = False, engine_dead = False, owns_process = owns\<rparr>"

abbreviation put_output :: "'x omni_output \<Rightarrow> 'x dclient \<Rightarrow> 'x dclient" where
  "put_output out c \<equiv> c\<lparr>output_queue := output_queue c @ [out]\<rparr>"

definition handle_response :: "'x stage_resp \<Rightarrow> 'x dclient \<Rightarrow> 'x dclient" where
  "handle_response resp c =
     (case resp of
        Resp_result out \<Rightarrow> put_output out c
      | Resp_rpc i v \<Rightarrow> c\<lparr>rpc_results := (rpc_results c)(i \<mapsto> Rpc_ok v)\<rparr>
      | Resp_error req rpc e \<Rightarrow>
          (let c1 = (case rpc of
                       Some i \<Rightarrow> (if i \<in> pending_rpcs c then c\<lparr>rpc_results := (rpc_results c)(i \<mapsto> Rpc_error e)\<rparr> else c)
                     | None \<Rightarrow> c)
           in (case req of Some r \<Rightarrow> put_output (from_error r e) c1 | None \<Rightarrow> c1))
      | Resp_dead \<Rightarrow> c\<lparr>engine_dead := True\<rparr>
      | Resp_other \<Rightarrow> c)"

text \<open>Everything that has arrived, up to the sentinel of a dead process; the rest stays in the socket.\<close>

fun drain_responses :: "'x stage_resp list \<Rightarrow> 'x dclient \<Rightarrow> 'x dclient \<times> 'x stage_resp list" where
  "drain_responses [] c = (c, [])"
| "drain_responses (resp # rs) c =
     (if resp = Resp_dead then (handle_response resp c, rs) else drain_responses rs (handle_response resp c))"

text \<open>\<open>enc\<close> is the exception of encoding a message, if there is one.\<close>

definition add_request_async ::
  "('x stage_msg \<Rightarrow> py_error option) \<Rightarrow> 'x submission \<Rightarrow> 'x dclient \<Rightarrow> 'x stage_msg list res" where
  "add_request_async enc sub c =
     (if engine_dead c then Inl EngineDeadError
      else (let msg = Msg_submit (sub\<lparr>sub_params := sampling_params_to_dict (sub_params sub)\<rparr>)
            in (case enc msg of Some e \<Rightarrow> Inl e | None \<Rightarrow> Inr [msg])))"

definition add_batch_request_async :: "'x submission \<Rightarrow> 'x dclient \<Rightarrow> 'x dclient \<times> unit res" where
  "add_batch_request_async sub c =
     (if engine_dead c then (c, Inl EngineDeadError) else (c\<lparr>batch_tasks := batch_tasks c @ [sub]\<rparr>, Inr ()))"

text \<open>The task of a batch. \<open>explain\<close> is the text of an exception.\<close>

definition run_batch ::
  "('x stage_msg \<Rightarrow> py_error option) \<Rightarrow> (py_error \<Rightarrow> string) \<Rightarrow> 'x dclient \<Rightarrow> 'x dclient \<times> 'x stage_msg list" where
  "run_batch enc explain c =
     (case batch_tasks c of
        [] \<Rightarrow> (c, [])
      | sub # rest \<Rightarrow>
          (let msg = Msg_submit (sub\<lparr>sub_params := sampling_params_to_dict (sub_params sub)\<rparr>);
               c1 = c\<lparr>batch_tasks := rest\<rparr>
           in (case enc msg of Some e \<Rightarrow> (put_output (from_error (sub_id sub) (explain e)) c1, []) | None \<Rightarrow> (c1, [msg]))))"

text \<open>
  Polling for an output. \<open>chan\<close> has arrived at the first look, \<open>late\<close> before the second one; what
  stays in the socket is returned.
\<close>

definition get_diffusion_output_nowait ::
  "bool \<Rightarrow> int option \<Rightarrow> 'x stage_resp list \<Rightarrow> 'x stage_resp list \<Rightarrow> 'x dclient
     \<Rightarrow> 'x dclient \<times> 'x stage_resp list \<times> 'x omni_output option res" where
  "get_diffusion_output_nowait alive exitcode chan late c =
     (case drain_responses chan c of (c1, ch1) \<Rightarrow>
       (case output_queue c1 of
          out # outs \<Rightarrow> (c1\<lparr>output_queue := outs\<rparr>, ch1 @ late, Inr (Some out))
        | [] \<Rightarrow>
            (if engine_dead c1 then (c1, ch1 @ late, Inl EngineDeadError)
             else if \<not> shutting_down c1 \<and> owns_process c1 \<and> \<not> alive
             then (case drain_responses (ch1 @ late) (c1\<lparr>engine_dead := True\<rparr>) of (c2, ch2) \<Rightarrow>
                    (case output_queue c2 of
                       out # outs \<Rightarrow> (c2\<lparr>output_queue := outs\<rparr>, ch2, Inr (Some out))
                     | [] \<Rightarrow>
                         (if (case exitcode of Some n \<Rightarrow> n > 128 | None \<Rightarrow> False)
                          then (c2\<lparr>shutting_down := True\<rparr>, ch2, Inr None)
                          else (c2, ch2, Inl EngineDeadError))))
             else (c1, ch1 @ late, Inr None))))"

text \<open>The thread that watches the process.\<close>

definition proc_monitor :: "'x dclient \<Rightarrow> 'x dclient" where
  "proc_monitor c = (if shutting_down c \<or> engine_dead c then c else c\<lparr>engine_dead := True\<rparr>)"

definition check_health :: "bool option \<Rightarrow> 'x dclient \<Rightarrow> 'x dclient \<times> unit res" where
  "check_health alive c =
     (if engine_dead c then (c, Inl EngineDeadError)
      else if alive = Some False then (c\<lparr>engine_dead := True\<rparr>, Inl EngineDeadError) else (c, Inr ()))"

text \<open>
  A control call: the request, then one round of waiting for its answer. \<open>alive\<close> is \<open>None\<close> without a
  process object, \<open>expired\<close> whether the deadline has passed; \<open>Inr None\<close> means waiting goes on.
\<close>

definition rpc_send :: "string \<Rightarrow> string \<Rightarrow> 'x dclient \<Rightarrow> ('x dclient \<times> 'x stage_msg list) res" where
  "rpc_send i name c =
     (if engine_dead c then Inl EngineDeadError else Inr (c\<lparr>pending_rpcs := insert i (pending_rpcs c)\<rparr>, [Msg_rpc i name]))"

definition rpc_wait ::
  "string \<Rightarrow> bool option \<Rightarrow> bool \<Rightarrow> 'x stage_resp list \<Rightarrow> 'x dclient \<Rightarrow> 'x dclient \<times> 'x stage_resp list \<times> 'x rpc_value option res" where
  "rpc_wait i alive expired chan c =
     (case drain_responses chan c of (c1, ch1) \<Rightarrow>
        (let c2 = c1\<lparr>pending_rpcs := pending_rpcs c1 - {i}\<rparr>
         in (case rpc_results c1 i of
               Some v \<Rightarrow> (c2\<lparr>rpc_results := (rpc_results c1)(i := None)\<rparr>, ch1, Inr (Some v))
             | None \<Rightarrow>
                 (if engine_dead c1 \<or> (owns_process c1 \<and> alive = Some False)
                  then (c2\<lparr>engine_dead := True\<rparr>, ch1, if alive = None then Inl AttributeError else Inl EngineDeadError)
                  else if expired then (c2, ch1, Inl OSError)
                  else (c1, ch1, Inr None)))))"

definition shutdown_client :: "'x dclient \<Rightarrow> 'x dclient \<times> 'x stage_msg list" where
  "shutdown_client c = (c\<lparr>shutting_down := True\<rparr>, [Msg_shutdown])"

section \<open>The process\<close>

text \<open>
  A task serves one submission. It is live until it has ended; a cancelled one ends without an answer.
  \<open>proc_tasks\<close> is the dictionary of the message loop, by request id.
\<close>

record 'x stage_task =
  t_no :: nat
  t_sub :: "'x submission"
  t_started :: bool
  t_cancelled :: bool

record 'x dproc =
  proc_tasks :: "(string \<times> nat) list"
  proc_live :: "'x stage_task list"
  proc_next :: nat
  proc_aborted :: "string list"
  proc_running :: bool

definition dproc_init :: "'x dproc" where
  "dproc_init = \<lparr>proc_tasks = [], proc_live = [], proc_next = 0, proc_aborted = [], proc_running = True\<rparr>"

definition cancel_task :: "nat \<Rightarrow> 'x stage_task list \<Rightarrow> 'x stage_task list" where
  "cancel_task n = map (\<lambda>t. if t_no t = n then t\<lparr>t_cancelled := True\<rparr> else t)"

definition abort_task :: "string \<Rightarrow> 'x dproc \<Rightarrow> 'x dproc" where
  "abort_task r p =
     (let p1 = (case map_of (proc_tasks p) r of
                  None \<Rightarrow> p
                | Some n \<Rightarrow> p\<lparr>proc_tasks := dict_pop r (proc_tasks p), proc_live := cancel_task n (proc_live p)\<rparr>)
      in p1\<lparr>proc_aborted := proc_aborted p1 @ [r]\<rparr>)"

definition end_loop :: "'x dproc \<Rightarrow> 'x dproc" where
  "end_loop p = p\<lparr>proc_running := False, proc_live := [], proc_tasks := []\<rparr>"

text \<open>One message of the loop. \<open>rpc\<close> is what a control call returns, or the text of its exception.\<close>

definition receive_msg ::
  "(string \<Rightarrow> string + 'x) \<Rightarrow> 'x stage_msg \<Rightarrow> 'x dproc \<Rightarrow> 'x dproc \<times> 'x stage_resp list" where
  "receive_msg rpc msg p =
     (case msg of
        Msg_submit sub \<Rightarrow>
          (p\<lparr>proc_tasks := dict_set (sub_id sub) (proc_next p) (proc_tasks p), proc_next := proc_next p + 1,
             proc_live := proc_live p @ [\<lparr>t_no = proc_next p, t_sub = sub, t_started = False, t_cancelled = False\<rparr>]\<rparr>, [])
      | Msg_abort ids \<Rightarrow> (fold abort_task ids p, [])
      | Msg_rpc i name \<Rightarrow> (p, [case rpc name of Inr v \<Rightarrow> Resp_rpc i v | Inl e \<Rightarrow> Resp_error None (Some i) e])
      | Msg_shutdown \<Rightarrow> (end_loop p, [])
      | Msg_other \<Rightarrow> (p, []))"

text \<open>An exception in the loop itself, for example in decoding a message.\<close>

definition fail_loop :: "'x dproc \<Rightarrow> 'x dproc \<times> 'x stage_resp list" where
  "fail_loop p = (end_loop p, [Resp_dead])"

definition start_task :: "nat \<Rightarrow> 'x dproc \<Rightarrow> 'x dproc" where
  "start_task n p = p\<lparr>proc_live := map (\<lambda>t. if t_no t = n \<and> \<not> t_cancelled t then t\<lparr>t_started := True\<rparr> else t) (proc_live p)\<rparr>"

text \<open>How \<open>engine.step\<close> ends for a task, and what the task then sends.\<close>

datatype 'x engine_outcome = Stepped "'x omni_output list" | Step_aborted | Step_failed string

definition dispatch_request :: "'x submission \<Rightarrow> 'x engine_outcome \<Rightarrow> 'x stage_resp list" where
  "dispatch_request sub outcome =
     (case outcome of
        Step_aborted \<Rightarrow> []
      | Step_failed e \<Rightarrow> [Resp_error (Some (sub_id sub)) None e]
      | Stepped results \<Rightarrow>
          (if sub_batch sub then [Resp_result (process_batch_request (sub_id sub) (sub_prompts sub) results)]
           else (case process_request (sub_id sub) results of
                   Inr out \<Rightarrow> [Resp_result out]
                 | Inl e \<Rightarrow> [Resp_error (Some (sub_id sub)) None ''list index out of range''])))"

text \<open>A task ends: a cancelled one that never ran does not even remove its id.\<close>

definition end_task :: "nat \<Rightarrow> 'x engine_outcome \<Rightarrow> 'x dproc \<Rightarrow> 'x dproc \<times> 'x stage_resp list" where
  "end_task n outcome p =
     (case find (\<lambda>t. t_no t = n) (proc_live p) of
        None \<Rightarrow> (p, [])
      | Some t \<Rightarrow>
          (if \<not> t_started t \<and> \<not> t_cancelled t then (p, [])
           else (p\<lparr>proc_live := filter (\<lambda>t. t_no t \<noteq> n) (proc_live p),
                   proc_tasks := (if t_started t then dict_pop (sub_id (t_sub t)) (proc_tasks p) else proc_tasks p)\<rparr>,
                 if t_cancelled t then [] else dispatch_request (t_sub t) outcome)))"

section \<open>Client and process together\<close>

text \<open>
  \<open>accepted\<close> logs the submissions the client took, \<open>polled\<close> what polling returned. \<open>exit_code\<close> is set
  once the process has ended.
\<close>

record 'x stage =
  client :: "'x dclient"
  process :: "'x dproc"
  requests :: "'x stage_msg list"
  responses :: "'x stage_resp list"
  proc_alive :: bool
  exit_code :: "int option"
  accepted :: "string list"
  polled :: "'x omni_output option res list"

definition stage_init :: "bool \<Rightarrow> 'x stage" where
  "stage_init owns = \<lparr>client = dclient_init owns, process = dproc_init, requests = [], responses = [], proc_alive = True,
     exit_code = None, accepted = [], polled = []\<rparr>"

datatype 'x stage_event =
    Submit "'x submission"
  | Submit_batch "'x submission"
  | Run_batch
  | Abort_requests "string list"
  | Call_rpc string string
  | Wait_rpc string bool
  | Poll nat
  | Check_health
  | Monitor
  | Shutdown_client
  | Receive
  | Start_task nat
  | End_task nat "'x engine_outcome"
  | Fail_loop
  | Exit_process int

definition poll_stage :: "nat \<Rightarrow> 'x stage \<Rightarrow> 'x stage" where
  "poll_stage k s =
     (case get_diffusion_output_nowait (proc_alive s) (exit_code s) (take k (responses s)) (drop k (responses s)) (client s) of
        (c, ch, x) \<Rightarrow> s\<lparr>client := c, responses := ch, polled := polled s @ [x]\<rparr>)"

abbreviation on_process :: "'x dproc \<times> 'x stage_resp list \<Rightarrow> 'x stage \<Rightarrow> 'x stage" where
  "on_process px s \<equiv> s\<lparr>process := fst px, responses := responses s @ snd px\<rparr>"

definition stage_step ::
  "('x stage_msg \<Rightarrow> py_error option) \<Rightarrow> (py_error \<Rightarrow> string) \<Rightarrow> (string \<Rightarrow> string + 'x) \<Rightarrow> 'x stage_event \<Rightarrow> 'x stage \<Rightarrow> 'x stage" where
  "stage_step enc explain rpc e s =
     (case e of
        Submit sub \<Rightarrow>
          (case add_request_async enc (sub\<lparr>sub_batch := False\<rparr>) (client s) of
             Inl _ \<Rightarrow> s
           | Inr msgs \<Rightarrow> s\<lparr>requests := requests s @ msgs, accepted := accepted s @ [sub_id sub]\<rparr>)
      | Submit_batch sub \<Rightarrow>
          (case add_batch_request_async (sub\<lparr>sub_batch := True\<rparr>) (client s) of
             (c, Inl _) \<Rightarrow> s\<lparr>client := c\<rparr>
           | (c, Inr _) \<Rightarrow> s\<lparr>client := c, accepted := accepted s @ [sub_id sub]\<rparr>)
      | Run_batch \<Rightarrow> (case run_batch enc explain (client s) of (c, msgs) \<Rightarrow> s\<lparr>client := c, requests := requests s @ msgs\<rparr>)
      | Abort_requests ids \<Rightarrow> s\<lparr>requests := requests s @ [Msg_abort ids]\<rparr>
      | Call_rpc i name \<Rightarrow>
          (case rpc_send i name (client s) of Inl _ \<Rightarrow> s | Inr (c, msgs) \<Rightarrow> s\<lparr>client := c, requests := requests s @ msgs\<rparr>)
      | Wait_rpc i expired \<Rightarrow>
          (case rpc_wait i (if owns_process (client s) then Some (proc_alive s) else None) expired (responses s) (client s) of
             (c, ch, _) \<Rightarrow> s\<lparr>client := c, responses := ch\<rparr>)
      | Poll k \<Rightarrow> poll_stage k s
      | Check_health \<Rightarrow> s\<lparr>client := fst (check_health (if owns_process (client s) then Some (proc_alive s) else None) (client s))\<rparr>
      | Monitor \<Rightarrow> (if proc_alive s \<or> \<not> owns_process (client s) then s else s\<lparr>client := proc_monitor (client s)\<rparr>)
      | Shutdown_client \<Rightarrow> (case shutdown_client (client s) of (c, msgs) \<Rightarrow> s\<lparr>client := c, requests := requests s @ msgs\<rparr>)
      | Receive \<Rightarrow>
          (case requests s of
             [] \<Rightarrow> s
           | msg # msgs \<Rightarrow> (if proc_running (process s) then on_process (receive_msg rpc msg (process s)) (s\<lparr>requests := msgs\<rparr>) else s))
      | Start_task n \<Rightarrow> s\<lparr>process := start_task n (process s)\<rparr>
      | End_task n outcome \<Rightarrow> on_process (end_task n outcome (process s)) s
      | Fail_loop \<Rightarrow> (if proc_running (process s) then on_process (fail_loop (process s)) s else s)
      | Exit_process n \<Rightarrow> (if proc_alive s then s\<lparr>process := end_loop (process s), proc_alive := False, exit_code := Some n\<rparr> else s))"

definition stage_run ::
  "('x stage_msg \<Rightarrow> py_error option) \<Rightarrow> (py_error \<Rightarrow> string) \<Rightarrow> (string \<Rightarrow> string + 'x) \<Rightarrow> 'x stage_event list \<Rightarrow> 'x stage \<Rightarrow> 'x stage" where
  "stage_run enc explain rpc es s = fold (stage_step enc explain rpc) es s"

end
