(* ===== verification/Diffusion_Stage_Properties.thy ===== *)
theory Diffusion_Stage_Properties
  imports Diffusion_Stage
begin

text \<open>
  What a diffusion stage owes its caller: every submission is answered at most once, and exactly once
  unless it is aborted or the process ends; an abort that was received leaves nothing to answer; and
  polling the stage of a dead process hands out what had arrived and then raises.
\<close>

section \<open>Counting\<close>

definition for_id :: "string \<Rightarrow> 'x submission \<Rightarrow> bool" where
  "for_id r sub \<longleftrightarrow> sub_id sub = r"

fun msg_subs :: "'x stage_msg \<Rightarrow> 'x submission list" where
  "msg_subs (Msg_submit sub) = [sub]"
| "msg_subs _ = []"

fun resp_ids :: "'x stage_resp \<Rightarrow> string list" where
  "resp_ids (Resp_result out) = [d_request_id out]"
| "resp_ids (Resp_error (Some r) _ _) = [r]"
| "resp_ids _ = []"

fun poll_ids :: "'x omni_output option res \<Rightarrow> string list" where
  "poll_ids (Inr (Some out)) = [d_request_id out]"
| "poll_ids _ = []"

text \<open>The submissions not answered yet, and the ids of the answers, wherever they are.\<close>

definition waiting_ids :: "'x stage \<Rightarrow> string list" where
  "waiting_ids s = map sub_id (batch_tasks (client s)) @ map sub_id (concat (map msg_subs (requests s)))
     @ map (\<lambda>t. sub_id (t_sub t)) (proc_live (process s))"

definition answered_ids :: "'x stage \<Rightarrow> string list" where
  "answered_ids s = concat (map poll_ids (polled s)) @ map d_request_id (output_queue (client s)) @ concat (map resp_ids (responses s))"

definition abort_asked :: "string \<Rightarrow> 'x stage \<Rightarrow> bool" where
  "abort_asked r s \<longleftrightarrow> r \<in> set (proc_aborted (process s)) \<or> (\<exists>ids. Msg_abort ids \<in> set (requests s) \<and> r \<in> set ids)"

abbreviation tally :: "string \<Rightarrow> string list \<Rightarrow> nat" where
  "tally r xs \<equiv> count_list xs r"

text \<open>
  What the code relies on: the engine gives the output for a single prompt its request's id, or none, and
  reports as aborted only what was aborted. The outputs for a batch have ids of their own (\<open>request_id-i\<close>).
\<close>

definition engine_contract :: "'x stage_event \<Rightarrow> 'x stage \<Rightarrow> bool" where
  "engine_contract e s = (case e of
       End_task n outcome \<Rightarrow>
         (\<forall>t \<in> set (proc_live (process s)). t_no t = n \<longrightarrow>
            (case outcome of
               Stepped (out # _) \<Rightarrow> sub_batch (t_sub t) \<or> d_request_id out \<in> {[], sub_id (t_sub t)}
             | Step_aborted \<Rightarrow> sub_id (t_sub t) \<in> set (proc_aborted (process s))
             | _ \<Rightarrow> True))
     | _ \<Rightarrow> True)"

fun stage_events_ok ::
  "('x stage_event \<Rightarrow> 'x stage \<Rightarrow> bool) \<Rightarrow> ('x stage_msg \<Rightarrow> py_error option) \<Rightarrow> (py_error \<Rightarrow> string) \<Rightarrow> (string \<Rightarrow> string + 'x)
     \<Rightarrow> 'x stage_event list \<Rightarrow> 'x stage \<Rightarrow> bool" where
  "stage_events_ok P enc explain rpc [] s = True"
| "stage_events_ok P enc explain rpc (e # es) s = (P e s \<and> stage_events_ok P enc explain rpc es (stage_step enc explain rpc e s))"

section \<open>The process\<close>

definition process_ok :: "'x dproc \<Rightarrow> bool" where
  "process_ok p \<longleftrightarrow> distinct (map t_no (proc_live p)) \<and> (\<forall>t \<in> set (proc_live p). t_no t < proc_next p)
     \<and> (\<forall>t \<in> set (proc_live p). t_cancelled t \<longrightarrow> sub_id (t_sub t) \<in> set (proc_aborted p))
     \<and> (\<forall>r n. map_of (proc_tasks p) r = Some n \<longrightarrow> n < proc_next p \<and> (\<forall>t \<in> set (proc_live p). t_no t = n \<longrightarrow> sub_id (t_sub t) = r))
     \<and> (proc_running p \<or> proc_live p = [])"

lemma process_okD:
  assumes "process_ok p"
  shows "distinct (map t_no (proc_live p))" and "t \<in> set (proc_live p) \<Longrightarrow> t_no t < proc_next p"
    and "t \<in> set (proc_live p) \<Longrightarrow> t_cancelled t \<Longrightarrow> sub_id (t_sub t) \<in> set (proc_aborted p)"
    and "map_of (proc_tasks p) r = Some n \<Longrightarrow> n < proc_next p"
    and "map_of (proc_tasks p) r = Some n \<Longrightarrow> t \<in> set (proc_live p) \<Longrightarrow> t_no t = n \<Longrightarrow> sub_id (t_sub t) = r"
    and "\<not> proc_running p \<Longrightarrow> proc_live p = []"
  using assms by (simp_all add: process_ok_def)

lemma dproc_init_ok: "process_ok dproc_init"
  by (simp add: process_ok_def dproc_init_def)

lemma cancel_task_simps [simp]:
  "map t_no (cancel_task n ts) = map t_no ts"
  "map (\<lambda>t. sub_id (t_sub t)) (cancel_task n ts) = map (\<lambda>t. sub_id (t_sub t)) ts"
  by (induction ts) (simp_all add: cancel_task_def)

text \<open>Flags of live tasks may change, and ids may leave the dictionary.\<close>

lemma process_ok_flags:
  assumes "process_ok p" and "proc_live p' = map f (proc_live p)" and "\<And>t. t_no (f t) = t_no t \<and> t_sub (f t) = t_sub t"
    and "map_of (proc_tasks p') \<subseteq>\<^sub>m map_of (proc_tasks p)" and "proc_next p' = proc_next p" and "proc_running p' = proc_running p"
    and "\<And>t. t \<in> set (proc_live p) \<Longrightarrow> t_cancelled (f t) \<Longrightarrow> sub_id (t_sub t) \<in> set (proc_aborted p')"
  shows "process_ok p'"
proof -
  have m: "map_of (proc_tasks p) r = Some n" if "map_of (proc_tasks p') r = Some n" for r n
    using assms(4) that by (force simp: map_le_def dom_def)
  have "map t_no (proc_live p') = map t_no (proc_live p)" by (simp add: assms(2,3))
  moreover have *: "\<forall>t \<in> set (proc_live p'). t_no t < proc_next p' \<and> (t_cancelled t \<longrightarrow> sub_id (t_sub t) \<in> set (proc_aborted p'))"
    using process_okD(2) [OF assms(1)] assms(7) by (auto simp: assms(2,3,5))
  moreover have **: "n < proc_next p' \<and> (\<forall>t \<in> set (proc_live p'). t_no t = n \<longrightarrow> sub_id (t_sub t) = r)"
    if "map_of (proc_tasks p') r = Some n" for r n
    using process_okD(4,5) [OF assms(1) m [OF that]] by (auto simp: assms(2,3,5))
  ultimately have "distinct (map t_no (proc_live p'))" and "proc_running p' \<or> proc_live p' = []"
    using process_okD(1,6) [OF assms(1)] by (simp, auto simp: assms(2,6))
  with * ** show ?thesis by (simp add: process_ok_def)
qed

lemma abort_task_ok:
  assumes "process_ok p"
  shows "process_ok (abort_task r p)"
proof (cases "map_of (proc_tasks p) r")
  case None
  with assms show ?thesis by (simp add: abort_task_def process_ok_def)
next
  case (Some n)
  show ?thesis
  proof (rule process_ok_flags [OF assms, where f = "\<lambda>t. if t_no t = n then t\<lparr>t_cancelled := True\<rparr> else t"])
    show "map_of (proc_tasks (abort_task r p)) \<subseteq>\<^sub>m map_of (proc_tasks p)"
      using Some by (simp add: abort_task_def map_of_dict_pop map_le_def)
    show "sub_id (t_sub t) \<in> set (proc_aborted (abort_task r p))"
      if "t \<in> set (proc_live p)" "t_cancelled (if t_no t = n then t\<lparr>t_cancelled := True\<rparr> else t)" for t
      using that Some process_okD(3) [OF assms that(1)] process_okD(5) [OF assms Some that(1)]
      by (auto simp: abort_task_def split: if_splits)
  qed (use Some in \<open>simp_all add: abort_task_def cancel_task_def\<close>)
qed

lemma abort_one_live:
  "map (\<lambda>t. sub_id (t_sub t)) (proc_live (abort_task r p)) = map (\<lambda>t. sub_id (t_sub t)) (proc_live p)"
  "proc_running (abort_task r p) = proc_running p" "proc_next (abort_task r p) = proc_next p"
  "proc_aborted (abort_task r p) = proc_aborted p @ [r]"
  by (simp_all add: abort_task_def Let_def split: option.split)

lemma abort_all_live:
  "map (\<lambda>t. sub_id (t_sub t)) (proc_live (fold abort_task ids p)) = map (\<lambda>t. sub_id (t_sub t)) (proc_live p)"
  "proc_running (fold abort_task ids p) = proc_running p" "proc_next (fold abort_task ids p) = proc_next p"
  "proc_aborted (fold abort_task ids p) = proc_aborted p @ ids"
  by (induction ids arbitrary: p) (simp_all add: abort_one_live)

lemma abort_tasks_ok: "process_ok p \<Longrightarrow> process_ok (fold abort_task ids p)"
  by (induction ids arbitrary: p) (simp_all add: abort_task_ok)

lemma end_loop_ok: "process_ok (end_loop p)"
  by (simp add: process_ok_def end_loop_def)

lemma receive_msg_ok:
  assumes "process_ok p" and "proc_running p"
  shows "process_ok (fst (receive_msg rpc msg p))"
proof (cases msg)
  case (Msg_submit sub)
  with assms show ?thesis
    by (auto simp: receive_msg_def process_ok_def map_of_dict_set less_Suc_eq split: if_splits)
next
  case (Msg_abort ids)
  with assms abort_tasks_ok show ?thesis by (simp add: receive_msg_def)
qed (use assms end_loop_ok in \<open>simp_all add: receive_msg_def\<close>)

lemma start_task_ok:
  assumes "process_ok p"
  shows "process_ok (start_task n p)"
  by (rule process_ok_flags [OF assms, where f = "\<lambda>t. if t_no t = n \<and> \<not> t_cancelled t then t\<lparr>t_started := True\<rparr> else t"])
    (auto simp: start_task_def dest: process_okD(3) [OF assms] split: if_splits)

lemma start_task_live:
  "map (\<lambda>t. sub_id (t_sub t)) (proc_live (start_task n p)) = map (\<lambda>t. sub_id (t_sub t)) (proc_live p)"
  "proc_running (start_task n p) = proc_running p" "proc_aborted (start_task n p) = proc_aborted p"
  by (simp_all add: start_task_def)

lemma end_task_ok: "process_ok p \<Longrightarrow> process_ok (fst (end_task n outcome p))"
  by (auto simp: process_ok_def end_task_def map_of_dict_pop distinct_map_filter split: option.split if_splits)

section \<open>Polling moves answers, it neither loses nor repeats them\<close>

lemma handle_response_queue:
  "map d_request_id (output_queue (handle_response resp c)) = map d_request_id (output_queue c) @ resp_ids resp"
  "batch_tasks (handle_response resp c) = batch_tasks c" "shutting_down (handle_response resp c) = shutting_down c"
  "owns_process (handle_response resp c) = owns_process c"
  by (cases resp; auto simp: handle_response_def from_error_def blank_output_def Let_def split: option.split)+

lemma drain_responses_queue:
  "drain_responses chan c = (c', rest) \<Longrightarrow>
     map d_request_id (output_queue c') @ concat (map resp_ids rest) = map d_request_id (output_queue c) @ concat (map resp_ids chan)
     \<and> batch_tasks c' = batch_tasks c \<and> shutting_down c' = shutting_down c \<and> owns_process c' = owns_process c"
proof (induction chan arbitrary: c)
  case Nil
  then show ?case by simp
next
  case (Cons resp chan)
  show ?case
  proof (cases "resp = Resp_dead")
    case True
    with Cons.prems have "c' = handle_response resp c" "rest = chan" by simp_all
    with True show ?thesis by (simp add: handle_response_queue)
  next
    case False
    with Cons.prems have "drain_responses chan (handle_response resp c) = (c', rest)" by simp
    from Cons.IH [OF this] show ?thesis by (simp add: handle_response_queue)
  qed
qed

lemma drain_responses_rest:
  "drain_responses chan c = (c', rest) \<Longrightarrow> \<exists>done. chan = done @ rest"
proof (induction chan arbitrary: c)
  case (Cons resp chan)
  then show ?case by (cases "resp = Resp_dead") (auto, metis append_Cons)
qed simp

lemma poll_queue:
  assumes "get_diffusion_output_nowait alive exitcode chan late c = (c', ch, x)"
  shows "poll_ids x @ map d_request_id (output_queue c') @ concat (map resp_ids ch)
      = map d_request_id (output_queue c) @ concat (map resp_ids (chan @ late))" and "batch_tasks c' = batch_tasks c"
    and "owns_process c' = owns_process c"
proof -
  obtain c1 ch1 where d1: "drain_responses chan c = (c1, ch1)" by fastforce
  obtain c2 ch2 where d2: "drain_responses (ch1 @ late) (c1\<lparr>engine_dead := True\<rparr>) = (c2, ch2)" by fastforce
  note q1 = drain_responses_queue [OF d1]
  have q2: "map d_request_id (output_queue c2) @ concat (map resp_ids ch2) = map d_request_id (output_queue c1) @ concat (map resp_ids (ch1 @ late))"
      "batch_tasks c2 = batch_tasks c1" "owns_process c2 = owns_process c1"
    using drain_responses_queue [OF d2] by simp_all
  show "poll_ids x @ map d_request_id (output_queue c') @ concat (map resp_ids ch)
      = map d_request_id (output_queue c) @ concat (map resp_ids (chan @ late))"
    using assms q1 q2 unfolding get_diffusion_output_nowait_def d1 d2 prod.case
    by (auto split: list.splits if_splits)
  show "batch_tasks c' = batch_tasks c" and "owns_process c' = owns_process c"
    using assms q1 q2 unfolding get_diffusion_output_nowait_def d1 d2 prod.case
    by (auto split: list.splits if_splits)
qed

lemma poll_stage_fields:
  "accepted (poll_stage k s) = accepted s" "requests (poll_stage k s) = requests s" "process (poll_stage k s) = process s"
  "proc_alive (poll_stage k s) = proc_alive s" "exit_code (poll_stage k s) = exit_code s"
  by (simp_all add: poll_stage_def split: prod.split)

lemma poll_stage_ids: "answered_ids (poll_stage k s) = answered_ids s" "waiting_ids (poll_stage k s) = waiting_ids s"
proof -
  obtain c ch x where g: "get_diffusion_output_nowait (proc_alive s) (exit_code s) (take k (responses s)) (drop k (responses s)) (client s) = (c, ch, x)"
    using prod_cases3 by blast
  then have s: "poll_stage k s = s\<lparr>client := c, responses := ch, polled := polled s @ [x]\<rparr>" by (simp add: poll_stage_def)
  show "answered_ids (poll_stage k s) = answered_ids s"
    using poll_queue(1) [OF g, unfolded append_take_drop_id] by (simp add: s answered_ids_def)
  show "waiting_ids (poll_stage k s) = waiting_ids s"
    by (simp add: s waiting_ids_def poll_queue(2) [OF g])
qed

section \<open>Every step keeps the accounts\<close>

definition balance :: "string \<Rightarrow> 'x stage \<Rightarrow> nat" where
  "balance r s = tally r (answered_ids s) + tally r (waiting_ids s)"

definition stage_ok :: "'x stage \<Rightarrow> bool" where
  "stage_ok s \<longleftrightarrow> process_ok (process s) \<and> (proc_alive s \<or> \<not> proc_running (process s))
     \<and> Resp_dead \<notin> set (butlast (responses s)) \<and> (proc_running (process s) \<longrightarrow> Resp_dead \<notin> set (responses s))"

lemma stage_okD:
  assumes "stage_ok s"
  shows "process_ok (process s)" and "\<not> proc_alive s \<Longrightarrow> \<not> proc_running (process s)" and "Resp_dead \<notin> set (butlast (responses s))"
    and "proc_running (process s) \<Longrightarrow> Resp_dead \<notin> set (responses s)"
  using assms by (auto simp: stage_ok_def)

text \<open>What a step may do to the accounts of one id.\<close>

definition keeps_account :: "string \<Rightarrow> 'x stage \<Rightarrow> 'x stage \<Rightarrow> bool" where
  "keeps_account r s s' \<longleftrightarrow> tally r (accepted s) \<le> tally r (accepted s')
     \<and> balance r s' + tally r (accepted s) \<le> balance r s + tally r (accepted s')
     \<and> (abort_asked r s \<longrightarrow> abort_asked r s') \<and> (proc_running (process s') \<longrightarrow> proc_running (process s))
     \<and> (abort_asked r s' \<or> \<not> proc_running (process s') \<or> balance r s' + tally r (accepted s) = balance r s + tally r (accepted s'))"

lemma keeps_account_same:
  assumes "balance r s' = balance r s" and "accepted s' = accepted s" and "abort_asked r s \<Longrightarrow> abort_asked r s'"
    and "proc_running (process s') \<Longrightarrow> proc_running (process s)"
  shows "keeps_account r s s'"
  using assms by (simp add: keeps_account_def)

lemma keeps_account_refl [simp]: "keeps_account r s s"
  by (simp add: keeps_account_same)

lemma tally_append [simp]: "tally r (xs @ ys) = tally r xs + tally r ys"
  by (induction xs) simp_all

lemma take_submission:
  assumes "accepted s' = accepted s @ [q]" and "answered_ids s' = answered_ids s"
    and "tally r (waiting_ids s') = tally r (waiting_ids s) + (if q = r then 1 else 0)"
    and "process s' = process s" and "\<And>ids. Msg_abort ids \<in> set (requests s) \<Longrightarrow> Msg_abort ids \<in> set (requests s')"
  shows "keeps_account r s s'"
  using assms by (auto simp: keeps_account_def balance_def abort_asked_def)

lemma submit_account: "keeps_account r s (stage_step enc explain rpc (Submit sub) s)"
proof (cases "add_request_async enc (sub\<lparr>sub_batch := False\<rparr>) (client s)")
  case (Inl e)
  then show ?thesis by (simp add: stage_step_def)
next
  case (Inr msgs)
  then have m: "map sub_id (concat (map msg_subs msgs)) = [sub_id sub]"
    by (auto simp: add_request_async_def Let_def split: if_splits option.splits)
  show ?thesis
    by (rule take_submission [where q = "sub_id sub"])
      (use m in \<open>simp_all add: stage_step_def Inr answered_ids_def waiting_ids_def\<close>)
qed

lemma submit_batch_account: "keeps_account r s (stage_step enc explain rpc (Submit_batch sub) s)"
proof (cases "engine_dead (client s)")
  case True
  then show ?thesis by (simp add: stage_step_def add_batch_request_async_def)
next
  case False
  show ?thesis
    by (rule take_submission [where q = "sub_id sub"])
      (use False in \<open>simp_all add: stage_step_def add_batch_request_async_def answered_ids_def waiting_ids_def\<close>)
qed

lemma run_batch_account: "keeps_account r s (stage_step enc explain rpc Run_batch s)"
proof (cases "batch_tasks (client s)")
  case Nil
  then show ?thesis by (simp add: stage_step_def run_batch_def)
next
  case (Cons sub subs)
  show ?thesis
    by (rule keeps_account_same)
      (use Cons in \<open>cases "enc (Msg_submit (sub\<lparr>sub_params := sampling_params_to_dict (sub_params sub)\<rparr>))";
         auto simp: stage_step_def run_batch_def balance_def answered_ids_def waiting_ids_def abort_asked_def from_error_def
           blank_output_def Let_def\<close>)+
qed

lemma rpc_wait_fields:
  "rpc_wait i alive expired chan c = (c', ch, x) \<Longrightarrow>
     map d_request_id (output_queue c') @ concat (map resp_ids ch) = map d_request_id (output_queue c) @ concat (map resp_ids chan)
     \<and> batch_tasks c' = batch_tasks c \<and> owns_process c' = owns_process c \<and> (\<exists>done. chan = done @ ch)"
proof -
  assume a: "rpc_wait i alive expired chan c = (c', ch, x)"
  obtain c1 ch1 where d: "drain_responses chan c = (c1, ch1)" by fastforce
  have "output_queue c' = output_queue c1 \<and> batch_tasks c' = batch_tasks c1 \<and> owns_process c' = owns_process c1 \<and> ch = ch1"
    using a unfolding rpc_wait_def d prod.case by (auto simp: Let_def split: option.splits if_splits)
  then show ?thesis using drain_responses_queue [OF d] drain_responses_rest [OF d] by simp
qed

lemma wait_rpc_account: "keeps_account r s (stage_step enc explain rpc (Wait_rpc i expired) s)"
proof -
  obtain c ch x where w: "rpc_wait i (if owns_process (client s) then Some (proc_alive s) else None) expired (responses s) (client s) = (c, ch, x)"
    using prod_cases3 by blast
  show ?thesis
    by (rule keeps_account_same)
      (use rpc_wait_fields [OF w] in \<open>simp_all add: stage_step_def w balance_def answered_ids_def waiting_ids_def abort_asked_def\<close>)
qed

lemma poll_account: "keeps_account r s (stage_step enc explain rpc (Poll k) s)"
  by (rule keeps_account_same) (simp_all add: stage_step_def balance_def poll_stage_ids poll_stage_fields abort_asked_def)

lemma receive_account:
  assumes "stage_ok s"
  shows "keeps_account r s (stage_step enc explain rpc Receive s)"
proof (cases "requests s")
  case Nil
  then show ?thesis by (simp add: stage_step_def)
next
  case (Cons msg msgs)
  show ?thesis
  proof (cases "proc_running (process s)")
    case False
    with Cons show ?thesis by (simp add: stage_step_def)
  next
    case True
    show ?thesis
    proof (cases msg)
      case Msg_shutdown
      with Cons True show ?thesis
        by (auto simp: stage_step_def receive_msg_def keeps_account_def balance_def answered_ids_def waiting_ids_def end_loop_def abort_asked_def)
    next
      case (Msg_submit sub)
      show ?thesis
        by (rule keeps_account_same)
          (use Msg_submit Cons True in \<open>auto simp: stage_step_def receive_msg_def balance_def answered_ids_def waiting_ids_def abort_asked_def\<close>)
    next
      case (Msg_abort ids)
      show ?thesis
        by (rule keeps_account_same)
          (use Msg_abort Cons True in \<open>auto simp: stage_step_def receive_msg_def balance_def answered_ids_def waiting_ids_def abort_asked_def
             abort_all_live\<close>)
    next
      case (Msg_rpc i name)
      show ?thesis
        by (rule keeps_account_same)
          (use Msg_rpc Cons True in \<open>auto simp: stage_step_def receive_msg_def balance_def answered_ids_def waiting_ids_def abort_asked_def
             split: sum.split\<close>)
    next
      case Msg_other
      show ?thesis
        by (rule keeps_account_same)
          (use Msg_other Cons True in \<open>auto simp: stage_step_def receive_msg_def balance_def answered_ids_def waiting_ids_def abort_asked_def\<close>)
    qed
  qed
qed

lemma find_task:
  "find (\<lambda>t. t_no t = n) ts = Some t \<Longrightarrow> t \<in> set ts \<and> t_no t = n"
  by (induction ts) (auto split: if_splits)

lemma tally_remove_task:
  "distinct (map t_no ts) \<Longrightarrow> find (\<lambda>t. t_no t = n) ts = Some t \<Longrightarrow>
     tally r (map (\<lambda>t. sub_id (t_sub t)) ts)
       = tally r (map (\<lambda>t. sub_id (t_sub t)) (filter (\<lambda>t. t_no t \<noteq> n) ts)) + (if sub_id (t_sub t) = r then 1 else 0)"
proof (induction ts)
  case (Cons u ts)
  show ?case
  proof (cases "t_no u = n")
    case True
    with Cons.prems(1) have "\<forall>x \<in> set ts. t_no x \<noteq> n" by (auto simp: image_iff)
    then have "filter (\<lambda>t. t_no t \<noteq> n) ts = ts" by simp
    moreover have "u = t" using True Cons.prems(2) by simp
    ultimately show ?thesis using True by simp
  next
    case False
    with Cons show ?thesis by simp
  qed
qed simp

lemma batch_result_id: "d_request_id (process_batch_request r prompts results) = r"
proof -
  have "d_request_id (foldl merge_result acc results) = d_request_id acc" for acc :: "'a omni_output"
    by (induction results arbitrary: acc) (simp_all add: merge_result_def)
  then show ?thesis by (simp add: process_batch_request_def blank_output_def)
qed

text \<open>A task that was not aborted answers once, under its own id.\<close>

lemma dispatch_one_answer:
  assumes "case outcome of Stepped (out # _) \<Rightarrow> sub_batch sub \<or> d_request_id out \<in> {[], sub_id sub} | Step_aborted \<Rightarrow> False | _ \<Rightarrow> True"
  shows "concat (map resp_ids (dispatch_request sub outcome)) = [sub_id sub]"
  using assms
  by (auto simp: dispatch_request_def process_request_def batch_result_id split: engine_outcome.splits list.splits)

lemma dispatch_at_most_one:
  "Resp_dead \<notin> set (dispatch_request sub outcome)"
  by (auto simp: dispatch_request_def split: engine_outcome.splits sum.splits)

lemma end_task_account:
  assumes "stage_ok s" and "engine_contract (End_task n outcome) s"
  shows "keeps_account r s (stage_step enc explain rpc (End_task n outcome) s)"
proof (cases "find (\<lambda>t. t_no t = n) (proc_live (process s))")
  case None
  then show ?thesis by (simp add: stage_step_def end_task_def)
next
  case (Some t)
  let ?s = "stage_step enc explain rpc (End_task n outcome) s"
  from find_task [OF Some] have t: "t \<in> set (proc_live (process s))" "t_no t = n" by auto
  note p = stage_okD(1) [OF assms(1)]
  note one = tally_remove_task [OF process_okD(1) [OF p] Some, of r]
  show ?thesis
  proof (cases "t_started t \<or> t_cancelled t")
    case False
    with Some show ?thesis by (simp add: stage_step_def end_task_def)
  next
    case True
    have w: "tally r (waiting_ids s) = tally r (waiting_ids ?s) + (if sub_id (t_sub t) = r then 1 else 0)"
      using True Some one by (auto simp: stage_step_def end_task_def waiting_ids_def)
    have f: "accepted ?s = accepted s" "requests ?s = requests s" "proc_aborted (process ?s) = proc_aborted (process s)"
        "proc_running (process ?s) = proc_running (process s)"
      using True Some by (auto simp: stage_step_def end_task_def)
    have a: "answered_ids ?s = answered_ids s @ (if t_cancelled t then [] else concat (map resp_ids (dispatch_request (t_sub t) outcome)))"
      using True Some by (auto simp: stage_step_def end_task_def answered_ids_def)
    show ?thesis
    proof (cases "t_cancelled t \<or> outcome = Step_aborted")
      case True
      have "sub_id (t_sub t) \<in> set (proc_aborted (process s))"
        using True t process_okD(3) [OF p t(1)] assms(2) by (auto simp: engine_contract_def)
      moreover have "answered_ids ?s = answered_ids s" using True a by (auto simp: dispatch_request_def)
      ultimately show ?thesis using w f by (auto simp: keeps_account_def balance_def abort_asked_def)
    next
      case False
      with assms(2) t have "case outcome of Stepped (out # _) \<Rightarrow> sub_batch (t_sub t) \<or> d_request_id out \<in> {[], sub_id (t_sub t)} | Step_aborted \<Rightarrow> False | _ \<Rightarrow> True"
        by (auto simp: engine_contract_def split: engine_outcome.splits list.splits)
      from dispatch_one_answer [OF this] False a have "answered_ids ?s = answered_ids s @ [sub_id (t_sub t)]" by simp
      then show ?thesis using w f by (simp add: keeps_account_def balance_def abort_asked_def)
    qed
  qed
qed

lemma stage_step_account:
  assumes "stage_ok s" and "engine_contract e s"
  shows "keeps_account r s (stage_step enc explain rpc e s)"
proof (cases e)
  case (Submit sub)
  then show ?thesis using submit_account by simp
next
  case (Submit_batch sub)
  then show ?thesis using submit_batch_account by simp
next
  case Run_batch
  then show ?thesis using run_batch_account by simp
next
  case (Wait_rpc i expired)
  then show ?thesis using wait_rpc_account by simp
next
  case (Poll k)
  then show ?thesis using poll_account by simp
next
  case Receive
  then show ?thesis using receive_account [OF assms(1)] by simp
next
  case (End_task n outcome)
  then show ?thesis using end_task_account [OF assms(1)] assms(2) by simp
next
  case (Call_rpc i name)
  show ?thesis
    by (rule keeps_account_same; cases "engine_dead (client s)")
      (use Call_rpc in \<open>auto simp: stage_step_def rpc_send_def balance_def answered_ids_def waiting_ids_def abort_asked_def\<close>)
next
  case (Start_task n)
  show ?thesis
    by (rule keeps_account_same)
      (use Start_task in \<open>simp_all add: stage_step_def balance_def answered_ids_def waiting_ids_def abort_asked_def start_task_live\<close>)
next
  case (Abort_requests ids)
  show ?thesis
    by (rule keeps_account_same)
      (use Abort_requests in \<open>auto simp: stage_step_def balance_def answered_ids_def waiting_ids_def abort_asked_def\<close>)
next
  case Check_health
  show ?thesis
    by (rule keeps_account_same)
      (use Check_health in \<open>simp_all add: stage_step_def check_health_def balance_def answered_ids_def waiting_ids_def abort_asked_def\<close>)
next
  case Monitor
  show ?thesis
    by (rule keeps_account_same; cases "proc_alive s \<or> \<not> owns_process (client s)")
      (use Monitor in \<open>simp_all add: stage_step_def proc_monitor_def balance_def answered_ids_def waiting_ids_def abort_asked_def\<close>)
next
  case Shutdown_client
  show ?thesis
    by (rule keeps_account_same)
      (use Shutdown_client in \<open>simp_all add: stage_step_def shutdown_client_def balance_def answered_ids_def waiting_ids_def abort_asked_def\<close>)
next
  case Fail_loop
  then show ?thesis
    by (auto simp: stage_step_def fail_loop_def end_loop_def keeps_account_def balance_def answered_ids_def waiting_ids_def abort_asked_def)
next
  case (Exit_process n)
  then show ?thesis
    by (auto simp: stage_step_def end_loop_def keeps_account_def balance_def answered_ids_def waiting_ids_def abort_asked_def)
qed

lemma receive_quiet: "Resp_dead \<notin> set (snd (receive_msg rpc msg p))"
  by (cases msg) (auto simp: receive_msg_def split: sum.split)

lemma receive_running: "proc_running (fst (receive_msg rpc msg p)) \<Longrightarrow> proc_running p"
  by (cases msg) (simp_all add: receive_msg_def abort_all_live end_loop_def)

lemma butlast_rest: "x \<notin> set (butlast (done @ rs)) \<Longrightarrow> x \<notin> set (butlast rs)"
  by (cases "rs = []") (simp_all add: butlast_append)

text \<open>Reading from the socket keeps the invariant, and so does writing to it while the process runs.\<close>

lemma stage_ok_read:
  assumes "stage_ok s" and "responses s = done @ ch" and "responses s' = ch" and "process s' = process s" and "proc_alive s' = proc_alive s"
  shows "stage_ok s'"
  using assms by (auto simp: stage_ok_def dest: butlast_rest)

lemma stage_ok_write:
  assumes "stage_ok s" and "proc_running (process s) \<or> out = []" and "Resp_dead \<notin> set out" and "process_ok p'"
    and "proc_running p' \<Longrightarrow> proc_running (process s)" and "process s' = p'" and "responses s' = responses s @ out"
    and "proc_alive s' = proc_alive s"
  shows "stage_ok s'"
  using assms by (auto simp: stage_ok_def butlast_append dest: in_set_butlastD)

lemma stage_init_ok: "stage_ok (stage_init owns)"
  by (simp add: stage_ok_def stage_init_def dproc_init_ok)

lemma poll_stage_rest: "\<exists>done. responses s = done @ responses (poll_stage k s)"
proof -
  obtain c ch x where g: "get_diffusion_output_nowait (proc_alive s) (exit_code s) (take k (responses s)) (drop k (responses s)) (client s) = (c, ch, x)"
    using prod_cases3 by blast
  obtain c1 ch1 where d1: "drain_responses (take k (responses s)) (client s) = (c1, ch1)" by fastforce
  obtain c2 ch2 where d2: "drain_responses (ch1 @ drop k (responses s)) (c1\<lparr>engine_dead := True\<rparr>) = (c2, ch2)" by fastforce
  obtain a where a: "take k (responses s) = a @ ch1" using drain_responses_rest [OF d1] by auto
  obtain b where b: "ch1 @ drop k (responses s) = b @ ch2" using drain_responses_rest [OF d2] by auto
  have r: "responses s = a @ ch1 @ drop k (responses s)"
    using append_take_drop_id [of k "responses s"] by (simp add: a)
  have "ch = ch1 @ drop k (responses s) \<or> ch = ch2"
    using g unfolding get_diffusion_output_nowait_def d1 d2 prod.case by (auto split: list.splits if_splits)
  moreover have "responses (poll_stage k s) = ch" using g by (simp add: poll_stage_def)
  ultimately show ?thesis using r b by (metis append.assoc)
qed

lemma stage_step_ok:
  assumes "stage_ok s"
  shows "stage_ok (stage_step enc explain rpc e s)"
proof -
  have same: "stage_ok s'" if "process s' = process s" "responses s' = responses s" "proc_alive s' = proc_alive s" for s'
    using assms that by (simp add: stage_ok_def)
  show ?thesis
  proof (cases e)
    case (Receive)
    show ?thesis
    proof (cases "requests s = [] \<or> \<not> proc_running (process s)")
      case True
      with Receive assms show ?thesis by (auto simp: stage_step_def split: list.split)
    next
      case False
      then obtain msg msgs where m: "requests s = msg # msgs" by (cases "requests s") auto
      show ?thesis
        by (rule stage_ok_write [OF assms, where out = "snd (receive_msg rpc msg (process s))"])
          (use False m Receive receive_msg_ok [OF stage_okD(1) [OF assms]] receive_quiet receive_running in
            \<open>simp_all add: stage_step_def\<close>)
    qed
  next
    case (End_task n outcome)
    note p = stage_okD(1) [OF assms]
    show ?thesis
    proof (rule stage_ok_write [OF assms, where out = "snd (end_task n outcome (process s))"])
      show "proc_running (process s) \<or> snd (end_task n outcome (process s)) = []"
        using process_okD(6) [OF p] by (cases "proc_running (process s)") (simp_all add: end_task_def)
      show "Resp_dead \<notin> set (snd (end_task n outcome (process s)))"
        using dispatch_at_most_one by (auto simp: end_task_def split: option.split)
      show "process_ok (fst (end_task n outcome (process s)))" by (rule end_task_ok [OF p])
      show "proc_running (process s)" if "proc_running (fst (end_task n outcome (process s)))"
        using that by (auto simp: end_task_def split: option.splits if_splits)
    qed (use End_task in \<open>simp_all add: stage_step_def\<close>)
  next
    case (Start_task n)
    with assms start_task_ok [of "process s" n] show ?thesis by (simp add: stage_step_def stage_ok_def start_task_live)
  next
    case Fail_loop
    with assms show ?thesis
      using end_loop_ok [of "process s"]
      by (auto simp: stage_step_def fail_loop_def stage_ok_def end_loop_def dest: in_set_butlastD)
  next
    case (Exit_process n)
    with assms end_loop_ok [of "process s"] show ?thesis by (auto simp: stage_step_def stage_ok_def end_loop_def)
  next
    case (Poll k)
    from poll_stage_rest [of s k] obtain ds where "responses s = ds @ responses (poll_stage k s)" ..
    with Poll show ?thesis by (auto intro: stage_ok_read [OF assms] simp: stage_step_def poll_stage_fields)
  next
    case (Wait_rpc i expired)
    obtain c ch x where w: "rpc_wait i (if owns_process (client s) then Some (proc_alive s) else None) expired (responses s) (client s) = (c, ch, x)"
      using prod_cases3 by blast
    with rpc_wait_fields [OF w] obtain ds where "responses s = ds @ ch" by auto
    with Wait_rpc w show ?thesis by (auto intro: stage_ok_read [OF assms] simp: stage_step_def)
  qed (auto intro!: same simp: stage_step_def split: sum.split prod.split)
qed

lemma stage_run_account:
  assumes "stage_ok s" and "stage_events_ok engine_contract enc explain rpc es s"
  shows "stage_ok (stage_run enc explain rpc es s) \<and> keeps_account r s (stage_run enc explain rpc es s)"
  using assms
proof (induction es arbitrary: s)
  case Nil
  then show ?case by (simp add: stage_run_def)
next
  case (Cons e es)
  let ?s = "stage_step enc explain rpc e s"
  have "keeps_account r s ?s" using stage_step_account [OF Cons.prems(1)] Cons.prems(2) by simp
  moreover have "stage_ok (stage_run enc explain rpc es ?s) \<and> keeps_account r ?s (stage_run enc explain rpc es ?s)"
    using Cons.IH [OF stage_step_ok [OF Cons.prems(1)]] Cons.prems(2) by simp
  ultimately show ?case by (auto simp: stage_run_def keeps_account_def)
qed

text \<open>C15: A diffusion stage answers what it accepts, single prompts and batches alike: under any id there are
  never more answers and pending submissions than accepted submissions, and as many as long as no abort of the
  id was asked for and the process runs its loop, whatever the order of submissions, tasks, control calls and
  polls. The engine is taken to name a single output after its request, or not at all, and to abort only what
  was aborted; the ids it gives the outputs of a batch do not matter.\<close>

theorem submissions_answered_once:
  assumes "stage_events_ok engine_contract enc explain rpc es (stage_init owns)" and "stage_run enc explain rpc es (stage_init owns) = s"
  shows "tally r (answered_ids s) + tally r (waiting_ids s) \<le> tally r (accepted s)
     \<and> (if abort_asked r s \<or> \<not> proc_running (process s) then True
        else tally r (answered_ids s) + tally r (waiting_ids s) = tally r (accepted s))"
proof -
  have "balance r (stage_init owns) = 0" "tally r (accepted (stage_init owns)) = 0"
    by (simp_all add: balance_def answered_ids_def waiting_ids_def stage_init_def dclient_init_def dproc_init_def)
  moreover have "keeps_account r (stage_init owns) s" using stage_run_account [OF stage_init_ok assms(1), of r] assms(2) by simp
  ultimately have *: "balance r s + 0 \<le> 0 + tally r (accepted s)"
      "abort_asked r s \<or> \<not> proc_running (process s) \<or> balance r s + 0 = 0 + tally r (accepted s)"
    unfolding keeps_account_def by metis+
  then have "balance r s \<le> tally r (accepted s)
      \<and> (abort_asked r s \<or> \<not> proc_running (process s) \<or> balance r s = tally r (accepted s))"
    by simp
  then show ?thesis unfolding balance_def by auto
qed

definition ex_submission :: "nat submission" where
  "ex_submission = \<lparr>sub_id = ''r'', sub_batch = False, sub_prompts = [7],
     sub_params = \<lparr>dp_seed = None, dp_generator = Some (Generator (Some 42)), dp_fields = []\<rparr>, sub_senders = None\<rparr>"

definition ex_stage_run :: "nat stage_event list" where
  "ex_stage_run = [Submit ex_submission, Receive, Start_task 0, End_task 0 (Stepped [blank_output [] ''audio'']), Poll 1]"

lemmas ex_stage_defs = ex_stage_run_def ex_submission_def stage_init_def dclient_init_def dproc_init_def stage_run_def stage_step_def
  add_request_async_def receive_msg_def start_task_def end_task_def dispatch_request_def process_request_def blank_output_def
  poll_stage_def get_diffusion_output_nowait_def handle_response_def sampling_params_to_dict_def initial_seed_def Let_def

text \<open>A batch of two prompts, whose outputs have ids of their own.\<close>

definition ex_batch_run :: "nat stage_event list" where
  "ex_batch_run = [Submit_batch (ex_submission\<lparr>sub_prompts := [7, 8]\<rparr>), Run_batch, Receive, Start_task 0,
     End_task 0 (Stepped [blank_output ''r-0'' ''image'', blank_output ''r-1'' ''image'']), Poll 1]"

lemmas ex_batch_defs = ex_batch_run_def add_batch_request_async_def run_batch_def process_batch_request_def merge_result_def
  dict_update_def or_new_def

theorem submissions_answered_once_witness:
  "\<exists>s. stage_run (\<lambda>_. None) (\<lambda>_. ''e'') (\<lambda>_. Inl ''no'') ex_batch_run (stage_init True) = s
     \<and> tally ''r'' (answered_ids s) + tally ''r'' (waiting_ids s) = tally ''r'' (accepted s) \<and> answered_ids s = [''r'']"
proof -
  let ?s = "stage_run (\<lambda>_. None) (\<lambda>_. ''e'') (\<lambda>_. Inl ''no'') ex_batch_run (stage_init True)"
  have ok: "stage_events_ok engine_contract (\<lambda>_. None) (\<lambda>_. ''e'') (\<lambda>_. Inl ''no'') ex_batch_run (stage_init True)"
    by (simp add: ex_stage_defs ex_batch_defs engine_contract_def)
  have "answered_ids ?s = [''r'']" "\<not> abort_asked ''r'' ?s" "proc_running (process ?s)"
    by (simp_all add: ex_stage_defs ex_batch_defs answered_ids_def abort_asked_def)
  with submissions_answered_once [OF ok refl, of "''r''"] show ?thesis by auto
qed

section \<open>A dead process\<close>

fun resp_outputs :: "'x stage_resp \<Rightarrow> 'x omni_output list" where
  "resp_outputs (Resp_result out) = [out]"
| "resp_outputs (Resp_error (Some r) _ e) = [from_error r e]"
| "resp_outputs _ = []"

definition arrived :: "'x stage \<Rightarrow> 'x omni_output list" where
  "arrived s = output_queue (client s) @ concat (map resp_outputs (responses s))"

text \<open>What polling returns when every poll sees all that has arrived.\<close>

fun poll_results :: "nat \<Rightarrow> 'x stage \<Rightarrow> 'x omni_output option res list" where
  "poll_results 0 s = []"
| "poll_results (Suc n) s = (let s' = poll_stage (length (responses s)) s in last (polled s') # poll_results n s')"

definition signal_exit :: "'x stage \<Rightarrow> bool" where
  "signal_exit s = (case exit_code s of Some n \<Rightarrow> n > 128 | None \<Rightarrow> False)"

lemma handle_response_outputs:
  "output_queue (handle_response resp c) = output_queue c @ resp_outputs resp"
  "engine_dead (handle_response resp c) \<longleftrightarrow> engine_dead c \<or> resp = Resp_dead"
  by (cases resp; auto simp: handle_response_def Let_def split: option.split)+

lemma drain_all:
  "Resp_dead \<notin> set (butlast chan) \<Longrightarrow> drain_responses chan c = (c', rest) \<Longrightarrow>
     rest = [] \<and> output_queue c' = output_queue c @ concat (map resp_outputs chan) \<and> (engine_dead c' \<longleftrightarrow> engine_dead c \<or> Resp_dead \<in> set chan)"
proof (induction chan arbitrary: c)
  case Nil
  then show ?case by simp
next
  case (Cons resp chan)
  show ?case
  proof (cases "resp = Resp_dead")
    case True
    with Cons.prems(1) have "chan = []" by (cases chan) auto
    with True Cons.prems(2) show ?thesis by (auto simp: handle_response_outputs)
  next
    case False
    with Cons.prems have "Resp_dead \<notin> set (butlast chan)" "drain_responses chan (handle_response resp c) = (c', rest)"
      by (auto split: if_splits)
    from Cons.IH [OF this] False show ?thesis by (simp add: handle_response_outputs)
  qed
qed

lemma poll_drained:
  assumes "drain_responses (responses s) (client s) = (c1, [])"
  shows "poll_results n s = poll_results n (s\<lparr>client := c1, responses := []\<rparr>)"
  using assms by (cases n) (simp_all add: poll_stage_def get_diffusion_output_nowait_def Let_def)

lemma poll_dead_client:
  "engine_dead (client s) \<Longrightarrow> responses s = [] \<Longrightarrow>
     poll_results (length (output_queue (client s)) + k) s = map (Inr \<circ> Some) (output_queue (client s)) @ replicate k (Inl EngineDeadError)"
proof (induction "output_queue (client s)" arbitrary: s)
  case Nil
  have "poll_results k s = replicate k (Inl EngineDeadError)" if "engine_dead (client s)" "responses s = []" "output_queue (client s) = []" for k and s :: "'a stage"
    using that by (induction k arbitrary: s) (simp_all add: poll_stage_def get_diffusion_output_nowait_def Let_def)
  with Nil show ?case by simp
next
  case (Cons out outs)
  let ?s = "poll_stage 0 s"
  have s: "?s = s\<lparr>client := (client s)\<lparr>output_queue := outs\<rparr>, polled := polled s @ [Inr (Some out)]\<rparr>"
    using Cons.hyps(2) [symmetric] Cons.prems(2) by (simp add: poll_stage_def get_diffusion_output_nowait_def)
  have "poll_results (length outs + k) ?s = map (Inr \<circ> Some) outs @ replicate k (Inl EngineDeadError)"
    using Cons.hyps(1) [of ?s] Cons.prems by (simp add: s)
  then show ?case using Cons.hyps(2) [symmetric] Cons.prems(2) by (simp add: s Let_def)
qed

lemma poll_dead_process:
  "\<not> engine_dead (client s) \<Longrightarrow> responses s = [] \<Longrightarrow> \<not> proc_alive s \<Longrightarrow> owns_process (client s) \<Longrightarrow> \<not> shutting_down (client s) \<Longrightarrow>
     m = (if signal_exit s then 1 else 0) \<Longrightarrow>
     poll_results (length (output_queue (client s)) + m + k) s
       = map (Inr \<circ> Some) (output_queue (client s)) @ replicate m (Inr None) @ replicate k (Inl EngineDeadError)"
proof (induction "output_queue (client s)" arbitrary: s)
  case Nil
  let ?s = "poll_stage 0 s"
  have s: "?s = s\<lparr>client := (client s)\<lparr>engine_dead := True, shutting_down := signal_exit s\<rparr>,
      polled := polled s @ [if signal_exit s then Inr None else Inl EngineDeadError]\<rparr>"
    using Nil by (simp add: poll_stage_def get_diffusion_output_nowait_def signal_exit_def split: option.split)
  have d: "poll_results k ?s = replicate k (Inl EngineDeadError)" for k
    using poll_dead_client [of ?s k] Nil by (simp add: s)
  show ?case
  proof (cases "signal_exit s")
    case True
    then have "poll_results (Suc k) s = Inr None # poll_results k ?s" using Nil by (simp add: s Let_def)
    with True Nil d show ?thesis by simp
  next
    case False
    show ?thesis
    proof (cases k)
      case 0
      with False Nil show ?thesis by simp
    next
      case (Suc k')
      have "poll_results (Suc k') s = Inl EngineDeadError # poll_results k' ?s" using Nil False by (simp add: s Let_def)
      with False Nil d Suc show ?thesis by simp
    qed
  qed
next
  case (Cons out outs)
  let ?s = "poll_stage 0 s"
  have s: "?s = s\<lparr>client := (client s)\<lparr>output_queue := outs\<rparr>, polled := polled s @ [Inr (Some out)]\<rparr>"
    using Cons.hyps(2) [symmetric] Cons.prems(2) by (simp add: poll_stage_def get_diffusion_output_nowait_def)
  have "signal_exit ?s = signal_exit s" by (simp add: s signal_exit_def)
  then have "poll_results (length outs + m + k) ?s = map (Inr \<circ> Some) outs @ replicate m (Inr None) @ replicate k (Inl EngineDeadError)"
    using Cons.hyps(1) [of ?s] Cons.prems by (simp add: s)
  then show ?case using Cons.hyps(2) [symmetric] Cons.prems(2) by (simp add: s Let_def)
qed

lemma stage_step_owns: "owns_process (client (stage_step enc explain rpc e s)) = owns_process (client s)"
proof (cases e)
  case (Poll k)
  obtain c ch x where g: "get_diffusion_output_nowait (proc_alive s) (exit_code s) (take k (responses s)) (drop k (responses s)) (client s) = (c, ch, x)"
    using prod_cases3 by blast
  then show ?thesis using Poll poll_queue(3) [OF g] by (simp add: stage_step_def poll_stage_def)
next
  case (Wait_rpc i expired)
  obtain c ch x where w: "rpc_wait i (if owns_process (client s) then Some (proc_alive s) else None) expired (responses s) (client s) = (c, ch, x)"
    using prod_cases3 by blast
  then show ?thesis using Wait_rpc rpc_wait_fields [OF w] by (simp add: stage_step_def)
next
  case Run_batch
  then show ?thesis
    by (cases "batch_tasks (client s)") (simp_all add: stage_step_def run_batch_def Let_def split: option.split)
qed (simp_all add: stage_step_def add_batch_request_async_def rpc_send_def check_health_def proc_monitor_def shutdown_client_def
    split: sum.split list.split)

lemma stage_run_keeps:
  "stage_ok s \<Longrightarrow> stage_ok (stage_run enc explain rpc es s) \<and> owns_process (client (stage_run enc explain rpc es s)) = owns_process (client s)"
proof (induction es arbitrary: s)
  case (Cons e es)
  from Cons.IH [OF stage_step_ok [OF Cons.prems]] show ?case by (simp add: stage_run_def stage_step_owns)
qed (simp add: stage_run_def)

text \<open>C34: When the process of a stage is dead, polling hands out every output that had arrived, in order, and from then on raises the engine's death; only after an exit by a signal is there one empty poll before that.\<close>

theorem dead_process_is_reported:
  assumes "stage_run enc explain rpc es (stage_init True) = s" and "\<not> proc_alive s" and "\<not> shutting_down (client s)"
  shows "\<exists>m. m \<le> (if signal_exit s then 1 else 0)
     \<and> poll_results (length (arrived s) + m + k) s = map (Inr \<circ> Some) (arrived s) @ replicate m (Inr None) @ replicate k (Inl EngineDeadError)"
proof -
  have inv: "stage_ok s" "owns_process (client s)"
    using stage_run_keeps [OF stage_init_ok, of enc explain rpc es True] by (simp_all add: assms(1)) (simp add: stage_init_def dclient_init_def)
  obtain c1 rest where d: "drain_responses (responses s) (client s) = (c1, rest)" by fastforce
  from drain_all [OF stage_okD(3) [OF inv(1)] d] have rest: "rest = []" and q: "output_queue c1 = arrived s"
    by (simp_all add: arrived_def)
  from drain_responses_queue [OF d] have c1: "owns_process c1" "\<not> shutting_down c1" using inv assms(3) by simp_all
  let ?s = "s\<lparr>client := c1, responses := []\<rparr>"
  have p: "poll_results n s = poll_results n ?s" for n using poll_drained d rest by blast
  show ?thesis
  proof (cases "engine_dead c1")
    case True
    then have "poll_results (length (arrived s) + 0 + k) s = map (Inr \<circ> Some) (arrived s) @ replicate 0 (Inr None) @ replicate k (Inl EngineDeadError)"
      using poll_dead_client [of ?s k] q by (simp add: p)
    then show ?thesis by (intro exI [of _ 0]) simp
  next
    case False
    have "signal_exit ?s = signal_exit s" by (simp add: signal_exit_def)
    with False have "poll_results (length (arrived s) + (if signal_exit s then 1 else 0) + k) s
        = map (Inr \<circ> Some) (arrived s) @ replicate (if signal_exit s then 1 else 0) (Inr None) @ replicate k (Inl EngineDeadError)"
      using poll_dead_process [of ?s _ k] q c1 assms(2) by (simp add: p)
    then show ?thesis by (intro exI [of _ "if signal_exit s then 1 else 0"]) simp
  qed
qed

theorem dead_process_is_reported_witness:
  "\<exists>s m. stage_run (\<lambda>_. None) (\<lambda>_. ''e'') (\<lambda>_. Inl ''no'') [Submit ex_submission, Receive, Start_task 0, End_task 0 (Stepped [blank_output [] ''audio'']), Exit_process 143] (stage_init True) = s
     \<and> m \<le> (1 :: nat) \<and> poll_results (Suc m + 2) s = Inr (Some (blank_output ''r'' ''audio'')) # replicate m (Inr None) @ [Inl EngineDeadError, Inl EngineDeadError]"
proof -
  let ?s = "stage_run (\<lambda>_. None) (\<lambda>_. ''e'') (\<lambda>_. Inl ''no'') [Submit ex_submission, Receive, Start_task 0, End_task 0 (Stepped [blank_output [] ''audio'']), Exit_process 143] (stage_init True)"
  have "\<not> proc_alive ?s" "\<not> shutting_down (client ?s)" and a: "arrived ?s = [blank_output ''r'' ''audio'']" and e: "signal_exit ?s"
    by (simp_all add: ex_stage_defs end_loop_def arrived_def signal_exit_def)
  from dead_process_is_reported [OF refl this(1,2), of 2] show ?thesis
    by (simp only: a e) (auto simp: numeral_2_eq_2)
qed

text \<open>
  A process that a signal ended counts as shut down from outside, but only for one poll: the client is
  marked dead at the same time.
\<close>

lemma signal_exit_is_not_external:
  assumes "get_diffusion_output_nowait False (Some n) [] [] c = (c', ch, Inr None)" and "n > 128" and "owns_process c" and "\<not> shutting_down c"
  shows "shutting_down c'" and "get_diffusion_output_nowait False (Some n) [] [] c' = (c', [], Inl EngineDeadError)"
  using assms by (auto simp: get_diffusion_output_nowait_def split: list.splits if_splits)

text \<open>The answer of a control call that has timed out stays in the results.\<close>

lemma late_rpc_result_stays:
  "i \<notin> pending_rpcs c \<Longrightarrow> drain_responses [Resp_rpc i v] c = (c', rest) \<Longrightarrow> rpc_results c' i = Some (Rpc_ok v)"
  by (auto simp: handle_response_def)

text \<open>
  An abort overtakes the batch it is meant for: the batch is sent by a task of its own, later, and then
  runs to its end.
\<close>

lemma abort_overtakes_batch:
  "let s = stage_run (\<lambda>_. None) (\<lambda>_. ''e'') (\<lambda>_. Inl ''no'')
             [Submit_batch ex_submission, Abort_requests [''r''], Run_batch, Receive, Receive, Start_task 0] (stage_init True)
   in map t_cancelled (proc_live (process s)) = [False] \<and> proc_aborted (process s) = [''r''] \<and> requests s = []"
  by (simp add: ex_stage_defs add_batch_request_async_def run_batch_def abort_task_def)

text \<open>
  A cancelled task that ends late removes the entry of a newer task with the same id, so that an abort
  of this id finds no task.
\<close>

lemma old_task_hides_new_one:
  "let s = stage_run (\<lambda>_. None) (\<lambda>_. ''e'') (\<lambda>_. Inl ''no'')
             [Submit ex_submission, Receive, Start_task 0, Abort_requests [''r''], Receive, Submit ex_submission, Receive, Start_task 1,
              End_task 0 Step_aborted, Abort_requests [''r''], Receive] (stage_init True)
   in map t_cancelled (proc_live (process s)) = [False] \<and> proc_tasks (process s) = []"
  by (simp add: ex_stage_defs abort_task_def cancel_task_def)

end
