(* ===== verification/Cfg_Companion.thy ===== *)
theory Cfg_Companion
  imports Prelude
begin

text \<open>
  \<open>CfgCompanionTracker\<close> (\<open>engine/cfg_companion_tracker.py\<close>): the bookkeeping of the companion requests
  that classifier-free guidance adds to a request. A parent has one companion per role; its result is
  held back until all of them are done.
\<close>

section \<open>The tracker\<close>

record 'o tracker =
  companion_map :: "string \<rightharpoonup> (string \<times> string) list"
  companion_ids :: "string set"
  companion_to_parent :: "string \<rightharpoonup> string"
  done_companions :: "string \<rightharpoonup> string set"
  pending_parents :: "string \<rightharpoonup> 'o \<times> nat"

definition tracker_init :: "'o tracker" where
  "tracker_init = \<lparr>companion_map = Map.empty, companion_ids = {}, companion_to_parent = Map.empty,
     done_companions = Map.empty, pending_parents = Map.empty\<rparr>"

definition is_companion :: "string \<Rightarrow> 'o tracker \<Rightarrow> bool" where
  "is_companion r t \<longleftrightarrow> r \<in> companion_ids t"

definition has_companions :: "string \<Rightarrow> 'o tracker \<Rightarrow> bool" where
  "has_companions p t \<longleftrightarrow> companion_map t p \<noteq> None"

definition get_companion_request_ids :: "string \<Rightarrow> 'o tracker \<Rightarrow> (string \<times> string) list" where
  "get_companion_request_ids p t = (case companion_map t p of None \<Rightarrow> [] | Some m \<Rightarrow> m)"

definition done_set :: "string \<Rightarrow> 'o tracker \<Rightarrow> string set" where
  "done_set p t = (case done_companions t p of None \<Rightarrow> {} | Some ds \<Rightarrow> ds)"

definition all_companions_done :: "string \<Rightarrow> 'o tracker \<Rightarrow> bool" where
  "all_companions_done p t \<longleftrightarrow> (\<forall>c \<in> set (map snd (get_companion_request_ids p t)). c \<in> done_set p t)"

definition register_parent :: "string \<Rightarrow> 'o tracker \<Rightarrow> 'o tracker" where
  "register_parent p t = t\<lparr>
     companion_map := (if companion_map t p = None then (companion_map t)(p \<mapsto> []) else companion_map t),
     done_companions := (if done_companions t p = None then (done_companions t)(p \<mapsto> {}) else done_companions t)\<rparr>"

definition register_companion :: "string \<Rightarrow> string \<Rightarrow> string \<Rightarrow> 'o tracker \<Rightarrow> 'o tracker" where
  "register_companion p role c t =
     (let t1 = register_parent p t
      in t1\<lparr>companion_map := (companion_map t1)(p \<mapsto> dict_set role c (get_companion_request_ids p t1)),
            companion_ids := insert c (companion_ids t1),
            companion_to_parent := (companion_to_parent t1)(c \<mapsto> p)\<rparr>)"

text \<open>The parent is returned when it waits and its last companion is done.\<close>

definition on_companion_completed :: "string \<Rightarrow> 'o tracker \<Rightarrow> 'o tracker \<times> string option res" where
  "on_companion_completed c t =
     (case companion_to_parent t c of
        None \<Rightarrow> (t, Inr None)
      | Some p \<Rightarrow>
          (case done_companions t p of
             None \<Rightarrow> (t, Inl AssertionError)
           | Some ds \<Rightarrow>
               (if c \<in> ds then (t, Inr None)
                else (let t1 = t\<lparr>done_companions := (done_companions t)(p \<mapsto> insert c ds)\<rparr>
                      in if pending_parents t1 p \<noteq> None \<and> all_companions_done p t1
                         then (t1, Inr (Some p)) else (t1, Inr None)))))"

definition defer_parent :: "string \<Rightarrow> 'o \<Rightarrow> nat \<Rightarrow> 'o tracker \<Rightarrow> 'o tracker" where
  "defer_parent p out sid t = t\<lparr>pending_parents := (pending_parents t)(p \<mapsto> (out, sid))\<rparr>"

definition pop_pending_parent :: "string \<Rightarrow> 'o tracker \<Rightarrow> 'o tracker \<times> ('o \<times> nat) option" where
  "pop_pending_parent p t = (t\<lparr>pending_parents := (pending_parents t)(p := None)\<rparr>, pending_parents t p)"

definition cleanup_parent :: "string \<Rightarrow> 'o tracker \<Rightarrow> 'o tracker \<times> string list" where
  "cleanup_parent p t =
     (let cs = map snd (get_companion_request_ids p t)
      in (t\<lparr>companion_map := (companion_map t)(p := None),
            companion_ids := companion_ids t - set cs,
            companion_to_parent := companion_to_parent t |` (- set cs),
            done_companions := (done_companions t)(p := None),
            pending_parents := (pending_parents t)(p := None)\<rparr>, cs))"

text \<open>
  \<open>abort_parents\<close>: the parents are collected in a set first; \<open>ord\<close> is the order in which the set of the
  listed elements is run through. The second loop appends companions that were not named.
\<close>

fun append_unseen :: "string list \<Rightarrow> string list \<Rightarrow> string list" where
  "append_unseen acc [] = acc"
| "append_unseen acc (c # cs) = append_unseen (if c \<in> set acc then acc else acc @ [c]) cs"

fun cleanup_parents :: "string list \<Rightarrow> string list \<Rightarrow> 'o tracker \<Rightarrow> 'o tracker \<times> string list" where
  "cleanup_parents [] acc t = (t, acc)"
| "cleanup_parents (p # ps) acc t =
     (case cleanup_parent p t of (t1, cs) \<Rightarrow> cleanup_parents ps (append_unseen acc cs) t1)"

definition abort_parents :: "(string list \<Rightarrow> string list) \<Rightarrow> string list \<Rightarrow> 'o tracker \<Rightarrow> 'o tracker \<times> string list" where
  "abort_parents ord ids t = cleanup_parents (ord (filter (\<lambda>r. r \<notin> companion_ids t) ids)) ids t"

text \<open>How Python may run through the set of the elements of a list.\<close>

definition set_iteration :: "(string list \<Rightarrow> string list) \<Rightarrow> bool" where
  "set_iteration ord \<longleftrightarrow> (\<forall>xs. set (ord xs) = set xs \<and> distinct (ord xs))"

section \<open>The invariant\<close>

text \<open>
  The companions of the registered parents are the known companions, each under one parent and one role,
  and what is done is a companion of its parent.
\<close>

definition companions :: "string \<Rightarrow> 'o tracker \<Rightarrow> string set" where
  "companions p t = set (map snd (get_companion_request_ids p t))"

definition tracker_ok :: "'o tracker \<Rightarrow> bool" where
  "tracker_ok t \<longleftrightarrow> dom (done_companions t) = dom (companion_map t)
     \<and> dom (companion_to_parent t) = companion_ids t
     \<and> (\<forall>p c. companion_to_parent t c = Some p \<longleftrightarrow> c \<in> companions p t)
     \<and> (\<forall>p. distinct (map fst (get_companion_request_ids p t)) \<and> distinct (map snd (get_companion_request_ids p t)))
     \<and> (\<forall>p. done_set p t \<subseteq> companions p t)"

lemma tracker_okD:
  assumes "tracker_ok t"
  shows "dom (done_companions t) = dom (companion_map t)" and "dom (companion_to_parent t) = companion_ids t"
    and "companion_to_parent t c = Some p \<longleftrightarrow> c \<in> companions p t"
    and "distinct (map fst (get_companion_request_ids p t))" and "distinct (map snd (get_companion_request_ids p t))"
    and "done_set p t \<subseteq> companions p t"
  using assms unfolding tracker_ok_def by blast+

lemma tracker_okI:
  assumes "dom (done_companions t) = dom (companion_map t)" and "dom (companion_to_parent t) = companion_ids t"
    and "\<And>p c. companion_to_parent t c = Some p \<longleftrightarrow> c \<in> companions p t"
    and "\<And>p. distinct (map fst (get_companion_request_ids p t))" and "\<And>p. distinct (map snd (get_companion_request_ids p t))"
    and "\<And>p. done_set p t \<subseteq> companions p t"
  shows "tracker_ok t"
  using assms unfolding tracker_ok_def by blast

lemma tracker_init_ok: "tracker_ok tracker_init"
  by (simp add: tracker_ok_def tracker_init_def companions_def get_companion_request_ids_def done_set_def)

lemmas tracker_defs = companions_def get_companion_request_ids_def done_set_def

lemma companions_known: "tracker_ok t \<Longrightarrow> c \<in> companions p t \<Longrightarrow> c \<in> companion_ids t"
  using tracker_okD(2,3) by blast

lemma companions_disjoint: "tracker_ok t \<Longrightarrow> c \<in> companions p t \<Longrightarrow> c \<in> companions q t \<Longrightarrow> p = q"
  using tracker_okD(3) by (metis option.inject)

lemma register_parent_lookups:
  "get_companion_request_ids q (register_parent p t) = get_companion_request_ids q t"
  "done_set q (register_parent p t) = done_set q t"
  "companions q (register_parent p t) = companions q t"
  "companion_ids (register_parent p t) = companion_ids t"
  "companion_to_parent (register_parent p t) = companion_to_parent t"
  "pending_parents (register_parent p t) = pending_parents t"
  by (auto simp: register_parent_def tracker_defs)

lemma register_parent_ok:
  assumes "tracker_ok t"
  shows "tracker_ok (register_parent p t)"
proof (rule tracker_okI; (unfold register_parent_lookups)?)
  show "dom (done_companions (register_parent p t)) = dom (companion_map (register_parent p t))"
    using tracker_okD(1) [OF assms] by (auto simp: register_parent_def)
qed (use tracker_okD [OF assms] in simp_all)

lemma register_companion_lookups:
  "get_companion_request_ids q (register_companion p role c t) =
     (if q = p then dict_set role c (get_companion_request_ids p t) else get_companion_request_ids q t)"
  "done_set q (register_companion p role c t) = done_set q t"
  "companion_ids (register_companion p role c t) = insert c (companion_ids t)"
  "companion_to_parent (register_companion p role c t) = (companion_to_parent t)(c \<mapsto> p)"
  "pending_parents (register_companion p role c t) = pending_parents t"
  by (auto simp: register_companion_def register_parent_def Let_def get_companion_request_ids_def done_set_def)

lemma register_companion_companions:
  assumes "role \<notin> fst ` set (get_companion_request_ids p t)"
  shows "companions q (register_companion p role c t) = (if q = p then insert c (companions p t) else companions q t)"
  using assms by (auto simp: companions_def register_companion_lookups dict_set_new)

lemma register_companion_ok:
  assumes "tracker_ok t" and "c \<notin> companion_ids t" and "role \<notin> fst ` set (get_companion_request_ids p t)"
  shows "tracker_ok (register_companion p role c t)"
proof -
  let ?t = "register_companion p role c t"
  note ok = tracker_okD [OF assms(1)]
  have c: "c \<notin> companions q t" for q using companions_known [OF assms(1)] assms(2) by blast
  have "tracker_ok (register_parent p t)" by (rule register_parent_ok [OF assms(1)])
  then have d: "dom (done_companions ?t) = dom (companion_map ?t)"
    using tracker_okD(1) [of "register_parent p t"] by (auto simp: register_companion_def Let_def register_parent_def split: if_splits)
  have ids: "dom (companion_to_parent ?t) = companion_ids ?t" using ok(2) by (simp add: register_companion_lookups)
  have par: "companion_to_parent ?t x = Some q \<longleftrightarrow> x \<in> companions q ?t" for x q
    using ok(3) [of x q] c by (auto simp: register_companion_companions [OF assms(3)] register_companion_lookups)
  have dist: "distinct (map fst (get_companion_request_ids q ?t)) \<and> distinct (map snd (get_companion_request_ids q ?t))" for q
    using ok(4,5) [of q] assms(3) c [of p]
    by (auto simp: register_companion_lookups dict_set_new companions_def)
  have "done_set q ?t \<subseteq> companions q ?t" for q
    using ok(6) [of q] by (auto simp: register_companion_companions [OF assms(3)] register_companion_lookups)
  with d ids par dist show ?thesis unfolding tracker_ok_def by blast
qed

lemma defer_parent_ok: "tracker_ok t \<Longrightarrow> tracker_ok (defer_parent p out sid t)"
  by (simp add: tracker_ok_def defer_parent_def tracker_defs)

lemma pop_pending_parent_ok: "tracker_ok t \<Longrightarrow> tracker_ok (fst (pop_pending_parent p t))"
  by (simp add: tracker_ok_def pop_pending_parent_def tracker_defs)

text \<open>Completing a companion never fails, and answers the parent exactly when it waits for nothing else.\<close>

lemma on_companion_completed_ok:
  assumes "tracker_ok t" and "on_companion_completed c t = (t1, r)"
  shows "tracker_ok t1" and "\<exists>po. r = Inr po"
    and "companions q t1 = companions q t" and "pending_parents t1 = pending_parents t"
    and "companion_ids t1 = companion_ids t" and "companion_map t1 = companion_map t"
    and "done_set q t1 = (if c \<in> companions q t then insert c (done_set q t) else done_set q t)"
    and "r = Inr (Some p) \<longleftrightarrow> c \<in> companions p t \<and> c \<notin> done_set p t \<and> pending_parents t p \<noteq> None
       \<and> companions p t \<subseteq> insert c (done_set p t)"
proof -
  note ok = tracker_okD [OF assms(1)]
  have parent: "companion_to_parent t c = Some q \<longleftrightarrow> c \<in> companions q t" for q by (rule ok(3))
  have "tracker_ok t1 \<and> (\<exists>po. r = Inr po) \<and> (\<forall>q. companions q t1 = companions q t) \<and> pending_parents t1 = pending_parents t
     \<and> companion_ids t1 = companion_ids t \<and> companion_map t1 = companion_map t
     \<and> (\<forall>q. done_set q t1 = (if c \<in> companions q t then insert c (done_set q t) else done_set q t))
     \<and> (\<forall>p. r = Inr (Some p) \<longleftrightarrow> c \<in> companions p t \<and> c \<notin> done_set p t \<and> pending_parents t p \<noteq> None
       \<and> companions p t \<subseteq> insert c (done_set p t))"
  proof (cases "companion_to_parent t c")
    case None
    then have no: "c \<notin> companions q t" for q using parent [of q] by auto
    from None assms(2) have "t1 = t" "r = Inr None" by (auto simp: on_companion_completed_def)
    with assms(1) no show ?thesis by auto
  next
    case (Some p0)
    then have c: "c \<in> companions q t \<longleftrightarrow> q = p0" for q using parent [of q] by auto
    have "companion_map t p0 \<noteq> None" using c [of p0] by (cases "companion_map t p0") (simp_all add: tracker_defs)
    with ok(1) obtain ds where ds: "done_companions t p0 = Some ds" by auto
    then have ds': "done_set p0 t = ds" by (simp add: done_set_def)
    show ?thesis
    proof (cases "c \<in> ds")
      case True
      with Some ds assms(2) have "t1 = t" "r = Inr None" by (auto simp: on_companion_completed_def)
      with assms(1) True c ds' show ?thesis by (auto simp: insert_absorb)
    next
      case False
      let ?t1 = "t\<lparr>done_companions := (done_companions t)(p0 \<mapsto> insert c ds)\<rparr>"
      have t1: "t1 = ?t1" and r: "r = Inr (if pending_parents t p0 \<noteq> None \<and> all_companions_done p0 ?t1 then Some p0 else None)"
        using Some ds False assms(2) by (auto simp: on_companion_completed_def Let_def split: if_splits)
      have comp: "companions q ?t1 = companions q t" for q by (simp add: tracker_defs)
      have dn: "done_set q ?t1 = (if q = p0 then insert c ds else done_set q t)" for q by (simp add: done_set_def)
      have all: "all_companions_done p0 ?t1 \<longleftrightarrow> companions p0 t \<subseteq> insert c ds"
        using comp [of p0] dn [of p0] by (auto simp: all_companions_done_def companions_def)
      have "tracker_ok ?t1"
      proof (rule tracker_okI)
        show "dom (done_companions ?t1) = dom (companion_map ?t1)" using ok(1) ds by auto
        show "done_set q ?t1 \<subseteq> companions q ?t1" for q
          using ok(6) [of q] c [of p0] ds' by (auto simp: dn comp)
      qed (use ok comp in \<open>simp_all add: get_companion_request_ids_def\<close>)
      with comp dn c ds' False all t1 r show ?thesis by auto
    qed
  qed
  then show "tracker_ok t1" and "\<exists>po. r = Inr po" and "companions q t1 = companions q t"
    and "pending_parents t1 = pending_parents t" and "companion_ids t1 = companion_ids t" and "companion_map t1 = companion_map t"
    and "done_set q t1 = (if c \<in> companions q t then insert c (done_set q t) else done_set q t)"
    and "r = Inr (Some p) \<longleftrightarrow> c \<in> companions p t \<and> c \<notin> done_set p t \<and> pending_parents t p \<noteq> None
       \<and> companions p t \<subseteq> insert c (done_set p t)"
    by blast+
qed


lemma all_companions_done_iff: "all_companions_done p t \<longleftrightarrow> companions p t \<subseteq> done_set p t"
  by (auto simp: all_companions_done_def companions_def)

lemma defer_parent_lookups:
  "companions q (defer_parent p out sid t) = companions q t" "done_set q (defer_parent p out sid t) = done_set q t"
  "companion_ids (defer_parent p out sid t) = companion_ids t" "companion_map (defer_parent p out sid t) = companion_map t"
  "pending_parents (defer_parent p out sid t) = (pending_parents t)(p \<mapsto> (out, sid))"
  by (simp_all add: defer_parent_def tracker_defs)

lemma pop_pending_parent_lookups:
  "companions q (fst (pop_pending_parent p t)) = companions q t" "done_set q (fst (pop_pending_parent p t)) = done_set q t"
  "companion_ids (fst (pop_pending_parent p t)) = companion_ids t"
  "companion_map (fst (pop_pending_parent p t)) = companion_map t"
  "pending_parents (fst (pop_pending_parent p t)) = (pending_parents t)(p := None)"
  "snd (pop_pending_parent p t) = pending_parents t p"
  by (simp_all add: pop_pending_parent_def tracker_defs)

section \<open>Forgetting a parent\<close>

lemma cleanup_parent_lookups:
  assumes "cleanup_parent p t = (t1, cs)"
  shows "set cs = companions p t" and "get_companion_request_ids q t1 = (if q = p then [] else get_companion_request_ids q t)"
    and "companions q t1 = (if q = p then {} else companions q t)"
    and "done_set q t1 = (if q = p then {} else done_set q t)" and "companion_ids t1 = companion_ids t - companions p t"
    and "pending_parents t1 = (pending_parents t)(p := None)" and "companion_map t1 = (companion_map t)(p := None)"
    and "companion_to_parent t1 = companion_to_parent t |` (- companions p t)"
    and "done_companions t1 = (done_companions t)(p := None)"
proof -
  have cs: "set cs = companions p t" and t1: "t1 = t\<lparr>companion_map := (companion_map t)(p := None),
            companion_ids := companion_ids t - set cs, companion_to_parent := companion_to_parent t |` (- set cs),
            done_companions := (done_companions t)(p := None), pending_parents := (pending_parents t)(p := None)\<rparr>"
    using assms by (auto simp: cleanup_parent_def Let_def companions_def)
  show "set cs = companions p t" by (rule cs)
  show g: "get_companion_request_ids q t1 = (if q = p then [] else get_companion_request_ids q t)"
    by (simp add: t1 get_companion_request_ids_def)
  show "companions q t1 = (if q = p then {} else companions q t)" by (simp add: companions_def g)
  show "done_set q t1 = (if q = p then {} else done_set q t)" by (simp add: t1 done_set_def)
qed (use assms in \<open>auto simp: cleanup_parent_def Let_def companions_def\<close>)

lemma cleanup_parent_ok:
  assumes "tracker_ok t" and "cleanup_parent p t = (t1, cs)"
  shows "tracker_ok t1" and "distinct cs"
proof -
  note ok = tracker_okD [OF assms(1)] and l = cleanup_parent_lookups [OF assms(2)]
  show "tracker_ok t1"
  proof (rule tracker_okI)
    show "dom (done_companions t1) = dom (companion_map t1)" using ok(1) by (simp add: l)
    show "dom (companion_to_parent t1) = companion_ids t1" using ok(2) by (auto simp: l)
    show "companion_to_parent t1 c = Some q \<longleftrightarrow> c \<in> companions q t1" for q c
      using ok(3) [of c q] ok(3) [of c p] by (auto simp: l restrict_map_def)
    show "done_set q t1 \<subseteq> companions q t1" for q using ok(6) [of q] by (simp add: l)
    show "distinct (map fst (get_companion_request_ids q t1))" for q using ok(4) [of q] by (simp add: l)
    show "distinct (map snd (get_companion_request_ids q t1))" for q using ok(5) [of q] by (simp add: l)
  qed
  show "distinct cs" using assms(2) ok(5) [of p] by (auto simp: cleanup_parent_def Let_def)
qed

lemma append_unseen_result: "\<exists>new. append_unseen acc cs = acc @ new \<and> set new = set cs - set acc \<and> distinct new"
proof (induction cs arbitrary: acc)
  case Nil
  then show ?case by simp
next
  case (Cons c cs)
  show ?case
  proof (cases "c \<in> set acc")
    case True
    with Cons.IH [of acc] show ?thesis by auto
  next
    case False
    from Cons.IH [of "acc @ [c]"] obtain new where "append_unseen (acc @ [c]) cs = (acc @ [c]) @ new"
      "set new = set cs - set (acc @ [c])" "distinct new" by blast
    with False show ?thesis by (intro exI [of _ "c # new"]) auto
  qed
qed

lemma cleanup_parents_result:
  assumes "tracker_ok t" and "distinct ps"
  shows "\<exists>t1 new. cleanup_parents ps acc t = (t1, acc @ new) \<and> tracker_ok t1
     \<and> set new = (\<Union>p \<in> set ps. companions p t) - set acc \<and> distinct new
     \<and> (\<forall>q. companions q t1 = (if q \<in> set ps then {} else companions q t))
     \<and> (\<forall>q. companion_map t1 q = (if q \<in> set ps then None else companion_map t q))
     \<and> (\<forall>q. pending_parents t1 q = (if q \<in> set ps then None else pending_parents t q))
     \<and> companion_ids t1 = companion_ids t - (\<Union>p \<in> set ps. companions p t)"
  using assms
proof (induction ps arbitrary: acc t)
  case Nil
  then show ?case by simp
next
  case (Cons p ps)
  obtain t2 cs where c: "cleanup_parent p t = (t2, cs)" by fastforce
  note l = cleanup_parent_lookups [OF c]
  obtain new1 where n1: "append_unseen acc cs = acc @ new1" "set new1 = set cs - set acc" "distinct new1"
    using append_unseen_result by blast
  have un: "(\<Union>q \<in> set ps. companions q t2) = (\<Union>q \<in> set ps. companions q t)"
    using Cons.prems(2) by (auto simp: l)
  obtain t1 new2 where r: "cleanup_parents ps (acc @ new1) t2 = (t1, (acc @ new1) @ new2)" "tracker_ok t1"
    "set new2 = (\<Union>q \<in> set ps. companions q t2) - set (acc @ new1)" "distinct new2"
    "\<forall>q. companions q t1 = (if q \<in> set ps then {} else companions q t2)"
    "\<forall>q. companion_map t1 q = (if q \<in> set ps then None else companion_map t2 q)"
    "\<forall>q. pending_parents t1 q = (if q \<in> set ps then None else pending_parents t2 q)"
    "companion_ids t1 = companion_ids t2 - (\<Union>p \<in> set ps. companions p t2)"
    using Cons.IH [OF cleanup_parent_ok(1) [OF Cons.prems(1) c], of "acc @ new1"] Cons.prems(2) by auto
  show ?case
    by (intro exI [of _ t1] exI [of _ "new1 @ new2"] conjI) (use c n1 r un in \<open>auto simp: l\<close>)
qed

text \<open>
  Aborting names every listed request and every companion of a listed parent, forgets these parents and
  keeps the rest.
\<close>

lemma abort_parents_result:
  assumes "tracker_ok t" and "set_iteration ord" and "abort_parents ord ids t = (t1, all)"
  shows "tracker_ok t1"
    and "\<exists>new. all = ids @ new \<and> distinct new \<and> set new = (\<Union>p \<in> set ids - companion_ids t. companions p t) - set ids"
    and "companions q t1 = (if q \<in> set ids - companion_ids t then {} else companions q t)"
    and "companion_map t1 q = (if q \<in> set ids - companion_ids t then None else companion_map t q)"
    and "pending_parents t1 q = (if q \<in> set ids - companion_ids t then None else pending_parents t q)"
    and "companion_ids t1 = companion_ids t - (\<Union>p \<in> set ids - companion_ids t. companions p t)"
proof -
  let ?ps = "ord (filter (\<lambda>r. r \<notin> companion_ids t) ids)"
  have ps: "set ?ps = set ids - companion_ids t" "distinct ?ps"
    using assms(2) by (auto simp: set_iteration_def)
  have "\<exists>t1 new. cleanup_parents ?ps ids t = (t1, ids @ new) \<and> tracker_ok t1
     \<and> set new = (\<Union>p \<in> set ?ps. companions p t) - set ids \<and> distinct new
     \<and> (\<forall>q. companions q t1 = (if q \<in> set ?ps then {} else companions q t))
     \<and> (\<forall>q. companion_map t1 q = (if q \<in> set ?ps then None else companion_map t q))
     \<and> (\<forall>q. pending_parents t1 q = (if q \<in> set ?ps then None else pending_parents t q))
     \<and> companion_ids t1 = companion_ids t - (\<Union>p \<in> set ?ps. companions p t)"
    by (rule cleanup_parents_result [OF assms(1) ps(2)])
  then show "tracker_ok t1"
    and "\<exists>new. all = ids @ new \<and> distinct new \<and> set new = (\<Union>p \<in> set ids - companion_ids t. companions p t) - set ids"
    and "companions q t1 = (if q \<in> set ids - companion_ids t then {} else companions q t)"
    and "companion_map t1 q = (if q \<in> set ids - companion_ids t then None else companion_map t q)"
    and "pending_parents t1 q = (if q \<in> set ids - companion_ids t then None else pending_parents t q)"
    and "companion_ids t1 = companion_ids t - (\<Union>p \<in> set ids - companion_ids t. companions p t)"
    using assms(3) unfolding abort_parents_def ps(1) by auto
qed

end
