(* ===== verification/Orchestrator.thy ===== *)
theory Orchestrator
  imports Cfg_Companion
begin

text \<open>
  \<open>Orchestrator\<close> (\<open>engine/orchestrator.py\<close>): routes the outputs of one stage to the next, answers the
  callers and reacts to aborts and dead stages. Each message and each polled output is handled as one
  step. What a stage client is asked to do is recorded in \<open>calls\<close>, what the callers get in
  \<open>out_queue\<close>. The input processors of the stages and the output processors are arguments, and so is the
  clock, which is read once per step. Contents the orchestrator only passes on have the type \<open>'x\<close>.
  Timings of the pipeline and logging are left out.
\<close>

section \<open>Data\<close>

text \<open>Values of KV transfer parameters; \<open>KOther\<close> carries the truth value of any other object.\<close>

datatype kv_val = KStr string | KBool bool | KOther bool
type_synonym kv_dict = "(string \<times> kv_val) list"

fun kv_truthy :: "kv_val \<Rightarrow> bool" where
  "kv_truthy (KStr s) = (s \<noteq> [])"
| "kv_truthy (KBool b) = b"
| "kv_truthy (KOther b) = b"

datatype params_kind = Sampling | Pooling | Diffusion

record 'x params =
  params_kind :: params_kind
  max_tokens :: "int option"
  extra_kv_params :: "kv_dict option"
  cfg_kv_request_ids :: "(string \<times> string) list option"
  params_body :: 'x

text \<open>
  A prompt is a processed engine request with its attributes, a dictionary (with
  \<open>prompt_token_ids\<close> or not), a list, or something else.
\<close>

datatype 'x stage_prompt =
    Engine_prompt string "int list option" bool "'x option" 'x
  | Dict_prompt "int list option" "'x option"
  | Batch_prompt "'x stage_prompt list"
  | Other_prompt 'x

record 'x core_request =
  cr_request_id :: string
  cr_external_req_id :: string
  cr_prompt_token_ids :: "int list"
  cr_prompt :: "'x option"
  cr_params :: "'x params"
  cr_mm_features :: "'x option"
  cr_resumable :: bool
  cr_arrival_time :: rat

text \<open>
  An output of a stage, raw or processed. \<open>o_token_ids\<close> are those of its first completion,
  \<open>o_kv_params\<close> is \<open>None\<close> when the attribute is missing or no dictionary.
\<close>

record 'x stage_output =
  o_request_id :: string
  o_finished :: bool
  o_error :: "string option"
  o_kv_params :: "kv_dict option"
  o_token_ids :: "int list option"
  o_prompt_token_ids :: "int list option"
  o_segment_finished :: bool
  o_new_prompt_len :: "int option"
  o_body :: "'x option"

record streaming_state =
  streaming_enabled :: bool
  segment_finished :: bool
  new_prompt_len_snapshot :: "int option"

record 'x stage_request =
  rs_prompt :: "'x stage_prompt"
  sampling_params_list :: "'x params list"
  final_stage_id :: int
  stage_submit_ts :: "nat \<rightharpoonup> rat"
  rs_mm_features :: "'x option"
  streaming :: streaming_state

text \<open>
  A stage client, with its model's length limit. \<open>kv_sender_info\<close> is \<open>None\<close> without that method, and
  \<open>Some None\<close> when it has no information. An input function sees the outputs set on the stages.
\<close>

type_synonym 'x stage_outputs = "nat \<Rightarrow> 'x stage_output option"

record 'x stage_client =
  is_diffusion :: bool
  final_output :: bool
  model_stage :: "string option"
  max_model_len :: int
  engine_input_source :: "int list"
  kv_sender_info :: "'x option option"
  custom_process_input_func :: "('x stage_outputs \<Rightarrow> int list \<Rightarrow> 'x stage_prompt \<Rightarrow> 'x stage_prompt res) option"
  process_engine_inputs :: "'x stage_outputs \<Rightarrow> 'x stage_prompt \<Rightarrow> streaming_state option \<Rightarrow> 'x stage_prompt list res"

record 'x orch_config =
  stage_clients :: "'x stage_client list"
  async_chunk :: bool
  pd_pair :: "(nat \<times> nat) option"
  pd_bootstrap_addr :: "string option"
  pd_prefill_engine_id :: "string option"

record stage_metrics =
  sm_tokens_in :: nat
  sm_tokens_out :: nat
  sm_gen_time_ms :: rat
  sm_batch_id :: nat
  sm_total_token :: nat
  sm_total_gen_time_ms :: rat

datatype 'x out_msg =
    Output_msg string nat "'x stage_output" "stage_metrics option" bool "rat option"
  | Metrics_msg string nat stage_metrics "rat option"
  | Fatal_msg string string nat

type_synonym 'x senders = "(nat \<times> 'x) list option"

datatype 'x call =
    Add_prompt nat "'x stage_prompt"
  | Add_core nat "'x core_request"
  | Add_diffusion nat string "'x stage_prompt" "'x params" "'x senders"
  | Add_batch nat string "'x stage_prompt list" "'x params" "'x senders"
  | Register nat "'x core_request"
  | Abort nat "string list"

record 'x orch =
  request_states :: "(string \<times> 'x stage_request) list"
  cfg_tracker :: "'x stage_output tracker"
  pd_kv_params :: "string \<rightharpoonup> kv_dict"
  batch_seq :: "nat \<Rightarrow> nat"
  agg_total_tokens :: "nat \<Rightarrow> nat"
  agg_total_gen_time_ms :: "nat \<Rightarrow> rat"
  engine_outputs :: "'x stage_outputs"
  out_queue :: "'x out_msg list"
  calls :: "'x call list"
  shutdown_event :: bool
  stages_shutdown :: bool
  fatal_error :: "(string \<times> nat) option"

definition orch_init :: "'x orch" where
  "orch_init = \<lparr>request_states = [], cfg_tracker = tracker_init, pd_kv_params = Map.empty, batch_seq = (\<lambda>_. 0),
     agg_total_tokens = (\<lambda>_. 0), agg_total_gen_time_ms = (\<lambda>_. 0), engine_outputs = (\<lambda>_. None), out_queue = [],
     calls = [], shutdown_event = False, stages_shutdown = False, fatal_error = None\<rparr>"

section \<open>Small steps on the state\<close>

abbreviation put_out :: "'x out_msg \<Rightarrow> 'x orch \<Rightarrow> 'x orch" where
  "put_out msg s \<equiv> s\<lparr>out_queue := out_queue s @ [msg]\<rparr>"

abbreviation add_call :: "'x call \<Rightarrow> 'x orch \<Rightarrow> 'x orch" where
  "add_call c s \<equiv> s\<lparr>calls := calls s @ [c]\<rparr>"

abbreviation pop_state :: "string \<Rightarrow> 'x orch \<Rightarrow> 'x orch" where
  "pop_state r s \<equiv> s\<lparr>request_states := dict_pop r (request_states s)\<rparr>"

abbreviation get_state :: "string \<Rightarrow> 'x orch \<Rightarrow> 'x stage_request option" where
  "get_state r s \<equiv> map_of (request_states s) r"

abbreviation on_tracker :: "('x stage_output tracker \<Rightarrow> 'x stage_output tracker) \<Rightarrow> 'x orch \<Rightarrow> 'x orch" where
  "on_tracker f s \<equiv> s\<lparr>cfg_tracker := f (cfg_tracker s)\<rparr>"

abbreviation pop_kv :: "string \<Rightarrow> 'x orch \<Rightarrow> 'x orch" where
  "pop_kv r s \<equiv> s\<lparr>pd_kv_params := (pd_kv_params s)(r := None)\<rparr>"

text \<open>An assignment to a field of the request's state object.\<close>

definition update_state :: "string \<Rightarrow> ('x stage_request \<Rightarrow> 'x stage_request) \<Rightarrow> 'x orch \<Rightarrow> 'x orch" where
  "update_state r f s = (case get_state r s of None \<Rightarrow> s
     | Some rs \<Rightarrow> s\<lparr>request_states := dict_set r (f rs) (request_states s)\<rparr>)"

definition mark_submitted :: "string \<Rightarrow> nat \<Rightarrow> rat \<Rightarrow> 'x orch \<Rightarrow> 'x orch" where
  "mark_submitted r sid now = update_state r (\<lambda>rs. rs\<lparr>stage_submit_ts := (stage_submit_ts rs)(sid \<mapsto> now)\<rparr>)"

definition set_engine_outputs :: "nat \<Rightarrow> 'x stage_output \<Rightarrow> 'x orch \<Rightarrow> 'x orch" where
  "set_engine_outputs sid out s = s\<lparr>engine_outputs := (engine_outputs s)(sid := Some out)\<rparr>"

definition next_stage_already_submitted :: "nat \<Rightarrow> 'x stage_request \<Rightarrow> bool" where
  "next_stage_already_submitted sid rs \<longleftrightarrow> stage_submit_ts rs (sid + 1) \<noteq> None"

definition count_tokens :: "'x stage_output \<Rightarrow> nat" where
  "count_tokens out = (case o_token_ids out of None \<Rightarrow> 0 | Some ts \<Rightarrow> length ts)"

definition build_stage_metrics :: "rat \<Rightarrow> nat \<Rightarrow> 'x stage_output \<Rightarrow> 'x stage_request \<Rightarrow> 'x orch \<Rightarrow> 'x orch \<times> stage_metrics" where
  "build_stage_metrics now sid out rs s =
     (let submit_ts = (case stage_submit_ts rs sid of None \<Rightarrow> now | Some t \<Rightarrow> t);
          gen_time = (now - submit_ts) * 1000;
          tokens_out = count_tokens out;
          tokens_in = (if sid = 0 then (case o_prompt_token_ids out of None \<Rightarrow> 0 | Some ts \<Rightarrow> length ts) else 0);
          s1 = s\<lparr>batch_seq := (batch_seq s)(sid := batch_seq s sid + 1),
                 agg_total_tokens := (agg_total_tokens s)(sid := agg_total_tokens s sid + tokens_out),
                 agg_total_gen_time_ms := (agg_total_gen_time_ms s)(sid := agg_total_gen_time_ms s sid + gen_time)\<rparr>
      in (s1, \<lparr>sm_tokens_in = tokens_in, sm_tokens_out = tokens_out, sm_gen_time_ms = gen_time,
               sm_batch_id = batch_seq s1 sid, sm_total_token = agg_total_tokens s1 sid,
               sm_total_gen_time_ms = agg_total_gen_time_ms s1 sid\<rparr>))"

section \<open>Submitting to a stage\<close>

definition build_engine_core_request_from_tokens ::
  "string \<Rightarrow> 'x stage_prompt \<Rightarrow> 'x params \<Rightarrow> rat \<Rightarrow> int \<Rightarrow> bool \<Rightarrow> 'x option \<Rightarrow> 'x core_request res" where
  "build_engine_core_request_from_tokens r p params now max_len resumable mm =
     (case p of
        Dict_prompt (Some toks) x \<Rightarrow>
          Inr \<lparr>cr_request_id = r, cr_external_req_id = r, cr_prompt_token_ids = toks, cr_prompt = x,
               cr_params = (if params_kind params = Sampling \<and> max_tokens params = None
                            then params\<lparr>max_tokens := Some (max_len - int (length toks))\<rparr> else params),
               cr_mm_features = mm, cr_resumable = resumable, cr_arrival_time = now\<rparr>
      | Dict_prompt None x \<Rightarrow> Inl KeyError
      | _ \<Rightarrow> Inl TypeError)"

text \<open>One request per input: it is registered with the stage's output processor and submitted.\<close>

fun submit_inputs ::
  "'x orch_config \<Rightarrow> rat \<Rightarrow> string \<Rightarrow> nat \<Rightarrow> 'x params \<Rightarrow> 'x option \<Rightarrow> bool \<Rightarrow> 'x stage_prompt list \<Rightarrow> 'x orch \<Rightarrow> 'x orch \<times> unit res" where
  "submit_inputs cfg now r sid params mm resumable [] s = (s, Inr ())"
| "submit_inputs cfg now r sid params mm resumable (p # ps) s =
     (case build_engine_core_request_from_tokens r p params now (max_model_len (stage_clients cfg ! sid)) resumable mm of
        Inl e \<Rightarrow> (s, Inl e)
      | Inr q \<Rightarrow> submit_inputs cfg now r sid params mm resumable ps (add_call (Add_core sid q) (add_call (Register sid q) s)))"

definition attach_cfg_request_ids :: "string \<Rightarrow> 'x params \<Rightarrow> 'x stage_output tracker \<Rightarrow> 'x params" where
  "attach_cfg_request_ids p params t =
     (let ids = get_companion_request_ids p t
      in if ids \<noteq> [] \<and> params_kind params = Diffusion then params\<lparr>cfg_kv_request_ids := Some ids\<rparr> else params)"

definition build_kv_sender_info :: "'x orch_config \<Rightarrow> int list \<Rightarrow> 'x senders" where
  "build_kv_sender_info cfg ids =
     (let infos = List.map_filter (\<lambda>i. if i < 0 \<or> int (length (stage_clients cfg)) \<le> i then None
           else (case kv_sender_info (stage_clients cfg ! nat i) of
                   Some (Some info) \<Rightarrow> Some (nat i, info) | _ \<Rightarrow> None)) (fromkeys ids)
      in if infos \<noteq> [] then Some infos else None)"

definition decode_kv_params :: "'x orch_config \<Rightarrow> string \<Rightarrow> kv_dict \<Rightarrow> kv_dict" where
  "decode_kv_params cfg r prefill =
     (let d0 = [(''transfer_id'', KStr (''xfer-'' @ r))];
          d1 = (case pd_bootstrap_addr cfg of Some a \<Rightarrow> (if a \<noteq> [] then dict_set ''remote_bootstrap_addr'' (KStr a) d0 else d0) | None \<Rightarrow> d0);
          d2 = (case pd_prefill_engine_id cfg of Some i \<Rightarrow> (if i \<noteq> [] then dict_set ''remote_engine_id'' (KStr i) d1 else d1) | None \<Rightarrow> d1);
          d3 = fold (\<lambda>(k, v). dict_set k v) prefill d2;
          d4 = dict_set ''do_remote_decode'' (KBool False) (dict_set ''do_remote_prefill'' (KBool True) d3)
      in (case map_of d4 ''transfer_id'' of
            Some v \<Rightarrow> (if kv_truthy v then d4 else dict_set ''transfer_id'' (KStr (''xfer-'' @ r)) d4)
          | None \<Rightarrow> dict_set ''transfer_id'' (KStr (''xfer-'' @ r)) d4))"

definition build_pd_decode_params :: "'x orch_config \<Rightarrow> string \<Rightarrow> 'x params \<Rightarrow> 'x orch \<Rightarrow> 'x orch \<times> 'x params res" where
  "build_pd_decode_params cfg r params s =
     (pop_kv r s,
      (case pd_kv_params s r of
         Some prefill \<Rightarrow>
           (if map_of prefill ''remote_request_id'' \<noteq> None
            then Inr (params\<lparr>extra_kv_params := Some (decode_kv_params cfg r prefill)\<rparr>) else Inl RuntimeError)
       | None \<Rightarrow> Inl RuntimeError))"

text \<open>The decode inputs: dictionaries as they are, processed requests by their tokens.\<close>

definition decode_inputs :: "'x stage_prompt \<Rightarrow> 'x stage_prompt list res" where
  "decode_inputs p =
     (let raw = (case p of Batch_prompt ps \<Rightarrow> ps | _ \<Rightarrow> [p]);
          one = (\<lambda>q. case q of Dict_prompt _ _ \<Rightarrow> Some q
                    | Engine_prompt _ (Some toks) _ _ _ \<Rightarrow> Some (Dict_prompt (Some toks) None) | _ \<Rightarrow> None)
      in if None \<in> set (map one raw) then Inl TypeError else Inr (map (the \<circ> one) raw))"

section \<open>Forwarding\<close>

definition forget_request :: "string \<Rightarrow> 'x orch \<Rightarrow> 'x orch" where
  "forget_request r s = pop_state r (on_tracker (\<lambda>t. fst (cleanup_parent r t)) (pop_kv r s))"

definition no_inputs_output :: "string \<Rightarrow> string \<Rightarrow> 'x stage_output" where
  "no_inputs_output r e = \<lparr>o_request_id = r, o_finished = True, o_error = Some e, o_kv_params = None, o_token_ids = None,
     o_prompt_token_ids = None, o_segment_finished = False, o_new_prompt_len = None, o_body = None\<rparr>"

definition submit_diffusion ::
  "'x orch_config \<Rightarrow> rat \<Rightarrow> string \<Rightarrow> nat \<Rightarrow> 'x stage_prompt \<Rightarrow> 'x params \<Rightarrow> 'x orch \<Rightarrow> 'x orch" where
  "submit_diffusion cfg now r sid p params s =
     (let client = stage_clients cfg ! (sid + 1);
          params1 = attach_cfg_request_ids r params (cfg_tracker s);
          src = (if engine_input_source client = [] then [int sid] else engine_input_source client);
          senders = build_kv_sender_info cfg src;
          c = (case p of Batch_prompt ps \<Rightarrow> Add_batch (sid + 1) r ps params1 senders
               | _ \<Rightarrow> Add_diffusion (sid + 1) r p params1 senders)
      in mark_submitted r (sid + 1) now (add_call c s))"

definition forward_diffusion ::
  "'x orch_config \<Rightarrow> rat \<Rightarrow> string \<Rightarrow> nat \<Rightarrow> 'x stage_output \<Rightarrow> 'x stage_request \<Rightarrow> 'x params \<Rightarrow> 'x orch \<Rightarrow> 'x orch \<times> unit res" where
  "forward_diffusion cfg now r sid out rs params s =
     (let client = stage_clients cfg ! (sid + 1);
          s1 = set_engine_outputs sid out s
      in (case custom_process_input_func client of
            None \<Rightarrow> (submit_diffusion cfg now r sid (rs_prompt rs) params s1, Inr ())
          | Some f \<Rightarrow>
              (case f (engine_outputs s1) (engine_input_source client) (rs_prompt rs) of
                 Inl e \<Rightarrow> (s1, Inl e)
               | Inr (Batch_prompt []) \<Rightarrow>
                   (forget_request r (put_out (Output_msg r (sid + 1) (no_inputs_output r ''no valid inputs'') None True None) s1), Inr ())
               | Inr (Batch_prompt (p # ps)) \<Rightarrow> (submit_diffusion cfg now r sid p params s1, Inr ())
               | Inr p \<Rightarrow> (submit_diffusion cfg now r sid p params s1, Inr ()))))"

definition forward_pd ::
  "'x orch_config \<Rightarrow> rat \<Rightarrow> string \<Rightarrow> nat \<Rightarrow> 'x stage_output \<Rightarrow> 'x stage_request \<Rightarrow> 'x params \<Rightarrow> 'x orch \<Rightarrow> 'x orch \<times> unit res" where
  "forward_pd cfg now r sid out rs params s =
     (case build_pd_decode_params cfg r params (set_engine_outputs sid out s) of
        (s1, Inl e) \<Rightarrow> (s1, Inl e)
      | (s1, Inr params1) \<Rightarrow>
          (case decode_inputs (rs_prompt rs) of
             Inl e \<Rightarrow> (s1, Inl e)
           | Inr ps \<Rightarrow>
               (case submit_inputs cfg now r (sid + 1) params1 (rs_mm_features rs) False ps s1 of
                  (s2, Inl e) \<Rightarrow> (s2, Inl e)
                | (s2, Inr _) \<Rightarrow> (mark_submitted r (sid + 1) now s2, Inr ()))))"

definition forward_engine ::
  "'x orch_config \<Rightarrow> rat \<Rightarrow> string \<Rightarrow> nat \<Rightarrow> 'x stage_output \<Rightarrow> 'x stage_request \<Rightarrow> 'x params \<Rightarrow> bool \<Rightarrow> 'x orch \<Rightarrow> 'x orch \<times> unit res" where
  "forward_engine cfg now r sid out rs params resumable s =
     (let client = stage_clients cfg ! (sid + 1);
          s1 = set_engine_outputs sid out s
      in (case process_engine_inputs client (engine_outputs s1) (rs_prompt rs)
                 (if streaming_enabled (streaming rs) then Some (streaming rs) else None) of
            Inl e \<Rightarrow> (s1, Inl e)
          | Inr ps \<Rightarrow>
              (case submit_inputs cfg now r (sid + 1) params
                      (if model_stage client = Some ''thinker'' then rs_mm_features rs else None) resumable ps s1 of
                 (s2, Inl e) \<Rightarrow> (s2, Inl e)
               | (s2, Inr _) \<Rightarrow> (mark_submitted r (sid + 1) now s2, Inr ()))))"

definition forward_to_next_stage ::
  "'x orch_config \<Rightarrow> rat \<Rightarrow> string \<Rightarrow> nat \<Rightarrow> 'x stage_output \<Rightarrow> 'x stage_request \<Rightarrow> bool \<Rightarrow> bool \<Rightarrow> 'x orch \<Rightarrow> 'x orch \<times> unit res" where
  "forward_to_next_stage cfg now r sid out rs is_streaming_session is_final_update s =
     (if length (stage_clients cfg) \<le> sid + 1 \<or> length (sampling_params_list rs) \<le> sid + 1 then (s, Inl IndexError)
      else (let params = sampling_params_list rs ! (sid + 1)
            in if is_diffusion (stage_clients cfg ! (sid + 1)) then forward_diffusion cfg now r sid out rs params s
               else if pd_pair cfg = Some (sid, sid + 1) then forward_pd cfg now r sid out rs params s
               else forward_engine cfg now r sid out rs params (is_streaming_session \<and> \<not> is_final_update) s))"

section \<open>Routing outputs\<close>

definition handle_cfg_companion_ready :: "'x orch_config \<Rightarrow> rat \<Rightarrow> string \<Rightarrow> 'x orch \<Rightarrow> 'x orch \<times> unit res" where
  "handle_cfg_companion_ready cfg now c s =
     (case on_companion_completed c (cfg_tracker s) of
        (t1, Inl e) \<Rightarrow> (s\<lparr>cfg_tracker := t1\<rparr>, Inl e)
      | (t1, Inr None) \<Rightarrow> (s\<lparr>cfg_tracker := t1\<rparr>, Inr ())
      | (t1, Inr (Some p)) \<Rightarrow>
          (case pop_pending_parent p t1 of (t2, d) \<Rightarrow>
             (let s2 = s\<lparr>cfg_tracker := t2\<rparr>
              in (case (d, get_state p s2) of
                    (Some (out, sid), Some rs) \<Rightarrow>
                      (if next_stage_already_submitted sid rs then (s2, Inr ())
                       else forward_to_next_stage cfg now p sid out rs False False s2)
                  | _ \<Rightarrow> (s2, Inr ())))))"

text \<open>The message to the caller.\<close>

definition report_output ::
  "'x orch_config \<Rightarrow> nat \<Rightarrow> 'x stage_output \<Rightarrow> 'x stage_request \<Rightarrow> stage_metrics option \<Rightarrow> 'x orch \<Rightarrow> 'x orch" where
  "report_output cfg sid out rs metrics s =
     (if final_output (stage_clients cfg ! sid)
      then put_out (Output_msg (o_request_id out) sid out metrics (o_finished out \<and> int sid = final_stage_id rs) (stage_submit_ts rs sid)) s
      else (case metrics of
              Some m \<Rightarrow> put_out (Metrics_msg (o_request_id out) sid m (stage_submit_ts rs sid)) s
            | None \<Rightarrow> s))"

definition store_kv_params :: "'x orch_config \<Rightarrow> nat \<Rightarrow> 'x stage_output \<Rightarrow> 'x orch \<Rightarrow> 'x orch" where
  "store_kv_params cfg sid out s =
     (case pd_pair cfg of
        Some (a, b) \<Rightarrow>
          (if o_finished out \<and> sid = a
           then (case o_kv_params out of Some d \<Rightarrow> s\<lparr>pd_kv_params := (pd_kv_params s)(o_request_id out \<mapsto> d)\<rparr> | None \<Rightarrow> s)
           else s)
      | None \<Rightarrow> s)"

definition should_forward :: "'x orch_config \<Rightarrow> nat \<Rightarrow> 'x stage_output \<Rightarrow> 'x stage_request \<Rightarrow> bool" where
  "should_forward cfg sid out rs \<longleftrightarrow>
     (o_finished out \<or> (streaming_enabled (streaming rs) \<and> segment_finished (streaming rs)))
     \<and> int sid < final_stage_id rs \<and> \<not> async_chunk cfg
     \<and> (\<not> next_stage_already_submitted sid rs \<or> streaming_enabled (streaming rs))"

definition must_wait :: "string \<Rightarrow> 'x stage_output tracker \<Rightarrow> bool" where
  "must_wait r t \<longleftrightarrow> has_companions r t \<and> \<not> all_companions_done r t"

definition forward_output ::
  "'x orch_config \<Rightarrow> rat \<Rightarrow> nat \<Rightarrow> 'x stage_output \<Rightarrow> 'x stage_request \<Rightarrow> 'x orch \<Rightarrow> 'x orch \<times> unit res" where
  "forward_output cfg now sid out rs s =
     (let r = o_request_id out; str = streaming_enabled (streaming rs)
      in if \<not> should_forward cfg sid out rs then (s, Inr ())
         else if o_finished out \<and> must_wait r (cfg_tracker s) then (on_tracker (defer_parent r out sid) s, Inr ())
         else (case forward_to_next_stage cfg now r sid out rs str False s of
                 (s1, Inl e) \<Rightarrow> (s1, Inl e)
               | (s1, Inr _) \<Rightarrow>
                   (if str \<and> o_finished out then forward_to_next_stage cfg now r sid out rs True True s1 else (s1, Inr ()))))"

definition route_output ::
  "'x orch_config \<Rightarrow> rat \<Rightarrow> nat \<Rightarrow> 'x stage_output \<Rightarrow> 'x stage_request \<Rightarrow> stage_metrics option \<Rightarrow> 'x orch \<Rightarrow> 'x orch \<times> unit res" where
  "route_output cfg now sid out rs metrics s =
     (let r = o_request_id out
      in if o_finished out \<and> is_companion r (cfg_tracker s)
         then (case handle_cfg_companion_ready cfg now r s of
                 (s1, Inl e) \<Rightarrow> (s1, Inl e)
               | (s1, Inr _) \<Rightarrow> (pop_state r s1, Inr ()))
         else (case forward_output cfg now sid out rs (store_kv_params cfg sid out (report_output cfg sid out rs metrics s)) of
                 (s1, Inl e) \<Rightarrow> (s1, Inl e)
               | (s1, Inr _) \<Rightarrow>
                   (if o_finished out \<and> int sid = final_stage_id rs then (forget_request r s1, Inr ()) else (s1, Inr ()))))"

definition kv_ready :: "'x stage_output \<Rightarrow> bool" where
  "kv_ready out = (case o_kv_params out of None \<Rightarrow> False
     | Some d \<Rightarrow> (case map_of d ''kv_ready'' of None \<Rightarrow> False | Some v \<Rightarrow> kv_truthy v))"

fun handle_kv_ready_raw_outputs ::
  "'x orch_config \<Rightarrow> rat \<Rightarrow> nat \<Rightarrow> 'x stage_output list \<Rightarrow> 'x orch \<Rightarrow> 'x orch \<times> unit res" where
  "handle_kv_ready_raw_outputs cfg now sid [] s = (s, Inr ())"
| "handle_kv_ready_raw_outputs cfg now sid (out # outs) s =
     (let r = o_request_id out;
          res = (if async_chunk cfg \<or> \<not> kv_ready out then (s, Inr ())
                 else (case get_state r s of
                         None \<Rightarrow> (s, Inr ())
                       | Some rs \<Rightarrow>
                           (if is_companion r (cfg_tracker s) then handle_cfg_companion_ready cfg now r s
                            else if final_stage_id rs \<le> int sid \<or> next_stage_already_submitted sid rs then (s, Inr ())
                            else if must_wait r (cfg_tracker s) then (on_tracker (defer_parent r out sid) s, Inr ())
                            else forward_to_next_stage cfg now r sid out rs False False s)))
      in (case res of (s1, Inl e) \<Rightarrow> (s1, Inl e) | (s1, Inr _) \<Rightarrow> handle_kv_ready_raw_outputs cfg now sid outs s1))"

text \<open>
  \<open>_process_stage_outputs\<close>: \<open>process\<close> is the output processor, with the requests it wants aborted.
\<close>

type_synonym 'x processor = "nat \<Rightarrow> 'x stage_output list \<Rightarrow> 'x stage_output list \<times> string list"

definition note_segment :: "'x stage_output \<Rightarrow> 'x orch \<Rightarrow> 'x orch" where
  "note_segment out = update_state (o_request_id out) (\<lambda>rs. rs\<lparr>streaming := (streaming rs)\<lparr>
     segment_finished := o_segment_finished out, new_prompt_len_snapshot := o_new_prompt_len out\<rparr>\<rparr>)"

definition process_stage_outputs ::
  "'x processor \<Rightarrow> nat \<Rightarrow> 'x stage_output list \<Rightarrow> 'x orch \<Rightarrow> 'x orch \<times> 'x stage_output list" where
  "process_stage_outputs process sid raws s =
     (case process sid raws of (outs, to_abort) \<Rightarrow>
        (let s1 = fold note_segment raws s
         in (if to_abort \<noteq> [] then add_call (Abort sid to_abort) s1 else s1, outs)))"

fun route_outputs :: "'x orch_config \<Rightarrow> rat \<Rightarrow> nat \<Rightarrow> 'x stage_output list \<Rightarrow> 'x orch \<Rightarrow> 'x orch \<times> unit res" where
  "route_outputs cfg now sid [] s = (s, Inr ())"
| "route_outputs cfg now sid (out # outs) s =
     (case get_state (o_request_id out) s of
        None \<Rightarrow> route_outputs cfg now sid outs s
      | Some rs \<Rightarrow>
          (let (s1, metrics) = (if o_finished out then (case build_stage_metrics now sid out rs s of (s1, m) \<Rightarrow> (s1, Some m)) else (s, None))
           in (case route_output cfg now sid out rs metrics s1 of
                 (s2, Inl e) \<Rightarrow> (s2, Inl e)
               | (s2, Inr _) \<Rightarrow> route_outputs cfg now sid outs s2)))"

section \<open>The polling loop's steps\<close>

definition on_raw_outputs ::
  "'x orch_config \<Rightarrow> 'x processor \<Rightarrow> rat \<Rightarrow> nat \<Rightarrow> 'x stage_output list \<Rightarrow> 'x orch \<Rightarrow> 'x orch \<times> unit res" where
  "on_raw_outputs cfg process now sid raws s =
     (case handle_kv_ready_raw_outputs cfg now sid raws s of
        (s1, Inl e) \<Rightarrow> (s1, Inl e)
      | (s1, Inr _) \<Rightarrow> (case process_stage_outputs process sid raws s1 of (s2, outs) \<Rightarrow> route_outputs cfg now sid outs s2))"

definition on_diffusion_output :: "'x orch_config \<Rightarrow> rat \<Rightarrow> nat \<Rightarrow> 'x stage_output \<Rightarrow> 'x orch \<Rightarrow> 'x orch \<times> unit res" where
  "on_diffusion_output cfg now sid out s =
     (if o_error out \<noteq> None
      then (pop_state (o_request_id out) (put_out (Output_msg (o_request_id out) sid out None True None) s), Inr ())
      else (case get_state (o_request_id out) s of
              None \<Rightarrow> (s, Inr ())
            | Some rs \<Rightarrow> (case build_stage_metrics now sid out rs s of (s1, m) \<Rightarrow> route_output cfg now sid out rs (Some m) s1)))"

fun notify_fatal :: "string \<Rightarrow> nat \<Rightarrow> string list \<Rightarrow> 'x orch \<Rightarrow> 'x orch" where
  "notify_fatal e sid [] s = s"
| "notify_fatal e sid (r # rs) s = notify_fatal e sid rs (pop_state r (put_out (Fatal_msg e r sid) s))"

definition on_engine_dead :: "nat \<Rightarrow> string \<Rightarrow> 'x orch \<Rightarrow> 'x orch \<times> unit res" where
  "on_engine_dead sid e s =
     (let s1 = s\<lparr>fatal_error := Some (e, sid)\<rparr>;
          victims = map fst (filter (\<lambda>(r, rs). stage_submit_ts rs sid \<noteq> None) (request_states s1))
      in ((notify_fatal e sid victims s1)\<lparr>shutdown_event := True\<rparr>, Inl EngineDeadError))"

end
