(* ===== verification/Orchestrator_Requests.thy ===== *)
theory Orchestrator_Requests
  imports Orchestrator
begin

text \<open>
  The messages of the callers to the \<open>Orchestrator\<close>, its steps, and how it ends: after a shutdown
  message, or after an exception in either of its tasks, which stops both.
\<close>

section \<open>New requests\<close>

record 'x add_msg =
  m_request_id :: string
  m_prompt :: "'x stage_prompt"
  m_original_prompt :: "'x stage_prompt option"
  m_sampling_params_list :: "'x params list option"
  m_final_stage_id :: int

fun resumable :: "'x stage_prompt \<Rightarrow> bool" where
  "resumable (Engine_prompt _ _ b _ _) = b"
| "resumable _ = False"

fun mm_features :: "'x stage_prompt \<Rightarrow> 'x option" where
  "mm_features (Engine_prompt _ _ _ mm _) = mm"
| "mm_features _ = None"

fun prompt_token_ids :: "'x stage_prompt \<Rightarrow> int list option" where
  "prompt_token_ids (Engine_prompt _ toks _ _ _) = toks"
| "prompt_token_ids _ = None"

text \<open>
  \<open>compute_talker_prompt_ids_length\<close>: the lengths of the user parts and nine tokens for a last
  assistant part. A text that ends with the start token raises.
\<close>

definition im_start_indexes :: "int list \<Rightarrow> nat list" where
  "im_start_indexes ids = filter (\<lambda>i. ids ! i = 151644) [0 ..< length ids] @ [length ids]"

fun talker_parts :: "int list \<Rightarrow> nat list \<Rightarrow> nat res" where
  "talker_parts ids (a # b # is) =
     bind_res (py_get ids (a + 1)) (\<lambda>role. bind_res (talker_parts ids (b # is)) (\<lambda>n.
       Inr (n + (if role = 8948 then 0 else if role = 872 then b - a
                 else if role = 77091 \<and> is = [] then 9 else 0))))"
| "talker_parts ids _ = Inr 0"

definition compute_talker_prompt_ids_length :: "int list \<Rightarrow> nat res" where
  "compute_talker_prompt_ids_length ids = talker_parts ids (im_start_indexes ids)"

definition next_prompt_len :: "int list \<Rightarrow> nat" where
  "next_prompt_len ids = max 1 (case compute_talker_prompt_ids_length ids of Inl _ \<Rightarrow> length ids | Inr n \<Rightarrow> n)"

definition add_diffusion_request ::
  "'x orch_config \<Rightarrow> nat \<Rightarrow> string \<Rightarrow> 'x stage_prompt \<Rightarrow> 'x params \<Rightarrow> 'x senders \<Rightarrow> 'x orch \<Rightarrow> 'x orch" where
  "add_diffusion_request cfg sid r p params senders = add_call (Add_diffusion sid r p params senders)"

text \<open>The later stages are armed when chunks travel between them directly.\<close>

fun prewarm_stages ::
  "'x orch_config \<Rightarrow> rat \<Rightarrow> string \<Rightarrow> 'x stage_request \<Rightarrow> 'x stage_prompt \<Rightarrow> nat list \<Rightarrow> 'x orch \<Rightarrow> 'x orch \<times> unit res" where
  "prewarm_stages cfg now r rs base [] s = (s, Inr ())"
| "prewarm_stages cfg now r rs base (sid # sids) s =
     (if length (stage_clients cfg) \<le> sid \<or> length (sampling_params_list rs) \<le> sid then (s, Inl IndexError)
      else (let client = stage_clients cfg ! sid; params = sampling_params_list rs ! sid
            in if is_diffusion client
               then (let src = (if engine_input_source client = [] then [int sid - 1] else engine_input_source client)
                     in prewarm_stages cfg now r rs base sids
                          (mark_submitted r sid now
                            (add_diffusion_request cfg sid r (rs_prompt rs) params (build_kv_sender_info cfg src) s)))
               else (case submit_inputs cfg now r sid params None False [base] s of
                       (s1, Inl e) \<Rightarrow> (s1, Inl e)
                     | (s1, Inr _) \<Rightarrow> prewarm_stages cfg now r rs base sids (mark_submitted r sid now s1))))"

definition prewarm_async_chunk_stages ::
  "'x orch_config \<Rightarrow> rat \<Rightarrow> string \<Rightarrow> 'x stage_prompt \<Rightarrow> 'x stage_request \<Rightarrow> 'x orch \<Rightarrow> 'x orch \<times> unit res" where
  "prewarm_async_chunk_stages cfg now r stage0 rs s =
     (if final_stage_id rs \<le> 0 then (s, Inr ())
      else (case prompt_token_ids stage0 of
              None \<Rightarrow> (s, Inr ())
            | Some toks \<Rightarrow>
                (let body = (case rs_prompt rs of Dict_prompt _ x \<Rightarrow> x | _ \<Rightarrow> None);
                     base = Dict_prompt (Some (replicate (next_prompt_len toks) 0)) body
                 in prewarm_stages cfg now r rs base [1 ..< Suc (nat (final_stage_id rs))] s)))"

definition new_req_state :: "rat \<Rightarrow> 'x add_msg \<Rightarrow> 'x params list \<Rightarrow> 'x stage_request" where
  "new_req_state now m spl = \<lparr>
     rs_prompt = (case m_original_prompt m of Some p \<Rightarrow> p | None \<Rightarrow> m_prompt m),
     sampling_params_list = spl, final_stage_id = m_final_stage_id m, stage_submit_ts = [0 \<mapsto> now],
     rs_mm_features = mm_features (m_prompt m),
     streaming = \<lparr>streaming_enabled = resumable (m_prompt m), segment_finished = False, new_prompt_len_snapshot = None\<rparr>\<rparr>"

definition submit_to_stage0 ::
  "'x orch_config \<Rightarrow> string \<Rightarrow> 'x stage_prompt \<Rightarrow> 'x params \<Rightarrow> 'x orch \<Rightarrow> 'x orch" where
  "submit_to_stage0 cfg r p params s =
     (if is_diffusion (stage_clients cfg ! 0)
      then add_call (case p of Batch_prompt ps \<Rightarrow> Add_batch 0 r ps params None | _ \<Rightarrow> Add_diffusion 0 r p params None) s
      else add_call (Add_prompt 0 p) s)"

definition handle_add_request :: "'x orch_config \<Rightarrow> rat \<Rightarrow> 'x add_msg \<Rightarrow> 'x orch \<Rightarrow> 'x orch \<times> unit res" where
  "handle_add_request cfg now m s =
     (case m_sampling_params_list m of
        None \<Rightarrow> (s, Inl KeyError)
      | Some [] \<Rightarrow> (s, Inl ValueError)
      | Some (params # spl) \<Rightarrow>
          (let r = m_request_id m;
               rs = new_req_state now m (params # spl);
               s1 = submit_to_stage0 cfg r (m_prompt m) params (s\<lparr>request_states := dict_set r rs (request_states s)\<rparr>)
           in if async_chunk cfg \<and> 0 < final_stage_id rs
              then prewarm_async_chunk_stages cfg now r (m_prompt m) rs s1 else (s1, Inr ())))"

definition handle_streaming_update :: "'x orch_config \<Rightarrow> rat \<Rightarrow> 'x add_msg \<Rightarrow> 'x orch \<Rightarrow> 'x orch \<times> unit res" where
  "handle_streaming_update cfg now m s =
     (let r = m_request_id m
      in (case get_state r s of
            None \<Rightarrow> handle_add_request cfg now m s
          | Some rs \<Rightarrow>
              (let spl = (case m_sampling_params_list m of Some (p # ps) \<Rightarrow> p # ps | _ \<Rightarrow> sampling_params_list rs);
                   s1 = update_state r (\<lambda>rs. rs\<lparr>sampling_params_list := spl, streaming := (streaming rs)\<lparr>streaming_enabled := True\<rparr>,
                          stage_submit_ts := (stage_submit_ts rs)(0 \<mapsto> now)\<rparr>) s
               in if is_diffusion (stage_clients cfg ! 0)
                  then (case spl of [] \<Rightarrow> (s1, Inl IndexError)
                        | p # _ \<Rightarrow> (add_diffusion_request cfg 0 r (m_prompt m) p None s1, Inr ()))
                  else (add_call (Add_prompt 0 (m_prompt m)) s1, Inr ()))))"

record 'x companion_msg =
  c_companion_id :: string
  c_parent_id :: string
  c_role :: string
  c_prompt :: "'x stage_prompt"
  c_sampling_params_list :: "'x params list"

definition handle_add_companion :: "'x orch_config \<Rightarrow> rat \<Rightarrow> 'x companion_msg \<Rightarrow> 'x orch \<Rightarrow> 'x orch \<times> unit res" where
  "handle_add_companion cfg now m s =
     (let c = c_companion_id m;
          rs = \<lparr>rs_prompt = c_prompt m, sampling_params_list = c_sampling_params_list m, final_stage_id = 0,
                stage_submit_ts = [0 \<mapsto> now], rs_mm_features = None,
                streaming = \<lparr>streaming_enabled = False, segment_finished = False, new_prompt_len_snapshot = None\<rparr>\<rparr>;
          s1 = on_tracker (register_companion (c_parent_id m) (c_role m) c) s
      in (add_call (Add_prompt 0 (c_prompt m)) (s1\<lparr>request_states := dict_set c rs (request_states s1)\<rparr>), Inr ()))"

definition handle_abort :: "'x orch_config \<Rightarrow> (string list \<Rightarrow> string list) \<Rightarrow> string list \<Rightarrow> 'x orch \<Rightarrow> 'x orch" where
  "handle_abort cfg ord ids s =
     (case abort_parents ord ids (cfg_tracker s) of (t1, all) \<Rightarrow>
        s\<lparr>cfg_tracker := t1, calls := calls s @ map (\<lambda>sid. Abort sid all) [0 ..< length (stage_clients cfg)],
          request_states := fold dict_pop all (request_states s)\<rparr>)"

section \<open>Control calls\<close>

text \<open>
  \<open>rpc\<close> is what a stage client answers to a control call: \<open>None\<close> when it has no such method, and the
  result or its exception otherwise.
\<close>

datatype 'v rpc_result = Invalid_stage int | Not_implemented | Rpc_failed py_error | Rpc_value 'v

definition handle_collective_rpc :: "'x orch_config \<Rightarrow> (nat \<Rightarrow> 'v res option) \<Rightarrow> int list option \<Rightarrow> int list \<times> 'v rpc_result list" where
  "handle_collective_rpc cfg rpc requested =
     (let n = length (stage_clients cfg);
          ids = (case requested of None \<Rightarrow> map int [0 ..< n] | Some is \<Rightarrow> is)
      in (ids, map (\<lambda>i. if i < 0 \<or> int n \<le> i then Invalid_stage i
                else (case rpc (nat i) of None \<Rightarrow> Not_implemented
                      | Some (Inl e) \<Rightarrow> Rpc_failed e | Some (Inr v) \<Rightarrow> Rpc_value v)) ids))"

section \<open>Steps and runs\<close>

datatype 'x request_msg =
    Add_request "'x add_msg"
  | Streaming_update "'x add_msg"
  | Add_companion "'x companion_msg"
  | Abort_requests "string list"
  | Shutdown
  | Other_message

definition shutdown_stages :: "'x orch \<Rightarrow> 'x orch" where
  "shutdown_stages s = s\<lparr>stages_shutdown := True\<rparr>"

definition handle_request ::
  "'x orch_config \<Rightarrow> (string list \<Rightarrow> string list) \<Rightarrow> rat \<Rightarrow> 'x request_msg \<Rightarrow> 'x orch \<Rightarrow> 'x orch \<times> unit res" where
  "handle_request cfg ord now m s =
     (case m of
        Add_request a \<Rightarrow> handle_add_request cfg now a s
      | Streaming_update a \<Rightarrow> handle_streaming_update cfg now a s
      | Add_companion c \<Rightarrow> handle_add_companion cfg now c s
      | Abort_requests ids \<Rightarrow> (handle_abort cfg ord ids s, Inr ())
      | Shutdown \<Rightarrow> (shutdown_stages (s\<lparr>shutdown_event := True\<rparr>), Inr ())
      | Other_message \<Rightarrow> (s, Inr ()))"

text \<open>
  \<open>Poll_failed\<close>: polling a stage raises something else, or a diffusion stage is dead, whose
  exception is not caught.
\<close>

datatype 'x event =
    Message "'x request_msg"
  | Diffusion_output nat "'x stage_output"
  | Raw_outputs nat "'x stage_output list"
  | Engine_dead nat string
  | Poll_failed nat py_error

definition orch_step ::
  "'x orch_config \<Rightarrow> (string list \<Rightarrow> string list) \<Rightarrow> 'x processor \<Rightarrow> rat \<Rightarrow> 'x event \<Rightarrow> 'x orch \<Rightarrow> 'x orch \<times> unit res" where
  "orch_step cfg ord process now e s =
     (case e of
        Message m \<Rightarrow> handle_request cfg ord now m s
      | Diffusion_output sid out \<Rightarrow> on_diffusion_output cfg now sid out s
      | Raw_outputs sid raws \<Rightarrow> on_raw_outputs cfg process now sid raws s
      | Engine_dead sid err \<Rightarrow> on_engine_dead sid err s
      | Poll_failed sid err \<Rightarrow> (s, Inl err))"

text \<open>
  The end of \<open>run\<close> after a fatal error: the messages still queued, then the requests still tracked.
\<close>

fun drain_messages :: "string \<Rightarrow> nat \<Rightarrow> 'x request_msg list \<Rightarrow> string list \<Rightarrow> 'x orch \<Rightarrow> 'x orch \<times> string list" where
  "drain_messages e sid [] notified s = (s, notified)"
| "drain_messages e sid (m # ms) notified s =
     (case m of
        Add_request a \<Rightarrow> drain_messages e sid ms (m_request_id a # notified) (put_out (Fatal_msg e (m_request_id a) sid) s)
      | _ \<Rightarrow> drain_messages e sid ms notified s)"

fun drain_states :: "string \<Rightarrow> nat \<Rightarrow> string list \<Rightarrow> string list \<Rightarrow> 'x orch \<Rightarrow> 'x orch" where
  "drain_states e sid [] notified s = s"
| "drain_states e sid (r # rs) notified s =
     drain_states e sid rs notified (pop_state r (if r \<in> set notified then s else put_out (Fatal_msg e r sid) s))"

definition drain_pending_requests_on_fatal :: "'x request_msg list \<Rightarrow> 'x orch \<Rightarrow> 'x orch" where
  "drain_pending_requests_on_fatal pending s =
     (case fatal_error s of
        None \<Rightarrow> s
      | Some (e, sid) \<Rightarrow>
          (case drain_messages e sid pending [] s of (s1, notified) \<Rightarrow>
             drain_states e sid (map fst (request_states s1)) notified s1))"

definition finish_run :: "'x request_msg list \<Rightarrow> 'x orch \<Rightarrow> 'x orch" where
  "finish_run pending s = shutdown_stages (drain_pending_requests_on_fatal pending (s\<lparr>shutdown_event := True\<rparr>))"

text \<open>
  A run: events at their times until an exception or a shutdown, with the messages that are then left.
\<close>

fun run_orch ::
  "'x orch_config \<Rightarrow> (string list \<Rightarrow> string list) \<Rightarrow> 'x processor \<Rightarrow> (rat \<times> 'x event) list \<Rightarrow> 'x request_msg list \<Rightarrow> 'x orch \<Rightarrow> 'x orch" where
  "run_orch cfg ord process [] pending s = s"
| "run_orch cfg ord process ((now, e) # es) pending s =
     (if shutdown_event s then finish_run pending s
      else (case orch_step cfg ord process now e s of
              (s1, Inl err) \<Rightarrow> finish_run pending s1
            | (s1, Inr _) \<Rightarrow> run_orch cfg ord process es pending s1))"

end
