(* ===== verification/Orchestrator_Routing.thy ===== *)
theory Orchestrator_Routing
  imports Orchestrator_Requests
begin

text \<open>
  What a step of the orchestrator does to one request: it is answered with one final message exactly when it
  stops being tracked, and it is submitted to a diffusion stage at most once.
\<close>

section \<open>The view of one request\<close>

fun terminal_for :: "string \<Rightarrow> 'x out_msg \<Rightarrow> bool" where
  "terminal_for r (Output_msg q sid out m fin ts) \<longleftrightarrow> q = r \<and> fin"
| "terminal_for r (Metrics_msg q sid m ts) \<longleftrightarrow> False"
| "terminal_for r (Fatal_msg e q sid) \<longleftrightarrow> q = r"

definition answers :: "string \<Rightarrow> 'x orch \<Rightarrow> nat" where
  "answers r s = length (filter (terminal_for r) (out_queue s))"

fun submits :: "nat \<Rightarrow> string \<Rightarrow> 'x call \<Rightarrow> bool" where
  "submits sid r (Add_diffusion k q p params senders) \<longleftrightarrow> k = sid \<and> q = r"
| "submits sid r (Add_batch k q p params senders) \<longleftrightarrow> k = sid \<and> q = r"
| "submits sid r _ \<longleftrightarrow> False"

definition submissions :: "nat \<Rightarrow> string \<Rightarrow> 'x orch \<Rightarrow> nat" where
  "submissions sid r s = length (filter (submits sid r) (calls s))"

definition same_request :: "'x stage_request \<Rightarrow> 'x stage_request \<Rightarrow> bool" where
  "same_request rs rs' \<longleftrightarrow> final_stage_id rs' = final_stage_id rs
     \<and> streaming_enabled (streaming rs') = streaming_enabled (streaming rs)
     \<and> dom (stage_submit_ts rs) \<subseteq> dom (stage_submit_ts rs')"

lemma same_request_refl [simp]: "same_request rs rs"
  by (simp add: same_request_def)

lemma same_request_trans: "same_request a b \<Longrightarrow> same_request b c \<Longrightarrow> same_request a c"
  by (auto simp: same_request_def)

text \<open>
  A request stays tracked without an answer, or it is answered once and forgotten; a new submission
  to a diffusion stage is the first one, and it happens when the companions of the request are done.
\<close>

abbreviation states_distinct :: "'x orch \<Rightarrow> bool" where
  "states_distinct s \<equiv> distinct (map fst (request_states s))"

definition settles :: "string \<Rightarrow> 'x orch \<Rightarrow> 'x orch \<Rightarrow> bool" where
  "settles r s s' \<longleftrightarrow> companion_ids (cfg_tracker s') \<subseteq> companion_ids (cfg_tracker s) \<and> (states_distinct s \<longrightarrow> states_distinct s')
     \<and> (all_companions_done r (cfg_tracker s) \<longrightarrow> all_companions_done r (cfg_tracker s'))
     \<and> (case get_state r s of
          None \<Rightarrow> get_state r s' = None \<and> answers r s' = answers r s \<and> (\<forall>k. submissions k r s' = submissions k r s)
        | Some rs \<Rightarrow>
            (case get_state r s' of None \<Rightarrow> answers r s' = Suc (answers r s)
             | Some rs' \<Rightarrow> same_request rs rs' \<and> answers r s' = answers r s)
            \<and> (\<forall>k. submissions k r s' = submissions k r s
                 \<or> (k \<notin> dom (stage_submit_ts rs) \<and> submissions k r s' = Suc (submissions k r s)
                    \<and> all_companions_done r (cfg_tracker s')
                    \<and> (\<forall>rs'. get_state r s' = Some rs' \<longrightarrow> k \<in> dom (stage_submit_ts rs')))))"

lemma settles_trans:
  assumes "settles r a b" and "settles r b c"
  shows "settles r a c"
proof (cases "get_state r a")
  case None
  with assms show ?thesis by (auto simp: settles_def)
next
  case (Some rs)
  show ?thesis
  proof (cases "get_state r b")
    case None
    with Some assms show ?thesis by (auto simp: settles_def)
  next
    case sb: (Some rs1)
    have ids: "companion_ids (cfg_tracker c) \<subseteq> companion_ids (cfg_tracker a)"
      and mono: "all_companions_done r (cfg_tracker a) \<longrightarrow> all_companions_done r (cfg_tracker c)"
      and keys: "states_distinct a \<longrightarrow> states_distinct c"
      using assms by (auto simp: settles_def)
    have s1: "same_request rs rs1" "answers r b = answers r a" using assms(1) Some sb by (auto simp: settles_def)
    have sub: "submissions k r c = submissions k r a
        \<or> (k \<notin> dom (stage_submit_ts rs) \<and> submissions k r c = Suc (submissions k r a)
           \<and> all_companions_done r (cfg_tracker c) \<and> (\<forall>rs'. get_state r c = Some rs' \<longrightarrow> k \<in> dom (stage_submit_ts rs')))" for k
    proof -
      have f: "submissions k r b = submissions k r a \<or>
          (k \<notin> dom (stage_submit_ts rs) \<and> submissions k r b = Suc (submissions k r a)
            \<and> all_companions_done r (cfg_tracker c) \<and> k \<in> dom (stage_submit_ts rs1))"
        using assms Some sb by (auto simp: settles_def)
      have g: "submissions k r c = submissions k r b \<or>
          (k \<notin> dom (stage_submit_ts rs1) \<and> submissions k r c = Suc (submissions k r b)
            \<and> all_companions_done r (cfg_tracker c) \<and> (\<forall>rs'. get_state r c = Some rs' \<longrightarrow> k \<in> dom (stage_submit_ts rs')))"
        using assms(2) sb by (auto simp: settles_def)
      have "k \<in> dom (stage_submit_ts rs1) \<Longrightarrow> get_state r c = Some rs' \<Longrightarrow> k \<in> dom (stage_submit_ts rs')" for rs'
        using assms(2) sb by (auto simp: settles_def same_request_def)
      moreover have "k \<notin> dom (stage_submit_ts rs1) \<Longrightarrow> k \<notin> dom (stage_submit_ts rs)"
        using s1 by (auto simp: same_request_def)
      ultimately show ?thesis using f g by metis
    qed
    show ?thesis
    proof (cases "get_state r c")
      case None
      with assms(2) sb have "answers r c = Suc (answers r b)" by (auto simp: settles_def)
      with Some None s1 ids mono keys sub show ?thesis unfolding settles_def by simp
    next
      case (Some rs2)
      with assms(2) sb have "same_request rs1 rs2" "answers r c = answers r b" by (auto simp: settles_def)
      with \<open>get_state r a = Some rs\<close> Some s1 ids mono keys sub show ?thesis
        unfolding settles_def using same_request_trans by fastforce
    qed
  qed
qed

text \<open>Steps that leave the request alone.\<close>

lemma settles_quiet:
  assumes "companion_ids (cfg_tracker s') \<subseteq> companion_ids (cfg_tracker s)"
    and "all_companions_done r (cfg_tracker s) \<Longrightarrow> all_companions_done r (cfg_tracker s')"
    and "states_distinct s \<Longrightarrow> states_distinct s'" and "rel_option same_request (get_state r s) (get_state r s')"
    and "answers r s' = answers r s" and "\<And>k. submissions k r s' = submissions k r s"
  shows "settles r s s'"
  using assms by (auto simp: settles_def option_rel_Some1 split: option.splits)

lemma settles_refl [simp]: "settles r s s"
  by (rule settles_quiet) (simp_all add: option.rel_refl)


section \<open>Small steps\<close>

named_theorems orch_simps \<open>the fields of the state after a small step\<close>

lemma get_state_pop [orch_simps]: "map_of (dict_pop q d) r = (if r = q then None else map_of d r)"
  by (simp add: map_of_dict_pop)

lemma update_state_fields [orch_simps]:
  "get_state r (update_state q f s) = (if r = q then map_option f (get_state q s) else get_state r s)"
  "cfg_tracker (update_state q f s) = cfg_tracker s" "out_queue (update_state q f s) = out_queue s"
  "calls (update_state q f s) = calls s" "pd_kv_params (update_state q f s) = pd_kv_params s"
  by (auto simp: update_state_def map_of_dict_set split: option.split)

lemma mark_submitted_fields [orch_simps]:
  "get_state r (mark_submitted q sid now s) = (if r = q
     then map_option (\<lambda>rs. rs\<lparr>stage_submit_ts := (stage_submit_ts rs)(sid \<mapsto> now)\<rparr>) (get_state q s) else get_state r s)"
  "cfg_tracker (mark_submitted q sid now s) = cfg_tracker s" "out_queue (mark_submitted q sid now s) = out_queue s"
  "calls (mark_submitted q sid now s) = calls s" "pd_kv_params (mark_submitted q sid now s) = pd_kv_params s"
  by (simp_all add: mark_submitted_def orch_simps)

lemma set_engine_outputs_fields [orch_simps]:
  "request_states (set_engine_outputs sid out s) = request_states s" "cfg_tracker (set_engine_outputs sid out s) = cfg_tracker s"
  "out_queue (set_engine_outputs sid out s) = out_queue s" "calls (set_engine_outputs sid out s) = calls s"
  "pd_kv_params (set_engine_outputs sid out s) = pd_kv_params s"
  by (simp_all add: set_engine_outputs_def)

lemma forget_request_fields [orch_simps]:
  "get_state r (forget_request q s) = (if r = q then None else get_state r s)"
  "cfg_tracker (forget_request q s) = fst (cleanup_parent q (cfg_tracker s))" "out_queue (forget_request q s) = out_queue s"
  "calls (forget_request q s) = calls s"
  by (simp_all add: forget_request_def map_of_dict_pop)

lemma keys_ok_dict [simp]:
  "distinct (map fst d) \<Longrightarrow> distinct (map fst (dict_set q v d))" "distinct (map fst d) \<Longrightarrow> distinct (map fst (dict_pop q d))"
  by (rule distinct_update, assumption) (rule distinct_delete)

lemma keys_ok_steps [simp]:
  "states_distinct s \<Longrightarrow> states_distinct (update_state q f s)" "states_distinct s \<Longrightarrow> states_distinct (mark_submitted q sid now s)"
  "states_distinct s \<Longrightarrow> states_distinct (forget_request q s)"
  by (simp_all add: update_state_def mark_submitted_def forget_request_def split: option.split)

lemma answers_put [orch_simps]:
  "answers r (put_out msg s) = answers r s + (if terminal_for r msg then 1 else 0)"
  by (simp add: answers_def)

lemma submissions_call [orch_simps]:
  "submissions k r (add_call c s) = submissions k r s + (if submits k r c then 1 else 0)"
  by (simp add: submissions_def)

lemma answers_cong: "out_queue s = out_queue t \<Longrightarrow> answers r s = answers r t"
  and submissions_cong: "calls s = calls t \<Longrightarrow> submissions k r s = submissions k r t"
  by (simp_all add: answers_def submissions_def)

lemma cleanup_done: "all_companions_done r t \<Longrightarrow> all_companions_done r (fst (cleanup_parent q t))"
  by (auto simp: all_companions_done_def cleanup_parent_def Let_def get_companion_request_ids_def done_set_def split: if_splits)

lemma cleanup_ids: "companion_ids (fst (cleanup_parent q t)) \<subseteq> companion_ids t"
  by (auto simp: cleanup_parent_def Let_def)

lemma submit_inputs_fields:
  assumes "submit_inputs cfg now q sid params mm res ps s = (s', x)"
  shows "request_states s' = request_states s" and "cfg_tracker s' = cfg_tracker s" and "out_queue s' = out_queue s"
    and "submissions k r s' = submissions k r s"
  using assms
  by (induction ps arbitrary: s) (auto simp: submissions_def split: sum.splits)

section \<open>Forwarding\<close>

lemma submits_diffusion:
  "submits k r (case p of Batch_prompt ps \<Rightarrow> Add_batch sid q ps params senders | _ \<Rightarrow> Add_diffusion sid q p params senders)
    \<longleftrightarrow> k = sid \<and> q = r"
  by (cases p) auto

text \<open>The next stage was not yet asked for this request, and its companions are done.\<close>

definition unsubmitted :: "string \<Rightarrow> string \<Rightarrow> nat \<Rightarrow> 'x orch \<Rightarrow> bool" where
  "unsubmitted r q sid s \<longleftrightarrow> (q = r \<longrightarrow>
     (\<exists>rs. get_state r s = Some rs \<and> stage_submit_ts rs (sid + 1) = None) \<and> all_companions_done r (cfg_tracker s))"

lemma submit_diffusion_settles:
  assumes "unsubmitted r q sid s"
  shows "settles r s (submit_diffusion cfg now q sid p params s)"
proof (cases "q = r")
  case True
  with assms obtain rs where "get_state r s = Some rs" "stage_submit_ts rs (sid + 1) = None"
    "all_companions_done r (cfg_tracker s)" by (auto simp: unsubmitted_def)
  moreover have "same_request rs (rs\<lparr>stage_submit_ts := (stage_submit_ts rs)(sid + 1 \<mapsto> now)\<rparr>)"
    by (auto simp: same_request_def)
  ultimately show ?thesis using True
    by (auto simp: settles_def submit_diffusion_def Let_def orch_simps submits_diffusion answers_def submissions_def)
next
  case False
  then show ?thesis
    by (intro settles_quiet)
      (simp_all add: submit_diffusion_def Let_def orch_simps submits_diffusion answers_def submissions_def option.rel_refl)
qed

lemma set_engine_outputs_settles: "settles r s (set_engine_outputs sid out s)"
  by (rule settles_quiet) (simp_all add: orch_simps answers_def submissions_def option.rel_refl)

lemma mark_submitted_settles: "settles r s (mark_submitted q sid now s)"
proof (rule settles_quiet)
  show "rel_option same_request (get_state r s) (get_state r (mark_submitted q sid now s))"
    by (cases "get_state r s") (auto simp: orch_simps same_request_def)
qed (simp_all add: orch_simps answers_def submissions_def)

lemma submit_inputs_settles:
  assumes "submit_inputs cfg now q sid params mm res ps s = (s', x)"
  shows "settles r s s'"
  using submit_inputs_fields [OF assms]
  by (intro settles_quiet) (simp_all add: answers_def option.rel_refl)

lemma forget_settles_other: "q \<noteq> r \<Longrightarrow> settles r s (forget_request q s)"
  by (rule settles_quiet)
    (use cleanup_ids [of q "cfg_tracker s"] cleanup_done [of r "cfg_tracker s" q] in \<open>simp_all add: orch_simps answers_def submissions_def option.rel_refl\<close>)

lemma put_out_settles: "\<not> terminal_for r msg \<Longrightarrow> settles r s (put_out msg s)"
  by (rule settles_quiet) (simp_all add: answers_def submissions_def option.rel_refl)

text \<open>The final message and the removal together.\<close>

lemma answer_and_forget_settles:
  assumes "get_state r s \<noteq> None" and "terminal_for r msg" and "out_queue s' = out_queue s @ [msg]"
    and "get_state r s' = None" and "companion_ids (cfg_tracker s') \<subseteq> companion_ids (cfg_tracker s)"
    and "all_companions_done r (cfg_tracker s) \<Longrightarrow> all_companions_done r (cfg_tracker s')"
    and "states_distinct s \<Longrightarrow> states_distinct s'" and "calls s' = calls s"
  shows "settles r s s'"
  using assms by (auto simp: settles_def answers_def submissions_def)

lemma forward_diffusion_settles:
  assumes "unsubmitted r q sid s" and "forward_diffusion cfg now q sid out rs params s = (s', x)"
  shows "settles r s s'"
proof -
  let ?s1 = "set_engine_outputs sid out s"
  have g: "unsubmitted r q sid ?s1" using assms(1) by (simp add: unsubmitted_def orch_simps)
  have sub: "settles r s (submit_diffusion cfg now q sid p params ?s1)" for p
    by (rule settles_trans [OF set_engine_outputs_settles submit_diffusion_settles [OF g]])
  show ?thesis
  proof (cases "custom_process_input_func (stage_clients cfg ! (sid + 1))")
    case None
    with assms(2) sub show ?thesis by (auto simp: forward_diffusion_def Let_def)
  next
    case (Some f)
    obtain y where y: "f (engine_outputs ?s1) (engine_input_source (stage_clients cfg ! (sid + 1))) (rs_prompt rs) = y" by blast
    let ?s2 = "forget_request q (put_out (Output_msg q (sid + 1) (no_inputs_output q ''no valid inputs'') None True None) ?s1)"
    have err: "settles r s ?s2"
    proof (cases "q = r")
      case True
      have "settles r ?s1 ?s2"
        by (rule answer_and_forget_settles [where msg = "Output_msg q (sid + 1) (no_inputs_output q ''no valid inputs'') None True None"])
          (use True g [unfolded unsubmitted_def] cleanup_ids [of q "cfg_tracker s"] cleanup_done [of r "cfg_tracker s" q] in \<open>auto simp: orch_simps\<close>)
      then show ?thesis by (rule settles_trans [OF set_engine_outputs_settles])
    next
      case False
      have "settles r ?s1 ?s2"
        by (rule settles_trans [OF put_out_settles forget_settles_other]) (use False in simp_all)
      then show ?thesis by (rule settles_trans [OF set_engine_outputs_settles])
    qed
    have "s' = ?s1 \<or> (\<exists>p. s' = submit_diffusion cfg now q sid p params ?s1) \<or> s' = ?s2"
    proof (cases y)
      case (Inl e)
      with assms(2) Some y show ?thesis by (simp add: forward_diffusion_def Let_def)
    next
      case (Inr p)
      show ?thesis
      proof (cases "p = Batch_prompt []")
        case True
        with assms(2) Some y Inr show ?thesis by (simp add: forward_diffusion_def Let_def)
      next
        case False
        then show ?thesis
          by (cases p; (cases "case p of Batch_prompt ps \<Rightarrow> ps | _ \<Rightarrow> []")?)
            (use assms(2) Some y Inr in \<open>auto simp: forward_diffusion_def Let_def\<close>)
      qed
    qed
    with sub err set_engine_outputs_settles show ?thesis by blast
  qed
qed

lemma build_pd_decode_params_fields:
  "build_pd_decode_params cfg q params s = (s', x) \<Longrightarrow> s' = pop_kv q s"
  by (simp add: build_pd_decode_params_def)

lemma pop_kv_settles: "settles r s (pop_kv q s)"
  by (rule settles_quiet) (simp_all add: answers_def submissions_def option.rel_refl)

lemma forward_pd_settles:
  assumes "forward_pd cfg now q sid out rs params s = (s', x)"
  shows "settles r s s'"
proof -
  let ?s1 = "pop_kv q (set_engine_outputs sid out s)"
  have s1: "settles r s ?s1" by (rule settles_trans [OF set_engine_outputs_settles pop_kv_settles])
  obtain y where y: "build_pd_decode_params cfg q params (set_engine_outputs sid out s) = (?s1, y)"
    by (simp add: build_pd_decode_params_def)
  show ?thesis
  proof (cases y)
    case (Inl e)
    with y s1 assms show ?thesis by (auto simp: forward_pd_def)
  next
    case (Inr params1)
    show ?thesis
    proof (cases "decode_inputs (rs_prompt rs)")
      case (Inl e)
      with y Inr s1 assms show ?thesis by (auto simp: forward_pd_def)
    next
      case ps: (Inr ps)
      obtain s2 z where z: "submit_inputs cfg now q (sid + 1) params1 (rs_mm_features rs) False ps ?s1 = (s2, z)" by fastforce
      then have "settles r s s2" by (rule settles_trans [OF s1 submit_inputs_settles])
      with z y Inr ps assms show ?thesis
        by (auto simp: forward_pd_def split: sum.splits intro: settles_trans [OF _ mark_submitted_settles])
    qed
  qed
qed

lemma forward_engine_settles:
  assumes "forward_engine cfg now q sid out rs params resum s = (s', x)"
  shows "settles r s s'"
proof -
  let ?s1 = "set_engine_outputs sid out s" and ?c = "stage_clients cfg ! (sid + 1)"
  obtain y where y: "process_engine_inputs ?c (engine_outputs ?s1) (rs_prompt rs)
      (if streaming_enabled (streaming rs) then Some (streaming rs) else None) = y" by blast
  show ?thesis
  proof (cases y)
    case (Inl e)
    with y assms set_engine_outputs_settles show ?thesis by (auto simp: forward_engine_def Let_def)
  next
    case (Inr ps)
    obtain s2 z where z: "submit_inputs cfg now q (sid + 1) params
        (if model_stage ?c = Some ''thinker'' then rs_mm_features rs else None) resum ps ?s1 = (s2, z)" by fastforce
    then have "settles r s s2" by (rule settles_trans [OF set_engine_outputs_settles submit_inputs_settles])
    with z y Inr assms show ?thesis
      by (auto simp: forward_engine_def Let_def split: sum.splits intro: settles_trans [OF _ mark_submitted_settles])
  qed
qed

lemma forward_to_next_stage_settles:
  assumes "unsubmitted r q sid s" and "forward_to_next_stage cfg now q sid out rs str fin s = (s', x)"
  shows "settles r s s'"
  using assms(2) forward_diffusion_settles [OF assms(1)] forward_pd_settles forward_engine_settles
  by (auto simp: forward_to_next_stage_def Let_def split: if_splits)


section \<open>Routing\<close>

text \<open>A request whose answers a caller sees: its last stage reports outputs, and it is no companion and no stream.\<close>

definition visible :: "'x orch_config \<Rightarrow> string \<Rightarrow> 'x orch \<Rightarrow> bool" where
  "visible cfg r s \<longleftrightarrow> r \<notin> companion_ids (cfg_tracker s)
     \<and> (\<forall>rs. get_state r s = Some rs \<longrightarrow> \<not> streaming_enabled (streaming rs) \<and> 0 \<le> final_stage_id rs
         \<and> nat (final_stage_id rs) < length (stage_clients cfg) \<and> final_output (stage_clients cfg ! nat (final_stage_id rs)))"

lemma settles_visible: "settles r s s' \<Longrightarrow> visible cfg r s \<Longrightarrow> visible cfg r s'"
  by (auto simp: settles_def visible_def same_request_def split: option.splits)

lemma tracker_update_settles:
  "companion_ids t \<subseteq> companion_ids (cfg_tracker s) \<Longrightarrow>
     (all_companions_done r (cfg_tracker s) \<Longrightarrow> all_companions_done r t) \<Longrightarrow> settles r s (s\<lparr>cfg_tracker := t\<rparr>)"
  by (rule settles_quiet) (simp_all add: answers_def submissions_def option.rel_refl)

lemma pop_other_settles: "q \<noteq> r \<Longrightarrow> settles r s (pop_state q s)"
  by (rule settles_quiet) (simp_all add: answers_def submissions_def option.rel_refl map_of_dict_pop)

lemma on_companion_completed_ids:
  assumes "on_companion_completed c t = (t1, x)"
  shows "companion_ids t1 = companion_ids t" and "pending_parents t1 = pending_parents t"
    and "all_companions_done r t \<Longrightarrow> all_companions_done r t1"
    and "x = Inr (Some p) \<Longrightarrow> all_companions_done p t1"
proof -
  have "get_companion_request_ids r t1 = get_companion_request_ids r t" and "done_set r t \<subseteq> done_set r t1"
    and ids: "companion_ids t1 = companion_ids t" "pending_parents t1 = pending_parents t"
    and p: "x = Inr (Some p) \<longrightarrow> all_companions_done p t1"
    using assms
    by (auto simp: on_companion_completed_def get_companion_request_ids_def done_set_def Let_def split: option.splits if_splits)
  then show "all_companions_done r t \<Longrightarrow> all_companions_done r t1" by (auto simp: all_companions_done_def)
  show "companion_ids t1 = companion_ids t" and "pending_parents t1 = pending_parents t"
    and "x = Inr (Some p) \<Longrightarrow> all_companions_done p t1"
    using ids p by simp_all
qed

lemma pending_irrelevant: "all_companions_done r (t\<lparr>pending_parents := x\<rparr>) = all_companions_done r t"
  by (simp add: all_companions_done_def get_companion_request_ids_def done_set_def)

lemma handle_cfg_companion_ready_settles:
  assumes "handle_cfg_companion_ready cfg now c s = (s', x)"
  shows "settles r s s'"
proof -
  obtain t1 y where y: "on_companion_completed c (cfg_tracker s) = (t1, y)" by fastforce
  note ids = on_companion_completed_ids [OF y]
  have s1: "settles r s (s\<lparr>cfg_tracker := t1\<rparr>)" by (rule tracker_update_settles) (simp_all add: ids)
  consider (a) "s' = s\<lparr>cfg_tracker := t1\<rparr>" | (b) p where "y = Inr (Some p)"
    using assms y by (cases y; cases "case y of Inr z \<Rightarrow> z | _ \<Rightarrow> None") (auto simp: handle_cfg_companion_ready_def)
  then show ?thesis
  proof cases
    case a
    with s1 show ?thesis by simp
  next
    case (b p)
    let ?t2 = "t1\<lparr>pending_parents := (pending_parents t1)(p := None)\<rparr>" and ?d = "pending_parents t1 p"
    let ?s2 = "s\<lparr>cfg_tracker := ?t2\<rparr>"
    have s2: "settles r s ?s2" by (rule tracker_update_settles) (simp_all add: ids pending_irrelevant)
    consider (stay) "s' = ?s2"
      | (fwd) out sid rs where "get_state p ?s2 = Some rs" "\<not> next_stage_already_submitted sid rs"
          "forward_to_next_stage cfg now p sid out rs False False ?s2 = (s', x)"
      using assms y b
      by (cases ?d; cases "get_state p s")
        (auto simp: handle_cfg_companion_ready_def pop_pending_parent_def Let_def split: if_splits)
    then show ?thesis
    proof cases
      case stay
      with s2 show ?thesis by simp
    next
      case (fwd out sid rs)
      from fwd(1,2) ids(4) [OF b] have "unsubmitted r p sid ?s2"
        by (auto simp: unsubmitted_def next_stage_already_submitted_def pending_irrelevant)
      from settles_trans [OF s2 forward_to_next_stage_settles [OF this fwd(3)]] show ?thesis .
    qed
  qed
qed

lemma report_output_fields:
  "request_states (report_output cfg sid out rs m s) = request_states s" "cfg_tracker (report_output cfg sid out rs m s) = cfg_tracker s"
  "calls (report_output cfg sid out rs m s) = calls s"
  by (simp_all add: report_output_def split: option.split)

lemma report_output_settles:
  assumes "o_request_id out \<noteq> r \<or> \<not> (o_finished out \<and> int sid = final_stage_id rs)"
  shows "settles r s (report_output cfg sid out rs m s)"
  using assms by (auto simp: report_output_def put_out_settles split: option.split)

lemma store_kv_params_fields:
  "request_states (store_kv_params cfg sid out s) = request_states s" "cfg_tracker (store_kv_params cfg sid out s) = cfg_tracker s"
  "calls (store_kv_params cfg sid out s) = calls s" "out_queue (store_kv_params cfg sid out s) = out_queue s"
  by (simp_all add: store_kv_params_def split: option.split)

lemma store_kv_params_settles: "settles r s (store_kv_params cfg sid out s)"
  by (rule settles_quiet) (simp_all add: store_kv_params_fields answers_def submissions_def option.rel_refl)

lemma defer_settles: "settles r s (on_tracker (defer_parent q out sid) s)"
  by (rule tracker_update_settles) (simp_all add: defer_parent_def pending_irrelevant)

lemma no_companions_done: "\<not> has_companions r t \<Longrightarrow> all_companions_done r t"
  by (simp add: has_companions_def all_companions_done_def get_companion_request_ids_def)

lemma forward_output_settles:
  assumes "get_state (o_request_id out) s = Some rs" and "o_request_id out = r \<Longrightarrow> \<not> streaming_enabled (streaming rs)"
    and "forward_output cfg now sid out rs s = (s', x)"
  shows "settles r s s'"
proof (cases "should_forward cfg sid out rs")
  case False
  with assms(3) show ?thesis by (simp add: forward_output_def)
next
  case True
  let ?q = "o_request_id out" and ?str = "streaming_enabled (streaming rs)"
  show ?thesis
  proof (cases "o_finished out \<and> must_wait ?q (cfg_tracker s)")
    case w: True
    with True assms(3) defer_settles show ?thesis by (auto simp: forward_output_def)
  next
    case w: False
    obtain s1 y where y: "forward_to_next_stage cfg now ?q sid out rs ?str False s = (s1, y)" by fastforce
    have "unsubmitted r ?q sid s"
      using True w assms(1,2) no_companions_done
      by (auto simp: should_forward_def next_stage_already_submitted_def unsubmitted_def must_wait_def)
    then have s1: "settles r s s1" by (rule forward_to_next_stage_settles [OF _ y])
    show ?thesis
    proof (cases "?str \<and> o_finished out \<and> (\<exists>u. y = Inr u)")
      case False
      with True w y assms(3) s1 show ?thesis by (auto simp: forward_output_def split: sum.splits if_splits)
    next
      case str: True
      with assms(2) have q: "?q \<noteq> r" by auto
      have f2: "forward_to_next_stage cfg now ?q sid out rs True True s1 = (s', x)"
        using str True w y assms(3) by (auto simp: forward_output_def)
      have "settles r s1 s'" by (rule forward_to_next_stage_settles [OF _ f2]) (use q in \<open>simp add: unsubmitted_def\<close>)
      with s1 show ?thesis by (rule settles_trans)
    qed
  qed
qed

lemma route_output_settles:
  assumes "get_state (o_request_id out) s = Some rs" and "visible cfg r s"
    and "route_output cfg now sid out rs m s = (s', x)"
  shows "settles r s s'"
proof -
  let ?q = "o_request_id out"
  show ?thesis
  proof (cases "o_finished out \<and> is_companion ?q (cfg_tracker s)")
    case True
    with assms(2) have q: "?q \<noteq> r" by (auto simp: visible_def is_companion_def)
    obtain s1 y where y: "handle_cfg_companion_ready cfg now ?q s = (s1, y)" by fastforce
    have s1: "settles r s s1" by (rule handle_cfg_companion_ready_settles [OF y])
    have "s' = s1 \<or> s' = pop_state ?q s1" using True y assms(3) by (auto simp: route_output_def split: sum.splits)
    with s1 settles_trans [OF s1 pop_other_settles [OF q]] show ?thesis by auto
  next
    case False
    let ?s1 = "report_output cfg sid out rs m s"
    let ?s2 = "store_kv_params cfg sid out ?s1"
    obtain s3 y where y: "forward_output cfg now sid out rs ?s2 = (s3, y)" by fastforce
    have g: "get_state ?q ?s2 = Some rs" using assms(1) by (simp add: store_kv_params_fields report_output_fields)
    have s': "(s' = s3 \<and> \<not> (o_finished out \<and> int sid = final_stage_id rs)) \<or> (s' = s3 \<and> (\<exists>e. y = Inl e))
        \<or> (s' = forget_request ?q s3 \<and> o_finished out \<and> int sid = final_stage_id rs \<and> (\<exists>u. y = Inr u))"
      using False y assms(3) by (auto simp: route_output_def Let_def split: sum.splits if_splits)
    show ?thesis
    proof (cases "?q = r \<and> o_finished out \<and> int sid = final_stage_id rs")
      case True
      then have "\<not> should_forward cfg sid out rs" by (simp add: should_forward_def)
      with y have s3: "s3 = ?s2" "y = Inr ()" by (simp_all add: forward_output_def)
      with s' True have s'': "s' = forget_request ?q ?s2" by auto
      have "sid = nat (final_stage_id rs)" using True by linarith
      then have fin: "final_output (stage_clients cfg ! sid)" using assms(1,2) True by (auto simp: visible_def)
      show ?thesis
        by (rule answer_and_forget_settles [where msg = "Output_msg ?q sid out m True (stage_submit_ts rs sid)"])
          (use True fin assms(1) cleanup_ids [of ?q "cfg_tracker s"] cleanup_done [of r "cfg_tracker s" ?q] in
            \<open>simp_all add: s'' orch_simps store_kv_params_fields report_output_fields\<close>, simp add: report_output_def)
    next
      case notlast: False
      have s2: "settles r s ?s2"
        by (rule settles_trans [OF report_output_settles store_kv_params_settles]) (use notlast in blast)
      have "?q = r \<Longrightarrow> \<not> streaming_enabled (streaming rs)" using assms(1,2) by (auto simp: visible_def)
      then have s3: "settles r s s3" by (rule settles_trans [OF s2 forward_output_settles [OF g _ y]])
      from s' notlast consider "s' = s3" | "s' = forget_request ?q s3" "?q \<noteq> r" by blast
      then show ?thesis by cases (use s3 settles_trans [OF s3 forget_settles_other] in simp_all)
    qed
  qed
qed

lemma build_stage_metrics_fields:
  assumes "build_stage_metrics now sid out rs s = (s', m)"
  shows "request_states s' = request_states s" and "cfg_tracker s' = cfg_tracker s"
    and "calls s' = calls s" and "out_queue s' = out_queue s" and "pd_kv_params s' = pd_kv_params s"
  using assms by (auto simp: build_stage_metrics_def Let_def)

lemma build_stage_metrics_settles:
  "build_stage_metrics now sid out rs s = (s', m) \<Longrightarrow> settles r s s'"
  by (rule settles_quiet) (auto simp: build_stage_metrics_fields answers_def submissions_def option.rel_refl)

lemma handle_kv_ready_settles:
  "handle_kv_ready_raw_outputs cfg now sid outs s = (s', x) \<Longrightarrow> settles r s s'"
proof (induction outs arbitrary: s)
  case Nil
  then show ?case by simp
next
  case (Cons out outs)
  let ?q = "o_request_id out"
  let ?res = "if async_chunk cfg \<or> \<not> kv_ready out then (s, Inr ())
                 else (case get_state ?q s of
                         None \<Rightarrow> (s, Inr ())
                       | Some rs \<Rightarrow>
                           (if is_companion ?q (cfg_tracker s) then handle_cfg_companion_ready cfg now ?q s
                            else if final_stage_id rs \<le> int sid \<or> next_stage_already_submitted sid rs then (s, Inr ())
                            else if must_wait ?q (cfg_tracker s) then (on_tracker (defer_parent ?q out sid) s, Inr ())
                            else forward_to_next_stage cfg now ?q sid out rs False False s))"
  obtain s1 y where y: "?res = (s1, y)" by fastforce
  have s1: "settles r s s1"
  proof (cases "get_state ?q s")
    case None
    with y show ?thesis by (auto split: if_splits)
  next
    case (Some rs)
    have "\<not> next_stage_already_submitted sid rs \<Longrightarrow> \<not> must_wait ?q (cfg_tracker s) \<Longrightarrow> unsubmitted r ?q sid s"
      using Some no_companions_done by (auto simp: unsubmitted_def next_stage_already_submitted_def must_wait_def)
    with Some y show ?thesis
      using handle_cfg_companion_ready_settles defer_settles forward_to_next_stage_settles
      by (auto split: if_splits)
  qed
  show ?case
  proof (cases y)
    case (Inl e)
    with y Cons.prems s1 show ?thesis by (simp add: Let_def)
  next
    case (Inr u)
    then have "handle_kv_ready_raw_outputs cfg now sid outs s1 = (s', x)"
      using y Cons.prems by (simp only: handle_kv_ready_raw_outputs.simps Let_def) simp
    from settles_trans [OF s1 Cons.IH [OF this]] show ?thesis .
  qed
qed

lemma note_segment_settles: "settles r s (note_segment out s)"
proof (rule settles_quiet)
  show "rel_option same_request (get_state r s) (get_state r (note_segment out s))"
    by (cases "get_state r s") (auto simp: note_segment_def orch_simps same_request_def)
qed (simp_all add: note_segment_def orch_simps answers_def submissions_def)

lemma fold_note_segment_settles: "settles r s (fold note_segment outs s)"
proof (induction outs arbitrary: s)
  case (Cons out outs)
  from settles_trans [OF note_segment_settles Cons.IH] show ?case by simp
qed simp

lemma process_stage_outputs_settles:
  "process_stage_outputs process sid raws s = (s', outs) \<Longrightarrow> settles r s s'"
proof -
  have "settles r s1 (add_call (Abort sid ids) s1)" for s1 ids
    by (rule settles_quiet) (simp_all add: answers_def submissions_def option.rel_refl)
  from settles_trans [OF fold_note_segment_settles this] fold_note_segment_settles
  show "process_stage_outputs process sid raws s = (s', outs) \<Longrightarrow> settles r s s'"
    by (auto simp: process_stage_outputs_def Let_def split: prod.splits if_splits)
qed

lemma route_outputs_settles:
  assumes "route_outputs cfg now sid outs s = (s', x)" and "visible cfg r s"
  shows "settles r s s'"
  using assms
proof (induction outs arbitrary: s)
  case Nil
  then show ?case by simp
next
  case (Cons out outs)
  show ?case
  proof (cases "get_state (o_request_id out) s")
    case None
    with Cons show ?thesis by simp
  next
    case (Some rs)
    obtain s1 m where m: "(if o_finished out then (case build_stage_metrics now sid out rs s of (s1, m) \<Rightarrow> (s1, Some m)) else (s, None)) = (s1, m)"
      by fastforce
    have s1: "settles r s s1" "request_states s1 = request_states s"
      using m build_stage_metrics_settles build_stage_metrics_fields(1)
      by (auto split: if_splits prod.splits)
    obtain s2 y where y: "route_output cfg now sid out rs m s1 = (s2, y)" by fastforce
    have s2: "settles r s s2"
      by (rule settles_trans [OF s1(1) route_output_settles [OF _ settles_visible [OF s1(1) Cons.prems(2)] y]])
        (use Some s1(2) in simp)
    show ?thesis
    proof (cases y)
      case (Inl e)
      with Some m y Cons.prems(1) s2 show ?thesis by simp
    next
      case (Inr u)
      then have "route_outputs cfg now sid outs s2 = (s', x)" using Some m y Cons.prems(1) by simp
      from settles_trans [OF s2 Cons.IH [OF this settles_visible [OF s2 Cons.prems(2)]]] show ?thesis .
    qed
  qed
qed

lemma on_raw_outputs_settles:
  assumes "on_raw_outputs cfg process now sid raws s = (s', x)" and "visible cfg r s"
  shows "settles r s s'"
proof -
  obtain s1 y where y: "handle_kv_ready_raw_outputs cfg now sid raws s = (s1, y)" by fastforce
  have s1: "settles r s s1" by (rule handle_kv_ready_settles [OF y])
  show ?thesis
  proof (cases y)
    case (Inl e)
    with y assms(1) s1 show ?thesis by (simp add: on_raw_outputs_def)
  next
    case (Inr u)
    obtain s2 outs where z: "process_stage_outputs process sid raws s1 = (s2, outs)" by fastforce
    have s2: "settles r s s2" by (rule settles_trans [OF s1 process_stage_outputs_settles [OF z]])
    have "route_outputs cfg now sid outs s2 = (s', x)" using y Inr z assms(1) by (simp add: on_raw_outputs_def)
    from settles_trans [OF s2 route_outputs_settles [OF this settles_visible [OF s2 assms(2)]]] show ?thesis .
  qed
qed

lemma on_diffusion_output_settles:
  assumes "on_diffusion_output cfg now sid out s = (s', x)" and "visible cfg r s"
    and "o_error out \<noteq> None \<Longrightarrow> o_request_id out = r \<Longrightarrow> get_state r s \<noteq> None"
  shows "settles r s s'"
proof (cases "o_error out")
  case (Some e)
  let ?msg = "Output_msg (o_request_id out) sid out None True None"
  have s': "s' = pop_state (o_request_id out) (put_out ?msg s)" using assms(1) Some by (simp add: on_diffusion_output_def)
  show ?thesis
  proof (cases "o_request_id out = r")
    case True
    show ?thesis
      by (rule answer_and_forget_settles [where msg = ?msg]) (use True assms(3) Some in \<open>simp_all add: s' map_of_dict_pop\<close>)
  next
    case False
    show ?thesis
      unfolding s' by (rule settles_trans [OF put_out_settles pop_other_settles]) (use False in simp_all)
  qed
next
  case None
  show ?thesis
  proof (cases "get_state (o_request_id out) s")
    case None
    with assms(1) \<open>o_error out = None\<close> show ?thesis by (simp add: on_diffusion_output_def)
  next
    case (Some rs)
    obtain s1 m where m: "build_stage_metrics now sid out rs s = (s1, m)" by fastforce
    have s1: "settles r s s1" by (rule build_stage_metrics_settles [OF m])
    have "route_output cfg now sid out rs (Some m) s1 = (s', x)"
      using assms(1) \<open>o_error out = None\<close> Some m by (simp add: on_diffusion_output_def)
    from settles_trans [OF s1 route_output_settles [OF _ settles_visible [OF s1 assms(2)] this]]
    show ?thesis using Some build_stage_metrics_fields(1) [OF m] by simp
  qed
qed

end
