(* ===== verification/Async_Client.thy ===== *)
theory Async_Client
  imports Orchestrator_Routing
begin

text \<open>
  The callers' side of the orchestrator: \<open>AsyncOmniEngine\<close> (\<open>engine/async_omni_engine.py\<close>) turns a call
  into messages to the orchestrator's thread, and \<open>AsyncOmni\<close> (\<open>entrypoints/async_omni.py\<close>, with
  \<open>omni_base.py\<close>) distributes what comes back to the running \<open>generate\<close> generators; \<open>Omni\<close>
  (\<open>entrypoints/omni.py\<close>) is the blocking client, not modelled here. The input processor and the prompt
  expansion are arguments. Streamed inputs, pausing, metrics, tracing, prefill and decode pairs and logs
  are left out.
\<close>

section \<open>Messages to the orchestrator\<close>

text \<open>
  A companion of a guided request: \<open>ep_overrides\<close> replaces the stage-0 parameters, if there are any.
\<close>

record 'x expanded_prompt =
  ep_role :: string
  ep_suffix :: string
  ep_prompt :: "'x stage_prompt"
  ep_overrides :: "('x params \<Rightarrow> 'x params) option"

record 'x engine_config =
  orch_config :: "'x orch_config"
  default_sampling_params_list :: "'x params list"
  coerce_param_message_types :: "'x params list \<Rightarrow> 'x params list"
  process_inputs :: "string \<Rightarrow> 'x stage_prompt \<Rightarrow> 'x params \<Rightarrow> bool \<Rightarrow> 'x stage_prompt res"
  prompt_expand_func :: "('x stage_prompt \<Rightarrow> 'x params \<Rightarrow> 'x expanded_prompt list res) option"

fun is_engine_prompt :: "'x stage_prompt \<Rightarrow> bool" where
  "is_engine_prompt (Engine_prompt _ _ _ _ _) = True"
| "is_engine_prompt _ = False"

text \<open>A call: the prompt with its sampling parameters.\<close>

record 'x call_args =
  a_request_id :: string
  a_prompt :: "'x stage_prompt"
  a_sampling_params_list :: "'x params list option"
  a_final_stage_id :: int
  a_resumable :: bool

definition build_add_request_message :: "'x engine_config \<Rightarrow> 'x call_args \<Rightarrow> 'x add_msg res" where
  "build_add_request_message ec a =
     (let spl = (case a_sampling_params_list a of Some l \<Rightarrow> l | None \<Rightarrow> default_sampling_params_list ec);
          msg = (\<lambda>p. \<lparr>m_request_id = a_request_id a, m_prompt = p, m_original_prompt = Some (a_prompt a),
                      m_sampling_params_list = Some spl, m_final_stage_id = a_final_stage_id a\<rparr>)
      in if spl = [] then Inl ValueError
         else if is_diffusion (stage_clients (orch_config ec) ! 0) \<or> is_engine_prompt (a_prompt a) then Inr (msg (a_prompt a))
         else bind_res (process_inputs ec (a_request_id a) (a_prompt a) (hd spl) (a_resumable a)) (\<lambda>p. Inr (msg p)))"

definition apply_overrides :: "'x params \<Rightarrow> 'x params list \<Rightarrow> 'x expanded_prompt \<Rightarrow> 'x params \<times> 'x params list" where
  "apply_overrides base spl ep =
     (case ep_overrides ep of
        None \<Rightarrow> (base, spl)
      | Some f \<Rightarrow> (f base, case spl of [] \<Rightarrow> [] | _ # rest \<Rightarrow> f base # rest))"

text \<open>The messages enqueued before an input fails stay enqueued.\<close>

fun enqueue_companions ::
  "'x engine_config \<Rightarrow> string \<Rightarrow> 'x params \<Rightarrow> 'x params list \<Rightarrow> 'x expanded_prompt list \<Rightarrow> 'x request_msg list \<times> unit res" where
  "enqueue_companions ec parent params spl [] = ([], Inr ())"
| "enqueue_companions ec parent params spl (ep # eps) =
     (let cid = parent @ ep_suffix ep;
          (params1, spl1) = apply_overrides params spl ep
      in (case process_inputs ec cid (ep_prompt ep) params1 False of
            Inl e \<Rightarrow> ([], Inl e)
          | Inr p \<Rightarrow>
              (case enqueue_companions ec parent params spl eps of
                 (msgs, x) \<Rightarrow>
                   (Add_companion \<lparr>c_companion_id = cid, c_parent_id = parent, c_role = ep_role ep, c_prompt = p,
                      c_sampling_params_list = spl1\<rparr> # msgs, x))))"

text \<open>\<open>expand\<close> is \<open>prompt_expand_func\<close>; its exceptions are swallowed.\<close>

definition enqueue_cfg_companions ::
  "'x engine_config \<Rightarrow> ('x stage_prompt \<Rightarrow> 'x params \<Rightarrow> 'x expanded_prompt list res) \<Rightarrow> string \<Rightarrow> 'x stage_prompt \<Rightarrow> 'x params
     \<Rightarrow> 'x params list \<Rightarrow> 'x request_msg list \<times> unit res" where
  "enqueue_cfg_companions ec expand parent prompt params spl =
     (case expand prompt params of Inl _ \<Rightarrow> ([], Inr ()) | Inr eps \<Rightarrow> enqueue_companions ec parent params spl eps)"

definition engine_add_request ::
  "'x engine_config \<Rightarrow> 'x call_args
     \<Rightarrow> 'x request_msg list \<times> unit res" where
  "engine_add_request ec a =
     (case build_add_request_message ec a of
        Inl e \<Rightarrow> ([], Inl e)
      | Inr m \<Rightarrow>
          (case (prompt_expand_func ec, m_sampling_params_list m) of
             (Some f, Some (params # spl)) \<Rightarrow>
               (if 0 < a_final_stage_id a
                then (case enqueue_cfg_companions ec f (a_request_id a) (a_prompt a) params (params # spl) of
                        (msgs, x) \<Rightarrow> (Add_request m # msgs, x))
                else ([Add_request m], Inr ()))
           | _ \<Rightarrow> ([Add_request m], Inr ())))"

definition engine_add_streaming_update :: "'x engine_config \<Rightarrow> 'x call_args \<Rightarrow> 'x request_msg list \<times> unit res" where
  "engine_add_streaming_update ec a =
     (case build_add_request_message ec a of Inl e \<Rightarrow> ([], Inl e) | Inr m \<Rightarrow> ([Streaming_update m], Inr ()))"

definition resolve_sampling_params_list :: "'x engine_config \<Rightarrow> 'x params list option \<Rightarrow> 'x params list res" where
  "resolve_sampling_params_list ec given =
     (let l = (case given of Some l \<Rightarrow> l | None \<Rightarrow> coerce_param_message_types ec (default_sampling_params_list ec))
      in if length l = length (stage_clients (orch_config ec)) then Inr l else Inl ValueError)"

section \<open>The asynchronous client\<close>

text \<open>
  What is read from the output queue: a message of the orchestrator, the text of the exception that
  ended its thread, an error that is not fatal, or something unexpected.
\<close>

datatype 'x engine_msg = From_orchestrator "'x out_msg" | Crashed string | Nonfatal string | Unexpected

text \<open>What lands in the queue of a generator: an output, or an error, fatal or not.\<close>

datatype 'x client_msg = Routed "'x out_msg" | Error_note bool string "nat option"

datatype handler_task = Not_started | Handling | Ended

datatype ending = Completed | Raised py_error | Closed

record 'x caller =
  g_id :: string
  g_seen :: "'x client_msg list"
  g_yields :: "'x stage_output list"
  g_ending :: "ending option"

text \<open>
  \<open>entries\<close> is \<open>request_states\<close>: the queue of a request id, by the number of its generator. A generator
  keeps its own queue even when the entry is gone or replaced. \<open>to_orchestrator\<close> logs what was sent.
\<close>

record 'x omni =
  entries :: "(string \<times> nat) list"
  queues :: "nat \<Rightarrow> 'x client_msg list"
  generators :: "'x caller list"
  final_output_task :: handler_task
  to_orchestrator :: "'x request_msg list"

definition omni_init :: "'x omni" where
  "omni_init = \<lparr>entries = [], queues = (\<lambda>_. []), generators = [], final_output_task = Not_started, to_orchestrator = []\<rparr>"

datatype routing = Skip | Route nat | Fatal string "nat option" | Failure string

definition handle_output_message :: "'x omni \<Rightarrow> 'x engine_msg \<Rightarrow> routing" where
  "handle_output_message s msg =
     (case msg of
        From_orchestrator (Metrics_msg r sid m ts) \<Rightarrow> Skip
      | From_orchestrator (Fatal_msg e r sid) \<Rightarrow> Fatal e (Some sid)
      | From_orchestrator (Output_msg r sid out m fin ts) \<Rightarrow> (case map_of (entries s) r of None \<Rightarrow> Skip | Some n \<Rightarrow> Route n)
      | Crashed e \<Rightarrow> Fatal e None
      | Nonfatal e \<Rightarrow> Failure e
      | Unexpected \<Rightarrow> Skip)"

definition put_note :: "nat \<Rightarrow> 'x client_msg \<Rightarrow> 'x omni \<Rightarrow> 'x omni" where
  "put_note n nt s = s\<lparr>queues := (queues s)(n := queues s n @ [nt])\<rparr>"

definition broadcast :: "'x client_msg \<Rightarrow> 'x omni \<Rightarrow> 'x omni" where
  "broadcast nt s = fold (\<lambda>(r, n). put_note n nt) (entries s) s"

text \<open>
  One turn of the loop that distributes outputs. \<open>read\<close> is what was in the output queue, \<open>alive\<close>
  whether the orchestrator's thread lives.
\<close>

definition dispatch :: "bool \<Rightarrow> 'x engine_msg option \<Rightarrow> 'x omni \<Rightarrow> 'x omni" where
  "dispatch alive read s =
     (if final_output_task s \<noteq> Handling then s
      else (case read of
              None \<Rightarrow>
                (if alive then s
                 else (broadcast (Error_note False ''Orchestrator died unexpectedly. See logs above.'' None) s)\<lparr>final_output_task := Not_started\<rparr>)
            | Some msg \<Rightarrow>
                (case handle_output_message s msg of
                   Skip \<Rightarrow> s
                 | Route n \<Rightarrow> (case msg of From_orchestrator m \<Rightarrow> put_note n (Routed m) s | _ \<Rightarrow> s)
                 | Fatal e sid \<Rightarrow> (broadcast (Error_note True e sid) s)\<lparr>final_output_task := Ended\<rparr>
                 | Failure e \<Rightarrow> (broadcast (Error_note False e None) s)\<lparr>final_output_task := Not_started\<rparr>)))"

definition client_abort :: "string list \<Rightarrow> 'x omni \<Rightarrow> 'x omni" where
  "client_abort ids s = s\<lparr>to_orchestrator := to_orchestrator s @ [Abort_requests ids], entries := fold dict_pop ids (entries s)\<rparr>"

definition set_generator :: "nat \<Rightarrow> ('x caller \<Rightarrow> 'x caller) \<Rightarrow> 'x omni \<Rightarrow> 'x omni" where
  "set_generator n f s = s\<lparr>generators := (generators s)[n := f (generators s ! n)]\<rparr>"

definition fail_generator :: "nat \<Rightarrow> ending \<Rightarrow> 'x omni \<Rightarrow> 'x omni" where
  "fail_generator n e s =
     client_abort [g_id (generators s ! n)] (set_generator n (\<lambda>g. g\<lparr>g_ending := Some e\<rparr>) s)"

text \<open>\<open>generate\<close> up to its first wait.\<close>

definition generate ::
  "'x engine_config \<Rightarrow> 'x call_args \<Rightarrow> 'x omni \<Rightarrow> 'x omni" where
  "generate ec a s =
     (let n = length (generators s);
          s1 = s\<lparr>final_output_task := (if final_output_task s = Not_started then Handling else final_output_task s),
                 generators := generators s @ [\<lparr>g_id = a_request_id a, g_seen = [], g_yields = [], g_ending = None\<rparr>],
                 queues := (queues s)(n := [])\<rparr>
      in (case resolve_sampling_params_list ec (a_sampling_params_list a) of
            Inl e \<Rightarrow> fail_generator n (Raised e) s1
          | Inr spl \<Rightarrow>
              (let s2 = s1\<lparr>entries := dict_set (a_request_id a) n (entries s1)\<rparr>
               in (case engine_add_request ec (a\<lparr>a_sampling_params_list := Some spl\<rparr>) of
                     (msgs, x) \<Rightarrow>
                       (let s3 = s2\<lparr>to_orchestrator := to_orchestrator s2 @ msgs\<rparr>
                        in (case x of Inl e \<Rightarrow> fail_generator n (Raised e) s3 | Inr _ \<Rightarrow> s3))))))"

text \<open>
  One turn of \<open>_process_orchestrator_results\<close> for the next message of its queue, to the next wait:
  the caller asks for the next output at once. \<open>errored\<close> is whether the engine is known to be dead. A
  yielded output stands for the one built around it.
\<close>

definition consume :: "'x orch_config \<Rightarrow> bool \<Rightarrow> nat \<Rightarrow> 'x omni \<Rightarrow> 'x omni" where
  "consume cfg errored n s =
     (if length (generators s) \<le> n \<or> g_ending (generators s ! n) \<noteq> None then s
      else (case queues s n of
              [] \<Rightarrow> s
            | nt # rest \<Rightarrow>
                (let s1 = set_generator n (\<lambda>g. g\<lparr>g_seen := g_seen g @ [nt]\<rparr>) (s\<lparr>queues := (queues s)(n := rest)\<rparr>)
                 in (case nt of
                       Error_note fatal e sid \<Rightarrow> fail_generator n (Raised (if fatal then EngineDeadError else RuntimeError)) s1
                     | Routed (Output_msg r sid out m fin ts) \<Rightarrow>
                         (if o_error out \<noteq> None then fail_generator n (Raised (if errored then EngineDeadError else RuntimeError)) s1
                          else (let s2 = (if final_output (stage_clients cfg ! sid)
                                          then set_generator n (\<lambda>g. g\<lparr>g_yields := g_yields g @ [out]\<rparr>) s1 else s1)
                                in if fin
                                   then (set_generator n (\<lambda>g. g\<lparr>g_ending := Some Completed\<rparr>) s2)\<lparr>entries := dict_pop (g_id (generators s ! n)) (entries s2)\<rparr>
                                   else s2))
                     | Routed _ \<Rightarrow> s1))))"

text \<open>The caller closes or cancels the generator.\<close>

definition close_generator :: "nat \<Rightarrow> 'x omni \<Rightarrow> 'x omni" where
  "close_generator n s =
     (if length (generators s) \<le> n \<or> g_ending (generators s ! n) \<noteq> None then s else fail_generator n Closed s)"

datatype 'x client_event =
    Generate "'x call_args"
  | Dispatch bool "'x engine_msg option"
  | Consume nat bool
  | Close nat
  | Abort_ids "string list"

definition client_step ::
  "'x engine_config \<Rightarrow> 'x client_event \<Rightarrow> 'x omni \<Rightarrow> 'x omni" where
  "client_step ec e s =
     (case e of
        Generate a \<Rightarrow> generate ec a s
      | Dispatch alive read \<Rightarrow> dispatch alive read s
      | Consume n errored \<Rightarrow> consume (orch_config ec) errored n s
      | Close n \<Rightarrow> close_generator n s
      | Abort_ids ids \<Rightarrow> client_abort ids s)"

definition client_run ::
  "'x engine_config \<Rightarrow> 'x client_event list \<Rightarrow> 'x omni \<Rightarrow> 'x omni" where
  "client_run ec es s = fold (client_step ec) es s"

end
