(* ===== verification/Orchestrator_Properties.thy ===== *)
theory Orchestrator_Properties
  imports Orchestrator_Routing
begin

text \<open>
  What holds of whole runs of the orchestrator: the bookkeeping of companions stays consistent and no
  parent waits for nothing, every request is answered exactly once, and a dead stage leaves nobody
  waiting.
\<close>

section \<open>Companions\<close>

text \<open>The tracker is consistent, and a parent that waits misses a companion.\<close>

definition guided :: "'o tracker \<Rightarrow> bool" where
  "guided t \<longleftrightarrow> tracker_ok t \<and> (\<forall>p. pending_parents t p \<noteq> None \<longrightarrow> \<not> all_companions_done p t)"

lemma guided_init: "guided tracker_init"
  using tracker_init_ok by (simp add: guided_def) (simp add: tracker_init_def)

lemma guidedD: "guided t \<Longrightarrow> pending_parents t p \<noteq> None \<Longrightarrow> \<not> all_companions_done p t"
  by (simp add: guided_def)

lemma guided_complete:
  assumes "guided t" and "on_companion_completed c t = (t1, x)"
  shows "\<exists>po. x = Inr po" and "x = Inr None \<Longrightarrow> guided t1" and "x = Inr (Some p) \<Longrightarrow> guided (fst (pop_pending_parent p t1))"
proof -
  have t: "tracker_ok t" using assms(1) by (simp add: guided_def)
  note c = on_companion_completed_ok [OF t assms(2)]
  show "\<exists>po. x = Inr po" by (rule c(2))
  have waits: "x = Inr (Some q)" if "pending_parents t1 q \<noteq> None" "all_companions_done q t1" for q
  proof -
    from that(1) have q: "pending_parents t q \<noteq> None" by (simp add: c(4))
    have n: "\<not> companions q t \<subseteq> done_set q t" using guidedD [OF assms(1) q] by (simp add: all_companions_done_iff)
    from that(2) have s: "companions q t \<subseteq> (if c \<in> companions q t then insert c (done_set q t) else done_set q t)"
      by (simp add: all_companions_done_iff c(3,7))
    with n have "c \<in> companions q t" "c \<notin> done_set q t" "companions q t \<subseteq> insert c (done_set q t)"
      by (auto split: if_splits)
    with q show ?thesis by (subst c(8)) blast
  qed
  show "guided t1" if "x = Inr None" using waits that c(1) by (auto simp: guided_def)
  show "guided (fst (pop_pending_parent p t1))" if "x = Inr (Some p)"
    unfolding guided_def
  proof (intro conjI allI impI)
    show "tracker_ok (fst (pop_pending_parent p t1))" by (rule pop_pending_parent_ok [OF c(1)])
    fix q
    assume "pending_parents (fst (pop_pending_parent p t1)) q \<noteq> None"
    then have "q \<noteq> p" "pending_parents t1 q \<noteq> None" by (auto simp: pop_pending_parent_lookups split: if_splits)
    with waits that show "\<not> all_companions_done q (fst (pop_pending_parent p t1))"
      by (auto simp: all_companions_done_iff pop_pending_parent_lookups)
  qed
qed

lemma guided_defer: "guided t \<Longrightarrow> must_wait p t \<Longrightarrow> guided (defer_parent p out sid t)"
  by (auto simp: guided_def defer_parent_ok must_wait_def all_companions_done_iff defer_parent_lookups)

lemma guided_cleanup:
  assumes "guided t" and "cleanup_parent p t = (t1, cs)"
  shows "guided t1"
proof -
  have "tracker_ok t1" using assms cleanup_parent_ok(1) by (auto simp: guided_def)
  then show ?thesis
    using assms(1) by (auto simp: guided_def all_companions_done_iff cleanup_parent_lookups [OF assms(2)] split: if_splits)
qed

lemma guided_register:
  assumes "guided t" and "c \<notin> companion_ids t" and "role \<notin> fst ` set (get_companion_request_ids p t)"
  shows "guided (register_companion p role c t)"
proof -
  have ok: "tracker_ok t" using assms(1) by (simp add: guided_def)
  have "c \<notin> done_set p t" using tracker_okD(6) [OF ok, of p] companions_known [OF ok] assms(2) by blast
  then show ?thesis
    using assms register_companion_ok [OF ok assms(2,3)]
    by (auto simp: guided_def all_companions_done_iff register_companion_companions [OF assms(3)] register_companion_lookups)
qed

lemma guided_cleanup_parents: "guided t \<Longrightarrow> cleanup_parents ps acc t = (t1, all) \<Longrightarrow> guided t1"
  by (induction ps arbitrary: acc t) (auto split: prod.splits dest: guided_cleanup)

lemma guided_abort: "guided t \<Longrightarrow> abort_parents ord ids t = (t1, all) \<Longrightarrow> guided t1"
  unfolding abort_parents_def by (rule guided_cleanup_parents)

section \<open>The companions in a step\<close>

lemma guided_fst_cleanup: "guided t \<Longrightarrow> guided (fst (cleanup_parent p t))"
  by (cases "cleanup_parent p t") (simp add: guided_cleanup)

lemma submit_diffusion_tracker: "cfg_tracker (submit_diffusion cfg now q sid p params s) = cfg_tracker s"
  by (simp add: submit_diffusion_def Let_def orch_simps)

lemma forward_guided:
  assumes "forward_to_next_stage cfg now q sid out rs str fin s = (s', x)" and "guided (cfg_tracker s)"
  shows "guided (cfg_tracker s')"
proof -
  have eng: "cfg_tracker s' = cfg_tracker s" if "forward_engine cfg now q sid out rs params res s = (s', x)" for params res
    using that
    by (auto simp: forward_engine_def Let_def orch_simps split: sum.splits prod.splits dest!: submit_inputs_fields(2))
  have pd: "cfg_tracker s' = cfg_tracker s" if "forward_pd cfg now q sid out rs params s = (s', x)" for params
    using that
    by (auto simp: forward_pd_def build_pd_decode_params_def Let_def orch_simps split: sum.splits prod.splits dest!: submit_inputs_fields(2))
  have dif: "cfg_tracker s' = cfg_tracker s \<or> cfg_tracker s' = fst (cleanup_parent q (cfg_tracker s))"
    if "forward_diffusion cfg now q sid out rs params s = (s', x)" for params
    using that
    by (auto simp: forward_diffusion_def Let_def orch_simps submit_diffusion_tracker split: option.splits sum.splits stage_prompt.splits list.splits)
  show ?thesis
    using assms guided_fst_cleanup [OF assms(2), of q]
    by (auto simp: forward_to_next_stage_def Let_def split: if_splits dest!: eng pd dif)
qed

lemma handle_cfg_companion_ready_guided:
  assumes "handle_cfg_companion_ready cfg now c s = (s', x)" and "guided (cfg_tracker s)"
  shows "guided (cfg_tracker s')"
proof -
  obtain t1 y where y: "on_companion_completed c (cfg_tracker s) = (t1, y)" by fastforce
  note g = guided_complete [OF assms(2) y]
  from g(1) consider (none) "y = Inr None" | (some) p where "y = Inr (Some p)" by (metis not_Some_eq)
  then show ?thesis
  proof cases
    case none
    with assms(1) y g(2) show ?thesis by (auto simp: handle_cfg_companion_ready_def)
  next
    case (some p)
    let ?t2 = "fst (pop_pending_parent p t1)" and ?d = "pending_parents t1 p"
    have t2: "guided ?t2" by (rule g(3) [OF some])
    have pop: "pop_pending_parent p t1 = (?t2, ?d)" by (simp add: pop_pending_parent_def)
    show ?thesis
      using assms(1) y some pop t2
      by (auto simp: handle_cfg_companion_ready_def Let_def split: option.splits if_splits prod.splits dest!: forward_guided)
  qed
qed

lemma forward_output_guided:
  assumes "forward_output cfg now sid out rs s = (s', x)" and "guided (cfg_tracker s)"
  shows "guided (cfg_tracker s')"
proof -
  obtain s1 y where y: "forward_to_next_stage cfg now (o_request_id out) sid out rs (streaming_enabled (streaming rs)) False s = (s1, y)"
    by fastforce
  have s1: "guided (cfg_tracker s1)" by (rule forward_guided [OF y assms(2)])
  show ?thesis
    using assms(1) y s1 assms(2) guided_defer
    by (auto simp: forward_output_def Let_def split: if_splits sum.splits dest!: forward_guided)
qed

lemma route_output_guided:
  assumes "route_output cfg now sid out rs m s = (s', x)" and "guided (cfg_tracker s)"
  shows "guided (cfg_tracker s')"
proof (cases "o_finished out \<and> is_companion (o_request_id out) (cfg_tracker s)")
  case True
  obtain s1 y where y: "handle_cfg_companion_ready cfg now (o_request_id out) s = (s1, y)" by fastforce
  have "guided (cfg_tracker s1)" by (rule handle_cfg_companion_ready_guided [OF y assms(2)])
  with True y assms(1) show ?thesis by (auto simp: route_output_def split: sum.splits)
next
  case False
  let ?s2 = "store_kv_params cfg sid out (report_output cfg sid out rs m s)"
  obtain s1 y where y: "forward_output cfg now sid out rs ?s2 = (s1, y)" by fastforce
  have "guided (cfg_tracker s1)"
    by (rule forward_output_guided [OF y]) (simp add: store_kv_params_fields report_output_fields assms(2))
  with False y assms(1) guided_fst_cleanup show ?thesis
    by (auto simp: route_output_def Let_def orch_simps split: sum.splits if_splits)
qed

lemma handle_kv_ready_guided:
  "handle_kv_ready_raw_outputs cfg now sid outs s = (s', x) \<Longrightarrow> guided (cfg_tracker s) \<Longrightarrow> guided (cfg_tracker s')"
proof (induction outs arbitrary: s)
  case Nil
  then show ?case by simp
next
  case (Cons out outs)
  let ?q = "o_request_id out"
  let ?res = "if async_chunk cfg \<or> \<not> kv_ready out then (s, Inr ())
                 else (case get_state ?q s of
                         None \<Rightarrow> (s, Inr ())
                       | Some rs \<Rightarrow>
                           (if is_companion ?q (cfg_tracker s) then handle_cfg_companion_ready cfg now ?q s
                            else if final_stage_id rs \<le> int sid \<or> next_stage_already_submitted sid rs then (s, Inr ())
                            else if must_wait ?q (cfg_tracker s) then (on_tracker (defer_parent ?q out sid) s, Inr ())
                            else forward_to_next_stage cfg now ?q sid out rs False False s))"
  obtain s1 y where y: "?res = (s1, y)" by fastforce
  have s1: "guided (cfg_tracker s1)"
    using y Cons.prems(2) guided_defer
    by (auto split: if_splits option.splits dest: handle_cfg_companion_ready_guided forward_guided)
  have "(s' = s1) \<or> handle_kv_ready_raw_outputs cfg now sid outs s1 = (s', x)"
    using y Cons.prems(1) by (cases y) (simp_all only: handle_kv_ready_raw_outputs.simps Let_def, simp_all)
  with s1 Cons.IH show ?case by blast
qed

lemma fold_note_segment_tracker: "cfg_tracker (fold note_segment outs s) = cfg_tracker s"
  by (induction outs arbitrary: s) (simp_all add: note_segment_def orch_simps)

lemma route_outputs_guided:
  "route_outputs cfg now sid outs s = (s', x) \<Longrightarrow> guided (cfg_tracker s) \<Longrightarrow> guided (cfg_tracker s')"
proof (induction outs arbitrary: s)
  case Nil
  then show ?case by simp
next
  case (Cons out outs)
  show ?case
  proof (cases "get_state (o_request_id out) s")
    case None
    with Cons show ?thesis by simp
  next
    case (Some rs)
    obtain s1 m where m: "(if o_finished out then (case build_stage_metrics now sid out rs s of (s1, m) \<Rightarrow> (s1, Some m)) else (s, None)) = (s1, m)"
      by fastforce
    then have s1: "guided (cfg_tracker s1)"
      using Cons.prems(2) by (auto split: if_splits prod.splits dest!: build_stage_metrics_fields(2))
    obtain s2 y where y: "route_output cfg now sid out rs m s1 = (s2, y)" by fastforce
    have s2: "guided (cfg_tracker s2)" by (rule route_output_guided [OF y s1])
    have "s' = s2 \<or> route_outputs cfg now sid outs s2 = (s', x)" using Some m y Cons.prems(1) by (cases y) auto
    with s2 Cons.IH show ?thesis by blast
  qed
qed

lemma on_raw_outputs_guided:
  assumes "on_raw_outputs cfg process now sid raws s = (s', x)" and "guided (cfg_tracker s)"
  shows "guided (cfg_tracker s')"
proof -
  obtain s1 y where y: "handle_kv_ready_raw_outputs cfg now sid raws s = (s1, y)" by fastforce
  have s1: "guided (cfg_tracker s1)" by (rule handle_kv_ready_guided [OF y assms(2)])
  obtain s2 outs where z: "process_stage_outputs process sid raws s1 = (s2, outs)" by fastforce
  then have "cfg_tracker s2 = cfg_tracker s1"
    by (auto simp: process_stage_outputs_def Let_def fold_note_segment_tracker split: prod.splits if_splits)
  with s1 have s2: "guided (cfg_tracker s2)" by simp
  have "s' = s1 \<or> route_outputs cfg now sid outs s2 = (s', x)"
    using y z assms(1) by (cases y) (auto simp: on_raw_outputs_def)
  with s1 s2 route_outputs_guided show ?thesis by blast
qed

lemma on_diffusion_output_guided:
  assumes "on_diffusion_output cfg now sid out s = (s', x)" and "guided (cfg_tracker s)"
  shows "guided (cfg_tracker s')"
proof (cases "o_error out \<noteq> None \<or> get_state (o_request_id out) s = None")
  case True
  with assms show ?thesis by (auto simp: on_diffusion_output_def split: if_splits)
next
  case False
  then obtain rs where rs: "get_state (o_request_id out) s = Some rs" by auto
  obtain s1 m where m: "build_stage_metrics now sid out rs s = (s1, m)" by fastforce
  have "route_output cfg now sid out rs (Some m) s1 = (s', x)" using assms(1) False rs m by (simp add: on_diffusion_output_def)
  then show ?thesis using build_stage_metrics_fields(2) [OF m] assms(2) by (simp add: route_output_guided)
qed

lemma submit_inputs_tracker: "submit_inputs cfg now q sid params mm res ps s = (s', x) \<Longrightarrow> cfg_tracker s' = cfg_tracker s"
  by (rule submit_inputs_fields(2))

lemma prewarm_stages_tracker:
  "prewarm_stages cfg now r rs base sids s = (s', x) \<Longrightarrow> cfg_tracker s' = cfg_tracker s"
proof (induction sids arbitrary: s)
  case (Cons sid sids)
  obtain s1 y where y: "submit_inputs cfg now r sid (sampling_params_list rs ! sid) None False [base] s = (s1, y)" by fastforce
  show ?case
    using Cons.prems y submit_inputs_tracker [OF y]
    by (auto simp: Let_def orch_simps add_diffusion_request_def split: if_splits sum.splits dest!: Cons.IH)
qed simp

lemma submit_to_stage0_fields:
  "cfg_tracker (submit_to_stage0 cfg r p params s) = cfg_tracker s" "out_queue (submit_to_stage0 cfg r p params s) = out_queue s"
  "request_states (submit_to_stage0 cfg r p params s) = request_states s"
  by (simp_all add: submit_to_stage0_def)

lemma handle_add_request_tracker:
  "handle_add_request cfg now m s = (s', x) \<Longrightarrow> cfg_tracker s' = cfg_tracker s"
  by (auto simp: handle_add_request_def prewarm_async_chunk_stages_def Let_def submit_to_stage0_fields
      split: option.splits list.splits if_splits dest!: prewarm_stages_tracker)

lemma handle_streaming_update_tracker:
  "handle_streaming_update cfg now m s = (s', x) \<Longrightarrow> cfg_tracker s' = cfg_tracker s"
  by (auto simp: handle_streaming_update_def Let_def orch_simps add_diffusion_request_def
      split: option.splits list.splits if_splits dest: handle_add_request_tracker)

lemma notify_fatal_tracker: "cfg_tracker (notify_fatal e sid rs s) = cfg_tracker s"
  by (induction rs arbitrary: s) simp_all

text \<open>A companion is new: its id is not known, and its parent has no companion of that role.\<close>

definition fresh_companion :: "'x event \<Rightarrow> 'x orch \<Rightarrow> bool" where
  "fresh_companion e s = (case e of
     Message (Add_companion m) \<Rightarrow> c_companion_id m \<notin> companion_ids (cfg_tracker s)
       \<and> c_role m \<notin> fst ` set (get_companion_request_ids (c_parent_id m) (cfg_tracker s))
   | _ \<Rightarrow> True)"

lemma orch_step_guided:
  assumes "orch_step cfg ord process now e s = (s', x)" and "guided (cfg_tracker s)" and "fresh_companion e s"
  shows "guided (cfg_tracker s')"
proof (cases e)
  case (Message m)
  show ?thesis
  proof (cases m)
    case (Add_companion c)
    with Message assms show ?thesis
      by (auto simp: orch_step_def handle_request_def handle_add_companion_def Let_def fresh_companion_def guided_register)
  next
    case (Abort_requests ids)
    obtain t1 all where "abort_parents ord ids (cfg_tracker s) = (t1, all)" by fastforce
    with Message Abort_requests assms show ?thesis
      by (auto simp: orch_step_def handle_request_def handle_abort_def dest: guided_abort)
  qed (use Message assms in \<open>auto simp: orch_step_def handle_request_def shutdown_stages_def
      dest!: handle_add_request_tracker handle_streaming_update_tracker\<close>)
next
  case (Diffusion_output sid out)
  with assms show ?thesis by (simp add: orch_step_def on_diffusion_output_guided)
next
  case (Raw_outputs sid raws)
  with assms show ?thesis by (simp add: orch_step_def on_raw_outputs_guided)
next
  case (Engine_dead sid err)
  with assms show ?thesis by (auto simp: orch_step_def on_engine_dead_def Let_def notify_fatal_tracker)
next
  case (Poll_failed sid err)
  with assms show ?thesis by (simp add: orch_step_def)
qed


section \<open>Messages about other requests\<close>

text \<open>Nothing of the request changes.\<close>

definition untouched :: "string \<Rightarrow> 'x orch \<Rightarrow> 'x orch \<Rightarrow> bool" where
  "untouched r s s' \<longleftrightarrow> get_state r s' = get_state r s \<and> answers r s' = answers r s
     \<and> (\<forall>k. submissions k r s' = submissions k r s) \<and> (states_distinct s \<longrightarrow> states_distinct s')"

lemma untouched_refl [simp]: "untouched r s s"
  by (simp add: untouched_def)

lemma untouched_trans: "untouched r a b \<Longrightarrow> untouched r b c \<Longrightarrow> untouched r a c"
  by (simp add: untouched_def)

lemma untouched_call: "(\<And>k. \<not> submits k r c) \<Longrightarrow> untouched r s (add_call c s)"
  by (simp add: untouched_def orch_simps) (simp add: answers_def)

lemma untouched_mark: "q \<noteq> r \<Longrightarrow> untouched r s (mark_submitted q sid now s)"
  by (simp add: untouched_def orch_simps) (simp add: answers_def submissions_def orch_simps)

lemma untouched_inputs:
  assumes "submit_inputs cfg now q sid params mm res ps s = (s', x)"
  shows "untouched r s s'"
  using submit_inputs_fields [OF assms] by (simp add: untouched_def answers_def)

lemma untouched_prewarm:
  "prewarm_stages cfg now q rs base sids s = (s', x) \<Longrightarrow> q \<noteq> r \<Longrightarrow> untouched r s s'"
proof (induction sids arbitrary: s)
  case Nil
  then show ?case by simp
next
  case (Cons sid sids)
  show ?case
  proof (cases "length (stage_clients cfg) \<le> sid \<or> length (sampling_params_list rs) \<le> sid")
    case True
    with Cons.prems(1) show ?thesis by auto
  next
    case ok: False
    show ?thesis
    proof (cases "is_diffusion (stage_clients cfg ! sid)")
      case True
      let ?src = "if engine_input_source (stage_clients cfg ! sid) = [] then [int sid - 1] else engine_input_source (stage_clients cfg ! sid)"
      let ?s1 = "add_call (Add_diffusion sid q (rs_prompt rs) (sampling_params_list rs ! sid) (build_kv_sender_info cfg ?src)) s"
      have "prewarm_stages cfg now q rs base sids (mark_submitted q sid now ?s1) = (s', x)"
        using Cons.prems(1) ok True by (simp add: Let_def add_diffusion_request_def)
      note t = Cons.IH [OF this Cons.prems(2)]
      have "untouched r s ?s1" by (rule untouched_call) (use Cons.prems(2) in simp)
      from untouched_trans [OF untouched_trans [OF this untouched_mark [OF Cons.prems(2)]] t] show ?thesis .
    next
      case False
      obtain s1 y where y: "submit_inputs cfg now q sid (sampling_params_list rs ! sid) None False [base] s = (s1, y)" by fastforce
      note s1 = untouched_inputs [OF y, of r]
      show ?thesis
      proof (cases y)
        case (Inl e)
        with y ok False Cons.prems(1) s1 show ?thesis by (simp add: Let_def)
      next
        case (Inr u)
        then have "prewarm_stages cfg now q rs base sids (mark_submitted q sid now s1) = (s', x)"
          using y ok False Cons.prems(1) by (simp add: Let_def)
        from untouched_trans [OF untouched_trans [OF s1 untouched_mark [OF Cons.prems(2)]] Cons.IH [OF this Cons.prems(2)]]
        show ?thesis .
      qed
    qed
  qed
qed

lemma untouched_stage0: "q \<noteq> r \<Longrightarrow> untouched r s (submit_to_stage0 cfg q p params s)"
proof (cases p)
  case (Batch_prompt ps)
  then show "q \<noteq> r \<Longrightarrow> untouched r s (submit_to_stage0 cfg q p params s)"
    by (simp add: submit_to_stage0_def untouched_call)
qed (simp_all add: submit_to_stage0_def untouched_call)

lemma untouched_states: "q \<noteq> r \<Longrightarrow> untouched r s (s\<lparr>request_states := dict_set q rs (request_states s)\<rparr>)"
  by (simp add: untouched_def map_of_dict_set answers_def submissions_def)

lemma untouched_add:
  assumes "handle_add_request cfg now m s = (s', x)" and "m_request_id m \<noteq> r"
  shows "untouched r s s'"
proof (cases "m_sampling_params_list m")
  case None
  with assms(1) show ?thesis by (simp add: handle_add_request_def)
next
  case (Some spl)
  show ?thesis
  proof (cases spl)
    case Nil
    with Some assms(1) show ?thesis by (simp add: handle_add_request_def)
  next
    case (Cons params ps)
    let ?q = "m_request_id m" and ?rs = "new_req_state now m (params # ps)"
    let ?s1 = "submit_to_stage0 cfg ?q (m_prompt m) params (s\<lparr>request_states := dict_set ?q ?rs (request_states s)\<rparr>)"
    have s1: "untouched r s ?s1"
      by (rule untouched_trans [OF untouched_states untouched_stage0]) (use assms(2) in simp_all)
    have "s' = ?s1 \<or> (\<exists>base sids. prewarm_stages cfg now ?q ?rs base sids ?s1 = (s', x))"
      using assms(1) Some Cons
      by (auto simp: handle_add_request_def prewarm_async_chunk_stages_def Let_def split: if_splits option.splits)
    with s1 untouched_trans [OF s1 untouched_prewarm] assms(2) show ?thesis by blast
  qed
qed

lemma untouched_update_state: "q \<noteq> r \<Longrightarrow> untouched r s (update_state q f s)"
  by (simp add: untouched_def orch_simps) (simp add: answers_def submissions_def orch_simps)

lemma untouched_streaming_update:
  assumes "handle_streaming_update cfg now m s = (s', x)" and "m_request_id m \<noteq> r"
  shows "untouched r s s'"
proof (cases "get_state (m_request_id m) s")
  case None
  with assms untouched_add show ?thesis by (simp add: handle_streaming_update_def)
next
  case (Some rs)
  let ?q = "m_request_id m" and ?spl = "case m_sampling_params_list m of Some (p # ps) \<Rightarrow> p # ps | _ \<Rightarrow> sampling_params_list rs"
  let ?s1 = "update_state ?q (\<lambda>rs. rs\<lparr>sampling_params_list := ?spl, streaming := (streaming rs)\<lparr>streaming_enabled := True\<rparr>,
     stage_submit_ts := (stage_submit_ts rs)(0 \<mapsto> now)\<rparr>) s"
  have s1: "untouched r s ?s1" by (rule untouched_update_state [OF assms(2)])
  have dif: "untouched r s (add_call (Add_diffusion 0 ?q (m_prompt m) p None) ?s1)" for p
    by (rule untouched_trans [OF s1 untouched_call]) (use assms(2) in simp)
  have eng: "untouched r s (add_call (Add_prompt 0 (m_prompt m)) ?s1)"
    by (rule untouched_trans [OF s1 untouched_call]) simp
  have e: "handle_streaming_update cfg now m s = (if is_diffusion (stage_clients cfg ! 0)
      then (case ?spl of [] \<Rightarrow> (?s1, Inl IndexError)
            | p # _ \<Rightarrow> (add_call (Add_diffusion 0 ?q (m_prompt m) p None) ?s1, Inr ()))
      else (add_call (Add_prompt 0 (m_prompt m)) ?s1, Inr ()))"
    unfolding handle_streaming_update_def add_diffusion_request_def using Some by (simp add: Let_def)
  show ?thesis
  proof (cases "is_diffusion (stage_clients cfg ! 0)")
    case False
    with e assms(1) eng show ?thesis by simp
  next
    case True
    show ?thesis
    proof (cases ?spl)
      case Nil
      with e assms(1) True s1 show ?thesis by simp
    next
      case (Cons p ps)
      with e assms(1) True have "s' = add_call (Add_diffusion 0 ?q (m_prompt m) p None) ?s1" by simp
      with dif show ?thesis by simp
    qed
  qed
qed

lemma untouched_abort:
  assumes "guided (cfg_tracker s)" and "set_iteration ord" and "r \<notin> set ids" and "r \<notin> companion_ids (cfg_tracker s)"
  shows "untouched r s (handle_abort cfg ord ids s)"
    and "companion_ids (cfg_tracker (handle_abort cfg ord ids s)) \<subseteq> companion_ids (cfg_tracker s)"
proof -
  obtain t1 all where a: "abort_parents ord ids (cfg_tracker s) = (t1, all)" by fastforce
  have ok: "tracker_ok (cfg_tracker s)" using assms(1) by (simp add: guided_def)
  note res = abort_parents_result [OF ok assms(2) a]
  from res(2) obtain new where new: "all = ids @ new"
    "set new = (\<Union>p \<in> set ids - companion_ids (cfg_tracker s). companions p (cfg_tracker s)) - set ids" by blast
  have "r \<notin> set all" using new assms(3,4) companions_known [OF ok] by auto
  moreover have "filter (submits k r) (map (\<lambda>sid. Abort sid all) xs) = []" for k xs by (induction xs) simp_all
  ultimately show "untouched r s (handle_abort cfg ord ids s)"
    by (simp add: untouched_def handle_abort_def a map_of_fold_pop keys_fold_pop answers_def submissions_def)
  show "companion_ids (cfg_tracker (handle_abort cfg ord ids s)) \<subseteq> companion_ids (cfg_tracker s)"
    using res(6) by (auto simp: handle_abort_def a)
qed

text \<open>The events that do not name the request, and the errors of requests a stage really holds.\<close>

definition about_others :: "string \<Rightarrow> 'x event \<Rightarrow> 'x orch \<Rightarrow> bool" where
  "about_others r e s = (case e of
     Message (Add_request m) \<Rightarrow> m_request_id m \<noteq> r
   | Message (Streaming_update m) \<Rightarrow> m_request_id m \<noteq> r
   | Message (Add_companion m) \<Rightarrow> c_companion_id m \<noteq> r
   | Message (Abort_requests ids) \<Rightarrow> r \<notin> set ids
   | Diffusion_output sid out \<Rightarrow> o_error out \<noteq> None \<longrightarrow> o_request_id out = r \<longrightarrow> get_state r s \<noteq> None
   | _ \<Rightarrow> True)"

lemma handle_request_untouched:
  assumes "handle_request cfg ord now m s = (s', x)" and "about_others r (Message m) s"
    and "guided (cfg_tracker s)" and "set_iteration ord" and "visible cfg r s"
  shows "untouched r s s'" and "visible cfg r s'"
proof -
  have vis: "visible cfg r s'" if "untouched r s s'" "r \<notin> companion_ids (cfg_tracker s')"
    using that assms(5) by (simp add: visible_def untouched_def)
  have r: "r \<notin> companion_ids (cfg_tracker s)" using assms(5) by (simp add: visible_def)
  have "untouched r s s' \<and> r \<notin> companion_ids (cfg_tracker s')"
  proof (cases m)
    case (Add_request a)
    with assms(1) have "handle_add_request cfg now a s = (s', x)" by (simp add: handle_request_def)
    with untouched_add [OF this] handle_add_request_tracker [OF this] Add_request assms(2) r show ?thesis
      by (simp add: about_others_def)
  next
    case (Streaming_update a)
    with assms(1) have "handle_streaming_update cfg now a s = (s', x)" by (simp add: handle_request_def)
    with untouched_streaming_update [OF this] handle_streaming_update_tracker [OF this] Streaming_update assms(2) r
    show ?thesis by (simp add: about_others_def)
  next
    case (Add_companion c)
    with assms(1,2) r show ?thesis
      by (auto simp: handle_request_def handle_add_companion_def Let_def about_others_def untouched_def map_of_dict_set
          answers_def submissions_def register_companion_lookups)
  next
    case (Abort_requests ids)
    with assms(1,2) untouched_abort [OF assms(3,4) _ r, of ids cfg] r show ?thesis
      by (auto simp: handle_request_def about_others_def)
  next
    case Shutdown
    with assms(1) r show ?thesis
      by (auto simp: handle_request_def shutdown_stages_def untouched_def answers_def submissions_def)
  next
    case Other_message
    with assms(1) r show ?thesis by (auto simp: handle_request_def)
  qed
  with vis show "untouched r s s'" and "visible cfg r s'" by blast+
qed

section \<open>Answered once\<close>

text \<open>Where a request stands since the state \<open>b\<close>.\<close>

definition once_since :: "'x orch \<Rightarrow> string \<Rightarrow> 'x orch \<Rightarrow> bool" where
  "once_since b r s \<longleftrightarrow> (case get_state r b of None \<Rightarrow> False | Some rs0 \<Rightarrow>
     (case get_state r s of Some rs \<Rightarrow> same_request rs0 rs \<and> answers r s = answers r b
      | None \<Rightarrow> answers r s = Suc (answers r b))
     \<and> (\<forall>k. submissions k r s = submissions k r b
          \<or> (k \<notin> dom (stage_submit_ts rs0) \<and> submissions k r s = Suc (submissions k r b)
             \<and> (\<forall>rs. get_state r s = Some rs \<longrightarrow> k \<in> dom (stage_submit_ts rs)))))"

lemma settles_once:
  assumes "once_since b r s" and "settles r s s'"
  shows "once_since b r s'"
proof -
  obtain rs0 where b: "get_state r b = Some rs0" using assms(1) by (auto simp: once_since_def split: option.splits)
  show ?thesis
  proof (cases "get_state r s")
    case None
    with assms b show ?thesis by (auto simp: once_since_def settles_def)
  next
    case (Some rs)
    have same: "same_request rs0 rs" and ans: "answers r s = answers r b"
      using assms(1) b Some by (auto simp: once_since_def)
    then have dom: "dom (stage_submit_ts rs0) \<subseteq> dom (stage_submit_ts rs)" by (simp add: same_request_def)
    have sub: "submissions k r s' = submissions k r b
          \<or> (k \<notin> dom (stage_submit_ts rs0) \<and> submissions k r s' = Suc (submissions k r b)
             \<and> (\<forall>rs. get_state r s' = Some rs \<longrightarrow> k \<in> dom (stage_submit_ts rs)))" for k
    proof -
      have old: "submissions k r s = submissions k r b
          \<or> (k \<notin> dom (stage_submit_ts rs0) \<and> submissions k r s = Suc (submissions k r b) \<and> k \<in> dom (stage_submit_ts rs))"
        using assms(1) b Some by (auto simp: once_since_def)
      have new: "submissions k r s' = submissions k r s
          \<or> (k \<notin> dom (stage_submit_ts rs) \<and> submissions k r s' = Suc (submissions k r s)
             \<and> (\<forall>rs'. get_state r s' = Some rs' \<longrightarrow> k \<in> dom (stage_submit_ts rs')))"
        using assms(2) Some by (auto simp: settles_def)
      have "get_state r s' = Some rs' \<Longrightarrow> k \<in> dom (stage_submit_ts rs) \<Longrightarrow> k \<in> dom (stage_submit_ts rs')" for rs'
        using assms(2) Some by (auto simp: settles_def same_request_def)
      with old new dom show ?thesis by (metis subsetD)
    qed
    show ?thesis
    proof (cases "get_state r s'")
      case None
      with assms(2) Some have "answers r s' = Suc (answers r s)" by (auto simp: settles_def)
      with b None ans sub show ?thesis unfolding once_since_def by simp
    next
      case s': (Some rs')
      with assms(2) Some have "same_request rs rs'" "answers r s' = answers r s" by (auto simp: settles_def)
      with b s' ans sub same_request_trans [OF same] show ?thesis unfolding once_since_def by simp
    qed
  qed
qed

lemma untouched_once: "once_since b r s \<Longrightarrow> untouched r s s' \<Longrightarrow> once_since b r s'"
  by (simp add: once_since_def untouched_def split: option.splits)


lemma notify_fatal_result:
  assumes "distinct rs"
  shows "get_state r (notify_fatal e sid rs s) = (if r \<in> set rs then None else get_state r s)"
    and "answers r (notify_fatal e sid rs s) = answers r s + (if r \<in> set rs then 1 else 0)"
    and "submissions k r (notify_fatal e sid rs s) = submissions k r s"
    and "states_distinct s \<Longrightarrow> states_distinct (notify_fatal e sid rs s)"
proof -
  have "get_state r (notify_fatal e sid rs s) = (if r \<in> set rs then None else get_state r s)
     \<and> answers r (notify_fatal e sid rs s) = answers r s + (if r \<in> set rs then 1 else 0)
     \<and> submissions k r (notify_fatal e sid rs s) = submissions k r s
     \<and> (states_distinct s \<longrightarrow> states_distinct (notify_fatal e sid rs s))"
    using assms
    by (induction rs arbitrary: s) (auto simp: map_of_dict_pop answers_def submissions_def)
  then show "get_state r (notify_fatal e sid rs s) = (if r \<in> set rs then None else get_state r s)"
    and "answers r (notify_fatal e sid rs s) = answers r s + (if r \<in> set rs then 1 else 0)"
    and "submissions k r (notify_fatal e sid rs s) = submissions k r s"
    and "states_distinct s \<Longrightarrow> states_distinct (notify_fatal e sid rs s)"
    by blast+
qed

lemma on_engine_dead_settles:
  assumes "on_engine_dead sid e s = (s', x)" and "states_distinct s"
  shows "settles r s s'"
proof -
  let ?s1 = "s\<lparr>fatal_error := Some (e, sid)\<rparr>"
  let ?v = "map fst (filter (\<lambda>(r, rs). stage_submit_ts rs sid \<noteq> None) (request_states s))"
  have v: "distinct ?v" using assms(2) by (induction "request_states s") (auto simp: distinct_map_filter)
  have s': "s' = (notify_fatal e sid ?v ?s1)\<lparr>shutdown_event := True\<rparr>" using assms(1) by (simp add: on_engine_dead_def Let_def)
  note n = notify_fatal_result [OF v, where s = ?s1 and e = e and sid = sid]
  have tr: "get_state r s \<noteq> None" if "r \<in> set ?v"
  proof -
    from that have "r \<in> fst ` set (request_states s)" by auto
    then show ?thesis by (simp add: map_of_eq_None_iff)
  qed
  have f: "get_state r s' = (if r \<in> set ?v then None else get_state r s)"
    "answers r s' = answers r s + (if r \<in> set ?v then 1 else 0)" "submissions k r s' = submissions k r s"
    "states_distinct s'" "cfg_tracker s' = cfg_tracker s" for k
    using n(1) [where r = r] n(2) [where r = r] n(3) [where r = r] n(4) assms(2) by (simp_all add: s' notify_fatal_tracker answers_def submissions_def)
  show ?thesis
    using f tr by (cases "r \<in> set ?v"; cases "get_state r s") (auto simp: settles_def)
qed

lemma orch_step_once:
  assumes "orch_step cfg ord process now e s = (s', x)" and "once_since b r s" and "visible cfg r s" and "states_distinct s"
    and "guided (cfg_tracker s)" and "set_iteration ord" and "about_others r e s"
  shows "once_since b r s'" and "visible cfg r s'" and "states_distinct s'"
proof -
  have set: "once_since b r s' \<and> visible cfg r s' \<and> states_distinct s'" if "settles r s s'"
    using settles_once [OF assms(2) that] settles_visible [OF that assms(3)] that assms(4) by (simp add: settles_def)
  have "once_since b r s' \<and> visible cfg r s' \<and> states_distinct s'"
  proof (cases e)
    case (Message m)
    with assms(1) have "handle_request cfg ord now m s = (s', x)" by (simp add: orch_step_def)
    from handle_request_untouched [OF this _ assms(5,6,3)] assms(7) Message
    have "untouched r s s'" "visible cfg r s'" by simp_all
    with untouched_once [OF assms(2)] assms(4) show ?thesis by (simp add: untouched_def)
  next
    case (Diffusion_output sid out)
    with assms(1) have "on_diffusion_output cfg now sid out s = (s', x)" by (simp add: orch_step_def)
    from on_diffusion_output_settles [OF this assms(3)] assms(7) Diffusion_output set show ?thesis
      by (simp add: about_others_def)
  next
    case (Raw_outputs sid raws)
    with assms(1) have "on_raw_outputs cfg process now sid raws s = (s', x)" by (simp add: orch_step_def)
    from on_raw_outputs_settles [OF this assms(3)] set show ?thesis by simp
  next
    case (Engine_dead sid err)
    with assms(1) have "on_engine_dead sid err s = (s', x)" by (simp add: orch_step_def)
    from on_engine_dead_settles [OF this assms(4)] set show ?thesis by simp
  next
    case (Poll_failed sid err)
    with assms(1) have "s' = s" by (simp add: orch_step_def)
    with set show ?thesis by simp
  qed
  then show "once_since b r s'" and "visible cfg r s'" and "states_distinct s'" by blast+
qed

text \<open>Events one after the other, until one raises.\<close>

fun orch_steps ::
  "'x orch_config \<Rightarrow> (string list \<Rightarrow> string list) \<Rightarrow> 'x processor \<Rightarrow> (rat \<times> 'x event) list \<Rightarrow> 'x orch \<Rightarrow> 'x orch \<times> unit res" where
  "orch_steps cfg ord process [] s = (s, Inr ())"
| "orch_steps cfg ord process ((now, e) # es) s =
     (case orch_step cfg ord process now e s of
        (s1, Inl err) \<Rightarrow> (s1, Inl err)
      | (s1, Inr _) \<Rightarrow> orch_steps cfg ord process es s1)"

text \<open>A condition on every event of such a run, in the state it meets.\<close>

fun all_events ::
  "('x event \<Rightarrow> 'x orch \<Rightarrow> bool) \<Rightarrow> 'x orch_config \<Rightarrow> (string list \<Rightarrow> string list) \<Rightarrow> 'x processor \<Rightarrow> (rat \<times> 'x event) list \<Rightarrow> 'x orch \<Rightarrow> bool" where
  "all_events P cfg ord process [] s \<longleftrightarrow> True"
| "all_events P cfg ord process ((now, e) # es) s \<longleftrightarrow>
     P e s \<and> (case orch_step cfg ord process now e s of (s1, Inl _) \<Rightarrow> True | (s1, Inr _) \<Rightarrow> all_events P cfg ord process es s1)"

lemma orch_steps_guided:
  "orch_steps cfg ord process es s = (s', x) \<Longrightarrow> guided (cfg_tracker s)
    \<Longrightarrow> all_events fresh_companion cfg ord process es s \<Longrightarrow> guided (cfg_tracker s')"
proof (induction es arbitrary: s)
  case Nil
  then show ?case by simp
next
  case (Cons a es)
  obtain now e where a: "a = (now, e)" by fastforce
  obtain s1 y where y: "orch_step cfg ord process now e s = (s1, y)" by fastforce
  have g: "guided (cfg_tracker s1)" by (rule orch_step_guided [OF y Cons.prems(2)]) (use Cons.prems(3) a in simp)
  show ?case
  proof (cases y)
    case (Inl err)
    with y a Cons.prems(1) g show ?thesis by simp
  next
    case (Inr u)
    with y a Cons.prems g Cons.IH [of s1] show ?thesis by simp
  qed
qed

lemma orch_steps_once:
  assumes "orch_steps cfg ord process es s = (s', x)" and "once_since b r s" and "visible cfg r s" and "states_distinct s"
    and "guided (cfg_tracker s)" and "set_iteration ord" and "all_events fresh_companion cfg ord process es s"
    and "all_events (about_others r) cfg ord process es s"
  shows "once_since b r s' \<and> states_distinct s'"
  using assms(1-5,7,8)
proof (induction es arbitrary: s)
  case Nil
  then show ?case by simp
next
  case (Cons a es)
  obtain now e where a: "a = (now, e)" by fastforce
  obtain s1 y where y: "orch_step cfg ord process now e s = (s1, y)" by fastforce
  have e: "fresh_companion e s" "about_others r e s" using Cons.prems(6,7) a by simp_all
  note o = orch_step_once [OF y Cons.prems(2,3,4,5) assms(6) e(2)]
  have g: "guided (cfg_tracker s1)" by (rule orch_step_guided [OF y Cons.prems(5) e(1)])
  show ?case
  proof (cases y)
    case (Inl err)
    with y a Cons.prems(1) o show ?thesis by simp
  next
    case (Inr u)
    with y a Cons.prems Cons.IH [OF _ o g] show ?thesis by simp
  qed
qed

section \<open>The end of a run\<close>

definition added_ids :: "'x request_msg list \<Rightarrow> string list" where
  "added_ids ms = List.map_filter (\<lambda>m. case m of Add_request a \<Rightarrow> Some (m_request_id a) | _ \<Rightarrow> None) ms"

lemma drain_messages_result:
  "drain_messages e sid ms notified s = (s', n) \<Longrightarrow>
     request_states s' = request_states s \<and> answers r s' = answers r s + count_list (added_ids ms) r
     \<and> set n = set notified \<union> set (added_ids ms)"
proof (induction ms arbitrary: notified s)
  case Nil
  then show ?case by (simp add: added_ids_def map_filter_simps)
next
  case (Cons m ms)
  show ?case
  proof (cases m)
    case (Add_request a)
    with Cons.prems Cons.IH [of "m_request_id a # notified" "put_out (Fatal_msg e (m_request_id a) sid) s"]
    show ?thesis by (auto simp: added_ids_def map_filter_simps answers_def)
  qed (use Cons in \<open>simp_all add: added_ids_def map_filter_simps\<close>)
qed

lemma drain_states_result:
  assumes "distinct rs"
  shows "get_state r (drain_states e sid rs notified s) = (if r \<in> set rs then None else get_state r s)
    \<and> answers r (drain_states e sid rs notified s) = answers r s + (if r \<in> set rs - set notified then 1 else 0)"
  using assms by (induction rs arbitrary: s) (auto simp: map_of_dict_pop answers_def)

lemma finish_run_result:
  assumes "fatal_error s = Some f" and "states_distinct s"
  shows "get_state r (finish_run pending s) = None"
    and "answers r (finish_run pending s) = answers r s
      + (if r \<in> set (added_ids pending) then count_list (added_ids pending) r else if get_state r s \<noteq> None then 1 else 0)"
proof -
  obtain e sid where f: "f = (e, sid)" by fastforce
  let ?s = "s\<lparr>shutdown_event := True\<rparr>"
  obtain s1 n where d: "drain_messages e sid pending [] ?s = (s1, n)" by fastforce
  note r1 = drain_messages_result [OF d, of r]
  have k: "distinct (map fst (request_states s1))" using r1 assms(2) by simp
  note r2 = drain_states_result [OF k, where r = r and e = e and sid = sid and notified = n and s = s1]
  have fin: "finish_run pending s = shutdown_stages (drain_states e sid (map fst (request_states s1)) n s1)"
    using assms(1) f d by (simp add: finish_run_def drain_pending_requests_on_fatal_def)
  have tr: "r \<in> set (map fst (request_states s1)) \<longleftrightarrow> get_state r s \<noteq> None"
    using r1 by (simp add: map_of_eq_None_iff)
  show "get_state r (finish_run pending s) = None" using r1 r2 tr by (auto simp: fin shutdown_stages_def)
  have c: "r \<notin> set (added_ids pending) \<Longrightarrow> count_list (added_ids pending) r = 0" by (simp add: count_list_0_iff)
  show "answers r (finish_run pending s) = answers r s
      + (if r \<in> set (added_ids pending) then count_list (added_ids pending) r else if get_state r s \<noteq> None then 1 else 0)"
    using r1 r2 tr c by (auto simp: fin shutdown_stages_def answers_def)
qed


section \<open>A small pipeline\<close>

text \<open>A language stage and a diffusion stage that reports outputs; one request with a companion.\<close>

definition ex_client :: "bool \<Rightarrow> bool \<Rightarrow> nat stage_client" where
  "ex_client dif fin = \<lparr>is_diffusion = dif, final_output = fin, model_stage = None, max_model_len = 100,
     engine_input_source = [], kv_sender_info = Some (Some 7), custom_process_input_func = None,
     process_engine_inputs = (\<lambda>_ p _. Inr [p])\<rparr>"

definition ex_orch_config :: "nat orch_config" where
  "ex_orch_config = \<lparr>stage_clients = [ex_client False False, ex_client True True], async_chunk = False, pd_pair = None,
     pd_bootstrap_addr = None, pd_prefill_engine_id = None\<rparr>"

definition ex_params :: "params_kind \<Rightarrow> nat params" where
  "ex_params k = \<lparr>params_kind = k, max_tokens = None, extra_kv_params = None, cfg_kv_request_ids = None, params_body = 0\<rparr>"

definition ex_out :: "string \<Rightarrow> nat stage_output" where
  "ex_out r = \<lparr>o_request_id = r, o_finished = True, o_error = None, o_kv_params = None, o_token_ids = Some [1, 2],
     o_prompt_token_ids = Some [3], o_segment_finished = False, o_new_prompt_len = None, o_body = None\<rparr>"

definition ex_add :: "nat add_msg" where
  "ex_add = \<lparr>m_request_id = ''p'', m_prompt = Engine_prompt ''p'' (Some [3]) False None 0, m_original_prompt = None,
     m_sampling_params_list = Some [ex_params Sampling, ex_params Diffusion], m_final_stage_id = 1\<rparr>"

definition ex_companion :: "nat companion_msg" where
  "ex_companion = \<lparr>c_companion_id = ''c'', c_parent_id = ''p'', c_role = ''neg'',
     c_prompt = Engine_prompt ''c'' (Some [3]) False None 0, c_sampling_params_list = [ex_params Sampling]\<rparr>"

text \<open>The request and its companion are known and the request is done with stage 0.\<close>

definition ex_start :: "nat orch" where
  "ex_start = fst (handle_add_companion ex_orch_config 1 ex_companion (fst (handle_add_request ex_orch_config 0 ex_add orch_init)))"

definition ex_waiting :: "nat orch" where
  "ex_waiting = on_tracker (defer_parent ''p'' (ex_out ''p'') 0) ex_start"

lemmas ex_orch_defs = ex_orch_config_def ex_client_def ex_params_def ex_out_def ex_add_def ex_companion_def

lemma ex_start_fields:
  "get_state ''p'' ex_start = Some (new_req_state 0 ex_add [ex_params Sampling, ex_params Diffusion])"
  "map fst (request_states ex_start) = [''p'', ''c'']"
  "cfg_tracker ex_start = register_companion ''p'' ''neg'' ''c'' tracker_init"
  "calls ex_start = [Add_prompt 0 (m_prompt ex_add), Add_prompt 0 (c_prompt ex_companion)]" "out_queue ex_start = []"
  by (simp_all add: ex_start_def handle_add_companion_def handle_add_request_def submit_to_stage0_def orch_init_def
      ex_orch_defs Let_def)

lemma ex_tracker:
  "guided (cfg_tracker ex_start)" "companions ''p'' (cfg_tracker ex_start) = {''c''}"
  "done_set q (cfg_tracker ex_start) = {}" "companion_ids (cfg_tracker ex_start) = {''c''}"
  "get_companion_request_ids ''p'' (cfg_tracker ex_start) = [(''neg'', ''c'')]"
proof -
  have i: "get_companion_request_ids q tracker_init = []" "companion_ids tracker_init = {}" for q
    by (simp_all add: tracker_init_def get_companion_request_ids_def)
  show "guided (cfg_tracker ex_start)"
    unfolding ex_start_fields by (rule guided_register [OF guided_init]) (simp_all add: i)
  show "companions ''p'' (cfg_tracker ex_start) = {''c''}"
    by (simp add: ex_start_fields companions_def register_companion_lookups i)
  show "done_set q (cfg_tracker ex_start) = {}"
    by (simp add: ex_start_fields register_companion_lookups) (simp add: tracker_init_def done_set_def)
  show "companion_ids (cfg_tracker ex_start) = {''c''}" by (simp add: ex_start_fields register_companion_lookups i)
  show "get_companion_request_ids ''p'' (cfg_tracker ex_start) = [(''neg'', ''c'')]"
    by (simp add: ex_start_fields register_companion_lookups i)
qed

lemma ex_visible: "visible ex_orch_config ''p'' ex_start"
  using ex_tracker(4) by (simp add: visible_def ex_start_fields) (simp add: new_req_state_def ex_orch_defs)

lemma remdups_iteration: "set_iteration remdups"
  by (simp add: set_iteration_def)

section \<open>Properties\<close>

text \<open>C5: A request of a caller that is tracked, is no companion and no streaming session, has a last stage that
  reports outputs, is neither aborted nor added a second time, and for which no diffusion stage reports an error
  after it was answered, gets exactly one final message, at the moment it stops being tracked, whatever other requests, stages and aborts do, and it goes to each later diffusion
  stage at most once. If the run ends with \<open>_fatal_error\<close> set, which the death of an LLM stage does, it has
  been answered exactly once when the orchestrator is done. If the run ends in any other way, the death of a
  diffusion stage or an exception among them, the end answers nothing: the request was answered before, or
  never is.\<close>

theorem requests_answered_once:
  assumes "guided (cfg_tracker s)" and "distinct (map fst (request_states s))" and "visible cfg r s" and "get_state r s = Some rs"
    and "set_iteration ord" and "all_events fresh_companion cfg ord process es s" and "all_events (about_others r) cfg ord process es s"
    and "orch_steps cfg ord process es s = (s', x)" and "r \<notin> set (added_ids pending)"
  shows "answers r s' = answers r s + (if get_state r s' = None then 1 else 0)
     \<and> (\<forall>k. submissions k r s' \<le> submissions k r s + (if stage_submit_ts rs k = None then 1 else 0))
     \<and> answers r (finish_run pending s')
        = answers r s + (if get_state r s' = None \<or> fatal_error s' \<noteq> None then 1 else 0)
     \<and> (fatal_error s' \<noteq> None \<longrightarrow> get_state r (finish_run pending s') = None)"
proof -
  have "once_since s r s" using assms(4) by (simp add: once_since_def)
  from orch_steps_once [OF assms(8) this assms(3,2,1,5,6,7)] have o: "once_since s r s'" "states_distinct s'" by blast+
  have a: "answers r s' = answers r s + (if get_state r s' = None then 1 else 0)"
    using o(1) assms(4) by (auto simp: once_since_def split: option.splits)
  have k: "submissions k r s' \<le> submissions k r s + (if stage_submit_ts rs k = None then 1 else 0)" for k
  proof -
    have "submissions k r s' = submissions k r s \<or> (k \<notin> dom (stage_submit_ts rs) \<and> submissions k r s' = Suc (submissions k r s))"
      using o(1) assms(4) by (simp add: once_since_def) blast
    then show ?thesis by (auto simp: domIff)
  qed
  show ?thesis
  proof (cases "fatal_error s'")
    case None
    then have "finish_run pending s' = s'\<lparr>shutdown_event := True, stages_shutdown := True\<rparr>"
      by (simp add: finish_run_def drain_pending_requests_on_fatal_def shutdown_stages_def)
    then have "answers r (finish_run pending s') = answers r s'" by (simp add: answers_def)
    with None a k show ?thesis by auto
  next
    case (Some f)
    from finish_run_result [OF Some o(2)] a k Some assms(9) show ?thesis by auto
  qed
qed

theorem requests_answered_once_witness:
  "\<exists>s' x. orch_steps ex_orch_config remdups (\<lambda>_ raws. (raws, [])) [(5, Engine_dead 0 ''oom'')] ex_start = (s', x)
     \<and> answers ''p'' s' = answers ''p'' ex_start + (if get_state ''p'' s' = None then 1 else 0)
     \<and> answers ''p'' (finish_run [] s')
        = answers ''p'' ex_start + (if get_state ''p'' s' = None \<or> fatal_error s' \<noteq> None then 1 else 0)"
proof -
  let ?process = "\<lambda>_ raws. (raws, []) :: nat stage_output list \<times> string list" and ?es = "[(5 :: rat, Engine_dead 0 ''oom'')]"
  obtain s' x where s: "orch_steps ex_orch_config remdups ?process ?es ex_start = (s', x)" by fastforce
  have ev: "all_events fresh_companion ex_orch_config remdups ?process ?es ex_start"
    "all_events (about_others ''p'') ex_orch_config remdups ?process ?es ex_start"
    by (simp_all add: fresh_companion_def about_others_def split: prod.split sum.split)
  have d: "distinct (map fst (request_states ex_start))" by (simp add: ex_start_fields)
  have "''p'' \<notin> set (added_ids ([] :: nat request_msg list))" by (simp add: added_ids_def map_filter_simps)
  from requests_answered_once [OF ex_tracker(1) d ex_visible ex_start_fields(1) remdups_iteration ev s this] s
  show ?thesis by blast
qed

text \<open>C6: In every run the bookkeeping of companions is consistent, and a request that waits for its companions misses one of them: none is forgotten after its last companion is done.\<close>

theorem waiting_parents_miss_a_companion:
  assumes "orch_steps cfg ord process es orch_init = (s, x)" and "all_events fresh_companion cfg ord process es orch_init"
  shows "(\<forall>p. pending_parents (cfg_tracker s) p \<noteq> None \<longrightarrow> (\<exists>c \<in> companions p (cfg_tracker s). c \<notin> done_set p (cfg_tracker s)))
     \<and> (\<forall>p c. companion_to_parent (cfg_tracker s) c = Some p \<longleftrightarrow> c \<in> companions p (cfg_tracker s))
     \<and> dom (companion_to_parent (cfg_tracker s)) = companion_ids (cfg_tracker s)"
proof -
  have "guided (cfg_tracker (orch_init :: 'a orch))" using guided_init by (simp add: orch_init_def)
  from orch_steps_guided [OF assms(1) this assms(2)] have g: "guided (cfg_tracker s)" .
  then have "tracker_ok (cfg_tracker s)" by (simp add: guided_def)
  moreover have "\<exists>c \<in> companions p (cfg_tracker s). c \<notin> done_set p (cfg_tracker s)"
    if "pending_parents (cfg_tracker s) p \<noteq> None" for p
    using guidedD [OF g that] by (auto simp: all_companions_done_iff)
  ultimately show ?thesis using tracker_okD(2,3) by blast
qed

theorem waiting_parents_miss_a_companion_witness:
  "\<exists>s x. orch_steps ex_orch_config remdups (\<lambda>_ raws. (raws, [])) [(0, Message (Add_request ex_add)), (1, Message (Add_companion ex_companion))] orch_init = (s, x)
     \<and> ((\<forall>p. pending_parents (cfg_tracker s) p \<noteq> None \<longrightarrow> (\<exists>c \<in> companions p (cfg_tracker s). c \<notin> done_set p (cfg_tracker s)))
     \<and> (\<forall>p c. companion_to_parent (cfg_tracker s) c = Some p \<longleftrightarrow> c \<in> companions p (cfg_tracker s))
     \<and> dom (companion_to_parent (cfg_tracker s)) = companion_ids (cfg_tracker s))"
proof -
  let ?process = "\<lambda>_ raws. (raws, []) :: nat stage_output list \<times> string list"
  let ?es = "[(0 :: rat, Message (Add_request ex_add)), (1, Message (Add_companion ex_companion))]"
  obtain s x where s: "orch_steps ex_orch_config remdups ?process ?es orch_init = (s, x)" by fastforce
  have "cfg_tracker s1 = tracker_init"
    if "orch_step ex_orch_config remdups ?process 0 (Message (Add_request ex_add)) orch_init = (s1, y)" for s1 y
  proof -
    have "cfg_tracker s1 = cfg_tracker (orch_init :: nat orch)"
      using that handle_add_request_tracker by (fastforce simp: orch_step_def handle_request_def)
    then show ?thesis by (simp add: orch_init_def)
  qed
  then have "all_events fresh_companion ex_orch_config remdups ?process ?es orch_init"
    by (auto simp: fresh_companion_def tracker_init_def get_companion_request_ids_def split: prod.split sum.split)
  from waiting_parents_miss_a_companion [OF s this] s show ?thesis by blast
qed


text \<open>C12: For a request of a caller that is no companion and no streaming session (sessions are forwarded with
  every segment), routing the outputs of the stages sends it to a later diffusion stage only if it was not sent
  there before and all its companions are done.\<close>

theorem forwarding_waits_for_companions:
  assumes "visible cfg r s" and "distinct (map fst (request_states s))" and "about_others r e s"
    and "case e of Message m \<Rightarrow> False | _ \<Rightarrow> True" and "orch_step cfg ord process now e s = (s', x)"
    and "submissions k r s' \<noteq> submissions k r s"
  shows "\<exists>rs. get_state r s = Some rs \<and> stage_submit_ts rs k = None \<and> submissions k r s' = submissions k r s + 1
     \<and> companions r (cfg_tracker s') \<subseteq> done_set r (cfg_tracker s')"
proof -
  have "settles r s s'"
  proof (cases e)
    case (Message m)
    with assms(4) show ?thesis by simp
  next
    case (Diffusion_output sid out)
    with assms(5) have "on_diffusion_output cfg now sid out s = (s', x)" by (simp add: orch_step_def)
    from on_diffusion_output_settles [OF this assms(1)] assms(3) Diffusion_output show ?thesis by (simp add: about_others_def)
  next
    case (Raw_outputs sid raws)
    with assms(5) have "on_raw_outputs cfg process now sid raws s = (s', x)" by (simp add: orch_step_def)
    from on_raw_outputs_settles [OF this assms(1)] show ?thesis .
  next
    case (Engine_dead sid err)
    with assms(5) have "on_engine_dead sid err s = (s', x)" by (simp add: orch_step_def)
    from on_engine_dead_settles [OF this assms(2)] show ?thesis .
  next
    case (Poll_failed sid err)
    with assms(5) show ?thesis by (simp add: orch_step_def)
  qed
  with assms(6) show ?thesis
    by (cases "get_state r s") (auto simp: settles_def all_companions_done_iff domIff)
qed

fun call_cfg_ids :: "'x call \<Rightarrow> (string \<times> string) list option" where
  "call_cfg_ids (Add_diffusion k q p params senders) = cfg_kv_request_ids params"
| "call_cfg_ids (Add_batch k q ps params senders) = cfg_kv_request_ids params"
| "call_cfg_ids _ = None"

lemma submit_diffusion_call:
  assumes "params_kind params = Diffusion" and "get_companion_request_ids p (cfg_tracker s) \<noteq> []"
  shows "\<exists>c. calls (submit_diffusion cfg now p sid q params s) = calls s @ [c] \<and> submits (sid + 1) p c
     \<and> call_cfg_ids c = Some (get_companion_request_ids p (cfg_tracker s))"
  using assms
  by (cases q) (auto simp: submit_diffusion_def Let_def orch_simps attach_cfg_request_ids_def)

text \<open>C13: When the last companion of a waiting request finishes, the request goes to its diffusion stage, once, with the ids of all its companions, and no longer waits.\<close>

theorem last_companion_releases_parent:
  assumes "guided (cfg_tracker s)" and "c \<in> companions p (cfg_tracker s)" and "c \<notin> done_set p (cfg_tracker s)"
    and "companions p (cfg_tracker s) \<subseteq> insert c (done_set p (cfg_tracker s))"
    and "pending_parents (cfg_tracker s) p = Some (out, sid)" and "get_state p s = Some rs" and "stage_submit_ts rs (sid + 1) = None"
    and "sid + 1 < length (stage_clients cfg)" and "sid + 1 < length (sampling_params_list rs)"
    and "is_diffusion (stage_clients cfg ! (sid + 1))" and "custom_process_input_func (stage_clients cfg ! (sid + 1)) = None"
    and "params_kind (sampling_params_list rs ! (sid + 1)) = Diffusion"
    and "o_request_id cout = c" and "o_finished cout"
  shows "\<exists>s' call. route_output cfg now csid cout crs metrics s = (s', Inr ()) \<and> calls s' = calls s @ [call]
     \<and> submits (sid + 1) p call \<and> call_cfg_ids call = Some (get_companion_request_ids p (cfg_tracker s))
     \<and> pending_parents (cfg_tracker s') p = None \<and> get_state c s' = None"
proof -
  have ok: "tracker_ok (cfg_tracker s)" using assms(1) by (simp add: guided_def)
  obtain t1 y where y: "on_companion_completed c (cfg_tracker s) = (t1, y)" by fastforce
  note c = on_companion_completed_ok [OF ok y]
  have "y = Inr (Some p)" using assms(2-5) by (subst c(8)) simp
  moreover have pend: "pending_parents t1 p = Some (out, sid)" by (simp add: c(4) assms(5))
  ultimately have step: "handle_cfg_companion_ready cfg now c s =
      forward_to_next_stage cfg now p sid out rs False False (s\<lparr>cfg_tracker := t1\<lparr>pending_parents := (pending_parents t1)(p := None)\<rparr>\<rparr>)"
    using y assms(6,7)
    by (simp add: handle_cfg_companion_ready_def pop_pending_parent_def Let_def next_stage_already_submitted_def)
  let ?t2 = "t1\<lparr>pending_parents := (pending_parents t1)(p := None)\<rparr>"
  let ?s1 = "set_engine_outputs sid out (s\<lparr>cfg_tracker := ?t2\<rparr>)"
  let ?s2 = "submit_diffusion cfg now p sid (rs_prompt rs) (sampling_params_list rs ! (sid + 1)) ?s1"
  have fwd: "handle_cfg_companion_ready cfg now c s = (?s2, Inr ())"
    unfolding step using assms(8-11) by (simp add: forward_to_next_stage_def forward_diffusion_def Let_def)
  have ids: "get_companion_request_ids p (cfg_tracker ?s1) = get_companion_request_ids p (cfg_tracker s)"
    by (simp add: orch_simps get_companion_request_ids_def c(6))
  have "get_companion_request_ids p (cfg_tracker s) \<noteq> []" using assms(2) by (auto simp: companions_def)
  then obtain call where call: "calls ?s2 = calls ?s1 @ [call]" "submits (sid + 1) p call"
    "call_cfg_ids call = Some (get_companion_request_ids p (cfg_tracker s))"
    using submit_diffusion_call [OF assms(12), of p ?s1 cfg now sid "rs_prompt rs"] unfolding ids by blast
  have "is_companion c (cfg_tracker s)" using companions_known [OF ok assms(2)] by (simp add: is_companion_def)
  then have "route_output cfg now csid cout crs metrics s = (pop_state c ?s2, Inr ())"
    using fwd assms(13,14) by (simp add: route_output_def)
  with call show ?thesis
    by (intro exI [of _ "pop_state c ?s2"] exI [of _ call]) (simp add: orch_simps submit_diffusion_tracker map_of_dict_pop)
qed

text \<open>
  An error of a diffusion stage ends the request, but its companions stay in the tracker for good.
\<close>

lemma diffusion_error_keeps_companions:
  assumes "on_diffusion_output cfg now sid out s = (s', x)" and "o_error out \<noteq> None"
  shows "get_state (o_request_id out) s' = None" and "cfg_tracker s' = cfg_tracker s" and "pd_kv_params s' = pd_kv_params s"
  using assms by (auto simp: on_diffusion_output_def map_of_dict_pop)

text \<open>
  A companion whose parent is forgotten before it finishes, which happens when its KV cache was ready
  earlier, is routed like a request of a caller.
\<close>

lemma orphan_companion_is_reported:
  assumes "c \<notin> companion_ids (cfg_tracker s)" and "o_request_id out = c" and "final_output (stage_clients cfg ! 0)"
    and "final_stage_id rs = 0" and "o_finished out" and "pd_pair cfg = None"
  shows "out_queue (fst (route_output cfg now 0 out rs m s)) = out_queue s @ [Output_msg c 0 out m True (stage_submit_ts rs 0)]"
  using assms
  by (simp add: route_output_def Let_def is_companion_def forward_output_def should_forward_def store_kv_params_def report_output_def orch_simps)

subsection \<open>Witnesses\<close>

lemma ex_waiting_fields:
  "get_state ''p'' ex_waiting = get_state ''p'' ex_start" "map fst (request_states ex_waiting) = [''p'', ''c'']"
  "companions ''p'' (cfg_tracker ex_waiting) = {''c''}" "done_set q (cfg_tracker ex_waiting) = {}"
  "get_companion_request_ids ''p'' (cfg_tracker ex_waiting) = [(''neg'', ''c'')]"
  "pending_parents (cfg_tracker ex_waiting) ''p'' = Some (ex_out ''p'', 0)" "companion_ids (cfg_tracker ex_waiting) = {''c''}"
  using ex_tracker(2,4,5) ex_tracker(3) [of q] ex_start_fields(2)
  by (simp_all add: ex_waiting_def defer_parent_lookups) (simp_all add: defer_parent_def get_companion_request_ids_def)

lemma ex_waiting_guided: "guided (cfg_tracker ex_waiting)"
proof -
  have "must_wait ''p'' (cfg_tracker ex_start)"
    using ex_tracker(2) ex_tracker(3) [of "''p''"]
    by (simp add: must_wait_def all_companions_done_iff) (simp add: has_companions_def ex_start_fields register_companion_def Let_def)
  from guided_defer [OF ex_tracker(1) this] show ?thesis by (simp add: ex_waiting_def)
qed

theorem last_companion_releases_parent_witness:
  "\<exists>s' call. route_output ex_orch_config 2 0 (ex_out ''c'') (new_req_state 1 ex_add []) None ex_waiting = (s', Inr ())
     \<and> calls s' = calls ex_waiting @ [call] \<and> submits (0 + 1) ''p'' call
     \<and> call_cfg_ids call = Some (get_companion_request_ids ''p'' (cfg_tracker ex_waiting))
     \<and> pending_parents (cfg_tracker s') ''p'' = None \<and> get_state ''c'' s' = None"
  by (rule last_companion_releases_parent [where out = "ex_out ''p''" and rs = "new_req_state 0 ex_add [ex_params Sampling, ex_params Diffusion]"])
    (simp_all add: ex_waiting_guided ex_waiting_fields ex_start_fields, simp_all add: ex_orch_defs new_req_state_def)

text \<open>A request without companions that is done with stage 0.\<close>

definition ex_alone :: "nat orch" where
  "ex_alone = fst (handle_add_request ex_orch_config 0 ex_add orch_init)"

lemma ex_alone_fields:
  "request_states ex_alone = [(''p'', new_req_state 0 ex_add [ex_params Sampling, ex_params Diffusion])]"
  "cfg_tracker ex_alone = tracker_init" "calls ex_alone = [Add_prompt 0 (m_prompt ex_add)]"
  by (simp_all add: ex_alone_def handle_add_request_def submit_to_stage0_def orch_init_def ex_orch_defs Let_def)

lemma ex_alone_visible: "visible ex_orch_config ''p'' ex_alone"
  by (simp add: visible_def ex_alone_fields tracker_init_def) (simp add: new_req_state_def ex_orch_defs)

lemma ex_alone_forwarded:
  "submissions 1 ''p'' (fst (orch_step ex_orch_config remdups (\<lambda>_ raws. (raws, [])) 2 (Raw_outputs 0 [ex_out ''p'']) ex_alone)) = 1"
  by (simp add: orch_step_def on_raw_outputs_def kv_ready_def process_stage_outputs_def note_segment_def update_state_def
      ex_alone_fields build_stage_metrics_def Let_def route_output_def is_companion_def tracker_init_def forward_output_def
      report_output_def store_kv_params_def should_forward_def next_stage_already_submitted_def must_wait_def has_companions_def
      forward_to_next_stage_def forward_diffusion_def submit_diffusion_def submissions_def ex_orch_defs new_req_state_def orch_simps)

theorem forwarding_waits_for_companions_witness:
  "\<exists>s' x rs. orch_step ex_orch_config remdups (\<lambda>_ raws. (raws, [])) 2 (Raw_outputs 0 [ex_out ''p'']) ex_alone = (s', x)
     \<and> get_state ''p'' ex_alone = Some rs \<and> stage_submit_ts rs 1 = None \<and> submissions 1 ''p'' s' = submissions 1 ''p'' ex_alone + 1
     \<and> companions ''p'' (cfg_tracker s') \<subseteq> done_set ''p'' (cfg_tracker s')"
proof -
  let ?e = "Raw_outputs 0 [ex_out ''p'']" and ?process = "\<lambda>_ raws. (raws, []) :: nat stage_output list \<times> string list"
  obtain s' x where s: "orch_step ex_orch_config remdups ?process 2 ?e ex_alone = (s', x)" by fastforce
  have "submissions 1 ''p'' s' \<noteq> submissions 1 ''p'' ex_alone"
    using ex_alone_forwarded s by (simp add: submissions_def ex_alone_fields)
  from forwarding_waits_for_companions [OF ex_alone_visible _ _ _ s this] s show ?thesis
    by (auto simp: ex_alone_fields about_others_def)
qed

end
