(* ===== verification/Async_Client_Properties.thy ===== *)
theory Async_Client_Properties
  imports Async_Client Orchestrator_Properties
begin

text \<open>
  What a caller of \<open>generate\<close> gets: the outputs of its own request, in order, up to the first message
  that ends it; and what happens to a generator whose request was aborted by someone else.
\<close>

section \<open>The invariant\<close>

definition omni_ok :: "'x omni \<Rightarrow> bool" where
  "omni_ok s \<longleftrightarrow> distinct (map fst (entries s))
     \<and> (\<forall>r n. map_of (entries s) r = Some n \<longrightarrow> n < length (generators s) \<and> g_id (generators s ! n) = r \<and> g_ending (generators s ! n) = None)"

lemma omni_okD:
  assumes "omni_ok s"
  shows "distinct (map fst (entries s))" and "map_of (entries s) r = Some n \<Longrightarrow> n < length (generators s)"
    and "map_of (entries s) r = Some n \<Longrightarrow> g_id (generators s ! n) = r"
    and "map_of (entries s) r = Some n \<Longrightarrow> g_ending (generators s ! n) = None"
  using assms by (auto simp: omni_ok_def)

lemma omni_init_ok: "omni_ok omni_init"
  by (simp add: omni_ok_def omni_init_def)

lemma client_abort_ok: "omni_ok s \<Longrightarrow> omni_ok (client_abort ids s)"
  by (auto simp: omni_ok_def client_abort_def keys_fold_pop map_of_fold_pop split: if_splits)

lemma set_generator_simps [simp]:
  "entries (set_generator n f s) = entries s" "queues (set_generator n f s) = queues s"
  "length (generators (set_generator n f s)) = length (generators s)" "final_output_task (set_generator n f s) = final_output_task s"
  "to_orchestrator (set_generator n f s) = to_orchestrator s"
  by (simp_all add: set_generator_def)

lemma set_generator_nth:
  "k < length (generators s) \<Longrightarrow> generators (set_generator n f s) ! k = (if k = n then f (generators s ! n) else generators s ! k)"
  by (auto simp: set_generator_def nth_list_update)

lemma client_abort_simps [simp]:
  "queues (client_abort ids s) = queues s" "generators (client_abort ids s) = generators s"
  "final_output_task (client_abort ids s) = final_output_task s"
  "map_of (entries (client_abort ids s)) r = (if r \<in> set ids then None else map_of (entries s) r)"
  by (simp_all add: client_abort_def map_of_fold_pop)

lemma put_note_simps [simp]:
  "entries (put_note n nt s) = entries s" "generators (put_note n nt s) = generators s"
  "final_output_task (put_note n nt s) = final_output_task s"
  "queues (put_note n nt s) k = (if k = n then queues s n @ [nt] else queues s k)"
  by (simp_all add: put_note_def)

lemma broadcast_over:
  "entries (fold (\<lambda>(r, n). put_note n nt) es s) = entries s \<and> generators (fold (\<lambda>(r, n). put_note n nt) es s) = generators s
     \<and> final_output_task (fold (\<lambda>(r, n). put_note n nt) es s) = final_output_task s
     \<and> queues (fold (\<lambda>(r, n). put_note n nt) es s) k = queues s k @ replicate (count_list (map snd es) k) nt"
  by (induction es arbitrary: s) (auto simp: replicate_append_same)

lemma broadcast_simps [simp]:
  "entries (broadcast nt s) = entries s" "generators (broadcast nt s) = generators s"
  "final_output_task (broadcast nt s) = final_output_task s"
  using broadcast_over [of nt "entries s" s] by (simp_all add: broadcast_def)

lemma count_entries:
  "distinct (map fst es) \<Longrightarrow> (\<And>r k. map_of es r = Some k \<Longrightarrow> name k = r) \<Longrightarrow>
     count_list (map snd es) n = (if map_of es (name n) = Some n then 1 else 0)"
proof (induction es)
  case Nil
  then show ?case by simp
next
  case (Cons e es)
  obtain q k where e: "e = (q, k)" by fastforce
  have fresh: "q \<notin> fst ` set es" using Cons.prems(1) e by simp
  have name: "name k = q" using Cons.prems(2) [of q k] e by simp
  have "name j = r" if "map_of es r = Some j" for r j
  proof -
    have "r \<in> fst ` set es" using map_of_SomeD [OF that] by force
    with fresh have "r \<noteq> q" by auto
    with that e show ?thesis using Cons.prems(2) [of r j] by simp
  qed
  from Cons.IH [OF _ this] Cons.prems(1) have IH: "count_list (map snd es) n = (if map_of es (name n) = Some n then 1 else 0)" by simp
  show ?case
  proof (cases "k = n")
    case True
    have "map_of es q = None" using fresh by (simp add: map_of_eq_None_iff)
    with True IH e name show ?thesis by simp
  next
    case False
    show ?thesis
    proof (cases "q = name n")
      case True
      have "map_of es q = None" using fresh by (simp add: map_of_eq_None_iff)
      with True False IH e show ?thesis by simp
    next
      case neq: False
      with False IH e show ?thesis by simp
    qed
  qed
qed

text \<open>A broadcast reaches every registered generator once, and no other.\<close>

lemma broadcast_queue:
  assumes "omni_ok s"
  shows "queues (broadcast nt s) n = queues s n @ (if map_of (entries s) (g_id (generators s ! n)) = Some n then [nt] else [])"
proof -
  have "count_list (map snd (entries s)) n = (if map_of (entries s) (g_id (generators s ! n)) = Some n then 1 else 0)"
    using count_entries [OF omni_okD(1) [OF assms], where name = "\<lambda>k. g_id (generators s ! k)"] omni_okD(3) [OF assms] by auto
  with broadcast_over [of nt "entries s" s n] show ?thesis by (auto simp: broadcast_def)
qed

lemma fail_generator_fields:
  "entries (fail_generator n e s) = dict_pop (g_id (generators s ! n)) (entries s)" "queues (fail_generator n e s) = queues s"
  "generators (fail_generator n e s) = generators (set_generator n (\<lambda>g. g\<lparr>g_ending := Some e\<rparr>) s)"
  "final_output_task (fail_generator n e s) = final_output_task s"
  by (simp_all add: fail_generator_def client_abort_def)

text \<open>Ending a generator together with its entry keeps the invariant.\<close>

lemma omni_ok_update:
  assumes "omni_ok s" and "length (generators s') = length (generators s)" and "distinct (map fst (entries s'))"
    and "\<And>r k. map_of (entries s') r = Some k \<Longrightarrow> map_of (entries s) r = Some k
           \<and> g_id (generators s' ! k) = g_id (generators s ! k) \<and> g_ending (generators s' ! k) = None"
  shows "omni_ok s'"
  using assms by (fastforce simp: omni_ok_def)

lemma fail_generator_ok:
  assumes "omni_ok s"
  shows "omni_ok (fail_generator n e s)"
proof (rule omni_ok_update [OF assms])
  fix r k
  assume r: "map_of (entries (fail_generator n e s)) r = Some k"
  then have *: "map_of (entries s) r = Some k" "r \<noteq> g_id (generators s ! n)"
    by (auto simp: fail_generator_fields map_of_dict_pop split: if_splits)
  then have "k \<noteq> n" using omni_okD(3) [OF assms *(1)] by auto
  with * omni_okD(2,4) [OF assms *(1)]
  show "map_of (entries s) r = Some k \<and> g_id (generators (fail_generator n e s) ! k) = g_id (generators s ! k)
      \<and> g_ending (generators (fail_generator n e s) ! k) = None"
    by (simp add: fail_generator_fields set_generator_nth)
qed (use omni_okD(1) [OF assms] in \<open>simp_all add: fail_generator_fields distinct_delete\<close>)

lemma dispatch_fields:
  "entries (dispatch alive m s) = entries s" "generators (dispatch alive m s) = generators s"
  by (auto simp: dispatch_def split: option.split routing.split engine_msg.split)

section \<open>Steps keep the invariant\<close>

lemma queues_irrelevant: "omni_ok (s\<lparr>queues := qs\<rparr>) = omni_ok s"
  by (simp add: omni_ok_def)

lemma set_generator_keeps_ok:
  assumes "omni_ok s" and "\<And>g. g_id (f g) = g_id g \<and> g_ending (f g) = g_ending g"
  shows "omni_ok (set_generator n f s)"
  by (rule omni_ok_update [OF assms(1)])
    (use omni_okD [OF assms(1)] assms(2) in \<open>auto simp: set_generator_nth\<close>)

lemma generate_start_ok:
  assumes "omni_ok s" and "g_ending g = None"
  shows "omni_ok (s\<lparr>final_output_task := h, generators := generators s @ [g], queues := qs\<rparr>)" (is "omni_ok ?s")
    and "omni_ok (s\<lparr>final_output_task := h, generators := generators s @ [g], queues := qs,
           entries := dict_set (g_id g) (length (generators s)) (entries s)\<rparr>)" (is "omni_ok ?t")
proof -
  have old: "k < length (generators s) \<and> g_id (generators s ! k) = r \<and> g_ending (generators s ! k) = None"
    if "map_of (entries s) r = Some k" for r k
    using omni_okD(2-4) [OF assms(1) that] by simp
  then show "omni_ok ?s" using omni_okD(1) [OF assms(1)] by (fastforce simp: omni_ok_def nth_append)
  have "k < length (generators ?t) \<and> g_id (generators ?t ! k) = r \<and> g_ending (generators ?t ! k) = None"
    if "map_of (entries ?t) r = Some k" for r k
    using that old [of r k] assms(2) by (auto simp: map_of_dict_set nth_append split: if_splits)
  then show "omni_ok ?t" using omni_okD(1) [OF assms(1)] by (simp add: omni_ok_def distinct_update)
qed

lemma generate_ok:
  assumes "omni_ok s"
  shows "omni_ok (generate ec a s)"
proof -
  define g :: "'a caller" where "g = \<lparr>g_id = a_request_id a, g_seen = [], g_yields = [], g_ending = None\<rparr>"
  have g: "g_ending g = None" "g_id g = a_request_id a" by (simp_all add: g_def)
  note st = generate_start_ok [OF assms g(1)]
  have log: "omni_ok (s\<lparr>to_orchestrator := ms\<rparr>) = omni_ok s" for ms and s :: "'a omni" by (simp add: omni_ok_def)
  show ?thesis
  proof (cases "resolve_sampling_params_list ec (a_sampling_params_list a)")
    case (Inl e)
    with fail_generator_ok [OF st(1)] show ?thesis by (simp add: generate_def Let_def flip: g_def)
  next
    case (Inr spl)
    obtain msgs x where e: "engine_add_request ec (a\<lparr>a_sampling_params_list := Some spl\<rparr>) = (msgs, x)" by fastforce
    define s3 where "s3 = s\<lparr>final_output_task := (if final_output_task s = Not_started then Handling else final_output_task s),
      generators := generators s @ [g], queues := (queues s)(length (generators s) := []),
      entries := dict_set (a_request_id a) (length (generators s)) (entries s), to_orchestrator := to_orchestrator s @ msgs\<rparr>"
    have s3: "omni_ok s3" unfolding s3_def log using st(2) by (simp add: g(2))
    have "generate ec a s = (case x of Inl e \<Rightarrow> fail_generator (length (generators s)) (Raised e) s3 | Inr _ \<Rightarrow> s3)"
      by (simp add: generate_def Let_def Inr e s3_def g_def split: sum.split)
    with s3 fail_generator_ok [OF s3] show ?thesis by (simp split: sum.split)
  qed
qed

text \<open>What a turn does with the message it took: \<open>act\<close> is the rest of \<open>consume\<close>.\<close>

definition act :: "'x orch_config \<Rightarrow> bool \<Rightarrow> nat \<Rightarrow> 'x client_msg \<Rightarrow> 'x omni \<Rightarrow> 'x omni" where
  "act cfg errored n nt s =
     (case nt of
        Error_note fatal e sid \<Rightarrow> fail_generator n (Raised (if fatal then EngineDeadError else RuntimeError)) s
      | Routed (Output_msg r sid out m fin ts) \<Rightarrow>
          (if o_error out \<noteq> None then fail_generator n (Raised (if errored then EngineDeadError else RuntimeError)) s
           else (let s2 = (if final_output (stage_clients cfg ! sid) then set_generator n (\<lambda>g. g\<lparr>g_yields := g_yields g @ [out]\<rparr>) s else s)
                 in if fin
                    then (set_generator n (\<lambda>g. g\<lparr>g_ending := Some Completed\<rparr>) s2)\<lparr>entries := dict_pop (g_id (generators s ! n)) (entries s2)\<rparr>
                    else s2))
      | Routed _ \<Rightarrow> s)"

definition take_note :: "nat \<Rightarrow> 'x client_msg \<Rightarrow> 'x client_msg list \<Rightarrow> 'x omni \<Rightarrow> 'x omni" where
  "take_note n nt rest s = set_generator n (\<lambda>g. g\<lparr>g_seen := g_seen g @ [nt]\<rparr>) (s\<lparr>queues := (queues s)(n := rest)\<rparr>)"

lemma consume_cons:
  assumes "n < length (generators s)" and "g_ending (generators s ! n) = None" and "queues s n = nt # rest"
  shows "consume cfg errored n s = act cfg errored n nt (take_note n nt rest s)"
proof -
  have id: "g_id (generators (take_note n nt rest s) ! n) = g_id (generators s ! n)"
    using assms(1) by (simp add: take_note_def set_generator_nth)
  note id' = id [unfolded take_note_def]
  show ?thesis
  proof (cases nt)
    case (Routed m)
    with assms id' show ?thesis by (cases m) (simp_all add: consume_def act_def take_note_def Let_def cong: if_cong)
  next
    case (Error_note fatal e sid)
    with assms show ?thesis by (simp add: consume_def act_def take_note_def Let_def)
  qed
qed

lemma consume_idle:
  "length (generators s) \<le> n \<or> g_ending (generators s ! n) \<noteq> None \<or> queues s n = [] \<Longrightarrow> consume cfg errored n s = s"
  by (auto simp: consume_def)

lemma act_ok:
  assumes "omni_ok s" and "n < length (generators s)"
  shows "omni_ok (act cfg errored n nt s)"
proof -
  have yield: "omni_ok (if c then set_generator n (\<lambda>g. g\<lparr>g_yields := g_yields g @ [out]\<rparr>) s else s)" (is "omni_ok (?s2 c out)") for c out
    using assms by (auto intro: set_generator_keeps_ok)
  have fin: "omni_ok ((set_generator n (\<lambda>g. g\<lparr>g_ending := Some Completed\<rparr>) (?s2 c out))\<lparr>entries := dict_pop (g_id (generators s ! n)) (entries (?s2 c out))\<rparr>)" for c out
  proof -
    have "g_id (generators (?s2 c out) ! n) = g_id (generators s ! n)" using assms(2) by (simp add: set_generator_nth)
    with fail_generator_ok [OF yield, of n Completed c out] show ?thesis by (simp add: omni_ok_def fail_generator_fields)
  qed
  show ?thesis
  proof (cases nt)
    case (Error_note fatal e sid)
    then show ?thesis by (simp add: act_def fail_generator_ok assms(1))
  next
    case (Routed m)
    show ?thesis
    proof (cases m)
      case (Output_msg r sid out me fi ts)
      with Routed fin [of "final_output (stage_clients cfg ! sid)" out] yield [of "final_output (stage_clients cfg ! sid)" out]
      show ?thesis unfolding act_def by (simp only: client_msg.case out_msg.case Let_def if_distrib [of omni_ok] fail_generator_ok [OF assms(1)] split: if_split) simp
    qed (use Routed assms(1) in \<open>simp_all add: act_def\<close>)
  qed
qed

lemma consume_ok:
  assumes "omni_ok s"
  shows "omni_ok (consume cfg errored n s)"
proof (cases "length (generators s) \<le> n \<or> g_ending (generators s ! n) \<noteq> None \<or> queues s n = []")
  case True
  with assms show ?thesis by (simp add: consume_idle)
next
  case False
  then obtain nt rest where q: "queues s n = nt # rest" by (cases "queues s n") auto
  have "omni_ok (take_note n nt rest s)" unfolding take_note_def
    by (rule set_generator_keeps_ok) (use assms in \<open>simp_all add: queues_irrelevant\<close>)
  then have "omni_ok (act cfg errored n nt (take_note n nt rest s))"
    by (rule act_ok) (use False in \<open>simp add: take_note_def\<close>)
  with False q show ?thesis by (simp add: consume_cons)
qed

lemma client_step_ok:
  assumes "omni_ok s"
  shows "omni_ok (client_step ec e s)"
proof (cases e)
  case (Dispatch alive m)
  with assms show ?thesis by (simp add: client_step_def omni_ok_def dispatch_fields)
next
  case (Close n)
  with assms show ?thesis by (simp add: client_step_def close_generator_def fail_generator_ok)
qed (use assms in \<open>simp_all add: client_step_def generate_ok consume_ok client_abort_ok\<close>)

lemma client_run_ok: "omni_ok s \<Longrightarrow> omni_ok (client_run ec es s)"
  by (induction es arbitrary: s) (simp_all add: client_run_def client_step_ok)

section \<open>One caller among others\<close>

fun ends :: "'x client_msg \<Rightarrow> bool" where
  "ends (Error_note fatal e sid) \<longleftrightarrow> True"
| "ends (Routed (Output_msg r sid out m fin ts)) \<longleftrightarrow> o_error out \<noteq> None \<or> fin"
| "ends (Routed _) \<longleftrightarrow> False"

fun until_end :: "'x client_msg list \<Rightarrow> 'x client_msg list" where
  "until_end [] = []"
| "until_end (nt # nts) = nt # (if ends nt then [] else until_end nts)"

lemma until_end_append: "until_end (xs @ ys) = (if list_ex ends xs then until_end xs else xs @ until_end ys)"
  by (induction xs) auto

fun yield_of :: "'x orch_config \<Rightarrow> 'x client_msg \<Rightarrow> 'x stage_output list" where
  "yield_of cfg (Routed (Output_msg r sid out m fin ts)) =
     (if o_error out = None \<and> final_output (stage_clients cfg ! sid) then [out] else [])"
| "yield_of cfg _ = []"

text \<open>What an event puts into the queue of the request \<open>r\<close>.\<close>

fun note_of :: "string \<Rightarrow> 'x client_event \<Rightarrow> 'x client_msg list" where
  "note_of r (Dispatch alive None) =
     (if alive then [] else [Error_note False ''Orchestrator died unexpectedly. See logs above.'' None])"
| "note_of r (Dispatch alive (Some (From_orchestrator (Output_msg q sid out m fin ts)))) =
     (if q = r then [Routed (Output_msg q sid out m fin ts)] else [])"
| "note_of r (Dispatch alive (Some (From_orchestrator (Fatal_msg e q sid)))) = [Error_note True e (Some sid)]"
| "note_of r (Dispatch alive (Some (Crashed e))) = [Error_note True e None]"
| "note_of r (Dispatch alive (Some (Nonfatal e))) = [Error_note False e None]"
| "note_of r _ = []"

definition delivered :: "string \<Rightarrow> 'x client_event list \<Rightarrow> 'x client_msg list" where
  "delivered r es = concat (map (note_of r) es)"

definition undisturbed :: "string \<Rightarrow> nat \<Rightarrow> 'x client_event \<Rightarrow> bool" where
  "undisturbed r n e = (case e of Generate a \<Rightarrow> a_request_id a \<noteq> r | Close k \<Rightarrow> k \<noteq> n | Abort_ids ids \<Rightarrow> r \<notin> set ids | _ \<Rightarrow> True)"

definition waiting :: "string \<Rightarrow> nat \<Rightarrow> 'x omni \<Rightarrow> bool" where
  "waiting r n s \<longleftrightarrow> omni_ok s \<and> map_of (entries s) r = Some n \<and> (\<forall>k < length (generators s). k \<noteq> n \<longrightarrow> g_id (generators s ! k) \<noteq> r)
     \<and> (final_output_task s = Handling \<or> list_ex ends (queues s n))"

lemma waitingD:
  assumes "waiting r n s"
  shows "omni_ok s" and "map_of (entries s) r = Some n" and "n < length (generators s)" and "g_id (generators s ! n) = r"
    and "g_ending (generators s ! n) = None" and "k < length (generators s) \<Longrightarrow> k \<noteq> n \<Longrightarrow> g_id (generators s ! k) \<noteq> r"
  using assms omni_okD(2-4) [of s r n] by (simp_all add: waiting_def)

lemma generate_others:
  assumes "n < length (generators s)" and "a_request_id a \<noteq> r"
  shows "generators (generate ec a s) ! n = generators s ! n" and "queues (generate ec a s) n = queues s n"
    and "map_of (entries (generate ec a s)) r = map_of (entries s) r"
    and "length (generators (generate ec a s)) = Suc (length (generators s))"
    and "g_id (generators (generate ec a s) ! length (generators s)) = a_request_id a"
    and "final_output_task (generate ec a s) = (if final_output_task s = Not_started then Handling else final_output_task s)"
  using assms
  by (auto simp: generate_def Let_def fail_generator_fields map_of_dict_set map_of_dict_pop set_generator_nth nth_append
      split: sum.split prod.split)

lemma fail_generator_others:
  assumes "n < length (generators s)" and "k \<noteq> n"
  shows "generators (fail_generator k e s) ! n = generators s ! n"
    and "g_id (generators s ! k) \<noteq> r \<Longrightarrow> map_of (entries (fail_generator k e s)) r = map_of (entries s) r"
    and "length (generators (fail_generator k e s)) = length (generators s)"
  using assms by (simp_all add: fail_generator_fields set_generator_nth map_of_dict_pop)

lemma dispatch_queue:
  assumes "waiting r n s"
  shows "queues (dispatch alive m s) n = queues s n @ (if final_output_task s = Handling then note_of r (Dispatch alive m) else [])"
    and "final_output_task (dispatch alive m s) = Handling \<or> list_ex ends (queues (dispatch alive m s) n)"
proof -
  note w = waitingD [OF assms]
  have other: "k \<noteq> n" if "map_of (entries s) q = Some k" "q \<noteq> r" for q k
    using omni_okD(3) [OF w(1) that(1)] that(2) w(4) by auto
  have b: "queues (broadcast nt s) n = queues s n @ [nt]" for nt
    using broadcast_queue [OF w(1)] w(2,4) by simp
  have "final_output_task s \<noteq> Handling \<Longrightarrow> dispatch alive m s = s" by (simp add: dispatch_def)
  moreover have "queues (dispatch alive m s) n = queues s n @ note_of r (Dispatch alive m)
      \<and> (final_output_task (dispatch alive m s) = Handling \<or> list_ex ends (queues (dispatch alive m s) n))"
    if h: "final_output_task s = Handling"
  proof (cases m)
    case None
    with h b show ?thesis by (simp add: dispatch_def)
  next
    case (Some msg)
    show ?thesis
    proof (cases msg)
      case (From_orchestrator om)
      show ?thesis
      proof (cases om)
        case (Output_msg q sid out me fi ts)
        show ?thesis
        proof (cases "q = r")
          case True
          with Some From_orchestrator Output_msg h w(2) show ?thesis by (simp add: dispatch_def handle_output_message_def)
        next
          case False
          with Some From_orchestrator Output_msg h other [OF _ False] show ?thesis
            by (auto simp: dispatch_def handle_output_message_def split: option.split)
        qed
      qed (use Some From_orchestrator h b in \<open>simp_all add: dispatch_def handle_output_message_def\<close>)
    qed (use Some h b in \<open>simp_all add: dispatch_def handle_output_message_def\<close>)
  qed
  ultimately show "queues (dispatch alive m s) n = queues s n @ (if final_output_task s = Handling then note_of r (Dispatch alive m) else [])"
    and "final_output_task (dispatch alive m s) = Handling \<or> list_ex ends (queues (dispatch alive m s) n)"
    using assms by (cases "final_output_task s = Handling"; simp add: waiting_def)+
qed

lemma act_others:
  assumes "n < length (generators s)" and "k \<noteq> n" and "k < length (generators s)"
  shows "generators (act cfg errored k nt s) ! n = generators s ! n"
    and "g_id (generators s ! k) \<noteq> r \<Longrightarrow> map_of (entries (act cfg errored k nt s)) r = map_of (entries s) r"
  using assms by (auto simp: act_def Let_def fail_generator_others set_generator_nth map_of_dict_pop split: client_msg.split out_msg.split)

lemma act_fields:
  "length (generators (act cfg errored k nt s)) = length (generators s)" "queues (act cfg errored k nt s) = queues s"
  "final_output_task (act cfg errored k nt s) = final_output_task s"
  by (auto simp: act_def Let_def fail_generator_fields split: client_msg.split out_msg.split)

lemma act_self:
  assumes "n < length (generators s)" and "g_ending (generators s ! n) = None"
  shows "g_seen (generators (act cfg errored n nt s) ! n) = g_seen (generators s ! n)"
    and "g_yields (generators (act cfg errored n nt s) ! n) = g_yields (generators s ! n) @ yield_of cfg nt"
    and "g_id (generators (act cfg errored n nt s) ! n) = g_id (generators s ! n)"
    and "(g_ending (generators (act cfg errored n nt s) ! n) \<noteq> None) = ends nt"
    and "\<not> ends nt \<Longrightarrow> entries (act cfg errored n nt s) = entries s"
  using assms
  by (cases nt rule: ends.cases; auto simp: act_def Let_def fail_generator_fields set_generator_nth)+

lemma consume_others:
  assumes "waiting r n s" and "k \<noteq> n"
  shows "waiting r n (consume cfg errored k s)" and "generators (consume cfg errored k s) ! n = generators s ! n"
    and "queues (consume cfg errored k s) n = queues s n"
proof -
  note w = waitingD [OF assms(1)]
  have "waiting r n (consume cfg errored k s) \<and> generators (consume cfg errored k s) ! n = generators s ! n
     \<and> queues (consume cfg errored k s) n = queues s n"
  proof (cases "length (generators s) \<le> k \<or> g_ending (generators s ! k) \<noteq> None \<or> queues s k = []")
    case True
    with assms(1) show ?thesis by (simp add: consume_idle)
  next
    case False
    then obtain nt rest where q: "queues s k = nt # rest" by (cases "queues s k") auto
    define t where "t = take_note k nt rest s"
    have c: "consume cfg errored k s = act cfg errored k nt t" using False q by (simp add: consume_cons t_def)
    have len: "length (generators t) = length (generators s)" "k < length (generators s)" using False by (simp_all add: t_def take_note_def)
    have g: "generators t ! n = generators s ! n" "g_id (generators t ! j) = g_id (generators s ! j)" if "j < length (generators s)" for j
      using w(3) assms(2) len(2) that by (simp_all add: t_def take_note_def set_generator_nth)
    have e: "entries t = entries s" "queues t n = queues s n" "final_output_task t = final_output_task s"
      using assms(2) by (simp_all add: t_def take_note_def)
    have rk: "g_id (generators t ! k) \<noteq> r" using w(6) len(2) assms(2) g(2) by simp
    have id: "g_id (generators (act cfg errored k nt t) ! j) = g_id (generators s ! j)" if "j < length (generators s)" for j
    proof (cases "j = k")
      case True
      with g(2) that len show ?thesis
        using act_self(3) [of k t cfg errored nt] False by (simp add: t_def take_note_def set_generator_nth)
    next
      case False
      with act_others(1) [of j t k cfg errored nt] len that g(2) show ?thesis by simp
    qed
    have "omni_ok (act cfg errored k nt t)" using consume_ok [OF w(1), of cfg errored k] by (simp add: c)
    with assms(1) w(2,3) len act_others [of n t k, OF _ assms(2)] rk g(1) e id
    show ?thesis by (simp add: c waiting_def act_fields)
  qed
  then show "waiting r n (consume cfg errored k s)" and "generators (consume cfg errored k s) ! n = generators s ! n"
    and "queues (consume cfg errored k s) n = queues s n" by blast+
qed

lemma consume_self:
  assumes "waiting r n s" and "queues s n = nt # rest" and "s' = consume cfg errored n s"
  shows "g_seen (generators s' ! n) = g_seen (generators s ! n) @ [nt]"
    and "g_yields (generators s' ! n) = g_yields (generators s ! n) @ yield_of cfg nt"
    and "(g_ending (generators s' ! n) \<noteq> None) = ends nt" and "length (generators s') = length (generators s)"
    and "\<not> ends nt \<Longrightarrow> waiting r n s' \<and> queues s' n = rest"
proof -
  note w = waitingD [OF assms(1)]
  define t where "t = take_note n nt rest s"
  have c: "s' = act cfg errored n nt t" using w(3,5) assms(2,3) by (simp add: consume_cons t_def)
  have t: "g_seen (generators t ! n) = g_seen (generators s ! n) @ [nt]" "g_yields (generators t ! n) = g_yields (generators s ! n)"
    "g_id (generators t ! n) = r" "g_ending (generators t ! n) = None" "length (generators t) = length (generators s)"
    "entries t = entries s" "queues t n = rest" "final_output_task t = final_output_task s"
    using w(3-5) by (simp_all add: t_def take_note_def set_generator_nth)
  have n: "n < length (generators t)" using w(3) t(5) by simp
  note a = act_self [OF n t(4)]
  show "g_seen (generators s' ! n) = g_seen (generators s ! n) @ [nt]" and "g_yields (generators s' ! n) = g_yields (generators s ! n) @ yield_of cfg nt"
    and "(g_ending (generators s' ! n) \<noteq> None) = ends nt" and len: "length (generators s') = length (generators s)"
    using a(1,2,4) by (simp_all add: c t act_fields)
  assume e: "\<not> ends nt"
  have "g_id (generators s' ! k) \<noteq> r" if "k < length (generators s)" "k \<noteq> n" for k
  proof -
    have "generators s' ! k = generators t ! k" using act_others(1) [of k t n cfg errored nt] that n t(5) by (simp add: c)
    also have "\<dots> = generators s ! k" using that by (simp add: t_def take_note_def set_generator_nth)
    finally show ?thesis using w(6) that by simp
  qed
  moreover have "omni_ok s'" using consume_ok [OF w(1)] assms(3) by simp
  moreover have "final_output_task s' = Handling \<or> list_ex ends rest" using assms(1,2) e by (auto simp: waiting_def c act_fields t)
  ultimately show "waiting r n s' \<and> queues s' n = rest"
    using a(5) [OF e] w(2) len by (simp add: waiting_def) (simp add: c act_fields t)
qed

text \<open>A generator that has ended stays as it is.\<close>

lemma ended_stays:
  assumes "n < length (generators s)" and "g_ending (generators s ! n) \<noteq> None"
  shows "n < length (generators (client_step ec e s)) \<and> generators (client_step ec e s) ! n = generators s ! n"
proof (cases e)
  case (Generate a)
  obtain q where "a_request_id a \<noteq> q" by (metis list.discI)
  from generate_others [OF assms(1) this] assms(1) Generate show ?thesis by (simp add: client_step_def)
next
  case (Consume k errored)
  show ?thesis
  proof (cases "length (generators s) \<le> k \<or> g_ending (generators s ! k) \<noteq> None \<or> queues s k = []")
    case True
    with Consume assms(1) show ?thesis by (simp add: client_step_def consume_idle)
  next
    case False
    then obtain nt rest where q: "queues s k = nt # rest" by (cases "queues s k") auto
    have "k \<noteq> n" using False assms(2) by auto
    with False q Consume assms(1) act_others(1) [of n "take_note k nt rest s" k]
    show ?thesis by (simp add: client_step_def consume_cons act_fields) (simp add: take_note_def set_generator_nth)
  qed
next
  case (Close k)
  with assms fail_generator_others [of n s k] show ?thesis by (cases "k = n") (auto simp: client_step_def close_generator_def)
qed (use assms in \<open>simp_all add: client_step_def dispatch_fields\<close>)

lemma ended_run:
  "n < length (generators s) \<Longrightarrow> g_ending (generators s ! n) \<noteq> None \<Longrightarrow> generators (client_run ec es s) ! n = generators s ! n"
proof (induction es arbitrary: s)
  case Nil
  then show ?case by (simp add: client_run_def)
next
  case (Cons e es)
  note st = ended_stays [OF Cons.prems, of ec e]
  from Cons.IH [of "client_step ec e s"] st Cons.prems(2) show ?case by (simp add: client_run_def)
qed

text \<open>Events other than the caller's own turns only fill its queue.\<close>

lemma waiting_step:
  assumes "waiting r n s" and "undisturbed r n e" and "\<And>errored. e \<noteq> Consume n errored"
  shows "waiting r n (client_step ec e s)" and "generators (client_step ec e s) ! n = generators s ! n"
    and "until_end (queues (client_step ec e s) n @ nts) = until_end (queues s n @ note_of r e @ nts)"
proof -
  note w = waitingD [OF assms(1)]
  have ok: "omni_ok (client_step ec e s)" by (rule client_step_ok [OF w(1)])
  have "waiting r n (client_step ec e s) \<and> generators (client_step ec e s) ! n = generators s ! n
     \<and> until_end (queues (client_step ec e s) n @ nts) = until_end (queues s n @ note_of r e @ nts)"
  proof (cases e)
    case (Generate a)
    with assms(2) have a: "a_request_id a \<noteq> r" by (simp add: undisturbed_def)
    have "g_id (generators (generate ec a s) ! k) \<noteq> r" if "k < Suc (length (generators s))" "k \<noteq> n" for k
    proof (cases "k < length (generators s)")
      case True
      from generate_others(1) [OF this a] w(6) [OF True that(2)] show ?thesis by simp
    next
      case False
      with that have "k = length (generators s)" by simp
      with generate_others(5) [OF w(3) a] a show ?thesis by simp
    qed
    with generate_others [OF w(3) a, of ec] ok assms(1) w(2) Generate show ?thesis by (auto simp: client_step_def waiting_def)
  next
    case (Dispatch alive m)
    have h: "list_ex ends (queues s n)" if "final_output_task s \<noteq> Handling" using assms(1) that by (simp add: waiting_def)
    from Dispatch dispatch_queue [OF assms(1), of alive m] assms(1) ok h show ?thesis
      by (auto simp: client_step_def waiting_def dispatch_fields until_end_append)
  next
    case (Consume k errored)
    with assms(3) have k: "k \<noteq> n" by auto
    from Consume consume_others [OF assms(1) k] show ?thesis by (simp add: client_step_def)
  next
    case (Close k)
    with assms(2) have k: "k \<noteq> n" by (simp add: undisturbed_def)
    show ?thesis
    proof (cases "k < length (generators s) \<and> g_ending (generators s ! k) = None")
      case False
      with Close assms(1) show ?thesis by (auto simp: client_step_def close_generator_def)
    next
      case True
      have "g_id (generators (fail_generator k Closed s) ! j) = g_id (generators s ! j)" if "j < length (generators s)" for j
        using that by (simp add: fail_generator_fields set_generator_nth)
      moreover have "map_of (entries (fail_generator k Closed s)) r = Some n"
        using fail_generator_others(2) [OF w(3) k, of r] w(2) w(6) [OF _ k] True by simp
      ultimately
      show ?thesis using True Close ok assms(1) w(6) fail_generator_others(1,3) [OF w(3) k]
        by (simp add: client_step_def close_generator_def waiting_def fail_generator_fields(2,4))
    qed
  next
    case (Abort_ids ids)
    with assms(1,2) ok show ?thesis by (simp add: client_step_def waiting_def undisturbed_def)
  qed
  then show "waiting r n (client_step ec e s)" and "generators (client_step ec e s) ! n = generators s ! n"
    and "until_end (queues (client_step ec e s) n @ nts) = until_end (queues s n @ note_of r e @ nts)" by blast+
qed

definition yielded :: "'x orch_config \<Rightarrow> 'x client_msg list \<Rightarrow> 'x stage_output list" where
  "yielded cfg nts = concat (map (yield_of cfg) nts)"

lemma caller_follows:
  assumes "waiting r n s" and "list_all (undisturbed r n) es"
  shows "\<exists>new rest. until_end (queues s n @ delivered r es) = new @ rest
     \<and> g_seen (generators (client_run ec es s) ! n) = g_seen (generators s ! n) @ new
     \<and> g_yields (generators (client_run ec es s) ! n) = g_yields (generators s ! n) @ yielded (orch_config ec) new
     \<and> (g_ending (generators (client_run ec es s) ! n) \<noteq> None) = list_ex ends new
     \<and> rest = (if list_ex ends new then [] else until_end (queues (client_run ec es s) n))"
  using assms
proof (induction es arbitrary: s)
  case Nil
  with waitingD(5) [OF Nil.prems(1)] show ?case
    by (intro exI [of _ "[]"] exI [of _ "until_end (queues s n)"]) (simp add: delivered_def client_run_def yielded_def)
next
  case (Cons e es)
  have run: "client_run ec (e # es) s = client_run ec es (client_step ec e s)" by (simp add: client_run_def)
  have del: "delivered r (e # es) = note_of r e @ delivered r es" by (simp add: delivered_def)
  have ud: "undisturbed r n e" "list_all (undisturbed r n) es" using Cons.prems(2) by simp_all
  show ?case
  proof (cases "\<exists>errored nt rest. e = Consume n errored \<and> queues s n = nt # rest")
    case False
    have st: "waiting r n (client_step ec e s) \<and> generators (client_step ec e s) ! n = generators s ! n
      \<and> until_end (queues (client_step ec e s) n @ delivered r es) = until_end (queues s n @ note_of r e @ delivered r es)"
    proof (cases "\<exists>errored. e = Consume n errored")
      case True
      with False have "queues s n = []" by (cases "queues s n") auto
      with True Cons.prems(1) show ?thesis by (auto simp: client_step_def consume_idle)
    next
      case no: False
      with waiting_step [OF Cons.prems(1) ud(1)] show ?thesis by blast
    qed
    from Cons.IH [OF conjunct1 [OF st] ud(2)] show ?thesis
      unfolding run del conjunct1 [OF conjunct2 [OF st]] conjunct2 [OF conjunct2 [OF st]] .
  next
    case True
    then obtain errored nt rest where e: "e = Consume n errored" and q: "queues s n = nt # rest" by blast
    define s1 where "s1 = client_step ec e s"
    have c: "s1 = consume (orch_config ec) errored n s" by (simp add: s1_def e client_step_def)
    note cs = consume_self [OF Cons.prems(1) q c]
    have d: "delivered r (e # es) = delivered r es" by (simp add: e delivered_def)
    show ?thesis
    proof (cases "ends nt")
      case True
      have "generators (client_run ec es s1) ! n = generators s1 ! n"
        by (rule ended_run) (use cs(3,4) True waitingD(3) [OF Cons.prems(1)] in simp_all)
      with cs(1-3) True show ?thesis
        by (intro exI [of _ "[nt]"] exI [of _ "[]"]) (simp add: run q yielded_def flip: s1_def)
    next
      case False
      from cs(5) [OF False] have s1: "waiting r n s1" "queues s1 n = rest" by simp_all
      from Cons.IH [OF s1(1) ud(2)] obtain new rest1 where
        n: "until_end (queues s1 n @ delivered r es) = new @ rest1"
        and i: "g_seen (generators (client_run ec es s1) ! n) = g_seen (generators s1 ! n) @ new"
          "g_yields (generators (client_run ec es s1) ! n) = g_yields (generators s1 ! n) @ yielded (orch_config ec) new"
          "(g_ending (generators (client_run ec es s1) ! n) \<noteq> None) = list_ex ends new"
          "rest1 = (if list_ex ends new then [] else until_end (queues (client_run ec es s1) n))" by blast
      have "until_end (queues s n @ delivered r (e # es)) = (nt # new) @ rest1" using False n by (simp add: q d s1(2))
      then show ?thesis
        by (rule_tac exI [of _ "nt # new"], rule_tac exI [of _ rest1]) (use i cs(1,2) False in \<open>simp add: run yielded_def flip: s1_def\<close>)
    qed
  qed
qed

lemma generate_waits:
  assumes "omni_ok s" and "final_output_task s \<noteq> Ended" and "a_request_id a \<notin> g_id ` set (generators s)"
    and "resolve_sampling_params_list ec (a_sampling_params_list a) = Inr spl"
    and "engine_add_request ec (a\<lparr>a_sampling_params_list := Some spl\<rparr>) = (msgs, Inr ())"
  shows "waiting (a_request_id a) (length (generators s)) (generate ec a s)"
    and "generators (generate ec a s) ! length (generators s) = \<lparr>g_id = a_request_id a, g_seen = [], g_yields = [], g_ending = None\<rparr>"
    and "queues (generate ec a s) (length (generators s)) = []"
proof -
  have "g_id (generators s ! k) \<noteq> a_request_id a" if "k < length (generators s)" for k
    using that assms(3) by (metis imageI nth_mem)
  then show "waiting (a_request_id a) (length (generators s)) (generate ec a s)"
    using generate_ok [OF assms(1), of ec a] assms(2)
    by (cases "final_output_task s") (auto simp: waiting_def generate_def Let_def assms(4,5) map_of_dict_set nth_append)
qed (simp_all add: generate_def Let_def assms(4,5))

section \<open>What a caller gets\<close>

text \<open>C14: Once a call to generate is accepted under a fresh request id, and as long as nobody closes the generator or aborts the request, the caller sees exactly the messages routed to that id, in order, up to the first one that ends it (a finished output, an error of the engine, or the death of the orchestrator), whatever other callers do; it is given the outputs of final stages among them, it has ended exactly if it has seen such a message, and with nothing left in its queue it has seen them all.\<close>

theorem caller_gets_the_answer:
  assumes "omni_ok s" and "final_output_task s \<noteq> Ended" and "a_request_id a \<notin> g_id ` set (generators s)"
    and "resolve_sampling_params_list ec (a_sampling_params_list a) = Inr spl"
    and "engine_add_request ec (a\<lparr>a_sampling_params_list := Some spl\<rparr>) = (msgs, Inr ())"
    and "list_all (undisturbed (a_request_id a) (length (generators s))) es"
    and "client_run ec (Generate a # es) s = s'" and "generators s' ! length (generators s) = g"
  shows "take (length (g_seen g)) (until_end (delivered (a_request_id a) es)) = g_seen g
     \<and> g_yields g = yielded (orch_config ec) (g_seen g)
     \<and> (g_ending g \<noteq> None) = list_ex ends (g_seen g)
     \<and> (if g_ending g \<noteq> None \<or> queues s' (length (generators s)) = [] then g_seen g = until_end (delivered (a_request_id a) es) else True)"
proof -
  note w = generate_waits [OF assms(1-5)]
  have run: "s' = client_run ec es (generate ec a s)" using assms(7) by (simp add: client_run_def client_step_def)
  from caller_follows [OF w(1) assms(6), of ec] obtain rest where
    r: "until_end (delivered (a_request_id a) es) = g_seen g @ rest" "g_yields g = yielded (orch_config ec) (g_seen g)"
      "(g_ending g \<noteq> None) = list_ex ends (g_seen g)"
      "rest = (if list_ex ends (g_seen g) then [] else until_end (queues s' (length (generators s))))"
    unfolding run [symmetric] assms(8) w(2,3) by auto
  then show ?thesis by simp
qed

definition ex_engine_config :: "nat engine_config" where
  "ex_engine_config = \<lparr>orch_config = ex_orch_config, default_sampling_params_list = [ex_params Sampling, ex_params Diffusion],
     coerce_param_message_types = (\<lambda>l. l),
     process_inputs = (\<lambda>_ p _ _. Inr p), prompt_expand_func = None\<rparr>"

definition ex_call :: "nat call_args" where
  "ex_call = \<lparr>a_request_id = ''p'', a_prompt = Engine_prompt ''p'' (Some [3]) False None 0, a_sampling_params_list = None,
     a_final_stage_id = 1, a_resumable = False\<rparr>"

text \<open>The answer arrives and is taken; what comes after it is not seen.\<close>

definition ex_client_run :: "nat client_event list" where
  "ex_client_run = [Dispatch True (Some (From_orchestrator (Output_msg ''p'' 1 (ex_out ''p'') None True None))),
     Dispatch True (Some (From_orchestrator (Output_msg ''q'' 1 (ex_out ''q'') None True None))), Consume 0 False, Dispatch False None]"

lemma ex_call_accepted:
  "resolve_sampling_params_list ex_engine_config (a_sampling_params_list ex_call) = Inr [ex_params Sampling, ex_params Diffusion]"
  "\<exists>msgs. engine_add_request ex_engine_config (ex_call\<lparr>a_sampling_params_list := Some [ex_params Sampling, ex_params Diffusion]\<rparr>) = (msgs, Inr ())"
  by (simp_all add: resolve_sampling_params_list_def engine_add_request_def build_add_request_message_def ex_engine_config_def ex_call_def
      ex_orch_config_def ex_client_def)

theorem caller_gets_the_answer_witness:
  "\<exists>s' g. client_run ex_engine_config (Generate ex_call # ex_client_run) omni_init = s' \<and> generators s' ! 0 = g
     \<and> take (length (g_seen g)) (until_end (delivered ''p'' ex_client_run)) = g_seen g
     \<and> g_yields g = yielded ex_orch_config (g_seen g) \<and> (g_ending g \<noteq> None) = list_ex ends (g_seen g)
     \<and> (if g_ending g \<noteq> None \<or> queues s' 0 = [] then g_seen g = until_end (delivered ''p'' ex_client_run) else True)"
proof -
  obtain msgs where m: "engine_add_request ex_engine_config
      (ex_call\<lparr>a_sampling_params_list := Some [ex_params Sampling, ex_params Diffusion]\<rparr>) = (msgs, Inr ())"
    using ex_call_accepted(2) by blast
  have i: "length (generators omni_init) = 0" "final_output_task omni_init \<noteq> Ended" "a_request_id ex_call = ''p''"
    "orch_config ex_engine_config = ex_orch_config" "a_request_id ex_call \<notin> g_id ` set (generators omni_init)"
    by (simp_all add: omni_init_def ex_call_def ex_engine_config_def)
  have u: "list_all (undisturbed (a_request_id ex_call) (length (generators omni_init))) ex_client_run"
    by (simp add: ex_client_run_def undisturbed_def)
  from caller_gets_the_answer [OF omni_init_ok i(2,5) ex_call_accepted(1) m u refl refl, unfolded i(1,3,4)] show ?thesis by blast
qed

text \<open>The messages read from the output queue, whatever else happens.\<close>

fun read_of :: "'x client_event \<Rightarrow> 'x engine_msg list" where
  "read_of (Dispatch alive (Some msg)) = [msg]"
| "read_of _ = []"

definition reads :: "'x client_event list \<Rightarrow> 'x engine_msg list" where
  "reads es = concat (map read_of es)"

lemma until_end_ends: "list_ex ends (until_end xs) = list_ex ends xs"
  by (induction xs) auto

lemma terminal_delivered:
  assumes "From_orchestrator m \<in> set (reads es)" and "terminal_for r m"
  shows "list_ex ends (delivered r es)"
proof -
  obtain e where e: "e \<in> set es" "From_orchestrator m \<in> set (read_of e)" using assms(1) by (auto simp: reads_def)
  then obtain alive where "e = Dispatch alive (Some (From_orchestrator m))" by (cases e rule: read_of.cases) auto
  with assms(2) have "list_ex ends (note_of r e)" by (cases m) auto
  with e(1) show ?thesis by (auto simp: delivered_def list_ex_iff)
qed

text \<open>C35: A caller whose request the orchestrator has answered returns: whatever happened in the orchestrator, if all its messages have been read, among them a final message for the request, then the caller's generator has ended once its queue is empty, provided nobody closed it or aborted the request behind its back.\<close>

theorem answered_caller_returns:
  assumes "omni_ok s" and "final_output_task s \<noteq> Ended" and "a_request_id a \<notin> g_id ` set (generators s)"
    and "resolve_sampling_params_list ec (a_sampling_params_list a) = Inr spl"
    and "engine_add_request ec (a\<lparr>a_sampling_params_list := Some spl\<rparr>) = (msgs, Inr ())"
    and "list_all (undisturbed (a_request_id a) (length (generators s))) es"
    and "reads es = map From_orchestrator (out_queue orch)" and "0 < answers (a_request_id a) orch"
    and "queues (client_run ec (Generate a # es) s) (length (generators s)) = []"
  shows "g_ending (generators (client_run ec (Generate a # es) s) ! length (generators s)) \<noteq> None"
proof -
  note w = generate_waits [OF assms(1-5)]
  have run: "client_run ec (Generate a # es) s = client_run ec es (generate ec a s)" by (simp add: client_run_def client_step_def)
  obtain m where "m \<in> set (out_queue orch)" "terminal_for (a_request_id a) m"
    using assms(8) by (auto simp: answers_def filter_empty_conv)
  with terminal_delivered [of m es] assms(7) have t: "list_ex ends (until_end (delivered (a_request_id a) es))"
    by (simp add: until_end_ends)
  from caller_follows [OF w(1) assms(6), of ec] t assms(9) show ?thesis
    unfolding w(2,3) run by (auto split: if_splits)
qed

theorem answered_caller_returns_witness:
  "g_ending (generators (client_run ex_engine_config (Generate ex_call # ex_client_run) omni_init) ! 0) \<noteq> None"
proof -
  obtain msgs where m: "engine_add_request ex_engine_config
      (ex_call\<lparr>a_sampling_params_list := Some [ex_params Sampling, ex_params Diffusion]\<rparr>) = (msgs, Inr ())"
    using ex_call_accepted(2) by blast
  have i: "length (generators omni_init) = 0" "final_output_task omni_init \<noteq> Ended"
    "a_request_id ex_call \<notin> g_id ` set (generators omni_init)" by (simp_all add: omni_init_def)
  let ?orch = "(orch_init :: nat orch)\<lparr>out_queue := [Output_msg ''p'' 1 (ex_out ''p'') None True None, Output_msg ''q'' 1 (ex_out ''q'') None True None]\<rparr>"
  have u: "list_all (undisturbed (a_request_id ex_call) (length (generators omni_init))) ex_client_run"
    "reads ex_client_run = map From_orchestrator (out_queue ?orch)" "0 < answers (a_request_id ex_call) ?orch"
    by (simp_all add: ex_client_run_def undisturbed_def reads_def answers_def ex_call_def)
  have q: "queues (client_run ex_engine_config (Generate ex_call # ex_client_run) omni_init) 0 = []"
    by code_simp
  from answered_caller_returns [OF omni_init_ok i(2,3) ex_call_accepted(1) m u, unfolded i(1), OF q] show ?thesis .
qed

text \<open>A generator without an entry gets nothing any more: not even an error, and so it waits for ever.\<close>

definition forgotten :: "nat \<Rightarrow> 'x omni \<Rightarrow> bool" where
  "forgotten n s \<longleftrightarrow> omni_ok s \<and> n < length (generators s) \<and> queues s n = [] \<and> (\<forall>q. map_of (entries s) q \<noteq> Some n)"

lemma forgotten_step:
  assumes "forgotten n s" and "e \<noteq> Close n"
  shows "forgotten n (client_step ec e s) \<and> generators (client_step ec e s) ! n = generators s ! n"
proof -
  have f: "omni_ok s" "n < length (generators s)" "queues s n = []" "map_of (entries s) q \<noteq> Some n" for q
    using assms(1) by (simp_all add: forgotten_def)
  have ok: "omni_ok (client_step ec e s)" by (rule client_step_ok [OF f(1)])
  have fail: "map_of (entries (fail_generator k w t)) q \<noteq> Some n" if "map_of (entries t) q \<noteq> Some n" for k w q and t :: "'a omni"
    using that by (simp add: fail_generator_fields map_of_dict_pop)
  show ?thesis
  proof (cases e)
    case (Generate a)
    have "map_of (entries (generate ec a s)) q \<noteq> Some n" for q
      using f(2,4) by (auto simp: generate_def Let_def fail_generator_fields map_of_dict_set map_of_dict_pop split: sum.split prod.split)
    moreover obtain q where "a_request_id a \<noteq> q" by (metis list.discI)
    ultimately show ?thesis using generate_others(1,2,4) [OF f(2), of a q ec] ok f(2,3) Generate
      by (simp add: forgotten_def client_step_def)
  next
    case (Dispatch alive m)
    have "queues (broadcast nt s) n = []" for nt using broadcast_queue [OF f(1), of nt n] f(3,4) by simp
    then have "queues (dispatch alive m s) n = []"
      using f(3,4) by (auto simp: dispatch_def handle_output_message_def split: option.split routing.split engine_msg.split out_msg.split)
    with Dispatch ok f show ?thesis by (simp add: forgotten_def client_step_def dispatch_fields)
  next
    case (Consume k errored)
    show ?thesis
    proof (cases "length (generators s) \<le> k \<or> g_ending (generators s ! k) \<noteq> None \<or> queues s k = []")
      case True
      with Consume assms(1) show ?thesis by (simp add: client_step_def consume_idle)
    next
      case False
      then obtain nt rest where q: "queues s k = nt # rest" by (cases "queues s k") auto
      define t where "t = take_note k nt rest s"
      have k: "k \<noteq> n" using q f(3) by auto
      have t: "n < length (generators t)" "k < length (generators t)" "generators t ! n = generators s ! n" "queues t n = []" "entries t = entries s"
        using False f(2,3) k by (simp_all add: t_def take_note_def set_generator_nth)
      have "map_of (entries (act (orch_config ec) errored k nt t)) p \<noteq> Some n" for p
        using f(4) by (auto simp: act_def Let_def fail_generator_fields map_of_dict_pop t(5) split: client_msg.split out_msg.split)
      with False q Consume ok t act_others(1) [OF t(1) k t(2)] show ?thesis
        by (simp add: client_step_def consume_cons forgotten_def act_fields flip: t_def)
    qed
  next
    case (Close k)
    with assms fail fail_generator_others(1,3) [OF f(2), of k Closed] ok f show ?thesis
      by (auto simp: client_step_def close_generator_def forgotten_def fail_generator_fields(2))
  next
    case (Abort_ids ids)
    with ok f show ?thesis by (simp add: forgotten_def client_step_def)
  qed
qed

lemma forgotten_waits:
  "forgotten n s \<Longrightarrow> list_all (\<lambda>e. e \<noteq> Close n) es \<Longrightarrow>
     generators (client_run ec es s) ! n = generators s ! n \<and> queues (client_run ec es s) n = []"
proof (induction es arbitrary: s)
  case Nil
  then show ?case by (simp add: client_run_def forgotten_def)
next
  case (Cons e es)
  then have "e \<noteq> Close n" "list_all (\<lambda>e. e \<noteq> Close n) es" by simp_all
  with Cons.IH [of "client_step ec e s"] forgotten_step [OF Cons.prems(1), of e ec] show ?case by (simp add: client_run_def)
qed

lemma abort_leaves_the_caller_waiting:
  assumes "waiting r n s" and "queues s n = []" and "list_all (\<lambda>e. e \<noteq> Close n) es"
  shows "g_ending (generators (client_run ec (Abort_ids [r] # es) s) ! n) = None \<and> queues (client_run ec (Abort_ids [r] # es) s) n = []"
proof -
  note w = waitingD [OF assms(1)]
  have "map_of (entries (client_abort [r] s)) q \<noteq> Some n" for q
    using omni_okD(3) [OF w(1), of q n] w(4) by (cases "q = r") auto
  then have "forgotten n (client_abort [r] s)"
    using w(3) client_abort_ok [OF w(1)] assms(2) by (simp add: forgotten_def)
  from forgotten_waits [OF this assms(3), of ec] w(5) show ?thesis by (simp add: client_run_def client_step_def)
qed

end
