(* ===== verification/Runner_Payload.thy ===== *)
theory Runner_Payload
  imports Prelude
begin

text \<open>
  The payloads of the connector mixin of the model runners (\<open>worker/omni_connector_model_runner_mixin.py\<close>,
  \<open>worker/payload_span.py\<close>): which of them wake a request, how the chunks of a stream are put together,
  and how the outputs of the steps of a request are. A tensor is the list of its rows, flattened; devices
  and number types are left out.
\<close>

section \<open>Values\<close>

text \<open>\<open>t_tail\<close> is \<open>shape[1:]\<close>, and none for a tensor of dimension 0, which has one row of one entry.\<close>

record tensor =
  t_tail :: "nat list option"
  t_rows :: "int list list"

definition numel :: "tensor \<Rightarrow> nat" where
  "numel t = length (concat (t_rows t))"

definition ndim :: "tensor \<Rightarrow> nat" where
  "ndim t = (case t_tail t of None \<Rightarrow> 0 | Some ns \<Rightarrow> Suc (length ns))"

definition wf_tensor :: "tensor \<Rightarrow> bool" where
  "wf_tensor t \<longleftrightarrow> (case t_tail t of
       None \<Rightarrow> length (t_rows t) = 1 \<and> (\<forall>r \<in> set (t_rows t). length r = 1)
     | Some ns \<Rightarrow> (\<forall>r \<in> set (t_rows t). length r = prod_list ns))"

text \<open>\<open>torch.cat\<close> along the first dimension; a tensor of shape \<open>(0,)\<close> goes with any other.\<close>

definition empty_vector :: "tensor \<Rightarrow> bool" where
  "empty_vector t \<longleftrightarrow> t_tail t = Some [] \<and> t_rows t = []"

definition cat_rows :: "tensor \<Rightarrow> tensor \<Rightarrow> tensor res" where
  "cat_rows a b =
     (if t_tail a = None \<or> t_tail b = None then Inl RuntimeError
      else if empty_vector a then Inr b
      else if empty_vector b then Inr a
      else if t_tail a = t_tail b then Inr (a\<lparr>t_rows := t_rows a @ t_rows b\<rparr>)
      else Inl RuntimeError)"

datatype rval =
    RNone
  | RBool bool
  | RInt int
  | RStr string
  | RTensor tensor
  | RList "rval list"
  | RDict "(string \<times> rval) list"

type_synonym rpayload = "(string \<times> rval) list"

definition as_dict :: "rval option \<Rightarrow> rpayload option" where
  "as_dict v = (case v of Some (RDict d) \<Rightarrow> Some d | _ \<Rightarrow> None)"

text \<open>\<open>bool(v)\<close>: of a tensor only with at most one entry.\<close>

definition rval_truthy :: "rval \<Rightarrow> bool res" where
  "rval_truthy v = (case v of
       RNone \<Rightarrow> Inr False
     | RBool b \<Rightarrow> Inr b
     | RInt n \<Rightarrow> Inr (n \<noteq> 0)
     | RStr s \<Rightarrow> Inr (s \<noteq> [])
     | RTensor t \<Rightarrow> (case concat (t_rows t) of [] \<Rightarrow> Inr False | [x] \<Rightarrow> Inr (x \<noteq> 0) | _ \<Rightarrow> Inl RuntimeError)
     | RList xs \<Rightarrow> Inr (xs \<noteq> [])
     | RDict d \<Rightarrow> Inr (d \<noteq> []))"

section \<open>What a payload says\<close>

definition payload_value_has_content :: "rval \<Rightarrow> bool" where
  "payload_value_has_content v = (case v of
       RNone \<Rightarrow> False
     | RTensor t \<Rightarrow> 0 < numel t
     | RList xs \<Rightarrow> xs \<noteq> []
     | RDict d \<Rightarrow> d \<noteq> []
     | _ \<Rightarrow> True)"

definition payload_finished :: "rpayload \<Rightarrow> bool" where
  "payload_finished p =
     (case as_dict (map_of p ''meta'') of
        None \<Rightarrow> False
      | Some meta \<Rightarrow>
          (case map_of meta ''finished'' of
             None \<Rightarrow> False
           | Some (RTensor t) \<Rightarrow> numel t = 1 \<and> concat (t_rows t) \<noteq> [0]
           | Some v \<Rightarrow> rval_truthy v = Inr True))"

text \<open>\<open>codes.get("audio")\<close>; \<open>RNone\<close> stands for the missing value as well.\<close>

definition payload_audio_codes :: "rpayload \<Rightarrow> rval" where
  "payload_audio_codes p =
     (case as_dict (map_of p ''codes'') of
        None \<Rightarrow> RNone
      | Some codes \<Rightarrow> (case map_of codes ''audio'' of None \<Rightarrow> RNone | Some v \<Rightarrow> v))"

definition decode_key :: string where "decode_key = ''thinker_decode_embeddings''"
definition start_key :: string where "start_key = ''thinker_decode_embeddings_token_start''"
definition end_key :: string where "end_key = ''thinker_decode_embeddings_token_end''"
definition ids_key :: string where "ids_key = ''thinker_output_token_ids''"

definition non_consumable_payload_keys :: "string list" where
  "non_consumable_payload_keys =
     [''finished'', ''override_keys'', ''next_stage_prompt_len'', ''left_context_size'', ids_key, start_key, end_key]"

definition payload_is_consumable :: "rpayload \<Rightarrow> bool" where
  "payload_is_consumable p =
     (if p = [] then False
      else (case map_of p decode_key of
              Some (RTensor t) \<Rightarrow> ndim t = 0 \<or> (0 < numel t \<and> 0 < length (t_rows t))
            | _ \<Rightarrow>
                (case payload_audio_codes p of
                   RTensor t \<Rightarrow> 0 < numel t
                 | RList xs \<Rightarrow> xs \<noteq> []
                 | RDict d \<Rightarrow> d \<noteq> []
                 | RStr s \<Rightarrow> s \<noteq> []
                 | RNone \<Rightarrow> list_ex (\<lambda>(k, v). k \<notin> set non_consumable_payload_keys \<and> payload_value_has_content v) p
                 | _ \<Rightarrow> True)))"

definition extract_scheduling_metadata :: "rpayload \<Rightarrow> rpayload" where
  "extract_scheduling_metadata p =
     (case map_of p ''next_stage_prompt_len'' of None \<Rightarrow> [] | Some v \<Rightarrow> [(''next_stage_prompt_len'', v)])
     @ (if payload_audio_codes p = RNone then [] else [(''code_predictor_codes'', payload_audio_codes p)])
     @ (case as_dict (map_of p ''meta'') of
          None \<Rightarrow> []
        | Some meta \<Rightarrow> (case map_of meta ''left_context_size'' of None \<Rightarrow> [] | Some v \<Rightarrow> [(''left_context_size'', v)]))"

section \<open>Spans of decoded tokens\<close>

type_synonym span = "tensor \<times> int \<times> int"

text \<open>Booleans are integers of Python. A tensor of dimension 0 has no \<open>shape[0]\<close>.\<close>

definition int_value :: "rval option \<Rightarrow> int option" where
  "int_value v = (case v of Some (RInt n) \<Rightarrow> Some n | Some (RBool b) \<Rightarrow> Some (if b then 1 else 0) | _ \<Rightarrow> None)"

definition get_tensor_span :: "rpayload \<Rightarrow> span option res" where
  "get_tensor_span p =
     (case (map_of p decode_key, int_value (map_of p start_key), int_value (map_of p end_key)) of
        (Some (RTensor t), Some a, Some b) \<Rightarrow>
          (if a < 0 \<or> b < a then Inr None
           else if t_tail t = None then Inl IndexError
           else if b - a \<noteq> int (length (t_rows t)) then Inr None
           else Inr (Some (t, a, b)))
      | _ \<Rightarrow> Inr None)"

definition merge_tensor_spans :: "span option \<Rightarrow> span option \<Rightarrow> span option res" where
  "merge_tensor_spans existing incoming =
     (case (existing, incoming) of
        (Some (t, a, b), Some (u, c, d)) \<Rightarrow>
          (if c = b then bind_res (cat_rows t u) (\<lambda>v. Inr (Some (v, a, d)))
           else if c < b then
             (let overlap = b - c
              in if int (length (t_rows u)) \<le> overlap then Inr (Some (t, a, b))
                 else (let trimmed = u\<lparr>t_rows := drop (nat overlap) (t_rows u)\<rparr>
                       in bind_res (cat_rows t trimmed) (\<lambda>v. Inr (Some (v, a, b + int (length (t_rows trimmed)))))))
           else Inr None)
      | _ \<Rightarrow> Inr None)"

definition get_tensor_span_row :: "span option \<Rightarrow> int \<Rightarrow> int list option" where
  "get_tensor_span_row sp i =
     (case sp of None \<Rightarrow> None | Some (t, a, b) \<Rightarrow> (if i < a \<or> b \<le> i then None else Some (t_rows t ! nat (i - a))))"

section \<open>Accumulating the chunks of a stream\<close>

text \<open>
  The state of the loop over the new chunk's items: the merged dictionary, and whether the span of the
  decoded tokens was merged or given up. \<open>override_keys\<close> is a list of strings.
\<close>

record merging =
  merged :: rpayload
  drop_decode_span :: bool
  decode_span_handled :: bool

definition override_keys :: "rpayload \<Rightarrow> string set" where
  "override_keys p = (case map_of p ''override_keys'' of Some (RList ks) \<Rightarrow> set (List.map_filter (\<lambda>v. case v of RStr k \<Rightarrow> Some k | _ \<Rightarrow> None) ks) | _ \<Rightarrow> {})"

text \<open>\<open>torch.cat([origin[key], value])\<close>, \<open>origin[key] + value\<close>, or the new value.\<close>

definition join_value :: "rpayload \<Rightarrow> string \<Rightarrow> rval \<Rightarrow> rval res" where
  "join_value origin key v =
     (case (v, map_of origin key) of
        (RTensor t, Some (RTensor old)) \<Rightarrow> bind_res (cat_rows old t) (\<lambda>u. Inr (RTensor u))
      | (RTensor t, Some _) \<Rightarrow> Inl TypeError
      | (RList xs, Some (RList old)) \<Rightarrow> Inr (RList (old @ xs))
      | (RList xs, Some _) \<Rightarrow> Inl TypeError
      | _ \<Rightarrow> Inr v)"

definition accumulate_decode :: "rpayload \<Rightarrow> rpayload \<Rightarrow> rval \<Rightarrow> merging \<Rightarrow> merging res" where
  "accumulate_decode origin new v m =
     bind_res (get_tensor_span origin) (\<lambda>old.
     bind_res (get_tensor_span new) (\<lambda>inc.
     bind_res (merge_tensor_spans old inc) (\<lambda>sp.
       (case sp of
          Some (t, a, b) \<Rightarrow>
            Inr (m\<lparr>merged := dict_set end_key (RInt b) (dict_set start_key (RInt a) (dict_set decode_key (RTensor t) (merged m))),
                   decode_span_handled := True\<rparr>)
        | None \<Rightarrow>
            (case (v, map_of origin decode_key) of
               (RTensor _, Some _) \<Rightarrow>
                 (let spans = (\<lambda>p. map_of p start_key \<noteq> None \<or> map_of p end_key \<noteq> None)
                  in bind_res (join_value origin decode_key v) (\<lambda>u.
                       Inr (m\<lparr>merged := dict_set decode_key u (merged m),
                              drop_decode_span := drop_decode_span m \<or> spans origin \<or> spans new\<rparr>)))
             | _ \<Rightarrow> Inr (m\<lparr>merged := dict_set decode_key v (merged m)\<rparr>))))))"

definition accumulate_item :: "rpayload \<Rightarrow> rpayload \<Rightarrow> string \<times> rval \<Rightarrow> merging \<Rightarrow> merging res" where
  "accumulate_item origin new kv m =
     (case kv of (k, v) \<Rightarrow>
        if k = ''finished'' then Inr (m\<lparr>merged := dict_set k v (merged m)\<rparr>)
        else if k = decode_key then accumulate_decode origin new v m
        else if k = start_key \<or> k = end_key
        then (if decode_span_handled m \<or> drop_decode_span m then Inr m else Inr (m\<lparr>merged := dict_set k v (merged m)\<rparr>))
        else if k \<in> override_keys new then Inr (m\<lparr>merged := dict_set k v (merged m)\<rparr>)
        else bind_res (join_value origin k v) (\<lambda>u. Inr (m\<lparr>merged := dict_set k u (merged m)\<rparr>)))"

fun accumulate_items :: "rpayload \<Rightarrow> rpayload \<Rightarrow> rpayload \<Rightarrow> merging \<Rightarrow> merging res" where
  "accumulate_items origin new [] m = Inr m"
| "accumulate_items origin new (kv # kvs) m = bind_res (accumulate_item origin new kv m) (accumulate_items origin new kvs)"

text \<open>\<open>_accumulate_payload\<close> for a stored payload, if there is one.\<close>

definition accumulate_payload :: "rpayload option \<Rightarrow> rpayload \<Rightarrow> rpayload res" where
  "accumulate_payload stored new =
     (case stored of
        None \<Rightarrow> Inr new
      | Some origin \<Rightarrow>
          bind_res (accumulate_items origin new new \<lparr>merged = origin, drop_decode_span = False, decode_span_handled = False\<rparr>) (\<lambda>m.
            Inr (if drop_decode_span m then dict_pop end_key (dict_pop start_key (merged m)) else merged m)))"

section \<open>Accumulating the outputs of steps\<close>

definition is_all_zero_tensor :: "rval \<Rightarrow> bool" where
  "is_all_zero_tensor v = (case v of RTensor t \<Rightarrow> 0 < numel t \<and> list_all (\<lambda>x. x = 0) (concat (t_rows t)) | _ \<Rightarrow> False)"

definition drop_zero_tensors :: "rpayload \<Rightarrow> rpayload" where
  "drop_zero_tensors p = filter (\<lambda>(k, v). \<not> is_all_zero_tensor v) p"

text \<open>A key with the value \<open>None\<close> counts as missing.\<close>

definition lookup_some :: "rpayload \<Rightarrow> string \<Rightarrow> rval option" where
  "lookup_some p k = (case map_of p k of Some RNone \<Rightarrow> None | v \<Rightarrow> v)"

definition merge_step_value :: "rval option \<Rightarrow> rval option \<Rightarrow> rval" where
  "merge_step_value old new =
     (case (old, new) of
        (None, None) \<Rightarrow> RNone
      | (Some v, None) \<Rightarrow> v
      | (None, Some v) \<Rightarrow> v
      | (Some (RTensor t), Some (RTensor u)) \<Rightarrow>
          (if 2 \<le> ndim u \<and> 2 \<le> ndim t \<and> t_tail u = t_tail t then RTensor (t\<lparr>t_rows := t_rows t @ t_rows u\<rparr>) else RTensor u)
      | (Some _, Some v) \<Rightarrow> v)"

text \<open>The merged keys come in any order: here those of the old output first.\<close>

definition merge_step_outputs :: "rpayload \<Rightarrow> rpayload \<Rightarrow> rpayload" where
  "merge_step_outputs old new =
     map (\<lambda>k. (k, merge_step_value (lookup_some old k) (lookup_some new k))) (map fst old @ filter (\<lambda>k. k \<notin> fst ` set old) (map fst new))"

end
