(* ===== verification/Connector_Runner.thy ===== *)
theory Connector_Runner
  imports Runner_Payload KV_Ranks
begin

text \<open>
  \<open>OmniConnectorModelRunnerMixin\<close> (\<open>worker/omni_connector_model_runner_mixin.py\<close>): the transport half of a
  model runner. The model's thread registers requests, sends outputs, collects what arrived and reports it
  to the scheduler; a thread polls the connector and another one sends. What a thread does under the lock,
  or between two calls of the connector, is one step.

  The connector, the function that builds a chunk (\<open>custom_process_stage_input_func\<close>) and the clock of the
  threads are arguments. A stage that polls has a predecessor, and the \<open>engine_inputs\<close> of a full payload
  are a dictionary. The transfer manager of KV caches and logs are left out.
\<close>

section \<open>State\<close>

record run_request =
  q_id :: string
  q_external :: "string option"
  q_finished :: bool

record save_entry =
  e_key :: string
  e_data :: rpayload
  e_request :: string
  e_retries :: nat

record kv_transfer =
  kv_seq_len :: int
  kv_block_ids :: "int list"

text \<open>\<open>tp_world\<close> is 1 without a tensor-parallel group.\<close>

record runner_config =
  run_stage :: nat
  next_stage :: nat
  has_connector :: bool
  async_chunk :: bool
  ar_mode :: bool
  tp_world :: nat
  tp_rank :: nat
  kv_topology :: topology

text \<open>
  \<open>polling\<close> is what the polling thread has read and not yet stored, \<open>poll_snapshot\<close> the ids its pass has
  still to look at, \<open>saving\<close> the task the sending thread works on.
\<close>

record runner =
  put_chunk :: "(string \<times> nat) list"
  get_chunk :: "(string \<times> nat) list"
  send_side_payload :: "(string \<times> rpayload) list"
  code_prompts :: "string set"
  ids_mapping :: "(string \<times> string) list"
  pending_loads :: "string list"
  poll_snapshot :: "string list"
  polling :: "(string \<times> string \<times> rpayload) option"
  finished_loads :: "string set"
  pending_saves :: "(string \<times> save_entry list) list"
  saving :: "save_entry option"
  save_counts :: "(string \<times> nat) list"
  deferred_cleanup :: "string set"
  chunk_ready :: "string set"
  chunk_finished :: "string set"
  stage_recv :: "string set"
  pending_broadcast :: "string set"
  chunk_updated :: "string set"
  stage_cache :: "(string \<times> rpayload) list"
  request_metadata :: "(string \<times> rpayload) list"
  stream_completed :: "string set"
  full_payload_sends :: "(string \<times> rpayload \<times> run_request) list"
  kv_sent :: "string list"
  kv_pending :: "(string \<times> kv_transfer) list"
  kv_active :: "string set"
  kv_completed :: "string set"
  kv_triggered :: "string set"

definition runner_init :: runner where
  "runner_init = \<lparr>put_chunk = [], get_chunk = [], send_side_payload = [], code_prompts = {}, ids_mapping = [],
     pending_loads = [], poll_snapshot = [], polling = None, finished_loads = {}, pending_saves = [], saving = None,
     save_counts = [], deferred_cleanup = {}, chunk_ready = {}, chunk_finished = {}, stage_recv = {}, pending_broadcast = {},
     chunk_updated = {}, stage_cache = [], request_metadata = [], stream_completed = {}, full_payload_sends = [],
     kv_sent = [], kv_pending = [], kv_active = {}, kv_completed = {}, kv_triggered = {}\<rparr>"

text \<open>Reading a \<open>defaultdict(int)\<close>, which inserts 0.\<close>

definition count_of :: "string \<Rightarrow> (string \<times> nat) list \<Rightarrow> nat" where
  "count_of k d = (case map_of d k of None \<Rightarrow> 0 | Some n \<Rightarrow> n)"

definition touch_count :: "string \<Rightarrow> (string \<times> nat) list \<Rightarrow> (string \<times> nat) list" where
  "touch_count k d = dict_set k (count_of k d) d"

definition mapped_id :: "string \<Rightarrow> runner \<Rightarrow> string" where
  "mapped_id r s = (case map_of (ids_mapping s) r of None \<Rightarrow> r | Some x \<Rightarrow> x)"

definition resolve_external :: "run_request option \<Rightarrow> string \<Rightarrow> runner \<Rightarrow> string" where
  "resolve_external req fallback s =
     (case map_of (ids_mapping s) fallback of
        Some x \<Rightarrow> x
      | None \<Rightarrow> (case req of Some q \<Rightarrow> (case q_external q of Some x \<Rightarrow> x | None \<Rightarrow> fallback) | None \<Rightarrow> fallback))"

definition is_data_transfer_rank :: "runner_config \<Rightarrow> bool" where
  "is_data_transfer_rank cfg = (if 1 < tp_world cfg then tp_rank cfg = 0 else local_rank (kv_topology cfg) = 0)"

definition transfer_key :: "string \<Rightarrow> nat \<Rightarrow> nat \<Rightarrow> string" where
  "transfer_key ext stage n = ext @ ''_'' @ show_nat stage @ ''_'' @ show_nat n"

section \<open>Cleaning up\<close>

definition clear_recv_state :: "string \<Rightarrow> runner \<Rightarrow> runner" where
  "clear_recv_state r s = s\<lparr>
     get_chunk := dict_pop r (get_chunk s), pending_loads := removeAll r (pending_loads s),
     finished_loads := finished_loads s - {r}, chunk_ready := chunk_ready s - {r}, chunk_finished := chunk_finished s - {r},
     stream_completed := stream_completed s - {r}, stage_recv := stage_recv s - {r},
     pending_broadcast := pending_broadcast s - {r}, chunk_updated := chunk_updated s - {r},
     stage_cache := dict_pop r (stage_cache s), request_metadata := dict_pop r (request_metadata s)\<rparr>"

definition drop_send_state :: "string \<Rightarrow> runner \<Rightarrow> runner" where
  "drop_send_state x s = s\<lparr>put_chunk := dict_pop x (put_chunk s), send_side_payload := dict_pop x (send_side_payload s),
     code_prompts := code_prompts s - {x}\<rparr>"

definition drop_kv_state :: "string \<Rightarrow> runner \<Rightarrow> runner" where
  "drop_kv_state r s = s\<lparr>kv_pending := dict_pop r (kv_pending s), kv_active := kv_active s - {r},
     kv_completed := kv_completed s - {r}, kv_triggered := kv_triggered s - {r}\<rparr>"

definition cleanup_finished_request :: "string \<Rightarrow> runner \<Rightarrow> runner" where
  "cleanup_finished_request r s =
     (let x = mapped_id r s;
          s1 = s\<lparr>ids_mapping := dict_pop r (ids_mapping s)\<rparr>;
          s2 = (if count_of x (save_counts s) \<noteq> 0 then s1\<lparr>deferred_cleanup := insert x (deferred_cleanup s)\<rparr> else drop_send_state x s1)
      in clear_recv_state r (drop_kv_state r s2))"

definition drop_inactive_request :: "string \<Rightarrow> runner \<Rightarrow> runner" where
  "drop_inactive_request r s =
     clear_recv_state r (s\<lparr>ids_mapping := dict_pop r (ids_mapping s),
       send_side_payload := dict_pop r (dict_pop (mapped_id r s) (send_side_payload s))\<rparr>)"

definition known_ids :: "runner \<Rightarrow> string set" where
  "known_ids s = fst ` set (ids_mapping s) \<union> fst ` set (get_chunk s) \<union> finished_loads s \<union> chunk_ready s \<union> chunk_finished s
     \<union> stream_completed s \<union> stage_recv s \<union> pending_broadcast s \<union> chunk_updated s \<union> fst ` set (stage_cache s)
     \<union> fst ` set (request_metadata s) \<union> fst ` set (kv_pending s) \<union> kv_active s \<union> kv_completed s \<union> kv_triggered s"

definition protected_ids :: "runner \<Rightarrow> string set" where
  "protected_ids s = set (pending_loads s) \<union> stage_recv s \<union> pending_broadcast s \<union> fst ` set (request_metadata s)"

text \<open>\<open>ord\<close> is the order in which a set is run through.\<close>

definition prune_inactive_requests :: "(string set \<Rightarrow> string list) \<Rightarrow> string set \<Rightarrow> runner \<Rightarrow> runner \<times> string set" where
  "prune_inactive_requests ord active s =
     (let stale = known_ids s - (active \<union> protected_ids s)
      in (fold cleanup_finished_request (ord stale) s, stale))"

section \<open>Receiving\<close>

definition register_chunk_recv :: "runner_config \<Rightarrow> run_request \<Rightarrow> runner \<Rightarrow> runner" where
  "register_chunk_recv cfg q s =
     (if run_stage cfg = 0 then s
      else (let r = q_id q;
                s1 = s\<lparr>ids_mapping := dict_set r (case q_external q of Some x \<Rightarrow> x | None \<Rightarrow> r) (ids_mapping s)\<rparr>
            in if r \<in> stage_recv s \<or> r \<in> stream_completed s then s1
               else s1\<lparr>pending_loads := (if r \<in> set (pending_loads s) then pending_loads s else pending_loads s @ [r])\<rparr>))"

text \<open>The polling thread looks at the pending requests, then polls them one by one.\<close>

definition recv_snapshot :: "runner \<Rightarrow> runner" where
  "recv_snapshot s = (if poll_snapshot s = [] \<and> polling s = None then s\<lparr>poll_snapshot := pending_loads s\<rparr> else s)"

definition must_delay :: "runner_config \<Rightarrow> string \<Rightarrow> runner \<Rightarrow> bool" where
  "must_delay cfg r s \<longleftrightarrow> async_chunk cfg \<and> \<not> ar_mode cfg
     \<and> ((case map_of (stage_cache s) r of None \<Rightarrow> False | Some p \<Rightarrow> payload_is_consumable p)
        \<or> r \<in> fst ` set (request_metadata s) \<or> r \<in> finished_loads s)"

text \<open>\<open>_poll_single_request\<close> up to the connector's answer, for the next id of the pass.\<close>

definition recv_get :: "runner_config \<Rightarrow> (string \<Rightarrow> 'c \<Rightarrow> 'c \<times> rpayload option) \<Rightarrow> runner \<times> 'c \<Rightarrow> runner \<times> 'c" where
  "recv_get cfg get sc =
     (case sc of (s, c) \<Rightarrow>
        (case (polling s, poll_snapshot s) of
           (None, r # rest) \<Rightarrow>
             (let s1 = s\<lparr>poll_snapshot := rest\<rparr>
              in if \<not> has_connector cfg \<or> must_delay cfg r s then (s1, c)
                 else (let x = mapped_id r s;
                           n = count_of r (get_chunk s);
                           s2 = s1\<lparr>get_chunk := touch_count r (get_chunk s)\<rparr>
                       in if 1 < tp_world cfg \<and> \<not> is_data_transfer_rank cfg then (s2, c)
                          else (case get (transfer_key x (run_stage cfg - 1) n) c of
                                  (c1, Some p) \<Rightarrow> (if p = [] then s2 else s2\<lparr>polling := Some (r, x, p)\<rparr>, c1)
                                | (c1, None) \<Rightarrow> (s2, c1))))
         | _ \<Rightarrow> (s, c)))"

definition dict_merge :: "rpayload \<Rightarrow> rpayload \<Rightarrow> rpayload" where
  "dict_merge old new = foldl (\<lambda>d (k, v). dict_set k v d) old new"

text \<open>A received chunk becomes visible: merged into the cached payload, with its metadata and signals.\<close>

definition publish_chunk :: "string \<Rightarrow> rpayload \<Rightarrow> bool \<Rightarrow> bool \<Rightarrow> runner \<Rightarrow> runner" where
  "publish_chunk r p consumable fin s =
     (let staged = (case map_of (stage_cache s) r of None \<Rightarrow> p | Some old \<Rightarrow> dict_merge old p)
      in s\<lparr>chunk_finished := (if fin then insert r (chunk_finished s) else chunk_finished s),
           stream_completed := (if fin then insert r (stream_completed s) else stream_completed s),
           stage_cache := dict_set r staged (stage_cache s),
           chunk_updated := insert r (chunk_updated s),
           request_metadata := dict_set r (extract_scheduling_metadata staged) (request_metadata s),
           finished_loads := (if consumable \<or> fin then insert r (finished_loads s) else finished_loads s),
           pending_loads := (if fin then removeAll r (pending_loads s) else pending_loads s)\<rparr>)"

definition engine_inputs :: "rpayload \<Rightarrow> rpayload" where
  "engine_inputs p = (case map_of p ''engine_inputs'' of Some (RDict d) \<Rightarrow> d | _ \<Rightarrow> p)"

text \<open>The rest of \<open>_poll_single_request\<close>; an exception is logged by the loop.\<close>

definition recv_put :: "runner_config \<Rightarrow> runner \<Rightarrow> runner \<times> unit res" where
  "recv_put cfg s =
     (case polling s of
        None \<Rightarrow> (s, Inr ())
      | Some (r, x, p) \<Rightarrow>
          (let s1 = s\<lparr>polling := None, get_chunk := dict_set r (Suc (count_of r (get_chunk s))) (get_chunk s)\<rparr>
           in if async_chunk cfg
              then (if ar_mode cfg
                    then (case accumulate_payload (map_of (send_side_payload s) x) p of
                            Inl e \<Rightarrow> (s1, Inl e)
                          | Inr m \<Rightarrow>
                              (publish_chunk r m (payload_is_consumable p) (payload_finished p)
                                 (s1\<lparr>send_side_payload := dict_set x m (send_side_payload s)\<rparr>), Inr ()))
                    else (case rval_truthy (payload_audio_codes p) of
                            Inl e \<Rightarrow> (s1, Inl e)
                          | Inr new_ids \<Rightarrow>
                              (if new_ids \<or> payload_finished p
                               then publish_chunk r p (payload_is_consumable p) (payload_finished p) s1 else s1, Inr ())))
              else (s1\<lparr>stage_cache := dict_set r (engine_inputs p) (stage_cache s),
                       pending_broadcast := insert r (pending_broadcast s),
                       pending_loads := removeAll r (pending_loads s)\<rparr>, Inr ())))"

definition recv_chunk :: "runner \<Rightarrow> runner \<times> (string \<times> rpayload option) set" where
  "recv_chunk s = (s\<lparr>chunk_ready := chunk_ready s \<union> finished_loads s\<rparr>, (\<lambda>r. (r, map_of (stage_cache s) r)) ` finished_loads s)"

text \<open>The full payloads to be published on all ranks; an id without its payload stays pending.\<close>

definition collect_full_payloads :: "runner \<Rightarrow> runner \<times> (string \<times> rpayload) list option" where
  "collect_full_payloads s =
     (let res = filter (\<lambda>(r, p). r \<in> pending_broadcast s) (stage_cache s)
      in (s\<lparr>pending_broadcast := pending_broadcast s - fst ` set res\<rparr>, if res = [] then None else Some res))"

definition apply_staged :: "(string \<times> rpayload) list \<Rightarrow> runner \<Rightarrow> runner" where
  "apply_staged staged s = s\<lparr>stage_cache := foldl (\<lambda>d (r, p). dict_set r p d) (stage_cache s) staged\<rparr>"

definition publish_full_payloads :: "(string \<times> rpayload) list \<Rightarrow> runner \<Rightarrow> runner" where
  "publish_full_payloads res s =
     (let s1 = apply_staged res s
      in s1\<lparr>stage_recv := stage_recv s \<union> fst ` set res,
            pending_loads := filter (\<lambda>r. r \<notin> fst ` set res) (pending_loads s),
            request_metadata := foldl (\<lambda>d (r, p). dict_set r (extract_scheduling_metadata p) d) (request_metadata s) res\<rparr>)"

text \<open>\<open>recv_full_payload_inputs\<close>; \<open>sent\<close> is what the leading rank broadcasts, used by the other ranks.\<close>

definition recv_full_payload_inputs :: "runner_config \<Rightarrow> (string \<times> rpayload) list option \<Rightarrow> runner \<Rightarrow> runner \<times> (string \<times> rpayload) list option" where
  "recv_full_payload_inputs cfg sent s =
     (let (s1, mine) = (if is_data_transfer_rank cfg then collect_full_payloads s else (s, None));
          results = (if 1 < tp_world cfg \<and> \<not> is_data_transfer_rank cfg then sent else mine)
      in (case results of None \<Rightarrow> (s1, None) | Some res \<Rightarrow> (if res = [] then (s1, None) else (publish_full_payloads res s1, Some res))))"

section \<open>Sending\<close>

type_synonym chunk_builder =
  "run_request option \<Rightarrow> rpayload option \<Rightarrow> (string \<times> rpayload) list \<times> string set \<Rightarrow> ((string \<times> rpayload) list \<times> string set) \<times> rpayload option"

text \<open>The stage's function may change the two send-side stores; its exceptions count as \<open>None\<close>.\<close>

definition build_payload :: "chunk_builder \<Rightarrow> run_request option \<Rightarrow> rpayload option \<Rightarrow> runner \<Rightarrow> runner \<times> rpayload option" where
  "build_payload process q po s =
     (case process q po (send_side_payload s, code_prompts s) of
        ((sp, cp), out) \<Rightarrow> (s\<lparr>send_side_payload := sp, code_prompts := cp\<rparr>, out))"

definition enqueue_save :: "save_entry \<Rightarrow> runner \<Rightarrow> runner" where
  "enqueue_save t s =
     (let r = e_request t;
          dq = (case map_of (pending_saves s) r of None \<Rightarrow> [] | Some ts \<Rightarrow> ts)
      in s\<lparr>pending_saves := dict_set r (dq @ [t]) (pending_saves s), save_counts := dict_set r (Suc (count_of r (save_counts s))) (save_counts s)\<rparr>)"

definition send_chunk :: "runner_config \<Rightarrow> chunk_builder option \<Rightarrow> run_request \<Rightarrow> rpayload option \<Rightarrow> runner \<Rightarrow> runner \<times> bool" where
  "send_chunk cfg process q po s =
     (if \<not> has_connector cfg then (s, False)
      else if \<not> is_data_transfer_rank cfg then (s, True)
      else (let x = resolve_external (Some q) (q_id q) s;
                s1 = (if q_id q \<noteq> [] \<and> q_id q \<noteq> x \<and> q_id q \<notin> fst ` set (ids_mapping s)
                      then s\<lparr>ids_mapping := dict_set (q_id q) x (ids_mapping s)\<rparr> else s);
                n = count_of x (put_chunk s);
                s2 = s1\<lparr>put_chunk := touch_count x (put_chunk s)\<rparr>;
                (s3, out) = (case process of None \<Rightarrow> (s2, None) | Some f \<Rightarrow> build_payload f (Some q) po s2)
            in (case out of
                  None \<Rightarrow> (s3, False)
                | Some p \<Rightarrow>
                    (enqueue_save \<lparr>e_key = transfer_key x (run_stage cfg) n, e_data = p, e_request = x, e_retries = 0\<rparr>
                       (s3\<lparr>put_chunk := dict_set x (Suc n) (put_chunk s3)\<rparr>), True))))"

definition accumulate_full_payload_output :: "string \<Rightarrow> rpayload \<Rightarrow> run_request \<Rightarrow> runner \<Rightarrow> runner" where
  "accumulate_full_payload_output r po q s =
     (let new = drop_zero_tensors po
      in (case map_of (full_payload_sends s) r of
            None \<Rightarrow> s\<lparr>full_payload_sends := dict_set r (new, q) (full_payload_sends s)\<rparr>
          | Some (old, _) \<Rightarrow> s\<lparr>full_payload_sends := dict_set r (merge_step_outputs old new, q) (full_payload_sends s)\<rparr>))"

text \<open>One output of \<open>send_full_payload_outputs\<close>: its chunk is counted and queued under the internal id.\<close>

definition send_full_payload :: "runner_config \<Rightarrow> chunk_builder option \<Rightarrow> string \<Rightarrow> rpayload \<Rightarrow> run_request option \<Rightarrow> runner \<Rightarrow> runner \<times> bool" where
  "send_full_payload cfg process r raw q s =
     (let (s1, out) = (case process of None \<Rightarrow> (s, Some raw) | Some f \<Rightarrow> build_payload f q (Some raw) s)
      in (case out of
            None \<Rightarrow> (s1, False)
          | Some p \<Rightarrow>
              (let x = resolve_external q r s1; n = count_of r (put_chunk s1)
               in (enqueue_save \<lparr>e_key = transfer_key x (run_stage cfg) n, e_data = p, e_request = r, e_retries = 0\<rparr>
                     (s1\<lparr>put_chunk := dict_set r (Suc n) (put_chunk s1)\<rparr>), True))))"

fun send_full_payloads ::
  "runner_config \<Rightarrow> chunk_builder option \<Rightarrow> (string \<times> rpayload \<times> run_request option) list \<Rightarrow> runner \<Rightarrow> runner \<times> string list" where
  "send_full_payloads cfg process [] s = (s, [])"
| "send_full_payloads cfg process ((r, raw, q) # rest) s =
     (let (s1, sent) = send_full_payload cfg process r raw q s;
          (s2, ids) = send_full_payloads cfg process rest s1
      in (s2, if sent then r # ids else ids))"

definition send_full_payload_outputs ::
  "runner_config \<Rightarrow> chunk_builder option \<Rightarrow> (string \<times> rpayload \<times> run_request option) list \<Rightarrow> runner \<Rightarrow> runner \<times> string list" where
  "send_full_payload_outputs cfg process outputs s =
     (if \<not> has_connector cfg then (s, [])
      else if \<not> is_data_transfer_rank cfg then (s, map fst outputs)
      else send_full_payloads cfg process outputs s)"

text \<open>\<open>ids\<close> are the finished requests in the order of the set.\<close>

definition flush_full_payload_outputs :: "runner_config \<Rightarrow> chunk_builder option \<Rightarrow> string list \<Rightarrow> runner \<Rightarrow> runner" where
  "flush_full_payload_outputs cfg process ids s =
     (let outs = List.map_filter (\<lambda>r. map_option (\<lambda>(p, q). (r, p, Some q)) (map_of (full_payload_sends s) r)) ids;
          s1 = s\<lparr>full_payload_sends := fold dict_pop ids (full_payload_sends s)\<rparr>
      in if outs = [] then s1 else fst (send_full_payload_outputs cfg process outs s1))"

text \<open>The sending thread takes the first task of the first queue and drops queues it finds empty.\<close>

fun first_save :: "(string \<times> save_entry list) list \<Rightarrow> save_entry option \<times> (string \<times> save_entry list) list" where
  "first_save [] = (None, [])"
| "first_save ((r, []) # rest) = first_save rest"
| "first_save ((r, t # ts) # rest) = (Some t, if ts = [] then rest else (r, ts) # rest)"

definition save_take :: "runner \<Rightarrow> runner" where
  "save_take s =
     (if saving s \<noteq> None then s
      else (case first_save (pending_saves s) of (t, rest) \<Rightarrow> s\<lparr>pending_saves := rest, saving := t\<rparr>))"

definition decrement_save_count :: "string \<Rightarrow> runner \<Rightarrow> runner" where
  "decrement_save_count r s =
     (let n = count_of r (save_counts s)
      in if 1 < n then s\<lparr>save_counts := dict_set r (n - 1) (save_counts s)\<rparr>
         else if n = 1
         then (let s1 = s\<lparr>save_counts := dict_pop r (save_counts s)\<rparr>
               in if r \<in> deferred_cleanup s then drop_send_state r (s1\<lparr>deferred_cleanup := deferred_cleanup s - {r}\<rparr>) else s1)
         else s)"

definition max_send_retries :: nat where "max_send_retries = 3"

definition requeue_or_drop :: "save_entry \<Rightarrow> runner \<Rightarrow> runner" where
  "requeue_or_drop t s =
     (if e_retries t + 1 \<le> max_send_retries
      then (let r = e_request t;
                dq = (case map_of (pending_saves s) r of None \<Rightarrow> [] | Some ts \<Rightarrow> ts)
            in s\<lparr>pending_saves := dict_set r (t\<lparr>e_retries := e_retries t + 1\<rparr> # dq) (pending_saves s)\<rparr>)
      else decrement_save_count (e_request t) s)"

text \<open>The task is put; an exception of the connector counts as no success.\<close>

definition save_put :: "(string \<Rightarrow> rpayload \<Rightarrow> 'c \<Rightarrow> 'c \<times> bool) \<Rightarrow> runner \<times> 'c \<Rightarrow> runner \<times> 'c" where
  "save_put put sc =
     (case sc of (s, c) \<Rightarrow>
        (case saving s of
           None \<Rightarrow> (s, c)
         | Some t \<Rightarrow>
             (let s1 = s\<lparr>saving := None\<rparr>; (c1, success) = put (e_key t) (e_data t) c
              in (if success then decrement_save_count (e_request t) s1 else requeue_or_drop t s1, c1))))"

section \<open>KV transfers\<close>

definition mark_kv_transfer :: "string \<Rightarrow> kv_transfer \<Rightarrow> runner \<Rightarrow> runner" where
  "mark_kv_transfer r tr s =
     (if r \<in> fst ` set (kv_pending s) then s
      else s\<lparr>kv_triggered := insert r (kv_triggered s), kv_pending := dict_set r tr (kv_pending s)\<rparr>)"

definition drain_pending_kv_transfers :: "runner \<Rightarrow> runner \<times> (string \<times> kv_transfer) list" where
  "drain_pending_kv_transfers s = (s\<lparr>kv_active := kv_active s \<union> fst ` set (kv_pending s), kv_pending := []\<rparr>, kv_pending s)"

definition ack_kv_transfers :: "string list \<Rightarrow> runner \<Rightarrow> runner" where
  "ack_kv_transfers ids s = s\<lparr>kv_active := kv_active s - set ids, kv_completed := kv_completed s \<union> set ids\<rparr>"

definition drain_completed_kv_transfers :: "runner \<Rightarrow> runner \<times> string set" where
  "drain_completed_kv_transfers s = (s\<lparr>kv_completed := {}\<rparr>, kv_completed s)"

definition has_pending_kv_work :: "runner \<Rightarrow> bool" where
  "has_pending_kv_work s \<longleftrightarrow> kv_pending s \<noteq> [] \<or> kv_active s \<noteq> {} \<or> kv_completed s \<noteq> {}"

text \<open>\<open>sent\<close> is what the transfer manager sent.\<close>

definition send_kv_cache :: "string list \<Rightarrow> runner \<Rightarrow> runner" where
  "send_kv_cache sent s = s\<lparr>kv_sent := kv_sent s @ sent\<rparr>"

text \<open>Ranks a rank exchanges caches with, and the keys it sends and receives under.\<close>

definition validate_topology :: "topology \<Rightarrow> unit res" where
  "validate_topology t =
     (if source_tp_size t = 0 \<or> target_tp_size t = 0 then Inl ValueError
      else if max (source_tp_size t) (target_tp_size t) mod min (source_tp_size t) (target_tp_size t) \<noteq> 0 then Inl ValueError
      else Inr ())"

definition get_kv_remote_ranks :: "topology \<Rightarrow> nat list res" where
  "get_kv_remote_ranks t =
     bind_res (validate_topology t) (\<lambda>_. Inr (
       if source_tp_size t = target_tp_size t then [local_rank t]
       else if target_tp_size t < source_tp_size t
       then (let ratio = source_tp_size t div target_tp_size t in map (\<lambda>i. local_rank t * ratio + i) [0 ..< ratio])
       else [local_rank t div (target_tp_size t div source_tp_size t)]))"

definition get_kv_target_ranks_for_send :: "topology \<Rightarrow> nat list res" where
  "get_kv_target_ranks_for_send t =
     bind_res (validate_topology t) (\<lambda>_. Inr (
       if source_tp_size t = target_tp_size t then [local_rank t]
       else if target_tp_size t < source_tp_size t then [local_rank t div (source_tp_size t div target_tp_size t)]
       else (let ratio = target_tp_size t div source_tp_size t in map (\<lambda>i. local_rank t * ratio + i) [0 ..< ratio])))"

definition get_rank_aware_kv_keys :: "string \<Rightarrow> nat \<Rightarrow> nat \<Rightarrow> topology \<Rightarrow> string list res" where
  "get_rank_aware_kv_keys r from_stage n t =
     bind_res (get_kv_remote_ranks t) (\<lambda>ks. Inr (map (\<lambda>k. get_kv_connector_key r (show_nat from_stage) n k (local_rank t)) ks))"

definition get_rank_aware_kv_send_keys :: "string \<Rightarrow> nat \<Rightarrow> nat \<Rightarrow> topology \<Rightarrow> string list res" where
  "get_rank_aware_kv_send_keys r from_stage n t =
     bind_res (get_kv_target_ranks_for_send t) (\<lambda>ks. Inr (map (\<lambda>k. get_kv_connector_key r (show_nat from_stage) n (local_rank t) k) ks))"

section \<open>Reporting to the scheduler\<close>

record connector_output =
  out_chunk_ready :: "string set"
  out_chunk_finished :: "string set"
  out_metadata :: "(string \<times> rpayload) list"
  out_kv_sent :: "string list"
  out_stage_recv :: "string set"
  out_kv_work :: bool

record fanout =
  f_staged :: "(string \<times> rpayload) list"
  f_metadata :: "(string \<times> rpayload) list"
  f_newly_finished :: "string set"
  f_chunk_finished :: "string set"

text \<open>The payloads accumulated for a finished stream are released, once the cache has the request.\<close>

definition release_streams :: "string set \<Rightarrow> runner \<Rightarrow> runner" where
  "release_streams ids s =
     s\<lparr>send_side_payload := filter (\<lambda>(x, p). \<not> (\<exists>r \<in> ids. r \<in> fst ` set (stage_cache s) \<and> (x = r \<or> x = mapped_id r s))) (send_side_payload s)\<rparr>"

definition collect_fanout :: "runner \<Rightarrow> runner \<times> fanout option" where
  "collect_fanout s =
     (let ids = chunk_updated s \<union> finished_loads s \<union> chunk_finished s \<union> fst ` set (request_metadata s)
      in if ids = {} then (s, None)
         else (release_streams (chunk_finished s)
                 (s\<lparr>chunk_updated := {}, finished_loads := {}, chunk_finished := {}, request_metadata := []\<rparr>),
               Some \<lparr>f_staged = filter (\<lambda>(r, p). r \<in> ids) (stage_cache s), f_metadata = request_metadata s,
                     f_newly_finished = finished_loads s, f_chunk_finished = chunk_finished s\<rparr>))"

definition apply_fanout :: "fanout \<Rightarrow> runner \<Rightarrow> runner" where
  "apply_fanout f s =
     (let s1 = apply_staged (f_staged f) s
      in s1\<lparr>pending_loads := filter (\<lambda>r. r \<notin> f_chunk_finished f) (pending_loads s),
            stream_completed := stream_completed s \<union> f_chunk_finished f\<rparr>)"

text \<open>What is reported: newly finished, finished streams and metadata, then the accumulated rest.\<close>

definition finish_output :: "string set \<Rightarrow> string set \<Rightarrow> (string \<times> rpayload) list \<Rightarrow> runner \<Rightarrow> runner \<times> connector_output" where
  "finish_output newly fin meta s =
     (s\<lparr>chunk_ready := {}, kv_sent := [], stage_recv := {}\<rparr>,
      \<lparr>out_chunk_ready = chunk_ready s \<union> newly, out_chunk_finished = fin, out_metadata = meta, out_kv_sent = kv_sent s,
       out_stage_recv = stage_recv s, out_kv_work = has_pending_kv_work s\<rparr>)"

definition get_omni_connector_output :: "runner_config \<Rightarrow> fanout option \<Rightarrow> runner \<Rightarrow> runner \<times> connector_output" where
  "get_omni_connector_output cfg sent s =
     (if async_chunk cfg \<and> 1 < tp_world cfg
      then (let (s1, packet) = (if is_data_transfer_rank cfg then collect_fanout s else (s, sent))
            in (case packet of
                  None \<Rightarrow> finish_output {} {} [] s1
                | Some f \<Rightarrow>
                    finish_output (f_newly_finished f) (f_chunk_finished f) (f_metadata f)
                      (if is_data_transfer_rank cfg then s1 else apply_fanout f s1)))
      else finish_output (finished_loads s) (chunk_finished s) (request_metadata s)
             (release_streams (chunk_finished s) (s\<lparr>finished_loads := {}, chunk_finished := {}, request_metadata := []\<rparr>)))"

definition output_has_signals :: "connector_output \<Rightarrow> bool" where
  "output_has_signals out \<longleftrightarrow> out_chunk_ready out \<noteq> {} \<or> out_chunk_finished out \<noteq> {} \<or> out_metadata out \<noteq> []
     \<or> out_kv_sent out \<noteq> [] \<or> out_stage_recv out \<noteq> {} \<or> out_kv_work out"

text \<open>Either the output is attached to the result of the step, or there is nothing to report.\<close>

definition attach_omni_connector_output :: "runner_config \<Rightarrow> fanout option \<Rightarrow> runner \<Rightarrow> runner \<times> connector_output option" where
  "attach_omni_connector_output cfg sent s =
     (case get_omni_connector_output cfg sent s of (s1, out) \<Rightarrow> (s1, if output_has_signals out then Some out else None))"

section \<open>Runs\<close>

datatype runner_event =
    Ev_register run_request
  | Ev_snapshot
  | Ev_get
  | Ev_put
  | Ev_recv_chunk
  | Ev_recv_full "(string \<times> rpayload) list option"
  | Ev_send_chunk run_request "rpayload option"
  | Ev_accumulate string rpayload run_request
  | Ev_flush "string list"
  | Ev_send_full "(string \<times> rpayload \<times> run_request option) list"
  | Ev_save_take
  | Ev_save_put
  | Ev_cleanup string
  | Ev_drop string
  | Ev_prune "string set"
  | Ev_pop_payload string
  | Ev_output "fanout option"
  | Ev_mark_kv string kv_transfer
  | Ev_drain_kv
  | Ev_ack_kv "string list"
  | Ev_drain_completed_kv
  | Ev_send_kv "string list"

record 'c transport =
  t_put :: "string \<Rightarrow> rpayload \<Rightarrow> 'c \<Rightarrow> 'c \<times> bool"
  t_get :: "string \<Rightarrow> 'c \<Rightarrow> 'c \<times> rpayload option"
  t_process :: "chunk_builder option"
  t_ord :: "string set \<Rightarrow> string list"

definition runner_step :: "runner_config \<Rightarrow> 'c transport \<Rightarrow> runner_event \<Rightarrow> runner \<times> 'c \<Rightarrow> runner \<times> 'c" where
  "runner_step cfg tr e sc =
     (case sc of (s, c) \<Rightarrow>
       (case e of
          Ev_register q \<Rightarrow> (register_chunk_recv cfg q s, c)
        | Ev_snapshot \<Rightarrow> (recv_snapshot s, c)
        | Ev_get \<Rightarrow> recv_get cfg (t_get tr) (s, c)
        | Ev_put \<Rightarrow> (fst (recv_put cfg s), c)
        | Ev_recv_chunk \<Rightarrow> (fst (recv_chunk s), c)
        | Ev_recv_full sent \<Rightarrow> (fst (recv_full_payload_inputs cfg sent s), c)
        | Ev_send_chunk q po \<Rightarrow> (fst (send_chunk cfg (t_process tr) q po s), c)
        | Ev_accumulate r po q \<Rightarrow> (accumulate_full_payload_output r po q s, c)
        | Ev_flush ids \<Rightarrow> (flush_full_payload_outputs cfg (t_process tr) ids s, c)
        | Ev_send_full outs \<Rightarrow> (fst (send_full_payload_outputs cfg (t_process tr) outs s), c)
        | Ev_save_take \<Rightarrow> (save_take s, c)
        | Ev_save_put \<Rightarrow> save_put (t_put tr) (s, c)
        | Ev_cleanup r \<Rightarrow> (cleanup_finished_request r s, c)
        | Ev_drop r \<Rightarrow> (drop_inactive_request r s, c)
        | Ev_prune active \<Rightarrow> (fst (prune_inactive_requests (t_ord tr) active s), c)
        | Ev_pop_payload r \<Rightarrow> (s\<lparr>stage_cache := dict_pop r (stage_cache s)\<rparr>, c)
        | Ev_output sent \<Rightarrow> (fst (get_omni_connector_output cfg sent s), c)
        | Ev_mark_kv r t \<Rightarrow> (mark_kv_transfer r t s, c)
        | Ev_drain_kv \<Rightarrow> (fst (drain_pending_kv_transfers s), c)
        | Ev_ack_kv ids \<Rightarrow> (ack_kv_transfers ids s, c)
        | Ev_drain_completed_kv \<Rightarrow> (fst (drain_completed_kv_transfers s), c)
        | Ev_send_kv sent \<Rightarrow> (send_kv_cache sent s, c)))"

definition runner_run :: "runner_config \<Rightarrow> 'c transport \<Rightarrow> runner_event list \<Rightarrow> runner \<times> 'c \<Rightarrow> runner \<times> 'c" where
  "runner_run cfg tr es sc = fold (runner_step cfg tr) es sc"

end
