(* ===== verification/Runner_Payload_Properties.thy ===== *)
theory Runner_Payload_Properties
  imports Runner_Payload
begin

text \<open>
  Accumulated payloads are well-formed, the span of the decoded tokens stays the part of the stream it
  says it is, and the outputs of the steps of a request are put together row by row.
\<close>

section \<open>Tensors\<close>

lemma keys_differ [simp]:
  "decode_key \<noteq> start_key" "decode_key \<noteq> end_key" "start_key \<noteq> decode_key" "end_key \<noteq> decode_key"
  "start_key \<noteq> end_key" "end_key \<noteq> start_key" "decode_key \<noteq> ''finished''" "start_key \<noteq> ''finished''" "end_key \<noteq> ''finished''"
  "''finished'' \<noteq> decode_key" "''finished'' \<noteq> start_key" "''finished'' \<noteq> end_key"
  by (simp_all add: decode_key_def start_key_def end_key_def)

lemma cat_rows_tails: "cat_rows a b = Inr c \<Longrightarrow> t_tail a \<noteq> None \<and> t_tail b \<noteq> None"
  by (auto simp: cat_rows_def split: if_splits)

lemma wf_cat_rows: "cat_rows a b = Inr c \<Longrightarrow> wf_tensor a \<Longrightarrow> wf_tensor b \<Longrightarrow> wf_tensor c"
  by (auto simp: cat_rows_def wf_tensor_def split: if_splits option.splits)

definition wf_payload :: "rpayload \<Rightarrow> bool" where
  "wf_payload p \<longleftrightarrow> (\<forall>k v. map_of p k = Some v \<longrightarrow> (case v of RTensor t \<Rightarrow> wf_tensor t | _ \<Rightarrow> True))"

lemma wf_payloadD: "wf_payload p \<Longrightarrow> map_of p k = Some (RTensor t) \<Longrightarrow> wf_tensor t"
  by (fastforce simp: wf_payload_def)

lemma wf_payload_set: "wf_payload p \<Longrightarrow> (\<And>t. v = RTensor t \<Longrightarrow> wf_tensor t) \<Longrightarrow> wf_payload (dict_set k v p)"
  by (auto simp: wf_payload_def map_of_dict_set split: rval.splits)

lemma wf_payload_pop: "wf_payload p \<Longrightarrow> wf_payload (dict_pop k p)"
  by (auto simp: wf_payload_def map_of_dict_pop)

lemma wf_drop_rows: "wf_tensor t \<Longrightarrow> t_tail t \<noteq> None \<Longrightarrow> wf_tensor (t\<lparr>t_rows := drop n (t_rows t)\<rparr>)"
  by (auto simp: wf_tensor_def dest: in_set_dropD split: option.splits)

lemma wf_join_value:
  assumes "join_value origin k v = Inr u" and "wf_payload origin" and "\<And>t. v = RTensor t \<Longrightarrow> wf_tensor t" and "u = RTensor t"
  shows "wf_tensor t"
proof (cases v)
  case (RTensor s)
  with assms show ?thesis
    by (auto simp: join_value_def bind_res_Inr split: option.splits rval.splits dest!: wf_cat_rows wf_payloadD)
qed (use assms in \<open>auto simp: join_value_def split: option.splits rval.splits\<close>)

lemma span_tensor: "get_tensor_span p = Inr (Some (t, a, b)) \<Longrightarrow> map_of p decode_key = Some (RTensor t) \<and> t_tail t \<noteq> None \<and> b - a = int (length (t_rows t)) \<and> 0 \<le> a \<and> a \<le> b"
  by (auto simp: get_tensor_span_def split: option.splits rval.splits if_splits)

lemma merged_span_wf:
  assumes "merge_tensor_spans old inc = Inr (Some (v, e, f))" and "\<And>t a b. old = Some (t, a, b) \<Longrightarrow> wf_tensor t"
    and "\<And>t a b. inc = Some (t, a, b) \<Longrightarrow> wf_tensor t"
  shows "wf_tensor v"
proof -
  obtain t a b u c d where s: "old = Some (t, a, b)" "inc = Some (u, c, d)"
    using assms(1) by (auto simp: merge_tensor_spans_def split: option.splits)
  have w: "wf_tensor t" "wf_tensor u" using assms(2,3) s by auto
  have trim: "wf_tensor (u\<lparr>t_rows := drop n (t_rows u)\<rparr>)" if "cat_rows t (u\<lparr>t_rows := drop n (t_rows u)\<rparr>) = Inr v" for n
    using wf_drop_rows [OF w(2)] cat_rows_tails [OF that] by simp
  show ?thesis
    using assms(1) w trim s
    by (auto simp: merge_tensor_spans_def Let_def bind_res_Inr split: if_splits intro: wf_cat_rows)
qed

lemma accumulate_item_wf:
  assumes "accumulate_item origin new (k, v) m = Inr m'" and "wf_payload origin" and "wf_payload new" and "wf_payload (merged m)"
    and "map_of new k = Some v"
  shows "wf_payload (merged m')"
proof -
  have v: "wf_tensor t" if "v = RTensor t" for t using wf_payloadD [OF assms(3)] assms(5) that by auto
  have join: "wf_tensor t" if "join_value origin k v = Inr (RTensor t)" for t
    using wf_join_value [OF that assms(2)] v by blast
  show ?thesis
  proof (cases "k = decode_key")
    case False
    with assms(1,4) v join show ?thesis
      by (auto simp: accumulate_item_def bind_res_Inr split: if_splits intro!: wf_payload_set)
  next
    case True
    with assms(1) obtain old inc sp where sp: "get_tensor_span origin = Inr old" "get_tensor_span new = Inr inc" "merge_tensor_spans old inc = Inr sp"
      by (auto simp: accumulate_item_def accumulate_decode_def bind_res_Inr)
    have t: "wf_tensor t" if "old = Some (t, a, b) \<or> inc = Some (t, a, b)" for t a b
      using that sp(1,2) assms(2,3) by (auto dest!: span_tensor intro: wf_payloadD)
    show ?thesis
    proof (cases sp)
      case (Some s)
      obtain w e f where s: "s = (w, e, f)" by (cases s) auto
      have "wf_tensor w" using merged_span_wf [of old inc w e f] sp(3) Some s t by blast
      with assms(1,4) True sp Some s show ?thesis
        by (auto simp: accumulate_item_def accumulate_decode_def intro!: wf_payload_set)
    next
      case None
      with assms(1,4) True sp v join show ?thesis
        by (auto simp: accumulate_item_def accumulate_decode_def bind_res_Inr Let_def intro!: wf_payload_set
            split: rval.splits option.splits)
    qed
  qed
qed

lemma accumulate_items_wf:
  "accumulate_items origin new kvs m = Inr m' \<Longrightarrow> wf_payload origin \<Longrightarrow> wf_payload new \<Longrightarrow> wf_payload (merged m)
     \<Longrightarrow> (\<And>k v. (k, v) \<in> set kvs \<Longrightarrow> map_of new k = Some v) \<Longrightarrow> wf_payload (merged m')"
proof (induction kvs arbitrary: m)
  case (Cons kv kvs)
  obtain k v where kv: "kv = (k, v)" by (cases kv)
  from Cons.prems(1) obtain m1 where m1: "accumulate_item origin new (k, v) m = Inr m1" "accumulate_items origin new kvs m1 = Inr m'"
    by (auto simp: bind_res_Inr kv)
  have "wf_payload (merged m1)" by (rule accumulate_item_wf [OF m1(1) Cons.prems(2-4)]) (simp add: Cons.prems(5) kv)
  with Cons.IH [OF m1(2) Cons.prems(2,3)] Cons.prems(5) show ?case by simp
qed simp

lemma accumulate_payload_wf:
  assumes "accumulate_payload stored new = Inr p" and "\<And>s. stored = Some s \<Longrightarrow> wf_payload s" and "wf_payload new" and "distinct (map fst new)"
  shows "wf_payload p"
proof (cases stored)
  case None
  with assms show ?thesis by (simp add: accumulate_payload_def)
next
  case (Some origin)
  with assms(1) obtain m where
    m: "accumulate_items origin new new \<lparr>merged = origin, drop_decode_span = False, decode_span_handled = False\<rparr> = Inr m"
      "p = (if drop_decode_span m then dict_pop end_key (dict_pop start_key (merged m)) else merged m)"
    by (auto simp: accumulate_payload_def bind_res_Inr)
  have "wf_payload (merged m)"
    by (rule accumulate_items_wf [OF m(1)]) (use assms(2-4) Some map_of_is_SomeI in auto)
  then show ?thesis by (simp add: m(2) wf_payload_pop)
qed

section \<open>The span of the decoded tokens\<close>

text \<open>\<open>(t, a, b)\<close> is the part from \<open>a\<close> to \<open>b\<close> of the stream of rows \<open>rs\<close>.\<close>

fun slice_of :: "int list list \<Rightarrow> nat list \<Rightarrow> span \<Rightarrow> bool" where
  "slice_of rs ns (t, a, b) \<longleftrightarrow> 0 \<le> a \<and> a \<le> b \<and> b \<le> int (length rs) \<and> t_tail t = Some ns \<and> t_rows t = take (nat (b - a)) (drop (nat a) rs)"

lemma cat_same_tail:
  assumes "t_tail a = Some ns" and "t_tail b = Some ns"
  shows "\<exists>c. cat_rows a b = Inr c \<and> t_tail c = Some ns \<and> t_rows c = t_rows a @ t_rows b"
  using assms by (auto simp: cat_rows_def empty_vector_def)

lemma take_then_take: "a \<le> b \<Longrightarrow> b \<le> d \<Longrightarrow> take (b - a) (drop a xs) @ take (d - b) (drop b xs) = take (d - a) (drop a xs)"
  using take_add [of "b - a" "d - b" "drop a xs"] by simp

lemma merge_slices:
  assumes "slice_of rs ns (t, a, b)" and "slice_of rs ns (u, c, d)" and "c \<le> b"
  shows "\<exists>v. merge_tensor_spans (Some (t, a, b)) (Some (u, c, d)) = Inr (Some (v, a, max b d)) \<and> slice_of rs ns (v, a, max b d)"
proof (cases "d \<le> b \<and> c < b")
  case True
  have "length (t_rows u) \<le> nat (d - c)" using assms(2) by simp
  with True have "int (length (t_rows u)) \<le> b - c" by linarith
  with True assms show ?thesis by (auto simp: merge_tensor_spans_def Let_def max_def)
next
  case False
  then have d: "b \<le> d" using assms(2,3) by auto
  define w where "w = (if c = b then u else u\<lparr>t_rows := drop (nat (b - c)) (t_rows u)\<rparr>)"
  have r: "t_rows w = take (nat d - nat b) (drop (nat b) rs)" "t_tail w = Some ns"
  proof -
    have "drop (nat (b - c)) (take (nat (d - c)) (drop (nat c) rs)) = take (nat d - nat b) (drop (nat b) rs)" if "c < b"
      using that assms(1,2) d by (simp add: drop_take nat_diff_distrib)
    then show "t_rows w = take (nat d - nat b) (drop (nat b) rs)" "t_tail w = Some ns"
      using assms d by (auto simp: w_def nat_diff_distrib)
  qed
  obtain v where v: "cat_rows t w = Inr v" "t_tail v = Some ns" "t_rows v = t_rows t @ t_rows w"
    using cat_same_tail [of t ns w] assms(1) r(2) by auto
  have "t_rows v = take (nat d - nat a) (drop (nat a) rs)"
    using take_then_take [OF nat_mono nat_mono, of a b d rs] assms(1) d by (simp add: v(3) r(1) nat_diff_distrib)
  then have sl: "slice_of rs ns (v, a, d)" using assms d v(2) by (simp add: nat_diff_distrib)
  have len: "int (length (t_rows w)) = d - b"
  proof -
    have "nat d - nat b \<le> length rs - nat b" "nat b \<le> nat d" using assms(2) d by auto
    then have "length (t_rows w) = nat d - nat b" using r(1) by simp
    with d assms(1) show ?thesis by (simp add: of_nat_diff nat_mono)
  qed
  have "merge_tensor_spans (Some (t, a, b)) (Some (u, c, d)) = Inr (Some (v, a, d))"
  proof (cases "c = b")
    case True
    with v show ?thesis by (simp add: merge_tensor_spans_def w_def)
  next
    case c: False
    with assms(2,3) False have "\<not> int (length (t_rows u)) \<le> b - c" "c < b" by (auto split: if_splits)
    with v len c show ?thesis by (simp add: merge_tensor_spans_def Let_def w_def)
  qed
  with sl d show ?thesis by (simp add: max_def)
qed

text \<open>Items other than the decoded tokens leave the merged span alone.\<close>

definition span_in :: "rpayload \<Rightarrow> span \<Rightarrow> bool" where
  "span_in p s \<longleftrightarrow> (case s of (t, a, b) \<Rightarrow> map_of p decode_key = Some (RTensor t) \<and> map_of p start_key = Some (RInt a) \<and> map_of p end_key = Some (RInt b))"

lemma accumulate_item_other:
  assumes "accumulate_item origin new (k, v) m = Inr m'" and "k \<noteq> decode_key"
  shows "drop_decode_span m' = drop_decode_span m" and "decode_span_handled m' = decode_span_handled m"
    and "decode_span_handled m \<Longrightarrow> span_in (merged m) s \<Longrightarrow> span_in (merged m') s"
  using assms by (auto simp: accumulate_item_def bind_res_Inr span_in_def map_of_dict_set split: if_splits)

lemma accumulate_items_others:
  "accumulate_items origin new kvs m = Inr m' \<Longrightarrow> decode_key \<notin> fst ` set kvs \<Longrightarrow>
     drop_decode_span m' = drop_decode_span m \<and> decode_span_handled m' = decode_span_handled m
     \<and> (decode_span_handled m \<and> span_in (merged m) s \<longrightarrow> span_in (merged m') s)"
proof (induction kvs arbitrary: m)
  case (Cons kv kvs)
  obtain k v where kv: "kv = (k, v)" by (cases kv)
  from Cons.prems(1) obtain m1 where m1: "accumulate_item origin new (k, v) m = Inr m1" "accumulate_items origin new kvs m1 = Inr m'"
    by (auto simp: bind_res_Inr kv)
  have k: "k \<noteq> decode_key" "decode_key \<notin> fst ` set kvs" using Cons.prems(2) by (auto simp: kv)
  from Cons.IH [OF m1(2) k(2)] accumulate_item_other [OF m1(1) k(1)] show ?case by simp
qed simp

lemma accumulate_items_append:
  "accumulate_items origin new (xs @ ys) m = bind_res (accumulate_items origin new xs m) (accumulate_items origin new ys)"
proof (induction xs arbitrary: m)
  case (Cons x xs)
  show ?case by (cases "accumulate_item origin new x m") (simp_all add: Cons.IH)
qed simp

lemma span_at:
  assumes "get_tensor_span p = Inr (Some (t, a, b))"
  obtains "map_of p decode_key = Some (RTensor t)" "int_value (map_of p start_key) = Some a" "int_value (map_of p end_key) = Some b"
  using assms by (auto simp: get_tensor_span_def split: option.splits rval.splits if_splits)

lemma span_in_get:
  assumes "span_in p (t, a, b)" and "slice_of rs ns (t, a, b)"
  shows "get_tensor_span p = Inr (Some (t, a, b))"
  using assms by (auto simp: span_in_def get_tensor_span_def int_value_def)

text \<open>C38: As long as the chunks of a stream say where their decoded tokens belong and leave no gap, the payload accumulated for a request says so too: if the stored and the new embeddings are the rows from a to b and from c to d of one stream and c is at most b, the accumulated ones are the rows from a to the larger end, overlaps counted once, wherever the keys stand in the chunk.\<close>

theorem decode_span_stays_exact:
  assumes "accumulate_payload (Some stored) new = Inr p" and "distinct (map fst new)"
    and "get_tensor_span stored = Inr (Some (t, a, b))" and "get_tensor_span new = Inr (Some (u, c, d))"
    and "slice_of rs ns (t, a, b)" and "slice_of rs ns (u, c, d)" and "c \<le> b"
  shows "\<exists>v. get_tensor_span p = Inr (Some (v, a, max b d)) \<and> slice_of rs ns (v, a, max b d)"
proof -
  obtain v where v: "merge_tensor_spans (Some (t, a, b)) (Some (u, c, d)) = Inr (Some (v, a, max b d))" "slice_of rs ns (v, a, max b d)"
    using merge_slices [OF assms(5-7)] by blast
  obtain kv where "map_of new decode_key = Some kv" using span_at [OF assms(4)] by blast
  then obtain xs ys where new: "new = xs @ (decode_key, kv) # ys" by (auto dest!: map_of_SomeD split_list)
  with assms(2) have k: "decode_key \<notin> fst ` set xs" "decode_key \<notin> fst ` set ys" by auto
  obtain m where m: "accumulate_items stored new new \<lparr>merged = stored, drop_decode_span = False, decode_span_handled = False\<rparr> = Inr m"
    "p = (if drop_decode_span m then dict_pop end_key (dict_pop start_key (merged m)) else merged m)"
    using assms(1) by (auto simp: accumulate_payload_def bind_res_Inr)
  obtain m1 m2 where
    m1: "accumulate_items stored new xs \<lparr>merged = stored, drop_decode_span = False, decode_span_handled = False\<rparr> = Inr m1" and
    m2: "accumulate_item stored new (decode_key, kv) m1 = Inr m2" and m3: "accumulate_items stored new ys m2 = Inr m"
    using m(1) by (subst (asm) (2) new) (auto simp: accumulate_items_append bind_res_Inr)
  have "m2 = m1\<lparr>merged := dict_set end_key (RInt (max b d)) (dict_set start_key (RInt a) (dict_set decode_key (RTensor v) (merged m1))),
      decode_span_handled := True\<rparr>"
    using m2 v(1) assms(3,4) by (simp add: accumulate_item_def accumulate_decode_def)
  then have "span_in (merged m2) (v, a, max b d) \<and> decode_span_handled m2 \<and> drop_decode_span m2 = drop_decode_span m1"
    by (simp add: span_in_def map_of_dict_set)
  with accumulate_items_others [OF m3 k(2)] accumulate_items_others [OF m1 k(1)] m(2)
  have "span_in p (v, a, max b d)" by simp
  from span_in_get [OF this v(2)] v(2) show ?thesis by blast
qed

definition ex_span :: "int list list \<Rightarrow> int \<Rightarrow> int \<Rightarrow> rpayload" where
  "ex_span rs a b = [(start_key, RInt a), (decode_key, RTensor \<lparr>t_tail = Some [2], t_rows = rs\<rparr>), (end_key, RInt b)]"

theorem decode_span_stays_exact_witness:
  "\<exists>p. accumulate_payload (Some (ex_span [[1, 2], [3, 4]] 0 2)) (ex_span [[3, 4], [5, 6]] 1 3) = Inr p
     \<and> (\<exists>v. get_tensor_span p = Inr (Some (v, 0, 3)) \<and> slice_of [[1, 2], [3, 4], [5, 6]] [2] (v, 0, 3))"
proof -
  let ?a = "ex_span [[1, 2], [3, 4]] 0 2" and ?b = "ex_span [[3, 4], [5, 6]] 1 3"
  have s: "get_tensor_span ?a = Inr (Some (\<lparr>t_tail = Some [2], t_rows = [[1, 2], [3, 4]]\<rparr>, 0, 2))"
    "get_tensor_span ?b = Inr (Some (\<lparr>t_tail = Some [2], t_rows = [[3, 4], [5, 6]]\<rparr>, 1, 3))"
    by (simp_all add: ex_span_def get_tensor_span_def int_value_def)
  obtain p where p: "accumulate_payload (Some ?a) ?b = Inr p"
    using s by (simp add: accumulate_payload_def accumulate_item_def accumulate_decode_def merge_tensor_spans_def cat_rows_def
        empty_vector_def ex_span_def [of "[[3, 4], [5, 6]]"])
  have "distinct (map fst ?b)" by (simp add: ex_span_def)
  from decode_span_stays_exact [OF p this s, of "[[1, 2], [3, 4], [5, 6]]" "[2]"] p show ?thesis
    by (auto simp: numeral_2_eq_2 numeral_3_eq_3)
qed

section \<open>Outputs of the steps\<close>

text \<open>Keys whose tensors keep their trailing dimensions are concatenated over the steps.\<close>

lemma merge_step_outputs_lookup:
  "lookup_some (merge_step_outputs old new) k =
     (case merge_step_value (lookup_some old k) (lookup_some new k) of RNone \<Rightarrow> None | v \<Rightarrow> Some v)"
proof -
  have map: "map_of (map (\<lambda>k. (k, f k)) ks) k = (if k \<in> set ks then Some (f k) else None)" for f :: "string \<Rightarrow> rval" and ks
    by (induction ks) auto
  have none: "lookup_some p k = None" if "k \<notin> fst ` set p" for p
    using that by (simp add: lookup_some_def map_of_eq_None_iff [THEN iffD2])
  show ?thesis
  proof (cases "k \<in> fst ` set old \<union> fst ` set new")
    case True
    then have "map_of (merge_step_outputs old new) k = Some (merge_step_value (lookup_some old k) (lookup_some new k))"
      unfolding merge_step_outputs_def map by auto
    then show ?thesis by (simp add: lookup_some_def [of "merge_step_outputs old new"] split: rval.split)
  next
    case False
    then have "map_of (merge_step_outputs old new) k = None" unfolding merge_step_outputs_def map by auto
    with False none [of old] none [of new] show ?thesis by (simp add: lookup_some_def [of "merge_step_outputs old new"] merge_step_value_def)
  qed
qed


section \<open>Streams of chunks\<close>

text \<open>What \<open>_accumulate_payload\<close> keeps for a request that received the chunks \<open>cs\<close>.\<close>

fun accumulate_stream :: "rpayload option \<Rightarrow> rpayload list \<Rightarrow> rpayload option res" where
  "accumulate_stream stored [] = Inr stored"
| "accumulate_stream stored (c # cs) = bind_res (accumulate_payload stored c) (\<lambda>p. accumulate_stream (Some p) cs)"

lemma accumulate_stream_wf:
  assumes "accumulate_stream stored cs = Inr (Some p)" and "\<And>s. stored = Some s \<Longrightarrow> wf_payload s"
    and "\<forall>c \<in> set cs. wf_payload c \<and> distinct (map fst c)"
  shows "wf_payload p"
  using assms
proof (induction stored cs rule: accumulate_stream.induct)
  case (2 stored c cs)
  then obtain q where q: "accumulate_payload stored c = Inr q" "accumulate_stream (Some q) cs = Inr (Some p)"
    by (auto simp: bind_res_Inr)
  with 2(3,4) have "wf_payload q" by (intro accumulate_payload_wf [OF q(1)]) auto
  with 2(1) [OF q(2)] 2(4) show ?case by simp
qed simp

end
