(* ===== verification/Connector_Runner_Properties.thy ===== *)
theory Connector_Runner_Properties
  imports Connector_Runner Runner_Payload_Properties
begin

text \<open>
  The sending side accounts for every task and comes to an end whatever the connector does; the receiving
  side reports what arrived, and in generation mode keeps a chunk until it was taken.
\<close>

section \<open>The sending side\<close>

definition queue_of :: "string \<Rightarrow> runner \<Rightarrow> save_entry list" where
  "queue_of r s = (case map_of (pending_saves s) r of None \<Rightarrow> [] | Some ts \<Rightarrow> ts)"

definition in_flight :: "string \<Rightarrow> runner \<Rightarrow> nat" where
  "in_flight r s = (case saving s of Some t \<Rightarrow> if e_request t = r then 1 else 0 | None \<Rightarrow> 0)"

definition save_ok :: "runner \<Rightarrow> bool" where
  "save_ok s \<longleftrightarrow> distinct (map fst (pending_saves s))
     \<and> (\<forall>r ts. map_of (pending_saves s) r = Some ts \<longrightarrow> ts \<noteq> [] \<and> (\<forall>t \<in> set ts. e_request t = r \<and> e_retries t \<le> max_send_retries))
     \<and> (\<forall>t. saving s = Some t \<longrightarrow> e_retries t \<le> max_send_retries)
     \<and> (\<forall>r. count_of r (save_counts s) = length (queue_of r s) + in_flight r s)
     \<and> (\<forall>r \<in> deferred_cleanup s. 0 < length (queue_of r s) + in_flight r s)"

lemma save_okD:
  assumes "save_ok s"
  shows "distinct (map fst (pending_saves s))" and "map_of (pending_saves s) r = Some ts \<Longrightarrow> ts \<noteq> []"
    and "map_of (pending_saves s) r = Some ts \<Longrightarrow> t \<in> set ts \<Longrightarrow> e_request t = r"
    and "map_of (pending_saves s) r = Some ts \<Longrightarrow> t \<in> set ts \<Longrightarrow> e_retries t \<le> max_send_retries"
    and "saving s = Some t \<Longrightarrow> e_retries t \<le> max_send_retries"
    and "count_of r (save_counts s) = length (queue_of r s) + in_flight r s"
    and "r \<in> deferred_cleanup s \<Longrightarrow> 0 < length (queue_of r s) + in_flight r s"
  using assms by (auto simp: save_ok_def)

lemma save_ok_queue:
  "save_ok s \<Longrightarrow> map_of (pending_saves s) r = Some ts \<Longrightarrow>
     ts \<noteq> [] \<and> (\<forall>t \<in> set ts. e_request t = r \<and> e_retries t \<le> max_send_retries)"
  unfolding save_ok_def by blast

lemma save_okI:
  assumes "distinct (map fst (pending_saves s))"
    and "\<And>r ts. map_of (pending_saves s) r = Some ts \<Longrightarrow> ts \<noteq> [] \<and> (\<forall>t \<in> set ts. e_request t = r \<and> e_retries t \<le> max_send_retries)"
    and "\<And>t. saving s = Some t \<Longrightarrow> e_retries t \<le> max_send_retries"
    and "\<And>r. count_of r (save_counts s) = length (queue_of r s) + in_flight r s"
    and "\<And>r. r \<in> deferred_cleanup s \<Longrightarrow> 0 < length (queue_of r s) + in_flight r s"
  shows "save_ok s"
proof -
  have "\<forall>r \<in> deferred_cleanup s. 0 < length (queue_of r s) + in_flight r s" by (rule ballI) (rule assms(5))
  moreover have "\<forall>r. count_of r (save_counts s) = length (queue_of r s) + in_flight r s" by (rule allI) (rule assms(4))
  ultimately show ?thesis unfolding save_ok_def using assms(1-3) by blast
qed

lemma runner_init_save_ok: "save_ok runner_init"
  by (simp add: save_ok_def runner_init_def count_of_def queue_of_def in_flight_def)

lemma count_of_set: "count_of k (dict_set r n d) = (if k = r then n else count_of k d)"
  by (simp add: count_of_def map_of_dict_set)

lemma count_of_pop: "count_of k (dict_pop r d) = (if k = r then 0 else count_of k d)"
  by (simp add: count_of_def map_of_dict_pop)

text \<open>Most operations leave the sending side alone.\<close>

definition same_sends :: "runner \<Rightarrow> runner \<Rightarrow> bool" where
  "same_sends s s' \<longleftrightarrow> pending_saves s' = pending_saves s \<and> saving s' = saving s \<and> save_counts s' = save_counts s
     \<and> deferred_cleanup s' = deferred_cleanup s"

lemma same_sends_refl [simp]: "same_sends s s"
  by (simp add: same_sends_def)

lemma same_sends_trans: "same_sends s t \<Longrightarrow> same_sends t u \<Longrightarrow> same_sends s u"
  by (simp add: same_sends_def)

lemma same_sends_ok: "same_sends s s' \<Longrightarrow> save_ok s \<Longrightarrow> save_ok s'"
  by (simp add: same_sends_def save_ok_def queue_of_def in_flight_def)

lemma drop_send_state_same: "same_sends s (drop_send_state x s)"
  by (simp add: same_sends_def drop_send_state_def)

lemma cleanup_parts_same: "same_sends s (clear_recv_state r s)" "same_sends s (drop_kv_state r s)"
  by (simp_all add: same_sends_def clear_recv_state_def drop_kv_state_def)

lemma cleanup_save_ok:
  assumes "save_ok s"
  shows "save_ok (cleanup_finished_request r s)"
proof -
  let ?x = "mapped_id r s" and ?s1 = "s\<lparr>ids_mapping := dict_pop r (ids_mapping s)\<rparr>"
  let ?s2 = "if count_of ?x (save_counts s) \<noteq> 0 then ?s1\<lparr>deferred_cleanup := insert ?x (deferred_cleanup s)\<rparr> else drop_send_state ?x ?s1"
  have "save_ok ?s1" by (rule same_sends_ok [OF _ assms]) (simp add: same_sends_def)
  moreover have "save_ok (?s1\<lparr>deferred_cleanup := insert ?x (deferred_cleanup s)\<rparr>)" if "count_of ?x (save_counts s) \<noteq> 0"
    using assms that by (simp add: save_ok_def queue_of_def in_flight_def)
  ultimately have "save_ok ?s2" using same_sends_ok [OF drop_send_state_same] by simp
  then show ?thesis
    unfolding cleanup_finished_request_def Let_def
    using same_sends_ok [OF cleanup_parts_same(1)] same_sends_ok [OF cleanup_parts_same(2)] by blast
qed

lemma prune_save_ok: "save_ok s \<Longrightarrow> save_ok (fst (prune_inactive_requests ord active s))"
proof -
  have "save_ok (fold cleanup_finished_request rs s)" if "save_ok s" for rs s
    using that by (induction rs arbitrary: s) (simp_all add: cleanup_save_ok)
  then show "save_ok s \<Longrightarrow> ?thesis" by (simp add: prune_inactive_requests_def Let_def)
qed

lemma enqueue_save_ok:
  assumes "save_ok s" and "e_retries t = 0"
  shows "save_ok (enqueue_save t s)"
  using assms
  by (auto simp: save_ok_def enqueue_save_def Let_def map_of_dict_set count_of_set queue_of_def in_flight_def distinct_update
      split: option.splits if_splits)

lemma build_payload_same: "build_payload f q po s = (s', out) \<Longrightarrow> same_sends s s'"
  by (auto simp: build_payload_def same_sends_def split: prod.splits)

lemma send_chunk_save_ok:
  assumes "save_ok s"
  shows "save_ok (fst (send_chunk cfg process q po s))"
proof (cases "has_connector cfg \<and> is_data_transfer_rank cfg")
  case False
  with assms show ?thesis by (auto simp: send_chunk_def)
next
  case True
  define x where "x = resolve_external (Some q) (q_id q) s"
  define s1 where "s1 = (if q_id q \<noteq> [] \<and> q_id q \<noteq> x \<and> q_id q \<notin> fst ` set (ids_mapping s)
      then s\<lparr>ids_mapping := dict_set (q_id q) x (ids_mapping s)\<rparr> else s)"
  define s2 where "s2 = s1\<lparr>put_chunk := touch_count x (put_chunk s)\<rparr>"
  obtain s3 out where b: "(case process of None \<Rightarrow> (s2, None) | Some f \<Rightarrow> build_payload f (Some q) po s2) = (s3, out)" by fastforce
  have "same_sends s s2" by (simp add: s2_def s1_def same_sends_def)
  moreover have "same_sends s2 s3" using b build_payload_same by (auto split: option.splits)
  ultimately have s3: "save_ok s3" using same_sends_ok [OF same_sends_trans assms] by blast
  have "save_ok (s3\<lparr>put_chunk := d\<rparr>)" for d by (rule same_sends_ok [OF _ s3]) (simp add: same_sends_def)
  moreover have "send_chunk cfg process q po s = (case out of
       None \<Rightarrow> (s3, False)
     | Some p \<Rightarrow>
         (enqueue_save \<lparr>e_key = transfer_key x (run_stage cfg) (count_of x (put_chunk s)), e_data = p, e_request = x, e_retries = 0\<rparr>
            (s3\<lparr>put_chunk := dict_set x (Suc (count_of x (put_chunk s))) (put_chunk s3)\<rparr>), True))"
    using True b unfolding send_chunk_def Let_def x_def s1_def s2_def by simp
  ultimately show ?thesis using s3 by (simp add: enqueue_save_ok split: option.split)
qed

lemma send_full_payload_save_ok:
  assumes "save_ok s"
  shows "save_ok (fst (send_full_payload cfg process r raw q s))"
proof -
  obtain s1 out where b: "(case process of None \<Rightarrow> (s, Some raw) | Some f \<Rightarrow> build_payload f q (Some raw) s) = (s1, out)" by fastforce
  have "same_sends s s1" using b build_payload_same by (auto split: option.splits)
  then have s1: "save_ok s1" using same_sends_ok assms by blast
  have "save_ok (s1\<lparr>put_chunk := d\<rparr>)" for d by (rule same_sends_ok [OF _ s1]) (simp add: same_sends_def)
  with s1 b show ?thesis by (simp add: send_full_payload_def Let_def enqueue_save_ok split: option.split)
qed

lemma send_full_payload_outputs_save_ok:
  assumes "save_ok s"
  shows "save_ok (fst (send_full_payload_outputs cfg process outs s))"
proof -
  have "save_ok (fst (send_full_payloads cfg process outs s))" using assms
  proof (induction cfg process outs s rule: send_full_payloads.induct)
    case (2 cfg process r raw q rest s)
    obtain s1 sent where b: "send_full_payload cfg process r raw q s = (s1, sent)" by fastforce
    have "save_ok s1" using send_full_payload_save_ok [OF 2(2), of cfg process r raw q] b by simp
    from 2(1) [OF b [symmetric] refl this] b show ?case by (simp add: case_prod_beta)
  qed simp
  with assms show ?thesis by (simp add: send_full_payload_outputs_def)
qed

lemma flush_save_ok: "save_ok s \<Longrightarrow> save_ok (flush_full_payload_outputs cfg process ids s)"
  unfolding flush_full_payload_outputs_def Let_def
  by (auto intro!: send_full_payload_outputs_save_ok) (auto simp: save_ok_def queue_of_def in_flight_def)

lemma first_save_nonempty:
  assumes "\<And>ts. ts \<in> snd ` set d \<Longrightarrow> ts \<noteq> []"
  shows "first_save d = (case d of [] \<Rightarrow> (None, []) | (r, ts) # rest \<Rightarrow> (Some (hd ts), if tl ts = [] then rest else (r, tl ts) # rest))"
  using assms by (cases d rule: first_save.cases) auto

lemma save_take_ok:
  assumes "save_ok s"
  shows "save_ok (save_take s)"
proof (cases "saving s = None \<and> pending_saves s \<noteq> []")
  case False
  then have "same_sends s (save_take s)" by (cases "saving s") (auto simp: save_take_def same_sends_def)
  with assms show ?thesis by (rule same_sends_ok [rotated])
next
  case True
  then obtain r ts rest where p: "pending_saves s = (r, ts) # rest" by (cases "pending_saves s") auto
  have rest: "map_of rest r = None" using save_okD(1) [OF assms] by (simp add: p map_of_eq_None_iff)
  have ts: "ts \<noteq> []" "\<And>t. t \<in> set ts \<Longrightarrow> e_request t = r \<and> e_retries t \<le> max_send_retries"
    using save_okD(2-4) [OF assms, of r ts] by (simp_all add: p)
  have ne: "us \<noteq> []" if "us \<in> snd ` set (pending_saves s)" for us
    using that save_okD(2) [OF assms] map_of_is_SomeI [OF save_okD(1) [OF assms]] by force
  obtain t ts' where t: "ts = t # ts'" using ts(1) by (cases ts) auto
  have st: "save_take s = s\<lparr>pending_saves := (if ts' = [] then rest else (r, ts') # rest), saving := Some t\<rparr>"
    using True first_save_nonempty [of "pending_saves s", OF ne] by (simp add: save_take_def p t)
  have q: "queue_of k (save_take s) = (if k = r then ts' else queue_of k s)" for k
    using rest by (auto simp: queue_of_def st p t)
  have f: "in_flight k (save_take s) = (if k = r then 1 else 0)" for k
    using ts(2) [of t] by (simp add: in_flight_def st t)
  have f0: "in_flight k s = 0" for k using True by (simp add: in_flight_def)
  have l: "length (queue_of k s) + in_flight k s = length (queue_of k (save_take s)) + in_flight k (save_take s)" for k
    by (simp add: q f f0) (simp add: queue_of_def p t)
  have m: "us \<noteq> [] \<and> (\<forall>t \<in> set us. e_request t = k \<and> e_retries t \<le> max_send_retries)"
    if "map_of (pending_saves (save_take s)) k = Some us" for k us
  proof (cases "k = r")
    case False
    with that have "map_of (pending_saves s) k = Some us" by (simp add: st p split: if_splits)
    then show ?thesis by (rule save_ok_queue [OF assms])
  next
    case True
    with that rest have "us = ts'" "ts' \<noteq> []" by (auto simp: st split: if_splits)
    with True ts(2) t show ?thesis by simp
  qed
  show ?thesis
  proof (rule save_okI)
    show "distinct (map fst (pending_saves (save_take s)))" using save_okD(1) [OF assms] by (simp add: st p)
    show "e_retries u \<le> max_send_retries" if "saving (save_take s) = Some u" for u using that ts(2) [of t] by (simp add: st t)
    show "count_of k (save_counts (save_take s)) = length (queue_of k (save_take s)) + in_flight k (save_take s)" for k
      unfolding l [symmetric] save_okD(6) [OF assms, symmetric] by (simp add: st)
    show "0 < length (queue_of k (save_take s)) + in_flight k (save_take s)" if "k \<in> deferred_cleanup (save_take s)" for k
      unfolding l [symmetric] by (rule save_okD(7) [OF assms]) (use that in \<open>simp add: st\<close>)
  qed (rule m)
qed

text \<open>The task in flight is done with, or goes back to the head of its queue.\<close>

lemma settle_ok:
  assumes "save_ok s" and "saving s = Some t"
  shows "save_ok (decrement_save_count (e_request t) (s\<lparr>saving := None\<rparr>))"
proof -
  let ?r = "e_request t" and ?s = "s\<lparr>saving := None\<rparr>"
  have q: "queue_of k ?s = queue_of k s" "in_flight k ?s = 0" "in_flight k s = (if k = ?r then 1 else 0)" for k
    using assms(2) by (auto simp: queue_of_def in_flight_def)
  have n: "count_of k (save_counts s) = length (queue_of k s) + (if k = ?r then 1 else 0)" for k
    using save_okD(6) [OF assms(1), of k] q(3) by simp
  have d: "0 < length (queue_of k s)" if "k \<in> deferred_cleanup s" "k \<noteq> ?r" for k
    using save_okD(7) [OF assms(1) that(1)] that(2) q(3) by simp
  have upd: "save_ok (?s\<lparr>save_counts := cs, deferred_cleanup := D\<rparr>)"
    if "\<And>k. count_of k cs = length (queue_of k s)" "\<And>k. k \<in> D \<Longrightarrow> 0 < length (queue_of k s)" for cs D
    using save_okD(1-4) [OF assms(1)] that
    by (simp add: save_ok_def queue_of_def in_flight_def)
  show ?thesis
  proof (cases "queue_of ?r s = []")
    case True
    then have n1: "count_of ?r (save_counts s) = 1" using n by simp
    have cs: "count_of k (dict_pop ?r (save_counts s)) = length (queue_of k s)" for k
      using True n by (simp add: count_of_pop)
    have "save_ok (?s\<lparr>save_counts := dict_pop ?r (save_counts s), deferred_cleanup := deferred_cleanup s - {?r}\<rparr>)"
      by (rule upd) (use cs d in auto)
    moreover have "save_ok (?s\<lparr>save_counts := dict_pop ?r (save_counts s), deferred_cleanup := deferred_cleanup s\<rparr>)" if "?r \<notin> deferred_cleanup s"
      by (rule upd) (use cs d that in auto)
    ultimately show ?thesis
      using n1 same_sends_ok [OF drop_send_state_same] by (simp add: decrement_save_count_def Let_def)
  next
    case False
    have "save_ok (?s\<lparr>save_counts := dict_set ?r (count_of ?r (save_counts s) - 1) (save_counts s), deferred_cleanup := deferred_cleanup s\<rparr>)"
      by (rule upd) (use n d False in \<open>auto simp: count_of_set\<close>)
    moreover have "1 < count_of ?r (save_counts s)" using n [of ?r] False by (cases "queue_of ?r s") auto
    ultimately show ?thesis by (simp add: decrement_save_count_def Let_def)
  qed
qed

lemma requeue_ok:
  assumes "save_ok s" and "saving s = Some t"
  shows "save_ok (requeue_or_drop t (s\<lparr>saving := None\<rparr>))"
proof (cases "e_retries t + 1 \<le> max_send_retries")
  case False
  with settle_ok [OF assms] show ?thesis by (simp add: requeue_or_drop_def)
next
  case True
  let ?r = "e_request t" and ?t = "t\<lparr>e_retries := e_retries t + 1\<rparr>"
  let ?s' = "requeue_or_drop t (s\<lparr>saving := None\<rparr>)"
  have p: "pending_saves ?s' = dict_set ?r (?t # queue_of ?r s) (pending_saves s)" "saving ?s' = None"
    "save_counts ?s' = save_counts s" "deferred_cleanup ?s' = deferred_cleanup s"
    using True by (simp_all add: requeue_or_drop_def queue_of_def Let_def)
  have q: "queue_of k ?s' = (if k = ?r then ?t # queue_of ?r s else queue_of k s)" for k
    by (simp add: queue_of_def [of _ ?s'] p(1) map_of_dict_set) (simp add: queue_of_def)
  have f: "in_flight k ?s' = 0" "in_flight k s = (if k = ?r then 1 else 0)" for k using assms(2) p(2) by (auto simp: in_flight_def)
  have l: "length (queue_of k ?s') + in_flight k ?s' = length (queue_of k s) + in_flight k s" for k by (simp add: q f)
  have old: "e_request u = ?r \<and> e_retries u \<le> max_send_retries" if "u \<in> set (queue_of ?r s)" for u
    using that save_okD(3,4) [OF assms(1), of ?r] by (cases "map_of (pending_saves s) ?r") (auto simp: queue_of_def)
  have m: "us \<noteq> [] \<and> (\<forall>t \<in> set us. e_request t = k \<and> e_retries t \<le> max_send_retries)"
    if "map_of (pending_saves ?s') k = Some us" for k us
  proof (cases "k = ?r")
    case False
    with that have "map_of (pending_saves s) k = Some us" by (simp add: p(1) map_of_dict_set)
    then show ?thesis by (rule save_ok_queue [OF assms(1)])
  next
    case k: True
    with that have "us = ?t # queue_of ?r s" by (simp add: p(1) map_of_dict_set)
    with k old True show ?thesis by simp
  qed
  show ?thesis
  proof (rule save_okI)
    show "distinct (map fst (pending_saves ?s'))" using save_okD(1) [OF assms(1)] by (simp add: p distinct_update)
    show "e_retries u \<le> max_send_retries" if "saving ?s' = Some u" for u using that p(2) by simp
    show "count_of k (save_counts ?s') = length (queue_of k ?s') + in_flight k ?s'" for k
      unfolding l p(3) by (rule save_okD(6) [OF assms(1)])
    show "0 < length (queue_of k ?s') + in_flight k ?s'" if "k \<in> deferred_cleanup ?s'" for k
      unfolding l by (rule save_okD(7) [OF assms(1)]) (use that p(4) in simp)
  qed (rule m)
qed

lemma save_put_ok:
  assumes "save_ok s"
  shows "save_ok (fst (save_put put (s, c)))"
proof (cases "saving s")
  case None
  with assms show ?thesis by (simp add: save_put_def)
next
  case (Some t)
  with settle_ok [OF assms Some] requeue_ok [OF assms Some] show ?thesis by (simp add: save_put_def Let_def split: prod.split)
qed

lemma receiving_same_sends:
  "same_sends s (register_chunk_recv cfg q s)" "same_sends s (recv_snapshot s)" "same_sends s (fst (recv_chunk s))"
  "same_sends s (drop_inactive_request r s)" "same_sends s (accumulate_full_payload_output r po q s)"
  "same_sends s (mark_kv_transfer r tr s)" "same_sends s (fst (drain_pending_kv_transfers s))" "same_sends s (ack_kv_transfers ids s)"
  "same_sends s (fst (drain_completed_kv_transfers s))" "same_sends s (send_kv_cache ids s)"
  by (auto simp: same_sends_def register_chunk_recv_def recv_snapshot_def recv_chunk_def drop_inactive_request_def clear_recv_state_def
      accumulate_full_payload_output_def mark_kv_transfer_def drain_pending_kv_transfers_def ack_kv_transfers_def
      drain_completed_kv_transfers_def send_kv_cache_def Let_def split: option.split)

lemma recv_get_same_sends: "same_sends s (fst (recv_get cfg get (s, c)))"
  by (auto simp: same_sends_def recv_get_def Let_def split: option.split list.split prod.split)

lemma recv_put_same_sends: "same_sends s (fst (recv_put cfg s))"
  by (auto simp: same_sends_def recv_put_def publish_chunk_def Let_def split: option.split sum.split)

lemma recv_full_same_sends: "same_sends s (fst (recv_full_payload_inputs cfg sent s))"
  by (auto simp: same_sends_def recv_full_payload_inputs_def collect_full_payloads_def publish_full_payloads_def apply_staged_def Let_def
      split: option.split)

lemma output_same_sends: "same_sends s (fst (get_omni_connector_output cfg sent s))"
  by (auto simp: same_sends_def get_omni_connector_output_def finish_output_def release_streams_def collect_fanout_def apply_fanout_def
      apply_staged_def Let_def split: option.split)

lemma runner_step_save_ok:
  assumes "save_ok s"
  shows "save_ok (fst (runner_step cfg tr e (s, c)))"
proof -
  have same: "save_ok s'" if "same_sends s s'" for s' by (rule same_sends_ok [OF that assms])
  note untouched = receiving_same_sends [THEN same] recv_get_same_sends [THEN same] recv_put_same_sends [THEN same]
    recv_full_same_sends [THEN same] output_same_sends [THEN same]
  have "save_ok (s\<lparr>stage_cache := d\<rparr>)" for d by (rule same) (simp add: same_sends_def)
  then show ?thesis
    by (cases e) (simp_all add: runner_step_def untouched assms send_chunk_save_ok flush_save_ok send_full_payload_outputs_save_ok
        save_take_ok save_put_ok cleanup_save_ok prune_save_ok)
qed

lemma runner_run_save_ok: "save_ok (fst sc) \<Longrightarrow> save_ok (fst (runner_run cfg tr es sc))"
proof (induction es arbitrary: sc)
  case (Cons e es)
  have "save_ok (fst (runner_step cfg tr e sc))" using runner_step_save_ok [OF Cons.prems, of cfg tr e "snd sc"] by simp
  from Cons.IH [OF this] show ?case by (simp add: runner_run_def)
qed (simp add: runner_run_def)

section \<open>Sending comes to an end\<close>

definition tries_left :: "save_entry \<Rightarrow> nat" where
  "tries_left t = Suc max_send_retries - e_retries t"

definition queue_work :: "save_entry list \<Rightarrow> nat" where
  "queue_work ts = sum_list (map tries_left ts)"

definition save_work :: "runner \<Rightarrow> nat" where
  "save_work s = sum_list (map (\<lambda>(r, ts). queue_work ts) (pending_saves s)) + (case saving s of Some t \<Rightarrow> tries_left t | None \<Rightarrow> 0)"

text \<open>One turn of the sending thread.\<close>

definition save_round :: "(string \<Rightarrow> rpayload \<Rightarrow> 'c \<Rightarrow> 'c \<times> bool) \<Rightarrow> runner \<times> 'c \<Rightarrow> runner \<times> 'c" where
  "save_round put sc = save_put put (save_take (fst sc), snd sc)"

lemma work_dict_set:
  "distinct (map fst d) \<Longrightarrow>
     sum_list (map (\<lambda>(r, ts). queue_work ts) (dict_set k v d)) + (case map_of d k of None \<Rightarrow> 0 | Some w \<Rightarrow> queue_work w)
       = sum_list (map (\<lambda>(r, ts). queue_work ts) d) + queue_work v"
  by (induction d) (auto simp: map_of_eq_None_iff split: option.splits)

lemma save_take_work:
  assumes "save_ok s"
  shows "save_work (save_take s) = save_work s" and "saving (save_take s) = None \<Longrightarrow> pending_saves s = []"
proof -
  have ne: "us \<noteq> []" if "us \<in> snd ` set (pending_saves s)" for us
    using that save_okD(2) [OF assms] map_of_is_SomeI [OF save_okD(1) [OF assms]] by force
  note fs = first_save_nonempty [of "pending_saves s", OF ne]
  have "ts \<noteq> []" if "pending_saves s = (r, ts) # rest" for r ts rest using ne that by simp
  then show "save_work (save_take s) = save_work s" and "saving (save_take s) = None \<Longrightarrow> pending_saves s = []"
    by (cases "saving s"; cases "pending_saves s"; auto simp: save_take_def save_work_def fs queue_work_def neq_Nil_conv)+
qed

lemma decrement_fields:
  "pending_saves (decrement_save_count r s) = pending_saves s" "saving (decrement_save_count r s) = saving s"
  by (simp_all add: decrement_save_count_def drop_send_state_def Let_def)

lemma save_put_work:
  assumes "save_ok s" and "saving s = Some t"
  shows "save_work (fst (save_put put (s, c))) < save_work s" and "saving (fst (save_put put (s, c))) = None"
proof -
  obtain c1 success where p: "put (e_key t) (e_data t) c = (c1, success)" by fastforce
  have t: "0 < tries_left t" using save_okD(5) [OF assms] by (simp add: tries_left_def)
  have "save_work (requeue_or_drop t (s\<lparr>saving := None\<rparr>)) < save_work s"
  proof (cases "e_retries t + 1 \<le> max_send_retries")
    case False
    with assms(2) t show ?thesis by (simp add: requeue_or_drop_def save_work_def decrement_fields)
  next
    case True
    have "queue_work (t\<lparr>e_retries := e_retries t + 1\<rparr> # queue_of (e_request t) s)
        < tries_left t + (case map_of (pending_saves s) (e_request t) of None \<Rightarrow> 0 | Some w \<Rightarrow> queue_work w)"
      using True by (auto simp: queue_work_def queue_of_def tries_left_def split: option.split)
    with work_dict_set [OF save_okD(1) [OF assms(1)], of "e_request t" "t\<lparr>e_retries := e_retries t + 1\<rparr> # queue_of (e_request t) s"]
    have "sum_list (map (\<lambda>(r, ts). queue_work ts) (dict_set (e_request t) (t\<lparr>e_retries := e_retries t + 1\<rparr> # queue_of (e_request t) s) (pending_saves s)))
        < sum_list (map (\<lambda>(r, ts). queue_work ts) (pending_saves s)) + tries_left t" by linarith
    with True assms(2) show ?thesis by (simp add: requeue_or_drop_def save_work_def queue_of_def Let_def)
  qed
  then show "save_work (fst (save_put put (s, c))) < save_work s"
    using p t assms(2) by (simp add: save_put_def save_work_def decrement_fields Let_def)
  show "saving (fst (save_put put (s, c))) = None"
    using p assms(2) by (simp add: save_put_def requeue_or_drop_def decrement_fields Let_def)
qed

lemma save_round_work:
  assumes "save_ok (fst sc)"
  shows "save_ok (fst (save_round put sc))" and "save_work (fst (save_round put sc)) \<le> save_work (fst sc) - 1"
proof -
  have ok: "save_ok (save_take (fst sc))" by (rule save_take_ok [OF assms])
  then show "save_ok (fst (save_round put sc))" by (simp add: save_round_def save_put_ok)
  show "save_work (fst (save_round put sc)) \<le> save_work (fst sc) - 1"
  proof (cases "saving (save_take (fst sc))")
    case None
    then have "save_work (save_take (fst sc)) = 0"
      using save_take_work(2) [OF assms] by (cases "saving (fst sc)") (simp_all add: save_work_def save_take_def)
    with None show ?thesis by (simp add: save_round_def save_put_def)
  next
    case (Some t)
    from save_put_work(1) [OF ok Some, of put "snd sc"] save_take_work(1) [OF assms] show ?thesis by (simp add: save_round_def)
  qed
qed

text \<open>A cleanup that waits for the sends of a request is carried out with the last of them.\<close>

definition send_state_gone :: "string \<Rightarrow> runner \<Rightarrow> bool" where
  "send_state_gone r s \<longleftrightarrow> map_of (put_chunk s) r = None \<and> map_of (send_side_payload s) r = None \<and> r \<notin> code_prompts s"

lemma save_round_cleanup:
  assumes "r \<in> deferred_cleanup (fst sc) \<or> send_state_gone r (fst sc)"
  shows "r \<in> deferred_cleanup (fst (save_round put sc)) \<or> send_state_gone r (fst (save_round put sc))"
proof -
  have d: "r \<in> deferred_cleanup (decrement_save_count k s) \<or> send_state_gone r (decrement_save_count k s)"
    if "r \<in> deferred_cleanup s \<or> send_state_gone r s" for k s
    using that by (auto simp: decrement_save_count_def drop_send_state_def send_state_gone_def map_of_dict_pop Let_def)
  have t: "deferred_cleanup (save_take s) = deferred_cleanup s" "send_state_gone r (save_take s) = send_state_gone r s" for s
    by (auto simp: save_take_def send_state_gone_def split: prod.split)
  have u: "deferred_cleanup (s\<lparr>saving := None\<rparr>) = deferred_cleanup s" "send_state_gone r (s\<lparr>saving := None\<rparr>) = send_state_gone r s" for s
    by (simp_all add: send_state_gone_def)
  have q: "r \<in> deferred_cleanup (requeue_or_drop k s) \<or> send_state_gone r (requeue_or_drop k s)"
    if "r \<in> deferred_cleanup s \<or> send_state_gone r s" for k s
    using that d [OF that] by (simp add: requeue_or_drop_def Let_def) (simp add: send_state_gone_def)
  show ?thesis
    using assms d q by (simp add: save_round_def save_put_def Let_def t u split: option.split prod.split)
qed

lemma save_rounds:
  assumes "save_ok (fst sc)" and "save_work (fst sc) \<le> n"
  shows "save_ok (fst ((save_round put ^^ n) sc)) \<and> save_work (fst ((save_round put ^^ n) sc)) = 0
     \<and> (r \<in> deferred_cleanup (fst sc) \<or> send_state_gone r (fst sc) \<longrightarrow>
         r \<in> deferred_cleanup (fst ((save_round put ^^ n) sc)) \<or> send_state_gone r (fst ((save_round put ^^ n) sc)))"
  using assms
proof (induction n arbitrary: sc)
  case (Suc n)
  note w = save_round_work [OF Suc.prems(1), of put]
  have "save_work (fst (save_round put sc)) \<le> n" using w(2) Suc.prems(2) by linarith
  note ih = Suc.IH [OF w(1) this]
  have rounds: "(save_round put ^^ Suc n) sc = (save_round put ^^ n) (save_round put sc)" by (simp add: funpow_swap1)
  show ?case unfolding rounds using ih save_round_cleanup [of r sc put] by blast
qed simp

lemma no_work:
  assumes "save_ok s" and "save_work s = 0"
  shows "pending_saves s = []" and "saving s = None" and "count_of r (save_counts s) = 0" and "deferred_cleanup s = {}"
proof -
  show sv: "saving s = None"
    using assms(2) save_okD(5) [OF assms(1)] by (cases "saving s") (auto simp: save_work_def tries_left_def)
  have "ts = []" if "(k, ts) \<in> set (pending_saves s)" for k ts
  proof (rule ccontr)
    assume "ts \<noteq> []"
    then obtain t where t: "t \<in> set ts" by (cases ts) auto
    have "e_retries t \<le> max_send_retries"
      using save_okD(4) [OF assms(1) map_of_is_SomeI [OF save_okD(1) [OF assms(1)] that] t] .
    then have "tries_left t \<noteq> 0" by (simp add: tries_left_def)
    moreover have "tries_left t = 0" using assms(2) that t by (force simp: save_work_def queue_work_def)
    ultimately show False by simp
  qed
  moreover have "ts \<noteq> []" if "(k, ts) \<in> set (pending_saves s)" for k ts
    using save_okD(2) [OF assms(1) map_of_is_SomeI [OF save_okD(1) [OF assms(1)] that]] .
  ultimately show p: "pending_saves s = []" by (cases "pending_saves s") auto
  show "count_of r (save_counts s) = 0" for r using save_okD(6) [OF assms(1), of r] p sv by (simp add: queue_of_def in_flight_def)
  show "deferred_cleanup s = {}" using save_okD(7) [OF assms(1)] p sv by (auto simp: queue_of_def in_flight_def)
qed

text \<open>C16: Whatever callers, threads and connector do, the sending side of a runner accounts for its tasks: the count of a request is the number of its queued tasks and the one being sent, and its cleanup is put off only while there is such a task.\<close>

theorem sends_accounted:
  assumes "runner_run cfg tr es (runner_init, c) = (s, c')"
  shows "count_of r (save_counts s) = length (queue_of r s) + in_flight r s
     \<and> (if r \<in> deferred_cleanup s then queue_of r s \<noteq> [] \<or> in_flight r s \<noteq> 0 else True)"
proof -
  have "save_ok s" using runner_run_save_ok [of "(runner_init, c)" cfg tr es] runner_init_save_ok assms by simp
  from save_okD(6,7) [OF this, of r] show ?thesis by auto
qed

definition ex_runner_config :: runner_config where
  "ex_runner_config = \<lparr>run_stage = 1, next_stage = 2, has_connector = True, async_chunk = True, ar_mode = False, tp_world = 1, tp_rank = 0,
     kv_topology = \<lparr>source_tp_size = 1, target_tp_size = 1, local_rank = 0\<rparr>\<rparr>"

definition ex_transport :: "nat transport" where
  "ex_transport = \<lparr>t_put = (\<lambda>k p n. (Suc n, False)), t_get = (\<lambda>k n. (n, Some [(''codes'', RDict [(''audio'', RList [RInt 7])])])),
     t_process = None, t_ord = (\<lambda>_. [])\<rparr>"

definition ex_sending :: "runner_event list" where
  "ex_sending = [Ev_send_full [(''r'', [(''a'', RInt 1)], None)], Ev_save_take, Ev_cleanup ''r'']"

definition ex_sent :: runner where
  "ex_sent = fst (runner_run ex_runner_config ex_transport ex_sending (runner_init, 0))"

lemma ex_sent_fields:
  "saving ex_sent = Some \<lparr>e_key = ''r_1_0'', e_data = [(''a'', RInt 1)], e_request = ''r'', e_retries = 0\<rparr>"
  "pending_saves ex_sent = []" "deferred_cleanup ex_sent = {''r''}"
  "runner_run ex_runner_config ex_transport ex_sending (runner_init, 0) = (ex_sent, 0)"
proof -
  show "saving ex_sent = Some \<lparr>e_key = ''r_1_0'', e_data = [(''a'', RInt 1)], e_request = ''r'', e_retries = 0\<rparr>" by code_simp
  show "pending_saves ex_sent = []" by code_simp
  show "deferred_cleanup ex_sent = {''r''}" by code_simp
  have "snd (runner_run ex_runner_config ex_transport ex_sending (runner_init, 0)) = 0" by code_simp
  then show "runner_run ex_runner_config ex_transport ex_sending (runner_init, 0) = (ex_sent, 0)"
    unfolding ex_sent_def by (metis prod.collapse)
qed

theorem sends_accounted_witness:
  "count_of ''r'' (save_counts ex_sent) = length (queue_of ''r'' ex_sent) + in_flight ''r'' ex_sent \<and> in_flight ''r'' ex_sent = 1"
  using sends_accounted [OF ex_sent_fields(4), of "''r''"] by (simp add: in_flight_def ex_sent_fields)

text \<open>C37: Sending comes to an end whatever the connector answers: with four tries for every task, as many turns of the sending thread as there are tries left empty all queues, bring every count to zero, and carry out every cleanup that was put off.\<close>

theorem sending_ends:
  assumes "runner_run cfg tr es (runner_init, c) = (s, c')" and "save_work s \<le> n" and "(save_round put ^^ n) (s, d) = (s', d')"
  shows "pending_saves s' = [] \<and> saving s' = None \<and> count_of r (save_counts s') = 0 \<and> deferred_cleanup s' = {}
     \<and> (if r \<in> deferred_cleanup s then send_state_gone r s' else True)"
proof -
  have ok: "save_ok (fst (s, d))" using runner_run_save_ok [of "(runner_init, c)" cfg tr es] runner_init_save_ok assms(1) by simp
  from save_rounds [OF ok, of n put r] assms(2,3) have e: "save_ok s'" "save_work s' = 0"
    "r \<in> deferred_cleanup s \<Longrightarrow> r \<in> deferred_cleanup s' \<or> send_state_gone r s'" by auto
  with no_work [OF e(1,2)] show ?thesis by auto
qed

theorem sending_ends_witness:
  "\<exists>s' d'. (save_round (\<lambda>k p n. (Suc n, False)) ^^ 4) (ex_sent, 0 :: nat) = (s', d') \<and> pending_saves s' = [] \<and> saving s' = None
     \<and> send_state_gone ''r'' s'"
proof -
  obtain s' d' where s: "(save_round (\<lambda>k p n. (Suc n, False)) ^^ 4) (ex_sent, 0 :: nat) = (s', d')" by fastforce
  have "save_work ex_sent \<le> 4"
    by (simp add: save_work_def ex_sent_fields tries_left_def max_send_retries_def)
  from sending_ends [OF ex_sent_fields(4) this s, of "''r''"] s show ?thesis by (simp add: ex_sent_fields)
qed

text \<open>A task that is given up leaves a gap: its number stays used, and the receiver waits for it.\<close>

lemma failed_chunk_leaves_a_gap:
  assumes "saving s = Some t" and "e_retries t = max_send_retries" and "put (e_key t) (e_data t) c = (c', False)"
  shows "fst (save_put put (s, c)) = decrement_save_count (e_request t) (s\<lparr>saving := None\<rparr>)"
  using assms by (simp add: save_put_def requeue_or_drop_def)

text \<open>
  The chunks of a full payload are counted under the internal id, but the cleanup looks for the external
  one: it neither waits for the send nor ever removes the count.
\<close>

lemma full_payload_count_stays:
  assumes "map_of (ids_mapping s) r = Some x" and "x \<noteq> r"
  shows "map_of (put_chunk (cleanup_finished_request r s)) r = map_of (put_chunk s) r"
  using assms
  by (simp add: cleanup_finished_request_def Let_def mapped_id_def clear_recv_state_def drop_kv_state_def drop_send_state_def map_of_dict_pop)

text \<open>A transfer can be marked again as soon as it was handed out; the set of triggered requests is not asked.\<close>

lemma marked_again_after_drain:
  "fst ` set (kv_pending (mark_kv_transfer r tr (fst (drain_pending_kv_transfers s)))) = {r}"
  by (simp add: mark_kv_transfer_def drain_pending_kv_transfers_def)

section \<open>The receiving side\<close>

text \<open>What can take the payload of a request away.\<close>

definition removes :: "string \<Rightarrow> runner_event \<Rightarrow> bool" where
  "removes r e \<longleftrightarrow> (case e of Ev_cleanup k \<Rightarrow> k = r | Ev_drop k \<Rightarrow> k = r | Ev_pop_payload k \<Rightarrow> k = r | Ev_prune ids \<Rightarrow> True | _ \<Rightarrow> False)"

text \<open>Nothing new in the receiving state, and nothing lost of the request \<open>r\<close>.\<close>

definition fewer :: "runner \<Rightarrow> runner \<Rightarrow> bool" where
  "fewer s s' \<longleftrightarrow> polling s' = polling s \<and> pending_broadcast s' \<subseteq> pending_broadcast s
     \<and> (\<forall>k p. map_of (stage_cache s') k = Some p \<longrightarrow> map_of (stage_cache s) k = Some p)
     \<and> fst ` set (request_metadata s') \<subseteq> fst ` set (request_metadata s) \<and> finished_loads s' \<subseteq> finished_loads s"

definition keeps_payload :: "string \<Rightarrow> runner \<Rightarrow> runner \<Rightarrow> bool" where
  "keeps_payload r s s' \<longleftrightarrow> map_of (stage_cache s') r = map_of (stage_cache s) r"

definition same_recv :: "runner \<Rightarrow> runner \<Rightarrow> bool" where
  "same_recv s s' \<longleftrightarrow> polling s' = polling s \<and> pending_broadcast s' = pending_broadcast s \<and> stage_cache s' = stage_cache s
     \<and> request_metadata s' = request_metadata s \<and> finished_loads s' = finished_loads s \<and> chunk_finished s' = chunk_finished s"

lemma same_recv_refl [simp]: "same_recv s s"
  by (simp add: same_recv_def)

lemma same_recv_trans: "same_recv s t \<Longrightarrow> same_recv t u \<Longrightarrow> same_recv s u"
  by (simp add: same_recv_def)

lemma same_recv_fewer: "same_recv s s' \<Longrightarrow> fewer s s'"
  by (simp add: same_recv_def fewer_def)

lemma fewer_trans: "fewer s t \<Longrightarrow> fewer t u \<Longrightarrow> fewer s u"
  unfolding fewer_def by (elim conjE, intro conjI) (simp, erule (1) subset_trans, simp, (erule (1) subset_trans)+)

lemma decrement_same_recv: "same_recv s (decrement_save_count r s)"
  by (simp add: same_recv_def decrement_save_count_def drop_send_state_def Let_def)

lemma sending_same_recv:
  "same_recv s (save_take s)" "same_recv s (enqueue_save t s)" "same_recv s (fst (save_put put (s, c)))"
  "same_recv s (requeue_or_drop t s)"
proof -
  show "same_recv s (save_take s)" "same_recv s (enqueue_save t s)"
    by (auto simp: same_recv_def save_take_def enqueue_save_def Let_def split: prod.split)
  have q: "same_recv s (requeue_or_drop t s)" for t s
    using decrement_same_recv [of s "e_request t"] by (simp add: requeue_or_drop_def Let_def) (simp add: same_recv_def)
  then show "same_recv s (requeue_or_drop t s)" .
  show "same_recv s (fst (save_put put (s, c)))"
    using q decrement_same_recv by (auto simp: save_put_def same_recv_def Let_def split: option.split prod.split)
qed

lemma build_same_recv: "build_payload f q po s = (s', out) \<Longrightarrow> same_recv s s'"
  by (auto simp: build_payload_def same_recv_def split: prod.splits)

lemma send_chunk_same_recv: "same_recv s (fst (send_chunk cfg process q po s))"
proof -
  define s2 where "s2 = (if q_id q \<noteq> [] \<and> q_id q \<noteq> resolve_external (Some q) (q_id q) s \<and> q_id q \<notin> fst ` set (ids_mapping s)
      then s\<lparr>ids_mapping := dict_set (q_id q) (resolve_external (Some q) (q_id q) s) (ids_mapping s)\<rparr> else s)
    \<lparr>put_chunk := touch_count (resolve_external (Some q) (q_id q) s) (put_chunk s)\<rparr>"
  obtain s3 out where b: "(case process of None \<Rightarrow> (s2, None) | Some f \<Rightarrow> build_payload f (Some q) po s2) = (s3, out)" by fastforce
  have "same_recv s s2" by (simp add: s2_def same_recv_def)
  moreover have "same_recv s2 s3" using b build_same_recv by (auto split: option.splits)
  ultimately have s3: "same_recv s s3" by (rule same_recv_trans)
  have e: "same_recv s (enqueue_save t (s3\<lparr>put_chunk := d\<rparr>))" for t d
    using same_recv_trans [OF s3, of "s3\<lparr>put_chunk := d\<rparr>"] sending_same_recv(2) [of "s3\<lparr>put_chunk := d\<rparr>" t]
    by (simp add: same_recv_def)
  show ?thesis
    using s3 e b unfolding send_chunk_def Let_def s2_def [symmetric] by (simp split: option.split)
qed

lemma send_full_payload_same_recv: "same_recv s (fst (send_full_payload cfg process r raw q s))"
proof -
  obtain s1 out where b: "(case process of None \<Rightarrow> (s, Some raw) | Some f \<Rightarrow> build_payload f q (Some raw) s) = (s1, out)" by fastforce
  have s1: "same_recv s s1" using b build_same_recv by (auto split: option.splits)
  have e: "same_recv s (enqueue_save t (s1\<lparr>put_chunk := d\<rparr>))" for t d
    using s1 sending_same_recv(2) [of "s1\<lparr>put_chunk := d\<rparr>" t] by (simp add: same_recv_def)
  show ?thesis using s1 e b by (simp add: send_full_payload_def Let_def split: option.split)
qed

lemma send_full_outputs_same_recv: "same_recv s (fst (send_full_payload_outputs cfg process outs s))"
proof -
  have "same_recv s (fst (send_full_payloads cfg process outs s))"
  proof (induction cfg process outs s rule: send_full_payloads.induct)
    case (2 cfg process r raw q rest s)
    obtain s1 sent where b: "send_full_payload cfg process r raw q s = (s1, sent)" by fastforce
    have "same_recv s s1" using send_full_payload_same_recv [of s cfg process r raw q] b by simp
    with 2(1) [OF b [symmetric] refl] b show ?case by (simp add: case_prod_beta same_recv_trans)
  qed simp
  then show ?thesis by (simp add: send_full_payload_outputs_def)
qed

lemma flush_same_recv: "same_recv s (flush_full_payload_outputs cfg process ids s)"
proof -
  have "same_recv s (s\<lparr>full_payload_sends := d\<rparr>)" for d by (simp add: same_recv_def)
  then show ?thesis
    unfolding flush_full_payload_outputs_def Let_def using same_recv_trans [OF _ send_full_outputs_same_recv] by simp
qed

lemma other_same_recv:
  "same_recv s (register_chunk_recv cfg q s)" "same_recv s (recv_snapshot s)" "same_recv s (fst (recv_chunk s))"
  "same_recv s (accumulate_full_payload_output r po q s)" "same_recv s (mark_kv_transfer r tr s)"
  "same_recv s (fst (drain_pending_kv_transfers s))" "same_recv s (ack_kv_transfers ids s)"
  "same_recv s (fst (drain_completed_kv_transfers s))" "same_recv s (send_kv_cache ids s)"
  by (auto simp: same_recv_def register_chunk_recv_def recv_snapshot_def recv_chunk_def accumulate_full_payload_output_def
      mark_kv_transfer_def drain_pending_kv_transfers_def ack_kv_transfers_def drain_completed_kv_transfers_def send_kv_cache_def Let_def
      split: option.split)

lemma keys_dict_pop: "fst ` set (dict_pop k d) = fst ` set d - {k}"
  by (induction d) auto

lemma cleanup_recv:
  "map_of (stage_cache (cleanup_finished_request k s)) r = (if k = r then None else map_of (stage_cache s) r)"
  "finished_loads (cleanup_finished_request k s) = finished_loads s - {k}" "polling (cleanup_finished_request k s) = polling s"
  "pending_broadcast (cleanup_finished_request k s) = pending_broadcast s - {k}"
  "chunk_finished (cleanup_finished_request k s) = chunk_finished s - {k}"
  "fst ` set (request_metadata (cleanup_finished_request k s)) = fst ` set (request_metadata s) - {k}"
  by (simp_all add: cleanup_finished_request_def clear_recv_state_def drop_kv_state_def drop_send_state_def map_of_dict_pop
      keys_dict_pop Let_def)

lemma cleanup_fewer: "fewer s (cleanup_finished_request k s)"
  by (auto simp: fewer_def cleanup_recv split: if_splits)

lemma prune_fewer: "fewer s (fst (prune_inactive_requests ord active s))"
proof -
  have "fewer s (fold cleanup_finished_request rs s)" for rs s
    by (induction rs arbitrary: s) (auto intro: fewer_trans cleanup_fewer simp: same_recv_fewer)
  then show ?thesis by (simp add: prune_inactive_requests_def Let_def)
qed

lemma drop_inactive_recv:
  "map_of (stage_cache (drop_inactive_request k s)) r = (if k = r then None else map_of (stage_cache s) r)"
  "finished_loads (drop_inactive_request k s) = finished_loads s - {k}" "polling (drop_inactive_request k s) = polling s"
  "pending_broadcast (drop_inactive_request k s) = pending_broadcast s - {k}"
  "chunk_finished (drop_inactive_request k s) = chunk_finished s - {k}"
  "fst ` set (request_metadata (drop_inactive_request k s)) = fst ` set (request_metadata s) - {k}"
  by (simp_all add: drop_inactive_request_def clear_recv_state_def map_of_dict_pop keys_dict_pop)

lemma output_recv:
  assumes "is_data_transfer_rank cfg"
  shows "fewer s (fst (get_omni_connector_output cfg sent s))"
    and "stage_cache (fst (get_omni_connector_output cfg sent s)) = stage_cache s"
    and "finished_loads (fst (get_omni_connector_output cfg sent s)) = {}"
  using assms
  by (auto simp: fewer_def get_omni_connector_output_def finish_output_def collect_fanout_def release_streams_def Let_def)

lemma recv_full_idle:
  assumes "is_data_transfer_rank cfg" and "pending_broadcast s = {}"
  shows "fst (recv_full_payload_inputs cfg sent s) = s"
  using assms by (simp add: recv_full_payload_inputs_def collect_full_payloads_def case_prod_beta split: if_splits)

lemma recv_get_fields:
  "same_recv s ((fst (recv_get cfg get (s, c)))\<lparr>polling := polling s\<rparr>)"
  by (auto simp: same_recv_def recv_get_def Let_def split: option.split list.split prod.split)

lemma recv_get_polling:
  "polling (fst (recv_get cfg get (s, c))) = Some (r, x, p) \<Longrightarrow> polling s = Some (r, x, p) \<or> \<not> must_delay cfg r s"
  by (auto simp: recv_get_def Let_def split: option.splits list.splits prod.splits if_splits)

definition generation_ok :: "runner_config \<Rightarrow> runner \<Rightarrow> bool" where
  "generation_ok cfg s \<longleftrightarrow> pending_broadcast s = {} \<and> (\<forall>r x p. polling s = Some (r, x, p) \<longrightarrow> \<not> must_delay cfg r s)"

lemma must_delay_fewer:
  assumes "fewer s s'" and "must_delay cfg r s'"
  shows "must_delay cfg r s"
proof -
  have c: "map_of (stage_cache s) r = Some p" if "map_of (stage_cache s') r = Some p" for p
    using assms(1) that by (simp add: fewer_def)
  have m: "r \<in> fst ` set (request_metadata s)" if "r \<in> fst ` set (request_metadata s')"
    using assms(1) that unfolding fewer_def by blast
  have f: "r \<in> finished_loads s" if "r \<in> finished_loads s'"
    using assms(1) that unfolding fewer_def by blast
  from assms(2) have mode: "async_chunk cfg" "\<not> ar_mode cfg" by (simp_all add: must_delay_def)
  from assms(2) consider p where "map_of (stage_cache s') r = Some p" "payload_is_consumable p"
    | "r \<in> fst ` set (request_metadata s')" | "r \<in> finished_loads s'"
    unfolding must_delay_def by (cases "map_of (stage_cache s') r") auto
  then show ?thesis
  proof cases
    case 1
    with mode c show ?thesis by (simp add: must_delay_def)
  next
    case 2
    with mode m show ?thesis by (simp add: must_delay_def)
  next
    case 3
    with mode f show ?thesis by (simp add: must_delay_def)
  qed
qed

lemma generation_ok_fewer:
  assumes "fewer s s'" and "generation_ok cfg s"
  shows "generation_ok cfg s'"
proof -
  have p: "polling s' = polling s" and "pending_broadcast s' \<subseteq> pending_broadcast s" using assms(1) by (simp_all add: fewer_def)
  with assms(2) have "pending_broadcast s' = {}" by (simp add: generation_ok_def)
  moreover have "\<not> must_delay cfg r s'" if "polling s' = Some (r, x, q)" for r x q
  proof -
    have "\<not> must_delay cfg r s" using assms(2) that p by (simp add: generation_ok_def)
    with must_delay_fewer [OF assms(1)] show ?thesis by blast
  qed
  ultimately show ?thesis by (simp add: generation_ok_def)
qed

lemma must_delay_same: "same_recv s s' \<Longrightarrow> must_delay cfg r s' = must_delay cfg r s"
  by (simp add: same_recv_def must_delay_def)

lemma drop_inactive_fewer: "fewer s (drop_inactive_request k s)"
  by (auto simp: fewer_def drop_inactive_recv split: if_splits)

lemma pop_payload_fewer: "fewer s (s\<lparr>stage_cache := dict_pop k (stage_cache s)\<rparr>)"
  by (auto simp: fewer_def map_of_dict_pop split: if_splits)

lemma runner_step_recv:
  assumes "e \<noteq> Ev_get" and "e \<noteq> Ev_put" and "is_data_transfer_rank cfg" and "pending_broadcast s = {}"
  shows "fewer s (fst (runner_step cfg tr e (s, c)))"
  by (cases e) (use assms in \<open>simp_all add: runner_step_def other_same_recv [THEN same_recv_fewer] sending_same_recv [THEN same_recv_fewer]
      send_chunk_same_recv [THEN same_recv_fewer] send_full_outputs_same_recv [THEN same_recv_fewer] flush_same_recv [THEN same_recv_fewer]
      cleanup_fewer prune_fewer drop_inactive_fewer pop_payload_fewer output_recv recv_full_idle same_recv_fewer\<close>)

lemma runner_step_keeps_payload:
  assumes "e \<noteq> Ev_get" and "e \<noteq> Ev_put" and "is_data_transfer_rank cfg" and "pending_broadcast s = {}" and "\<not> removes r e"
  shows "map_of (stage_cache (fst (runner_step cfg tr e (s, c)))) r = map_of (stage_cache s) r"
proof -
  have same: "map_of (stage_cache s') r = map_of (stage_cache s) r" if "same_recv s s'" for s' using that by (simp add: same_recv_def)
  show ?thesis
    by (cases e) (use assms in \<open>simp_all add: runner_step_def other_same_recv [THEN same] sending_same_recv [THEN same]
      send_chunk_same_recv [THEN same] send_full_outputs_same_recv [THEN same] flush_same_recv [THEN same]
      cleanup_recv drop_inactive_recv map_of_dict_pop output_recv recv_full_idle removes_def\<close>)
qed

lemma generation_step:
  assumes "async_chunk cfg" and "is_data_transfer_rank cfg" and "generation_ok cfg s"
  shows "generation_ok cfg (fst (runner_step cfg tr e (s, c)))"
proof (cases "e = Ev_get \<or> e = Ev_put")
  case False
  have "pending_broadcast s = {}" using assms(3) by (simp add: generation_ok_def)
  with False assms show ?thesis by (intro generation_ok_fewer [OF runner_step_recv]) auto
next
  case True
  then consider "e = Ev_get" | "e = Ev_put" by blast
  then show ?thesis
  proof cases
    case 1
    let ?s = "fst (recv_get cfg (t_get tr) (s, c))"
    note f = recv_get_fields [of s cfg "t_get tr" c]
    have d: "must_delay cfg r ?s = must_delay cfg r s" for r
      using must_delay_same [OF f, of cfg r] by (simp add: must_delay_def)
    have "pending_broadcast ?s = {}" using f assms(3) by (simp add: same_recv_def generation_ok_def)
    with recv_get_polling [of cfg "t_get tr" s c] assms(3) d 1 show ?thesis
      by (auto simp: runner_step_def generation_ok_def)
  next
    case 2
    have "polling (fst (recv_put cfg s)) = None" by (auto simp: recv_put_def publish_chunk_def Let_def split: option.split sum.split)
    moreover have "pending_broadcast (fst (recv_put cfg s)) = {}"
      using assms(1,3) by (auto simp: recv_put_def publish_chunk_def generation_ok_def Let_def split: option.split sum.split)
    ultimately show ?thesis using 2 by (simp add: runner_step_def generation_ok_def)
  qed
qed

lemma generation_run:
  "async_chunk cfg \<Longrightarrow> is_data_transfer_rank cfg \<Longrightarrow> generation_ok cfg (fst sc) \<Longrightarrow> generation_ok cfg (fst (runner_run cfg tr es sc))"
proof (induction es arbitrary: sc)
  case (Cons e es)
  have "generation_ok cfg (fst (runner_step cfg tr e sc))" using generation_step [OF Cons.prems, of tr e "snd sc"] by simp
  from Cons.IH [OF Cons.prems(1,2) this] show ?case by (simp add: runner_run_def)
qed (simp add: runner_run_def)

text \<open>C36: In generation mode a chunk that can drive a step is not overwritten or merged with a later one: once it is in the cache of a runner that polls, no step changes it until the model takes it or the request is removed.\<close>

theorem generation_chunks_are_kept:
  assumes "async_chunk cfg" and "\<not> ar_mode cfg" and "is_data_transfer_rank cfg" and "runner_run cfg tr es (runner_init, c) = (s, c')"
    and "map_of (stage_cache s) r = Some p" and "payload_is_consumable p" and "\<not> removes r e"
  shows "map_of (stage_cache (fst (runner_step cfg tr e (s, c')))) r = Some p"
proof -
  have "generation_ok cfg runner_init" by (simp add: generation_ok_def runner_init_def)
  with generation_run [OF assms(1,3), of "(runner_init, c)" tr es] assms(4) have g: "generation_ok cfg s" by simp
  then have pb: "pending_broadcast s = {}" by (simp add: generation_ok_def)
  consider "e \<noteq> Ev_get" "e \<noteq> Ev_put" | "e = Ev_get" | "e = Ev_put" by blast
  then show ?thesis
  proof cases
    case 1
    from runner_step_keeps_payload [OF 1 assms(3) pb assms(7)] assms(5) show ?thesis by simp
  next
    case 2
    with recv_get_fields [of s cfg "t_get tr" c'] assms(5) show ?thesis by (simp add: runner_step_def same_recv_def)
  next
    case 3
    have "must_delay cfg r s" using assms(1,2,5,6) by (simp add: must_delay_def)
    with g have other: "k \<noteq> r" if "polling s = Some (k, x, q)" for k x q using that by (auto simp: generation_ok_def)
    show ?thesis
      using 3 assms(1,2,5) other
      by (auto simp: runner_step_def recv_put_def publish_chunk_def map_of_dict_set Let_def split: option.split sum.split)
  qed
qed

definition ex_receiving :: "runner_event list" where
  "ex_receiving = [Ev_register \<lparr>q_id = ''r'', q_external = None, q_finished = False\<rparr>, Ev_snapshot, Ev_get, Ev_put]"

definition ex_received :: runner where
  "ex_received = fst (runner_run ex_runner_config ex_transport ex_receiving (runner_init, 0))"

lemma ex_received_run: "runner_run ex_runner_config ex_transport ex_receiving (runner_init, 0) = (ex_received, 0)"
proof -
  have "snd (runner_run ex_runner_config ex_transport ex_receiving (runner_init, 0)) = 0" by code_simp
  then show ?thesis unfolding ex_received_def by (metis prod.collapse)
qed

theorem generation_chunks_are_kept_witness:
  "map_of (stage_cache (fst (runner_step ex_runner_config ex_transport (Ev_output None) (ex_received, 0)))) ''r''
     = Some [(''codes'', RDict [(''audio'', RList [RInt 7])])]"
proof (rule generation_chunks_are_kept [OF _ _ _ ex_received_run])
  show "map_of (stage_cache ex_received) ''r'' = Some [(''codes'', RDict [(''audio'', RList [RInt 7])])]" by code_simp
  show "payload_is_consumable [(''codes'', RDict [(''audio'', RList [RInt 7])])]" by code_simp
qed (simp_all add: ex_runner_config_def is_data_transfer_rank_def removes_def)


section \<open>No signal is lost\<close>

text \<open>The metadata the scheduler gets of a payload: which keys, and from where their values come.\<close>

definition wanted_metadata :: "rpayload \<Rightarrow> string \<Rightarrow> rval option" where
  "wanted_metadata q k =
     (if k = ''next_stage_prompt_len'' then map_of q k
      else if k = ''code_predictor_codes'' then (case payload_audio_codes q of RNone \<Rightarrow> None | v \<Rightarrow> Some v)
      else if k = ''left_context_size'' then (case map_of q ''meta'' of Some (RDict m) \<Rightarrow> map_of m k | _ \<Rightarrow> None)
      else None)"

lemma metadata_wanted: "map_of (extract_scheduling_metadata q) = wanted_metadata q"
proof
  fix k
  show "map_of (extract_scheduling_metadata q) k = wanted_metadata q k"
    by (simp add: extract_scheduling_metadata_def wanted_metadata_def as_dict_def split: option.split rval.split)
qed

text \<open>What takes a request out of the runner.\<close>

definition forgets :: "string \<Rightarrow> runner_event \<Rightarrow> bool" where
  "forgets r e \<longleftrightarrow> (case e of Ev_cleanup k \<Rightarrow> k = r | Ev_drop k \<Rightarrow> k = r | _ \<Rightarrow> False)"

text \<open>
  What the next report has to carry for a request: its arrival, the metadata of its payload, the end of its
  stream. The payload itself is in the cache, unless the model has taken it.
\<close>

definition signalled :: "string \<Rightarrow> bool \<Rightarrow> bool \<Rightarrow> runner \<Rightarrow> bool" where
  "signalled r fin taken s \<longleftrightarrow> r \<in> finished_loads s \<and> (fin \<longrightarrow> r \<in> chunk_finished s)
     \<and> (\<exists>q. map_of (request_metadata s) r = Some (extract_scheduling_metadata q)
          \<and> (map_of (stage_cache s) r = Some q \<or> taken \<and> map_of (stage_cache s) r = None))"

lemma signalled_same: "same_recv s s' \<Longrightarrow> signalled r fin taken s \<Longrightarrow> signalled r fin taken s'"
  by (simp add: same_recv_def signalled_def)

lemma publish_signals:
  assumes "signalled r fin taken t"
  shows "signalled r fin taken (publish_chunk k q consumable fin2 t)"
  using assms by (auto simp: publish_chunk_def signalled_def map_of_dict_set Let_def)

lemma recv_put_signals:
  assumes "async_chunk cfg" and "signalled r fin taken s"
  shows "signalled r fin taken (fst (recv_put cfg s))"
proof -
  have upd: "signalled r fin taken (s\<lparr>polling := None, get_chunk := d\<rparr>)"
    "signalled r fin taken (s\<lparr>polling := None, get_chunk := d, send_side_payload := b\<rparr>)" for d b
    using assms(2) by (simp_all add: signalled_def)
  show ?thesis
    using assms upd publish_signals by (simp add: recv_put_def Let_def split: option.split sum.split)
qed

text \<open>Full payloads are stored with their metadata.\<close>

lemma stored_with_metadata:
  assumes "\<exists>q. map_of m r = Some (f q) \<and> (map_of d r = Some q \<or> taken \<and> map_of d r = None)"
  shows "\<exists>q. map_of (foldl (\<lambda>d (r, p). dict_set r (f p) d) m res) r = Some (f q)
    \<and> (map_of (foldl (\<lambda>d (r, p). dict_set r p d) d res) r = Some q
       \<or> taken \<and> map_of (foldl (\<lambda>d (r, p). dict_set r p d) d res) r = None)"
  using assms
proof (induction res arbitrary: d m)
  case (Cons x res)
  obtain k p where x: "x = (k, p)" by fastforce
  have "\<exists>q. map_of (dict_set k (f p) m) r = Some (f q) \<and> (map_of (dict_set k p d) r = Some q \<or> taken \<and> map_of (dict_set k p d) r = None)"
    using Cons.prems by (auto simp: map_of_dict_set)
  from Cons.IH [OF this] show ?case by (simp add: x)
qed simp

lemma recv_full_signals:
  assumes "signalled r fin taken s"
  shows "signalled r fin taken (fst (recv_full_payload_inputs cfg sent s))"
proof -
  obtain s1 mine where m: "(if is_data_transfer_rank cfg then collect_full_payloads s else (s, None)) = (s1, mine)" by fastforce
  have "signalled r fin taken (fst (collect_full_payloads s))" using assms by (simp add: collect_full_payloads_def signalled_def Let_def)
  with m assms have s1: "signalled r fin taken s1" by (cases "is_data_transfer_rank cfg") auto
  have p: "signalled r fin taken (publish_full_payloads res s1)" for res
    using s1 stored_with_metadata [of "request_metadata s1" r extract_scheduling_metadata "stage_cache s1" taken res]
    by (simp add: signalled_def publish_full_payloads_def apply_staged_def Let_def)
  show ?thesis using s1 p m by (simp add: recv_full_payload_inputs_def Let_def split: option.split)
qed

lemma cleanup_signals:
  assumes "k \<noteq> r" and "signalled r fin taken s"
  shows "signalled r fin taken (cleanup_finished_request k s)" and "signalled r fin taken (drop_inactive_request k s)"
proof -
  have "map_of (request_metadata (cleanup_finished_request k s)) r = map_of (request_metadata s) r"
    "map_of (request_metadata (drop_inactive_request k s)) r = map_of (request_metadata s) r"
    using assms(1) by (simp_all add: cleanup_finished_request_def drop_inactive_request_def clear_recv_state_def drop_kv_state_def
        drop_send_state_def map_of_dict_pop Let_def)
  with assms show "signalled r fin taken (cleanup_finished_request k s)" "signalled r fin taken (drop_inactive_request k s)"
    by (simp_all add: signalled_def cleanup_recv drop_inactive_recv)
qed

text \<open>Pruning spares what is still to be reported.\<close>

lemma prune_signals:
  assumes "\<forall>A. set (ord A) \<subseteq> A" and "signalled r fin taken s"
  shows "signalled r fin taken (fst (prune_inactive_requests ord active s))"
proof -
  have each: "r \<notin> set ids \<Longrightarrow> signalled r fin taken (fold cleanup_finished_request ids s)" for ids
    using assms(2) by (induction ids arbitrary: s) (auto simp: cleanup_signals)
  have "r \<in> fst ` set (request_metadata s)" using assms(2) unfolding signalled_def by (metis map_of_eq_None_iff option.distinct(1))
  then have "r \<notin> known_ids s - (active \<union> protected_ids s)" by (simp add: protected_ids_def)
  with assms(1) have "r \<notin> set (ord (known_ids s - (active \<union> protected_ids s)))" by blast
  with each show ?thesis by (simp add: prune_inactive_requests_def Let_def)
qed

lemma signalled_step:
  assumes "async_chunk cfg" and "\<forall>A. set (t_ord tr A) \<subseteq> A" and "\<not> forgets r e" and "\<And>f. e \<noteq> Ev_output f"
    and "e = Ev_pop_payload r \<longrightarrow> taken" and "signalled r fin taken s"
  shows "signalled r fin taken (fst (runner_step cfg tr e (s, c)))"
proof -
  note same = signalled_same [OF _ assms(6)]
  have get: "signalled r fin taken (fst (recv_get cfg (t_get tr) (s, c)))"
    using same [OF recv_get_fields [of s cfg "t_get tr" c]] by (simp add: signalled_def)
  have pop: "signalled r fin taken (s\<lparr>stage_cache := dict_pop k (stage_cache s)\<rparr>)" if "k = r \<longrightarrow> taken" for k
    using assms(6) that by (auto simp: signalled_def map_of_dict_pop)
  show ?thesis
    by (cases e) (use assms in \<open>simp_all add: runner_step_def other_same_recv [THEN same] sending_same_recv [THEN same]
      send_chunk_same_recv [THEN same] send_full_outputs_same_recv [THEN same] flush_same_recv [THEN same]
      get pop cleanup_signals prune_signals recv_put_signals recv_full_signals forgets_def\<close>)
qed

lemma signalled_run:
  assumes "async_chunk cfg" and "\<forall>A. set (t_ord tr A) \<subseteq> A"
  shows "\<forall>e \<in> set es. \<not> forgets r e \<and> (\<forall>f. e \<noteq> Ev_output f) \<Longrightarrow> Ev_pop_payload r \<in> set es \<longrightarrow> taken
    \<Longrightarrow> signalled r fin taken (fst sc) \<Longrightarrow> signalled r fin taken (fst (runner_run cfg tr es sc))"
proof (induction es arbitrary: sc)
  case (Cons e es)
  have "signalled r fin taken (fst (runner_step cfg tr e sc))"
    using signalled_step [OF assms, of r e taken fin "fst sc" "snd sc"] Cons.prems by auto
  with Cons.IH Cons.prems show ?case by (simp add: runner_run_def)
qed (simp add: runner_run_def)

text \<open>What is stored of a chunk: the accumulated payload in autoregressive mode, the chunk itself otherwise.\<close>

definition chunk_payload :: "runner_config \<Rightarrow> runner \<Rightarrow> string \<Rightarrow> rpayload \<Rightarrow> rpayload" where
  "chunk_payload cfg s x p =
     (if ar_mode cfg then (case accumulate_payload (map_of (send_side_payload s) x) p of Inr m \<Rightarrow> m | Inl e \<Rightarrow> []) else p)"

lemma map_of_dict_merge: "distinct (map fst new) \<Longrightarrow> map_of (dict_merge old new) = map_of old ++ map_of new"
proof (induction new arbitrary: old)
  case (Cons x new)
  obtain k v where x: "x = (k, v)" by fastforce
  have m: "map_of (dict_set k v old) = (map_of old)(k \<mapsto> v)" by (simp add: map_of_dict_set fun_eq_iff)
  have "map_of new k = None" using Cons.prems x by (simp add: map_of_eq_None_iff)
  then have "((map_of old)(k \<mapsto> v)) ++ map_of new = map_of old ++ (map_of new)(k \<mapsto> v)"
    by (auto simp: fun_eq_iff map_add_def split: option.split)
  moreover have "map_of (dict_merge old (x # new)) = map_of (dict_set k v old) ++ map_of new"
    using Cons.IH [of "dict_set k v old"] Cons.prems x by (simp add: dict_merge_def)
  moreover have "map_of (x # new) = (map_of new)(k \<mapsto> v)" by (simp add: x)
  ultimately show ?case using m by metis
qed (simp add: dict_merge_def)

lemma arrival_signalled:
  assumes "async_chunk cfg" and "polling s = Some (r, x, p)" and "snd (recv_put cfg s) = Inr ()"
    and "payload_finished p \<or> payload_is_consumable p \<and> (ar_mode cfg \<or> rval_truthy (payload_audio_codes p) = Inr True)"
    and "distinct (map fst (chunk_payload cfg s x p))"
  shows "signalled r (payload_finished p) taken (fst (recv_put cfg s))"
    and "\<exists>q. map_of (stage_cache (fst (recv_put cfg s))) r = Some q
      \<and> map_of q = (case map_of (stage_cache s) r of None \<Rightarrow> Map.empty | Some old \<Rightarrow> map_of old) ++ map_of (chunk_payload cfg s x p)"
proof -
  define m where "m = chunk_payload cfg s x p"
  obtain t where put: "fst (recv_put cfg s) = publish_chunk r m (payload_is_consumable p) (payload_finished p) t"
    and t: "stage_cache t = stage_cache s"
  proof (cases "ar_mode cfg")
    case True
    with assms(1-3) that show ?thesis
      by (cases "accumulate_payload (map_of (send_side_payload s) x) p") (simp_all add: m_def chunk_payload_def recv_put_def Let_def)
  next
    case False
    with assms(1-4) that show ?thesis
      by (cases "rval_truthy (payload_audio_codes p)") (auto simp: m_def chunk_payload_def recv_put_def Let_def)
  qed
  show "signalled r (payload_finished p) taken (fst (recv_put cfg s))"
    using assms(4) unfolding put by (auto simp: publish_chunk_def signalled_def map_of_dict_set Let_def)
  show "\<exists>q. map_of (stage_cache (fst (recv_put cfg s))) r = Some q
      \<and> map_of q = (case map_of (stage_cache s) r of None \<Rightarrow> Map.empty | Some old \<Rightarrow> map_of old) ++ map_of (chunk_payload cfg s x p)"
    using assms(5) unfolding put m_def [symmetric]
    by (simp add: publish_chunk_def map_of_dict_set map_of_dict_merge t Let_def split: option.split)
qed

lemma report_carries_signals:
  assumes "is_data_transfer_rank cfg" and "signalled r fin taken s" and "get_omni_connector_output cfg sent s = (s', out)"
  shows "r \<in> out_chunk_ready out \<and> (if fin then r \<in> out_chunk_finished out else True) \<and> r \<notin> finished_loads s'
    \<and> (\<exists>md q. map_of (out_metadata out) r = Some md \<and> map_of md = wanted_metadata q
          \<and> (if taken then map_of (stage_cache s) r \<in> {None, Some q} else map_of (stage_cache s) r = Some q))"
proof -
  have ne: "finished_loads s \<noteq> {}" using assms(2) by (auto simp: signalled_def)
  have out: "out_chunk_ready out = chunk_ready s \<union> finished_loads s \<and> out_metadata out = request_metadata s
      \<and> out_chunk_finished out = chunk_finished s \<and> finished_loads s' = {}"
  proof (cases "async_chunk cfg \<and> 1 < tp_world cfg")
    case True
    with assms(1,3) ne show ?thesis
      by (simp add: get_omni_connector_output_def collect_fanout_def finish_output_def release_streams_def Let_def)
         (elim conjE; hypsubst; simp)
  next
    case False
    from assms(3) [symmetric] show ?thesis
      unfolding get_omni_connector_output_def if_not_P [OF False] by (simp add: finish_output_def release_streams_def)
  qed
  from assms(2) obtain q where q: "map_of (request_metadata s) r = Some (extract_scheduling_metadata q)"
    "map_of (stage_cache s) r = Some q \<or> taken \<and> map_of (stage_cache s) r = None"
    by (auto simp: signalled_def)
  have "\<exists>md q. map_of (out_metadata out) r = Some md \<and> map_of md = wanted_metadata q
      \<and> (if taken then map_of (stage_cache s) r \<in> {None, Some q} else map_of (stage_cache s) r = Some q)"
    using q out by (intro exI [of _ "extract_scheduling_metadata q"] exI [of _ q]) (auto simp: metadata_wanted)
  with assms(2) out show ?thesis by (simp add: signalled_def)
qed

text \<open>C17: No arrival is lost between two reports. In a stage with asynchronous chunks, on the rank that receives, take a chunk of a request that is read without an exception and that can drive a step or is the last one of its stream. It is put into the cache, its values over those already there. Then whatever happens before the next report, other chunks and prunings included, short of the cleanup or the drop of this request, that report names the request as ready, names its stream as finished if the chunk was the last one, and carries as metadata just the prompt length, the audio codes and the left context size of the payload that is in the cache by then; if the model has taken the payload in the meantime, the metadata are still there. The report consumes the signal. Payloads are dictionaries, and what is pruned is taken from the set of stale ids.\<close>

theorem arrivals_are_reported:
  assumes "async_chunk cfg" and "is_data_transfer_rank cfg" and "polling s = Some (r, x, p)" and "snd (recv_put cfg s) = Inr ()"
    and "payload_finished p \<or> payload_is_consumable p \<and> (ar_mode cfg \<or> rval_truthy (payload_audio_codes p) = Inr True)"
    and "distinct (map fst (chunk_payload cfg s x p))" and "\<forall>A. set (t_ord tr A) \<subseteq> A"
    and "\<forall>e \<in> set es. \<not> forgets r e \<and> (\<forall>f. e \<noteq> Ev_output f)"
    and "runner_run cfg tr (Ev_put # es) (s, c) = (s1, c1)" and "get_omni_connector_output cfg sent s1 = (s2, out)"
  shows "(\<exists>q. map_of (stage_cache (fst (recv_put cfg s))) r = Some q
        \<and> map_of q = (case map_of (stage_cache s) r of None \<Rightarrow> Map.empty | Some old \<Rightarrow> map_of old) ++ map_of (chunk_payload cfg s x p))
    \<and> r \<in> out_chunk_ready out \<and> (if payload_finished p then r \<in> out_chunk_finished out else True) \<and> r \<notin> finished_loads s2
    \<and> (\<exists>md q. map_of (out_metadata out) r = Some md \<and> map_of md = wanted_metadata q
          \<and> (if Ev_pop_payload r \<in> set es then map_of (stage_cache s1) r \<in> {None, Some q} else map_of (stage_cache s1) r = Some q))"
proof (intro conjI [OF arrival_signalled(2) [OF assms(1,3,4,5,6)]] report_carries_signals [OF assms(2) _ assms(10)])
  have "runner_run cfg tr es (fst (recv_put cfg s), c) = (s1, c1)" using assms(9) by (simp add: runner_run_def runner_step_def)
  with signalled_run [OF assms(1,7,8), where sc = "(fst (recv_put cfg s), c)"] arrival_signalled(1) [OF assms(1,3,4,5,6)]
  show "signalled r (payload_finished p) (Ev_pop_payload r \<in> set es) s1" by fastforce
qed

definition ex_polled :: runner where
  "ex_polled = fst (runner_run ex_runner_config ex_transport (take 3 ex_receiving) (runner_init, 0))"

lemma ex_polled_polling: "polling ex_polled = Some (''r'', ''r'', [(''codes'', RDict [(''audio'', RList [RInt 7])])])"
  by code_simp

theorem arrivals_are_reported_witness:
  "''r'' \<in> out_chunk_ready (snd (get_omni_connector_output ex_runner_config None
     (fst (runner_run ex_runner_config ex_transport [Ev_put, Ev_snapshot, Ev_prune {}, Ev_cleanup ''q''] (ex_polled, 0)))))"
proof -
  have ev: "\<forall>e \<in> set [Ev_snapshot, Ev_prune {}, Ev_cleanup ''q'']. \<not> forgets ''r'' e \<and> (\<forall>f. e \<noteq> Ev_output f)" by (simp add: forgets_def)
  have d: "payload_finished [(''codes'', RDict [(''audio'', RList [RInt 7])])]
      \<or> payload_is_consumable [(''codes'', RDict [(''audio'', RList [RInt 7])])]
         \<and> (ar_mode ex_runner_config \<or> rval_truthy (payload_audio_codes [(''codes'', RDict [(''audio'', RList [RInt 7])])]) = Inr True)"
    by code_simp
  have ok: "snd (recv_put ex_runner_config ex_polled) = Inr ()" by code_simp
  have dd: "distinct (map fst (chunk_payload ex_runner_config ex_polled ''r'' [(''codes'', RDict [(''audio'', RList [RInt 7])])]))"
    by code_simp
  have tr: "\<forall>A. set (t_ord ex_transport A) \<subseteq> A" by (simp add: ex_transport_def)
  have cfg: "async_chunk ex_runner_config" "is_data_transfer_rank ex_runner_config"
    by (simp_all add: ex_runner_config_def is_data_transfer_rank_def)
  from arrivals_are_reported [OF cfg ex_polled_polling ok d dd tr ev prod.collapse [symmetric] prod.collapse [symmetric], where c = 0 and sent = None]
  show ?thesis by blast
qed


section \<open>Ranks\<close>

text \<open>The runner's copy of the rank routing agrees with the one of the transfer utilities.\<close>

lemma runner_routing_agrees:
  assumes "source_tp_size t \<noteq> 0" and "target_tp_size t \<noteq> 0"
  shows "get_kv_remote_ranks t = get_kv_source_ranks t" and "get_kv_target_ranks_for_send t = get_kv_target_ranks t"
  using assms
  by (simp_all add: get_kv_remote_ranks_def get_kv_source_ranks_def get_kv_target_ranks_for_send_def get_kv_target_ranks_def
      validate_topology_def validate_kv_tp_topology_def Let_def)

end
