(* ===== verification/Payload_Keys.thy ===== *)
theory Payload_Keys
  imports Prelude
begin

text \<open>
  The payloads that stages exchange (\<open>data_entry_keys.py\<close>): nested dictionaries of known categories, their
  form with dotted keys, and their encoding for the engine core. A tensor is an argument of the type; the
  two numpy calls that turn one into bytes and back are arguments of the encoding. A tensor under
  \<open>hidden_states.layers\<close> is never assigned into by index.
\<close>

section \<open>Values\<close>

text \<open>Keys of nested dictionaries are strings, and integers for layers.\<close>

datatype pkey = KS string | KI int

datatype 't pval =
    PV_none
  | PV_bool bool
  | PV_int int
  | PV_str string
  | PV_tensor 't
  | PV_list "'t pval list"
  | PV_dict "(pkey \<times> 't pval) list"

type_synonym 't keyed = "(string \<times> 't pval) list"

definition show_int :: "int \<Rightarrow> string" where
  "show_int n = (if n < 0 then CHR ''-'' # show_nat (nat (- n)) else show_nat (nat n))"

definition key_str :: "pkey \<Rightarrow> string" where
  "key_str k = (case k of KS s \<Rightarrow> s | KI n \<Rightarrow> show_int n)"

text \<open>Python's \<open>int(s)\<close>: spaces around it, a sign, and digits with single underscores between them.\<close>

definition is_digit_char :: "char \<Rightarrow> bool" where
  "is_digit_char c \<longleftrightarrow> 48 \<le> (of_char c :: nat) \<and> (of_char c :: nat) \<le> 57"

fun digits_ok :: "string \<Rightarrow> bool" where
  "digits_ok [] = False"
| "digits_ok [c] = is_digit_char c"
| "digits_ok (c # d # cs) = (is_digit_char c \<and> (if d = CHR ''_'' then digits_ok cs else digits_ok (d # cs)))"

definition int_of_string :: "string \<Rightarrow> int option" where
  "int_of_string s =
     (let t = py_strip s;
          sgn = (t \<noteq> [] \<and> (hd t = CHR ''-'' \<or> hd t = CHR ''+''));
          ds = (if sgn then tl t else t)
      in if digits_ok ds
         then Some ((if sgn \<and> hd t = CHR ''-'' then - 1 else 1) * int (read_nat (filter (\<lambda>c. c \<noteq> CHR ''_'') ds)))
         else None)"

section \<open>The schema\<close>

definition nested_keys :: "string list" where
  "nested_keys = [''hidden_states'', ''embed'', ''ids'', ''codes'', ''meta'']"

definition nested_schemas :: "(string \<times> string list) list" where
  "nested_schemas =
     [(''hidden_states'', [''output'', ''trailing_text'', ''last'', ''layers'']),
      (''embed'', [''prefill'', ''decode'', ''cached_decode'', ''tts_bos'', ''tts_eos'', ''tts_pad'', ''tts_pad_projected'', ''voice'',
         ''speech_feat'', ''thinker_reply'']),
      (''ids'', [''all'', ''prompt'', ''output'', ''speech_token'', ''prior_image'']),
      (''codes'', [''audio'', ''ref'']),
      (''meta'', [''finished'', ''left_context_size'', ''override_keys'', ''num_processed_tokens'', ''next_stage_prompt_len'', ''ar_width'',
         ''eol_token_id'', ''visual_token_start_id'', ''visual_token_end_id'', ''gen_token_mask'', ''omni_task'', ''height'', ''width'',
         ''decode_flag'', ''codec_streaming'', ''ref_code_len'', ''talker_prefill_offset''])]"

definition root_keys :: "string list" where
  "root_keys = [''hidden_states'', ''embed'', ''ids'', ''codes'', ''meta'', ''latent'', ''generated_len'', ''model_outputs'', ''mtp_inputs'',
     ''speaker'', ''language'', ''request_id'']"

definition assert_payload :: "'t keyed \<Rightarrow> unit res" where
  "assert_payload p =
     (if \<not> list_all (\<lambda>(k, v). k \<in> set root_keys) p then Inl AssertionError
      else if list_all (\<lambda>(k, known). case map_of p k of
                None \<Rightarrow> True
              | Some (PV_dict d) \<Rightarrow> list_all (\<lambda>(q, v). q \<in> KS ` set known) d
              | Some _ \<Rightarrow> False) nested_schemas
      then Inr () else Inl AssertionError)"

section \<open>Dotted keys\<close>

definition flatten_item :: "string \<times> 't pval \<Rightarrow> 't keyed" where
  "flatten_item kv =
     (case kv of (k, v) \<Rightarrow>
        (case v of
           PV_dict d \<Rightarrow>
             (if k \<in> set nested_keys
              then concat (map (\<lambda>(q, u).
                     (case u of
                        PV_dict ls \<Rightarrow>
                          (if q = KS ''layers'' \<and> k = ''hidden_states''
                           then map (\<lambda>(i, t). (''hidden_states.layer_'' @ key_str i, t)) ls
                           else [(k @ ''.'' @ key_str q, u)])
                      | _ \<Rightarrow> [(k @ ''.'' @ key_str q, u)])) d)
              else [(k, v)])
         | _ \<Rightarrow> [(k, v)]))"

definition flatten_payload :: "'t keyed \<Rightarrow> 't keyed" where
  "flatten_payload p = foldl (\<lambda>d (k, v). dict_set k v d) [] (concat (map flatten_item p))"

text \<open>\<open>layers[n] = value\<close>\<close>

definition set_layer :: "'t pval \<Rightarrow> int \<Rightarrow> 't pval \<Rightarrow> 't pval res" where
  "set_layer layers n v =
     (case layers of
        PV_dict d \<Rightarrow> Inr (PV_dict (dict_set (KI n) v d))
      | PV_list xs \<Rightarrow>
          (let i = (if n < 0 then n + int (length xs) else n)
           in if 0 \<le> i \<and> i < int (length xs) then Inr (PV_list (xs[nat i := v])) else Inl IndexError)
      | _ \<Rightarrow> Inl TypeError)"

definition unflatten_item :: "string \<times> 't pval \<Rightarrow> 't keyed \<Rightarrow> 't keyed res" where
  "unflatten_item kv r =
     (case kv of (key, v) \<Rightarrow>
        if CHR ''.'' \<in> set key
        then (let k = takeWhile (\<lambda>c. c \<noteq> CHR ''.'') key;
                  q = tl (dropWhile (\<lambda>c. c \<noteq> CHR ''.'') key);
                  sub = (case map_of r k of None \<Rightarrow> PV_dict [] | Some u \<Rightarrow> u)
              in if k = ''hidden_states'' \<and> take 6 q = ''layer_''
                 then (case sub of
                         PV_dict d \<Rightarrow>
                           (case int_of_string (drop 6 q) of
                              None \<Rightarrow> Inl ValueError
                            | Some n \<Rightarrow>
                                bind_res (set_layer (case map_of d (KS ''layers'') of None \<Rightarrow> PV_dict [] | Some u \<Rightarrow> u) n v) (\<lambda>ls.
                                  Inr (dict_set k (PV_dict (dict_set (KS ''layers'') ls d)) r)))
                       | _ \<Rightarrow> Inl AttributeError)
                 else (case sub of
                         PV_dict d \<Rightarrow> Inr (dict_set k (PV_dict (dict_set (KS q) v d)) r)
                       | PV_tensor _ \<Rightarrow> Inl IndexError
                       | _ \<Rightarrow> Inl TypeError))
        else Inr (dict_set key v r))"

fun unflatten_items :: "'t keyed \<Rightarrow> 't keyed \<Rightarrow> 't keyed res" where
  "unflatten_items [] r = Inr r"
| "unflatten_items (kv # kvs) r = bind_res (unflatten_item kv r) (unflatten_items kvs)"

definition unflatten_payload :: "'t keyed \<Rightarrow> 't keyed res" where
  "unflatten_payload flat = unflatten_items flat []"

section \<open>The encoding\<close>

record np_tensor =
  nt_dtype :: string
  nt_shape :: "nat list"
  nt_data :: "int list"

text \<open>The three tensor fields of an entry are set together; the other two are \<open>list_data\<close> and \<open>scalar_data\<close>.\<close>

record 'b wire_entry =
  w_tensor :: "('b \<times> nat list \<times> string) option"
  w_list :: "np_tensor pval list option"
  w_scalar :: "np_tensor pval option"

definition serialize_tensor :: "(np_tensor \<Rightarrow> 'b res) \<Rightarrow> np_tensor \<Rightarrow> 'b wire_entry res" where
  "serialize_tensor tobytes t =
     bind_res (tobytes t) (\<lambda>b. Inr \<lparr>w_tensor = Some (b, nt_shape t, nt_dtype t), w_list = None, w_scalar = None\<rparr>)"

text \<open>\<open>np.frombuffer(data, dtype=np.dtype(name or "float32")).reshape(shape)\<close>\<close>

definition deserialize_tensor :: "(string \<Rightarrow> 'b \<Rightarrow> int list res) \<Rightarrow> 'b \<times> nat list \<times> string \<Rightarrow> np_tensor res" where
  "deserialize_tensor frombuffer w =
     (case w of (b, shape, dtype) \<Rightarrow>
        (let dt = (if dtype = [] then ''float32'' else dtype)
         in bind_res (frombuffer dt b) (\<lambda>xs.
              if length xs = prod_list shape then Inr \<lparr>nt_dtype = dt, nt_shape = shape, nt_data = xs\<rparr> else Inl ValueError)))"

definition serialize_item :: "(np_tensor \<Rightarrow> 'b res) \<Rightarrow> np_tensor pval \<Rightarrow> 'b wire_entry option res" where
  "serialize_item tobytes v =
     (case v of
        PV_tensor t \<Rightarrow> bind_res (serialize_tensor tobytes t) (\<lambda>e. Inr (Some e))
      | PV_list xs \<Rightarrow> Inr (Some \<lparr>w_tensor = None, w_list = Some xs, w_scalar = None\<rparr>)
      | PV_none \<Rightarrow> Inr None
      | _ \<Rightarrow> Inr (Some \<lparr>w_tensor = None, w_list = None, w_scalar = Some v\<rparr>))"

fun serialize_items :: "(np_tensor \<Rightarrow> 'b res) \<Rightarrow> np_tensor keyed \<Rightarrow> (string \<times> 'b wire_entry) list res" where
  "serialize_items tobytes [] = Inr []"
| "serialize_items tobytes ((k, v) # kvs) =
     bind_res (serialize_item tobytes v) (\<lambda>e.
     bind_res (serialize_items tobytes kvs) (\<lambda>es.
       Inr (case e of None \<Rightarrow> es | Some w \<Rightarrow> (k, w) # es)))"

definition serialize_payload :: "(np_tensor \<Rightarrow> 'b res) \<Rightarrow> np_tensor keyed \<Rightarrow> (string \<times> 'b wire_entry) list option res" where
  "serialize_payload tobytes p =
     bind_res (serialize_items tobytes (flatten_payload p)) (\<lambda>es. Inr (if es = [] then None else Some es))"

definition deserialize_item :: "(string \<Rightarrow> 'b \<Rightarrow> int list res) \<Rightarrow> 'b wire_entry \<Rightarrow> np_tensor pval option res" where
  "deserialize_item frombuffer e =
     (case w_tensor e of
        Some w \<Rightarrow> bind_res (deserialize_tensor frombuffer w) (\<lambda>t. Inr (Some (PV_tensor t)))
      | None \<Rightarrow> Inr (case w_list e of Some xs \<Rightarrow> Some (PV_list xs) | None \<Rightarrow> w_scalar e))"

fun deserialize_items :: "(string \<Rightarrow> 'b \<Rightarrow> int list res) \<Rightarrow> (string \<times> 'b wire_entry) list \<Rightarrow> np_tensor keyed res" where
  "deserialize_items frombuffer [] = Inr []"
| "deserialize_items frombuffer ((k, e) # es) =
     bind_res (deserialize_item frombuffer e) (\<lambda>v.
     bind_res (deserialize_items frombuffer es) (\<lambda>kvs.
       Inr (case v of None \<Rightarrow> kvs | Some u \<Rightarrow> (k, u) # kvs)))"

definition deserialize_payload :: "(string \<Rightarrow> 'b \<Rightarrow> int list res) \<Rightarrow> (string \<times> 'b wire_entry) list \<Rightarrow> np_tensor keyed res" where
  "deserialize_payload frombuffer wire = bind_res (deserialize_items frombuffer wire) unflatten_payload"

end
