(* ===== verification/Payload_Keys_Properties.thy ===== *)
theory Payload_Keys_Properties
  imports Payload_Keys
begin

text \<open>
  Nested payloads survive flattening and the encoding for the engine core; what does not survive is an
  empty category, a dotted key at the top, and a value of \<open>None\<close>.
\<close>

section \<open>Printed integers\<close>

lemma is_digit_digit: "d < 10 \<Longrightarrow> is_digit_char (digit_char d)"
  by (simp add: is_digit_char_def of_digit_char)

lemma digits_all: "cs \<noteq> [] \<Longrightarrow> \<forall>c \<in> set cs. is_digit_char c \<Longrightarrow> digits_ok cs"
proof (induction cs rule: digits_ok.induct)
  case (3 c d cs)
  have "d \<noteq> CHR ''_''" using 3(4) by (auto simp: is_digit_char_def)
  with 3 show ?case by simp
qed auto

lemma show_nat_digits: "c \<in> set (show_nat n) \<Longrightarrow> is_digit_char c"
  using set_show_nat is_digit_digit by blast

lemma digit_not_special: "is_digit_char c \<Longrightarrow> c \<noteq> CHR ''_'' \<and> c \<noteq> CHR ''-'' \<and> c \<noteq> CHR ''+'' \<and> c \<noteq> CHR ''.'' \<and> \<not> is_space_code (of_char c)"
  by (auto simp: is_digit_char_def is_space_code_def)

lemma strip_none:
  assumes "\<forall>c \<in> set cs. \<not> p c"
  shows "strip p cs = cs"
proof -
  have "dropWhile p xs = xs" if "\<forall>c \<in> set xs. \<not> p c" for xs using that by (cases xs) auto
  from this [of cs] this [of "rev cs"] assms show ?thesis by (simp add: strip_def)
qed

lemma int_of_show_int [simp]: "int_of_string (show_int n) = Some n"
proof -
  have d: "digits_ok (show_nat m)" for m using digits_all show_nat_digits by simp
  have f: "filter (\<lambda>c. c \<noteq> CHR ''_'') (show_nat m) = show_nat m" for m
    using show_nat_digits digit_not_special by (intro filter_True) blast
  have h: "hd (show_nat m) \<noteq> CHR ''-'' \<and> hd (show_nat m) \<noteq> CHR ''+''" for m
    using show_nat_digits [of "hd (show_nat m)" m] digit_not_special by simp
  have s: "py_strip (show_int n) = show_int n"
    unfolding py_strip_def
    by (rule strip_none) (use show_nat_digits digit_not_special in \<open>auto simp: show_int_def is_space_code_def\<close>)
  show ?thesis
    using d f h by (simp add: int_of_string_def s Let_def) (simp add: show_int_def)
qed

lemma show_int_inject [simp]: "show_int m = show_int n \<longleftrightarrow> m = n"
  by (metis int_of_show_int option.inject)

section \<open>Flat keys\<close>

text \<open>Payloads as the stages build them.\<close>

definition sub_ok :: "string \<Rightarrow> pkey \<times> 't pval \<Rightarrow> bool" where
  "sub_ok k qv \<longleftrightarrow> (case qv of
       (KI n, v) \<Rightarrow> False
     | (KS s, v) \<Rightarrow>
         k \<noteq> ''hidden_states'' \<or>
         (if s = ''layers''
          then (case v of PV_dict ls \<Rightarrow> ls \<noteq> [] \<and> distinct (map fst ls) \<and> list_all (\<lambda>(i, t). case i of KI n \<Rightarrow> True | KS _ \<Rightarrow> False) ls | _ \<Rightarrow> True)
          else take 6 s \<noteq> ''layer_''))"

definition item_ok :: "string \<times> 't pval \<Rightarrow> bool" where
  "item_ok kv \<longleftrightarrow> (case kv of (k, v) \<Rightarrow>
     CHR ''.'' \<notin> set k
     \<and> (case v of
          PV_dict d \<Rightarrow> k \<notin> set nested_keys \<or> d \<noteq> [] \<and> distinct (map fst d) \<and> list_all (sub_ok k) d
        | _ \<Rightarrow> True))"

definition well_keyed :: "'t keyed \<Rightarrow> bool" where
  "well_keyed p \<longleftrightarrow> distinct (map fst p) \<and> list_all item_ok p"

definition key_head :: "string \<Rightarrow> string" where
  "key_head = takeWhile (\<lambda>c. c \<noteq> CHR ''.'')"

lemma key_head_plain: "CHR ''.'' \<notin> set k \<Longrightarrow> key_head k = k"
  by (auto simp: key_head_def takeWhile_eq_all_conv)

lemma key_head_dotted: "CHR ''.'' \<notin> set k \<Longrightarrow> key_head (k @ CHR ''.'' # q) = k"
  unfolding key_head_def by (subst takeWhile_append2) auto

lemma key_tail_dotted: "CHR ''.'' \<notin> set k \<Longrightarrow> dropWhile (\<lambda>c. c \<noteq> CHR ''.'') (k @ CHR ''.'' # q) = CHR ''.'' # q"
  by (subst dropWhile_append2) auto

text \<open>The flat form of one category.\<close>

definition flat_sub :: "string \<Rightarrow> pkey \<times> 't pval \<Rightarrow> 't keyed" where
  "flat_sub k qu =
     (case qu of (q, u) \<Rightarrow>
        (case u of
           PV_dict ls \<Rightarrow>
             (if q = KS ''layers'' \<and> k = ''hidden_states''
              then map (\<lambda>(i, t). (''hidden_states.layer_'' @ key_str i, t)) ls
              else [(k @ ''.'' @ key_str q, u)])
         | _ \<Rightarrow> [(k @ ''.'' @ key_str q, u)]))"

lemma flatten_item_alt:
  "flatten_item (k, v) = (case v of PV_dict d \<Rightarrow> if k \<in> set nested_keys then concat (map (flat_sub k) d) else [(k, v)] | _ \<Rightarrow> [(k, v)])"
  unfolding flatten_item_def flat_sub_def by (simp split: pval.split)

lemma hidden_layer_key: "''hidden_states.layer_'' @ s = ''hidden_states'' @ CHR ''.'' # ''layer_'' @ s"
  by simp

lemma flat_sub_cases:
  obtains (layers) ls where "k = ''hidden_states''" "qu = (KS ''layers'', PV_dict ls)"
      "flat_sub k qu = map (\<lambda>(i, t). (k @ CHR ''.'' # ''layer_'' @ key_str i, t)) ls"
    | (plain) "flat_sub k qu = [(k @ CHR ''.'' # key_str (fst qu), snd qu)]"
      "\<not> (k = ''hidden_states'' \<and> fst qu = KS ''layers'' \<and> (\<exists>ls. snd qu = PV_dict ls))"
proof (cases "k = ''hidden_states'' \<and> fst qu = KS ''layers'' \<and> (\<exists>ls. snd qu = PV_dict ls)")
  case True
  then obtain ls where q: "k = ''hidden_states''" "qu = (KS ''layers'', PV_dict ls)" by (cases qu) auto
  show ?thesis by (rule layers [OF q]) (simp add: q flat_sub_def)
next
  case False
  show ?thesis
    by (rule plain [OF _ False]) (use False in \<open>auto simp: flat_sub_def split: prod.split pval.split\<close>)
qed

lemma flat_sub_key:
  assumes "fk \<in> fst ` set (flat_sub k qu)"
  shows "\<exists>s. fk = k @ CHR ''.'' # s"
proof (cases rule: flat_sub_cases [where k = k and qu = qu])
  case (layers ls)
  with assms show ?thesis unfolding layers(3) by (auto simp del: append.simps)
next
  case plain
  with assms show ?thesis by simp
qed

lemma flatten_item_head:
  assumes "item_ok (k, v)" and "fk \<in> fst ` set (flatten_item (k, v))"
  shows "key_head fk = k"
proof -
  have nd: "CHR ''.'' \<notin> set k" using assms(1) by (simp add: item_ok_def)
  have "fk = k \<or> (\<exists>s. fk = k @ CHR ''.'' # s)"
  proof (cases "\<exists>d. v = PV_dict d \<and> k \<in> set nested_keys")
    case True
    then obtain d where d: "flatten_item (k, v) = concat (map (flat_sub k) d)" by (auto simp: flatten_item_alt)
    then have "fk \<in> (\<Union>qu \<in> set d. fst ` set (flat_sub k qu))" using assms(2) by (simp add: image_UN)
    then show ?thesis by (elim UN_E) (rule disjI2, erule flat_sub_key)
  next
    case False
    then have "flatten_item (k, v) = [(k, v)]" by (auto simp: flatten_item_alt split: pval.split)
    with assms(2) show ?thesis by simp
  qed
  with nd show ?thesis by (auto simp: key_head_plain key_head_dotted)
qed

lemma distinct_concat_keys:
  assumes "distinct (map g xs)" and "\<And>x. x \<in> set xs \<Longrightarrow> distinct (map fst (f x))"
    and "\<And>x k. x \<in> set xs \<Longrightarrow> k \<in> fst ` set (f x) \<Longrightarrow> h k = g x"
  shows "distinct (map fst (concat (map f xs)))"
  using assms
proof (induction xs)
  case (Cons x xs)
  have "False" if k: "k \<in> fst ` set (f x)" and y: "y \<in> set xs" "k \<in> fst ` set (f y)" for k y
  proof -
    have "g x = g y" using Cons.prems(3) [OF _ k] Cons.prems(3) [OF _ y(2)] y(1) by simp
    with Cons.prems(1) y(1) show False by (metis distinct.simps(2) image_eqI list.set_map list.simps(9))
  qed
  then have "set (map fst (f x)) \<inter> set (map fst (concat (map f xs))) = {}" by fastforce
  with Cons show ?case by simp
qed simp

text \<open>The keys of one entry of a category determine it.\<close>

definition sub_name :: "string \<Rightarrow> string \<Rightarrow> pkey" where
  "sub_name k fk = (let s = drop (Suc (length k)) fk in if k = ''hidden_states'' \<and> take 6 s = ''layer_'' then KS ''layers'' else KS s)"

lemma flat_sub_name:
  assumes "sub_ok k qu" and "fk \<in> fst ` set (flat_sub k qu)"
  shows "sub_name k fk = fst qu"
proof (cases rule: flat_sub_cases [where k = k and qu = qu])
  case (layers ls)
  with assms(2) show ?thesis unfolding layers(3) by (auto simp: sub_name_def)
next
  case plain
  obtain s where s: "fst qu = KS s" using assms(1) by (auto simp: sub_ok_def split: prod.splits pkey.splits)
  have "\<not> (k = ''hidden_states'' \<and> take 6 s = ''layer_'')"
    using assms(1) s by (auto simp: sub_ok_def split: prod.splits if_splits)
  with assms(2) s show ?thesis unfolding plain(1) by (auto simp: sub_name_def key_str_def)
qed

lemma flat_sub_distinct:
  assumes "sub_ok k qu"
  shows "distinct (map fst (flat_sub k qu))"
proof (cases rule: flat_sub_cases [where k = k and qu = qu])
  case (layers ls)
  have "distinct (map fst ls)" "\<forall>(i, t) \<in> set ls. \<exists>n. i = KI n"
    using assms layers by (auto simp: sub_ok_def list_all_iff split: pkey.splits)
  then have "distinct (map (\<lambda>(i, t). k @ CHR ''.'' # ''layer_'' @ key_str i) ls)"
  proof (induction ls)
    case (Cons x ls)
    obtain n v where x: "x = (KI n, v)" using Cons.prems(2) by (cases x) auto
    have "show_int n \<noteq> key_str i" if "(i, u) \<in> set ls" for i u
    proof -
      obtain m where "i = KI m" using Cons.prems(2) \<open>(i, u) \<in> set ls\<close> by auto
      with Cons.prems(1) x \<open>(i, u) \<in> set ls\<close> show ?thesis by (force simp: key_str_def)
    qed
    with Cons x show ?case by (auto simp: key_str_def [of "KI n"])
  qed simp
  then show ?thesis unfolding layers(3) by (simp add: case_prod_beta' comp_def)
qed simp


lemma flatten_item_distinct:
  assumes "item_ok (k, v)"
  shows "distinct (map fst (flatten_item (k, v)))"
proof (cases "\<exists>d. v = PV_dict d \<and> k \<in> set nested_keys")
  case True
  then obtain d where d: "v = PV_dict d" "flatten_item (k, v) = concat (map (flat_sub k) d)" by (auto simp: flatten_item_alt)
  have ok: "distinct (map fst d)" "\<And>qu. qu \<in> set d \<Longrightarrow> sub_ok k qu"
    using assms d(1) True by (auto simp: item_ok_def list_all_iff)
  show ?thesis
    unfolding d(2) by (rule distinct_concat_keys [OF ok(1), where h = "sub_name k"]) (rule flat_sub_distinct flat_sub_name, erule ok(2), assumption?)+
next
  case False
  then have "flatten_item (k, v) = [(k, v)]" by (auto simp: flatten_item_alt split: pval.split)
  then show ?thesis by simp
qed

lemma flatten_concat:
  assumes "well_keyed p"
  shows "flatten_payload p = concat (map flatten_item p) \<and> distinct (map fst (flatten_payload p))"
proof -
  have ok: "distinct (map fst p)" "\<And>kv. kv \<in> set p \<Longrightarrow> item_ok kv" using assms by (auto simp: well_keyed_def list_all_iff)
  have "distinct (map fst (concat (map flatten_item p)))"
  proof (rule distinct_concat_keys [OF ok(1), where h = key_head])
    fix kv
    assume "kv \<in> set p"
    with ok(2) show "distinct (map fst (flatten_item kv))" using flatten_item_distinct [of "fst kv" "snd kv"] by simp
  next
    fix kv fk
    assume "kv \<in> set p" "fk \<in> fst ` set (flatten_item kv)"
    with ok(2) show "key_head fk = fst kv" using flatten_item_head [of "fst kv" "snd kv" fk] by simp
  qed
  with foldl_dict_set [of "[]" "concat (map flatten_item p)"] show ?thesis by (simp add: flatten_payload_def)
qed

section \<open>Nesting again\<close>

lemma unflatten_append: "unflatten_items (a @ b) r = bind_res (unflatten_items a r) (unflatten_items b)"
proof (induction a arbitrary: r)
  case (Cons kv a)
  show ?case by (cases "unflatten_item kv r") (simp_all add: Cons.IH)
qed simp

text \<open>The result while the category \<open>k\<close> is put together.\<close>

definition with_sub :: "'t keyed \<Rightarrow> string \<Rightarrow> (pkey \<times> 't pval) list \<Rightarrow> 't keyed" where
  "with_sub r k d = (if d = [] then r else r @ [(k, PV_dict d)])"

lemma with_sub_get: "k \<notin> fst ` set r \<Longrightarrow> (case map_of (with_sub r k d) k of None \<Rightarrow> PV_dict [] | Some u \<Rightarrow> u) = PV_dict d"
  by (simp add: with_sub_def map_add_def map_of_eq_None_iff [THEN iffD2])

lemma with_sub_set: "k \<notin> fst ` set r \<Longrightarrow> d' \<noteq> [] \<Longrightarrow> dict_set k (PV_dict d') (with_sub r k d) = with_sub r k d'"
  by (simp add: with_sub_def dict_set_last dict_set_new)

lemma unflatten_plain:
  assumes "CHR ''.'' \<notin> set k" and "k \<notin> fst ` set r"
  shows "unflatten_item (k, v) r = Inr (r @ [(k, v)])"
  using assms by (simp add: unflatten_item_def dict_set_new)

lemma dict_set_not_Nil [simp]: "dict_set k v d \<noteq> []"
  by (cases d) auto

lemma unflatten_sub:
  assumes "CHR ''.'' \<notin> set k" and "k \<notin> fst ` set r" and "\<not> (k = ''hidden_states'' \<and> take 6 q = ''layer_'')"
  shows "unflatten_item (k @ CHR ''.'' # q, v) (with_sub r k d) = Inr (with_sub r k (dict_set (KS q) v d))"
proof -
  have h: "takeWhile (\<lambda>c. c \<noteq> CHR ''.'') (k @ CHR ''.'' # q) = k" using key_head_dotted [OF assms(1)] by (simp add: key_head_def)
  have t: "tl (dropWhile (\<lambda>c. c \<noteq> CHR ''.'') (k @ CHR ''.'' # q)) = q" using key_tail_dotted [OF assms(1)] by simp
  show ?thesis
    unfolding unflatten_item_def prod.case h t Let_def with_sub_get [OF assms(2)] if_not_P [OF assms(3)]
    using assms(2) by (simp add: with_sub_set)
qed

lemma unflatten_layer:
  assumes "k = ''hidden_states''" and "k \<notin> fst ` set r"
    and "(case map_of d (KS ''layers'') of None \<Rightarrow> PV_dict [] | Some u \<Rightarrow> u) = PV_dict ls"
  shows "unflatten_item (k @ CHR ''.'' # ''layer_'' @ show_int n, v) (with_sub r k d)
    = Inr (with_sub r k (dict_set (KS ''layers'') (PV_dict (dict_set (KI n) v ls)) d))"
proof -
  have nd: "CHR ''.'' \<notin> set k" by (simp add: assms(1))
  let ?q = "''layer_'' @ show_int n"
  have h: "takeWhile (\<lambda>c. c \<noteq> CHR ''.'') (k @ CHR ''.'' # ?q) = k" using key_head_dotted [OF nd] by (simp add: key_head_def)
  have t: "tl (dropWhile (\<lambda>c. c \<noteq> CHR ''.'') (k @ CHR ''.'' # ?q)) = ?q" using key_tail_dotted [OF nd, of ?q] by simp
  have l: "k = ''hidden_states'' \<and> take 6 ?q = ''layer_''" using assms(1) by simp
  have n: "int_of_string (drop 6 ?q) = Some n" by simp
  show ?thesis
    unfolding unflatten_item_def prod.case h t Let_def with_sub_get [OF assms(2)] if_P [OF l] pval.case n option.case assms(3)
    using assms(2) by (simp add: with_sub_set set_layer_def)
qed

lemma unflatten_layers:
  assumes "k = ''hidden_states''" and "k \<notin> fst ` set r" and "KS ''layers'' \<notin> fst ` set d"
    and "\<forall>x \<in> set ls. \<exists>n. fst x = KI n" and "distinct (map fst (done @ ls))" and "done @ ls \<noteq> []"
  shows "unflatten_items (map (\<lambda>(i, t). (k @ CHR ''.'' # ''layer_'' @ key_str i, t)) ls)
      (with_sub r k (if done = [] then d else d @ [(KS ''layers'', PV_dict done)]))
    = Inr (with_sub r k (d @ [(KS ''layers'', PV_dict (done @ ls))]))"
  using assms(4-6)
proof (induction ls arbitrary: "done")
  case (Cons x ls)
  obtain n v where x: "x = (KI n, v)" using Cons.prems(1) by (cases x) auto
  let ?d = "if done = [] then d else d @ [(KS ''layers'', PV_dict done)]"
  have get: "(case map_of ?d (KS ''layers'') of None \<Rightarrow> PV_dict [] | Some u \<Rightarrow> u) = PV_dict done"
    using assms(3) by (simp add: map_add_def map_of_eq_None_iff [THEN iffD2])
  have new: "dict_set (KI n) v done = done @ [x]" using Cons.prems(2) x by (simp add: dict_set_new)
  have d: "dict_set (KS ''layers'') (PV_dict (done @ [x])) ?d = d @ [(KS ''layers'', PV_dict (done @ [x]))]"
    using assms(3) by (simp add: dict_set_last dict_set_new)
  have "unflatten_item (k @ CHR ''.'' # ''layer_'' @ key_str (KI n), v) (with_sub r k ?d)
      = Inr (with_sub r k (d @ [(KS ''layers'', PV_dict (done @ [x]))]))"
    using unflatten_layer [OF assms(1,2) get, of n v] by (simp add: key_str_def new d)
  moreover have "unflatten_items (map (\<lambda>(i, t). (k @ CHR ''.'' # ''layer_'' @ key_str i, t)) ls)
      (with_sub r k (d @ [(KS ''layers'', PV_dict (done @ [x]))])) = Inr (with_sub r k (d @ [(KS ''layers'', PV_dict (done @ x # ls))]))"
    using Cons.IH [of "done @ [x]"] Cons.prems by simp
  ultimately show ?case by (simp add: x)
qed simp

lemma unflatten_flat_sub:
  assumes "CHR ''.'' \<notin> set k" and "k \<notin> fst ` set r" and "sub_ok k qu" and "fst qu \<notin> fst ` set d"
  shows "unflatten_items (flat_sub k qu) (with_sub r k d) = Inr (with_sub r k (d @ [qu]))"
proof (cases rule: flat_sub_cases [where k = k and qu = qu])
  case (layers ls)
  have "ls \<noteq> []" "distinct (map fst ls)" "\<forall>x \<in> set ls. \<exists>n. fst x = KI n"
    using assms(3) layers by (auto simp: sub_ok_def list_all_iff split: pkey.splits)
  with unflatten_layers [OF layers(1) assms(2), of d ls "[]"] assms(4) layers show ?thesis by simp
next
  case plain
  obtain s v where s: "qu = (KS s, v)" using assms(3) by (cases qu) (auto simp: sub_ok_def split: pkey.splits)
  have "\<not> (k = ''hidden_states'' \<and> take 6 s = ''layer_'')"
    using assms(3) s by (auto simp: sub_ok_def split: if_splits)
  from unflatten_sub [OF assms(1,2) this, of v d] assms(4) show ?thesis unfolding plain(1) by (simp add: s key_str_def dict_set_new)
qed

lemma unflatten_flat_subs:
  assumes "CHR ''.'' \<notin> set k" and "k \<notin> fst ` set r"
  shows "\<forall>qu \<in> set d. sub_ok k qu \<Longrightarrow> distinct (map fst (e @ d))
    \<Longrightarrow> unflatten_items (concat (map (flat_sub k) d)) (with_sub r k e) = Inr (with_sub r k (e @ d))"
proof (induction d arbitrary: e)
  case (Cons qu d)
  have "unflatten_items (flat_sub k qu) (with_sub r k e) = Inr (with_sub r k (e @ [qu]))"
    using Cons.prems by (intro unflatten_flat_sub [OF assms]) auto
  with Cons show ?case by (simp add: unflatten_append)
qed simp

lemma unflatten_flatten_item:
  assumes "item_ok (k, v)" and "k \<notin> fst ` set r"
  shows "unflatten_items (flatten_item (k, v)) r = Inr (r @ [(k, v)])"
proof -
  have nd: "CHR ''.'' \<notin> set k" using assms(1) by (simp add: item_ok_def)
  show ?thesis
  proof (cases "\<exists>d. v = PV_dict d \<and> k \<in> set nested_keys")
    case True
    then obtain d where d: "v = PV_dict d" "flatten_item (k, v) = concat (map (flat_sub k) d)" by (auto simp: flatten_item_alt)
    have "d \<noteq> []" "distinct (map fst d)" "\<forall>qu \<in> set d. sub_ok k qu"
      using assms(1) d(1) True by (auto simp: item_ok_def list_all_iff)
    with unflatten_flat_subs [OF nd assms(2), of d "[]"] show ?thesis unfolding d(2) by (simp add: with_sub_def d(1))
  next
    case False
    then have "flatten_item (k, v) = [(k, v)]" by (auto simp: flatten_item_alt split: pval.split)
    with unflatten_plain [OF nd assms(2)] show ?thesis by simp
  qed
qed

lemma unflatten_flatten_items:
  "list_all item_ok p \<Longrightarrow> distinct (map fst (r @ p)) \<Longrightarrow> unflatten_items (concat (map flatten_item p)) r = Inr (r @ p)"
proof (induction p arbitrary: r)
  case (Cons kv p)
  obtain k v where kv: "kv = (k, v)" by (cases kv)
  have "unflatten_items (flatten_item kv) r = Inr (r @ [kv])"
    unfolding kv by (rule unflatten_flatten_item) (use Cons.prems kv in auto)
  with Cons show ?case by (simp add: unflatten_append)
qed simp

lemma unflatten_flatten: "well_keyed p \<Longrightarrow> unflatten_payload (flatten_payload p) = Inr p"
  using flatten_concat [of p] unflatten_flatten_items [of p "[]"] by (simp add: unflatten_payload_def well_keyed_def)

section \<open>The encoding\<close>

text \<open>Values the encoding keeps: no \<open>None\<close>, and tensors of as many entries as their shape says.\<close>

definition sendable :: "np_tensor pval \<Rightarrow> bool" where
  "sendable v \<longleftrightarrow> (case v of PV_none \<Rightarrow> False | PV_tensor t \<Rightarrow> length (nt_data t) = prod_list (nt_shape t) \<and> nt_dtype t \<noteq> [] | _ \<Rightarrow> True)"

lemma serialize_item_back:
  assumes "\<And>t b. tobytes t = Inr b \<Longrightarrow> frombuffer (nt_dtype t) b = Inr (nt_data t)" and "sendable v"
    and "serialize_item tobytes v = Inr e"
  shows "\<exists>w. e = Some w \<and> deserialize_item frombuffer w = Inr (Some v)"
  using assms
  by (auto simp: serialize_item_def serialize_tensor_def deserialize_item_def deserialize_tensor_def sendable_def bind_res_Inr
      split: pval.splits)

lemma serialize_items_back:
  assumes "\<And>t b. tobytes t = Inr b \<Longrightarrow> frombuffer (nt_dtype t) b = Inr (nt_data t)"
  shows "serialize_items tobytes kvs = Inr es \<Longrightarrow> \<forall>(k, v) \<in> set kvs. sendable v \<Longrightarrow> deserialize_items frombuffer es = Inr kvs"
proof (induction kvs arbitrary: es)
  case (Cons kv kvs)
  obtain k v where kv: "kv = (k, v)" by (cases kv)
  obtain e es' where e: "serialize_item tobytes v = Inr e" "serialize_items tobytes kvs = Inr es'"
    "es = (case e of None \<Rightarrow> es' | Some w \<Rightarrow> (k, w) # es')"
    using Cons.prems(1) by (auto simp: kv bind_res_Inr)
  obtain w where w: "e = Some w" "deserialize_item frombuffer w = Inr (Some v)"
    using serialize_item_back [where frombuffer = frombuffer, OF assms _ e(1)] Cons.prems(2) kv by auto
  from Cons.IH [OF e(2)] Cons.prems(2) e(3) w kv show ?case by simp
qed simp

text \<open>C20: A payload survives the way to the engine core: if its categories are not empty, its top-level keys contain no dot and no value is None, then decoding what was encoded gives the same payload, with every category, every layer and the order of the keys, provided numpy reads back the bytes it writes.\<close>

theorem payload_survives_the_wire:
  assumes "\<And>t b. tobytes t = Inr b \<Longrightarrow> frombuffer (nt_dtype t) b = Inr (nt_data t)"
    and "well_keyed p" and "\<forall>(k, v) \<in> set (flatten_payload p). sendable v"
    and "serialize_payload tobytes p = Inr (Some wire)"
  shows "deserialize_payload frombuffer wire = Inr p"
proof -
  have "serialize_items tobytes (flatten_payload p) = Inr wire"
    using assms(4) by (auto simp: serialize_payload_def bind_res_Inr split: if_splits)
  from serialize_items_back [OF assms(1) this assms(3)] unflatten_flatten [OF assms(2)] show ?thesis
    by (simp add: deserialize_payload_def)
qed

definition ex_payload :: "np_tensor keyed" where
  "ex_payload =
     [(''hidden_states'', PV_dict [(KS ''output'', PV_tensor \<lparr>nt_dtype = ''float32'', nt_shape = [2, 1], nt_data = [5, 6]\<rparr>),
        (KS ''layers'', PV_dict [(KI 0, PV_tensor \<lparr>nt_dtype = ''int64'', nt_shape = [1], nt_data = [7]\<rparr>), (KI 24, PV_list [])])]),
      (''meta'', PV_dict [(KS ''height'', PV_int 8), (KS ''decode_flag'', PV_bool False)]), (''request_id'', PV_str ''r'')]"

lemma ex_payload_sent:
  "serialize_payload (\<lambda>t. Inr (nt_data t)) ex_payload = Inr (Some [
     (''hidden_states.output'', \<lparr>w_tensor = Some ([5, 6], [2, 1], ''float32''), w_list = None, w_scalar = None\<rparr>),
     (''hidden_states.layer_0'', \<lparr>w_tensor = Some ([7], [1], ''int64''), w_list = None, w_scalar = None\<rparr>),
     (''hidden_states.layer_24'', \<lparr>w_tensor = None, w_list = Some [], w_scalar = None\<rparr>),
     (''meta.height'', \<lparr>w_tensor = None, w_list = None, w_scalar = Some (PV_int 8)\<rparr>),
     (''meta.decode_flag'', \<lparr>w_tensor = None, w_list = None, w_scalar = Some (PV_bool False)\<rparr>),
     (''request_id'', \<lparr>w_tensor = None, w_list = None, w_scalar = Some (PV_str ''r'')\<rparr>)])"
  by code_simp

theorem payload_survives_the_wire_witness:
  "\<exists>wire. serialize_payload (\<lambda>t. Inr (nt_data t)) ex_payload = Inr (Some wire)
     \<and> deserialize_payload (\<lambda>dt b. Inr b) wire = Inr ex_payload"
proof -
  have w: "well_keyed ex_payload" by code_simp
  have s: "\<forall>(k, v) \<in> set (flatten_payload ex_payload). sendable v" by code_simp
  from payload_survives_the_wire [OF _ w s ex_payload_sent, of "\<lambda>dt b. Inr b"] ex_payload_sent show ?thesis by auto
qed

text \<open>Without these conditions something is lost: an empty category, and a dot in a top-level key.\<close>

lemma empty_category_is_lost: "unflatten_payload (flatten_payload [(''codes'', PV_dict [])]) = Inr []"
  by (simp add: flatten_payload_def flatten_item_def nested_keys_def unflatten_payload_def)

lemma dotted_key_is_split:
  "unflatten_payload (flatten_payload [(''a.b'', PV_int 1)]) = Inr [(''a'', PV_dict [(KS ''b'', PV_int 1)] :: np_tensor pval)]"
  by code_simp

end
