(* ===== verification/Prefix_Cache.thy ===== *)
theory Prefix_Cache
  imports Runner_Payload Payload_Keys
begin

text \<open>
  \<open>OmniTensorPrefixCache\<close> (\<open>core/prefix_cache.py\<close>), the payload elements of \<open>utils/mm_outputs.py\<close>, and how the
  autoregressive runner (\<open>worker/gpu_ar_model_runner.py\<close>) uses both. A cache tensor is kept in its flat form,
  one row for each slot. The slots of a step are natural numbers, each used once; a tensor to be cached has
  two dimensions or one, with more it is taken to be refused. The block manager of the vllm package, which
  chooses slots and blocks, is an argument; feature sizes are positive. An exception ends the run.
\<close>

section \<open>State\<close>

record cache_tensor =
  feat :: nat
  slot_rows :: "int list list"

record prefix_cache =
  num_blocks :: nat
  block_size :: nat
  hidden_cache :: cache_tensor
  mm_cache :: "(string \<times> cache_tensor) list"
  mm_cache_keys :: "string set"
  hit_ids :: "string set"

type_synonym mm_outputs = "tensor keyed"

definition get_cache_tensor :: "nat \<Rightarrow> nat \<Rightarrow> nat \<Rightarrow> cache_tensor" where
  "get_cache_tensor n b f = \<lparr>feat = f, slot_rows = replicate (n * b) (replicate f 0)\<rparr>"

definition prefix_cache_init :: "nat \<Rightarrow> nat \<Rightarrow> nat \<Rightarrow> prefix_cache" where
  "prefix_cache_init n b h =
     \<lparr>num_blocks = n, block_size = b, hidden_cache = get_cache_tensor n b h, mm_cache = [], mm_cache_keys = {}, hit_ids = {}\<rparr>"

definition add_prefix_cached_new_req_id :: "string \<Rightarrow> prefix_cache \<Rightarrow> prefix_cache" where
  "add_prefix_cached_new_req_id r c = c\<lparr>hit_ids := insert r (hit_ids c)\<rparr>"

definition reset_prefix_cached_new_req_ids :: "prefix_cache \<Rightarrow> prefix_cache" where
  "reset_prefix_cached_new_req_ids c = c\<lparr>hit_ids := {}\<rparr>"

text \<open>The step of the runner begins with a reset; a new request with computed tokens is a hit.\<close>

definition mark_new_request :: "string \<Rightarrow> nat \<Rightarrow> prefix_cache \<Rightarrow> prefix_cache" where
  "mark_new_request r computed c = (if 0 < computed then add_prefix_cached_new_req_id r c else c)"

section \<open>Updates\<close>

text \<open>\<open>t[a:b]\<close>; a tensor of dimension 0 has no slices.\<close>

definition slice_tensor :: "nat \<Rightarrow> nat \<Rightarrow> tensor \<Rightarrow> tensor res" where
  "slice_tensor a b t = (if t_tail t = None then Inl IndexError else Inr (t\<lparr>t_rows := py_slice a b (t_rows t)\<rparr>))"

text \<open>\<open>val.shape[-1]\<close>\<close>

definition last_dim :: "tensor \<Rightarrow> nat" where
  "last_dim t = (case t_tail t of Some [] \<Rightarrow> length (t_rows t) | Some ns \<Rightarrow> last ns | None \<Rightarrow> 0)"

text \<open>The rows that \<open>cache[slots] = t\<close> writes, after broadcasting to \<open>n\<close> rows of \<open>f\<close> entries.\<close>

definition broadcast_rows :: "nat \<Rightarrow> nat \<Rightarrow> tensor \<Rightarrow> int list list res" where
  "broadcast_rows n f t =
     (let wide = (\<lambda>row. if length row = f then row else replicate f (hd row))
      in case t_tail t of
           Some [] \<Rightarrow>
             (let row = concat (t_rows t)
              in if length row = f \<or> length row = 1 then Inr (replicate n (wide row)) else Inl RuntimeError)
         | Some [g] \<Rightarrow>
             (if \<not> (g = f \<or> g = 1) then Inl RuntimeError
              else if length (t_rows t) = n then Inr (map wide (t_rows t))
              else if length (t_rows t) = 1 then Inr (replicate n (wide (hd (t_rows t))))
              else Inl RuntimeError)
         | _ \<Rightarrow> Inl RuntimeError)"

fun write_rows :: "nat list \<Rightarrow> int list list \<Rightarrow> int list list \<Rightarrow> int list list" where
  "write_rows (s # ss) (r # rs) m = write_rows ss rs (m[s := r])"
| "write_rows _ _ m = m"

definition put_rows :: "nat list \<Rightarrow> tensor \<Rightarrow> cache_tensor \<Rightarrow> cache_tensor res" where
  "put_rows slots t c =
     bind_res (broadcast_rows (length slots) (feat c) t) (\<lambda>rows.
       if list_all (\<lambda>s. s < length (slot_rows c)) slots
       then Inr (c\<lparr>slot_rows := write_rows slots rows (slot_rows c)\<rparr>) else Inl IndexError)"

fun maybe_init_missing_mm_cache_keys :: "mm_outputs \<Rightarrow> nat \<Rightarrow> prefix_cache \<Rightarrow> prefix_cache res" where
  "maybe_init_missing_mm_cache_keys [] n c = Inr c"
| "maybe_init_missing_mm_cache_keys ((k, v) # kvs) n c =
     (case v of
        PV_tensor t \<Rightarrow>
          (if t_tail t = None then Inl IndexError
           else if length (t_rows t) = n \<and> k \<notin> mm_cache_keys c
           then maybe_init_missing_mm_cache_keys kvs n
                  (c\<lparr>mm_cache := dict_set k (get_cache_tensor (num_blocks c) (block_size c) (last_dim t)) (mm_cache c),
                     mm_cache_keys := insert k (mm_cache_keys c)\<rparr>)
           else maybe_init_missing_mm_cache_keys kvs n c)
      | _ \<Rightarrow> maybe_init_missing_mm_cache_keys kvs n c)"

text \<open>\<open>v[:n]\<close> and \<open>.detach()\<close>, which only tensors have.\<close>

definition cached_value :: "nat \<Rightarrow> tensor pval \<Rightarrow> tensor res" where
  "cached_value n v =
     (case v of
        PV_tensor t \<Rightarrow> slice_tensor 0 n t
      | PV_list _ \<Rightarrow> Inl AttributeError
      | PV_str _ \<Rightarrow> Inl AttributeError
      | _ \<Rightarrow> Inl TypeError)"

definition put_mm :: "mm_outputs \<Rightarrow> nat \<Rightarrow> nat list \<Rightarrow> string \<times> cache_tensor \<Rightarrow> (string \<times> cache_tensor) res" where
  "put_mm outs n slots kc =
     (case kc of (k, c) \<Rightarrow>
        (case map_of outs k of
           None \<Rightarrow> Inr (k, c)
         | Some v \<Rightarrow> bind_res (cached_value n v) (\<lambda>t. bind_res (put_rows slots t c) (\<lambda>c1. Inr (k, c1)))))"

record update_call =
  u_hidden :: "tensor option"
  u_outputs :: "mm_outputs option"
  u_unpadded :: nat
  u_slots :: "nat list"
  u_padded :: "nat option"

definition update_hidden :: "update_call \<Rightarrow> prefix_cache \<Rightarrow> prefix_cache res" where
  "update_hidden u c =
     (case u_hidden u of
        None \<Rightarrow> Inr c
      | Some h \<Rightarrow>
          bind_res (slice_tensor 0 (u_unpadded u) h) (\<lambda>t.
          bind_res (put_rows (take (u_unpadded u) (u_slots u)) t (hidden_cache c)) (\<lambda>hc. Inr (c\<lparr>hidden_cache := hc\<rparr>))))"

definition update_mm :: "update_call \<Rightarrow> prefix_cache \<Rightarrow> prefix_cache res" where
  "update_mm u c =
     (case u_outputs u of
        None \<Rightarrow> Inr c
      | Some outs \<Rightarrow>
          bind_res (maybe_init_missing_mm_cache_keys outs (case u_padded u of None \<Rightarrow> u_unpadded u | Some n \<Rightarrow> n) c) (\<lambda>c1.
          bind_res (traverse (put_mm outs (u_unpadded u) (take (u_unpadded u) (u_slots u))) (mm_cache c1)) (\<lambda>mc.
            Inr (c1\<lparr>mm_cache := mc\<rparr>))))"

definition update_omni_tensor_prefix_cache :: "update_call \<Rightarrow> prefix_cache \<Rightarrow> prefix_cache res" where
  "update_omni_tensor_prefix_cache u c = bind_res (update_hidden u c) (update_mm u)"

section \<open>Merged states\<close>

text \<open>What is read of a batch; \<open>block_tables\<close> is the table of its first group.\<close>

record input_batch =
  b_req_ids :: "string list"
  b_index :: "(string \<times> nat) list"
  b_computed :: "nat list"
  b_blocks :: "nat list list"
  b_start :: "nat list"
  b_scheduled :: "(string \<times> nat) list"

definition get_cached_block_ids :: "prefix_cache \<Rightarrow> nat \<Rightarrow> input_batch \<Rightarrow> nat list res" where
  "get_cached_block_ids c i b =
     bind_res (py_get (b_computed b) i) (\<lambda>n.
     bind_res (py_get (b_blocks b) i) (\<lambda>row. Inr (take (n div block_size c) row)))"

text \<open>\<open>cache[block_ids].reshape(-1, feat)\<close>\<close>

definition block_rows :: "prefix_cache \<Rightarrow> cache_tensor \<Rightarrow> nat list \<Rightarrow> tensor res" where
  "block_rows c ct ids =
     (if list_all (\<lambda>k. k < num_blocks c) ids
      then Inr \<lparr>t_tail = Some [feat ct], t_rows = concat (map (\<lambda>k. py_slice (k * block_size c) (Suc k * block_size c) (slot_rows ct)) ids)\<rparr>
      else Inl IndexError)"

definition request_rows :: "input_batch \<Rightarrow> nat \<Rightarrow> string \<Rightarrow> tensor \<Rightarrow> tensor res" where
  "request_rows b i r t =
     bind_res (py_get (b_start b) i) (\<lambda>start.
     bind_res (dict_get (b_scheduled b) r) (\<lambda>n. slice_tensor start (start + n) t))"

definition merge_request :: "prefix_cache \<Rightarrow> input_batch \<Rightarrow> cache_tensor \<Rightarrow> tensor \<Rightarrow> string \<Rightarrow> (string \<times> tensor) res" where
  "merge_request c b ct t r =
     bind_res (dict_get (b_index b) r) (\<lambda>i.
       if r \<in> hit_ids c
       then bind_res (get_cached_block_ids c i b) (\<lambda>ids.
            bind_res (block_rows c ct ids) (\<lambda>old.
            bind_res (request_rows b i r t) (\<lambda>new.
            bind_res (cat_rows old new) (\<lambda>u. Inr (r, u)))))
       else bind_res (request_rows b i r t) (\<lambda>new. Inr (r, new)))"

definition get_merged_tensors :: "prefix_cache \<Rightarrow> input_batch \<Rightarrow> cache_tensor \<Rightarrow> tensor \<Rightarrow> (string \<times> tensor) list res" where
  "get_merged_tensors c b ct t = traverse (merge_request c b ct t) (b_req_ids b)"

definition get_merged_hidden_states :: "prefix_cache \<Rightarrow> input_batch \<Rightarrow> tensor \<Rightarrow> (string \<times> tensor) list res" where
  "get_merged_hidden_states c b t = get_merged_tensors c b (hidden_cache c) t"

section \<open>Payload elements\<close>

definition str_keys :: "(pkey \<times> tensor pval) list \<Rightarrow> (pkey \<times> tensor pval) list" where
  "str_keys d = foldl (\<lambda>e (q, v). case v of PV_tensor t \<Rightarrow> dict_set (KS (key_str q)) v e | _ \<Rightarrow> e) [] d"

definition mm_cpu_value :: "tensor pval \<Rightarrow> tensor pval option" where
  "mm_cpu_value v =
     (case v of
        PV_dict d \<Rightarrow> (if str_keys d = [] then None else Some (PV_dict (str_keys d)))
      | PV_none \<Rightarrow> None
      | _ \<Rightarrow> Some v)"

definition build_mm_cpu :: "mm_outputs \<Rightarrow> mm_outputs" where
  "build_mm_cpu outs = List.map_filter (\<lambda>(k, v). map_option (\<lambda>u. (k, u)) (mm_cpu_value v)) outs"

text \<open>\<open>sv[start:end].contiguous()\<close>\<close>

definition sliced_value :: "nat \<Rightarrow> nat \<Rightarrow> tensor pval \<Rightarrow> tensor pval res" where
  "sliced_value a b v =
     (case v of
        PV_tensor t \<Rightarrow> bind_res (slice_tensor a b t) (\<lambda>u. Inr (PV_tensor u))
      | PV_list _ \<Rightarrow> Inl AttributeError
      | PV_str _ \<Rightarrow> Inl AttributeError
      | _ \<Rightarrow> Inl TypeError)"

definition to_payload_element :: "tensor pval \<Rightarrow> nat \<Rightarrow> nat \<Rightarrow> nat \<Rightarrow> bool \<Rightarrow> nat option \<Rightarrow> tensor pval res" where
  "to_payload_element v i start stop pass_lists seq_len =
     (case v of
        PV_tensor t \<Rightarrow>
          (case seq_len of
             None \<Rightarrow> Inr v
           | Some n \<Rightarrow>
               (if t_tail t = None then Inl IndexError
                else if length (t_rows t) = n then bind_res (slice_tensor start stop t) (\<lambda>u. Inr (PV_tensor u)) else Inr v))
      | PV_dict d \<Rightarrow> bind_res (traverse (\<lambda>(q, u). bind_res (sliced_value start stop u) (\<lambda>w. Inr (q, w))) d) (\<lambda>e. Inr (PV_dict e))
      | PV_list xs \<Rightarrow>
          (if pass_lists then Inr v
           else if i < length xs then Inr (xs ! i) else if xs = [] then Inl IndexError else Inr (hd xs))
      | _ \<Rightarrow> Inr v)"

definition coerce_to_payload_dict :: "input_batch \<Rightarrow> tensor pval \<Rightarrow> (string \<times> tensor pval) list res" where
  "coerce_to_payload_dict b v =
     traverse (\<lambda>r. bind_res (dict_get (b_index b) r) (\<lambda>i.
       bind_res (py_get (b_start b) i) (\<lambda>start.
       bind_res (dict_get (b_scheduled b) r) (\<lambda>n.
       bind_res (to_payload_element v i start (start + n) True None) (\<lambda>w. Inr (r, w)))))) (b_req_ids b)"

text \<open>\<open>ord\<close> is the order in which the set of cached keys is run through.\<close>

definition get_merged_multimodal_states ::
  "(string set \<Rightarrow> string list) \<Rightarrow> prefix_cache \<Rightarrow> input_batch \<Rightarrow> mm_outputs \<Rightarrow> (string \<times> (string \<times> tensor pval) list) list res" where
  "get_merged_multimodal_states ord c b outs =
     bind_res (traverse (\<lambda>k.
         bind_res (dict_get (mm_cache c) k) (\<lambda>ct.
         bind_res (case map_of outs k of Some (PV_tensor t) \<Rightarrow> Inr t | _ \<Rightarrow> Inl AttributeError) (\<lambda>t.
         bind_res (get_merged_tensors c b ct t) (\<lambda>m. Inr (k, map (\<lambda>(r, u). (r, PV_tensor u)) m)))))
       (filter (\<lambda>k. k \<in> fst ` set outs) (ord (mm_cache_keys c)))) (\<lambda>cached.
     bind_res (traverse (\<lambda>(k, v). bind_res (coerce_to_payload_dict b v) (\<lambda>m. Inr (k, m)))
       (build_mm_cpu (filter (\<lambda>(k, v). k \<notin> mm_cache_keys c) outs))) (\<lambda>passed.
       Inr (cached @ passed)))"

section \<open>The runner\<close>

datatype cache_event = Reset_hits | New_request string nat | Update update_call

fun cache_run :: "cache_event list \<Rightarrow> prefix_cache \<Rightarrow> prefix_cache res" where
  "cache_run [] c = Inr c"
| "cache_run (Reset_hits # es) c = cache_run es (reset_prefix_cached_new_req_ids c)"
| "cache_run (New_request r n # es) c = cache_run es (mark_new_request r n c)"
| "cache_run (Update u # es) c = bind_res (update_omni_tensor_prefix_cache u c) (cache_run es)"

definition maybe_update_prefix_cache :: "bool \<Rightarrow> update_call \<Rightarrow> prefix_cache option \<Rightarrow> prefix_cache option res" where
  "maybe_update_prefix_cache last_rank u pc =
     (case pc of
        None \<Rightarrow> Inr None
      | Some c \<Rightarrow> if last_rank then bind_res (update_omni_tensor_prefix_cache u c) (\<lambda>c1. Inr (Some c1)) else Inr pc)"

definition resolve_req_hidden_states :: "tensor \<Rightarrow> (string \<times> tensor) list option \<Rightarrow> string \<Rightarrow> nat \<Rightarrow> nat \<Rightarrow> tensor res" where
  "resolve_req_hidden_states t combined r start stop =
     (case combined of
        None \<Rightarrow> slice_tensor start stop t
      | Some m \<Rightarrow> (case map_of m r of None \<Rightarrow> Inl RuntimeError | Some u \<Rightarrow> Inr u))"

text \<open>The multimodal part of the payload of one request, with the prefix cache and without.\<close>

definition mm_payload_cached :: "(string \<times> (string \<times> tensor pval) list) list \<Rightarrow> string \<Rightarrow> nat \<Rightarrow> mm_outputs res" where
  "mm_payload_cached combined r i =
     traverse (\<lambda>(k, m). bind_res (dict_get m r) (\<lambda>v.
       (case v of
          PV_list xs \<Rightarrow> (if i < length xs then Inr (k, xs ! i) else if xs = [] then Inl IndexError else Inr (k, hd xs))
        | _ \<Rightarrow> Inr (k, v)))) combined"

definition mm_payload_plain :: "mm_outputs \<Rightarrow> nat \<Rightarrow> nat \<Rightarrow> nat \<Rightarrow> nat \<Rightarrow> mm_outputs res" where
  "mm_payload_plain mm_cpu i start stop seq_len =
     traverse (\<lambda>(k, v). bind_res (to_payload_element v i start stop False (Some seq_len)) (\<lambda>w. Inr (k, w))) mm_cpu"

definition mm_payload ::
  "(string set \<Rightarrow> string list) \<Rightarrow> prefix_cache option \<Rightarrow> input_batch \<Rightarrow> mm_outputs \<Rightarrow> nat \<Rightarrow> string \<Rightarrow> mm_outputs res" where
  "mm_payload ord pc b outs seq_len r =
     bind_res (dict_get (b_index b) r) (\<lambda>i.
     bind_res (py_get (b_start b) i) (\<lambda>start.
     bind_res (dict_get (b_scheduled b) r) (\<lambda>n.
       (case pc of
          None \<Rightarrow> mm_payload_plain (build_mm_cpu (flatten_payload outs)) i start (start + n) seq_len
        | Some c \<Rightarrow> bind_res (get_merged_multimodal_states ord c b outs) (\<lambda>combined. mm_payload_cached combined r i)))))"

end
