(* ===== verification/Prefix_Cache_Properties.thy ===== *)
theory Prefix_Cache_Properties
  imports Prefix_Cache
begin

text \<open>
  A request that hits the prefix cache gets the states it would have computed; in a batch without a hit
  the requests get the payload they would get without a cache, as long as the outputs are not nested and
  the cached keys are those with a row for each token.
\<close>

section \<open>What the slots hold\<close>

text \<open>The hidden state that a step writes into a slot, and the last one of a run.\<close>

definition call_row :: "update_call \<Rightarrow> nat \<Rightarrow> int list option" where
  "call_row u s =
     (case u_hidden u of None \<Rightarrow> None | Some t \<Rightarrow> map_of (zip (take (u_unpadded u) (u_slots u)) (t_rows t)) s)"

fun last_written :: "cache_event list \<Rightarrow> nat \<Rightarrow> int list option" where
  "last_written [] s = None"
| "last_written (Update u # es) s = (case last_written es s of None \<Rightarrow> call_row u s | Some row \<Rightarrow> Some row)"
| "last_written (e # es) s = last_written es s"

text \<open>A step hands over a state for each of its tokens and a slot of its own for each.\<close>

definition well_call :: "nat \<Rightarrow> update_call \<Rightarrow> bool" where
  "well_call f u \<longleftrightarrow> (case u_hidden u of
      None \<Rightarrow> True
    | Some t \<Rightarrow> t_tail t = Some [f] \<and> wf_tensor t \<and> u_unpadded u \<le> length (t_rows t) \<and> u_unpadded u \<le> length (u_slots u)
        \<and> distinct (take (u_unpadded u) (u_slots u)))"

definition well_event :: "nat \<Rightarrow> cache_event \<Rightarrow> bool" where
  "well_event f e = (case e of Update u \<Rightarrow> well_call f u | _ \<Rightarrow> True)"

lemma length_write_rows [simp]: "length (write_rows ss rs m) = length m"
  by (induction ss rs m rule: write_rows.induct) simp_all

lemma write_rows_other: "s \<notin> set ss \<Longrightarrow> write_rows ss rs m ! s = m ! s"
  by (induction ss rs m rule: write_rows.induct) simp_all

lemma write_rows_nth:
  assumes "distinct ss" and "s < length m"
  shows "write_rows ss rs m ! s = (case map_of (zip ss rs) s of None \<Rightarrow> m ! s | Some r \<Rightarrow> r)"
  using assms
proof (induction ss rs m rule: write_rows.induct)
  case (1 s' ss r rs m)
  then show ?case by (cases "s = s'") (auto simp: write_rows_other split: option.split)
qed simp_all

lemma zip_take_slots: "n \<le> length ss \<Longrightarrow> zip (take n ss) (take n rs) = zip (take n ss) rs"
  by (rule nth_equalityI) auto

text \<open>What an update of the hidden states does, and that the rest of it does not touch them.\<close>

definition same_shape :: "prefix_cache \<Rightarrow> prefix_cache \<Rightarrow> bool" where
  "same_shape c c' \<longleftrightarrow> num_blocks c' = num_blocks c \<and> block_size c' = block_size c \<and> feat (hidden_cache c') = feat (hidden_cache c)
     \<and> length (slot_rows (hidden_cache c')) = length (slot_rows (hidden_cache c))"

lemma update_hidden_rows:
  assumes "update_hidden u c = Inr c'" and "well_call (feat (hidden_cache c)) u"
  shows "same_shape c c' \<and> (\<forall>s < length (slot_rows (hidden_cache c)).
    slot_rows (hidden_cache c') ! s = (case call_row u s of None \<Rightarrow> slot_rows (hidden_cache c) ! s | Some r \<Rightarrow> r))"
proof (cases "u_hidden u")
  case None
  with assms show ?thesis by (simp add: update_hidden_def same_shape_def call_row_def)
next
  case (Some t)
  let ?n = "u_unpadded u" and ?f = "feat (hidden_cache c)"
  have t: "t_tail t = Some [?f]" "wf_tensor t" "?n \<le> length (t_rows t)" "?n \<le> length (u_slots u)" "distinct (take ?n (u_slots u))"
    using assms(2) Some by (simp_all add: well_call_def)
  have wide: "map (\<lambda>row. if length row = ?f then row else replicate ?f (hd row)) (take ?n (t_rows t)) = take ?n (t_rows t)"
    using t(1,2) by (intro map_idI) (auto simp: wf_tensor_def dest: in_set_takeD)
  have rows: "broadcast_rows (length (take ?n (u_slots u))) ?f (t\<lparr>t_rows := take ?n (t_rows t)\<rparr>) = Inr (take ?n (t_rows t))"
    using t(1,3,4) wide by (simp add: broadcast_rows_def)
  have sl: "slice_tensor 0 ?n t = Inr (t\<lparr>t_rows := take ?n (t_rows t)\<rparr>)" using t(1) by (simp add: slice_tensor_def py_slice_def)
  have c': "c' = c\<lparr>hidden_cache := (hidden_cache c)\<lparr>slot_rows :=
      write_rows (take ?n (u_slots u)) (take ?n (t_rows t)) (slot_rows (hidden_cache c))\<rparr>\<rparr>"
    using assms(1) by (simp add: update_hidden_def Some sl put_rows_def rows [simplified length_take] split: if_splits)
  have z: "zip (take ?n (u_slots u)) (take ?n (t_rows t)) = zip (take ?n (u_slots u)) (t_rows t)" by (rule zip_take_slots [OF t(4)])
  show ?thesis
    using write_rows_nth [OF t(5), of _ "slot_rows (hidden_cache c)" "take ?n (t_rows t)"]
    by (simp add: c' same_shape_def call_row_def Some z)
qed

lemma init_missing_hidden:
  "maybe_init_missing_mm_cache_keys outs n c = Inr c' \<Longrightarrow>
    hidden_cache c' = hidden_cache c \<and> num_blocks c' = num_blocks c \<and> block_size c' = block_size c \<and> hit_ids c' = hit_ids c"
proof (induction outs n c rule: maybe_init_missing_mm_cache_keys.induct)
  case (2 k v kvs n c)
  then show ?case by (cases v) (auto split: if_splits)
qed simp

lemma update_mm_hidden:
  "update_mm u c = Inr c' \<Longrightarrow>
    hidden_cache c' = hidden_cache c \<and> num_blocks c' = num_blocks c \<and> block_size c' = block_size c \<and> hit_ids c' = hit_ids c"
  by (auto simp: update_mm_def bind_res_Inr dest: init_missing_hidden split: option.splits)

lemma hits_hidden [simp]:
  "hidden_cache (reset_prefix_cached_new_req_ids c) = hidden_cache c" "hidden_cache (mark_new_request r n c) = hidden_cache c"
  "num_blocks (reset_prefix_cached_new_req_ids c) = num_blocks c" "num_blocks (mark_new_request r n c) = num_blocks c"
  "block_size (reset_prefix_cached_new_req_ids c) = block_size c" "block_size (mark_new_request r n c) = block_size c"
  by (simp_all add: reset_prefix_cached_new_req_ids_def mark_new_request_def add_prefix_cached_new_req_id_def)

lemma cache_run_rows:
  assumes "cache_run es c = Inr c'" and "\<forall>e \<in> set es. well_event (feat (hidden_cache c)) e"
  shows "same_shape c c' \<and> (\<forall>s < length (slot_rows (hidden_cache c)).
    slot_rows (hidden_cache c') ! s = (case last_written es s of None \<Rightarrow> slot_rows (hidden_cache c) ! s | Some r \<Rightarrow> r))"
  using assms
proof (induction es c rule: cache_run.induct)
  case (1 c)
  then show ?case by (simp add: same_shape_def)
next
  case (2 es c)
  from 2(1) [unfolded hits_hidden] 2(2,3) show ?case by (simp add: same_shape_def)
next
  case (3 r n es c)
  from 3(1) [unfolded hits_hidden] 3(2,3) show ?case by (simp add: same_shape_def)
next
  case (4 u es c)
  from 4(2) obtain c1 c2 where u: "update_hidden u c = Inr c1" "update_mm u c1 = Inr c2" "cache_run es c2 = Inr c'"
    by (auto simp: update_omni_tensor_prefix_cache_def bind_res_Inr)
  have up: "update_omni_tensor_prefix_cache u c = Inr c2" by (simp add: update_omni_tensor_prefix_cache_def u)
  have "well_call (feat (hidden_cache c)) u" using 4(3) by (simp add: well_event_def)
  note h = update_hidden_rows [OF u(1) this]
  note m = update_mm_hidden [OF u(2)]
  have f: "feat (hidden_cache c2) = feat (hidden_cache c)" using h m by (simp add: same_shape_def)
  have "\<forall>e \<in> set es. well_event (feat (hidden_cache c2)) e" using 4(3) unfolding f by simp
  from 4(1) [OF u(3) this] h m show ?case by (auto simp: same_shape_def split: option.split)
qed

section \<open>Requests that hit the cache\<close>

text \<open>The slot of a position, from the request's blocks.\<close>

definition slot_of :: "nat \<Rightarrow> nat list \<Rightarrow> nat \<Rightarrow> nat" where
  "slot_of bs blocks p = blocks ! (p div bs) * bs + p mod bs"

text \<open>A request the batch describes completely: all blocks of its computed tokens exist, and the states of its scheduled tokens are there.\<close>

definition request_ok :: "nat \<Rightarrow> nat \<Rightarrow> input_batch \<Rightarrow> tensor \<Rightarrow> string \<Rightarrow> bool" where
  "request_ok nb bs b t r \<longleftrightarrow>
     (case (map_of (b_index b) r, map_of (b_scheduled b) r) of
        (Some i, Some n) \<Rightarrow>
          i < length (b_computed b) \<and> i < length (b_blocks b) \<and> i < length (b_start b) \<and> b_start b ! i + n \<le> length (t_rows t)
          \<and> b_computed b ! i div bs \<le> length (b_blocks b ! i) \<and> list_all (\<lambda>k. k < nb) (take (b_computed b ! i div bs) (b_blocks b ! i))
      | _ \<Rightarrow> False)"

definition row_index :: "input_batch \<Rightarrow> string \<Rightarrow> nat" where "row_index b r = the (map_of (b_index b) r)"
definition computed_of :: "input_batch \<Rightarrow> string \<Rightarrow> nat" where "computed_of b r = b_computed b ! row_index b r"
definition scheduled_of :: "input_batch \<Rightarrow> string \<Rightarrow> nat" where "scheduled_of b r = the (map_of (b_scheduled b) r)"
definition blocks_of :: "input_batch \<Rightarrow> string \<Rightarrow> nat list" where "blocks_of b r = b_blocks b ! row_index b r"
definition start_of :: "input_batch \<Rightarrow> string \<Rightarrow> nat" where "start_of b r = b_start b ! row_index b r"

lemmas batch_reads = row_index_def computed_of_def scheduled_of_def blocks_of_def start_of_def

lemma request_okD:
  assumes "request_ok nb bs b t r"
  shows "map_of (b_index b) r = Some (row_index b r)" "map_of (b_scheduled b) r = Some (scheduled_of b r)"
    "py_get (b_computed b) (row_index b r) = Inr (computed_of b r)" "py_get (b_blocks b) (row_index b r) = Inr (blocks_of b r)"
    "py_get (b_start b) (row_index b r) = Inr (start_of b r)" "start_of b r + scheduled_of b r \<le> length (t_rows t)"
    "computed_of b r div bs \<le> length (blocks_of b r)" "\<forall>k \<in> set (take (computed_of b r div bs) (blocks_of b r)). k < nb"
  using assms by (auto simp: request_ok_def batch_reads py_get_def list_all_iff split: option.splits)

lemma request_rows_ok:
  assumes "request_ok nb bs b t r" and "t_tail t \<noteq> None"
  shows "request_rows b (row_index b r) r t = Inr (t\<lparr>t_rows := py_slice (start_of b r) (start_of b r + scheduled_of b r) (t_rows t)\<rparr>)"
  using request_okD [OF assms(1)] assms(2) by (simp add: request_rows_def dict_get_def slice_tensor_def)

lemma block_slots:
  assumes "0 < bs" and "length rows = nb * bs"
  shows "\<forall>k \<in> set ids. k < nb \<Longrightarrow>
    concat (map (\<lambda>k. py_slice (k * bs) (Suc k * bs) rows) ids) = map (\<lambda>p. rows ! slot_of bs ids p) [0 ..< length ids * bs]"
proof (induction ids rule: rev_induct)
  case (snoc k ids)
  have k: "k * bs + bs \<le> length rows"
  proof -
    have "Suc k * bs \<le> nb * bs" using snoc.prems by (intro mult_le_mono1) simp
    then show ?thesis by (simp add: assms(2) add.commute)
  qed
  have one: "py_slice (k * bs) (Suc k * bs) rows = map (\<lambda>p. rows ! slot_of bs (ids @ [k]) p) [length ids * bs ..< length ids * bs + bs]"
  proof (rule nth_equalityI)
    fix i
    assume "i < length (py_slice (k * bs) (Suc k * bs) rows)"
    then have i: "i < bs" using k by (simp add: length_py_slice)
    then have "(length ids * bs + i) div bs = length ids" "(length ids * bs + i) mod bs = i" using assms(1) by simp_all
    with i k show "py_slice (k * bs) (Suc k * bs) rows ! i
        = map (\<lambda>p. rows ! slot_of bs (ids @ [k]) p) [length ids * bs ..< length ids * bs + bs] ! i"
      by (simp add: py_slice_def slot_of_def)
  qed (use k in \<open>simp add: length_py_slice\<close>)
  have old: "map (\<lambda>p. rows ! slot_of bs ids p) [0 ..< length ids * bs] = map (\<lambda>p. rows ! slot_of bs (ids @ [k]) p) [0 ..< length ids * bs]"
    using assms(1) by (intro map_cong) (auto simp: slot_of_def nth_append less_mult_imp_div_less)
  have "[0 ..< length (ids @ [k]) * bs] = [0 ..< length ids * bs] @ [length ids * bs ..< length ids * bs + bs]"
    using upt_add_eq_append [of 0 "length ids * bs" bs] by (simp add: add.commute)
  with snoc one old show ?case by simp
qed simp

text \<open>The positions whose states a request is given: those of its full cached blocks and those scheduled.\<close>

definition merged_positions :: "nat \<Rightarrow> bool \<Rightarrow> nat \<Rightarrow> nat \<Rightarrow> nat list" where
  "merged_positions bs hit computed n = (if hit then [0 ..< computed div bs * bs] else []) @ [computed ..< computed + n]"

lemma merge_request_rows:
  assumes "0 < block_size c" and "length (slot_rows ct) = num_blocks c * block_size c"
    and "request_ok (num_blocks c) (block_size c) b t r" and "t_tail t = Some [feat ct]"
    and "py_slice (start_of b r) (start_of b r + scheduled_of b r) (t_rows t) = map h [computed_of b r ..< computed_of b r + scheduled_of b r]"
    and "r \<in> hit_ids c \<Longrightarrow> \<forall>p < computed_of b r div block_size c * block_size c. slot_rows ct ! slot_of (block_size c) (blocks_of b r) p = h p"
  shows "merge_request c b ct t r = Inr (r, \<lparr>t_tail = Some [feat ct],
    t_rows = map h (merged_positions (block_size c) (r \<in> hit_ids c) (computed_of b r) (scheduled_of b r))\<rparr>)"
proof -
  let ?q = "computed_of b r div block_size c"
  let ?ids = "take ?q (blocks_of b r)"
  note ok = request_okD [OF assms(3)]
  have new: "request_rows b (row_index b r) r t
      = Inr \<lparr>t_tail = Some [feat ct], t_rows = map h [computed_of b r ..< computed_of b r + scheduled_of b r]\<rparr>"
    using request_rows_ok [OF assms(3)] assms(4,5) by simp
  show ?thesis
  proof (cases "r \<in> hit_ids c")
    case False
    with ok(1) new show ?thesis by (simp add: merge_request_def dict_get_def merged_positions_def)
  next
    case True
    have len: "length ?ids = ?q" using ok(7) by simp
    have "slot_of (block_size c) ?ids p = slot_of (block_size c) (blocks_of b r) p" if "p < ?q * block_size c" for p
      using that assms(1) by (simp add: slot_of_def less_mult_imp_div_less)
    with assms(6) [OF True] have "map (\<lambda>p. slot_rows ct ! slot_of (block_size c) ?ids p) [0 ..< length ?ids * block_size c] = map h [0 ..< ?q * block_size c]"
      unfolding len by (intro map_cong) auto
    with block_slots [OF assms(1,2) ok(8)]
    have old: "block_rows c ct ?ids = Inr \<lparr>t_tail = Some [feat ct], t_rows = map h [0 ..< ?q * block_size c]\<rparr>"
      using ok(8) by (simp add: block_rows_def list_all_iff)
    have ids: "get_cached_block_ids c (row_index b r) b = Inr ?ids" using ok by (simp add: get_cached_block_ids_def)
    from True ok(1) ids old new show ?thesis
      by (simp add: merge_request_def dict_get_def cat_rows_def empty_vector_def merged_positions_def)
  qed
qed

text \<open>C18: A request that hits the prefix cache is given the hidden states it would have computed: if its blocks are those the block manager promises, whose slots last received the states h of its positions, then the merged states are h of all positions of its full cached blocks, followed by those of the tokens scheduled now; a request that does not hit gets those scheduled now, and no batch makes the merge fail.\<close>

theorem prefix_hits_restore_the_states:
  assumes "cache_run es (prefix_cache_init nb bs f) = Inr c" and "\<forall>e \<in> set es. well_event f e" and "0 < bs"
    and "t_tail t = Some [f]" and "\<forall>r \<in> set (b_req_ids b). request_ok nb bs b t r"
    and "\<forall>r \<in> set (b_req_ids b). py_slice (start_of b r) (start_of b r + scheduled_of b r) (t_rows t)
      = map (h r) [computed_of b r ..< computed_of b r + scheduled_of b r]"
    and "\<forall>r \<in> set (b_req_ids b) \<inter> hit_ids c. \<forall>p < computed_of b r div bs * bs. last_written es (slot_of bs (blocks_of b r) p) = Some (h r p)"
  shows "get_merged_hidden_states c b t = Inr (map (\<lambda>r. (r, \<lparr>t_tail = Some [f],
    t_rows = map (h r) (merged_positions bs (r \<in> hit_ids c) (computed_of b r) (scheduled_of b r))\<rparr>)) (b_req_ids b))"
proof -
  have init: "num_blocks (prefix_cache_init nb bs f) = nb" "block_size (prefix_cache_init nb bs f) = bs"
    "feat (hidden_cache (prefix_cache_init nb bs f)) = f" "length (slot_rows (hidden_cache (prefix_cache_init nb bs f))) = nb * bs"
    by (simp_all add: prefix_cache_init_def get_cache_tensor_def)
  note run = cache_run_rows [OF assms(1), unfolded init, OF assms(2)]
  have c: "num_blocks c = nb" "block_size c = bs" "feat (hidden_cache c) = f" "length (slot_rows (hidden_cache c)) = nb * bs"
    using run by (simp_all add: same_shape_def init)
  have "merge_request c b (hidden_cache c) t r = Inr (r, \<lparr>t_tail = Some [f],
      t_rows = map (h r) (merged_positions bs (r \<in> hit_ids c) (computed_of b r) (scheduled_of b r))\<rparr>)" if r: "r \<in> set (b_req_ids b)" for r
  proof (rule merge_request_rows [of c "hidden_cache c" b t r "h r", unfolded c])
    show "0 < bs" "nb * bs = nb * bs" "request_ok nb bs b t r" "t_tail t = Some [f]" using assms(3,4,5) r by simp_all
    show "py_slice (start_of b r) (start_of b r + scheduled_of b r) (t_rows t) = map (h r) [computed_of b r ..< computed_of b r + scheduled_of b r]"
      using assms(6) r by blast
    assume hit: "r \<in> hit_ids c"
    have "slot_rows (hidden_cache c) ! slot_of bs (blocks_of b r) p = h r p" if p: "p < computed_of b r div bs * bs" for p
    proof -
      have "request_ok nb bs b t r" using assms(5) r by blast
      note ok = request_okD(7,8) [OF this]
      have i: "p div bs < computed_of b r div bs" using p by (rule less_mult_imp_div_less)
      then have "blocks_of b r ! (p div bs) \<in> set (take (computed_of b r div bs) (blocks_of b r))"
        using ok(1) by (auto simp: in_set_conv_nth intro!: exI [of _ "p div bs"])
      with ok(2) have k: "Suc (blocks_of b r ! (p div bs)) \<le> nb" by (simp add: Suc_le_eq)
      have "slot_of bs (blocks_of b r) p < Suc (blocks_of b r ! (p div bs)) * bs" using assms(3) by (simp add: slot_of_def)
      also have "\<dots> \<le> nb * bs" using k by (rule mult_le_mono1)
      finally have "slot_of bs (blocks_of b r) p < nb * bs" .
      with run assms(7) r hit p show ?thesis by auto
    qed
    then show "\<forall>p < computed_of b r div bs * bs. slot_rows (hidden_cache c) ! slot_of bs (blocks_of b r) p = h r p" by blast
  qed
  then show ?thesis by (simp add: get_merged_hidden_states_def get_merged_tensors_def traverse_map)
qed


definition ex_events :: "cache_event list" where
  "ex_events = [Update \<lparr>u_hidden = Some \<lparr>t_tail = Some [1], t_rows = [[10], [11], [12], [0]]\<rparr>, u_outputs = None, u_unpadded = 3,
     u_slots = [2, 3, 0, 0], u_padded = Some 4\<rparr>, Reset_hits, New_request ''b'' 2]"

definition ex_batch :: input_batch where
  "ex_batch = \<lparr>b_req_ids = [''a'', ''b''], b_index = [(''a'', 0), (''b'', 1)], b_computed = [3, 2], b_blocks = [[1, 0], [1, 2]], b_start = [0, 1],
     b_scheduled = [(''a'', 1), (''b'', 1)]\<rparr>"

theorem prefix_hits_restore_the_states_witness:
  "\<exists>c. cache_run ex_events (prefix_cache_init 3 2 1) = Inr c
     \<and> get_merged_hidden_states c ex_batch \<lparr>t_tail = Some [1], t_rows = [[13], [12]]\<rparr>
         = Inr [(''a'', \<lparr>t_tail = Some [1], t_rows = [[13]]\<rparr>), (''b'', \<lparr>t_tail = Some [1], t_rows = [[10], [11], [12]]\<rparr>)]"
proof -
  let ?t = "\<lparr>t_tail = Some [1], t_rows = [[13], [12]]\<rparr>" and ?h = "\<lambda>(r :: string) p. [int p + 10]"
  have "(case cache_run ex_events (prefix_cache_init 3 2 1) of Inr c \<Rightarrow> ''b'' \<in> hit_ids c \<and> ''a'' \<notin> hit_ids c | _ \<Rightarrow> False)" by code_simp
  then obtain c where c: "cache_run ex_events (prefix_cache_init 3 2 1) = Inr c" "''b'' \<in> hit_ids c" "''a'' \<notin> hit_ids c"
    by (auto split: sum.splits)
  have ev: "\<forall>e \<in> set ex_events. well_event 1 e" by code_simp
  have ok: "\<forall>r \<in> set (b_req_ids ex_batch). request_ok 3 2 ex_batch ?t r" by code_simp
  have reads: "b_req_ids ex_batch = [''a'', ''b'']" "computed_of ex_batch ''a'' = 3" "computed_of ex_batch ''b'' = 2"
    "scheduled_of ex_batch ''a'' = 1" "scheduled_of ex_batch ''b'' = 1" "start_of ex_batch ''a'' = 0" "start_of ex_batch ''b'' = 1"
    "blocks_of ex_batch ''b'' = [1, 2]"
    by (simp_all add: ex_batch_def batch_reads)
  have new: "\<forall>r \<in> set (b_req_ids ex_batch). py_slice (start_of ex_batch r) (start_of ex_batch r + scheduled_of ex_batch r) (t_rows ?t)
      = map (?h r) [computed_of ex_batch r ..< computed_of ex_batch r + scheduled_of ex_batch r]"
    by (simp add: reads py_slice_def)
  have slots: "last_written ex_events (slot_of 2 [1, 2] 0) = Some [10]" "last_written ex_events (slot_of 2 [1, 2] 1) = Some [11]"
    by (simp_all add: ex_events_def slot_of_def call_row_def)
  have "\<forall>p < computed_of ex_batch ''b'' div 2 * 2. last_written ex_events (slot_of 2 (blocks_of ex_batch ''b'') p) = Some (?h ''b'' p)"
    using slots by (auto simp: reads less_Suc_eq numeral_2_eq_2)
  then have old: "\<forall>r \<in> set (b_req_ids ex_batch) \<inter> hit_ids c. \<forall>p < computed_of ex_batch r div 2 * 2.
      last_written ex_events (slot_of 2 (blocks_of ex_batch r) p) = Some (?h r p)"
    using c(3) by (simp add: reads(1) Ball_def)
  have "get_merged_hidden_states c ex_batch ?t
      = Inr [(''a'', \<lparr>t_tail = Some [1], t_rows = [[13]]\<rparr>), (''b'', \<lparr>t_tail = Some [1], t_rows = [[10], [11], [12]]\<rparr>)]"
    using prefix_hits_restore_the_states [OF c(1) ev _ _ ok new old] c(2,3)
    by (simp add: reads merged_positions_def upt_rec numeral_2_eq_2)
  with c(1) show ?thesis by blast
qed


section \<open>Payloads with the cache and without\<close>

definition request_listed :: "input_batch \<Rightarrow> string \<Rightarrow> bool" where
  "request_listed b r \<longleftrightarrow>
     (case (map_of (b_index b) r, map_of (b_scheduled b) r) of (Some i, Some n) \<Rightarrow> i < length (b_start b) | _ \<Rightarrow> False)"

lemma request_listedD:
  assumes "request_listed b r"
  shows "dict_get (b_index b) r = Inr (row_index b r)" "dict_get (b_scheduled b) r = Inr (scheduled_of b r)"
    "py_get (b_start b) (row_index b r) = Inr (start_of b r)"
  using assms by (auto simp: request_listed_def batch_reads py_get_def dict_get_def split: option.splits)

text \<open>Outputs without nesting, of which exactly the tensors with a row for each token are cached.\<close>

definition plain_output :: "string set \<Rightarrow> nat \<Rightarrow> string \<times> tensor pval \<Rightarrow> bool" where
  "plain_output cached n kv \<longleftrightarrow>
     (case kv of (k, v) \<Rightarrow>
       (case v of
          PV_dict d \<Rightarrow> False
        | PV_tensor t \<Rightarrow> t_tail t \<noteq> None \<and> (k \<in> cached \<longleftrightarrow> length (t_rows t) = n)
        | PV_list xs \<Rightarrow> xs \<noteq> [] \<and> k \<notin> cached
        | _ \<Rightarrow> k \<notin> cached))"

definition slice_of :: "input_batch \<Rightarrow> string \<Rightarrow> tensor \<Rightarrow> tensor" where
  "slice_of b r t = t\<lparr>t_rows := py_slice (start_of b r) (start_of b r + scheduled_of b r) (t_rows t)\<rparr>"

text \<open>What a request is given of an output.\<close>

definition element_of :: "input_batch \<Rightarrow> string \<Rightarrow> nat \<Rightarrow> tensor pval \<Rightarrow> tensor pval" where
  "element_of b r n v =
     (case v of
        PV_tensor t \<Rightarrow> if length (t_rows t) = n then PV_tensor (slice_of b r t) else v
      | PV_list xs \<Rightarrow> if row_index b r < length xs then xs ! row_index b r else hd xs
      | _ \<Rightarrow> v)"

abbreviation some_outputs :: "mm_outputs \<Rightarrow> mm_outputs" where
  "some_outputs \<equiv> filter (\<lambda>(k, v). v \<noteq> PV_none)"

lemma flatten_plain:
  assumes "list_all (plain_output cached n) outs" and "distinct (map fst outs)"
  shows "flatten_payload outs = outs"
proof -
  have "flatten_item kv = [kv]" if "plain_output cached n kv" for kv
    using that by (cases kv; cases "snd kv") (auto simp: plain_output_def flatten_item_def)
  then have "concat (map flatten_item outs) = outs" using assms(1) by (induction outs) auto
  with foldl_dict_set [of "[]" outs] assms(2) show ?thesis by (simp add: flatten_payload_def)
qed

lemma build_plain: "list_all (plain_output cached n) outs \<Longrightarrow> build_mm_cpu outs = some_outputs outs"
proof (induction outs)
  case (Cons kv outs)
  obtain k v where kv: "kv = (k, v)" by (cases kv)
  with Cons show ?case by (cases v) (auto simp: build_mm_cpu_def mm_cpu_value_def plain_output_def map_filter_simps)
qed (simp add: build_mm_cpu_def map_filter_simps)

lemma plain_element:
  assumes "plain_output cached n (k, v)" and "v \<noteq> PV_none"
  shows "to_payload_element v (row_index b r) (start_of b r) (start_of b r + scheduled_of b r) False (Some n) = Inr (element_of b r n v)"
  using assms by (cases v) (auto simp: plain_output_def to_payload_element_def element_of_def slice_tensor_def slice_of_def)

lemma payload_without_cache:
  assumes "list_all (plain_output cached n) outs" and "distinct (map fst outs)" and "request_listed b r"
  shows "mm_payload ord None b outs n r = Inr (map (\<lambda>(k, v). (k, element_of b r n v)) (some_outputs outs))"
proof -
  have "mm_payload_plain (some_outputs outs) (row_index b r) (start_of b r) (start_of b r + scheduled_of b r) n
      = Inr (map (\<lambda>(k, v). (k, element_of b r n v)) (some_outputs outs))"
    unfolding mm_payload_plain_def
  proof (rule traverse_map)
    fix kv
    assume "kv \<in> set (some_outputs outs)"
    then have "plain_output cached n kv" "snd kv \<noteq> PV_none" using assms(1) by (auto simp: list_all_iff)
    then show "(case kv of (k, v) \<Rightarrow> bind_res (to_payload_element v (row_index b r) (start_of b r) (start_of b r + scheduled_of b r) False (Some n))
        (\<lambda>w. Inr (k, w))) = Inr (case kv of (k, v) \<Rightarrow> (k, element_of b r n v))"
      using plain_element [of cached n "fst kv" "snd kv"] by (simp add: case_prod_beta)
  qed
  then show ?thesis
    using request_listedD [OF assms(3)] flatten_plain [OF assms(1,2)] build_plain [OF assms(1)] by (simp add: mm_payload_def)
qed

lemma merged_without_hits:
  assumes "hit_ids c = {}" and "\<forall>r \<in> set (b_req_ids b). request_listed b r" and "t_tail t \<noteq> None"
  shows "get_merged_tensors c b ct t = Inr (map (\<lambda>r. (r, slice_of b r t)) (b_req_ids b))"
  unfolding get_merged_tensors_def
proof (rule traverse_map)
  fix r
  assume "r \<in> set (b_req_ids b)"
  then have "request_listed b r" using assms(2) by blast
  from request_listedD [OF this] assms(1,3) show "merge_request c b ct t r = Inr (r, slice_of b r t)"
    by (simp add: merge_request_def request_rows_def slice_tensor_def slice_of_def)
qed

lemma passed_through:
  assumes "plain_output cached n (k, v)" and "\<forall>r \<in> set (b_req_ids b). request_listed b r"
  shows "coerce_to_payload_dict b v = Inr (map (\<lambda>r. (r, v)) (b_req_ids b))"
  unfolding coerce_to_payload_dict_def
proof (rule traverse_map)
  fix r
  assume "r \<in> set (b_req_ids b)"
  then have "request_listed b r" using assms(2) by blast
  moreover have "to_payload_element v i a e True None = Inr v" for i a e
    using assms(1) by (cases v) (auto simp: plain_output_def to_payload_element_def)
  ultimately show "bind_res (dict_get (b_index b) r) (\<lambda>i. bind_res (py_get (b_start b) i) (\<lambda>start.
      bind_res (dict_get (b_scheduled b) r) (\<lambda>n. bind_res (to_payload_element v i start (start + n) True None) (\<lambda>w. Inr (r, w))))) = Inr (r, v)"
    using request_listedD by simp
qed

lemma map_of_const_list: "r \<in> set rs \<Longrightarrow> map_of (map (\<lambda>r. (r, f r)) rs) r = Some (f r)"
  by (induction rs) auto

text \<open>The tensor of a cached output.\<close>

definition tensor_at :: "mm_outputs \<Rightarrow> string \<Rightarrow> tensor" where
  "tensor_at outs k = (case map_of outs k of Some (PV_tensor t) \<Rightarrow> t | _ \<Rightarrow> undefined)"

lemma cached_tensor:
  assumes "list_all (plain_output cached n) outs" and "k \<in> cached" and "k \<in> fst ` set outs"
  shows "map_of outs k = Some (PV_tensor (tensor_at outs k))" "t_tail (tensor_at outs k) \<noteq> None" "length (t_rows (tensor_at outs k)) = n"
proof -
  obtain v where v: "map_of outs k = Some v" using assms(3) by (metis map_of_eq_None_iff not_None_eq)
  then have "plain_output cached n (k, v)" using assms(1) by (auto simp: list_all_iff dest: map_of_SomeD)
  with assms(2) obtain t where t: "v = PV_tensor t" "t_tail t \<noteq> None" "length (t_rows t) = n"
    by (cases v) (auto simp: plain_output_def)
  with v show "map_of outs k = Some (PV_tensor (tensor_at outs k))" "t_tail (tensor_at outs k) \<noteq> None" "length (t_rows (tensor_at outs k)) = n"
    by (simp_all add: tensor_at_def)
qed

lemma payload_with_cache:
  assumes "list_all (plain_output (mm_cache_keys c) n) outs" and "hit_ids c = {}" and "mm_cache_keys c \<subseteq> fst ` set (mm_cache c)"
    and "set (ord (mm_cache_keys c)) = mm_cache_keys c" and "\<forall>r \<in> set (b_req_ids b). request_listed b r" and "r \<in> set (b_req_ids b)"
  shows "mm_payload ord (Some c) b outs n r
    = Inr (map (\<lambda>k. (k, PV_tensor (slice_of b r (tensor_at outs k)))) (filter (\<lambda>k. k \<in> fst ` set outs) (ord (mm_cache_keys c)))
        @ map (\<lambda>(k, v). (k, element_of b r n v)) (some_outputs (filter (\<lambda>(k, v). k \<notin> mm_cache_keys c) outs)))"
proof -
  let ?keys = "filter (\<lambda>k. k \<in> fst ` set outs) (ord (mm_cache_keys c))"
  let ?rest = "some_outputs (filter (\<lambda>(k, v). k \<notin> mm_cache_keys c) outs)"
  let ?m1 = "map (\<lambda>k. (k, map (\<lambda>r. (r, PV_tensor (slice_of b r (tensor_at outs k)))) (b_req_ids b))) ?keys"
  let ?m2 = "map (\<lambda>(k, v). (k, map (\<lambda>r. (r, v)) (b_req_ids b))) ?rest"
  have one: "traverse (\<lambda>k. bind_res (dict_get (mm_cache c) k) (\<lambda>ct.
         bind_res (case map_of outs k of Some (PV_tensor t) \<Rightarrow> Inr t | _ \<Rightarrow> Inl AttributeError) (\<lambda>t.
         bind_res (get_merged_tensors c b ct t) (\<lambda>m. Inr (k, map (\<lambda>(r, u). (r, PV_tensor u)) m))))) ?keys = Inr ?m1"
  proof (rule traverse_map)
    fix k
    assume k: "k \<in> set ?keys"
    then have in_keys: "k \<in> mm_cache_keys c" "k \<in> fst ` set outs" using assms(4) by auto
    then obtain ct where "map_of (mm_cache c) k = Some ct" using assms(3) by (metis map_of_eq_None_iff not_None_eq subsetD)
    with cached_tensor [OF assms(1) in_keys] merged_without_hits [OF assms(2,5), of "tensor_at outs k" ct]
    show "bind_res (dict_get (mm_cache c) k) (\<lambda>ct.
         bind_res (case map_of outs k of Some (PV_tensor t) \<Rightarrow> Inr t | _ \<Rightarrow> Inl AttributeError) (\<lambda>t.
         bind_res (get_merged_tensors c b ct t) (\<lambda>m. Inr (k, map (\<lambda>(r, u). (r, PV_tensor u)) m))))
       = Inr (k, map (\<lambda>r. (r, PV_tensor (slice_of b r (tensor_at outs k)))) (b_req_ids b))"
      by (simp add: dict_get_def comp_def)
  qed
  have plain: "list_all (plain_output (mm_cache_keys c) n) (filter (\<lambda>(k, v). k \<notin> mm_cache_keys c) outs)"
    using assms(1) by (auto simp: list_all_iff)
  have two: "traverse (\<lambda>(k, v). bind_res (coerce_to_payload_dict b v) (\<lambda>m. Inr (k, m))) ?rest = Inr ?m2"
  proof (rule traverse_map)
    fix kv
    assume "kv \<in> set ?rest"
    then have "plain_output (mm_cache_keys c) n (fst kv, snd kv)" using assms(1) by (auto simp: list_all_iff)
    from passed_through [OF this assms(5)]
    show "(case kv of (k, v) \<Rightarrow> bind_res (coerce_to_payload_dict b v) (\<lambda>m. Inr (k, m)))
        = Inr (case kv of (k, v) \<Rightarrow> (k, map (\<lambda>r. (r, v)) (b_req_ids b)))"
      by (simp add: case_prod_beta)
  qed
  have merged: "get_merged_multimodal_states ord c b outs = Inr (?m1 @ ?m2)"
    unfolding get_merged_multimodal_states_def build_plain [OF plain] one two by simp
  have pick: "(case v of PV_list xs \<Rightarrow> (if row_index b r < length xs then Inr (k, xs ! row_index b r) else if xs = [] then Inl IndexError else Inr (k, hd xs))
        | _ \<Rightarrow> Inr (k, v)) = Inr (k, element_of b r n v)" if "plain_output (mm_cache_keys c) n (k, v)" "k \<notin> mm_cache_keys c" for k v
    using that by (cases v) (auto simp: plain_output_def element_of_def)
  have get: "dict_get (map (\<lambda>r. (r, f r)) (b_req_ids b)) r = Inr (f r)" for f :: "string \<Rightarrow> tensor pval"
    using map_of_const_list [OF assms(6), of f] by (simp add: dict_get_def)
  let ?f = "\<lambda>(k, m). bind_res (dict_get m r) (\<lambda>v. (case v of
      PV_list xs \<Rightarrow> (if row_index b r < length xs then Inr (k, xs ! row_index b r) else if xs = [] then Inl IndexError else Inr (k, hd xs))
    | _ \<Rightarrow> Inr (k, v)))"
  have "traverse ?f ?m1 = Inr (map (\<lambda>k. (k, PV_tensor (slice_of b r (tensor_at outs k)))) ?keys)"
    by (rule traverse_mapped) (simp add: get)
  moreover have "traverse ?f ?m2 = Inr (map (\<lambda>(k, v). (k, element_of b r n v)) ?rest)"
  proof (rule traverse_mapped)
    fix kv
    assume rest: "kv \<in> set ?rest"
    obtain k v where kv: "kv = (k, v)" by (cases kv)
    have "plain_output (mm_cache_keys c) n (k, v)" "k \<notin> mm_cache_keys c" using rest assms(1) by (auto simp: list_all_iff kv)
    from pick [OF this] show "?f (case kv of (k, v) \<Rightarrow> (k, map (\<lambda>r. (r, v)) (b_req_ids b))) = Inr (case kv of (k, v) \<Rightarrow> (k, element_of b r n v))"
      by (simp add: kv get)
  qed
  ultimately have "mm_payload_cached (?m1 @ ?m2) r (row_index b r)
      = Inr (map (\<lambda>k. (k, PV_tensor (slice_of b r (tensor_at outs k)))) ?keys @ map (\<lambda>(k, v). (k, element_of b r n v)) ?rest)"
    unfolding mm_payload_cached_def traverse_append by simp
  with merged request_listedD [of b r] assms(5,6) show ?thesis by (simp add: mm_payload_def)
qed

text \<open>
  Without a hit in the batch the prefix cache does not change what a request is given, as long as the
  outputs are not nested and those with a row for each token of the step are just the cached ones. That
  is so for the step that caches a key; later it depends on the model, since a cached key stays cached.
\<close>

theorem cache_keeps_payloads:
  assumes "hit_ids c = {}" and "mm_cache_keys c \<subseteq> fst ` set (mm_cache c)" and "set (ord (mm_cache_keys c)) = mm_cache_keys c"
    and "distinct (ord (mm_cache_keys c))" and "distinct (map fst outs)" and "list_all (plain_output (mm_cache_keys c) n) outs"
    and "\<forall>r \<in> set (b_req_ids b). request_listed b r" and "r \<in> set (b_req_ids b)"
  shows "\<exists>p q. mm_payload ord (Some c) b outs n r = Inr p \<and> mm_payload ord None b outs n r = Inr q \<and> map_of p = map_of q"
proof -
  let ?keys = "filter (\<lambda>k. k \<in> fst ` set outs) (ord (mm_cache_keys c))"
  let ?p1 = "map (\<lambda>k. (k, PV_tensor (slice_of b r (tensor_at outs k)))) ?keys"
  let ?p2 = "map (\<lambda>(k, v). (k, element_of b r n v)) (some_outputs (filter (\<lambda>(k, v). k \<notin> mm_cache_keys c) outs))"
  let ?q = "map (\<lambda>(k, v). (k, element_of b r n v)) (some_outputs outs)"
  have "request_listed b r" using assms(7,8) by blast
  note plain = payload_without_cache [OF assms(6,5) this, of ord]
  note cached = payload_with_cache [where ord = ord, OF assms(6,1,2,3,7,8)]
  have sub: "distinct (map fst (filter P outs))" for P using assms(5) by (rule distinct_map_filter)
  have "distinct (map fst ?p1)" using assms(4) by (simp add: comp_def)
  moreover have "distinct (map fst ?p2)" using sub by (simp add: comp_def case_prod_beta')
  moreover have "set (map fst ?p1) \<inter> set (map fst ?p2) = {}" using assms(3) by auto
  ultimately have dp: "distinct (map fst (?p1 @ ?p2))" by simp
  have dq: "distinct (map fst ?q)" using sub by (simp add: comp_def case_prod_beta')
  have elem: "element_of b r n v = PV_tensor (slice_of b r (tensor_at outs k)) \<and> v \<noteq> PV_none" if "(k, v) \<in> set outs" "k \<in> mm_cache_keys c" for k v
  proof -
    have k: "k \<in> fst ` set outs" using that(1) by force
    note ct = cached_tensor [OF assms(6) that(2) k]
    have "map_of outs k = Some v" using that(1) assms(5) by simp
    with ct(1) have "v = PV_tensor (tensor_at outs k)" by simp
    with ct(3) show ?thesis by (simp add: element_of_def)
  qed
  have "set (?p1 @ ?p2) = set ?q"
  proof (rule set_eqI)
    fix kw :: "string \<times> tensor pval"
    obtain k w where kw: "kw = (k, w)" by (cases kw)
    have "(k, w) \<in> set ?p1 \<longleftrightarrow> (\<exists>v. (k, v) \<in> set outs \<and> k \<in> mm_cache_keys c \<and> v \<noteq> PV_none \<and> w = element_of b r n v)"
    proof
      assume "(k, w) \<in> set ?p1"
      then have k: "k \<in> mm_cache_keys c" "k \<in> fst ` set outs" "w = PV_tensor (slice_of b r (tensor_at outs k))" using assms(3) by auto
      then obtain v where "(k, v) \<in> set outs" by auto
      with elem [OF this k(1)] k show "\<exists>v. (k, v) \<in> set outs \<and> k \<in> mm_cache_keys c \<and> v \<noteq> PV_none \<and> w = element_of b r n v" by auto
    next
      assume "\<exists>v. (k, v) \<in> set outs \<and> k \<in> mm_cache_keys c \<and> v \<noteq> PV_none \<and> w = element_of b r n v"
      then obtain v where v: "(k, v) \<in> set outs" "k \<in> mm_cache_keys c" "w = element_of b r n v" by blast
      then have "k \<in> set ?keys" using assms(3) by force
      with elem [OF v(1,2)] v(3) show "(k, w) \<in> set ?p1" by auto
    qed
    moreover have "(k, w) \<in> set ?p2 \<longleftrightarrow> (\<exists>v. (k, v) \<in> set outs \<and> k \<notin> mm_cache_keys c \<and> v \<noteq> PV_none \<and> w = element_of b r n v)"
      by auto
    moreover have "(k, w) \<in> set ?q \<longleftrightarrow> (\<exists>v. (k, v) \<in> set outs \<and> v \<noteq> PV_none \<and> w = element_of b r n v)"
      by auto
    ultimately show "kw \<in> set (?p1 @ ?p2) \<longleftrightarrow> kw \<in> set ?q" unfolding kw by (simp only: set_append Un_iff) blast
  qed
  with map_of_inject_set [OF dp dq] have "map_of (?p1 @ ?p2) = map_of ?q" by blast
  with plain cached show ?thesis by blast
qed

definition ex_outputs :: mm_outputs where
  "ex_outputs = [(''codes'', PV_tensor \<lparr>t_tail = Some [1], t_rows = [[4], [5]]\<rparr>), (''rate'', PV_tensor \<lparr>t_tail = Some [], t_rows = [[24]]\<rparr>),
     (''names'', PV_list [PV_str ''x'', PV_str ''y'']), (''left'', PV_none)]"

definition ex_update :: update_call where
  "ex_update = \<lparr>u_hidden = Some \<lparr>t_tail = Some [1], t_rows = [[13], [12]]\<rparr>, u_outputs = Some ex_outputs, u_unpadded = 2, u_slots = [1, 4], u_padded = Some 2\<rparr>"

definition ex_updated :: prefix_cache where
  "ex_updated = (case update_omni_tensor_prefix_cache ex_update (prefix_cache_init 3 2 1) of Inr c \<Rightarrow> c | Inl _ \<Rightarrow> prefix_cache_init 0 0 0)"

theorem cache_keeps_payloads_witness:
  "\<exists>p q. mm_payload (\<lambda>ks. [''codes'']) (Some ex_updated) ex_batch ex_outputs 2 ''b'' = Inr p
     \<and> mm_payload (\<lambda>ks. [''codes'']) None ex_batch ex_outputs 2 ''b'' = Inr q \<and> map_of p = map_of q \<and> map_of q ''names'' = Some (PV_str ''y'')"
proof -
  have keys: "mm_cache_keys ex_updated = {''codes''}" by code_simp
  have plain: "list_all (plain_output {''codes''} 2) ex_outputs" by code_simp
  have listed: "\<forall>r \<in> set (b_req_ids ex_batch). request_listed ex_batch r" by code_simp
  have "mm_payload (\<lambda>ks. [''codes'']) None ex_batch ex_outputs 2 ''b'' = Inr [(''codes'', PV_tensor \<lparr>t_tail = Some [1], t_rows = [[5]]\<rparr>),
      (''rate'', PV_tensor \<lparr>t_tail = Some [], t_rows = [[24]]\<rparr>), (''names'', PV_str ''y'')]"
    by code_simp
  moreover have "\<exists>p q. mm_payload (\<lambda>ks. [''codes'']) (Some ex_updated) ex_batch ex_outputs 2 ''b'' = Inr p
      \<and> mm_payload (\<lambda>ks. [''codes'']) None ex_batch ex_outputs 2 ''b'' = Inr q \<and> map_of p = map_of q"
  proof (rule cache_keeps_payloads)
    show "hit_ids ex_updated = {}" by code_simp
    show "mm_cache_keys ex_updated \<subseteq> fst ` set (mm_cache ex_updated)" by code_simp
    show "distinct (map fst ex_outputs)" by code_simp
    show "list_all (plain_output (mm_cache_keys ex_updated) 2) ex_outputs" unfolding keys by (rule plain)
    show "''b'' \<in> set (b_req_ids ex_batch)" by (simp add: ex_batch_def)
  qed (use listed in \<open>simp_all add: keys\<close>)
  ultimately show ?thesis by auto
qed

text \<open>
  Nested outputs are another matter. Without a cache they are flattened first; with one they are not, so
  the layers of the hidden states are left out, and tensors inside a category are never cached.
\<close>

definition ex_layers :: mm_outputs where
  "ex_layers = [(''hidden_states'', PV_dict [(KS ''layers'', PV_dict [(KI 0, PV_tensor \<lparr>t_tail = Some [1], t_rows = [[4], [5]]\<rparr>)])])]"

lemma layers_are_dropped:
  "mm_payload (\<lambda>ks. []) None ex_batch ex_layers 2 ''b'' = Inr [(''hidden_states.layer_0'', PV_tensor \<lparr>t_tail = Some [1], t_rows = [[5]]\<rparr>)]"
  "mm_payload (\<lambda>ks. []) (Some (prefix_cache_init 3 2 1)) ex_batch ex_layers 2 ''b'' = Inr []"
  by code_simp+

lemma nested_tensors_are_not_cached:
  assumes "maybe_init_missing_mm_cache_keys [(k, PV_dict d)] n c = Inr c'"
  shows "c' = c"
  using assms by simp

text \<open>A tensor of one dimension is written as a whole into the slot of every token, or refused.\<close>

lemma vectors_are_cached_whole:
  "(case update_omni_tensor_prefix_cache \<lparr>u_hidden = None, u_outputs = Some [(''len'', PV_tensor \<lparr>t_tail = Some [], t_rows = [[4], [5]]\<rparr>)],
      u_unpadded = 2, u_slots = [1, 4], u_padded = None\<rparr> (prefix_cache_init 3 2 1) of
     Inr c \<Rightarrow> map_of (mm_cache c) ''len'' = Some \<lparr>feat = 2, slot_rows = [[0, 0], [4, 5], [0, 0], [0, 0], [4, 5], [0, 0]]\<rparr> | Inl _ \<Rightarrow> False)"
  by code_simp

end
