(* ===== verification/Stage_Config.thy ===== *)
theory Stage_Config
  imports Prelude
begin

text \<open>
  How the configuration of the stages is put together (\<open>config/stage_config.py\<close>): the fixed topology of a
  pipeline, deploy files and their inheritance, overrides of a platform and of the caller. What a file holds,
  the platform, the registered modules, and the detection of a model's type are arguments. Values are those
  of YAML; misusing one of the wrong kind raises \<open>TypeError\<close>, from which \<open>AttributeError\<close> is not told apart,
  and \<open>dict\<close> of a list of pairs is left out.
\<close>

section \<open>Values\<close>

datatype yval =
    YNone
  | YBool bool
  | YInt int
  | YFloat rat
  | YStr string
  | YList "yval list"
  | YDict "(string \<times> yval) list"

type_synonym ydict = "(string \<times> yval) list"

definition py_true :: "yval \<Rightarrow> bool" where
  "py_true v = (case v of
       YNone \<Rightarrow> False
     | YBool b \<Rightarrow> b
     | YInt n \<Rightarrow> n \<noteq> 0
     | YFloat x \<Rightarrow> x \<noteq> 0
     | YStr s \<Rightarrow> s \<noteq> []
     | YList xs \<Rightarrow> xs \<noteq> []
     | YDict d \<Rightarrow> d \<noteq> [])"

text \<open>\<open>d.get(k)\<close>, \<open>{**a, **b}\<close>, and a value used as a dictionary.\<close>

definition get_or :: "yval \<Rightarrow> ydict \<Rightarrow> string \<Rightarrow> yval" where
  "get_or dflt d k = (case map_of d k of None \<Rightarrow> dflt | Some v \<Rightarrow> v)"

definition update_dict :: "ydict \<Rightarrow> ydict \<Rightarrow> ydict" where
  "update_dict a b = foldl (\<lambda>d (k, v). dict_set k v d) a b"

definition as_mapping :: "yval \<Rightarrow> ydict res" where
  "as_mapping v = (case v of YDict d \<Rightarrow> Inr d | _ \<Rightarrow> Inl TypeError)"

definition hashable :: "yval \<Rightarrow> bool" where
  "hashable v = (case v of YList _ \<Rightarrow> False | YDict _ \<Rightarrow> False | _ \<Rightarrow> True)"

text \<open>An optional string that is not empty.\<close>

definition nonempty :: "string option \<Rightarrow> bool" where
  "nonempty s \<longleftrightarrow> s \<noteq> None \<and> s \<noteq> Some []"

definition ystr :: "string option \<Rightarrow> yval" where
  "ystr s = (case s of None \<Rightarrow> YNone | Some x \<Rightarrow> YStr x)"

section \<open>The topology of a pipeline\<close>

datatype execution_type = LLM_AR | LLM_GENERATION | DIFFUSION

datatype stage_type = Type_llm | Type_diffusion

definition execution_type_to_scheduler :: "execution_type \<Rightarrow> string option" where
  "execution_type_to_scheduler e = (case e of
       LLM_AR \<Rightarrow> Some ''vllm_omni.core.sched.omni_ar_scheduler.OmniARScheduler''
     | LLM_GENERATION \<Rightarrow> Some ''vllm_omni.core.sched.omni_generation_scheduler.OmniGenerationScheduler''
     | DIFFUSION \<Rightarrow> None)"

record stage_pipeline =
  sp_id :: int
  sp_model_stage :: string
  sp_execution :: execution_type
  sp_sources :: "int list"
  sp_final_output :: bool
  sp_final_output_type :: "string option"
  sp_owns_tokenizer :: bool
  sp_hf_config_name :: "string option"
  sp_output_type :: "string option"
  sp_model_arch :: "string option"
  sp_constraints :: ydict
  sp_input_func :: "string option"
  sp_next_func :: "string option"
  sp_async_next_func :: "string option"
  sp_sync_input_func :: "string option"
  sp_expand_func :: "string option"
  sp_collect_func :: "string option"
  sp_kv_config :: "ydict option"
  sp_model_subdir :: "string option"
  sp_tokenizer_subdir :: "string option"
  sp_extras :: ydict

record pipeline_config =
  pc_type :: string
  pc_arch :: string
  pc_stages :: "stage_pipeline list"
  pc_hf_archs :: "string list"
  pc_diffusers :: "string option"

fun get_stage :: "stage_pipeline list \<Rightarrow> int \<Rightarrow> stage_pipeline option" where
  "get_stage [] i = None"
| "get_stage (s # ss) i = (if sp_id s = i then Some s else get_stage ss i)"

definition get_scheduler_cls :: "pipeline_config \<Rightarrow> int \<Rightarrow> string option res" where
  "get_scheduler_cls p i =
     (case get_stage (pc_stages p) i of None \<Rightarrow> Inl ValueError | Some s \<Rightarrow> Inr (execution_type_to_scheduler (sp_execution s)))"

datatype topology_error = No_stages | Duplicate_ids | Missing_source int int | Self_reference int | No_entry_point

definition source_errors :: "int set \<Rightarrow> int \<Rightarrow> int \<Rightarrow> topology_error list" where
  "source_errors ids i src = (if src \<notin> ids then [Missing_source i src] else []) @ (if src = i then [Self_reference i] else [])"

text \<open>The same check for both forms of a pipeline, on the ids and sources of its stages.\<close>

definition validate :: "(int \<times> int list) list \<Rightarrow> topology_error list" where
  "validate stages =
     (if stages = [] then [No_stages]
      else (if distinct (map fst stages) then [] else [Duplicate_ids])
           @ concat (map (\<lambda>(i, srcs). concat (map (source_errors (set (map fst stages)) i) srcs)) stages)
           @ (if list_ex (\<lambda>(i, srcs). srcs = []) stages then [] else [No_entry_point]))"

definition validate_pipeline :: "pipeline_config \<Rightarrow> topology_error list" where
  "validate_pipeline p = validate (map (\<lambda>s. (sp_id s, sp_sources s)) (pc_stages p))"

section \<open>The registry\<close>

text \<open>\<open>lazy\<close> is the central declaration, and \<open>load\<close> what importing the module of an entry gives.\<close>

record registry =
  loaded :: "(string \<times> pipeline_config) list"

definition registry_contains :: "string set \<Rightarrow> string \<Rightarrow> registry \<Rightarrow> bool" where
  "registry_contains lazy k r \<longleftrightarrow> k \<in> fst ` set (loaded r) \<or> k \<in> lazy"

definition load_lazy :: "string set \<Rightarrow> (string \<Rightarrow> pipeline_config option) \<Rightarrow> string \<Rightarrow> registry \<Rightarrow> registry \<times> pipeline_config option" where
  "load_lazy lazy load k r =
     (if k \<notin> lazy then (r, None)
      else (case load k of None \<Rightarrow> (r, None) | Some p \<Rightarrow> (r\<lparr>loaded := dict_set k p (loaded r)\<rparr>, Some p)))"

definition registry_get :: "string set \<Rightarrow> (string \<Rightarrow> pipeline_config option) \<Rightarrow> string \<Rightarrow> registry \<Rightarrow> registry \<times> pipeline_config option" where
  "registry_get lazy load k r = (case map_of (loaded r) k of Some p \<Rightarrow> (r, Some p) | None \<Rightarrow> load_lazy lazy load k r)"

definition registry_getitem :: "string set \<Rightarrow> (string \<Rightarrow> pipeline_config option) \<Rightarrow> string \<Rightarrow> registry \<Rightarrow> registry \<times> pipeline_config res" where
  "registry_getitem lazy load k r =
     (case registry_get lazy load k r of (r1, Some p) \<Rightarrow> (r1, Inr p) | (r1, None) \<Rightarrow> (r1, Inl KeyError))"

definition registry_setitem :: "string \<Rightarrow> pipeline_config \<Rightarrow> registry \<Rightarrow> registry" where
  "registry_setitem k p r = r\<lparr>loaded := dict_set k p (loaded r)\<rparr>"

definition registry_delitem :: "string \<Rightarrow> registry \<Rightarrow> registry \<times> unit res" where
  "registry_delitem k r = (if k \<in> fst ` set (loaded r) then (r\<lparr>loaded := dict_pop k (loaded r)\<rparr>, Inr ()) else (r, Inl KeyError))"

definition registry_keys :: "string set \<Rightarrow> registry \<Rightarrow> string set" where
  "registry_keys lazy r = lazy \<union> fst ` set (loaded r)"

definition register_pipeline :: "pipeline_config \<Rightarrow> registry \<Rightarrow> registry" where
  "register_pipeline p r = registry_setitem (pc_type p) p r"

text \<open>The last resort of finding a pipeline by the model's name; \<open>keys\<close> is the order of the registered keys.\<close>

definition plain_name :: "string \<Rightarrow> string" where
  "plain_name s = filter (\<lambda>c. c \<noteq> CHR ''-'' \<and> c \<noteq> CHR ''_'') (map py_lower s)"

definition better_match :: "string \<Rightarrow> (string option \<times> nat) \<Rightarrow> string \<Rightarrow> string option \<times> nat" where
  "better_match model best k =
     (let c = plain_name k
      in if c \<noteq> [] \<and> sublist c (plain_name model) \<and> snd best < length c then (Some k, length c) else best)"

definition match_by_name :: "string list \<Rightarrow> string \<Rightarrow> string option" where
  "match_by_name keys model = fst (foldl (better_match model) (None, 0) keys)"

section \<open>Deploy files\<close>

text \<open>The fields of \<open>StageDeployConfig\<close> that become engine arguments, with their defaults.\<close>

definition stage_deploy_fields :: ydict where
  "stage_deploy_fields =
     [(''max_num_seqs'', YInt 64), (''gpu_memory_utilization'', YFloat (9 / 10)), (''tensor_parallel_size'', YInt 1),
      (''enforce_eager'', YBool False), (''max_num_batched_tokens'', YInt 32768), (''max_model_len'', YNone),
      (''async_scheduling'', YNone), (''subtalker_sampling_params'', YNone)]"

definition stage_non_engine_keys :: "string list" where
  "stage_non_engine_keys =
     [''stage_id'', ''devices'', ''output_connectors'', ''input_connectors'', ''default_sampling_params'', ''engine_extras'']"

text \<open>The pipeline-wide settings of \<open>DeployConfig\<close>, with their defaults.\<close>

definition pipeline_wide_fields :: ydict where
  "pipeline_wide_fields =
     [(''trust_remote_code'', YBool True), (''distributed_executor_backend'', YNone), (''dtype'', YNone), (''quantization'', YNone),
      (''enable_prefix_caching'', YBool False), (''enable_chunked_prefill'', YNone), (''data_parallel_size'', YInt 1),
      (''pipeline_parallel_size'', YInt 1)]"

record stage_deploy =
  sd_id :: yval
  sd_engine :: ydict
  sd_devices :: yval
  sd_output_connectors :: yval
  sd_input_connectors :: yval
  sd_sampling :: yval
  sd_extras :: yval

record deploy_config =
  dc_async_chunk :: yval
  dc_connectors :: yval
  dc_edges :: yval
  dc_stages :: "stage_deploy list"
  dc_platforms :: yval
  dc_pipeline :: yval
  dc_wide :: ydict

definition default_deploy :: deploy_config where
  "default_deploy = \<lparr>dc_async_chunk = YBool True, dc_connectors = YNone, dc_edges = YNone, dc_stages = [], dc_platforms = YNone,
     dc_pipeline = YNone, dc_wide = pipeline_wide_fields\<rparr>"

text \<open>Fields given in a dictionary, the others with their defaults.\<close>

definition take_fields :: "ydict \<Rightarrow> ydict \<Rightarrow> ydict" where
  "take_fields flds given = map (\<lambda>(k, dflt). (k, get_or dflt given k)) flds"

definition parse_stage_deploy :: "ydict \<Rightarrow> stage_deploy res" where
  "parse_stage_deploy data =
     bind_res (case map_of data ''engine_args'' of
         Some ea \<Rightarrow>
           bind_res (as_mapping ea) (\<lambda>args.
           bind_res (as_mapping (get_or (YDict []) data ''runtime'')) (\<lambda>rt.
             Inr (args, get_or (get_or (YStr ''0'') data ''devices'') rt ''devices'')))
       | None \<Rightarrow> Inr (filter (\<lambda>(k, v). k \<notin> set stage_non_engine_keys) data, get_or (YStr ''0'') data ''devices'')) (\<lambda>(args, devices).
     bind_res (dict_get data ''stage_id'') (\<lambda>i.
       Inr \<lparr>sd_id = i, sd_engine = take_fields stage_deploy_fields args, sd_devices = devices,
            sd_output_connectors = get_or YNone data ''output_connectors'', sd_input_connectors = get_or YNone data ''input_connectors'',
            sd_sampling = get_or YNone data ''default_sampling_params'',
            sd_extras = YDict (filter (\<lambda>(k, v). k \<notin> fst ` set stage_deploy_fields) args)\<rparr>))"

section \<open>Inheritance of deploy files\<close>

definition deep_merge_keys :: "string list" where
  "deep_merge_keys = [''default_sampling_params'', ''subtalker_sampling_params'', ''engine_extras'', ''engine_args'']"

definition deep_merge_item :: "ydict \<Rightarrow> string \<times> yval \<Rightarrow> ydict" where
  "deep_merge_item d kv =
     (case kv of (k, v) \<Rightarrow>
        (case (v, map_of d k) of
           (YDict new, Some (YDict old)) \<Rightarrow> dict_set k (if k \<in> set deep_merge_keys then YDict (update_dict old new) else v) d
         | _ \<Rightarrow> dict_set k v d))"

definition deep_merge_stage :: "ydict \<Rightarrow> ydict \<Rightarrow> ydict" where
  "deep_merge_stage base overlay = foldl deep_merge_item base overlay"

text \<open>\<open>stages or []\<close>, and a stage with its id.\<close>

definition stage_list :: "yval option \<Rightarrow> yval list res" where
  "stage_list v = (case v of
       None \<Rightarrow> Inr []
     | Some w \<Rightarrow> if \<not> py_true w then Inr [] else (case w of YList xs \<Rightarrow> Inr xs | _ \<Rightarrow> Inl TypeError))"

definition keyed_stage :: "yval \<Rightarrow> (yval \<times> ydict) res" where
  "keyed_stage s =
     bind_res (as_mapping s) (\<lambda>d. bind_res (dict_get d ''stage_id'') (\<lambda>i. if hashable i then Inr (i, d) else Inl TypeError))"

definition overlay_stage :: "(yval \<times> ydict) list \<Rightarrow> yval \<times> ydict \<Rightarrow> (yval \<times> ydict) list" where
  "overlay_stage by_id s =
     (case s of (i, d) \<Rightarrow> dict_set i (case map_of by_id i of Some b \<Rightarrow> deep_merge_stage b d | None \<Rightarrow> d) by_id)"

definition merge_stage_lists :: "yval option \<Rightarrow> yval option \<Rightarrow> yval list res" where
  "merge_stage_lists base overlay =
     bind_res (stage_list base) (\<lambda>bs.
     bind_res (traverse keyed_stage bs) (\<lambda>bks.
     bind_res (stage_list overlay) (\<lambda>os.
     bind_res (traverse keyed_stage os) (\<lambda>oks.
       Inr (map (\<lambda>(i, d). YDict d) (foldl overlay_stage (foldl (\<lambda>m (i, d). dict_set i d m) [] bks) oks))))))"

definition or_empty :: "yval option \<Rightarrow> yval" where
  "or_empty v = (case v of Some w \<Rightarrow> if py_true w then w else YDict [] | None \<Rightarrow> YDict [])"

definition merge_platform :: "ydict \<Rightarrow> ydict \<Rightarrow> string \<Rightarrow> (string \<times> yval) res" where
  "merge_platform base overlay plat =
     bind_res (as_mapping (or_empty (map_of base plat))) (\<lambda>bp.
     bind_res (as_mapping (or_empty (map_of overlay plat))) (\<lambda>op.
     bind_res (merge_stage_lists (map_of bp ''stages'') (map_of op ''stages'')) (\<lambda>ss.
       Inr (plat, YDict (dict_set ''stages'' (YList ss) (update_dict bp (filter (\<lambda>(k, v). k \<noteq> ''stages'') op)))))))"

text \<open>\<open>ord\<close> is the order in which a set is run through.\<close>

definition merge_platforms :: "(string set \<Rightarrow> string list) \<Rightarrow> yval option \<Rightarrow> yval option \<Rightarrow> yval option res" where
  "merge_platforms ord base overlay =
     bind_res (as_mapping (or_empty base)) (\<lambda>b.
     bind_res (as_mapping (or_empty overlay)) (\<lambda>ov.
       if b = [] \<and> ov = [] then Inr None
       else bind_res (traverse (merge_platform b ov) (ord (fst ` set b \<union> fst ` set ov))) (\<lambda>m. Inr (Some (YDict m)))))"

definition merge_deploy :: "(string set \<Rightarrow> string list) \<Rightarrow> ydict \<Rightarrow> ydict \<Rightarrow> ydict res" where
  "merge_deploy ord base raw =
     bind_res (merge_stage_lists (map_of base ''stages'') (map_of raw ''stages'')) (\<lambda>ss.
     bind_res (merge_platforms ord (map_of base ''platforms'') (map_of raw ''platforms'')) (\<lambda>pl.
       (let m = dict_set ''stages'' (YList ss) (update_dict base (filter (\<lambda>(k, v). k \<noteq> ''stages'' \<and> k \<noteq> ''platforms'') raw))
        in Inr (case pl of None \<Rightarrow> m | Some p \<Rightarrow> dict_set ''platforms'' p m))))"

text \<open>
  \<open>yaml path\<close> is the content of a file, \<open>join path b\<close> the file that \<open>base_config\<close> names beside it. The depth
  is that of Python's recursion; a file that inherits from itself exhausts it with a \<open>RecursionError\<close>, a
  \<open>RuntimeError\<close>.
\<close>

fun resolve_deploy_yaml ::
  "(string set \<Rightarrow> string list) \<Rightarrow> ('p \<Rightarrow> ydict res) \<Rightarrow> ('p \<Rightarrow> yval \<Rightarrow> 'p res) \<Rightarrow> nat \<Rightarrow> 'p \<Rightarrow> ydict res" where
  "resolve_deploy_yaml ord yaml join 0 path = Inl RuntimeError"
| "resolve_deploy_yaml ord yaml join (Suc depth) path =
     bind_res (yaml path) (\<lambda>raw.
       (case get_or YNone raw ''base_config'' of
          YNone \<Rightarrow> Inr (dict_pop ''base_config'' raw)
        | b \<Rightarrow>
            bind_res (join path b) (\<lambda>base_path.
            bind_res (resolve_deploy_yaml ord yaml join depth base_path) (\<lambda>base.
              merge_deploy ord base (dict_pop ''base_config'' raw)))))"

definition load_deploy_config :: "ydict \<Rightarrow> deploy_config res" where
  "load_deploy_config raw =
     bind_res (case get_or (YList []) raw ''stages'' of YList xs \<Rightarrow> Inr xs | _ \<Rightarrow> Inl TypeError) (\<lambda>xs.
     bind_res (traverse (\<lambda>s. bind_res (as_mapping s) parse_stage_deploy) xs) (\<lambda>stages.
       Inr \<lparr>dc_async_chunk = get_or (YBool True) raw ''async_chunk'', dc_connectors = get_or YNone raw ''connectors'',
            dc_edges = get_or YNone raw ''edges'', dc_stages = stages, dc_platforms = get_or YNone raw ''platforms'',
            dc_pipeline = get_or YNone raw ''pipeline'', dc_wide = take_fields pipeline_wide_fields raw\<rparr>))"

end
