(* ===== verification/Stage_Merge.thy ===== *)
theory Stage_Merge
  imports Stage_Config Payload_Keys "HOL-Library.List_Lexorder" "HOL-Library.Char_ord"
begin

text \<open>
  Merging a pipeline, its deploy configuration, the overrides of the platform and those of the caller into
  the configuration of each stage (\<open>merge_pipeline_deploy\<close>, \<open>StageConfig\<close> and \<open>StageConfigFactory\<close> of
  \<open>config/stage_config.py\<close>), and the split of the command line (\<open>engine/arg_utils.py\<close>). Wrapping a dictionary
  for OmegaConf leaves it as it is.
\<close>

section \<open>Platform overrides\<close>

definition extract_platform_overrides :: "ydict \<Rightarrow> (ydict \<times> yval) res" where
  "extract_platform_overrides ps =
     (case map_of ps ''engine_args'' of
        Some ea \<Rightarrow>
          bind_res (as_mapping ea) (\<lambda>args.
          bind_res (as_mapping (get_or (YDict []) ps ''runtime'')) (\<lambda>rt. Inr (args, get_or YNone rt ''devices'')))
      | None \<Rightarrow> Inr (filter (\<lambda>(k, v). k \<noteq> ''stage_id'' \<and> k \<noteq> ''devices'') ps, get_or YNone ps ''devices''))"

text \<open>\<open>setattr\<close> for a field, otherwise an entry of \<open>engine_extras\<close>.\<close>

definition set_deploy_field :: "stage_deploy \<Rightarrow> string \<times> yval \<Rightarrow> stage_deploy res" where
  "set_deploy_field ds kv =
     (case kv of (k, v) \<Rightarrow>
        if k \<in> fst ` set (sd_engine ds) then Inr (ds\<lparr>sd_engine := dict_set k v (sd_engine ds)\<rparr>)
        else if k = ''stage_id'' then Inr (ds\<lparr>sd_id := v\<rparr>)
        else if k = ''devices'' then Inr (ds\<lparr>sd_devices := v\<rparr>)
        else if k = ''output_connectors'' then Inr (ds\<lparr>sd_output_connectors := v\<rparr>)
        else if k = ''input_connectors'' then Inr (ds\<lparr>sd_input_connectors := v\<rparr>)
        else if k = ''default_sampling_params'' then Inr (ds\<lparr>sd_sampling := v\<rparr>)
        else if k = ''engine_extras'' then Inr (ds\<lparr>sd_extras := v\<rparr>)
        else bind_res (as_mapping (sd_extras ds)) (\<lambda>ex. Inr (ds\<lparr>sd_extras := YDict (dict_set k v ex)\<rparr>)))"

fun set_deploy_fields :: "ydict \<Rightarrow> stage_deploy \<Rightarrow> stage_deploy res" where
  "set_deploy_fields [] ds = Inr ds"
| "set_deploy_fields (kv # kvs) ds = bind_res (set_deploy_field ds kv) (set_deploy_fields kvs)"

text \<open>\<open>{s.stage_id: s for s in stages}\<close> refers to the last stage of an id.\<close>

definition last_index :: "yval \<Rightarrow> yval list \<Rightarrow> nat option" where
  "last_index i ids = (if i \<in> set ids then Some (length ids - Suc (length (takeWhile (\<lambda>j. j \<noteq> i) (rev ids)))) else None)"

definition apply_platform_stage :: "yval list \<Rightarrow> yval \<Rightarrow> stage_deploy list \<Rightarrow> stage_deploy list res" where
  "apply_platform_stage ids ps stages =
     bind_res (keyed_stage ps) (\<lambda>(i, d).
       (case last_index i ids of
          None \<Rightarrow> Inr stages
        | Some n \<Rightarrow>
            bind_res (extract_platform_overrides d) (\<lambda>(ov, devices).
            bind_res (set_deploy_fields ov (if devices = YNone then stages ! n else (stages ! n)\<lparr>sd_devices := devices\<rparr>)) (\<lambda>ds.
              Inr (stages[n := ds])))))"

fun apply_platform_stages :: "yval list \<Rightarrow> yval list \<Rightarrow> stage_deploy list \<Rightarrow> stage_deploy list res" where
  "apply_platform_stages ids [] stages = Inr stages"
| "apply_platform_stages ids (ps # pss) stages = bind_res (apply_platform_stage ids ps stages) (apply_platform_stages ids pss)"

definition apply_platform_overrides :: "string \<Rightarrow> deploy_config \<Rightarrow> deploy_config res" where
  "apply_platform_overrides platform d =
     (if dc_platforms d = YNone then Inr d
      else bind_res (as_mapping (dc_platforms d)) (\<lambda>pl.
        if get_or YNone pl platform = YNone then Inr d
        else bind_res (as_mapping (get_or YNone pl platform)) (\<lambda>sec.
          bind_res (case get_or (YList []) sec ''stages'' of YList xs \<Rightarrow> Inr xs | _ \<Rightarrow> Inl TypeError) (\<lambda>pss.
            if \<not> list_all (\<lambda>s. hashable (sd_id s)) (dc_stages d) then Inl TypeError
            else bind_res (apply_platform_stages (map sd_id (dc_stages d)) pss (dc_stages d)) (\<lambda>stages. Inr (d\<lparr>dc_stages := stages\<rparr>))))))"

section \<open>The configuration of a stage\<close>

record stage_config =
  sc_id :: int
  sc_model_stage :: string
  sc_type :: stage_type
  sc_sources :: "int list"
  sc_input_func :: "string option"
  sc_final_output :: bool
  sc_final_output_type :: "string option"
  sc_worker_type :: "string option"
  sc_scheduler :: "string option"
  sc_hf_config_name :: "string option"
  sc_is_comprehension :: bool
  sc_engine_args :: ydict
  sc_runtime :: ydict
  sc_extras :: ydict
  sc_overrides :: ydict

definition resolve_execution_mode :: "execution_type \<Rightarrow> stage_type \<times> string option" where
  "resolve_execution_mode e = (case e of
       LLM_AR \<Rightarrow> (Type_llm, Some ''ar'')
     | LLM_GENERATION \<Rightarrow> (Type_llm, Some ''generation'')
     | DIFFUSION \<Rightarrow> (Type_diffusion, None))"

definition select_processor_funcs :: "stage_pipeline \<Rightarrow> bool \<Rightarrow> string option \<times> string option" where
  "select_processor_funcs ps async_chunk =
     (if async_chunk \<and> nonempty (sp_async_next_func ps) then (sp_input_func ps, sp_async_next_func ps)
      else if \<not> async_chunk \<and> nonempty (sp_sync_input_func ps) then (sp_sync_input_func ps, sp_next_func ps)
      else (sp_input_func ps, sp_next_func ps))"

definition add_given :: "string \<Rightarrow> string option \<Rightarrow> ydict \<Rightarrow> ydict" where
  "add_given k s d = (if nonempty s then dict_set k (ystr s) d else d)"

definition add_values :: "ydict \<Rightarrow> ydict \<Rightarrow> ydict" where
  "add_values kvs d = foldl (\<lambda>d (k, v). if v = YNone then d else dict_set k v d) d kvs"

text \<open>The part of the topology, and the rest on top of it.\<close>

definition structural_args :: "stage_pipeline \<Rightarrow> pipeline_config \<Rightarrow> string option \<Rightarrow> ydict" where
  "structural_args ps pipe next_func =
     (let a0 = [(''model_arch'', YStr (if nonempty (sp_model_arch ps) then the (sp_model_arch ps) else pc_arch pipe))];
          a1 = add_given ''engine_output_type'' (sp_output_type ps) a0;
          a2 = add_given ''custom_process_next_stage_input_func'' next_func a1;
          a3 = add_given ''model_subdir'' (sp_model_subdir ps) a2
      in add_given ''tokenizer_subdir'' (sp_tokenizer_subdir ps) a3)"

definition build_engine_args ::
  "stage_pipeline \<Rightarrow> stage_deploy option \<Rightarrow> pipeline_config \<Rightarrow> deploy_config \<Rightarrow> string option \<Rightarrow> ydict res" where
  "build_engine_args ps ds pipe d next_func =
     (let a5 = add_values (dc_wide d) (structural_args ps pipe next_func)
      in bind_res (case ds of
             None \<Rightarrow> Inr a5
           | Some s \<Rightarrow> bind_res (as_mapping (sd_extras s)) (\<lambda>ex. Inr (update_dict (add_values (sd_engine s) a5) ex))) (\<lambda>a6.
         let a7 = dict_set ''async_chunk'' (YBool (py_true (dc_async_chunk d))) a6
         in Inr (case sp_kv_config ps of
                None \<Rightarrow> a7
              | Some kv \<Rightarrow> if kv = [] then a7 else dict_set ''omni_kv_config'' (YDict kv) a7)))"

text \<open>\<open>extras[k] = dict(v)\<close> for a value that is not empty.\<close>

definition add_mapping :: "string \<Rightarrow> yval \<Rightarrow> ydict \<Rightarrow> ydict res" where
  "add_mapping k v d = (if py_true v then bind_res (as_mapping v) (\<lambda>m. Inr (dict_set k (YDict m) d)) else Inr d)"

definition build_extras :: "stage_pipeline \<Rightarrow> stage_deploy option \<Rightarrow> ydict res" where
  "build_extras ps ds =
     bind_res (case ds of Some s \<Rightarrow> if py_true (sd_sampling s) then as_mapping (sd_sampling s) else Inr [] | None \<Rightarrow> Inr []) (\<lambda>sampling0.
     (let sampling = update_dict sampling0 (sp_constraints ps);
          e0 = (if sampling = [] then [] else [(''default_sampling_params'', YDict sampling)])
      in bind_res (case ds of Some s \<Rightarrow> add_mapping ''output_connectors'' (sd_output_connectors s) e0 | None \<Rightarrow> Inr e0) (\<lambda>e1.
         bind_res (case ds of Some s \<Rightarrow> add_mapping ''input_connectors'' (sd_input_connectors s) e1 | None \<Rightarrow> Inr e1) (\<lambda>e2.
           Inr (update_dict (add_given ''cfg_kv_collect_func'' (sp_collect_func ps) (add_given ''prompt_expand_func'' (sp_expand_func ps) e2))
                  (sp_extras ps))))))"

definition deploy_of :: "stage_deploy list \<Rightarrow> int \<Rightarrow> stage_deploy option" where
  "deploy_of stages i = map_of (rev (map (\<lambda>s. (sd_id s, s)) stages)) (YInt i)"

definition merge_stage :: "pipeline_config \<Rightarrow> deploy_config \<Rightarrow> stage_pipeline \<Rightarrow> stage_config res" where
  "merge_stage pipe d ps =
     (let ds = deploy_of (dc_stages d) (sp_id ps);
          (ty, worker) = resolve_execution_mode (sp_execution ps);
          (input_func, next_func) = select_processor_funcs ps (py_true (dc_async_chunk d))
      in bind_res (build_engine_args ps ds pipe d next_func) (\<lambda>args.
         bind_res (build_extras ps ds) (\<lambda>extras.
           Inr \<lparr>sc_id = sp_id ps, sc_model_stage = sp_model_stage ps, sc_type = ty, sc_sources = sp_sources ps, sc_input_func = input_func,
                sc_final_output = sp_final_output ps, sc_final_output_type = sp_final_output_type ps, sc_worker_type = worker,
                sc_scheduler = execution_type_to_scheduler (sp_execution ps), sc_hf_config_name = sp_hf_config_name ps,
                sc_is_comprehension = sp_owns_tokenizer ps, sc_engine_args = args,
                sc_runtime = (''process'', YBool True) # (case ds of None \<Rightarrow> [] | Some s \<Rightarrow> [(''devices'', sd_devices s)]),
                sc_extras = extras, sc_overrides = []\<rparr>)))"

definition merge_pipeline_deploy :: "string \<Rightarrow> pipeline_config \<Rightarrow> deploy_config \<Rightarrow> stage_config list res" where
  "merge_pipeline_deploy platform pipe deploy =
     bind_res (apply_platform_overrides platform deploy) (\<lambda>d.
       if \<not> list_all (\<lambda>s. hashable (sd_id s)) (dc_stages d) then Inl TypeError
       else if py_true (dc_async_chunk d)
         \<and> \<not> list_ex (\<lambda>ps. nonempty (sp_async_next_func ps) \<or> nonempty (sp_next_func ps)) (pc_stages pipe) then Inl ValueError
       else traverse (merge_stage pipe d) (pc_stages pipe))"

section \<open>What a stage is started with\<close>

definition truncate_rat :: "rat \<Rightarrow> int" where
  "truncate_rat x = (if x < 0 then - \<lfloor>- x\<rfloor> else \<lfloor>x\<rfloor>)"

definition yval_int :: "yval \<Rightarrow> int res" where
  "yval_int v = (case v of
       YInt n \<Rightarrow> Inr n
     | YBool b \<Rightarrow> Inr (if b then 1 else 0)
     | YFloat x \<Rightarrow> Inr (truncate_rat x)
     | YStr s \<Rightarrow> (case int_of_string s of None \<Rightarrow> Inl ValueError | Some n \<Rightarrow> Inr n)
     | _ \<Rightarrow> Inl TypeError)"

definition set_default :: "string \<Rightarrow> yval \<Rightarrow> ydict \<Rightarrow> ydict" where
  "set_default k v d = (if k \<in> fst ` set d then d else dict_set k v d)"

definition runtime_only :: "string list" where "runtime_only = [''devices'', ''max_batch_size'']"

text \<open>Engine arguments with the topology's fields and the caller's values on top.\<close>

definition overlaid_args :: "stage_config \<Rightarrow> ydict" where
  "overlaid_args st =
     update_dict
       (add_given ''hf_config_name'' (sc_hf_config_name st)
         (add_given ''scheduler_cls'' (sc_scheduler st)
           (add_given ''worker_type'' (sc_worker_type st)
             (dict_set ''model_stage'' (YStr (sc_model_stage st)) (sc_engine_args st)))))
       (filter (\<lambda>(k, v). k \<notin> set runtime_only) (sc_overrides st))"

definition to_omegaconf :: "stage_config \<Rightarrow> ydict res" where
  "to_omegaconf st =
     (let rt0 = set_default ''process'' (YBool True) (sc_runtime st);
          rt1 = (case map_of (sc_overrides st) ''devices'' of None \<Rightarrow> rt0 | Some v \<Rightarrow> dict_set ''devices'' v rt0);
          legacy = get_or YNone rt1 ''max_batch_size'';
          rt2 = dict_pop ''max_batch_size'' rt1;
          cli = get_or YNone (sc_overrides st) ''max_batch_size''
      in bind_res (if legacy \<noteq> YNone \<or> cli \<noteq> YNone
                   then bind_res (yval_int (if py_true cli then cli else if py_true legacy then legacy else YInt 1)) (\<lambda>n.
                          Inr (set_default ''max_num_seqs'' (YInt n) (overlaid_args st)))
                   else Inr (overlaid_args st)) (\<lambda>args.
         let c0 = [(''stage_id'', YInt (sc_id st)), (''stage_type'', YStr (case sc_type st of Type_llm \<Rightarrow> ''llm'' | Type_diffusion \<Rightarrow> ''diffusion'')),
                   (''engine_args'', YDict (set_default ''max_num_seqs'' (YInt 1) args)), (''runtime'', YDict rt2),
                   (''engine_input_source'', YList (map YInt (sc_sources st))), (''final_output'', YBool (sc_final_output st)),
                   (''final_output_type'', ystr (sc_final_output_type st)), (''is_comprehension'', YBool (sc_is_comprehension st))]
         in Inr (update_dict (add_given ''custom_process_input_func'' (sc_input_func st) c0) (sc_extras st))))"

section \<open>The caller's arguments\<close>

definition orchestrator_fields :: ydict where
  "orchestrator_fields =
     [(''stage_init_timeout'', YInt 300), (''init_timeout'', YInt 600), (''shm_threshold_bytes'', YInt 65536), (''batch_timeout'', YInt 10),
      (''worker_backend'', YStr ''multi_process''), (''ray_address'', YNone), (''stage_configs_path'', YNone), (''deploy_config'', YNone),
      (''stage_overrides'', YNone), (''async_chunk'', YNone), (''log_stats'', YBool False), (''stage_id'', YNone), (''parallel_config'', YNone),
      (''tokenizer'', YNone)]"

definition shared_fields :: "string list" where
  "shared_fields = [''model'', ''stage_id'', ''log_stats'', ''stage_configs_path'']"

definition internal_blacklist_keys :: "string list" where
  "internal_blacklist_keys = filter (\<lambda>k. k \<notin> set shared_fields) (map fst orchestrator_fields)"

text \<open>\<open>^stage_(\d+)_(.+)$\<close> on names without line breaks.\<close>

definition stage_override :: "string \<Rightarrow> (int \<times> string) option" where
  "stage_override key =
     (let rest = drop 6 key; ds = takeWhile is_digit_char rest; name = drop (Suc (length ds)) rest
      in if take 6 key = ''stage_'' \<and> ds \<noteq> [] \<and> take 1 (drop (length ds) rest) = ''_'' \<and> name \<noteq> []
         then Some (int (read_nat ds), name) else None)"

text \<open>The setting that an argument makes for a stage, if any.\<close>

definition setting_for :: "string set \<Rightarrow> int \<Rightarrow> string \<times> yval \<Rightarrow> (string \<times> yval) option" where
  "setting_for internal i kv =
     (case kv of (k, v) \<Rightarrow>
        if v = YNone \<or> k \<in> internal then None
        else (case stage_override k of
                Some (j, p) \<Rightarrow> if j = i \<and> p \<notin> internal then Some (p, v) else None
              | None \<Rightarrow> Some (k, v)))"

definition build_stage_runtime_overrides :: "string set \<Rightarrow> int \<Rightarrow> ydict \<Rightarrow> ydict" where
  "build_stage_runtime_overrides internal i cli =
     foldl (\<lambda>d kv. case setting_for internal i kv of None \<Rightarrow> d | Some (k, v) \<Rightarrow> dict_set k v d) [] cli"

definition merge_cli_overrides :: "stage_config \<Rightarrow> ydict \<Rightarrow> ydict" where
  "merge_cli_overrides st cli = build_stage_runtime_overrides (set internal_blacklist_keys \<union> set shared_fields) (sc_id st) cli"

text \<open>\<open>file\<close> is the resolved deploy file, if it exists.\<close>

definition create_from_registry ::
  "string set \<Rightarrow> (string \<Rightarrow> pipeline_config option) \<Rightarrow> string \<Rightarrow> string \<Rightarrow> ydict \<Rightarrow> ydict res option \<Rightarrow> registry
    \<Rightarrow> registry \<times> stage_config list res" where
  "create_from_registry lazy load platform model_type cli file r =
     (case (case file of None \<Rightarrow> Inr default_deploy | Some f \<Rightarrow> bind_res f load_deploy_config) of
        Inl e \<Rightarrow> (r, Inl e)
      | Inr d0 \<Rightarrow>
          (let d = (if get_or YNone cli ''async_chunk'' = YNone then d0
                    else d0\<lparr>dc_async_chunk := YBool (py_true (get_or YNone cli ''async_chunk''))\<rparr>);
               key = (if py_true (dc_pipeline d) then dc_pipeline d else YStr model_type)
           in (case key of
                 YStr k \<Rightarrow>
                   (if \<not> registry_contains lazy k r then (r, Inl KeyError)
                    else (case registry_getitem lazy load k r of (r1, p) \<Rightarrow>
                      (r1, bind_res p (\<lambda>pipe. bind_res (merge_pipeline_deploy platform pipe d) (\<lambda>stages.
                        Inr (map (\<lambda>st. st\<lparr>sc_overrides := merge_cli_overrides st (filter (\<lambda>(k, v). v \<noteq> YNone) cli)\<rparr>) stages))))))
               | v \<Rightarrow> (r, Inl (if hashable v then KeyError else TypeError)))))"

text \<open>The split of the command line; \<open>engine_fields\<close> are those of the engine's class.\<close>

definition split_kwargs :: "string set \<Rightarrow> bool \<Rightarrow> ydict \<Rightarrow> (ydict \<times> ydict) res" where
  "split_kwargs engine_fields strict kwargs =
     (let orch = fst ` set orchestrator_fields;
          shared = filter (\<lambda>(k, v). k \<in> set shared_fields) kwargs;
          own = filter (\<lambda>(k, v). k \<notin> set shared_fields \<and> k \<in> orch) kwargs;
          engine = filter (\<lambda>(k, v). k \<notin> set shared_fields \<and> k \<notin> orch \<and> k \<in> engine_fields) kwargs
      in if strict \<and> list_ex (\<lambda>(k, v). k \<in> engine_fields) own then Inl ValueError
         else Inr (take_fields orchestrator_fields (update_dict own (filter (\<lambda>(k, v). k \<in> orch) shared)), update_dict shared engine))"

text \<open>\<open>parent\<close> has the defaults of the parent's fields, none for a field without.\<close>

definition overridden :: "(string \<times> yval option) list \<Rightarrow> string set \<Rightarrow> string \<times> yval \<Rightarrow> bool" where
  "overridden parent no_warn kv =
     (case kv of (k, v) \<Rightarrow>
        (case map_of parent k of Some (Some dflt) \<Rightarrow> v \<noteq> YNone \<and> v \<noteq> dflt \<and> k \<notin> no_warn | _ \<Rightarrow> False))"

definition strip_parent_engine_args ::
  "(string \<times> yval option) list \<Rightarrow> string set \<Rightarrow> string set \<Rightarrow> string set \<Rightarrow> ydict \<Rightarrow> ydict \<times> string list" where
  "strip_parent_engine_args parent keep strips no_warn kwargs =
     (let live = filter (\<lambda>(k, v). k \<notin> strips) kwargs
      in (filter (\<lambda>(k, v). k \<notin> fst ` set parent \<or> k \<in> keep) live,
          sort (map fst (filter (\<lambda>(k, v). k \<in> fst ` set parent \<and> k \<notin> keep \<and> overridden parent no_warn (k, v)) live))))"


section \<open>Finding the pipeline of a model\<close>

text \<open>\<open>--stage-overrides\<close>, added to the caller's arguments.\<close>

definition flatten_overrides :: "ydict \<Rightarrow> (string \<times> ydict) list \<Rightarrow> ydict" where
  "flatten_overrides args overrides =
     foldl (\<lambda>d (i, kvs). foldl (\<lambda>d (k, v). dict_set (''stage_'' @ i @ ''_'' @ k) v d) d kvs) args overrides"

text \<open>A run through \<open>values\<close> that stops at the first pipeline with a property; every entry is loaded on the way.\<close>

fun registry_find ::
  "string set \<Rightarrow> (string \<Rightarrow> pipeline_config option) \<Rightarrow> (pipeline_config \<Rightarrow> bool) \<Rightarrow> string list \<Rightarrow> registry
    \<Rightarrow> registry \<times> pipeline_config option res" where
  "registry_find lazy load sel [] r = (r, Inr None)"
| "registry_find lazy load sel (k # ks) r =
     (case registry_getitem lazy load k r of
        (r1, Inl e) \<Rightarrow> (r1, Inl e)
      | (r1, Inr p) \<Rightarrow> if sel p then (r1, Inr (Some p)) else registry_find lazy load sel ks r1)"

text \<open>
  What the files of a model say: the type and architectures of its Hugging Face configuration, the
  content of \<open>config.json\<close> and that of \<open>model_index.json\<close>, each if it can be read.
\<close>

record model_files =
  mf_config :: "(string \<times> string list) option"
  mf_json :: "ydict option"
  mf_index :: "ydict option"

definition type_in_json :: "ydict \<Rightarrow> yval option" where
  "type_in_json d =
     (case map_of d ''model_type'' of
        Some t \<Rightarrow> Some t
      | None \<Rightarrow> (case map_of d ''architecture'' of Some (YStr a) \<Rightarrow> Some (YStr a) | _ \<Rightarrow> None))"

text \<open>An error while a pipeline is looked up by its diffusers class is dropped.\<close>

definition auto_detect_model_type ::
  "(string set \<Rightarrow> string list) \<Rightarrow> string set \<Rightarrow> (string \<Rightarrow> pipeline_config option) \<Rightarrow> string \<Rightarrow> model_files \<Rightarrow> registry
    \<Rightarrow> registry \<times> yval \<times> string list option" where
  "auto_detect_model_type ord lazy load model files r =
     (case mf_config files of
        Some (t, archs) \<Rightarrow> (r, YStr t, Some archs)
      | None \<Rightarrow>
          (case (case mf_json files of Some d \<Rightarrow> type_in_json d | None \<Rightarrow> None) of
             Some t \<Rightarrow> (r, t, None)
           | None \<Rightarrow>
               (case (case mf_index files of
                        Some d \<Rightarrow> (case map_of d ''_class_name'' of
                            Some c \<Rightarrow> registry_find lazy load (\<lambda>p. ystr (pc_diffusers p) = c) (ord (registry_keys lazy r)) r
                          | None \<Rightarrow> (r, Inr None))
                      | None \<Rightarrow> (r, Inr None)) of
                  (r1, Inr (Some p)) \<Rightarrow> (r1, YStr (pc_type p), None)
                | (r1, _) \<Rightarrow> (r1, ystr (match_by_name (ord (registry_keys lazy r1)) model), None))))"

text \<open>The lookup by architecture, for a model whose type is not registered.\<close>

definition by_architecture ::
  "(string set \<Rightarrow> string list) \<Rightarrow> string set \<Rightarrow> (string \<Rightarrow> pipeline_config option) \<Rightarrow> string list option \<Rightarrow> registry
    \<Rightarrow> registry \<times> string option res" where
  "by_architecture ord lazy load archs r =
     (case archs of
        None \<Rightarrow> (r, Inr None)
      | Some as \<Rightarrow>
          if as = [] then (r, Inr None)
          else (case registry_find lazy load (\<lambda>p. \<exists>a \<in> set as. a \<in> set (pc_hf_archs p)) (ord (registry_keys lazy r)) r of
                  (r1, p) \<Rightarrow> (r1, bind_res p (\<lambda>q. Inr (map_option pc_type q)))))"

text \<open>The registered pipeline of a model, if there is one.\<close>

definition registered_type ::
  "(string set \<Rightarrow> string list) \<Rightarrow> string set \<Rightarrow> (string \<Rightarrow> pipeline_config option) \<Rightarrow> string \<Rightarrow> model_files \<Rightarrow> registry
    \<Rightarrow> registry \<times> string option res" where
  "registered_type ord lazy load model files r =
     (case auto_detect_model_type ord lazy load model files r of (r1, t, archs) \<Rightarrow>
        if py_true t \<and> \<not> hashable t then (r1, Inl TypeError)
        else (case (t, archs) of
                (YStr k, _) \<Rightarrow> if k \<noteq> [] \<and> registry_contains lazy k r1 then (r1, Inr (Some k)) else by_architecture ord lazy load archs r1
              | _ \<Rightarrow> by_architecture ord lazy load archs r1))"

end
