(* ===== verification/Stage_Merge_Properties.thy ===== *)
theory Stage_Merge_Properties
  imports Stage_Merge
begin

text \<open>
  What the merge of the stages' configurations guarantees: which of several settings counts, what a deploy
  file inherits, which topologies are valid, which registered pipeline a name finds.
\<close>

section \<open>Dictionaries\<close>

lemma map_of_update_dict: "map_of (update_dict a b) = map_of a ++ map_of (rev b)"
proof (induction b arbitrary: a)
  case (Cons x b)
  obtain k v where "x = (k, v)" by (cases x)
  with Cons [of "dict_set k v a"] show ?case by (simp add: update_dict_def map_of_dict_set map_add_def fun_eq_iff split: option.splits)
qed (simp add: update_dict_def)

text \<open>The settings that a dictionary makes, \<open>None\<close> being none.\<close>

definition given :: "ydict \<Rightarrow> string \<Rightarrow> yval option" where
  "given kvs = map_of (rev (filter (\<lambda>(k, v). v \<noteq> YNone) kvs))"

lemma map_of_add_values: "map_of (add_values kvs d) = map_of d ++ given kvs"
proof (induction kvs arbitrary: d)
  case (Cons x kvs)
  obtain k v where "x = (k, v)" by (cases x)
  with Cons [of "if v = YNone then d else dict_set k v d"] show ?case
    by (simp add: add_values_def given_def map_of_dict_set map_add_def fun_eq_iff split: option.splits)
qed (simp add: add_values_def given_def)

lemma map_of_add_given: "k \<noteq> j \<Longrightarrow> map_of (add_given j s d) k = map_of d k"
  by (simp add: add_given_def map_of_dict_set)

lemma map_of_set_default: "k \<noteq> j \<Longrightarrow> map_of (set_default j v d) k = map_of d k"
  by (simp add: set_default_def map_of_dict_set)

lemma map_of_rev_distinct: "distinct (map fst d) \<Longrightarrow> map_of (rev d) = map_of d"
  by (subst map_of_inject_set) (simp_all add: rev_map [symmetric])

lemma traverse_nth:
  "traverse f xs = Inr ys \<Longrightarrow> length ys = length xs \<and> (\<forall>i < length xs. f (xs ! i) = Inr (ys ! i))"
proof (induction xs arbitrary: ys)
  case (Cons x xs)
  from Cons.prems obtain y zs where y: "f x = Inr y" "traverse f xs = Inr zs" "ys = y # zs"
    by (cases "f x"; cases "traverse f xs") auto
  with Cons.IH [of zs] show ?case by (auto simp: nth_Cons split: nat.splits)
qed simp

section \<open>Which setting counts\<close>

text \<open>Engine arguments that the pipeline's topology fixes.\<close>

definition structural_keys :: "string list" where
  "structural_keys =
     [''model_arch'', ''engine_output_type'', ''custom_process_next_stage_input_func'', ''model_subdir'', ''tokenizer_subdir'', ''async_chunk'',
      ''omni_kv_config'', ''model_stage'', ''worker_type'', ''scheduler_cls'', ''hf_config_name'', ''max_num_seqs''] @ runtime_only"

text \<open>
  What is set for a stage, written out: the deploy configuration's entry that counts is the last one with
  the id of the stage.
\<close>

definition stage_settings :: "deploy_config \<Rightarrow> int \<Rightarrow> string \<Rightarrow> yval option" where
  "stage_settings d i =
     (let ss = filter (\<lambda>s. sd_id s = YInt i) (dc_stages d)
      in if ss = [] then Map.empty
         else given (sd_engine (last ss)) ++ (case sd_extras (last ss) of YDict ex \<Rightarrow> map_of (rev ex) | _ \<Rightarrow> Map.empty))"

lemma deploy_of_last:
  "deploy_of ss i = (let xs = filter (\<lambda>s. sd_id s = YInt i) ss in if xs = [] then None else Some (last xs))"
  by (induction ss rule: rev_induct) (auto simp: deploy_of_def Let_def)

lemma stage_settings_deploy:
  "stage_settings d i = (case deploy_of (dc_stages d) i of
       None \<Rightarrow> Map.empty
     | Some s \<Rightarrow> given (sd_engine s) ++ (case sd_extras s of YDict ex \<Rightarrow> map_of (rev ex) | _ \<Rightarrow> Map.empty))"
  by (simp add: stage_settings_def deploy_of_last Let_def)

text \<open>
  An argument of the caller names setting \<open>k\<close> of stage \<open>i\<close> if it is called \<open>k\<close> and has not the form of an
  argument of a stage, or is called \<open>stage_i_k\<close>, in each case unless \<open>k\<close> is hidden from the stages. (A number
  may be written with zeros in front.)
\<close>

definition hidden_keys :: "string set" where
  "hidden_keys = set internal_blacklist_keys \<union> set shared_fields"

definition stage_key :: "int \<Rightarrow> string \<Rightarrow> string \<Rightarrow> bool" where
  "stage_key i k name \<longleftrightarrow>
     k \<noteq> [] \<and> (\<exists>ds. ds \<noteq> [] \<and> list_all is_digit_char ds \<and> int (read_nat ds) = i \<and> name = ''stage_'' @ ds @ ''_'' @ k)"

definition names_setting :: "int \<Rightarrow> string \<Rightarrow> string \<Rightarrow> bool" where
  "names_setting i k name \<longleftrightarrow> k \<notin> hidden_keys \<and> (name = k \<and> (\<forall>j p. \<not> stage_key j p name) \<or> stage_key i k name)"

definition caller_settings :: "int \<Rightarrow> ydict \<Rightarrow> string \<Rightarrow> yval option" where
  "caller_settings i cli k =
     (let kvs = filter (\<lambda>(name, v). v \<noteq> YNone \<and> names_setting i k name) cli in if kvs = [] then None else Some (snd (last kvs)))"

lemma stage_override_key: "stage_override name = Some (i, k) \<longleftrightarrow> stage_key i k name"
proof
  let ?rest = "drop 6 name"
  let ?ds = "takeWhile is_digit_char ?rest"
  assume a: "stage_override name = Some (i, k)"
  then have h: "take 6 name = ''stage_''" "?ds \<noteq> []" "take 1 (drop (length ?ds) ?rest) = ''_''" "k \<noteq> []"
    "i = int (read_nat ?ds)" "k = drop (Suc (length ?ds)) ?rest"
    by (auto simp: stage_override_def Let_def split: if_splits)
  have "name = take 6 name @ ?rest" by simp
  also have "?rest = ?ds @ drop (length ?ds) ?rest" by (metis append_take_drop_id takeWhile_eq_take)
  also have "drop (length ?ds) ?rest = ''_'' @ k"
    using h(3,6) by (metis append_take_drop_id drop_drop plus_1_eq_Suc)
  finally have "name = ''stage_'' @ ?ds @ ''_'' @ k" unfolding h(1) .
  moreover have "list_all is_digit_char ?ds" by (auto simp: list_all_iff dest: set_takeWhileD)
  ultimately show "stage_key i k name" unfolding stage_key_def using h(2,4,5) by blast
next
  assume "stage_key i k name"
  then obtain ds where ds: "ds \<noteq> []" "list_all is_digit_char ds" "int (read_nat ds) = i" "name = ''stage_'' @ ds @ ''_'' @ k" "k \<noteq> []"
    by (auto simp: stage_key_def)
  have "takeWhile is_digit_char (ds @ ''_'' @ k) = ds"
    using ds(2) by (subst takeWhile_append2) (auto simp: list_all_iff is_digit_char_def)
  with ds show "stage_override name = Some (i, k)" by (simp add: stage_override_def Let_def)
qed

lemma stage_key_not_hidden: "stage_key i k name \<Longrightarrow> name \<notin> hidden_keys"
proof -
  have "\<forall>h \<in> hidden_keys. take 6 h = ''stage_'' \<longrightarrow> length h \<le> 6 \<or> \<not> is_digit_char (h ! 6)" by code_simp
  moreover assume "stage_key i k name"
  then have "take 6 name = ''stage_''" "6 < length name" "is_digit_char (name ! 6)"
    by (auto simp: stage_key_def list_all_iff nth_append)
  ultimately show ?thesis by (metis not_le)
qed

lemma setting_for_names:
  "setting_for hidden_keys i (name, v) = Some (k, w) \<longleftrightarrow> w = v \<and> v \<noteq> YNone \<and> names_setting i k name"
proof (cases "stage_override name")
  case None
  then have "\<forall>j p. \<not> stage_key j p name" by (metis option.distinct(1) stage_override_key)
  with None show ?thesis by (auto simp: setting_for_def names_setting_def)
next
  case (Some jp)
  obtain j p where jp: "jp = (j, p)" by (cases jp)
  with Some have key: "stage_key j p name" by (simp add: stage_override_key)
  then have only: "stage_key i k name \<longleftrightarrow> i = j \<and> k = p" for i k using Some jp by (auto simp: stage_override_key [symmetric])
  show ?thesis
    using Some jp key only stage_key_not_hidden [OF key] by (auto simp: setting_for_def names_setting_def)
qed

lemma caller_settings_snoc:
  "caller_settings i (cli @ [(name, v)]) k = (if v \<noteq> YNone \<and> names_setting i k name then Some v else caller_settings i cli k)"
  by (simp add: caller_settings_def Let_def)

lemma runtime_overrides_lookup:
  "map_of (build_stage_runtime_overrides hidden_keys i cli) k = caller_settings i cli k"
proof (induction cli rule: rev_induct)
  case Nil
  then show ?case by (simp add: build_stage_runtime_overrides_def caller_settings_def)
next
  case (snoc x cli)
  obtain name v where x: "x = (name, v)" by (cases x)
  show ?case
  proof (cases "setting_for hidden_keys i (name, v)")
    case None
    then have "\<not> (v \<noteq> YNone \<and> names_setting i k name)" by (metis option.distinct(1) setting_for_names)
    with None snoc show ?thesis by (auto simp: x caller_settings_snoc build_stage_runtime_overrides_def)
  next
    case (Some kw)
    obtain k1 w where kw: "kw = (k1, w)" by (cases kw)
    with Some have n: "w = v" "v \<noteq> YNone" "names_setting i k1 name" by (simp_all add: setting_for_names)
    have "names_setting i k name \<longleftrightarrow> k = k1" using n Some kw setting_for_names [of i name v k v] by auto
    with n Some kw snoc show ?thesis
      by (simp add: x caller_settings_snoc build_stage_runtime_overrides_def map_of_dict_set)
  qed
qed

lemma overrides_distinct: "distinct (map fst (build_stage_runtime_overrides internal i cli))"
proof -
  have "distinct (map fst a) \<Longrightarrow>
      distinct (map fst (foldl (\<lambda>d kv. case setting_for internal i kv of None \<Rightarrow> d | Some (k, v) \<Rightarrow> dict_set k v d) a cli))" for a
    by (induction cli arbitrary: a) (auto simp: distinct_update split: option.splits)
  from this [of "[]"] show ?thesis by (simp add: build_stage_runtime_overrides_def)
qed

lemma structural_args_lookup: "k \<notin> set structural_keys \<Longrightarrow> map_of (structural_args ps pipe nf) k = None"
  by (simp add: structural_args_def map_of_add_given structural_keys_def)

lemma build_engine_args_lookup:
  assumes b: "build_engine_args ps (deploy_of (dc_stages d) i) pipe d nf = Inr args" and k: "k \<notin> set structural_keys"
  shows "map_of args k = (given (dc_wide d) ++ stage_settings d i) k"
proof -
  let ?a5 = "add_values (dc_wide d) (structural_args ps pipe nf)"
  have keep: "map_of (case sp_kv_config ps of None \<Rightarrow> a7 | Some kv \<Rightarrow> if kv = [] then a7 else dict_set ''omni_kv_config'' (YDict kv) a7) k
      = map_of a6 k" if "a7 = dict_set ''async_chunk'' v a6" for a6 a7 v
    using k that by (auto simp: map_of_dict_set structural_keys_def split: option.splits)
  have base: "map_of ?a5 k = given (dc_wide d) k"
    by (simp add: map_of_add_values structural_args_lookup [OF k] map_add_def split: option.splits)
  show ?thesis
  proof (cases "deploy_of (dc_stages d) i")
    case None
    with b have "map_of args k = map_of ?a5 k"
      unfolding build_engine_args_def by (auto simp: Let_def keep)
    with None base show ?thesis by (simp add: stage_settings_deploy)
  next
    case (Some s)
    then obtain ex where ex: "sd_extras s = YDict ex"
      using b unfolding build_engine_args_def by (cases "sd_extras s") (auto simp: as_mapping_def Let_def)
    with b Some have "map_of args k = map_of (update_dict (add_values (sd_engine s) ?a5) ex) k"
      unfolding build_engine_args_def by (auto simp: as_mapping_def Let_def keep)
    with Some ex base show ?thesis
      by (simp add: map_of_update_dict map_of_add_values stage_settings_deploy map_add_def split: option.splits)
  qed
qed


lemma overlaid_args_lookup:
  assumes k: "k \<notin> set structural_keys" and d: "distinct (map fst (sc_overrides st))"
  shows "map_of (overlaid_args st) k = (map_of (sc_engine_args st) ++ map_of (sc_overrides st)) k"
proof -
  have r: "map_of (filter (\<lambda>(j, v). j \<notin> set runtime_only) ov) k = map_of ov k" for ov
    using k by (induction ov) (auto simp: structural_keys_def)
  have "map_of (rev (filter (\<lambda>(j, v). j \<notin> set runtime_only) (sc_overrides st))) k = map_of (sc_overrides st) k"
    using d by (simp add: map_of_rev_distinct distinct_map_filter r)
  moreover have "map_of (add_given ''hf_config_name'' (sc_hf_config_name st) (add_given ''scheduler_cls'' (sc_scheduler st)
      (add_given ''worker_type'' (sc_worker_type st) (dict_set ''model_stage'' (YStr (sc_model_stage st)) (sc_engine_args st))))) k
      = map_of (sc_engine_args st) k"
    using k by (simp add: map_of_add_given structural_keys_def map_of_dict_set)
  ultimately show ?thesis by (simp add: overlaid_args_def map_of_update_dict map_add_def split: option.split)
qed

lemma to_omegaconf_args:
  assumes "to_omegaconf st = Inr c" and "''engine_args'' \<notin> fst ` set (sc_extras st)"
  shows "\<exists>args v. map_of c ''engine_args'' = Some (YDict args) \<and>
    (args = set_default ''max_num_seqs'' (YInt 1) (overlaid_args st)
      \<or> args = set_default ''max_num_seqs'' (YInt 1) (set_default ''max_num_seqs'' v (overlaid_args st)))"
proof -
  have x: "map_of (rev (sc_extras st)) ''engine_args'' = None"
    using assms(2) by (auto simp: map_of_eq_None_iff)
  show ?thesis
    using assms(1) unfolding to_omegaconf_def Let_def
    by (auto simp: bind_res_def map_of_update_dict map_add_def x map_of_add_given split: sum.splits if_splits)
qed

lemma merge_stages:
  assumes "merge_pipeline_deploy platform pipe deploy = Inr stages"
  shows "\<exists>d. apply_platform_overrides platform deploy = Inr d \<and> length stages = length (pc_stages pipe)
    \<and> (\<forall>i < length (pc_stages pipe). merge_stage pipe d (pc_stages pipe ! i) = Inr (stages ! i))"
  using assms unfolding merge_pipeline_deploy_def
  by (auto simp: bind_res_def dest: traverse_nth split: sum.splits if_splits)

lemma merge_stage_parts:
  assumes "merge_stage pipe d ps = Inr st"
  shows "sc_id st = sp_id ps \<and> build_engine_args ps (deploy_of (dc_stages d) (sp_id ps)) pipe d
      (snd (select_processor_funcs ps (py_true (dc_async_chunk d)))) = Inr (sc_engine_args st)
    \<and> build_extras ps (deploy_of (dc_stages d) (sp_id ps)) = Inr (sc_extras st)"
  using assms unfolding merge_stage_def Let_def
  by (auto simp: bind_res_def split: sum.splits prod.splits)

lemma build_extras_keys:
  assumes "build_extras ps ds = Inr ex" "k \<notin> fst ` set (sp_extras ps)"
    "k \<notin> {''default_sampling_params'', ''output_connectors'', ''input_connectors'', ''prompt_expand_func'', ''cfg_kv_collect_func''}"
  shows "map_of ex k = None"
proof -
  have x: "map_of (rev (sp_extras ps)) k = None" using assms(2) by (auto simp: map_of_eq_None_iff)
  have m: "add_mapping j v e0 = Inr e \<Longrightarrow> k \<noteq> j \<Longrightarrow> map_of e k = map_of e0 k" for j v e e0
    by (auto simp: add_mapping_def bind_res_def map_of_dict_set split: sum.splits if_splits)
  show ?thesis
    using assms(1,3) unfolding build_extras_def Let_def
    by (auto simp: bind_res_def map_of_update_dict map_add_def x map_of_add_given dest!: m split: sum.splits option.splits if_splits)
qed

text \<open>C19: Which setting of an engine argument reaches a stage: the last one the caller makes that names the
  argument, by its bare name or as \<open>stage_<id>_<name>\<close> with the id of this very stage, else the deploy
  configuration's for the stage, else the one for the whole pipeline. Arguments of other stages, hidden ones
  and empty ones set nothing; the arguments fixed by the topology are apart.\<close>

lemma setting_precedence:
  assumes m: "merge_pipeline_deploy platform pipe deploy = Inr stages" and d: "apply_platform_overrides platform deploy = Inr d"
    and i: "i < length (pc_stages pipe)" and ps: "ps = pc_stages pipe ! i"
    and c: "to_omegaconf ((stages ! i)\<lparr>sc_overrides := merge_cli_overrides (stages ! i) cli\<rparr>) = Inr c"
    and e: "''engine_args'' \<notin> fst ` set (sp_extras ps)" and k: "k \<notin> set structural_keys"
  shows "length stages = length (pc_stages pipe) \<and> (\<exists>args. map_of c ''engine_args'' = Some (YDict args) \<and>
    map_of args k = (given (dc_wide d) ++ stage_settings d (sp_id ps) ++ caller_settings (sp_id ps) cli) k)"
proof -
  let ?st = "(stages ! i)\<lparr>sc_overrides := merge_cli_overrides (stages ! i) cli\<rparr>"
  from merge_stages [OF m] d i ps have len: "length stages = length (pc_stages pipe)" and st: "merge_stage pipe d ps = Inr (stages ! i)"
    by auto
  note parts = merge_stage_parts [OF st]
  have "''engine_args'' \<notin> fst ` set (sc_extras (stages ! i))"
    using build_extras_keys [OF conjunct2 [OF conjunct2 [OF parts]] e] by (simp add: map_of_eq_None_iff)
  with to_omegaconf_args [OF c] obtain args v where args: "map_of c ''engine_args'' = Some (YDict args)"
    "args = set_default ''max_num_seqs'' (YInt 1) (overlaid_args ?st)
      \<or> args = set_default ''max_num_seqs'' (YInt 1) (set_default ''max_num_seqs'' v (overlaid_args ?st))" by auto
  have "map_of args k = map_of (overlaid_args ?st) k"
    using args(2) k by (auto simp: structural_keys_def map_of_set_default)
  also have "\<dots> = (map_of (sc_engine_args (stages ! i)) ++ map_of (merge_cli_overrides (stages ! i) cli)) k"
    by (subst overlaid_args_lookup [OF k]) (simp_all add: merge_cli_overrides_def overrides_distinct)
  also have "\<dots> = (given (dc_wide d) ++ stage_settings d (sp_id ps) ++ caller_settings (sp_id ps) cli) k"
    using build_engine_args_lookup [OF conjunct1 [OF conjunct2 [OF parts]] k] conjunct1 [OF parts]
    by (simp add: merge_cli_overrides_def [folded hidden_keys_def] runtime_overrides_lookup map_add_def split: option.split)
  finally show ?thesis using len args(1) by blast
qed


text \<open>
  A pipeline of two stages with its deploy file: the caller's own setting for stage 1, the deploy file's
  for stage 0, and a pipeline-wide one.
\<close>

definition thinker :: stage_pipeline where
  "thinker = \<lparr>sp_id = 0, sp_model_stage = ''thinker'', sp_execution = LLM_AR, sp_sources = [], sp_final_output = True,
     sp_final_output_type = Some ''text'', sp_owns_tokenizer = True, sp_hf_config_name = None, sp_output_type = Some ''latent'',
     sp_model_arch = None, sp_constraints = [(''detokenize'', YBool True)], sp_input_func = None, sp_next_func = Some ''m.thinker2talker'',
     sp_async_next_func = None, sp_sync_input_func = None, sp_expand_func = None, sp_collect_func = None, sp_kv_config = None,
     sp_model_subdir = None, sp_tokenizer_subdir = None, sp_extras = []\<rparr>"

definition two_stages :: pipeline_config where
  "two_stages = \<lparr>pc_type = ''tts'', pc_arch = ''Tts'',
     pc_stages = [thinker, thinker\<lparr>sp_id := 1, sp_model_stage := ''talker'', sp_sources := [0]\<rparr>], pc_hf_archs = [], pc_diffusers = None\<rparr>"

definition two_stage_file :: ydict where
  "two_stage_file =
     [(''dtype'', YStr ''bfloat16''),
      (''stages'', YList [YDict [(''stage_id'', YInt 0), (''dtype'', YStr ''float32''), (''max_model_len'', YInt 4096)],
                          YDict [(''stage_id'', YInt 1), (''max_model_len'', YInt 2048)]])]"

definition two_stage_deploy :: deploy_config where
  "two_stage_deploy = (case load_deploy_config two_stage_file of Inr d \<Rightarrow> d | Inl _ \<Rightarrow> default_deploy)"

definition two_stage_cli :: ydict where
  "two_stage_cli = [(''max_model_len'', YInt 512), (''stage_1_max_model_len'', YInt 1024), (''ray_address'', YStr ''head'')]"

definition merged_stages :: "stage_config list" where
  "merged_stages = (case merge_pipeline_deploy ''cuda'' two_stages two_stage_deploy of Inr ss \<Rightarrow> ss | Inl _ \<Rightarrow> [])"

definition started_stage :: "nat \<Rightarrow> ydict" where
  "started_stage i =
     (case to_omegaconf ((merged_stages ! i)\<lparr>sc_overrides := merge_cli_overrides (merged_stages ! i) two_stage_cli\<rparr>) of
        Inr c \<Rightarrow> c | Inl _ \<Rightarrow> [])"

lemma setting_precedence_witness:
  "\<exists>args. map_of (started_stage 1) ''engine_args'' = Some (YDict args) \<and> map_of args ''max_model_len'' = Some (YInt 1024)"
proof -
  have m: "merge_pipeline_deploy ''cuda'' two_stages two_stage_deploy = Inr merged_stages" by code_simp
  have d: "apply_platform_overrides ''cuda'' two_stage_deploy = Inr two_stage_deploy" by code_simp
  have c: "to_omegaconf ((merged_stages ! 1)\<lparr>sc_overrides := merge_cli_overrides (merged_stages ! 1) two_stage_cli\<rparr>) = Inr (started_stage 1)"
    by code_simp
  have i: "1 < length (pc_stages two_stages)" by code_simp
  have e: "''engine_args'' \<notin> fst ` set (sp_extras (pc_stages two_stages ! 1))" by code_simp
  have k: "''max_model_len'' \<notin> set structural_keys" by code_simp
  have v: "(given (dc_wide two_stage_deploy) ++ stage_settings two_stage_deploy (sp_id (pc_stages two_stages ! 1))
      ++ map_of (build_stage_runtime_overrides hidden_keys (sp_id (pc_stages two_stages ! 1)) two_stage_cli)) ''max_model_len'' = Some (YInt 1024)"
    by code_simp
  from setting_precedence [OF m d i refl c e k] v show ?thesis by (simp add: map_add_def runtime_overrides_lookup)
qed

text \<open>
  The deprecated \<open>max_batch_size\<close> of the caller changes nothing where the deploy configuration has an
  entry for the stage: its \<open>max_num_seqs\<close> is already set.
\<close>

lemma batch_size_ignored:
  assumes "to_omegaconf st = Inr c" "''engine_args'' \<notin> fst ` set (sc_extras st)" "''max_num_seqs'' \<in> fst ` set (overlaid_args st)"
  shows "map_of c ''engine_args'' = Some (YDict (overlaid_args st))"
  using to_omegaconf_args [OF assms(1,2)] assms(3) by (auto simp: set_default_def)

text \<open>The caller's settings for a stage are those of the last argument, whether global or its own.\<close>

lemma global_after_stage:
  "map_of (build_stage_runtime_overrides hidden_keys 1 [(''stage_1_max_model_len'', YInt 1024), (''max_model_len'', YInt 512)]) ''max_model_len'' = Some (YInt 512)"
  by code_simp


section \<open>What a stage inherits\<close>

definition merged_item :: "string \<Rightarrow> yval option \<Rightarrow> yval \<Rightarrow> yval" where
  "merged_item k old new =
     (case (old, new) of (Some (YDict a), YDict b) \<Rightarrow> if k \<in> set deep_merge_keys then YDict (update_dict a b) else new | _ \<Rightarrow> new)"

lemma deep_merge_item: "deep_merge_item d (k, v) = dict_set k (merged_item k (map_of d k) v) d"
  by (auto simp: deep_merge_item_def merged_item_def split: yval.splits option.splits)

lemma deep_merge_lookup:
  assumes "distinct (map fst overlay)"
  shows "map_of (deep_merge_stage base overlay) k =
    (case map_of overlay k of None \<Rightarrow> map_of base k | Some v \<Rightarrow> Some (merged_item k (map_of base k) v))"
  using assms
proof (induction overlay arbitrary: base)
  case (Cons x overlay)
  obtain j v where x: "x = (j, v)" by (cases x)
  have "map_of overlay j = None" using Cons.prems x by (simp add: map_of_eq_None_iff)
  then show ?case
    using Cons.IH [of "deep_merge_item base x"] Cons.prems x
    by (auto simp: deep_merge_stage_def deep_merge_item map_of_dict_set split: option.splits)
qed (simp add: deep_merge_stage_def)

lemma map_of_overlay_stages:
  assumes "distinct (map fst os)"
  shows "map_of (foldl overlay_stage m os) i =
    (case map_of os i of None \<Rightarrow> map_of m i
     | Some d \<Rightarrow> Some (case map_of m i of Some b \<Rightarrow> deep_merge_stage b d | None \<Rightarrow> d))"
  using assms
proof (induction os arbitrary: m)
  case (Cons x os)
  obtain j d where x: "x = (j, d)" by (cases x)
  have "map_of os j = None" using Cons.prems x by (simp add: map_of_eq_None_iff)
  then show ?case
    using Cons.IH [of "overlay_stage m x"] Cons.prems x
    by (auto simp: overlay_stage_def map_of_dict_set split: option.splits)
qed simp

lemma keys_overlay_stages:
  assumes "distinct (map fst os)"
  shows "map fst (foldl overlay_stage m os) = map fst m @ filter (\<lambda>i. i \<notin> fst ` set m) (map fst os)"
  using assms
proof (induction os arbitrary: m)
  case (Cons x os)
  obtain j d where x: "x = (j, d)" by (cases x)
  have k: "map fst (overlay_stage m x) = (if j \<in> fst ` set m then map fst m else map fst m @ [j])"
    by (simp add: overlay_stage_def x update_keys)
  have "set (map fst (overlay_stage m x)) = insert j (set (map fst m))"
    unfolding k by auto
  then have s: "fst ` set (overlay_stage m x) = insert j (fst ` set m)" by simp
  have f: "filter (\<lambda>i. i \<notin> insert j A) (map fst os) = filter (\<lambda>i. i \<notin> A) (map fst os)" for A
    using Cons.prems x by (intro filter_cong) auto
  have "map fst (foldl overlay_stage m (x # os)) = map fst (overlay_stage m x) @ filter (\<lambda>i. i \<notin> fst ` set (overlay_stage m x)) (map fst os)"
    using Cons.IH [of "overlay_stage m x"] Cons.prems by simp
  then show ?case
    unfolding s f k by (simp add: x)
qed simp

lemma stage_list_list: "stage_list (Some (YList xs)) = Inr xs"
  by (simp add: stage_list_def py_true_def)

text \<open>C21: A deploy file that inherits from another keeps every stage of it, adds its own stages behind, and
  changes of a common stage only the fields it sets; of the nested dictionaries of sampling parameters and
  engine arguments again only the entries it sets.\<close>

lemma inherited_stages:
  assumes b: "traverse keyed_stage bs = Inr base" and o: "traverse keyed_stage os = Inr over"
    and d: "distinct (map fst base)" "distinct (map fst over)"
  shows "\<exists>m. merge_stage_lists (Some (YList bs)) (Some (YList os)) = Inr (map (\<lambda>(i, d). YDict d) m)
    \<and> map fst m = map fst base @ filter (\<lambda>i. i \<notin> fst ` set base) (map fst over)
    \<and> (\<forall>i. map_of m i = (case (map_of base i, map_of over i) of
         (Some x, Some y) \<Rightarrow> Some (deep_merge_stage x y) | (None, y) \<Rightarrow> y | (x, None) \<Rightarrow> x))
    \<and> (\<forall>i x y k. map_of base i = Some x \<longrightarrow> map_of over i = Some y \<longrightarrow> distinct (map fst y) \<longrightarrow>
         map_of (deep_merge_stage x y) k = (case map_of y k of None \<Rightarrow> map_of x k | Some v \<Rightarrow> Some (merged_item k (map_of x k) v)))"
proof -
  have m: "merge_stage_lists (Some (YList bs)) (Some (YList os)) = Inr (map (\<lambda>(i, d). YDict d) (foldl overlay_stage base over))"
    using b o foldl_dict_set [of "[]" base] d(1) by (simp add: merge_stage_lists_def stage_list_list)
  show ?thesis
    by (rule exI [of _ "foldl overlay_stage base over"])
       (auto simp: m keys_overlay_stages [OF d(2)] map_of_overlay_stages [OF d(2)] deep_merge_lookup split: option.splits)
qed

definition inherit_base :: "(yval \<times> ydict) list" where
  "inherit_base =
     [(YInt 0, [(''stage_id'', YInt 0), (''devices'', YStr ''0'')]),
      (YInt 1, [(''stage_id'', YInt 1), (''default_sampling_params'', YDict [(''seed'', YInt 42), (''top_k'', YInt 5)])])]"

definition inherit_over :: "(yval \<times> ydict) list" where
  "inherit_over =
     [(YInt 2, [(''stage_id'', YInt 2), (''devices'', YStr ''2'')]),
      (YInt 1, [(''stage_id'', YInt 1), (''default_sampling_params'', YDict [(''top_k'', YInt 9)])])]"

lemma inherited_stages_witness:
  "\<exists>m y. merge_stage_lists (Some (YList (map (\<lambda>(i, d). YDict d) inherit_base))) (Some (YList (map (\<lambda>(i, d). YDict d) inherit_over)))
      = Inr (map (\<lambda>(i, d). YDict d) m)
    \<and> map fst m = [YInt 0, YInt 1, YInt 2] \<and> map_of m (YInt 1) = Some y
    \<and> map_of y ''default_sampling_params'' = Some (YDict [(''seed'', YInt 42), (''top_k'', YInt 9)])"
proof -
  have b: "traverse keyed_stage (map (\<lambda>(i, d). YDict d) inherit_base) = Inr inherit_base" by code_simp
  have o: "traverse keyed_stage (map (\<lambda>(i, d). YDict d) inherit_over) = Inr inherit_over" by code_simp
  have d: "distinct (map fst inherit_base)" "distinct (map fst inherit_over)" by code_simp+
  have k: "map fst inherit_base @ filter (\<lambda>i. i \<notin> fst ` set inherit_base) (map fst inherit_over) = [YInt 0, YInt 1, YInt 2]" by code_simp
  have v: "map_of inherit_base (YInt 1) = Some (snd (inherit_base ! 1))" "map_of inherit_over (YInt 1) = Some (snd (inherit_over ! 1))"
    by code_simp+
  have p: "map_of (deep_merge_stage (snd (inherit_base ! 1)) (snd (inherit_over ! 1))) ''default_sampling_params''
      = Some (YDict [(''seed'', YInt 42), (''top_k'', YInt 9)])" by code_simp
  from inherited_stages [OF b o d] obtain m where
    m: "merge_stage_lists (Some (YList (map (\<lambda>(i, d). YDict d) inherit_base))) (Some (YList (map (\<lambda>(i, d). YDict d) inherit_over)))
      = Inr (map (\<lambda>(i, d). YDict d) m)"
    "map fst m = map fst inherit_base @ filter (\<lambda>i. i \<notin> fst ` set inherit_base) (map fst inherit_over)"
    "map_of m (YInt 1) = (case (map_of inherit_base (YInt 1), map_of inherit_over (YInt 1)) of
         (Some x, Some y) \<Rightarrow> Some (deep_merge_stage x y) | (None, y) \<Rightarrow> y | (x, None) \<Rightarrow> x)" by blast
  have "map_of m (YInt 1) = Some (deep_merge_stage (snd (inherit_base ! 1)) (snd (inherit_over ! 1)))"
    unfolding m(3) v by simp
  then show ?thesis by (intro exI conjI) (rule m(1), rule m(2) [unfolded k], assumption, rule p)
qed


section \<open>The topology and the registry\<close>

lemma concat_Nil_iff: "concat (map f xs) = [] \<longleftrightarrow> (\<forall>x \<in> set xs. f x = [])"
  by auto

text \<open>
  The validation of a pipeline reports no error exactly for those with an entry, whose stages have
  different ids and take their inputs from other stages of the pipeline.
\<close>

lemma valid_topology:
  "validate_pipeline p = [] \<longleftrightarrow>
     distinct (map sp_id (pc_stages p)) \<and> (\<exists>s \<in> set (pc_stages p). sp_sources s = [])
     \<and> (\<forall>s \<in> set (pc_stages p). set (sp_sources s) \<subseteq> sp_id ` set (pc_stages p) - {sp_id s})"
proof -
  let ?st = "map (\<lambda>s. (sp_id s, sp_sources s)) (pc_stages p)"
  have ids: "map fst ?st = map sp_id (pc_stages p)" by (simp add: comp_def)
  have src: "source_errors I i x = [] \<longleftrightarrow> x \<in> I \<and> x \<noteq> i" for I i x by (simp add: source_errors_def)
  have "concat (map (\<lambda>(i, srcs). concat (map (source_errors (set (map fst ?st)) i) srcs)) ?st) = []
      \<longleftrightarrow> (\<forall>s \<in> set (pc_stages p). set (sp_sources s) \<subseteq> sp_id ` set (pc_stages p) - {sp_id s})"
    by (auto simp: src ids)
  then show ?thesis
    unfolding validate_pipeline_def validate_def ids by (auto simp: list_ex_iff)
qed

lemma valid_topology_witness: "validate_pipeline two_stages = []"
proof -
  have "distinct (map sp_id (pc_stages two_stages))" "\<exists>s \<in> set (pc_stages two_stages). sp_sources s = []"
    "\<forall>s \<in> set (pc_stages two_stages). set (sp_sources s) \<subseteq> sp_id ` set (pc_stages two_stages) - {sp_id s}"
    by code_simp+
  then show ?thesis by (simp add: valid_topology)
qed

text \<open>
  The name of a model finds a registered pipeline whose name it contains, hyphens, underscores and
  case aside; of several a longest one, and none only if there is none.
\<close>

definition name_matches :: "string \<Rightarrow> string \<Rightarrow> bool" where
  "name_matches model k \<longleftrightarrow> plain_name k \<noteq> [] \<and> sublist (plain_name k) (plain_name model)"

lemma match_by_name_longest:
  "case match_by_name keys model of
     None \<Rightarrow> \<not> (\<exists>k \<in> set keys. name_matches model k)
   | Some k \<Rightarrow> k \<in> set keys \<and> name_matches model k
       \<and> length (plain_name k) = Max (insert 0 ((\<lambda>k. length (plain_name k)) ` {k \<in> set keys. name_matches model k}))"
proof -
  define good where "good ks b \<longleftrightarrow> (case fst b of
      None \<Rightarrow> snd b = 0 \<and> \<not> (\<exists>k \<in> set ks. name_matches model k)
    | Some k \<Rightarrow> k \<in> set ks \<and> name_matches model k \<and> snd b = length (plain_name k)
        \<and> (\<forall>j \<in> set ks. name_matches model j \<longrightarrow> length (plain_name j) \<le> snd b))" for ks and b :: "string option \<times> nat"
  have bm: "better_match model b k =
      (if name_matches model k \<and> snd b < length (plain_name k) then (Some k, length (plain_name k)) else b)" for b k
    by (simp add: better_match_def name_matches_def Let_def)
  have step: "good (ks @ [k]) (better_match model b k)" if g: "good ks b" for ks k b
  proof (cases "name_matches model k \<and> snd b < length (plain_name k)")
    case True
    have "length (plain_name j) < length (plain_name k)" if "j \<in> set ks" "name_matches model j" for j
      using g that True by (cases "fst b") (fastforce simp: good_def)+
    then have "\<forall>j \<in> set (ks @ [k]). name_matches model j \<longrightarrow> length (plain_name j) \<le> length (plain_name k)"
      using less_imp_le by auto
    with True show ?thesis by (simp add: bm good_def)
  next
    case False
    then have "name_matches model k \<Longrightarrow> length (plain_name k) \<le> snd b" by simp
    moreover have "name_matches model k \<Longrightarrow> 0 < length (plain_name k)" by (simp add: name_matches_def)
    moreover have "better_match model b k = b" using False by (auto simp: bm)
    ultimately show ?thesis using g by (cases "fst b") (auto simp: good_def)
  qed
  have "good ks (foldl (better_match model) (None, 0) ks)" for ks
  proof (induction ks rule: rev_induct)
    case (snoc k ks)
    from step [OF this] show ?case by simp
  qed (simp add: good_def)
  from this [of keys] have g: "good keys (foldl (better_match model) (None, 0) keys)" .
  show ?thesis
  proof (cases "match_by_name keys model")
    case None
    with g show ?thesis by (simp add: good_def match_by_name_def)
  next
    case (Some k)
    with g have k: "k \<in> set keys" "name_matches model k"
      "\<forall>j \<in> set keys. name_matches model j \<longrightarrow> length (plain_name j) \<le> length (plain_name k)"
      by (auto simp: good_def match_by_name_def)
    then have "Max (insert 0 ((\<lambda>k. length (plain_name k)) ` {k \<in> set keys. name_matches model k})) = length (plain_name k)"
      by (intro Max_eqI) auto
    with k Some show ?thesis by simp
  qed
qed

section \<open>Further facts\<close>

text \<open>A file that inherits from itself ends in an error of the recursion, at any depth.\<close>

lemma cyclic_base:
  assumes "yaml path = Inr raw" "get_or YNone raw ''base_config'' = b" "b \<noteq> YNone" "join path b = Inr path"
  shows "resolve_deploy_yaml ord yaml join depth path = Inl RuntimeError"
  using assms by (induction depth) (auto split: yval.splits)

text \<open>The sampling parameters that the topology fixes are not overridden by a deploy file.\<close>

lemma constraints_hold:
  assumes b: "build_extras ps ds = Inr ex" and x: "''default_sampling_params'' \<notin> fst ` set (sp_extras ps)"
    and k: "map_of (rev (sp_constraints ps)) k = Some v"
  shows "\<exists>s. map_of ex ''default_sampling_params'' = Some (YDict s) \<and> map_of s k = Some v"
proof -
  have n: "map_of (rev (sp_extras ps)) ''default_sampling_params'' = None" using x by (auto simp: map_of_eq_None_iff)
  have m: "add_mapping j w e0 = Inr e \<Longrightarrow> ''default_sampling_params'' \<noteq> j \<Longrightarrow>
      map_of e ''default_sampling_params'' = map_of e0 ''default_sampling_params''" for j w e e0
    by (auto simp: add_mapping_def bind_res_def map_of_dict_set split: sum.splits if_splits)
  have u: "map_of (update_dict s0 (sp_constraints ps)) k = Some v" for s0 by (simp add: map_of_update_dict map_add_def k)
  then have u0: "update_dict s0 (sp_constraints ps) \<noteq> []" for s0 by (metis map_of.simps(1) option.distinct(1))
  show ?thesis
    using b u0 unfolding build_extras_def Let_def
    by (auto simp: bind_res_def map_of_update_dict map_add_def n k map_of_add_given dest!: m split: sum.splits option.splits if_splits)
qed

text \<open>Every argument the caller means for the engine only, reaches it.\<close>

lemma split_kwargs_keeps:
  assumes "split_kwargs engine_fields strict kwargs = Inr (orch, engine)" "k \<in> engine_fields" "k \<notin> fst ` set orchestrator_fields"
    "k \<notin> set shared_fields"
  shows "map_of engine k = map_of (rev kwargs) k"
proof -
  have f: "map_of (filter (\<lambda>(j, v). j \<notin> set shared_fields \<and> j \<notin> fst ` set orchestrator_fields \<and> j \<in> engine_fields) l) k = map_of l k" for l
    using assms(2-4) by (induction l) (force simp: split_beta)+
  have g: "map_of (filter (\<lambda>(j, v). j \<in> set shared_fields) kwargs) k = None" using assms(4) by (auto simp: map_of_eq_None_iff)
  show ?thesis
    using assms(1) unfolding split_kwargs_def Let_def
    by (auto simp: map_of_update_dict map_add_def rev_filter f g split: if_splits option.splits)
qed


text \<open>
  One module that cannot be imported makes every lookup by architecture that comes to it fail, though
  other pipelines would match.
\<close>

lemma broken_module_hides:
  assumes "\<forall>k \<in> set ks. \<exists>p. registry_getitem lazy load k r = (r, Inr p) \<and> \<not> sel p"
    and "b \<notin> fst ` set (loaded r)" "load b = None"
  shows "snd (registry_find lazy load sel (ks @ b # rest) r) = Inl KeyError"
  using assms
proof (induction ks)
  case Nil
  then have "map_of (loaded r) b = None" by (simp add: map_of_eq_None_iff)
  with Nil(3) show ?case by (simp add: registry_getitem_def registry_get_def load_lazy_def)
qed auto

text \<open>A pipeline found by a run through the registry is the one a lookup of its key gives.\<close>

lemma registry_find_sound:
  "registry_find lazy load sel ks r = (r1, Inr (Some p)) \<Longrightarrow> sel p \<and> (\<exists>k \<in> set ks. map_of (loaded r) k = Some p \<or> load k = Some p)"
proof (induction ks arbitrary: r)
  case (Cons k ks)
  obtain r0 q where g: "registry_getitem lazy load k r = (r0, q)" by (cases "registry_getitem lazy load k r")
  show ?case
  proof (cases q)
    case (Inl e)
    with Cons.prems g show ?thesis by simp
  next
    case (Inr p0)
    with g have p0: "map_of (loaded r) k = Some p0 \<or> load k = Some p0"
      and r0: "r0 = r \<or> load k = Some p0 \<and> r0 = r\<lparr>loaded := dict_set k p0 (loaded r)\<rparr>"
      by (auto simp: registry_getitem_def registry_get_def load_lazy_def split: option.splits if_splits)
    show ?thesis
    proof (cases "sel p0")
      case True
      with Cons.prems g Inr p0 show ?thesis by auto
    next
      case False
      with Cons.prems g Inr have "registry_find lazy load sel ks r0 = (r1, Inr (Some p))" by simp
      from Cons.IH [OF this] r0 show ?thesis by (auto simp: map_of_dict_set split: if_splits)
    qed
  qed
qed simp

end
