(* ===== verification/Rank_Groups.thy ===== *)
theory Rank_Groups
  imports Prelude
begin

text \<open>
  The process groups of the diffusion workers (\<open>diffusion/distributed/parallel_state.py\<close>, the constructors of
  \<open>group_coordinator.py\<close>, and \<open>DiffusionParallelConfig\<close> of \<open>diffusion/data.py\<close>). A process group is the number
  of the collective call that created it, with its members; every process has to make the same calls in the
  same order. Sizes are natural numbers once the configuration has been checked.
\<close>

section \<open>Orthogonal rank groups\<close>

fun prefix_product :: "nat \<Rightarrow> nat list \<Rightarrow> nat list" where
  "prefix_product i [] = [i]"
| "prefix_product i (v # a) = i # prefix_product (i * v) a"

definition inner_product :: "nat list \<Rightarrow> nat list \<Rightarrow> nat" where
  "inner_product a b = sum_list (map2 (*) a b)"

definition decompose :: "nat \<Rightarrow> nat list \<Rightarrow> nat list res" where
  "decompose index shape =
     (if 0 \<in> set shape then Inl ZeroDivisionError
      else (let stride = prefix_product 1 shape;
                idx = map2 (\<lambda>s d. (index div d) mod s) shape stride
            in if inner_product idx (butlast stride) = index then Inr idx else Inl AssertionError))"

text \<open>The entries at the places where a mask is true, or false.\<close>

definition picked :: "'a list \<Rightarrow> bool list \<Rightarrow> 'a list" where
  "picked xs sel = map fst (filter snd (zip xs sel))"

definition unpicked :: "'a list \<Rightarrow> bool list \<Rightarrow> 'a list" where
  "unpicked xs sel = map fst (filter (\<lambda>p. \<not> snd p) (zip xs sel))"

definition generate_masked_orthogonal_rank_groups :: "nat \<Rightarrow> nat list \<Rightarrow> bool list \<Rightarrow> nat list list res" where
  "generate_masked_orthogonal_rank_groups world_size parallel_size sel =
     (let masked_shape = picked parallel_size sel;
          unmasked_shape = unpicked parallel_size sel;
          global_stride = prefix_product 1 parallel_size;
          masked_stride = picked global_stride sel;
          unmasked_stride = unpicked global_stride sel;
          group_size = last (prefix_product 1 masked_shape)
      in if group_size = 0 then Inl ZeroDivisionError
         else traverse (\<lambda>group_index.
           bind_res (decompose group_index unmasked_shape) (\<lambda>group_idx.
             traverse (\<lambda>rank_in_group.
               bind_res (decompose rank_in_group masked_shape) (\<lambda>rank_idx.
                 Inr (inner_product rank_idx masked_stride + inner_product group_idx unmasked_stride))) [0..<group_size]))
           [0..<world_size div group_size])"

section \<open>The rank generator\<close>

record rank_generator =
  rg_pp :: nat
  rg_fs :: nat
  rg_offset :: nat
  rg_world :: nat
  rg_ep :: nat
  rg_order :: string
  rg_ordered_size :: "nat list"

fun split_hyphen :: "string \<Rightarrow> string list" where
  "split_hyphen [] = [[]]"
| "split_hyphen (c # cs) =
     (if c = CHR ''-'' then [] # split_hyphen cs
      else (case split_hyphen cs of [] \<Rightarrow> [[c]] | t # ts \<Rightarrow> (c # t) # ts))"

text \<open>\<open>name in order\<close> is a test for a substring.\<close>

fun complete_order :: "(string \<times> nat) list \<Rightarrow> string \<Rightarrow> string res" where
  "complete_order [] order = Inr order"
| "complete_order ((name, n) # rest) order =
     (if name = ''fs'' \<or> sublist name order then complete_order rest order
      else if n \<noteq> 1 then Inl RuntimeError
      else complete_order rest (order @ ''-'' @ name))"

definition make_rank_generator ::
  "nat \<Rightarrow> nat \<Rightarrow> nat \<Rightarrow> nat \<Rightarrow> nat \<Rightarrow> nat \<Rightarrow> string \<Rightarrow> nat \<Rightarrow> rank_generator res" where
  "make_rank_generator tp sp pp cfg dp fs order0 offset =
     (let sizes = [(''tp'', tp), (''sp'', sp), (''pp'', pp), (''cfg'', cfg), (''dp'', dp), (''fs'', fs)]
      in bind_res (complete_order sizes (map py_lower order0)) (\<lambda>order.
         bind_res (traverse (\<lambda>token. case map_of sizes token of None \<Rightarrow> Inl KeyError | Some n \<Rightarrow> Inr n) (split_hyphen order)) (\<lambda>ordered.
           Inr \<lparr>rg_pp = pp, rg_fs = fs, rg_offset = offset, rg_world = tp * sp * pp * cfg * dp, rg_ep = tp * sp * cfg * dp,
                rg_order = order, rg_ordered_size = ordered\<rparr>)))"

definition index_of :: "'a \<Rightarrow> 'a list \<Rightarrow> nat" where
  "index_of x xs = length (takeWhile (\<lambda>y. y \<noteq> x) xs)"

definition get_mask :: "string \<Rightarrow> string \<Rightarrow> bool list res" where
  "get_mask order token =
     (let ordered = split_hyphen order
      in if set (split_hyphen token) \<subseteq> set ordered
         then Inr (foldl (\<lambda>m t. m[index_of t ordered := True]) (replicate (length ordered) False) (split_hyphen token))
         else Inl ValueError)"

definition get_ranks :: "string \<Rightarrow> bool \<Rightarrow> rank_generator \<Rightarrow> nat list list res" where
  "get_ranks token indep g =
     (if indep \<and> token = ''fs'' then
        if rg_fs g = 0 then Inl ZeroDivisionError
        else Inr (map (\<lambda>i. [i * rg_fs g + rg_offset g..<(i + 1) * rg_fs g + rg_offset g]) [0..<rg_world g div rg_fs g])
      else if token = ''ep'' then
        Inr (map (\<lambda>i. [i * rg_ep g + rg_offset g..<i * rg_ep g + rg_offset g + rg_ep g]) [0..<rg_pp g])
      else bind_res (get_mask (rg_order g) token) (\<lambda>sel.
        bind_res (generate_masked_orthogonal_rank_groups (rg_world g) (rg_ordered_size g) sel) (\<lambda>ranks.
          Inr (map (map (\<lambda>r. r + rg_offset g)) ranks))))"

section \<open>Collective calls\<close>

type_synonym process_group = "nat \<times> nat list"

type_synonym calls = "(nat list \<times> string option) list"

definition new_group :: "nat list \<Rightarrow> string option \<Rightarrow> calls \<Rightarrow> process_group \<times> calls" where
  "new_group ranks backend calls = ((length calls, ranks), calls @ [(ranks, backend)])"

record group_coordinator =
  gc_rank :: nat
  gc_ranks :: "nat list"
  gc_rank_in_group :: nat
  gc_device_group :: process_group
  gc_cpu_group :: process_group

definition gc_world_size :: "'a group_coordinator_scheme \<Rightarrow> nat" where
  "gc_world_size g = length (gc_ranks g)"


text \<open>\<open>GroupCoordinator\<close>: two groups for every list of ranks, of which a process keeps those it is in.\<close>

fun join_groups :: "nat \<Rightarrow> string \<Rightarrow> nat list list \<Rightarrow> group_coordinator option \<Rightarrow> calls \<Rightarrow> group_coordinator option \<times> calls" where
  "join_groups rank backend [] cur c = (cur, c)"
| "join_groups rank backend (ranks # rs) cur c =
     (let (dev, c1) = new_group ranks (Some backend) c;
          (cpu, c2) = new_group ranks (Some ''gloo'') c1
      in join_groups rank backend rs
           (if rank \<in> set ranks
            then Some \<lparr>gc_rank = rank, gc_ranks = ranks, gc_rank_in_group = index_of rank ranks, gc_device_group = dev, gc_cpu_group = cpu\<rparr>
            else cur) c2)"

definition init_group :: "nat \<Rightarrow> string \<Rightarrow> nat list list \<Rightarrow> calls \<Rightarrow> group_coordinator res \<times> calls" where
  "init_group rank backend group_ranks c =
     (case join_groups rank backend group_ranks None c of
        (None, c1) \<Rightarrow> (Inl AssertionError, c1) | (Some g, c1) \<Rightarrow> (Inr g, c1))"

text \<open>\<open>PipelineGroupCoordinator\<close>: for two stages a pair of groups each, and one more for skip connections.\<close>

record pipeline_group = group_coordinator +
  gc_device_groups :: "process_group list"
  gc_cpu_groups :: "process_group list"
  gc_skip_group :: process_group

definition with_pairs :: "group_coordinator \<Rightarrow> process_group list \<Rightarrow> process_group list \<Rightarrow> process_group \<Rightarrow> pipeline_group" where
  "with_pairs g devs cpus skip =
     \<lparr>gc_rank = gc_rank g, gc_ranks = gc_ranks g, gc_rank_in_group = gc_rank_in_group g, gc_device_group = gc_device_group g,
      gc_cpu_group = gc_cpu_group g, gc_device_groups = devs, gc_cpu_groups = cpus, gc_skip_group = skip\<rparr>"

type_synonym pair_groups = "group_coordinator \<times> process_group list \<times> process_group list"

fun join_pairs :: "nat \<Rightarrow> string \<Rightarrow> nat list list \<Rightarrow> pair_groups option \<Rightarrow> calls \<Rightarrow> pair_groups option \<times> calls" where
  "join_pairs rank backend [] cur c = (cur, c)"
| "join_pairs rank backend (ranks # rs) cur c =
     (let (dev01, c1) = new_group ranks (Some backend) c;
          (dev10, c2) = new_group ranks (Some backend) c1;
          (cpu01, c3) = new_group ranks (Some ''gloo'') c2;
          (cpu10, c4) = new_group ranks (Some ''gloo'') c3
      in join_pairs rank backend rs
           (if rank \<in> set ranks
            then Some (\<lparr>gc_rank = rank, gc_ranks = ranks, gc_rank_in_group = index_of rank ranks, gc_device_group = dev01,
                        gc_cpu_group = cpu01\<rparr>, [dev01, dev10], [cpu01, cpu10])
            else cur) c4)"

fun join_plain :: "nat \<Rightarrow> string option \<Rightarrow> nat list list \<Rightarrow> process_group option \<Rightarrow> calls \<Rightarrow> process_group option \<times> calls" where
  "join_plain rank backend [] cur c = (cur, c)"
| "join_plain rank backend (ranks # rs) cur c =
     (let (g, c1) = new_group ranks backend c
      in join_plain rank backend rs (if rank \<in> set ranks then Some g else cur) c1)"

definition init_pipeline_group :: "nat \<Rightarrow> string \<Rightarrow> nat list list \<Rightarrow> calls \<Rightarrow> pipeline_group res \<times> calls" where
  "init_pipeline_group rank backend group_ranks c =
     (if group_ranks = [] then (Inl IndexError, c)
      else (let n = length (hd group_ranks);
                (joined, c1) =
                  (if n > 2 \<or> n = 1
                   then (case join_groups rank backend group_ranks None c of (g, c1) \<Rightarrow> (map_option (\<lambda>g. (g, [], [])) g, c1))
                   else if n = 2 then join_pairs rank backend group_ranks None c
                   else (None, c))
            in (case joined of
                  None \<Rightarrow> (Inl AssertionError, c1)
                | Some (g, devs, cpus) \<Rightarrow>
                    (case join_plain rank (Some backend) group_ranks None c1 of
                       (None, c2) \<Rightarrow> (Inl AssertionError, c2)
                     | (Some skip, c2) \<Rightarrow> (Inr (with_pairs g devs cpus skip), c2)))))"

text \<open>\<open>SequenceParallelGroupCoordinator\<close>\<close>

record sequence_group = group_coordinator +
  gc_ulysses_group :: process_group
  gc_ring_group :: process_group

definition init_sequence_group ::
  "nat \<Rightarrow> string \<Rightarrow> nat list list \<Rightarrow> process_group \<Rightarrow> process_group \<Rightarrow> calls \<Rightarrow> sequence_group res \<times> calls" where
  "init_sequence_group rank backend group_ranks ulysses ring c =
     (case init_group rank backend group_ranks c of
        (Inl e, c1) \<Rightarrow> (Inl e, c1)
      | (Inr g, c1) \<Rightarrow> (Inr \<lparr>gc_rank = gc_rank g, gc_ranks = gc_ranks g, gc_rank_in_group = gc_rank_in_group g,
          gc_device_group = gc_device_group g, gc_cpu_group = gc_cpu_group g, gc_ulysses_group = ulysses, gc_ring_group = ring\<rparr>, c1))"

section \<open>Neighbours in a group\<close>

definition next_rank :: "'a group_coordinator_scheme \<Rightarrow> nat" where
  "next_rank g = gc_ranks g ! ((gc_rank_in_group g + 1) mod gc_world_size g)"

definition prev_rank :: "'a group_coordinator_scheme \<Rightarrow> nat" where
  "prev_rank g = gc_ranks g ! nat ((int (gc_rank_in_group g) - 1) mod int (gc_world_size g))"

definition group_next_rank :: "'a group_coordinator_scheme \<Rightarrow> nat" where
  "group_next_rank g = (gc_rank_in_group g + 1) mod gc_world_size g"

definition group_prev_rank :: "'a group_coordinator_scheme \<Rightarrow> nat" where
  "group_prev_rank g = nat ((int (gc_rank_in_group g) - 1) mod int (gc_world_size g))"

definition group_skip_rank :: "'a group_coordinator_scheme \<Rightarrow> nat" where
  "group_skip_rank g = nat ((int (gc_world_size g) - int (gc_rank_in_group g) - 1) mod int (gc_world_size g))"

definition skip_rank :: "'a group_coordinator_scheme \<Rightarrow> nat" where
  "skip_rank g = gc_ranks g ! group_skip_rank g"

definition is_first_rank :: "'a group_coordinator_scheme \<Rightarrow> bool" where
  "is_first_rank g \<longleftrightarrow> gc_rank g = hd (gc_ranks g)"

definition is_last_rank :: "'a group_coordinator_scheme \<Rightarrow> bool" where
  "is_last_rank g \<longleftrightarrow> gc_rank g = last (gc_ranks g)"

section \<open>Ulysses and ring groups\<close>

text \<open>The slices \<open>xs[i * n : (i + 1) * n]\<close> and \<open>xs[i::n]\<close>.\<close>

definition chunk_of :: "nat \<Rightarrow> 'a list \<Rightarrow> nat \<Rightarrow> 'a list" where
  "chunk_of n xs i = take n (drop (i * n) xs)"

definition strided :: "nat \<Rightarrow> 'a list \<Rightarrow> nat \<Rightarrow> 'a list" where
  "strided n xs i = map ((!) xs) (filter (\<lambda>j. i \<le> j \<and> (j - i) mod n = 0) [0..<length xs])"

text \<open>\<open>range(a, b, n)\<close>\<close>

definition stepped :: "nat \<Rightarrow> nat \<Rightarrow> nat \<Rightarrow> nat list" where
  "stepped a b n = map (\<lambda>k. a + k * n) [0..<(b - a + n - 1) div n]"

type_synonym sp_groups = "process_group option \<times> process_group option"

text \<open>The calls for one sequence-parallel group: \<open>us\<close> and \<open>rs\<close> are its Ulysses and ring groups.\<close>

definition split_sp_group :: "nat \<Rightarrow> bool \<Rightarrow> nat list list \<Rightarrow> nat list list \<Rightarrow> sp_groups \<Rightarrow> calls \<Rightarrow> sp_groups \<times> calls" where
  "split_sp_group rank low us rs cur c =
     (case cur of (u, r) \<Rightarrow>
        if low then (let (u1, c1) = join_plain rank None us u c; (r1, c2) = join_plain rank None rs r c1 in ((u1, r1), c2))
        else (let (r1, c1) = join_plain rank None rs r c; (u1, c2) = join_plain rank None us u c1 in ((u1, r1), c2)))"

fun split_explicit :: "nat \<Rightarrow> nat \<Rightarrow> nat \<Rightarrow> bool \<Rightarrow> nat list list \<Rightarrow> sp_groups \<Rightarrow> calls \<Rightarrow> sp_groups res \<times> calls" where
  "split_explicit ud rd rank low [] cur c = (Inr cur, c)"
| "split_explicit ud rd rank low (g # gs) cur c =
     (if length g \<noteq> rd * ud then (Inl ValueError, c)
      else (case split_sp_group rank low
              (map (if low then chunk_of ud g else strided rd g) [0..<rd])
              (map (if low then strided ud g else chunk_of rd g) [0..<ud]) cur c of
              (cur1, c1) \<Rightarrow> split_explicit ud rd rank low gs cur1 c1))"

fun split_auto :: "nat \<Rightarrow> nat \<Rightarrow> nat \<Rightarrow> bool \<Rightarrow> nat list \<Rightarrow> sp_groups \<Rightarrow> calls \<Rightarrow> sp_groups \<times> calls" where
  "split_auto ud rd rank low [] cur c = (cur, c)"
| "split_auto ud rd rank low (dp # dps) cur c =
     (let off = dp * (rd * ud);
          (cur1, c1) = split_sp_group rank low
            (map (\<lambda>i. if low then [i * ud + off..<(i + 1) * ud + off] else stepped (i + off) (rd * ud + off) rd) [0..<rd])
            (map (\<lambda>i. if low then stepped (i + off) (rd * ud + off) ud else [i * rd + off..<(i + 1) * rd + off]) [0..<ud]) cur c
      in split_auto ud rd rank low dps cur1 c1)"

text \<open>A process outside all groups returns unbound variables, an \<open>UnboundLocalError\<close>.\<close>

definition set_seq_parallel_pg ::
  "nat \<Rightarrow> nat \<Rightarrow> nat \<Rightarrow> nat \<Rightarrow> bool \<Rightarrow> nat list list option \<Rightarrow> calls \<Rightarrow> (process_group \<times> process_group) res \<times> calls" where
  "set_seq_parallel_pg ud rd rank world low groups c =
     (let sp = rd * ud
      in if sp = 0 then (Inl ZeroDivisionError, c)
         else if world mod sp \<noteq> 0 then (Inl AssertionError, c)
         else (case (case groups of
                  Some gs \<Rightarrow> if length gs * sp \<noteq> world then (Inl ValueError, c) else split_explicit ud rd rank low gs (None, None) c
                | None \<Rightarrow> (case split_auto ud rd rank low [0..<world div sp] (None, None) c of (cur, c1) \<Rightarrow> (Inr cur, c1))) of
             (Inl e, c1) \<Rightarrow> (Inl e, c1)
           | (Inr (Some u, Some r), c1) \<Rightarrow> (Inr (u, r), c1)
           | (Inr _, c1) \<Rightarrow> (Inl NameError, c1)))"


section \<open>The checked configuration\<close>

record parallel_config =
  pl_pp :: int
  pl_dp :: int
  pl_tp :: int
  pl_ep :: bool
  pl_sp :: "int option"
  pl_ulysses :: int
  pl_ring :: int
  pl_mode :: string
  pl_cfg :: int
  pl_vae :: int
  pl_hsdp :: bool
  pl_shard :: int
  pl_replicate :: int
  pl_world :: int

definition other_world :: "parallel_config \<Rightarrow> int" where
  "other_world c = pl_pp c * pl_dp c * pl_tp c * pl_ulysses c * pl_ring c * pl_cfg c"

text \<open>\<open>__post_init__\<close>; \<open>world_size\<close> is no argument.\<close>

definition post_init_parallel :: "parallel_config \<Rightarrow> parallel_config res" where
  "post_init_parallel c0 =
     (let c = (if pl_sp c0 = None then c0\<lparr>pl_sp := Some (pl_ulysses c0 * pl_ring c0)\<rparr> else c0);
          other = other_world c
      in if \<not> pl_hsdp c then Inr (c\<lparr>pl_world := other\<rparr>)
         else if pl_tp c > 1 \<or> pl_dp c > 1 then Inl ValueError
         else if pl_shard c = - 1 then
           (if pl_replicate c \<le> 0 then Inl ValueError
            else if other = 1 then Inl ValueError
            else if other mod pl_replicate c \<noteq> 0 then Inl ValueError
            else Inr (c\<lparr>pl_shard := other div pl_replicate c, pl_world := other\<rparr>))
         else if other = 1 then Inr (c\<lparr>pl_world := pl_replicate c * pl_shard c\<rparr>)
         else if pl_replicate c * pl_shard c \<noteq> other then Inl ValueError
         else Inr (c\<lparr>pl_world := other\<rparr>))"

text \<open>\<open>_validate_parallel_config\<close>; its failures are reported as a \<open>ValidationError\<close>, a \<open>ValueError\<close>.\<close>

definition validate_parallel :: "parallel_config \<Rightarrow> bool" where
  "validate_parallel c \<longleftrightarrow>
     pl_pp c > 0 \<and> pl_dp c > 0 \<and> pl_tp c > 0 \<and> (case pl_sp c of None \<Rightarrow> False | Some n \<Rightarrow> n > 0 \<and> n = pl_ulysses c * pl_ring c)
     \<and> pl_ulysses c > 0 \<and> pl_ring c > 0 \<and> pl_cfg c > 0 \<and> pl_cfg c \<in> {1, 2, 3} \<and> pl_vae c > 0
     \<and> pl_mode c \<in> {''strict'', ''advanced_uaa''} \<and> (pl_hsdp c \<longrightarrow> pl_replicate c > 0 \<and> pl_shard c > 0)"

definition make_parallel_config :: "parallel_config \<Rightarrow> parallel_config res" where
  "make_parallel_config c0 =
     bind_res (post_init_parallel c0) (\<lambda>c. if validate_parallel c then Inr c else Inl ValueError)"

section \<open>Initialization\<close>

text \<open>The module's variables; those of the vllm package are kept beside them.\<close>

record parallel_state =
  pst_world :: "group_coordinator option"
  pst_dp :: "group_coordinator option"
  pst_cfg :: "group_coordinator option"
  pst_pp :: "pipeline_group option"
  pst_sp :: "sequence_group option"
  pst_tp :: "group_coordinator option"
  pst_fs :: "group_coordinator option"
  pst_ep :: "group_coordinator option"
  pst_dit :: "process_group option"

record parallel_args =
  pa_dp :: nat
  pa_cfg :: nat
  pa_sp :: "nat option"
  pa_ulysses :: nat
  pa_ring :: nat
  pa_tp :: nat
  pa_pp :: nat
  pa_fs :: nat
  pa_replicate :: nat
  pa_ep :: bool

record environment =
  env_rank :: nat
  env_world :: nat
  env_backend :: string
  env_npu :: bool
  env_moe :: bool

text \<open>Statements that change the variables, make collective calls and may raise.\<close>

type_synonym 'a prog = "parallel_state \<times> calls \<Rightarrow> 'a res \<times> parallel_state \<times> calls"

definition seq_prog :: "'a prog \<Rightarrow> ('a \<Rightarrow> 'b prog) \<Rightarrow> 'b prog" where
  "seq_prog m f s = (case m s of (Inl e, s1) \<Rightarrow> (Inl e, s1) | (Inr x, s1) \<Rightarrow> f x s1)"

definition result_prog :: "'a res \<Rightarrow> 'a prog" where
  "result_prog r s = (r, s)"

definition assert_prog :: "bool \<Rightarrow> unit prog" where
  "assert_prog b = result_prog (if b then Inr () else Inl AssertionError)"

definition call_prog :: "(calls \<Rightarrow> 'a res \<times> calls) \<Rightarrow> 'a prog" where
  "call_prog f s = (case s of (ps, c) \<Rightarrow> (case f c of (r, c1) \<Rightarrow> (r, ps, c1)))"

definition store_prog :: "(parallel_state \<Rightarrow> parallel_state) \<Rightarrow> unit prog" where
  "store_prog f s = (case s of (ps, c) \<Rightarrow> (Inr (), f ps, c))"

definition read_prog :: "(parallel_state \<Rightarrow> 'a) \<Rightarrow> 'a prog" where
  "read_prog f s = (Inr (f (fst s)), s)"

definition init_distributed_environment :: "environment \<Rightarrow> unit prog" where
  "init_distributed_environment env =
     seq_prog (read_prog pst_world) (\<lambda>w. case w of
         None \<Rightarrow> seq_prog (call_prog (init_group (env_rank env) (env_backend env) [[0..<env_world env]]))
                   (\<lambda>g. store_prog (\<lambda>ps. ps\<lparr>pst_world := Some g\<rparr>))
       | Some g \<Rightarrow> assert_prog (gc_world_size g = env_world env))"

text \<open>
  A group: its variable must be free and the world group there, then the ranks are generated and the
  group is created.
\<close>

definition setup_group ::
  "(parallel_state \<Rightarrow> bool) \<Rightarrow> nat list list res \<Rightarrow> (nat list list \<Rightarrow> calls \<Rightarrow> 'g res \<times> calls)
    \<Rightarrow> ('g \<Rightarrow> parallel_state \<Rightarrow> parallel_state) \<Rightarrow> unit prog" where
  "setup_group free ranks create store =
     seq_prog (read_prog free) (\<lambda>b. seq_prog (assert_prog b) (\<lambda>_.
     seq_prog (result_prog ranks) (\<lambda>gs.
     seq_prog (read_prog (\<lambda>ps. pst_world ps \<noteq> None)) (\<lambda>w. seq_prog (assert_prog w) (\<lambda>_.
     seq_prog (call_prog (create gs)) (\<lambda>g. store_prog (store g)))))))"

definition sp_size :: "parallel_args \<Rightarrow> nat" where
  "sp_size a = (case pa_sp a of None \<Rightarrow> pa_ring a * pa_ulysses a | Some n \<Rightarrow> n)"

definition plain_dit_size :: "parallel_args \<Rightarrow> nat" where
  "plain_dit_size a = pa_dp a * pa_cfg a * sp_size a * pa_pp a * pa_tp a"

definition standalone_hsdp :: "parallel_args \<Rightarrow> bool" where
  "standalone_hsdp a \<longleftrightarrow> plain_dit_size a = 1 \<and> 1 < pa_fs a"

definition dit_size :: "parallel_args \<Rightarrow> nat" where
  "dit_size a = (if standalone_hsdp a then pa_fs a * pa_replicate a else plain_dit_size a)"

definition setup_sp_group :: "environment \<Rightarrow> parallel_args \<Rightarrow> nat list list \<Rightarrow> unit prog" where
  "setup_sp_group env a sp_ranks =
     seq_prog (read_prog (\<lambda>ps. pst_sp ps = None)) (\<lambda>b. seq_prog (assert_prog b) (\<lambda>_.
     seq_prog (read_prog pst_world) (\<lambda>w. seq_prog (result_prog (case w of None \<Rightarrow> Inl AssertionError | Some g \<Rightarrow> Inr (gc_rank_in_group g))) (\<lambda>rank.
     seq_prog (call_prog (set_seq_parallel_pg (pa_ulysses a) (pa_ring a) rank (dit_size a) True (Some sp_ranks))) (\<lambda>(u, r).
     seq_prog (call_prog (init_sequence_group (env_rank env) (env_backend env) sp_ranks u r)) (\<lambda>g.
       store_prog (\<lambda>ps. ps\<lparr>pst_sp := Some g\<rparr>)))))))"

definition setup_ep_group :: "environment \<Rightarrow> parallel_args \<Rightarrow> rank_generator \<Rightarrow> unit prog" where
  "setup_ep_group env a gen =
     (if \<not> pa_ep a then result_prog (Inr ())
      else if \<not> env_moe env then result_prog (Inl RuntimeError)
      else setup_group (\<lambda>ps. True) (get_ranks ''ep'' False gen) (init_group (env_rank env) (env_backend env))
             (\<lambda>g ps. ps\<lparr>pst_ep := Some g\<rparr>))"

definition initialize_model_parallel :: "environment \<Rightarrow> parallel_args \<Rightarrow> unit prog" where
  "initialize_model_parallel env a =
     (let create = init_group (env_rank env) (env_backend env) in
      seq_prog (result_prog (if sp_size a \<noteq> pa_ring a * pa_ulysses a then Inl ValueError else Inr ())) (\<lambda>_.
      seq_prog (assert_prog (env_npu env \<longrightarrow> pa_pp a = 1)) (\<lambda>_.
      seq_prog (result_prog (if env_world env < dit_size a then Inl RuntimeError else Inr ())) (\<lambda>_.
      seq_prog (result_prog (make_rank_generator (pa_tp a) (sp_size a) (pa_pp a) (pa_cfg a)
        (if standalone_hsdp a then pa_fs a * pa_replicate a else pa_dp a) (pa_fs a) ''tp-sp-pp-cfg-dp'' 0)) (\<lambda>gen.
      seq_prog (result_prog (get_ranks ''sp'' False gen)) (\<lambda>sp_ranks.
      seq_prog (setup_group (\<lambda>ps. pst_dp ps = None) (get_ranks ''dp'' False gen) create (\<lambda>g ps. ps\<lparr>pst_dp := Some g\<rparr>)) (\<lambda>_.
      seq_prog (setup_group (\<lambda>ps. pst_cfg ps = None) (get_ranks ''cfg'' False gen) create (\<lambda>g ps. ps\<lparr>pst_cfg := Some g\<rparr>)) (\<lambda>_.
      seq_prog (setup_group (\<lambda>ps. pst_pp ps = None) (get_ranks ''pp'' False gen) (init_pipeline_group (env_rank env) (env_backend env))
        (\<lambda>g ps. ps\<lparr>pst_pp := Some g\<rparr>)) (\<lambda>_.
      seq_prog (setup_sp_group env a sp_ranks) (\<lambda>_.
      seq_prog (setup_group (\<lambda>ps. pst_tp ps = None) (get_ranks ''tp'' False gen) create (\<lambda>g ps. ps\<lparr>pst_tp := Some g\<rparr>)) (\<lambda>_.
      seq_prog (setup_group (\<lambda>ps. pst_fs ps = None) (get_ranks ''fs'' True gen) create (\<lambda>g ps. ps\<lparr>pst_fs := Some g\<rparr>)) (\<lambda>_.
      seq_prog (setup_ep_group env a gen) (\<lambda>_.
      seq_prog (call_prog (\<lambda>c. case new_group [0..<dit_size a] (Some (env_backend env)) c of (g, c1) \<Rightarrow> (Inr g, c1))) (\<lambda>g.
        store_prog (\<lambda>ps. ps\<lparr>pst_dit := Some g\<rparr>)))))))))))))))"

text \<open>What a worker passes on from its configuration.\<close>

definition worker_args :: "parallel_config \<Rightarrow> parallel_args" where
  "worker_args c =
     \<lparr>pa_dp = nat (pl_dp c), pa_cfg = nat (pl_cfg c), pa_sp = map_option nat (pl_sp c), pa_ulysses = nat (pl_ulysses c),
      pa_ring = nat (pl_ring c), pa_tp = nat (pl_tp c), pa_pp = nat (pl_pp c),
      pa_fs = (if pl_hsdp c then nat (pl_shard c) else 1), pa_replicate = (if pl_hsdp c then nat (pl_replicate c) else 1),
      pa_ep = pl_ep c\<rparr>"

definition no_groups :: parallel_state where
  "no_groups = \<lparr>pst_world = None, pst_dp = None, pst_cfg = None, pst_pp = None, pst_sp = None, pst_tp = None, pst_fs = None,
     pst_ep = None, pst_dit = None\<rparr>"

definition start_worker :: "environment \<Rightarrow> parallel_args \<Rightarrow> unit prog" where
  "start_worker env a = seq_prog (init_distributed_environment env) (\<lambda>_. initialize_model_parallel env a)"

definition destroy_model_parallel :: "parallel_state \<Rightarrow> parallel_state" where
  "destroy_model_parallel ps =
     ps\<lparr>pst_dp := None, pst_cfg := None, pst_sp := None, pst_tp := None, pst_ep := None, pst_pp := None, pst_fs := None\<rparr>"

definition destroy_distributed_environment :: "parallel_state \<Rightarrow> parallel_state" where
  "destroy_distributed_environment ps = ps\<lparr>pst_world := None\<rparr>"

definition model_parallel_is_initialized :: "parallel_state \<Rightarrow> bool" where
  "model_parallel_is_initialized ps \<longleftrightarrow>
     pst_dp ps \<noteq> None \<and> pst_cfg ps \<noteq> None \<and> pst_sp ps \<noteq> None \<and> pst_pp ps \<noteq> None \<and> pst_tp ps \<noteq> None"

definition destroy_distributed_env :: "parallel_state \<Rightarrow> parallel_state" where
  "destroy_distributed_env ps =
     destroy_distributed_environment (if model_parallel_is_initialized ps then destroy_model_parallel ps else ps)"

section \<open>Questions\<close>

definition group_of :: "'g option \<Rightarrow> 'g res" where
  "group_of g = (case g of None \<Rightarrow> Inl AssertionError | Some x \<Rightarrow> Inr x)"

definition in_last_place :: "'a group_coordinator_scheme option \<Rightarrow> bool res" where
  "in_last_place g = bind_res (group_of g) (\<lambda>x. Inr (int (gc_rank_in_group x) = int (gc_world_size x) - 1))"

definition is_pipeline_first_stage :: "parallel_state \<Rightarrow> bool res" where
  "is_pipeline_first_stage ps = bind_res (group_of (pst_pp ps)) (\<lambda>g. Inr (gc_rank_in_group g = 0))"

definition is_pipeline_last_stage :: "parallel_state \<Rightarrow> bool res" where
  "is_pipeline_last_stage ps = in_last_place (pst_pp ps)"

definition is_dp_last_group :: "parallel_state \<Rightarrow> bool res" where
  "is_dp_last_group ps =
     bind_res (in_last_place (pst_sp ps)) (\<lambda>s. if \<not> s then Inr False else
     bind_res (in_last_place (pst_cfg ps)) (\<lambda>c. if \<not> c then Inr False else in_last_place (pst_pp ps)))"

definition get_dit_world_size :: "parallel_state \<Rightarrow> nat res" where
  "get_dit_world_size ps =
     bind_res (group_of (pst_dp ps)) (\<lambda>d. bind_res (group_of (pst_cfg ps)) (\<lambda>c. bind_res (group_of (pst_sp ps)) (\<lambda>s.
     bind_res (group_of (pst_pp ps)) (\<lambda>p. bind_res (group_of (pst_tp ps)) (\<lambda>t.
       Inr (gc_world_size d * gc_world_size c * gc_world_size s * gc_world_size p * gc_world_size t))))))"

end
