(* ===== verification/Rank_Groups_Properties.thy ===== *)
theory Rank_Groups_Properties
  imports Rank_Groups
begin

text \<open>
  The rank groups partition the ranks by their coordinates, the Ulysses and ring groups form a grid on every
  sequence-parallel group, and a checked configuration gives every worker its groups by the same collective
  calls in the same order.
\<close>

section \<open>Mixed radix numbers\<close>

fun radix_digits :: "nat list \<Rightarrow> nat \<Rightarrow> nat list" where
  "radix_digits [] n = []"
| "radix_digits (s # ss) n = (n mod s) # radix_digits ss (n div s)"

fun radix_value :: "nat list \<Rightarrow> nat list \<Rightarrow> nat" where
  "radix_value (s # ss) (x # xs) = x + s * radix_value ss xs"
| "radix_value _ _ = 0"

definition in_shape :: "nat list \<Rightarrow> nat list \<Rightarrow> bool" where
  "in_shape shape xs \<longleftrightarrow> list_all2 (\<lambda>x s. x < s) xs shape"

lemma in_shape_simps [simp]:
  "in_shape [] xs \<longleftrightarrow> xs = []" "in_shape (s # ss) (x # xs) \<longleftrightarrow> x < s \<and> in_shape ss xs" "\<not> in_shape (s # ss) []"
  by (auto simp: in_shape_def)

lemma length_radix_digits [simp]: "length (radix_digits shape n) = length shape"
  by (induction shape arbitrary: n) auto

lemma digits_in_shape: "\<forall>s \<in> set shape. 0 < s \<Longrightarrow> in_shape shape (radix_digits shape n)"
  by (induction shape arbitrary: n) auto

lemma value_digits: "n < prod_list shape \<Longrightarrow> radix_value shape (radix_digits shape n) = n"
proof (induction shape arbitrary: n)
  case (Cons s ss)
  then have "n div s < prod_list ss" by (simp add: less_mult_imp_div_less mult.commute)
  with Cons.IH show ?case by simp
qed simp

lemma digits_value: "in_shape shape xs \<Longrightarrow> radix_digits shape (radix_value shape xs) = xs"
  by (induction shape xs rule: radix_value.induct) (auto simp: in_shape_def)

lemma value_bound: "in_shape shape xs \<Longrightarrow> radix_value shape xs < prod_list shape"
proof (induction shape arbitrary: xs)
  case (Cons s ss)
  then obtain x ys where xs: "xs = x # ys" by (cases xs) auto
  with Cons have "x < s" "radix_value ss ys < prod_list ss" by auto
  then have "x + s * radix_value ss ys < s + s * radix_value ss ys" by simp
  also have "\<dots> = s * Suc (radix_value ss ys)" by simp
  also have "\<dots> \<le> s * prod_list ss" using \<open>radix_value ss ys < prod_list ss\<close> by (intro mult_le_mono) auto
  finally show ?case by (simp add: xs)
qed simp

lemma length_prefix_product [simp]: "length (prefix_product i a) = Suc (length a)"
  by (induction a arbitrary: i) auto

lemma last_prefix_product: "last (prefix_product i a) = i * prod_list a"
proof (induction a arbitrary: i)
  case (Cons v a)
  have "prefix_product (i * v) a \<noteq> []" by (metis length_prefix_product list.size(3) nat.distinct(1))
  with Cons show ?case by (simp add: mult.assoc)
qed simp

lemma idx_digits: "map2 (\<lambda>s d. (n div d) mod s) shape (prefix_product i shape) = radix_digits shape (n div i)"
  by (induction shape arbitrary: i) (auto simp: div_mult2_eq)

lemma inner_prefix: "length xs = length shape \<Longrightarrow> inner_product xs (prefix_product i shape) = i * radix_value shape xs"
proof (induction shape arbitrary: xs i)
  case (Cons s ss)
  then obtain y ys where "xs = y # ys" "length ys = length ss" by (cases xs) auto
  with Cons.IH [of ys "i * s"] show ?case by (simp add: inner_product_def distrib_left mult.commute)
qed (simp add: inner_product_def)

lemma inner_butlast: "length xs = length shape \<Longrightarrow> inner_product xs (butlast (prefix_product i shape)) = inner_product xs (prefix_product i shape)"
proof -
  assume l: "length xs = length shape"
  have "zip xs (butlast (prefix_product i shape)) = zip xs (prefix_product i shape)"
    using l by (intro nth_equalityI) (auto simp: nth_butlast)
  then show ?thesis by (simp add: inner_product_def)
qed

lemma decompose_ok: "\<forall>s \<in> set shape. 0 < s \<Longrightarrow> n < prod_list shape \<Longrightarrow> decompose n shape = Inr (radix_digits shape n)"
  by (auto simp: decompose_def Let_def idx_digits inner_butlast inner_prefix value_digits)

section \<open>Rank groups\<close>

fun interleave :: "bool list \<Rightarrow> nat list \<Rightarrow> nat list \<Rightarrow> nat list" where
  "interleave (True # m) (x # xs) ys = x # interleave m xs ys"
| "interleave (False # m) xs (y # ys) = y # interleave m xs ys"
| "interleave _ _ _ = []"

lemma picked_simps [simp]:
  "picked [] m = []" "picked xs [] = []" "picked (x # xs) (True # m) = x # picked xs m" "picked (x # xs) (False # m) = picked xs m"
  "unpicked [] m = []" "unpicked xs [] = []" "unpicked (x # xs) (True # m) = unpicked xs m" "unpicked (x # xs) (False # m) = x # unpicked xs m"
  by (simp_all add: picked_def unpicked_def)

lemma in_set_picked: "s \<in> set (picked xs m) \<Longrightarrow> s \<in> set xs" "s \<in> set (unpicked xs m) \<Longrightarrow> s \<in> set xs"
  by (auto simp: picked_def unpicked_def dest: set_zip_leftD)

lemma prod_picked: "length m = length shape \<Longrightarrow> prod_list (shape :: nat list) = prod_list (picked shape m) * prod_list (unpicked shape m)"
proof (induction m shape rule: list_induct2)
  case (Cons b m s shape)
  have e: "s * (a * c) = a * (s * c)" "s * (a * c) = s * a * c" for a c :: nat by simp_all
  show ?case by (cases b) (simp_all add: Cons e)
qed simp

lemma prod_pos: "\<forall>s \<in> set shape. 0 < s \<Longrightarrow> 0 < prod_list (shape :: nat list)"
  by (induction shape) auto

lemma rank_value:
  assumes "length m = length shape" "length xs = length (picked shape m)" "length ys = length (unpicked shape m)"
  shows "inner_product xs (picked (prefix_product i shape) m) + inner_product ys (unpicked (prefix_product i shape) m)
    = i * radix_value shape (interleave m xs ys)"
  using assms
proof (induction m shape arbitrary: xs ys i rule: list_induct2)
  case (Cons b m s shape)
  show ?case
  proof (cases b)
    case True
    with Cons.prems obtain x xs' where "xs = x # xs'" "length xs' = length (picked shape m)" by (cases xs) auto
    with Cons.IH [of xs' ys "i * s"] Cons.prems True show ?thesis
      by (simp add: inner_product_def distrib_left mult.commute)
  next
    case False
    with Cons.prems obtain y ys' where "ys = y # ys'" "length ys' = length (unpicked shape m)" by (cases ys) auto
    with Cons.IH [of xs ys' "i * s"] Cons.prems False show ?thesis
      by (simp add: inner_product_def distrib_left mult.commute)
  qed
qed (simp add: inner_product_def)

lemma interleave_in_shape:
  "length m = length shape \<Longrightarrow> in_shape (picked shape m) xs \<Longrightarrow> in_shape (unpicked shape m) ys \<Longrightarrow> in_shape shape (interleave m xs ys)"
proof (induction m shape arbitrary: xs ys rule: list_induct2)
  case (Cons b m s shape)
  then show ?case by (cases b; cases xs; cases ys) auto
qed simp

lemma interleave_picked:
  "length m = length shape \<Longrightarrow> length xs = length (picked shape m) \<Longrightarrow> length ys = length (unpicked shape m) \<Longrightarrow>
    picked (interleave m xs ys) m = xs \<and> unpicked (interleave m xs ys) m = ys"
proof (induction m shape arbitrary: xs ys rule: list_induct2)
  case (Cons b m s shape)
  then show ?case by (cases b; cases xs; cases ys) auto
qed simp

lemma interleave_self: "length zs = length m \<Longrightarrow> interleave m (picked zs m) (unpicked zs m) = zs"
proof (induction zs m rule: list_induct2)
  case (Cons z zs b m)
  then show ?case by (cases b) auto
qed simp

lemma picked_in_shape:
  "length m = length shape \<Longrightarrow> in_shape shape zs \<Longrightarrow> in_shape (picked shape m) (picked zs m) \<and> in_shape (unpicked shape m) (unpicked zs m)"
proof (induction m shape arbitrary: zs rule: list_induct2)
  case (Cons b m s shape)
  then obtain z zs' where "zs = z # zs'" by (cases zs) auto
  with Cons show ?case by (cases b) auto
qed simp

definition group_rank :: "nat list \<Rightarrow> bool list \<Rightarrow> nat \<Rightarrow> nat \<Rightarrow> nat" where
  "group_rank shape m g r = radix_value shape (interleave m (radix_digits (picked shape m) r) (radix_digits (unpicked shape m) g))"

definition group_index :: "nat list \<Rightarrow> bool list \<Rightarrow> nat \<Rightarrow> nat" where
  "group_index shape m n = radix_value (unpicked shape m) (unpicked (radix_digits shape n) m)"

definition place_index :: "nat list \<Rightarrow> bool list \<Rightarrow> nat \<Rightarrow> nat" where
  "place_index shape m n = radix_value (picked shape m) (picked (radix_digits shape n) m)"

lemma generate_groups:
  assumes m: "length m = length shape" and pos: "\<forall>s \<in> set shape. 0 < s"
  shows "generate_masked_orthogonal_rank_groups (prod_list shape) shape m =
    Inr (map (\<lambda>g. map (group_rank shape m g) [0..<prod_list (picked shape m)]) [0..<prod_list (unpicked shape m)])"
proof -
  have pp: "\<forall>s \<in> set (picked shape m). 0 < s" and pu: "\<forall>s \<in> set (unpicked shape m). 0 < s"
    using pos in_set_picked by metis+
  have n0: "prod_list (picked shape m) \<noteq> 0" using prod_pos [OF pp] by simp
  have q: "prod_list shape div prod_list (picked shape m) = prod_list (unpicked shape m)"
    using n0 by (simp add: prod_picked [OF m])
  have row: "traverse (\<lambda>r. bind_res (decompose r (picked shape m)) (\<lambda>x.
        Inr (inner_product x (picked (prefix_product 1 shape) m) + inner_product (radix_digits (unpicked shape m) g) (unpicked (prefix_product 1 shape) m))))
      [0..<prod_list (picked shape m)] = Inr (map (group_rank shape m g) [0..<prod_list (picked shape m)])" for g
    by (rule traverse_map) (simp add: decompose_ok pp rank_value m group_rank_def)
  have all: "traverse (\<lambda>g. bind_res (decompose g (unpicked shape m)) (\<lambda>gi. traverse (\<lambda>r. bind_res (decompose r (picked shape m)) (\<lambda>x.
        Inr (inner_product x (picked (prefix_product 1 shape) m) + inner_product gi (unpicked (prefix_product 1 shape) m))))
      [0..<prod_list (picked shape m)])) [0..<prod_list (unpicked shape m)]
    = Inr (map (\<lambda>g. map (group_rank shape m g) [0..<prod_list (picked shape m)]) [0..<prod_list (unpicked shape m)])"
    by (rule traverse_map) (use decompose_ok [OF pu] row in auto)
  show ?thesis
    unfolding generate_masked_orthogonal_rank_groups_def Let_def
    by (simp add: last_prefix_product n0 q all [unfolded One_nat_def] del: upt.simps)
qed

lemma group_rank_indices:
  assumes m: "length m = length shape" and pos: "\<forall>s \<in> set shape. 0 < s"
    and g: "g < prod_list (unpicked shape m)" and r: "r < prod_list (picked shape m)"
  shows "group_rank shape m g r < prod_list shape \<and> group_index shape m (group_rank shape m g r) = g
    \<and> place_index shape m (group_rank shape m g r) = r"
proof -
  let ?z = "interleave m (radix_digits (picked shape m) r) (radix_digits (unpicked shape m) g)"
  have pp: "\<forall>s \<in> set (picked shape m). 0 < s" and pu: "\<forall>s \<in> set (unpicked shape m). 0 < s"
    using pos in_set_picked by metis+
  have z: "in_shape shape ?z" by (intro interleave_in_shape m digits_in_shape pp pu)
  have p: "picked ?z m = radix_digits (picked shape m) r" "unpicked ?z m = radix_digits (unpicked shape m) g"
    using interleave_picked [OF m, of "radix_digits (picked shape m) r" "radix_digits (unpicked shape m) g"] by simp_all
  show ?thesis
    using value_bound [OF z] by (simp add: group_rank_def group_index_def place_index_def digits_value [OF z] p value_digits g r)
qed

lemma group_rank_of_indices:
  assumes m: "length m = length shape" and pos: "\<forall>s \<in> set shape. 0 < s" and n: "n < prod_list shape"
  shows "group_index shape m n < prod_list (unpicked shape m) \<and> place_index shape m n < prod_list (picked shape m)
    \<and> group_rank shape m (group_index shape m n) (place_index shape m n) = n"
proof -
  have i: "in_shape (picked shape m) (picked (radix_digits shape n) m)" "in_shape (unpicked shape m) (unpicked (radix_digits shape n) m)"
    using picked_in_shape [OF m digits_in_shape [OF pos, of n]] by auto
  show ?thesis
    using value_bound [OF i(1)] value_bound [OF i(2)]
    by (simp add: group_index_def place_index_def group_rank_def digits_value [OF i(1)] digits_value [OF i(2)]
        interleave_self m value_digits n)
qed


lemma group_rank_less:
  assumes "length m = length shape" "\<forall>s \<in> set shape. 0 < s" "length ys = length (unpicked shape m)" "r < r'" "r' < prod_list (picked shape m)"
  shows "radix_value shape (interleave m (radix_digits (picked shape m) r) ys)
    < radix_value shape (interleave m (radix_digits (picked shape m) r') ys)"
  using assms
proof (induction m shape arbitrary: ys r r' rule: list_induct2)
  case (Cons b m s shape)
  show ?case
  proof (cases b)
    case True
    let ?v = "\<lambda>q. radix_value shape (interleave m (radix_digits (picked shape m) q) ys)"
    have s: "0 < s" using Cons.prems True by (cases s) auto
    show ?thesis
    proof (cases "r div s = r' div s")
      case eq: True
      then have "r mod s < r' mod s"
        using Cons.prems(3) by (metis add_less_cancel_left mult_div_mod_eq)
      with eq True show ?thesis by simp
    next
      case False
      then have "r div s < r' div s" using Cons.prems(3) by (meson div_le_mono le_neq_implies_less less_imp_le)
      moreover have "r' div s < prod_list (picked shape m)"
        using Cons.prems(4) True by (simp add: less_mult_imp_div_less mult.commute)
      ultimately have "Suc (?v (r div s)) \<le> ?v (r' div s)"
        using Cons.IH [of ys "r div s" "r' div s"] Cons.prems(1,2) True by simp
      then have "s * Suc (?v (r div s)) \<le> s * ?v (r' div s)" by (rule mult_le_mono2)
      with mod_less_divisor [OF s, of r] True show ?thesis by simp
    qed
  next
    case False
    with Cons.prems obtain y ys' where y: "ys = y # ys'" "length ys' = length (unpicked shape m)" by (cases ys) auto
    with Cons.IH [of ys' r r'] Cons.prems False show ?thesis by simp
  qed
qed simp

definition coordinate :: "nat list \<Rightarrow> nat \<Rightarrow> nat \<Rightarrow> nat" where
  "coordinate shape n i = (n div prod_list (take i shape)) mod (shape ! i)"

lemma digits_nth: "i < length shape \<Longrightarrow> radix_digits shape n ! i = coordinate shape n i"
proof (induction shape arbitrary: n i)
  case (Cons s ss)
  then show ?case by (cases i) (auto simp: coordinate_def div_mult2_eq)
qed simp

lemma unpicked_eq_iff:
  "length m = length xs \<Longrightarrow> length ys = length xs \<Longrightarrow> unpicked xs m = unpicked ys m \<longleftrightarrow> (\<forall>i < length xs. \<not> m ! i \<longrightarrow> xs ! i = ys ! i)"
proof (induction m xs arbitrary: ys rule: list_induct2)
  case (Cons b m x xs)
  then obtain y ys' where "ys = y # ys'" "length ys' = length xs" by (cases ys) auto
  with Cons.IH [of ys'] show ?case by (cases b) (auto simp: nth_Cons split: nat.splits)
qed simp

lemma group_index_eq_iff:
  assumes m: "length m = length shape" and pos: "\<forall>s \<in> set shape. 0 < s"
  shows "group_index shape m a = group_index shape m b
    \<longleftrightarrow> (\<forall>i < length shape. \<not> m ! i \<longrightarrow> coordinate shape a i = coordinate shape b i)"
proof -
  have i: "in_shape (unpicked shape m) (unpicked (radix_digits shape n) m)" for n
    using picked_in_shape [OF m digits_in_shape [OF pos]] by blast
  have "group_index shape m a = group_index shape m b \<longleftrightarrow> unpicked (radix_digits shape a) m = unpicked (radix_digits shape b) m"
    unfolding group_index_def using digits_value [OF i] by metis
  with unpicked_eq_iff [of m "radix_digits shape a" "radix_digits shape b"] m show ?thesis by (simp add: digits_nth)
qed

definition rank_rows :: "nat list \<Rightarrow> bool list \<Rightarrow> nat list list" where
  "rank_rows shape m = map (\<lambda>g. map (group_rank shape m g) [0..<prod_list (picked shape m)]) [0..<prod_list (unpicked shape m)]"

lemma rank_rows:
  assumes m: "length m = length shape" and pos: "\<forall>s \<in> set shape. 0 < s"
  shows "generate_masked_orthogonal_rank_groups (prod_list shape) shape m = Inr (rank_rows shape m)"
    and "length (rank_rows shape m) = prod_list (unpicked shape m)"
    and "row \<in> set (rank_rows shape m) \<Longrightarrow> length row = prod_list (picked shape m) \<and> sorted_wrt (<) row"
    and "mset (concat (rank_rows shape m)) = mset [0..<prod_list shape]"
    and "row \<in> set (rank_rows shape m) \<Longrightarrow> a \<in> set row \<Longrightarrow> b < prod_list shape \<Longrightarrow>
      b \<in> set row \<longleftrightarrow> group_index shape m a = group_index shape m b"
proof -
  let ?G = "prod_list (unpicked shape m)" and ?R = "prod_list (picked shape m)"
  let ?row = "\<lambda>g. map (group_rank shape m g) [0..<?R]"
  have up: "\<forall>s \<in> set (unpicked shape m). 0 < s" using pos in_set_picked by metis
  note ix = group_rank_indices [OF m pos] and xi = group_rank_of_indices [OF m pos]
  show "generate_masked_orthogonal_rank_groups (prod_list shape) shape m = Inr (rank_rows shape m)"
    by (simp add: generate_groups [OF m pos] rank_rows_def)
  show "length (rank_rows shape m) = ?G" by (simp add: rank_rows_def)
  have less: "group_rank shape m g r < group_rank shape m g r'" if "r < r'" "r' < ?R" for g r r'
    unfolding group_rank_def by (rule group_rank_less [OF m pos _ that]) simp
  have srt: "sorted_wrt (<) (?row g)" for g by (simp add: sorted_wrt_map sorted_wrt_upt less sorted_wrt_iff_nth_less)
  show "row \<in> set (rank_rows shape m) \<Longrightarrow> length row = ?R \<and> sorted_wrt (<) row"
    using srt by (auto simp: rank_rows_def)
  have mem: "b \<in> set (?row g) \<longleftrightarrow> b < prod_list shape \<and> group_index shape m b = g" if "g < ?G" for b g
  proof
    assume "b \<in> set (?row g)"
    then obtain r where "r < ?R" "b = group_rank shape m g r" by auto
    with ix [OF that] show "b < prod_list shape \<and> group_index shape m b = g" by simp
  next
    assume b: "b < prod_list shape \<and> group_index shape m b = g"
    with xi [of b] have "place_index shape m b < ?R" "b = group_rank shape m g (place_index shape m b)" by auto
    then show "b \<in> set (?row g)" by (metis atLeastLessThan_iff image_eqI list.set_map set_upt zero_le)
  qed
  have "distinct (concat (rank_rows shape m))"
  proof (rule distinct_concat)
    have "inj_on ?row {0..<?G}"
    proof (rule inj_onI)
      fix g h assume g: "g \<in> {0..<?G}" and h: "h \<in> {0..<?G}" and e: "?row g = ?row h"
      have "\<forall>s \<in> set (picked shape m). 0 < s" using pos in_set_picked by metis
      then have "0 < ?R" by (rule prod_pos)
      then have "group_rank shape m g 0 \<in> set (?row g)" by auto
      with e have "group_rank shape m g 0 \<in> set (?row h)" by simp
      with mem [of h] h ix [of g 0] g \<open>0 < ?R\<close> show "g = h" by auto
    qed
    then show "distinct (rank_rows shape m)" by (simp add: rank_rows_def distinct_map)
    show "distinct ys" if "ys \<in> set (rank_rows shape m)" for ys
      using that srt strict_sorted_iff by (auto simp: rank_rows_def)
    show "set ys \<inter> set zs = {}" if ys: "ys \<in> set (rank_rows shape m)" and zs: "zs \<in> set (rank_rows shape m)" and "ys \<noteq> zs" for ys zs
    proof -
      obtain g h where g: "g < ?G" "ys = ?row g" and h: "h < ?G" "zs = ?row h" using ys zs by (auto simp: rank_rows_def)
      have "g = h" if "x \<in> set ys" "x \<in> set zs" for x
        using mem [OF g(1), of x] mem [OF h(1), of x] that unfolding g(2) h(2) by simp
      moreover have "g \<noteq> h" using \<open>ys \<noteq> zs\<close> g(2) h(2) by blast
      ultimately show ?thesis by (meson disjoint_iff)
    qed
  qed
  moreover have "set (concat (rank_rows shape m)) = {0..<prod_list shape}"
  proof -
    have "set (concat (rank_rows shape m)) = (\<Union>g<?G. set (?row g))" by (auto simp: rank_rows_def)
    also have "\<dots> = (\<Union>g<?G. {b. b < prod_list shape \<and> group_index shape m b = g})"
      by (intro SUP_cong refl set_eqI) (simp only: mem lessThan_iff mem_Collect_eq)
    also have "\<dots> = {0..<prod_list shape}" using xi by auto
    finally show ?thesis .
  qed
  ultimately show "mset (concat (rank_rows shape m)) = mset [0..<prod_list shape]"
    by (subst set_eq_iff_mset_eq_distinct [symmetric]) simp_all
  show "b \<in> set row \<longleftrightarrow> group_index shape m a = group_index shape m b"
    if r: "row \<in> set (rank_rows shape m)" and a: "a \<in> set row" and b: "b < prod_list shape"
  proof -
    obtain g where g: "g < ?G" "row = ?row g" using r by (auto simp: rank_rows_def)
    with mem [OF g(1)] a b show ?thesis by auto
  qed
qed


section \<open>The groups of the default order\<close>

definition dims :: "string list" where "dims = [''tp'', ''sp'', ''pp'', ''cfg'', ''dp'']"

lemma split_default: "split_hyphen ''tp-sp-pp-cfg-dp'' = dims"
  by code_simp

lemma default_generator:
  "make_rank_generator tp sp pp cfg dp fs ''tp-sp-pp-cfg-dp'' off =
    Inr \<lparr>rg_pp = pp, rg_fs = fs, rg_offset = off, rg_world = tp * sp * pp * cfg * dp, rg_ep = tp * sp * cfg * dp,
      rg_order = ''tp-sp-pp-cfg-dp'', rg_ordered_size = [tp, sp, pp, cfg, dp]\<rparr>"
proof -
  have l: "map py_lower ''tp-sp-pp-cfg-dp'' = ''tp-sp-pp-cfg-dp''" by code_simp
  have s: "sublist ''tp'' ''tp-sp-pp-cfg-dp''" "sublist ''sp'' ''tp-sp-pp-cfg-dp''" "sublist ''pp'' ''tp-sp-pp-cfg-dp''"
    "sublist ''cfg'' ''tp-sp-pp-cfg-dp''" "sublist ''dp'' ''tp-sp-pp-cfg-dp''" by code_simp+
  have c: "complete_order [(''tp'', tp), (''sp'', sp), (''pp'', pp), (''cfg'', cfg), (''dp'', dp), (''fs'', fs)] ''tp-sp-pp-cfg-dp''
      = Inr ''tp-sp-pp-cfg-dp''"
    by (simp only: complete_order.simps s if_True simp_thms)
  have t: "traverse (\<lambda>token. case map_of [(''tp'', tp), (''sp'', sp), (''pp'', pp), (''cfg'', cfg), (''dp'', dp), (''fs'', fs)] token of
      None \<Rightarrow> Inl KeyError | Some n \<Rightarrow> Inr n) dims = Inr [tp, sp, pp, cfg, dp]"
    by (simp add: dims_def)
  show ?thesis unfolding make_rank_generator_def Let_def l c bind_res_simps split_default t by (rule refl)
qed

lemma default_mask:
  "j < 5 \<Longrightarrow> get_mask ''tp-sp-pp-cfg-dp'' (dims ! j) = Inr (map (\<lambda>i. i = j) [0..<5])"
proof -
  assume "j < 5"
  then consider "j = 0" | "j = 1" | "j = 2" | "j = 3" | "j = 4" by linarith
  then show ?thesis
  proof cases
    case 1 then show ?thesis by (simp only:) code_simp
  next
    case 2 then show ?thesis by (simp only:) code_simp
  next
    case 3 then show ?thesis by (simp only:) code_simp
  next
    case 4 then show ?thesis by (simp only:) code_simp
  next
    case 5 then show ?thesis by (simp only:) code_simp
  qed
qed

lemma dims_not_ep: "j < 5 \<Longrightarrow> dims ! j \<noteq> ''ep''"
  by (auto simp: dims_def less_Suc_eq numeral_eq_Suc)

lemma picked_single: "j < length xs \<Longrightarrow> picked xs (map (\<lambda>i. i = j) [0..<length xs]) = [xs ! j]"
proof (induction xs arbitrary: j rule: rev_induct)
  case (snoc x xs)
  have z: "length a = length b \<Longrightarrow> picked (a @ [y]) (b @ [t]) = picked a b @ (if t then [y] else [])" for a :: "'a list" and b y t
    by (simp add: picked_def)
  show ?case
  proof (cases "j = length xs")
    case True
    have "picked xs (map (\<lambda>i. i = length xs) [0..<length xs]) = []"
      by (auto simp: picked_def filter_empty_conv in_set_zip)
    with True show ?thesis by (simp add: z)
  next
    case False
    with snoc show ?thesis by (simp add: z nth_append)
  qed
qed simp

text \<open>The ranks of one kind of parallelism, for the sizes of the generator.\<close>

definition kind_groups :: "nat list \<Rightarrow> nat \<Rightarrow> nat list list" where
  "kind_groups sizes j = rank_rows sizes (map (\<lambda>i. i = j) [0..<length sizes])"

lemma kind_groups:
  assumes pos: "\<forall>s \<in> set sizes. 0 < s" and j: "j < length sizes"
  shows "mset (concat (kind_groups sizes j)) = mset [0..<prod_list sizes]"
    and "g \<in> set (kind_groups sizes j) \<Longrightarrow> length g = sizes ! j \<and> sorted_wrt (<) g"
    and "g \<in> set (kind_groups sizes j) \<Longrightarrow> a \<in> set g \<Longrightarrow> b < prod_list sizes \<Longrightarrow>
      b \<in> set g \<longleftrightarrow> (\<forall>i < length sizes. i \<noteq> j \<longrightarrow> coordinate sizes a i = coordinate sizes b i)"
    and "length (kind_groups sizes j) * sizes ! j = prod_list sizes"
proof -
  let ?m = "map (\<lambda>i. i = j) [0..<length sizes]"
  have m: "length ?m = length sizes" by simp
  note rr = rank_rows [OF m pos] and ps = picked_single [OF j]
  show "mset (concat (kind_groups sizes j)) = mset [0..<prod_list sizes]" unfolding kind_groups_def by (rule rr(4))
  show "length g = sizes ! j \<and> sorted_wrt (<) g" if "g \<in> set (kind_groups sizes j)"
    using rr(3) [OF that [unfolded kind_groups_def]] ps by simp
  show "b \<in> set g \<longleftrightarrow> (\<forall>i < length sizes. i \<noteq> j \<longrightarrow> coordinate sizes a i = coordinate sizes b i)"
    if "g \<in> set (kind_groups sizes j)" "a \<in> set g" "b < prod_list sizes"
    using rr(5) [OF that [unfolded kind_groups_def]] group_index_eq_iff [OF m pos, of a b] by simp
  show "length (kind_groups sizes j) * sizes ! j = prod_list sizes"
    unfolding kind_groups_def rr(2) using prod_picked [OF m] ps by simp
qed

lemma get_ranks_default:
  assumes pos: "\<forall>s \<in> {tp, sp, pp, cfg, dp}. 0 < s" and j: "j < 5"
    and gen: "make_rank_generator tp sp pp cfg dp fs ''tp-sp-pp-cfg-dp'' off = Inr gen"
  shows "get_ranks (dims ! j) False gen = Inr (map (map (\<lambda>r. r + off)) (kind_groups [tp, sp, pp, cfg, dp] j))"
proof -
  let ?s = "[tp, sp, pp, cfg, dp]"
  have w: "tp * sp * pp * cfg * dp = prod_list ?s" by simp
  have five: "length ?s = 5" by simp
  have "generate_masked_orthogonal_rank_groups (prod_list ?s) ?s (map (\<lambda>i. i = j) [0..<5]) = Inr (kind_groups ?s j)"
    unfolding kind_groups_def five by (rule rank_rows(1)) (use pos in auto)
  then show ?thesis
    using gen unfolding default_generator get_ranks_def w by (auto simp: default_mask [OF j] dims_not_ep [OF j])
qed

text \<open>The groups of each kind of parallelism partition the ranks: every rank of the generator is in exactly one group of the kind, each group has the kind's size and lists its ranks in ascending order, and two ranks share it exactly if they agree in the coordinates of all other kinds.\<close>

lemma rank_groups_partition:
  assumes "0 < tp" "0 < sp" "0 < pp" "0 < cfg" "0 < dp" "j < 5"
    and gen: "make_rank_generator tp sp pp cfg dp fs ''tp-sp-pp-cfg-dp'' off = Inr gen"
  shows "\<exists>gs. get_ranks ([''tp'', ''sp'', ''pp'', ''cfg'', ''dp''] ! j) False gen = Inr gs
    \<and> mset (concat gs) = mset [off..<off + tp * sp * pp * cfg * dp]
    \<and> (\<forall>g \<in> set gs. length g = [tp, sp, pp, cfg, dp] ! j \<and> sorted_wrt (<) g)
    \<and> (\<forall>g \<in> set gs. \<forall>a \<in> set g. \<forall>b \<in> {off..<off + tp * sp * pp * cfg * dp}.
         b \<in> set g \<longleftrightarrow> (\<forall>i < 5. i \<noteq> j \<longrightarrow>
           coordinate [tp, sp, pp, cfg, dp] (a - off) i = coordinate [tp, sp, pp, cfg, dp] (b - off) i))"
proof -
  let ?s = "[tp, sp, pp, cfg, dp]" and ?f = "\<lambda>r. r + off"
  have pos: "\<forall>s \<in> set ?s. 0 < s" and j: "j < length ?s" using assms by auto
  have w: "tp * sp * pp * cfg * dp = prod_list ?s" by simp
  have five: "length ?s = 5" by simp
  note kg = kind_groups [OF pos j]
  have "get_ranks (dims ! j) False gen = Inr (map (map ?f) (kind_groups ?s j))"
    by (rule get_ranks_default [OF _ _ gen]) (use assms in auto)
  moreover have "mset (concat (map (map ?f) (kind_groups ?s j))) = mset [off..<off + prod_list ?s]"
  proof -
    have "mset (concat (map (map ?f) (kind_groups ?s j))) = image_mset ?f (mset (concat (kind_groups ?s j)))"
      by (simp add: map_concat [symmetric])
    also have "\<dots> = mset (map ?f [0..<prod_list ?s])" by (simp only: kg(1) mset_map)
    also have "map ?f [0..<prod_list ?s] = [off..<off + prod_list ?s]" by (simp only: map_add_upt add.commute)
    finally show ?thesis .
  qed
  moreover have "length g = ?s ! j \<and> sorted_wrt (<) g" if g: "g \<in> set (map (map ?f) (kind_groups ?s j))" for g
  proof -
    from g obtain h where h: "h \<in> set (kind_groups ?s j)" "g = map ?f h" by auto
    with kg(2) [OF h(1)] show ?thesis by (simp add: sorted_wrt_map)
  qed
  moreover have "b \<in> set g \<longleftrightarrow> (\<forall>i < 5. i \<noteq> j \<longrightarrow> coordinate ?s (a - off) i = coordinate ?s (b - off) i)"
    if g: "g \<in> set (map (map ?f) (kind_groups ?s j))" and a: "a \<in> set g" and b: "b \<in> {off..<off + prod_list ?s}" for g a b
  proof -
    from g obtain h where h: "h \<in> set (kind_groups ?s j)" "g = map ?f h" by auto
    have a': "a - off \<in> set h" using a h(2) by auto
    have b': "b - off < prod_list ?s" and bf: "b = b - off + off" using b by auto
    have "b \<in> set g \<longleftrightarrow> b - off \<in> set h"
      unfolding h(2) using bf by (metis (no_types, lifting) add_right_cancel image_iff list.set_map)
    also have "\<dots> \<longleftrightarrow> (\<forall>i < 5. i \<noteq> j \<longrightarrow> coordinate ?s (a - off) i = coordinate ?s (b - off) i)"
      by (rule kg(3) [OF h(1) a' b', unfolded five])
    finally show ?thesis .
  qed
  ultimately show ?thesis unfolding w dims_def by blast
qed

definition eight_ranks :: rank_generator where
  "eight_ranks = \<lparr>rg_pp = 2, rg_fs = 1, rg_offset = 0, rg_world = 8, rg_ep = 4, rg_order = ''tp-sp-pp-cfg-dp'', rg_ordered_size = [2, 1, 2, 1, 2]\<rparr>"

lemma rank_groups_partition_witness:
  "\<exists>gs. get_ranks ''pp'' False eight_ranks = Inr gs \<and> mset (concat gs) = mset [0..<8] \<and> (\<forall>g \<in> set gs. length g = 2)"
proof -
  have g: "make_rank_generator 2 1 2 1 2 1 ''tp-sp-pp-cfg-dp'' 0 = Inr eight_ranks" by code_simp
  show ?thesis using rank_groups_partition [of 2 1 2 1 2 2 1 0 eight_ranks, OF _ _ _ _ _ _ g] by (auto simp: numeral_eq_Suc)
qed

text \<open>The groups for experts, contiguous ranges, mix pipeline stages once there is another kind after \<open>pp\<close>.\<close>

lemma expert_groups_mix_stages:
  "get_ranks ''ep'' False \<lparr>rg_pp = 2, rg_fs = 1, rg_offset = 0, rg_world = 4, rg_ep = 2, rg_order = ''tp-sp-pp-cfg-dp'',
      rg_ordered_size = [1, 1, 2, 1, 2]\<rparr> = Inr [[0, 1], [2, 3]]
   \<and> make_rank_generator 1 1 2 1 2 1 ''tp-sp-pp-cfg-dp'' 0 = Inr \<lparr>rg_pp = 2, rg_fs = 1, rg_offset = 0, rg_world = 4, rg_ep = 2,
      rg_order = ''tp-sp-pp-cfg-dp'', rg_ordered_size = [1, 1, 2, 1, 2]\<rparr>
   \<and> coordinate [1, 1, 2, 1, 2] 0 2 \<noteq> coordinate [1, 1, 2, 1, 2] 1 2"
  by code_simp


section \<open>Creating groups\<close>

text \<open>The calls a process makes do not depend on its rank.\<close>

definition pair_calls :: "string \<Rightarrow> nat list list \<Rightarrow> calls" where
  "pair_calls b gs = concat (map (\<lambda>g. [(g, Some b), (g, Some ''gloo'')]) gs)"

definition quad_calls :: "string \<Rightarrow> nat list list \<Rightarrow> calls" where
  "quad_calls b gs = concat (map (\<lambda>g. [(g, Some b), (g, Some b), (g, Some ''gloo''), (g, Some ''gloo'')]) gs)"

definition plain_calls :: "string option \<Rightarrow> nat list list \<Rightarrow> calls" where
  "plain_calls b gs = map (\<lambda>g. (g, b)) gs"

definition joined :: "nat \<Rightarrow> nat list list \<Rightarrow> 'a group_coordinator_scheme \<Rightarrow> bool" where
  "joined rank gs g \<longleftrightarrow> gc_rank g = rank \<and> gc_ranks g \<in> set gs \<and> rank \<in> set (gc_ranks g) \<and> gc_rank_in_group g = index_of rank (gc_ranks g)"

lemma joined_mono: "joined rank gs g \<Longrightarrow> set gs \<subseteq> set hs \<Longrightarrow> joined rank hs g"
  by (auto simp: joined_def)

lemma join_groups_calls: "snd (join_groups rank b gs cur c) = c @ pair_calls b gs"
  by (induction gs arbitrary: cur c) (simp_all add: new_group_def pair_calls_def Let_def)

lemma join_groups_member:
  "(\<exists>g. cur = Some g \<and> joined rank hs g) \<or> rank \<in> set (concat gs) \<Longrightarrow> set gs \<subseteq> set hs \<Longrightarrow>
    \<exists>g. fst (join_groups rank b gs cur c) = Some g \<and> joined rank hs g"
proof (induction gs arbitrary: cur c)
  case (Cons ranks gs)
  show ?case
    unfolding join_groups.simps Let_def new_group_def prod.case
    by (rule Cons.IH) (use Cons.prems in \<open>auto simp: joined_def\<close>)
qed simp

lemma init_group_ok:
  assumes "rank \<in> set (concat gs)"
  shows "\<exists>g. init_group rank b gs c = (Inr g, c @ pair_calls b gs) \<and> joined rank gs g"
proof -
  obtain g where "fst (join_groups rank b gs None c) = Some g" "joined rank gs g"
    using join_groups_member [of None rank gs gs b c] assms by auto
  with join_groups_calls [of rank b gs None c] show ?thesis
    by (cases "join_groups rank b gs None c") (auto simp: init_group_def)
qed

lemma join_pairs_calls: "snd (join_pairs rank b gs cur c) = c @ quad_calls b gs"
  by (induction gs arbitrary: cur c) (simp_all add: new_group_def quad_calls_def Let_def)

lemma join_pairs_member:
  "(\<exists>g. cur = Some g \<and> joined rank hs (fst g)) \<or> rank \<in> set (concat gs) \<Longrightarrow> set gs \<subseteq> set hs \<Longrightarrow>
    \<exists>g. fst (join_pairs rank b gs cur c) = Some g \<and> joined rank hs (fst g)"
proof (induction gs arbitrary: cur c)
  case (Cons ranks gs)
  show ?case
    unfolding join_pairs.simps Let_def new_group_def prod.case
    by (rule Cons.IH) (use Cons.prems in \<open>auto simp: joined_def\<close>)
qed simp

lemma join_plain_calls: "snd (join_plain rank b gs cur c) = c @ plain_calls b gs"
  by (induction gs arbitrary: cur c) (simp_all add: new_group_def plain_calls_def)

lemma join_plain_keeps: "rank \<notin> set (concat gs) \<Longrightarrow> fst (join_plain rank b gs cur c) = cur"
  by (induction gs arbitrary: cur c) (simp_all add: new_group_def)

lemma join_plain_member:
  "(\<exists>g. cur = Some g \<and> snd g \<in> set hs \<and> rank \<in> set (snd g)) \<or> rank \<in> set (concat gs) \<Longrightarrow> set gs \<subseteq> set hs \<Longrightarrow>
    \<exists>g. fst (join_plain rank b gs cur c) = Some g \<and> snd g \<in> set hs \<and> rank \<in> set (snd g)"
proof (induction gs arbitrary: cur c)
  case (Cons ranks gs)
  show ?case
    unfolding join_plain.simps Let_def new_group_def prod.case
    by (rule Cons.IH) (use Cons.prems in auto)
qed simp

definition pipeline_calls :: "string \<Rightarrow> nat list list \<Rightarrow> calls" where
  "pipeline_calls b gs = (if length (hd gs) = 2 then quad_calls b gs else pair_calls b gs) @ plain_calls (Some b) gs"

lemma init_pipeline_group_ok:
  assumes rank: "rank \<in> set (concat gs)" and n: "0 < length (hd gs)"
  shows "\<exists>g. init_pipeline_group rank b gs c = (Inr g, c @ pipeline_calls b gs) \<and> joined rank gs g"
proof -
  have ne: "gs \<noteq> []" using rank by auto
  have jp: "joined rank gs (with_pairs g devs cpus skip)" if "joined rank gs g" for g devs cpus skip
    using that by (simp add: joined_def with_pairs_def)
  have skip: "\<exists>g. join_plain rank (Some b) gs None c1 = (Some g, c1 @ plain_calls (Some b) gs)" for c1
    using join_plain_member [of None gs rank gs "Some b" c1] join_plain_calls [of rank "Some b" gs None c1] rank
    by (cases "join_plain rank (Some b) gs None c1") auto
  show ?thesis
  proof (cases "length (hd gs) = 2")
    case True
    obtain g where "fst (join_pairs rank b gs None c) = Some g" "joined rank gs (fst g)"
      using join_pairs_member [of None rank gs gs b c] rank by auto
    then obtain g0 devs cpus where "join_pairs rank b gs None c = (Some (g0, devs, cpus), c @ quad_calls b gs)" "joined rank gs g0"
      using join_pairs_calls [of rank b gs None c] by (cases "join_pairs rank b gs None c"; cases g) auto
    with ne True jp skip [of "c @ quad_calls b gs"] show ?thesis
      by (auto simp: init_pipeline_group_def Let_def pipeline_calls_def)
  next
    case False
    then have big: "length (hd gs) > 2 \<or> length (hd gs) = 1" using n by linarith
    obtain g where "fst (join_groups rank b gs None c) = Some g" "joined rank gs g"
      using join_groups_member [of None rank gs gs b c] rank by auto
    then have "join_groups rank b gs None c = (Some g, c @ pair_calls b gs)"
      using join_groups_calls [of rank b gs None c] by (cases "join_groups rank b gs None c") auto
    with ne big False jp [OF \<open>joined rank gs g\<close>] skip [of "c @ pair_calls b gs"] show ?thesis
      by (auto simp: init_pipeline_group_def Let_def pipeline_calls_def)
  qed
qed

section \<open>The grid of Ulysses and ring groups\<close>

lemma length_chunk_of: "i < k \<Longrightarrow> length g = k * n \<Longrightarrow> length (chunk_of n g i) = n"
proof -
  assume i: "i < k" and g: "length g = k * n"
  then have "Suc i * n \<le> k * n" by (intro mult_le_mono1) simp
  with g show ?thesis by (simp add: chunk_of_def)
qed

lemma in_chunk_of:
  assumes "distinct g" "j < length g" "i * n \<le> length g" "0 < n"
  shows "g ! j \<in> set (chunk_of n g i) \<longleftrightarrow> j div n = i"
proof -
  have l: "length (chunk_of n g i) = min n (length g - i * n)" by (simp add: chunk_of_def)
  have c: "k < min n (length g - i * n) \<Longrightarrow> chunk_of n g i ! k = g ! (i * n + k)" for k using assms(3) by (simp add: chunk_of_def)
  have "g ! j \<in> set (chunk_of n g i) \<longleftrightarrow> (\<exists>k < min n (length g - i * n). g ! (i * n + k) = g ! j)"
    unfolding in_set_conv_nth l using c by metis
  also have "\<dots> \<longleftrightarrow> (\<exists>k < min n (length g - i * n). i * n + k = j)"
    using assms(1,2) by (intro ex_cong1 conj_cong refl) (auto simp: nth_eq_iff_index_eq)
  also have "\<dots> \<longleftrightarrow> i * n \<le> j \<and> j < i * n + n"
    using assms(2) by (auto intro: exI [of _ "j - i * n"])
  also have "\<dots> \<longleftrightarrow> j div n = i"
    using assms(4) by (metis add.commute div_nat_eqI dividend_less_times_div less_eq_div_iff_mult_less_eq mult.commute mult_Suc order_refl)
  finally show ?thesis .
qed

lemma in_strided:
  assumes "distinct g" "j < length g" "i < n"
  shows "g ! j \<in> set (strided n g i) \<longleftrightarrow> j mod n = i"
proof -
  have "g ! j \<in> set (strided n g i) \<longleftrightarrow> i \<le> j \<and> (j - i) mod n = 0"
    using assms by (auto simp: strided_def nth_eq_iff_index_eq)
  also have "\<dots> \<longleftrightarrow> j mod n = i"
    using assms(3) by (metis mod_eq_dvd_iff_nat dvd_imp_mod_0 mod_less mod_less_eq_dividend mod_eq_0_iff_dvd)
  finally show ?thesis .
qed


lemma strided_eq: "length g = k * n \<Longrightarrow> i < n \<Longrightarrow> strided n g i = map (\<lambda>t. g ! (i + t * n)) [0..<k]"
proof -
  assume g: "length g = k * n" and i: "i < n"
  have "filter (\<lambda>j. i \<le> j \<and> (j - i) mod n = 0) [0..<k * n] = map (\<lambda>t. i + t * n) [0..<k]"
  proof (rule sorted_distinct_set_unique)
    show "sorted (map (\<lambda>t. i + t * n) [0..<k])" by (auto simp: sorted_iff_nth_mono)
    show "distinct (map (\<lambda>t. i + t * n) [0..<k])" using i by (auto simp: distinct_map inj_on_def)
    show "set (filter (\<lambda>j. i \<le> j \<and> (j - i) mod n = 0) [0..<k * n]) = set (map (\<lambda>t. i + t * n) [0..<k])"
    proof (intro equalityI subsetI)
      fix j assume "j \<in> set (filter (\<lambda>j. i \<le> j \<and> (j - i) mod n = 0) [0..<k * n])"
      then have j: "i \<le> j" "j < k * n" "(j - i) mod n = 0" by auto
      have e: "j = i + ((j - i) div n) * n" using j(1,3) by (metis add_diff_inverse_nat div_mult_mod_eq add_0_right not_less)
      have "(j - i) div n < k" using j(2) i by (metis less_mult_imp_div_less less_imp_diff_less)
      with e show "j \<in> set (map (\<lambda>t. i + t * n) [0..<k])" by auto
    next
      fix j assume "j \<in> set (map (\<lambda>t. i + t * n) [0..<k])"
      then obtain t where t: "t < k" "j = i + t * n" by auto
      then have "Suc t * n \<le> k * n" by (intro mult_le_mono1) simp
      with t i show "j \<in> set (filter (\<lambda>j. i \<le> j \<and> (j - i) mod n = 0) [0..<k * n])" by simp
    qed
  qed (simp_all add: sorted_wrt_filter)
  then show ?thesis by (simp add: strided_def g comp_def)
qed

lemma stepped_eq: "i < n \<Longrightarrow> 0 < k \<Longrightarrow> stepped (i + off) (k * n + off) n = map (\<lambda>t. i + off + t * n) [0..<k]"
proof -
  assume i: "i < n" and k: "0 < k"
  then have "i \<le> k * n" by (metis less_imp_le_nat le_trans mult_le_mono1 nat_mult_1 Suc_leI One_nat_def)
  then have "k * n + off - (i + off) + n - 1 = k * n + (n - 1 - i)" using i by simp
  moreover have "(k * n + (n - 1 - i)) div n = k" using i by (simp only: div_mult_self3) simp
  ultimately have "(k * n + off - (i + off) + n - 1) div n = k" by simp
  then show ?thesis by (simp only: stepped_def)
qed

text \<open>Without explicit groups the same are taken on contiguous ranks.\<close>

lemma auto_is_explicit:
  assumes "0 < ud" "0 < rd"
  shows "split_explicit ud rd rank low (map (\<lambda>dp. [dp * (rd * ud)..<dp * (rd * ud) + rd * ud]) dps) cur c
    = (case split_auto ud rd rank low dps cur c of (cur1, c1) \<Rightarrow> (Inr cur1, c1))"
proof (induction dps arbitrary: cur c)
  case (Cons dp dps)
  let ?off = "dp * (rd * ud)" let ?g = "[?off..<?off + rd * ud]"
  have chunk: "map (chunk_of n ?g) [0..<k] = map (\<lambda>i. [i * n + ?off..<(i + 1) * n + ?off]) [0..<k]" if "k * n = rd * ud" for n k
  proof (rule map_cong [OF refl])
    fix i assume "i \<in> set [0..<k]"
    then have "Suc i * n \<le> k * n" by (intro mult_le_mono1) simp
    with that show "chunk_of n ?g i = [i * n + ?off..<(i + 1) * n + ?off]"
      by (simp add: chunk_of_def drop_upt take_upt ac_simps)
  qed
  have stride: "map (strided n ?g) [0..<n] = map (\<lambda>i. stepped (i + ?off) (rd * ud + ?off) n) [0..<n]"
    if kn: "k * n = rd * ud" "0 < k" for n k
  proof (rule map_cong [OF refl])
    fix i assume "i \<in> set [0..<n]"
    then have i: "i < n" by simp
    have l: "length ?g = k * n" using kn(1) by simp
    have lt: "i + t * n < rd * ud" if "t < k" for t
    proof -
      from that have "Suc t * n \<le> k * n" by (intro mult_le_mono1) simp
      with i kn(1) show ?thesis by simp
    qed
    have "strided n ?g i = map (\<lambda>t. ?g ! (i + t * n)) [0..<k]" by (rule strided_eq [OF l i])
    also have "\<dots> = map (\<lambda>t. i + ?off + t * n) [0..<k]"
      using lt by (intro map_cong refl) (simp add: ac_simps)
    also have "\<dots> = stepped (i + ?off) (rd * ud + ?off) n"
      using stepped_eq [OF i kn(2), of ?off] by (simp only: kn(1))
    finally show "strided n ?g i = stepped (i + ?off) (rd * ud + ?off) n" .
  qed
  have len: "(length ?g \<noteq> rd * ud) = False" by simp
  have comm: "ud * rd = rd * ud" by simp
  have pieces: "map (chunk_of ud ?g) [0..<rd] = map (\<lambda>i. [i * ud + ?off..<(i + 1) * ud + ?off]) [0..<rd]"
    "map (chunk_of rd ?g) [0..<ud] = map (\<lambda>i. [i * rd + ?off..<(i + 1) * rd + ?off]) [0..<ud]"
    "map (strided rd ?g) [0..<rd] = map (\<lambda>i. stepped (i + ?off) (rd * ud + ?off) rd) [0..<rd]"
    "map (strided ud ?g) [0..<ud] = map (\<lambda>i. stepped (i + ?off) (rd * ud + ?off) ud) [0..<ud]"
    by (rule chunk [OF refl], rule chunk [OF comm], rule stride [OF comm assms(1)], rule stride [OF refl assms(2)])
  show ?case
  proof (cases low)
    case True
    then have lw: "low = True" by simp
    show ?thesis
      unfolding lw list.map split_explicit.simps split_auto.simps Let_def len if_True if_False pieces
      by (auto simp only: Cons.IH [unfolded lw] prod.case split: prod.split)
  next
    case False
    then have lw: "low = False" by simp
    show ?thesis
      unfolding lw list.map split_explicit.simps split_auto.simps Let_def len if_True if_False pieces
      by (auto simp only: Cons.IH [unfolded lw] prod.case split: prod.split)
  qed
qed simp


definition ulysses_of :: "nat \<Rightarrow> nat \<Rightarrow> bool \<Rightarrow> nat list \<Rightarrow> nat list list" where
  "ulysses_of ud rd low g = map (if low then chunk_of ud g else strided rd g) [0..<rd]"

definition ring_of :: "nat \<Rightarrow> nat \<Rightarrow> bool \<Rightarrow> nat list \<Rightarrow> nat list list" where
  "ring_of ud rd low g = map (if low then strided ud g else chunk_of rd g) [0..<ud]"

definition sp_calls :: "nat \<Rightarrow> nat \<Rightarrow> bool \<Rightarrow> nat list list \<Rightarrow> calls" where
  "sp_calls ud rd low gs = concat (map (\<lambda>g. if low then plain_calls None (ulysses_of ud rd low g) @ plain_calls None (ring_of ud rd low g)
      else plain_calls None (ring_of ud rd low g) @ plain_calls None (ulysses_of ud rd low g)) gs)"

lemma split_sp_group_calls:
  "snd (split_sp_group rank low us rs cur c) =
    c @ (if low then plain_calls None us @ plain_calls None rs else plain_calls None rs @ plain_calls None us)"
  unfolding split_sp_group_def
  by (cases cur) (auto simp: Let_def split_beta join_plain_calls)

lemma split_sp_group_fst:
  "\<exists>c1 c2. fst (split_sp_group rank low us rs cur c) = (fst (join_plain rank None us (fst cur) c1), fst (join_plain rank None rs (snd cur) c2))"
  unfolding split_sp_group_def by (cases cur) (auto simp: Let_def split_beta)

lemma set_strided_subset: "set (strided n g i) \<subseteq> set g"
  by (auto simp: strided_def)

lemma set_chunk_subset: "set (chunk_of n g i) \<subseteq> set g"
  unfolding chunk_of_def by (meson set_drop_subset set_take_subset subset_trans)

lemma pieces_cover:
  assumes "distinct g" "length g = k * n" "0 < n" "x \<in> set g"
  shows "\<exists>i < k. x \<in> set (chunk_of n g i)" "\<exists>i < n. x \<in> set (strided n g i)"
proof -
  obtain j where j: "j < length g" "x = g ! j" using assms(4) by (auto simp: in_set_conv_nth)
  have "j div n < k" using j(1) assms(2) by (simp add: less_mult_imp_div_less)
  moreover from this have "j div n * n \<le> length g" using assms(2) by simp
  ultimately show "\<exists>i < k. x \<in> set (chunk_of n g i)" using in_chunk_of [OF assms(1) j(1) _ assms(3)] j(2) by blast
  show "\<exists>i < n. x \<in> set (strided n g i)" using in_strided [OF assms(1) j(1)] j(2) assms(3) mod_less_divisor by blast
qed

lemma pieces_subset:
  "p \<in> set (ulysses_of ud rd low g) \<Longrightarrow> set p \<subseteq> set g" "p \<in> set (ring_of ud rd low g) \<Longrightarrow> set p \<subseteq> set g"
  unfolding ulysses_of_def ring_of_def by (auto dest!: subsetD [OF set_strided_subset] subsetD [OF set_chunk_subset] split: if_splits)

lemma pieces_contain:
  assumes "distinct g" "length g = rd * ud" "0 < ud" "0 < rd" "x \<in> set g"
  shows "x \<in> set (concat (ulysses_of ud rd low g)) \<and> x \<in> set (concat (ring_of ud rd low g))"
  using pieces_cover [OF assms(1,2,3,5)] pieces_cover [OF assms(1) _ assms(4,5), of ud] assms(2)
  by (auto simp: ulysses_of_def ring_of_def mult.commute)

lemma pieces_meet:
  assumes "distinct g" "length g = rd * ud" "0 < ud" "0 < rd" "u \<in> set (ulysses_of ud rd low g)" "r \<in> set (ring_of ud rd low g)"
    and "x \<in> set u" "x \<in> set r" "y \<in> set u" "y \<in> set r"
  shows "x = y"
proof -
  have xy: "x \<in> set g" "y \<in> set g" using pieces_subset assms(5-10) by blast+
  then obtain j k where j: "j < length g" "x = g ! j" and k: "k < length g" "y = g ! k" by (auto simp: in_set_conv_nth)
  define n where "n = (if low then ud else rd)"
  have n: "0 < n" "\<exists>l. length g = l * n" using assms(2-4) by (auto simp: n_def mult.commute)
  obtain a b where ab: "u = chunk_of n g a \<and> r = strided n g b \<or> u = strided n g b \<and> r = chunk_of n g a" "a * n \<le> length g" "b < n"
  proof (cases low)
    case True
    with assms(5,6) obtain a b where "a < rd" "u = chunk_of ud g a" "b < ud" "r = strided ud g b" by (auto simp: ulysses_of_def ring_of_def)
    with True assms(2) that [of a b] show ?thesis by (simp add: n_def)
  next
    case False
    with assms(5,6) obtain a b where "a < ud" "r = chunk_of rd g a" "b < rd" "u = strided rd g b" by (auto simp: ulysses_of_def ring_of_def)
    with False assms(2) that [of a b] show ?thesis by (simp add: n_def mult.commute)
  qed
  have "j div n = a \<and> j mod n = b \<and> k div n = a \<and> k mod n = b"
    using ab assms(7-10) in_chunk_of [OF assms(1) j(1) ab(2) n(1)] in_strided [OF assms(1) j(1) ab(3)]
      in_chunk_of [OF assms(1) k(1) ab(2) n(1)] in_strided [OF assms(1) k(1) ab(3)] j(2) k(2) by auto
  then have "j = k" by (metis div_mult_mod_eq)
  then show ?thesis using j k by simp
qed

lemma pieces_length:
  assumes "length g = rd * ud"
  shows "u \<in> set (ulysses_of ud rd low g) \<Longrightarrow> length u = ud" "r \<in> set (ring_of ud rd low g) \<Longrightarrow> length r = rd"
  using length_chunk_of [of _ rd g ud] length_chunk_of [of _ ud g rd] strided_eq [of g rd ud] strided_eq [of g ud rd] assms
  by (auto simp: ulysses_of_def ring_of_def mult.commute split: if_splits)

definition in_pieces :: "nat \<Rightarrow> nat \<Rightarrow> nat \<Rightarrow> bool \<Rightarrow> nat list \<Rightarrow> sp_groups \<Rightarrow> bool" where
  "in_pieces ud rd rank low g cur \<longleftrightarrow> rank \<in> set g \<and> (\<exists>u r. cur = (Some u, Some r) \<and> snd u \<in> set (ulysses_of ud rd low g) \<and> rank \<in> set (snd u)
     \<and> snd r \<in> set (ring_of ud rd low g) \<and> rank \<in> set (snd r))"

lemma split_sp_group_piece:
  assumes g: "distinct g" "length g = rd * ud" "0 < ud" "0 < rd"
  shows "rank \<in> set g \<Longrightarrow> in_pieces ud rd rank low g (fst (split_sp_group rank low (ulysses_of ud rd low g) (ring_of ud rd low g) cur c))"
    and "rank \<notin> set g \<Longrightarrow> fst (split_sp_group rank low (ulysses_of ud rd low g) (ring_of ud rd low g) cur c) = cur"
proof -
  let ?us = "ulysses_of ud rd low g" and ?rs = "ring_of ud rd low g"
  obtain c1 c2 where f: "fst (split_sp_group rank low ?us ?rs cur c) = (fst (join_plain rank None ?us (fst cur) c1), fst (join_plain rank None ?rs (snd cur) c2))"
    using split_sp_group_fst by blast
  show "in_pieces ud rd rank low g (fst (split_sp_group rank low ?us ?rs cur c))" if r: "rank \<in> set g"
  proof -
    from pieces_contain [OF g r, of low] have c: "rank \<in> set (concat ?us)" "rank \<in> set (concat ?rs)" by auto
    show ?thesis
      using join_plain_member [OF disjI2 [OF c(1)] subset_refl, where b = None and c = c1 and cur = "fst cur"]
        join_plain_member [OF disjI2 [OF c(2)] subset_refl, where b = None and c = c2 and cur = "snd cur"] r by (auto simp: in_pieces_def f)
  qed
  show "fst (split_sp_group rank low ?us ?rs cur c) = cur" if r: "rank \<notin> set g"
  proof -
    have "rank \<notin> set (concat ?us)" "rank \<notin> set (concat ?rs)" using r pieces_subset by fastforce+
    then show ?thesis by (simp add: f join_plain_keeps)
  qed
qed

lemma split_explicit_ok:
  assumes "\<forall>g \<in> set gs. length g = rd * ud \<and> distinct g" "0 < ud" "0 < rd"
  shows "\<exists>cur1. split_explicit ud rd rank low gs cur c = (Inr cur1, c @ sp_calls ud rd low gs)
    \<and> (rank \<notin> set (concat gs) \<and> cur1 = cur \<or> (\<exists>g \<in> set gs. in_pieces ud rd rank low g cur1))"
  using assms
proof (induction gs arbitrary: cur c)
  case (Cons g gs)
  have g: "distinct g" "length g = rd * ud" using Cons.prems by auto
  let ?s = "split_sp_group rank low (ulysses_of ud rd low g) (ring_of ud rd low g) cur c"
  have e: "split_explicit ud rd rank low (g # gs) cur c = split_explicit ud rd rank low gs (fst ?s) (snd ?s)"
    using g(2) by (simp add: ulysses_of_def ring_of_def split_beta)
  obtain cur1 where cur1: "split_explicit ud rd rank low gs (fst ?s) (snd ?s) = (Inr cur1, snd ?s @ sp_calls ud rd low gs)"
    "rank \<notin> set (concat gs) \<and> cur1 = fst ?s \<or> (\<exists>g \<in> set gs. in_pieces ud rd rank low g cur1)"
    using Cons.IH [of "fst ?s" "snd ?s"] Cons.prems by auto
  have "snd ?s @ sp_calls ud rd low gs = c @ sp_calls ud rd low (g # gs)" by (simp add: split_sp_group_calls sp_calls_def)
  moreover have "rank \<in> set g \<Longrightarrow> in_pieces ud rd rank low g (fst ?s)" "rank \<notin> set g \<Longrightarrow> fst ?s = cur"
    by (rule split_sp_group_piece [OF g Cons.prems(2,3)], assumption)+
  ultimately show ?case using cur1 unfolding e by auto
qed (simp add: sp_calls_def)

lemma seq_parallel_pieces:
  assumes "0 < ud" "0 < rd" "length gs * (rd * ud) = world" "\<forall>g \<in> set gs. length g = rd * ud" "distinct (concat gs)"
    and rank: "rank \<in> set (concat gs)"
  shows "\<exists>u r g. set_seq_parallel_pg ud rd rank world low (Some gs) c = (Inr (u, r), c @ sp_calls ud rd low gs)
    \<and> g \<in> set gs \<and> distinct g \<and> in_pieces ud rd rank low g (Some u, Some r)"
proof -
  have gs: "\<forall>g \<in> set gs. length g = rd * ud \<and> distinct g" using assms(4,5) by (auto simp: distinct_concat_iff)
  obtain cur1 where c1: "split_explicit ud rd rank low gs (None, None) c = (Inr cur1, c @ sp_calls ud rd low gs)"
    and "rank \<notin> set (concat gs) \<and> cur1 = (None, None) \<or> (\<exists>g \<in> set gs. in_pieces ud rd rank low g cur1)"
    using split_explicit_ok [OF gs assms(1,2)] by blast
  with rank obtain g where g: "g \<in> set gs" "in_pieces ud rd rank low g cur1" by blast
  then obtain u r where ur: "cur1 = (Some u, Some r)" by (auto simp: in_pieces_def)
  have "set_seq_parallel_pg ud rd rank world low (Some gs) c = (Inr (u, r), c @ sp_calls ud rd low gs)"
    using assms(1-3) c1 ur by (auto simp: set_seq_parallel_pg_def Let_def)
  with g ur gs show ?thesis by blast
qed

text \<open>Every sequence-parallel group becomes a grid: each of its processes is given an Ulysses group and a ring group of the requested sizes inside its group, which have no process but itself in common, whichever of the two is contiguous; and the collective calls do not depend on the process.\<close>

lemma sequence_groups_form_a_grid:
  assumes "0 < ud" "0 < rd" "length gs * (rd * ud) = world" "\<forall>g \<in> set gs. length g = rd * ud" "distinct (concat gs)"
    and rank: "rank \<in> set (concat gs)"
  shows "\<exists>u r. set_seq_parallel_pg ud rd rank world low (Some gs) c = (Inr (u, r), c @ sp_calls ud rd low gs)
    \<and> length (snd u) = ud \<and> length (snd r) = rd \<and> set (snd u) \<inter> set (snd r) = {rank}
    \<and> (\<exists>g \<in> set gs. rank \<in> set g \<and> set (snd u) \<union> set (snd r) \<subseteq> set g)"
proof -
  obtain u r g where s: "set_seq_parallel_pg ud rd rank world low (Some gs) c = (Inr (u, r), c @ sp_calls ud rd low gs)"
    and g: "g \<in> set gs" "distinct g" and p: "in_pieces ud rd rank low g (Some u, Some r)"
    using seq_parallel_pieces [OF assms] by blast
  then have ur: "rank \<in> set g" "snd u \<in> set (ulysses_of ud rd low g)" "rank \<in> set (snd u)"
    "snd r \<in> set (ring_of ud rd low g)" "rank \<in> set (snd r)" by (auto simp: in_pieces_def)
  have gl: "length g = rd * ud" using assms(4) g(1) by auto
  have m: "set (snd u) \<inter> set (snd r) = {rank}"
    using pieces_meet [OF g(2) gl assms(1,2) ur(2,4) _ _ ur(3,5)] ur(3,5) by blast
  show ?thesis
    using s m pieces_length(1) [OF gl ur(2)] pieces_length(2) [OF gl ur(4)] pieces_subset(1) [OF ur(2)] pieces_subset(2) [OF ur(4)] g(1) ur(1)
    by blast
qed

lemma sequence_groups_form_a_grid_witness:
  "\<exists>u r. fst (set_seq_parallel_pg 2 2 5 8 True (Some [[0, 1, 2, 3], [4, 5, 6, 7]]) []) = Inr (u, r) \<and> set (snd u) \<inter> set (snd r) = {5}"
proof -
  have "\<forall>g \<in> set [[0, 1, 2, 3], [4, 5, 6, 7 :: nat]]. length g = 2 * 2" "distinct (concat [[0, 1, 2, 3], [4, 5, 6, 7 :: nat]])"
    "(5 :: nat) \<in> set (concat [[0, 1, 2, 3], [4, 5, 6, 7]])" by code_simp+
  from sequence_groups_form_a_grid [OF _ _ _ this, of 8 True "[]"] show ?thesis by (auto simp: numeral_eq_Suc)
qed


section \<open>Starting the workers\<close>

lemma seq_Inr: "m s = (Inr x, s1) \<Longrightarrow> seq_prog m f s = f x s1"
  by (simp add: seq_prog_def)

lemma seq_result [simp]: "seq_prog (result_prog (Inr x)) f s = f x s"
  by (simp add: seq_prog_def result_prog_def)

lemma seq_assert [simp]: "seq_prog (assert_prog True) f s = f () s"
  by (simp add: assert_prog_def)

lemma seq_read [simp]: "seq_prog (read_prog r) f s = f (r (fst s)) s"
  by (simp add: seq_prog_def read_prog_def)

lemma seq_call: "create c = (Inr g, c1) \<Longrightarrow> seq_prog (call_prog create) f (ps, c) = f g (ps, c1)"
  by (simp add: seq_prog_def call_prog_def)

lemma store_prog_eq: "store_prog f (ps, c) = (Inr (), f ps, c)"
  by (simp add: store_prog_def)

lemma setup_group_ok:
  "free ps \<Longrightarrow> pst_world ps \<noteq> None \<Longrightarrow> create gs c = (Inr g, c1) \<Longrightarrow> setup_group free (Inr gs) create store (ps, c) = (Inr (), store g ps, c1)"
  by (simp add: setup_group_def seq_call store_prog_eq)

lemma seq_setup:
  "free ps \<Longrightarrow> pst_world ps \<noteq> None \<Longrightarrow> create gs c = (Inr g, c1) \<Longrightarrow>
    seq_prog (setup_group free (Inr gs) create store) f (ps, c) = f () (store g ps, c1)"
  by (simp add: setup_group_ok seq_prog_def)

definition shape_of :: "parallel_args \<Rightarrow> nat list" where
  "shape_of a = [pa_tp a, sp_size a, pa_pp a, pa_cfg a, if standalone_hsdp a then pa_fs a * pa_replicate a else pa_dp a]"

definition shard_groups :: "parallel_args \<Rightarrow> nat list list" where
  "shard_groups a = map (\<lambda>i. [i * pa_fs a..<(i + 1) * pa_fs a]) [0..<prod_list (shape_of a) div pa_fs a]"

definition expert_groups :: "parallel_args \<Rightarrow> nat list list" where
  "expert_groups a = (let n = prod_list [pa_tp a, sp_size a, pa_cfg a, shape_of a ! 4] in map (\<lambda>i. [i * n..<i * n + n]) [0..<pa_pp a])"

text \<open>All collective calls of a worker, none of which mentions its rank.\<close>

definition worker_calls :: "string \<Rightarrow> parallel_args \<Rightarrow> calls" where
  "worker_calls b a =
     pair_calls b [[0..<dit_size a]] @ pair_calls b (kind_groups (shape_of a) 4) @ pair_calls b (kind_groups (shape_of a) 3)
     @ pipeline_calls b (kind_groups (shape_of a) 2)
     @ sp_calls (pa_ulysses a) (pa_ring a) True (kind_groups (shape_of a) 1) @ pair_calls b (kind_groups (shape_of a) 1)
     @ pair_calls b (kind_groups (shape_of a) 0) @ pair_calls b (shard_groups a)
     @ (if pa_ep a then pair_calls b (expert_groups a) else []) @ [([0..<dit_size a], Some b)]"

definition has_groups :: "nat \<Rightarrow> parallel_args \<Rightarrow> parallel_state \<Rightarrow> bool" where
  "has_groups rank a ps \<longleftrightarrow>
     (\<exists>g. pst_dp ps = Some g \<and> joined rank (kind_groups (shape_of a) 4) g) \<and> (\<exists>g. pst_cfg ps = Some g \<and> joined rank (kind_groups (shape_of a) 3) g)
     \<and> (\<exists>g. pst_pp ps = Some g \<and> joined rank (kind_groups (shape_of a) 2) g) \<and> (\<exists>g. pst_sp ps = Some g \<and> joined rank (kind_groups (shape_of a) 1) g)
     \<and> (\<exists>g. pst_tp ps = Some g \<and> joined rank (kind_groups (shape_of a) 0) g) \<and> (\<exists>g. pst_fs ps = Some g \<and> joined rank (shard_groups a) g)"

lemma in_shard_blocks: "0 < n \<Longrightarrow> n dvd w \<Longrightarrow> rank < w \<Longrightarrow> rank \<in> set (concat (map (\<lambda>i. [i * n..<(i + 1) * n]) [0..<w div n]))"
proof -
  assume n: "0 < n" and d: "n dvd w" and r: "rank < w"
  have "rank div n < w div n" using d r n by (metis dvd_mult_div_cancel less_mult_imp_div_less mult.commute)
  moreover have "rank div n * n \<le> rank" "rank < (rank div n + 1) * n" using n by (auto simp: dividend_less_div_times)
  ultimately show ?thesis by (auto intro!: bexI [of _ "rank div n"])
qed

lemma index_of_upt: "r < w \<Longrightarrow> index_of r [0..<w] = r"
proof -
  assume "r < w"
  then have "[0..<w] = [0..<r] @ r # [Suc r..<w]" by (metis upt_conv_Cons upt_add_eq_append le_add_diff_inverse less_imp_le zero_le)
  then show ?thesis by (simp add: index_of_def takeWhile_append)
qed

lemma init_sequence_group_ok:
  assumes "rank \<in> set (concat gs)"
  shows "\<exists>g. init_sequence_group rank b gs u r c = (Inr g, c @ pair_calls b gs) \<and> joined rank gs g"
  using init_group_ok [OF assms, of b c] by (auto simp: init_sequence_group_def joined_def)

lemma dit_size_prod: "dit_size a = prod_list (shape_of a)"
  by (auto simp: dit_size_def shape_of_def standalone_hsdp_def plain_dit_size_def ac_simps)

lemma experts_cover:
  assumes pos: "\<forall>s \<in> set (shape_of a). 0 < s" and r: "rank < dit_size a"
  shows "rank \<in> set (concat (expert_groups a))"
proof -
  let ?n = "prod_list [pa_tp a, sp_size a, pa_cfg a, shape_of a ! 4]"
  have w: "dit_size a = pa_pp a * ?n" by (simp add: dit_size_prod shape_of_def ac_simps)
  have n: "0 < ?n" using pos by (simp add: shape_of_def)
  have "rank div ?n < pa_pp a" using r unfolding w by (rule less_mult_imp_div_less)
  moreover have "rank div ?n * ?n \<le> rank" "rank < rank div ?n * ?n + ?n" using n dividend_less_div_times [of ?n rank] by (simp_all only: add.commute div_times_less_eq_dividend)
  ultimately show ?thesis unfolding expert_groups_def Let_def by (auto intro!: bexI [of _ "rank div ?n"])
qed

lemma start_worker_ok:
  assumes pos: "\<forall>s \<in> set (shape_of a). 0 < s" "0 < pa_fs a" "0 < pa_ulysses a" "0 < pa_ring a"
    and sp: "sp_size a = pa_ring a * pa_ulysses a" and fs: "pa_fs a dvd dit_size a" and npu: "env_npu env \<longrightarrow> pa_pp a = 1"
    and ep: "pa_ep a \<longrightarrow> env_moe env" and w: "env_world env = dit_size a" and rank: "env_rank env < dit_size a"
  shows "\<exists>ps. start_worker env a (no_groups, []) = (Inr (), ps, worker_calls (env_backend env) a) \<and> has_groups (env_rank env) a ps"
proof -
  let ?r = "env_rank env" and ?b = "env_backend env" and ?s = "shape_of a" and ?w = "dit_size a"
  have five: "length ?s = 5" by (simp add: shape_of_def)
  have all: "\<forall>s \<in> {pa_tp a, sp_size a, pa_pp a, pa_cfg a, ?s ! 4}. 0 < s" using pos(1) by (auto simp: shape_of_def)
  have sh: "?s = [pa_tp a, sp_size a, pa_pp a, pa_cfg a, ?s ! 4]" by (simp add: shape_of_def)
  have s4: "(if standalone_hsdp a then pa_fs a * pa_replicate a else pa_dp a) = ?s ! 4" by (simp add: shape_of_def)
  have rk: "?r \<in> set (concat (kind_groups ?s j))" if "j < 5" for j
  proof -
    have "set (concat (kind_groups ?s j)) = set [0..<prod_list ?s]"
      by (rule mset_eq_setD) (rule kind_groups(1) [OF pos(1)], simp add: five that)
    with rank dit_size_prod show ?thesis by simp
  qed
  define gen where "gen = \<lparr>rg_pp = pa_pp a, rg_fs = pa_fs a, rg_offset = 0, rg_world = pa_tp a * sp_size a * pa_pp a * pa_cfg a * ?s ! 4,
    rg_ep = pa_tp a * sp_size a * pa_cfg a * ?s ! 4, rg_order = ''tp-sp-pp-cfg-dp'', rg_ordered_size = [pa_tp a, sp_size a, pa_pp a, pa_cfg a, ?s ! 4]\<rparr>"
  have gen: "make_rank_generator (pa_tp a) (sp_size a) (pa_pp a) (pa_cfg a) (?s ! 4) (pa_fs a) ''tp-sp-pp-cfg-dp'' 0 = Inr gen"
    unfolding gen_def by (rule default_generator)
  have gr: "get_ranks (dims ! j) False gen = Inr (kind_groups ?s j)" if "j < 5" for j
    using get_ranks_default [OF all that gen] by (simp only: add_0_right list.map_ident list.map_id sh [symmetric] map_idI)
  have ranks: "get_ranks ''tp'' False gen = Inr (kind_groups ?s 0)" "get_ranks ''sp'' False gen = Inr (kind_groups ?s 1)"
    "get_ranks ''pp'' False gen = Inr (kind_groups ?s 2)" "get_ranks ''cfg'' False gen = Inr (kind_groups ?s 3)"
    "get_ranks ''dp'' False gen = Inr (kind_groups ?s 4)"
    using gr [of 0] gr [of 1] gr [of 2] gr [of 3] gr [of 4] by (simp_all add: dims_def)
  have rw: "rg_world gen = prod_list ?s" by (subst sh) (simp add: gen_def)
  have fsr: "get_ranks ''fs'' True gen = Inr (shard_groups a)"
    using pos(2) by (simp add: get_ranks_def rw shard_groups_def) (simp add: gen_def)
  have epr: "get_ranks ''ep'' False gen = Inr (expert_groups a)"
    by (simp add: get_ranks_def expert_groups_def Let_def gen_def mult.assoc)
  have nsp: "(sp_size a \<noteq> pa_ring a * pa_ulysses a) = False" using sp by simp
  define c0 where "c0 = pair_calls ?b [[0..<?w]]"
  have "?r \<in> set (concat [[0..<?w]])" using rank by simp
  from init_group_ok [OF this, of ?b "[]"] obtain gw where gw: "init_group ?r ?b [[0..<?w]] [] = (Inr gw, c0)" "joined ?r [[0..<?w]] gw"
    by (auto simp: c0_def)
  have gwr: "gc_rank_in_group gw = ?r" using gw(2) index_of_upt [OF rank] by (auto simp: joined_def)
  define ps0 where "ps0 = no_groups\<lparr>pst_world := Some gw\<rparr>"
  have s0: "init_distributed_environment env (no_groups, []) = (Inr (), ps0, c0)"
    using gw(1) by (simp add: init_distributed_environment_def no_groups_def seq_call store_prog_eq ps0_def w)
  define c1 where "c1 = c0 @ pair_calls ?b (kind_groups ?s 4)"
  obtain g1 where g1: "init_group ?r ?b (kind_groups ?s 4) c0 = (Inr g1, c1)" "joined ?r (kind_groups ?s 4) g1"
    using init_group_ok [OF rk, of 4 ?b c0] by (auto simp: c1_def)
  define c2 where "c2 = c1 @ pair_calls ?b (kind_groups ?s 3)"
  obtain g2 where g2: "init_group ?r ?b (kind_groups ?s 3) c1 = (Inr g2, c2)" "joined ?r (kind_groups ?s 3) g2"
    using init_group_ok [OF rk, of 3 ?b c1] by (auto simp: c2_def)
  define c3 where "c3 = c2 @ pipeline_calls ?b (kind_groups ?s 2)"
  have "kind_groups ?s 2 \<noteq> []" using rk [of 2] by auto
  then have "0 < length (hd (kind_groups ?s 2))" using kind_groups(2) [OF pos(1), of 2] pos(1) five by simp
  from init_pipeline_group_ok [OF rk this, of ?b c2] obtain g3 where
    g3: "init_pipeline_group ?r ?b (kind_groups ?s 2) c2 = (Inr g3, c3)" "joined ?r (kind_groups ?s 2) g3" by (auto simp: c3_def)
  define c4 where "c4 = c3 @ sp_calls (pa_ulysses a) (pa_ring a) True (kind_groups ?s 1)"
  have s1: "?s ! 1 = pa_ring a * pa_ulysses a" by (simp add: shape_of_def sp)
  have d: "distinct (concat (kind_groups ?s 1))"
    by (metis kind_groups(1) [OF pos(1), of 1] five distinct_upt mset_eq_imp_distinct_iff numeral_eq_one_iff one_less_numeral_iff semiring_norm(77))
  obtain u r where ur: "set_seq_parallel_pg (pa_ulysses a) (pa_ring a) ?r ?w True (Some (kind_groups ?s 1)) c3 = (Inr (u, r), c4)"
    using seq_parallel_pieces [OF pos(3,4) _ _ d rk, where world = ?w and low = True and c = c3] kind_groups(2) [OF pos(1), where j = 1]
      kind_groups(4) [OF pos(1), where j = 1] five s1 dit_size_prod
    by (auto simp: c4_def)
  define c5 where "c5 = c4 @ pair_calls ?b (kind_groups ?s 1)"
  obtain g4 where g4: "init_sequence_group ?r ?b (kind_groups ?s 1) u r c4 = (Inr g4, c5)" "joined ?r (kind_groups ?s 1) g4"
    using init_sequence_group_ok [OF rk, of 1 ?b u r c4] by (auto simp: c5_def)
  define c6 where "c6 = c5 @ pair_calls ?b (kind_groups ?s 0)"
  obtain g5 where g5: "init_group ?r ?b (kind_groups ?s 0) c5 = (Inr g5, c6)" "joined ?r (kind_groups ?s 0) g5"
    using init_group_ok [OF rk, of 0 ?b c5] by (auto simp: c6_def)
  define c7 where "c7 = c6 @ pair_calls ?b (shard_groups a)"
  have rf: "?r \<in> set (concat (shard_groups a))"
    unfolding shard_groups_def dit_size_prod [symmetric] by (rule in_shard_blocks [OF pos(2) fs rank])
  from init_group_ok [OF this, of ?b c6] obtain g6 where
    g6: "init_group ?r ?b (shard_groups a) c6 = (Inr g6, c7)" "joined ?r (shard_groups a) g6" by (auto simp: c7_def)
  define c8 where "c8 = c7 @ (if pa_ep a then pair_calls ?b (expert_groups a) else [])"
  define ps6 where "ps6 = ps0\<lparr>pst_dp := Some g1, pst_cfg := Some g2, pst_pp := Some g3, pst_sp := Some g4, pst_tp := Some g5, pst_fs := Some g6\<rparr>"
  have w6: "pst_world ps6 \<noteq> None" by (simp add: ps6_def ps0_def)
  obtain ps7 where s7: "setup_ep_group env a gen (ps6, c7) = (Inr (), ps7, c8)" and ps7: "\<exists>e. ps7 = ps6\<lparr>pst_ep := e\<rparr>"
  proof (cases "pa_ep a")
    case False
    then have "setup_ep_group env a gen (ps6, c7) = (Inr (), ps6, c8)" by (simp add: setup_ep_group_def result_prog_def c8_def)
    moreover have "ps6 = ps6\<lparr>pst_ep := pst_ep ps6\<rparr>" by simp
    ultimately show thesis using that by metis
  next
    case True
    have "?r \<in> set (concat (expert_groups a))" by (rule experts_cover [OF pos(1) rank])
    from init_group_ok [OF this, of ?b c7] obtain g7 where "init_group ?r ?b (expert_groups a) c7 = (Inr g7, c8)"
      using True by (auto simp: c8_def)
    then have "setup_ep_group env a gen (ps6, c7) = (Inr (), ps6\<lparr>pst_ep := Some g7\<rparr>, c8)"
      using True ep w6 by (simp add: setup_ep_group_def epr setup_group_ok)
    then show thesis using that by blast
  qed
  define ps where "ps = ps7\<lparr>pst_dit := Some (length c8, [0..<?w])\<rparr>"
  have seq_sp: "seq_prog (setup_sp_group env a (kind_groups ?s 1)) f (q, c3) = f () (q\<lparr>pst_sp := Some g4\<rparr>, c5)"
    if "pst_sp q = None" "pst_world q = Some gw" for q and f :: "unit \<Rightarrow> unit prog"
  proof -
    have "setup_sp_group env a (kind_groups ?s 1) (q, c3) = (Inr (), q\<lparr>pst_sp := Some g4\<rparr>, c5)"
      using that ur g4(1) by (simp add: setup_sp_group_def gwr seq_call store_prog_eq)
    then show ?thesis by (rule seq_Inr)
  qed
  have "start_worker env a (no_groups, []) = (Inr (), ps, c8 @ [([0..<?w], Some ?b)])"
  proof -
    have "start_worker env a (no_groups, []) = initialize_model_parallel env a (ps0, c0)"
      unfolding start_worker_def by (rule seq_Inr) (rule s0)
    also have "\<dots> = seq_prog (setup_ep_group env a gen) (\<lambda>_.
        seq_prog (call_prog (\<lambda>c. case new_group [0..<?w] (Some ?b) c of (g, c1) \<Rightarrow> (Inr g, c1))) (\<lambda>g.
          store_prog (\<lambda>ps. ps\<lparr>pst_dit := Some g\<rparr>))) (ps6, c7)"
      unfolding initialize_model_parallel_def Let_def s4
      using nsp npu [unfolded One_nat_def] w g1(1) g2(1) g3(1) g5(1) g6(1)
      by (simp add: gen [unfolded sp] ranks fsr seq_setup seq_sp [unfolded One_nat_def] ps0_def no_groups_def ps6_def)
    also have "\<dots> = seq_prog (call_prog (\<lambda>c. case new_group [0..<?w] (Some ?b) c of (g, c1) \<Rightarrow> (Inr g, c1))) (\<lambda>g.
          store_prog (\<lambda>ps. ps\<lparr>pst_dit := Some g\<rparr>)) (ps7, c8)"
      by (rule seq_Inr) (rule s7)
    also have "\<dots> = (Inr (), ps, c8 @ [([0..<?w], Some ?b)])"
      by (simp add: seq_prog_def call_prog_def new_group_def store_prog_def ps_def)
    finally show ?thesis .
  qed
  moreover have "c8 @ [([0..<?w], Some ?b)] = worker_calls ?b a"
    by (simp add: worker_calls_def c8_def c7_def c6_def c5_def c4_def c3_def c2_def c1_def c0_def)
  moreover have "has_groups ?r a ps"
    using ps7 g1(2) g2(2) g3(2) g4(2) g5(2) g6(2) by (auto simp: has_groups_def ps_def ps6_def)
  ultimately show ?thesis by auto
qed


definition degenerate :: "parallel_config \<Rightarrow> bool" where
  "degenerate c \<longleftrightarrow> pl_hsdp c \<and> other_world c = 1 \<and> pl_shard c = 1 \<and> 1 < pl_replicate c"

lemma checked_config:
  assumes c: "make_parallel_config c0 = Inr c"
  shows "validate_parallel c" and "\<not> pl_hsdp c \<Longrightarrow> pl_world c = other_world c"
    and "pl_hsdp c \<Longrightarrow> pl_world c = pl_replicate c * pl_shard c"
    and "other_world c \<noteq> 1 \<Longrightarrow> pl_world c = other_world c"
proof -
  from c obtain c1 where p: "post_init_parallel c0 = Inr c1" and v: "validate_parallel c1" and cc: "c = c1"
    unfolding make_parallel_config_def by (cases "post_init_parallel c0") (auto split: if_splits)
  show "validate_parallel c" using v cc by simp
  have dvd: "n mod m = 0 \<Longrightarrow> m * (n div m) = n" for m n :: int by (metis add.right_neutral mult_div_mod_eq)
  have "(\<not> pl_hsdp c \<longrightarrow> pl_world c = other_world c) \<and> (pl_hsdp c \<longrightarrow> pl_world c = pl_replicate c * pl_shard c)
      \<and> (other_world c \<noteq> 1 \<longrightarrow> pl_world c = other_world c)"
    using p unfolding post_init_parallel_def Let_def cc
    by (auto simp: other_world_def dvd split: if_splits)
  then show "\<not> pl_hsdp c \<Longrightarrow> pl_world c = other_world c" "pl_hsdp c \<Longrightarrow> pl_world c = pl_replicate c * pl_shard c"
    "other_world c \<noteq> 1 \<Longrightarrow> pl_world c = other_world c" by blast+
qed

lemma checked_args:
  assumes c: "make_parallel_config c0 = Inr c" and nd: "\<not> degenerate c"
  shows "sp_size (worker_args c) = pa_ring (worker_args c) * pa_ulysses (worker_args c)"
    and "dit_size (worker_args c) = nat (pl_world c)" and "pa_fs (worker_args c) dvd dit_size (worker_args c)"
    and "\<forall>s \<in> set (shape_of (worker_args c)). 0 < s" and "0 < pa_fs (worker_args c)" "0 < pa_ulysses (worker_args c)" "0 < pa_ring (worker_args c)"
proof -
  let ?a = "worker_args c"
  note cc = checked_config [OF c]
  from cc(1) obtain n where v: "0 < pl_pp c" "0 < pl_dp c" "0 < pl_tp c" "pl_sp c = Some n" "0 < n" "n = pl_ulysses c * pl_ring c"
    "0 < pl_ulysses c" "0 < pl_ring c" "0 < pl_cfg c" "pl_hsdp c \<Longrightarrow> 0 < pl_replicate c \<and> 0 < pl_shard c"
    unfolding validate_parallel_def by (auto split: option.splits)
  have sz: "sp_size ?a = nat (pl_ring c) * nat (pl_ulysses c)"
    using v by (simp add: sp_size_def worker_args_def nat_mult_distrib mult.commute)
  then show "sp_size ?a = pa_ring ?a * pa_ulysses ?a" by (simp add: worker_args_def)
  have ow: "plain_dit_size ?a = nat (other_world c)"
    using v unfolding plain_dit_size_def sz other_world_def by (simp add: worker_args_def nat_mult_distrib ac_simps)
  have o0: "0 < other_world c" using v by (simp add: other_world_def)
  show d: "dit_size ?a = nat (pl_world c)"
  proof (cases "other_world c = 1")
    case False
    with o0 have "plain_dit_size ?a \<noteq> 1" by (simp add: ow)
    with cc(4) False ow show ?thesis by (simp add: dit_size_def standalone_hsdp_def)
  next
    case True
    show ?thesis
    proof (cases "pl_hsdp c")
      case False
      with cc(2) True ow show ?thesis by (simp add: dit_size_def standalone_hsdp_def worker_args_def)
    next
      case h: True
      with nd True v(10) have "1 < pl_shard c \<or> pl_shard c = 1 \<and> pl_replicate c = 1" by (auto simp: degenerate_def)
      with True h cc(3) ow v(10) show ?thesis
        by (auto simp: dit_size_def standalone_hsdp_def worker_args_def nat_mult_distrib mult.commute)
    qed
  qed
  show "pa_fs ?a dvd dit_size ?a"
    unfolding d using cc(3) v(10) by (auto simp: worker_args_def nat_mult_distrib)
  show "0 < pa_fs ?a" "0 < pa_ulysses ?a" "0 < pa_ring ?a" using v by (auto simp: worker_args_def)
  show "\<forall>s \<in> set (shape_of ?a). 0 < s"
    unfolding shape_of_def sz using v by (auto simp: worker_args_def)
qed

lemma groups_initialized:
  assumes g: "has_groups rank a ps" and pos: "\<forall>s \<in> set (shape_of a). 0 < s"
  shows "model_parallel_is_initialized ps \<and> get_dit_world_size ps = Inr (dit_size a)"
proof -
  have five: "length (shape_of a) = 5" by (simp add: shape_of_def)
  have len: "gc_world_size g = shape_of a ! j" if "joined rank (kind_groups (shape_of a) j) g" "j < 5" for j and g :: "'b group_coordinator_scheme"
    using that kind_groups(2) [OF pos, where j = j] five by (simp add: joined_def gc_world_size_def)
  have prod: "shape_of a ! 4 * shape_of a ! 3 * shape_of a ! Suc 0 * shape_of a ! 2 * shape_of a ! 0 = dit_size a"
    unfolding dit_size_prod by (simp add: shape_of_def ac_simps)
  show ?thesis
    using g unfolding has_groups_def
    by (auto simp: model_parallel_is_initialized_def get_dit_world_size_def group_of_def len prod)
qed

text \<open>C39: A checked parallel configuration starts, if it asks for no pipeline on an NPU and for expert parallelism only with an MoE model: on each of its workers the initialization succeeds, gives it a group of every kind that contains it, of sizes whose product is the number of workers, and makes the same collective calls in the same order as on all others, so none waits for another in vain. One form of configuration is excepted, HSDP with a shard size of 1 and several replicas, on which all but the first worker fail.\<close>

lemma workers_get_their_groups:
  assumes c: "make_parallel_config c0 = Inr c" and nd: "\<not> degenerate c"
    and npu: "npu \<Longrightarrow> pl_pp c = 1" and ep: "pl_ep c \<Longrightarrow> moe"
  shows "\<exists>cs. \<forall>rank < nat (pl_world c). \<exists>ps.
    start_worker \<lparr>env_rank = rank, env_world = nat (pl_world c), env_backend = b, env_npu = npu, env_moe = moe\<rparr> (worker_args c) (no_groups, [])
      = (Inr (), ps, cs)
    \<and> model_parallel_is_initialized ps \<and> get_dit_world_size ps = Inr (nat (pl_world c))
    \<and> rank \<in> set (gc_ranks (the (pst_dp ps))) \<inter> set (gc_ranks (the (pst_cfg ps))) \<inter> set (gc_ranks (the (pst_pp ps)))
        \<inter> set (gc_ranks (the (pst_sp ps))) \<inter> set (gc_ranks (the (pst_tp ps))) \<inter> set (gc_ranks (the (pst_fs ps)))"
proof (intro exI [of _ "worker_calls b (worker_args c)"] allI impI)
  fix rank assume r: "rank < nat (pl_world c)"
  let ?env = "\<lparr>env_rank = rank, env_world = nat (pl_world c), env_backend = b, env_npu = npu, env_moe = moe\<rparr>"
  note ca = checked_args [OF c nd]
  obtain ps where s: "start_worker ?env (worker_args c) (no_groups, []) = (Inr (), ps, worker_calls (env_backend ?env) (worker_args c))"
    and g: "has_groups (env_rank ?env) (worker_args c) ps"
    using start_worker_ok [OF ca(4-7) ca(1,3), of ?env] npu ep r ca(2) by (auto simp: worker_args_def)
  have "model_parallel_is_initialized ps \<and> get_dit_world_size ps = Inr (nat (pl_world c))"
    using groups_initialized [OF g ca(4)] ca(2) by simp
  moreover have "rank \<in> set (gc_ranks (the (pst_dp ps))) \<inter> set (gc_ranks (the (pst_cfg ps))) \<inter> set (gc_ranks (the (pst_pp ps)))
        \<inter> set (gc_ranks (the (pst_sp ps))) \<inter> set (gc_ranks (the (pst_tp ps))) \<inter> set (gc_ranks (the (pst_fs ps)))"
    using g by (auto simp: has_groups_def joined_def)
  ultimately show "\<exists>ps. start_worker ?env (worker_args c) (no_groups, []) = (Inr (), ps, worker_calls b (worker_args c))
      \<and> model_parallel_is_initialized ps \<and> get_dit_world_size ps = Inr (nat (pl_world c))
      \<and> rank \<in> set (gc_ranks (the (pst_dp ps))) \<inter> set (gc_ranks (the (pst_cfg ps))) \<inter> set (gc_ranks (the (pst_pp ps)))
        \<inter> set (gc_ranks (the (pst_sp ps))) \<inter> set (gc_ranks (the (pst_tp ps))) \<inter> set (gc_ranks (the (pst_fs ps)))"
    using s by (intro exI [of _ ps]) simp
qed

definition four_workers :: parallel_config where
  "four_workers = \<lparr>pl_pp = 1, pl_dp = 2, pl_tp = 1, pl_ep = False, pl_sp = None, pl_ulysses = 2, pl_ring = 1, pl_mode = ''strict'', pl_cfg = 1,
     pl_vae = 1, pl_hsdp = False, pl_shard = - 1, pl_replicate = 1, pl_world = 0\<rparr>"

lemma workers_get_their_groups_witness:
  "\<exists>ps cs. start_worker \<lparr>env_rank = 3, env_world = 4, env_backend = ''nccl'', env_npu = False, env_moe = False\<rparr>
      (worker_args (four_workers\<lparr>pl_sp := Some 2, pl_world := 4\<rparr>)) (no_groups, []) = (Inr (), ps, cs) \<and> model_parallel_is_initialized ps"
proof -
  have c: "make_parallel_config four_workers = Inr (four_workers\<lparr>pl_sp := Some 2, pl_world := 4\<rparr>)" by code_simp
  have nd: "\<not> degenerate (four_workers\<lparr>pl_sp := Some 2, pl_world := 4\<rparr>)" by code_simp
  have w: "nat (pl_world (four_workers\<lparr>pl_sp := Some 2, pl_world := 4\<rparr>)) = 4" and e: "\<not> pl_ep (four_workers\<lparr>pl_sp := Some 2, pl_world := 4\<rparr>)"
    by (simp_all add: four_workers_def)
  have p: "False \<Longrightarrow> pl_pp (four_workers\<lparr>pl_sp := Some 2, pl_world := 4\<rparr>) = 1" by simp
  have three: "(3 :: nat) < 4" by simp
  from workers_get_their_groups [OF c nd p, where npu = False and moe = False and b = "''nccl''", unfolded w] e
  have "\<exists>cs. \<forall>rank < 4. \<exists>ps. start_worker \<lparr>env_rank = rank, env_world = 4, env_backend = ''nccl'', env_npu = False, env_moe = False\<rparr>
      (worker_args (four_workers\<lparr>pl_sp := Some 2, pl_world := 4\<rparr>)) (no_groups, []) = (Inr (), ps, cs) \<and> model_parallel_is_initialized ps"
    by blast
  with three show ?thesis by blast
qed

text \<open>
  The excepted form: three replicas of a single shard are accepted as three workers, but groups are made
  for the first one only.
\<close>

definition replicas :: parallel_config where
  "replicas = four_workers\<lparr>pl_dp := 1, pl_ulysses := 1, pl_hsdp := True, pl_shard := 1, pl_replicate := 3\<rparr>"

lemma replicas_do_not_start:
  "make_parallel_config replicas = Inr (replicas\<lparr>pl_sp := Some 1, pl_world := 3\<rparr>)
   \<and> fst (start_worker \<lparr>env_rank = 1, env_world = 3, env_backend = ''nccl'', env_npu = False, env_moe = False\<rparr>
       (worker_args (replicas\<lparr>pl_sp := Some 1, pl_world := 3\<rparr>)) (no_groups, [])) = Inl AssertionError"
  by code_simp

text \<open>More processes than the configuration needs pass the check of the size, but the others fail.\<close>

lemma spare_workers_fail:
  "fst (start_worker \<lparr>env_rank = 1, env_world = 2, env_backend = ''nccl'', env_npu = False, env_moe = False\<rparr>
     (worker_args (replicas\<lparr>pl_hsdp := False, pl_sp := Some 1, pl_world := 1\<rparr>)) (no_groups, [])) = Inl AssertionError"
  by code_simp

end
