(* ===== verification/Group_Messages.thy ===== *)
theory Group_Messages
  imports Rank_Groups
begin

text \<open>
  Messages inside a process group (\<open>group_coordinator.py\<close>): dictionaries of tensors, the pipeline with its
  exchange of shapes, and the sharding of a sequence over a group (\<open>sp_sharding.py\<close>). Point-to-point
  channels are queues; a receiver whose message is not there yet waits (\<open>None\<close>). The size of a pickled
  object travels with the object.
\<close>

section \<open>Dictionaries of tensors\<close>

record 'e wire_tensor =
  wt_device :: string
  wt_dtype :: string
  wt_size :: "nat list"
  wt_data :: "'e list"

definition numel :: "nat list \<Rightarrow> nat" where
  "numel sz = prod_list sz"

datatype ('e, 'v) nested =
    N_tensor "'e wire_tensor"
  | N_other 'v
  | N_dict "(string \<times> ('e, 'v) nested) list"

datatype 'v meta = Meta_tensor string string "nat list" | Meta_empty | Meta_other 'v

fun split_tensor_dict ::
  "(string \<times> ('e, 'v) nested) list \<Rightarrow> string \<Rightarrow> ((string \<times> 'v meta) list \<times> 'e wire_tensor list) res" where
  "split_tensor_dict [] pre = Inr ([], [])"
| "split_tensor_dict ((k, v) # rest) pre =
     (if CHR ''%'' \<in> set k then Inl AssertionError
      else bind_res (case v of
          N_tensor t \<Rightarrow> Inr ([(pre @ k, Meta_tensor (wt_device t) (wt_dtype t) (wt_size t))], [t])
        | N_other x \<Rightarrow> Inr ([(pre @ k, Meta_other x)], [])
        | N_dict d \<Rightarrow> bind_res (split_tensor_dict d (pre @ k @ ''%'')) (\<lambda>(m, ts).
            Inr ((if d = [] then [(pre @ k, Meta_empty)] else []) @ m, ts))) (\<lambda>(m1, t1).
        bind_res (split_tensor_dict rest pre) (\<lambda>(m2, t2). Inr (m1 @ m2, t1 @ t2))))"

fun split_percent :: "string \<Rightarrow> string list" where
  "split_percent [] = [[]]"
| "split_percent (c # cs) =
     (if c = CHR ''%'' then [] # split_percent cs
      else (case split_percent cs of [] \<Rightarrow> [[c]] | t # ts \<Rightarrow> (c # t) # ts))"

fun set_path :: "string list \<Rightarrow> ('e, 'v) nested \<Rightarrow> (string \<times> ('e, 'v) nested) list \<Rightarrow> (string \<times> ('e, 'v) nested) list res" where
  "set_path [] v d = Inr d"
| "set_path [k] v d = Inr (dict_set k v d)"
| "set_path (k # j # ks) v d =
     (case map_of d k of
        None \<Rightarrow> bind_res (set_path (j # ks) v []) (\<lambda>c. Inr (dict_set k (N_dict c) d))
      | Some (N_dict c) \<Rightarrow> bind_res (set_path (j # ks) v c) (\<lambda>c1. Inr (dict_set k (N_dict c1) d))
      | Some _ \<Rightarrow> Inl TypeError)"

definition update_nested_dict :: "(string \<times> ('e, 'v) nested) list \<Rightarrow> string \<Rightarrow> ('e, 'v) nested \<Rightarrow> (string \<times> ('e, 'v) nested) list res" where
  "update_nested_dict d key v = set_path (split_percent key) v d"

text \<open>The channels from one process to another: over the CPU group and over the device group.\<close>

datatype ('e, 'v) packet = Object "(string \<times> 'v meta) list" | Data "'e list"

record ('e, 'v) link =
  ln_cpu :: "('e, 'v) packet list"
  ln_device :: "('e, 'v) packet list"

definition send_tensor :: "('e, 'v) link \<Rightarrow> 'e wire_tensor \<Rightarrow> ('e, 'v) link" where
  "send_tensor l t =
     (if numel (wt_size t) = 0 then l
      else if wt_device t = ''cpu'' then l\<lparr>ln_cpu := ln_cpu l @ [Data (wt_data t)]\<rparr>
      else l\<lparr>ln_device := ln_device l @ [Data (wt_data t)]\<rparr>)"

definition send_tensor_dict ::
  "'a group_coordinator_scheme \<Rightarrow> nat option \<Rightarrow> (string \<times> ('e, 'v) nested) list \<Rightarrow> ('e, 'v) link \<Rightarrow> ('e, 'v) link res" where
  "send_tensor_dict g dst0 d l =
     (if gc_world_size g = 1 then Inr l
      else (let dst = (case dst0 of None \<Rightarrow> group_next_rank g | Some n \<Rightarrow> n) in
        if \<not> dst < gc_world_size g then Inl AssertionError
        else bind_res (split_tensor_dict d []) (\<lambda>(m, ts).
          if dst = gc_rank_in_group g then Inl AssertionError
          else Inr (foldl send_tensor (l\<lparr>ln_cpu := ln_cpu l @ [Object m]\<rparr>) ts))))"

text \<open>The data of a tensor, once it is there.\<close>

definition receive_tensor :: "string \<Rightarrow> string \<Rightarrow> nat list \<Rightarrow> ('e, 'v) link \<Rightarrow> ('e wire_tensor \<times> ('e, 'v) link) option" where
  "receive_tensor dev ty sz l =
     (if numel sz = 0 then Some (\<lparr>wt_device = dev, wt_dtype = ty, wt_size = sz, wt_data = []\<rparr>, l)
      else if dev = ''cpu'' then
        (case ln_cpu l of
           Data x # q \<Rightarrow> Some (\<lparr>wt_device = dev, wt_dtype = ty, wt_size = sz, wt_data = x\<rparr>, l\<lparr>ln_cpu := q\<rparr>)
         | _ \<Rightarrow> None)
      else
        (case ln_device l of
           Data x # q \<Rightarrow> Some (\<lparr>wt_device = dev, wt_dtype = ty, wt_size = sz, wt_data = x\<rparr>, l\<lparr>ln_device := q\<rparr>)
         | _ \<Rightarrow> None))"

fun receive_items ::
  "(string \<times> 'v meta) list \<Rightarrow> (string \<times> ('e, 'v) nested) list \<Rightarrow> ('e, 'v) link \<Rightarrow> ((string \<times> ('e, 'v) nested) list res \<times> ('e, 'v) link) option" where
  "receive_items [] d l = Some (Inr d, l)"
| "receive_items ((k, v) # rest) d l =
     (case (case v of
          Meta_tensor dev ty sz \<Rightarrow> map_option (\<lambda>(t, l1). (N_tensor t, l1)) (receive_tensor dev ty sz l)
        | Meta_empty \<Rightarrow> Some (N_dict [], l)
        | Meta_other x \<Rightarrow> Some (N_other x, l)) of
        None \<Rightarrow> None
      | Some (x, l1) \<Rightarrow> (case update_nested_dict d k x of Inl e \<Rightarrow> Some (Inl e, l1) | Inr d1 \<Rightarrow> receive_items rest d1 l1))"

definition recv_tensor_dict ::
  "'a group_coordinator_scheme \<Rightarrow> nat option \<Rightarrow> ('e, 'v) link \<Rightarrow> ((string \<times> ('e, 'v) nested) list option res \<times> ('e, 'v) link) option" where
  "recv_tensor_dict g src0 l =
     (if gc_world_size g = 1 then Some (Inr None, l)
      else (let src = (case src0 of None \<Rightarrow> group_prev_rank g | Some n \<Rightarrow> n) in
        if \<not> src < gc_world_size g \<or> src = gc_rank_in_group g then Some (Inl AssertionError, l)
        else (case ln_cpu l of
            Object m # q \<Rightarrow> map_option (\<lambda>(r, l1). (bind_res r (\<lambda>d. Inr (Some d)), l1)) (receive_items m [] (l\<lparr>ln_cpu := q\<rparr>))
          | _ \<Rightarrow> None)))"

section \<open>Broadcasts\<close>

text \<open>What a process does in a broadcast; the ranks are global.\<close>

datatype broadcast_role = Alone | Sends_as nat | Receives_from nat

definition broadcast_object :: "'a group_coordinator_scheme \<Rightarrow> nat \<Rightarrow> broadcast_role res" where
  "broadcast_object g src =
     (if \<not> src < gc_world_size g then Inl AssertionError
      else if gc_world_size g = 1 then Inr Alone
      else if gc_rank_in_group g = src then Inr (Sends_as (gc_ranks g ! src))
      else Inr (Receives_from (gc_ranks g ! src)))"

text \<open>The metadata of \<open>broadcast_tensor_dict\<close>, whose source is by then a global rank.\<close>

definition broadcast_metadata :: "'a group_coordinator_scheme \<Rightarrow> nat \<Rightarrow> broadcast_role res" where
  "broadcast_metadata g src =
     (if gc_world_size g = 1 then Inr Alone
      else if \<not> src < gc_world_size g then Inl AssertionError
      else broadcast_object g (gc_ranks g ! src))"

section \<open>The pipeline\<close>

text \<open>
  A tensor is its shape and data. \<open>recv_buffer\<close> is a dictionary, until \<open>set_recv_buffer\<close> makes a list of it.
  The dimension and the shape are one message.
\<close>

type_synonym 'e shaped = "nat list \<times> 'e list"

type_synonym segment = "string \<times> int"

datatype 'e buffers = By_segment "(segment \<times> 'e shaped) list" | In_list "'e shaped list"

record 'e pipe =
  pp_send_shape :: "(segment \<times> nat list) list"
  pp_recv_shape :: "(segment \<times> nat list) list"
  pp_buffers :: "'e buffers"

datatype 'e pipe_msg = Shape_msg "nat list" | Tensor_msg "'e list"

definition new_pipe :: "'e pipe" where
  "new_pipe = \<lparr>pp_send_shape = [], pp_recv_shape = [], pp_buffers = By_segment []\<rparr>"

definition reset_buffer :: "'e pipe \<Rightarrow> 'e pipe" where
  "reset_buffer p = new_pipe"

definition set_recv_buffer :: "'e \<Rightarrow> nat list list \<Rightarrow> nat list \<Rightarrow> 'e pipe \<Rightarrow> 'e pipe" where
  "set_recv_buffer zero patches feature p =
     p\<lparr>pp_buffers := In_list (map (\<lambda>s. (s, replicate (numel s) zero)) (patches @ [feature]))\<rparr>"

definition segment_of :: "string \<Rightarrow> int \<Rightarrow> segment" where
  "segment_of name i = (if name = [] then ''latent'' else name, i)"

definition pipeline_send :: "'e shaped \<Rightarrow> string \<Rightarrow> int \<Rightarrow> 'e pipe \<Rightarrow> 'e pipe \<times> 'e pipe_msg list" where
  "pipeline_send t name i p =
     (case t of (shape, xs) \<Rightarrow>
       (case map_of (pp_send_shape p) (segment_of name i) of
          None \<Rightarrow> (p\<lparr>pp_send_shape := dict_set (segment_of name i) shape (pp_send_shape p)\<rparr>, [Shape_msg shape, Tensor_msg xs])
        | Some _ \<Rightarrow> (p, [Tensor_msg xs])))"

text \<open>The shape of a segment is received once, and a buffer made for it.\<close>

definition check_recv :: "'e \<Rightarrow> segment \<Rightarrow> 'e pipe \<times> 'e pipe_msg list \<Rightarrow> (unit res \<times> 'e pipe \<times> 'e pipe_msg list) option" where
  "check_recv zero sg s =
     (case s of (p, w) \<Rightarrow>
       (case map_of (pp_recv_shape p) sg of
          Some _ \<Rightarrow> Some (Inr (), p, w)
        | None \<Rightarrow>
            (case w of
               Shape_msg shape # w1 \<Rightarrow>
                 (let p1 = p\<lparr>pp_recv_shape := dict_set sg shape (pp_recv_shape p)\<rparr> in
                   (case pp_buffers p of
                      In_list _ \<Rightarrow> Some (Inl AttributeError, p1, w1)
                    | By_segment b \<Rightarrow> Some (Inr (), p1\<lparr>pp_buffers := By_segment (dict_set sg (shape, replicate (numel shape) zero) b)\<rparr>, w1)))
             | _ \<Rightarrow> None)))"

text \<open>Receiving into the buffer of a segment; a tensor of another size does not fit.\<close>

definition receive_into :: "segment \<Rightarrow> 'e pipe \<times> 'e pipe_msg list \<Rightarrow> ('e shaped res \<times> 'e pipe \<times> 'e pipe_msg list) option" where
  "receive_into sg s =
     (case s of (p, w) \<Rightarrow>
       (case pp_buffers p of
          In_list _ \<Rightarrow> Some (Inl TypeError, p, w)
        | By_segment b \<Rightarrow>
            (case map_of b sg of
               None \<Rightarrow> Some (Inl KeyError, p, w)
             | Some (shape, old) \<Rightarrow>
                 (case w of
                    Tensor_msg xs # w1 \<Rightarrow>
                      if length xs = numel shape
                      then Some (Inr (shape, xs), p\<lparr>pp_buffers := By_segment (dict_set sg (shape, xs) b)\<rparr>, w1)
                      else Some (Inl RuntimeError, p, w1)
                  | _ \<Rightarrow> None))))"

definition receive_segment :: "'e \<Rightarrow> segment \<Rightarrow> 'e pipe \<times> 'e pipe_msg list \<Rightarrow> ('e shaped res \<times> 'e pipe \<times> 'e pipe_msg list) option" where
  "receive_segment zero sg s =
     (case check_recv zero sg s of
        None \<Rightarrow> None
      | Some (Inl e, s1) \<Rightarrow> Some (Inl e, s1)
      | Some (Inr _, s1) \<Rightarrow> receive_into sg s1)"

definition pipeline_recv :: "'e \<Rightarrow> int \<Rightarrow> string \<Rightarrow> 'e pipe \<times> 'e pipe_msg list \<Rightarrow> ('e shaped res \<times> 'e pipe \<times> 'e pipe_msg list) option" where
  "pipeline_recv zero i name = receive_segment zero (segment_of name i)"

section \<open>Sharding a sequence\<close>

text \<open>A tensor is the list of its slices along the sharded dimension; \<open>chunk\<close> is torch's.\<close>

definition torch_chunk :: "nat \<Rightarrow> 'a list \<Rightarrow> 'a list list" where
  "torch_chunk n xs =
     (let c = (length xs + n - 1) div n in map (\<lambda>i. take c (drop (i * c) xs)) [0..<(if c = 0 then 1 else (length xs + c - 1) div c)])"

definition sp_shard :: "nat \<Rightarrow> nat \<Rightarrow> bool \<Rightarrow> 'a list \<Rightarrow> 'a list res" where
  "sp_shard world rank check xs =
     (if world = 1 then Inr xs
      else if check \<and> length xs mod world \<noteq> 0 then Inl ValueError
      else if length xs < world then Inl ValueError
      else if rank < length (torch_chunk world xs) then Inr (torch_chunk world xs ! rank)
      else Inl IndexError)"

definition sp_shard_with_padding :: "nat \<Rightarrow> nat \<Rightarrow> 'a \<Rightarrow> 'a list \<Rightarrow> ('a list \<times> nat) res" where
  "sp_shard_with_padding world rank pad xs =
     (if world = 1 then Inr (xs, 0)
      else if length xs mod world = 0 then bind_res (sp_shard world rank False xs) (\<lambda>ys. Inr (ys, 0))
      else (let n = world - length xs mod world
            in bind_res (sp_shard world rank False (xs @ replicate n pad)) (\<lambda>ys. Inr (ys, n))))"

text \<open>Gathering joins the shards of all processes in the order of the group.\<close>

definition sp_gather :: "'a list list \<Rightarrow> 'a list" where
  "sp_gather shards = concat shards"

text \<open>The validator of intrusive implementations.\<close>

record sharding_validator =
  sv_sharded :: "string set"
  sv_gathered :: "string set"
  sv_enabled :: bool

definition begin_track :: "sharding_validator \<Rightarrow> sharding_validator" where
  "begin_track v = \<lparr>sv_sharded = {}, sv_gathered = {}, sv_enabled = True\<rparr>"

definition end_track :: "sharding_validator \<Rightarrow> sharding_validator" where
  "end_track v = v\<lparr>sv_enabled := False\<rparr>"

definition validator_shard :: "nat \<Rightarrow> nat \<Rightarrow> bool \<Rightarrow> 'a list \<Rightarrow> string \<Rightarrow> sharding_validator \<Rightarrow> 'a list res \<times> sharding_validator" where
  "validator_shard world rank check xs name v =
     (sp_shard world rank check xs, if sv_enabled v then v\<lparr>sv_sharded := insert name (sv_sharded v)\<rparr> else v)"

definition validator_gather :: "'a list list \<Rightarrow> string \<Rightarrow> sharding_validator \<Rightarrow> 'a list \<times> sharding_validator" where
  "validator_gather shards name v =
     (sp_gather shards, if sv_enabled v then v\<lparr>sv_gathered := insert name (sv_gathered v)\<rparr> else v)"

definition validate_sharding :: "sharding_validator \<Rightarrow> unit res" where
  "validate_sharding v = (if sv_sharded v - sv_gathered v = {} then Inr () else Inl ValueError)"

end
