(* ===== verification/Group_Messages_Properties.thy ===== *)
theory Group_Messages_Properties
  imports Group_Messages
begin

text \<open>
  Dictionaries of tensors, the tensors of a pipeline and the shards of a sequence arrive as they were sent.
\<close>

section \<open>Paths of a nested dictionary\<close>

type_synonym ('e, 'v) leaf = "string list \<times> ('e, 'v) nested"

fun leaves :: "(string \<times> ('e, 'v) nested) list \<Rightarrow> ('e, 'v) leaf list" where
  "leaves [] = []"
| "leaves ((k, v) # rest) =
     (case v of
        N_dict d \<Rightarrow> if d = [] then [([k], N_dict [])] else map (\<lambda>(p, x). (k # p, x)) (leaves d)
      | _ \<Rightarrow> [([k], v)]) @ leaves rest"

fun set_all :: "('e, 'v) leaf list \<Rightarrow> (string \<times> ('e, 'v) nested) list \<Rightarrow> (string \<times> ('e, 'v) nested) list res" where
  "set_all [] d = Inr d"
| "set_all ((p, x) # rest) d = bind_res (set_path p x d) (set_all rest)"

lemma set_all_append: "set_all (a @ b) d = bind_res (set_all a d) (set_all b)"
proof (induction a arbitrary: d)
  case (Cons x a)
  obtain p v where "x = (p, v)" by (cases x)
  then show ?case by (cases "set_path p v d") (simp_all add: Cons)
qed simp

lemma map_of_last: "k \<notin> fst ` set c \<Longrightarrow> map_of (c @ [(k, w)]) k = Some w"
  by (induction c) auto

text \<open>Setting paths that start with the last key.\<close>

lemma set_all_below:
  assumes "\<forall>(p, x) \<in> set l. p \<noteq> []" "k \<notin> fst ` set c"
  shows "set_all (map (\<lambda>(p, x). (k # p, x)) l) (c @ [(k, N_dict e)]) = bind_res (set_all l e) (\<lambda>e1. Inr (c @ [(k, N_dict e1)]))"
  using assms
proof (induction l arbitrary: e)
  case (Cons y l)
  obtain p x where y: "y = (p, x)" by (cases y)
  with Cons.prems obtain j js where p: "p = j # js" by (cases p) auto
  have "set_path (k # p) x (c @ [(k, N_dict e)]) = bind_res (set_path p x e) (\<lambda>e1. Inr (c @ [(k, N_dict e1)]))"
    using Cons.prems(2) by (simp add: p map_of_last dict_set_last del: map_of_append)
  with Cons.IH Cons.prems y show ?case by (cases "set_path p x e") auto
qed simp

lemma set_all_new:
  assumes "\<forall>(p, x) \<in> set l. p \<noteq> []" "k \<notin> fst ` set c" "l \<noteq> []"
  shows "set_all (map (\<lambda>(p, x). (k # p, x)) l) c = bind_res (set_all l []) (\<lambda>e1. Inr (c @ [(k, N_dict e1)]))"
proof -
  obtain y l1 where l: "l = y # l1" using assms(3) by (cases l) auto
  obtain p x where y: "y = (p, x)" by (cases y)
  with assms(1) l obtain j js where p: "p = j # js" by (cases p) auto
  have "map_of c k = None" using assms(2) by (simp add: map_of_eq_None_iff)
  then have "set_path (k # p) x c = bind_res (set_path p x []) (\<lambda>e1. Inr (c @ [(k, N_dict e1)]))"
    using assms(2) by (simp add: p dict_set_new)
  with set_all_below [of l1 k c] assms(1,2) l y show ?thesis by (cases "set_path p x []") auto
qed

text \<open>Dictionaries that can be sent: keys without the separator, no key twice, tensors of their size.\<close>

fun sendable :: "(string \<times> ('e, 'v) nested) list \<Rightarrow> bool" where
  "sendable [] \<longleftrightarrow> True"
| "sendable ((k, v) # rest) \<longleftrightarrow>
     CHR ''%'' \<notin> set k \<and> k \<notin> fst ` set rest \<and> sendable rest
     \<and> (case v of N_tensor t \<Rightarrow> length (wt_data t) = numel (wt_size t) | N_other _ \<Rightarrow> True | N_dict d \<Rightarrow> sendable d)"

lemma leaves_paths: "(p, x) \<in> set (leaves d) \<Longrightarrow> p \<noteq> []"
proof (induction d arbitrary: p x rule: leaves.induct)
  case (2 k v rest)
  then consider "(p, x) \<in> set (leaves rest)" | "fst (p, x) = [k]" | q where "p = k # q" by (auto split: nested.splits if_splits)
  then show ?case using 2(2) by cases auto
qed simp

lemma leaves_Nil: "leaves d = [] \<longleftrightarrow> d = []"
  by (induction d rule: leaves.induct) (auto split: nested.splits if_splits)

lemma set_all_leaves: "sendable d \<Longrightarrow> fst ` set c \<inter> fst ` set d = {} \<Longrightarrow> set_all (leaves d) c = Inr (c @ d)"
proof (induction d arbitrary: c rule: leaves.induct)
  case (2 k v rest)
  have k: "k \<notin> fst ` set c" "k \<notin> fst ` set rest" and r: "sendable rest" using 2 by auto
  have rest: "set_all (leaves rest) (c @ [(k, w)]) = Inr (c @ [(k, w)] @ rest)" for w
    using 2(2) [OF r, of "c @ [(k, w)]"] 2(4) k by auto
  show ?case
  proof (cases v)
    case (N_tensor t)
    then show ?thesis using rest k by (simp add: dict_set_new)
  next
    case (N_other x)
    then show ?thesis using rest k by (simp add: dict_set_new)
  next
    case (N_dict d)
    show ?thesis
    proof (cases "d = []")
      case True
      then show ?thesis using rest k N_dict by (simp add: dict_set_new)
    next
      case False
      have "set_all (leaves d) [] = Inr d" using 2(1) [OF N_dict False, of "[]"] 2(3) N_dict by simp
      moreover have "\<forall>(p, x) \<in> set (leaves d). p \<noteq> []" using leaves_paths by fastforce
      ultimately have "set_all (map (\<lambda>(p, x). (k # p, x)) (leaves d)) c = Inr (c @ [(k, N_dict d)])"
        using set_all_new [of "leaves d" k c] k(1) False leaves_Nil [of d] by simp
      then show ?thesis using rest False N_dict by (simp add: set_all_append)
    qed
  qed
qed simp

section \<open>The flat form\<close>

fun join_percent :: "string list \<Rightarrow> string" where
  "join_percent [] = []"
| "join_percent [k] = k"
| "join_percent (k # j # ks) = k @ ''%'' @ join_percent (j # ks)"

lemma split_plain: "CHR ''%'' \<notin> set k \<Longrightarrow> split_percent k = [k]"
  by (induction k) auto

lemma split_join_one: "CHR ''%'' \<notin> set k \<Longrightarrow> split_percent (k @ ''%'' @ s) = k # split_percent s"
proof (induction k)
  case (Cons c k)
  then show ?case by auto
qed simp

lemma split_join: "p \<noteq> [] \<Longrightarrow> \<forall>k \<in> set p. CHR ''%'' \<notin> set k \<Longrightarrow> split_percent (join_percent p) = p"
  by (induction p rule: join_percent.induct) (auto simp: split_plain split_join_one simp del: append_Cons append_Nil split_percent.simps)

lemma leaves_plain: "sendable d \<Longrightarrow> (p, x) \<in> set (leaves d) \<Longrightarrow> \<forall>k \<in> set p. CHR ''%'' \<notin> set k"
  by (induction d arbitrary: p x rule: leaves.induct) (auto split: nested.splits if_splits)

definition leaf_meta :: "('e, 'v) nested \<Rightarrow> 'v meta" where
  "leaf_meta x = (case x of N_tensor t \<Rightarrow> Meta_tensor (wt_device t) (wt_dtype t) (wt_size t) | N_other y \<Rightarrow> Meta_other y | N_dict _ \<Rightarrow> Meta_empty)"

definition leaf_tensors :: "('e, 'v) nested \<Rightarrow> 'e wire_tensor list" where
  "leaf_tensors x = (case x of N_tensor t \<Rightarrow> [t] | _ \<Rightarrow> [])"

lemma join_Cons: "p \<noteq> [] \<Longrightarrow> join_percent (k # p) = k @ ''%'' @ join_percent p"
  by (cases p) auto

lemma below_tensors:
  "concat (map ((\<lambda>(p, x). leaf_tensors x) \<circ> (\<lambda>(p, x). (k # p, x))) l) = concat (map (\<lambda>(p, x). leaf_tensors x) l)"
  by (induction l) auto

lemma split_tensor_dict_leaves:
  "sendable d \<Longrightarrow> split_tensor_dict d pre =
    Inr (map (\<lambda>(p, x). (pre @ join_percent p, leaf_meta x)) (leaves d), concat (map (\<lambda>(p, x). leaf_tensors x) (leaves d)))"
proof (induction d pre rule: split_tensor_dict.induct)
  case (2 k v rest pre)
  have k: "CHR ''%'' \<notin> set k" and r: "sendable rest" using 2(3) by auto
  have ih: "split_tensor_dict rest pre =
      Inr (map (\<lambda>(p, x). (pre @ join_percent p, leaf_meta x)) (leaves rest), concat (map (\<lambda>(p, x). leaf_tensors x) (leaves rest)))"
    using 2 k r by auto
  show ?case
  proof (cases v)
    case (N_dict d)
    have "sendable d" using 2(3) N_dict by simp
    then have d: "split_tensor_dict d (pre @ k @ ''%'') =
        Inr (map (\<lambda>(p, x). ((pre @ k @ ''%'') @ join_percent p, leaf_meta x)) (leaves d), concat (map (\<lambda>(p, x). leaf_tensors x) (leaves d)))"
      using 2(1) k N_dict by blast
    have m: "map (\<lambda>(p, x). (pre @ join_percent p, leaf_meta x)) (map (\<lambda>(p, x). (k # p, x)) (leaves d))
        = map (\<lambda>(p, x). ((pre @ k @ ''%'') @ join_percent p, leaf_meta x)) (leaves d)"
      using leaves_paths [of _ _ d] by (auto simp: join_Cons)
    show ?thesis
    proof (cases "d = []")
      case True
      then show ?thesis using k N_dict ih by (simp add: leaf_meta_def leaf_tensors_def)
    next
      case False
      then show ?thesis using k N_dict ih d m by (simp add: below_tensors)
    qed
  qed (use k ih in \<open>simp_all add: leaf_meta_def leaf_tensors_def\<close>)
qed simp


section \<open>Sending and receiving\<close>

definition on_cpu :: "'e wire_tensor list \<Rightarrow> ('e, 'v) packet list" where
  "on_cpu ts = map (\<lambda>t. Data (wt_data t)) (filter (\<lambda>t. numel (wt_size t) \<noteq> 0 \<and> wt_device t = ''cpu'') ts)"

definition on_device :: "'e wire_tensor list \<Rightarrow> ('e, 'v) packet list" where
  "on_device ts = map (\<lambda>t. Data (wt_data t)) (filter (\<lambda>t. numel (wt_size t) \<noteq> 0 \<and> wt_device t \<noteq> ''cpu'') ts)"

lemma send_tensors: "foldl send_tensor l ts = l\<lparr>ln_cpu := ln_cpu l @ on_cpu ts, ln_device := ln_device l @ on_device ts\<rparr>"
  by (induction ts arbitrary: l) (simp_all add: send_tensor_def on_cpu_def on_device_def)

definition leaf_ok :: "('e, 'v) leaf \<Rightarrow> bool" where
  "leaf_ok y \<longleftrightarrow> fst y \<noteq> [] \<and> (\<forall>k \<in> set (fst y). CHR ''%'' \<notin> set k)
     \<and> (case snd y of N_tensor t \<Rightarrow> length (wt_data t) = numel (wt_size t) | N_other _ \<Rightarrow> True | N_dict d \<Rightarrow> d = [])"

lemma leaves_ok: "sendable d \<Longrightarrow> y \<in> set (leaves d) \<Longrightarrow> leaf_ok y"
proof (induction d arbitrary: y rule: leaves.induct)
  case (2 k v rest)
  have k: "CHR ''%'' \<notin> set k" using 2(3) by simp
  show ?case
  proof (cases "y \<in> set (leaves rest)")
    case True
    then show ?thesis using 2 by auto
  next
    case False
    show ?thesis
    proof (cases v)
      case (N_dict d)
      show ?thesis
      proof (cases "d = []")
        case True
        with False N_dict 2(4) k show ?thesis by (simp add: leaf_ok_def)
      next
        case dn: False
        with False N_dict 2(4) obtain z where z: "z \<in> set (leaves d)" "y = (k # fst z, snd z)" by auto
        from 2(1) [OF N_dict dn _ z(1)] 2(3) N_dict have "leaf_ok z" by simp
        with z(2) k show ?thesis by (simp add: leaf_ok_def)
      qed
    qed (use False 2(3,4) k in \<open>auto simp: leaf_ok_def\<close>)
  qed
qed simp

lemma receive_leaves:
  assumes "\<forall>y \<in> set l. leaf_ok y" "set_all l d = Inr e" "ts = concat (map (\<lambda>(p, x). leaf_tensors x) l)"
  shows "receive_items (map (\<lambda>(p, x). (join_percent p, leaf_meta x)) l) d \<lparr>ln_cpu = on_cpu ts @ a, ln_device = on_device ts @ b\<rparr>
    = Some (Inr e, \<lparr>ln_cpu = a, ln_device = b\<rparr>)"
  using assms
proof (induction l arbitrary: d ts)
  case (Cons y l)
  obtain p x where y: "y = (p, x)" by (cases y)
  have ok: "leaf_ok (p, x)" using Cons.prems(1) y by simp
  then have sp: "split_percent (join_percent p) = p" by (simp add: leaf_ok_def split_join)
  obtain d1 where d1: "set_path p x d = Inr d1" "set_all l d1 = Inr e" using Cons.prems(2) y by (cases "set_path p x d") auto
  define ts1 where "ts1 = concat (map (\<lambda>(p, x). leaf_tensors x) l)"
  have ts: "ts = leaf_tensors x @ ts1" using Cons.prems(3) y by (simp add: ts1_def)
  have ih: "receive_items (map (\<lambda>(p, x). (join_percent p, leaf_meta x)) l) d1 \<lparr>ln_cpu = on_cpu ts1 @ a, ln_device = on_device ts1 @ b\<rparr>
      = Some (Inr e, \<lparr>ln_cpu = a, ln_device = b\<rparr>)"
    using Cons.IH [OF _ d1(2) ts1_def] Cons.prems(1) by simp
  show ?case
  proof (cases x)
    case (N_tensor t)
    have t: "receive_tensor (wt_device t) (wt_dtype t) (wt_size t) \<lparr>ln_cpu = on_cpu (t # ts1) @ a, ln_device = on_device (t # ts1) @ b\<rparr>
        = Some (t, \<lparr>ln_cpu = on_cpu ts1 @ a, ln_device = on_device ts1 @ b\<rparr>)"
      using ok N_tensor by (auto simp: receive_tensor_def on_cpu_def on_device_def leaf_ok_def)
    with N_tensor ih d1(1) sp ts y show ?thesis
      by (simp add: leaf_meta_def leaf_tensors_def update_nested_dict_def)
  next
    case (N_other z)
    with ih d1(1) sp ts y show ?thesis by (simp add: leaf_meta_def leaf_tensors_def update_nested_dict_def)
  next
    case (N_dict z)
    with ok have "z = []" by (simp add: leaf_ok_def)
    with N_dict ih d1(1) sp ts y show ?thesis by (simp add: leaf_meta_def leaf_tensors_def update_nested_dict_def)
  qed
qed (simp add: on_cpu_def on_device_def)

text \<open>C40: A dictionary of tensors arrives as it was sent: whatever is nested in it, if its keys have no separator and occur once, the neighbour that receives it gets the same dictionary, in the same order, and leaves what was sent after it in the channels.\<close>

lemma tensor_dict_arrives:
  assumes d: "sendable d"
    and g: "gc_world_size g \<noteq> 1" "dst < gc_world_size g" "dst \<noteq> gc_rank_in_group g"
    and h: "gc_world_size h = gc_world_size g" "gc_rank_in_group h = dst" "src = gc_rank_in_group g" "src < gc_world_size g"
  shows "\<exists>cpu dev. (\<forall>l. send_tensor_dict g (Some dst) d l = Inr (l\<lparr>ln_cpu := ln_cpu l @ cpu, ln_device := ln_device l @ dev\<rparr>))
    \<and> (\<forall>a b. recv_tensor_dict h (Some src) \<lparr>ln_cpu = cpu @ a, ln_device = dev @ b\<rparr> = Some (Inr (Some d), \<lparr>ln_cpu = a, ln_device = b\<rparr>))"
proof -
  define ts where "ts = concat (map (\<lambda>(p, x). leaf_tensors x) (leaves d))"
  define m where "m = map (\<lambda>(p, x). (join_percent p, leaf_meta x)) (leaves d)"
  have s: "split_tensor_dict d [] = Inr (m, ts)" using split_tensor_dict_leaves [OF d, of "[]"] by (simp add: m_def ts_def)
  have r: "receive_items m [] \<lparr>ln_cpu = on_cpu ts @ a, ln_device = on_device ts @ b\<rparr> = Some (Inr d, \<lparr>ln_cpu = a, ln_device = b\<rparr>)" for a b
    unfolding m_def using receive_leaves [of "leaves d" "[]" d ts] leaves_ok [OF d] set_all_leaves [OF d, of "[]"] by (simp add: ts_def)
  show ?thesis
    using g h s r by (intro exI [of _ "Object m # on_cpu ts"] exI [of _ "on_device ts"])
      (simp add: send_tensor_dict_def recv_tensor_dict_def send_tensors)
qed

definition pair_group :: "nat \<Rightarrow> group_coordinator" where
  "pair_group i = \<lparr>gc_rank = 2 + i, gc_ranks = [2, 3], gc_rank_in_group = i, gc_device_group = (0, [2, 3]), gc_cpu_group = (1, [2, 3])\<rparr>"

definition sent_dict :: "(string \<times> (nat, nat) nested) list" where
  "sent_dict = [(''hidden'', N_tensor \<lparr>wt_device = ''cuda'', wt_dtype = ''float'', wt_size = [2], wt_data = [7, 8]\<rparr>),
     (''state'', N_dict [(''mask'', N_tensor \<lparr>wt_device = ''cpu'', wt_dtype = ''bool'', wt_size = [1], wt_data = [1]\<rparr>), (''step'', N_other 5),
       (''cache'', N_dict [])])]"

lemma tensor_dict_arrives_witness:
  "\<exists>l. send_tensor_dict (pair_group 0) (Some 1) sent_dict \<lparr>ln_cpu = [], ln_device = []\<rparr> = Inr l
    \<and> recv_tensor_dict (pair_group 1) (Some 0) l = Some (Inr (Some sent_dict), \<lparr>ln_cpu = [], ln_device = []\<rparr>)"
proof -
  have "sendable sent_dict" by code_simp
  from tensor_dict_arrives [OF this, of "pair_group 0" 1 "pair_group 1" 0] show ?thesis
    by (auto simp: pair_group_def gc_world_size_def) (metis append_Nil2 append_Nil link.select_convs link.update_convs)
qed

text \<open>
  The source of a broadcast of a dictionary is mapped to a global rank twice: in a group that does not
  start at rank 0 the metadata is refused, or nobody sends it.
\<close>

lemma broadcast_maps_twice:
  "broadcast_metadata (pair_group 0) 0 = Inl AssertionError"
  "broadcast_metadata ((pair_group 0)\<lparr>gc_rank := 1, gc_ranks := [1, 3]\<rparr>) 0 = Inr (Receives_from 3)"
  by code_simp+


section \<open>The pipeline\<close>

type_synonym 'e sent = "'e shaped \<times> string \<times> int"

fun send_all :: "'e sent list \<Rightarrow> 'e pipe \<Rightarrow> 'e pipe \<times> 'e pipe_msg list" where
  "send_all [] p = (p, [])"
| "send_all ((t, name, i) # rest) p =
     (case pipeline_send t name i p of (p1, w1) \<Rightarrow> (case send_all rest p1 of (p2, w2) \<Rightarrow> (p2, w1 @ w2)))"

fun recv_all :: "'e \<Rightarrow> (string \<times> int) list \<Rightarrow> 'e pipe \<times> 'e pipe_msg list \<Rightarrow> ('e shaped res list \<times> 'e pipe \<times> 'e pipe_msg list) option" where
  "recv_all zero [] s = Some ([], s)"
| "recv_all zero ((name, i) # rest) s =
     (case pipeline_recv zero i name s of
        None \<Rightarrow> None
      | Some (r, s1) \<Rightarrow> map_option (\<lambda>(rs, s2). (r # rs, s2)) (recv_all zero rest s1))"

text \<open>Sender and receiver know the same shapes, those of \<open>shp\<close>, and there is a buffer for each.\<close>

definition linked :: "(segment \<Rightarrow> nat list) \<Rightarrow> 'e pipe \<Rightarrow> 'e pipe \<Rightarrow> bool" where
  "linked shp p q \<longleftrightarrow>
     (\<forall>sg. map_of (pp_send_shape p) sg = map_of (pp_recv_shape q) sg) \<and> (\<forall>sg s. map_of (pp_send_shape p) sg = Some s \<longrightarrow> s = shp sg)
     \<and> (\<exists>b. pp_buffers q = By_segment b \<and> (\<forall>sg. map_option fst (map_of b sg) = map_of (pp_recv_shape q) sg))"

lemma new_pipes_linked: "linked shp new_pipe new_pipe"
  by (simp add: linked_def new_pipe_def)

lemma send_and_receive:
  assumes l: "linked shp p q" and s: "shape = shp (segment_of name i)" "length xs = numel shape"
    and e: "pipeline_send (shape, xs) name i p = (p1, w1)"
  shows "\<exists>q1. pipeline_recv zero i name (q, w1 @ w) = Some (Inr (shape, xs), q1, w) \<and> linked shp p1 q1"
proof -
  let ?sg = "segment_of name i"
  obtain b where b: "pp_buffers q = By_segment b" "\<And>sg. map_option fst (map_of b sg) = map_of (pp_recv_shape q) sg"
    using l by (auto simp: linked_def)
  show ?thesis
  proof (cases "map_of (pp_send_shape p) ?sg")
    case None
    then have n: "map_of (pp_recv_shape q) ?sg = None" using l unfolding linked_def by metis
    have "p1 = p\<lparr>pp_send_shape := dict_set ?sg shape (pp_send_shape p)\<rparr>" "w1 = [Shape_msg shape, Tensor_msg xs]"
      using e None by (auto simp: pipeline_send_def)
    then show ?thesis
      using l n b s by (auto simp: pipeline_recv_def receive_segment_def check_recv_def receive_into_def linked_def map_of_dict_set)
  next
    case (Some s0)
    then have n: "map_of (pp_recv_shape q) ?sg = Some shape" using l s(1) unfolding linked_def by metis
    then obtain old where o: "map_of b ?sg = Some (shape, old)" using b(2) [of ?sg] by (auto simp: map_option_case split: option.splits)
    have "p1 = p" "w1 = [Tensor_msg xs]" using e Some by (auto simp: pipeline_send_def)
    then show ?thesis
      using l n b s o by (auto simp: pipeline_recv_def receive_segment_def check_recv_def receive_into_def linked_def map_of_dict_set)
  qed
qed

text \<open>The tensors sent down a pipeline arrive in order: as long as the tensors of a segment keep its shape, each reception asked for in the order of the sendings gets the tensor sent, though a shape is sent only before the first tensor of its segment, and what follows stays in the channel.\<close>

lemma pipeline_tensors_arrive:
  assumes "\<forall>(t, name, i) \<in> set sends. fst t = shp (segment_of name i) \<and> length (snd t) = numel (fst t)" and "linked shp p q"
  shows "\<exists>q1. recv_all zero (map snd sends) (q, snd (send_all sends p) @ w) = Some (map (\<lambda>(t, _). Inr t) sends, q1, w)
    \<and> linked shp (fst (send_all sends p)) q1"
  using assms
proof (induction sends arbitrary: p q)
  case (Cons y sends)
  obtain shape xs name i where y: "y = ((shape, xs), name, i)" by (metis surj_pair)
  obtain p1 w1 where e: "pipeline_send (shape, xs) name i p = (p1, w1)" by (cases "pipeline_send (shape, xs) name i p")
  have s: "shape = shp (segment_of name i)" "length xs = numel shape" using Cons.prems(1) y by auto
  let ?w = "snd (send_all sends p1) @ w"
  obtain q1 where q1: "pipeline_recv zero i name (q, w1 @ ?w) = Some (Inr (shape, xs), q1, ?w)" "linked shp p1 q1"
    using send_and_receive [OF Cons.prems(2) s e, of zero ?w] by blast
  obtain q2 where "recv_all zero (map snd sends) (q1, ?w) = Some (map (\<lambda>(t, _). Inr t) sends, q2, w)"
    "linked shp (fst (send_all sends p1)) q2"
    using Cons.IH [OF _ q1(2)] Cons.prems(1) by auto
  with q1(1) e y show ?case by (auto simp: split_beta)
qed (auto simp: linked_def)

definition latents :: "nat sent list" where
  "latents = [(([2], [1, 2]), ''latent'', 0), (([1], [9]), ''text'', - 1), (([2], [3, 4]), [], 0)]"

definition latent_shape :: "segment \<Rightarrow> nat list" where
  "latent_shape sg = (if fst sg = ''latent'' then [2] else [1])"

lemma pipeline_tensors_arrive_witness:
  "\<exists>q. recv_all 0 (map snd latents) (new_pipe, snd (send_all latents new_pipe)) = Some (map (\<lambda>(t, _). Inr t) latents, q, [])"
proof -
  have "\<forall>(t, name, i) \<in> set latents. fst t = latent_shape (segment_of name i) \<and> length (snd t) = numel (fst t)" by code_simp
  from pipeline_tensors_arrive [OF this new_pipes_linked, of 0 "[]"] show ?thesis by auto
qed

text \<open>A tensor of another shape in a known segment does not fit into its buffer.\<close>

lemma changed_shape_does_not_fit:
  "map_option fst (recv_all (0 :: nat) [(''latent'', 0), (''latent'', 0)]
      (new_pipe, snd (send_all [(([2], [1, 2]), ''latent'', 0), (([3], [3, 4, 5]), ''latent'', 0)] new_pipe)))
    = Some [Inr ([2], [1, 2]), Inl RuntimeError]"
  by code_simp

text \<open>After \<open>set_recv_buffer\<close> nothing can be received.\<close>

lemma preset_buffers_fail:
  "map_option fst (pipeline_recv (0 :: nat) 0 ''latent'' (set_recv_buffer 0 [[2]] [4] new_pipe, [Shape_msg [2], Tensor_msg [1, 2]]))
    = Some (Inl AttributeError)"
  by code_simp

section \<open>Sharding\<close>

lemma concat_chunks: "concat (map (\<lambda>i. take c (drop (i * c) xs)) [0..<k]) = take (k * c) xs"
proof (induction k)
  case (Suc k)
  have "take (k * c) xs @ take c (drop (k * c) xs) = take (k * c + c) xs" by (simp add: take_add)
  with Suc show ?case by (simp add: add.commute)
qed simp

lemma even_chunks:
  assumes "length xs = k * n" "0 < k" "0 < n"
  shows "torch_chunk n xs = map (\<lambda>i. take k (drop (i * k) xs)) [0..<n]"
proof -
  have "(k * n + n - 1) div n = k" using assms(3) by (metis Nat.add_diff_assoc add.commute div_mult_self3 div_less diff_less less_eq_Suc_le
        less_numeral_extra(1) not_gr0 One_nat_def add_0_right nat_neq_iff)
  moreover have "(n * k + k - 1) div k = n" using assms(2) by (metis Nat.add_diff_assoc add.commute div_mult_self3 div_less diff_less less_eq_Suc_le
        less_numeral_extra(1) not_gr0 One_nat_def add_0_right nat_neq_iff)
  ultimately show ?thesis using assms by (simp add: torch_chunk_def Let_def mult.commute)
qed

lemma even_shards:
  assumes "length xs = k * n" "0 < k" "1 < n"
  shows "\<exists>shards. length shards = n \<and> (\<forall>r < n. sp_shard n r check xs = Inr (shards ! r)) \<and> (\<forall>s \<in> set shards. length s = k) \<and> sp_gather shards = xs"
proof (intro exI conjI allI impI)
  let ?s = "map (\<lambda>i. take k (drop (i * k) xs)) [0..<n]"
  have c: "torch_chunk n xs = ?s" using even_chunks [OF assms(1,2)] assms(3) by simp
  show "length ?s = n" by simp
  show "sp_shard n r check xs = Inr (?s ! r)" if "r < n" for r
    using assms that by (simp add: sp_shard_def c)
  show "\<forall>s \<in> set ?s. length s = k"
  proof
    fix s assume "s \<in> set ?s"
    then obtain i where i: "i < n" "s = take k (drop (i * k) xs)" by auto
    then have "Suc i * k \<le> n * k" by (intro mult_le_mono1) simp
    with i(2) assms(1) show "length s = k" by (simp add: mult.commute)
  qed
  show "sp_gather ?s = xs" using assms(1) by (simp add: sp_gather_def concat_chunks mult.commute)
qed

text \<open>Sharding a sequence over a group and gathering it gives it back: the shards are of one length, and joined in the order of the group they are the sequence followed by the announced padding.\<close>

lemma padded_shards_join:
  assumes "xs \<noteq> []" "1 < world"
  shows "\<exists>shards n k. n < world \<and> length shards = world \<and> (\<forall>r < world. sp_shard_with_padding world r pad xs = Inr (shards ! r, n))
    \<and> (\<forall>s \<in> set shards. length s = k) \<and> sp_gather shards = xs @ replicate n pad"
proof -
  define n where "n = (if length xs mod world = 0 then 0 else world - length xs mod world)"
  have n: "n < world" using assms(2) by (auto simp: n_def)
  have "world dvd length xs + n"
  proof (cases "length xs mod world = 0")
    case True
    then show ?thesis by (simp add: n_def mod_0_imp_dvd)
  next
    case False
    have m: "length xs mod world < world" using assms(2) by simp
    have "length xs = world * (length xs div world) + length xs mod world" by simp
    then have "length xs + n = world * (length xs div world) + (length xs mod world + n)" by linarith
    also have "length xs mod world + n = world" using False m by (simp add: n_def)
    finally show ?thesis by simp
  qed
  then obtain k where k: "length (xs @ replicate n pad) = k * world" by (auto simp: dvd_def mult.commute)
  with assms(1) have "0 < k" by (cases k) auto
  from even_shards [OF k this assms(2), of False] obtain shards where
    s: "length shards = world" "\<forall>r < world. sp_shard world r False (xs @ replicate n pad) = Inr (shards ! r)"
      "\<forall>s \<in> set shards. length s = k" "sp_gather shards = xs @ replicate n pad" by blast
  have "sp_shard_with_padding world r pad xs = Inr (shards ! r, n)" if "r < world" for r
    using s(2) that assms(2) by (auto simp: sp_shard_with_padding_def Let_def n_def split: if_splits)
  with n s(1,3,4) show ?thesis by blast
qed

lemma padded_shards_join_witness:
  "\<exists>shards n. length shards = 4 \<and> sp_gather shards = [1, 2, 3, 4, 5] @ replicate n (0 :: nat)
    \<and> (\<forall>r < 4. sp_shard_with_padding 4 r 0 [1, 2, 3, 4, 5] = Inr (shards ! r, n))"
  using padded_shards_join [of "[1, 2, 3, 4, 5 :: nat]" 4 0] by auto

text \<open>Without the check, a length that is not divisible leaves the last process without a chunk.\<close>

lemma uneven_chunks: "sp_shard 4 3 False [1, 2, 3, 4, 5 :: nat] = Inl IndexError"
  by code_simp

text \<open>A tracked pass is valid exactly if all tensors that were sharded were gathered.\<close>

lemma validator_pass:
  "validate_sharding (end_track (snd (validator_gather shards name (snd (validator_shard world rank check xs name (begin_track v)))))) = Inr ()"
  by (simp add: validate_sharding_def end_track_def validator_gather_def validator_shard_def begin_track_def)

end
