(* ===== verification/Spec2Isabelle.thy ===== *)
theory Spec2Isabelle
  imports Sched_Properties Diffusion_Properties Diffusion_Legacy Worker_Cache Scheduling_Coordinator Chunk_Properties
    Buffer_Allocator KV_Ranks Omni_Coordinator Omnivoice_Streaming Speech_Session Diffusion_Stage_Properties
    Async_Client_Properties Connector_Runner_Properties Payload_Keys_Properties Prefix_Cache_Properties
    Stage_Merge_Properties Rank_Groups_Properties Group_Messages_Properties
begin

text \<open>
  A model of the core of the serving engine \<open>vllm_omni\<close> in Isabelle/HOL.

  The program. An orchestrator sends a request through a pipeline of stages. A diffusion stage is driven by
  \<open>DiffusionEngine\<close>: callers hand requests to a driver loop, the loop asks a scheduler for a batch,
  a runner executes it (a whole generation, or one step of it in step-wise mode), and the scheduler and
  the delivery code turn the runner's output into answers. An autoregressive stage is scheduled with
  the help of a coordinator that parks requests whose input chunk has not arrived; chunks travel between
  stages through a connector, over shared memory or registered buffers. KV caches are routed between
  stages with different tensor-parallel sizes. The instances of a stage register with a coordinator
  that publishes them to a hub and its load balancers. The diffusion model served here is OmniVoice, a
  text-to-speech model that unmasks audio tokens block by block and streams finished audio.

  Conventions. Objects are records, fields keep the source's names (with a prefix where two classes
  share one). Dictionaries are maps, or association lists where their order matters. Every operation
  takes the state and returns it updated; an operation that may raise returns \<open>Inl\<close> the error or
  \<open>Inr\<close> the result (\<open>res\<close> in \<open>Prelude\<close>). Where a method mutates the state before it raises, the state
  is returned beside the error. Integers of Python are \<open>int\<close>, or \<open>nat\<close> where the code never makes them
  negative; times, durations and tensor entries are rationals. Code outside the repository is an
  argument of the definitions that use it.

  \<^bold>\<open>The diffusion scheduler\<close> (\<open>diffusion/sched\<close>).
  \<^item> \<open>Sched_Base\<close>: \<open>DiffusionRequestState\<close>, \<open>DiffusionSchedulerOutput\<close> and \<open>_BaseScheduler\<close>
    (\<open>interface.py\<close>, \<open>base_scheduler.py\<close>): adding, selecting (FIFO and duration buckets), preempting,
    finishing, popping. \<open>Sched_Invariant\<close>: its well-formedness, kept by every operation.
  \<^item> \<open>Sched_Request\<close>, \<open>Sched_Step\<close>: \<open>RequestScheduler\<close> (a batch ends with one output) and
    \<open>StepScheduler\<close> (a batch advances step by step, a request that emitted a block yields).
  \<^item> \<open>Sched_Interface\<close>: the locale of a scheduler as its client sees it; both classes interpret it.
    \<open>Sched_Batching\<close>, \<open>Sched_Properties\<close>: reachable states, homogeneous batches, the longest fitting
    prefix, no empty batch while there is work, first audio first, what an output does to a batch.

  \<^bold>\<open>The engine\<close> (\<open>diffusion/diffusion_engine.py\<close>).
  \<^item> \<open>Diffusion_Driver\<close>: the driver loop as steps of callers and driver over queues and futures;
    \<open>Diffusion_Delivery\<close>: answering callers and streams; \<open>Diffusion_Lifetimes\<close>: a caller and a stream
    from their registration to their answer; \<open>Diffusion_Properties\<close>: invariants of all interleavings. A caller is
    followed as long as nobody else uses its id, a stream while the executor answers for its batch only. \<open>Diffusion_Legacy\<close>: the synchronous path \<open>add_req_and_wait_for_response\<close>, its loop with
    fuel: two more than the queued requests is enough for it to return.
  \<^item> \<open>Worker_Cache\<close>: the step-wise state cache of \<open>diffusion/worker/diffusion_model_runner.py\<close>, joined
    with the step scheduler through the locale of schedulers: no batch misses a cached state.

  \<^bold>\<open>Between stages\<close>.
  \<^item> \<open>Scheduling_Coordinator\<close>: \<open>core/sched/omni_scheduling_coordinator.py\<close>, over the interface of a
    waiting queue.
  \<^item> \<open>Shm_Connector\<close>: \<open>shm_connector.py\<close>, the provider of the locale \<open>connector\<close>. \<open>Chunk_Adapter\<close>: the
    chunk transfer adapter of \<open>transfer_adapter\<close>; \<open>Chunk_Transfer\<close>: a sender and a receiver joined by a
    connector, refined to one queue per request; \<open>Chunk_Properties\<close>: what follows over shared memory.
  \<^item> \<open>Buffer_Allocator\<close>: the buffer pool of \<open>mooncake_transfer_engine_connector.py\<close>. \<open>KV_Ranks\<close>: rank
    routing and head slicing of \<open>omni_connectors/utils/kv_utils.py\<close>.
  \<^item> \<open>Connector_Runner\<close>: the connector mixin of the model runners (\<open>omni_connector_model_runner_mixin.py\<close>),
    with the connector and the function that builds chunks as arguments and each turn of its two threads
    as steps; \<open>Runner_Payload\<close>: how its payloads are read and accumulated, with \<open>payload_span.py\<close>.
    \<open>Connector_Runner_Properties\<close>: sending accounts for every task and ends, arrivals are reported with
    their metadata, a chunk of the generation mode is kept; \<open>Runner_Payload_Properties\<close>: the span of the
    decoded tokens is exact. Connector set-up and KV payloads are left out.
  \<^item> \<open>Payload_Keys\<close>: the payloads of \<open>data_entry_keys.py\<close>, their dotted keys and their encoding;
    \<open>Payload_Keys_Properties\<close>: they survive both. \<open>Prefix_Cache\<close>: the cache of hidden states
    (\<open>core/prefix_cache.py\<close>, \<open>utils/mm_outputs.py\<close>) and its use by \<open>worker/gpu_ar_model_runner.py\<close>;
    \<open>Prefix_Cache_Properties\<close>: a hit restores the states. That
    the slots of a hit hold the states of its positions is the promise of the block manager.
  \<^item> \<open>Omni_Coordinator\<close>: the registry, its publishing loop, the hub's client and the load balancers of
    \<open>distributed/omni_coordinator\<close>. A published list may get lost, and a hub may connect late or anew;
    what follows once nothing is lost any more is proved, and what does not by examples.

  \<^bold>\<open>OmniVoice\<close> (\<open>model_executor/models/omnivoice/omnivoice_generator.py\<close>,
  \<open>diffusion/models/omnivoice/pipeline_omnivoice.py\<close>).
  \<^item> \<open>Omnivoice_Plan\<close>: \<open>build_step_plans\<close>, blocks and budgets; \<open>Omnivoice_Unmask\<close>: \<open>unmask_step\<close> and
    \<open>forward\<close>; \<open>Omnivoice_Pipeline\<close>: preparing requests, batch tensors, \<open>forward\<close> and
    \<open>execute_step_batch\<close> with its streamed audio; \<open>Omnivoice_Example\<close>: a small concrete generator.
  \<^item> \<open>Omnivoice_Properties\<close>: plans cover requests, generation leaves no mask. \<open>Omnivoice_Steps\<close>: the
    invariant of a request between two steps. \<open>Omnivoice_Equivalence\<close>: a batch step is row-wise, and
    continuous batching ends with the tokens of generating alone. \<open>Omnivoice_Streaming\<close>: the streamed
    chunks are consecutive cuts of the audio of the finished tokens.

  \<^bold>\<open>Speech from streamed text\<close> (\<open>entrypoints/openai\<close>).
  \<^item> \<open>Text_Splitter\<close>: \<open>text_splitter.py\<close>; its sentences do not depend on how the text is cut into chunks.
    \<open>Speech_Session\<close>: the websocket session of \<open>serving_speech_stream.py\<close>, the protocol it keeps and what a
    lost connection does to it.

  \<^bold>\<open>The orchestrator of the stages\<close> (\<open>engine/orchestrator.py\<close>, \<open>engine/cfg_companion_tracker.py\<close>).
  \<^item> \<open>Cfg_Companion\<close>: the tracker of the companion requests of guided requests, its invariant, what an
    abort removes. \<open>Orchestrator\<close>: the state, forwarding to a diffusion, a decode or an engine stage,
    routing an output, the polling steps. \<open>Orchestrator_Requests\<close>: the messages of the callers, arming
    later stages ahead, and the run with its end after a fatal error.
  \<^item> \<open>Orchestrator_Routing\<close>: what any step does to one request (\<open>settles\<close>); \<open>Orchestrator_Properties\<close>: a
    request is answered once and sent on once, waits for its companions and is released by the last.
    A handler runs as one step with one reading of the clock; \<open>fresh_companion\<close> says callers use new
    ids for companions, \<open>about_others\<close> that no new message concerns the request of the theorem. Error
    texts are shortened.
  \<^item> \<open>Diffusion_Stage\<close>: the client of a diffusion stage and the loop of its process, joined by two sockets
    (\<open>diffusion/stage_diffusion_client.py\<close>, \<open>stage_diffusion_proc.py\<close>): submitting, batches, aborts,
    control calls, polling, the death of the process. A task of the process is one entry that starts and
    ends in steps of its own. \<open>Diffusion_Stage_Properties\<close>: submissions are answered once under the
    hypothesis \<open>engine_contract\<close> (the engine returns the id of its request or none, and reports as aborted
    only what was aborted), and a dead process is reported after all that had arrived.
  \<^item> \<open>Async_Client\<close>: the callers (\<open>engine/async_omni_engine.py\<close>, \<open>entrypoints/async_omni.py\<close>,
    \<open>omni_base.py\<close>): building messages, companions, the loop that distributes outputs, the generators.
    \<open>Async_Client_Properties\<close>: a caller gets the messages of its request up to the one that ends it, and
    returns once the orchestrator of \<open>Orchestrator\<close> has answered.

  \<^bold>\<open>Process groups of the diffusion workers\<close> (\<open>diffusion/distributed\<close>, \<open>DiffusionParallelConfig\<close>).
  \<^item> \<open>Rank_Groups\<close>: rank generation, the groups and the collective calls that create them, in the order
    of the code, the start of a worker. \<open>Rank_Groups_Properties\<close>: groups partition the ranks, sequence
    groups are grids of Ulysses and ring groups, a checked configuration starts on every worker.
  \<^item> \<open>Group_Messages\<close>: dictionaries of tensors, the pipeline's exchange of shapes, sharded sequences, with
    channels as queues; \<open>Group_Messages_Properties\<close>: what is sent arrives.

  \<^bold>\<open>Configuration\<close> (\<open>config/stage_config.py\<close>, \<open>engine/arg_utils.py\<close>).
  \<^item> \<open>Stage_Config\<close>: topologies, the registry of pipelines, deploy files and their inheritance (the fuel of
    \<open>resolve_deploy_yaml\<close> is Python's recursion depth). \<open>Stage_Merge\<close>: platform and caller overrides, the
    configuration a stage is started with, finding the pipeline of a model. \<open>Stage_Merge_Properties\<close>: which
    of several settings counts, what is inherited, which topologies are valid, which name is found.
    What files hold, the platform and what importing a module gives are arguments.

  \<^bold>\<open>Hypotheses on code outside.\<close> \<open>largest_k\<close>: \<open>torch.topk\<close> returns distinct places of largest values,
  ties open. \<open>times_ok\<close>: the time steps ascend; the exact formula satisfies it (\<open>exact_times_ok\<close>).
  \<open>row_independent\<close>: the network computes each row from the positions its masks show, as masked
  attention does; only the two theorems of \<open>Omnivoice_Equivalence\<close> need it. \<open>framewise\<close>: the audio
  decoder gives the same number of samples for every frame. \<open>results_of_batch\<close>: the executor returns
  results of the batch it was given. The network, the random numbers, the
  tokenizer, the stages' input and output processors, the connector's serializer, the clock and the runner are unconstrained unless a theorem
  says so. \<open>Omnivoice_Example\<close> and the witnesses satisfy every hypothesis by concrete functions.

  \<^bold>\<open>Not modelled.\<close> The HTTP entry points, start-up of processes, the configuration beyond that of the stages, the schedulers of
  the autoregressive engine (which extend classes of another package), the transformer and the other tensor code, attention, caches and collective arithmetic of the diffusion models,
  serialization, sockets and RDMA, metrics and benchmarks. Floating-point rounding is left out: where
  it could matter, the rounded values are an argument (the time steps) or the theorem is about order
  and counting only. Atomicity follows the source's locks: what runs under one lock is one step.
\<close>

end
